(* ===== verification/ArkiPrelude.thy ===== *)
theory ArkiPrelude
  imports Main "HOL-Library.AList" "HOL-Library.Word"
begin

text \<open>
  What the components of the development share: results with errors as values, decimal
  digits (the JavaScript number-to-text conversion of a whole number), JavaScript \<open>Map\<close>s
  in insertion order as association lists, and the lemma collections that the component
  proofs extend and use.
\<close>

section \<open>Lemma collections\<close>

named_theorems result_simps \<open>how results with errors compose\<close>
named_theorems decimal_simps \<open>facts about decimal digit lists\<close>
named_theorems entry_simps \<open>facts about association lists in insertion order\<close>

section \<open>Results: an error or a value\<close>

text \<open>
  A function of the source that may throw (or return a failure) has a sum as its result:
  \<open>Inl\<close> the error, \<open>Inr\<close> the value. \<open>rbind\<close> runs the next part only on a value, as the
  statement after a call that may throw is reached only when the call returns.
\<close>

fun rbind :: "'e + 'a \<Rightarrow> ('a \<Rightarrow> 'e + 'b) \<Rightarrow> 'e + 'b" where
  "rbind (Inl e) f = Inl e"
| "rbind (Inr a) f = f a"

fun rmap_list :: "('a \<Rightarrow> 'e + 'b) \<Rightarrow> 'a list \<Rightarrow> 'e + 'b list" where
  "rmap_list f [] = Inr []"
| "rmap_list f (x # xs) = rbind (f x) (\<lambda>y. rbind (rmap_list f xs) (\<lambda>ys. Inr (y # ys)))"

lemma rbind_Inr_iff [result_simps]: "rbind r f = Inr b \<longleftrightarrow> (\<exists>a. r = Inr a \<and> f a = Inr b)"
  by (cases r) auto

lemma rbind_Inl_iff [result_simps]:
  "rbind r f = Inl e \<longleftrightarrow> r = Inl e \<or> (\<exists>a. r = Inr a \<and> f a = Inl e)"
  by (cases r) auto

lemma rbind_cong [fundef_cong]:
  "r = r' \<Longrightarrow> (\<And>a. r' = Inr a \<Longrightarrow> f a = f' a) \<Longrightarrow> rbind r f = rbind r' f'"
  by (cases r) auto

lemma rmap_list_Inr:
  "rmap_list f xs = Inr ys \<longleftrightarrow> list_all2 (\<lambda>x y. f x = Inr y) xs ys"
  by (induction xs arbitrary: ys) (auto simp: result_simps list_all2_Cons1)

lemma rmap_list_length: "rmap_list f xs = Inr ys \<Longrightarrow> length ys = length xs"
  by (auto simp: rmap_list_Inr dest: list_all2_lengthD)

section \<open>Decimal digits\<close>

text \<open>The digits of \<open>String(n)\<close> for a whole number \<open>n\<close>, most significant first.\<close>

fun dec_digits :: "nat \<Rightarrow> nat list" where
  "dec_digits n = (if n < 10 then [n] else dec_digits (n div 10) @ [n mod 10])"

declare dec_digits.simps [simp del]

definition dec_value :: "nat list \<Rightarrow> nat" where
  "dec_value ds = foldl (\<lambda>a d. 10 * a + d) 0 ds"

lemma dec_value_snoc [decimal_simps]: "dec_value (ds @ [d]) = 10 * dec_value ds + d"
  by (simp add: dec_value_def)

lemma dec_value_digits [decimal_simps]: "dec_value (dec_digits n) = n"
proof (induction n rule: dec_digits.induct)
  case (1 n)
  show ?case
  proof (cases "n < 10")
    case True
    then show ?thesis by (simp add: dec_digits.simps [of n] dec_value_def)
  next
    case False
    with 1 show ?thesis by (simp add: dec_digits.simps [of n] dec_value_snoc)
  qed
qed

lemma dec_digits_inj [decimal_simps]: "dec_digits m = dec_digits n \<longleftrightarrow> m = n"
  by (metis dec_value_digits)

lemma dec_digits_nonempty [decimal_simps]: "dec_digits n \<noteq> []"
  by (subst dec_digits.simps) simp

lemma dec_digits_small: "d \<in> set (dec_digits n) \<Longrightarrow> d < 10"
proof (induction n rule: dec_digits.induct)
  case (1 n)
  then show ?case by (cases "n < 10") (auto simp: dec_digits.simps [of n])
qed

lemma dec_digits_hd_pos: "0 < n \<Longrightarrow> 0 < hd (dec_digits n)"
proof (induction n rule: dec_digits.induct)
  case (1 n)
  show ?case
  proof (cases "n < 10")
    case True
    with 1 show ?thesis by (simp add: dec_digits.simps [of n])
  next
    case False
    with 1 have "0 < hd (dec_digits (n div 10))" by simp
    with False show ?thesis by (simp add: dec_digits.simps [of n] hd_append decimal_simps)
  qed
qed

lemma dec_value_append: "dec_value (xs @ ys) = dec_value xs * 10 ^ length ys + dec_value ys"
proof (induction ys rule: rev_induct)
  case Nil
  then show ?case by (simp add: dec_value_def)
next
  case (snoc y ys)
  then show ?case by (simp add: dec_value_snoc algebra_simps flip: append_assoc)
qed

lemma dec_value_zeros [decimal_simps]: "dec_value (replicate k 0 @ ds) = dec_value ds"
proof -
  have "dec_value (replicate k 0) = 0"
    by (induction k) (simp_all add: dec_value_def)
  then show ?thesis by (simp add: dec_value_append)
qed

lemma dec_digits_snoc: "0 < n \<Longrightarrow> d < 10 \<Longrightarrow> dec_digits (10 * n + d) = dec_digits n @ [d]"
  by (subst dec_digits.simps) simp

lemma dec_digits_value:
  assumes "ds \<noteq> []" "\<forall>d \<in> set ds. d < 10" "hd ds \<noteq> 0"
  shows "0 < dec_value ds \<and> dec_digits (dec_value ds) = ds"
  using assms
proof (induction ds rule: rev_induct)
  case Nil
  then show ?case by simp
next
  case (snoc d ds)
  show ?case
  proof (cases "ds = []")
    case True
    with snoc.prems show ?thesis by (simp add: dec_value_def dec_digits.simps [of d])
  next
    case False
    with snoc have "0 < dec_value ds" "dec_digits (dec_value ds) = ds" by auto
    with snoc.prems show ?thesis by (simp add: dec_value_snoc dec_digits_snoc)
  qed
qed

section \<open>Maps in insertion order\<close>

text \<open>
  A JavaScript \<open>Map\<close> iterates in insertion order, and setting a key that is present keeps
  its place. \<open>AList.update\<close> and \<open>AList.delete\<close> do exactly that on an association list.
\<close>

lemma map_fst_update [entry_simps]:
  "map fst (AList.update k v xs) = (if k \<in> fst ` set xs then map fst xs else map fst xs @ [k])"
  by (induction xs) auto

lemma update_fresh [entry_simps]: "k \<notin> fst ` set xs \<Longrightarrow> AList.update k v xs = xs @ [(k, v)]"
  by (induction xs) auto

lemma delete_absent [entry_simps]: "k \<notin> fst ` set xs \<Longrightarrow> AList.delete k xs = xs"
  by (induction xs) auto

lemma delete_sum_list:
  fixes f :: "'v \<Rightarrow> 'a :: comm_monoid_add"
  assumes "distinct (map fst xs)" and "map_of xs k = Some v"
  shows "(\<Sum>a\<leftarrow>xs. f (snd a)) = f v + (\<Sum>a\<leftarrow>AList.delete k xs. f (snd a))"
  using assms
proof (induction xs)
  case Nil
  then show ?case by simp
next
  case (Cons x xs)
  show ?case
  proof (cases "fst x = k")
    case True
    with Cons.prems have "k \<notin> fst ` set xs" "snd x = v" by auto
    with True show ?thesis by (cases x) (simp add: delete_absent)
  next
    case False
    with Cons show ?thesis by (cases x) (auto simp: add_ac split: if_splits)
  qed
qed

end
