(* ===== verification/LockKey.thy ===== *)
theory LockKey
  imports ArkiPrelude
begin

unbundle bit_operations_syntax

text \<open>
  Canonical lock keys: \<open>packages/lock/src/key.ts\<close> (encoding, digest) and the decoder of
  \<open>packages/lock/src/identity-schemas.ts\<close>. A JavaScript string is its list of UTF-16 code
  units. The lemmas show that the one-pass length check agrees with the schema it stands
  for, that decoding undoes encoding (so two different locks never share a key), and that
  the inline UTF-8 digest is FNV-1a over the bytes \<open>TextEncoder\<close> makes.
\<close>

section \<open>JavaScript strings\<close>

type_synonym code_unit = "16 word"
type_synonym js_string = "code_unit list"

text \<open>An ASCII text as code units: the constants of the source are written \<open>js ''...''\<close>.\<close>

definition js :: "string \<Rightarrow> js_string" where
  "js cs = map (\<lambda>c. of_nat (of_char c)) cs"

definition is_lead :: "code_unit \<Rightarrow> bool" where
  "is_lead u \<longleftrightarrow> 0xD800 \<le> unat u \<and> unat u \<le> 0xDBFF"

definition is_trail :: "code_unit \<Rightarrow> bool" where
  "is_trail u \<longleftrightarrow> 0xDC00 \<le> unat u \<and> unat u \<le> 0xDFFF"

text \<open>
  \<open>text.codePointAt(index) ?? 0\<close>, on the rest of the text from \<open>index\<close>: a surrogate pair is
  one code point above U+FFFF, anything else (a lone surrogate too) is its own unit.
\<close>

fun code_point_at :: "js_string \<Rightarrow> nat" where
  "code_point_at [] = 0"
| "code_point_at [u] = unat u"
| "code_point_at (u # v # _) =
     (if is_lead u \<and> is_trail v
      then (unat u - 0xD800) * 0x400 + (unat v - 0xDC00) + 0x10000
      else unat u)"

definition is_surrogate :: "nat \<Rightarrow> bool" where
  "is_surrogate p \<longleftrightarrow> p \<ge> 0xD800 \<and> p \<le> 0xDFFF"

section \<open>The length check\<close>

definition MAX_NAME_BYTES :: nat where
  "MAX_NAME_BYTES = 512"

text \<open>The loop of \<open>partBytes\<close>: the bytes so far, \<open>None\<close> at a lone surrogate.\<close>

fun part_bytes_loop :: "js_string \<Rightarrow> nat \<Rightarrow> nat option" where
  "part_bytes_loop [] bytes = Some bytes"
| "part_bytes_loop (u # rest) bytes =
     (let point = code_point_at (u # rest)
      in if point < 0x80 then part_bytes_loop rest (bytes + 1)
         else if point < 0x800 then part_bytes_loop rest (bytes + 2)
         else if point > 0xFFFF then part_bytes_loop (tl rest) (bytes + 4)
         else if is_surrogate point then None
         else part_bytes_loop rest (bytes + 3))"

definition part_bytes :: "js_string \<Rightarrow> int" where
  "part_bytes value =
     (if value = [] then -1
      else case part_bytes_loop value 0 of
             None \<Rightarrow> -1
           | Some bytes \<Rightarrow> if bytes \<le> MAX_NAME_BYTES then int bytes else -1)"

section \<open>UTF-8, and the schema of a part\<close>

text \<open>The code points of a string, in the order \<open>codePointAt\<close> visits them.\<close>

fun code_points :: "js_string \<Rightarrow> nat list" where
  "code_points [] = []"
| "code_points (u # rest) =
     (let point = code_point_at (u # rest)
      in point # code_points (if point > 0xFFFF then tl rest else rest))"

text \<open>
  The bytes of one code point as the UTF-8 standard writes them: the reference the inline
  encoder is compared with. \<open>TextEncoder\<close> replaces a lone surrogate with U+FFFD.
\<close>

definition utf8_bytes :: "nat \<Rightarrow> nat list" where
  "utf8_bytes p =
     (if p < 0x80 then [p]
      else if p < 0x800 then [0xC0 + p div 64, 0x80 + p mod 64]
      else if p < 0x10000 then [0xE0 + p div 4096, 0x80 + p div 64 mod 64, 0x80 + p mod 64]
      else [0xF0 + p div 262144, 0x80 + p div 4096 mod 64, 0x80 + p div 64 mod 64, 0x80 + p mod 64])"

definition text_encode :: "js_string \<Rightarrow> 8 word list" where
  "text_encode s =
     concat (map (\<lambda>p. map of_nat (utf8_bytes (if is_surrogate p then 0xFFFD else p))) (code_points s))"

text \<open>\<open>keyNameSchema\<close>: not empty, no lone surrogate, at most 512 bytes of UTF-8.\<close>

definition key_name_schema :: "js_string \<Rightarrow> bool" where
  "key_name_schema value \<longleftrightarrow>
     value \<noteq> [] \<and> (\<forall>p \<in> set (code_points value). \<not> is_surrogate p)
     \<and> length (text_encode value) \<le> MAX_NAME_BYTES"

section \<open>Decoding\<close>

text \<open>
  \<open>keyMember\<close>: a decimal length without a leading zero, a colon, and that many bytes of
  text. The position in the text is the rest of the text from there on: the result is the
  member and the rest behind it.
\<close>

definition is_digit :: "code_unit \<Rightarrow> bool" where
  "is_digit u \<longleftrightarrow> 48 \<le> unat u \<and> unat u \<le> 57"

definition COLON :: code_unit where
  "COLON = 58"

definition length_text_ok :: "js_string \<Rightarrow> bool" where
  "length_text_ok t \<longleftrightarrow> t \<noteq> [] \<and> list_all is_digit t \<and> hd t \<noteq> 48"

definition number_of_digits :: "js_string \<Rightarrow> nat" where
  "number_of_digits t = dec_value (map (\<lambda>u. unat u - 48) t)"

fun member_scan :: "js_string \<Rightarrow> nat \<Rightarrow> nat \<Rightarrow> nat \<times> js_string \<times> js_string" where
  "member_scan [] sz bytes = (bytes, [], [])"
| "member_scan (u # rest) sz bytes =
     (if bytes < sz then
        let point = code_point_at (u # rest);
            bytes' = bytes + (if point < 0x80 then 1 else if point < 0x800 then 2
                              else if point \<le> 0xFFFF then 3 else 4)
        in if point > 0xFFFF
           then (case member_scan (tl rest) sz bytes' of
                   (b, value, behind) \<Rightarrow> (b, u # take 1 rest @ value, behind))
           else (case member_scan rest sz bytes' of
                   (b, value, behind) \<Rightarrow> (b, u # value, behind))
      else (bytes, [], u # rest))"

definition key_member :: "js_string \<Rightarrow> (js_string \<times> js_string) option" where
  "key_member text =
     (let length_text = takeWhile (\<lambda>u. u \<noteq> COLON) text;
          after = dropWhile (\<lambda>u. u \<noteq> COLON) text
      in if after = [] \<or> \<not> length_text_ok length_text then None
         else let sz = number_of_digits length_text
              in if sz > MAX_NAME_BYTES then None
                 else case member_scan (tl after) sz 0 of
                        (bytes, value, behind) \<Rightarrow>
                          if bytes = sz \<and> key_name_schema value then Some (value, behind) else None)"

datatype primitive = Mutex | Semaphore | ReadWrite

fun primitive_tag :: "primitive \<Rightarrow> js_string" where
  "primitive_tag Mutex = js ''1''"
| "primitive_tag Semaphore = js ''1s''"
| "primitive_tag ReadWrite = js ''1rw''"

text \<open>The tag pattern \<open>^1(?:s|rw)?:\<close>, and what follows it.\<close>

definition strip_tag :: "js_string \<Rightarrow> js_string option" where
  "strip_tag text =
     (let starts = (\<lambda>tag. take (length tag) text = tag)
      in if starts (js ''1s:'') then Some (drop 3 text)
         else if starts (js ''1rw:'') then Some (drop 4 text)
         else if starts (js ''1:'') then Some (drop 2 text)
         else None)"

definition decode_key :: "js_string \<Rightarrow> (js_string \<times> js_string) option" where
  "decode_key text =
     (case strip_tag text of
        None \<Rightarrow> None
      | Some t \<Rightarrow>
          (case key_member t of
             None \<Rightarrow> None
           | Some (namespace, after) \<Rightarrow>
               if after = [] \<or> hd after \<noteq> COLON then None
               else (case key_member (tl after) of
                       None \<Rightarrow> None
                     | Some (name, behind) \<Rightarrow> if behind \<noteq> [] then None else Some (namespace, name))))"

section \<open>Building keys\<close>

datatype part_label = NamespaceLabel | NameLabel

text \<open>What \<open>createKey\<close> throws: \<open>LockError{code:'config'}\<close> for a part, or the parse of \<open>lockKeySchema\<close>.\<close>

datatype key_error = ConfigError part_label | KeySchemaError

record key =
  namespace_of :: js_string
  name_of :: js_string
  full :: js_string

definition checked_part :: "part_label \<Rightarrow> js_string \<Rightarrow> key_error + nat" where
  "checked_part label value =
     (let bytes = part_bytes value
      in if bytes \<noteq> -1 then Inr (nat bytes) else Inl (ConfigError label))"

text \<open>A whole number in a template literal.\<close>

definition number_text :: "nat \<Rightarrow> js_string" where
  "number_text n = map (\<lambda>d. of_nat (48 + d)) (dec_digits n)"

definition encode_full :: "primitive \<Rightarrow> nat \<Rightarrow> js_string \<Rightarrow> nat \<Rightarrow> js_string \<Rightarrow> js_string" where
  "encode_full prim ns_length namespace name_length name =
     primitive_tag prim @ [COLON] @ number_text ns_length @ [COLON] @ namespace @ [COLON] @
     number_text name_length @ [COLON] @ name"

definition create_key :: "js_string \<Rightarrow> js_string \<Rightarrow> primitive \<Rightarrow> key_error + key" where
  "create_key namespace name prim =
     rbind (checked_part NamespaceLabel namespace) (\<lambda>ns_length.
     rbind (checked_part NameLabel name) (\<lambda>name_length.
       let text = encode_full prim ns_length namespace name_length name
       in if decode_key text = None then Inl KeySchemaError
          else Inr \<lparr>namespace_of = namespace, name_of = name, full = text\<rparr>))"

section \<open>The digest\<close>

definition FNV64_OFFSET :: "64 word" where
  "FNV64_OFFSET = 0xCBF29CE484222325"

definition FNV64_PRIME :: "64 word" where
  "FNV64_PRIME = 0x100000001B3"

definition fnv_step :: "64 word \<Rightarrow> nat \<Rightarrow> 64 word" where
  "fnv_step hash byte = (hash XOR of_nat byte) * FNV64_PRIME"

definition fnv1a64 :: "8 word list \<Rightarrow> 64 word" where
  "fnv1a64 bytes = foldl (\<lambda>hash byte. fnv_step hash (unat byte)) FNV64_OFFSET bytes"

fun fnv1a64_utf8_loop :: "js_string \<Rightarrow> 64 word \<Rightarrow> 64 word" where
  "fnv1a64_utf8_loop [] hash = hash"
| "fnv1a64_utf8_loop (u # text) hash =
     (let point0 = code_point_at (u # text);
          rest = (if point0 > 0xFFFF then tl text else text);
          point = (if point0 > 0xFFFF then point0
                   else if is_surrogate point0 then 0xFFFD else point0)
      in fnv1a64_utf8_loop rest
           (if point < 0x80 then fnv_step hash point
            else if point < 0x800 then
              fnv_step (fnv_step hash (0xC0 OR drop_bit 6 point)) (0x80 OR (point AND 0x3F))
            else if point < 0x10000 then
              fnv_step (fnv_step (fnv_step hash (0xE0 OR drop_bit 12 point))
                (0x80 OR (drop_bit 6 point AND 0x3F))) (0x80 OR (point AND 0x3F))
            else
              fnv_step (fnv_step (fnv_step (fnv_step hash (0xF0 OR drop_bit 18 point))
                (0x80 OR (drop_bit 12 point AND 0x3F)))
                (0x80 OR (drop_bit 6 point AND 0x3F))) (0x80 OR (point AND 0x3F))))"

definition fnv1a64_utf8 :: "js_string \<Rightarrow> 64 word" where
  "fnv1a64_utf8 text = fnv1a64_utf8_loop text FNV64_OFFSET"

definition digest64 :: "key \<Rightarrow> 64 word" where
  "digest64 k = fnv1a64_utf8 (full k)"

text \<open>\<open>Number(BigInt.asIntN(32, _))\<close>: the low 32 bits, read as two's complement.\<close>

definition as_int32 :: "64 word \<Rightarrow> int" where
  "as_int32 w = sint (ucast w :: 32 word)"

definition to_pg_pair :: "key \<Rightarrow> int \<times> int" where
  "to_pg_pair k = (let digest = digest64 k in (as_int32 (drop_bit 32 digest), as_int32 digest))"

definition legacy_pg_text :: "key \<Rightarrow> js_string" where
  "legacy_pg_text k = namespace_of k @ [COLON] @ name_of k"

section \<open>Code points\<close>

lemma unat_code_unit: "unat (u :: code_unit) < 65536"
  using unsigned_less [of u, where ?'a = nat] by simp

lemma code_point_single:
  "code_point_at (u # rest) \<le> 0xFFFF \<Longrightarrow> code_point_at (u # rest) = unat u"
  by (cases rest) (auto split: if_splits)

lemma code_point_pair:
  assumes "code_point_at (u # rest) > 0xFFFF"
  obtains v t where "rest = v # t" "is_lead u" "is_trail v"
  using assms unat_code_unit [of u] by (cases rest) (auto split: if_splits)

lemma code_point_bound: "code_point_at (u # rest) < 0x110000"
  using unat_code_unit [of u]
  by (cases rest) (auto simp: is_lead_def is_trail_def split: if_splits)

lemma code_point_same_next:
  "code_point_at (u # v # t) = code_point_at (u # v # t')"
  by simp

text \<open>A code point that is not a surrogate does not depend on what follows it.\<close>

lemma code_point_append:
  "\<not> is_surrogate (code_point_at (u # t)) \<Longrightarrow> code_point_at (u # t @ r) = code_point_at (u # t)"
  by (cases t; cases r) (auto simp: is_surrogate_def is_lead_def)

section \<open>The one-pass length check is the schema\<close>

lemma code_points_Cons:
  "code_points (u # rest) = code_point_at (u # rest) #
     code_points (if code_point_at (u # rest) > 0xFFFF then tl rest else rest)"
  by (simp add: Let_def)

lemma text_encode_Nil [simp]: "text_encode [] = []"
  by (simp add: text_encode_def)

lemma text_encode_Cons:
  "text_encode (u # rest) =
     map of_nat (utf8_bytes (if is_surrogate (code_point_at (u # rest)) then 0xFFFD
                             else code_point_at (u # rest)))
     @ text_encode (if code_point_at (u # rest) > 0xFFFF then tl rest else rest)"
  unfolding text_encode_def code_points_Cons by simp

lemma length_utf8_bytes:
  "length (utf8_bytes p) = (if p < 0x80 then 1 else if p < 0x800 then 2 else if p \<le> 0xFFFF then 3 else 4)"
  by (simp add: utf8_bytes_def)

lemma part_bytes_loop_eq:
  "part_bytes_loop s b =
     (if \<exists>p \<in> set (code_points s). is_surrogate p then None else Some (b + length (text_encode s)))"
proof (induction s b rule: part_bytes_loop.induct)
  case (1 b)
  then show ?case by simp
next
  case (2 u rest b)
  let ?p = "code_point_at (u # rest)"
  consider "?p < 0x80" | "0x80 \<le> ?p" "?p < 0x800" | "0xFFFF < ?p"
    | "0x800 \<le> ?p" "?p \<le> 0xFFFF" by linarith
  then show ?case
  proof cases
    case 1
    with 2 show ?thesis
      by (simp add: code_points_Cons text_encode_Cons length_utf8_bytes is_surrogate_def
               del: code_points.simps code_point_at.simps)
  next
    case 2
    with "2.IH" show ?thesis
      by (simp add: code_points_Cons text_encode_Cons length_utf8_bytes is_surrogate_def
               del: code_points.simps code_point_at.simps)
  next
    case 3
    with "2.IH" show ?thesis
      by (simp add: code_points_Cons text_encode_Cons length_utf8_bytes is_surrogate_def
               del: code_points.simps code_point_at.simps)
  next
    case 4
    with "2.IH" show ?thesis
      by (simp add: code_points_Cons text_encode_Cons length_utf8_bytes
               del: code_points.simps code_point_at.simps)
  qed
qed

lemma part_bytes_loop_Some:
  "part_bytes_loop s b = Some n \<longleftrightarrow>
     (\<forall>p \<in> set (code_points s). \<not> is_surrogate p) \<and> n = b + length (text_encode s)"
  by (auto simp: part_bytes_loop_eq)

lemma part_bytes_eq:
  "part_bytes value = (if key_name_schema value then int (length (text_encode value)) else -1)"
  by (auto simp: part_bytes_def key_name_schema_def part_bytes_loop_eq)

text \<open>
  The one-pass byte count of a key part agrees with the schema it stands for: it is the
  length of the UTF-8 encoding exactly when the schema accepts the part, and -1 otherwise.
\<close>

theorem part_bytes_schema:
  "part_bytes value = (if key_name_schema value then int (length (text_encode value)) else -1)"
  by (rule part_bytes_eq)

lemma checked_part_eq:
  "checked_part label v = (if key_name_schema v then Inr (length (text_encode v)) else Inl (ConfigError label))"
  by (simp add: checked_part_def part_bytes_eq)

section \<open>Decoding undoes encoding\<close>

lemma text_encode_pos: "s \<noteq> [] \<Longrightarrow> 0 < length (text_encode s)"
  by (cases s) (auto simp: text_encode_Cons length_utf8_bytes)

lemma part_bytes_loop_less: "part_bytes_loop (u # s) b = Some n \<Longrightarrow> b < n"
  unfolding part_bytes_loop_Some using text_encode_pos [of "u # s"] by simp

text \<open>Scanning for as many bytes as a part has stops exactly behind it, whatever follows.\<close>

lemma member_scan_part:
  "part_bytes_loop v b = Some n \<Longrightarrow> member_scan (v @ r) n b = (n, v, r)"
proof (induction v b arbitrary: n rule: part_bytes_loop.induct)
  case (1 b)
  then show ?case by (cases r) auto
next
  case (2 u rest b)
  let ?p = "code_point_at (u # rest)"
  from "2.prems" have lt: "b < n" by (rule part_bytes_loop_less)
  from "2.prems" have ok: "\<not> is_surrogate ?p"
    unfolding part_bytes_loop_Some code_points_Cons by simp
  have p: "code_point_at (u # rest @ r) = ?p" by (rule code_point_append [OF ok])
  show ?case
  proof (cases "?p > 0xFFFF")
    case True
    then obtain v t where rest: "rest = v # t" by (rule code_point_pair)
    from 2 True ok have "member_scan (t @ r) n (b + 4) = (n, t, r)"
      by (simp add: rest del: code_point_at.simps)
    with lt True p show ?thesis by (simp add: rest Let_def del: code_point_at.simps)
  next
    case False
    with 2 ok have "member_scan (rest @ r) n (b + (if ?p < 0x80 then 1 else if ?p < 0x800 then 2 else 3)) = (n, rest, r)"
      by (auto simp del: code_point_at.simps split: if_splits)
    with lt False p show ?thesis by (auto simp: Let_def simp del: code_point_at.simps)
  qed
qed

lemma unat_digit_unit [simp]: "d < 10 \<Longrightarrow> unat (48 + of_nat d :: code_unit) = 48 + d"
  by (simp add: unat_word_ariths unat_of_nat)

lemma number_text_digits: "u \<in> set (number_text n) \<Longrightarrow> is_digit u"
  by (auto simp: number_text_def is_digit_def dest!: dec_digits_small)

lemma COLON_not_digit: "\<not> is_digit COLON"
  by (simp add: is_digit_def COLON_def)

lemma number_text_no_colon: "COLON \<notin> set (number_text n)"
  using number_text_digits COLON_not_digit by blast

lemma number_of_digits_text [simp]: "number_of_digits (number_text n) = n"
proof -
  have "map ((\<lambda>u. unat u - 48) \<circ> (\<lambda>d. of_nat (48 + d) :: code_unit)) (dec_digits n) = dec_digits n"
    by (rule map_idI) (auto dest: dec_digits_small)
  then show ?thesis by (simp add: number_of_digits_def number_text_def dec_value_digits)
qed

lemma length_text_ok_number: "0 < n \<Longrightarrow> length_text_ok (number_text n)"
proof -
  assume "0 < n"
  then have "0 < hd (dec_digits n)" by (rule dec_digits_hd_pos)
  moreover have "hd (dec_digits n) < 10"
    by (rule dec_digits_small [of _ n]) (simp add: dec_digits_nonempty)
  ultimately have "unat (48 + of_nat (hd (dec_digits n)) :: code_unit) \<noteq> 48"
    by simp
  then have "hd (number_text n) \<noteq> 48"
    by (auto simp: number_text_def hd_map dec_digits_nonempty)
  then show ?thesis
    using number_text_digits by (auto simp: length_text_ok_def list_all_iff number_text_def dec_digits_nonempty)
qed

lemma takeWhile_no_colon: "COLON \<notin> set t \<Longrightarrow> takeWhile (\<lambda>u. u \<noteq> COLON) (t @ COLON # r) = t"
  by (induction t) auto

lemma dropWhile_no_colon: "COLON \<notin> set t \<Longrightarrow> dropWhile (\<lambda>u. u \<noteq> COLON) (t @ COLON # r) = COLON # r"
  by (induction t) auto

lemma key_member_encode:
  assumes "key_name_schema v"
  shows "key_member (number_text (length (text_encode v)) @ COLON # v @ r) = Some (v, r)"
proof -
  let ?n = "length (text_encode v)"
  from assms have pos: "0 < ?n" and le: "?n \<le> MAX_NAME_BYTES"
    using text_encode_pos [of v] by (auto simp: key_name_schema_def)
  from assms have "part_bytes_loop v 0 = Some ?n"
    by (auto simp: part_bytes_loop_Some key_name_schema_def)
  then have "member_scan (v @ r) ?n 0 = (?n, v, r)" by (rule member_scan_part)
  with assms pos le show ?thesis
    by (simp add: key_member_def number_text_no_colon takeWhile_no_colon dropWhile_no_colon
        length_text_ok_number Let_def)
qed

lemma strip_tag_encode: "strip_tag (primitive_tag p @ COLON # t) = Some t"
  by (cases p) (simp_all add: strip_tag_def js_def COLON_def)

lemma decode_encode_full:
  assumes "key_name_schema ns" "key_name_schema nm"
  shows "decode_key (encode_full p (length (text_encode ns)) ns (length (text_encode nm)) nm) = Some (ns, nm)"
  using assms key_member_encode [of nm "[]"] key_member_encode [of ns]
  by (simp add: decode_key_def encode_full_def strip_tag_encode)

lemma create_key_Inr:
  "create_key ns nm p = Inr k \<longleftrightarrow>
     key_name_schema ns \<and> key_name_schema nm \<and>
     k = \<lparr>namespace_of = ns, name_of = nm,
          full = encode_full p (length (text_encode ns)) ns (length (text_encode nm)) nm\<rparr>"
  by (auto simp: create_key_def checked_part_eq decode_encode_full Let_def split: if_splits)

text \<open>
  \<open>createKey\<close> accepts exactly the parts of the schema, names the first part that is
  refused, and for accepted parts returns the length-delimited text, which its own
  \<open>lockKeySchema.parse\<close> never refuses.
\<close>

theorem create_key_result:
  "create_key ns nm p =
     (if \<not> key_name_schema ns then Inl (ConfigError NamespaceLabel)
      else if \<not> key_name_schema nm then Inl (ConfigError NameLabel)
      else Inr \<lparr>namespace_of = ns, name_of = nm,
                full = encode_full p (length (text_encode ns)) ns (length (text_encode nm)) nm\<rparr>)"
  by (simp add: create_key_def checked_part_eq decode_encode_full)

lemma create_key_decode:
  assumes "create_key ns nm p = Inr k"
  shows "decode_key (full k) = Some (namespace_of k, name_of k)"
  using assms by (auto simp: create_key_Inr decode_encode_full)

text \<open>The tag in front of the first colon tells the primitive.\<close>

lemma tag_of_full:
  "takeWhile (\<lambda>u. u \<noteq> COLON) (encode_full p a ns b nm) = primitive_tag p"
  by (cases p) (simp_all add: encode_full_def js_def COLON_def)

lemma primitive_tag_inj: "primitive_tag p = primitive_tag q \<longleftrightarrow> p = q"
  by (cases p; cases q) (simp_all add: js_def)

text \<open>
  No two locks share a key: keys with the same full text have the same namespace, the
  same name and the same primitive.
\<close>

theorem create_key_injective:
  assumes "create_key ns nm p = Inr k" and "create_key ns' nm' p' = Inr k'" and "full k = full k'"
  shows "ns = ns' \<and> nm = nm' \<and> p = p'"
proof -
  from assms(1) have "decode_key (full k) = Some (namespace_of k, name_of k)"
    by (rule create_key_decode)
  moreover from assms(2) have "decode_key (full k') = Some (namespace_of k', name_of k')"
    by (rule create_key_decode)
  ultimately have "ns = ns'" "nm = nm'"
    using assms by (auto simp: create_key_Inr)
  moreover have "primitive_tag p = primitive_tag p'"
    using assms tag_of_full by (auto simp: create_key_Inr) metis
  ultimately show ?thesis by (simp add: primitive_tag_inj)
qed

lemma sample_key:
  "create_key (js ''a:b'') (js ''c'') Semaphore =
     Inr \<lparr>namespace_of = js ''a:b'', name_of = js ''c'', full = js ''1s:3:a:b:1:c''\<rparr>"
  by (simp add: create_key_Inr key_name_schema_def text_encode_def utf8_bytes_def js_def encode_full_def
      number_text_def dec_digits.simps COLON_def is_surrogate_def MAX_NAME_BYTES_def is_lead_def is_trail_def)

theorem create_key_injective_witness:
  "\<exists>k. create_key (js ''a:b'') (js ''c'') Semaphore = Inr k \<and>
     js ''a:b'' = js ''a:b'' \<and> js ''c'' = js ''c'' \<and> Semaphore = Semaphore"
  using create_key_injective [OF sample_key sample_key refl] sample_key by blast

section \<open>Only built keys decode\<close>

lemma member_scan_split:
  assumes "member_scan t sz b = (n, v, r)"
  shows "t = v @ r"
  using assms
proof (induction t sz b arbitrary: n v r rule: member_scan.induct)
  case (1 sz b)
  then show ?case by simp
next
  case (2 u rest sz b)
  show ?case
  proof (cases "b < sz \<and> code_point_at (u # rest) > 0xFFFF")
    case True
    then obtain w t where rest: "rest = w # t" by (auto elim: code_point_pair)
    with 2 True show ?thesis
      by (auto simp: Let_def simp del: code_point_at.simps split: prod.splits if_splits)
  next
    case False
    with 2 show ?thesis
      by (auto simp: Let_def simp del: code_point_at.simps split: prod.splits if_splits)
  qed
qed

lemma code_point_prefix:
  assumes "code_point_at (u # v @ r) \<le> 0xFFFF"
  shows "code_point_at (u # v) = code_point_at (u # v @ r)"
proof (cases v)
  case Nil
  from code_point_single [OF assms] show ?thesis by (simp add: Nil del: code_point_at.simps(3))
next
  case (Cons w t)
  then show ?thesis by simp
qed

text \<open>What a scan counts is what the length check counts, when the scanned text is well formed.\<close>

lemma member_scan_bytes:
  assumes "member_scan t sz b = (n, v, r)" "\<forall>p \<in> set (code_points v). \<not> is_surrogate p"
  shows "part_bytes_loop v b = Some n"
  using assms
proof (induction t sz b arbitrary: n v r rule: member_scan.induct)
  case (1 sz b)
  then show ?case by simp
next
  case (2 u rest sz b)
  let ?p = "code_point_at (u # rest)"
  consider (stop) "\<not> b < sz" | (pair) "b < sz" "?p > 0xFFFF" | (single) "b < sz" "?p \<le> 0xFFFF"
    by linarith
  then show ?case
  proof cases
    case stop
    with "2.prems" show ?thesis by simp
  next
    case pair
    then obtain w t where rest: "rest = w # t" by (auto elim: code_point_pair)
    from pair "2.prems"(1) obtain v' where v: "v = u # w # v'"
      and scan: "member_scan t sz (b + 4) = (n, v', r)"
      by (auto simp: rest Let_def simp del: code_point_at.simps split: prod.splits)
    have p: "code_point_at (u # w # v') = ?p" by (simp add: rest)
    from "2.prems"(2) pair have "\<forall>p \<in> set (code_points v'). \<not> is_surrogate p"
      by (auto simp: v code_points_Cons p simp del: code_points.simps code_point_at.simps)
    with "2.IH"(1) [OF pair(1) refl refl pair(2)] scan pair have "part_bytes_loop v' (b + 4) = Some n"
      by (simp add: rest)
    with pair p show ?thesis by (simp add: v Let_def del: code_point_at.simps)
  next
    case single
    let ?w = "if ?p < 0x80 then 1 else if ?p < 0x800 then 2 else 3 :: nat"
    from single "2.prems"(1) obtain v' where v: "v = u # v'"
      and scan: "member_scan rest sz (b + ?w) = (n, v', r)"
      by (auto simp: Let_def simp del: code_point_at.simps split: prod.splits if_splits)
    from member_scan_split [OF scan] single have p: "code_point_at (u # v') = ?p"
      by (auto intro: code_point_prefix)
    from "2.prems"(2) single have ok: "\<not> is_surrogate ?p"
      and rest_ok: "\<forall>p \<in> set (code_points v'). \<not> is_surrogate p"
      by (auto simp: v code_points_Cons p simp del: code_points.simps code_point_at.simps)
    from single have w: "(if ?p < 0x80 then 1 else if ?p < 0x800 then 2 else if ?p \<le> 0xFFFF then 3 else 4) = ?w"
      and not_pair: "\<not> ?p > 0xFFFF" by simp_all
    from "2.IH"(2) [OF single(1) refl refl not_pair, unfolded w, OF scan rest_ok]
    have "part_bytes_loop v' (b + ?w) = Some n" .
    with single p ok show ?thesis by (auto simp: v Let_def simp del: code_point_at.simps)
  qed
qed

lemma number_text_of_digits:
  assumes "length_text_ok t"
  shows "number_text (number_of_digits t) = t"
proof -
  let ?ds = "map (\<lambda>u. unat u - 48) t"
  from assms have "?ds \<noteq> []" "\<forall>d \<in> set ?ds. d < 10"
    by (auto simp: length_text_ok_def list_all_iff is_digit_def)
  moreover have "hd ?ds \<noteq> 0"
  proof -
    from assms have t: "t \<noteq> []" and d: "is_digit (hd t)" and "hd t \<noteq> 48"
      by (auto simp: length_text_ok_def list_all_iff)
    then have "unat (hd t) \<noteq> 48" by (metis of_nat_numeral of_nat_unat ucast_id)
    with t d show ?thesis by (simp add: is_digit_def hd_map)
  qed
  ultimately have "dec_digits (dec_value ?ds) = ?ds" by (rule dec_digits_value [THEN conjunct2])
  then have "number_text (number_of_digits t) = map (\<lambda>u. of_nat (48 + (unat u - 48))) t"
    by (simp add: number_text_def number_of_digits_def)
  also have "\<dots> = t"
  proof (rule map_idI)
    fix u assume "u \<in> set t"
    with assms have "48 \<le> unat u" by (auto simp: length_text_ok_def list_all_iff is_digit_def)
    then have "48 + (unat u - 48) = unat u" by simp
    then show "of_nat (48 + (unat u - 48)) = u" by (metis of_nat_unat ucast_id)
  qed
  finally show ?thesis .
qed

lemma key_member_Some:
  assumes "key_member t = Some (v, r)"
  shows "key_name_schema v \<and> t = number_text (length (text_encode v)) @ COLON # v @ r"
proof -
  let ?l = "takeWhile (\<lambda>u. u \<noteq> COLON) t" and ?a = "dropWhile (\<lambda>u. u \<noteq> COLON) t"
  let ?n = "number_of_digits ?l"
  from assms have a: "?a \<noteq> []" and ok: "length_text_ok ?l" and schema: "key_name_schema v"
    and scan: "member_scan (tl ?a) ?n 0 = (?n, v, r)"
    by (auto simp: key_member_def Let_def split: if_splits prod.splits)
  from schema have "\<forall>p \<in> set (code_points v). \<not> is_surrogate p"
    by (simp add: key_name_schema_def)
  from member_scan_bytes [OF scan this] have n: "?n = length (text_encode v)"
    by (simp add: part_bytes_loop_Some)
  have "hd ?a = COLON" using hd_dropWhile [OF a] by simp
  with a member_scan_split [OF scan] have "?a = COLON # v @ r" by (metis list.collapse)
  moreover have "?l = number_text (length (text_encode v))"
    using number_text_of_digits [OF ok] n by simp
  ultimately have "t = number_text (length (text_encode v)) @ COLON # v @ r"
    by (metis takeWhile_dropWhile_id)
  with schema show ?thesis by simp
qed

lemma strip_tag_Some:
  assumes "strip_tag t = Some r"
  shows "\<exists>p. t = primitive_tag p @ COLON # r"
proof -
  have l: "length (js ''1s:'') = 3" "length (js ''1rw:'') = 4" "length (js ''1:'') = 2"
    by (simp_all add: js_def)
  from assms consider "take 3 t = js ''1s:''" "r = drop 3 t" | "take 4 t = js ''1rw:''" "r = drop 4 t"
    | "take 2 t = js ''1:''" "r = drop 2 t"
    unfolding strip_tag_def Let_def l by (auto split: if_splits)
  then show ?thesis
  proof cases
    case 1
    then have "t = js ''1s:'' @ r" by (metis append_take_drop_id)
    then show ?thesis by (intro exI [of _ Semaphore]) (simp add: js_def COLON_def)
  next
    case 2
    then have "t = js ''1rw:'' @ r" by (metis append_take_drop_id)
    then show ?thesis by (intro exI [of _ ReadWrite]) (simp add: js_def COLON_def)
  next
    case 3
    then have "t = js ''1:'' @ r" by (metis append_take_drop_id)
    then show ?thesis by (intro exI [of _ Mutex]) (simp add: js_def COLON_def)
  qed
qed

lemma decode_only_built_keys:
  assumes "decode_key t = Some (ns, nm)"
  shows "\<exists>p k. create_key ns nm p = Inr k \<and> full k = t"
proof -
  from assms obtain r a where tag: "strip_tag t = Some r" and ns: "key_member r = Some (ns, a)"
    and a: "a \<noteq> []" "hd a = COLON" and nm: "key_member (tl a) = Some (nm, [])"
    by (auto simp: decode_key_def split: option.splits if_splits)
  from strip_tag_Some [OF tag] obtain p where t: "t = primitive_tag p @ COLON # r" ..
  from key_member_Some [OF ns] have "key_name_schema ns"
    and r: "r = number_text (length (text_encode ns)) @ COLON # ns @ a" by auto
  moreover from key_member_Some [OF nm] have "key_name_schema nm"
    and "tl a = number_text (length (text_encode nm)) @ COLON # nm" by auto
  moreover from a this(2) have "a = COLON # number_text (length (text_encode nm)) @ COLON # nm"
    by (metis list.collapse)
  ultimately have "create_key ns nm p = Inr \<lparr>namespace_of = ns, name_of = nm, full = t\<rparr>"
    by (simp add: create_key_Inr encode_full_def t)
  then show ?thesis by (intro exI [of _ p] exI) auto
qed

text \<open>
  C17: Decoding and building keys are inverse: a text decodes to a namespace and a name
  exactly if \<open>createKey\<close> builds it from them under some primitive. A built key always reads
  back, and a stored key has one spelling.
\<close>

theorem decode_exactly_built_keys:
  "decode_key t = Some (ns, nm) \<longleftrightarrow> (\<exists>p k. create_key ns nm p = Inr k \<and> full k = t)"
  using decode_only_built_keys create_key_decode by (fastforce simp: create_key_Inr)

section \<open>The inline digest is FNV-1a over UTF-8\<close>

lemma or_high:
  fixes a x :: nat
  assumes "x < 2 ^ k"
  shows "push_bit k a OR x = push_bit k a + x"
proof -
  from assms have "take_bit k x = x" by (simp add: take_bit_nat_eq_self_iff)
  then have "push_bit k a AND x = 0"
    by (intro bit_eqI) (metis bit_0_eq bit_and_iff bit_push_bit_iff bit_take_bit_iff bot_apply bot_bool_def not_le)
  then show ?thesis by (simp add: disjunctive_add_eq_or)
qed

lemma or_continuation: "x < 64 \<Longrightarrow> 0x80 OR x = 0x80 + (x :: nat)"
  using or_high [of x 6 2] by (simp add: push_bit_eq_mult)

lemma or_lead2: "x < 32 \<Longrightarrow> 0xC0 OR x = 0xC0 + (x :: nat)"
  using or_high [of x 6 3] by (simp add: push_bit_eq_mult)

lemma or_lead3: "x < 16 \<Longrightarrow> 0xE0 OR x = 0xE0 + (x :: nat)"
  using or_high [of x 4 14] by (simp add: push_bit_eq_mult)

lemma or_lead4: "x < 8 \<Longrightarrow> 0xF0 OR x = 0xF0 + (x :: nat)"
  using or_high [of x 3 30] by (simp add: push_bit_eq_mult)

lemma and_3F: "x AND 0x3F = (x :: nat) mod 64"
  using take_bit_eq_mask [of 6 x] by (simp add: mask_eq_exp_minus_1 take_bit_eq_mod)

text \<open>The bytes the inline encoder feeds to \<open>fnvStep\<close> for one code point.\<close>

lemma fnv_step_bytes:
  assumes "\<forall>b \<in> set bs. b < 256"
  shows "foldl (\<lambda>hash byte. fnv_step hash (unat byte)) h (map (of_nat :: nat \<Rightarrow> 8 word) bs) = foldl fnv_step h bs"
  using assms by (induction bs arbitrary: h) (auto simp: unat_of_nat)

lemma utf8_bytes_small: "p < 0x110000 \<Longrightarrow> b \<in> set (utf8_bytes p) \<Longrightarrow> b < 256"
  by (auto simp: utf8_bytes_def less_mult_imp_div_less split: if_splits)

lemma inline_utf8:
  assumes "p < 0x110000"
  shows "(if p < 0x80 then fnv_step h p
            else if p < 0x800 then
              fnv_step (fnv_step h (0xC0 OR drop_bit 6 p)) (0x80 OR (p AND 0x3F))
            else if p < 0x10000 then
              fnv_step (fnv_step (fnv_step h (0xE0 OR drop_bit 12 p))
                (0x80 OR (drop_bit 6 p AND 0x3F))) (0x80 OR (p AND 0x3F))
            else
              fnv_step (fnv_step (fnv_step (fnv_step h (0xF0 OR drop_bit 18 p))
                (0x80 OR (drop_bit 12 p AND 0x3F)))
                (0x80 OR (drop_bit 6 p AND 0x3F))) (0x80 OR (p AND 0x3F)))
         = foldl fnv_step h (utf8_bytes p)"
proof -
  have "p < 0x800 \<Longrightarrow> 0xC0 OR p div 64 = 0xC0 + p div 64"
    and "p < 0x10000 \<Longrightarrow> 0xE0 OR p div 4096 = 0xE0 + p div 4096"
    and "0xF0 OR p div 262144 = 0xF0 + p div 262144"
    using assms by (auto intro!: or_lead2 or_lead3 or_lead4)
  then show ?thesis
    by (simp add: utf8_bytes_def drop_bit_eq_div and_3F or_continuation)
qed

lemma fnv1a64_utf8_loop_eq:
  "fnv1a64_utf8_loop s h = foldl (\<lambda>hash byte. fnv_step hash (unat byte)) h (text_encode s)"
proof (induction s h rule: fnv1a64_utf8_loop.induct)
  case (1 h)
  then show ?case by simp
next
  case (2 u s h)
  let ?p0 = "code_point_at (u # s)"
  let ?p = "if ?p0 > 0xFFFF then ?p0 else if is_surrogate ?p0 then 0xFFFD else ?p0"
  have p: "?p < 0x110000" using code_point_bound [of u s] by simp
  have enc: "text_encode (u # s) = map of_nat (utf8_bytes ?p) @ text_encode (if ?p0 > 0xFFFF then tl s else s)"
    by (auto simp: text_encode_Cons is_surrogate_def simp del: code_point_at.simps)
  from 2 [OF refl refl refl] show ?case
    unfolding fnv1a64_utf8_loop.simps Let_def enc foldl_append inline_utf8 [OF p]
    using fnv_step_bytes [of "utf8_bytes ?p"] utf8_bytes_small [OF p] by auto
qed

text \<open>
  The digest of a text, which encodes UTF-8 inline and never builds the bytes, is the
  64-bit FNV-1a of the bytes \<open>TextEncoder\<close> makes of it, lone surrogates included.
\<close>

theorem fnv1a64_utf8_eq: "fnv1a64_utf8 text = fnv1a64 (text_encode text)"
  by (simp add: fnv1a64_utf8_def fnv1a64_def fnv1a64_utf8_loop_eq)

lemma pg_pair_parts:
  assumes "to_pg_pair k = (hi, lo)"
  shows "- (2 ^ 31) \<le> hi \<and> hi < 2 ^ 31 \<and> - (2 ^ 31) \<le> lo \<and> lo < 2 ^ 31
    \<and> digest64 k = of_int (hi mod 2 ^ 32 * 2 ^ 32 + lo mod 2 ^ 32)"
proof -
  let ?d = "digest64 k"
  from assms have hi: "hi = sint (ucast (drop_bit 32 ?d) :: 32 word)" and lo: "lo = sint (ucast ?d :: 32 word)"
    by (auto simp: to_pg_pair_def as_int32_def Let_def)
  have range: "- (2 ^ 31) \<le> sint w \<and> sint w < 2 ^ 31" for w :: "32 word"
    using sint_ge [of w] sint_lt [of w] by simp
  have mod: "sint w mod 2 ^ 32 = uint w" for w :: "32 word"
    using uint_sint [of w] by (simp add: take_bit_eq_mod)
  have "uint (ucast ?d :: 32 word) = uint ?d mod 2 ^ 32"
    by (simp add: unsigned_ucast_eq take_bit_eq_mod)
  moreover have "uint (ucast (drop_bit 32 ?d) :: 32 word) = uint ?d div 2 ^ 32"
  proof -
    have "uint ?d div 2 ^ 32 < 2 ^ 32"
      using uint_lt2p [of ?d] by (simp add: div_less_iff_less_mult)
    then have "uint ?d div 2 ^ 32 mod 2 ^ 32 = uint ?d div 2 ^ 32"
      by (intro mod_pos_pos_trivial) (simp_all add: pos_imp_zdiv_nonneg_iff)
    then show ?thesis
      unfolding unsigned_ucast_eq unsigned_drop_bit_eq by (simp add: take_bit_eq_mod drop_bit_eq_div)
  qed
  ultimately have "hi mod 2 ^ 32 * 2 ^ 32 + lo mod 2 ^ 32 = uint ?d"
    unfolding hi lo mod by simp
  then show ?thesis using range hi lo by simp
qed

text \<open>
  The two advisory-lock integers are in the range of Postgres \<open>int4\<close> and lose nothing: the
  64-bit digest is recovered from them.
\<close>

theorem to_pg_pair_exact:
  "case to_pg_pair k of (hi, lo) \<Rightarrow>
     hi \<in> {- (2 ^ 31) ..< 2 ^ 31} \<and> lo \<in> {- (2 ^ 31) ..< 2 ^ 31} \<and>
     digest64 k = of_int (hi mod 2 ^ 32 * 2 ^ 32 + lo mod 2 ^ 32)"
  using pg_pair_parts [of k] by (cases "to_pg_pair k") auto

end
