(* ===== verification/LockMemory.thy ===== *)
theory LockMemory
  imports LockKey
begin

text \<open>
  The in-process hold store \<open>memoryStore()\<close> of \<open>packages/lock/src/memory.ts\<close>: mutex, counting
  semaphore and read/write locks with waiters that keep their place in line. The closure's
  variables are the record \<open>store\<close>; the objects it mutates (\<open>Session\<close>, \<open>MutexState\<close>, \<open>Pool\<close>,
  \<open>Shared\<close>) are records in it, a \<open>Session\<close> named by its number. A line (a doubly linked list of
  sessions) is the list of its sessions from head to tail; \<open>LockLine\<close> shows that the pointer
  updates of \<open>join\<close> and \<open>leave\<close> do to the list what is written here. A pending \<open>waitFor\<close> is a
  promise number; \<open>resolved\<close> logs the promises in the order they resolve.
\<close>

section \<open>Data\<close>

type_synonym lock_key = js_string
type_synonym token = nat
type_synonym fence = nat
type_synonym sid = nat
type_synonym promise = nat

datatype wait_kind = WMutex | WPermits | WRead | WWrite
datatype wait_state = Idle | Queued | Reserved

record session =
  s_full :: lock_key
  s_kind :: wait_kind
  s_weight :: int
  s_state :: wait_state
  s_closed :: bool
  s_wake :: "promise option"

record hold =
  owner :: token
  h_fence :: fence

record mutex_state =
  holder :: "hold option"
  reserved :: "sid option"

record pool =
  limit :: int
  in_use :: int
  p_reserved :: int
  holders :: "(token \<times> int \<times> fence) list"

record shared_state =
  readers :: "(token \<times> fence) list"
  writer :: "hold option"
  reserved_readers :: int
  reserved_writer :: "sid option"

record store =
  mutexes :: "lock_key \<rightharpoonup> mutex_state"
  pools :: "lock_key \<rightharpoonup> pool"
  shareds :: "lock_key \<rightharpoonup> shared_state"
  lines :: "lock_key \<rightharpoonup> sid list"
  reader_lines :: "lock_key \<rightharpoonup> sid list"
  watchers :: "lock_key \<rightharpoonup> promise list"
  last_fence :: fence
  sessions :: "sid \<Rightarrow> session"
  next_sid :: sid
  resolved :: "promise list"
  next_promise :: promise

record grant =
  g_key :: lock_key
  g_token :: token
  g_fence :: fence

text \<open>An \<open>AcquireRequest\<close>: the attempt's fresh token and the caller's waiter, if any.\<close>

record acquire_request =
  token :: token
  waiter :: "sid option"

datatype config_error = NotPermitCounts int int | WeightAboveLimit int int | HeldWithLimit int int

datatype acquire_result = Granted grant | Refused | Rejected config_error

datatype release_outcome = Released | NotOwner

datatype share_mode = ReadMode | WriteMode

text \<open>A session number nobody was given yet names an object no code can reach.\<close>

definition no_session :: session where
  "no_session = \<lparr>s_full = [], s_kind = WMutex, s_weight = 1, s_state = Idle, s_closed = True, s_wake = None\<rparr>"

definition empty_store :: store where
  "empty_store = \<lparr>mutexes = Map.empty, pools = Map.empty, shareds = Map.empty, lines = Map.empty,
     reader_lines = Map.empty, watchers = Map.empty, last_fence = 0, sessions = (\<lambda>_. no_session),
     next_sid = 0, resolved = [], next_promise = 0\<rparr>"

definition MAX_PERMITS :: int where
  "MAX_PERMITS = 2147483647"

definition is_permit_count :: "int \<Rightarrow> bool" where
  "is_permit_count v \<longleftrightarrow> v \<ge> 1 \<and> v \<le> MAX_PERMITS"

definition next_fence :: "store \<Rightarrow> fence \<times> store" where
  "next_fence st = (last_fence st + 1, st\<lparr>last_fence := last_fence st + 1\<rparr>)"

section \<open>Sessions and lines\<close>

definition upd_session :: "sid \<Rightarrow> (session \<Rightarrow> session) \<Rightarrow> store \<Rightarrow> store" where
  "upd_session s f st = st\<lparr>sessions := (sessions st)(s := f (sessions st s))\<rparr>"

definition set_state :: "sid \<Rightarrow> wait_state \<Rightarrow> store \<Rightarrow> store" where
  "set_state s w = upd_session s (\<lambda>x. x\<lparr>s_state := w\<rparr>)"

text \<open>\<open>new Session(full, kind, weight)\<close>\<close>

definition new_session :: "lock_key \<Rightarrow> wait_kind \<Rightarrow> int \<Rightarrow> store \<Rightarrow> sid \<times> store" where
  "new_session k kind weight st =
     (next_sid st,
      st\<lparr>sessions := (sessions st)(next_sid st :=
            \<lparr>s_full = k, s_kind = kind, s_weight = weight, s_state = Idle, s_closed = False, s_wake = None\<rparr>),
         next_sid := next_sid st + 1\<rparr>)"

text \<open>A line leaves the map when it is empty.\<close>

definition line_map :: "(lock_key \<rightharpoonup> sid list) \<Rightarrow> lock_key \<Rightarrow> sid list \<Rightarrow> (lock_key \<rightharpoonup> sid list)" where
  "line_map m k xs = m(k := (if xs = [] then None else Some xs))"

definition line_list :: "(lock_key \<rightharpoonup> sid list) \<Rightarrow> lock_key \<Rightarrow> sid list" where
  "line_list m k = (case m k of None \<Rightarrow> [] | Some xs \<Rightarrow> xs)"

definition join :: "sid \<Rightarrow> store \<Rightarrow> store" where
  "join s st =
     (let k = s_full (sessions st s);
          st1 = (if s_kind (sessions st s) = WRead
                 then st\<lparr>reader_lines := (reader_lines st)(k \<mapsto> line_list (reader_lines st) k @ [s])\<rparr>
                 else st\<lparr>lines := (lines st)(k \<mapsto> line_list (lines st) k @ [s])\<rparr>)
      in set_state s Queued st1)"

definition leave :: "sid \<Rightarrow> store \<Rightarrow> store" where
  "leave s st =
     (let k = s_full (sessions st s);
          st1 = set_state s Idle st
      in if s_kind (sessions st s) = WRead
         then (case reader_lines st k of
                 None \<Rightarrow> st1
               | Some xs \<Rightarrow> st1\<lparr>reader_lines := line_map (reader_lines st) k (remove1 s xs)\<rparr>)
         else (case lines st k of
                 None \<Rightarrow> st1
               | Some xs \<Rightarrow> st1\<lparr>lines := line_map (lines st) k (remove1 s xs)\<rparr>))"

definition resolve :: "promise \<Rightarrow> store \<Rightarrow> store" where
  "resolve p st = st\<lparr>resolved := resolved st @ [p]\<rparr>"

text \<open>\<open>session.wake?.()\<close>: resolves the pending \<open>waitFor\<close>, if any.\<close>

definition wake_session :: "sid \<Rightarrow> store \<Rightarrow> store" where
  "wake_session s st =
     (case s_wake (sessions st s) of
        None \<Rightarrow> st
      | Some p \<Rightarrow> resolve p (upd_session s (\<lambda>x. x\<lparr>s_wake := None\<rparr>) st))"

definition hand_to :: "sid \<Rightarrow> store \<Rightarrow> store" where
  "hand_to s st = wake_session s (set_state s Reserved (leave s st))"

definition wake_watchers :: "lock_key \<Rightarrow> store \<Rightarrow> store" where
  "wake_watchers k st =
     (case watchers st k of
        None \<Rightarrow> st
      | Some ps \<Rightarrow> st\<lparr>watchers := (watchers st)(k := None), resolved := resolved st @ ps\<rparr>)"

section \<open>Handing the lock over\<close>

definition free_mutex :: mutex_state where
  "free_mutex = \<lparr>holder = None, reserved = None\<rparr>"

definition dispatch_mutex :: "lock_key \<Rightarrow> store \<Rightarrow> store" where
  "dispatch_mutex k st =
     (let busy = (case mutexes st k of None \<Rightarrow> False | Some m \<Rightarrow> holder m \<noteq> None \<or> reserved m \<noteq> None)
      in if busy then st
         else (case lines st k of
                 Some (s # _) \<Rightarrow>
                   let target = (case mutexes st k of None \<Rightarrow> free_mutex | Some m \<Rightarrow> m)
                   in hand_to s (st\<lparr>mutexes := (mutexes st)(k \<mapsto> target\<lparr>reserved := Some s\<rparr>)\<rparr>)
               | _ \<Rightarrow> wake_watchers k (st\<lparr>mutexes := (mutexes st)(k := None)\<rparr>)))"

text \<open>
  The loop of \<open>dispatchPermits\<close> over the line as it stands at the start: handing the lock to a
  session removes only that session from the line, and \<open>next\<close> is read before it.
\<close>

fun permits_loop :: "sid list \<Rightarrow> pool \<Rightarrow> store \<Rightarrow> pool \<times> store" where
  "permits_loop [] p st = (p, st)"
| "permits_loop (s # ss) p st =
     (if in_use p < limit p then
        (let w = s_weight (sessions st s)
         in if in_use p + w \<le> limit p
            then permits_loop ss (p\<lparr>in_use := in_use p + w, p_reserved := p_reserved p + w\<rparr>) (hand_to s st)
            else permits_loop ss p st)
      else (p, st))"

definition dispatch_permits :: "lock_key \<Rightarrow> store \<Rightarrow> store" where
  "dispatch_permits k st =
     (case pools st k of
        None \<Rightarrow> wake_watchers k st
      | Some p \<Rightarrow>
          (case permits_loop (line_list (lines st) k) p st of
             (p', st') \<Rightarrow>
               if length (holders p') > 0 \<or> p_reserved p' > 0
               then st'\<lparr>pools := (pools st')(k \<mapsto> p')\<rparr>
               else wake_watchers k (st'\<lparr>pools := (pools st')(k := None)\<rparr>)))"

definition new_shared :: shared_state where
  "new_shared = \<lparr>readers = [], writer = None, reserved_readers = 0, reserved_writer = None\<rparr>"

text \<open>The loop of \<open>dispatchShared\<close> that admits every queued reader.\<close>

fun readers_loop :: "sid list \<Rightarrow> shared_state \<Rightarrow> store \<Rightarrow> shared_state \<times> store" where
  "readers_loop [] t st = (t, st)"
| "readers_loop (s # ss) t st =
     readers_loop ss (t\<lparr>reserved_readers := reserved_readers t + 1\<rparr>) (hand_to s st)"

definition dispatch_shared :: "lock_key \<Rightarrow> store \<Rightarrow> store" where
  "dispatch_shared k st =
     (let state = shareds st k;
          writing = (case state of None \<Rightarrow> False | Some t \<Rightarrow> writer t \<noteq> None \<or> reserved_writer t \<noteq> None);
          reading = (case state of None \<Rightarrow> False | Some t \<Rightarrow> length (readers t) > 0 \<or> reserved_readers t > 0);
          target = (case state of None \<Rightarrow> new_shared | Some t \<Rightarrow> t)
      in if writing then st
         else (case lines st k of
                 Some (s # _) \<Rightarrow>
                   if reading then st
                   else hand_to s (st\<lparr>shareds := (shareds st)(k \<mapsto> target\<lparr>reserved_writer := Some s\<rparr>)\<rparr>)
               | _ \<Rightarrow>
                   (case reader_lines st k of
                      Some (r # rs) \<Rightarrow>
                        (case readers_loop (r # rs) target st of
                           (t', st') \<Rightarrow> st'\<lparr>shareds := (shareds st')(k \<mapsto> t')\<rparr>)
                    | _ \<Rightarrow>
                        if reading then st
                        else wake_watchers k (st\<lparr>shareds := (shareds st)(k := None)\<rparr>))))"

definition dispatch :: "sid \<Rightarrow> store \<Rightarrow> store" where
  "dispatch s st =
     (case s_kind (sessions st s) of
        WMutex \<Rightarrow> dispatch_mutex (s_full (sessions st s)) st
      | WPermits \<Rightarrow> dispatch_permits (s_full (sessions st s)) st
      | _ \<Rightarrow> dispatch_shared (s_full (sessions st s)) st)"

text \<open>A waiter gives back a reservation it never took.\<close>

definition unreserve :: "sid \<Rightarrow> store \<Rightarrow> store" where
  "unreserve s st =
     (let k = s_full (sessions st s); w = s_weight (sessions st s); st1 = set_state s Idle st
      in case s_kind (sessions st s) of
           WMutex \<Rightarrow>
             (case mutexes st k of
                Some m \<Rightarrow> if reserved m = Some s
                          then st1\<lparr>mutexes := (mutexes st)(k \<mapsto> m\<lparr>reserved := None\<rparr>)\<rparr> else st1
              | None \<Rightarrow> st1)
         | WPermits \<Rightarrow>
             (case pools st k of
                None \<Rightarrow> st1
              | Some p \<Rightarrow> st1\<lparr>pools := (pools st)(k \<mapsto>
                            p\<lparr>in_use := in_use p - w, p_reserved := p_reserved p - w\<rparr>)\<rparr>)
         | WRead \<Rightarrow>
             (case shareds st k of
                None \<Rightarrow> st1
              | Some t \<Rightarrow> st1\<lparr>shareds := (shareds st)(k \<mapsto> t\<lparr>reserved_readers := reserved_readers t - 1\<rparr>)\<rparr>)
         | WWrite \<Rightarrow>
             (case shareds st k of
                None \<Rightarrow> st1
              | Some t \<Rightarrow> if reserved_writer t = Some s
                          then st1\<lparr>shareds := (shareds st)(k \<mapsto> t\<lparr>reserved_writer := None\<rparr>)\<rparr> else st1))"

section \<open>Waiting, and stopping to wait\<close>

text \<open>
  \<open>Session.waitFor(signal)\<close>: the promise it returns. Unless the session is queued and the
  signal not yet aborted, the promise is resolved at once.
\<close>

definition session_wait_for :: "sid \<Rightarrow> bool \<Rightarrow> store \<Rightarrow> promise \<times> store" where
  "session_wait_for s aborted st =
     (let p = next_promise st; st1 = st\<lparr>next_promise := p + 1\<rparr>
      in if s_state (sessions st s) \<noteq> Queued \<or> aborted then (p, resolve p st1)
         else (p, upd_session s (\<lambda>x. x\<lparr>s_wake := Some p\<rparr>) st1))"

text \<open>\<open>onAbort\<close> of that promise; its listener is gone once the promise was woken.\<close>

definition session_abort :: "sid \<Rightarrow> promise \<Rightarrow> store \<Rightarrow> store" where
  "session_abort s p st =
     (if p \<in> set (resolved st) then st
      else resolve p (if s_wake (sessions st s) = Some p
                      then upd_session s (\<lambda>x. x\<lparr>s_wake := None\<rparr>) st else st))"

definition session_close :: "sid \<Rightarrow> store \<Rightarrow> store" where
  "session_close s st =
     (if s_closed (sessions st s) then st
      else let st1 = wake_session s (upd_session s (\<lambda>x. x\<lparr>s_closed := True\<rparr>) st)
           in case s_state (sessions st s) of
                Queued \<Rightarrow> dispatch s (leave s st1)
              | Reserved \<Rightarrow> dispatch s (unreserve s st1)
              | Idle \<Rightarrow> st1)"

text \<open>The attempt's own waiter, when it comes to take the reservation made for it.\<close>

definition redeeming :: "acquire_request \<Rightarrow> lock_key \<Rightarrow> wait_kind \<Rightarrow> int \<Rightarrow> store \<Rightarrow> sid option" where
  "redeeming req k kind weight st =
     (case waiter req of
        None \<Rightarrow> None
      | Some s \<Rightarrow>
          if s_state (sessions st s) = Reserved \<and> s_full (sessions st s) = k
             \<and> s_kind (sessions st s) = kind \<and> s_weight (sessions st s) = weight
          then Some s else None)"

text \<open>A refused attempt by a waiter that is not in line yet joins the line now.\<close>

definition queue_refused ::
  "acquire_request \<Rightarrow> lock_key \<Rightarrow> wait_kind \<Rightarrow> int \<Rightarrow> store \<Rightarrow> acquire_result \<times> store" where
  "queue_refused req k kind weight st =
     (Refused,
      case waiter req of
        None \<Rightarrow> st
      | Some s \<Rightarrow>
          if s_state (sessions st s) = Idle \<and> \<not> s_closed (sessions st s) \<and> s_full (sessions st s) = k
             \<and> s_kind (sessions st s) = kind \<and> s_weight (sessions st s) = weight
          then join s st else st)"

section \<open>The mutex\<close>

text \<open>The end of an acquire: a fence, the hold put in place, the grant.\<close>

definition mutex_hold :: "lock_key \<Rightarrow> acquire_request \<Rightarrow> store \<Rightarrow> acquire_result \<times> store" where
  "mutex_hold k req st =
     (case next_fence st of
        (fence, st1) \<Rightarrow>
          let target = (case mutexes st1 k of None \<Rightarrow> free_mutex | Some m \<Rightarrow> m)
          in (Granted \<lparr>g_key = k, g_token = token req, g_fence = fence\<rparr>,
              st1\<lparr>mutexes := (mutexes st1)(k \<mapsto>
                 target\<lparr>holder := Some \<lparr>owner = token req, h_fence = fence\<rparr>\<rparr>)\<rparr>))"

definition mutex_acquire :: "lock_key \<Rightarrow> acquire_request \<Rightarrow> store \<Rightarrow> acquire_result \<times> store" where
  "mutex_acquire k req st =
     (case mutexes st k of
        None \<Rightarrow> mutex_hold k req st
      | Some m \<Rightarrow>
          if reserved m \<noteq> None then
            (case redeeming req k WMutex 1 st of
               None \<Rightarrow> queue_refused req k WMutex 1 st
             | Some own \<Rightarrow>
                 if reserved m \<noteq> Some own then queue_refused req k WMutex 1 st
                 else let st1 = set_state own Idle st
                      in mutex_hold k req (st1\<lparr>mutexes := (mutexes st1)(k \<mapsto> m\<lparr>reserved := None\<rparr>)\<rparr>))
          else if holder m \<noteq> None then queue_refused req k WMutex 1 st
          else mutex_hold k req st)"

definition mutex_release :: "grant \<Rightarrow> store \<Rightarrow> release_outcome \<times> store" where
  "mutex_release g st =
     (case mutexes st (g_key g) of
        Some m \<Rightarrow>
          (case holder m of
             Some h \<Rightarrow>
               if owner h \<noteq> g_token g then (NotOwner, st)
               else (Released, dispatch_mutex (g_key g)
                      (st\<lparr>mutexes := (mutexes st)(g_key g \<mapsto> m\<lparr>holder := None\<rparr>)\<rparr>))
           | None \<Rightarrow> (NotOwner, st))
      | None \<Rightarrow> (NotOwner, st))"

definition mutex_waiter :: "lock_key \<Rightarrow> store \<Rightarrow> sid \<times> store" where
  "mutex_waiter k st =
     (case new_session k WMutex 1 st of
        (s, st1) \<Rightarrow>
          if (case mutexes st k of None \<Rightarrow> False | Some m \<Rightarrow> holder m \<noteq> None \<or> reserved m \<noteq> None)
          then (s, join s st1)
          else (s, set_state s Reserved
                 (st1\<lparr>mutexes := (mutexes st1)(k \<mapsto> \<lparr>holder = None, reserved = Some s\<rparr>)\<rparr>)))"

section \<open>The semaphore\<close>

definition new_pool :: "int \<Rightarrow> pool" where
  "new_pool l = \<lparr>limit = l, in_use = 0, p_reserved = 0, holders = []\<rparr>"

definition permits_hold ::
  "lock_key \<Rightarrow> acquire_request \<Rightarrow> int \<Rightarrow> pool \<Rightarrow> store \<Rightarrow> acquire_result \<times> store" where
  "permits_hold k req weight target st =
     (case next_fence st of
        (fence, st1) \<Rightarrow>
          (Granted \<lparr>g_key = k, g_token = token req, g_fence = fence\<rparr>,
           st1\<lparr>pools := (pools st1)(k \<mapsto>
              target\<lparr>holders := AList.update (token req) (weight, fence) (holders target)\<rparr>)\<rparr>))"

definition permits_acquire ::
  "lock_key \<Rightarrow> acquire_request \<Rightarrow> int \<Rightarrow> int \<Rightarrow> store \<Rightarrow> acquire_result \<times> store" where
  "permits_acquire k req lim weight st =
     (if \<not> is_permit_count lim \<or> \<not> is_permit_count weight then (Rejected (NotPermitCounts lim weight), st)
      else if weight > lim then (Rejected (WeightAboveLimit weight lim), st)
      else case pools st k of
        Some p \<Rightarrow>
          if limit p \<noteq> lim then (Rejected (HeldWithLimit (limit p) lim), st)
          else (case redeeming req k WPermits weight st of
                  Some own \<Rightarrow>
                    permits_hold k req weight (p\<lparr>p_reserved := p_reserved p - weight\<rparr>) (set_state own Idle st)
                | None \<Rightarrow>
                    if in_use p + weight > lim then queue_refused req k WPermits weight st
                    else permits_hold k req weight (p\<lparr>in_use := in_use p + weight\<rparr>) st)
      | None \<Rightarrow>
          (let p = new_pool lim
           in if in_use p + weight > lim then queue_refused req k WPermits weight st
              else permits_hold k req weight (p\<lparr>in_use := in_use p + weight\<rparr>) st))"

definition permits_release :: "grant \<Rightarrow> store \<Rightarrow> release_outcome \<times> store" where
  "permits_release g st =
     (case pools st (g_key g) of
        None \<Rightarrow> (NotOwner, st)
      | Some p \<Rightarrow>
          (case map_of (holders p) (g_token g) of
             None \<Rightarrow> (NotOwner, st)
           | Some (weight, _) \<Rightarrow>
               (Released, dispatch_permits (g_key g)
                 (st\<lparr>pools := (pools st)(g_key g \<mapsto>
                    p\<lparr>holders := AList.delete (g_token g) (holders p), in_use := in_use p - weight\<rparr>)\<rparr>))))"

definition permits_waiter :: "lock_key \<Rightarrow> int \<Rightarrow> store \<Rightarrow> sid \<times> store" where
  "permits_waiter k weight st =
     (case new_session k WPermits weight st of
        (s, st1) \<Rightarrow>
          (case pools st k of
             None \<Rightarrow> (s, st1)
           | Some p \<Rightarrow>
               if in_use p + weight \<le> limit p
               then (s, set_state s Reserved
                      (st1\<lparr>pools := (pools st1)(k \<mapsto>
                         p\<lparr>in_use := in_use p + weight, p_reserved := p_reserved p + weight\<rparr>)\<rparr>))
               else (s, join s st1)))"

section \<open>Read and write\<close>

fun mode_kind :: "share_mode \<Rightarrow> wait_kind" where
  "mode_kind ReadMode = WRead"
| "mode_kind WriteMode = WWrite"

text \<open>Whether a new hold is refused now. A read is refused while any writer holds, is reserved or waits.\<close>

definition shared_blocked :: "shared_state option \<Rightarrow> lock_key \<Rightarrow> share_mode \<Rightarrow> store \<Rightarrow> bool" where
  "shared_blocked state k mode st =
     (if (case state of None \<Rightarrow> False | Some t \<Rightarrow> writer t \<noteq> None \<or> reserved_writer t \<noteq> None) then True
      else if mode = ReadMode then lines st k \<noteq> None
      else (case state of None \<Rightarrow> False | Some t \<Rightarrow> length (readers t) > 0 \<or> reserved_readers t > 0))"

definition shared_hold ::
  "lock_key \<Rightarrow> acquire_request \<Rightarrow> share_mode \<Rightarrow> shared_state \<Rightarrow> store \<Rightarrow> acquire_result \<times> store" where
  "shared_hold k req mode target st =
     (case next_fence st of
        (fence, st1) \<Rightarrow>
          (Granted \<lparr>g_key = k, g_token = token req, g_fence = fence\<rparr>,
           st1\<lparr>shareds := (shareds st1)(k \<mapsto>
              (case mode of
                 ReadMode \<Rightarrow> target\<lparr>readers := AList.update (token req) fence (readers target)\<rparr>
               | WriteMode \<Rightarrow> target\<lparr>writer := Some \<lparr>owner = token req, h_fence = fence\<rparr>\<rparr>))\<rparr>))"

definition shared_acquire ::
  "lock_key \<Rightarrow> acquire_request \<Rightarrow> share_mode \<Rightarrow> store \<Rightarrow> acquire_result \<times> store" where
  "shared_acquire k req mode st =
     (let target = (case shareds st k of None \<Rightarrow> new_shared | Some t \<Rightarrow> t);
          own = (case shareds st k of None \<Rightarrow> None | Some _ \<Rightarrow> redeeming req k (mode_kind mode) 1 st)
      in case own of
           Some s \<Rightarrow>
             shared_hold k req mode
               (case mode of
                  ReadMode \<Rightarrow> target\<lparr>reserved_readers := reserved_readers target - 1\<rparr>
                | WriteMode \<Rightarrow> target\<lparr>reserved_writer := None\<rparr>)
               (set_state s Idle st)
         | None \<Rightarrow>
             if shared_blocked (shareds st k) k mode st then queue_refused req k (mode_kind mode) 1 st
             else shared_hold k req mode target st)"

definition shared_release :: "grant \<Rightarrow> store \<Rightarrow> release_outcome \<times> store" where
  "shared_release g st =
     (case shareds st (g_key g) of
        None \<Rightarrow> (NotOwner, st)
      | Some t \<Rightarrow>
          if (case writer t of None \<Rightarrow> False | Some h \<Rightarrow> owner h = g_token g)
          then (Released, dispatch_shared (g_key g)
                 (st\<lparr>shareds := (shareds st)(g_key g \<mapsto> t\<lparr>writer := None\<rparr>)\<rparr>))
          else if g_token g \<notin> fst ` set (readers t) then (NotOwner, st)
          else (Released, dispatch_shared (g_key g)
                 (st\<lparr>shareds := (shareds st)(g_key g \<mapsto>
                    t\<lparr>readers := AList.delete (g_token g) (readers t)\<rparr>)\<rparr>)))"

definition shared_waiter :: "lock_key \<Rightarrow> share_mode \<Rightarrow> store \<Rightarrow> sid \<times> store" where
  "shared_waiter k mode st =
     (case new_session k (mode_kind mode) 1 st of
        (s, st1) \<Rightarrow>
          if shared_blocked (shareds st k) k mode st then (s, join s st1)
          else let target = (case shareds st k of None \<Rightarrow> new_shared | Some t \<Rightarrow> t)
               in (s, set_state s Reserved
                    (st1\<lparr>shareds := (shareds st1)(k \<mapsto>
                       (case mode of
                          ReadMode \<Rightarrow> target\<lparr>reserved_readers := reserved_readers target + 1\<rparr>
                        | WriteMode \<Rightarrow> target\<lparr>reserved_writer := Some s\<rparr>))\<rparr>)))"

section \<open>Watching a key\<close>

definition is_free :: "lock_key \<Rightarrow> store \<Rightarrow> bool" where
  "is_free k st =
     (if (case mutexes st k of None \<Rightarrow> False | Some m \<Rightarrow> holder m \<noteq> None \<or> reserved m \<noteq> None)
         \<or> pools st k \<noteq> None then False
      else case shareds st k of None \<Rightarrow> True | Some t \<Rightarrow> \<not> shared_blocked (Some t) k WriteMode st)"

text \<open>\<open>waitFor(key, signal)\<close> and the abort of its promise.\<close>

definition store_wait_for :: "lock_key \<Rightarrow> bool \<Rightarrow> store \<Rightarrow> promise \<times> store" where
  "store_wait_for k aborted st =
     (let p = next_promise st; st1 = st\<lparr>next_promise := p + 1\<rparr>
      in if is_free k st \<or> aborted then (p, resolve p st1)
         else (p, st1\<lparr>watchers := (watchers st1)(k \<mapsto>
                     (case watchers st1 k of None \<Rightarrow> [] | Some ps \<Rightarrow> ps) @ [p])\<rparr>))"

definition store_abort :: "lock_key \<Rightarrow> promise \<Rightarrow> store \<Rightarrow> store" where
  "store_abort k p st =
     (if p \<in> set (resolved st) then st
      else resolve p (case watchers st k of
             None \<Rightarrow> st
           | Some ps \<Rightarrow> st\<lparr>watchers := line_map (watchers st) k (remove1 p ps)\<rparr>))"

section \<open>Peeking\<close>

record memory_entry =
  e_owner :: token
  e_fence :: fence
  e_mode :: "share_mode option"
  e_permits :: "int option"
  e_holders :: "nat option"

definition newest :: "fence list \<Rightarrow> fence" where
  "newest fences = foldl (\<lambda>latest fence. if fence > latest then fence else latest) 0 fences"

definition peek :: "lock_key \<Rightarrow> store \<Rightarrow> memory_entry option" where
  "peek k st =
     (case (case mutexes st k of None \<Rightarrow> None | Some m \<Rightarrow> holder m) of
        Some h \<Rightarrow> Some \<lparr>e_owner = owner h, e_fence = h_fence h, e_mode = None, e_permits = None, e_holders = None\<rparr>
      | None \<Rightarrow>
          (case pools st k of
             Some p \<Rightarrow>
               (case holders p of
                  [] \<Rightarrow> None
                | (tok, _) # _ \<Rightarrow>
                    Some \<lparr>e_owner = tok, e_fence = newest (map (snd \<circ> snd) (holders p)), e_mode = None,
                          e_permits = Some (in_use p - p_reserved p), e_holders = Some (length (holders p))\<rparr>)
           | None \<Rightarrow>
               (case shareds st k of
                  None \<Rightarrow> None
                | Some t \<Rightarrow>
                    (case writer t of
                       Some h \<Rightarrow> Some \<lparr>e_owner = owner h, e_fence = h_fence h, e_mode = Some WriteMode,
                                       e_permits = None, e_holders = None\<rparr>
                     | None \<Rightarrow>
                         (case readers t of
                            [] \<Rightarrow> None
                          | (tok, _) # _ \<Rightarrow>
                              Some \<lparr>e_owner = tok, e_fence = newest (map snd (readers t)), e_mode = Some ReadMode,
                                    e_permits = None, e_holders = Some (length (readers t))\<rparr>)))))"

end
