(* ===== verification/LockMemoryInv.thy ===== *)
theory LockMemoryInv
  imports LockMemory
begin

text \<open>
  The well-formedness invariant of the in-process store; that every operation keeps it is shown in
  \<open>LockMutex\<close>, \<open>LockPermits\<close>, \<open>LockShared\<close> and, for all calls, \<open>LockRun\<close>. What a key's state must satisfy is stated over the components it reads (the
  table entry, the line, the sets of reserved and queued sessions), so that an update of one
  component rewrites in the invariant without unfolding the rest. The invariant is relative to a set
  \<open>H\<close> of sessions it promises nothing for in a pool's line: \<open>permits.waiter\<close> lets a waiter join that
  asks for more permits than the pool has. With all sessions in \<open>H\<close> the rest still holds.
\<close>

section \<open>Which primitive a key is for\<close>

text \<open>The primitive in the tag of a full key: keys of different primitives are never mixed.\<close>

definition key_primitive :: "lock_key \<Rightarrow> primitive" where
  "key_primitive k =
     (let tag = takeWhile (\<lambda>u. u \<noteq> COLON) k
      in if tag = primitive_tag Semaphore then Semaphore
         else if tag = primitive_tag ReadWrite then ReadWrite else Mutex)"

fun kind_fits :: "primitive \<Rightarrow> wait_kind \<Rightarrow> bool" where
  "kind_fits Mutex kind \<longleftrightarrow> kind = WMutex"
| "kind_fits Semaphore kind \<longleftrightarrow> kind = WPermits"
| "kind_fits ReadWrite kind \<longleftrightarrow> kind = WRead \<or> kind = WWrite"

lemma key_primitive_create:
  "create_key ns nm p = Inr k \<Longrightarrow> key_primitive (full k) = p"
  unfolding key_primitive_def
  by (cases p) (auto simp: create_key_Inr tag_of_full primitive_tag_inj simp del: primitive_tag.simps)

section \<open>Sessions by state\<close>

definition res :: "(sid \<Rightarrow> session) \<Rightarrow> lock_key \<Rightarrow> wait_kind \<Rightarrow> sid set" where
  "res ss k kind = {s. s_state (ss s) = Reserved \<and> s_full (ss s) = k \<and> s_kind (ss s) = kind}"

definition qset :: "(sid \<Rightarrow> session) \<Rightarrow> lock_key \<Rightarrow> bool \<Rightarrow> sid set" where
  "qset ss k reading = {s. s_state (ss s) = Queued \<and> s_full (ss s) = k \<and> (s_kind (ss s) = WRead) = reading}"

named_theorems session_sets \<open>how updates of one session change the sets of sessions by state\<close>

lemma res_upd [session_sets]:
  "res (ss(s := x)) k kind =
     (if s_state x = Reserved \<and> s_full x = k \<and> s_kind x = kind then insert s (res ss k kind)
      else res ss k kind - {s})"
  by (auto simp: res_def)

lemma qset_upd [session_sets]:
  "qset (ss(s := x)) k reading =
     (if s_state x = Queued \<and> s_full x = k \<and> (s_kind x = WRead) = reading then insert s (qset ss k reading)
      else qset ss k reading - {s})"
  by (auto simp: qset_def)

lemma res_iff [session_sets]:
  "s \<in> res ss k kind \<longleftrightarrow> s_state (ss s) = Reserved \<and> s_full (ss s) = k \<and> s_kind (ss s) = kind"
  by (simp add: res_def)

lemma qset_iff [session_sets]:
  "s \<in> qset ss k reading \<longleftrightarrow>
     s_state (ss s) = Queued \<and> s_full (ss s) = k \<and> (s_kind (ss s) = WRead) = reading"
  by (simp add: qset_def)

section \<open>The invariant\<close>

definition wf_sessions :: "(sid \<Rightarrow> session) \<Rightarrow> sid \<Rightarrow> bool" where
  "wf_sessions ss n \<longleftrightarrow>
     (\<forall>s. n \<le> s \<longrightarrow> ss s = no_session) \<and>
     (\<forall>s. (s_closed (ss s) \<longrightarrow> s_state (ss s) = Idle) \<and> (s_wake (ss s) \<noteq> None \<longrightarrow> s_state (ss s) = Queued)) \<and>
     (\<forall>s < n. kind_fits (key_primitive (s_full (ss s))) (s_kind (ss s)) \<and>
        1 \<le> s_weight (ss s) \<and> (s_kind (ss s) = WPermits \<or> s_weight (ss s) = 1))"

text \<open>A line lists the queued sessions of its key, each once, and is not kept when empty.\<close>

definition line_ok :: "sid list option \<Rightarrow> sid set \<Rightarrow> bool" where
  "line_ok l Q \<longleftrightarrow> (case l of None \<Rightarrow> Q = {} | Some xs \<Rightarrow> xs \<noteq> [] \<and> distinct xs \<and> set xs = Q)"

text \<open>Mutex: a key in the table is held or reserved, never both; a key that is not has nobody waiting.\<close>

definition mutex_ok :: "mutex_state option \<Rightarrow> sid list option \<Rightarrow> sid set \<Rightarrow> bool" where
  "mutex_ok m l R \<longleftrightarrow>
     (case m of None \<Rightarrow> l = None \<and> R = {}
      | Some m \<Rightarrow> (holder m = None \<longleftrightarrow> reserved m \<noteq> None) \<and> R = set_option (reserved m))"

definition held_weight :: "pool \<Rightarrow> int" where
  "held_weight p = (\<Sum>h\<leftarrow>holders p. fst (snd h))"

text \<open>The accounts of a pool: what is in use is what is held and what is reserved.\<close>

definition pool_accounts :: "pool \<Rightarrow> (sid \<Rightarrow> int) \<Rightarrow> sid set \<Rightarrow> bool" where
  "pool_accounts p w R \<longleftrightarrow>
     distinct (map fst (holders p)) \<and> (\<forall>h \<in> set (holders p). 1 \<le> fst (snd h)) \<and>
     p_reserved p = sum w R \<and> in_use p = p_reserved p + held_weight p \<and> in_use p \<le> limit p"

definition permits_ok :: "pool option \<Rightarrow> sid set \<Rightarrow> (sid \<Rightarrow> int) \<Rightarrow> sid set \<Rightarrow> bool" where
  "permits_ok p Q w R \<longleftrightarrow>
     (case p of None \<Rightarrow> Q = {} \<and> R = {}
      | Some p \<Rightarrow>
          pool_accounts p w R \<and> (holders p \<noteq> [] \<or> 0 < p_reserved p) \<and>
          (\<forall>s \<in> Q. w s \<le> limit p \<and> limit p < in_use p + w s))"

text \<open>Read/write: a writer excludes readers, in holds and in reservations; nobody waits without a reason.\<close>

definition shared_excl :: "shared_state \<Rightarrow> sid set \<Rightarrow> sid set \<Rightarrow> bool" where
  "shared_excl t RR RW \<longleftrightarrow>
     distinct (map fst (readers t)) \<and> finite RR \<and> reserved_readers t = int (card RR) \<and>
     RW = set_option (reserved_writer t) \<and> (writer t = None \<or> reserved_writer t = None) \<and>
     (writer t \<noteq> None \<or> reserved_writer t \<noteq> None \<longrightarrow> readers t = [] \<and> reserved_readers t = 0)"

definition shared_ok ::
  "shared_state option \<Rightarrow> sid list option \<Rightarrow> sid list option \<Rightarrow> sid set \<Rightarrow> sid set \<Rightarrow> bool" where
  "shared_ok state l rl RR RW \<longleftrightarrow>
     (case state of None \<Rightarrow> l = None \<and> rl = None \<and> RR = {} \<and> RW = {}
      | Some t \<Rightarrow>
          shared_excl t RR RW \<and>
          (writer t \<noteq> None \<or> reserved_writer t \<noteq> None \<or> readers t \<noteq> [] \<or> 0 < reserved_readers t) \<and>
          (rl \<noteq> None \<longrightarrow> writer t \<noteq> None \<or> reserved_writer t \<noteq> None \<or> l \<noteq> None))"

definition weight_of :: "store \<Rightarrow> sid \<Rightarrow> int" where
  "weight_of st s = s_weight (sessions st s)"

definition key_ok :: "sid set \<Rightarrow> store \<Rightarrow> lock_key \<Rightarrow> bool" where
  "key_ok H st k \<longleftrightarrow>
     (case key_primitive k of
        Mutex \<Rightarrow> mutex_ok (mutexes st k) (lines st k) (res (sessions st) k WMutex)
      | Semaphore \<Rightarrow> permits_ok (pools st k) (qset (sessions st) k False - H)
                       (\<lambda>s. s_weight (sessions st s)) (res (sessions st) k WPermits)
      | ReadWrite \<Rightarrow> shared_ok (shareds st k) (lines st k) (reader_lines st k)
                       (res (sessions st) k WRead) (res (sessions st) k WWrite))"

definition lines_ok :: "store \<Rightarrow> bool" where
  "lines_ok st \<longleftrightarrow>
     wf_sessions (sessions st) (next_sid st) \<and>
     (\<forall>k. line_ok (lines st k) (qset (sessions st) k False)) \<and>
     (\<forall>k. line_ok (reader_lines st k) (qset (sessions st) k True))"

definition store_inv :: "sid set \<Rightarrow> store \<Rightarrow> bool" where
  "store_inv H st \<longleftrightarrow> lines_ok st \<and> (\<forall>k. key_ok H st k)"

lemma store_inv_empty: "store_inv H empty_store"
proof -
  have "res (\<lambda>_. no_session) k kind = {}" "qset (\<lambda>_. no_session) k rd = {}" for k kind rd
    by (auto simp: res_def qset_def no_session_def)
  then show ?thesis
    by (auto simp: store_inv_def lines_ok_def wf_sessions_def no_session_def empty_store_def line_ok_def
        key_ok_def mutex_ok_def permits_ok_def shared_ok_def split: primitive.splits)
qed

section \<open>The session operations as updates\<close>

named_theorems store_updates \<open>the session operations written as record updates\<close>

lemma set_state_eq [store_updates]:
  "set_state s w st = st\<lparr>sessions := (sessions st)(s := (sessions st s)\<lparr>s_state := w\<rparr>)\<rparr>"
  by (simp add: set_state_def upd_session_def)

lemma join_eq [store_updates]:
  "join s st =
     (let x = sessions st s
      in (if s_kind x = WRead
          then st\<lparr>reader_lines := (reader_lines st)(s_full x \<mapsto> line_list (reader_lines st) (s_full x) @ [s]),
                  sessions := (sessions st)(s := x\<lparr>s_state := Queued\<rparr>)\<rparr>
          else st\<lparr>lines := (lines st)(s_full x \<mapsto> line_list (lines st) (s_full x) @ [s]),
                  sessions := (sessions st)(s := x\<lparr>s_state := Queued\<rparr>)\<rparr>))"
  by (simp add: join_def set_state_def upd_session_def Let_def)

lemma line_map_absent: "m k = None \<Longrightarrow> line_map m k (remove1 s (line_list m k)) = m"
  by (auto simp: line_map_def line_list_def)

lemma leave_eq [store_updates]:
  "leave s st =
     (let x = sessions st s; ss = (sessions st)(s := x\<lparr>s_state := Idle\<rparr>)
      in (if s_kind x = WRead
          then st\<lparr>reader_lines := line_map (reader_lines st) (s_full x)
                     (remove1 s (line_list (reader_lines st) (s_full x))), sessions := ss\<rparr>
          else st\<lparr>lines := line_map (lines st) (s_full x)
                     (remove1 s (line_list (lines st) (s_full x))), sessions := ss\<rparr>))"
  by (auto simp: leave_def set_state_eq Let_def line_list_def line_map_def split: option.splits
      intro!: store.equality)

text \<open>Waking a session changes its pending promise and the log only.\<close>

lemma wake_session_eq:
  "wake_session s st =
     st\<lparr>sessions := (sessions st)(s := (sessions st s)\<lparr>s_wake := None\<rparr>),
        resolved := resolved st @ (case s_wake (sessions st s) of None \<Rightarrow> [] | Some p \<Rightarrow> [p])\<rparr>"
proof (cases "s_wake (sessions st s)")
  case None
  then have same: "(sessions st s)\<lparr>s_wake := None\<rparr> = sessions st s" by (intro session.equality) simp_all
  show ?thesis unfolding wake_session_def same unfolding None by simp
next
  case (Some p)
  then show ?thesis by (simp add: wake_session_def resolve_def upd_session_def)
qed

lemma hand_to_eq [store_updates]:
  "hand_to s st =
     (let x = sessions st s; ss = (sessions st)(s := x\<lparr>s_state := Reserved, s_wake := None\<rparr>);
          ps = resolved st @ (case s_wake x of None \<Rightarrow> [] | Some p \<Rightarrow> [p])
      in (if s_kind x = WRead
          then st\<lparr>reader_lines := line_map (reader_lines st) (s_full x)
                     (remove1 s (line_list (reader_lines st) (s_full x))), sessions := ss, resolved := ps\<rparr>
          else st\<lparr>lines := line_map (lines st) (s_full x)
                     (remove1 s (line_list (lines st) (s_full x))), sessions := ss, resolved := ps\<rparr>))"
  by (simp add: hand_to_def wake_session_eq set_state_eq leave_eq Let_def)

lemma wake_watchers_eq [store_updates]:
  "wake_watchers k st =
     st\<lparr>watchers := (watchers st)(k := None),
        resolved := resolved st @ (case watchers st k of None \<Rightarrow> [] | Some ps \<Rightarrow> ps)\<rparr>"
  by (auto simp: wake_watchers_def fun_upd_idem split: option.splits)

section \<open>Lines stay lines\<close>

lemma line_ok_other: "line_ok l Q \<Longrightarrow> s \<notin> Q \<Longrightarrow> line_ok l (Q - {s})"
  by simp

lemma line_ok_snoc:
  assumes "line_ok (m k) Q" "s \<notin> Q"
  shows "line_ok (Some (line_list m k @ [s])) (insert s Q)"
  using assms by (auto simp: line_ok_def line_list_def split: option.splits)

lemma line_ok_remove:
  assumes "line_ok (m k) Q" "s \<in> Q"
  shows "line_ok (line_map m k (remove1 s (line_list m k)) k) (Q - {s})"
proof -
  from assms obtain xs where xs: "m k = Some xs" "distinct xs" "set xs = Q"
    by (auto simp: line_ok_def split: option.splits)
  then have "set (remove1 s xs) = Q - {s}" by simp
  then have "line_ok (if remove1 s xs = [] then None else Some (remove1 s xs)) (Q - {s})"
    using xs by (cases "remove1 s xs = []") (auto simp: line_ok_def distinct_remove1 simp del: set_remove1_eq)
  with xs show ?thesis by (simp add: line_list_def line_map_def)
qed

lemma line_map_other: "k' \<noteq> k \<Longrightarrow> line_map m k xs k' = m k'"
  by (simp add: line_map_def)

lemma lines_okD:
  assumes "lines_ok st"
  shows "line_ok (lines st k) (qset (sessions st) k False)"
    and "line_ok (reader_lines st k) (qset (sessions st) k True)"
    and "wf_sessions (sessions st) (next_sid st)"
  using assms by (auto simp: lines_ok_def)

lemma queued_wf:
  assumes "wf_sessions ss n" "s_state (ss s) \<noteq> Idle"
  shows "s < n" "\<not> s_closed (ss s)"
  using assms by (auto simp: wf_sessions_def no_session_def) (metis not_le session.select_convs(4))

text \<open>The sessions of a queued reader's or writer's line, and of others, under a change of state.\<close>

lemma wf_sessions_upd:
  assumes "wf_sessions ss n" "s < n" "s_full x = s_full (ss s)" "s_kind x = s_kind (ss s)"
    "s_weight x = s_weight (ss s)" "s_closed x \<longrightarrow> s_state x = Idle" "s_wake x \<noteq> None \<longrightarrow> s_state x = Queued"
  shows "wf_sessions (ss(s := x)) n"
  using assms by (auto simp: wf_sessions_def)

text \<open>Only the sessions and their lines matter for the lines.\<close>

lemma lines_ok_frame [simp]:
  "lines_ok (st\<lparr>mutexes := m\<rparr>) = lines_ok st"
  "lines_ok (st\<lparr>pools := ps\<rparr>) = lines_ok st"
  "lines_ok (st\<lparr>shareds := sh\<rparr>) = lines_ok st"
  "lines_ok (st\<lparr>watchers := w\<rparr>) = lines_ok st"
  "lines_ok (st\<lparr>last_fence := f\<rparr>) = lines_ok st"
  "lines_ok (st\<lparr>resolved := r\<rparr>) = lines_ok st"
  "lines_ok (st\<lparr>next_promise := q\<rparr>) = lines_ok st"
  by (simp_all add: lines_ok_def)

definition agrees :: "session \<Rightarrow> session \<Rightarrow> bool" where
  "agrees x y \<longleftrightarrow> s_full x = s_full y \<and> s_kind x = s_kind y \<and> s_weight x = s_weight y"

text \<open>Taking a queued session out of its line.\<close>

definition out_of_line :: "sid \<Rightarrow> session \<Rightarrow> store \<Rightarrow> store" where
  "out_of_line s x st =
     (if s_kind x = WRead
      then st\<lparr>reader_lines := line_map (reader_lines st) (s_full x)
                 (remove1 s (line_list (reader_lines st) (s_full x))), sessions := (sessions st)(s := x)\<rparr>
      else st\<lparr>lines := line_map (lines st) (s_full x)
                 (remove1 s (line_list (lines st) (s_full x))), sessions := (sessions st)(s := x)\<rparr>)"

lemma lines_ok_out_of_line:
  assumes ok: "lines_ok st" and q: "s_state (sessions st s) = Queued"
    and x: "agrees x (sessions st s)" "s_state x \<noteq> Queued" "s_closed x \<longrightarrow> s_state x = Idle" "s_wake x = None"
  shows "lines_ok (out_of_line s x st)"
proof -
  note wf = lines_okD(3) [OF ok]
  from queued_wf [OF wf, of s] q have s: "s < next_sid st" by auto
  from x have "wf_sessions ((sessions st)(s := x)) (next_sid st)"
    by (intro wf_sessions_upd [OF wf s]) (auto simp: agrees_def)
  moreover have "line_ok (line_map m (s_full x) (remove1 s (line_list m (s_full x))) k)
      (qset (sessions st) k rd - {s})"
    if "\<And>k. line_ok (m k) (qset (sessions st) k rd)" "(s_kind x = WRead) = rd" for m k rd
    using that q x(1) line_ok_remove [of m "s_full x" "qset (sessions st) (s_full x) rd" s]
    by (cases "k = s_full x") (auto simp: line_map_other session_sets agrees_def)
  moreover have "qset (sessions st) k rd - {s} = qset (sessions st) k rd" if "(s_kind x = WRead) \<noteq> rd" for k rd
    using that x(1) by (auto simp: session_sets agrees_def)
  ultimately show ?thesis
    using lines_okD(1,2) [OF ok] x(2) by (simp add: out_of_line_def lines_ok_def qset_upd)
qed

text \<open>Putting an idle session into its line, or letting it be idle or reserved.\<close>

lemma lines_ok_into_line:
  assumes ok: "lines_ok st" and s: "s < next_sid st" and idle: "s_state (sessions st s) = Idle"
    and open_s: "\<not> s_closed (sessions st s)"
  shows "lines_ok (join s st)"
proof -
  let ?x = "(sessions st s)\<lparr>s_state := Queued\<rparr>"
  note wf = lines_okD(3) [OF ok]
  from wf idle have "s_wake (sessions st s) = None" by (auto simp: wf_sessions_def)
  then have "wf_sessions ((sessions st)(s := ?x)) (next_sid st)"
    by (intro wf_sessions_upd [OF wf s]) (use open_s in auto)
  moreover have "line_ok (Some (line_list m k @ [s])) (insert s (qset (sessions st) k rd))"
    if "line_ok (m k) (qset (sessions st) k rd)" for m k rd
    using that idle by (intro line_ok_snoc) (auto simp: session_sets)
  moreover have "qset (sessions st) k rd - {s} = qset (sessions st) k rd" for k rd
    using idle by (auto simp: session_sets)
  ultimately show ?thesis
    using lines_okD(1,2) [OF ok] by (auto simp: join_eq Let_def lines_ok_def qset_upd)
qed

lemma lines_ok_no_line:
  assumes ok: "lines_ok st" and s: "s < next_sid st" and nq: "s_state (sessions st s) \<noteq> Queued"
    and x: "agrees x (sessions st s)" "s_state x \<noteq> Queued" "s_closed x \<longrightarrow> s_state x = Idle" "s_wake x = None"
  shows "lines_ok (st\<lparr>sessions := (sessions st)(s := x)\<rparr>)"
proof -
  note wf = lines_okD(3) [OF ok]
  from x have "wf_sessions ((sessions st)(s := x)) (next_sid st)"
    by (intro wf_sessions_upd [OF wf s]) (auto simp: agrees_def)
  moreover have "qset (sessions st) k rd - {s} = qset (sessions st) k rd" for k rd
    using nq by (auto simp: session_sets)
  ultimately show ?thesis
    using lines_okD(1,2) [OF ok] x(2) by (simp add: lines_ok_def qset_upd)
qed

lemma lines_ok_new:
  assumes ok: "lines_ok st" and "kind_fits (key_primitive k) kind" "1 \<le> w \<and> (kind = WPermits \<or> w = 1)"
  shows "lines_ok (snd (new_session k kind w st))"
proof -
  let ?s = "next_sid st"
  let ?x = "\<lparr>s_full = k, s_kind = kind, s_weight = w, s_state = Idle, s_closed = False, s_wake = None\<rparr>"
  note wf = lines_okD(3) [OF ok]
  from wf assms(2,3) have "wf_sessions ((sessions st)(?s := ?x)) (Suc ?s)"
    by (auto simp: wf_sessions_def less_Suc_eq)
  moreover have "sessions st ?s = no_session" using wf by (auto simp: wf_sessions_def)
  then have "qset (sessions st) k rd - {?s} = qset (sessions st) k rd" for k rd
    by (auto simp: session_sets no_session_def)
  ultimately show ?thesis
    using lines_okD(1,2) [OF ok] by (simp add: new_session_def lines_ok_def qset_upd)
qed

section \<open>What an operation leaves alone\<close>

text \<open>What a key sees of a session: nothing of one that is idle or of another key.\<close>

definition seen :: "lock_key \<Rightarrow> session \<Rightarrow> (wait_kind \<times> int \<times> wait_state) option" where
  "seen k x = (if s_full x = k \<and> s_state x \<noteq> Idle then Some (s_kind x, s_weight x, s_state x) else None)"

definition same_key :: "lock_key \<Rightarrow> store \<Rightarrow> store \<Rightarrow> bool" where
  "same_key k st st' \<longleftrightarrow>
     mutexes st' k = mutexes st k \<and> pools st' k = pools st k \<and> shareds st' k = shareds st k \<and>
     lines st' k = lines st k \<and> reader_lines st' k = reader_lines st k \<and>
     (\<forall>s. seen k (sessions st' s) = seen k (sessions st s))"

lemma same_key_refl [simp]: "same_key k st st"
  by (simp add: same_key_def)

lemma same_key_trans: "same_key k st st' \<Longrightarrow> same_key k st' st'' \<Longrightarrow> same_key k st st''"
  by (simp add: same_key_def)

lemma res_seen: "res ss k kind = {s. \<exists>w. seen k (ss s) = Some (kind, w, Reserved)}"
  by (auto simp: res_def seen_def)

lemma qset_seen: "qset ss k rd = {s. \<exists>kind w. seen k (ss s) = Some (kind, w, Queued) \<and> (kind = WRead) = rd}"
  by (auto simp: qset_def seen_def)

lemma same_key_sets:
  assumes "same_key k st st'"
  shows "res (sessions st') k kind = res (sessions st) k kind"
    and "qset (sessions st') k rd = qset (sessions st) k rd"
  using assms by (simp_all add: same_key_def res_seen qset_seen)

lemma same_key_weight:
  assumes "same_key k st st'" "s \<in> res (sessions st) k kind \<union> qset (sessions st) k rd"
  shows "s_weight (sessions st' s) = s_weight (sessions st s)"
proof -
  from assms(1) have "seen k (sessions st' s) = seen k (sessions st s)" by (simp add: same_key_def)
  with assms(2) show ?thesis by (auto simp: res_def qset_def seen_def split: if_splits)
qed

lemma same_key_ok:
  assumes "same_key k st st'" "key_ok H st k"
  shows "key_ok H st' k"
proof -
  note sets = same_key_sets [OF assms(1)]
  have "sum (\<lambda>s. s_weight (sessions st' s)) (res (sessions st) k WPermits) =
        sum (\<lambda>s. s_weight (sessions st s)) (res (sessions st) k WPermits)"
    by (rule sum.cong) (auto intro: same_key_weight [OF assms(1), where rd = True])
  moreover have "\<forall>s \<in> qset (sessions st) k False - H. s_weight (sessions st' s) = s_weight (sessions st s)"
    by (auto intro: same_key_weight [OF assms(1), where kind = WMutex])
  ultimately show ?thesis
    using assms unfolding key_ok_def sets same_key_def
    by (auto simp: permits_ok_def pool_accounts_def split: primitive.splits option.splits)
qed

end
