(* ===== verification/LockMutex.thy ===== *)
theory LockMutex
  imports LockMemoryInv
begin

text \<open>
  The mutex operations of the in-process store keep its invariant; what each of them does to
  the key it is about, and that it leaves every other key alone.
\<close>

section \<open>Lines hold sessions of the key's own primitive\<close>

lemma line_member:
  assumes "lines_ok st" "lines st k = Some xs" "s \<in> set xs"
  shows "s_state (sessions st s) = Queued" "s_full (sessions st s) = k" "s_kind (sessions st s) \<noteq> WRead"
    "s < next_sid st" "kind_fits (key_primitive k) (s_kind (sessions st s))" "1 \<le> s_weight (sessions st s)"
    "\<not> s_closed (sessions st s)"
proof -
  from lines_okD(1) [OF assms(1), of k] assms(2,3) have "s \<in> qset (sessions st) k False"
    by (simp add: line_ok_def)
  then show q: "s_state (sessions st s) = Queued" "s_full (sessions st s) = k" "s_kind (sessions st s) \<noteq> WRead"
    by (auto simp: session_sets)
  note wf = lines_okD(3) [OF assms(1)]
  from queued_wf [OF wf, of s] q show s: "s < next_sid st" "\<not> s_closed (sessions st s)" by auto
  from wf s q show "kind_fits (key_primitive k) (s_kind (sessions st s))" "1 \<le> s_weight (sessions st s)"
    by (auto simp: wf_sessions_def)
qed

lemma line_ok_nonempty: "line_ok l Q \<Longrightarrow> s \<in> Q \<Longrightarrow> l \<noteq> None"
  by (cases l) (auto simp: line_ok_def)

lemma hand_to_out_of_line:
  "hand_to s st =
     (out_of_line s ((sessions st s)\<lparr>s_state := Reserved, s_wake := None\<rparr>) st)
       \<lparr>resolved := resolved st @ (case s_wake (sessions st s) of None \<Rightarrow> [] | Some p \<Rightarrow> [p])\<rparr>"
  by (simp add: hand_to_eq out_of_line_def Let_def)

lemma lines_ok_hand_to:
  assumes "lines_ok st" "s_state (sessions st s) = Queued"
  shows "lines_ok (hand_to s st)"
proof -
  from lines_okD(3) [OF assms(1)] assms(2) have "\<not> s_closed (sessions st s)"
    by (auto simp: wf_sessions_def)
  then have "lines_ok (out_of_line s ((sessions st s)\<lparr>s_state := Reserved, s_wake := None\<rparr>) st)"
    by (intro lines_ok_out_of_line [OF assms]) (auto simp: agrees_def)
  then show ?thesis by (simp add: hand_to_out_of_line)
qed

section \<open>Handing a mutex over\<close>

lemma mutex_key_ok:
  "key_primitive k = Mutex \<Longrightarrow>
     key_ok H st k = mutex_ok (mutexes st k) (lines st k) (res (sessions st) k WMutex)"
  by (simp add: key_ok_def)

text \<open>What holds of a mutex between a release (or a waiter's leaving) and the dispatch.\<close>

definition mutex_pre :: "lock_key \<Rightarrow> store \<Rightarrow> bool" where
  "mutex_pre k st \<longleftrightarrow>
     (case mutexes st k of None \<Rightarrow> lines st k = None \<and> res (sessions st) k WMutex = {}
      | Some m \<Rightarrow> (holder m = None \<or> reserved m = None) \<and> res (sessions st) k WMutex = set_option (reserved m))"

lemma dispatch_mutex_ok:
  assumes ok: "lines_ok st" and prim: "key_primitive k = Mutex" and pre: "mutex_pre k st"
  shows "lines_ok (dispatch_mutex k st)" and "key_ok H (dispatch_mutex k st) k"
    and "k' \<noteq> k \<Longrightarrow> same_key k' st (dispatch_mutex k st)"
proof -
  let ?busy = "case mutexes st k of None \<Rightarrow> False | Some m \<Rightarrow> holder m \<noteq> None \<or> reserved m \<noteq> None"
  consider (busy) "?busy" | (hand) s ss where "\<not> ?busy" "lines st k = Some (s # ss)"
    | (free) "\<not> ?busy" "lines st k = None"
    using lines_okD(1) [OF ok, of k]
    by (cases ?busy; cases "lines st k") (auto simp: line_ok_def neq_Nil_conv simp del: split_paired_Ex)
  then have "lines_ok (dispatch_mutex k st) \<and> key_ok H (dispatch_mutex k st) k \<and>
      (k' \<noteq> k \<longrightarrow> same_key k' st (dispatch_mutex k st))"
  proof cases
    case busy
    then have "dispatch_mutex k st = st" by (simp add: dispatch_mutex_def)
    moreover have "key_ok H st k"
      using busy pre by (auto simp: mutex_pre_def mutex_key_ok [OF prim] mutex_ok_def split: option.splits)
    ultimately show ?thesis using ok by simp
  next
    case hand
    note s = line_member [OF ok hand(2), of s, simplified]
    define m where "m = (case mutexes st k of None \<Rightarrow> free_mutex | Some m \<Rightarrow> m)"
    from hand pre have m: "holder m = None" "res (sessions st) k WMutex = {}"
      by (auto simp: m_def free_mutex_def mutex_pre_def split: option.splits)
    let ?st = "st\<lparr>mutexes := (mutexes st)(k \<mapsto> m\<lparr>reserved := Some s\<rparr>)\<rparr>"
    have d: "dispatch_mutex k st = hand_to s ?st"
      using hand by (simp add: dispatch_mutex_def m_def)
    have "lines_ok (dispatch_mutex k st)"
      unfolding d by (rule lines_ok_hand_to) (use ok s in auto)
    moreover have "key_ok H (dispatch_mutex k st) k"
      using s m prim unfolding d mutex_key_ok [OF prim]
      by (auto simp: hand_to_eq Let_def mutex_ok_def res_upd)
    moreover have "k' \<noteq> k \<longrightarrow> same_key k' st (dispatch_mutex k st)"
      using s unfolding d by (auto simp: same_key_def seen_def hand_to_eq Let_def line_map_other)
    ultimately show ?thesis by blast
  next
    case free
    then have d: "dispatch_mutex k st = wake_watchers k (st\<lparr>mutexes := (mutexes st)(k := None)\<rparr>)"
      by (simp add: dispatch_mutex_def)
    have "res (sessions st) k WMutex = {}"
      using free pre by (auto simp: mutex_pre_def split: option.splits)
    then show ?thesis
      using free ok unfolding d mutex_key_ok [OF prim]
      by (auto simp: wake_watchers_eq mutex_ok_def same_key_def)
  qed
  then show "lines_ok (dispatch_mutex k st)" and "key_ok H (dispatch_mutex k st) k"
    and "k' \<noteq> k \<Longrightarrow> same_key k' st (dispatch_mutex k st)" by auto
qed

lemma store_inv_by:
  assumes "store_inv H st" "lines_ok st'" "key_ok H st' k" "\<And>k'. k' \<noteq> k \<Longrightarrow> same_key k' st st'"
  shows "store_inv H st'"
  using assms same_key_ok unfolding store_inv_def by metis

section \<open>Acquire, release, wait\<close>

lemma queue_refused_ok:
  assumes inv: "store_inv H st"
    and ok: "\<And>s. waiter req = Some s \<Longrightarrow> s_state (sessions st s) = Idle \<Longrightarrow> \<not> s_closed (sessions st s) \<Longrightarrow>
      s_full (sessions st s) = k \<Longrightarrow> s_kind (sessions st s) = kind \<Longrightarrow> s_weight (sessions st s) = weight \<Longrightarrow>
      key_ok H (join s st) k"
  shows "store_inv H (snd (queue_refused req k kind weight st))"
proof (cases "snd (queue_refused req k kind weight st) = st")
  case True
  with inv show ?thesis by simp
next
  case False
  then obtain s where s: "waiter req = Some s" "s_state (sessions st s) = Idle" "\<not> s_closed (sessions st s)"
      "s_full (sessions st s) = k" "s_kind (sessions st s) = kind" "s_weight (sessions st s) = weight"
    and j: "snd (queue_refused req k kind weight st) = join s st"
    by (auto simp: queue_refused_def split: option.splits if_splits)
  from inv have lines: "lines_ok st" by (simp add: store_inv_def)
  from lines_okD(3) [OF lines] s(3) have "s < next_sid st"
    by (auto simp: wf_sessions_def no_session_def) (metis not_le session.select_convs(5))
  then have "lines_ok (join s st)" by (rule lines_ok_into_line [OF lines]) (use s in auto)
  moreover have "same_key k' st (join s st)" if "k' \<noteq> k" for k'
    using that s by (auto simp: join_eq Let_def same_key_def seen_def)
  ultimately show ?thesis unfolding j using store_inv_by [OF inv] ok [OF s] by metis
qed

text \<open>A reserved session goes idle when it takes its hold.\<close>

lemma lines_ok_idle:
  assumes "lines_ok st" "s_state (sessions st s) = Reserved"
  shows "lines_ok (st\<lparr>sessions := (sessions st)(s := (sessions st s)\<lparr>s_state := Idle\<rparr>)\<rparr>)"
proof -
  from queued_wf [OF lines_okD(3) [OF assms(1)], of s] assms(2) have "s < next_sid st" by auto
  moreover have "s_wake (sessions st s) = None"
    using lines_okD(3) [OF assms(1)] assms(2) by (auto simp: wf_sessions_def)
  ultimately show ?thesis
    using assms(2) by (intro lines_ok_no_line [OF assms(1)]) (auto simp: agrees_def)
qed

lemma next_fence_eq: "next_fence st = (last_fence st + 1, st\<lparr>last_fence := last_fence st + 1\<rparr>)"
  by (simp add: next_fence_def)

lemma mutex_acquire_inv:
  assumes inv: "store_inv H st" and prim: "key_primitive k = Mutex"
  shows "store_inv H (snd (mutex_acquire k req st))"
proof -
  from inv have lines: "lines_ok st" and key: "mutex_ok (mutexes st k) (lines st k) (res (sessions st) k WMutex)"
    using mutex_key_ok [OF prim] by (auto simp: store_inv_def)
  have refused: "store_inv H (snd (queue_refused req k WMutex 1 st))" if "mutexes st k \<noteq> None"
    using that key by (intro queue_refused_ok [OF inv])
      (auto simp: mutex_key_ok [OF prim] join_eq Let_def mutex_ok_def session_sets split: option.splits)
  show ?thesis
  proof (cases "mutexes st k")
    case None
    then show ?thesis
      using key by (intro store_inv_by [OF inv, of _ k])
        (auto simp: mutex_acquire_def mutex_hold_def next_fence_eq free_mutex_def mutex_key_ok [OF prim]
          mutex_ok_def same_key_def lines)
  next
    case (Some m)
    with key have hm: "holder m = None \<longleftrightarrow> reserved m \<noteq> None"
      and res': "res (sessions st) k WMutex = set_option (reserved m)" by (simp_all add: mutex_ok_def)
    show ?thesis
    proof (cases "\<exists>s. reserved m = Some s \<and> redeeming req k WMutex 1 st = Some s")
      case False
      have "mutex_acquire k req st = queue_refused req k WMutex 1 st"
      proof (cases "reserved m")
        case None
        with hm show ?thesis by (simp add: mutex_acquire_def Some)
      next
        case (Some s)
        with False \<open>mutexes st k = Some m\<close> show ?thesis
          by (simp add: mutex_acquire_def split: option.split)
      qed
      with refused Some show ?thesis by simp
    next
      case True
      then obtain s where own: "reserved m = Some s" "redeeming req k WMutex 1 st = Some s" by blast
      then have s: "s_state (sessions st s) = Reserved" "s_full (sessions st s) = k" "s_kind (sessions st s) = WMutex"
        by (auto simp: redeeming_def split: option.splits if_splits)
      note l = lines_ok_idle [OF lines s(1)]
      have eq: "mutex_acquire k req st = mutex_hold k req
          (st\<lparr>sessions := (sessions st)(s := (sessions st s)\<lparr>s_state := Idle\<rparr>),
              mutexes := (mutexes st)(k \<mapsto> m\<lparr>reserved := None\<rparr>)\<rparr>)"
        using own Some by (simp add: mutex_acquire_def set_state_eq)
      show ?thesis
      proof (rule store_inv_by [OF inv])
        show "lines_ok (snd (mutex_acquire k req st))"
          using l by (simp add: eq mutex_hold_def next_fence_eq lines_ok_def)
        show "key_ok H (snd (mutex_acquire k req st)) k"
          using s own res' by (simp add: eq mutex_hold_def next_fence_eq mutex_key_ok [OF prim] mutex_ok_def res_upd)
        show "same_key k' st (snd (mutex_acquire k req st))" if "k' \<noteq> k" for k'
          using that s by (simp add: eq mutex_hold_def next_fence_eq same_key_def seen_def)
      qed
    qed
  qed
qed

lemma mutex_release_inv:
  assumes inv: "store_inv H st" and prim: "key_primitive (g_key g) = Mutex"
  shows "store_inv H (snd (mutex_release g st))"
proof (cases "\<exists>m h. mutexes st (g_key g) = Some m \<and> holder m = Some h \<and> owner h = g_token g")
  case False
  then have "snd (mutex_release g st) = st"
    by (auto simp: mutex_release_def split: option.splits)
  with inv show ?thesis by simp
next
  case True
  let ?k = "g_key g"
  from True obtain m h where m: "mutexes st ?k = Some m" "holder m = Some h" "owner h = g_token g" by blast
  from inv have lines: "lines_ok st" and "key_ok H st ?k" by (auto simp: store_inv_def)
  with m have rm: "reserved m = None" "res (sessions st) ?k WMutex = {}"
    by (auto simp: mutex_key_ok [OF prim] mutex_ok_def)
  let ?st = "st\<lparr>mutexes := (mutexes st)(?k \<mapsto> m\<lparr>holder := None\<rparr>)\<rparr>"
  have eq: "snd (mutex_release g st) = dispatch_mutex ?k ?st"
    using m by (simp add: mutex_release_def)
  have pre: "lines_ok ?st" "mutex_pre ?k ?st" using lines rm by (simp_all add: mutex_pre_def)
  note d = dispatch_mutex_ok [OF pre(1) prim pre(2)]
  have "same_key k' st ?st" if "k' \<noteq> ?k" for k' using that by (simp add: same_key_def)
  then show ?thesis unfolding eq by (rule store_inv_by [OF inv d(1,2) same_key_trans [OF _ d(3)]])
qed

text \<open>The fresh session of a waiter.\<close>

lemma new_session_eq:
  "new_session k kind w st =
     (next_sid st,
      st\<lparr>sessions := (sessions st)(next_sid st :=
            \<lparr>s_full = k, s_kind = kind, s_weight = w, s_state = Idle, s_closed = False, s_wake = None\<rparr>),
         next_sid := next_sid st + 1\<rparr>)"
  by (simp add: new_session_def)

lemma fresh_session:
  assumes "lines_ok st"
  shows "sessions st (next_sid st) = no_session"
    and "next_sid st \<notin> res (sessions st) k kind" and "next_sid st \<notin> qset (sessions st) k rd"
proof -
  show "sessions st (next_sid st) = no_session"
    using lines_okD(3) [OF assms] by (simp add: wf_sessions_def)
  then show "next_sid st \<notin> res (sessions st) k kind" "next_sid st \<notin> qset (sessions st) k rd"
    by (simp_all add: session_sets no_session_def)
qed

text \<open>A fresh session joins the line, or is reserved at once.\<close>

lemma lines_ok_fresh_join:
  assumes "lines_ok st" "kind_fits (key_primitive k) kind" "1 \<le> w \<and> (kind = WPermits \<or> w = 1)"
  shows "lines_ok (join (next_sid st) (snd (new_session k kind w st)))"
  using lines_ok_new [OF assms] by (rule lines_ok_into_line) (simp_all add: new_session_eq)

lemma lines_ok_fresh_reserved:
  assumes "lines_ok st" "kind_fits (key_primitive k) kind" "1 \<le> w \<and> (kind = WPermits \<or> w = 1)"
  shows "lines_ok (set_state (next_sid st) Reserved (snd (new_session k kind w st)))"
  unfolding set_state_eq
  by (rule lines_ok_no_line [OF lines_ok_new [OF assms]]) (simp_all add: new_session_eq agrees_def)

lemma same_key_fresh:
  assumes "lines_ok st" "k' \<noteq> k"
  shows "seen k' (if s = next_sid st
           then \<lparr>s_full = k, s_kind = kind, s_weight = w, s_state = z, s_closed = c, s_wake = q\<rparr>
           else sessions st s) = seen k' (sessions st s)"
  using fresh_session(1) [OF assms(1)] assms(2) by (simp add: seen_def no_session_def)

lemma mutex_waiter_inv:
  assumes inv: "store_inv H st" and prim: "key_primitive k = Mutex"
  shows "store_inv H (snd (mutex_waiter k st))"
proof -
  from inv have lines: "lines_ok st" and key: "mutex_ok (mutexes st k) (lines st k) (res (sessions st) k WMutex)"
    using mutex_key_ok [OF prim] by (auto simp: store_inv_def)
  note fresh = fresh_session [OF lines]
  have fits: "kind_fits (key_primitive k) WMutex" "1 \<le> (1 :: int) \<and> (WMutex = WPermits \<or> 1 = (1 :: int))"
    by (simp_all add: prim)
  show ?thesis
  proof (cases "mutexes st k")
    case None
    with key have none: "lines st k = None" "res (sessions st) k WMutex = {}" by (auto simp: mutex_ok_def)
    let ?st' = "snd (mutex_waiter k st)"
    have "lines_ok ?st'"
      using lines_ok_fresh_reserved [OF lines fits] None
      by (simp add: mutex_waiter_def new_session_eq set_state_eq lines_ok_def)
    moreover have "key_ok H ?st' k"
      using none None by (simp add: mutex_waiter_def new_session_eq set_state_eq mutex_key_ok [OF prim] mutex_ok_def res_upd)
    moreover have "same_key k' st ?st'" if "k' \<noteq> k" for k'
      using that None same_key_fresh [OF lines that]
      by (simp add: mutex_waiter_def new_session_eq set_state_eq same_key_def)
    ultimately show ?thesis by (rule store_inv_by [OF inv])
  next
    case (Some m)
    with key have hm: "holder m \<noteq> None \<or> reserved m \<noteq> None" by (auto simp: mutex_ok_def)
    then have eq: "snd (mutex_waiter k st) = join (next_sid st) (snd (new_session k WMutex 1 st))"
      using Some by (simp add: mutex_waiter_def new_session_eq split: option.split)
    have "key_ok H (snd (mutex_waiter k st)) k"
      using key Some fresh(2) by (auto simp: eq mutex_key_ok [OF prim] new_session_eq join_eq Let_def mutex_ok_def res_upd)
    moreover have "same_key k' st (snd (mutex_waiter k st))" if "k' \<noteq> k" for k'
      using that same_key_fresh [OF lines that] by (auto simp: eq new_session_eq join_eq Let_def same_key_def)
    ultimately show ?thesis
      using lines_ok_fresh_join [OF lines fits] by (intro store_inv_by [OF inv]) (simp_all add: eq)
  qed
qed

section \<open>A waiter that stops waiting\<close>

text \<open>The closed session, out of its line or without its reservation.\<close>

definition closed_session :: "session \<Rightarrow> session" where
  "closed_session x = x\<lparr>s_closed := True, s_wake := None, s_state := Idle\<rparr>"

lemma closed_session_sel [simp]:
  "s_full (closed_session x) = s_full x" "s_kind (closed_session x) = s_kind x"
  "s_weight (closed_session x) = s_weight x" "s_state (closed_session x) = Idle"
  "s_closed (closed_session x)" "s_wake (closed_session x) = None"
  by (simp_all add: closed_session_def)

definition woken :: "sid \<Rightarrow> store \<Rightarrow> promise list" where
  "woken s st = (case s_wake (sessions st s) of None \<Rightarrow> [] | Some p \<Rightarrow> [p])"

lemma close_queued_eq:
  assumes "s_state (sessions st s) = Queued" "\<not> s_closed (sessions st s)"
  shows "session_close s st =
     dispatch s (out_of_line s (closed_session (sessions st s)) (st\<lparr>resolved := resolved st @ woken s st\<rparr>))"
  using assms
  by (simp add: session_close_def upd_session_def wake_session_eq leave_eq Let_def out_of_line_def
      closed_session_def woken_def)

lemma lines_ok_close_queued:
  assumes "lines_ok st" "s_state (sessions st s) = Queued"
  shows "lines_ok (out_of_line s (closed_session (sessions st s)) (st\<lparr>resolved := r\<rparr>))"
  by (rule lines_ok_out_of_line) (use assms in \<open>simp_all add: agrees_def\<close>)

lemma dispatch_kind:
  "s_kind (sessions st s) = WMutex \<Longrightarrow> dispatch s st = dispatch_mutex (s_full (sessions st s)) st"
  "s_kind (sessions st s) = WPermits \<Longrightarrow> dispatch s st = dispatch_permits (s_full (sessions st s)) st"
  "s_kind (sessions st s) = WRead \<or> s_kind (sessions st s) = WWrite \<Longrightarrow>
     dispatch s st = dispatch_shared (s_full (sessions st s)) st"
  by (auto simp: dispatch_def)

lemma mutex_close_inv:
  assumes inv: "store_inv H st" and kind: "s_kind (sessions st s) = WMutex"
    and prim: "key_primitive (s_full (sessions st s)) = Mutex"
    and open_s: "\<not> s_closed (sessions st s)" and busy: "s_state (sessions st s) \<noteq> Idle"
  shows "store_inv H (session_close s st)"
proof -
  let ?k = "s_full (sessions st s)" and ?x = "closed_session (sessions st s)"
  from inv have lines: "lines_ok st" and key: "mutex_ok (mutexes st ?k) (lines st ?k) (res (sessions st) ?k WMutex)"
    using mutex_key_ok [OF prim] by (auto simp: store_inv_def)
  from busy consider (queued) "s_state (sessions st s) = Queued" | (reserved) "s_state (sessions st s) = Reserved"
    by (cases "s_state (sessions st s)") auto
  then obtain st1 where eq: "session_close s st = dispatch_mutex ?k st1" and l: "lines_ok st1"
    and pre: "mutex_pre ?k st1" and other: "\<And>k'. k' \<noteq> ?k \<Longrightarrow> same_key k' st st1"
  proof cases
    case queued
    let ?st1 = "out_of_line s ?x (st\<lparr>resolved := resolved st @ woken s st\<rparr>)"
    have "s \<in> qset (sessions st) ?k False" using queued kind by (simp add: session_sets)
    with lines_okD(1) [OF lines, of ?k] have "lines st ?k \<noteq> None"
      by (rule line_ok_nonempty)
    then have "mutex_pre ?k ?st1"
      using key queued kind by (auto simp: mutex_ok_def mutex_pre_def out_of_line_def session_sets split: option.splits)
    moreover have "same_key k' st ?st1" if "k' \<noteq> ?k" for k'
      using that kind by (auto simp: same_key_def seen_def out_of_line_def line_map_other)
    ultimately show thesis
      using that [of ?st1] close_queued_eq [OF queued open_s] lines_ok_close_queued [OF lines queued] kind
      by (simp add: dispatch_kind out_of_line_def)
  next
    case reserved
    have "s \<in> res (sessions st) ?k WMutex" using reserved kind by (simp add: session_sets)
    with key obtain m where m: "mutexes st ?k = Some m" "reserved m = Some s" "holder m = None"
      "res (sessions st) ?k WMutex = {s}" by (auto simp: mutex_ok_def split: option.splits)
    let ?st1 = "st\<lparr>resolved := resolved st @ woken s st, sessions := (sessions st)(s := ?x),
                  mutexes := (mutexes st)(?k \<mapsto> m\<lparr>reserved := None\<rparr>)\<rparr>"
    have "session_close s st = dispatch s ?st1"
      using reserved open_s kind m
      by (simp add: session_close_def upd_session_def wake_session_eq unreserve_def set_state_eq Let_def
          closed_session_def woken_def)
    moreover have "lines_ok ?st1"
      using lines_ok_no_line [OF lines, of s ?x] queued_wf [OF lines_okD(3) [OF lines], of s] reserved
      by (simp add: agrees_def lines_ok_def)
    moreover have "mutex_pre ?k ?st1" using m by (simp add: mutex_pre_def session_sets)
    moreover have "same_key k' st ?st1" if "k' \<noteq> ?k" for k'
      using that by (simp add: same_key_def seen_def)
    ultimately show thesis using that [of ?st1] kind by (simp add: dispatch_kind)
  qed
  note d = dispatch_mutex_ok [OF l prim pre]
  show ?thesis unfolding eq by (rule store_inv_by [OF inv d(1,2) same_key_trans [OF other d(3)]])
qed

end
