(* ===== verification/LockPermits.thy ===== *)
theory LockPermits
  imports LockMutex
begin

text \<open>
  The semaphore operations of the in-process store keep its invariant: the accounts of a pool
  stay exact, the limit is never passed, and no waiter that fits is left in line, but for those in
  a set \<open>H\<close>, which must hold every waiter that asks for more than the limit of the pool it finds.
\<close>

lemma permits_key_ok:
  "key_primitive k = Semaphore \<Longrightarrow>
     key_ok H st k = permits_ok (pools st k) (qset (sessions st) k False - H)
       (\<lambda>s. s_weight (sessions st s)) (res (sessions st) k WPermits)"
  by (simp add: key_ok_def)

section \<open>Sums over reserved sessions\<close>

lemma finite_res: "lines_ok st \<Longrightarrow> finite (res (sessions st) k kind)"
proof (rule finite_subset [of _ "{..<next_sid st}"])
  assume "lines_ok st"
  then have wf: "wf_sessions (sessions st) (next_sid st)" by (rule lines_okD)
  show "res (sessions st) k kind \<subseteq> {..<next_sid st}"
    using queued_wf(1) [OF wf] by (auto simp: session_sets)
qed simp

lemma weight_pos:
  assumes "lines_ok st" "s_state (sessions st s) \<noteq> Idle"
  shows "1 \<le> s_weight (sessions st s)"
  using lines_okD(3) [OF assms(1)] queued_wf(1) [OF lines_okD(3) [OF assms(1)] assms(2)]
  by (simp add: wf_sessions_def)

lemma sum_res_pos:
  assumes "lines_ok st" "res (sessions st) k kind \<noteq> {}"
  shows "0 < (\<Sum>s \<in> res (sessions st) k kind. s_weight (sessions st s))"
proof (rule sum_pos)
  show "finite (res (sessions st) k kind)" by (rule finite_res [OF assms(1)])
  show "res (sessions st) k kind \<noteq> {}" by (rule assms(2))
  fix s assume "s \<in> res (sessions st) k kind"
  then have "s_state (sessions st s) \<noteq> Idle" by (simp add: session_sets)
  from weight_pos [OF assms(1) this] show "0 < s_weight (sessions st s)" by simp
qed

lemma hand_to_weights: "(\<lambda>t. s_weight (sessions (hand_to s st) t)) = (\<lambda>t. s_weight (sessions st t))"
  by (auto simp: hand_to_eq Let_def)

lemma hand_to_tables [simp]:
  "mutexes (hand_to s st) = mutexes st" "pools (hand_to s st) = pools st"
  "shareds (hand_to s st) = shareds st" "last_fence (hand_to s st) = last_fence st"
  by (simp_all add: hand_to_eq Let_def)

lemma hand_to_sessions:
  "sessions (hand_to s st) = (sessions st)(s := (sessions st s)\<lparr>s_state := Reserved, s_wake := None\<rparr>)"
  by (simp add: hand_to_eq Let_def)

lemma same_key_hand_to:
  assumes "s_full (sessions st s) \<noteq> k'"
  shows "same_key k' st (hand_to s st)"
  using assms by (auto simp: same_key_def seen_def hand_to_eq Let_def line_map_other)

lemma same_key_join:
  assumes "s_full (sessions st s) \<noteq> k'"
  shows "same_key k' st (join s st)"
  using assms by (auto simp: same_key_def seen_def join_eq Let_def)

lemma same_key_set_state:
  assumes "s_full (sessions st s) \<noteq> k'"
  shows "same_key k' st (set_state s w st)"
  using assms by (auto simp: same_key_def seen_def set_state_eq)

section \<open>The granting loop\<close>

lemma permits_loop_ok:
  assumes "lines_ok st" "key_primitive k = Semaphore" "distinct xs" "set xs \<subseteq> qset (sessions st) k False"
    and "pool_accounts p (\<lambda>s. s_weight (sessions st s)) (res (sessions st) k WPermits)"
    and "\<forall>s \<in> qset (sessions st) k False - set xs. limit p < in_use p + s_weight (sessions st s)"
    and "permits_loop xs p st = (p', st')"
  shows "lines_ok st' \<and> pool_accounts p' (\<lambda>s. s_weight (sessions st s)) (res (sessions st') k WPermits)
    \<and> (\<forall>s \<in> qset (sessions st') k False. limit p < in_use p' + s_weight (sessions st s))
    \<and> qset (sessions st') k False \<subseteq> qset (sessions st) k False
    \<and> (\<lambda>s. s_weight (sessions st' s)) = (\<lambda>s. s_weight (sessions st s))
    \<and> holders p' = holders p \<and> limit p' = limit p
    \<and> mutexes st' = mutexes st \<and> pools st' = pools st \<and> shareds st' = shareds st
    \<and> (\<forall>k'. k' \<noteq> k \<longrightarrow> same_key k' st st')"
  using assms
proof (induction xs p st rule: permits_loop.induct)
  case (1 p st)
  then show ?case by auto
next
  case (2 s ss p st)
  let ?w = "s_weight (sessions st s)"
  from "2.prems"(4) have s: "s_state (sessions st s) = Queued" "s_full (sessions st s) = k"
      "s_kind (sessions st s) \<noteq> WRead" by (auto simp: session_sets)
  from queued_wf(1) [OF lines_okD(3) [OF "2.prems"(1)], of s] s(1) have "s < next_sid st" by simp
  with lines_okD(3) [OF "2.prems"(1)] s(2) "2.prems"(2) have kind: "s_kind (sessions st s) = WPermits"
    by (auto simp: wf_sessions_def)
  consider (full) "\<not> in_use p < limit p" | (skip) "in_use p < limit p" "\<not> in_use p + ?w \<le> limit p"
    | (grant) "in_use p < limit p" "in_use p + ?w \<le> limit p" by blast
  then show ?case
  proof cases
    case full
    have "limit p < in_use p + s_weight (sessions st t)" if "t \<in> qset (sessions st) k False" for t
      using that full weight_pos [OF "2.prems"(1), of t] by (simp add: session_sets)
    with "2.prems" full show ?thesis by auto
  next
    case skip
    have "\<forall>t \<in> qset (sessions st) k False - set ss. limit p < in_use p + s_weight (sessions st t)"
      using "2.prems"(6) skip(2) by auto
    with 2 skip show ?thesis by simp
  next
    case grant
    let ?p = "p\<lparr>in_use := in_use p + ?w, p_reserved := p_reserved p + ?w\<rparr>" and ?st = "hand_to s st"
    have res: "res (sessions ?st) k WPermits = insert s (res (sessions st) k WPermits)"
      using s kind by (simp add: hand_to_sessions res_upd)
    have q: "qset (sessions ?st) k False = qset (sessions st) k False - {s}"
      by (simp add: hand_to_sessions qset_upd)
    have "s \<notin> res (sessions st) k WPermits" using s(1) by (simp add: session_sets)
    then have "pool_accounts ?p (\<lambda>s. s_weight (sessions st s)) (res (sessions ?st) k WPermits)"
      using "2.prems"(5) grant finite_res [OF "2.prems"(1)] by (simp add: pool_accounts_def res held_weight_def)
    moreover have "\<forall>t \<in> qset (sessions ?st) k False - set ss. limit p < in_use p + ?w + s_weight (sessions st t)"
    proof
      fix t assume "t \<in> qset (sessions ?st) k False - set ss"
      then have "limit p < in_use p + s_weight (sessions st t)" using "2.prems"(6) q by auto
      then show "limit p < in_use p + ?w + s_weight (sessions st t)"
        using weight_pos [OF "2.prems"(1), of s] s(1) by simp
    qed
    moreover have "set ss \<subseteq> qset (sessions ?st) k False" using "2.prems"(3,4) q by auto
    moreover have "same_key k' st ?st" if "k' \<noteq> k" for k' using that s by (simp add: same_key_hand_to)
    moreover have "lines_ok ?st" by (rule lines_ok_hand_to [OF "2.prems"(1) s(1)])
    moreover have "(s_weight (sessions ?st t)) = s_weight (sessions st t)" for t
      using hand_to_weights by metis
    moreover have "permits_loop ss ?p ?st = (p', st')" using "2.prems"(7) grant by (simp add: Let_def)
    ultimately have "lines_ok st' \<and> pool_accounts p' (\<lambda>s. s_weight (sessions st s)) (res (sessions st') k WPermits)
        \<and> (\<forall>s \<in> qset (sessions st') k False. limit p < in_use p' + s_weight (sessions st s))
        \<and> qset (sessions st') k False \<subseteq> qset (sessions ?st) k False
        \<and> (\<lambda>s. s_weight (sessions st' s)) = (\<lambda>s. s_weight (sessions st s))
        \<and> holders p' = holders p \<and> limit p' = limit p
        \<and> mutexes st' = mutexes st \<and> pools st' = pools st \<and> shareds st' = shareds st
        \<and> (\<forall>k'. k' \<noteq> k \<longrightarrow> same_key k' ?st st')"
      using "2.IH"(1) [OF grant(1) refl grant(2)] "2.prems"(2,3) by simp
    then show ?thesis using q \<open>\<And>k'. k' \<noteq> k \<Longrightarrow> same_key k' st ?st\<close> same_key_trans by blast
  qed
qed

section \<open>Handing permits out\<close>

text \<open>What holds of a semaphore between a release (or a waiter's leaving) and the dispatch.\<close>

definition permits_pre :: "sid set \<Rightarrow> lock_key \<Rightarrow> store \<Rightarrow> bool" where
  "permits_pre H k st \<longleftrightarrow>
     (case pools st k of
        None \<Rightarrow> qset (sessions st) k False - H = {} \<and> res (sessions st) k WPermits = {}
      | Some p \<Rightarrow>
          pool_accounts p (\<lambda>s. s_weight (sessions st s)) (res (sessions st) k WPermits) \<and>
          (\<forall>s \<in> qset (sessions st) k False - H. s_weight (sessions st s) \<le> limit p))"

lemma same_key_watchers [simp]: "same_key k' st (wake_watchers k st)"
  by (simp add: same_key_def wake_watchers_eq)

lemma line_list_ok:
  assumes "lines_ok st"
  shows "distinct (line_list (lines st) k)" "set (line_list (lines st) k) = qset (sessions st) k False"
  using lines_okD(1) [OF assms, of k] by (auto simp: line_ok_def line_list_def split: option.splits)

lemma dispatch_permits_ok:
  assumes ok: "lines_ok st" and prim: "key_primitive k = Semaphore" and pre: "permits_pre H k st"
  shows "lines_ok (dispatch_permits k st)" and "key_ok H (dispatch_permits k st) k"
    and "k' \<noteq> k \<Longrightarrow> same_key k' st (dispatch_permits k st)"
proof -
  have "lines_ok (dispatch_permits k st) \<and> key_ok H (dispatch_permits k st) k \<and>
      (k' \<noteq> k \<longrightarrow> same_key k' st (dispatch_permits k st))"
  proof (cases "pools st k")
    case None
    with pre ok show ?thesis
      by (simp add: dispatch_permits_def permits_key_ok [OF prim] permits_ok_def permits_pre_def wake_watchers_eq
          same_key_def)
  next
    case (Some p)
    obtain p' st' where loop: "permits_loop (line_list (lines st) k) p st = (p', st')" by fastforce
    from pre Some have acc: "pool_accounts p (\<lambda>s. s_weight (sessions st s)) (res (sessions st) k WPermits)"
      and fits: "\<forall>s \<in> qset (sessions st) k False - H. s_weight (sessions st s) \<le> limit p"
      by (auto simp: permits_pre_def)
    have P: "lines_ok st'" "pool_accounts p' (\<lambda>s. s_weight (sessions st s)) (res (sessions st') k WPermits)"
      "\<forall>s \<in> qset (sessions st') k False. limit p < in_use p' + s_weight (sessions st s)"
      "qset (sessions st') k False \<subseteq> qset (sessions st) k False"
      "(\<lambda>s. s_weight (sessions st' s)) = (\<lambda>s. s_weight (sessions st s))"
      "holders p' = holders p" "limit p' = limit p" "\<And>k'. k' \<noteq> k \<Longrightarrow> same_key k' st st'"
      using permits_loop_ok [OF ok prim line_list_ok(1) [OF ok, of k] _ acc _ loop] line_list_ok(2) [OF ok, of k]
      by auto
    show ?thesis
    proof (cases "holders p' \<noteq> [] \<or> p_reserved p' > 0")
      case True
      then have d: "dispatch_permits k st = st'\<lparr>pools := (pools st')(k \<mapsto> p')\<rparr>"
        using Some loop by (simp add: dispatch_permits_def)
      have "key_ok H (dispatch_permits k st) k"
        using P(2-7) True fits unfolding d permits_key_ok [OF prim] by (auto simp: permits_ok_def)
      moreover have "k' \<noteq> k \<longrightarrow> same_key k' st (dispatch_permits k st)"
        using P(8) [of k'] unfolding d by (simp add: same_key_def)
      ultimately show ?thesis using P(1) by (simp add: d)
    next
      case False
      then have d: "dispatch_permits k st = wake_watchers k (st'\<lparr>pools := (pools st')(k := None)\<rparr>)"
        using Some loop by (simp add: dispatch_permits_def)
      have res: "res (sessions st') k WPermits = {}"
      proof (rule ccontr)
        assume "\<not> ?thesis"
        from sum_res_pos [OF P(1) this] P(2) False show False
          unfolding P(5) by (simp add: pool_accounts_def)
      qed
      then have "in_use p' = 0" using P(2) False by (simp add: pool_accounts_def held_weight_def)
      then have "qset (sessions st') k False - H = {}" using P(3,4) fits by force
      with res have "key_ok H (dispatch_permits k st) k"
        unfolding d permits_key_ok [OF prim] by (simp add: permits_ok_def wake_watchers_eq)
      moreover have "k' \<noteq> k \<longrightarrow> same_key k' st (dispatch_permits k st)"
        using P(8) [of k'] unfolding d by (simp add: same_key_def wake_watchers_eq)
      ultimately show ?thesis using P(1) by (simp add: d wake_watchers_eq)
    qed
  qed
  then show "lines_ok (dispatch_permits k st)" and "key_ok H (dispatch_permits k st) k"
    and "k' \<noteq> k \<Longrightarrow> same_key k' st (dispatch_permits k st)" by auto
qed

section \<open>Acquire, release, wait\<close>

text \<open>A hold is entered in the accounts.\<close>

lemma held_weight_snoc [simp]:
  "held_weight (p\<lparr>holders := hs @ [(t, w, f)]\<rparr>) = held_weight (p\<lparr>holders := hs\<rparr>) + w"
  by (simp add: held_weight_def)

text \<open>A semaphore's state when a session joins its line.\<close>

lemma weights_upd:
  "s_weight x = s_weight (ss s) \<Longrightarrow> (\<lambda>t. s_weight ((ss(s := x)) t)) = (\<lambda>t. s_weight (ss t))"
  by auto

lemma permits_join_ok:
  assumes "key_primitive k = Semaphore" "s_state (sessions st s) = Idle" "s_full (sessions st s) = k"
    "s_kind (sessions st s) = WPermits"
  shows "key_ok H (join s st) k = permits_ok (pools st k) (insert s (qset (sessions st) k False) - H)
    (\<lambda>t. s_weight (sessions st t)) (res (sessions st) k WPermits)"
proof -
  have "sessions (join s st) = (sessions st)(s := (sessions st s)\<lparr>s_state := Queued\<rparr>)" "pools (join s st) = pools st"
    by (simp_all add: join_eq Let_def)
  moreover have "res (sessions st) k WPermits - {s} = res (sessions st) k WPermits"
    using assms(2) by (auto simp: session_sets)
  moreover have "(\<lambda>t. s_weight (((sessions st)(s := (sessions st s)\<lparr>s_state := Queued\<rparr>)) t)) =
      (\<lambda>t. s_weight (sessions st t))" by (rule weights_upd) simp
  ultimately show ?thesis
    using assms(3,4) unfolding permits_key_ok [OF assms(1)] by (simp only: res_upd qset_upd) simp
qed

lemma permits_acquire_inv:
  assumes inv: "store_inv H st" and prim: "key_primitive k = Semaphore"
    and fresh: "\<And>p. pools st k = Some p \<Longrightarrow> token req \<notin> fst ` set (holders p)"
  shows "store_inv H (snd (permits_acquire k req lim weight st))"
proof -
  from inv have lines: "lines_ok st"
    and key: "permits_ok (pools st k) (qset (sessions st) k False - H) (\<lambda>s. s_weight (sessions st s))
      (res (sessions st) k WPermits)"
    using permits_key_ok [OF prim] by (auto simp: store_inv_def)
  consider (rejected) "snd (permits_acquire k req lim weight st) = st"
    | (new) "pools st k = None" "1 \<le> weight" "weight \<le> lim"
        "permits_acquire k req lim weight st = permits_hold k req weight ((new_pool lim)\<lparr>in_use := weight\<rparr>) st"
    | (own) p s where "pools st k = Some p" "1 \<le> weight" "redeeming req k WPermits weight st = Some s"
        "permits_acquire k req lim weight st =
           permits_hold k req weight (p\<lparr>p_reserved := p_reserved p - weight\<rparr>) (set_state s Idle st)"
    | (refused) p where "pools st k = Some p" "weight \<le> limit p" "limit p < in_use p + weight"
        "permits_acquire k req lim weight st = queue_refused req k WPermits weight st"
    | (take) p where "pools st k = Some p" "1 \<le> weight" "in_use p + weight \<le> limit p"
        "permits_acquire k req lim weight st = permits_hold k req weight (p\<lparr>in_use := in_use p + weight\<rparr>) st"
  proof (cases "is_permit_count lim \<and> is_permit_count weight \<and> weight \<le> lim")
    case False
    then show thesis using rejected by (auto simp: permits_acquire_def split: if_splits)
  next
    case True
    show thesis
    proof (cases "pools st k")
      case None
      with True show thesis
        using new by (auto simp: permits_acquire_def new_pool_def is_permit_count_def Let_def)
    next
      case (Some p)
      show thesis
      proof (cases "limit p = lim")
        case False
        with Some True show thesis using rejected by (simp add: permits_acquire_def)
      next
        case lim: True
        show thesis
        proof (cases "redeeming req k WPermits weight st")
          case None
          with Some True lim refused [OF Some] take [OF Some] show thesis
            by (cases "in_use p + weight > lim") (auto simp: permits_acquire_def is_permit_count_def)
        next
          case r: (Some s)
          with Some True lim own [OF Some _ r] show thesis
            by (auto simp: permits_acquire_def is_permit_count_def)
        qed
      qed
    qed
  qed
  then show ?thesis
  proof cases
    case rejected
    with inv show ?thesis by simp
  next
    case new
    with key have "qset (sessions st) k False - H = {}" "res (sessions st) k WPermits = {}"
      by (simp_all add: permits_ok_def)
    then have "key_ok H (snd (permits_acquire k req lim weight st)) k"
      using new(2,3) unfolding new(4)
      by (auto simp: permits_hold_def next_fence_eq new_pool_def permits_key_ok [OF prim] permits_ok_def
          pool_accounts_def held_weight_def)
    moreover have "same_key k' st (snd (permits_acquire k req lim weight st))" if "k' \<noteq> k" for k'
      using that by (simp add: new(4) permits_hold_def next_fence_eq same_key_def)
    moreover have "lines_ok (snd (permits_acquire k req lim weight st))"
      using lines by (simp add: new(4) permits_hold_def next_fence_eq)
    ultimately show ?thesis by (rule_tac store_inv_by [OF inv])
  next
    case own
    then have s: "s_state (sessions st s) = Reserved" "s_full (sessions st s) = k"
        "s_kind (sessions st s) = WPermits" "s_weight (sessions st s) = weight"
      by (auto simp: redeeming_def split: option.splits if_splits)
    let ?st = "snd (permits_acquire k req lim weight st)"
    have ss: "sessions ?st = (sessions st)(s := (sessions st s)\<lparr>s_state := Idle\<rparr>)"
      by (simp add: own(4) permits_hold_def next_fence_eq set_state_eq)
    have w: "s_weight (sessions ?st t) = s_weight (sessions st t)" for t by (simp add: ss)
    have sets: "res (sessions ?st) k WPermits = res (sessions st) k WPermits - {s}"
      "qset (sessions ?st) k False = qset (sessions st) k False"
      using s by (auto simp: ss session_sets)
    have "s \<in> res (sessions st) k WPermits" using s by (simp add: session_sets)
    with finite_res [OF lines] have sum: "(\<Sum>t \<in> res (sessions st) k WPermits. s_weight (sessions st t)) =
        weight + (\<Sum>t \<in> res (sessions st) k WPermits - {s}. s_weight (sessions st t))"
      using s(4) by (simp add: sum.remove)
    have "key_ok H ?st k"
      using key own(1,2) fresh [OF own(1)] sum unfolding permits_key_ok [OF prim] sets w
      by (auto simp: own(4) permits_hold_def next_fence_eq set_state_eq permits_ok_def pool_accounts_def
          held_weight_def update_fresh)
    moreover have "lines_ok ?st"
      using lines_ok_idle [OF lines s(1)] by (simp add: own(4) permits_hold_def next_fence_eq set_state_eq lines_ok_def)
    moreover have "same_key k' st ?st" if "k' \<noteq> k" for k'
      using that s by (simp add: own(4) permits_hold_def next_fence_eq set_state_eq same_key_def seen_def)
    ultimately show ?thesis by (rule_tac store_inv_by [OF inv])
  next
    case refused
    then have "key_ok H (join s st) k" if "s_state (sessions st s) = Idle" "s_full (sessions st s) = k"
      "s_kind (sessions st s) = WPermits" "s_weight (sessions st s) = weight" for s
      using key that unfolding permits_join_ok [OF prim that(1-3)] by (auto simp: permits_ok_def)
    then show ?thesis unfolding refused(4) by (intro queue_refused_ok [OF inv])
  next
    case take
    obtain Q where Q: "qset (sessions st) k False - H = Q" by simp
    have "key_ok H (snd (permits_acquire k req lim weight st)) k"
      using key take(1-3) fresh [OF take(1)] unfolding permits_key_ok [OF prim]
      by (auto simp: take(4) permits_hold_def next_fence_eq permits_ok_def pool_accounts_def held_weight_def update_fresh Q)
    moreover have "same_key k' st (snd (permits_acquire k req lim weight st))" if "k' \<noteq> k" for k'
      using that by (simp add: take(4) permits_hold_def next_fence_eq same_key_def)
    moreover have "lines_ok (snd (permits_acquire k req lim weight st))"
      using lines by (simp add: take(4) permits_hold_def next_fence_eq)
    ultimately show ?thesis by (rule_tac store_inv_by [OF inv])
  qed
qed

lemma permits_release_inv:
  assumes inv: "store_inv H st" and prim: "key_primitive (g_key g) = Semaphore"
  shows "store_inv H (snd (permits_release g st))"
proof (cases "\<exists>p w f. pools st (g_key g) = Some p \<and> map_of (holders p) (g_token g) = Some (w, f)")
  case False
  then have "snd (permits_release g st) = st"
    by (auto simp: permits_release_def split: option.splits)
  with inv show ?thesis by simp
next
  case True
  let ?k = "g_key g"
  from True obtain p w f where p: "pools st ?k = Some p" "map_of (holders p) (g_token g) = Some (w, f)" by blast
  from inv have lines: "lines_ok st" and "key_ok H st ?k" by (auto simp: store_inv_def)
  with p have acc: "pool_accounts p (\<lambda>s. s_weight (sessions st s)) (res (sessions st) ?k WPermits)"
    and fits: "\<forall>s \<in> qset (sessions st) ?k False - H. s_weight (sessions st s) \<le> limit p"
    by (auto simp: permits_key_ok [OF prim] permits_ok_def)
  let ?p = "p\<lparr>holders := AList.delete (g_token g) (holders p), in_use := in_use p - w\<rparr>"
  let ?st = "st\<lparr>pools := (pools st)(?k \<mapsto> ?p)\<rparr>"
  have "held_weight p = w + held_weight ?p"
    using delete_sum_list [of "holders p" "g_token g" "(w, f)" fst] acc p(2)
    by (simp add: held_weight_def pool_accounts_def)
  moreover have "0 \<le> w" using acc map_of_SomeD [OF p(2)] by (auto simp: pool_accounts_def)
  moreover have "set (AList.delete (g_token g) (holders p)) \<subseteq> set (holders p)"
    by (auto simp: AList.delete_eq)
  ultimately have pre: "permits_pre H ?k ?st"
    using acc fits by (auto simp: permits_pre_def pool_accounts_def held_weight_def distinct_delete)
  have eq: "snd (permits_release g st) = dispatch_permits ?k ?st"
    using p by (simp add: permits_release_def)
  have other: "same_key k' st ?st" if "k' \<noteq> ?k" for k' using that by (simp add: same_key_def)
  have "lines_ok ?st" using lines by simp
  note d = dispatch_permits_ok [OF this prim pre]
  show ?thesis unfolding eq by (rule store_inv_by [OF inv d(1,2) same_key_trans [OF other d(3)]])
qed

lemma permits_waiter_inv:
  assumes inv: "store_inv H st" and prim: "key_primitive k = Semaphore" and weight: "1 \<le> weight"
    and fits: "\<And>p. pools st k = Some p \<Longrightarrow> limit p < weight \<Longrightarrow> next_sid st \<in> H"
  shows "store_inv H (snd (permits_waiter k weight st))"
proof -
  from inv have lines: "lines_ok st"
    and key: "permits_ok (pools st k) (qset (sessions st) k False - H) (\<lambda>s. s_weight (sessions st s))
      (res (sessions st) k WPermits)"
    using permits_key_ok [OF prim] by (auto simp: store_inv_def)
  let ?s = "next_sid st" and ?st1 = "snd (new_session k WPermits weight st)"
  have kind: "kind_fits (key_primitive k) WPermits" by (simp add: prim)
  have weight': "1 \<le> weight \<and> (WPermits = WPermits \<or> weight = 1)" using weight by simp
  note l1 = lines_ok_new [OF lines kind weight']
  note fresh = fresh_session [OF lines]
  have new: "s_state (sessions ?st1 ?s) = Idle" "s_full (sessions ?st1 ?s) = k"
      "s_kind (sessions ?st1 ?s) = WPermits" "s_weight (sessions ?st1 ?s) = weight" "pools ?st1 = pools st"
      "mutexes ?st1 = mutexes st" "shareds ?st1 = shareds st" "lines ?st1 = lines st" "reader_lines ?st1 = reader_lines st"
      "next_sid ?st1 = Suc ?s"
    by (simp_all add: new_session_eq)
  have sets: "qset (sessions ?st1) k' rd = qset (sessions st) k' rd"
      "res (sessions ?st1) k' kd = res (sessions st) k' kd" for k' rd kd
    using fresh by (auto simp: new_session_eq session_sets no_session_def)
  have same: "same_key k' st ?st1" if "k' \<noteq> k" for k'
    using same_key_fresh [OF lines that] by (simp add: new_session_eq same_key_def)
  have wsum: "(\<Sum>t \<in> res (sessions st) k WPermits. s_weight (sessions ?st1 t)) =
      (\<Sum>t \<in> res (sessions st) k WPermits. s_weight (sessions st t))"
    by (rule sum.cong) (use fresh in \<open>auto simp: new_session_eq session_sets no_session_def\<close>)
  have wq: "s_weight (sessions ?st1 t) = s_weight (sessions st t)" if "t \<in> qset (sessions st) k False" for t
    using that fresh(3) [of k False] by (auto simp: new_session_eq)
  show ?thesis
  proof (cases "pools st k")
    case None
    then have eq: "snd (permits_waiter k weight st) = ?st1"
      by (simp add: permits_waiter_def new_session_eq)
    have "key_ok H ?st1 k" using key None unfolding permits_key_ok [OF prim] sets by (simp add: new permits_ok_def)
    then show ?thesis unfolding eq by (rule store_inv_by [OF inv l1 _ same])
  next
    case (Some p)
    show ?thesis
    proof (cases "in_use p + weight \<le> limit p")
      case False
      then have eq: "snd (permits_waiter k weight st) = join ?s ?st1"
        using Some by (simp add: permits_waiter_def new_session_eq)
      have fits': "weight \<le> limit p \<or> ?s \<in> H" using fits [OF Some] by force
      have "key_ok H (join ?s ?st1) k"
        using key Some False fits' wq unfolding permits_join_ok [OF prim new(1-3)] sets
        by (auto simp: new permits_ok_def pool_accounts_def wsum)
      moreover have "same_key k' st (join ?s ?st1)" if "k' \<noteq> k" for k'
        using same_key_trans [OF same [OF that] same_key_join [of ?st1 ?s k']] that new(2) by simp
      ultimately show ?thesis
        unfolding eq by (intro store_inv_by [OF inv lines_ok_fresh_join [OF lines kind weight']])
    next
      case True
      let ?p = "p\<lparr>in_use := in_use p + weight, p_reserved := p_reserved p + weight\<rparr>"
      let ?st2 = "set_state ?s Reserved (?st1\<lparr>pools := (pools ?st1)(k \<mapsto> ?p)\<rparr>)"
      have eq: "snd (permits_waiter k weight st) = ?st2"
        using Some True by (simp add: permits_waiter_def new_session_eq)
      have ss: "sessions ?st2 = (sessions ?st1)(?s := (sessions ?st1 ?s)\<lparr>s_state := Reserved\<rparr>)"
        by (simp add: set_state_eq)
      have res2: "res (sessions ?st2) k WPermits = insert ?s (res (sessions st) k WPermits)"
        "qset (sessions ?st2) k False = qset (sessions st) k False"
        using new fresh(3) [of k False] unfolding ss by (simp_all add: res_upd qset_upd sets)
      have w: "(\<lambda>t. s_weight (sessions ?st2 t)) = (\<lambda>t. s_weight (sessions ?st1 t))"
        unfolding ss by (rule weights_upd) simp
      have "(\<Sum>t \<in> insert ?s (res (sessions st) k WPermits). s_weight (sessions ?st1 t)) =
          weight + (\<Sum>t \<in> res (sessions st) k WPermits. s_weight (sessions st t))"
        using finite_res [OF lines] fresh(2) [of k WPermits] by (simp add: new wsum)
      moreover obtain Q where Q: "qset (sessions st) k False - H = Q" by simp
      moreover from Q have wq': "s_weight (sessions ?st1 t) = s_weight (sessions st t)" if "t \<in> Q" for t
        using that wq by blast
      moreover have "pools ?st2 k = Some ?p" by (simp add: set_state_eq)
      ultimately have "key_ok H ?st2 k"
        using key Some True weight wq' unfolding permits_key_ok [OF prim] w res2
        by (auto simp: permits_ok_def pool_accounts_def held_weight_def Q)
      moreover have "lines_ok ?st2"
        using lines_ok_fresh_reserved [OF lines kind weight'] by (simp add: set_state_eq lines_ok_def)
      moreover have "same_key k' st ?st2" if "k' \<noteq> k" for k'
        using same_key_trans [OF same [OF that] same_key_set_state [of ?st1 ?s k' Reserved]] that new(2)
        by (simp add: same_key_def set_state_eq)
      ultimately show ?thesis unfolding eq by (intro store_inv_by [OF inv])
    qed
  qed
qed

text \<open>A waiter closed while queued or reserved: the state handed to the dispatch.\<close>

lemma close_reserved_lines_ok:
  assumes "lines_ok st" "s_state (sessions st s) = Reserved"
  shows "lines_ok (st\<lparr>resolved := r, sessions := (sessions st)(s := closed_session (sessions st s))\<rparr>)"
proof -
  have "s < next_sid st" using queued_wf [OF lines_okD(3) [OF assms(1)], of s] assms(2) by auto
  then have "lines_ok (st\<lparr>sessions := (sessions st)(s := closed_session (sessions st s))\<rparr>)"
    using assms by (intro lines_ok_no_line) (auto simp: agrees_def)
  then show ?thesis by (simp add: lines_ok_def)
qed

lemma same_key_out_of_line:
  assumes "s_full (sessions st s) \<noteq> k'"
  shows "same_key k' st (out_of_line s (closed_session (sessions st s)) (st\<lparr>resolved := r\<rparr>))"
  using assms by (auto simp: same_key_def seen_def out_of_line_def line_map_other)

lemma permits_close_inv:
  assumes inv: "store_inv H st" and kind: "s_kind (sessions st s) = WPermits"
    and prim: "key_primitive (s_full (sessions st s)) = Semaphore"
    and open_s: "\<not> s_closed (sessions st s)" and busy: "s_state (sessions st s) \<noteq> Idle"
  shows "store_inv H (session_close s st)"
proof -
  let ?k = "s_full (sessions st s)" and ?x = "closed_session (sessions st s)"
  let ?R = "res (sessions st) ?k WPermits" and ?Q = "qset (sessions st) ?k False"
  from inv have lines: "lines_ok st"
    and key: "permits_ok (pools st ?k) (?Q - H) (\<lambda>s. s_weight (sessions st s)) ?R"
    using permits_key_ok [OF prim] by (auto simp: store_inv_def)
  have w: "(\<lambda>t. s_weight (((sessions st)(s := ?x)) t)) = (\<lambda>t. s_weight (sessions st t))"
    by (rule weights_upd) simp
  from busy consider (queued) "s_state (sessions st s) = Queued" | (reserved) "s_state (sessions st s) = Reserved"
    by (cases "s_state (sessions st s)") auto
  then obtain st1 where eq: "session_close s st = dispatch_permits ?k st1" and l: "lines_ok st1"
    and pre: "permits_pre H ?k st1" and other: "\<And>k'. k' \<noteq> ?k \<Longrightarrow> same_key k' st st1"
  proof cases
    case queued
    let ?st1 = "out_of_line s ?x (st\<lparr>resolved := resolved st @ woken s st\<rparr>)"
    have st1: "sessions ?st1 = (sessions st)(s := ?x)" "pools ?st1 = pools st"
      by (simp_all add: out_of_line_def)
    have R: "?R - {s} = ?R" using queued by (auto simp: session_sets)
    have "s \<in> ?Q" using queued kind by (simp add: session_sets)
    with key have "permits_pre H ?k ?st1"
      unfolding permits_pre_def st1 w by (auto simp: res_upd qset_upd R permits_ok_def split: option.splits)
    moreover have "session_close s st = dispatch_permits ?k ?st1"
      using close_queued_eq [OF queued open_s] kind by (simp add: dispatch_kind out_of_line_def)
    ultimately show thesis
      using that lines_ok_close_queued [OF lines queued] same_key_out_of_line by metis
  next
    case reserved
    have s: "s \<in> ?R" using reserved kind by (simp add: session_sets)
    with key obtain p where p: "pools st ?k = Some p"
      and acc: "pool_accounts p (\<lambda>s. s_weight (sessions st s)) ?R"
      and fits: "\<forall>s \<in> ?Q - H. s_weight (sessions st s) \<le> limit p"
      by (auto simp: permits_ok_def split: option.splits)
    let ?w = "s_weight (sessions st s)"
    let ?p = "p\<lparr>in_use := in_use p - ?w, p_reserved := p_reserved p - ?w\<rparr>"
    let ?st0 = "st\<lparr>resolved := resolved st @ woken s st, sessions := (sessions st)(s := ?x)\<rparr>"
    let ?st1 = "?st0\<lparr>pools := (pools st)(?k \<mapsto> ?p)\<rparr>"
    have "session_close s st = dispatch s ?st1"
      using reserved open_s kind p
      by (simp add: session_close_def upd_session_def wake_session_eq unreserve_def set_state_eq Let_def
          closed_session_def woken_def)
    then have eq: "session_close s st = dispatch_permits ?k ?st1" using kind by (simp add: dispatch_kind)
    have "sum (\<lambda>t. s_weight (sessions st t)) ?R = ?w + sum (\<lambda>t. s_weight (sessions st t)) (?R - {s})"
      by (rule sum.remove [OF finite_res [OF lines] s])
    moreover have "1 \<le> ?w" by (rule weight_pos [OF lines busy])
    ultimately have acc': "pool_accounts ?p (\<lambda>t. s_weight (sessions st t)) (?R - {s})"
      using acc by (simp add: pool_accounts_def held_weight_def)
    have st1: "sessions ?st1 = (sessions st)(s := ?x)" "pools ?st1 ?k = Some ?p" by simp_all
    have "permits_pre H ?k ?st1"
      using acc' fits unfolding permits_pre_def st1 w by (simp add: res_upd qset_upd)
    moreover have "same_key k' st ?st1" if "k' \<noteq> ?k" for k'
      using that by (simp add: same_key_def seen_def)
    moreover have "lines_ok ?st1" using close_reserved_lines_ok [OF lines reserved] by simp
    ultimately show thesis using that [OF eq] by blast
  qed
  note d = dispatch_permits_ok [OF l prim pre]
  show ?thesis unfolding eq by (rule store_inv_by [OF inv d(1,2) same_key_trans [OF other d(3)]])
qed

end
