(* ===== verification/LockShared.thy ===== *)
theory LockShared
  imports LockPermits
begin

text \<open>
  The read/write operations of the in-process store keep its invariant: a writer excludes
  readers in holds and in reservations, and readers wait only behind a writer.
\<close>

lemma shared_key_ok:
  "key_primitive k = ReadWrite \<Longrightarrow>
     key_ok H st k = shared_ok (shareds st k) (lines st k) (reader_lines st k)
       (res (sessions st) k WRead) (res (sessions st) k WWrite)"
  by (simp add: key_ok_def)

section \<open>Handing the lock to readers or to a writer\<close>

text \<open>What holds of a read/write key between a release (or a waiter's leaving) and the dispatch.\<close>

definition shared_pre :: "lock_key \<Rightarrow> store \<Rightarrow> bool" where
  "shared_pre k st \<longleftrightarrow>
     (case shareds st k of
        None \<Rightarrow> lines st k = None \<and> reader_lines st k = None \<and>
                res (sessions st) k WRead = {} \<and> res (sessions st) k WWrite = {}
      | Some t \<Rightarrow> shared_excl t (res (sessions st) k WRead) (res (sessions st) k WWrite))"

lemma readers_loop_ok:
  assumes "lines_ok st" "distinct xs" "set xs \<subseteq> qset (sessions st) k True" "readers_loop xs t st = (t', st')"
  shows "lines_ok st' \<and> t' = t\<lparr>reserved_readers := reserved_readers t + int (length xs)\<rparr>
    \<and> res (sessions st') k WRead = res (sessions st) k WRead \<union> set xs
    \<and> res (sessions st') k WWrite = res (sessions st) k WWrite
    \<and> qset (sessions st') k True = qset (sessions st) k True - set xs
    \<and> lines st' = lines st \<and> shareds st' = shareds st
    \<and> (\<forall>k'. k' \<noteq> k \<longrightarrow> same_key k' st st')"
  using assms
proof (induction xs t st rule: readers_loop.induct)
  case (1 t st)
  then show ?case by auto
next
  case (2 s ss t st)
  from "2.prems"(3) have s: "s_state (sessions st s) = Queued" "s_full (sessions st s) = k"
      "s_kind (sessions st s) = WRead" by (auto simp: session_sets)
  let ?st = "hand_to s st"
  have sets: "res (sessions ?st) k WRead = insert s (res (sessions st) k WRead)"
    "res (sessions ?st) k WWrite = res (sessions st) k WWrite"
    "qset (sessions ?st) k True = qset (sessions st) k True - {s}"
    using s by (auto simp: hand_to_sessions session_sets)
  have other: "same_key k' st ?st" if "k' \<noteq> k" for k' using that s by (simp add: same_key_hand_to)
  have "lines ?st = lines st" using s by (simp add: hand_to_eq Let_def)
  moreover have "readers_loop ss (t\<lparr>reserved_readers := reserved_readers t + 1\<rparr>) ?st = (t', st')"
    using "2.prems"(4) by simp
  moreover have "set ss \<subseteq> qset (sessions ?st) k True" using "2.prems"(2,3) sets by auto
  moreover have "distinct ss" using "2.prems"(2) by simp
  ultimately have "lines_ok st' \<and> t' = t\<lparr>reserved_readers := reserved_readers t + 1 + int (length ss)\<rparr>
      \<and> res (sessions st') k WRead = insert s (res (sessions st) k WRead) \<union> set ss
      \<and> res (sessions st') k WWrite = res (sessions st) k WWrite
      \<and> qset (sessions st') k True = qset (sessions st) k True - {s} - set ss
      \<and> lines st' = lines st \<and> shareds st' = shareds st
      \<and> (\<forall>k'. k' \<noteq> k \<longrightarrow> same_key k' ?st st')"
    using "2.IH" [OF lines_ok_hand_to [OF "2.prems"(1) s(1)]] by (simp add: sets)
  moreover have "same_key k' st st'" if "k' \<noteq> k" "same_key k' ?st st'" for k'
    using same_key_trans [OF other [OF that(1)] that(2)] .
  moreover have "reserved_readers t + 1 + int (length ss) = reserved_readers t + int (length (s # ss))" by simp
  moreover have "insert s (res (sessions st) k WRead) \<union> set ss = res (sessions st) k WRead \<union> set (s # ss)"
    "qset (sessions st) k True - {s} - set ss = qset (sessions st) k True - set (s # ss)" by auto
  ultimately show ?case by (simp only:) blast
qed

lemma dispatch_shared_ok:
  assumes ok: "lines_ok st" and prim: "key_primitive k = ReadWrite" and pre: "shared_pre k st"
  shows "lines_ok (dispatch_shared k st)" and "key_ok H (dispatch_shared k st) k"
    and "k' \<noteq> k \<Longrightarrow> same_key k' st (dispatch_shared k st)"
proof -
  let ?writing = "case shareds st k of None \<Rightarrow> False | Some t \<Rightarrow> writer t \<noteq> None \<or> reserved_writer t \<noteq> None"
  let ?reading = "case shareds st k of None \<Rightarrow> False | Some t \<Rightarrow> length (readers t) > 0 \<or> reserved_readers t > 0"
  define t where "t = (case shareds st k of None \<Rightarrow> new_shared | Some t \<Rightarrow> t)"
  let ?RR = "res (sessions st) k WRead" and ?RW = "res (sessions st) k WWrite"
  from pre have excl: "shared_excl t ?RR ?RW"
    by (auto simp: shared_pre_def t_def shared_excl_def new_shared_def split: option.splits)
  have busy: "(?writing \<or> ?reading) \<longrightarrow> shareds st k = Some t"
    by (auto simp: t_def split: option.splits)
  have writing: "?writing \<longleftrightarrow> writer t \<noteq> None \<or> reserved_writer t \<noteq> None"
    by (auto simp: t_def new_shared_def split: option.splits)
  have reading: "?reading \<longleftrightarrow> readers t \<noteq> [] \<or> 0 < reserved_readers t"
    by (auto simp: t_def new_shared_def split: option.splits)
  note D = dispatch_shared_def [of k st, unfolded Let_def, folded t_def]
  have l: "line_ok (lines st k) (qset (sessions st) k False)" "line_ok (reader_lines st k) (qset (sessions st) k True)"
    using lines_okD [OF ok] by auto
  consider (stay) "dispatch_shared k st = st" "?writing \<or> (?reading \<and> (lines st k \<noteq> None \<or> reader_lines st k = None))"
    | (to_writer) s ss where "\<not> ?writing" "\<not> ?reading" "lines st k = Some (s # ss)"
    | (to_readers) xs where "\<not> ?writing" "lines st k = None" "reader_lines st k = Some xs" "xs \<noteq> []"
    | (free) "\<not> ?writing" "\<not> ?reading" "lines st k = None" "reader_lines st k = None"
  proof (cases "?writing")
    case True
    then have "dispatch_shared k st = st" by (simp add: D)
    with True that(1) show thesis by blast
  next
    case nw: False
    show thesis
    proof (cases "lines st k")
      case (Some xs)
      with l(1) obtain s ss where xs: "xs = s # ss" by (cases xs) (auto simp: line_ok_def)
      show thesis
      proof (cases "?reading")
        case True
        then have "dispatch_shared k st = st" using nw Some xs by (simp add: D)
        with True Some that(1) show thesis by auto
      next
        case False
        with nw Some xs that(2) show thesis by blast
      qed
    next
      case None
      show thesis
      proof (cases "reader_lines st k")
        case (Some xs)
        with l(2) have "xs \<noteq> []" by (auto simp: line_ok_def)
        with nw None Some that(3) show thesis by blast
      next
        case r: None
        show thesis
        proof (cases "?reading")
          case True
          then have "dispatch_shared k st = st" using nw None r by (simp add: D)
          with True r that(1) show thesis by blast
        next
          case False
          with nw None r that(4) show thesis by blast
        qed
      qed
    qed
  qed
  then have "lines_ok (dispatch_shared k st) \<and> key_ok H (dispatch_shared k st) k \<and>
      (k' \<noteq> k \<longrightarrow> same_key k' st (dispatch_shared k st))"
  proof cases
    case stay
    with busy have "shareds st k = Some t" by blast
    then have "key_ok H st k"
      using stay(2) excl unfolding shared_key_ok [OF prim] writing reading by (auto simp: shared_ok_def)
    with ok stay(1) show ?thesis by simp
  next
    case to_writer
    note s = line_member [OF ok to_writer(3), of s, simplified]
    let ?st = "st\<lparr>shareds := (shareds st)(k \<mapsto> t\<lparr>reserved_writer := Some s\<rparr>)\<rparr>"
    have d: "dispatch_shared k st = hand_to s ?st" using to_writer by (simp add: D)
    have kind: "s_kind (sessions st s) = WWrite" using s(3,5) prim by simp
    have "lines_ok (dispatch_shared k st)" unfolding d by (rule lines_ok_hand_to) (use ok s in auto)
    moreover have "key_ok H (dispatch_shared k st) k"
      using s kind excl to_writer(1,2) unfolding writing reading d shared_key_ok [OF prim]
      by (auto simp: hand_to_sessions shared_ok_def shared_excl_def res_upd session_sets
          hand_to_eq Let_def line_map_def)
    moreover have "same_key k' st (dispatch_shared k st)" if "k' \<noteq> k"
      using same_key_hand_to [of ?st s k'] that s(2) unfolding d by (simp add: same_key_def)
    ultimately show ?thesis by blast
  next
    case to_readers
    obtain t' st' where loop: "readers_loop xs t st = (t', st')" by fastforce
    have d: "dispatch_shared k st = st'\<lparr>shareds := (shareds st')(k \<mapsto> t')\<rparr>"
      using to_readers loop by (cases xs) (simp_all add: D)
    have xs: "distinct xs" "set xs = qset (sessions st) k True" using l(2) to_readers(3) by (auto simp: line_ok_def)
    from readers_loop_ok [OF ok xs(1) _ loop] xs(2)
    have P: "lines_ok st'" "t' = t\<lparr>reserved_readers := reserved_readers t + int (length xs)\<rparr>"
      "res (sessions st') k WRead = ?RR \<union> set xs" "res (sessions st') k WWrite = ?RW"
      "qset (sessions st') k True = {}" "lines st' = lines st" "\<And>k'. k' \<noteq> k \<Longrightarrow> same_key k' st st'"
      by auto
    have "reader_lines st' k = None"
      using lines_okD(2) [OF P(1), of k] P(5) by (auto simp: line_ok_def split: option.splits)
    moreover have "?RR \<inter> set xs = {}" using xs(2) by (auto simp: session_sets)
    then have "card (?RR \<union> set xs) = card ?RR + length xs"
      using finite_res [OF ok] xs(1) by (simp add: card_Un_disjoint distinct_card)
    moreover have "0 < int n + int (length xs)" for n using to_readers(4) by (cases xs) simp_all
    ultimately have "key_ok H (dispatch_shared k st) k"
      using excl to_readers(1,2,4) unfolding writing d shared_key_ok [OF prim]
      by (auto simp: P shared_ok_def shared_excl_def)
    moreover have "k' \<noteq> k \<longrightarrow> same_key k' st (dispatch_shared k st)"
      using P(7) [of k'] unfolding d by (simp add: same_key_def)
    ultimately show ?thesis using P(1) by (simp add: d)
  next
    case free
    then have d: "dispatch_shared k st = wake_watchers k (st\<lparr>shareds := (shareds st)(k := None)\<rparr>)"
      by (simp add: D)
    have "?RR = {}" "?RW = {}" using free(1,2) excl unfolding writing reading by (auto simp: shared_excl_def)
    then show ?thesis
      using free ok unfolding d shared_key_ok [OF prim]
      by (auto simp: wake_watchers_eq shared_ok_def same_key_def)
  qed
  then show "lines_ok (dispatch_shared k st)" and "key_ok H (dispatch_shared k st) k"
    and "k' \<noteq> k \<Longrightarrow> same_key k' st (dispatch_shared k st)" by auto
qed

section \<open>Acquire, release, wait\<close>

text \<open>Holds entered into a read/write key and taken out of it.\<close>

lemma shared_excl_leave:
  assumes "shared_excl t RR RW"
  shows "shared_excl (t\<lparr>writer := None\<rparr>) RR RW"
    and "shared_excl (t\<lparr>readers := AList.delete tok (readers t)\<rparr>) RR RW"
  using assms by (auto simp: shared_excl_def distinct_delete)

lemma shared_excl_enter:
  assumes "shared_excl t RR RW" "writer t = None" "reserved_writer t = None"
  shows "tok \<notin> fst ` set (readers t) \<Longrightarrow> shared_excl (t\<lparr>readers := AList.update tok f (readers t)\<rparr>) RR RW"
    and "readers t = [] \<Longrightarrow> reserved_readers t = 0 \<Longrightarrow> shared_excl (t\<lparr>writer := Some h\<rparr>) RR RW"
  using assms by (auto simp: shared_excl_def update_fresh)

lemma shared_excl_unreserve:
  assumes "shared_excl t RR RW"
  shows "s \<in> RR \<Longrightarrow> shared_excl (t\<lparr>reserved_readers := reserved_readers t - 1\<rparr>) (RR - {s}) RW"
    and "s \<in> RW \<Longrightarrow> shared_excl (t\<lparr>reserved_writer := None\<rparr>) RR (RW - {s})"
proof -
  assume "s \<in> RR"
  moreover from assms have "finite RR" by (simp add: shared_excl_def)
  ultimately have "0 < card RR" "card (RR - {s}) = card RR - 1" by (auto simp: card_gt_0_iff)
  then have "int (card (RR - {s})) = int (card RR) - 1" "card RR \<noteq> 0" by (simp_all add: of_nat_diff)
  with assms show "shared_excl (t\<lparr>reserved_readers := reserved_readers t - 1\<rparr>) (RR - {s}) RW"
    by (auto simp: shared_excl_def)
next
  assume "s \<in> RW"
  with assms show "shared_excl (t\<lparr>reserved_writer := None\<rparr>) RR (RW - {s})" by (auto simp: shared_excl_def)
qed

lemma shared_excl_redeem:
  assumes "shared_excl t RR RW"
  shows "s \<in> RR \<Longrightarrow> tok \<notin> fst ` set (readers t) \<Longrightarrow>
      shared_excl (t\<lparr>reserved_readers := reserved_readers t - 1, readers := AList.update tok f (readers t)\<rparr>) (RR - {s}) RW
        \<and> writer t = None \<and> reserved_writer t = None"
    and "s \<in> RW \<Longrightarrow> shared_excl (t\<lparr>writer := Some h, reserved_writer := None\<rparr>) RR (RW - {s})"
proof -
  assume "s \<in> RR" and tok: "tok \<notin> fst ` set (readers t)"
  moreover from assms have "finite RR" by (simp add: shared_excl_def)
  ultimately have "0 < card RR" "card (RR - {s}) = card RR - 1" by (auto simp: card_gt_0_iff)
  then have "int (card (RR - {s})) = int (card RR) - 1" "card RR \<noteq> 0" by (simp_all add: of_nat_diff)
  with assms tok show "shared_excl (t\<lparr>reserved_readers := reserved_readers t - 1,
      readers := AList.update tok f (readers t)\<rparr>) (RR - {s}) RW \<and> writer t = None \<and> reserved_writer t = None"
    by (auto simp: shared_excl_def update_fresh)
next
  assume "s \<in> RW"
  with assms show "shared_excl (t\<lparr>writer := Some h, reserved_writer := None\<rparr>) RR (RW - {s})"
    by (auto simp: shared_excl_def)
qed

lemma shared_ok_Some:
  "shared_ok (Some t) l rl RR RW \<longleftrightarrow> shared_excl t RR RW \<and>
     (writer t \<noteq> None \<or> reserved_writer t \<noteq> None \<or> readers t \<noteq> [] \<or> 0 < reserved_readers t) \<and>
     (rl \<noteq> None \<longrightarrow> writer t \<noteq> None \<or> reserved_writer t \<noteq> None \<or> l \<noteq> None)"
  by (simp add: shared_ok_def)

lemma shared_join_ok:
  assumes prim: "key_primitive k = ReadWrite" and key: "key_ok H st k"
    and blocked: "shared_blocked (shareds st k) k mode st"
    and s: "s_state (sessions st s) = Idle" "s_full (sessions st s) = k" "s_kind (sessions st s) = mode_kind mode"
  shows "key_ok H (join s st) k"
proof -
  have sets: "res (sessions st) k' kd - {s} = res (sessions st) k' kd" for k' kd
    using s(1) by (auto simp: session_sets)
  have some: "shareds st k \<noteq> None"
    using blocked key unfolding shared_key_ok [OF prim]
    by (cases "shareds st k"; cases mode) (auto simp: shared_blocked_def shared_ok_def)
  then show ?thesis
    using blocked key s unfolding shared_key_ok [OF prim]
    by (cases mode) (auto simp: shared_blocked_def shared_ok_def join_eq Let_def res_upd sets
        split: if_splits option.splits)
qed

lemma shared_acquire_inv:
  assumes inv: "store_inv H st" and prim: "key_primitive k = ReadWrite"
    and fresh: "\<And>t. shareds st k = Some t \<Longrightarrow> token req \<notin> fst ` set (readers t)"
  shows "store_inv H (snd (shared_acquire k req mode st))"
proof -
  from inv have lines: "lines_ok st" and ok: "key_ok H st k" by (auto simp: store_inv_def)
  from ok have key: "shared_ok (shareds st k) (lines st k) (reader_lines st k)
      (res (sessions st) k WRead) (res (sessions st) k WWrite)" by (simp add: shared_key_ok [OF prim])
  let ?st' = "snd (shared_acquire k req mode st)"
  define t where "t = (case shareds st k of None \<Rightarrow> new_shared | Some t \<Rightarrow> t)"
  have excl: "shared_excl t (res (sessions st) k WRead) (res (sessions st) k WWrite)"
    using key by (auto simp: shared_ok_def t_def shared_excl_def new_shared_def split: option.splits)
  have fresh': "token req \<notin> fst ` set (readers t)"
    using fresh by (auto simp: t_def new_shared_def split: option.splits)
  note A = shared_acquire_def [of k req mode st, unfolded Let_def, folded t_def]
  consider (own) s where "shareds st k = Some t" "redeeming req k (mode_kind mode) 1 st = Some s"
        "shared_acquire k req mode st = shared_hold k req mode
           (case mode of ReadMode \<Rightarrow> t\<lparr>reserved_readers := reserved_readers t - 1\<rparr>
                       | WriteMode \<Rightarrow> t\<lparr>reserved_writer := None\<rparr>) (set_state s Idle st)"
    | (refused) "shared_blocked (shareds st k) k mode st"
        "shared_acquire k req mode st = queue_refused req k (mode_kind mode) 1 st"
    | (take) "\<not> shared_blocked (shareds st k) k mode st"
        "shared_acquire k req mode st = shared_hold k req mode t st"
  proof (cases "shareds st k \<noteq> None \<and> redeeming req k (mode_kind mode) 1 st \<noteq> None")
    case True
    then obtain s where s: "redeeming req k (mode_kind mode) 1 st = Some s" "shareds st k = Some t"
      by (auto simp: t_def)
    show thesis by (rule own [OF s(2,1)]) (simp add: A s)
  next
    case False
    then have none: "(case shareds st k of None \<Rightarrow> None | Some _ \<Rightarrow> redeeming req k (mode_kind mode) 1 st) = None"
      by (auto split: option.split)
    show thesis
    proof (cases "shared_blocked (shareds st k) k mode st")
      case True
      then show thesis by (intro refused) (simp_all add: A none)
    next
      case False
      then show thesis by (intro take) (simp_all add: A none)
    qed
  qed
  then show ?thesis
  proof cases
    case own
    then have s: "s_state (sessions st s) = Reserved" "s_full (sessions st s) = k"
        "s_kind (sessions st s) = mode_kind mode"
      by (auto simp: redeeming_def split: option.splits if_splits)
    have ss: "sessions ?st' = (sessions st)(s := (sessions st s)\<lparr>s_state := Idle\<rparr>)"
      by (simp add: own(3) shared_hold_def next_fence_eq set_state_eq)
    have same_lines: "lines ?st' = lines st" "reader_lines ?st' = reader_lines st" "next_sid ?st' = next_sid st"
      by (simp_all add: own(3) shared_hold_def next_fence_eq set_state_eq)
    have R: "s \<in> res (sessions st) k (mode_kind mode)" using s by (simp add: session_sets)
    have sets: "res (sessions ?st') k kd = res (sessions st) k kd - {s}" for kd
      by (simp add: ss res_upd)
    have "key_ok H ?st' k"
    proof (cases mode)
      case ReadMode
      have "res (sessions st) k WWrite - {s} = res (sessions st) k WWrite"
        using s ReadMode by (auto simp: session_sets)
      moreover have "shareds ?st' k = Some (t\<lparr>reserved_readers := reserved_readers t - 1,
          readers := AList.update (token req) (last_fence st + 1) (readers t)\<rparr>)"
        unfolding own(3) by (simp add: ReadMode shared_hold_def next_fence_eq set_state_eq)
      moreover have "s \<in> res (sessions st) k WRead" using R ReadMode by simp
      note x = shared_excl_redeem(1) [OF excl this fresh', of "last_fence st + 1"]
      ultimately show ?thesis
        using key own(1) fresh' unfolding shared_key_ok [OF prim] sets same_lines
        by (simp add: shared_ok_Some update_fresh)
    next
      case WriteMode
      have "res (sessions st) k WRead - {s} = res (sessions st) k WRead"
        using s WriteMode by (auto simp: session_sets)
      moreover have "shareds ?st' k = Some (t\<lparr>writer := Some \<lparr>owner = token req, h_fence = last_fence st + 1\<rparr>,
          reserved_writer := None\<rparr>)"
        unfolding own(3) by (simp add: WriteMode shared_hold_def next_fence_eq set_state_eq)
      moreover have "s \<in> res (sessions st) k WWrite" using R WriteMode by simp
      note x = shared_excl_redeem(2) [OF excl this, of "\<lparr>owner = token req, h_fence = last_fence st + 1\<rparr>"]
      ultimately show ?thesis
        using key own(1) unfolding shared_key_ok [OF prim] sets same_lines
        by (simp add: shared_ok_Some)
    qed
    moreover have "lines_ok ?st'"
      using lines_ok_idle [OF lines s(1)] unfolding lines_ok_def same_lines ss by simp
    moreover have "same_key k' st ?st'" if "k' \<noteq> k" for k'
      using that s by (simp add: own(3) shared_hold_def next_fence_eq set_state_eq same_key_def seen_def)
    ultimately show ?thesis by (rule_tac store_inv_by [OF inv])
  next
    case refused
    then show ?thesis
      using shared_join_ok [OF prim ok refused(1)] unfolding refused(2) by (intro queue_refused_ok [OF inv])
  next
    case take
    have free: "writer t = None" "reserved_writer t = None"
      using take(1) by (auto simp: shared_blocked_def t_def new_shared_def split: option.splits if_splits)
    have r: "reader_lines st k = None" if "mode = ReadMode"
      using take(1) key that by (auto simp: shared_blocked_def shared_ok_def split: option.splits if_splits)
    have nr: "readers t = []" "reserved_readers t = 0" if "mode = WriteMode"
      using take(1) that excl by (auto simp: shared_blocked_def t_def new_shared_def shared_excl_def split: option.splits if_splits)
    have sets: "sessions ?st' = sessions st" "lines ?st' = lines st" "reader_lines ?st' = reader_lines st"
      by (simp_all add: take(2) shared_hold_def next_fence_eq)
    have "key_ok H ?st' k"
    proof (cases mode)
      case ReadMode
      have "shareds ?st' k = Some (t\<lparr>readers := AList.update (token req) (last_fence st + 1) (readers t)\<rparr>)"
        unfolding take(2) by (simp add: ReadMode shared_hold_def next_fence_eq)
      then show ?thesis
        using shared_excl_enter(1) [OF excl free fresh'] r [OF ReadMode] fresh'
        unfolding shared_key_ok [OF prim] sets by (simp add: shared_ok_Some update_fresh)
    next
      case WriteMode
      have "shareds ?st' k = Some (t\<lparr>writer := Some \<lparr>owner = token req, h_fence = last_fence st + 1\<rparr>\<rparr>)"
        unfolding take(2) by (simp add: WriteMode shared_hold_def next_fence_eq)
      then show ?thesis
        using shared_excl_enter(2) [OF excl free nr [OF WriteMode]]
        unfolding shared_key_ok [OF prim] sets by (simp add: shared_ok_Some)
    qed
    moreover have "lines_ok ?st'" using lines by (simp add: take(2) shared_hold_def next_fence_eq)
    moreover have "same_key k' st ?st'" if "k' \<noteq> k" for k'
      using that by (simp add: take(2) shared_hold_def next_fence_eq same_key_def)
    ultimately show ?thesis by (rule_tac store_inv_by [OF inv])
  qed
qed

lemma shared_release_inv:
  assumes inv: "store_inv H st" and prim: "key_primitive (g_key g) = ReadWrite"
  shows "store_inv H (snd (shared_release g st))"
proof (cases "fst (shared_release g st) = Released")
  case False
  then have "snd (shared_release g st) = st"
    by (auto simp: shared_release_def split: option.splits if_splits)
  with inv show ?thesis by simp
next
  case True
  let ?k = "g_key g"
  from inv have lines: "lines_ok st" and "key_ok H st ?k" by (auto simp: store_inv_def)
  from True obtain t where t: "shareds st ?k = Some t"
    by (auto simp: shared_release_def split: option.splits)
  define t' where "t' = (if (case writer t of None \<Rightarrow> False | Some h \<Rightarrow> owner h = g_token g)
    then t\<lparr>writer := None\<rparr> else t\<lparr>readers := AList.delete (g_token g) (readers t)\<rparr>)"
  have eq: "snd (shared_release g st) = dispatch_shared ?k (st\<lparr>shareds := (shareds st)(?k \<mapsto> t')\<rparr>)"
    using True t by (simp add: shared_release_def t'_def split: if_splits)
  have t': "t' = t\<lparr>writer := None\<rparr> \<or> t' = t\<lparr>readers := AList.delete (g_token g) (readers t)\<rparr>"
    by (simp add: t'_def)
  let ?st = "st\<lparr>shareds := (shareds st)(?k \<mapsto> t')\<rparr>"
  have pre: "shared_pre ?k ?st"
    using \<open>key_ok H st ?k\<close> t t' shared_excl_leave unfolding shared_key_ok [OF prim]
    by (simp add: shared_ok_Some shared_pre_def) blast
  have l: "lines_ok ?st" using lines by simp
  have other: "same_key k' st ?st" if "k' \<noteq> ?k" for k' using that by (simp add: same_key_def)
  note d = dispatch_shared_ok [OF l prim pre]
  show ?thesis unfolding eq by (rule store_inv_by [OF inv d(1,2) same_key_trans [OF other d(3)]])
qed

text \<open>A fresh session changes nothing a key sees.\<close>

lemma same_key_new:
  assumes "lines_ok st"
  shows "same_key k' st (snd (new_session k kind w st))"
  using fresh_session(1) [OF assms] by (auto simp: new_session_eq same_key_def seen_def no_session_def)

lemma shared_waiter_inv:
  assumes inv: "store_inv H st" and prim: "key_primitive k = ReadWrite"
  shows "store_inv H (snd (shared_waiter k mode st))"
proof -
  from inv have lines: "lines_ok st" and ok: "key_ok H st k" by (auto simp: store_inv_def)
  let ?s = "next_sid st" and ?st1 = "snd (new_session k (mode_kind mode) 1 st)"
  have kind: "kind_fits (key_primitive k) (mode_kind mode)" "1 \<le> (1 :: int) \<and> (mode_kind mode = WPermits \<or> 1 = (1 :: int))"
    by (cases mode; simp add: prim)+
  have same: "same_key k' st ?st1" for k' by (rule same_key_new [OF lines])
  have new: "s_state (sessions ?st1 ?s) = Idle" "s_full (sessions ?st1 ?s) = k"
      "s_kind (sessions ?st1 ?s) = mode_kind mode" "shareds ?st1 = shareds st" "lines ?st1 = lines st"
    by (simp_all add: new_session_eq)
  note ok1 = same_key_ok [OF same ok]
  have blocked1: "shared_blocked (shareds ?st1 k) k mode ?st1 = shared_blocked (shareds st k) k mode st"
    unfolding shared_blocked_def new(4,5) by (rule refl)
  show ?thesis
  proof (cases "shared_blocked (shareds st k) k mode st")
    case True
    then have eq: "snd (shared_waiter k mode st) = join ?s ?st1"
      by (simp add: shared_waiter_def new_session_eq)
    have "key_ok H (join ?s ?st1) k"
      by (rule shared_join_ok [OF prim ok1 _ new(1-3)]) (use True blocked1 in simp)
    moreover have "same_key k' st (join ?s ?st1)" if "k' \<noteq> k" for k'
      using same_key_trans [OF same same_key_join] that new(2) by simp
    ultimately show ?thesis
      unfolding eq by (intro store_inv_by [OF inv lines_ok_fresh_join [OF lines kind]])
  next
    case False
    define t where "t = (case shareds st k of None \<Rightarrow> new_shared | Some t \<Rightarrow> t)"
    let ?t = "case mode of ReadMode \<Rightarrow> t\<lparr>reserved_readers := reserved_readers t + 1\<rparr>
                         | WriteMode \<Rightarrow> t\<lparr>reserved_writer := Some ?s\<rparr>"
    let ?st2 = "set_state ?s Reserved (?st1\<lparr>shareds := (shareds ?st1)(k \<mapsto> ?t)\<rparr>)"
    have eq: "snd (shared_waiter k mode st) = ?st2"
      using False by (cases mode) (simp_all add: shared_waiter_def new_session_eq t_def Let_def)
    have key: "shared_ok (shareds st k) (lines st k) (reader_lines st k)
        (res (sessions st) k WRead) (res (sessions st) k WWrite)" using ok by (simp add: shared_key_ok [OF prim])
    have excl: "shared_excl t (res (sessions st) k WRead) (res (sessions st) k WWrite)"
      using key by (auto simp: shared_ok_def t_def shared_excl_def new_shared_def split: option.splits)
    have free: "writer t = None" "reserved_writer t = None"
      using False by (auto simp: shared_blocked_def t_def new_shared_def split: option.splits if_splits)
    have r: "reader_lines st k = None" if "mode = ReadMode"
      using False key that by (auto simp: shared_blocked_def shared_ok_def split: option.splits if_splits)
    have nr: "readers t = []" "reserved_readers t = 0" if "mode = WriteMode"
      using False that excl
      by (auto simp: shared_blocked_def t_def new_shared_def shared_excl_def split: option.splits if_splits)
    note fresh = fresh_session(2) [OF lines]
    have sets: "res (sessions ?st2) k kd =
        (if kd = mode_kind mode then insert ?s (res (sessions st) k kd) else res (sessions st) k kd)" for kd
      using fresh same_key_sets(1) [OF same, of k kd] by (auto simp: set_state_eq res_upd new_session_eq)
    have same_lines: "lines ?st2 = lines st" "reader_lines ?st2 = reader_lines st" "shareds ?st2 k = Some ?t"
      by (simp_all add: set_state_eq new_session_eq)
    have "key_ok H ?st2 k"
      unfolding shared_key_ok [OF prim] sets same_lines
      using excl free r nr fresh finite_res [OF lines]
      by (cases mode) (auto simp: shared_ok_Some shared_excl_def)
    moreover have "lines_ok ?st2"
      using lines_ok_fresh_reserved [OF lines kind] by (simp add: set_state_eq lines_ok_def)
    moreover have "same_key k' st ?st2" if "k' \<noteq> k" for k'
      using same_key_trans [OF same [of k'] same_key_set_state [of ?st1 ?s k' Reserved]] that new(2)
      by (simp add: same_key_def set_state_eq)
    ultimately show ?thesis unfolding eq by (intro store_inv_by [OF inv])
  qed
qed

lemma shared_close_inv:
  assumes inv: "store_inv H st" and kind: "s_kind (sessions st s) = WRead \<or> s_kind (sessions st s) = WWrite"
    and prim: "key_primitive (s_full (sessions st s)) = ReadWrite"
    and open_s: "\<not> s_closed (sessions st s)" and busy: "s_state (sessions st s) \<noteq> Idle"
  shows "store_inv H (session_close s st)"
proof -
  let ?k = "s_full (sessions st s)" and ?x = "closed_session (sessions st s)"
  let ?RR = "res (sessions st) ?k WRead" and ?RW = "res (sessions st) ?k WWrite"
  from inv have lines: "lines_ok st" and key: "shared_ok (shareds st ?k) (lines st ?k) (reader_lines st ?k) ?RR ?RW"
    using shared_key_ok [OF prim] by (auto simp: store_inv_def)
  from busy consider (queued) "s_state (sessions st s) = Queued" | (reserved) "s_state (sessions st s) = Reserved"
    by (cases "s_state (sessions st s)") auto
  then obtain st1 where eq: "session_close s st = dispatch_shared ?k st1" and l: "lines_ok st1"
    and pre: "shared_pre ?k st1" and other: "\<And>k'. k' \<noteq> ?k \<Longrightarrow> same_key k' st st1"
  proof cases
    case queued
    let ?st1 = "out_of_line s ?x (st\<lparr>resolved := resolved st @ woken s st\<rparr>)"
    have "s \<in> qset (sessions st) ?k (s_kind (sessions st s) = WRead)" using queued by (simp add: session_sets)
    then have "lines st ?k \<noteq> None \<or> reader_lines st ?k \<noteq> None"
      using lines_okD(1,2) [OF lines, of ?k] by (cases "s_kind (sessions st s) = WRead") (auto dest: line_ok_nonempty)
    with key obtain t where t: "shareds st ?k = Some t" "shared_excl t ?RR ?RW"
      by (cases "shareds st ?k") (simp_all add: shared_ok_def)
    have R: "?RR - {s} = ?RR" "?RW - {s} = ?RW" using queued by (auto simp: session_sets)
    have st1: "shareds ?st1 ?k = Some t" "sessions ?st1 = (sessions st)(s := ?x)"
      using t(1) by (simp_all add: out_of_line_def)
    have "shared_pre ?k ?st1"
      unfolding shared_pre_def st1 by (simp add: res_upd R t(2))
    moreover have "session_close s st = dispatch_shared ?k ?st1"
      using dispatch_kind(3) [of ?st1 s] kind unfolding close_queued_eq [OF queued open_s] st1(2) by simp
    ultimately show thesis
      using that lines_ok_close_queued [OF lines queued] same_key_out_of_line by metis
  next
    case reserved
    let ?st0 = "st\<lparr>resolved := resolved st @ woken s st, sessions := (sessions st)(s := ?x)\<rparr>"
    have s: "s \<in> res (sessions st) ?k (s_kind (sessions st s))" using reserved by (simp add: session_sets)
    with key kind obtain t where t: "shareds st ?k = Some t" "shared_excl t ?RR ?RW"
      by (cases "shareds st ?k") (auto simp: shared_ok_def)
    let ?t = "if s_kind (sessions st s) = WRead then t\<lparr>reserved_readers := reserved_readers t - 1\<rparr>
              else t\<lparr>reserved_writer := None\<rparr>"
    let ?st1 = "?st0\<lparr>shareds := (shareds st)(?k \<mapsto> ?t)\<rparr>"
    have rw: "reserved_writer t = Some s" if "s_kind (sessions st s) = WWrite"
      using s t(2) that by (auto simp: shared_excl_def)
    have "session_close s st = dispatch s ?st1"
      using reserved open_s kind t(1) rw
      by (auto simp: session_close_def upd_session_def wake_session_eq unreserve_def set_state_eq Let_def
          closed_session_def woken_def)
    then have eq: "session_close s st = dispatch_shared ?k ?st1" using kind by (auto simp: dispatch_def)
    have sets: "res (sessions ?st1) ?k kd = res (sessions st) ?k kd - {s}" for kd by (simp add: res_upd)
    have "shared_excl ?t (?RR - {s}) (?RW - {s})"
    proof (cases "s_kind (sessions st s) = WRead")
      case True
      then have "?RW - {s} = ?RW" "s \<in> ?RR" using s by (auto simp: session_sets)
      then show ?thesis using shared_excl_unreserve(1) [OF t(2), of s] True by simp
    next
      case False
      then have "?RR - {s} = ?RR" "s \<in> ?RW" using s kind by (auto simp: session_sets)
      then show ?thesis using shared_excl_unreserve(2) [OF t(2), of s] False by simp
    qed
    then have "shared_pre ?k ?st1" unfolding shared_pre_def sets by simp
    moreover have "same_key k' st ?st1" if "k' \<noteq> ?k" for k'
      using that by (simp add: same_key_def seen_def)
    moreover have "lines_ok ?st1" using close_reserved_lines_ok [OF lines reserved] by simp
    ultimately show thesis using that [OF eq] by blast
  qed
  note d = dispatch_shared_ok [OF l prim pre]
  show ?thesis unfolding eq by (rule store_inv_by [OF inv d(1,2) same_key_trans [OF other d(3)]])
qed

end
