(* ===== verification/LockRun.thy ===== *)
theory LockRun
  imports LockShared
begin

text \<open>
  Runs of the in-process store: the calls its clients can make as events, the answers they
  get, the states a run can reach, and what holds of all of them. The calls respect what the
  callers in \<open>locks.ts\<close> respect: a key is used by the primitive in its tag, an attempt brings
  a token of its own, and a waiter asks for at least one permit. A waiter may ask for more than
  the pool it finds can ever grant: \<open>permits.waiter\<close> does not compare its weight with the
  limit. Such sessions are recorded beside a run (\<open>overweight\<close>, \<open>too_heavy\<close>); the invariant
  promises the pool's queue discipline for all other sessions.
\<close>

section \<open>Calls and answers\<close>

datatype lock_event =
    MutexAcquire lock_key acquire_request
  | PermitsAcquire lock_key acquire_request int int
  | SharedAcquire lock_key acquire_request share_mode
  | MutexRelease grant
  | PermitsRelease grant
  | SharedRelease grant
  | MutexWaiter lock_key
  | PermitsWaiter lock_key int
  | SharedWaiter lock_key share_mode
  | SessionWait sid bool
  | SessionAbort sid promise
  | SessionClose sid
  | StoreWait lock_key bool
  | StoreAbort lock_key promise

datatype answer =
    Acquired acquire_result
  | Answered release_outcome
  | WaiterOpened sid
  | Waiting promise
  | Done

fun apply_event :: "lock_event \<Rightarrow> store \<Rightarrow> answer \<times> store" where
  "apply_event (MutexAcquire k req) st = map_prod Acquired id (mutex_acquire k req st)"
| "apply_event (PermitsAcquire k req lim w) st = map_prod Acquired id (permits_acquire k req lim w st)"
| "apply_event (SharedAcquire k req mode) st = map_prod Acquired id (shared_acquire k req mode st)"
| "apply_event (MutexRelease g) st = map_prod Answered id (mutex_release g st)"
| "apply_event (PermitsRelease g) st = map_prod Answered id (permits_release g st)"
| "apply_event (SharedRelease g) st = map_prod Answered id (shared_release g st)"
| "apply_event (MutexWaiter k) st = map_prod WaiterOpened id (mutex_waiter k st)"
| "apply_event (PermitsWaiter k w) st = map_prod WaiterOpened id (permits_waiter k w st)"
| "apply_event (SharedWaiter k mode) st = map_prod WaiterOpened id (shared_waiter k mode st)"
| "apply_event (SessionWait s aborted) st = map_prod Waiting id (session_wait_for s aborted st)"
| "apply_event (SessionAbort s p) st = (Done, session_abort s p st)"
| "apply_event (SessionClose s) st = (Done, session_close s st)"
| "apply_event (StoreWait k aborted) st = map_prod Waiting id (store_wait_for k aborted st)"
| "apply_event (StoreAbort k p) st = (Done, store_abort k p st)"

definition pool_holders :: "lock_key \<Rightarrow> store \<Rightarrow> (token \<times> int \<times> fence) list" where
  "pool_holders k st = (case pools st k of None \<Rightarrow> [] | Some p \<Rightarrow> holders p)"

definition shared_readers :: "lock_key \<Rightarrow> store \<Rightarrow> (token \<times> fence) list" where
  "shared_readers k st = (case shareds st k of None \<Rightarrow> [] | Some t \<Rightarrow> readers t)"

definition mutex_holder :: "lock_key \<Rightarrow> store \<Rightarrow> hold option" where
  "mutex_holder k st = (case mutexes st k of None \<Rightarrow> None | Some m \<Rightarrow> holder m)"

definition shared_writer :: "lock_key \<Rightarrow> store \<Rightarrow> hold option" where
  "shared_writer k st = (case shareds st k of None \<Rightarrow> None | Some t \<Rightarrow> writer t)"

fun allowed :: "lock_event \<Rightarrow> store \<Rightarrow> bool" where
  "allowed (MutexAcquire k req) st \<longleftrightarrow> key_primitive k = Mutex"
| "allowed (PermitsAcquire k req lim w) st \<longleftrightarrow>
     key_primitive k = Semaphore \<and> token req \<notin> fst ` set (pool_holders k st)"
| "allowed (SharedAcquire k req mode) st \<longleftrightarrow>
     key_primitive k = ReadWrite \<and> token req \<notin> fst ` set (shared_readers k st)"
| "allowed (MutexRelease g) st \<longleftrightarrow> key_primitive (g_key g) = Mutex"
| "allowed (PermitsRelease g) st \<longleftrightarrow> key_primitive (g_key g) = Semaphore"
| "allowed (SharedRelease g) st \<longleftrightarrow> key_primitive (g_key g) = ReadWrite"
| "allowed (MutexWaiter k) st \<longleftrightarrow> key_primitive k = Mutex"
| "allowed (PermitsWaiter k w) st \<longleftrightarrow>
     key_primitive k = Semaphore \<and> 1 \<le> w"
| "allowed (SharedWaiter k mode) st \<longleftrightarrow> key_primitive k = ReadWrite"
| "allowed _ st \<longleftrightarrow> True"

inductive lock_step :: "store \<Rightarrow> lock_event \<Rightarrow> answer \<Rightarrow> store \<Rightarrow> bool" where
  lock_stepI: "allowed e st \<Longrightarrow> apply_event e st = (out, st') \<Longrightarrow> lock_step st e out st'"

inductive_simps lock_step_iff: "lock_step st e out st'"

inductive reachable :: "store \<Rightarrow> bool" where
  reachable_empty: "reachable empty_store"
| reachable_step: "reachable st \<Longrightarrow> lock_step st e out st' \<Longrightarrow> reachable st'"

text \<open>The session a call opens with more permits than the pool it finds can grant.\<close>

fun overweight :: "lock_event \<Rightarrow> store \<Rightarrow> sid set" where
  "overweight (PermitsWaiter k w) st =
     (case pools st k of None \<Rightarrow> {} | Some p \<Rightarrow> if w \<le> limit p then {} else {next_sid st})"
| "overweight _ st = {}"

section \<open>Waiting keeps the invariant\<close>

lemma store_inv_same:
  assumes "store_inv H st" "lines_ok st'" "\<And>k. same_key k st st'"
  shows "store_inv H st'"
  using assms(2) same_key_ok [OF assms(3)] assms(1) unfolding store_inv_def by blast

lemma wake_only_ok:
  assumes lines: "lines_ok st" and s: "s_state (sessions st s) = Queued \<or> w = None"
  shows "lines_ok (st\<lparr>sessions := (sessions st)(s := (sessions st s)\<lparr>s_wake := w\<rparr>)\<rparr>)"
proof (cases "s < next_sid st")
  case True
  note wf = lines_okD(3) [OF lines]
  have "wf_sessions ((sessions st)(s := (sessions st s)\<lparr>s_wake := w\<rparr>)) (next_sid st)"
    using wf s by (intro wf_sessions_upd [OF wf True]) (auto simp: wf_sessions_def)
  moreover have "qset ((sessions st)(s := (sessions st s)\<lparr>s_wake := w\<rparr>)) k rd = qset (sessions st) k rd" for k rd
    by (auto simp: session_sets)
  ultimately show ?thesis using lines_okD(1,2) [OF lines] by (simp add: lines_ok_def)
next
  case False
  with lines_okD(3) [OF lines] have n: "sessions st s = no_session" by (simp add: wf_sessions_def)
  with s have "(sessions st s)\<lparr>s_wake := w\<rparr> = sessions st s" by (simp add: no_session_def)
  then show ?thesis using lines by simp
qed

lemma same_key_wake:
  "same_key k st (st\<lparr>sessions := (sessions st)(s := (sessions st s)\<lparr>s_wake := w\<rparr>)\<rparr>)"
  by (simp add: same_key_def seen_def)

lemma session_wait_for_inv:
  assumes "store_inv H st"
  shows "store_inv H (snd (session_wait_for s aborted st))"
proof (rule store_inv_same [OF assms])
  from assms have l: "lines_ok (st\<lparr>next_promise := q\<rparr>)" for q by (simp add: store_inv_def)
  show "lines_ok (snd (session_wait_for s aborted st))"
    using l wake_only_ok [OF l, where s = s and w = "Some (next_promise st)"]
    by (simp add: session_wait_for_def Let_def resolve_def upd_session_def)
  show "same_key k st (snd (session_wait_for s aborted st))" for k
    by (simp add: session_wait_for_def Let_def resolve_def upd_session_def same_key_def seen_def)
qed

lemma session_abort_inv:
  assumes "store_inv H st"
  shows "store_inv H (session_abort s p st)"
proof (rule store_inv_same [OF assms])
  from assms have l: "lines_ok st" by (simp add: store_inv_def)
  show "lines_ok (session_abort s p st)"
    using l wake_only_ok [OF l, of s None] by (simp add: session_abort_def resolve_def upd_session_def)
  show "same_key k st (session_abort s p st)" for k
    by (simp add: session_abort_def resolve_def upd_session_def same_key_def seen_def)
qed

lemma store_wait_for_inv:
  assumes "store_inv H st"
  shows "store_inv H (snd (store_wait_for k aborted st))"
  by (rule store_inv_same [OF assms])
    (use assms in \<open>simp_all add: store_wait_for_def Let_def resolve_def store_inv_def same_key_def\<close>)

lemma store_abort_inv:
  assumes "store_inv H st"
  shows "store_inv H (store_abort k p st)"
  by (rule store_inv_same [OF assms])
    (use assms in \<open>simp_all add: store_abort_def resolve_def store_inv_def same_key_def split: option.split\<close>)

lemma session_close_inv:
  assumes "store_inv H st"
  shows "store_inv H (session_close s st)"
proof (cases "s_closed (sessions st s) \<or> s_state (sessions st s) = Idle")
  case True
  from assms have lines: "lines_ok st" by (simp add: store_inv_def)
  show ?thesis
  proof (cases "s_closed (sessions st s)")
    case True
    with assms show ?thesis by (simp add: session_close_def)
  next
    case False
    with True have idle: "s_state (sessions st s) = Idle" by simp
    then have state: "closed_session (sessions st s) = (sessions st s)\<lparr>s_closed := True, s_wake := None\<rparr>"
      by (intro session.equality) (simp_all add: closed_session_def)
    from False lines_okD(3) [OF lines] have "s < next_sid st"
      by (metis leI no_session_def session.select_convs(5) wf_sessions_def)
    then have "lines_ok (st\<lparr>sessions := (sessions st)(s := closed_session (sessions st s))\<rparr>)"
      using idle by (intro lines_ok_no_line [OF lines]) (auto simp: agrees_def)
    moreover have "session_close s st = st\<lparr>sessions := (sessions st)(s := closed_session (sessions st s)),
        resolved := resolved st @ woken s st\<rparr>"
      using False idle unfolding state
      by (simp add: session_close_def upd_session_def wake_session_eq woken_def)
    moreover have "seen k (closed_session (sessions st s)) = seen k (sessions st s)" for k
      using idle by (simp add: seen_def)
    ultimately show ?thesis
      by (intro store_inv_same [OF assms]) (simp_all add: same_key_def)
  qed
next
  case False
  then have busy: "\<not> s_closed (sessions st s)" "s_state (sessions st s) \<noteq> Idle" by auto
  from assms have wf: "wf_sessions (sessions st) (next_sid st)" by (simp add: store_inv_def lines_ok_def)
  from queued_wf(1) [OF wf busy(2)] wf
  have fits: "kind_fits (key_primitive (s_full (sessions st s))) (s_kind (sessions st s))"
    by (simp add: wf_sessions_def)
  show ?thesis
  proof (cases "key_primitive (s_full (sessions st s))")
    case Mutex
    with fits show ?thesis by (intro mutex_close_inv [OF assms _ _ busy]) auto
  next
    case Semaphore
    with fits show ?thesis by (intro permits_close_inv [OF assms _ _ busy]) auto
  next
    case ReadWrite
    with fits show ?thesis by (intro shared_close_inv [OF assms _ _ busy]) auto
  qed
qed

section \<open>Reachable states are well-formed\<close>

lemma apply_event_inv:
  assumes inv: "store_inv H st" and ok: "allowed e st" and heavy: "overweight e st \<subseteq> H"
  shows "store_inv H (snd (apply_event e st))"
proof (cases e)
  case (PermitsAcquire k req lim w)
  with ok have "key_primitive k = Semaphore" "\<And>p. pools st k = Some p \<Longrightarrow> token req \<notin> fst ` set (holders p)"
    by (simp_all add: pool_holders_def)
  then show ?thesis using permits_acquire_inv [OF inv] PermitsAcquire by simp
next
  case (SharedAcquire k req mode)
  with ok have "key_primitive k = ReadWrite" "\<And>t. shareds st k = Some t \<Longrightarrow> token req \<notin> fst ` set (readers t)"
    by (simp_all add: shared_readers_def)
  then show ?thesis using shared_acquire_inv [OF inv] SharedAcquire by simp
next
  case (PermitsWaiter k w)
  with ok heavy have "key_primitive k = Semaphore" "1 \<le> w"
    "\<And>p. pools st k = Some p \<Longrightarrow> limit p < w \<Longrightarrow> next_sid st \<in> H" by simp_all
  then show ?thesis using permits_waiter_inv [OF inv] PermitsWaiter by simp
qed (use ok inv in \<open>simp_all add: mutex_acquire_inv mutex_release_inv mutex_waiter_inv permits_release_inv
      shared_release_inv shared_waiter_inv session_wait_for_inv session_abort_inv session_close_inv
      store_wait_for_inv store_abort_inv\<close>)

text \<open>Whatever the waiters weigh, the accounts, the lines and the exclusions are kept.\<close>

lemma lock_step_inv: "store_inv UNIV st \<Longrightarrow> lock_step st e out st' \<Longrightarrow> store_inv UNIV st'"
  using apply_event_inv [of UNIV st e] by (simp add: lock_step_iff)

lemma reachable_inv: "reachable st \<Longrightarrow> store_inv UNIV st"
  by (induction rule: reachable.induct) (auto intro: store_inv_empty lock_step_inv)

end
