(* ===== verification/LockSpec.thy ===== *)
theory LockSpec
  imports LockRun
begin

text \<open>
  What the in-process store promises its callers, stated without lines, sessions or
  reservations: per key, the holds that were granted and not yet released. The store's own
  tables implement this account, call by call, and the account never holds two claims that
  exclude each other.
\<close>

section \<open>The abstract account\<close>

datatype claim = Exclusive | Permits int int | Reader

type_synonym account = "lock_key \<Rightarrow> (token \<times> claim) list"

fun claim_weight :: "claim \<Rightarrow> int" where
  "claim_weight (Permits w l) = w"
| "claim_weight _ = 0"

text \<open>Claims that may be held together.\<close>

definition compatible :: "(token \<times> claim) list \<Rightarrow> bool" where
  "compatible hs \<longleftrightarrow>
     distinct (map fst hs) \<and> (Exclusive \<in> snd ` set hs \<longrightarrow> length hs = 1) \<and>
     (\<forall>(t, c) \<in> set hs. case c of Permits w l \<Rightarrow> 1 \<le> w \<and> (\<Sum>h\<leftarrow>hs. claim_weight (snd h)) \<le> l | _ \<Rightarrow> True)"

fun claim_of :: "lock_event \<Rightarrow> claim" where
  "claim_of (PermitsAcquire k req lim w) = Permits w lim"
| "claim_of (SharedAcquire k req ReadMode) = Reader"
| "claim_of _ = Exclusive"

text \<open>What a call and its answer do to the account: a grant enters a claim, a release takes it out.\<close>

fun spec_effect :: "lock_event \<Rightarrow> answer \<Rightarrow> account \<Rightarrow> account" where
  "spec_effect e (Acquired (Granted g)) H = H(g_key g := H (g_key g) @ [(g_token g, claim_of e)])"
| "spec_effect (MutexRelease g) (Answered Released) H = H(g_key g := AList.delete (g_token g) (H (g_key g)))"
| "spec_effect (PermitsRelease g) (Answered Released) H = H(g_key g := AList.delete (g_token g) (H (g_key g)))"
| "spec_effect (SharedRelease g) (Answered Released) H = H(g_key g := AList.delete (g_token g) (H (g_key g)))"
| "spec_effect e out H = H"

text \<open>The account the store's tables give.\<close>

definition exclusive_claim :: "hold option \<Rightarrow> (token \<times> claim) list" where
  "exclusive_claim h = (case h of None \<Rightarrow> [] | Some h \<Rightarrow> [(owner h, Exclusive)])"

definition pool_claims :: "pool option \<Rightarrow> (token \<times> claim) list" where
  "pool_claims p = (case p of None \<Rightarrow> [] | Some p \<Rightarrow> map (\<lambda>(t, w, f). (t, Permits w (limit p))) (holders p))"

definition reader_claims :: "(token \<times> fence) list \<Rightarrow> (token \<times> claim) list" where
  "reader_claims rs = map (\<lambda>(t, f). (t, Reader)) rs"

definition held_account :: "store \<Rightarrow> account" where
  "held_account st k =
     (case key_primitive k of
        Mutex \<Rightarrow> exclusive_claim (mutex_holder k st)
      | Semaphore \<Rightarrow> pool_claims (pools st k)
      | ReadWrite \<Rightarrow> exclusive_claim (shared_writer k st) @ reader_claims (shared_readers k st))"

section \<open>Handing a lock over grants nothing by itself\<close>

text \<open>The part of the tables that callers' holds are in, with the fence counter.\<close>

definition hold_tables :: "store \<Rightarrow> (lock_key \<Rightarrow> hold option) \<times> (lock_key \<Rightarrow> (token \<times> claim) list) \<times>
    (lock_key \<Rightarrow> hold option) \<times> (lock_key \<Rightarrow> (token \<times> fence) list) \<times> fence" where
  "hold_tables st = (\<lambda>k. mutex_holder k st, \<lambda>k. pool_claims (pools st k), \<lambda>k. shared_writer k st,
     \<lambda>k. shared_readers k st, last_fence st)"

lemma hold_tables_account:
  "hold_tables st' = hold_tables st \<Longrightarrow> held_account st' = held_account st"
  unfolding hold_tables_def held_account_def by (auto simp: fun_eq_iff split: primitive.split)

lemma hold_tables_frame [simp]:
  "hold_tables (st\<lparr>lines := l\<rparr>) = hold_tables st"
  "hold_tables (st\<lparr>reader_lines := l\<rparr>) = hold_tables st"
  "hold_tables (st\<lparr>watchers := w\<rparr>) = hold_tables st"
  "hold_tables (st\<lparr>sessions := ss\<rparr>) = hold_tables st"
  "hold_tables (st\<lparr>next_sid := n\<rparr>) = hold_tables st"
  "hold_tables (st\<lparr>resolved := r\<rparr>) = hold_tables st"
  "hold_tables (st\<lparr>next_promise := q\<rparr>) = hold_tables st"
  by (simp_all add: hold_tables_def mutex_holder_def shared_writer_def shared_readers_def)

lemma hold_tables_sessions [simp]:
  "hold_tables (set_state s w st) = hold_tables st"
  "hold_tables (join s st) = hold_tables st"
  "hold_tables (leave s st) = hold_tables st"
  "hold_tables (hand_to s st) = hold_tables st"
  "hold_tables (wake_watchers k st) = hold_tables st"
  "hold_tables (wake_session s st) = hold_tables st"
  by (simp_all add: set_state_eq join_eq leave_eq hand_to_eq wake_watchers_eq wake_session_eq Let_def)

lemma hold_tables_mutex:
  assumes "mutex_holder k (st\<lparr>mutexes := (mutexes st)(k := m)\<rparr>) = mutex_holder k st"
  shows "hold_tables (st\<lparr>mutexes := (mutexes st)(k := m)\<rparr>) = hold_tables st"
  using assms
  by (auto simp: hold_tables_def mutex_holder_def shared_writer_def shared_readers_def fun_eq_iff)

lemma hold_tables_pool:
  assumes "pool_claims p = pool_claims (pools st k)"
  shows "hold_tables (st\<lparr>pools := (pools st)(k := p)\<rparr>) = hold_tables st"
  using assms
  by (auto simp: hold_tables_def mutex_holder_def shared_writer_def shared_readers_def fun_eq_iff)

lemma hold_tables_shared:
  assumes "shared_writer k (st\<lparr>shareds := (shareds st)(k := t)\<rparr>) = shared_writer k st"
    and "shared_readers k (st\<lparr>shareds := (shareds st)(k := t)\<rparr>) = shared_readers k st"
  shows "hold_tables (st\<lparr>shareds := (shareds st)(k := t)\<rparr>) = hold_tables st"
  using assms
  by (auto simp: hold_tables_def mutex_holder_def shared_writer_def shared_readers_def fun_eq_iff)

lemma dispatch_mutex_holds: "hold_tables (dispatch_mutex k st) = hold_tables st"
  by (auto simp: dispatch_mutex_def Let_def mutex_holder_def free_mutex_def intro!: hold_tables_mutex
      split: option.splits list.splits)

lemma permits_loop_tables:
  "permits_loop xs p st = (p', st') \<Longrightarrow> hold_tables st' = hold_tables st \<and> pools st' = pools st
     \<and> holders p' = holders p \<and> limit p' = limit p"
proof (induction xs p st rule: permits_loop.induct)
  case (2 s ss p st)
  then show ?case by (auto simp: Let_def split: if_splits)
qed simp

lemma dispatch_permits_holds: "hold_tables (dispatch_permits k st) = hold_tables st"
proof (cases "pools st k")
  case None
  then show ?thesis by (simp add: dispatch_permits_def)
next
  case (Some p)
  obtain p' st' where loop: "permits_loop (line_list (lines st) k) p st = (p', st')" by fastforce
  note P = permits_loop_tables [OF loop]
  have "hold_tables (st'\<lparr>pools := (pools st')(k \<mapsto> p')\<rparr>) = hold_tables st'"
    using P Some by (intro hold_tables_pool) (simp add: pool_claims_def)
  moreover have "hold_tables (st'\<lparr>pools := (pools st')(k := None)\<rparr>) = hold_tables st'" if "holders p' = []"
    using P Some that by (intro hold_tables_pool) (simp add: pool_claims_def)
  ultimately show ?thesis using P Some loop by (simp add: dispatch_permits_def)
qed

lemma readers_loop_tables:
  "readers_loop xs t st = (t', st') \<Longrightarrow> hold_tables st' = hold_tables st \<and> shareds st' = shareds st
     \<and> readers t' = readers t \<and> writer t' = writer t"
proof (induction xs t st rule: readers_loop.induct)
  case (2 s ss t st)
  then show ?case by simp
qed simp

lemma dispatch_shared_holds: "hold_tables (dispatch_shared k st) = hold_tables st"
proof -
  define t where "t = (case shareds st k of None \<Rightarrow> new_shared | Some t \<Rightarrow> t)"
  define P where "P = (case shareds st k of None \<Rightarrow> False | Some t \<Rightarrow> writer t \<noteq> None \<or> reserved_writer t \<noteq> None)"
  define Q where "Q = (case shareds st k of None \<Rightarrow> False | Some t \<Rightarrow> length (readers t) > 0 \<or> reserved_readers t > 0)"
  note D = dispatch_shared_def [of k st, unfolded Let_def, folded t_def P_def Q_def]
  have tables: "shared_writer k st = writer t" "shared_readers k st = readers t"
    by (auto simp: t_def shared_writer_def shared_readers_def new_shared_def split: option.split)
  have loop: "hold_tables (case readers_loop xs t st of (t', st') \<Rightarrow> st'\<lparr>shareds := (shareds st')(k \<mapsto> t')\<rparr>) = hold_tables st"
    for xs
  proof -
    obtain t' st' where loop: "readers_loop xs t st = (t', st')" by fastforce
    note R = readers_loop_tables [OF loop]
    then have "shared_writer k st' = writer t" "shared_readers k st' = readers t"
      using tables by (simp_all add: shared_writer_def shared_readers_def)
    then have "hold_tables (st'\<lparr>shareds := (shareds st')(k \<mapsto> t')\<rparr>) = hold_tables st'"
      using R by (intro hold_tables_shared) (simp_all add: shared_writer_def shared_readers_def)
    with R loop show ?thesis by simp
  qed
  have hand: "hold_tables (st\<lparr>shareds := (shareds st)(k \<mapsto> t\<lparr>reserved_writer := w\<rparr>)\<rparr>) = hold_tables st" for w
    using tables by (intro hold_tables_shared) (simp_all add: shared_writer_def shared_readers_def)
  have free: "hold_tables (st\<lparr>shareds := (shareds st)(k := None)\<rparr>) = hold_tables st" if "\<not> P" "\<not> Q"
    using that unfolding P_def Q_def
    by (intro hold_tables_shared) (auto simp: shared_writer_def shared_readers_def split: option.splits)
  show ?thesis
    by (cases "lines st k"; cases "the (lines st k)"; cases "reader_lines st k"; cases "the (reader_lines st k)"; cases P; cases Q)
      (simp_all add: D loop hand free del: readers_loop.simps)
qed

section \<open>Every call does to the tables what it does to the account\<close>

text \<open>An account entry follows from the table of the key's own primitive.\<close>

lemma held_account_upd:
  assumes "key_primitive k = Mutex \<Longrightarrow> exclusive_claim (mutex_holder k st') = xs"
    and "key_primitive k = Semaphore \<Longrightarrow> pool_claims (pools st' k) = xs"
    and "key_primitive k = ReadWrite \<Longrightarrow> exclusive_claim (shared_writer k st') @ reader_claims (shared_readers k st') = xs"
    and "\<And>k'. k' \<noteq> k \<Longrightarrow> mutexes st' k' = mutexes st k' \<and> pools st' k' = pools st k' \<and> shareds st' k' = shareds st k'"
  shows "held_account st' = (held_account st)(k := xs)"
proof (rule ext)
  fix k'
  show "held_account st' k' = ((held_account st)(k := xs)) k'"
  proof (cases "k' = k")
    case True
    with assms(1-3) show ?thesis by (simp add: held_account_def split: primitive.split)
  next
    case False
    with assms(4) [OF False] show ?thesis
      by (simp add: held_account_def mutex_holder_def shared_writer_def shared_readers_def split: primitive.split)
  qed
qed

lemma queue_refused_account:
  "held_account (snd (queue_refused req k kind w st)) = held_account st"
  "fst (queue_refused req k kind w st) = Refused"
proof -
  have "hold_tables (snd (queue_refused req k kind w st)) = hold_tables st"
    by (simp add: queue_refused_def split: option.split)
  then show "held_account (snd (queue_refused req k kind w st)) = held_account st" by (rule hold_tables_account)
qed (simp add: queue_refused_def)

lemma mutex_hold_account:
  assumes "key_primitive k = Mutex" "mutex_holder k st = None"
  shows "held_account (snd (mutex_hold k req st)) = (held_account st)(k := held_account st k @ [(token req, Exclusive)])"
    and "fst (mutex_hold k req st) = Granted \<lparr>g_key = k, g_token = token req, g_fence = last_fence st + 1\<rparr>"
  using assms
  by (auto intro!: held_account_upd
      simp: mutex_hold_def next_fence_eq held_account_def exclusive_claim_def mutex_holder_def)

lemma mutex_acquire_account:
  assumes inv: "store_inv H st" and prim: "key_primitive k = Mutex"
  shows "held_account (snd (mutex_acquire k req st)) =
    spec_effect (MutexAcquire k req) (Acquired (fst (mutex_acquire k req st))) (held_account st)"
proof -
  from inv have key: "mutex_ok (mutexes st k) (lines st k) (res (sessions st) k WMutex)"
    using mutex_key_ok [OF prim] by (auto simp: store_inv_def)
  consider (refused) "mutex_acquire k req st = queue_refused req k WMutex 1 st"
    | (hold) st' where "mutex_acquire k req st = mutex_hold k req st'" "hold_tables st' = hold_tables st"
        "mutex_holder k st = None"
  proof (cases "mutexes st k")
    case None
    then show thesis by (intro hold [of st]) (simp_all add: mutex_acquire_def mutex_holder_def)
  next
    case (Some m)
    show thesis
    proof (cases "\<exists>s. reserved m = Some s \<and> redeeming req k WMutex 1 st = Some s")
      case True
      then obtain s where s: "reserved m = Some s" "redeeming req k WMutex 1 st = Some s" by blast
      let ?st1 = "set_state s Idle st"
      let ?st' = "?st1\<lparr>mutexes := (mutexes ?st1)(k \<mapsto> m\<lparr>reserved := None\<rparr>)\<rparr>"
      have "hold_tables ?st' = hold_tables ?st1"
        using Some by (intro hold_tables_mutex) (simp add: mutex_holder_def set_state_eq)
      moreover have "mutex_acquire k req st = mutex_hold k req ?st'"
        using Some s by (simp add: mutex_acquire_def Let_def)
      moreover have "mutex_holder k st = None" using key Some s(1) by (simp add: mutex_holder_def mutex_ok_def)
      ultimately show thesis by (intro hold [of ?st']) simp_all
    next
      case False
      then have "mutex_acquire k req st = queue_refused req k WMutex 1 st \<or>
          holder m = None \<and> mutex_acquire k req st = mutex_hold k req st"
        using Some by (auto simp: mutex_acquire_def split: option.split)
      then show thesis using refused hold [of st] Some by (auto simp: mutex_holder_def)
    qed
  qed
  then show ?thesis
  proof cases
    case refused
    then show ?thesis by (simp add: queue_refused_account)
  next
    case hold
    from hold(2,3) have "mutex_holder k st' = None" by (simp add: hold_tables_def fun_eq_iff)
    note H = mutex_hold_account [OF prim this]
    show ?thesis unfolding hold(1) H hold_tables_account [OF hold(2)] by simp
  qed
qed

lemma mutex_release_account:
  assumes prim: "key_primitive (g_key g) = Mutex"
  shows "held_account (snd (mutex_release g st)) =
    spec_effect (MutexRelease g) (Answered (fst (mutex_release g st))) (held_account st)"
proof (cases "\<exists>m h. mutexes st (g_key g) = Some m \<and> holder m = Some h \<and> owner h = g_token g")
  case False
  then have "mutex_release g st = (NotOwner, st)"
    by (auto simp: mutex_release_def split: option.splits)
  then show ?thesis by simp
next
  case True
  then obtain m h where m: "mutexes st (g_key g) = Some m" "holder m = Some h" "owner h = g_token g" by blast
  let ?st = "st\<lparr>mutexes := (mutexes st)(g_key g \<mapsto> m\<lparr>holder := None\<rparr>)\<rparr>"
  have r: "mutex_release g st = (Released, dispatch_mutex (g_key g) ?st)"
    using m by (simp add: mutex_release_def)
  have "held_account ?st = (held_account st)(g_key g := AList.delete (g_token g) (held_account st (g_key g)))"
    using m prim by (intro held_account_upd) (simp_all add: held_account_def exclusive_claim_def mutex_holder_def)
  then show ?thesis using hold_tables_account [OF dispatch_mutex_holds] by (simp add: r)
qed

lemma delete_map_value:
  "AList.delete k (map (\<lambda>(a, b). (a, f b)) xs) = map (\<lambda>(a, b). (a, f b)) (AList.delete k xs)"
  by (induction xs) auto

lemma permits_hold_account:
  assumes "key_primitive k = Semaphore" "pool_claims (Some p) = held_account st k"
    and "token req \<notin> fst ` set (holders p)"
  shows "held_account (snd (permits_hold k req w p st)) =
      (held_account st)(k := held_account st k @ [(token req, Permits w (limit p))])"
    and "fst (permits_hold k req w p st) = Granted \<lparr>g_key = k, g_token = token req, g_fence = last_fence st + 1\<rparr>"
  using assms
  by (auto intro!: held_account_upd simp: permits_hold_def next_fence_eq pool_claims_def update_fresh)

lemma permits_acquire_account:
  assumes prim: "key_primitive k = Semaphore" and fresh: "token req \<notin> fst ` set (pool_holders k st)"
  shows "held_account (snd (permits_acquire k req lim w st)) =
    spec_effect (PermitsAcquire k req lim w) (Acquired (fst (permits_acquire k req lim w st))) (held_account st)"
proof -
  consider (same) "snd (permits_acquire k req lim w st) = st" "\<And>g. fst (permits_acquire k req lim w st) \<noteq> Granted g"
    | (refused) "permits_acquire k req lim w st = queue_refused req k WPermits w st"
    | (hold) p st' where "permits_acquire k req lim w st = permits_hold k req w p st'" "hold_tables st' = hold_tables st"
        "holders p = pool_holders k st" "limit p = lim" "pools st k \<noteq> None \<Longrightarrow> pool_claims (Some p) = pool_claims (pools st k)"
  proof (cases "is_permit_count lim \<and> is_permit_count w \<and> w \<le> lim")
    case False
    then show thesis using same by (auto simp: permits_acquire_def split: if_splits)
  next
    case valid: True
    show thesis
    proof (cases "pools st k")
      case None
      with valid show thesis
        by (intro hold [of "(new_pool lim)\<lparr>in_use := w\<rparr>" st])
          (simp_all add: permits_acquire_def new_pool_def Let_def pool_holders_def)
    next
      case (Some p)
      show thesis
      proof (cases "limit p = lim")
        case False
        with Some valid show thesis using same by (simp add: permits_acquire_def)
      next
        case lim: True
        show thesis
        proof (cases "redeeming req k WPermits w st")
          case (Some s)
          with \<open>pools st k = Some p\<close> lim valid show thesis
            by (intro hold [of "p\<lparr>p_reserved := p_reserved p - w\<rparr>" "set_state s Idle st"])
              (auto simp: permits_acquire_def pool_holders_def pool_claims_def)
        next
          case None
          show thesis
          proof (cases "in_use p + w > lim")
            case True
            with None Some lim valid show thesis by (intro refused) (auto simp: permits_acquire_def)
          next
            case False
            with None Some lim valid show thesis
              by (intro hold [of "p\<lparr>in_use := in_use p + w\<rparr>" st])
                (auto simp: permits_acquire_def pool_holders_def pool_claims_def)
          qed
        qed
      qed
    qed
  qed
  then show ?thesis
  proof cases
    case same
    then show ?thesis by (cases "fst (permits_acquire k req lim w st)") auto
  next
    case refused
    then show ?thesis by (simp add: queue_refused_account)
  next
    case hold
    have "pool_claims (Some p) = held_account st k"
      using hold(3-5) prim by (cases "pools st k") (simp_all add: held_account_def pool_claims_def pool_holders_def)
    then have claims: "pool_claims (Some p) = held_account st' k" by (simp add: hold_tables_account [OF hold(2)])
    have "token req \<notin> fst ` set (holders p)" using fresh hold(3) by simp
    note H = permits_hold_account [OF prim claims this]
    show ?thesis unfolding hold(1) H hold_tables_account [OF hold(2)] by (simp add: hold(4))
  qed
qed

lemma permits_release_account:
  assumes prim: "key_primitive (g_key g) = Semaphore"
  shows "held_account (snd (permits_release g st)) =
    spec_effect (PermitsRelease g) (Answered (fst (permits_release g st))) (held_account st)"
proof (cases "\<exists>p w f. pools st (g_key g) = Some p \<and> map_of (holders p) (g_token g) = Some (w, f)")
  case False
  then have "permits_release g st = (NotOwner, st)"
    by (auto simp: permits_release_def split: option.splits)
  then show ?thesis by simp
next
  case True
  then obtain p w f where p: "pools st (g_key g) = Some p" "map_of (holders p) (g_token g) = Some (w, f)" by blast
  let ?p = "p\<lparr>holders := AList.delete (g_token g) (holders p), in_use := in_use p - w\<rparr>"
  let ?st = "st\<lparr>pools := (pools st)(g_key g \<mapsto> ?p)\<rparr>"
  have r: "permits_release g st = (Released, dispatch_permits (g_key g) ?st)"
    using p by (simp add: permits_release_def)
  have "held_account ?st = (held_account st)(g_key g := AList.delete (g_token g) (held_account st (g_key g)))"
    using p(1) prim delete_map_value [of "g_token g" "\<lambda>(w, f). Permits w (limit p)" "holders p"]
    by (intro held_account_upd) (simp_all add: held_account_def pool_claims_def split_def)
  then show ?thesis using hold_tables_account [OF dispatch_permits_holds] by (simp add: r)
qed

lemma shared_acquire_account:
  assumes inv: "store_inv H st" and prim: "key_primitive k = ReadWrite"
    and fresh: "token req \<notin> fst ` set (shared_readers k st)"
  shows "held_account (snd (shared_acquire k req mode st)) =
    spec_effect (SharedAcquire k req mode) (Acquired (fst (shared_acquire k req mode st))) (held_account st)"
proof -
  from inv have key: "shared_ok (shareds st k) (lines st k) (reader_lines st k)
      (res (sessions st) k WRead) (res (sessions st) k WWrite)"
    using shared_key_ok [OF prim] by (auto simp: store_inv_def)
  define t where "t = (case shareds st k of None \<Rightarrow> new_shared | Some t \<Rightarrow> t)"
  have excl: "shared_excl t (res (sessions st) k WRead) (res (sessions st) k WWrite)"
    using key by (auto simp: shared_ok_def t_def shared_excl_def new_shared_def split: option.splits)
  have t: "shared_writer k st = writer t" "shared_readers k st = readers t"
    by (auto simp: t_def shared_writer_def shared_readers_def new_shared_def split: option.split)
  note A = shared_acquire_def [of k req mode st, unfolded Let_def, folded t_def]
  consider (refused) "shared_acquire k req mode st = queue_refused req k (mode_kind mode) 1 st"
    | (hold) t' st' where "shared_acquire k req mode st = shared_hold k req mode t' st'" "hold_tables st' = hold_tables st"
        "readers t' = readers t" "writer t' = writer t" "writer t = None" "mode = WriteMode \<longrightarrow> readers t = []"
  proof (cases "shareds st k \<noteq> None \<and> redeeming req k (mode_kind mode) 1 st \<noteq> None")
    case True
    then obtain s where s: "redeeming req k (mode_kind mode) 1 st = Some s" "shareds st k = Some t"
      by (auto simp: t_def)
    from s(1) have R: "s \<in> res (sessions st) k (mode_kind mode)"
      by (auto simp: redeeming_def session_sets split: option.splits if_splits)
    have free: "writer t = None" "mode = WriteMode \<longrightarrow> readers t = []"
      using excl R by (cases mode; auto simp: shared_excl_def card_gt_0_iff)+
    show thesis
      by (rule hold [of "case mode of ReadMode \<Rightarrow> t\<lparr>reserved_readers := reserved_readers t - 1\<rparr>
            | WriteMode \<Rightarrow> t\<lparr>reserved_writer := None\<rparr>" "set_state s Idle st"])
        (use free in \<open>simp_all add: A s split: share_mode.split\<close>)
  next
    case False
    then have none: "(case shareds st k of None \<Rightarrow> None | Some _ \<Rightarrow> redeeming req k (mode_kind mode) 1 st) = None"
      by (auto split: option.split)
    show thesis
    proof (cases "shared_blocked (shareds st k) k mode st")
      case True
      then show thesis by (intro refused) (simp add: A none)
    next
      case False
      then have "writer t = None" "mode = WriteMode \<longrightarrow> readers t = []"
        by (auto simp: shared_blocked_def t_def new_shared_def split: option.splits if_splits)
      with False show thesis by (intro hold [of t st]) (simp_all add: A none)
    qed
  qed
  then show ?thesis
  proof cases
    case refused
    then show ?thesis by (simp add: queue_refused_account)
  next
    case hold
    have fst: "fst (shared_hold k req mode t' st') = Granted \<lparr>g_key = k, g_token = token req, g_fence = last_fence st' + 1\<rparr>"
      by (simp add: shared_hold_def next_fence_eq)
    have acc: "held_account st k = reader_claims (readers t)"
      using prim t hold(5) by (simp add: held_account_def exclusive_claim_def)
    have fresh': "token req \<notin> fst ` set (readers t)" using fresh t(2) by simp
    have "held_account (snd (shared_hold k req mode t' st')) =
        (held_account st')(k := held_account st k @ [(token req, claim_of (SharedAcquire k req mode))])"
    proof (cases mode)
      case ReadMode
      then show ?thesis
        using prim hold(3-5) fresh' unfolding acc
        by (intro held_account_upd) (simp_all add: shared_hold_def next_fence_eq exclusive_claim_def
            shared_writer_def shared_readers_def reader_claims_def update_fresh)
    next
      case WriteMode
      then show ?thesis
        using prim hold(3-6) unfolding acc
        by (intro held_account_upd) (simp_all add: shared_hold_def next_fence_eq exclusive_claim_def
            shared_writer_def shared_readers_def reader_claims_def)
    qed
    then show ?thesis unfolding hold(1) fst hold_tables_account [OF hold(2)] by simp
  qed
qed

lemma shared_release_account:
  assumes inv: "store_inv H st" and prim: "key_primitive (g_key g) = ReadWrite"
  shows "held_account (snd (shared_release g st)) =
    spec_effect (SharedRelease g) (Answered (fst (shared_release g st))) (held_account st)"
proof (cases "fst (shared_release g st) = Released")
  case False
  then have "shared_release g st = (NotOwner, st)"
    by (auto simp: shared_release_def split: option.splits if_splits)
  then show ?thesis by simp
next
  case True
  let ?k = "g_key g" and ?tok = "g_token g"
  from True obtain t where t: "shareds st ?k = Some t" by (auto simp: shared_release_def split: option.splits)
  from inv have "key_ok H st ?k" by (simp add: store_inv_def)
  then have "shared_excl t (res (sessions st) ?k WRead) (res (sessions st) ?k WWrite)"
    by (simp add: shared_key_ok [OF prim] t shared_ok_Some)
  then have one: "writer t \<noteq> None \<longrightarrow> readers t = []" by (auto simp: shared_excl_def)
  define writes where "writes = (case writer t of None \<Rightarrow> False | Some h \<Rightarrow> owner h = ?tok)"
  define t' where "t' = (if writes then t\<lparr>writer := None\<rparr> else t\<lparr>readers := AList.delete ?tok (readers t)\<rparr>)"
  let ?st = "st\<lparr>shareds := (shareds st)(?k \<mapsto> t')\<rparr>"
  have r: "shared_release g st = (Released, dispatch_shared ?k ?st)"
    using True t by (simp add: shared_release_def t'_def writes_def split: if_splits)
  have reads: "?tok \<in> fst ` set (readers t)" if "\<not> writes"
    using True t that by (simp add: shared_release_def writes_def split: if_splits)
  have old: "held_account st ?k = exclusive_claim (writer t) @ reader_claims (readers t)"
    using prim t by (simp add: held_account_def shared_writer_def shared_readers_def)
  have "exclusive_claim (writer t') @ reader_claims (readers t') = AList.delete ?tok (held_account st ?k)"
  proof (cases writes)
    case True
    then obtain h where "writer t = Some h" "owner h = ?tok" by (auto simp: writes_def split: option.splits)
    with one True show ?thesis unfolding old by (simp add: t'_def exclusive_claim_def reader_claims_def)
  next
    case False
    with reads one have "writer t = None" by auto
    with False show ?thesis
      unfolding old by (simp add: t'_def exclusive_claim_def reader_claims_def delete_map_value)
  qed
  then have "held_account ?st = (held_account st)(?k := AList.delete ?tok (held_account st ?k))"
    using prim by (intro held_account_upd) (simp_all add: shared_writer_def shared_readers_def)
  then show ?thesis using hold_tables_account [OF dispatch_shared_holds] by (simp add: r)
qed

section \<open>Waiters hold nothing\<close>

lemma new_session_holds [simp]: "hold_tables (snd (new_session k kind w st)) = hold_tables st"
  by (simp add: new_session_eq)

lemma mutex_waiter_holds: "hold_tables (snd (mutex_waiter k st)) = hold_tables st"
proof (cases "case mutexes st k of None \<Rightarrow> False | Some m \<Rightarrow> holder m \<noteq> None \<or> reserved m \<noteq> None")
  case True
  then have "snd (mutex_waiter k st) = join (next_sid st) (snd (new_session k WMutex 1 st))"
    by (simp add: mutex_waiter_def new_session_eq)
  then show ?thesis by simp
next
  case False
  let ?st1 = "snd (new_session k WMutex 1 st)" and ?m = "\<lparr>holder = None, reserved = Some (next_sid st)\<rparr>"
  from False have "snd (mutex_waiter k st) =
      set_state (next_sid st) Reserved (?st1\<lparr>mutexes := (mutexes ?st1)(k \<mapsto> ?m)\<rparr>)"
    by (simp add: mutex_waiter_def new_session_eq)
  moreover have "hold_tables (?st1\<lparr>mutexes := (mutexes ?st1)(k \<mapsto> ?m)\<rparr>) = hold_tables ?st1"
    using False by (intro hold_tables_mutex) (auto simp: mutex_holder_def new_session_eq split: option.splits)
  ultimately show ?thesis by simp
qed

lemma permits_waiter_holds: "hold_tables (snd (permits_waiter k w st)) = hold_tables st"
proof -
  let ?st1 = "snd (new_session k WPermits w st)"
  have "hold_tables (?st1\<lparr>pools := (pools ?st1)(k \<mapsto> p')\<rparr>) = hold_tables ?st1"
    if "pools st k = Some p" "holders p' = holders p" "limit p' = limit p" for p p'
    using that by (intro hold_tables_pool) (simp add: pool_claims_def new_session_eq)
  then show ?thesis by (simp add: permits_waiter_def new_session_eq split: option.split)
qed

lemma shared_waiter_holds: "hold_tables (snd (shared_waiter k mode st)) = hold_tables st"
proof -
  let ?st1 = "snd (new_session k (mode_kind mode) 1 st)"
  define t where "t = (case shareds st k of None \<Rightarrow> new_shared | Some t \<Rightarrow> t)"
  have "hold_tables (?st1\<lparr>shareds := (shareds ?st1)(k \<mapsto> t')\<rparr>) = hold_tables ?st1"
    if "writer t' = writer t" "readers t' = readers t" for t'
    using that by (intro hold_tables_shared)
      (auto simp: shared_writer_def shared_readers_def t_def new_shared_def new_session_eq split: option.split)
  then show ?thesis
    by (simp add: shared_waiter_def new_session_eq Let_def flip: t_def split: share_mode.split)
qed

lemma dispatch_holds: "hold_tables (dispatch s st) = hold_tables st"
  by (simp add: dispatch_def dispatch_mutex_holds dispatch_permits_holds dispatch_shared_holds split: wait_kind.split)

lemma unreserve_holds: "hold_tables (unreserve s st) = hold_tables st"
proof -
  let ?st1 = "set_state s Idle st" and ?k = "s_full (sessions st s)"
  have "hold_tables (?st1\<lparr>mutexes := (mutexes ?st1)(?k \<mapsto> m')\<rparr>) = hold_tables ?st1"
    if "mutexes st ?k = Some m" "holder m' = holder m" for m m'
    using that by (intro hold_tables_mutex) (simp add: mutex_holder_def set_state_eq)
  moreover have "hold_tables (?st1\<lparr>pools := (pools ?st1)(?k \<mapsto> p')\<rparr>) = hold_tables ?st1"
    if "pools st ?k = Some p" "holders p' = holders p" "limit p' = limit p" for p p'
    using that by (intro hold_tables_pool) (simp add: pool_claims_def set_state_eq)
  moreover have "hold_tables (?st1\<lparr>shareds := (shareds ?st1)(?k \<mapsto> t')\<rparr>) = hold_tables ?st1"
    if "shareds st ?k = Some t" "writer t' = writer t" "readers t' = readers t" for t t'
    using that by (intro hold_tables_shared) (simp_all add: shared_writer_def shared_readers_def set_state_eq)
  ultimately show ?thesis
    by (simp add: unreserve_def Let_def set_state_eq split: wait_kind.split option.split)
qed

lemma session_close_holds: "hold_tables (session_close s st) = hold_tables st"
  by (simp add: session_close_def Let_def dispatch_holds unreserve_holds upd_session_def split: wait_state.split)

lemma waiting_holds:
  "hold_tables (snd (session_wait_for s aborted st)) = hold_tables st"
  "hold_tables (session_abort s p st) = hold_tables st"
  "hold_tables (snd (store_wait_for k aborted st)) = hold_tables st"
  "hold_tables (store_abort k p st) = hold_tables st"
  by (simp_all add: session_wait_for_def session_abort_def store_wait_for_def store_abort_def resolve_def
      upd_session_def Let_def split: option.split)

lemmas waiting_accounts =
  mutex_waiter_holds [THEN hold_tables_account] permits_waiter_holds [THEN hold_tables_account]
  shared_waiter_holds [THEN hold_tables_account] session_close_holds [THEN hold_tables_account]
  waiting_holds [THEN hold_tables_account]

section \<open>The store implements the account\<close>

lemma apply_event_account:
  assumes inv: "store_inv H st" and ok: "allowed e st"
  shows "held_account (snd (apply_event e st)) = spec_effect e (fst (apply_event e st)) (held_account st)"
proof (cases e)
  case (MutexAcquire k req)
  then show ?thesis using mutex_acquire_account [OF inv] ok by simp
next
  case (PermitsAcquire k req lim w)
  then show ?thesis using permits_acquire_account ok by simp
next
  case (SharedAcquire k req mode)
  then show ?thesis using shared_acquire_account [OF inv] ok by simp
next
  case (MutexRelease g)
  then show ?thesis using mutex_release_account ok by simp
next
  case (PermitsRelease g)
  then show ?thesis using permits_release_account ok by simp
next
  case (SharedRelease g)
  then show ?thesis using shared_release_account [OF inv] ok by simp
qed (simp_all add: waiting_accounts)

text \<open>In a well-formed store no two claims on a key exclude each other.\<close>

lemma held_weight_claims:
  "(\<Sum>h\<leftarrow>pool_claims (Some p). claim_weight (snd h)) = held_weight p"
  by (simp add: pool_claims_def held_weight_def comp_def split_def)

lemma store_inv_compatible:
  assumes "store_inv H st"
  shows "compatible (held_account st k)"
proof (cases "key_primitive k")
  case Mutex
  then show ?thesis by (auto simp: held_account_def exclusive_claim_def compatible_def split: option.split)
next
  case Semaphore
  show ?thesis
  proof (cases "pools st k")
    case None
    with Semaphore show ?thesis by (simp add: held_account_def pool_claims_def compatible_def)
  next
    case (Some p)
    from assms have "key_ok H st k" by (simp add: store_inv_def)
    with Some have acc: "pool_accounts p (\<lambda>s. s_weight (sessions st s)) (res (sessions st) k WPermits)"
      by (simp add: permits_key_ok [OF Semaphore] permits_ok_def)
    have "0 \<le> (\<Sum>s \<in> res (sessions st) k WPermits. s_weight (sessions st s))"
    proof (rule sum_nonneg)
      fix s assume "s \<in> res (sessions st) k WPermits"
      then have "s_state (sessions st s) \<noteq> Idle" by (simp add: session_sets)
      from weight_pos [OF _ this] assms show "0 \<le> s_weight (sessions st s)" by (simp add: store_inv_def)
    qed
    with acc have le: "held_weight p \<le> limit p" by (simp add: pool_accounts_def)
    have "map fst (pool_claims (Some p)) = map fst (holders p)" by (simp add: pool_claims_def split_def)
    with acc have "distinct (map fst (pool_claims (Some p)))" by (simp add: pool_accounts_def)
    moreover have "\<forall>(t, c) \<in> set (pool_claims (Some p)). \<exists>w. c = Permits w (limit p) \<and> 1 \<le> w"
      using acc by (force simp: pool_claims_def pool_accounts_def)
    ultimately have "compatible (pool_claims (Some p))"
      using le unfolding compatible_def held_weight_claims by fastforce
    with Semaphore Some show ?thesis by (simp add: held_account_def)
  qed
next
  case ReadWrite
  show ?thesis
  proof (cases "shareds st k")
    case None
    with ReadWrite show ?thesis
      by (simp add: held_account_def shared_writer_def shared_readers_def exclusive_claim_def reader_claims_def compatible_def)
  next
    case (Some t)
    from assms have "key_ok H st k" by (simp add: store_inv_def)
    with Some have "distinct (map fst (readers t))" "writer t \<noteq> None \<longrightarrow> readers t = []"
      by (auto simp: shared_key_ok [OF ReadWrite] shared_ok_Some shared_excl_def)
    then show ?thesis using Some ReadWrite
      by (auto simp: held_account_def shared_writer_def shared_readers_def exclusive_claim_def reader_claims_def
          compatible_def split_def comp_def split: option.split claim.split)
  qed
qed

section \<open>What callers observe\<close>

text \<open>A run of calls, and the account its answers add up to.\<close>

fun run :: "lock_event list \<Rightarrow> store \<Rightarrow> answer list \<times> store" where
  "run [] st = ([], st)"
| "run (e # es) st =
     (case apply_event e st of
        (out, st') \<Rightarrow> (case run es st' of (outs, st'') \<Rightarrow> (out # outs, st'')))"

fun valid_run :: "lock_event list \<Rightarrow> store \<Rightarrow> bool" where
  "valid_run [] st \<longleftrightarrow> True"
| "valid_run (e # es) st \<longleftrightarrow> allowed e st \<and> valid_run es (snd (apply_event e st))"

fun observed :: "lock_event list \<Rightarrow> answer list \<Rightarrow> account \<Rightarrow> account" where
  "observed (e # es) (out # outs) H = observed es outs (spec_effect e out H)"
| "observed _ _ H = H"

text \<open>The sessions a run opens with more permits than the pool they find can grant.\<close>

fun too_heavy :: "lock_event list \<Rightarrow> store \<Rightarrow> sid set" where
  "too_heavy [] st = {}"
| "too_heavy (e # es) st = overweight e st \<union> too_heavy es (snd (apply_event e st))"

lemma run_inv: "store_inv H st \<Longrightarrow> valid_run es st \<Longrightarrow> too_heavy es st \<subseteq> H \<Longrightarrow> store_inv H (snd (run es st))"
proof (induction es arbitrary: st)
  case (Cons e es)
  then show ?case using apply_event_inv [of H st e]
    by (auto split: prod.split simp: prod.case_eq_if)
qed simp

lemma run_observed:
  "store_inv UNIV st \<Longrightarrow> valid_run es st \<Longrightarrow>
     observed es (fst (run es st)) (held_account st) = held_account (snd (run es st))"
proof (induction es arbitrary: st)
  case (Cons e es)
  from Cons.prems have "store_inv UNIV (snd (apply_event e st))" "valid_run es (snd (apply_event e st))"
    using apply_event_inv [of UNIV st e] by simp_all
  from Cons.IH [OF this] show ?case
    using apply_event_account [of UNIV st e] Cons.prems by (simp add: prod.case_eq_if)
qed simp

end
