(* ===== verification/LockWatch.thy ===== *)
theory LockWatch
  imports LockSpec
begin

text \<open>
  The promises of \<open>waitFor(key, signal)\<close>: a key is watched only while something of it is in
  the tables, and no call takes a watcher off its key without resolving its promise.
\<close>

definition entry :: "store \<Rightarrow> lock_key \<Rightarrow> bool" where
  "entry st k \<longleftrightarrow> mutexes st k \<noteq> None \<or> pools st k \<noteq> None \<or> shareds st k \<noteq> None"

definition watched :: "store \<Rightarrow> lock_key \<Rightarrow> promise list" where
  "watched st k = (case watchers st k of None \<Rightarrow> [] | Some ps \<Rightarrow> ps)"

text \<open>What every call does for the watchers.\<close>

definition keeps_watch :: "store \<Rightarrow> store \<Rightarrow> bool" where
  "keeps_watch st st' \<longleftrightarrow>
     (\<forall>k. (watched st k = [] \<or> entry st k) \<longrightarrow> (watched st' k = [] \<or> entry st' k)) \<and>
     set (resolved st) \<subseteq> set (resolved st') \<and>
     (\<forall>k. set (watched st k) \<subseteq> set (watched st' k) \<union> set (resolved st'))"

lemma keeps_watch_refl [simp]: "keeps_watch st st"
  by (simp add: keeps_watch_def)

lemma keeps_watch_trans: "keeps_watch st st' \<Longrightarrow> keeps_watch st' st'' \<Longrightarrow> keeps_watch st st''"
  unfolding keeps_watch_def by blast

text \<open>Calls that leave the watchers and every table entry in place.\<close>

lemma keeps_watch_entries:
  assumes "watchers st' = watchers st" "\<And>k. entry st k \<Longrightarrow> entry st' k" "set (resolved st) \<subseteq> set (resolved st')"
  shows "keeps_watch st st'"
  using assms by (auto simp: keeps_watch_def watched_def)

lemma keeps_watch_sessions [simp]:
  "keeps_watch st (set_state s w st)" "keeps_watch st (join s st)" "keeps_watch st (leave s st)"
  "keeps_watch st (hand_to s st)" "keeps_watch st (wake_session s st)" "keeps_watch st (upd_session s f st)"
  "keeps_watch st (snd (new_session k kind weight st))"
  by (rule keeps_watch_entries; simp add: set_state_eq join_eq leave_eq hand_to_eq wake_session_eq
      new_session_eq upd_session_def entry_def Let_def)+

lemma keeps_watch_tables [simp]:
  "keeps_watch st (st\<lparr>mutexes := (mutexes st)(k \<mapsto> m)\<rparr>)"
  "keeps_watch st (st\<lparr>pools := (pools st)(k \<mapsto> p)\<rparr>)"
  "keeps_watch st (st\<lparr>shareds := (shareds st)(k \<mapsto> t)\<rparr>)"
  "keeps_watch st (st\<lparr>last_fence := f\<rparr>)"
  "keeps_watch st (st\<lparr>next_promise := q\<rparr>)"
  by (rule keeps_watch_entries; simp add: entry_def)+

text \<open>An entry goes, and the key's watchers with it.\<close>

lemma keeps_watch_freed:
  assumes "\<And>k'. k' \<noteq> k \<Longrightarrow> entry st k' \<Longrightarrow> entry st' k'" "watchers st' = watchers st" "resolved st' = resolved st"
  shows "keeps_watch st (wake_watchers k st')"
  using assms by (auto simp: keeps_watch_def watched_def wake_watchers_eq entry_def)

lemma dispatch_mutex_watch: "keeps_watch st (dispatch_mutex k st)"
proof -
  have "keeps_watch st (wake_watchers k (st\<lparr>mutexes := (mutexes st)(k := None)\<rparr>))"
    by (rule keeps_watch_freed) (auto simp: entry_def)
  moreover have "keeps_watch st (hand_to s (st\<lparr>mutexes := (mutexes st)(k \<mapsto> m)\<rparr>))" for s m
    by (rule keeps_watch_trans [OF keeps_watch_tables(1) keeps_watch_sessions(4)])
  ultimately show ?thesis by (simp add: dispatch_mutex_def Let_def split: option.split list.split)
qed

lemma permits_loop_watch: "permits_loop xs p st = (p', st') \<Longrightarrow> keeps_watch st st'"
proof (induction xs p st rule: permits_loop.induct)
  case (2 s ss p st)
  then show ?case by (auto simp: Let_def split: if_splits intro: keeps_watch_trans [OF keeps_watch_sessions(4)])
qed simp

lemma dispatch_permits_watch: "keeps_watch st (dispatch_permits k st)"
proof (cases "pools st k")
  case None
  then show ?thesis by (auto simp: dispatch_permits_def intro!: keeps_watch_freed)
next
  case (Some p)
  obtain p' st' where loop: "permits_loop (line_list (lines st) k) p st = (p', st')" by fastforce
  note w = permits_loop_watch [OF loop]
  have "keeps_watch st' (wake_watchers k (st'\<lparr>pools := (pools st')(k := None)\<rparr>))"
    by (rule keeps_watch_freed) (auto simp: entry_def)
  with Some loop w show ?thesis
    by (simp add: dispatch_permits_def) (blast intro: keeps_watch_trans keeps_watch_tables)
qed

lemma readers_loop_watch: "readers_loop xs t st = (t', st') \<Longrightarrow> keeps_watch st st'"
proof (induction xs t st rule: readers_loop.induct)
  case (2 s ss t st)
  then show ?case by (auto intro: keeps_watch_trans [OF keeps_watch_sessions(4)])
qed simp

lemma dispatch_shared_watch: "keeps_watch st (dispatch_shared k st)"
proof -
  have "keeps_watch st (wake_watchers k (st\<lparr>shareds := (shareds st)(k := None)\<rparr>))"
    by (rule keeps_watch_freed) (auto simp: entry_def)
  moreover have "keeps_watch st (hand_to s (st\<lparr>shareds := (shareds st)(k \<mapsto> t)\<rparr>))" for s t
    by (rule keeps_watch_trans [OF keeps_watch_tables(3) keeps_watch_sessions(4)])
  moreover have "keeps_watch st (case readers_loop xs t st of (t', st') \<Rightarrow> st'\<lparr>shareds := (shareds st')(k \<mapsto> t')\<rparr>)"
    for xs t
  proof -
    obtain t' st' where loop: "readers_loop xs t st = (t', st')" by fastforce
    from keeps_watch_trans [OF readers_loop_watch [OF this] keeps_watch_tables(3)] loop show ?thesis by simp
  qed
  ultimately show ?thesis
    by (simp add: dispatch_shared_def Let_def split: option.split list.split del: readers_loop.simps)
qed

lemma dispatch_watch: "keeps_watch st (dispatch s st)"
  by (simp add: dispatch_def dispatch_mutex_watch dispatch_permits_watch dispatch_shared_watch split: wait_kind.split)

section \<open>Every call\<close>

lemma queue_refused_watch: "keeps_watch st (snd (queue_refused req k kind w st))"
  by (simp add: queue_refused_def split: option.split)

lemma mutex_hold_watch: "keeps_watch st (snd (mutex_hold k req st))"
  by (rule keeps_watch_entries) (simp_all add: mutex_hold_def next_fence_eq entry_def)

lemma permits_hold_watch: "keeps_watch st (snd (permits_hold k req w p st))"
  by (rule keeps_watch_entries) (simp_all add: permits_hold_def next_fence_eq entry_def)

lemma shared_hold_watch: "keeps_watch st (snd (shared_hold k req mode t st))"
  by (rule keeps_watch_entries) (simp_all add: shared_hold_def next_fence_eq entry_def)

lemmas call_watch =
  queue_refused_watch mutex_hold_watch permits_hold_watch shared_hold_watch
  dispatch_mutex_watch dispatch_permits_watch dispatch_shared_watch dispatch_watch

lemma mutex_watch:
  "keeps_watch st (snd (mutex_acquire k req st))"
  "keeps_watch st (snd (mutex_release g st))"
  "keeps_watch st (snd (mutex_waiter k st))"
proof -
  have "keeps_watch st (snd (mutex_hold k req ((set_state s Idle st)\<lparr>mutexes := (mutexes st)(k \<mapsto> m)\<rparr>)))" for s m
    using keeps_watch_trans [OF keeps_watch_trans [OF keeps_watch_sessions(1) keeps_watch_tables(1)] mutex_hold_watch]
    by (metis set_state_eq store.select_convs(1) store.surjective store.update_convs(8))
  then show "keeps_watch st (snd (mutex_acquire k req st))"
    by (simp add: mutex_acquire_def call_watch Let_def set_state_eq split: option.split)
  show "keeps_watch st (snd (mutex_release g st))"
    by (auto simp: mutex_release_def split: option.split
        intro!: keeps_watch_trans [OF keeps_watch_tables(1) dispatch_mutex_watch])
  show "keeps_watch st (snd (mutex_waiter k st))"
    by (rule keeps_watch_entries)
      (auto simp: mutex_waiter_def new_session_eq set_state_eq join_eq Let_def entry_def split: option.split)
qed

lemma permits_watch:
  "keeps_watch st (snd (permits_acquire k req lim w st))"
  "keeps_watch st (snd (permits_release g st))"
  "keeps_watch st (snd (permits_waiter k w st))"
proof -
  have "keeps_watch st (snd (permits_hold k req w p (set_state s Idle st)))" for s p
    by (rule keeps_watch_trans [OF keeps_watch_sessions(1) permits_hold_watch])
  then show "keeps_watch st (snd (permits_acquire k req lim w st))"
    by (simp add: permits_acquire_def call_watch Let_def split: option.split)
  show "keeps_watch st (snd (permits_release g st))"
    by (auto simp: permits_release_def split: option.split
        intro!: keeps_watch_trans [OF keeps_watch_tables(2) dispatch_permits_watch])
  show "keeps_watch st (snd (permits_waiter k w st))"
    by (rule keeps_watch_entries)
      (auto simp: permits_waiter_def new_session_eq set_state_eq join_eq Let_def entry_def split: option.split)
qed

lemma shared_watch:
  "keeps_watch st (snd (shared_acquire k req mode st))"
  "keeps_watch st (snd (shared_release g st))"
  "keeps_watch st (snd (shared_waiter k mode st))"
proof -
  have "keeps_watch st (snd (shared_hold k req mode t (set_state s Idle st)))" for s t
    by (rule keeps_watch_trans [OF keeps_watch_sessions(1) shared_hold_watch])
  then show "keeps_watch st (snd (shared_acquire k req mode st))"
    by (simp add: shared_acquire_def call_watch Let_def split: option.split)
  show "keeps_watch st (snd (shared_release g st))"
    by (auto simp: shared_release_def split: option.split
        intro!: keeps_watch_trans [OF keeps_watch_tables(3) dispatch_shared_watch])
  show "keeps_watch st (snd (shared_waiter k mode st))"
    by (rule keeps_watch_entries)
      (auto simp: shared_waiter_def new_session_eq set_state_eq join_eq Let_def entry_def split: option.split)
qed

lemma unreserve_watch: "keeps_watch st (unreserve s st)"
  by (rule keeps_watch_entries)
    (auto simp: unreserve_def Let_def set_state_eq entry_def split: wait_kind.split option.split)

lemma session_close_watch: "keeps_watch st (session_close s st)"
proof -
  let ?st1 = "wake_session s (upd_session s (\<lambda>x. x\<lparr>s_closed := True\<rparr>) st)"
  have st1: "keeps_watch st ?st1" by (rule keeps_watch_trans [OF keeps_watch_sessions(6) keeps_watch_sessions(5)])
  note q = keeps_watch_trans [OF st1 keeps_watch_trans [OF keeps_watch_sessions(3) dispatch_watch]]
  note r = keeps_watch_trans [OF st1 keeps_watch_trans [OF unreserve_watch dispatch_watch]]
  show ?thesis using st1 q r by (simp add: session_close_def Let_def split: wait_state.split)
qed

lemma promise_watch:
  "keeps_watch st (snd (session_wait_for s aborted st))"
  "keeps_watch st (session_abort s p st)"
  by (rule keeps_watch_entries;
      simp add: session_wait_for_def session_abort_def resolve_def upd_session_def Let_def entry_def; blast)+

lemma is_free_entry: "\<not> is_free k st \<Longrightarrow> entry st k"
  by (auto simp: is_free_def entry_def split: option.splits if_splits)

lemma store_watch:
  "keeps_watch st (snd (store_wait_for k aborted st))"
  "keeps_watch st (store_abort k p st)"
proof -
  show "keeps_watch st (snd (store_wait_for k aborted st))"
    using is_free_entry [of k st]
    by (auto simp: store_wait_for_def Let_def resolve_def keeps_watch_def watched_def entry_def split: option.split)
  have "set ps \<subseteq> insert p (set (remove1 p ps))" for ps :: "promise list"
    by (induction ps) auto
  moreover from this have "set ps \<subseteq> {p}" if "remove1 p ps = []" for ps :: "promise list"
    using that by (metis list.set(1))
  ultimately show "keeps_watch st (store_abort k p st)"
    by (fastforce simp: store_abort_def resolve_def keeps_watch_def watched_def entry_def line_map_def split: option.splits)
qed

lemma apply_event_watch: "keeps_watch st (snd (apply_event e st))"
  by (cases e) (simp_all add: mutex_watch permits_watch shared_watch session_close_watch promise_watch store_watch)

lemma reachable_watched: "reachable st \<Longrightarrow> watched st k = [] \<or> entry st k"
proof (induction arbitrary: k rule: reachable.induct)
  case reachable_empty
  then show ?case by (simp add: empty_store_def watched_def)
next
  case (reachable_step st e out st')
  then show ?case using apply_event_watch [of st e] by (auto simp: lock_step_iff keeps_watch_def)
qed

section \<open>Keys of different primitives are never mixed\<close>

definition tables_fit :: "store \<Rightarrow> bool" where
  "tables_fit st \<longleftrightarrow>
     (\<forall>k. (mutexes st k \<noteq> None \<longrightarrow> key_primitive k = Mutex) \<and> (pools st k \<noteq> None \<longrightarrow> key_primitive k = Semaphore) \<and>
          (shareds st k \<noteq> None \<longrightarrow> key_primitive k = ReadWrite))"

lemma tables_fit_frame [simp]:
  "tables_fit (st\<lparr>lines := l\<rparr>) = tables_fit st" "tables_fit (st\<lparr>reader_lines := l\<rparr>) = tables_fit st"
  "tables_fit (st\<lparr>watchers := w\<rparr>) = tables_fit st" "tables_fit (st\<lparr>sessions := ss\<rparr>) = tables_fit st"
  "tables_fit (st\<lparr>next_sid := n\<rparr>) = tables_fit st" "tables_fit (st\<lparr>resolved := r\<rparr>) = tables_fit st"
  "tables_fit (st\<lparr>next_promise := q\<rparr>) = tables_fit st" "tables_fit (st\<lparr>last_fence := f\<rparr>) = tables_fit st"
  by (simp_all add: tables_fit_def)

lemma tables_fit_sessions [simp]:
  "tables_fit (set_state s w st) = tables_fit st" "tables_fit (join s st) = tables_fit st"
  "tables_fit (leave s st) = tables_fit st" "tables_fit (hand_to s st) = tables_fit st"
  "tables_fit (wake_watchers k st) = tables_fit st" "tables_fit (wake_session s st) = tables_fit st"
  "tables_fit (upd_session s f st) = tables_fit st" "tables_fit (resolve q st) = tables_fit st"
  by (simp_all add: set_state_eq join_eq leave_eq hand_to_eq wake_watchers_eq wake_session_eq upd_session_def
      resolve_def Let_def)

lemma tables_fit_upd [simp]:
  "tables_fit st \<Longrightarrow> tables_fit st' \<Longrightarrow> key_primitive k = Mutex \<Longrightarrow> tables_fit (st\<lparr>mutexes := (mutexes st')(k := m)\<rparr>)"
  "tables_fit st \<Longrightarrow> tables_fit st' \<Longrightarrow> key_primitive k = Semaphore \<Longrightarrow> tables_fit (st\<lparr>pools := (pools st')(k := p)\<rparr>)"
  "tables_fit st \<Longrightarrow> tables_fit st' \<Longrightarrow> key_primitive k = ReadWrite \<Longrightarrow> tables_fit (st\<lparr>shareds := (shareds st')(k := t)\<rparr>)"
  by (simp_all add: tables_fit_def)

lemma permits_loop_fit: "permits_loop xs p st = (p', st') \<Longrightarrow> tables_fit st' = tables_fit st"
proof (induction xs p st rule: permits_loop.induct)
  case (2 s ss p st)
  then show ?case by (auto simp: Let_def split: if_splits)
qed simp

lemma readers_loop_fit: "readers_loop xs t st = (t', st') \<Longrightarrow> tables_fit st' = tables_fit st"
  by (induction xs t st rule: readers_loop.induct) auto

lemmas loops_fit = permits_loop_fit readers_loop_fit

lemma dispatch_fit:
  assumes "tables_fit st"
  shows "key_primitive k = Mutex \<Longrightarrow> tables_fit (dispatch_mutex k st)"
    and "key_primitive k = Semaphore \<Longrightarrow> tables_fit (dispatch_permits k st)"
    and "key_primitive k = ReadWrite \<Longrightarrow> tables_fit (dispatch_shared k st)"
proof -
  show "key_primitive k = Mutex \<Longrightarrow> tables_fit (dispatch_mutex k st)"
    using assms by (simp add: dispatch_mutex_def Let_def split: option.split list.split)
  show "key_primitive k = Semaphore \<Longrightarrow> tables_fit (dispatch_permits k st)"
    using assms loops_fit(1) by (auto simp: dispatch_permits_def split: option.split prod.split)
  show "key_primitive k = ReadWrite \<Longrightarrow> tables_fit (dispatch_shared k st)"
    using assms loops_fit(2)
    by (auto simp: dispatch_shared_def Let_def split: option.split list.split prod.split simp del: readers_loop.simps)
qed

lemma holds_fit:
  assumes "tables_fit st"
  shows "key_primitive k = Mutex \<Longrightarrow> tables_fit (snd (mutex_hold k req st))"
    and "key_primitive k = Semaphore \<Longrightarrow> tables_fit (snd (permits_hold k req w p st))"
    and "key_primitive k = ReadWrite \<Longrightarrow> tables_fit (snd (shared_hold k req mode t st))"
  using assms by (simp_all add: tables_fit_def mutex_hold_def permits_hold_def shared_hold_def next_fence_eq)

lemma queue_refused_fit [simp]: "tables_fit (snd (queue_refused req k kind w st)) = tables_fit st"
  by (simp add: queue_refused_def split: option.split)

lemma acquire_fit:
  assumes "tables_fit st"
  shows "key_primitive k = Mutex \<Longrightarrow> tables_fit (snd (mutex_acquire k req st))"
    and "key_primitive k = Semaphore \<Longrightarrow> tables_fit (snd (permits_acquire k req lim w st))"
    and "key_primitive k = ReadWrite \<Longrightarrow> tables_fit (snd (shared_acquire k req mode st))"
  using assms
  by (simp_all add: mutex_acquire_def permits_acquire_def shared_acquire_def holds_fit set_state_eq Let_def
      split: option.split)

lemma release_fit:
  assumes "tables_fit st"
  shows "key_primitive (g_key g) = Mutex \<Longrightarrow> tables_fit (snd (mutex_release g st))"
    and "key_primitive (g_key g) = Semaphore \<Longrightarrow> tables_fit (snd (permits_release g st))"
    and "key_primitive (g_key g) = ReadWrite \<Longrightarrow> tables_fit (snd (shared_release g st))"
  using assms
  by (simp_all add: mutex_release_def permits_release_def shared_release_def dispatch_fit split: option.split)

lemma waiter_fit:
  assumes "tables_fit st"
  shows "key_primitive k = Mutex \<Longrightarrow> tables_fit (snd (mutex_waiter k st))"
    and "key_primitive k = Semaphore \<Longrightarrow> tables_fit (snd (permits_waiter k w st))"
    and "key_primitive k = ReadWrite \<Longrightarrow> tables_fit (snd (shared_waiter k mode st))"
  using assms
  by (simp_all add: mutex_waiter_def permits_waiter_def shared_waiter_def new_session_eq tables_fit_def
      set_state_eq join_eq Let_def split: option.split)

lemma session_close_fit:
  assumes fit: "tables_fit st" and inv: "store_inv H st"
  shows "tables_fit (session_close s st)"
proof (cases "s_closed (sessions st s) \<or> s_state (sessions st s) = Idle")
  case True
  with fit show ?thesis by (auto simp: session_close_def)
next
  case False
  then have busy: "\<not> s_closed (sessions st s)" "s_state (sessions st s) \<noteq> Idle" by auto
  from inv have wf: "wf_sessions (sessions st) (next_sid st)" by (simp add: store_inv_def lines_ok_def)
  from queued_wf(1) [OF wf busy(2)] wf
  have fits: "kind_fits (key_primitive (s_full (sessions st s))) (s_kind (sessions st s))"
    by (simp add: wf_sessions_def)
  have dispatch: "tables_fit (dispatch s st')"
    if "tables_fit st'" "s_kind (sessions st' s) = s_kind (sessions st s)" "s_full (sessions st' s) = s_full (sessions st s)" for st'
    using that fits by (cases "key_primitive (s_full (sessions st s))") (auto simp: dispatch_def dispatch_fit)
  let ?st1 = "wake_session s (upd_session s (\<lambda>x. x\<lparr>s_closed := True\<rparr>) st)"
  have st1: "s_kind (sessions ?st1 s) = s_kind (sessions st s)" "s_full (sessions ?st1 s) = s_full (sessions st s)"
    by (simp_all add: wake_session_eq upd_session_def)
  have "tables_fit (unreserve s ?st1)"
    using fit fits st1
    by (cases "key_primitive (s_full (sessions st s))")
      (auto simp: unreserve_def Let_def set_state_eq split: option.split)
  moreover have "s_kind (sessions (unreserve s ?st1) s) = s_kind (sessions st s)"
      "s_full (sessions (unreserve s ?st1) s) = s_full (sessions st s)"
    using st1 by (simp_all add: unreserve_def Let_def set_state_eq split: wait_kind.split option.split)
  moreover have "s_kind (sessions (leave s ?st1) s) = s_kind (sessions st s)"
      "s_full (sessions (leave s ?st1) s) = s_full (sessions st s)"
    using st1 by (simp_all add: leave_eq Let_def)
  ultimately show ?thesis
    using fit busy by (auto simp: session_close_def Let_def intro!: dispatch split: wait_state.split)
qed

lemma waiting_fit:
  assumes "tables_fit st"
  shows "tables_fit (snd (session_wait_for s aborted st))" "tables_fit (session_abort s p st)"
    "tables_fit (snd (store_wait_for k aborted st))" "tables_fit (store_abort k p st)"
  using assms
  by (simp_all add: session_wait_for_def session_abort_def store_wait_for_def store_abort_def Let_def
      split: option.split)

lemma apply_event_fit:
  assumes "tables_fit st" "store_inv H st" "allowed e st"
  shows "tables_fit (snd (apply_event e st))"
  using assms
  by (cases e) (simp_all add: acquire_fit release_fit waiter_fit session_close_fit waiting_fit)

lemma reachable_fit: "reachable st \<Longrightarrow> tables_fit st"
proof (induction rule: reachable.induct)
  case reachable_empty
  show ?case by (simp add: tables_fit_def empty_store_def)
next
  case (reachable_step st e out st')
  then show ?case
    using apply_event_fit [of st UNIV e] reachable_inv [OF reachable_step.hyps(1)] by (simp add: lock_step_iff)
qed

end
