(* ===== verification/LockProps.thy ===== *)
theory LockProps
  imports LockWatch
begin

text \<open>
  What the in-process store guarantees its callers in every reachable state: the account of
  holds, mutual exclusion, fences, hand-over in line order, no forgotten waiter, writer
  preference, waiters that leave no trace, and the contract every kind of lock gives \<open>locks.ts\<close>.
\<close>

section \<open>The contract of one kind of lock\<close>

text \<open>
  What \<open>acquire\<close> and \<open>release\<close> of a \<open>MutexOps\<close>, \<open>PermitOps\<close> or \<open>SharedOps\<close> promise the lock
  manager, which never looks inside the store.
\<close>

definition holds_key :: "store \<Rightarrow> lock_key \<Rightarrow> token \<Rightarrow> bool" where
  "holds_key st k tok \<longleftrightarrow> tok \<in> fst ` set (held_account st k)"

lemma delete_snoc_fresh: "k \<notin> fst ` set xs \<Longrightarrow> AList.delete k (xs @ [(k, v)]) = xs"
  by (induction xs) auto

locale lock_ops =
  fixes prim :: primitive
    and acquire :: "lock_key \<Rightarrow> acquire_request \<Rightarrow> store \<Rightarrow> acquire_result \<times> store"
    and release :: "grant \<Rightarrow> store \<Rightarrow> release_outcome \<times> store"
  assumes acquire_keeps: "store_inv H st \<Longrightarrow> key_primitive k = prim \<Longrightarrow> \<not> holds_key st k (token req) \<Longrightarrow>
      store_inv H (snd (acquire k req st))"
    and acquire_grants: "store_inv H st \<Longrightarrow> key_primitive k = prim \<Longrightarrow> \<not> holds_key st k (token req) \<Longrightarrow>
      acquire k req st = (Granted g, st') \<Longrightarrow> g_key g = k \<and> g_token g = token req \<and> holds_key st' k (token req)"
    and acquire_refuses: "store_inv H st \<Longrightarrow> key_primitive k = prim \<Longrightarrow> \<not> holds_key st k (token req) \<Longrightarrow>
      acquire k req st = (r, st') \<Longrightarrow> \<forall>g. r \<noteq> Granted g \<Longrightarrow> held_account st' = held_account st"
    and release_keeps: "store_inv H st \<Longrightarrow> key_primitive (g_key g) = prim \<Longrightarrow> store_inv H (snd (release g st))"
    and release_held: "store_inv H st \<Longrightarrow> key_primitive (g_key g) = prim \<Longrightarrow> holds_key st (g_key g) (g_token g) \<Longrightarrow>
      fst (release g st) = Released \<and>
      held_account (snd (release g st)) =
        (held_account st)(g_key g := AList.delete (g_token g) (held_account st (g_key g)))"
    and release_not_held: "store_inv H st \<Longrightarrow> key_primitive (g_key g) = prim \<Longrightarrow>
      \<not> holds_key st (g_key g) (g_token g) \<Longrightarrow> release g st = (NotOwner, st)"
begin

text \<open>A hold is released once; every later release of the same grant changes nothing.\<close>

lemma release_twice:
  assumes inv: "store_inv H st" and prim: "key_primitive (g_key g) = prim" and held: "holds_key st (g_key g) (g_token g)"
  shows "release g (snd (release g st)) = (NotOwner, snd (release g st))"
proof (rule release_not_held [OF release_keeps [OF inv prim] prim])
  show "\<not> holds_key (snd (release g st)) (g_key g) (g_token g)"
    using release_held [OF inv prim held] delete_notin_dom [of "g_token g"] by (simp add: holds_key_def)
qed

text \<open>Taking a lock and giving it back leaves the account as it was.\<close>

lemma acquire_then_release:
  assumes inv: "store_inv H st" and prim: "key_primitive k = prim" and fresh: "\<not> holds_key st k (token req)"
    and got: "acquire k req st = (Granted g, st')"
    and account: "held_account st' = (held_account st)(k := held_account st k @ [(token req, c)])"
  shows "fst (release g st') = Released" and "held_account (snd (release g st')) = held_account st"
proof -
  from acquire_grants [OF inv prim fresh got] have g: "g_key g = k" "g_token g = token req" "holds_key st' k (token req)"
    by auto
  have inv': "store_inv H st'" using acquire_keeps [OF inv prim fresh] got by simp
  note r = release_held [OF inv', of g, unfolded g(1,2), OF prim g(3)]
  from r show "fst (release g st') = Released" by simp
  have "AList.delete (token req) (held_account st k @ [(token req, c)]) = held_account st k"
    using fresh by (intro delete_snoc_fresh) (simp add: holds_key_def)
  then show "held_account (snd (release g st')) = held_account st"
    using r account by (simp add: fun_upd_idem)
qed

end

section \<open>The three kinds give it\<close>

lemma spec_granted:
  assumes "held_account st' = spec_effect e (Acquired r) (held_account st)" "\<forall>g. r \<noteq> Granted g"
  shows "held_account st' = held_account st"
  using assms by (cases r) (cases e; simp)+

lemma mutex_acquire_key:
  "fst (mutex_acquire k req st) = Granted g \<Longrightarrow> g_key g = k \<and> g_token g = token req"
  by (auto simp: mutex_acquire_def mutex_hold_def next_fence_eq queue_refused_def Let_def split: option.splits if_splits)

lemma permits_acquire_key:
  "fst (permits_acquire k req lim w st) = Granted g \<Longrightarrow> g_key g = k \<and> g_token g = token req"
  by (auto simp: permits_acquire_def permits_hold_def next_fence_eq queue_refused_def Let_def
      split: option.splits if_splits)

lemma shared_acquire_key:
  "fst (shared_acquire k req mode st) = Granted g \<Longrightarrow> g_key g = k \<and> g_token g = token req"
  by (auto simp: shared_acquire_def shared_hold_def next_fence_eq queue_refused_def Let_def
      split: option.splits if_splits)

lemma holds_key_tables:
  "key_primitive k = Mutex \<Longrightarrow> holds_key st k tok \<longleftrightarrow> (\<exists>h. mutex_holder k st = Some h \<and> owner h = tok)"
  "key_primitive k = Semaphore \<Longrightarrow> holds_key st k tok \<longleftrightarrow> tok \<in> fst ` set (pool_holders k st)"
  "key_primitive k = ReadWrite \<Longrightarrow> holds_key st k tok \<longleftrightarrow>
     (\<exists>h. shared_writer k st = Some h \<and> owner h = tok) \<or> tok \<in> fst ` set (shared_readers k st)"
  by (force simp: holds_key_def held_account_def exclusive_claim_def pool_claims_def pool_holders_def reader_claims_def
      split: option.splits)+

lemma granted_holds:
  assumes "held_account st' = spec_effect e (Acquired (Granted g)) (held_account st)" "g_key g = k"
  shows "holds_key st' k (g_token g)"
  using assms by (cases e) (auto simp: holds_key_def)

interpretation mutex_ops: lock_ops Mutex mutex_acquire mutex_release
proof unfold_locales
  fix H st k and req :: acquire_request
  assume inv: "store_inv H st" and prim: "key_primitive k = Mutex"
  note acc = mutex_acquire_account [OF inv prim]
  show "store_inv H (snd (mutex_acquire k req st))" by (rule mutex_acquire_inv [OF inv prim])
  show "g_key g = k \<and> g_token g = token req \<and> holds_key st' k (token req)"
    if "mutex_acquire k req st = (Granted g, st')" for g st'
    using mutex_acquire_key [of k req st g] granted_holds [of st' "MutexAcquire k req" g st k] acc [of req] that by simp
  show "held_account st' = held_account st"
    if "mutex_acquire k req st = (r, st')" "\<forall>g. r \<noteq> Granted g" for r st'
    using acc [of req] that by (intro spec_granted [of st' "MutexAcquire k req" r]) simp_all
next
  fix H st and g :: grant
  assume inv: "store_inv H st" and prim: "key_primitive (g_key g) = Mutex"
  note acc = mutex_release_account [OF prim, of st]
  show "store_inv H (snd (mutex_release g st))" by (rule mutex_release_inv [OF inv prim])
  show "fst (mutex_release g st) = Released \<and> held_account (snd (mutex_release g st)) =
      (held_account st)(g_key g := AList.delete (g_token g) (held_account st (g_key g)))"
    if "holds_key st (g_key g) (g_token g)"
  proof -
    have "fst (mutex_release g st) = Released"
      using that by (auto simp: holds_key_tables(1) [OF prim] mutex_release_def mutex_holder_def split: option.splits)
    with acc show ?thesis by simp
  qed
  show "mutex_release g st = (NotOwner, st)" if "\<not> holds_key st (g_key g) (g_token g)"
    using that by (auto simp: holds_key_tables(1) [OF prim] mutex_release_def mutex_holder_def split: option.splits)
qed

interpretation permit_ops: lock_ops Semaphore "\<lambda>k req. permits_acquire k req lim w" permits_release
  for lim w
proof unfold_locales
  fix H st k and req :: acquire_request
  assume inv: "store_inv H st" and prim: "key_primitive k = Semaphore" and "\<not> holds_key st k (token req)"
  then have fresh: "token req \<notin> fst ` set (pool_holders k st)" by (simp add: holds_key_tables(2) [OF prim])
  note acc = permits_acquire_account [OF prim fresh]
  show "store_inv H (snd (permits_acquire k req lim w st))"
    by (rule permits_acquire_inv [OF inv prim]) (use fresh in \<open>simp add: pool_holders_def\<close>)
  show "g_key g = k \<and> g_token g = token req \<and> holds_key st' k (token req)"
    if "permits_acquire k req lim w st = (Granted g, st')" for g st'
    using permits_acquire_key [of k req lim w st g] granted_holds [of st' "PermitsAcquire k req lim w" g st k]
      acc [of lim w] that by simp
  show "held_account st' = held_account st"
    if "permits_acquire k req lim w st = (r, st')" "\<forall>g. r \<noteq> Granted g" for r st'
    using acc [of lim w] that by (intro spec_granted [of st' "PermitsAcquire k req lim w" r]) simp_all
next
  fix H st and g :: grant
  assume inv: "store_inv H st" and prim: "key_primitive (g_key g) = Semaphore"
  note acc = permits_release_account [OF prim, of st]
  show "store_inv H (snd (permits_release g st))" by (rule permits_release_inv [OF inv prim])
  show "fst (permits_release g st) = Released \<and> held_account (snd (permits_release g st)) =
      (held_account st)(g_key g := AList.delete (g_token g) (held_account st (g_key g)))"
    if "holds_key st (g_key g) (g_token g)"
  proof -
    have "fst (permits_release g st) = Released"
      using that by (cases "pools st (g_key g)")
        (auto simp: holds_key_tables(2) [OF prim] permits_release_def pool_holders_def map_of_eq_None_iff
          split: option.splits)
    with acc show ?thesis by simp
  qed
  show "permits_release g st = (NotOwner, st)" if no: "\<not> holds_key st (g_key g) (g_token g)"
  proof (cases "pools st (g_key g)")
    case None
    then show ?thesis by (simp add: permits_release_def)
  next
    case (Some p)
    with no have "map_of (holders p) (g_token g) = None"
      by (simp add: holds_key_tables(2) [OF prim] pool_holders_def map_of_eq_None_iff)
    with Some show ?thesis by (simp add: permits_release_def)
  qed
qed

interpretation shared_ops: lock_ops ReadWrite "\<lambda>k req. shared_acquire k req mode" shared_release
  for mode
proof unfold_locales
  fix H st k and req :: acquire_request
  assume inv: "store_inv H st" and prim: "key_primitive k = ReadWrite" and "\<not> holds_key st k (token req)"
  then have fresh: "token req \<notin> fst ` set (shared_readers k st)" by (simp add: holds_key_tables(3) [OF prim])
  note acc = shared_acquire_account [OF inv prim fresh]
  show "store_inv H (snd (shared_acquire k req mode st))"
    by (rule shared_acquire_inv [OF inv prim]) (use fresh in \<open>simp add: shared_readers_def\<close>)
  show "g_key g = k \<and> g_token g = token req \<and> holds_key st' k (token req)"
    if "shared_acquire k req mode st = (Granted g, st')" for g st'
    using shared_acquire_key [of k req mode st g] granted_holds [of st' "SharedAcquire k req mode" g st k]
      acc [of mode] that by simp
  show "held_account st' = held_account st"
    if "shared_acquire k req mode st = (r, st')" "\<forall>g. r \<noteq> Granted g" for r st'
    using acc [of mode] that by (intro spec_granted [of st' "SharedAcquire k req mode" r]) simp_all
next
  fix H st and g :: grant
  assume inv: "store_inv H st" and prim: "key_primitive (g_key g) = ReadWrite"
  note acc = shared_release_account [OF inv prim]
  show "store_inv H (snd (shared_release g st))" by (rule shared_release_inv [OF inv prim])
  show "fst (shared_release g st) = Released \<and> held_account (snd (shared_release g st)) =
      (held_account st)(g_key g := AList.delete (g_token g) (held_account st (g_key g)))"
    if "holds_key st (g_key g) (g_token g)"
  proof -
    have "fst (shared_release g st) = Released"
      using that by (auto simp: holds_key_tables(3) [OF prim] shared_release_def shared_writer_def shared_readers_def
          split: option.splits)
    with acc show ?thesis by simp
  qed
  show "shared_release g st = (NotOwner, st)" if "\<not> holds_key st (g_key g) (g_token g)"
    using that by (auto simp: holds_key_tables(3) [OF prim] shared_release_def shared_writer_def shared_readers_def
        split: option.splits)
qed

section \<open>The store implements the account of holds\<close>

text \<open>A sample run: a mutex taken, a second caller queued, the lock handed over and taken.\<close>

definition sample_mutex :: lock_key where
  "sample_mutex = js ''1:1:a:1:b''"

definition sample_pool :: lock_key where
  "sample_pool = js ''1s:1:a:1:b''"

definition sample_shared :: lock_key where
  "sample_shared = js ''1rw:1:a:1:b''"

definition sample_run :: "lock_event list" where
  "sample_run =
     [MutexAcquire sample_mutex \<lparr>token = 1, waiter = None\<rparr>,
      MutexWaiter sample_mutex,
      SessionWait 0 False,
      MutexAcquire sample_mutex \<lparr>token = 2, waiter = Some 0\<rparr>,
      MutexRelease \<lparr>g_key = sample_mutex, g_token = 1, g_fence = 1\<rparr>,
      MutexAcquire sample_mutex \<lparr>token = 3, waiter = None\<rparr>,
      MutexAcquire sample_mutex \<lparr>token = 4, waiter = Some 0\<rparr>]"

lemma sample_primitives:
  "key_primitive sample_mutex = Mutex" "key_primitive sample_pool = Semaphore" "key_primitive sample_shared = ReadWrite"
  by code_simp+

lemma reachable_run: "reachable st \<Longrightarrow> valid_run es st \<Longrightarrow> reachable (snd (run es st))"
proof (induction es arbitrary: st)
  case (Cons e es)
  obtain out st' where e: "apply_event e st = (out, st')" by fastforce
  with Cons.prems have "reachable st'"
    by (intro reachable_step [OF Cons.prems(1)]) (auto intro: lock_stepI)
  with Cons.IH [OF this] Cons.prems(2) e show ?case by (simp add: prod.case_eq_if)
qed simp

lemma sample_valid: "valid_run sample_run empty_store"
  by code_simp

text \<open>
  C1: Every call to the in-process store does to the callers' holds exactly what its answer
  says: a grant adds one claim, \<open>released\<close> removes one, everything else (refusals, waiters,
  waits, watchers, hand-overs) leaves all holds alone; and the claims on a key stay
  compatible (one exclusive hold, or readers only, or permits within the limit).
\<close>

theorem calls_implement_account:
  assumes "reachable st" "lock_step st e out st'"
  shows "held_account st' = spec_effect e out (held_account st) \<and> compatible (held_account st' k)"
proof -
  from assms(2) have e: "allowed e st" "apply_event e st = (out, st')" by (auto simp: lock_step_iff)
  note inv = reachable_inv [OF assms(1)]
  show ?thesis
    using apply_event_account [OF inv e(1)] store_inv_compatible [OF lock_step_inv [OF inv assms(2)]] e(2) by simp
qed

text \<open>A reachable sample state and the last call of a longer run.\<close>

definition sample_store :: "lock_event list \<Rightarrow> store" where
  "sample_store es = snd (run es empty_store)"

lemma sample_reachable: "valid_run es empty_store \<Longrightarrow> reachable (sample_store es)"
  unfolding sample_store_def by (rule reachable_run [OF reachable_empty])

lemma step_apply: "allowed e st \<Longrightarrow> lock_step st e (fst (apply_event e st)) (snd (apply_event e st))"
  by (simp add: lock_step_iff)

lemma calls_implement_account_witness:
  "held_account (snd (apply_event (MutexRelease \<lparr>g_key = sample_mutex, g_token = 4, g_fence = 2\<rparr>)
      (sample_store sample_run))) sample_mutex = []"
proof -
  let ?e = "MutexRelease \<lparr>g_key = sample_mutex, g_token = 4, g_fence = 2\<rparr>" and ?st = "sample_store sample_run"
  have ok: "allowed ?e ?st" by (simp add: sample_primitives)
  have "fst (apply_event ?e ?st) = Answered Released" "held_account ?st sample_mutex = [(4, Exclusive)]"
    by code_simp+
  with calls_implement_account [OF sample_reachable [OF sample_valid] step_apply [OF ok]] show ?thesis by simp
qed

text \<open>
  C5: Seen from the callers alone: however calls interleave, the holds that were granted and
  not yet released never exclude each other. A mutex is never held twice, a writer never
  beside a reader or another writer, and the permits held together never pass the limit.
\<close>

theorem runs_never_overlap:
  assumes "valid_run es empty_store"
  shows "compatible (observed es (fst (run es empty_store)) (\<lambda>_. []) k)"
proof -
  have "held_account empty_store = (\<lambda>_. [])"
    by (rule ext) (simp add: held_account_def empty_store_def mutex_holder_def shared_writer_def shared_readers_def
        exclusive_claim_def pool_claims_def reader_claims_def split: primitive.split)
  then show ?thesis
    using run_observed [OF store_inv_empty assms] store_inv_compatible [OF run_inv [OF store_inv_empty assms subset_UNIV]] by metis
qed

lemma runs_never_overlap_witness:
  "compatible (observed sample_run (fst (run sample_run empty_store)) (\<lambda>_. []) sample_mutex) \<and>
   observed sample_run (fst (run sample_run empty_store)) (\<lambda>_. []) sample_mutex = [(4, Exclusive)]"
proof
  show "compatible (observed sample_run (fst (run sample_run empty_store)) (\<lambda>_. []) sample_mutex)"
    by (rule runs_never_overlap [OF sample_valid])
  show "observed sample_run (fst (run sample_run empty_store)) (\<lambda>_. []) sample_mutex = [(4, Exclusive)]"
    by code_simp
qed

section \<open>Fences\<close>

fun grant_fence :: "answer \<Rightarrow> fence list" where
  "grant_fence (Acquired (Granted g)) = [g_fence g]"
| "grant_fence _ = []"

lemma dispatch_fence:
  "last_fence (dispatch_mutex k st) = last_fence st" "last_fence (dispatch_permits k st) = last_fence st"
  "last_fence (dispatch_shared k st) = last_fence st" "last_fence (session_close s st) = last_fence st"
  "last_fence (snd (mutex_waiter k st)) = last_fence st" "last_fence (snd (permits_waiter k w st)) = last_fence st"
  "last_fence (snd (shared_waiter k mode st)) = last_fence st"
  using dispatch_mutex_holds [of k st] dispatch_permits_holds [of k st] dispatch_shared_holds [of k st]
    session_close_holds [of s st] mutex_waiter_holds [of k st] permits_waiter_holds [of k w st]
    shared_waiter_holds [of k mode st]
  by (simp_all add: hold_tables_def)

lemma waiting_fence:
  "last_fence (snd (session_wait_for s aborted st)) = last_fence st" "last_fence (session_abort s p st) = last_fence st"
  "last_fence (snd (store_wait_for k aborted st)) = last_fence st" "last_fence (store_abort k p st) = last_fence st"
  using waiting_holds(1) [of s aborted st] waiting_holds(2) [of s p st] waiting_holds(3) [of k aborted st]
    waiting_holds(4) [of k p st]
  by (simp_all add: hold_tables_def)

lemma queue_refused_fence: "last_fence (snd (queue_refused req k kind w st)) = last_fence st"
  by (simp add: queue_refused_def join_eq Let_def split: option.split)

lemma hold_fence:
  "grant_fence (Acquired (fst (mutex_hold k req st))) = [Suc (last_fence st)]"
  "grant_fence (Acquired (fst (permits_hold k req w p st))) = [Suc (last_fence st)]"
  "grant_fence (Acquired (fst (shared_hold k req mode t st))) = [Suc (last_fence st)]"
  "last_fence (snd (mutex_hold k req st)) = Suc (last_fence st)"
  "last_fence (snd (permits_hold k req w p st)) = Suc (last_fence st)"
  "last_fence (snd (shared_hold k req mode t st)) = Suc (last_fence st)"
  by (simp_all add: mutex_hold_def permits_hold_def shared_hold_def next_fence_eq)

lemma apply_event_fence:
  "grant_fence (fst (apply_event e st)) = [Suc (last_fence st) ..< Suc (last_fence (snd (apply_event e st)))]
   \<and> last_fence st \<le> last_fence (snd (apply_event e st))"
proof (cases e)
  case (MutexAcquire k req)
  then show ?thesis
    by (simp add: mutex_acquire_def queue_refused_fence queue_refused_account hold_fence set_state_eq Let_def
        split: option.split)
next
  case (PermitsAcquire k req lim w)
  then show ?thesis
    by (simp add: permits_acquire_def queue_refused_fence queue_refused_account hold_fence set_state_eq Let_def
        split: option.split)
next
  case (SharedAcquire k req mode)
  then show ?thesis
    by (simp add: shared_acquire_def queue_refused_fence queue_refused_account hold_fence set_state_eq Let_def
        split: option.split)
qed (simp_all add: mutex_release_def permits_release_def shared_release_def dispatch_fence waiting_fence
    split: option.split)

lemma upt_join: "i \<le> j \<Longrightarrow> j \<le> k \<Longrightarrow> [i ..< j] @ [j ..< k] = [i ..< k]"
  by (metis le_add_diff_inverse upt_add_eq_append)

lemma run_fences:
  "concat (map grant_fence (fst (run es st))) = [Suc (last_fence st) ..< Suc (last_fence (snd (run es st)))]
   \<and> last_fence st \<le> last_fence (snd (run es st))"
proof (induction es arbitrary: st)
  case (Cons e es)
  let ?st' = "snd (apply_event e st)"
  from apply_event_fence [of e st] Cons [of ?st'] show ?case
    using upt_join [of "Suc (last_fence st)" "Suc (last_fence ?st')" "Suc (last_fence (snd (run es ?st')))"]
    by (simp add: prod.case_eq_if del: upt_Suc)
qed simp

text \<open>
  The fences of a run count up: whatever the calls and however many locks they are about,
  the grants carry the fences 1, 2, 3, ... in the order they are made, so a later grant
  always has the larger fence and no fence is given twice.
\<close>

theorem fences_count_up:
  "concat (map grant_fence (fst (run es empty_store))) = [1 ..< Suc (last_fence (snd (run es empty_store)))]"
proof -
  have "last_fence empty_store = 0" by (simp add: empty_store_def)
  with run_fences [of es empty_store] show ?thesis by (simp del: upt_Suc)
qed

section \<open>Waiting\<close>

text \<open>
  Contended mutex work runs first in, first out, and nobody barges in. When the holder
  releases, the head of the line, and only it, is taken out and woken; the lock is reserved
  for it; from then on an attempt is granted exactly if it comes with that waiter.
\<close>

theorem mutex_hand_over:
  assumes "reachable st" "key_primitive (g_key g) = Mutex" "mutex_holder (g_key g) st = Some h"
    and "owner h = g_token g" "lines st (g_key g) = Some (s # ss)"
  shows "\<exists>st'. mutex_release g st = (Released, st') \<and> mutex_holder (g_key g) st' = None \<and>
    line_list (lines st') (g_key g) = ss \<and> s_state (sessions st' s) = Reserved \<and>
    (\<forall>p. s_wake (sessions st s) = Some p \<longrightarrow> p \<in> set (resolved st')) \<and>
    (\<forall>s'. s' \<noteq> s \<longrightarrow> sessions st' s' = sessions st s') \<and>
    fst (mutex_acquire (g_key g) req st') =
      (if waiter req = Some s
       then Granted \<lparr>g_key = g_key g, g_token = token req, g_fence = last_fence st + 1\<rparr> else Refused)"
proof -
  let ?k = "g_key g"
  from reachable_inv [OF assms(1)] have lines: "lines_ok st" and key: "key_ok UNIV st ?k" by (simp_all add: store_inv_def)
  from assms(3) obtain m where m: "mutexes st ?k = Some m" "holder m = Some h"
    by (auto simp: mutex_holder_def split: option.splits)
  with key have r: "reserved m = None" by (auto simp: mutex_key_ok [OF assms(2)] mutex_ok_def)
  note s = line_member [OF lines assms(5), of s, simplified]
  from s(4) lines have w: "s_weight (sessions st s) = 1"
    using s(5) assms(2) unfolding lines_ok_def wf_sessions_def by auto
  from lines_okD(1) [OF lines, of ?k] assms(5) have d: "s \<notin> set ss" by (simp add: line_ok_def)
  have kind: "s_kind (sessions st s) = WMutex" using s(5) assms(2) by simp
  let ?st' = "hand_to s (st\<lparr>mutexes := (mutexes st)(?k \<mapsto> \<lparr>holder = None, reserved = Some s\<rparr>)\<rparr>)"
  have m': "m\<lparr>holder := None, reserved := Some s\<rparr> = \<lparr>holder = None, reserved = Some s\<rparr>" by simp
  have "mutex_release g st = (Released, ?st')"
    using m r assms(4,5) by (simp add: mutex_release_def dispatch_mutex_def Let_def m')
  moreover have eq: "mutexes ?st' ?k = Some \<lparr>holder = None, reserved = Some s\<rparr>"
      "sessions ?st' = (sessions st)(s := (sessions st s)\<lparr>s_state := Reserved, s_wake := None\<rparr>)"
      "last_fence ?st' = last_fence st" by (simp_all add: hand_to_sessions)
  moreover have "line_list (lines ?st') ?k = ss"
    using kind s(2) assms(5) by (simp add: hand_to_eq Let_def line_map_def line_list_def)
  moreover have "\<forall>p. s_wake (sessions st s) = Some p \<longrightarrow> p \<in> set (resolved ?st')"
    using kind by (simp add: hand_to_eq Let_def)
  moreover have "fst (mutex_acquire ?k req ?st') = (if waiter req = Some s
      then Granted \<lparr>g_key = ?k, g_token = token req, g_fence = last_fence st + 1\<rparr> else Refused)"
  proof (cases "waiter req = Some s")
    case True
    have "redeeming req ?k WMutex 1 ?st' = Some s"
      using True s(2) kind w by (simp add: redeeming_def hand_to_sessions)
    with True eq show ?thesis
      by (simp add: mutex_acquire_def mutex_hold_def next_fence_eq set_state_eq Let_def)
  next
    case False
    then have "redeeming req ?k WMutex 1 ?st' \<noteq> Some s" by (auto simp: redeeming_def split: option.splits)
    with False eq show ?thesis
      by (simp add: mutex_acquire_def queue_refused_account split: option.split)
  qed
  ultimately show ?thesis by (simp add: mutex_holder_def)
qed

lemma sample_queued_valid: "valid_run (take 4 sample_run) empty_store"
  by code_simp

lemma mutex_hand_over_witness:
  "\<exists>st'. mutex_release \<lparr>g_key = sample_mutex, g_token = 1, g_fence = 1\<rparr> (sample_store (take 4 sample_run)) = (Released, st') \<and>
     s_state (sessions st' 0) = Reserved \<and> 0 \<in> set (resolved st') \<and>
     fst (mutex_acquire sample_mutex \<lparr>token = 3, waiter = None\<rparr> st') = Refused"
proof -
  let ?st = "sample_store (take 4 sample_run)"
  have "mutex_holder sample_mutex ?st = Some \<lparr>owner = 1, h_fence = 1\<rparr>" "lines ?st sample_mutex = Some [0]"
    "s_wake (sessions ?st 0) = Some 0" by code_simp+
  with mutex_hand_over [OF sample_reachable [OF sample_queued_valid],
      of "\<lparr>g_key = sample_mutex, g_token = 1, g_fence = 1\<rparr>" "\<lparr>owner = 1, h_fence = 1\<rparr>" 0 "[]" "\<lparr>token = 3, waiter = None\<rparr>"]
  show ?thesis by (auto simp: sample_primitives)
qed

definition sample_waiting_run :: "lock_event list" where
  "sample_waiting_run =
     [PermitsAcquire sample_pool \<lparr>token = 1, waiter = None\<rparr> 5 4, PermitsWaiter sample_pool 3]"

text \<open>
  C6: No waiter is forgotten, except one that asked for more permits than its pool's limit.
  After every run of calls, while a waiter is in line, its lock is busy in a way it must
  wait for: the mutex is held or reserved for someone else; the pool exists and the waiter's
  permits do not fit in what is left; a writer waits for a hold or a reservation; a reader
  waits for a writer that holds, is next or is in line. The exception is a permits waiter the
  run opened with a weight above the limit of the pool it found (\<open>too_heavy\<close>): \<open>permits.waiter\<close>
  does not check the weight, and \<open>heavy_waiter_forgotten\<close> shows such a waiter left in the line
  of a key that has become free.
\<close>

theorem no_waiter_forgotten:
  assumes "valid_run es empty_store" "st = snd (run es empty_store)" "s_state (sessions st s) = Queued"
  shows "case s_kind (sessions st s) of
      WMutex \<Rightarrow> \<exists>m. mutexes st (s_full (sessions st s)) = Some m \<and> (holder m \<noteq> None \<or> reserved m \<noteq> None)
    | WPermits \<Rightarrow> s \<in> too_heavy es empty_store \<or>
        (\<exists>p. pools st (s_full (sessions st s)) = Some p \<and> s_weight (sessions st s) \<le> limit p \<and>
          limit p < in_use p + s_weight (sessions st s) \<and> (holders p \<noteq> [] \<or> 0 < p_reserved p))
    | WWrite \<Rightarrow> \<exists>t. shareds st (s_full (sessions st s)) = Some t \<and>
        (writer t \<noteq> None \<or> reserved_writer t \<noteq> None \<or> readers t \<noteq> [] \<or> 0 < reserved_readers t)
    | WRead \<Rightarrow> \<exists>t. shareds st (s_full (sessions st s)) = Some t \<and>
        (writer t \<noteq> None \<or> reserved_writer t \<noteq> None \<or> lines st (s_full (sessions st s)) \<noteq> None)"
proof -
  let ?k = "s_full (sessions st s)" and ?H = "too_heavy es empty_store"
  have "store_inv ?H st" unfolding assms(2) by (rule run_inv [OF store_inv_empty assms(1) subset_refl])
  then have lines: "lines_ok st" and key: "key_ok ?H st ?k" by (simp_all add: store_inv_def)
  have q: "s \<in> qset (sessions st) ?k (s_kind (sessions st s) = WRead)" using assms(3) by (simp add: session_sets)
  then have line: "(if s_kind (sessions st s) = WRead then reader_lines st ?k else lines st ?k) \<noteq> None"
    using lines_okD(1,2) [OF lines, of ?k] by (cases "s_kind (sessions st s) = WRead") (auto dest: line_ok_nonempty)
  from queued_wf(1) [OF lines_okD(3) [OF lines], of s] assms(3) lines
  have fits: "kind_fits (key_primitive ?k) (s_kind (sessions st s))" by (auto simp: lines_ok_def wf_sessions_def)
  show ?thesis
  proof (cases "s_kind (sessions st s)")
    case WMutex
    then have "key_primitive ?k = Mutex" using fits by (cases "key_primitive ?k") auto
    with key line WMutex show ?thesis by (cases "mutexes st ?k") (auto simp: mutex_key_ok mutex_ok_def)
  next
    case WPermits
    then have "key_primitive ?k = Semaphore" using fits by (cases "key_primitive ?k") auto
    with key q WPermits show ?thesis
      by (cases "pools st ?k"; cases "s \<in> ?H") (auto simp: permits_key_ok permits_ok_def)
  next
    case WRead
    then have "key_primitive ?k = ReadWrite" using fits by (cases "key_primitive ?k") auto
    with key line WRead show ?thesis by (cases "shareds st ?k") (auto simp: shared_key_ok shared_ok_def)
  next
    case WWrite
    then have "key_primitive ?k = ReadWrite" using fits by (cases "key_primitive ?k") auto
    with key line WWrite show ?thesis by (cases "shareds st ?k") (auto simp: shared_key_ok shared_ok_def)
  qed
qed

lemma no_waiter_forgotten_witness:
  "\<exists>p. pools (snd (run sample_waiting_run empty_store)) sample_pool = Some p \<and>
     limit p < in_use p + 3 \<and> (holders p \<noteq> [] \<or> 0 < p_reserved p)"
proof -
  let ?st = "snd (run sample_waiting_run empty_store)"
  have valid: "valid_run sample_waiting_run empty_store" by code_simp
  have "s_state (sessions ?st 0) = Queued" "s_kind (sessions ?st 0) = WPermits" "s_full (sessions ?st 0) = sample_pool"
    "s_weight (sessions ?st 0) = 3" "0 \<notin> too_heavy sample_waiting_run empty_store" by code_simp+
  with no_waiter_forgotten [OF valid refl, of 0] show ?thesis by auto
qed

text \<open>
  The exception of C6 is real. A caller is refused three of five permits; before it opens its
  waiter the pool empties and is created again with limit two. The waiter joins the line all the
  same. When the last hold is released, the pool is deleted with the waiter still in line: the
  key is free, the waiter's promise is not resolved, and no release will ever hand it permits.
\<close>

definition heavy_run :: "lock_event list" where
  "heavy_run =
     [PermitsAcquire sample_pool \<lparr>token = 1, waiter = None\<rparr> 5 5,
      PermitsAcquire sample_pool \<lparr>token = 2, waiter = None\<rparr> 5 3,
      PermitsRelease \<lparr>g_key = sample_pool, g_token = 1, g_fence = 1\<rparr>,
      PermitsAcquire sample_pool \<lparr>token = 3, waiter = None\<rparr> 2 2,
      PermitsWaiter sample_pool 3,
      SessionWait 0 False,
      PermitsRelease \<lparr>g_key = sample_pool, g_token = 3, g_fence = 2\<rparr>]"

lemma heavy_waiter_forgotten:
  "valid_run heavy_run empty_store \<and>
   fst (run heavy_run empty_store) =
     [Acquired (Granted \<lparr>g_key = sample_pool, g_token = 1, g_fence = 1\<rparr>), Acquired Refused, Answered Released,
      Acquired (Granted \<lparr>g_key = sample_pool, g_token = 3, g_fence = 2\<rparr>), WaiterOpened 0, Waiting 0, Answered Released] \<and>
   (let st = snd (run heavy_run empty_store)
    in is_free sample_pool st \<and> pools st sample_pool = None \<and> lines st sample_pool = Some [0] \<and>
       s_wake (sessions st 0) = Some 0 \<and> 0 \<notin> set (resolved st))"
  by code_simp

text \<open>
  C33: Writer preference. While a writer is in line on a read/write key, a new read is refused
  and a new reader queues, even though only readers hold the key; and when the last reader
  lets go, the key is reserved for the writer at the head of the line.
\<close>

theorem waiting_writer_goes_first:
  assumes "reachable st" "key_primitive k = ReadWrite" "lines st k = Some (s # ss)" "shareds st k = Some t"
  shows "(redeeming req k WRead 1 st = None \<longrightarrow> fst (shared_acquire k req ReadMode st) = Refused) \<and>
    (case shared_waiter k ReadMode st of (r, st') \<Rightarrow> s_state (sessions st' r) = Queued) \<and>
    (readers t = [(tok, f)] \<and> reserved_readers t = 0 \<longrightarrow>
       (\<exists>st' t'. shared_release \<lparr>g_key = k, g_token = tok, g_fence = f\<rparr> st = (Released, st') \<and>
          shareds st' k = Some t' \<and> readers t' = [] \<and> reserved_writer t' = Some s))"
proof (intro conjI impI)
  have blocked: "shared_blocked (shareds st k) k ReadMode st" using assms(3) by (simp add: shared_blocked_def)
  show "fst (shared_acquire k req ReadMode st) = Refused" if "redeeming req k WRead 1 st = None"
    using that blocked assms(4) by (simp add: shared_acquire_def Let_def queue_refused_account)
  show "case shared_waiter k ReadMode st of (r, st') \<Rightarrow> s_state (sessions st' r) = Queued"
    using blocked by (simp add: shared_waiter_def new_session_eq join_eq Let_def)
  from reachable_inv [OF assms(1)] have lines: "lines_ok st" and key: "key_ok UNIV st k" by (simp_all add: store_inv_def)
  show "\<exists>st' t'. shared_release \<lparr>g_key = k, g_token = tok, g_fence = f\<rparr> st = (Released, st') \<and>
      shareds st' k = Some t' \<and> readers t' = [] \<and> reserved_writer t' = Some s"
    if one: "readers t = [(tok, f)] \<and> reserved_readers t = 0"
  proof -
    from key one assms(4) have w: "writer t = None" "reserved_writer t = None"
      by (auto simp: shared_key_ok [OF assms(2)] shared_ok_Some shared_excl_def)
    let ?t = "t\<lparr>readers := []\<rparr>"
    have "shared_release \<lparr>g_key = k, g_token = tok, g_fence = f\<rparr> st =
        (Released, dispatch_shared k (st\<lparr>shareds := (shareds st)(k \<mapsto> ?t)\<rparr>))"
      using one w assms(4) by (simp add: shared_release_def)
    also have "dispatch_shared k (st\<lparr>shareds := (shareds st)(k \<mapsto> ?t)\<rparr>) =
        hand_to s (st\<lparr>shareds := (shareds st)(k \<mapsto> ?t\<lparr>reserved_writer := Some s\<rparr>)\<rparr>)"
      using one w assms(3) by (simp add: dispatch_shared_def)
    finally show ?thesis by simp
  qed
qed

definition sample_shared_run :: "lock_event list" where
  "sample_shared_run =
     [SharedAcquire sample_shared \<lparr>token = 1, waiter = None\<rparr> ReadMode,
      SharedWaiter sample_shared WriteMode]"

lemma waiting_writer_goes_first_witness:
  "fst (shared_acquire sample_shared \<lparr>token = 2, waiter = None\<rparr> ReadMode (sample_store sample_shared_run)) = Refused \<and>
   (\<exists>st' t'. shared_release \<lparr>g_key = sample_shared, g_token = 1, g_fence = 1\<rparr> (sample_store sample_shared_run) = (Released, st') \<and>
      shareds st' sample_shared = Some t' \<and> reserved_writer t' = Some 0)"
proof -
  let ?st = "sample_store sample_shared_run"
  have "valid_run sample_shared_run empty_store" by code_simp
  note r = sample_reachable [OF this]
  have "lines ?st sample_shared = Some [0]"
    "shareds ?st sample_shared = Some \<lparr>readers = [(1, 1)], writer = None, reserved_readers = 0, reserved_writer = None\<rparr>"
    by code_simp+
  from waiting_writer_goes_first [OF r sample_primitives(3) this, of "\<lparr>token = 2, waiter = None\<rparr>" 1 1]
  show ?thesis by (auto simp: redeeming_def)
qed

section \<open>Waiters that stop, and watchers\<close>

lemma dispatch_closed: "s_closed (sessions (dispatch s st) x) = s_closed (sessions st x)"
proof -
  have hand: "s_closed (sessions (hand_to r st) x) = s_closed (sessions st x)" for r st
    by (simp add: hand_to_sessions)
  have watch: "sessions (wake_watchers k st) = sessions st" for k st by (simp add: wake_watchers_eq)
  have permits: "permits_loop xs p st = (p', st') \<Longrightarrow> s_closed (sessions st' x) = s_closed (sessions st x)" for xs p st p' st'
    by (induction xs p st rule: permits_loop.induct) (auto simp: Let_def hand split: if_splits)
  have readers: "readers_loop xs t st = (t', st') \<Longrightarrow> s_closed (sessions st' x) = s_closed (sessions st x)" for xs t st t' st'
    by (induction xs t st rule: readers_loop.induct) (auto simp: hand)
  have "s_closed (sessions (dispatch_mutex k st) x) = s_closed (sessions st x)" for k
    by (simp add: dispatch_mutex_def Let_def hand watch split: option.split list.split)
  moreover have "s_closed (sessions (dispatch_permits k st) x) = s_closed (sessions st x)" for k
    using permits by (auto simp: dispatch_permits_def watch split: option.split prod.split)
  moreover have "s_closed (sessions (dispatch_shared k st) x) = s_closed (sessions st x)" for k
    using readers by (auto simp: dispatch_shared_def Let_def hand watch split: option.split list.split prod.split
        simp del: readers_loop.simps)
  ultimately show ?thesis by (simp add: dispatch_def split: wait_kind.split)
qed

lemma session_close_closed: "s_closed (sessions (session_close s st) s)"
  by (simp add: session_close_def Let_def dispatch_closed leave_eq unreserve_def set_state_eq upd_session_def
      wake_session_eq split: wait_state.split wait_kind.split option.split)

lemma session_close_resolves:
  assumes "s_wake (sessions st s) = Some p" "\<not> s_closed (sessions st s)"
  shows "p \<in> set (resolved (session_close s st))"
proof -
  let ?st1 = "wake_session s (upd_session s (\<lambda>x. x\<lparr>s_closed := True\<rparr>) st)"
  have p: "p \<in> set (resolved ?st1)" using assms(1) by (simp add: wake_session_eq upd_session_def)
  have "keeps_watch ?st1 (dispatch s (leave s ?st1))" "keeps_watch ?st1 (dispatch s (unreserve s ?st1))"
    by (rule keeps_watch_trans [OF keeps_watch_sessions(3) dispatch_watch]
        keeps_watch_trans [OF unreserve_watch dispatch_watch])+
  with p have "p \<in> set (resolved (dispatch s (leave s ?st1)))" "p \<in> set (resolved (dispatch s (unreserve s ?st1)))"
    by (auto simp: keeps_watch_def)
  with p assms(2) show ?thesis by (simp add: session_close_def Let_def split: wait_state.split)
qed

text \<open>
  C32: A waiter that stops waiting leaves no trace. After \<open>close()\<close> it is in no line and no
  lock is reserved for it, the promise it waited on is resolved, and closing it again does
  nothing.
\<close>

theorem close_leaves_no_trace:
  assumes "reachable st" "st' = session_close s st"
  shows "s_closed (sessions st' s) \<and> s_state (sessions st' s) = Idle \<and>
    (\<forall>k. s \<notin> set (line_list (lines st') k) \<and> s \<notin> set (line_list (reader_lines st') k) \<and>
       (\<forall>m. mutexes st' k = Some m \<longrightarrow> reserved m \<noteq> Some s) \<and>
       (\<forall>t. shareds st' k = Some t \<longrightarrow> reserved_writer t \<noteq> Some s)) \<and>
    (\<forall>p. s_wake (sessions st s) = Some p \<longrightarrow> p \<in> set (resolved st')) \<and>
    session_close s st' = st'"
proof -
  have "lock_step st (SessionClose s) Done st'" by (simp add: lock_step_iff assms(2))
  from reachable_step [OF assms(1) this] have reach: "reachable st'" .
  note inv = reachable_inv [OF reach] and fit = reachable_fit [OF reach]
  from inv have lines: "lines_ok st'" and keys: "\<And>k. key_ok UNIV st' k" by (simp_all add: store_inv_def)
  have closed: "s_closed (sessions st' s)" unfolding assms(2) by (rule session_close_closed)
  with lines_okD(3) [OF lines] have idle: "s_state (sessions st' s) = Idle" by (auto simp: wf_sessions_def)
  have "s \<notin> qset (sessions st') k rd" "s \<notin> res (sessions st') k kind" for k rd kind
    using idle by (simp_all add: session_sets)
  moreover have "s \<notin> set (line_list (lines st') k)" "s \<notin> set (line_list (reader_lines st') k)" for k
    using lines_okD(1,2) [OF lines, of k] calculation(1) by (auto simp: line_list_def line_ok_def split: option.splits)
  moreover have "reserved m \<noteq> Some s" if "mutexes st' k = Some m" for k m
    using that keys [of k] fit calculation(2) [of k WMutex]
    by (auto simp: tables_fit_def key_ok_def mutex_ok_def split: primitive.splits)
  moreover have "reserved_writer t \<noteq> Some s" if "shareds st' k = Some t" for k t
    using that keys [of k] fit calculation(2) [of k WWrite]
    by (auto simp: tables_fit_def key_ok_def shared_ok_Some shared_excl_def split: primitive.splits)
  moreover have "p \<in> set (resolved st')" if "s_wake (sessions st s) = Some p" for p
  proof -
    from reachable_inv [OF assms(1)] that have "\<not> s_closed (sessions st s)"
      by (auto simp: store_inv_def lines_ok_def wf_sessions_def)
    with that show ?thesis unfolding assms(2) by (intro session_close_resolves)
  qed
  moreover have "session_close s st' = st'" using closed by (simp add: session_close_def)
  ultimately show ?thesis using closed idle by blast
qed

lemma close_leaves_no_trace_witness:
  "0 \<notin> set (line_list (lines (session_close 0 (sample_store (take 4 sample_run)))) sample_mutex) \<and>
   0 \<in> set (resolved (session_close 0 (sample_store (take 4 sample_run))))"
proof -
  have "s_wake (sessions (sample_store (take 4 sample_run)) 0) = Some 0" by code_simp
  with close_leaves_no_trace [OF sample_reachable [OF sample_queued_valid] refl, of 0] show ?thesis by blast
qed

lemma entry_not_free:
  assumes "store_inv H st" "tables_fit st" "entry st k"
  shows "\<not> is_free k st"
proof -
  from assms(1) have key: "key_ok H st k" by (simp add: store_inv_def)
  show ?thesis
  proof (cases "key_primitive k")
    case Mutex
    with assms(2,3) key show ?thesis by (auto simp: tables_fit_def entry_def mutex_key_ok mutex_ok_def is_free_def)
  next
    case Semaphore
    with assms(2,3) show ?thesis by (auto simp: tables_fit_def entry_def is_free_def)
  next
    case ReadWrite
    with assms(2,3) key obtain t where "shareds st k = Some t" by (auto simp: tables_fit_def entry_def)
    with key show ?thesis
      by (auto simp: shared_key_ok [OF ReadWrite] shared_ok_Some is_free_def shared_blocked_def)
  qed
qed

text \<open>
  A caller that watches a key is told when it is free: while its promise is pending the
  key is not free, and a call after which the key is free has resolved the promise.
\<close>

theorem watchers_see_free_key:
  assumes "reachable st" "p \<in> set (watched st k)" "lock_step st e out st'"
  shows "\<not> is_free k st \<and> (is_free k st' \<longrightarrow> p \<in> set (resolved st'))"
proof -
  from assms(2) reachable_watched [OF assms(1), of k] have "entry st k" by auto
  then have "\<not> is_free k st" by (rule entry_not_free [OF reachable_inv [OF assms(1)] reachable_fit [OF assms(1)]])
  moreover have "p \<in> set (resolved st')" if free: "is_free k st'"
  proof -
    have r: "reachable st'" by (rule reachable_step [OF assms(1,3)])
    from free have "\<not> entry st' k" using entry_not_free [OF reachable_inv [OF r] reachable_fit [OF r]] by blast
    with reachable_watched [OF r, of k] have none: "watched st' k = []" by blast
    have "keeps_watch st st'" using apply_event_watch [of st e] assms(3) by (simp add: lock_step_iff)
    then have "set (watched st k) \<subseteq> set (watched st' k) \<union> set (resolved st')" by (simp add: keeps_watch_def)
    with none assms(2) show ?thesis by auto
  qed
  ultimately show ?thesis by blast
qed

definition sample_watch_run :: "lock_event list" where
  "sample_watch_run = [MutexAcquire sample_mutex \<lparr>token = 1, waiter = None\<rparr>, StoreWait sample_mutex False]"

lemma watchers_see_free_key_witness:
  "0 \<in> set (resolved (snd (apply_event (MutexRelease \<lparr>g_key = sample_mutex, g_token = 1, g_fence = 1\<rparr>)
     (sample_store sample_watch_run))))"
proof -
  let ?st = "sample_store sample_watch_run" and ?e = "MutexRelease \<lparr>g_key = sample_mutex, g_token = 1, g_fence = 1\<rparr>"
  have "valid_run sample_watch_run empty_store" by code_simp
  note r = sample_reachable [OF this]
  have ok: "allowed ?e ?st" by (simp add: sample_primitives)
  have "0 \<in> set (watched ?st sample_mutex)" "is_free sample_mutex (snd (apply_event ?e ?st))" by code_simp+
  with watchers_see_free_key [OF r _ step_apply [OF ok]] show ?thesis by blast
qed

section \<open>Releasing\<close>

text \<open>The release of a grant, by the operations its key's primitive belongs to.\<close>

definition release_grant :: "grant \<Rightarrow> store \<Rightarrow> release_outcome \<times> store" where
  "release_grant g = (case key_primitive (g_key g) of
     Mutex \<Rightarrow> mutex_release g | Semaphore \<Rightarrow> permits_release g | ReadWrite \<Rightarrow> shared_release g)"

text \<open>
  A hold is released exactly once, and only by its own grant: the first release answers
  \<open>released\<close> and takes that one claim out, a second release of the same grant, or the release of a
  grant that is not held (stale, or of another owner), answers \<open>not-owner\<close> and changes nothing.
\<close>

theorem hold_released_once:
  assumes "reachable st"
  shows "if holds_key st (g_key g) (g_token g)
    then \<exists>st'. release_grant g st = (Released, st') \<and> release_grant g st' = (NotOwner, st') \<and>
      held_account st' = (held_account st)(g_key g := AList.delete (g_token g) (held_account st (g_key g)))
    else release_grant g st = (NotOwner, st)"
proof -
  note inv = reachable_inv [OF assms]
  show ?thesis
  proof (cases "key_primitive (g_key g)")
    case Mutex
    then show ?thesis
      using mutex_ops.release_held [OF inv Mutex] mutex_ops.release_twice [OF inv Mutex]
        mutex_ops.release_not_held [OF inv Mutex] by (auto simp: release_grant_def prod_eq_iff)
  next
    case Semaphore
    then show ?thesis
      using permit_ops.release_held [OF inv Semaphore] permit_ops.release_twice [OF inv Semaphore]
        permit_ops.release_not_held [OF inv Semaphore] by (auto simp: release_grant_def prod_eq_iff)
  next
    case ReadWrite
    then show ?thesis
      using shared_ops.release_held [OF inv ReadWrite] shared_ops.release_twice [OF inv ReadWrite]
        shared_ops.release_not_held [OF inv ReadWrite] by (auto simp: release_grant_def prod_eq_iff)
  qed
qed

lemma hold_released_once_witness:
  "\<exists>st'. release_grant \<lparr>g_key = sample_mutex, g_token = 4, g_fence = 2\<rparr> (sample_store sample_run) = (Released, st') \<and>
     release_grant \<lparr>g_key = sample_mutex, g_token = 4, g_fence = 2\<rparr> st' = (NotOwner, st')"
proof -
  have "holds_key (sample_store sample_run) sample_mutex 4" by code_simp
  with hold_released_once [OF sample_reachable [OF sample_valid],
      of "\<lparr>g_key = sample_mutex, g_token = 4, g_fence = 2\<rparr>"] show ?thesis by auto
qed

section \<open>Permits\<close>

lemma newest_ge: "f \<in> set fs \<Longrightarrow> f \<le> newest fs"
proof -
  have ge: "a \<le> foldl (\<lambda>latest fence. if fence > latest then fence else latest) a fs" for a :: fence and fs
  proof (induction fs arbitrary: a)
    case (Cons b fs)
    show ?case using Cons [of "if b > a then b else a"] by (simp split: if_splits)
  qed simp
  have "f \<in> set fs \<Longrightarrow> f \<le> foldl (\<lambda>latest fence. if fence > latest then fence else latest) a fs" for a
  proof (induction fs arbitrary: a)
    case (Cons b fs)
    then show ?case using ge [of "if b > a then b else a" fs] by (auto split: if_splits)
  qed simp
  then show "f \<in> set fs \<Longrightarrow> f \<le> newest fs" by (simp add: newest_def)
qed

text \<open>
  A semaphore's accounts are exact and its limit is kept: what is in use is what is
  reserved and what is held, never above the limit; and \<open>peek\<close> reports the permits held (without
  the reserved ones), the number of holds, and a fence no hold's fence is above.
\<close>

theorem permit_accounts:
  assumes "reachable st" "pools st k = Some p"
  shows "in_use p = p_reserved p + held_weight p \<and> 0 \<le> p_reserved p \<and> 0 \<le> held_weight p \<and> in_use p \<le> limit p \<and>
    (case peek k st of None \<Rightarrow> holders p = []
     | Some e \<Rightarrow> e_permits e = Some (held_weight p) \<and> e_holders e = Some (length (holders p)) \<and>
         (\<forall>h \<in> set (holders p). snd (snd h) \<le> e_fence e))"
proof -
  from reachable_fit [OF assms(1)] assms(2) have prim: "key_primitive k = Semaphore" and "mutexes st k = None"
    by (auto simp: tables_fit_def)
  note inv = reachable_inv [OF assms(1)]
  from inv have lines: "lines_ok st" and "key_ok UNIV st k" by (simp_all add: store_inv_def)
  then have acc: "pool_accounts p (\<lambda>s. s_weight (sessions st s)) (res (sessions st) k WPermits)"
    using assms(2) by (simp add: permits_key_ok [OF prim] permits_ok_def)
  have "0 \<le> p_reserved p"
    using sum_res_pos [OF lines, of k WPermits] acc by (cases "res (sessions st) k WPermits = {}") (auto simp: pool_accounts_def)
  moreover have "0 \<le> held_weight p"
    using acc unfolding held_weight_def pool_accounts_def by (intro sum_list_nonneg) force
  moreover have "case peek k st of None \<Rightarrow> holders p = []
     | Some e \<Rightarrow> e_permits e = Some (held_weight p) \<and> e_holders e = Some (length (holders p)) \<and>
         (\<forall>h \<in> set (holders p). snd (snd h) \<le> e_fence e)"
    using acc assms(2) \<open>mutexes st k = None\<close> newest_ge [of _ "map (snd \<circ> snd) (holders p)"]
    by (cases "holders p") (auto simp: peek_def pool_accounts_def)
  ultimately show ?thesis using acc by (simp add: pool_accounts_def)
qed

definition sample_pool_run :: "lock_event list" where
  "sample_pool_run =
     [PermitsAcquire sample_pool \<lparr>token = 1, waiter = None\<rparr> 5 3, PermitsWaiter sample_pool 2]"

lemma permit_accounts_witness:
  "\<exists>p. pools (sample_store sample_pool_run) sample_pool = Some p \<and> in_use p = 5 \<and> p_reserved p = 2 \<and> in_use p \<le> limit p"
proof -
  have "valid_run sample_pool_run empty_store" by code_simp
  note r = sample_reachable [OF this]
  have "pools (sample_store sample_pool_run) sample_pool =
      Some \<lparr>limit = 5, in_use = 5, p_reserved = 2, holders = [(1, 3, 1)]\<rparr>" by code_simp
  with permit_accounts [OF r this] show ?thesis by simp
qed

end
