(* ===== verification/LockLine.thy ===== *)
theory LockLine
  imports LockMemory
begin

text \<open>
  The line of \<open>packages/lock/src/memory.ts\<close> as the code has it: sessions linked by \<open>prev\<close> and
  \<open>next\<close>, a line with \<open>head\<close>, \<open>tail\<close> and \<open>size\<close>. The pointer updates of \<open>join\<close> and \<open>leave\<close> do to the
  list of sessions what \<open>LockMemory\<close> writes: they append at the end and take out of the middle.
\<close>

record node =
  prev :: "sid option"
  "next" :: "sid option"

record pline =
  head :: "sid option"
  tail :: "sid option"
  psize :: int

type_synonym nodes = "sid \<Rightarrow> node"

definition join_line :: "sid \<Rightarrow> nodes \<times> pline option \<Rightarrow> nodes \<times> pline option" where
  "join_line s nl =
     (case nl of (n, found) \<Rightarrow>
        let line = (case found of None \<Rightarrow> \<lparr>head = None, tail = None, psize = 0\<rparr> | Some l \<Rightarrow> l);
            n1 = n(s := \<lparr>prev = tail line, next = None\<rparr>)
        in case tail line of
             None \<Rightarrow> (n1, Some (line\<lparr>head := Some s, tail := Some s, psize := psize line + 1\<rparr>))
           | Some t \<Rightarrow> (n1(t := (n1 t)\<lparr>next := Some s\<rparr>), Some (line\<lparr>tail := Some s, psize := psize line + 1\<rparr>)))"

definition leave_line :: "sid \<Rightarrow> nodes \<times> pline option \<Rightarrow> nodes \<times> pline option" where
  "leave_line s nl =
     (case nl of
        (n, None) \<Rightarrow> (n, None)
      | (n, Some line) \<Rightarrow>
          let l1 = (case prev (n s) of None \<Rightarrow> line\<lparr>head := next (n s)\<rparr> | Some p \<Rightarrow> line);
              n1 = (case prev (n s) of None \<Rightarrow> n | Some p \<Rightarrow> n(p := (n p)\<lparr>next := next (n s)\<rparr>));
              l2 = (case next (n1 s) of None \<Rightarrow> l1\<lparr>tail := prev (n1 s)\<rparr> | Some q \<Rightarrow> l1);
              n2 = (case next (n1 s) of None \<Rightarrow> n1 | Some q \<Rightarrow> n1(q := (n1 q)\<lparr>prev := prev (n1 s)\<rparr>));
              n3 = n2(s := \<lparr>prev = None, next = None\<rparr>);
              l3 = l2\<lparr>psize := psize l2 - 1\<rparr>
          in (n3, if psize l3 = 0 then None else Some l3))"

section \<open>Linked segments\<close>

text \<open>\<open>seg n p xs q\<close>: the sessions \<open>xs\<close> are linked in this order between \<open>p\<close> and \<open>q\<close>.\<close>

fun seg :: "nodes \<Rightarrow> sid option \<Rightarrow> sid list \<Rightarrow> sid option \<Rightarrow> bool" where
  "seg n p [] q \<longleftrightarrow> True"
| "seg n p (x # xs) q \<longleftrightarrow>
     prev (n x) = p \<and> next (n x) = (case xs of [] \<Rightarrow> q | y # _ \<Rightarrow> Some y) \<and> seg n (Some x) xs q"

definition line_of :: "nodes \<times> pline option \<Rightarrow> sid list \<Rightarrow> bool" where
  "line_of nl xs \<longleftrightarrow>
     (case nl of
        (n, None) \<Rightarrow> xs = []
      | (n, Some l) \<Rightarrow> xs \<noteq> [] \<and> distinct xs \<and> head l = Some (hd xs) \<and> tail l = Some (last xs) \<and>
                       psize l = int (length xs) \<and> seg n None xs None)"

lemma seg_frame: "x \<notin> set xs \<Longrightarrow> seg (n(x := v)) p xs q = seg n p xs q"
  by (induction n p xs q rule: seg.induct) auto

lemma seg_append:
  "seg n p (xs @ ys) q \<longleftrightarrow>
     seg n p xs (case ys of [] \<Rightarrow> q | y # _ \<Rightarrow> Some y) \<and> seg n (if xs = [] then p else Some (last xs)) ys q"
  by (induction n p xs q rule: seg.induct) (auto split: list.splits)

lemma seg_new_next:
  "seg n p (xs @ [t]) q \<Longrightarrow> t \<notin> set xs \<Longrightarrow> seg (n(t := (n t)\<lparr>next := q'\<rparr>)) p (xs @ [t]) q'"
  by (simp add: seg_append seg_frame)

lemma seg_new_prev:
  "seg n p (t # xs) q \<Longrightarrow> t \<notin> set xs \<Longrightarrow> seg (n(t := (n t)\<lparr>prev := p'\<rparr>)) p' (t # xs) q"
  by (simp add: seg_frame)

lemma join_line_of:
  assumes "line_of (n, l) xs" "s \<notin> set xs"
  shows "line_of (join_line s (n, l)) (xs @ [s])"
proof (cases l)
  case None
  with assms show ?thesis by (simp add: line_of_def join_line_def)
next
  case (Some line)
  with assms have l: "distinct xs" "head line = Some (hd xs)" "tail line = Some (last xs)"
    "psize line = int (length xs)" "seg n None xs None" "xs \<noteq> []" by (auto simp: line_of_def)
  then obtain ys t where xs: "xs = ys @ [t]" by (metis rev_exhaust)
  let ?n1 = "n(s := \<lparr>prev = Some t, next = None\<rparr>)"
  let ?n2 = "?n1(t := (?n1 t)\<lparr>next := Some s\<rparr>)"
  have "seg ?n1 None (ys @ [t]) None" using l(5) assms(2) by (simp add: xs seg_frame)
  then have "seg ?n2 None (ys @ [t]) (Some s)" using l(1) by (intro seg_new_next) (simp_all add: xs)
  then have "seg ?n2 None (xs @ [s]) None" using assms(2) by (simp add: xs seg_append)
  with l assms(2) Some show ?thesis by (simp add: line_of_def join_line_def xs hd_append)
qed

lemma leave_line_of:
  assumes "line_of (n, l) xs" "s \<in> set xs"
  shows "line_of (leave_line s (n, l)) (remove1 s xs)"
proof -
  obtain ys zs where xs: "xs = ys @ s # zs" "s \<notin> set ys" using assms(2) split_list_first by metis
  from assms obtain line where l: "l = Some line" "distinct xs" "head line = Some (hd xs)" "tail line = Some (last xs)"
    "psize line = int (length xs)" "seg n None xs None"
    by (cases l) (auto simp: line_of_def)
  have rem: "remove1 s xs = ys @ zs" using xs by (simp add: remove1_append)
  from l(6) have sg: "seg n None ys (Some s)" "prev (n s) = (if ys = [] then None else Some (last ys))"
    "next (n s) = (case zs of [] \<Rightarrow> None | z # _ \<Rightarrow> Some z)" "seg n (Some s) zs None"
    unfolding xs(1) by (simp_all add: seg_append)
  define n1 where "n1 = (case prev (n s) of None \<Rightarrow> n | Some p \<Rightarrow> n(p := (n p)\<lparr>next := next (n s)\<rparr>))"
  define n2 where "n2 = (case next (n1 s) of None \<Rightarrow> n1 | Some q \<Rightarrow> n1(q := (n1 q)\<lparr>prev := prev (n1 s)\<rparr>))"
  have d: "distinct ys" "distinct zs" "s \<notin> set zs" "set ys \<inter> set zs = {}" using l(2) unfolding xs(1) by auto
  have n1s: "n1 s = n s" using xs(2) sg(2) by (auto simp: n1_def split: if_splits)
  have ys: "seg n1 None ys (next (n s)) \<and> seg n1 (Some s) zs None"
  proof (cases ys rule: rev_cases)
    case Nil
    then show ?thesis using sg by (simp add: n1_def)
  next
    case (snoc us t)
    then have "n1 = n(t := (n t)\<lparr>next := next (n s)\<rparr>)" using sg(2) by (simp add: n1_def)
    then show ?thesis
      using seg_new_next [of n None us t "Some s" "next (n s)"] sg(1,4) d snoc by (auto simp: seg_frame)
  qed
  have zs: "seg n2 None ys (next (n s)) \<and> seg n2 (prev (n s)) zs None"
  proof (cases zs)
    case Nil
    then show ?thesis using ys sg(3) by (simp add: n2_def n1s)
  next
    case (Cons z vs)
    then have "n2 = n1(z := (n1 z)\<lparr>prev := prev (n s)\<rparr>)" using sg(3) by (simp add: n2_def n1s)
    then show ?thesis
      using seg_new_prev [of n1 "Some s" z vs None "prev (n s)"] ys d Cons by (simp add: seg_frame)
  qed
  have "seg n2 None (ys @ zs) None"
    using zs sg(2,3) by (cases zs) (auto simp: seg_append)
  then have "seg (n2(s := v)) None (ys @ zs) None" for v using xs(2) d by (simp add: seg_frame)
  moreover have "leave_line s (n, l) = (n2(s := \<lparr>prev = None, next = None\<rparr>),
      if psize line - 1 = 0 then None
      else Some (line\<lparr>head := (if ys = [] then next (n s) else head line),
                      tail := (if zs = [] then prev (n s) else tail line), psize := psize line - 1\<rparr>))"
  proof -
    note L = leave_line_def [of s "(n, Some line)", unfolded Let_def prod.case option.case, folded n1_def, folded n2_def]
    have "prev (n s) = None \<longleftrightarrow> ys = []" "next (n s) = None \<longleftrightarrow> zs = []"
      using sg(2,3) by (auto split: list.splits)
    then show ?thesis unfolding l(1) L n1s by (auto split: option.splits)
  qed
  moreover have "psize line - 1 = 0 \<longleftrightarrow> ys @ zs = []"
    using l(5) by (cases ys; cases zs) (simp_all add: xs)
  ultimately show ?thesis
    using l(3-5) d sg(2,3) unfolding rem line_of_def by (cases ys; cases zs) (auto simp: xs)
qed

text \<open>Sessions that are in another line keep their links.\<close>

lemma line_frame:
  assumes "line_of (n, l) xs" "x \<notin> set xs" "x \<noteq> s"
  shows "fst (join_line s (n, l)) x = n x" and "s \<in> set xs \<Longrightarrow> fst (leave_line s (n, l)) x = n x"
proof -
  from assms have "tail line \<noteq> Some x" if "l = Some line" for line
    using that by (auto simp: line_of_def)
  with assms(3) show "fst (join_line s (n, l)) x = n x"
    by (auto simp: join_line_def Let_def split: option.split)
  show "fst (leave_line s (n, l)) x = n x" if "s \<in> set xs"
  proof -
    from that obtain ys zs where xs: "xs = ys @ s # zs" by (auto simp: in_set_conv_decomp)
    have "seg n None xs None" using assms(1) that by (auto simp: line_of_def split: option.splits)
    then have "prev (n s) = (if ys = [] then None else Some (last ys))"
      "next (n s) = (case zs of [] \<Rightarrow> None | z # _ \<Rightarrow> Some z)" unfolding xs by (simp_all add: seg_append)
    then have "prev (n s) \<noteq> Some x" "next (n s) \<noteq> Some x"
      using assms(2) last_in_set [of ys] unfolding xs by (auto split: list.splits if_splits)
    then have links: "prev (n s) = Some p \<Longrightarrow> x \<noteq> p" "next (n s) = Some p \<Longrightarrow> x \<noteq> p" for p by auto
    show ?thesis
    proof (cases l)
      case None
      then show ?thesis by (simp add: leave_line_def)
    next
      case (Some line)
      let ?n1 = "case prev (n s) of None \<Rightarrow> n | Some p \<Rightarrow> n(p := (n p)\<lparr>next := next (n s)\<rparr>)"
      have x: "?n1 x = n x" using links(1) by (auto split: option.split)
      have "next (?n1 s) = next (n s)" by (auto split: option.split)
      then have "next (?n1 s) = Some q \<Longrightarrow> x \<noteq> q" for q using links(2) by simp
      then have "(case next (?n1 s) of None \<Rightarrow> ?n1 | Some q \<Rightarrow> ?n1(q := (?n1 q)\<lparr>prev := prev (?n1 s)\<rparr>)) x = n x"
        using x by (auto split: option.split)
      then show ?thesis using assms(3) Some by (simp add: leave_line_def Let_def)
    qed
  qed
qed

text \<open>
  C18: The pointer updates of a line do what the list says. A session that joins is linked in
  behind the tail; one that leaves, from the head, the tail or the middle, is taken out and
  its neighbours are linked to each other; \<open>head\<close>, \<open>tail\<close> and \<open>size\<close> follow, the line is
  dropped when it is empty, and no session outside the line is touched.
\<close>

theorem line_is_its_list:
  assumes "line_of (n, l) xs"
  shows "(s \<notin> set xs \<longrightarrow> line_of (join_line s (n, l)) (xs @ [s])) \<and>
    (s \<in> set xs \<longrightarrow> line_of (leave_line s (n, l)) (remove1 s xs)) \<and>
    (\<forall>x. x \<notin> set xs \<and> x \<noteq> s \<longrightarrow> fst (join_line s (n, l)) x = n x \<and>
       (s \<in> set xs \<longrightarrow> fst (leave_line s (n, l)) x = n x))"
  using join_line_of [OF assms] leave_line_of [OF assms] line_frame [OF assms] by blast

lemma line_is_its_list_witness:
  "line_of (leave_line 5 (join_line 7 (join_line 5 (join_line 3 (\<lambda>_. \<lparr>prev = None, next = None\<rparr>, None))))) [3, 7]"
proof -
  let ?nl = "join_line 7 (join_line 5 (join_line 3 (\<lambda>_. \<lparr>prev = None, next = None\<rparr>, None)))"
  have "line_of ?nl [3, 5, 7]" by (simp add: join_line_def line_of_def)
  with line_is_its_list [of "fst ?nl" "snd ?nl" "[3, 5, 7]" 5] show ?thesis by simp
qed

end
