(* ===== verification/MoneyUnits.thy ===== *)
theory MoneyUnits
  imports ArkiPrelude "HOL-Library.Signed_Division"
begin

text \<open>
  Whole-unit arithmetic of \<open>packages/money/src/internal/units.ts\<close>. An amount is a \<open>number\<close> while
  it is a safe integer and a \<open>bigint\<close> beyond that. Both paths are modelled: on the number path
  sums and products are double operations (\<open>rnd53\<close> rounds to 53 bits, ties to even), on the
  other path they are exact and limited in size. \<open>-0\<close> is identified with \<open>0\<close> (the code adds
  \<open>0\<close> where it could appear). The rounding contract is stated apart, over floors.
\<close>

section \<open>Doubles that hold integers\<close>

function bit_length :: "int \<Rightarrow> nat" where
  "bit_length n = (if n \<le> 0 then 0 else 1 + bit_length (n div 2))"
  by pat_completeness auto
termination
  by (relation "measure nat") auto

declare bit_length.simps [simp del]

text \<open>The double nearest to an integer, ties to even; integers to 2 to the 53 are doubles.\<close>

definition rnd53 :: "int \<Rightarrow> int" where
  "rnd53 n =
     (let m = \<bar>n\<bar>; e = bit_length m - 53; q = m div 2 ^ e; r = m mod 2 ^ e
      in if bit_length m \<le> 53 then n
         else sgn n * ((if 2 * r > 2 ^ e \<or> (2 * r = 2 ^ e \<and> odd q) then q + 1 else q) * 2 ^ e))"

definition MAX_SAFE :: int where
  "MAX_SAFE = 9007199254740991"

lemma bit_length_bounds: "0 < n \<Longrightarrow> 2 ^ (bit_length n - 1) \<le> n \<and> n < 2 ^ bit_length n"
proof (induction n rule: bit_length.induct)
  case (1 n)
  show ?case
  proof (cases "n = 1")
    case True
    then show ?thesis by (simp add: bit_length.simps)
  next
    case False
    with "1.prems" have "0 < n div 2" by auto
    with 1 have ih: "2 ^ (bit_length (n div 2) - 1) \<le> n div 2" "n div 2 < 2 ^ bit_length (n div 2)" by auto
    define k where "k = bit_length (n div 2)"
    have "k \<noteq> 0" using \<open>0 < n div 2\<close> unfolding k_def by (subst bit_length.simps) simp
    then have pow: "(2::int) ^ k = 2 * 2 ^ (k - 1)" by (cases k) auto
    have n: "bit_length n = Suc k" using "1.prems" unfolding k_def by (subst bit_length.simps) simp
    have "2 * 2 ^ (k - 1) \<le> n" "n < 2 * 2 ^ k" using ih unfolding k_def [symmetric] by linarith+
    then show ?thesis by (simp add: n pow)
  qed
qed

lemma bit_length_le:
  assumes "n < 2 ^ k"
  shows "bit_length n \<le> k"
proof (cases "0 < n")
  case True
  then have "(2::int) ^ (bit_length n - 1) < 2 ^ k" using bit_length_bounds [of n] assms by linarith
  then have "bit_length n - 1 < k" by (rule power_less_imp_less_exp [rotated]) simp
  then show ?thesis by simp
next
  case False
  then show ?thesis by (simp add: bit_length.simps)
qed

text \<open>Rounding to a double never moves a value into the safe range.\<close>

lemma rnd53_small: "\<bar>n\<bar> \<le> MAX_SAFE \<Longrightarrow> rnd53 n = n"
  using bit_length_le [of "\<bar>n\<bar>" 53] by (simp add: rnd53_def Let_def MAX_SAFE_def)

lemma rnd53_large:
  assumes "MAX_SAFE < \<bar>n\<bar>"
  shows "MAX_SAFE < \<bar>rnd53 n\<bar>"
proof (cases "bit_length \<bar>n\<bar> \<le> 53")
  case True
  with assms show ?thesis by (simp add: rnd53_def Let_def)
next
  case False
  define m e where "m = \<bar>n\<bar>" and "e = bit_length m - 53"
  have e: "1 \<le> e" "bit_length m - 1 = 52 + e" using False by (auto simp: m_def e_def)
  have "2 ^ (52 + e) \<le> m"
    using bit_length_bounds [of m] assms e(2) by (auto simp: m_def MAX_SAFE_def)
  then have "2 ^ 52 * 2 ^ e div 2 ^ e \<le> m div 2 ^ e" by (intro zdiv_mono1) (simp_all add: power_add)
  then have q: "2 ^ 52 \<le> m div 2 ^ e" by simp
  define q' where "q' = (if 2 * (m mod 2 ^ e) > 2 ^ e \<or> (2 * (m mod 2 ^ e) = 2 ^ e \<and> odd (m div 2 ^ e))
    then m div 2 ^ e + 1 else m div 2 ^ e)"
  have q': "2 ^ 52 \<le> q'" using q by (simp add: q'_def)
  moreover have "(2::int) ^ 1 \<le> 2 ^ e" using e(1) by (intro power_increasing) auto
  ultimately have "(2::int) ^ 52 * 2 ^ 1 \<le> q' * 2 ^ e" by (intro mult_mono) auto
  then have le: "(2::int) ^ 53 \<le> q' * 2 ^ e" by simp
  have "rnd53 n = sgn n * (q' * 2 ^ e)"
    using False by (simp add: rnd53_def Let_def m_def e_def q'_def)
  moreover have "n \<noteq> 0" using assms by (auto simp: MAX_SAFE_def)
  ultimately have "\<bar>rnd53 n\<bar> = q' * 2 ^ e" using q' by (simp add: abs_mult abs_sgn_eq)
  with le show ?thesis by (simp add: MAX_SAFE_def)
qed

lemma rnd53_safe:
  "\<bar>rnd53 n\<bar> \<le> MAX_SAFE \<longleftrightarrow> \<bar>n\<bar> \<le> MAX_SAFE" "\<bar>rnd53 n\<bar> \<le> MAX_SAFE \<Longrightarrow> rnd53 n = n"
  using rnd53_small [of n] rnd53_large [of n] by linarith+

section \<open>Units\<close>

datatype units = Num int | Big int

fun units_value :: "units \<Rightarrow> int" where
  "units_value (Num n) = n"
| "units_value (Big n) = n"

text \<open>Canonical form: a number exactly if it is a safe integer.\<close>

fun canonical :: "units \<Rightarrow> bool" where
  "canonical (Num n) \<longleftrightarrow> \<bar>n\<bar> \<le> MAX_SAFE"
| "canonical (Big n) \<longleftrightarrow> MAX_SAFE < \<bar>n\<bar>"

datatype money_error =
    ResourceLimit | RoundingNecessary | DivisionByZero | InvalidArgument | CurrencyMismatch | EmptyData
  | NumericRange | InputTooLarge | InvalidMoneyText | InvalidMoneyShape | AmountOutOfRange | UnknownCurrency
  | ExchangeRateFault | InvalidExchangeRate

datatype rounding_mode = HalfEven | HalfUp | HalfDown | Down | Up | Ceiling | Floor | Unnecessary

definition MAX_SCALE :: nat where "MAX_SCALE = 100"
definition MAX_INPUT_LENGTH :: nat where "MAX_INPUT_LENGTH = 1000"
definition MAX_PARTS :: nat where "MAX_PARTS = 10000"

text \<open>\<open>Math.ceil(MAX_DIGITS * Math.log2(10) / 4)\<close> for 10 000 digits\<close>

definition MAX_HEX_DIGITS :: nat where "MAX_HEX_DIGITS = 8305"

function hex_length :: "int \<Rightarrow> nat" where
  "hex_length n = (if n < 16 then 1 else 1 + hex_length (n div 16))"
  by pat_completeness auto
termination
  by (relation "measure nat") auto

declare hex_length.simps [simp del]

definition hex_digits :: "int \<Rightarrow> nat" where
  "hex_digits v = hex_length \<bar>v\<bar>"

definition exceeds_digits :: "int \<Rightarrow> bool" where
  "exceeds_digits v \<longleftrightarrow> hex_digits v > MAX_HEX_DIGITS"

definition product_exceeds_digits :: "units \<Rightarrow> units \<Rightarrow> bool" where
  "product_exceeds_digits a b \<longleftrightarrow> hex_digits (units_value a) + hex_digits (units_value b) > MAX_HEX_DIGITS + 1"

definition limit_digits :: "int \<Rightarrow> money_error + int" where
  "limit_digits v = (if exceeds_digits v then Inl ResourceLimit else Inr v)"

definition mul_big :: "int \<Rightarrow> int \<Rightarrow> money_error + int" where
  "mul_big a b = (if hex_digits a + hex_digits b > MAX_HEX_DIGITS + 1 then Inl ResourceLimit else Inr (a * b))"

definition canon :: "int \<Rightarrow> units" where
  "canon v = (if v \<ge> - MAX_SAFE \<and> v \<le> MAX_SAFE then Num v else Big v)"

definition pow10 :: "nat \<Rightarrow> units" where
  "pow10 e = (if e \<le> 15 then Num (10 ^ e) else Big (10 ^ e))"

definition is_safe :: "int \<Rightarrow> bool" where
  "is_safe d \<longleftrightarrow> d \<le> MAX_SAFE \<and> d \<ge> - MAX_SAFE"

definition add_units :: "units \<Rightarrow> units \<Rightarrow> money_error + units" where
  "add_units a b =
     (let big = rbind (limit_digits (units_value a + units_value b)) (\<lambda>v. Inr (canon v))
      in case (a, b) of
           (Num x, Num y) \<Rightarrow> (let total = rnd53 (x + y) in if is_safe total then Inr (Num total) else big)
         | _ \<Rightarrow> big)"

definition mul_units :: "units \<Rightarrow> units \<Rightarrow> money_error + units" where
  "mul_units a b =
     (let big = rbind (mul_big (units_value a) (units_value b)) (\<lambda>v. Inr (canon v))
      in case (a, b) of
           (Num x, Num y) \<Rightarrow> (let product = rnd53 (x * y) in if is_safe product then Inr (Num product) else big)
         | _ \<Rightarrow> big)"

fun neg_units :: "units \<Rightarrow> units" where
  "neg_units (Num n) = Num (0 - n)"
| "neg_units (Big n) = Big (- n)"

definition compare_units :: "units \<Rightarrow> units \<Rightarrow> int" where
  "compare_units a b = (if units_value a < units_value b then -1 else if units_value a > units_value b then 1 else 0)"

section \<open>Rounding\<close>

definition rounds_away :: "rounding_mode option \<Rightarrow> bool \<Rightarrow> int \<Rightarrow> bool \<Rightarrow> money_error + bool" where
  "rounds_away mode negative half is_odd =
     (case mode of
        Some HalfEven \<Rightarrow> Inr (half > 0 \<or> (half = 0 \<and> is_odd))
      | Some HalfUp \<Rightarrow> Inr (half \<ge> 0)
      | Some HalfDown \<Rightarrow> Inr (half > 0)
      | Some Down \<Rightarrow> Inr False
      | Some Up \<Rightarrow> Inr True
      | Some Ceiling \<Rightarrow> Inr (\<not> negative)
      | Some Floor \<Rightarrow> Inr negative
      | _ \<Rightarrow> Inl RoundingNecessary)"

definition half_of :: "int \<Rightarrow> int \<Rightarrow> int" where
  "half_of twice divisor = (if twice > divisor then 1 else if twice < divisor then -1 else 0)"

text \<open>The double path. Its operands are safe integers, so \<open>%\<close> and \<open>/\<close> (of a multiple) are exact.\<close>

definition mul_div_num :: "int \<Rightarrow> int \<Rightarrow> rounding_mode option \<Rightarrow> money_error + units" where
  "mul_div_num product d mode =
     (let remainder = product smod d
      in if remainder = 0 then Inr (Num (product sdiv d))
         else let quotient = (product - remainder) sdiv d;
                  twice = rnd53 ((if remainder < 0 then - remainder else remainder) * 2)
              in rbind (rounds_away mode (product < 0) (half_of twice d) (quotient smod 2 \<noteq> 0)) (\<lambda>away.
                   Inr (Num (if \<not> away then quotient else if product < 0 then quotient - 1 else quotient + 1))))"

definition mul_div_big :: "int \<Rightarrow> int \<Rightarrow> int \<Rightarrow> rounding_mode option \<Rightarrow> money_error + units" where
  "mul_div_big u n d mode =
     rbind (mul_big u n) (\<lambda>product.
       let quotient = product sdiv d;
           remainder = product - quotient * d
       in if remainder = 0 then Inr (canon quotient)
          else let twice = (if remainder < 0 then - remainder else remainder) * 2
               in rbind (rounds_away mode (product < 0) (half_of twice d) (odd quotient)) (\<lambda>away.
                    Inr (canon (if \<not> away then quotient else if product < 0 then quotient - 1 else quotient + 1))))"

definition mul_div :: "units \<Rightarrow> units \<Rightarrow> units \<Rightarrow> rounding_mode option \<Rightarrow> money_error + units" where
  "mul_div u n d mode =
     (let big = mul_div_big (units_value u) (units_value n) (units_value d) mode
      in case (u, n, d) of
           (Num x, Num y, Num z) \<Rightarrow>
             (let product = rnd53 (x * y) in if is_safe product then mul_div_num product z mode else big)
         | _ \<Rightarrow> big)"

definition quantize :: "units \<Rightarrow> nat \<Rightarrow> nat \<Rightarrow> rounding_mode option \<Rightarrow> units option \<Rightarrow> money_error + units" where
  "quantize coefficient fraction scale mode step =
     (case step of
        None \<Rightarrow>
          if fraction = scale then Inr coefficient
          else if fraction < scale then mul_units coefficient (pow10 (scale - fraction))
          else mul_div coefficient (Num 1) (pow10 (fraction - scale)) mode
      | Some st \<Rightarrow>
          (let up = (if fraction < scale then pow10 (scale - fraction) else Num 1);
               down = (if fraction > scale then pow10 (fraction - scale) else Num 1)
           in rbind (mul_units down st) (\<lambda>grid.
              rbind (mul_div coefficient up grid mode) (\<lambda>q. mul_units q st))))"

definition is_exact_at_scale :: "units \<Rightarrow> nat \<Rightarrow> nat \<Rightarrow> bool" where
  "is_exact_at_scale coefficient fraction scale \<longleftrightarrow>
     fraction \<le> scale \<or> units_value coefficient smod units_value (pow10 (fraction - scale)) = 0"

text \<open>Euclid's loop, on either path.\<close>

function gcd_loop :: "int \<Rightarrow> int \<Rightarrow> int" where
  "gcd_loop x y = (if y = 0 then x else gcd_loop y (x smod y))"
  by pat_completeness auto
termination
proof (relation "measure (\<lambda>(x, y). nat \<bar>y\<bar>)")
  fix x y :: int
  assume "y \<noteq> 0"
  then show "((y, x smod y), (x, y)) \<in> measure (\<lambda>(x, y). nat \<bar>y\<bar>)"
    using smod_int_range [of y x] by auto
qed simp

declare gcd_loop.simps [simp del]

definition gcd_units :: "units \<Rightarrow> units \<Rightarrow> units" where
  "gcd_units a b =
     (case (a, b) of
        (Num x, Num y) \<Rightarrow> Num (gcd_loop x y)
      | _ \<Rightarrow> canon (gcd_loop (units_value a) (units_value b)))"

definition div_exact :: "units \<Rightarrow> units \<Rightarrow> units" where
  "div_exact a b =
     (case (a, b) of
        (Num x, Num y) \<Rightarrow> Num (x sdiv y)
      | _ \<Rightarrow> canon (units_value a sdiv units_value b))"

section \<open>The rounding contract\<close>

text \<open>
  \<open>p / d\<close> for positive \<open>d\<close>, rounded: stated over the floor and its remainder, not over the
  truncated quotient the code works with.
\<close>

definition round_div :: "rounding_mode option \<Rightarrow> int \<Rightarrow> int \<Rightarrow> money_error + int" where
  "round_div mode p d =
     (let f = p div d; r = p mod d
      in if r = 0 then Inr f
         else case mode of
           Some Floor \<Rightarrow> Inr f
         | Some Ceiling \<Rightarrow> Inr (f + 1)
         | Some Down \<Rightarrow> Inr (if p < 0 then f + 1 else f)
         | Some Up \<Rightarrow> Inr (if p < 0 then f else f + 1)
         | Some HalfEven \<Rightarrow> Inr (if 2 * r < d then f else if 2 * r > d then f + 1 else if even f then f else f + 1)
         | Some HalfUp \<Rightarrow> Inr (if 2 * r < d then f else if 2 * r > d then f + 1 else if p < 0 then f else f + 1)
         | Some HalfDown \<Rightarrow> Inr (if 2 * r < d then f else if 2 * r > d then f + 1 else if p < 0 then f + 1 else f)
         | _ \<Rightarrow> Inl RoundingNecessary)"

lemma sdiv_smod_pos:
  fixes p d :: int
  assumes "0 \<le> p" "0 < d"
  shows "p sdiv d = p div d" "p smod d = p mod d"
  using assms by (auto simp: signed_divide_int_def signed_modulo_int_def sgn_if)

lemma sdiv_smod_neg:
  fixes p d :: int
  assumes "p < 0" "0 < d" "p smod d \<noteq> 0"
  shows "p sdiv d = p div d + 1" "p smod d = p mod d - d" "p mod d \<noteq> 0"
proof -
  have "\<not> d dvd p"
  proof
    assume "d dvd p"
    then have "\<bar>p\<bar> mod \<bar>d\<bar> = 0" by (simp add: dvd_imp_mod_0)
    with assms(3) show False by (simp add: signed_modulo_int_def)
  qed
  with assms(1,2) show "p sdiv d = p div d + 1" "p smod d = p mod d - d" "p mod d \<noteq> 0"
    by (auto simp: signed_divide_int_eq_divide_int signed_modulo_int_eq_modulo_int dvd_eq_mod_eq_0)
qed

text \<open>The one rounding decision, on the truncated quotient, meets the contract.\<close>

lemma round_truncated:
  assumes d: "0 < d"
  shows "(if p smod d = 0 then Inr (p sdiv d)
    else rbind (rounds_away mode (p < 0) (half_of (2 * \<bar>p smod d\<bar>) d) (odd (p sdiv d))) (\<lambda>away.
      Inr (if \<not> away then p sdiv d else if p < 0 then p sdiv d - 1 else p sdiv d + 1))) = round_div mode p d"
proof (cases "0 \<le> p")
  case True
  have "0 \<le> p mod d" using d by simp
  with True d show ?thesis
    by (cases mode rule: option.exhaust; (simp add: sdiv_smod_pos round_div_def rounds_away_def half_of_def Let_def)?)
      (auto simp: sdiv_smod_pos round_div_def rounds_away_def half_of_def Let_def split: rounding_mode.split)
next
  case False
  then have p: "p < 0" by simp
  show ?thesis
  proof (cases "p smod d = 0")
    case True
    then have "p = p sdiv d * d" using sdiv_mult_smod_eq [of p d] by simp
    then have "d dvd p" by (metis dvd_triv_right)
    then have "p mod d = 0" "p sdiv d = p div d" by (simp_all add: signed_divide_int_eq_divide_int)
    with True show ?thesis by (simp add: round_div_def)
  next
    case rem: False
    note n = sdiv_smod_neg [OF p d rem]
    have r: "0 \<le> p mod d" "p mod d < d" using d by simp_all
    have abs: "\<bar>p smod d\<bar> = d - p mod d" using n r by simp
    have half: "half_of (2 * \<bar>p smod d\<bar>) d = - half_of (2 * (p mod d)) d" unfolding abs by (auto simp: half_of_def)
    show ?thesis
      unfolding half using rem n p
      by (cases mode rule: option.exhaust; (simp add: round_div_def rounds_away_def half_of_def Let_def)?)
        (auto simp: round_div_def rounds_away_def half_of_def Let_def split: rounding_mode.split)
  qed
qed

section \<open>Both paths compute the same\<close>

lemma canonical_canon [simp]: "canonical (canon v)"
  by (auto simp: canon_def)

lemma canon_value [simp]: "units_value (canon v) = v"
  by (simp add: canon_def)

lemma canonical_iff: "canonical u \<longleftrightarrow> u = canon (units_value u)"
  by (cases u) (auto simp: canon_def)

lemma canon_safe: "is_safe v \<Longrightarrow> canon v = Num v"
  by (simp add: canon_def is_safe_def)

lemma is_safe_abs: "is_safe v \<longleftrightarrow> \<bar>v\<bar> \<le> MAX_SAFE"
  by (auto simp: is_safe_def)

lemma hex_length_le: "n < 16 ^ k \<Longrightarrow> 1 \<le> k \<Longrightarrow> hex_length n \<le> k"
proof (induction n arbitrary: k rule: hex_length.induct)
  case (1 n)
  show ?case
  proof (cases "n < 16")
    case True
    with "1.prems" show ?thesis by (subst hex_length.simps) simp
  next
    case False
    with "1.prems" obtain j where k: "k = Suc j" "1 \<le> j" by (cases k; cases "k - 1") auto
    with "1.prems" have "n div 16 < 16 ^ j" by simp
    from "1.IH" [OF False this k(2)] show ?thesis using False k by (subst hex_length.simps) simp
  qed
qed

lemma hex_digits_safe: "\<bar>v\<bar> \<le> MAX_SAFE \<Longrightarrow> hex_digits v \<le> 14"
  unfolding hex_digits_def by (intro hex_length_le) (simp_all add: MAX_SAFE_def)

text \<open>\<open>addUnits\<close> is exact addition, refused past the digit limit, whatever path it takes.\<close>

lemma add_units_eq:
  assumes "canonical a" "canonical b"
  shows "add_units a b = (if exceeds_digits (units_value a + units_value b) then Inl ResourceLimit
    else Inr (canon (units_value a + units_value b)))"
proof -
  have big: "rbind (limit_digits v) (\<lambda>v. Inr (canon v)) = (if exceeds_digits v then Inl ResourceLimit else Inr (canon v))"
    for v by (simp add: limit_digits_def)
  show ?thesis
  proof (cases "\<exists>x y. a = Num x \<and> b = Num y \<and> is_safe (rnd53 (x + y))")
    case True
    then obtain x y where xy: "a = Num x" "b = Num y" "is_safe (rnd53 (x + y))" by blast
    then have eq: "rnd53 (x + y) = x + y" using rnd53_safe(2) [of "x + y"] by (simp add: is_safe_abs)
    with xy(3) have "is_safe (x + y)" by simp
    moreover have "\<not> exceeds_digits (x + y)"
      using hex_digits_safe [of "x + y"] calculation by (simp add: exceeds_digits_def MAX_HEX_DIGITS_def is_safe_abs)
    ultimately show ?thesis using xy eq by (simp add: add_units_def Let_def canon_safe)
  next
    case False
    then have "add_units a b = rbind (limit_digits (units_value a + units_value b)) (\<lambda>v. Inr (canon v))"
      by (cases a; cases b) (auto simp: add_units_def Let_def)
    then show ?thesis by (simp add: big)
  qed
qed

lemma mul_safe_digits:
  assumes "canonical (Num x)" "canonical (Num y)"
  shows "\<not> product_exceeds_digits (Num x) (Num y)"
  using assms hex_digits_safe [of x] hex_digits_safe [of y]
  by (simp add: product_exceeds_digits_def MAX_HEX_DIGITS_def)

lemma mul_units_eq:
  assumes "canonical a" "canonical b"
  shows "mul_units a b = (if product_exceeds_digits a b then Inl ResourceLimit
    else Inr (canon (units_value a * units_value b)))"
proof (cases "\<exists>x y. a = Num x \<and> b = Num y \<and> is_safe (rnd53 (x * y))")
  case True
  then obtain x y where xy: "a = Num x" "b = Num y" "is_safe (rnd53 (x * y))" by blast
  then have eq: "rnd53 (x * y) = x * y" using rnd53_safe(2) [of "x * y"] by (simp add: is_safe_abs)
  with xy(3) have "is_safe (x * y)" by simp
  with xy eq assms show ?thesis by (simp add: mul_units_def Let_def canon_safe mul_safe_digits)
next
  case False
  then have "mul_units a b = rbind (mul_big (units_value a) (units_value b)) (\<lambda>v. Inr (canon v))"
    by (cases a; cases b) (auto simp: mul_units_def Let_def)
  then show ?thesis by (simp add: mul_big_def product_exceeds_digits_def)
qed

lemma neg_units_canonical [simp]:
  "canonical (neg_units a) = canonical a" "units_value (neg_units a) = - units_value a"
  by (cases a; simp)+

lemma neg_units_canon: "neg_units (canon v) = canon (- v)"
  by (auto simp: canon_def)

lemma pow10_canonical [simp]: "canonical (pow10 e)" "units_value (pow10 e) = 10 ^ e" "0 < units_value (pow10 e)"
proof -
  have small: "(10::int) ^ e \<le> 10 ^ 15" if "e \<le> 15" using that by (rule power_increasing) simp
  have large: "(10::int) ^ 16 \<le> 10 ^ e" if "\<not> e \<le> 15" using that by (intro power_increasing) auto
  show "canonical (pow10 e)" using small large by (auto simp: pow10_def MAX_SAFE_def)
  show "units_value (pow10 e) = 10 ^ e" "0 < units_value (pow10 e)" by (simp_all add: pow10_def)
qed

text \<open>Doubling a remainder stays exact.\<close>

lemma rnd53_double:
  assumes "0 \<le> r" "r \<le> MAX_SAFE"
  shows "rnd53 (r * 2) = r * 2"
proof (cases "bit_length (r * 2) \<le> 53")
  case True
  with assms show ?thesis by (simp add: rnd53_def Let_def)
next
  case False
  have "bit_length (r * 2) \<le> 54" using assms by (intro bit_length_le) (simp add: MAX_SAFE_def)
  with False have e: "bit_length (r * 2) - 53 = 1" by simp
  have "rnd53 (r * 2) = sgn (r * 2) * (r * 2)"
    using False assms(1) e by (simp add: rnd53_def Let_def)
  with assms(1) show ?thesis by (simp add: sgn_if)
qed

lemma round_div_bound:
  assumes "0 < d" "\<bar>p\<bar> \<le> MAX_SAFE" "round_div mode p d = Inr q"
  shows "\<bar>q\<bar> \<le> MAX_SAFE"
proof -
  have f: "\<bar>p div d\<bar> \<le> \<bar>p div c\<bar>" if "0 < c" "c \<le> d" for c
  proof (cases "0 \<le> p")
    case True
    with that have "p div d \<le> p div c" "0 \<le> p div d" by (simp_all add: zdiv_mono2 pos_imp_zdiv_nonneg_iff)
    then show ?thesis by simp
  next
    case False
    with that have "p div c \<le> p div d" "p div d < 0" by (simp_all add: zdiv_mono2_neg pos_imp_zdiv_neg_iff)
    then show ?thesis by simp
  qed
  show ?thesis
  proof (cases "p mod d = 0")
    case True
    then have "q = p div d" using assms(3) by (simp add: round_div_def)
    with f [of 1] assms(1,2) show ?thesis by simp
  next
    case False
    then have d: "2 \<le> d" using assms(1) by (cases "d = 1") auto
    have "q = p div d \<or> q = p div d + 1"
      using assms(3) False
      by (auto simp: round_div_def Let_def split: option.splits rounding_mode.splits if_splits)
    moreover have "\<bar>p div 2\<bar> + 1 \<le> MAX_SAFE" using assms(2) by (simp add: MAX_SAFE_def)
    ultimately show ?thesis using f [of 2] d by auto
  qed
qed

text \<open>\<open>mulDiv\<close> meets the rounding contract on the double path and on the bigint path.\<close>

lemma smod_two_odd: "(q smod 2 \<noteq> 0) = odd (q :: int)"
  by (cases "even q") (simp_all add: signed_modulo_int_eq_modulo_int odd_iff_mod_2_eq_one of_bool_def)

lemma mul_div_num_eq:
  assumes d: "0 < d" "d \<le> MAX_SAFE" and p: "\<bar>p\<bar> \<le> MAX_SAFE"
  shows "mul_div_num p d mode = map_sum id canon (round_div mode p d)"
proof -
  have rem: "\<bar>p smod d\<bar> \<le> MAX_SAFE" using smod_int_range [of d p] d by auto
  have "(if p smod d < 0 then - (p smod d) else p smod d) = \<bar>p smod d\<bar>" by simp
  then have twice: "rnd53 ((if p smod d < 0 then - (p smod d) else p smod d) * 2) = 2 * \<bar>p smod d\<bar>"
    using rnd53_double [of "\<bar>p smod d\<bar>"] rem by simp
  have quotient: "(p - p smod d) sdiv d = p sdiv d"
    using d by (simp add: minus_smod_eq_sdiv_mult signed_divide_int_def sgn_mult abs_mult mult.assoc)
      (auto simp: sgn_if)
  have "mul_div_num p d mode = map_sum id Num (round_div mode p d)"
    unfolding round_truncated [OF d(1), symmetric] mul_div_num_def Let_def twice quotient smod_two_odd
    by (cases "rounds_away mode (p < 0) (half_of (2 * \<bar>p smod d\<bar>) d) (odd (p sdiv d))") auto
  also have "\<dots> = map_sum id canon (round_div mode p d)"
  proof (cases "round_div mode p d")
    case (Inr q)
    from round_div_bound [OF d(1) p Inr] have "canon q = Num q" by (simp add: canon_safe is_safe_abs)
    with Inr show ?thesis by simp
  qed simp
  finally show ?thesis .
qed

lemma mul_div_big_eq:
  assumes d: "0 < d"
  shows "mul_div_big u n d mode = (if hex_digits u + hex_digits n > MAX_HEX_DIGITS + 1 then Inl ResourceLimit
    else map_sum id canon (round_div mode (u * n) d))"
proof -
  have twice: "(if p smod d < 0 then - (p smod d) else p smod d) * 2 = 2 * \<bar>p smod d\<bar>" for p by simp
  show ?thesis
    unfolding mul_div_big_def mul_big_def Let_def minus_sdiv_mult_eq_smod twice round_truncated [OF d, symmetric]
    by (cases "rounds_away mode (u * n < 0) (half_of (2 * \<bar>u * n smod d\<bar>) d) (odd (u * n sdiv d))") auto
qed

lemma mul_div_eq:
  assumes "canonical u" "canonical n" "canonical d" "0 < units_value d"
  shows "mul_div u n d mode = (if product_exceeds_digits u n then Inl ResourceLimit
    else map_sum id canon (round_div mode (units_value u * units_value n) (units_value d)))"
proof (cases "\<exists>x y z. u = Num x \<and> n = Num y \<and> d = Num z \<and> is_safe (rnd53 (x * y))")
  case True
  then obtain x y z where xyz: "u = Num x" "n = Num y" "d = Num z" "is_safe (rnd53 (x * y))" by blast
  then have eq: "rnd53 (x * y) = x * y" using rnd53_safe(2) [of "x * y"] by (simp add: is_safe_abs)
  with xyz(4) have "\<bar>x * y\<bar> \<le> MAX_SAFE" by (simp add: is_safe_abs)
  moreover have "0 < z" "z \<le> MAX_SAFE" using assms(3,4) xyz(3) by simp_all
  ultimately have "mul_div_num (x * y) z mode = map_sum id canon (round_div mode (x * y) z)"
    by (intro mul_div_num_eq)
  moreover have "\<not> product_exceeds_digits (Num x) (Num y)" using assms xyz by (intro mul_safe_digits) simp_all
  ultimately show ?thesis using xyz eq by (simp add: mul_div_def Let_def)
next
  case False
  then have "mul_div u n d mode = mul_div_big (units_value u) (units_value n) (units_value d) mode"
    by (cases u; cases n; cases d) (auto simp: mul_div_def Let_def)
  then show ?thesis using mul_div_big_eq [OF assms(4)] by (simp add: product_exceeds_digits_def)
qed

text \<open>What the contract is worth: the result is the nearest whole number, or one next to it.\<close>

lemma round_div_error:
  assumes "0 < d" "round_div mode p d = Inr q"
  shows "\<bar>q * d - p\<bar> < d"
    and "mode \<in> {Some HalfEven, Some HalfUp, Some HalfDown} \<Longrightarrow> 2 * \<bar>q * d - p\<bar> \<le> d"
    and "mode \<in> {None, Some Unnecessary} \<Longrightarrow> q * d = p"
proof -
  define f r where "f = p div d" and "r = p mod d"
  have r: "0 \<le> r" "r < d" using assms(1) by (simp_all add: r_def)
  have "f * d + r = p" unfolding f_def r_def by (rule div_mult_mod_eq)
  then have p: "f * d - p = - r" by linarith
  then have p1: "(f + 1) * d - p = d - r" by (simp add: algebra_simps)
  note R = assms(2) [unfolded round_div_def Let_def, folded f_def r_def]
  have q: "(q = f \<and> q * d - p = - r) \<or> (q = f + 1 \<and> q * d - p = d - r \<and> r \<noteq> 0)"
  proof -
    have "q = f \<or> (q = f + 1 \<and> r \<noteq> 0)"
      using R by (auto split: option.splits rounding_mode.splits if_splits)
    with p p1 show ?thesis by auto
  qed
  with r show "\<bar>q * d - p\<bar> < d" by auto
  show "2 * \<bar>q * d - p\<bar> \<le> d" if "mode \<in> {Some HalfEven, Some HalfUp, Some HalfDown}"
  proof -
    have "q = f \<and> 2 * r \<le> d \<or> q = f + 1 \<and> d \<le> 2 * r"
      using that R r assms(1) by (auto split: if_splits)
    with p p1 r show ?thesis by auto
  qed
  show "q * d = p" if "mode \<in> {None, Some Unnecessary}"
  proof -
    have "q = f \<and> r = 0" using that R by (auto split: if_splits)
    with p show ?thesis by simp
  qed
qed

section \<open>The contract of the number tower\<close>

text \<open>
  Sums and products of amounts are exact and canonical on both representations. The
  double path never returns a rounded value: a double sum or product that reads as a safe
  integer is the true one, everything else goes through \<open>bigint\<close>, and the only failure is the
  digit limit.
\<close>

theorem unit_arithmetic_exact:
  assumes "canonical a" "canonical b"
  shows "(case add_units a b of
       Inr c \<Rightarrow> canonical c \<and> units_value c = units_value a + units_value b
     | Inl e \<Rightarrow> e = ResourceLimit \<and> exceeds_digits (units_value a + units_value b)) \<and>
    (case mul_units a b of
       Inr c \<Rightarrow> canonical c \<and> units_value c = units_value a * units_value b
     | Inl e \<Rightarrow> e = ResourceLimit \<and> product_exceeds_digits a b)"
  using assms by (simp add: add_units_eq mul_units_eq)

lemma unit_arithmetic_exact_witness:
  "add_units (Num 9007199254740991) (Num 2) = Inr (Big 9007199254740993)"
proof -
  have "\<not> exceeds_digits 9007199254740993" by code_simp
  with unit_arithmetic_exact [of "Num 9007199254740991" "Num 2"] show ?thesis
    by (auto simp: MAX_SAFE_def canonical_iff canon_def split: sum.splits)
qed

text \<open>
  \<open>mulDiv\<close>, to which every rounding in the package reduces, is \<open>units * numerator /
  denominator\<close> rounded by the mode's definition, on the double path and on the bigint path
  alike: less than one unit off, at most half a unit in the three half modes, exact or
  refused without a mode; the result is canonical.
\<close>

theorem mul_div_rounds:
  assumes "canonical u" "canonical n" "canonical d" "0 < units_value d"
  shows "case mul_div u n d mode of
      Inr q \<Rightarrow> canonical q \<and> round_div mode (units_value u * units_value n) (units_value d) = Inr (units_value q) \<and>
        \<bar>units_value q * units_value d - units_value u * units_value n\<bar> < units_value d \<and>
        (mode \<in> {Some HalfEven, Some HalfUp, Some HalfDown} \<longrightarrow>
          2 * \<bar>units_value q * units_value d - units_value u * units_value n\<bar> \<le> units_value d) \<and>
        (mode \<in> {None, Some Unnecessary} \<longrightarrow> units_value q * units_value d = units_value u * units_value n)
    | Inl e \<Rightarrow> (e = ResourceLimit \<and> product_exceeds_digits u n) \<or>
        (e = RoundingNecessary \<and> mode \<in> {None, Some Unnecessary} \<and>
         \<not> units_value d dvd units_value u * units_value n)"
proof -
  let ?p = "units_value u * units_value n" and ?d = "units_value d"
  have err: "e = RoundingNecessary \<and> mode \<in> {None, Some Unnecessary} \<and> \<not> ?d dvd ?p" if "round_div mode ?p ?d = Inl e" for e
    using that by (auto simp: round_div_def Let_def dvd_eq_mod_eq_0 split: option.splits rounding_mode.splits if_splits)
  show ?thesis
  proof (cases "product_exceeds_digits u n")
    case True
    then show ?thesis using mul_div_eq [OF assms] by simp
  next
    case False
    note eq = mul_div_eq [OF assms, of mode]
    show ?thesis
    proof (cases "round_div mode ?p ?d")
      case (Inl e)
      with eq False err show ?thesis by simp
    next
      case (Inr q)
      with eq False round_div_error [OF assms(4) Inr] show ?thesis by simp
    qed
  qed
qed

lemma mul_div_rounds_witness:
  "\<exists>q. mul_div (Num 999) (Num 119) (Num 100) (Some HalfEven) = Inr q \<and> canonical q \<and>
     2 * \<bar>units_value q * 100 - 999 * 119\<bar> \<le> 100"
proof -
  have "mul_div (Num 999) (Num 119) (Num 100) (Some HalfEven) = Inr (Num 1189)" by code_simp
  with mul_div_rounds [of "Num 999" "Num 119" "Num 100" "Some HalfEven"] show ?thesis
    by (simp add: MAX_SAFE_def)
qed

end
