(* ===== verification/MoneyCurrency.thy ===== *)
theory MoneyCurrency
  imports MoneyUnits
begin

text \<open>
  Currencies: \<open>packages/money/src/currency.ts\<close> with its packed ISO 4217 table
  (\<open>data/iso4217.ts\<close>). A currency object is a record; two objects are the same currency when
  code and scale agree, which is what the pointer comparisons of the source fall back to. The
  lemmas show that the packed table decodes to distinct, sorted, well-formed entries, so that
  every lookup by code finds its own entry.
\<close>

section \<open>Currencies\<close>

record currency =
  code :: string
  cur_numeric :: "string option"
  cur_scale :: nat
  iso :: bool

definition currency_eq :: "currency \<Rightarrow> currency \<Rightarrow> bool" where
  "currency_eq a b \<longleftrightarrow> code a = code b \<and> cur_scale a = cur_scale b"

definition assert_same_currency :: "currency \<Rightarrow> currency \<Rightarrow> money_error + unit" where
  "assert_same_currency a b =
     (if code a \<noteq> code b \<or> cur_scale a \<noteq> cur_scale b then Inl CurrencyMismatch else Inr ())"

section \<open>The ISO 4217 table\<close>

definition ISO_4217 :: string where
  "ISO_4217 =
   ''AED7842AFN9712ALL0082AMD0512AOA9732ARS0322AUD0362AWG5332AZN9442BAM9772'' @
   ''BBD0522BDT0502BHD0483BIF1080BMD0602BND0962BOB0682BOV9842BRL9862BSD0442'' @
   ''BTN0642BWP0722BYN9332BZD0842CAD1242CDF9762CHE9472CHF7562CHW9482CLF9904'' @
   ''CLP1520CNY1562COP1702COU9702CRC1882CUP1922CVE1322CZK2032DJF2620DKK2082'' @
   ''DOP2142DZD0122EGP8182ERN2322ETB2302EUR9782FJD2422FKP2382GBP8262GEL9812'' @
   ''GHS9362GIP2922GMD2702GNF3240GTQ3202GYD3282HKD3442HNL3402HTG3322HUF3482'' @
   ''IDR3602ILS3762INR3562IQD3683IRR3642ISK3520JMD3882JOD4003JPY3920KES4042'' @
   ''KGS4172KHR1162KMF1740KPW4082KRW4100KWD4143KYD1362KZT3982LAK4182LBP4222'' @
   ''LKR1442LRD4302LSL4262LYD4343MAD5042MDL4982MGA9692MKD8072MMK1042MNT4962'' @
   ''MOP4462MRU9292MUR4802MVR4622MWK4542MXN4842MXV9792MYR4582MZN9432NAD5162'' @
   ''NGN5662NIO5582NOK5782NPR5242NZD5542OMR5123PAB5902PEN6042PGK5982PHP6082'' @
   ''PKR5862PLN9852PYG6000QAR6342RON9462RSD9412RUB6432RWF6460SAR6822SBD0902'' @
   ''SCR6902SDG9382SEK7522SGD7022SHP6542SLE9252SOS7062SRD9682SSP7282STN9302'' @
   ''SVC2222SYP7602SZL7482THB7642TJS9722TMT9342TND7883TOP7762TRY9492TTD7802'' @
   ''TWD9012TZS8342UAH9802UGX8000USD8402USN9972UYI9400UYU8582UYW9274UZS8602'' @
   ''VED9262VES9282VND7040VUV5480WST8822XAD3962XAF9500XAG961-XAU959-XBA955-'' @
   ''XBB956-XBC957-XBD958-XCD9512XCG5322XDR960-XOF9520XPD964-XPF9530XPT962-'' @
   ''XSU994-XTS963-XUA965-XXX999-YER8862ZAR7102ZMW9672ZWG9242''"

text \<open>One entry: three letters, three digits, and the digit of the scale (\<open>-\<close> is 0).\<close>

definition iso_entry :: "string \<Rightarrow> currency" where
  "iso_entry s =
     (let digit = s ! 6
      in \<lparr>code = take 3 s, cur_numeric = Some (take 3 (drop 3 s)),
          cur_scale = (if digit = CHR ''-'' then 0 else of_char digit - 48), iso = True\<rparr>)"

function iso_entries :: "string \<Rightarrow> currency list" where
  "iso_entries s = (if s = [] then [] else iso_entry s # iso_entries (drop 7 s))"
  by pat_completeness auto
termination
  by (relation "measure length") auto

declare iso_entries.simps [simp del]

text \<open>\<open>Currency.table()\<close>, a map in insertion order.\<close>

definition table :: "(string \<times> currency) list" where
  "table = fold (\<lambda>c m. AList.update (code c) c m) (iso_entries ISO_4217) []"

section \<open>Lookup\<close>

text \<open>\<open>Currency.parse(code, currencies)\<close>: the first custom currency with the code, then ISO.\<close>

definition parse_currency :: "string \<Rightarrow> currency list option \<Rightarrow> money_error + currency" where
  "parse_currency c custom =
     (case find (\<lambda>x. code x = c) (case custom of None \<Rightarrow> [] | Some xs \<Rightarrow> xs) of
        Some x \<Rightarrow> Inr x
      | None \<Rightarrow>
          (case map_of table c of
             Some x \<Rightarrow> if code x = c then Inr x else Inl UnknownCurrency
           | None \<Rightarrow> Inl UnknownCurrency))"

text \<open>\<open>Currency.of\<close> and \<open>requireCurrency\<close> throw where \<open>parse\<close> returns the failure.\<close>

definition currency_of :: "string \<Rightarrow> money_error + currency" where
  "currency_of c = parse_currency c None"

definition is_known :: "string \<Rightarrow> bool" where
  "is_known c \<longleftrightarrow> c \<in> fst ` set table"

definition codes :: "string list" where
  "codes = map fst table"

text \<open>\<open>String(numeric).padStart(3, '0')\<close> of a number, or the text as it is.\<close>

definition numeric_key :: "nat + string \<Rightarrow> string" where
  "numeric_key n =
     (case n of
        Inr s \<Rightarrow> s
      | Inl k \<Rightarrow> (let s = map (\<lambda>d. char_of (48 + d)) (dec_digits k)
                 in replicate (3 - length s) (CHR ''0'') @ s))"

text \<open>The index by numeric code is filled in table order, so a later entry wins.\<close>

definition by_numeric :: "(string \<times> currency) list" where
  "by_numeric = fold (\<lambda>c m. case cur_numeric c of None \<Rightarrow> m | Some n \<Rightarrow> AList.update n c m) (map snd table) []"

definition parse_numeric :: "nat + string \<Rightarrow> money_error + currency" where
  "parse_numeric n = (case map_of by_numeric (numeric_key n) of Some c \<Rightarrow> Inr c | None \<Rightarrow> Inl UnknownCurrency)"

section \<open>Custom currencies\<close>

definition is_letter :: "char \<Rightarrow> bool" where
  "is_letter c \<longleftrightarrow> (let n = of_char c :: nat in 65 \<le> n \<and> n \<le> 90 \<or> 97 \<le> n \<and> n \<le> 122)"

definition is_ascii_digit :: "char \<Rightarrow> bool" where
  "is_ascii_digit c \<longleftrightarrow> (let n = of_char c :: nat in 48 \<le> n \<and> n \<le> 57)"

text \<open>The pattern \<open>CUSTOM_CODE\<close>\<close>

definition custom_code :: "string \<Rightarrow> bool" where
  "custom_code s \<longleftrightarrow> s \<noteq> [] \<and> is_letter (hd s) \<and> length (tl s) \<le> 31 \<and>
     list_all (\<lambda>c. is_letter c \<or> is_ascii_digit c \<or> c \<in> set ''_.:-'') (tl s)"

definition custom_currency :: "string \<Rightarrow> int \<Rightarrow> string option \<Rightarrow> money_error + currency" where
  "custom_currency c sc num =
     (if \<not> custom_code c then Inl InvalidArgument
      else if is_known c then Inl InvalidArgument
      else if sc < 0 \<or> sc > int MAX_SCALE then Inl InvalidArgument
      else if (case num of None \<Rightarrow> False | Some n \<Rightarrow> \<not> (length n = 3 \<and> list_all is_ascii_digit n)) then Inl InvalidArgument
      else Inr \<lparr>code = c, cur_numeric = num, cur_scale = nat sc, iso = False\<rparr>)"

section \<open>The table is well formed\<close>

text \<open>Texts compared as JavaScript compares them, by code unit.\<close>

fun text_less :: "string \<Rightarrow> string \<Rightarrow> bool" where
  "text_less [] t = (t \<noteq> [])"
| "text_less (c # s) [] = False"
| "text_less (c # s) (d # t) = (if c = d then text_less s t else (of_char c :: nat) < of_char d)"

lemma iso_entries_step:
  "iso_entries (a # b # c # d # e # f # g # s) =
     \<lparr>code = [a, b, c], cur_numeric = Some [d, e, f],
      cur_scale = (if g = CHR ''-'' then 0 else of_char g - 48), iso = True\<rparr> # iso_entries s"
  by (subst iso_entries.simps) (simp add: iso_entry_def Let_def numeral_eq_Suc)

lemma iso_entries_Nil: "iso_entries [] = []"
  by (simp add: iso_entries.simps)

fun ascending :: "string list \<Rightarrow> bool" where
  "ascending (s # t # ss) \<longleftrightarrow> text_less s t \<and> ascending (t # ss)"
| "ascending _ \<longleftrightarrow> True"

definition entry_ok :: "currency \<Rightarrow> bool" where
  "entry_ok c \<longleftrightarrow> length (code c) = 3 \<and> list_all is_letter (code c) \<and> cur_scale c \<le> 4 \<and> iso c \<and>
     (case cur_numeric c of None \<Rightarrow> False | Some n \<Rightarrow> length n = 3 \<and> list_all is_ascii_digit n)"

lemma iso_ascending: "ascending (map code (iso_entries ISO_4217))"
  unfolding ISO_4217_def by (simp add: iso_entries_step iso_entries_Nil)

lemma iso_entries_ok: "list_all entry_ok (iso_entries ISO_4217)"
  unfolding ISO_4217_def
  by (simp add: iso_entries_step iso_entries_Nil entry_ok_def is_letter_def is_ascii_digit_def Let_def)

lemma text_less_trans: "text_less a b \<Longrightarrow> text_less b c \<Longrightarrow> text_less a c"
proof (induction a arbitrary: b c)
  case Nil
  then show ?case by (cases b; cases c) auto
next
  case (Cons x a)
  then show ?case by (cases b; cases c) (auto split: if_splits)
qed

lemma text_less_irrefl: "\<not> text_less a a"
  by (induction a) auto

lemma ascending_sorted: "ascending ss \<Longrightarrow> sorted_wrt text_less ss"
proof (induction ss rule: ascending.induct)
  case (1 s t ss)
  then have "text_less s t" "sorted_wrt text_less (t # ss)" by auto
  moreover from this have "text_less s u" if "u \<in> set ss" for u
    using that text_less_trans by auto
  ultimately show ?case by auto
qed simp_all

lemma sorted_distinct: "sorted_wrt text_less ss \<Longrightarrow> distinct ss"
  by (induction ss) (auto simp: text_less_irrefl)

lemma iso_codes: "sorted_wrt text_less (map code (iso_entries ISO_4217))"
  by (rule ascending_sorted [OF iso_ascending])

section \<open>Lookups find their own entry\<close>

lemma table_eq: "table = map (\<lambda>c. (code c, c)) (iso_entries ISO_4217)"
proof -
  have "fold (\<lambda>c m. AList.update (code c) c m) cs m = m @ map (\<lambda>c. (code c, c)) cs"
    if "distinct (map fst m @ map code cs)" for cs m
    using that by (induction cs arbitrary: m) (auto simp: update_fresh)
  from this [of "[]"] show ?thesis
    unfolding table_def using sorted_distinct [OF iso_codes] by simp
qed

lemma table_lookup: "map_of table c = Some x \<longleftrightarrow> x \<in> set (iso_entries ISO_4217) \<and> code x = c"
proof -
  have "distinct (map fst table)" using sorted_distinct [OF iso_codes] by (simp add: table_eq comp_def)
  then show ?thesis by (auto simp: map_of_eq_Some_iff table_eq)
qed

lemma codes_eq: "codes = map code (iso_entries ISO_4217)"
  by (simp add: codes_def table_eq)

lemma is_known_iff: "is_known c \<longleftrightarrow> c \<in> set codes"
  by (simp add: is_known_def codes_def)

lemma parse_currency_custom:
  "parse_currency c (Some [x]) = (if code x = c then Inr x else parse_currency c None)"
  by (simp add: parse_currency_def)

lemma currency_of_known:
  "currency_of c = (case map_of table c of Some x \<Rightarrow> Inr x | None \<Rightarrow> Inl UnknownCurrency)"
  by (cases "map_of table c") (auto simp: currency_of_def parse_currency_def dest: iffD1 [OF table_lookup])

lemma currency_of_unknown: "\<not> is_known c \<Longrightarrow> currency_of c = Inl UnknownCurrency"
  by (auto simp: currency_of_known is_known_def map_of_eq_None_iff split: option.split dest: map_of_SomeD)

lemma currency_of_code:
  assumes "k \<in> set codes"
  shows "\<exists>y. currency_of k = Inr y \<and> code y = k \<and> entry_ok y"
proof -
  from assms obtain y where "y \<in> set (iso_entries ISO_4217)" "code y = k" by (auto simp: codes_eq)
  with iso_entries_ok table_lookup [of k y] show ?thesis by (auto simp: currency_of_known list_all_iff)
qed

text \<open>
  The packed ISO table and custom currencies never get in each other's way. The codes of
  the table are in strictly ascending order, each is found as itself with three letters, three
  digits and a small scale; a custom currency has a code no ISO currency has and a scale within
  the limit, is found by its code when listed, and listing it changes no ISO lookup.
\<close>

theorem custom_never_shadows:
  assumes "custom_currency c s n = Inr x"
  shows "sorted_wrt text_less codes \<and> code x = c \<and> cur_scale x \<le> MAX_SCALE \<and>
    currency_of c = Inl UnknownCurrency \<and> parse_currency c (Some [x]) = Inr x \<and>
    (\<forall>k \<in> set codes. parse_currency k (Some [x]) = currency_of k \<and>
       (\<exists>y. currency_of k = Inr y \<and> code y = k \<and> entry_ok y))"
proof -
  from assms have x: "code x = c" "cur_scale x \<le> MAX_SCALE" "\<not> is_known c"
    by (auto simp: custom_currency_def split: if_splits)
  then have "parse_currency k (Some [x]) = currency_of k" if "k \<in> set codes" for k
    using that by (auto simp: parse_currency_custom is_known_iff currency_of_def)
  with x currency_of_unknown [OF x(3)] iso_codes currency_of_code show ?thesis
    by (simp add: codes_eq parse_currency_custom)
qed

lemma iso_codes_length: "list_all (\<lambda>k. length k = 3) codes"
  using iso_entries_ok by (auto simp: codes_eq list_all_iff entry_ok_def)

theorem custom_never_shadows_witness:
  "custom_currency ''crypto:ETH'' 18 None = Inr \<lparr>code = ''crypto:ETH'', cur_numeric = None, cur_scale = 18, iso = False\<rparr> \<and>
   currency_of ''crypto:ETH'' = Inl UnknownCurrency"
proof -
  have "\<not> is_known ''crypto:ETH''"
    using iso_codes_length by (auto simp: is_known_iff list_all_iff)
  then have "custom_currency ''crypto:ETH'' 18 None =
      Inr \<lparr>code = ''crypto:ETH'', cur_numeric = None, cur_scale = 18, iso = False\<rparr>"
    by (simp add: custom_currency_def custom_code_def is_letter_def is_ascii_digit_def MAX_SCALE_def)
  from this custom_never_shadows [OF this] show ?thesis by blast
qed

end
