(* ===== verification/MoneyDecimal.thy ===== *)
theory MoneyDecimal
  imports MoneyUnits
begin

text \<open>
  Decimal text: \<open>parseDecimal\<close> and \<open>toUnits\<close> of \<open>packages/money/src/internal/units.ts\<close>, and the
  printing of a number of units at a scale, \<open>toDecimalString\<close> of \<open>money.ts\<close>. A text is its list
  of characters; the patterns of the source accept ASCII only. The lemmas show that reading
  undoes printing.
\<close>

section \<open>Reading\<close>

definition is_dec :: "char \<Rightarrow> bool" where
  "is_dec c \<longleftrightarrow> 48 \<le> (of_char c :: nat) \<and> (of_char c :: nat) \<le> 57"

definition digit_of :: "char \<Rightarrow> nat" where
  "digit_of c = of_char c - 48"

definition char_of_digit :: "nat \<Rightarrow> char" where
  "char_of_digit d = char_of (48 + d)"

text \<open>\<open>Number(digits)\<close> and \<open>BigInt(digits)\<close> of a text of digits\<close>

definition digits_value :: "string \<Rightarrow> nat" where
  "digits_value s = dec_value (map digit_of s)"

text \<open>An optional sign: whether it is a minus, and the rest.\<close>

fun take_sign :: "string \<Rightarrow> bool \<times> string" where
  "take_sign (c # cs) = (if c = CHR ''-'' then (True, cs) else if c = CHR ''+'' then (False, cs) else (False, c # cs))"
| "take_sign [] = (False, [])"

text \<open>
  The groups of the pattern \<open>DECIMAL\<close>: minus sign, whole digits, fraction digits (empty when
  there is no point), and the exponent. A run of digits is matched greedily; giving digits
  back never helps, since what follows a run is not a digit.
\<close>

definition split_exponent :: "string \<Rightarrow> int option" where
  "split_exponent s =
     (case s of
        [] \<Rightarrow> Some 0
      | c # cs \<Rightarrow>
          (case take_sign cs of
             (neg, ds) \<Rightarrow>
               if c \<in> {CHR ''e'', CHR ''E''} \<and> ds \<noteq> [] \<and> length ds \<le> 4 \<and> list_all is_dec ds
               then Some (if neg then - int (digits_value ds) else int (digits_value ds))
               else None))"

definition split_fraction :: "string \<Rightarrow> (string \<times> string) option" where
  "split_fraction s =
     (case s of
        CHR ''.'' # cs \<Rightarrow>
          if takeWhile is_dec cs = [] then None else Some (takeWhile is_dec cs, dropWhile is_dec cs)
      | _ \<Rightarrow> Some ([], s))"

definition split_decimal :: "string \<Rightarrow> (bool \<times> string \<times> string \<times> int) option" where
  "split_decimal text =
     (case take_sign text of
        (neg, s) \<Rightarrow>
          if takeWhile is_dec s = [] then None
          else (case split_fraction (dropWhile is_dec s) of
                  None \<Rightarrow> None
                | Some (fraction, after) \<Rightarrow>
                    (case split_exponent after of
                       None \<Rightarrow> None
                     | Some e \<Rightarrow> Some (neg, takeWhile is_dec s, fraction, e))))"

definition parse_decimal :: "string \<Rightarrow> money_error + (units \<times> nat)" where
  "parse_decimal text =
     (if length text > MAX_INPUT_LENGTH then Inl InputTooLarge
      else case split_decimal text of
        None \<Rightarrow> Inl InvalidMoneyText
      | Some (neg, whole, fraction_digits, e) \<Rightarrow>
          (let digits = whole @ fraction_digits;
               magnitude = (if length digits \<le> 15 then Num (int (digits_value digits))
                            else canon (int (digits_value digits)));
               coefficient = (if neg then neg_units magnitude else magnitude);
               fraction = int (length fraction_digits) - e
           in if fraction > int MAX_INPUT_LENGTH \<or> fraction < - int MAX_INPUT_LENGTH then Inl InputTooLarge
              else if fraction \<ge> 0 then Inr (coefficient, nat fraction)
              else rbind (mul_units coefficient (pow10 (nat (- fraction)))) (\<lambda>c. Inr (c, 0))))"

text \<open>Whole minor units of \<open>toUnits\<close>: a safe or another number, a bigint, or a text.\<close>

datatype minor_input = MinorNumber int | MinorUnsafe | MinorBigint int | MinorText string

definition to_units :: "minor_input \<Rightarrow> money_error + units" where
  "to_units v =
     (case v of
        MinorNumber n \<Rightarrow> if is_safe n then Inr (Num n) else Inl AmountOutOfRange
      | MinorUnsafe \<Rightarrow> Inl AmountOutOfRange
      | MinorBigint n \<Rightarrow> if exceeds_digits n then Inl InputTooLarge else Inr (canon n)
      | MinorText text \<Rightarrow>
          if length text > MAX_INPUT_LENGTH then Inl InputTooLarge
          else (case take_sign text of
                  (neg, ds) \<Rightarrow>
                    if ds \<noteq> [] \<and> list_all is_dec ds
                    then Inr (canon (if neg then - int (digits_value ds) else int (digits_value ds)))
                    else Inl InvalidMoneyText))"

section \<open>Printing\<close>

text \<open>\<open>String(units)\<close> of a value that is not negative\<close>

definition units_text :: "units \<Rightarrow> string" where
  "units_text u = map char_of_digit (dec_digits (nat (units_value u)))"

text \<open>The point goes in front of the last \<open>scale\<close> digits, after zeros that make up for missing ones.\<close>

definition decimal_string :: "units \<Rightarrow> nat \<Rightarrow> string" where
  "decimal_string u scale =
     (let negative = units_value u < 0;
          digits = units_text (if negative then neg_units u else u);
          sign = (if negative then ''-'' else [])
      in if scale = 0 then sign @ digits
         else let digits = (if length digits \<le> scale
                            then replicate (scale - length digits + 1) (CHR ''0'') @ digits else digits);
                  k = length digits - scale
              in sign @ take k digits @ ''.'' @ drop k digits)"

section \<open>Digits\<close>

lemma is_dec_digit [simp]: "d < 10 \<Longrightarrow> is_dec (char_of_digit d)"
  by (simp add: char_of_digit_def is_dec_def)

lemma digit_of_char [simp]: "d < 10 \<Longrightarrow> digit_of (char_of_digit d) = d"
  by (simp add: digit_of_def char_of_digit_def)

lemma units_text_digits: "0 \<le> units_value u \<Longrightarrow> list_all is_dec (units_text u)"
  by (auto simp: units_text_def list_all_iff dest: dec_digits_small)

lemma units_text_value: "0 \<le> units_value u \<Longrightarrow> int (digits_value (units_text u)) = units_value u"
proof -
  assume u: "0 \<le> units_value u"
  have "map (digit_of \<circ> char_of_digit) (dec_digits n) = dec_digits n" for n
    by (rule map_idI) (auto dest: dec_digits_small)
  with u show ?thesis by (simp add: units_text_def digits_value_def decimal_simps)
qed

lemma units_text_nonempty: "units_text u \<noteq> []"
  by (simp add: units_text_def decimal_simps)

lemma digits_value_zeros: "digits_value (replicate k (CHR ''0'') @ s) = digits_value s"
  by (simp add: digits_value_def digit_of_def decimal_simps)

lemma dec_value_less: "\<forall>d \<in> set ds. d < 10 \<Longrightarrow> dec_value ds < 10 ^ length ds"
proof (induction ds rule: rev_induct)
  case Nil
  then show ?case by (simp add: dec_value_def)
next
  case (snoc d ds)
  then have "dec_value ds < 10 ^ length ds" "d < 10" by auto
  then show ?case by (simp add: decimal_simps)
qed

lemma digits_value_less: "list_all is_dec s \<Longrightarrow> digits_value s < 10 ^ length s"
  using dec_value_less [of "map digit_of s"]
  by (fastforce simp: digits_value_def list_all_iff is_dec_def digit_of_def)

lemma takeWhile_all: "list_all P xs \<Longrightarrow> (\<And>y ys'. ys = y # ys' \<Longrightarrow> \<not> P y) \<Longrightarrow>
    takeWhile P (xs @ ys) = xs \<and> dropWhile P (xs @ ys) = ys"
  by (induction xs) (cases ys; auto)+

lemma take_sign_digits: "s \<noteq> [] \<Longrightarrow> list_all is_dec s \<Longrightarrow> take_sign (s @ t) = (False, s @ t)"
  by (cases s) (auto simp: is_dec_def)

section \<open>Reading undoes printing\<close>

lemma split_plain:
  assumes "w \<noteq> []" "list_all is_dec w" "list_all is_dec f"
  shows "split_decimal ((if neg then ''-'' else []) @ w @ (if f = [] then [] else ''.'' @ f)) = Some (neg, w, f, 0)"
proof -
  let ?t = "w @ (if f = [] then [] else ''.'' @ f)"
  have sign: "take_sign ((if neg then ''-'' else []) @ ?t) = (neg, ?t)"
    by (cases neg) (simp_all only: take_sign_digits [OF assms(1,2)] simp_thms if_True if_False append.simps take_sign.simps)
  have w: "takeWhile is_dec ?t = w \<and> dropWhile is_dec ?t = (if f = [] then [] else ''.'' @ f)"
    by (rule takeWhile_all [OF assms(2)]) (auto simp: is_dec_def split: if_splits)
  have f: "takeWhile is_dec f = f \<and> dropWhile is_dec f = []"
    using takeWhile_all [OF assms(3), of "[]"] by simp
  show ?thesis
    unfolding split_decimal_def sign prod.case conjunct1 [OF w] conjunct2 [OF w]
    using assms(1) conjunct1 [OF f] conjunct2 [OF f]
    by (cases "f = []") (simp_all del: takeWhile_eq_all_conv dropWhile_eq_Nil_conv add: split_fraction_def split_exponent_def)
qed

lemma coefficient_eq:
  assumes "list_all is_dec ds"
  shows "(if length ds \<le> 15 then Num (int (digits_value ds)) else canon (int (digits_value ds))) = canon (int (digits_value ds))"
proof (cases "length ds \<le> 15")
  case True
  have "digits_value ds < 10 ^ length ds" by (rule digits_value_less [OF assms])
  also have "(10 :: nat) ^ length ds \<le> 10 ^ 15" using True by (rule power_increasing) simp
  finally have "is_safe (int (digits_value ds))" by (simp add: is_safe_def MAX_SAFE_def)
  with True show ?thesis by (simp add: canon_safe)
qed simp

lemma parse_decimal_split:
  assumes "split_decimal s = Some (neg, w, f, e)" "list_all is_dec (w @ f)"
  shows "parse_decimal s =
    (let c = canon (if neg then - int (digits_value (w @ f)) else int (digits_value (w @ f)));
         fraction = int (length f) - e
     in if length s > MAX_INPUT_LENGTH \<or> fraction > int MAX_INPUT_LENGTH \<or> fraction < - int MAX_INPUT_LENGTH
        then Inl InputTooLarge
        else if fraction \<ge> 0 then Inr (c, nat fraction)
        else rbind (mul_units c (pow10 (nat (- fraction)))) (\<lambda>c. Inr (c, 0)))"
proof -
  have "(if neg then neg_units (canon v) else canon v) = canon (if neg then - v else v)" for v
    by (simp add: neg_units_canon)
  then show ?thesis
    unfolding parse_decimal_def assms(1) option.case prod.case Let_def coefficient_eq [OF assms(2)] by simp
qed

lemma parse_plain:
  assumes "w \<noteq> []" "list_all is_dec w" "list_all is_dec f"
    and t: "text = (if neg then ''-'' else []) @ w @ (if f = [] then [] else ''.'' @ f)"
  shows "parse_decimal text =
    (if length text > MAX_INPUT_LENGTH then Inl InputTooLarge
     else Inr (canon (if neg then - int (digits_value (w @ f)) else int (digits_value (w @ f))), length f))"
proof -
  have ds: "list_all is_dec (w @ f)" using assms by simp
  have "length f \<le> length text" by (simp add: t)
  moreover have "split_decimal text = Some (neg, w, f, 0)" unfolding t by (rule split_plain [OF assms(1-3)])
  ultimately show ?thesis using parse_decimal_split [OF _ ds] by (simp add: Let_def)
qed

text \<open>The digits in front of the point and behind it.\<close>

lemma decimal_string_parts:
  obtains w f where "w \<noteq> []" "list_all is_dec w" "list_all is_dec f" "length f = s"
    "decimal_string u s = (if units_value u < 0 then ''-'' else []) @ w @ (if f = [] then [] else ''.'' @ f)"
    "int (digits_value (w @ f)) = \<bar>units_value u\<bar>"
proof -
  let ?m = "if units_value u < 0 then neg_units u else u"
  have m: "units_value ?m = \<bar>units_value u\<bar>" by (cases u) simp_all
  then have d: "list_all is_dec (units_text ?m)" "int (digits_value (units_text ?m)) = \<bar>units_value u\<bar>"
    using units_text_digits [of ?m] units_text_value [of ?m] by auto
  show thesis
  proof (cases "s = 0")
    case True
    show thesis
      by (rule that [of "units_text ?m" "[]"]) (use d True units_text_nonempty in \<open>auto simp: decimal_string_def Let_def\<close>)
  next
    case False
    define p where "p = (if length (units_text ?m) \<le> s
      then replicate (s - length (units_text ?m) + 1) (CHR ''0'') @ units_text ?m else units_text ?m)"
    have p: "list_all is_dec p" "s < length p"
      using d(1) by (auto simp: p_def is_dec_def list_all_iff)
    have v: "digits_value p = digits_value (units_text ?m)"
      unfolding p_def if_distrib [of digits_value] digits_value_zeros by (rule if_cancel)
    let ?k = "length p - s"
    have "decimal_string u s = (if units_value u < 0 then ''-'' else []) @ take ?k p @ ''.'' @ drop ?k p"
      using False by (simp add: decimal_string_def Let_def p_def)
    moreover have "drop ?k p \<noteq> []" "take ?k p \<noteq> []" "length (drop ?k p) = s" using p(2) False by auto
    moreover have "list_all is_dec (take ?k p)" "list_all is_dec (drop ?k p)"
      using p(1) by (auto simp: list_all_iff dest: in_set_takeD in_set_dropD)
    moreover have "int (digits_value (take ?k p @ drop ?k p)) = \<bar>units_value u\<bar>"
      using v d(2) by simp
    ultimately show thesis using that [of "take ?k p" "drop ?k p"] by simp
  qed
qed

lemma parse_decimal_string:
  assumes "canonical u"
  shows "parse_decimal (decimal_string u s) =
    (if length (decimal_string u s) > MAX_INPUT_LENGTH then Inl InputTooLarge else Inr (u, s))"
proof -
  obtain w f where wf: "w \<noteq> []" "list_all is_dec w" "list_all is_dec f" "length f = s"
    "decimal_string u s = (if units_value u < 0 then ''-'' else []) @ w @ (if f = [] then [] else ''.'' @ f)"
    "int (digits_value (w @ f)) = \<bar>units_value u\<bar>"
    by (rule decimal_string_parts)
  have "canon (if units_value u < 0 then - int (digits_value (w @ f)) else int (digits_value (w @ f))) = u"
    using assms wf(6) by (auto simp: canonical_iff)
  with parse_plain [OF wf(1-3,5)] wf(4) show ?thesis by simp
qed

text \<open>Reading gives a canonical coefficient, and fails only as its documentation says.\<close>

lemma parse_decimal_canonical:
  assumes "parse_decimal text = Inr (c, f)"
  shows "canonical c \<and> f \<le> MAX_INPUT_LENGTH"
proof -
  from assms obtain neg w fd e where split: "split_decimal text = Some (neg, w, fd, e)"
    by (auto simp: parse_decimal_def split: if_splits option.splits)
  then have "list_all is_dec (w @ fd)"
    by (auto simp: split_decimal_def split_fraction_def list_all_iff dest: set_takeWhileD
        split: if_splits prod.splits option.splits list.splits char.splits bool.splits)
  from parse_decimal_split [OF split this] assms show ?thesis
    by (auto simp: Let_def result_simps mul_units_eq split: if_splits)
qed

end
