(* ===== verification/Money.thy ===== *)
theory Money
  imports MoneyCurrency MoneyDecimal Complex_Main
begin

text \<open>
  \<open>Money\<close> of \<open>packages/money/src/money.ts\<close>: a whole number of units, a scale and a currency; its
  arithmetic, comparison and aggregates. A thrown error is an \<open>Inl\<close>. A \<open>Factor\<close> or \<open>Amount\<close> is read
  to an exact fraction, a number through its shortest decimal spelling, which is what the
  constructor \<open>Fractional\<close> carries.
\<close>

record money =
  units :: units
  scale :: nat
  currency :: currency

definition check_scale :: "int \<Rightarrow> money_error + nat" where
  "check_scale s = (if s < 0 \<or> s > int MAX_SCALE then Inl InvalidArgument else Inr (nat s))"

text \<open>
  A JavaScript number: a safe integer, a number with a fraction (by its shortest spelling
  \<open>String(value)\<close>), or one whose digits are already lost (not finite, or an unsafe integer).
\<close>

datatype js_number = SafeInteger int | Fractional string | NotExact

definition parse_number :: "js_number \<Rightarrow> money_error + (units \<times> nat)" where
  "parse_number v =
     (case v of
        SafeInteger n \<Rightarrow> Inr (Num n, 0)
      | Fractional text \<Rightarrow> parse_decimal text
      | NotExact \<Rightarrow> Inl AmountOutOfRange)"

datatype factor_input =
    FNumber js_number
  | FText string
  | FBigint int
  | FFactor units units
  | FDecimal int int
  | FRational int int

definition read_factor :: "factor_input \<Rightarrow> money_error + (units \<times> units)" where
  "read_factor v =
     (case v of
        FNumber x \<Rightarrow> rbind (parse_number x) (\<lambda>(c, f). Inr (c, pow10 f))
      | FText text \<Rightarrow> rbind (parse_decimal text) (\<lambda>(c, f). Inr (c, pow10 f))
      | FBigint n \<Rightarrow> Inr (canon n, Num 1)
      | FFactor n d \<Rightarrow> Inr (n, d)
      | FDecimal c s \<Rightarrow>
          if s < 0 \<or> s > int MAX_INPUT_LENGTH * 10 then Inl InvalidArgument else Inr (canon c, pow10 (nat s))
      | FRational n d \<Rightarrow>
          if d = 0 then Inl DivisionByZero
          else Inr (canon (if d < 0 then - n else n), canon (if d < 0 then - d else d)))"

section \<open>Construction\<close>

text \<open>\<open>Money.of\<close>; a \<open>Money\<close> input is requantized.\<close>

definition money_of :: "factor_input \<Rightarrow> currency \<Rightarrow> int option \<Rightarrow> rounding_mode option \<Rightarrow> money_error + money" where
  "money_of amount cur scale_opt rounding =
     rbind (case scale_opt of None \<Rightarrow> Inr (cur_scale cur) | Some s \<Rightarrow> check_scale s) (\<lambda>s.
     rbind (read_factor amount) (\<lambda>(num, den).
     rbind (mul_div num (pow10 s) den rounding) (\<lambda>u.
       Inr \<lparr>units = u, scale = s, currency = cur\<rparr>)))"

definition money_of_money :: "money \<Rightarrow> currency \<Rightarrow> int option \<Rightarrow> rounding_mode option \<Rightarrow> money_error + money" where
  "money_of_money amount cur scale_opt rounding =
     rbind (case scale_opt of None \<Rightarrow> Inr (cur_scale cur) | Some s \<Rightarrow> check_scale s) (\<lambda>s.
     rbind (assert_same_currency (currency amount) cur) (\<lambda>_.
     rbind (quantize (units amount) (scale amount) s rounding None) (\<lambda>u.
       Inr \<lparr>units = u, scale = s, currency = cur\<rparr>)))"

section \<open>Arithmetic\<close>

definition combine :: "money \<Rightarrow> money \<Rightarrow> bool \<Rightarrow> money_error + money" where
  "combine a b subtract =
     (let s = max (scale a) (scale b)
      in rbind (mul_units (units a) (pow10 (s - scale a))) (\<lambda>left.
         rbind (mul_units (units b) (pow10 (s - scale b))) (\<lambda>right.
         rbind (add_units left (if subtract then neg_units right else right)) (\<lambda>u.
           Inr \<lparr>units = u, scale = s, currency = currency a\<rparr>))))"

definition plus_money :: "money \<Rightarrow> money \<Rightarrow> money_error + money" where
  "plus_money this other =
     rbind (assert_same_currency (currency this) (currency other)) (\<lambda>_.
       if scale this \<noteq> scale other then combine this other False
       else
         (let slow = rbind (add_units (units this) (units other)) (\<lambda>u. Inr (this\<lparr>units := u\<rparr>))
          in case (units this, units other) of
               (Num a, Num b) \<Rightarrow>
                 (let total = rnd53 (a + b) in if is_safe total then Inr (this\<lparr>units := Num total\<rparr>) else slow)
             | _ \<Rightarrow> slow))"

definition minus_money :: "money \<Rightarrow> money \<Rightarrow> money_error + money" where
  "minus_money this other =
     rbind (assert_same_currency (currency this) (currency other)) (\<lambda>_.
       if scale this \<noteq> scale other then combine this other True
       else
         (let slow = rbind (add_units (units this) (neg_units (units other))) (\<lambda>u. Inr (this\<lparr>units := u\<rparr>))
          in case (units this, units other) of
               (Num a, Num b) \<Rightarrow>
                 (let difference = rnd53 (a - b)
                  in if is_safe difference then Inr (this\<lparr>units := Num difference\<rparr>) else slow)
             | _ \<Rightarrow> slow))"

definition times_money :: "money \<Rightarrow> factor_input \<Rightarrow> rounding_mode option \<Rightarrow> money_error + money" where
  "times_money this multiplier rounding =
     rbind (case multiplier of
              FNumber (SafeInteger n) \<Rightarrow> mul_units (units this) (Num n)
            | _ \<Rightarrow> rbind (read_factor multiplier) (\<lambda>(num, den). mul_div (units this) num den rounding))
       (\<lambda>u. Inr (this\<lparr>units := u\<rparr>))"

definition divided_by :: "money \<Rightarrow> factor_input \<Rightarrow> rounding_mode option \<Rightarrow> money_error + money" where
  "divided_by this divisor rounding =
     rbind (read_factor divisor) (\<lambda>(n, d).
       if n = Num 0 then Inl DivisionByZero
       else rbind (if units_value n < 0 then mul_div (neg_units (units this)) d (neg_units n) rounding
                   else mul_div (units this) d n rounding) (\<lambda>u. Inr (this\<lparr>units := u\<rparr>)))"

definition percentage :: "money \<Rightarrow> factor_input \<Rightarrow> rounding_mode option \<Rightarrow> money_error + money" where
  "percentage this percent rounding =
     rbind (read_factor percent) (\<lambda>(num, den).
     rbind (mul_units den (Num 100)) (\<lambda>d.
     rbind (mul_div (units this) num d rounding) (\<lambda>u. Inr (this\<lparr>units := u\<rparr>))))"

definition negated :: "money \<Rightarrow> money" where
  "negated this = this\<lparr>units := neg_units (units this)\<rparr>"

definition abs_money :: "money \<Rightarrow> money" where
  "abs_money this = (if units_value (units this) < 0 then negated this else this)"

definition to_scale :: "money \<Rightarrow> int \<Rightarrow> rounding_mode option \<Rightarrow> money_error + money" where
  "to_scale this s rounding =
     rbind (check_scale s) (\<lambda>s.
       if s = scale this then Inr this
       else rbind (quantize (units this) (scale this) s rounding None) (\<lambda>u. Inr (this\<lparr>units := u, scale := s\<rparr>)))"

definition round_to_step :: "money \<Rightarrow> factor_input \<Rightarrow> rounding_mode option \<Rightarrow> money_error + money" where
  "round_to_step this step rounding =
     rbind (read_factor step) (\<lambda>(num, den).
       if \<not> units_value num > 0 then Inl InvalidArgument
       else rbind (case mul_div num (pow10 (scale this)) den None of
                     Inl RoundingNecessary \<Rightarrow> Inl InvalidArgument | r \<Rightarrow> r) (\<lambda>step_units.
            rbind (mul_div (units this) (Num 1) step_units rounding) (\<lambda>q.
            rbind (mul_units q step_units) (\<lambda>u. Inr (this\<lparr>units := u\<rparr>)))))"

section \<open>Comparison\<close>

definition compare_to :: "money \<Rightarrow> money \<Rightarrow> money_error + int" where
  "compare_to this other =
     rbind (assert_same_currency (currency this) (currency other)) (\<lambda>_.
       if scale this = scale other then Inr (compare_units (units this) (units other))
       else
         (let s = max (scale this) (scale other)
          in rbind (mul_units (units this) (pow10 (s - scale this))) (\<lambda>a.
             rbind (mul_units (units other) (pow10 (s - scale other))) (\<lambda>b.
               Inr (compare_units a b)))))"

section \<open>Aggregates\<close>

text \<open>The loop of \<open>sum\<close>: currency (unless none is known yet), scale and units so far.\<close>

fun sum_loop :: "money list \<Rightarrow> currency option \<Rightarrow> nat \<Rightarrow> units \<Rightarrow> money_error + (currency option \<times> nat \<times> units)" where
  "sum_loop [] cur s u = Inr (cur, s, u)"
| "sum_loop (item # items) cur s u =
     rbind (case cur of
              None \<Rightarrow> Inr (currency item, scale item)
            | Some c \<Rightarrow> rbind (assert_same_currency c (currency item)) (\<lambda>_. Inr (c, s))) (\<lambda>(c, s).
     rbind (if scale item > s
            then rbind (mul_units u (pow10 (scale item - s))) (\<lambda>u'. Inr (u', units item, scale item))
            else if scale item < s
            then rbind (mul_units (units item) (pow10 (s - scale item))) (\<lambda>v. Inr (u, v, s))
            else Inr (u, units item, s)) (\<lambda>(u, v, s).
     rbind (case (u, v) of
              (Num a, Num b) \<Rightarrow> (let total = rnd53 (a + b) in if is_safe total then Inr (Num total) else add_units u v)
            | _ \<Rightarrow> add_units u v) (\<lambda>u. sum_loop items (Some c) s u)))"

definition sum_money :: "money list \<Rightarrow> currency option \<Rightarrow> money_error + money" where
  "sum_money items cur =
     rbind (sum_loop items cur (case cur of None \<Rightarrow> 0 | Some c \<Rightarrow> cur_scale c) (Num 0)) (\<lambda>(c, s, u).
       case c of None \<Rightarrow> Inl InvalidArgument | Some c \<Rightarrow> Inr \<lparr>units = u, scale = s, currency = c\<rparr>)"

definition average :: "money list \<Rightarrow> rounding_mode option \<Rightarrow> money_error + money" where
  "average items rounding =
     (if items = [] then Inl EmptyData
      else rbind (sum_money items None) (\<lambda>total.
             divided_by total (FNumber (SafeInteger (int (length items)))) rounding))"

fun min_loop :: "money \<Rightarrow> money list \<Rightarrow> money_error + money" where
  "min_loop best [] = Inr best"
| "min_loop best (item # items) =
     rbind (compare_to item best) (\<lambda>c. min_loop (if c < 0 then item else best) items)"

fun max_loop :: "money \<Rightarrow> money list \<Rightarrow> money_error + money" where
  "max_loop best [] = Inr best"
| "max_loop best (item # items) =
     rbind (compare_to item best) (\<lambda>c. max_loop (if c > 0 then item else best) items)"

section \<open>Exact unit arithmetic as an interface\<close>

text \<open>What \<open>Money\<close> relies on of \<open>units.ts\<close>: exact results in canonical form, or the digit limit.\<close>

locale exact_units =
  fixes add mul :: "units \<Rightarrow> units \<Rightarrow> money_error + units"
    and neg :: "units \<Rightarrow> units"
  assumes add_exact: "canonical a \<Longrightarrow> canonical b \<Longrightarrow> add a b = Inr c \<Longrightarrow>
      canonical c \<and> units_value c = units_value a + units_value b"
    and mul_exact: "canonical a \<Longrightarrow> canonical b \<Longrightarrow> mul a b = Inr c \<Longrightarrow>
      canonical c \<and> units_value c = units_value a * units_value b"
    and add_limit: "canonical a \<Longrightarrow> canonical b \<Longrightarrow> add a b = Inl e \<Longrightarrow> e = ResourceLimit"
    and mul_limit: "canonical a \<Longrightarrow> canonical b \<Longrightarrow> mul a b = Inl e \<Longrightarrow> e = ResourceLimit"
    and neg_exact: "canonical a \<Longrightarrow> canonical (neg a) \<and> units_value (neg a) = - units_value a"
begin

text \<open>Bringing an amount to more decimals.\<close>

lemma rescale_exact:
  assumes "canonical a" "mul a (pow10 (k - j)) = Inr b" "j \<le> k"
  shows "canonical b" "(of_int (units_value b) :: rat) / 10 ^ k = of_int (units_value a) / 10 ^ j"
proof -
  from mul_exact [OF assms(1) pow10_canonical(1) assms(2)]
  have b: "canonical b" "units_value b = units_value a * 10 ^ (k - j)" by simp_all
  from b(1) show "canonical b" .
  have "(10 :: rat) ^ k = 10 ^ j * 10 ^ (k - j)" using assms(3) by (simp flip: power_add)
  then show "(of_int (units_value b) :: rat) / 10 ^ k = of_int (units_value a) / 10 ^ j"
    by (simp add: b(2) field_simps)
qed

lemma subtract_exact:
  assumes "canonical a" "canonical b" "add a (neg b) = Inr c"
  shows "canonical c" "units_value c = units_value a - units_value b"
  using add_exact [OF assms(1) _ assms(3)] neg_exact [OF assms(2)] by simp_all

end

interpretation units: exact_units add_units mul_units neg_units
proof unfold_locales
  fix a b c e
  assume ab: "canonical a" "canonical b"
  show "canonical c \<and> units_value c = units_value a + units_value b" if "add_units a b = Inr c"
    using that add_units_eq [OF ab] by (auto split: if_splits)
  show "canonical c \<and> units_value c = units_value a * units_value b" if "mul_units a b = Inr c"
    using that mul_units_eq [OF ab] by (auto split: if_splits)
  show "e = ResourceLimit" if "add_units a b = Inl e" using that add_units_eq [OF ab] by (auto split: if_splits)
  show "e = ResourceLimit" if "mul_units a b = Inl e" using that mul_units_eq [OF ab] by (auto split: if_splits)
qed simp

section \<open>Values\<close>

definition money_value :: "money \<Rightarrow> rat" where
  "money_value m = of_int (units_value (units m)) / 10 ^ scale m"

definition well_formed :: "money \<Rightarrow> bool" where
  "well_formed m \<longleftrightarrow> canonical (units m)"

lemma assert_same_currency_iff:
  "assert_same_currency a b = (if currency_eq a b then Inr () else Inl CurrencyMismatch)"
  by (auto simp: assert_same_currency_def currency_eq_def)

lemma combine_exact:
  assumes "well_formed a" "well_formed b" "combine a b sub = Inr c"
  shows "well_formed c \<and> currency c = currency a \<and> scale c = max (scale a) (scale b) \<and>
    money_value c = (if sub then money_value a - money_value b else money_value a + money_value b)"
proof -
  let ?s = "max (scale a) (scale b)"
  from assms(3) obtain x y u where xy: "mul_units (units a) (pow10 (?s - scale a)) = Inr x"
    "mul_units (units b) (pow10 (?s - scale b)) = Inr y" "add_units x (if sub then neg_units y else y) = Inr u"
    and c: "c = \<lparr>units = u, scale = ?s, currency = currency a\<rparr>"
    unfolding combine_def Let_def rbind_Inr_iff by auto
  note X = units.rescale_exact [OF assms(1) [unfolded well_formed_def] xy(1)]
  note Y = units.rescale_exact [OF assms(2) [unfolded well_formed_def] xy(2)]
  have "canonical u \<and> units_value u = (if sub then units_value x - units_value y else units_value x + units_value y)"
    using units.add_exact [OF X(1) _ xy(3)] Y(1) by (auto split: if_splits)
  then show ?thesis using X Y by (auto simp: c well_formed_def money_value_def diff_divide_distrib add_divide_distrib)
qed

text \<open>The inlined fast paths of \<open>plus\<close> and \<open>minus\<close> are those of \<open>addUnits\<close>.\<close>

lemma plus_money_eq:
  "plus_money a b = rbind (assert_same_currency (currency a) (currency b)) (\<lambda>_.
     if scale a \<noteq> scale b then combine a b False
     else rbind (add_units (units a) (units b)) (\<lambda>u. Inr (a\<lparr>units := u\<rparr>)))"
  by (cases "units a"; cases "units b") (simp_all add: plus_money_def add_units_def Let_def)

lemma minus_money_eq:
  "minus_money a b = rbind (assert_same_currency (currency a) (currency b)) (\<lambda>_.
     if scale a \<noteq> scale b then combine a b True
     else rbind (add_units (units a) (neg_units (units b))) (\<lambda>u. Inr (a\<lparr>units := u\<rparr>)))"
  by (cases "units a"; cases "units b") (simp_all add: minus_money_def add_units_def Let_def)

lemma combine_limit:
  assumes "well_formed a" "well_formed b" "combine a b sub = Inl e"
  shows "e = ResourceLimit"
proof -
  let ?s = "max (scale a) (scale b)"
  from assms(1,2) have can: "canonical (units a)" "canonical (units b)" by (simp_all add: well_formed_def)
  from assms(3) consider "mul_units (units a) (pow10 (?s - scale a)) = Inl e"
    | "mul_units (units b) (pow10 (?s - scale b)) = Inl e"
    | x y where "mul_units (units a) (pow10 (?s - scale a)) = Inr x" "mul_units (units b) (pow10 (?s - scale b)) = Inr y"
        "add_units x (if sub then neg_units y else y) = Inl e"
    unfolding combine_def Let_def rbind_Inl_iff by auto
  then show ?thesis
  proof cases
    case 1
    then show ?thesis by (rule units.mul_limit [OF can(1) pow10_canonical(1)])
  next
    case 2
    then show ?thesis by (rule units.mul_limit [OF can(2) pow10_canonical(1)])
  next
    case 3
    note X = units.mul_exact [OF can(1) pow10_canonical(1) 3(1)] and Y = units.mul_exact [OF can(2) pow10_canonical(1) 3(2)]
    show ?thesis by (rule units.add_limit [OF _ _ 3(3)]) (use X Y in auto)
  qed
qed

text \<open>
  Adding and subtracting money never rounds and never mixes currencies. Across scales the
  result is the exact sum or difference at the larger scale, in canonical form and in the same
  currency; different currencies are refused; the only other failure is the digit limit.
\<close>

theorem money_sums_exact:
  assumes "well_formed a" "well_formed b"
  shows "(case plus_money a b of
       Inr c \<Rightarrow> well_formed c \<and> currency_eq (currency a) (currency b) \<and> currency c = currency a \<and>
         scale c = max (scale a) (scale b) \<and> money_value c = money_value a + money_value b
     | Inl e \<Rightarrow> (\<not> currency_eq (currency a) (currency b) \<and> e = CurrencyMismatch) \<or> e = ResourceLimit) \<and>
    (case minus_money a b of
       Inr c \<Rightarrow> well_formed c \<and> currency_eq (currency a) (currency b) \<and> currency c = currency a \<and>
         scale c = max (scale a) (scale b) \<and> money_value c = money_value a - money_value b
     | Inl e \<Rightarrow> (\<not> currency_eq (currency a) (currency b) \<and> e = CurrencyMismatch) \<or> e = ResourceLimit)"
proof (cases "currency_eq (currency a) (currency b)")
  case False
  then show ?thesis by (simp add: plus_money_eq minus_money_eq assert_same_currency_iff)
next
  case cur: True
  from assms have can: "canonical (units a)" "canonical (units b)" by (simp_all add: well_formed_def)
  show ?thesis
  proof (cases "scale a = scale b")
    case True
    have can': "canonical (neg_units (units b))" using can(2) by simp
    show ?thesis
      using cur True add_units_eq [OF can] add_units_eq [OF can(1) can']
      by (simp add: plus_money_eq minus_money_eq assert_same_currency_iff well_formed_def money_value_def
          add_divide_distrib diff_divide_distrib)
  next
    case False
    then have eq: "plus_money a b = combine a b False" "minus_money a b = combine a b True"
      using cur by (simp_all add: plus_money_eq minus_money_eq assert_same_currency_iff)
    have spec: "case combine a b sub of
        Inr c \<Rightarrow> well_formed c \<and> currency_eq (currency a) (currency b) \<and> currency c = currency a \<and> scale c = max (scale a) (scale b) \<and>
          money_value c = (if sub then money_value a - money_value b else money_value a + money_value b)
      | Inl e \<Rightarrow> (\<not> currency_eq (currency a) (currency b) \<and> e = CurrencyMismatch) \<or> e = ResourceLimit" for sub
    proof (cases "combine a b sub")
      case (Inl e)
      from combine_limit [OF assms this] Inl show ?thesis by simp
    next
      case (Inr c)
      from combine_exact [OF assms this] cur show ?thesis unfolding Inr by simp
    qed
    show ?thesis unfolding eq using spec [of False, unfolded if_False] spec [of True, unfolded if_True] by (rule conjI)
  qed
qed

definition sample_eur :: "int \<Rightarrow> nat \<Rightarrow> money" where
  "sample_eur n s = \<lparr>units = canon n, scale = s, currency = \<lparr>code = ''EUR'', cur_numeric = Some ''978'', cur_scale = 2, iso = True\<rparr>\<rparr>"

lemma sample_well_formed: "well_formed (sample_eur n s)"
  by (simp add: well_formed_def sample_eur_def)

lemma money_sums_exact_witness:
  "\<exists>c. plus_money (sample_eur 1999 2) (sample_eur 5 3) = Inr c \<and> scale c = 3 \<and>
     money_value c = money_value (sample_eur 1999 2) + money_value (sample_eur 5 3)"
proof -
  have "plus_money (sample_eur 1999 2) (sample_eur 5 3) = Inr (sample_eur 19995 3)" by code_simp
  with money_sums_exact [OF sample_well_formed sample_well_formed, of 1999 2 5 3] show ?thesis
    by (simp add: sample_eur_def)
qed

end
