(* ===== verification/MoneyAllocate.thy ===== *)
theory MoneyAllocate
  imports Money
begin

text \<open>
  Splitting an amount without losing a unit: \<open>allocate\<close> and \<open>split\<close> of
  \<open>packages/money/src/money.ts\<close>. The lemmas show that the parts add back to the whole, that
  every part is the exact share rounded down or one unit more, that a ratio of zero gets
  nothing, and that the units that are left go to the largest remainders first.
\<close>

section \<open>Weights\<close>

datatype ratio_input = RNumber js_number | RText string | RBigint int

definition are_whole_ratios :: "ratio_input list \<Rightarrow> bool" where
  "are_whole_ratios ratios \<longleftrightarrow>
     list_all (\<lambda>r. case r of RNumber (SafeInteger n) \<Rightarrow> n \<ge> 0 | _ \<Rightarrow> False) ratios"

fun whole_weight :: "ratio_input \<Rightarrow> units" where
  "whole_weight (RNumber (SafeInteger n)) = Num n"
| "whole_weight _ = Num 0"

definition read_ratio :: "ratio_input \<Rightarrow> money_error + (units \<times> nat)" where
  "read_ratio r =
     rbind (case r of RNumber x \<Rightarrow> parse_number x | RText s \<Rightarrow> parse_decimal s | RBigint n \<Rightarrow> Inr (canon n, 0))
       (\<lambda>(c, f). if units_value c < 0 then Inl InvalidArgument else Inr (c, f))"

text \<open>The most decimals among the ratios read so far\<close>

definition most_decimals :: "(units \<times> nat) list \<Rightarrow> nat \<Rightarrow> nat" where
  "most_decimals parsed m = fold (\<lambda>p m. if snd p > m then snd p else m) parsed m"

definition scaled_weights :: "ratio_input list \<Rightarrow> money_error + units list" where
  "scaled_weights ratios =
     rbind (rmap_list read_ratio ratios) (\<lambda>parsed.
       let common = most_decimals parsed 0
       in if common > 0 then rmap_list (\<lambda>(c, f). mul_units c (pow10 (common - f))) parsed
          else Inr (map fst parsed))"

fun add_all :: "units \<Rightarrow> units list \<Rightarrow> money_error + units" where
  "add_all tw [] = Inr tw"
| "add_all tw (w # ws) = rbind (add_units tw w) (\<lambda>t. add_all t ws)"

section \<open>Distribution\<close>

datatype remainder_policy = Largest | First | Final

text \<open>One part's share rounded down, and the rest: on numbers while the product is safe.\<close>

definition share_and_rest :: "units \<Rightarrow> units \<Rightarrow> units \<Rightarrow> money_error + (units \<times> units)" where
  "share_and_rest magnitude weight tw =
     (let slow = rbind (mul_units magnitude weight) (\<lambda>exact.
                 rbind (mul_div exact (Num 1) tw (Some Down)) (\<lambda>share.
                 rbind (mul_units share tw) (\<lambda>back.
                 rbind (add_units exact (neg_units back)) (\<lambda>rest. Inr (share, rest)))))
      in case (magnitude, weight, tw) of
           (Num m, Num w, Num t) \<Rightarrow>
             (let product = rnd53 (m * w)
              in if product \<le> MAX_SAFE
                 then Inr (Num ((product - product smod t) sdiv t), Num (product smod t)) else slow)
         | _ \<Rightarrow> slow)"

text \<open>The rests seen so far: kept as a list only once two of them differ.\<close>

definition keep_rest :: "nat \<Rightarrow> units \<Rightarrow> units list option \<Rightarrow> units \<Rightarrow> units list option" where
  "keep_rest i first_rest rests rest =
     (if i = 0 then rests
      else case rests of
             Some rs \<Rightarrow> Some (rs @ [rest])
           | None \<Rightarrow> if rest \<noteq> first_rest then Some (replicate i first_rest @ [rest]) else None)"

fun share_loop :: "units \<Rightarrow> units \<Rightarrow> units list \<Rightarrow> units list \<times> units \<times> units list option \<times> units \<Rightarrow>
    money_error + (units list \<times> units list option \<times> units)" where
  "share_loop magnitude tw [] (shares, first_rest, rests, given) = Inr (shares, rests, given)"
| "share_loop magnitude tw (w # ws) (shares, first_rest, rests, given) =
     rbind (share_and_rest magnitude w tw) (\<lambda>(share, rest).
     rbind (add_units given share) (\<lambda>given'.
       let i = length shares
       in share_loop magnitude tw ws
            (shares @ [share], if i = 0 then rest else first_rest, keep_rest i first_rest rests rest, given')))"

text \<open>One unit more for each index of the order, until nothing is left.\<close>

fun bump :: "nat list \<Rightarrow> int \<Rightarrow> units list \<Rightarrow> money_error + units list" where
  "bump [] left shares = Inr shares"
| "bump (i # is) left shares =
     (if left = 0 then Inr shares
      else rbind (add_units (shares ! i) (Num 1)) (\<lambda>s. bump is (left - 1) (shares[i := s])))"

fun bump_steps :: "units list \<Rightarrow> nat list \<Rightarrow> int \<Rightarrow> units list \<Rightarrow> money_error + units list" where
  "bump_steps weights [] left shares = Inr shares"
| "bump_steps weights (i # is) left shares =
     (if left \<le> 0 then Inr shares
      else if weights ! i = Num 0 then bump_steps weights is left shares
      else rbind (add_units (shares ! i) (Num 1)) (\<lambda>s. bump_steps weights is (left - 1) (shares[i := s])))"

definition rest_order :: "units list \<Rightarrow> units list \<Rightarrow> nat list" where
  "rest_order weights rests =
     sort_key (\<lambda>i. - units_value (rests ! i)) (filter (\<lambda>i. weights ! i \<noteq> Num 0) [0 ..< length weights])"

definition spread :: "units list \<Rightarrow> remainder_policy \<Rightarrow> units list option \<Rightarrow> int \<Rightarrow> units list \<Rightarrow> money_error + units list" where
  "spread weights policy rests left shares =
     (if left > 0 then
        (case rests of
           Some rs \<Rightarrow>
             if policy = Largest then bump (rest_order weights rs) left shares
             else bump_steps weights (if policy = Final then rev [0 ..< length weights] else [0 ..< length weights]) left shares
         | None \<Rightarrow>
             bump_steps weights (if policy = Final then rev [0 ..< length weights] else [0 ..< length weights]) left shares)
      else Inr shares)"

definition distribute :: "money \<Rightarrow> units list \<Rightarrow> units \<Rightarrow> remainder_policy \<Rightarrow> money_error + money list" where
  "distribute whole weights tw policy =
     (let negative = units_value (units whole) < 0;
          magnitude = (if negative then neg_units (units whole) else units whole)
      in rbind (share_loop magnitude tw weights ([], Num 0, None, Num 0)) (\<lambda>(shares, rests, given).
         rbind (add_units magnitude (neg_units given)) (\<lambda>left.
         rbind (spread weights policy rests (rnd53 (units_value left)) shares) (\<lambda>shares.
           Inr (map (\<lambda>s. whole\<lparr>units := if negative then neg_units s else s\<rparr>) shares)))))"

definition allocate :: "money \<Rightarrow> ratio_input list \<Rightarrow> remainder_policy option \<Rightarrow> money_error + money list" where
  "allocate this ratios policy =
     (if ratios = [] then Inl InvalidArgument
      else if length ratios > MAX_PARTS then Inl ResourceLimit
      else
        rbind (if are_whole_ratios ratios then Inr (map whole_weight ratios) else scaled_weights ratios) (\<lambda>weights.
        rbind (add_all (Num 0) weights) (\<lambda>tw.
          if tw = Num 0 then Inl InvalidArgument
          else distribute this weights tw (case policy of None \<Rightarrow> Largest | Some p \<Rightarrow> p))))"

definition split_money :: "money \<Rightarrow> int \<Rightarrow> remainder_policy option \<Rightarrow> money_error + money list" where
  "split_money this parts policy =
     (if parts < 1 then Inl InvalidArgument
      else if parts > int MAX_PARTS then Inl ResourceLimit
      else
        let negative = units_value (units this) < 0;
            magnitude = (if negative then neg_units (units this) else units this)
        in rbind (mul_div magnitude (Num 1) (Num parts) (Some Down)) (\<lambda>share.
           rbind (mul_units share (Num parts)) (\<lambda>back.
           rbind (add_units magnitude (neg_units back)) (\<lambda>left_units.
           rbind (add_units share (Num 1)) (\<lambda>bigger.
             let left = rnd53 (units_value left_units);
                 gets = (\<lambda>i. if policy = Some Final then i \<ge> parts - left else i < left)
             in Inr (map (\<lambda>i. let u = (if gets (int i) then bigger else share)
                              in this\<lparr>units := if negative then neg_units u else u\<rparr>) [0 ..< nat parts]))))))"

section \<open>One share\<close>

lemma rnd53_nonneg: "0 \<le> n \<Longrightarrow> 0 \<le> rnd53 n"
  by (auto simp: rnd53_def Let_def sgn_if pos_imp_zdiv_nonneg_iff intro!: mult_nonneg_nonneg add_nonneg_nonneg)

lemma share_and_rest_exact:
  assumes "canonical m" "canonical w" "canonical t" "0 \<le> units_value m" "0 \<le> units_value w" "0 < units_value t"
    and "share_and_rest m w t = Inr (share, rest)"
  shows "canonical share \<and> units_value share = units_value m * units_value w div units_value t \<and>
    canonical rest \<and> units_value rest = units_value m * units_value w mod units_value t"
proof -
  let ?p = "units_value m * units_value w" and ?t = "units_value t"
  have nonneg: "0 \<le> ?p" using assms by simp
  show ?thesis
  proof (cases "\<exists>a b c. m = Num a \<and> w = Num b \<and> t = Num c \<and> rnd53 (a * b) \<le> MAX_SAFE")
    case True
    then obtain a b c where abc: "m = Num a" "w = Num b" "t = Num c" "rnd53 (a * b) \<le> MAX_SAFE" by blast
    have "0 \<le> a * b" using nonneg abc by simp
    then have "0 \<le> rnd53 (a * b)" by (rule rnd53_nonneg)
    then have eq: "rnd53 (a * b) = a * b" "a * b \<le> MAX_SAFE"
      using abc(4) rnd53_safe [of "a * b"] by auto
    have c: "0 < c" "0 \<le> a * b" using assms(6) nonneg abc by simp_all
    define x where "x = a * b"
    note sm = sdiv_smod_pos [OF c(2) c(1), folded x_def]
    have "0 \<le> x div c * c" using c by (intro mult_nonneg_nonneg) (simp_all add: x_def pos_imp_zdiv_nonneg_iff)
    then have q: "(x - x mod c) sdiv c = x div c"
      using c sdiv_smod_pos(1) [of "x div c * c" c] by (simp add: minus_mod_eq_div_mult)
    have "0 \<le> x div c" "x div c \<le> x" "0 \<le> x mod c" "x mod c \<le> x"
      using c by (simp_all add: x_def pos_imp_zdiv_nonneg_iff zmod_le_nonneg_dividend)
        (metis div_by_1 mult_1 verit_comp_simplify1(3) zdiv_mono2 int_one_le_iff_zero_less zero_less_one)
    with assms(7) abc eq sm q show ?thesis by (auto simp: share_and_rest_def Let_def x_def)
  next
    case False
    have one: "canonical (Num 1)" by (simp add: MAX_SAFE_def)
    from False assms(7) obtain exact bk where slow: "mul_units m w = Inr exact"
      "mul_div exact (Num 1) t (Some Down) = Inr share" "mul_units share t = Inr bk"
      "add_units exact (neg_units bk) = Inr rest"
      by (cases m; cases w; cases t) (auto simp: share_and_rest_def Let_def result_simps split: if_splits)
    from units.mul_exact [OF assms(1,2) slow(1)] have e: "canonical exact" "units_value exact = ?p" by auto
    have s: "canonical share" "units_value share = ?p div ?t"
      using slow(2) mul_div_eq [OF e(1) one assms(3,6), of "Some Down"] nonneg
      by (auto simp: round_div_def Let_def e(2) split: if_splits)
    from units.mul_exact [OF s(1) assms(3) slow(3)] have b: "canonical bk" "units_value bk = ?p div ?t * ?t" by (auto simp: s(2))
    from units.subtract_exact [OF e(1) b(1) slow(4)] e(2) b(2) s show ?thesis
      by (simp add: minus_div_mult_eq_mod)
  qed
qed

section \<open>The first pass\<close>

definition quota :: "int \<Rightarrow> int \<Rightarrow> units \<Rightarrow> int" where
  "quota m t w = m * units_value w div t"

definition remaining :: "int \<Rightarrow> int \<Rightarrow> units \<Rightarrow> int" where
  "remaining m t w = m * units_value w mod t"

text \<open>The rests are known: as a list, or as all equal to the first.\<close>

definition rests_known :: "units list option \<Rightarrow> int list \<Rightarrow> bool" where
  "rests_known rests rs \<longleftrightarrow>
     (case rests of
        Some us \<Rightarrow> list_all canonical us \<and> map units_value us = rs
      | None \<Rightarrow> \<exists>r. rs = replicate (length rs) r)"

lemma keep_rest_known:
  assumes "rests_known rests rs" "canonical rest" "canonical first_rest"
    and "rs \<noteq> [] \<Longrightarrow> rests = None \<Longrightarrow> rs = replicate (length rs) (units_value first_rest)"
    and "rs = [] \<Longrightarrow> rests = None"
  shows "rests_known (keep_rest (length rs) first_rest rests rest) (rs @ [units_value rest])"
proof (cases "rs = []")
  case True
  with assms(5) show ?thesis by (auto simp: keep_rest_def rests_known_def intro: exI [of _ "units_value rest"])
next
  case False
  show ?thesis
  proof (cases rests)
    case (Some us)
    with assms False show ?thesis by (auto simp: keep_rest_def rests_known_def)
  next
    case None
    with assms(4) False have rs: "rs = replicate (length rs) (units_value first_rest)" by simp
    show ?thesis
    proof (cases "rest = first_rest")
      case True
      have "rs @ [units_value rest] = replicate (Suc (length rs)) (units_value first_rest)"
        using arg_cong [OF rs, of "\<lambda>x. x @ [units_value rest]"] by (simp add: replicate_append_same True)
      with None False True show ?thesis by (auto simp: keep_rest_def rests_known_def)
    next
      case no: False
      have "map units_value (replicate (length rs) first_rest @ [rest]) = rs @ [units_value rest]"
        by (simp add: rs [symmetric])
      with None False no assms(2,3) show ?thesis
        by (simp add: keep_rest_def rests_known_def list_all_iff)
    qed
  qed
qed

lemma share_loop_exact:
  assumes "share_loop m tw ws (shares, first_rest, rests, given) = Inr (shares', rests', given')"
    and "canonical m" "canonical tw" "0 \<le> units_value m" "0 < units_value tw"
    and "\<forall>w \<in> set ws. canonical w \<and> 0 \<le> units_value w"
    and "list_all canonical shares" "canonical given" "canonical first_rest" "length rs = length shares" "rests_known rests rs"
    and "rs \<noteq> [] \<Longrightarrow> rests = None \<Longrightarrow> rs = replicate (length rs) (units_value first_rest)" "rs = [] \<Longrightarrow> rests = None"
  shows "list_all canonical shares' \<and> canonical given' \<and>
    map units_value shares' = map units_value shares @ map (quota (units_value m) (units_value tw)) ws \<and>
    units_value given' = units_value given + sum_list (map (quota (units_value m) (units_value tw)) ws) \<and>
    rests_known rests' (rs @ map (remaining (units_value m) (units_value tw)) ws)"
  using assms
proof (induction ws arbitrary: shares first_rest rests given rs)
  case Nil
  then show ?case by simp
next
  case (Cons w ws)
  from Cons.prems(1) obtain share rest given1 where s: "share_and_rest m w tw = Inr (share, rest)"
    "add_units given share = Inr given1"
    "share_loop m tw ws (shares @ [share], if shares = [] then rest else first_rest,
       keep_rest (length shares) first_rest rests rest, given1) = Inr (shares', rests', given')"
    by (auto simp: result_simps Let_def split: if_splits)
  have sr: "canonical share" "units_value share = quota (units_value m) (units_value tw) w"
    "canonical rest" "units_value rest = remaining (units_value m) (units_value tw) w"
    using share_and_rest_exact [OF Cons.prems(2) _ Cons.prems(3,4) _ Cons.prems(5) s(1)] Cons.prems(6)
    by (simp_all add: quota_def remaining_def)
  from units.add_exact [OF Cons.prems(8) sr(1) s(2)]
  have g: "canonical given1" "units_value given1 = units_value given + units_value share" by auto
  have empty: "shares = [] \<longleftrightarrow> rs = []" using Cons.prems(10) by auto
  have known: "rests_known (keep_rest (length shares) first_rest rests rest) (rs @ [units_value rest])"
    using keep_rest_known [OF Cons.prems(11) sr(3) Cons.prems(9,12,13)] Cons.prems(10) by simp
  have none: "rs @ [units_value rest] = replicate (length (rs @ [units_value rest])) (units_value (if shares = [] then rest else first_rest))"
    if "keep_rest (length shares) first_rest rests rest = None"
  proof (cases "rs = []")
    case True
    then show ?thesis by (simp add: empty)
  next
    case False
    with that have r: "rests = None" "rest = first_rest" using Cons.prems(10)
      by (auto simp: keep_rest_def split: option.splits if_splits)
    from Cons.prems(12) [OF False r(1)] have "rs @ [units_value rest] = replicate (length rs) (units_value first_rest) @ [units_value rest]"
      by (rule arg_cong [of _ _ "\<lambda>x. x @ [units_value rest]"])
    with False show ?thesis by (simp add: empty r(2) replicate_append_same)
  qed
  have "list_all canonical shares' \<and> canonical given' \<and>
    map units_value shares' = map units_value (shares @ [share]) @ map (quota (units_value m) (units_value tw)) ws \<and>
    units_value given' = units_value given1 + sum_list (map (quota (units_value m) (units_value tw)) ws) \<and>
    rests_known rests' ((rs @ [units_value rest]) @ map (remaining (units_value m) (units_value tw)) ws)"
    by (rule Cons.IH [OF s(3)])
      (use Cons.prems sr g known none in \<open>simp_all add: Cons.prems(10)\<close>)
  then show ?case using sr g by simp
qed

section \<open>The units that are left\<close>

lemma bump_zero: "bump order 0 shares = Inr shares"
  by (cases order) simp_all

lemma bump_steps_eq:
  "0 \<le> left \<Longrightarrow> bump_steps ws is left shares = bump (filter (\<lambda>i. ws ! i \<noteq> Num 0) is) left shares"
  by (induction ws "is" left shares rule: bump_steps.induct) (auto simp: bump_zero intro!: rbind_cong)

definition bonus :: "nat list \<Rightarrow> int \<Rightarrow> nat \<Rightarrow> int" where
  "bonus order left i = (if i \<in> set (take (nat left) order) then 1 else 0)"

lemma bump_exact:
  assumes "bump order left shares = Inr shares'" "0 \<le> left" "distinct order" "\<forall>i \<in> set order. i < length shares"
    and "list_all canonical shares"
  shows "list_all canonical shares' \<and> length shares' = length shares \<and>
    (\<forall>i < length shares. units_value (shares' ! i) = units_value (shares ! i) + bonus order left i)"
  using assms
proof (induction order left shares arbitrary: shares' rule: bump.induct)
  case (1 left shares)
  then show ?case by (simp add: bonus_def)
next
  case (2 i order left shares)
  show ?case
  proof (cases "left = 0")
    case True
    with 2 show ?thesis by (simp add: bonus_def)
  next
    case False
    with 2(2) obtain u where u: "add_units (shares ! i) (Num 1) = Inr u" "bump order (left - 1) (shares[i := u]) = Inr shares'"
      by (auto simp: result_simps)
    have "canonical (shares ! i)" "canonical (Num 1)" using 2(5,6) by (auto simp: list_all_length MAX_SAFE_def)
    from units.add_exact [OF this u(1)] have c: "canonical u" "units_value u = units_value (shares ! i) + 1" by auto
    have all: "list_all canonical (shares[i := u])" using 2(6) c(1)
      by (auto simp: list_all_iff dest!: set_update_subset_insert [THEN subsetD])
    have i: "i < length shares" "i \<notin> set order" using 2(4,5) by auto
    have IH: "list_all canonical shares' \<and> length shares' = length (shares[i := u]) \<and>
      (\<forall>j < length (shares[i := u]). units_value (shares' ! j) = units_value (shares[i := u] ! j) + bonus order (left - 1) j)"
      using 2(1) [OF False u] 2(3-5) False all by simp
    have n: "nat left = Suc (nat (left - 1))" using 2(3) False by simp
    have b: "bonus (i # order) left j = (if j = i then 1 else bonus order (left - 1) j)" for j
      using i(2) by (auto simp: bonus_def n dest: in_set_takeD)
    have "bonus order (left - 1) i = 0" using i(2) by (auto simp: bonus_def dest: in_set_takeD)
    with IH c(2) i(1) show ?thesis by (auto simp: b nth_list_update)
  qed
qed

lemma sum_bonus:
  assumes "distinct order" "set order \<subseteq> {..< n}" "0 \<le> left" "nat left \<le> length order"
  shows "(\<Sum>i < n. bonus order left i) = left"
proof -
  have "(\<Sum>i < n. bonus order left i) = int (card ({..< n} \<inter> set (take (nat left) order)))"
    by (simp add: bonus_def sum.If_cases Int_def conj_commute)
  also have "{..< n} \<inter> set (take (nat left) order) = set (take (nat left) order)"
    using assms(2) by (auto dest: in_set_takeD)
  also have "card (set (take (nat left) order)) = nat left"
    using assms(1,4) by (simp add: distinct_card distinct_take)
  finally show ?thesis using assms(3) by simp
qed

text \<open>The order of each policy: the parts with a ratio, in its order.\<close>

definition bump_order :: "units list \<Rightarrow> remainder_policy \<Rightarrow> units list option \<Rightarrow> nat list" where
  "bump_order ws policy rests =
     (case (policy, rests) of
        (Largest, Some rs) \<Rightarrow> rest_order ws rs
      | (Final, _) \<Rightarrow> filter (\<lambda>i. ws ! i \<noteq> Num 0) (rev [0 ..< length ws])
      | _ \<Rightarrow> filter (\<lambda>i. ws ! i \<noteq> Num 0) [0 ..< length ws])"

lemma spread_eq:
  assumes "0 \<le> left"
  shows "spread ws policy rests left shares = bump (bump_order ws policy rests) left shares"
proof (cases "left = 0")
  case True
  then show ?thesis by (simp add: spread_def bump_zero)
next
  case False
  with assms show ?thesis
    by (cases policy; cases rests) (simp_all add: spread_def bump_order_def bump_steps_eq)
qed

lemma bump_order_set: "distinct (bump_order ws policy rests) \<and> set (bump_order ws policy rests) = {i. i < length ws \<and> ws ! i \<noteq> Num 0}"
  by (cases policy; cases rests) (auto simp: bump_order_def rest_order_def)

text \<open>Fewer units are left than there are parts with a ratio.\<close>

lemma left_bound:
  fixes n :: nat and w :: "nat \<Rightarrow> int"
  assumes "0 < t" "\<forall>i < n. 0 \<le> w i" "(\<Sum>i < n. w i) = t" "0 \<le> m"
  shows "0 \<le> m - (\<Sum>i < n. m * w i div t)" "m - (\<Sum>i < n. m * w i div t) \<le> int (card {i. i < n \<and> w i \<noteq> 0})"
proof -
  let ?L = "m - (\<Sum>i < n. m * w i div t)"
  have "(\<Sum>i < n. m * w i) = m * t" using assms(3) by (simp flip: sum_distrib_left)
  moreover have "(\<Sum>i < n. m * w i) = (\<Sum>i < n. m * w i div t) * t + (\<Sum>i < n. m * w i mod t)"
    by (simp add: sum_distrib_right flip: sum.distrib)
  ultimately have L: "?L * t = (\<Sum>i < n. m * w i mod t)" by (simp add: left_diff_distrib)
  have "0 \<le> (\<Sum>i < n. m * w i mod t)" using assms(1) by (intro sum_nonneg) simp
  with L assms(1) show "0 \<le> ?L" by (metis zero_le_mult_iff less_le_not_le)
  have "(\<Sum>i < n. m * w i mod t) \<le> (\<Sum>i < n. if w i \<noteq> 0 then t else 0)"
    using assms(1) by (intro sum_mono) (simp add: order_less_imp_le)
  also have "\<dots> = (\<Sum>i \<in> {i. i < n \<and> w i \<noteq> 0}. t)" by (rule sum.mono_neutral_cong_right) auto
  also have "\<dots> = t * int (card {i. i < n \<and> w i \<noteq> 0})" by simp
  finally have "?L * t \<le> int (card {i. i < n \<and> w i \<noteq> 0}) * t" using L by (simp add: mult.commute)
  with assms(1) show "?L \<le> int (card {i. i < n \<and> w i \<noteq> 0})" by (simp only: mult_le_cancel_right_pos)
qed

section \<open>The parts\<close>

text \<open>
  What a fair distribution of a whole by weights with sum \<open>t\<close> is: the parts add back to it, in
  its currency and scale; each is its quota or one unit more, of the sign of the whole, and
  nothing for weight zero; with the policy \<open>largest\<close> the extra units went to the largest rests.
\<close>

definition fair_parts :: "money \<Rightarrow> int list \<Rightarrow> remainder_policy \<Rightarrow> money list \<Rightarrow> bool" where
  "fair_parts whole ws policy parts \<longleftrightarrow>
     (let m = \<bar>units_value (units whole)\<bar>; t = sum_list ws;
          u = (\<lambda>i. units_value (units (parts ! i)))
      in length parts = length ws \<and>
         (\<Sum>p\<leftarrow>parts. units_value (units p)) = units_value (units whole) \<and>
         (\<forall>p \<in> set parts. well_formed p \<and> scale p = scale whole \<and> currency p = currency whole) \<and>
         (\<forall>i < length ws. (\<bar>u i\<bar> = m * ws ! i div t \<or> (\<bar>u i\<bar> = m * ws ! i div t + 1 \<and> ws ! i \<noteq> 0)) \<and>
            (0 < u i \<longrightarrow> 0 < units_value (units whole)) \<and> (u i < 0 \<longrightarrow> units_value (units whole) < 0)) \<and>
         (policy = Largest \<longrightarrow> (\<forall>i < length ws. \<forall>j < length ws.
            \<bar>u i\<bar> = m * ws ! i div t + 1 \<and> \<bar>u j\<bar> = m * ws ! j div t \<longrightarrow> m * ws ! j mod t \<le> m * ws ! i mod t)))"

lemma sorted_take_le:
  assumes "sorted (map f xs)" "x \<in> set (take n xs)" "y \<in> set (drop n xs)"
  shows "f x \<le> f y"
proof -
  have "sorted (map f (take n xs @ drop n xs))" using assms(1) by simp
  then show ?thesis using assms(2,3) unfolding map_append sorted_append by auto
qed

text \<open>With the policy \<open>largest\<close>, whoever gets a unit has a rest that is at least as large.\<close>

lemma bonus_largest:
  assumes known: "rests_known rests (map (\<lambda>w. m * units_value w mod t) ws)"
    and ij: "i < length ws" "j < length ws" "i \<in> set (take n (bump_order ws Largest rests))"
      "j \<notin> set (take n (bump_order ws Largest rests))" and w: "\<forall>w \<in> set ws. canonical w" and t: "0 < t"
  shows "m * units_value (ws ! j) mod t \<le> m * units_value (ws ! i) mod t"
proof (cases rests)
  case None
  with known obtain r where r: "map (\<lambda>w. m * units_value w mod t) ws = replicate (length ws) r"
    by (auto simp: rests_known_def)
  from arg_cong [OF r, of "\<lambda>xs. xs ! i"] arg_cong [OF r, of "\<lambda>xs. xs ! j"] ij show ?thesis by simp
next
  case (Some us)
  with known have us: "map units_value us = map (\<lambda>w. m * units_value w mod t) ws" by (simp add: rests_known_def)
  have nth: "units_value (us ! k) = m * units_value (ws ! k) mod t" if "k < length ws" for k
    using arg_cong [OF us, of "\<lambda>xs. xs ! k"] arg_cong [OF us, of length] that by simp
  have order: "bump_order ws Largest rests = rest_order ws us" by (simp add: bump_order_def Some)
  show ?thesis
  proof (cases "ws ! j = Num 0")
    case True
    with t show ?thesis by simp
  next
    case False
    with ij(2) bump_order_set [of ws Largest rests] have "j \<in> set (bump_order ws Largest rests)" by blast
    with ij(4) have "j \<in> set (drop n (bump_order ws Largest rests))" by (metis append_take_drop_id set_append Un_iff)
    with ij(3) have "- units_value (us ! i) \<le> - units_value (us ! j)"
      unfolding order by (intro sorted_take_le [where f = "\<lambda>i. - units_value (us ! i)"]) (simp_all add: rest_order_def)
    with nth ij show ?thesis by simp
  qed
qed

lemma distribute_fair:
  assumes whole: "well_formed whole" and ws: "\<forall>w \<in> set ws. canonical w \<and> 0 \<le> units_value w"
    and tw: "canonical tw" "units_value tw = sum_list (map units_value ws)" "0 < units_value tw"
    and few: "length ws \<le> MAX_PARTS" and parts: "distribute whole ws tw policy = Inr parts"
  shows "fair_parts whole (map units_value ws) policy parts"
proof -
  define mu where "mu = (if units_value (units whole) < 0 then neg_units (units whole) else units whole)"
  define m t where "m = units_value mu" and "t = units_value tw"
  have m: "canonical mu" "m = \<bar>units_value (units whole)\<bar>" "0 \<le> m"
    using whole by (auto simp: mu_def m_def well_formed_def)
  from parts obtain shares rests given left shares' where
    s: "share_loop mu tw ws ([], Num 0, None, Num 0) = Inr (shares, rests, given)"
      "add_units mu (neg_units given) = Inr left" "spread ws policy rests (rnd53 (units_value left)) shares = Inr shares'"
    and p: "parts = map (\<lambda>s. whole\<lparr>units := if units_value (units whole) < 0 then neg_units s else s\<rparr>) shares'"
    by (auto simp: distribute_def Let_def mu_def result_simps)
  have zero: "canonical (Num 0)" by (simp add: MAX_SAFE_def)
  from share_loop_exact [OF s(1) m(1) tw(1) _ tw(3) ws _ zero zero, of "[]"] m(3)
  have sh: "list_all canonical shares" "canonical given" "map units_value shares = map (quota m t) ws"
    "units_value given = sum_list (map (quota m t) ws)" "rests_known rests (map (remaining m t) ws)"
    by (simp_all add: m_def t_def rests_known_def)
  let ?n = "length ws"
  have len: "length shares = ?n" using arg_cong [OF sh(3), of length] by simp
  have sum: "sum_list (map f ws) = (\<Sum>i < ?n. f (ws ! i))" for f :: "units \<Rightarrow> int"
    by (simp add: sum_list_sum_nth atLeast0LessThan)
  define L where "L = m - (\<Sum>i < ?n. quota m t (ws ! i))"
  from units.subtract_exact [OF m(1) sh(2) s(2)] sh(4) have left: "units_value left = L" by (simp add: m_def L_def sum)
  have bound: "0 \<le> L" "L \<le> int (card {i. i < ?n \<and> units_value (ws ! i) \<noteq> 0})"
  proof -
    have pre: "0 < t" "\<forall>i < ?n. 0 \<le> units_value (ws ! i)" "(\<Sum>i < ?n. units_value (ws ! i)) = t"
      using tw(3) ws sum [of units_value] tw(2) by (simp_all only: t_def nth_mem) simp_all
    show "0 \<le> L" "L \<le> int (card {i. i < ?n \<and> units_value (ws ! i) \<noteq> 0})"
      unfolding L_def quota_def by (rule left_bound [OF pre m(3)])+
  qed
  have nz: "units_value w = 0 \<longleftrightarrow> w = Num 0" if "w \<in> set ws" for w
    using ws that by (cases w) (auto simp: MAX_SAFE_def)
  have set_eq: "{i. i < ?n \<and> units_value (ws ! i) \<noteq> 0} = {i. i < ?n \<and> ws ! i \<noteq> Num 0}" using nz by auto
  have "card {i. i < ?n \<and> ws ! i \<noteq> Num 0} \<le> ?n"
    using card_mono [of "{..< ?n}" "{i. i < ?n \<and> ws ! i \<noteq> Num 0}"] by auto
  with bound few have "rnd53 L = L" by (intro rnd53_small) (simp add: set_eq MAX_PARTS_def MAX_SAFE_def)
  define order where "order = bump_order ws policy rests"
  have order: "distinct order" "set order = {i. i < ?n \<and> ws ! i \<noteq> Num 0}" using bump_order_set by (simp_all add: order_def)
  have "bump order L shares = Inr shares'"
    using s(3) spread_eq [OF bound(1)] \<open>rnd53 L = L\<close> by (simp add: left order_def)
  from bump_exact [OF this bound(1) order(1) _ sh(1)] order(2) len
  have b: "list_all canonical shares'" "length shares' = ?n"
    "\<forall>i < ?n. units_value (shares' ! i) = units_value (shares ! i) + bonus order L i"
    by simp_all
  define u where "u i = units_value (units (parts ! i))" for i
  have sgn: "u i = (if units_value (units whole) < 0 then - units_value (shares' ! i) else units_value (shares' ! i))"
    if "i < ?n" for i using that b(2) by (simp add: u_def p)
  have q: "units_value (shares' ! i) = quota m t (ws ! i) + bonus order L i" if "i < ?n" for i
    using b(3) arg_cong [OF sh(3), of "\<lambda>xs. xs ! i"] len that by simp
  have pos: "0 \<le> quota m t (ws ! i)" "0 \<le> bonus order L i" if "i < ?n" for i
    using that ws tw(3) m(3) by (simp_all add: quota_def bonus_def t_def pos_imp_zdiv_nonneg_iff)
  have abs: "\<bar>u i\<bar> = quota m t (ws ! i) + bonus order L i" if "i < ?n" for i
  proof -
    have "0 \<le> quota m t (ws ! i) + bonus order L i" using pos [OF that] by simp
    then show ?thesis using sgn [OF that] q [OF that] by (metis abs_minus_cancel abs_of_nonneg)
  qed
  have total: "(\<Sum>i < ?n. units_value (shares' ! i)) = m"
  proof -
    have "nat L \<le> length order" using bound order by (simp add: set_eq distinct_card [symmetric] nat_le_iff)
    then have "(\<Sum>i < ?n. bonus order L i) = L" using order bound(1) by (intro sum_bonus) auto
    moreover have "(\<Sum>i < ?n. units_value (shares' ! i)) = (\<Sum>i < ?n. quota m t (ws ! i) + bonus order L i)"
      using q by (intro sum.cong) simp_all
    ultimately show ?thesis by (simp add: sum.distrib L_def)
  qed
  have T: "sum_list (map units_value ws) = t" "\<bar>units_value (units whole)\<bar> = m" using tw(2) m(2) by (simp_all add: t_def)
  have nth: "map units_value ws ! i = units_value (ws ! i)" if "i < ?n" for i using that by simp
  have sum_parts: "(\<Sum>p\<leftarrow>parts. units_value (units p)) = units_value (units whole)"
  proof -
    have "(\<Sum>p\<leftarrow>parts. units_value (units p)) = (\<Sum>i < ?n. u i)"
      using b(2) by (simp add: sum_list_sum_nth atLeast0LessThan u_def p)
    also have "\<dots> = (if units_value (units whole) < 0 then - m else m)"
      using total sgn by (simp add: sum_negf)
    finally show ?thesis using m(2) by simp
  qed
  have shape: "\<forall>x \<in> set parts. well_formed x \<and> scale x = scale whole \<and> currency x = currency whole"
    using b(1) by (auto simp: p well_formed_def list_all_iff)
  have quotas: "(\<bar>u i\<bar> = m * units_value (ws ! i) div t \<or>
      (\<bar>u i\<bar> = m * units_value (ws ! i) div t + 1 \<and> units_value (ws ! i) \<noteq> 0)) \<and>
      (0 < u i \<longrightarrow> 0 < units_value (units whole)) \<and> (u i < 0 \<longrightarrow> units_value (units whole) < 0)" if i: "i < ?n" for i
  proof -
    have "bonus order L i = 0 \<or> bonus order L i = 1 \<and> ws ! i \<noteq> Num 0"
      using order(2) by (auto simp: bonus_def dest: in_set_takeD)
    then have "bonus order L i = 0 \<or> bonus order L i = 1 \<and> units_value (ws ! i) \<noteq> 0" using nz i by auto
    moreover have "0 \<le> units_value (shares' ! i)" using q [OF i] pos [OF i] by simp
    moreover have "m = 0 \<Longrightarrow> bonus order L i = 0" using bound by (auto simp: L_def quota_def bonus_def)
    ultimately show ?thesis
      using abs [OF i] sgn [OF i] m(2) q [OF i]
      by (cases "units_value (units whole)" "0 :: int" rule: linorder_cases) (auto simp: quota_def)
  qed
  have largest: "m * units_value (ws ! j) mod t \<le> m * units_value (ws ! i) mod t"
    if "policy = Largest" "i < ?n" "j < ?n" "\<bar>u i\<bar> = m * units_value (ws ! i) div t + 1" "\<bar>u j\<bar> = m * units_value (ws ! j) div t" for i j
  proof (rule bonus_largest)
    show "rests_known rests (map (\<lambda>w. m * units_value w mod t) ws)" using sh(5) by (simp add: remaining_def [abs_def])
    show "i \<in> set (take (nat L) (bump_order ws Largest rests))" "j \<notin> set (take (nat L) (bump_order ws Largest rests))"
      using that abs [OF that(2)] abs [OF that(3)] by (auto simp: quota_def bonus_def order_def split: if_splits)
  qed (use that ws tw(3) in \<open>simp_all add: t_def\<close>)
  have "length parts = ?n" using b(2) by (simp add: p)
  then show ?thesis
    unfolding fair_parts_def Let_def T length_map u_def [symmetric]
    using sum_parts shape quotas largest nth by simp
qed

section \<open>Allocation by ratios\<close>

text \<open>A number given as a ratio is a safe integer where it says so.\<close>

fun valid_ratio :: "ratio_input \<Rightarrow> bool" where
  "valid_ratio (RNumber (SafeInteger n)) \<longleftrightarrow> is_safe n"
| "valid_ratio _ \<longleftrightarrow> True"

lemma parse_number_canonical:
  assumes "parse_number v = Inr (c, f)" "case v of SafeInteger n \<Rightarrow> is_safe n | _ \<Rightarrow> True"
  shows "canonical c"
  using assms parse_decimal_canonical
  by (cases v) (auto simp: parse_number_def is_safe_abs)

lemma read_ratio_canonical:
  assumes "read_ratio r = Inr (c, f)" "valid_ratio r"
  shows "canonical c \<and> 0 \<le> units_value c"
proof -
  from assms(1) have "0 \<le> units_value c" by (auto simp: read_ratio_def result_simps split: if_splits)
  moreover have "canonical c"
  proof (cases r)
    case (RNumber v)
    with assms have "parse_number v = Inr (c, f)" by (auto simp: read_ratio_def result_simps split: if_splits)
    then show ?thesis by (rule parse_number_canonical) (use assms(2) RNumber in \<open>cases v; simp\<close>)
  next
    case (RText s)
    with assms have "parse_decimal s = Inr (c, f)" by (auto simp: read_ratio_def result_simps split: if_splits)
    then show ?thesis using parse_decimal_canonical by blast
  next
    case (RBigint n)
    with assms show ?thesis by (auto simp: read_ratio_def result_simps split: if_splits)
  qed
  ultimately show ?thesis by simp
qed

lemma most_decimals_upper: "m \<le> most_decimals ps m \<and> (\<forall>p \<in> set ps. snd p \<le> most_decimals ps m)"
proof (induction ps arbitrary: m)
  case Nil
  then show ?case by (simp add: most_decimals_def)
next
  case (Cons p ps)
  define m' where "m' = max m (snd p)"
  have "most_decimals (p # ps) m = most_decimals ps m'"
    by (simp add: most_decimals_def m'_def max_def not_less)
  moreover have "m \<le> m'" "snd p \<le> m'" by (simp_all add: m'_def)
  moreover have "m' \<le> most_decimals ps m'" "\<forall>q \<in> set ps. snd q \<le> most_decimals ps m'" using Cons.IH [of m'] by auto
  ultimately show ?case by simp
qed

text \<open>The weights of either path: the ratios, all scaled by the same power of ten.\<close>

definition weights_of :: "ratio_input list \<Rightarrow> units list \<Rightarrow> bool" where
  "weights_of ratios ws \<longleftrightarrow>
     (\<exists>k. list_all2 (\<lambda>r w. \<exists>c f. read_ratio r = Inr (c, f) \<and> f \<le> k \<and> canonical w \<and> 0 \<le> units_value w \<and>
        units_value w = units_value c * 10 ^ (k - f)) ratios ws)"

lemma whole_weights:
  assumes "are_whole_ratios ratios" "\<forall>r \<in> set ratios. valid_ratio r"
  shows "weights_of ratios (map whole_weight ratios)"
  unfolding weights_of_def
proof (intro exI [of _ 0])
  show "list_all2 (\<lambda>r w. \<exists>c f. read_ratio r = Inr (c, f) \<and> f \<le> 0 \<and> canonical w \<and> 0 \<le> units_value w \<and>
      units_value w = units_value c * 10 ^ (0 - f)) ratios (map whole_weight ratios)"
    unfolding list_all2_map2
  proof (rule list.rel_refl_strong)
    fix r
    assume r: "r \<in> set ratios"
    with assms(1) have "case r of RNumber (SafeInteger n) \<Rightarrow> n \<ge> 0 | _ \<Rightarrow> False" unfolding are_whole_ratios_def list_all_iff by blast
    moreover from assms(2) r have "valid_ratio r" by blast
    ultimately obtain n where "r = RNumber (SafeInteger n)" "0 \<le> n" "is_safe n"
      by (auto split: ratio_input.splits js_number.splits)
    then show "\<exists>c f. read_ratio r = Inr (c, f) \<and> f \<le> 0 \<and> canonical (whole_weight r) \<and> 0 \<le> units_value (whole_weight r) \<and>
        units_value (whole_weight r) = units_value c * 10 ^ (0 - f)"
      by (simp add: read_ratio_def parse_number_def is_safe_abs)
  qed
qed

lemma scaled_weights_ok:
  assumes "scaled_weights ratios = Inr ws" "\<forall>r \<in> set ratios. valid_ratio r"
  shows "weights_of ratios ws"
proof -
  from assms(1) obtain ps where ps: "rmap_list read_ratio ratios = Inr ps" by (auto simp: scaled_weights_def result_simps)
  define k where "k = most_decimals ps 0"
  have k: "snd p \<le> k" if "p \<in> set ps" for p using most_decimals_upper [of 0 ps] that by (simp add: k_def)
  have read: "list_all2 (\<lambda>r p. read_ratio r = Inr p \<and> canonical (fst p) \<and> 0 \<le> units_value (fst p) \<and> snd p \<le> k) ratios ps"
    using ps assms(2) k read_ratio_canonical unfolding rmap_list_Inr list_all2_conv_all_nth
    by (auto simp: all_set_conv_all_nth) (metis nth_mem surjective_pairing)+
  have mul: "list_all2 (\<lambda>p w. canonical (fst p) \<and> 0 \<le> units_value (fst p) \<longrightarrow> canonical w \<and> 0 \<le> units_value w \<and> units_value w = units_value (fst p) * 10 ^ (k - snd p)) ps ws"
  proof (cases "0 < k")
    case True
    with assms(1) ps have "rmap_list (\<lambda>(c, f). mul_units c (pow10 (k - f))) ps = Inr ws"
      by (simp add: scaled_weights_def k_def Let_def)
    then show ?thesis unfolding rmap_list_Inr
      by (rule list_all2_mono) (auto dest!: units.mul_exact [rotated 2] split: prod.splits)
  next
    case False
    with assms(1) ps have "ws = map fst ps" by (simp add: scaled_weights_def k_def Let_def)
    with False show ?thesis by (auto simp: list_all2_conv_all_nth)
  qed
  show ?thesis
    unfolding weights_of_def
    by (rule exI [of _ k], rule list_all2_trans [OF _ read mul]) (metis prod.collapse)
qed

lemma add_all_exact:
  "canonical t \<Longrightarrow> \<forall>w \<in> set ws. canonical w \<Longrightarrow> add_all t ws = Inr u \<Longrightarrow>
    canonical u \<and> units_value u = units_value t + sum_list (map units_value ws)"
proof (induction ws arbitrary: t)
  case Nil
  then show ?case by simp
next
  case (Cons w ws)
  from Cons.prems(3) obtain t' where t: "add_units t w = Inr t'" "add_all t' ws = Inr u" by (auto simp: result_simps)
  from units.add_exact [OF Cons.prems(1) _ t(1)] Cons.prems(2) have "canonical t'" "units_value t' = units_value t + units_value w"
    by auto
  with Cons.IH [OF _ _ t(2)] Cons.prems(2) show ?case by simp
qed

text \<open>
  C9: Allocation loses nothing and is fair: when \<open>allocate\<close> returns, the parts are of the amount's
  currency and scale and add back to it exactly; each part is its exact share by the ratios
  rounded towards zero, or one unit more; a ratio of zero gets nothing; no part has the other
  sign; and with the default policy the extra units went to the largest remainders.
\<close>

theorem allocate_fair:
  assumes "well_formed m" "\<forall>r \<in> set ratios. valid_ratio r" "allocate m ratios policy = Inr parts"
  shows "\<exists>ws. weights_of ratios ws \<and> 0 < sum_list (map units_value ws) \<and>
    fair_parts m (map units_value ws) (case policy of None \<Rightarrow> Largest | Some p \<Rightarrow> p) parts"
proof -
  from assms(3) obtain ws tw where ws: "(if are_whole_ratios ratios then Inr (map whole_weight ratios) else scaled_weights ratios) = Inr ws"
    "add_all (Num 0) ws = Inr tw" "tw \<noteq> Num 0" "distribute m ws tw (case policy of None \<Rightarrow> Largest | Some p \<Rightarrow> p) = Inr parts"
    and few: "length ratios \<le> MAX_PARTS"
    by (auto simp: allocate_def result_simps split: if_split_asm)
  from ws(1) have weights: "weights_of ratios ws"
    using whole_weights [OF _ assms(2)] scaled_weights_ok [OF _ assms(2)] by (auto split: if_split_asm)
  then have len: "length ws = length ratios" and can: "\<forall>w \<in> set ws. canonical w \<and> 0 \<le> units_value w"
    by (auto simp: weights_of_def list_all2_conv_all_nth in_set_conv_nth)
  have "canonical (Num 0)" by (simp add: MAX_SAFE_def)
  from add_all_exact [OF this _ ws(2)] can have tw: "canonical tw" "units_value tw = sum_list (map units_value ws)" by auto
  have "0 \<le> sum_list (map units_value ws)" using can by (intro sum_list_nonneg) auto
  moreover have "units_value tw \<noteq> 0" using tw(1) ws(3) by (cases tw) (auto simp: MAX_SAFE_def)
  ultimately have pos: "0 < units_value tw" using tw(2) by simp
  from distribute_fair [OF assms(1) can tw pos _ ws(4)] few len weights pos tw(2) show ?thesis by auto
qed

theorem allocate_fair_witness:
  "\<exists>parts. allocate (sample_eur 10000 2) (replicate 3 (RNumber (SafeInteger 1))) None = Inr parts \<and>
     map (\<lambda>p. units_value (units p)) parts = [3334, 3333, 3333] \<and>
     (\<exists>ws. fair_parts (sample_eur 10000 2) ws Largest parts)"
proof -
  have run: "allocate (sample_eur 10000 2) (replicate 3 (RNumber (SafeInteger 1))) None =
      Inr [sample_eur 3334 2, sample_eur 3333 2, sample_eur 3333 2]"
  proof -
    have share: "share_and_rest (Num 10000) (Num 1) (Num 3) = Inr (Num 3333, Num 1)"
      by (simp add: share_and_rest_def rnd53_small MAX_SAFE_def sdiv_smod_pos)
    have "distribute (sample_eur 10000 2) [Num 1, Num 1, Num 1] (Num 3) Largest =
      Inr [sample_eur 3334 2, sample_eur 3333 2, sample_eur 3333 2]"
      by (simp add: distribute_def sample_eur_def canon_def is_safe_def share add_units_def keep_rest_def spread_def
          rnd53_small MAX_SAFE_def upt_rec)
    moreover have "add_all (Num 0) [Num 1, Num 1, Num 1] = Inr (Num 3)" by code_simp
    moreover have "are_whole_ratios (replicate 3 (RNumber (SafeInteger 1)))" by (simp add: are_whole_ratios_def list_all_iff)
    ultimately show ?thesis by (simp add: allocate_def MAX_PARTS_def numeral_3_eq_3)
  qed
  from allocate_fair [OF sample_well_formed _ this]
  have "\<exists>ws. fair_parts (sample_eur 10000 2) ws Largest [sample_eur 3334 2, sample_eur 3333 2, sample_eur 3333 2]"
    by (auto simp: is_safe_def MAX_SAFE_def)
  with run show ?thesis by (simp add: sample_eur_def)
qed

section \<open>Equal shares\<close>

lemma sum_first: "r \<le> n \<Longrightarrow> (\<Sum>i < n. if i < r then 1 else 0 :: int) = int r"
  by (induction n) (auto simp: le_Suc_eq intro!: sum.neutral)

lemma sum_last: "r \<le> n \<Longrightarrow> (\<Sum>i < n. if n - r \<le> i then 1 else 0 :: int) = int r"
proof -
  assume "r \<le> n"
  have "(\<Sum>i < n. if n - r \<le> i then 1 else 0 :: int) = (\<Sum>i < n. if n - Suc i < r then 1 else 0)"
    by (rule sum.cong) auto
  also have "\<dots> = (\<Sum>i < n. if i < r then 1 else 0)"
    using sum.nat_diff_reindex [of "\<lambda>i. if i < r then 1 else 0 :: int" n] by simp
  finally show ?thesis using sum_first [OF \<open>r \<le> n\<close>] by simp
qed

definition split_extra :: "remainder_policy option \<Rightarrow> int \<Rightarrow> int \<Rightarrow> nat \<Rightarrow> int" where
  "split_extra policy n r i = (if (if policy = Some Final then n - r \<le> int i else int i < r) then 1 else 0)"

lemma sum_split_extra:
  assumes "0 \<le> r" "r \<le> n"
  shows "(\<Sum>i < nat n. split_extra policy n r i) = r"
proof (cases "policy = Some Final")
  case True
  have "(\<Sum>i < nat n. split_extra policy n r i) = (\<Sum>i < nat n. if nat n - nat r \<le> i then 1 else 0)"
    using assms True by (intro sum.cong) (auto simp: split_extra_def)
  with assms show ?thesis using sum_last [of "nat r" "nat n"] by simp
next
  case False
  have "(\<Sum>i < nat n. split_extra policy n r i) = (\<Sum>i < nat n. if i < nat r then 1 else 0)"
    using assms False by (intro sum.cong) (auto simp: split_extra_def)
  with assms show ?thesis using sum_first [of "nat r" "nat n"] by simp
qed

text \<open>
  \<open>split\<close> makes the asked number of parts, which add back to the amount exactly and differ by
  at most one unit: the remainder of the whole division goes to the first parts, or to the
  last ones with that policy.
\<close>

theorem split_even:
  assumes "well_formed m" "split_money m n policy = Inr parts"
  shows "int (length parts) = n \<and> (\<Sum>p\<leftarrow>parts. units_value (units p)) = units_value (units m) \<and>
    (\<forall>i < length parts. well_formed (parts ! i) \<and> scale (parts ! i) = scale m \<and> currency (parts ! i) = currency m \<and>
      units_value (units (parts ! i)) = sgn (units_value (units m)) *
        (\<bar>units_value (units m)\<bar> div n + split_extra policy n (\<bar>units_value (units m)\<bar> mod n) i))"
proof -
  define mu where "mu = (if units_value (units m) < 0 then neg_units (units m) else units m)"
  define M where "M = \<bar>units_value (units m)\<bar>"
  have mu: "canonical mu" "units_value mu = M" "0 \<le> M"
    using assms(1) by (auto simp: mu_def M_def well_formed_def)
  from assms(2) have n: "1 \<le> n" "n \<le> 10000" by (auto simp: split_money_def MAX_PARTS_def split: if_split_asm)
  then have num: "canonical (Num 1)" "canonical (Num n)" by (simp_all add: MAX_SAFE_def)
  from assms(2) n obtain share bk left bigger where s: "mul_div mu (Num 1) (Num n) (Some Down) = Inr share"
    "mul_units share (Num n) = Inr bk" "add_units mu (neg_units bk) = Inr left" "add_units share (Num 1) = Inr bigger"
    and parts: "parts = map (\<lambda>i. let u = (if (if policy = Some Final then int i \<ge> n - rnd53 (units_value left)
        else int i < rnd53 (units_value left)) then bigger else share)
      in m\<lparr>units := if units_value (units m) < 0 then neg_units u else u\<rparr>) [0 ..< nat n]"
    by (auto simp: split_money_def MAX_PARTS_def Let_def mu_def result_simps)
  have sh: "canonical share" "units_value share = M div n"
    using s(1) mul_div_eq [OF mu(1) num(1,2), of "Some Down"] mu n
    by (auto simp: round_div_def Let_def split: if_splits)
  from units.mul_exact [OF sh(1) num(2) s(2)] have bk: "canonical bk" "units_value bk = M div n * n" by (auto simp: sh)
  from units.subtract_exact [OF mu(1) bk(1) s(3)] have left: "units_value left = M mod n"
    by (simp add: mu bk minus_div_mult_eq_mod)
  have r: "0 \<le> M mod n" "M mod n < n" using n by simp_all
  then have "\<bar>M mod n\<bar> \<le> MAX_SAFE" unfolding MAX_SAFE_def using n by linarith
  then have rnd: "rnd53 (M mod n) = M mod n" by (rule rnd53_small)
  from units.add_exact [OF sh(1) num(1) s(4)] have big: "canonical bigger" "units_value bigger = M div n + 1" by (auto simp: sh)
  have len: "length parts = nat n" by (simp add: parts)
  have part: "well_formed (parts ! i) \<and> scale (parts ! i) = scale m \<and> currency (parts ! i) = currency m \<and>
      units_value (units (parts ! i)) = sgn (units_value (units m)) * (M div n + split_extra policy n (M mod n) i)"
    if i: "i < nat n" for i
  proof -
    let ?gets = "if policy = Some Final then n - M mod n \<le> int i else int i < M mod n"
    define u where "u = (if ?gets then bigger else share)"
    have p: "parts ! i = m\<lparr>units := if units_value (units m) < 0 then neg_units u else u\<rparr>"
      using i by (simp add: parts left rnd u_def)
    have u: "canonical u" "units_value u = M div n + split_extra policy n (M mod n) i"
      using sh big by (auto simp: u_def split_extra_def)
    have "units_value (units m) = 0 \<Longrightarrow> units_value u = 0"
      using u(2) i by (auto simp: M_def split_extra_def)
    with u show ?thesis
      by (cases "units_value (units m)" "0 :: int" rule: linorder_cases) (auto simp: p well_formed_def)
  qed
  have extra: "(\<Sum>i < nat n. split_extra policy n (M mod n) i) = M mod n"
    using r by (intro sum_split_extra) linarith+
  have "(\<Sum>p\<leftarrow>parts. units_value (units p)) = (\<Sum>i < nat n. sgn (units_value (units m)) * (M div n + split_extra policy n (M mod n) i))"
    using part by (simp add: sum_list_sum_nth atLeast0LessThan len)
  also have "\<dots> = sgn (units_value (units m)) * (n * (M div n) + M mod n)"
    using n by (simp add: sum.distrib extra flip: sum_distrib_left)
  also have "\<dots> = units_value (units m)" by (simp add: M_def sgn_mult_abs)
  finally show ?thesis using part n by (simp add: len M_def)
qed

theorem split_even_witness:
  "split_money (sample_eur 1000 2) 3 (Some Final) = Inr [sample_eur 333 2, sample_eur 333 2, sample_eur 334 2] \<and>
   (\<Sum>p\<leftarrow>[sample_eur 333 2, sample_eur 333 2, sample_eur 334 2]. units_value (units p)) = units_value (units (sample_eur 1000 2))"
proof -
  have run: "split_money (sample_eur 1000 2) 3 (Some Final) = Inr [sample_eur 333 2, sample_eur 333 2, sample_eur 334 2]"
    by (simp add: split_money_def sample_eur_def canon_def is_safe_def mul_div_def mul_div_num_def mul_units_def add_units_def
        rnd53_small MAX_SAFE_def MAX_PARTS_def sdiv_smod_pos rounds_away_def upt_rec)
  from split_even [OF sample_well_formed this] run show ?thesis by blast
qed

end
