(* ===== verification/MoneyText.thy ===== *)
theory MoneyText
  imports Money
begin

text \<open>
  Amounts as text: \<open>Money.fromMinor\<close>, \<open>Money.parse\<close>, \<open>Money.fromJSON\<close>, \<open>toDecimalString\<close>,
  \<open>toString\<close>, \<open>toJSON\<close> and \<open>toMinorUnits\<close> of \<open>packages/money/src/money.ts\<close>. The lemmas show that
  what is written is read back, and where the length limit of the readers ends that.
\<close>

section \<open>Minor units\<close>

definition from_minor :: "minor_input \<Rightarrow> currency \<Rightarrow> int option \<Rightarrow> money_error + money" where
  "from_minor v cur scale_opt =
     rbind (to_units v) (\<lambda>u.
     rbind (case scale_opt of None \<Rightarrow> Inr (cur_scale cur) | Some s \<Rightarrow> check_scale s) (\<lambda>s.
       Inr \<lparr>units = u, scale = s, currency = cur\<rparr>))"

definition zero_money :: "currency \<Rightarrow> int option \<Rightarrow> money_error + money" where
  "zero_money cur scale_opt =
     rbind (case scale_opt of None \<Rightarrow> Inr (cur_scale cur) | Some s \<Rightarrow> check_scale s) (\<lambda>s.
       Inr \<lparr>units = Num 0, scale = s, currency = cur\<rparr>)"

definition to_minor_units :: "money \<Rightarrow> money_error + units" where
  "to_minor_units this = quantize (units this) (scale this) (cur_scale (currency this)) None None"

definition to_minor_number :: "money \<Rightarrow> money_error + int" where
  "to_minor_number this =
     rbind (to_minor_units this) (\<lambda>u. case u of Num n \<Rightarrow> Inr n | Big n \<Rightarrow> Inl NumericRange)"

section \<open>Writing\<close>

definition to_decimal_string :: "money \<Rightarrow> string" where
  "to_decimal_string this = decimal_string (units this) (scale this)"

definition to_string :: "money \<Rightarrow> string" where
  "to_string this = to_decimal_string this @ '' '' @ code (currency this)"

section \<open>Reading\<close>

text \<open>\<open>fromText\<close>: at the text's own scale, at least the currency's\<close>

definition from_text :: "string \<Rightarrow> currency \<Rightarrow> money_error + money" where
  "from_text s cur =
     rbind (parse_decimal s) (\<lambda>(coefficient, fraction).
       let sc = max fraction (cur_scale cur)
       in if sc > MAX_SCALE then Inl InputTooLarge
          else rbind (quantize coefficient fraction sc None None) (\<lambda>u.
                 Inr \<lparr>units = u, scale = sc, currency = cur\<rparr>))"

text \<open>White space of \<open>trim\<close> and \<open>\\s\<close>, and \<open>split(/\\s+/)\<close>.\<close>

definition is_space :: "char \<Rightarrow> bool" where
  "is_space c \<longleftrightarrow> (let n = of_char c :: nat in 9 \<le> n \<and> n \<le> 13 \<or> n = 32 \<or> n = 160)"

definition trim :: "string \<Rightarrow> string" where
  "trim s = rev (dropWhile is_space (rev (dropWhile is_space s)))"

function split_spaces :: "string \<Rightarrow> string list" where
  "split_spaces s =
     (let w = takeWhile (\<lambda>c. \<not> is_space c) s; r = dropWhile (\<lambda>c. \<not> is_space c) s
      in if r = [] then [w] else w # split_spaces (dropWhile is_space r))"
  by pat_completeness auto
termination
proof (relation "measure length")
  fix s w r :: string
  assume r: "r = dropWhile (\<lambda>c. \<not> is_space c) s" "r \<noteq> []"
  then have "is_space (hd r)" using hd_dropWhile [of "\<lambda>c. \<not> is_space c" s] by simp
  with r(2) have "length (dropWhile is_space r) < length r"
    by (cases r) (auto simp: less_Suc_eq_le length_dropWhile_le)
  also have "length r \<le> length s" unfolding r(1) by (rule length_dropWhile_le)
  finally show "(dropWhile is_space r, s) \<in> measure length" by simp
qed simp

declare split_spaces.simps [simp del]

text \<open>The amount comes first if the first part starts with a digit, after an optional sign.\<close>

definition amount_first :: "string \<Rightarrow> bool" where
  "amount_first s \<longleftrightarrow> (case snd (take_sign s) of [] \<Rightarrow> False | c # _ \<Rightarrow> is_dec c)"

definition parse_money :: "string \<Rightarrow> currency list option \<Rightarrow> money_error + money" where
  "parse_money s currencies =
     (if length s > MAX_INPUT_LENGTH then Inl InputTooLarge
      else case split_spaces (trim s) of
             [first, second] \<Rightarrow>
               rbind (parse_currency (if amount_first first then second else first) currencies) (\<lambda>cur.
                 from_text (if amount_first first then first else second) cur)
           | _ \<Rightarrow> Inl InvalidMoneyText)"

text \<open>A value from outside: an object whose \<open>amount\<close> and \<open>currency\<close> are strings, or anything else.\<close>

datatype money_json = MoneyJSON string string | OtherShape

definition to_json :: "money \<Rightarrow> money_json" where
  "to_json this = MoneyJSON (to_decimal_string this) (code (currency this))"

definition from_json :: "money_json \<Rightarrow> currency list option \<Rightarrow> money_error + money" where
  "from_json v currencies =
     (case v of
        OtherShape \<Rightarrow> Inl InvalidMoneyShape
      | MoneyJSON amount c \<Rightarrow> rbind (parse_currency c currencies) (from_text amount))"

text \<open>\<open>fromDecimalText\<close>, for localized input: at a given scale\<close>

definition from_decimal_text :: "string \<Rightarrow> currency \<Rightarrow> nat \<Rightarrow> rounding_mode option \<Rightarrow> money_error + money" where
  "from_decimal_text s cur sc rounding =
     rbind (parse_decimal s) (\<lambda>(coefficient, fraction).
       if rounding \<in> {None, Some Unnecessary} \<and> \<not> is_exact_at_scale coefficient fraction sc
       then Inl RoundingNecessary
       else rbind (quantize coefficient fraction sc rounding None) (\<lambda>u.
              Inr \<lparr>units = u, scale = sc, currency = cur\<rparr>))"

section \<open>What is written is read back\<close>

lemma hex_digits_power: "\<bar>v\<bar> < 10 ^ k \<Longrightarrow> hex_digits v \<le> max 1 k"
proof -
  assume "\<bar>v\<bar> < 10 ^ k"
  also have "(10 :: int) ^ k \<le> 16 ^ k" by (rule power_mono) simp_all
  also have "(16 :: int) ^ k \<le> 16 ^ max 1 k" by (rule power_increasing) simp_all
  finally show ?thesis unfolding hex_digits_def by (intro hex_length_le) (simp_all split: if_splits)
qed

lemma decimal_string_length: "\<bar>units_value u\<bar> < 10 ^ length (decimal_string u s)"
proof -
  obtain w f where wf: "list_all is_dec w" "list_all is_dec f"
    "decimal_string u s = (if units_value u < 0 then ''-'' else []) @ w @ (if f = [] then [] else ''.'' @ f)"
    "int (digits_value (w @ f)) = \<bar>units_value u\<bar>"
    by (rule decimal_string_parts) 
  then have "digits_value (w @ f) < 10 ^ length (w @ f)" by (intro digits_value_less) simp
  also have "(10 :: nat) ^ length (w @ f) \<le> 10 ^ length (decimal_string u s)"
    by (rule power_increasing) (simp_all add: wf(3))
  finally have "int (digits_value (w @ f)) < int (10 ^ length (decimal_string u s))" by (simp only: of_nat_less_iff)
  then show ?thesis by (simp add: wf(4))
qed

lemma from_text_written:
  assumes "well_formed m" "max (scale m) (cur_scale cur) \<le> MAX_SCALE"
  shows "from_text (to_decimal_string m) cur =
    (if length (to_decimal_string m) > MAX_INPUT_LENGTH then Inl InputTooLarge
     else Inr \<lparr>units = canon (units_value (units m) * 10 ^ (max (scale m) (cur_scale cur) - scale m)),
               scale = max (scale m) (cur_scale cur), currency = cur\<rparr>)"
proof (cases "length (to_decimal_string m) > MAX_INPUT_LENGTH")
  case True
  with assms show ?thesis
    by (simp add: from_text_def to_decimal_string_def parse_decimal_string well_formed_def)
next
  case False
  from assms(1) have can: "canonical (units m)" by (simp add: well_formed_def)
  with False have parse: "parse_decimal (to_decimal_string m) = Inr (units m, scale m)"
    by (simp add: to_decimal_string_def parse_decimal_string)
  let ?k = "max (scale m) (cur_scale cur) - scale m"
  have "hex_digits (units_value (units m)) \<le> max 1 (length (to_decimal_string m))"
    unfolding to_decimal_string_def by (rule hex_digits_power [OF decimal_string_length])
  moreover have "hex_digits (10 ^ ?k) \<le> max 1 (Suc ?k)" by (rule hex_digits_power) simp
  moreover have "max 1 (length (to_decimal_string m)) \<le> 1000" "max 1 (Suc ?k) \<le> 101"
    using False assms(2) by (auto simp: MAX_INPUT_LENGTH_def MAX_SCALE_def max_def)
  ultimately have "hex_digits (units_value (units m)) + hex_digits (10 ^ ?k) \<le> 1101" by linarith
  then have small: "\<not> product_exceeds_digits (units m) (pow10 ?k)"
    by (simp add: product_exceeds_digits_def MAX_HEX_DIGITS_def)
  have "quantize (units m) (scale m) (max (scale m) (cur_scale cur)) None None = Inr (canon (units_value (units m) * 10 ^ ?k))"
  proof (cases "cur_scale cur \<le> scale m")
    case True
    with can show ?thesis by (simp add: quantize_def max_def canonical_iff)
  next
    case no: False
    have "mul_units (units m) (pow10 ?k) = Inr (canon (units_value (units m) * 10 ^ ?k))"
      using mul_units_eq [OF can pow10_canonical(1)] small by simp
    with no show ?thesis by (simp add: quantize_def max_def)
  qed
  with assms(2) False show ?thesis by (simp add: from_text_def parse Let_def not_less)
qed

lemma split_two:
  assumes "a \<noteq> []" "b \<noteq> []" "\<forall>c \<in> set a. \<not> is_space c" "\<forall>c \<in> set b. \<not> is_space c"
  shows "split_spaces (trim (a @ '' '' @ b)) = [a, b]"
proof -
  have keep: "dropWhile is_space (a @ '' '' @ b) = a @ '' '' @ b" using assms(1,3) by (cases a) auto
  have "dropWhile is_space (rev b @ t) = rev b @ t" for t
    using assms(2,4) by (cases b rule: rev_cases) auto
  then have trim: "trim (a @ '' '' @ b) = a @ '' '' @ b" unfolding trim_def keep by simp
  have sp: "is_space (CHR '' '')" by (simp add: is_space_def)
  have a: "takeWhile (\<lambda>c. \<not> is_space c) (a @ '' '' @ b) = a" "dropWhile (\<lambda>c. \<not> is_space c) (a @ '' '' @ b) = '' '' @ b"
    using takeWhile_all [of "\<lambda>c. \<not> is_space c" a "'' '' @ b"] assms(3) sp by (auto simp: list_all_iff)
  have b: "takeWhile (\<lambda>c. \<not> is_space c) b = b" "dropWhile (\<lambda>c. \<not> is_space c) b = []"
    using assms(4) by (auto simp: takeWhile_eq_all_conv dropWhile_eq_Nil_conv)
  have tail: "dropWhile is_space ('' '' @ b) = b" using assms(2,4) sp by (cases b) auto
  have "split_spaces b = [b]" by (subst split_spaces.simps) (simp add: b Let_def del: dropWhile_eq_Nil_conv takeWhile_eq_all_conv)
  then show ?thesis unfolding trim by (subst split_spaces.simps) (simp only: a tail Let_def, simp)
qed

lemma to_decimal_string_text:
  "to_decimal_string m \<noteq> [] \<and> (\<forall>c \<in> set (to_decimal_string m). \<not> is_space c) \<and> amount_first (to_decimal_string m)"
proof -
  obtain w f where wf: "w \<noteq> []" "list_all is_dec w" "list_all is_dec f"
    "to_decimal_string m = (if units_value (units m) < 0 then ''-'' else []) @ w @ (if f = [] then [] else ''.'' @ f)"
    unfolding to_decimal_string_def by (rule decimal_string_parts)
  have "\<not> is_space c" if "is_dec c" for c using that by (auto simp: is_space_def is_dec_def Let_def)
  moreover have "\<not> is_space (CHR ''-'')" "\<not> is_space (CHR ''.'')" by (simp_all add: is_space_def)
  ultimately have "\<forall>c \<in> set (to_decimal_string m). \<not> is_space c"
    using wf(2,3) unfolding wf(4) by (auto simp: list_all_iff)
  moreover have "amount_first (to_decimal_string m)"
    using wf(1,2) unfolding wf(4) amount_first_def by (cases w) (auto simp: is_dec_def)
  ultimately show ?thesis using wf(1) by (simp add: wf(4))
qed

lemma custom_code_text: "custom_code c \<Longrightarrow> c \<noteq> [] \<and> (\<forall>x \<in> set c. \<not> is_space x)"
proof -
  assume c: "custom_code c"
  then obtain h t where ht: "c = h # t" by (cases c) (auto simp: custom_code_def)
  have "\<not> is_space x" if "is_letter x \<or> is_ascii_digit x \<or> x \<in> set ''_.:-''" for x
    using that by (auto simp: is_space_def is_letter_def is_ascii_digit_def Let_def)
  with c show ?thesis by (auto simp: custom_code_def list_all_iff ht)
qed

text \<open>A currency the code can make: the entry of the ISO table, or a custom one.\<close>

definition made_currency :: "currency \<Rightarrow> bool" where
  "made_currency c \<longleftrightarrow> currency_of (code c) = Inr c \<or> custom_currency (code c) (int (cur_scale c)) (cur_numeric c) = Inr c"

lemma made_currency_cases:
  assumes "made_currency c"
  obtains (in_table) "currency_of (code c) = Inr c" "iso c" "custom_code (code c)"
  | (custom) "currency_of (code c) = Inl UnknownCurrency" "\<not> iso c" "custom_code (code c)"
proof (cases "currency_of (code c) = Inr c")
  case True
  then have "c \<in> set (iso_entries ISO_4217)"
    using table_lookup [of "code c" c] by (simp add: currency_of_known split: option.splits)
  then have "entry_ok c" using iso_entries_ok by (simp add: list_all_iff)
  then have "iso c" "length (code c) = 3" "list_all is_letter (code c)" by (simp_all add: entry_ok_def)
  moreover then have "custom_code (code c)" by (cases "code c") (auto simp: custom_code_def list_all_iff)
  ultimately show thesis using in_table True by blast
next
  case False
  then have c: "custom_currency (code c) (int (cur_scale c)) (cur_numeric c) = Inr c" using assms by (simp add: made_currency_def)
  then have eq: "\<lparr>code = code c, cur_numeric = cur_numeric c, cur_scale = cur_scale c, iso = False\<rparr> = c"
    and "custom_code (code c)" "\<not> is_known (code c)"
    unfolding custom_currency_def by (simp_all split: if_splits)
  moreover have "\<not> iso c" using arg_cong [OF eq, of iso] by simp
  ultimately show thesis using custom currency_of_unknown by simp
qed

text \<open>What both readers answer to the text and the value of \<open>m\<close>: \<open>n\<close>, within their limit on length.\<close>

definition reads_back :: "currency list option \<Rightarrow> money \<Rightarrow> money \<Rightarrow> bool" where
  "reads_back currencies m n \<longleftrightarrow>
     parse_money (to_string m) currencies = (if length (to_string m) > MAX_INPUT_LENGTH then Inl InputTooLarge else Inr n) \<and>
     from_json (to_json m) currencies = (if length (to_decimal_string m) > MAX_INPUT_LENGTH then Inl InputTooLarge else Inr n)"

lemma split_to_string:
  assumes "custom_code (code (currency m))"
  shows "split_spaces (trim (to_string m)) = [to_decimal_string m, code (currency m)]"
  unfolding to_string_def
  using to_decimal_string_text [of m] custom_code_text [OF assms] by (intro split_two) auto

lemma reads_back_found:
  assumes "well_formed m" "max (scale m) (cur_scale (currency m)) \<le> MAX_SCALE" "custom_code (code (currency m))"
    and "parse_currency (code (currency m)) currencies = Inr (currency m)"
  shows "reads_back currencies m \<lparr>units = canon (units_value (units m) * 10 ^ (max (scale m) (cur_scale (currency m)) - scale m)),
      scale = max (scale m) (cur_scale (currency m)), currency = currency m\<rparr>"
proof -
  note written = from_text_written [OF assms(1,2)]
  have "parse_money (to_string m) currencies = (if length (to_string m) > MAX_INPUT_LENGTH then Inl InputTooLarge
      else from_text (to_decimal_string m) (currency m))"
    using to_decimal_string_text [of m] by (simp add: parse_money_def split_to_string [OF assms(3)] assms(4))
  moreover have "length (to_decimal_string m) > MAX_INPUT_LENGTH \<Longrightarrow> length (to_string m) > MAX_INPUT_LENGTH"
    by (simp add: to_string_def)
  ultimately show ?thesis by (auto simp: reads_back_def written from_json_def to_json_def assms(4))
qed

text \<open>
  C22: What \<open>toString\<close> and \<open>toJSON\<close> write of an amount in any currency the code can make is read back
  by \<open>Money.parse\<close> and \<open>Money.fromJSON\<close> to the same currency and exactly the same value, at the
  larger of its own and the currency's number of decimals: with the default readers when the
  currency is in the ISO table, and with a list of currencies that finds it when it is listed. The
  exceptions: a text longer than the readers' limit of 1000 characters is \<open>InputTooLarge\<close>, and a
  custom currency is \<open>UnknownCurrency\<close> to the default readers.
\<close>

theorem money_text_roundtrip:
  assumes "well_formed m" "max (scale m) (cur_scale (currency m)) \<le> MAX_SCALE" "made_currency (currency m)"
    and "find (\<lambda>x. code x = code (currency m)) currencies = Some (currency m)"
  defines "n \<equiv> \<lparr>units = canon (units_value (units m) * 10 ^ (max (scale m) (cur_scale (currency m)) - scale m)),
      scale = max (scale m) (cur_scale (currency m)), currency = currency m\<rparr>"
  shows "reads_back (Some currencies) m n \<and>
    (if iso (currency m) then reads_back None m n
     else parse_money (to_string m) None =
         Inl (if length (to_string m) > MAX_INPUT_LENGTH then InputTooLarge else UnknownCurrency) \<and>
       from_json (to_json m) None = Inl UnknownCurrency) \<and>
    well_formed n \<and> money_value n = money_value m \<and> (cur_scale (currency m) \<le> scale m \<longrightarrow> n = m)"
proof (intro conjI impI)
  have c: "custom_code (code (currency m))" using assms(3) by (cases rule: made_currency_cases) simp_all
  have "parse_currency (code (currency m)) (Some currencies) = Inr (currency m)"
    using assms(4) by (simp add: parse_currency_def)
  then show "reads_back (Some currencies) m n" unfolding n_def by (rule reads_back_found [OF assms(1,2) c])
  show "if iso (currency m) then reads_back None m n
     else parse_money (to_string m) None =
         Inl (if length (to_string m) > MAX_INPUT_LENGTH then InputTooLarge else UnknownCurrency) \<and>
       from_json (to_json m) None = Inl UnknownCurrency"
    using assms(3)
  proof (cases rule: made_currency_cases)
    case in_table
    then show ?thesis unfolding n_def using reads_back_found [OF assms(1,2) c] by (simp add: currency_of_def)
  next
    case custom
    then have "parse_currency (code (currency m)) None = Inl UnknownCurrency" by (simp add: currency_of_def)
    then show ?thesis using custom(2) to_decimal_string_text [of m]
      by (simp add: parse_money_def split_to_string [OF c] from_json_def to_json_def)
  qed
  show "well_formed n" by (simp add: n_def well_formed_def)
  show "money_value n = money_value m"
    by (simp add: n_def money_value_def max_def flip: power_add) (simp add: field_simps flip: power_add)
  show "n = m" if "cur_scale (currency m) \<le> scale m"
    using that assms(1) by (cases m) (simp add: n_def max_def well_formed_def canonical_iff)
qed

lemma sample_made: "made_currency (currency (sample_eur n s))"
proof -
  have "currency (sample_eur n s) \<in> set (iso_entries ISO_4217)"
    unfolding ISO_4217_def by (simp add: iso_entries_step iso_entries_Nil sample_eur_def)
  then have "map_of table (code (currency (sample_eur n s))) = Some (currency (sample_eur n s))"
    by (simp add: table_lookup)
  then show ?thesis by (simp add: made_currency_def currency_of_known)
qed

theorem money_text_roundtrip_witness:
  "to_string (sample_eur (- 5) 3) = ''-0.005 EUR'' \<and>
   parse_money ''-0.005 EUR'' None = Inr (sample_eur (- 5) 3)"
proof -
  have w: "to_string (sample_eur (- 5) 3) = ''-0.005 EUR''" by code_simp
  have "max (scale (sample_eur (- 5) 3)) (cur_scale (currency (sample_eur (- 5) 3))) \<le> MAX_SCALE"
    "find (\<lambda>x. code x = code (currency (sample_eur (- 5) 3))) [currency (sample_eur (- 5) 3)] = Some (currency (sample_eur (- 5) 3))"
    "cur_scale (currency (sample_eur (- 5) 3)) \<le> scale (sample_eur (- 5) 3)" "iso (currency (sample_eur (- 5) 3))"
    by (simp_all add: sample_eur_def MAX_SCALE_def)
  from money_text_roundtrip [OF sample_well_formed this(1) sample_made this(2)] this(3,4) w show ?thesis
    by (simp add: MAX_INPUT_LENGTH_def reads_back_def)
qed

end
