(* ===== verification/MoneyParse.thy ===== *)
theory MoneyParse
  imports MoneyText LockKey
begin

text \<open>
  Strict parsing of typed amounts: \<open>packages/money/src/parse.ts\<close>. Texts are UTF-16 code
  units. The separators that \<open>Intl\<close> reports for a locale are a record \<open>grammar\<close>, an argument of
  the definitions; \<open>grammar_from_symbols\<close> builds it for runtimes without \<open>Intl\<close>. The lemmas show
  that whatever is accepted is plain decimal text, and two inputs that are accepted with
  another value than they show.
\<close>

record parse_symbols =
  sym_decimal :: js_string
  sym_group :: "js_string option"
  group_sizes :: "(nat \<times> nat option) option"
  sym_currency :: "js_string list"

record grammar =
  decimal :: js_string
  group :: "js_string option"
  primary :: nat
  secondary :: nat
  digits :: "js_string option"
  minus_signs :: "js_string list"
  marks :: "js_string list"

section \<open>Text helpers\<close>

text \<open>The white space of \<open>\\s\<close> and \<open>trim\<close>.\<close>

definition is_white :: "code_unit \<Rightarrow> bool" where
  "is_white u \<longleftrightarrow>
     (let n = unat u in 9 \<le> n \<and> n \<le> 13 \<or> n = 32 \<or> n = 160 \<or> n = 5760 \<or> 8192 \<le> n \<and> n \<le> 8202 \<or>
        n = 8232 \<or> n = 8233 \<or> n = 8239 \<or> n = 8287 \<or> n = 12288 \<or> n = 65279)"

definition is_bidi :: "code_unit \<Rightarrow> bool" where
  "is_bidi u \<longleftrightarrow> u = 0x061C \<or> u = 0x200E \<or> u = 0x200F"

definition normalize_spaces :: "js_string \<Rightarrow> js_string" where
  "normalize_spaces t = map (\<lambda>u. if is_white u then 32 else u) t"

definition js_trim :: "js_string \<Rightarrow> js_string" where
  "js_trim t = rev (dropWhile is_white (rev (dropWhile is_white t)))"

definition starts_with :: "js_string \<Rightarrow> js_string \<Rightarrow> bool" where
  "starts_with t p \<longleftrightarrow> take (length p) t = p"

definition ends_with :: "js_string \<Rightarrow> js_string \<Rightarrow> bool" where
  "ends_with t p \<longleftrightarrow> length p \<le> length t \<and> drop (length t - length p) t = p"

fun index_of :: "js_string \<Rightarrow> js_string \<Rightarrow> nat option" where
  "index_of p [] = (if p = [] then Some 0 else None)"
| "index_of p (u # t) = (if starts_with (u # t) p then Some 0 else map_option Suc (index_of p t))"

lemma index_of_bound: "index_of p t = Some i \<Longrightarrow> i + length p \<le> length t"
  by (induction p t arbitrary: i rule: index_of.induct)
    (auto simp: starts_with_def split: if_splits dest: arg_cong [of _ _ length])

text \<open>\<open>text.split(separator)\<close>\<close>

function split_on :: "js_string \<Rightarrow> js_string \<Rightarrow> js_string list" where
  "split_on p t =
     (if p = [] then map (\<lambda>u. [u]) t
      else case index_of p t of
             None \<Rightarrow> [t]
           | Some i \<Rightarrow> take i t # split_on p (drop (i + length p) t))"
  by pat_completeness auto
termination
proof (relation "measure (\<lambda>(p, t). length t)")
  fix p t i
  assume "p \<noteq> []" "index_of p t = Some i"
  then have "0 < length p" "i + length p \<le> length t" using index_of_bound by auto
  then have "length t - (i + length p) < length t" by linarith
  then show "((p, drop (i + length p) t), (p, t)) \<in> measure (\<lambda>(p, t). length t)" by simp
qed simp

declare split_on.simps [simp del]

text \<open>\<open>for (const char of text)\<close>: a surrogate pair is one character of two units.\<close>

fun chars_of :: "js_string \<Rightarrow> js_string list" where
  "chars_of [] = []"
| "chars_of [u] = [[u]]"
| "chars_of (u # v # t) =
     (if is_lead u \<and> is_trail v then [u, v] # chars_of t else [u] # chars_of (v # t))"

definition ascii_digits :: "js_string \<Rightarrow> bool" where
  "ascii_digits t \<longleftrightarrow> t \<noteq> [] \<and> list_all is_digit t"

section \<open>The grammar\<close>

definition sort_marks :: "js_string list \<Rightarrow> js_string list" where
  "sort_marks ms =
     sort_key (\<lambda>m. - int (length m)) (filter (\<lambda>m. m \<noteq> []) (rev (remdups (rev (map (\<lambda>m. js_trim (normalize_spaces m)) ms)))))"

definition grammar_from_symbols :: "currency \<Rightarrow> parse_symbols \<Rightarrow> grammar" where
  "grammar_from_symbols cur s =
     (let (pri, sec) = (case group_sizes s of None \<Rightarrow> (3, None) | Some p \<Rightarrow> p)
      in \<lparr>decimal = normalize_spaces (sym_decimal s), group = map_option normalize_spaces (sym_group s),
          primary = pri, secondary = (case sec of None \<Rightarrow> pri | Some n \<Rightarrow> n), digits = None,
          minus_signs = [js ''-'', [0x2212]], marks = sort_marks (js (code cur) # sym_currency s)\<rparr>)"

section \<open>Locale text to plain decimal text\<close>

text \<open>One round of the loop that reads a leading sign and a leading currency mark.\<close>

definition leading_round :: "grammar \<Rightarrow> js_string \<times> bool \<times> bool \<times> bool \<Rightarrow> js_string \<times> bool \<times> bool \<times> bool" where
  "leading_round g st =
     (case st of (t, negative, saw_sign, saw_mark) \<Rightarrow>
        (let (t, negative, saw_sign) =
               (case find (starts_with t) (minus_signs g @ [js ''+'']) of
                  Some sign \<Rightarrow>
                    if \<not> saw_sign
                    then (js_trim (drop (length sign) t), if sign \<noteq> js ''+'' then \<not> negative else negative, True)
                    else (t, negative, saw_sign)
                | None \<Rightarrow> (t, negative, saw_sign))
         in case find (starts_with t) (marks g) of
              Some mark \<Rightarrow>
                if \<not> saw_mark then (js_trim (drop (length mark) t), negative, saw_sign, True)
                else (t, negative, saw_sign, saw_mark)
            | None \<Rightarrow> (t, negative, saw_sign, saw_mark)))"

text \<open>Local digits to ASCII: the text, and whether a local and an ASCII digit were seen.\<close>

fun convert_digits :: "js_string \<Rightarrow> js_string list \<Rightarrow> js_string \<times> bool \<times> bool" where
  "convert_digits ds [] = ([], False, False)"
| "convert_digits ds (c # cs) =
     (case convert_digits ds cs of (converted, local, ascii) \<Rightarrow>
        (case index_of c ds of
           None \<Rightarrow> (c @ converted, local, ascii \<or> (length c = 1 \<and> is_digit (hd c)))
         | Some i \<Rightarrow> (number_text i @ converted, True, ascii)))"

definition local_digits :: "grammar \<Rightarrow> js_string \<Rightarrow> money_error + js_string" where
  "local_digits g t =
     (case digits g of
        None \<Rightarrow> Inr t
      | Some ds \<Rightarrow>
          (case convert_digits ds (chars_of t) of
             (converted, local, ascii) \<Rightarrow> if local \<and> ascii then Inl InvalidMoneyText else Inr converted))"

text \<open>\<open>groups.every(...)\<close>: the first group may be shorter, the last one is of the primary size.\<close>

definition valid_groups :: "grammar \<Rightarrow> js_string list \<Rightarrow> bool" where
  "valid_groups g groups =
     (let final = length groups - 1
      in \<forall>i < length groups. ascii_digits (groups ! i) \<and>
           (if i = final then length (groups ! i) = primary g
            else if i = 0 then length (groups ! i) \<le> (if final = 1 then primary g else secondary g)
            else length (groups ! i) = secondary g))"

definition ungrouped :: "grammar \<Rightarrow> js_string \<Rightarrow> money_error + js_string" where
  "ungrouped g whole =
     (case group g of
        None \<Rightarrow> if ascii_digits whole then Inr whole else Inl InvalidMoneyText
      | Some sep \<Rightarrow>
          if \<not> ascii_digits (if sep = [] then whole else concat (split_on sep whole)) then Inl InvalidMoneyText
          else if index_of sep whole \<noteq> None then
            (let groups = split_on sep whole
             in if valid_groups g groups then
                  (if ascii_digits (concat groups) then Inr (concat groups) else Inl InvalidMoneyText)
                else Inl InvalidMoneyText)
          else if ascii_digits whole then Inr whole else Inl InvalidMoneyText)"

definition read_pieces :: "grammar \<Rightarrow> bool \<Rightarrow> js_string \<Rightarrow> money_error + js_string" where
  "read_pieces g negative t =
     (let sign = (if negative then js ''-'' else [])
      in case split_on (decimal g) t of
           [] \<Rightarrow> rbind (ungrouped g []) (\<lambda>ds. Inr (sign @ ds))
         | [whole] \<Rightarrow> rbind (ungrouped g whole) (\<lambda>ds. Inr (sign @ ds))
         | [whole, fraction] \<Rightarrow>
             if \<not> ascii_digits fraction then Inl InvalidMoneyText
             else rbind (ungrouped g whole) (\<lambda>ds. Inr (sign @ ds @ js ''.'' @ fraction))
         | _ \<Rightarrow> Inl InvalidMoneyText)"

text \<open>Without marks of direction, with plain spaces, trimmed; accounting parentheses taken off.\<close>

definition unwrapped :: "js_string \<Rightarrow> js_string \<times> bool" where
  "unwrapped input =
     (let t = js_trim (normalize_spaces (filter (\<lambda>u. \<not> is_bidi u) input))
      in if starts_with t (js ''('') \<and> ends_with t (js '')'') then (js_trim (butlast (tl t)), True) else (t, False))"

definition to_plain_decimal :: "js_string \<Rightarrow> grammar \<Rightarrow> money_error + js_string" where
  "to_plain_decimal input g =
     (if length input > MAX_INPUT_LENGTH then Inl InputTooLarge
      else case unwrapped input of (t, parens) \<Rightarrow>
        (case leading_round g (leading_round g (t, parens, False, False)) of (t, negative, saw_sign, saw_mark) \<Rightarrow>
           (let trailing = find (ends_with t) (marks g)
            in if trailing \<noteq> None \<and> saw_mark then Inl InvalidMoneyText
               else if saw_sign \<and> negative \<and> starts_with (js_trim input) (js ''('') then Inl InvalidMoneyText
               else rbind (local_digits g
                      (case trailing of None \<Rightarrow> t | Some mark \<Rightarrow> js_trim (take (length t - length mark) t)))
                    (read_pieces g negative))))"

text \<open>Plain decimal text is ASCII, so it is passed on as characters.\<close>

definition ascii_text :: "js_string \<Rightarrow> string" where
  "ascii_text t = map (\<lambda>u. char_of (unat u)) t"

definition parse_with :: "js_string \<Rightarrow> grammar \<Rightarrow> currency \<Rightarrow> nat \<Rightarrow> rounding_mode option \<Rightarrow> money_error + money" where
  "parse_with t g cur sc rounding =
     rbind (to_plain_decimal t g) (\<lambda>plain. from_decimal_text (ascii_text plain) cur sc rounding)"

section \<open>Accepted text is plain decimal text\<close>

lemma ungrouped_digits: "ungrouped g w = Inr ds \<Longrightarrow> ascii_digits ds"
  by (auto simp: ungrouped_def Let_def split: option.splits if_splits)

lemma read_pieces_shape:
  assumes "read_pieces g neg t' = Inr t"
  shows "\<exists>ds f. ascii_digits ds \<and> (f = [] \<or> ascii_digits f) \<and>
    t = (if neg then js ''-'' else []) @ ds @ (if f = [] then [] else js ''.'' @ f)"
proof -
  consider (whole) w w' where "ungrouped g w = Inr w'" "t = (if neg then js ''-'' else []) @ w'"
    | (both) w f w' where "ascii_digits f" "ungrouped g w = Inr w'" "t = (if neg then js ''-'' else []) @ w' @ js ''.'' @ f"
    using assms by (auto simp: read_pieces_def Let_def result_simps simp del: append_assoc split: list.splits if_split_asm)
  then show ?thesis
  proof cases
    case (whole w w')
    with ungrouped_digits [OF whole(1)] show ?thesis by (intro exI [of _ w'] exI [of _ "[]"]) simp
  next
    case (both w f w')
    then have "f \<noteq> []" by (simp add: ascii_digits_def)
    with both ungrouped_digits [OF both(2)] show ?thesis by (intro exI [of _ w'] exI [of _ f]) simp
  qed
qed

lemma to_plain_shape:
  assumes "to_plain_decimal input g = Inr t"
  obtains neg w f where "w \<noteq> []" "list_all is_digit w" "list_all is_digit f"
    "t = (if neg then js ''-'' else []) @ w @ (if f = [] then [] else js ''.'' @ f)"
proof -
  obtain t1 parens where u: "unwrapped input = (t1, parens)" by fastforce
  obtain t2 neg sign mark where r: "leading_round g (leading_round g (t1, parens, False, False)) = (t2, neg, sign, mark)"
    by (metis prod_cases4)
  from assms obtain t' where "read_pieces g neg t' = Inr t"
    unfolding to_plain_decimal_def u prod.case r Let_def rbind_Inr_iff by (auto simp: rbind_Inr_iff split: if_split_asm)
  from read_pieces_shape [OF this] obtain ds f where df: "ascii_digits ds" "f = [] \<or> ascii_digits f"
    "t = (if neg then js ''-'' else []) @ ds @ (if f = [] then [] else js ''.'' @ f)" by blast
  have d: "ds \<noteq> []" "list_all is_digit ds" "list_all is_digit f"
    using df(1,2) unfolding ascii_digits_def by auto
  show thesis by (rule that [OF d df(3)])
qed

section \<open>Without a rounding mode the value is exact\<close>

lemma quantize_exact:
  assumes "canonical c" "quantize c f sc None None = Inr u"
  shows "canonical u \<and> (of_int (units_value u) :: rat) / 10 ^ sc = of_int (units_value c) / 10 ^ f"
proof (cases "f \<le> sc")
  case True
  then have up: "(10 :: rat) ^ sc = 10 ^ f * 10 ^ (sc - f)" by (simp flip: power_add)
  from True assms have "canonical u \<and> units_value u = units_value c * 10 ^ (sc - f)"
    by (auto simp: quantize_def mul_units_eq split: if_splits)
  with up show ?thesis by (simp add: field_simps)
next
  case False
  then have down: "(10 :: rat) ^ f = 10 ^ sc * 10 ^ (f - sc)" by (simp flip: power_add)
  let ?p = "10 ^ (f - sc) :: int"
  have one: "canonical (Num 1)" by (simp add: MAX_SAFE_def)
  from False assms mul_div_eq [OF assms(1) one pow10_canonical(1,3)]
  have "canonical u \<and> units_value c mod ?p = 0 \<and> units_value u = units_value c div ?p"
    by (auto simp: quantize_def round_div_def Let_def split: if_splits)
  moreover from this have "units_value c = units_value u * ?p" by (metis add.right_neutral div_mult_mod_eq)
  then have "(of_int (units_value c) :: rat) = of_int (units_value u) * 10 ^ (f - sc)" by simp
  ultimately show ?thesis using down by (simp add: field_simps)
qed

lemma ascii_chars: "char_of (45 :: nat) = CHR ''-''" "char_of (46 :: nat) = CHR ''.''"
  by code_simp+

lemma ascii_text_append: "ascii_text (s @ t) = ascii_text s @ ascii_text t"
  by (simp add: ascii_text_def)

lemma ascii_text_digits:
  assumes "list_all is_digit t"
  shows "list_all is_dec (ascii_text t)" "digits_value (ascii_text t) = number_of_digits t"
proof -
  from assms have d: "48 \<le> unat u \<and> unat u \<le> 57" if "u \<in> set t" for u
    using that by (auto simp: list_all_iff is_digit_def)
  have m: "unat u mod 256 = unat u" if "u \<in> set t" for u
    using d [OF that] by (intro mod_less) linarith
  from d m show "list_all is_dec (ascii_text t)" by (auto simp: ascii_text_def list_all_iff is_dec_def)
  from d m have "map (digit_of \<circ> (\<lambda>u. char_of (unat u))) t = map (\<lambda>u. unat u - 48) t"
    by (intro map_cong) (auto simp: digit_of_def)
  then show "digits_value (ascii_text t) = number_of_digits t"
    by (simp only: digits_value_def number_of_digits_def ascii_text_def map_map)
qed

text \<open>
  An amount that the localized parser accepts without a rounding mode is exactly the plain
  decimal its text was reduced to: an optional minus, digits, and an optional fraction; at the
  scale that was asked for, in canonical form.
\<close>

theorem parsed_exactly:
  assumes "parse_with input g cur sc None = Inr m"
  shows "\<exists>neg w f. list_all is_digit w \<and> list_all is_digit f \<and> w \<noteq> [] \<and>
    to_plain_decimal input g = Inr ((if neg then js ''-'' else []) @ w @ (if f = [] then [] else js ''.'' @ f)) \<and>
    well_formed m \<and> scale m = sc \<and> currency m = cur \<and>
    money_value m = (if neg then - 1 else 1) * of_nat (number_of_digits (w @ f)) / 10 ^ length f"
proof -
  from assms obtain t where t: "to_plain_decimal input g = Inr t" "from_decimal_text (ascii_text t) cur sc None = Inr m"
    by (auto simp: parse_with_def result_simps)
  from t(1) obtain neg w f where wf: "w \<noteq> []" "list_all is_digit w" "list_all is_digit f"
    "t = (if neg then js ''-'' else []) @ w @ (if f = [] then [] else js ''.'' @ f)" by (rule to_plain_shape)
  have a: "ascii_text t = (if neg then ''-'' else []) @ ascii_text w @
      (if ascii_text f = [] then [] else ''.'' @ ascii_text f)"
    by (simp add: wf(4) ascii_text_def js_def ascii_chars)
  note d = ascii_text_digits [OF wf(2)] ascii_text_digits [OF wf(3)]
  have v: "digits_value (ascii_text w @ ascii_text f) = number_of_digits (w @ f)"
    using ascii_text_digits(2) [of "w @ f"] wf(2,3) by (simp add: ascii_text_append)
  have n: "ascii_text w \<noteq> []" using wf(1) by (simp add: ascii_text_def)
  define c where "c = canon (if neg then - int (number_of_digits (w @ f)) else int (number_of_digits (w @ f)))"
  from t(2) parse_plain [OF n d(1,3) a] obtain u where
    u: "quantize c (length f) sc None None = Inr u" "m = \<lparr>units = u, scale = sc, currency = cur\<rparr>"
    unfolding v by (auto simp: from_decimal_text_def result_simps c_def ascii_text_def split: if_splits)
  have "canonical c" "units_value c = (if neg then - int (number_of_digits (w @ f)) else int (number_of_digits (w @ f)))"
    by (simp_all add: c_def)
  with quantize_exact [OF this(1) u(1)] t(1) wf show ?thesis
    by (intro exI [of _ neg] exI [of _ w] exI [of _ f]) (simp add: u(2) well_formed_def money_value_def)
qed

lemma split_on_step:
  "p \<noteq> [] \<Longrightarrow> index_of p t = None \<Longrightarrow> split_on p t = [t]"
  "p \<noteq> [] \<Longrightarrow> index_of p t = Some i \<Longrightarrow> split_on p t = take i t # split_on p (drop (i + length p) t)"
  by (subst split_on.simps; simp)+

definition us_grammar :: grammar where
  "us_grammar = \<lparr>decimal = js ''.'', group = Some (js '',''), primary = 3, secondary = 3, digits = None,
     minus_signs = [js ''-'', [0x2212]], marks = [js ''USD'', js ''$'']\<rparr>"

lemmas parse_simps = js_trim_def normalize_spaces_def starts_with_def ends_with_def js_def is_white_def is_bidi_def Let_def

text \<open>
  C36: Parentheses and a minus sign are meant to be refused together, but the check compares the
  sign after the minus has flipped it: \<open>(-5)\<close> is read as plus five, and \<open>(+5)\<close>, which has no
  minus sign, is refused.
\<close>

theorem parenthesised_minus_is_positive:
  "to_plain_decimal (js ''(-5)'') us_grammar = Inr (js ''5'') \<and>
   to_plain_decimal (js ''(5)'') us_grammar = Inr (js ''-5'') \<and>
   to_plain_decimal (js ''(+5)'') us_grammar = Inl InvalidMoneyText"
proof -
  have u: "unwrapped (js ''(-5)'') = (js ''-5'', True)" "unwrapped (js ''(5)'') = (js ''5'', True)"
    "unwrapped (js ''(+5)'') = (js ''+5'', True)"
    by (simp_all add: unwrapped_def parse_simps)
  have r: "leading_round us_grammar (js ''-5'', True, False, False) = (js ''5'', False, True, False)"
    "leading_round us_grammar (js ''+5'', True, False, False) = (js ''5'', True, True, False)"
    "leading_round us_grammar (js ''5'', n, b, False) = (js ''5'', n, b, False)" for n b
    by (simp_all add: leading_round_def us_grammar_def parse_simps)
  have t: "find (ends_with (js ''5'')) (marks us_grammar) = None" "local_digits us_grammar (js ''5'') = Inr (js ''5'')"
    "starts_with (js_trim (js ''(-5)'')) (js ''('')" "starts_with (js_trim (js ''(+5)'')) (js ''('')"
    by (simp_all add: us_grammar_def parse_simps local_digits_def)
  have p: "read_pieces us_grammar n (js ''5'') = Inr ((if n then js ''-'' else []) @ js ''5'')" for n
    by (simp add: read_pieces_def us_grammar_def starts_with_def js_def split_on_step ungrouped_def ascii_digits_def is_digit_def)
  have len: "\<not> length (js ''(-5)'') > MAX_INPUT_LENGTH" "\<not> length (js ''(5)'') > MAX_INPUT_LENGTH"
    "\<not> length (js ''(+5)'') > MAX_INPUT_LENGTH"
    by (simp_all add: js_def MAX_INPUT_LENGTH_def)
  show ?thesis
    by (simp add: to_plain_decimal_def u r t p len) (simp add: js_def)
qed

text \<open>The ten digits of Adlam, U+1E950 to U+1E959: two code units each.\<close>

definition adlam_digits :: js_string where
  "adlam_digits = concat (map (\<lambda>i. [0xD83A, of_nat (0xDD50 + i)]) [0 ..< 10])"

text \<open>
  A local digit becomes the position of its text in the ten digits, counted in code units, so
  for a locale whose digits lie outside the basic plane every digit is doubled: Adlam 1 is
  read as 2, Adlam 7 as 14.
\<close>

theorem astral_digits_doubled:
  "fst (convert_digits adlam_digits (chars_of [0xD83A, 0xDD51])) = js ''2'' \<and>
   fst (convert_digits adlam_digits (chars_of [0xD83A, 0xDD57])) = js ''14''"
  by (simp add: adlam_digits_def upt_rec is_lead_def is_trail_def starts_with_def number_text_def
      dec_digits.simps js_def)

lemma sample_plain: "to_plain_decimal (js ''$1.50'') us_grammar = Inr (js ''1.50'')"
proof -
  have u: "unwrapped (js ''$1.50'') = (js ''$1.50'', False)" by (simp add: unwrapped_def parse_simps)
  have r: "leading_round us_grammar (js ''$1.50'', False, False, False) = (js ''1.50'', False, False, True)"
    "leading_round us_grammar (js ''1.50'', False, False, True) = (js ''1.50'', False, False, True)"
    by (simp_all add: leading_round_def us_grammar_def parse_simps)
  have t: "find (ends_with (js ''1.50'')) (marks us_grammar) = None" "local_digits us_grammar (js ''1.50'') = Inr (js ''1.50'')"
    by (simp_all add: us_grammar_def parse_simps local_digits_def)
  have p: "read_pieces us_grammar False (js ''1.50'') = Inr (js ''1.50'')"
    by (simp add: read_pieces_def us_grammar_def starts_with_def js_def split_on_step ungrouped_def ascii_digits_def is_digit_def)
  have "\<not> length (js ''$1.50'') > MAX_INPUT_LENGTH" by (simp add: js_def MAX_INPUT_LENGTH_def)
  then show ?thesis by (simp add: to_plain_decimal_def u r t p)
qed

theorem parsed_exactly_witness:
  "parse_with (js ''$1.50'') us_grammar (currency (sample_eur 0 2)) 2 None = Inr (sample_eur 150 2) \<and>
   well_formed (sample_eur 150 2) \<and> scale (sample_eur 150 2) = 2"
proof -
  have "ascii_text (js ''1.50'') = ''1.50''" by code_simp
  moreover have "from_decimal_text ''1.50'' (currency (sample_eur 0 2)) 2 None = Inr (sample_eur 150 2)" by code_simp
  ultimately have "parse_with (js ''$1.50'') us_grammar (currency (sample_eur 0 2)) 2 None = Inr (sample_eur 150 2)"
    by (simp add: parse_with_def sample_plain)
  from this parsed_exactly [OF this] show ?thesis by blast
qed

end
