(* ===== verification/MoneyExchange.thy ===== *)
theory MoneyExchange
  imports MoneyText
begin

text \<open>
  Currency conversion with exact rates: \<open>packages/money/src/exchange.ts\<close>. A rate is a fraction
  in lowest terms; the converter looks rates up directly, inverted, or through a third
  currency, and remembers what it found. The lemmas show that rates keep their exact value,
  that a conversion is one rounding of the exact product, and when the memory of the
  converter can be seen from outside.
\<close>

section \<open>Rates\<close>

record rate =
  base :: currency
  quote :: currency
  numerator :: units
  denominator :: units

text \<open>The constructor reduces the fraction.\<close>

definition create_rate :: "currency \<Rightarrow> currency \<Rightarrow> units \<Rightarrow> units \<Rightarrow> rate" where
  "create_rate b q n d =
     (let divisor = gcd_units n d
      in \<lparr>base = b, quote = q, numerator = div_exact n divisor, denominator = div_exact d divisor\<rparr>)"

definition inverse_rate :: "rate \<Rightarrow> rate" where
  "inverse_rate r = create_rate (quote r) (base r) (denominator r) (numerator r)"

definition chain_rate :: "rate \<Rightarrow> rate \<Rightarrow> money_error + rate" where
  "chain_rate this next_rate =
     rbind (assert_same_currency (quote this) (base next_rate)) (\<lambda>_.
     rbind (mul_units (numerator this) (numerator next_rate)) (\<lambda>n.
     rbind (mul_units (denominator this) (denominator next_rate)) (\<lambda>d.
       Inr (create_rate (base this) (quote next_rate) n d))))"

definition rate_eq :: "rate \<Rightarrow> rate \<Rightarrow> bool" where
  "rate_eq a b \<longleftrightarrow> currency_eq (base a) (base b) \<and> currency_eq (quote a) (quote b) \<and>
     numerator a = numerator b \<and> denominator a = denominator b"

definition exchange_rate :: "currency \<Rightarrow> currency \<Rightarrow> factor_input \<Rightarrow> money_error + rate" where
  "exchange_rate from to v =
     rbind (read_factor v) (\<lambda>(n, d).
       if \<not> units_value n > 0 then Inl ExchangeRateFault
       else if currency_eq from to \<and> n \<noteq> d then Inl ExchangeRateFault
       else Inr (create_rate from to n d))"

section \<open>Rate tables\<close>

text \<open>\<open>parseRates\<close> returns the first failure of the table, in its order.\<close>

definition parse_rate_entry :: "currency \<Rightarrow> currency list option \<Rightarrow> string \<times> factor_input \<Rightarrow> money_error + rate" where
  "parse_rate_entry b currencies entry =
     (case entry of (c, v) \<Rightarrow>
        rbind (parse_currency c currencies) (\<lambda>q.
        rbind (read_factor v) (\<lambda>(n, d).
          if \<not> units_value n > 0 \<or> (currency_eq b q \<and> n \<noteq> d) then Inl InvalidExchangeRate
          else Inr (create_rate b q n d))))"

definition parse_rates :: "string + currency \<Rightarrow> (string \<times> factor_input) list \<Rightarrow> currency list option \<Rightarrow> money_error + rate list" where
  "parse_rates b entries currencies =
     rbind (case b of Inl c \<Rightarrow> parse_currency c currencies | Inr cur \<Rightarrow> Inr cur) (\<lambda>b.
       rmap_list (parse_rate_entry b currencies) entries)"

definition rates_from :: "currency \<Rightarrow> (string \<times> factor_input) list \<Rightarrow> currency list option \<Rightarrow> money_error + rate list" where
  "rates_from b entries currencies =
     rmap_list (\<lambda>(c, v).
       rbind (case find (\<lambda>x. code x = c) (case currencies of None \<Rightarrow> [] | Some xs \<Rightarrow> xs) of
                Some q \<Rightarrow> Inr q | None \<Rightarrow> currency_of c) (\<lambda>q. exchange_rate b q v)) entries"

section \<open>Conversion with one rate\<close>

definition convert_units :: "money \<Rightarrow> rate \<Rightarrow> nat \<Rightarrow> rounding_mode option \<Rightarrow> money_error + units" where
  "convert_units amount r sc rounding =
     rbind (mul_units (numerator r) (pow10 sc)) (\<lambda>n.
     rbind (mul_units (denominator r) (pow10 (scale amount))) (\<lambda>d.
       mul_div (units amount) n d rounding))"

definition minor_of :: "units \<Rightarrow> minor_input" where
  "minor_of u = (case u of Num n \<Rightarrow> MinorNumber n | Big n \<Rightarrow> MinorBigint n)"

definition convert :: "money \<Rightarrow> rate \<Rightarrow> int option \<Rightarrow> rounding_mode option \<Rightarrow> money_error + money" where
  "convert amount r scale_opt rounding =
     rbind (assert_same_currency (currency amount) (base r)) (\<lambda>_.
     rbind (case scale_opt of None \<Rightarrow> Inr (cur_scale (quote r)) | Some s \<Rightarrow> check_scale s) (\<lambda>sc.
     rbind (convert_units amount r sc rounding) (\<lambda>u.
       from_minor (minor_of u) (quote r) (Some (int sc)))))"

section \<open>The converter\<close>

definition pair_key :: "currency \<Rightarrow> currency \<Rightarrow> string" where
  "pair_key from to = code from @ ''>'' @ code to"

record converter =
  rates :: "(string \<times> rate) list"
  use_inverse :: bool
  via :: "currency option"

text \<open>What was looked up before, misses included: the private field \<open>resolved\<close>.\<close>

type_synonym memory = "string \<rightharpoonup> rate option"

fun rate_map :: "rate list \<Rightarrow> (string \<times> rate) list \<Rightarrow> money_error + (string \<times> rate) list" where
  "rate_map [] m = Inr m"
| "rate_map (r # rs) m =
     (case map_of m (pair_key (base r) (quote r)) of
        Some existing \<Rightarrow>
          if \<not> rate_eq existing r then Inl ExchangeRateFault
          else rate_map rs (AList.update (pair_key (base r) (quote r)) r m)
      | None \<Rightarrow> rate_map rs (AList.update (pair_key (base r) (quote r)) r m))"

definition create_converter :: "rate list \<Rightarrow> bool \<Rightarrow> currency option \<Rightarrow> money_error + converter" where
  "create_converter rs reversed v = rbind (rate_map rs []) (\<lambda>m. Inr \<lparr>rates = m, use_inverse = reversed, via = v\<rparr>)"

definition lookup :: "converter \<Rightarrow> currency \<Rightarrow> currency \<Rightarrow> rate option" where
  "lookup c from to =
     (if currency_eq from to then Some (create_rate from to (Num 1) (Num 1))
      else case map_of (rates c) (pair_key from to) of
             Some r \<Rightarrow> Some r
           | None \<Rightarrow> if use_inverse c then map_option inverse_rate (map_of (rates c) (pair_key to from)) else None)"

definition lookup_via :: "converter \<Rightarrow> currency \<Rightarrow> currency \<Rightarrow> money_error + rate option" where
  "lookup_via c from to =
     (case via c of
        None \<Rightarrow> Inr None
      | Some v \<Rightarrow>
          if currency_eq v from \<or> currency_eq v to then Inr None
          else (case (lookup c from v, lookup c v to) of
                  (Some a, Some b) \<Rightarrow> rbind (chain_rate a b) (\<lambda>r. Inr (Some r))
                | _ \<Rightarrow> Inr None))"

text \<open>What \<open>resolve\<close> finds when nothing is remembered.\<close>

definition find_rate :: "converter \<Rightarrow> currency \<Rightarrow> currency \<Rightarrow> money_error + rate option" where
  "find_rate c from to = (case lookup c from to of Some r \<Rightarrow> Inr (Some r) | None \<Rightarrow> lookup_via c from to)"

definition resolve_rate :: "converter \<Rightarrow> currency \<Rightarrow> currency \<Rightarrow> memory \<Rightarrow> (money_error + rate) \<times> memory" where
  "resolve_rate c from to mem =
     (case (case mem (pair_key from to) of
              Some found \<Rightarrow> Inr (found, mem)
            | None \<Rightarrow> rbind (find_rate c from to) (\<lambda>found. Inr (found, mem(pair_key from to \<mapsto> found)))) of
        Inl e \<Rightarrow> (Inl e, mem)
      | Inr (None, mem') \<Rightarrow> (Inl ExchangeRateFault, mem')
      | Inr (Some r, mem') \<Rightarrow> (Inr r, mem'))"

definition converter_rate :: "converter \<Rightarrow> currency \<Rightarrow> currency \<Rightarrow> memory \<Rightarrow> (money_error + rate) \<times> memory" where
  "converter_rate c from to mem =
     (case resolve_rate c from to mem of (found, mem') \<Rightarrow>
        (rbind found (\<lambda>r. Inr (create_rate from to (numerator r) (denominator r))), mem'))"

definition converter_has :: "converter \<Rightarrow> currency \<Rightarrow> currency \<Rightarrow> memory \<Rightarrow> (money_error + bool) \<times> memory" where
  "converter_has c from to mem =
     (case resolve_rate c from to mem of
        (Inr _, mem') \<Rightarrow> (Inr True, mem')
      | (Inl e, mem') \<Rightarrow> (if e = ExchangeRateFault then Inr False else Inl e, mem'))"

definition converter_convert :: "converter \<Rightarrow> money \<Rightarrow> currency \<Rightarrow> int option \<Rightarrow> rounding_mode option \<Rightarrow> memory \<Rightarrow> (money_error + money) \<times> memory" where
  "converter_convert c amount to scale_opt rounding mem =
     (case (case scale_opt of None \<Rightarrow> Inr (cur_scale to) | Some s \<Rightarrow> check_scale s) of
        Inl e \<Rightarrow> (Inl e, mem)
      | Inr sc \<Rightarrow>
          if currency_eq (currency amount) to
          then (rbind (quantize (units amount) (scale amount) sc rounding None) (\<lambda>u.
                  from_minor (minor_of u) to (Some (int sc))), mem)
          else (case resolve_rate c (currency amount) to mem of (found, mem') \<Rightarrow>
                  (rbind found (\<lambda>r. rbind (convert_units amount r sc rounding) (\<lambda>u.
                     from_minor (minor_of u) to (Some (int sc)))), mem')))"

section \<open>Rates keep their value\<close>

lemma gcd_loop_gcd: "0 \<le> x \<Longrightarrow> 0 \<le> y \<Longrightarrow> gcd_loop x y = gcd x y"
proof (induction x y rule: gcd_loop.induct)
  case (1 x y)
  show ?case
  proof (cases "y = 0")
    case True
    with 1 show ?thesis by (subst gcd_loop.simps) simp
  next
    case False
    with 1 have "x smod y = x mod y" by (simp add: sdiv_smod_pos)
    with 1 False show ?thesis by (simp add: gcd_loop.simps [of x y] gcd_red_int [symmetric])
  qed
qed

lemma gcd_units_exact:
  assumes "canonical a" "canonical b" "0 < units_value a" "0 < units_value b"
  shows "canonical (gcd_units a b)" "units_value (gcd_units a b) = gcd (units_value a) (units_value b)"
proof -
  show "canonical (gcd_units a b)"
    using assms by (cases a; cases b) (auto simp: gcd_units_def gcd_loop_gcd intro: order_trans [OF gcd_le1_int])
  show "units_value (gcd_units a b) = gcd (units_value a) (units_value b)"
    using assms by (cases a; cases b) (auto simp: gcd_units_def gcd_loop_gcd)
qed

lemma div_exact_exact:
  assumes "canonical a" "canonical b" "0 < units_value a" "0 < units_value b"
  shows "canonical (div_exact a b)" "units_value (div_exact a b) = units_value a div units_value b"
proof -
  have "x div y \<le> x" if "0 < x" "0 < y" for x y :: int
    using that zdiv_mono2 [of x 1 y] by simp
  then show "canonical (div_exact a b)"
    using assms by (cases a; cases b)
      (auto simp: div_exact_def sdiv_smod_pos pos_imp_zdiv_nonneg_iff intro: order_trans)
  show "units_value (div_exact a b) = units_value a div units_value b"
    using assms by (cases a; cases b) (auto simp: div_exact_def sdiv_smod_pos)
qed

definition rate_ok :: "rate \<Rightarrow> bool" where
  "rate_ok r \<longleftrightarrow> canonical (numerator r) \<and> canonical (denominator r) \<and> 0 < units_value (numerator r) \<and>
     0 < units_value (denominator r) \<and> coprime (units_value (numerator r)) (units_value (denominator r))"

definition rate_value :: "rate \<Rightarrow> rat" where
  "rate_value r = of_int (units_value (numerator r)) / of_int (units_value (denominator r))"

lemma create_rate_exact:
  assumes "canonical n" "canonical d" "0 < units_value n" "0 < units_value d"
  shows "rate_ok (create_rate b q n d)" "base (create_rate b q n d) = b" "quote (create_rate b q n d) = q"
    "rate_value (create_rate b q n d) = of_int (units_value n) / of_int (units_value d)"
proof -
  let ?g = "gcd (units_value n) (units_value d)"
  have g: "0 < ?g" using assms by simp
  note u = gcd_units_exact [OF assms]
  have gpos: "0 < units_value (gcd_units n d)" using g u(2) by simp
  note n = div_exact_exact [OF assms(1) u(1) assms(3) gpos, unfolded u(2)]
  note d = div_exact_exact [OF assms(2) u(1) assms(4) gpos, unfolded u(2)]
  have pos: "0 < units_value n div ?g" "0 < units_value d div ?g"
    using assms g by (simp_all add: pos_imp_zdiv_pos_iff zdvd_imp_le)
  have "coprime (units_value n div ?g) (units_value d div ?g)" using assms by (intro div_gcd_coprime) simp
  with n d pos show "rate_ok (create_rate b q n d)" by (simp add: rate_ok_def create_rate_def Let_def)
  show "base (create_rate b q n d) = b" "quote (create_rate b q n d) = q" by (simp_all add: create_rate_def Let_def)
  define N D where "N = units_value n div ?g" and "D = units_value d div ?g"
  have "units_value n = N * ?g" "units_value d = D * ?g" by (simp_all add: N_def D_def)
  then have "(of_int (units_value n) :: rat) = of_int N * of_int ?g" "(of_int (units_value d) :: rat) = of_int D * of_int ?g"
    by (metis of_int_mult)+
  then have "(of_int (units_value n) :: rat) / of_int (units_value d) = of_int N / of_int D" using g by simp
  then show "rate_value (create_rate b q n d) = of_int (units_value n) / of_int (units_value d)"
    using n d by (simp add: rate_value_def create_rate_def Let_def N_def D_def)
qed

text \<open>A rate is determined by its pair and its value.\<close>

lemma rate_unique:
  assumes "rate_ok a" "rate_ok b" "base a = base b" "quote a = quote b" "rate_value a = rate_value b"
  shows "a = b"
proof -
  let ?n = "units_value (numerator a)" and ?d = "units_value (denominator a)"
    and ?n' = "units_value (numerator b)" and ?d' = "units_value (denominator b)"
  have "(of_int ?n :: rat) * of_int ?d' = of_int ?n' * of_int ?d"
    using assms by (simp add: rate_value_def rate_ok_def field_simps)
  then have cross: "?n * ?d' = ?n' * ?d" by (metis of_int_eq_iff of_int_mult)
  have "?n dvd ?n'" "?n' dvd ?n"
    using cross assms(1,2) by (metis coprime_dvd_mult_left_iff dvd_triv_left rate_ok_def)+
  then have n: "?n = ?n'" using assms(1,2) by (simp add: rate_ok_def zdvd_antisym_nonneg)
  with cross assms(1,2) have "?d = ?d'" by (simp add: rate_ok_def)
  with n assms(1,2) have "numerator a = numerator b" "denominator a = denominator b"
    by (metis canonical_iff rate_ok_def)+
  with assms(3,4) show ?thesis by (cases a; cases b) simp
qed

text \<open>
  Rates stay exact. The inverse of a rate has the reciprocal value and inverting twice gives
  the rate back; a chain of two rates has the product of their values for the outer pair; both
  are positive fractions in lowest terms; and chaining fails only for a pair that does not
  meet or past the digit limit.
\<close>

theorem rates_exact:
  assumes "rate_ok a" "rate_ok b"
  shows "rate_ok (inverse_rate a) \<and> rate_value (inverse_rate a) = 1 / rate_value a \<and>
    inverse_rate (inverse_rate a) = a \<and>
    (case chain_rate a b of
       Inr c \<Rightarrow> currency_eq (quote a) (base b) \<and> rate_ok c \<and> base c = base a \<and> quote c = quote b \<and>
         rate_value c = rate_value a * rate_value b
     | Inl e \<Rightarrow> (\<not> currency_eq (quote a) (base b) \<and> e = CurrencyMismatch) \<or> e = ResourceLimit)"
proof -
  from assms(1) have a: "canonical (numerator a)" "canonical (denominator a)" "0 < units_value (numerator a)" "0 < units_value (denominator a)"
    by (simp_all add: rate_ok_def)
  from assms(2) have b: "canonical (numerator b)" "canonical (denominator b)" "0 < units_value (numerator b)" "0 < units_value (denominator b)"
    by (simp_all add: rate_ok_def)
  note i = create_rate_exact [OF a(2,1,4,3), of "quote a" "base a", folded inverse_rate_def]
  have i_val: "rate_value (inverse_rate a) = 1 / rate_value a" using i(4) by (simp add: rate_value_def)
  from i(1) have ic: "canonical (denominator (inverse_rate a))" "canonical (numerator (inverse_rate a))"
    "0 < units_value (denominator (inverse_rate a))" "0 < units_value (numerator (inverse_rate a))" by (simp_all add: rate_ok_def)
  note ii = create_rate_exact [OF ic, of "quote (inverse_rate a)" "base (inverse_rate a)", folded inverse_rate_def]
  have "rate_value (inverse_rate (inverse_rate a)) = 1 / rate_value (inverse_rate a)"
    unfolding ii(4) by (simp add: rate_value_def)
  then have "inverse_rate (inverse_rate a) = a"
    by (intro rate_unique [OF ii(1) assms(1)]) (simp_all add: ii(2,3) i(2,3) i_val)
  moreover have "case chain_rate a b of
       Inr c \<Rightarrow> currency_eq (quote a) (base b) \<and> rate_ok c \<and> base c = base a \<and> quote c = quote b \<and>
         rate_value c = rate_value a * rate_value b
     | Inl e \<Rightarrow> (\<not> currency_eq (quote a) (base b) \<and> e = CurrencyMismatch) \<or> e = ResourceLimit"
  proof (cases "chain_rate a b")
    case (Inl e)
    then show ?thesis
      using units.mul_limit [OF a(1) b(1)] units.mul_limit [OF a(2) b(2)]
      by (auto simp: chain_rate_def result_simps assert_same_currency_iff split: if_splits)
  next
    case (Inr c)
    then obtain n d where nd: "mul_units (numerator a) (numerator b) = Inr n" "mul_units (denominator a) (denominator b) = Inr d"
      "c = create_rate (base a) (quote b) n d" "currency_eq (quote a) (base b)"
      by (auto simp: chain_rate_def result_simps assert_same_currency_iff split: if_splits)
    from units.mul_exact [OF a(1) b(1) nd(1)] units.mul_exact [OF a(2) b(2) nd(2)] a b
    have ex: "canonical n" "canonical d" "0 < units_value n" "0 < units_value d"
      "units_value n = units_value (numerator a) * units_value (numerator b)"
      "units_value d = units_value (denominator a) * units_value (denominator b)" by auto
    note c = create_rate_exact [OF ex(1-4), of "base a" "quote b", folded nd(3)]
    with Inr nd(4) show ?thesis by (simp add: ex(5,6) rate_value_def)
  qed
  ultimately show ?thesis using i(1) i_val by blast
qed

definition sample_cur :: "string \<Rightarrow> nat \<Rightarrow> currency" where
  "sample_cur c s = \<lparr>code = c, cur_numeric = None, cur_scale = s, iso = False\<rparr>"

definition sample_rate :: "string \<Rightarrow> string \<Rightarrow> int \<Rightarrow> int \<Rightarrow> rate" where
  "sample_rate b q n d = \<lparr>base = sample_cur b 2, quote = sample_cur q 2, numerator = Num n, denominator = Num d\<rparr>"

lemma sample_gcd: "gcd (3 :: int) 2 = 1" "gcd (5 :: int) 2 = 1" "gcd (15 :: int) 4 = 1"
  using gcd_red_int [of 3 2] gcd_red_int [of 5 2] gcd_red_int [of 15 4] gcd_red_int [of 4 3] by simp_all

lemma sample_rate_ok: "rate_ok (sample_rate b q 3 2)" "rate_ok (sample_rate b q 5 2)"
  using sample_gcd by (simp_all add: rate_ok_def sample_rate_def MAX_SAFE_def coprime_iff_gcd_eq_1)

lemma sample_chain: "chain_rate (sample_rate ''EUR'' ''USD'' 3 2) (sample_rate ''USD'' ''GBP'' 5 2) =
    Inr (sample_rate ''EUR'' ''GBP'' 15 4)"
  using sample_gcd
  by (simp add: chain_rate_def assert_same_currency_def sample_rate_def sample_cur_def mul_units_def rnd53_small
      MAX_SAFE_def is_safe_def create_rate_def gcd_units_def gcd_loop_gcd div_exact_def sdiv_smod_pos)

theorem rates_exact_witness:
  "chain_rate (sample_rate ''EUR'' ''USD'' 3 2) (sample_rate ''USD'' ''GBP'' 5 2) = Inr (sample_rate ''EUR'' ''GBP'' 15 4) \<and>
   rate_value (sample_rate ''EUR'' ''GBP'' 15 4) =
     rate_value (sample_rate ''EUR'' ''USD'' 3 2) * rate_value (sample_rate ''USD'' ''GBP'' 5 2)"
  using rates_exact [OF sample_rate_ok(1) [of "''EUR''" "''USD''"] sample_rate_ok(2) [of "''USD''" "''GBP''"]]
  by (simp add: sample_chain)

section \<open>A conversion rounds once\<close>

lemma from_minor_of:
  assumes "canonical u" "from_minor (minor_of u) cur (Some s) = Inr m"
  shows "units m = u \<and> currency m = cur \<and> int (scale m) = s"
  using assms by (cases u) (auto simp: from_minor_def minor_of_def to_units_def result_simps is_safe_abs canon_def
      check_scale_def split: if_splits)

lemma convert_units_exact:
  assumes "rate_ok r" "well_formed m" "convert_units m r s mode = Inr u"
  shows "canonical u \<and> round_div mode (units_value (units m) * (units_value (numerator r) * 10 ^ s))
      (units_value (denominator r) * 10 ^ scale m) = Inr (units_value u)"
proof -
  from assms(3) obtain n d where nd: "mul_units (numerator r) (pow10 s) = Inr n" "mul_units (denominator r) (pow10 (scale m)) = Inr d"
    "mul_div (units m) n d mode = Inr u" by (auto simp: convert_units_def result_simps)
  from assms(1) have r: "canonical (numerator r)" "canonical (denominator r)" "0 < units_value (denominator r)"
    by (simp_all add: rate_ok_def)
  from units.mul_exact [OF r(1) pow10_canonical(1) nd(1)] units.mul_exact [OF r(2) pow10_canonical(1) nd(2)] r(3)
  have ex: "canonical n" "canonical d" "0 < units_value d" "units_value n = units_value (numerator r) * 10 ^ s"
    "units_value d = units_value (denominator r) * 10 ^ scale m" by auto
  from mul_div_eq [OF _ ex(1-3), of "units m" mode] assms(2) nd(3) show ?thesis
    by (cases "round_div mode (units_value (units m) * units_value n) (units_value d)")
      (auto simp: well_formed_def ex(4,5) split: if_splits)
qed

lemma round_div_exact:
  assumes "round_div None p d = Inr q" "0 < d"
  shows "(of_int q :: rat) = of_int p / of_int d"
proof -
  from assms have "p mod d = 0" "q = p div d" by (auto simp: round_div_def Let_def split: if_splits)
  then have "p = q * d" by (metis add.right_neutral div_mult_mod_eq)
  then show ?thesis using assms(2) by simp
qed

text \<open>
  A conversion is one rounding: the amount times the exact rate, on the grid of the target
  scale, rounded once by the given mode; the result is in the quote currency at its scale or
  the scale asked for. Without a mode nothing is rounded: the value is the exact product.
\<close>

theorem convert_rounds_once:
  assumes "rate_ok r" "well_formed m" "convert m r scale_opt mode = Inr c"
  shows "currency_eq (currency m) (base r) \<and> currency c = quote r \<and> well_formed c \<and>
    int (scale c) = (case scale_opt of None \<Rightarrow> int (cur_scale (quote r)) | Some s \<Rightarrow> s) \<and>
    round_div mode (units_value (units m) * (units_value (numerator r) * 10 ^ scale c))
      (units_value (denominator r) * 10 ^ scale m) = Inr (units_value (units c)) \<and>
    (mode = None \<longrightarrow> money_value c = money_value m * rate_value r)"
proof -
  from assms(3) obtain s u where s: "currency_eq (currency m) (base r)"
    "(case scale_opt of None \<Rightarrow> Inr (cur_scale (quote r)) | Some s \<Rightarrow> check_scale s) = Inr s"
    "convert_units m r s mode = Inr u" "from_minor (minor_of u) (quote r) (Some (int s)) = Inr c"
    by (auto simp: convert_def result_simps assert_same_currency_iff split: if_splits)
  note u = convert_units_exact [OF assms(1,2) s(3)]
  from from_minor_of [OF conjunct1 [OF u] s(4)] have c: "units c = u" "currency c = quote r" "scale c = s" by simp_all
  have "int s = (case scale_opt of None \<Rightarrow> int (cur_scale (quote r)) | Some s \<Rightarrow> s)"
    using s(2) by (auto simp: check_scale_def split: option.splits if_splits)
  moreover have "money_value c = money_value m * rate_value r" if "mode = None"
  proof -
    have d: "0 < units_value (denominator r) * 10 ^ scale m" using assms(1) by (simp add: rate_ok_def)
    have "(of_int (units_value u) :: rat) = of_int (units_value (units m) * (units_value (numerator r) * 10 ^ s)) /
        of_int (units_value (denominator r) * 10 ^ scale m)"
      using u that round_div_exact [OF _ d] by blast
    then show ?thesis by (simp add: money_value_def rate_value_def c)
  qed
  ultimately show ?thesis using s(1) u by (simp add: c well_formed_def)
qed

theorem convert_rounds_once_witness:
  "\<exists>c. convert (sample_eur 10000 2) (sample_rate ''EUR'' ''USD'' 3 2) None None = Inr c \<and>
     money_value c = money_value (sample_eur 10000 2) * rate_value (sample_rate ''EUR'' ''USD'' 3 2)"
proof -
  have "convert (sample_eur 10000 2) (sample_rate ''EUR'' ''USD'' 3 2) None None =
      Inr \<lparr>units = Num 15000, scale = 2, currency = sample_cur ''USD'' 2\<rparr>"
    by (simp add: convert_def assert_same_currency_def sample_rate_def sample_cur_def sample_eur_def convert_units_def
        mul_units_def rnd53_small MAX_SAFE_def is_safe_def canon_def pow10_def mul_div_def mul_div_num_def sdiv_smod_pos
        from_minor_def minor_of_def to_units_def check_scale_def MAX_SCALE_def)
  from this convert_rounds_once [OF sample_rate_ok(1) sample_well_formed this] show ?thesis by blast
qed

section \<open>The memory of the converter\<close>

text \<open>Currencies that their codes tell apart, with codes that do not contain the separator.\<close>

definition told_apart :: "currency set \<Rightarrow> bool" where
  "told_apart K \<longleftrightarrow> (\<forall>a \<in> K. \<forall>b \<in> K. code a = code b \<longrightarrow> a = b) \<and> (\<forall>a \<in> K. CHR ''>'' \<notin> set (code a))"

definition memory_ok :: "converter \<Rightarrow> currency set \<Rightarrow> memory \<Rightarrow> bool" where
  "memory_ok c K mem \<longleftrightarrow>
     (\<forall>a \<in> K. \<forall>b \<in> K. \<forall>found. mem (pair_key a b) = Some found \<longrightarrow> find_rate c a b = Inr found)"

fun resolve_all :: "converter \<Rightarrow> (currency \<times> currency) list \<Rightarrow> memory \<Rightarrow> (money_error + rate) list \<times> memory" where
  "resolve_all c [] mem = ([], mem)"
| "resolve_all c ((from, to) # calls) mem =
     (case resolve_rate c from to mem of (r, mem') \<Rightarrow>
        (case resolve_all c calls mem' of (rs, mem'') \<Rightarrow> (r # rs, mem'')))"

lemma separated:
  "x \<notin> set a \<Longrightarrow> x \<notin> set a' \<Longrightarrow> a @ x # b = a' @ x # b' \<longleftrightarrow> a = a' \<and> b = b'"
  by (induction a arbitrary: a') (case_tac a'; auto)+

lemma pair_key_inj:
  assumes "told_apart K" "a \<in> K" "b \<in> K" "a' \<in> K" "b' \<in> K" "pair_key a b = pair_key a' b'"
  shows "a = a' \<and> b = b'"
proof -
  have "code a = code a' \<and> code b = code b'"
    using assms separated [of "CHR ''>''" "code a" "code a'" "code b" "code b'"]
    by (simp add: pair_key_def told_apart_def)
  with assms show ?thesis by (auto simp: told_apart_def)
qed

lemma resolve_fresh:
  "fst (resolve_rate c a b Map.empty) = rbind (find_rate c a b) (\<lambda>f. case f of None \<Rightarrow> Inl ExchangeRateFault | Some r \<Rightarrow> Inr r)"
  by (cases "find_rate c a b") (auto simp: resolve_rate_def split: option.splits)

lemma resolve_remembers:
  assumes "told_apart K" "memory_ok c K mem" "a \<in> K" "b \<in> K" "resolve_rate c a b mem = (r, mem')"
  shows "r = fst (resolve_rate c a b Map.empty) \<and> memory_ok c K mem'"
proof (cases "mem (pair_key a b)")
  case (Some found)
  with assms have "find_rate c a b = Inr found" by (auto simp: memory_ok_def)
  with assms Some show ?thesis by (auto simp: resolve_fresh resolve_rate_def split: option.splits)
next
  case None
  have "memory_ok c K (mem(pair_key a b \<mapsto> found))" if "find_rate c a b = Inr found" for found
    using assms(2) that pair_key_inj [OF assms(1) _ _ assms(3,4)]
    unfolding memory_ok_def fun_upd_apply by (metis option.inject)
  with None assms show ?thesis
    by (cases "find_rate c a b") (auto simp: resolve_fresh resolve_rate_def split: option.splits)
qed

text \<open>
  The converter's memory cannot be seen: for currencies that their codes tell apart, every
  lookup of any sequence of lookups answers what it would answer on a fresh converter.
\<close>

theorem memory_unseen:
  assumes "told_apart K" "\<forall>(a, b) \<in> set calls. a \<in> K \<and> b \<in> K"
  shows "fst (resolve_all c calls Map.empty) = map (\<lambda>(a, b). fst (resolve_rate c a b Map.empty)) calls"
proof -
  have "fst (resolve_all c calls mem) = map (\<lambda>(a, b). fst (resolve_rate c a b Map.empty)) calls"
    if "memory_ok c K mem" for mem
    using that assms(2)
  proof (induction calls arbitrary: mem)
    case Nil
    then show ?case by simp
  next
    case (Cons call calls)
    obtain a b where call: "call = (a, b)" by fastforce
    obtain r mem' where r: "resolve_rate c a b mem = (r, mem')" by fastforce
    from Cons.prems(2) call have "a \<in> K" "b \<in> K" by auto
    from resolve_remembers [OF assms(1) Cons.prems(1) this r] Cons.IH [of mem'] Cons.prems(2)
    show ?case by (cases "resolve_all c calls mem'") (simp add: call r)
  qed
  then show ?thesis by (simp add: memory_ok_def)
qed

text \<open>
  The memory is keyed by codes alone, so two custom currencies with one code and different
  scales, which are different currencies, disturb each other: after a failed lookup from one
  to the other, even the rate of a currency to itself is reported missing.
\<close>

theorem memory_seen_by_equal_codes:
  defines "c \<equiv> \<lparr>rates = [], use_inverse = False, via = None\<rparr>"
    and "a \<equiv> sample_cur ''PTS'' 0" and "b \<equiv> sample_cur ''PTS'' 2"
  shows "\<not> currency_eq a b \<and> fst (converter_has c a a Map.empty) = Inr True \<and>
    fst (converter_has c a a (snd (converter_has c a b Map.empty))) = Inr False"
  by (simp add: c_def a_def b_def sample_cur_def currency_eq_def converter_has_def resolve_rate_def find_rate_def
      lookup_def lookup_via_def pair_key_def)

theorem memory_unseen_witness:
  "fst (resolve_all \<lparr>rates = [], use_inverse = False, via = None\<rparr>
     [(sample_cur ''EUR'' 2, sample_cur ''USD'' 2), (sample_cur ''EUR'' 2, sample_cur ''EUR'' 2)] Map.empty) =
   [Inl ExchangeRateFault, Inr (create_rate (sample_cur ''EUR'' 2) (sample_cur ''EUR'' 2) (Num 1) (Num 1))]"
proof -
  have "told_apart {sample_cur ''EUR'' 2, sample_cur ''USD'' 2}" by (simp add: told_apart_def sample_cur_def)
  from memory_unseen [OF this, of "[(sample_cur ''EUR'' 2, sample_cur ''USD'' 2), (sample_cur ''EUR'' 2, sample_cur ''EUR'' 2)]"
      "\<lparr>rates = [], use_inverse = False, via = None\<rparr>"]
  show ?thesis
    by (simp add: resolve_fresh find_rate_def lookup_def lookup_via_def currency_eq_def sample_cur_def)
qed

end
