(* ===== verification/ExprSyntax.thy ===== *)
theory ExprSyntax
  imports LockKey
begin

text \<open>
  The data of \<open>packages/expr/src\<close>: the tree (\<open>ast.ts\<close>), errors (\<open>errors.ts\<close>), budgets
  (\<open>limits.ts\<close>), the input syntax (\<open>syntax.ts\<close>), languages (\<open>language.ts\<close>) and the
  splitting of a name into letters (\<open>resolve.ts\<close>). Characters are those of \<open>LockKey\<close>: a
  text is its list of UTF-16 code units. The message of an error is left out; its code, span,
  expected list and found text are kept.
\<close>

section \<open>Characters\<close>

text \<open>\<open>text.codePointAt(index) ?? -1\<close>.\<close>

definition code_at :: "js_string \<Rightarrow> nat \<Rightarrow> int" where
  "code_at t i = (if i < length t then int (code_point_at (drop i t)) else -1)"

definition PI :: int where "PI = 960"
definition DOT :: int where "DOT = 46"
definition LOWER_E :: int where "LOWER_E = 101"
definition UPPER_E :: int where "UPPER_E = 69"

definition letter_code :: "int \<Rightarrow> bool" where
  "letter_code code \<longleftrightarrow>
     (97 \<le> code \<and> code \<le> 122) \<or> (65 \<le> code \<and> code \<le> 90) \<or> code = 95
     \<or> (945 \<le> code \<and> code \<le> 969 \<and> code \<noteq> PI) \<or> (913 \<le> code \<and> code \<le> 937)"

definition is_digit_code :: "int \<Rightarrow> bool" where
  "is_digit_code code \<longleftrightarrow> 48 \<le> code \<and> code \<le> 57"

definition space_code :: "int \<Rightarrow> bool" where
  "space_code code \<longleftrightarrow>
     code = 32 \<or> (9 \<le> code \<and> code \<le> 13) \<or> code = 160 \<or> code = 8201 \<or> code = 8239"

definition is_name :: "js_string \<Rightarrow> bool" where
  "is_name t \<longleftrightarrow> t \<noteq> [] \<and> letter_code (code_at t 0)
     \<and> list_all (\<lambda>i. letter_code (code_at t i) \<or> is_digit_code (code_at t i)) [1..<length t]"

text \<open>\<open>text.slice(start, end)\<close> for \<open>0 <= start <= end\<close>.\<close>

definition slice :: "nat \<Rightarrow> nat \<Rightarrow> js_string \<Rightarrow> js_string" where
  "slice start stop t = take (stop - start) (drop start t)"

section \<open>Errors and budgets\<close>

record span =
  sp_start :: nat
  sp_end :: nat

datatype error_code =
    UnexpectedToken | UnexpectedEnd | UnbalancedParen | UnbalancedBar | BadNumber
  | NotAFunction | UnknownName | ArityError | NameConflict | NotInDomain

datatype budget = LengthBudget | TokensBudget | DepthBudget | NodesBudget | StepsBudget | DigitsBudget

datatype expr_error =
    ParseError error_code span "js_string list" js_string
  | LimitError budget nat nat
  | ArgumentError js_string

text \<open>What the readers of outside text return; an argument error is a bug and is thrown on.\<close>

datatype expr_failure = InvalidExpression expr_error | ExpressionOverBudget expr_error

fun parse_failure :: "expr_error \<Rightarrow> expr_error + expr_failure" where
  "parse_failure (ParseError c s x f) = Inr (InvalidExpression (ParseError c s x f))"
| "parse_failure (LimitError b l a) = Inr (ExpressionOverBudget (LimitError b l a))"
| "parse_failure e = Inl e"

record budgets =
  bg_length :: nat
  bg_tokens :: nat
  bg_depth :: nat
  bg_nodes :: nat

definition DEFAULT_LIMITS :: budgets where
  "DEFAULT_LIMITS = \<lparr>bg_length = 10000, bg_tokens = 5000, bg_depth = 256, bg_nodes = 5000\<rparr>"

definition MAX_SAFE_INT :: int where "MAX_SAFE_INT = 9007199254740991"

definition positive :: "string \<Rightarrow> int option \<Rightarrow> nat \<Rightarrow> expr_error + nat" where
  "positive name val fallback =
     (case val of
        None \<Rightarrow> Inr fallback
      | Some n \<Rightarrow> if n > MAX_SAFE_INT \<or> n < 1 then Inl (ArgumentError (js name)) else Inr (nat n))"

record limits =
  lm_length :: "int option"
  lm_tokens :: "int option"
  lm_depth :: "int option"
  lm_nodes :: "int option"

definition resolve_limits :: "limits option \<Rightarrow> expr_error + budgets" where
  "resolve_limits given =
     (case given of
        None \<Rightarrow> Inr DEFAULT_LIMITS
      | Some l \<Rightarrow>
          rbind (positive ''length'' (lm_length l) (bg_length DEFAULT_LIMITS)) (\<lambda>a.
          rbind (positive ''tokens'' (lm_tokens l) (bg_tokens DEFAULT_LIMITS)) (\<lambda>b.
          rbind (positive ''depth'' (lm_depth l) (bg_depth DEFAULT_LIMITS)) (\<lambda>c.
          rbind (positive ''nodes'' (lm_nodes l) (bg_nodes DEFAULT_LIMITS)) (\<lambda>d.
          Inr \<lparr>bg_length = a, bg_tokens = b, bg_depth = c, bg_nodes = d\<rparr>)))))"

section \<open>The tree\<close>

datatype unary_op = UMinus | UPlus
datatype binary_op = Add | Sub | Mul | Div | Pow
datatype call_notation = CallNotation | BarsNotation | RadicalNotation

datatype expr_node =
    NumberNode js_string span
  | NameNode js_string span
  | UnaryNode unary_op expr_node span
  | BinaryNode binary_op expr_node expr_node bool span
  | CallNode js_string "expr_node list" call_notation span
  | FactorialNode expr_node span
  | GroupNode expr_node span

fun node_span :: "expr_node \<Rightarrow> span" where
  "node_span (NumberNode _ s) = s"
| "node_span (NameNode _ s) = s"
| "node_span (UnaryNode _ _ s) = s"
| "node_span (BinaryNode _ _ _ _ s) = s"
| "node_span (CallNode _ _ _ s) = s"
| "node_span (FactorialNode _ s) = s"
| "node_span (GroupNode _ s) = s"

datatype warning_code = ImplicitAfterDivision | ImplicitAfterPower | SplitAfterDivision

record expr_warning =
  w_code :: warning_code
  w_span :: span
  w_message :: js_string
  w_hint :: js_string

record expr =
  ex_source :: js_string
  ex_root :: expr_node
  ex_warnings :: "expr_warning list"

record equation =
  eq_source :: js_string
  eq_left :: expr_node
  eq_right :: expr_node
  eq_warnings :: "expr_warning list"

fun children :: "expr_node \<Rightarrow> expr_node list" where
  "children (NumberNode _ _) = []"
| "children (NameNode _ _) = []"
| "children (UnaryNode _ arg _) = [arg]"
| "children (FactorialNode arg _) = [arg]"
| "children (BinaryNode _ left right _ _) = [left, right]"
| "children (CallNode _ args _ _) = args"
| "children (GroupNode inner _) = [inner]"

text \<open>
  The nodes of a tree, counted. \<open>walk\<close>: the stack holds the nodes to visit with their parents, the next one on top (the
  head here); the visitor returns \<open>False\<close> to skip a node's children.
\<close>

fun count_nodes :: "expr_node \<Rightarrow> nat" where
  "count_nodes (NumberNode _ _) = 1"
| "count_nodes (NameNode _ _) = 1"
| "count_nodes (UnaryNode _ arg _) = 1 + count_nodes arg"
| "count_nodes (BinaryNode _ left right _ _) = 1 + count_nodes left + count_nodes right"
| "count_nodes (CallNode _ args _ _) = 1 + sum_list (map count_nodes args)"
| "count_nodes (FactorialNode arg _) = 1 + count_nodes arg"
| "count_nodes (GroupNode inner _) = 1 + count_nodes inner"

lemma count_children: "sum_list (map count_nodes (children n)) < count_nodes n"
  by (cases n) auto

lemma count_positive: "0 < count_nodes n"
  by (cases n) auto

function walk_loop ::
  "(expr_node \<times> expr_node option) list \<Rightarrow>
   (expr_node \<Rightarrow> expr_node option \<Rightarrow> 's \<Rightarrow> bool \<times> 's) \<Rightarrow> 's \<Rightarrow> 's" where
  "walk_loop [] visit s = s"
| "walk_loop ((node, parent) # rest) visit s =
     (case visit node parent s of
        (deeper, s') \<Rightarrow>
          walk_loop ((if deeper then map (\<lambda>kid. (kid, Some node)) (children node) else []) @ rest)
            visit s')"
  by pat_completeness auto

termination walk_loop
  by (relation "measure (\<lambda>(stack, _, _). sum_list (map (\<lambda>item. count_nodes (fst item)) stack))")
    (auto simp: comp_def count_children count_positive)

definition walk ::
  "expr_node \<Rightarrow> (expr_node \<Rightarrow> expr_node option \<Rightarrow> 's \<Rightarrow> bool \<times> 's) \<Rightarrow> 's \<Rightarrow> 's" where
  "walk node visit s = walk_loop [(node, None)] visit s"

section \<open>The input syntax\<close>

record syntax_marks =
  sy_decimal :: js_string
  sy_separator :: js_string

definition canonical_syntax :: syntax_marks where
  "canonical_syntax = \<lparr>sy_decimal = js ''.'', sy_separator = js '',''\<rparr>"

definition decimal_comma :: syntax_marks where
  "decimal_comma = \<lparr>sy_decimal = js '','', sy_separator = js '';''\<rparr>"

text \<open>The two fields of a stored value; \<open>None\<close> is a missing field or one that is not a text.\<close>

definition parse_syntax :: "js_string option \<Rightarrow> js_string option \<Rightarrow> syntax_marks option" where
  "parse_syntax decimal separator =
     (if separator \<noteq> Some (js '','') \<and> separator \<noteq> Some (js '';'') then None
      else if decimal = Some (js ''.'') then
        Some \<lparr>sy_decimal = js ''.'', sy_separator = the separator\<rparr>
      else if decimal = Some (js '','') \<and> separator = Some (js '';'') then
        Some \<lparr>sy_decimal = js '','', sy_separator = js '';''\<rparr>
      else None)"

definition define_syntax :: "syntax_marks \<Rightarrow> expr_error + syntax_marks" where
  "define_syntax given =
     (case parse_syntax (Some (sy_decimal given)) (Some (sy_separator given)) of
        None \<Rightarrow> Inl (ArgumentError (js ''syntax''))
      | Some s \<Rightarrow> Inr s)"

section \<open>Languages\<close>

record fun_spec =
  fs_min :: nat
  fs_max :: nat
  fs_latex :: "js_string option"
  fs_cost :: nat

text \<open>The two tables, each in the sorted order of its names.\<close>

record language =
  la_functions :: "(js_string \<times> fun_spec) list"
  la_constants :: "(js_string \<times> js_string option) list"

definition function_spec :: "language \<Rightarrow> js_string \<Rightarrow> fun_spec option" where
  "function_spec L name = map_of (la_functions L) name"

definition constant_spec :: "language \<Rightarrow> js_string \<Rightarrow> js_string option option" where
  "constant_spec L name = map_of (la_constants L) name"

definition function_names :: "language \<Rightarrow> js_string list" where
  "function_names L = map fst (la_functions L)"

definition constant_names :: "language \<Rightarrow> js_string list" where
  "constant_names L = map fst (la_constants L)"

datatype arity_given = Exactly int | Between int int

record fun_definition =
  fd_arity :: arity_given
  fd_latex :: "js_string option"
  fd_cost :: "int option"

definition is_count :: "int \<Rightarrow> bool" where
  "is_count n \<longleftrightarrow> 0 \<le> n \<and> n \<le> MAX_SAFE_INT"

fun arity_of :: "js_string \<Rightarrow> arity_given \<Rightarrow> expr_error + nat \<times> nat" where
  "arity_of name (Exactly n) =
     (if is_count n then Inr (nat n, nat n) else Inl (ArgumentError name))"
| "arity_of name (Between lo hi) =
     (if is_count lo \<and> is_count hi \<and> lo \<le> hi then Inr (nat lo, nat hi)
      else Inl (ArgumentError name))"

definition function_spec_of :: "js_string \<Rightarrow> fun_definition \<Rightarrow> expr_error + fun_spec" where
  "function_spec_of name d =
     rbind (arity_of name (fd_arity d)) (\<lambda>(lo, hi).
       let cost = (case fd_cost d of None \<Rightarrow> 1 | Some c \<Rightarrow> c)
       in if cost > MAX_SAFE_INT \<or> cost < 1 then Inl (ArgumentError name)
          else Inr \<lparr>fs_min = lo, fs_max = hi, fs_latex = fd_latex d, fs_cost = nat cost\<rparr>)"

text \<open>The order of \<open>Array.prototype.sort\<close> on texts: by code unit, a prefix first.\<close>

fun unit_less :: "js_string \<Rightarrow> js_string \<Rightarrow> bool" where
  "unit_less s [] = False"
| "unit_less [] (v # vs) = True"
| "unit_less (u # us) (v # vs) = (u < v \<or> (u = v \<and> unit_less us vs))"

fun insert_named :: "js_string \<times> 'a \<Rightarrow> (js_string \<times> 'a) list \<Rightarrow> (js_string \<times> 'a) list" where
  "insert_named e [] = [e]"
| "insert_named e (f # fs) = (if unit_less (fst f) (fst e) then f # insert_named e fs else e # f # fs)"

text \<open>\<open>claim\<close>: a name is one of the grammar, and not taken yet.\<close>

definition claim_name :: "language \<Rightarrow> js_string \<Rightarrow> expr_error + unit" where
  "claim_name L name =
     (if \<not> is_name name then Inl (ArgumentError name)
      else if function_spec L name \<noteq> None \<or> constant_spec L name \<noteq> None
      then Inl (ArgumentError name)
      else Inr ())"

fun add_functions :: "(js_string \<times> fun_definition) list \<Rightarrow> language \<Rightarrow> expr_error + language" where
  "add_functions [] L = Inr L"
| "add_functions ((name, d) # rest) L =
     rbind (claim_name L name) (\<lambda>_.
     rbind (function_spec_of name d) (\<lambda>spec.
     add_functions rest (L\<lparr>la_functions := insert_named (name, spec) (la_functions L)\<rparr>)))"

fun add_constants :: "(js_string \<times> js_string option) list \<Rightarrow> language \<Rightarrow> expr_error + language" where
  "add_constants [] L = Inr L"
| "add_constants ((name, latex) # rest) L =
     rbind (claim_name L name) (\<lambda>_.
     add_constants rest (L\<lparr>la_constants := insert_named (name, latex) (la_constants L)\<rparr>))"

definition define_language ::
  "language option \<Rightarrow> (js_string \<times> fun_definition) list \<Rightarrow> (js_string \<times> js_string option) list
   \<Rightarrow> expr_error + language" where
  "define_language base funs consts =
     rbind (add_functions funs
       (case base of None \<Rightarrow> \<lparr>la_functions = [], la_constants = []\<rparr> | Some L \<Rightarrow> L))
       (add_constants consts)"

definition unary_fun :: "string \<Rightarrow> string option \<Rightarrow> js_string \<times> fun_definition" where
  "unary_fun name latex =
     (js name, \<lparr>fd_arity = Exactly 1, fd_latex = map_option js latex, fd_cost = None\<rparr>)"

definition scientific_functions :: "(js_string \<times> fun_definition) list" where
  "scientific_functions =
     [unary_fun ''sin'' (Some (CHR 0x5C # ''sin'')),
      unary_fun ''cos'' (Some (CHR 0x5C # ''cos'')),
      unary_fun ''tan'' (Some (CHR 0x5C # ''tan'')),
      unary_fun ''sec'' (Some (CHR 0x5C # ''sec'')),
      unary_fun ''csc'' (Some (CHR 0x5C # ''csc'')),
      unary_fun ''cot'' (Some (CHR 0x5C # ''cot'')),
      unary_fun ''asin'' (Some (CHR 0x5C # ''arcsin'')),
      unary_fun ''acos'' (Some (CHR 0x5C # ''arccos'')),
      unary_fun ''atan'' (Some (CHR 0x5C # ''arctan'')),
      unary_fun ''asec'' None, unary_fun ''acsc'' None, unary_fun ''acot'' None,
      unary_fun ''sinh'' (Some (CHR 0x5C # ''sinh'')),
      unary_fun ''cosh'' (Some (CHR 0x5C # ''cosh'')),
      unary_fun ''tanh'' (Some (CHR 0x5C # ''tanh'')),
      unary_fun ''sech'' None, unary_fun ''csch'' None,
      unary_fun ''coth'' (Some (CHR 0x5C # ''coth'')),
      unary_fun ''asinh'' None, unary_fun ''acosh'' None, unary_fun ''atanh'' None,
      unary_fun ''asech'' None, unary_fun ''acsch'' None, unary_fun ''acoth'' None,
      unary_fun ''exp'' (Some (CHR 0x5C # ''exp'')),
      unary_fun ''ln'' (Some (CHR 0x5C # ''ln'')),
      (js ''log'', \<lparr>fd_arity = Between 1 2, fd_latex = Some (js (CHR 0x5C # ''log'')), fd_cost = None\<rparr>),
      unary_fun ''log10'' (Some (CHR 0x5C # ''log_{10}'')),
      unary_fun ''log2'' (Some (CHR 0x5C # ''log_{2}'')),
      unary_fun ''sqrt'' (Some (CHR 0x5C # ''sqrt'')),
      unary_fun ''cbrt'' None,
      (js ''nthRoot'', \<lparr>fd_arity = Between 1 2, fd_latex = None, fd_cost = None\<rparr>),
      (js ''pow'', \<lparr>fd_arity = Exactly 2, fd_latex = None, fd_cost = None\<rparr>),
      unary_fun ''abs'' None,
      unary_fun ''sign'' (Some (CHR 0x5C # ''operatorname{sgn}'')),
      unary_fun ''ceil'' None, unary_fun ''floor'' None, unary_fun ''round'' None,
      unary_fun ''fix'' None, unary_fun ''factorial'' None,
      unary_fun ''gamma'' (Some (CHR 0x5C # ''Gamma'')),
      (js ''mod'', \<lparr>fd_arity = Exactly 2, fd_latex = None, fd_cost = None\<rparr>)]"

definition scientific_constants :: "(js_string \<times> js_string option) list" where
  "scientific_constants =
     [(js ''pi'', Some (js (CHR 0x5C # ''pi''))), (js ''e'', Some (js ''e'')), (js ''i'', Some (js ''i''))]"

definition scientific :: "expr_error + language" where
  "scientific = define_language None scientific_functions scientific_constants"

section \<open>Splitting a name into letters\<close>

text \<open>
  \<open>for (const letter of name)\<close> visits code points; a name has none above U+FFFF, so each
  letter is one code unit.
\<close>

fun letters_of :: "js_string \<Rightarrow> (js_string \<Rightarrow> bool) \<Rightarrow> js_string list option" where
  "letters_of [] is_value = Some []"
| "letters_of (u # us) is_value =
     (if is_value [u] then map_option (\<lambda>ls. [u] # ls) (letters_of us is_value) else None)"

definition split_letters :: "js_string \<Rightarrow> (js_string \<Rightarrow> bool) \<Rightarrow> js_string list option" where
  "split_letters name is_value = (if length name < 2 then None else letters_of name is_value)"

end
