(* ===== verification/ExprLexer.thy ===== *)
theory ExprLexer
  imports ExprSyntax
begin

text \<open>
  The single-pass lexer of \<open>packages/expr/src/lexer.ts\<close>: number literals, names, the aliases
  of operators, and the token budget. The lemmas show that every step of the lexer consumes
  text, so it ends.
\<close>

section \<open>Number literals\<close>

function skip_digits :: "js_string \<Rightarrow> nat \<Rightarrow> nat" where
  "skip_digits t i = (if is_digit_code (code_at t i) then skip_digits t (i + 1) else i)"
  by pat_completeness auto

lemma code_at_end: "length t \<le> i \<Longrightarrow> code_at t i = -1"
  by (simp add: code_at_def)

lemma code_class_inside:
  "is_digit_code (code_at t i) \<Longrightarrow> i < length t"
  "letter_code (code_at t i) \<Longrightarrow> i < length t"
  by (auto simp: code_at_def is_digit_code_def letter_code_def split: if_splits)

termination skip_digits
  by (relation "measure (\<lambda>(t, i). length t - i)") (auto dest: code_class_inside)

declare skip_digits.simps [simp del]

lemma skip_digits_ge: "i \<le> skip_digits t i"
proof (induction t i rule: skip_digits.induct)
  case (1 t i)
  then show ?case using skip_digits.simps [of t i] by (auto intro: Suc_leD)
qed

text \<open>
  \<open>scanNumber\<close>: the end offset of the literal at \<open>start\<close>, or the negated end of a malformed
  one as \<open>-(end + 1)\<close>.
\<close>

definition scan_fraction :: "js_string \<Rightarrow> nat \<Rightarrow> int \<Rightarrow> int" where
  "scan_fraction t index dot =
     (if code_at t index = dot
      then if \<not> is_digit_code (code_at t (index + 1)) then - (int index + 2)
           else int (skip_digits t (index + 1))
      else int index)"

definition scan_exponent :: "js_string \<Rightarrow> nat \<Rightarrow> nat" where
  "scan_exponent t index =
     (let marker = code_at t index
      in if marker = LOWER_E \<or> marker = UPPER_E
         then let sign = code_at t (index + 1);
                  exponent = (if sign = 43 \<or> sign = 45 then index + 2 else index + 1)
              in if is_digit_code (code_at t exponent) then skip_digits t exponent else index
         else index)"

definition scan_number :: "js_string \<Rightarrow> nat \<Rightarrow> int \<Rightarrow> int" where
  "scan_number t start dot =
     (let fraction = scan_fraction t (skip_digits t start) dot
      in if fraction < 0 then fraction
         else let index = scan_exponent t (nat fraction)
              in if code_at t index = dot then - (int (skip_digits t (index + 1)) + 1)
                 else int index)"

definition starts_number :: "js_string \<Rightarrow> nat \<Rightarrow> int \<Rightarrow> bool" where
  "starts_number t i dot \<longleftrightarrow>
     is_digit_code (code_at t i) \<or> (code_at t i = dot \<and> is_digit_code (code_at t (i + 1)))"

definition is_number_literal :: "js_string \<Rightarrow> bool" where
  "is_number_literal raw \<longleftrightarrow> starts_number raw 0 DOT \<and> scan_number raw 0 DOT = int (length raw)"

lemma skip_digits_gt: "is_digit_code (code_at t i) \<Longrightarrow> i < skip_digits t i"
  using skip_digits_ge [of "i + 1" t] by (simp add: skip_digits.simps [of t i])

lemma scan_exponent_ge: "i \<le> scan_exponent t i"
  using skip_digits_ge [of "i + 1" t] skip_digits_ge [of "i + 2" t]
  by (auto simp: scan_exponent_def Let_def)

lemma scan_number_progress:
  assumes "starts_number t i dot" "0 \<le> scan_number t i dot"
  shows "i < nat (scan_number t i dot)"
proof -
  let ?f = "scan_fraction t (skip_digits t i) dot"
  have f: "0 \<le> ?f" using assms(2) by (auto simp: scan_number_def Let_def split: if_splits)
  have "int i < ?f"
  proof (cases "is_digit_code (code_at t i)")
    case True
    then have "i < skip_digits t i" by (rule skip_digits_gt)
    then show ?thesis
      using f skip_digits_ge [of "skip_digits t i + 1" t]
      by (auto simp: scan_fraction_def split: if_splits)
  next
    case False
    then have "skip_digits t i = i" by (simp add: skip_digits.simps)
    then show ?thesis
      using assms(1) False skip_digits_ge [of "i + 1" t]
      by (auto simp: scan_fraction_def starts_number_def)
  qed
  moreover have "nat ?f \<le> scan_exponent t (nat ?f)" by (rule scan_exponent_ge)
  ultimately show ?thesis
    using assms(2) by (auto simp: scan_number_def Let_def split: if_splits)
qed

section \<open>Tokens\<close>

datatype token_kind =
    NumberTok | NameTok | PlusTok | MinusTok | StarTok | SlashTok | CaretTok | BangTok
  | OpenTok | CloseTok | BarTok | EqualsTok | SepTok | RadicalTok | EndTok

record expr_token =
  tk_kind :: token_kind
  tk_start :: nat
  tk_end :: nat
  tk_text :: js_string

text \<open>The table \<open>SINGLE\<close>, by code point.\<close>

definition single_kind :: "int \<Rightarrow> token_kind option" where
  "single_kind code =
     (if code = 43 then Some PlusTok
      else if code = 45 \<or> code = 8722 then Some MinusTok
      else if code = 42 \<or> code = 215 \<or> code = 183 then Some StarTok
      else if code = 47 \<or> code = 247 then Some SlashTok
      else if code = 94 then Some CaretTok
      else if code = 33 then Some BangTok
      else if code = 40 then Some OpenTok
      else if code = 41 then Some CloseTok
      else if code = 124 then Some BarTok
      else if code = 61 then Some EqualsTok
      else if code = 8730 then Some RadicalTok
      else None)"

text \<open>\<open>charAt\<close>: the code point at \<open>index\<close> as a text, one code unit or a surrogate pair.\<close>

definition char_at :: "js_string \<Rightarrow> nat \<Rightarrow> js_string" where
  "char_at t i = take (if code_at t i > 0xFFFF then 2 else 1) (drop i t)"

definition push_token ::
  "nat \<Rightarrow> expr_token list \<Rightarrow> expr_token \<Rightarrow> expr_error + expr_token list" where
  "push_token max_tokens tokens tok =
     (if max_tokens \<le> length tokens
      then Inl (LimitError TokensBudget max_tokens (length tokens + 1))
      else Inr (tokens @ [tok]))"

text \<open>\<open>text.replace(decimal, '.')\<close>: the first decimal mark becomes a point.\<close>

fun replace_first :: "code_unit \<Rightarrow> code_unit \<Rightarrow> js_string \<Rightarrow> js_string" where
  "replace_first a b [] = []"
| "replace_first a b (u # us) = (if u = a then b # us else u # replace_first a b us)"

text \<open>The end of the name that begins at \<open>index\<close>: letters and digits.\<close>

function name_end :: "js_string \<Rightarrow> nat \<Rightarrow> nat" where
  "name_end t stop =
     (if stop < length t \<and> (letter_code (code_at t stop) \<or> is_digit_code (code_at t stop))
      then name_end t (stop + 1) else stop)"
  by pat_completeness auto

termination name_end
  by (relation "measure (\<lambda>(t, i). length t - i)") auto

declare name_end.simps [simp del]

lemma name_end_ge: "i \<le> name_end t i"
proof (induction t i rule: name_end.induct)
  case (1 t i)
  then show ?case using name_end.simps [of t i] by (auto intro: Suc_leD)
qed

text \<open>One token at \<open>index\<close>, where no space stands: the token and where the lexer goes on.\<close>

definition lex_one :: "js_string \<Rightarrow> syntax_marks \<Rightarrow> nat \<Rightarrow> expr_error + expr_token" where
  "lex_one source marks index =
     (let dot = code_at (sy_decimal marks) 0;
          separator = code_at (sy_separator marks) 0;
          code = code_at source index
      in if starts_number source index dot then
           let stop = scan_number source index dot
           in if stop < 0 then
                let bad_end = nat (- stop - 1); found = slice index bad_end source
                in Inl (ParseError BadNumber \<lparr>sp_start = index, sp_end = bad_end\<rparr>
                     [js ''digit''] found)
              else
                let raw = slice index (nat stop) source
                in Inr \<lparr>tk_kind = NumberTok, tk_start = index, tk_end = nat stop,
                     tk_text = (if dot = DOT then raw
                                else replace_first (hd (sy_decimal marks)) (hd (js ''.'')) raw)\<rparr>
         else if letter_code code then
           let stop = name_end source (index + 1)
           in Inr \<lparr>tk_kind = NameTok, tk_start = index, tk_end = stop,
                tk_text = slice index stop source\<rparr>
         else if code = PI then
           Inr \<lparr>tk_kind = NameTok, tk_start = index, tk_end = index + 1, tk_text = js ''pi''\<rparr>
         else if code = separator then
           Inr \<lparr>tk_kind = SepTok, tk_start = index, tk_end = index + 1,
             tk_text = sy_separator marks\<rparr>
         else let char = char_at source index
              in case single_kind code of
                   None \<Rightarrow> Inl (ParseError UnexpectedToken
                             \<lparr>sp_start = index, sp_end = index + length char\<rparr> [] char)
                 | Some kind \<Rightarrow> Inr \<lparr>tk_kind = kind, tk_start = index, tk_end = index + 1,
                                 tk_text = char\<rparr>)"

lemma lex_one_progress:
  assumes "lex_one source marks i = Inr tok"
  shows "tk_start tok = i" "i < tk_end tok"
proof -
  have n: "i < name_end source (i + 1)" using name_end_ge [of "i + 1" source] by simp
  note p = scan_number_progress [of source i "code_at (sy_decimal marks) 0"]
  show "tk_start tok = i" "i < tk_end tok"
    using assms n p by (auto simp: lex_one_def Let_def split: if_splits option.splits)
qed

function tokenize_loop ::
  "js_string \<Rightarrow> syntax_marks \<Rightarrow> nat \<Rightarrow> nat \<Rightarrow> expr_token list \<Rightarrow> expr_error + expr_token list" where
  "tokenize_loop source marks max_tokens index tokens =
     (if length source \<le> index then Inr tokens
      else if space_code (code_at source index)
      then tokenize_loop source marks max_tokens (index + 1) tokens
      else rbind (lex_one source marks index) (\<lambda>tok.
           rbind (push_token max_tokens tokens tok) (\<lambda>tokens'.
           tokenize_loop source marks max_tokens (tk_end tok) tokens')))"
  by pat_completeness auto

termination tokenize_loop
  by (relation "measure (\<lambda>(source, _, _, i, _). length source - i)")
    (auto dest: lex_one_progress intro: diff_less_mono2)

declare tokenize_loop.simps [simp del]

definition end_token :: "js_string \<Rightarrow> expr_token" where
  "end_token source =
     \<lparr>tk_kind = EndTok, tk_start = length source, tk_end = length source, tk_text = []\<rparr>"

definition tokenize :: "js_string \<Rightarrow> syntax_marks \<Rightarrow> nat \<Rightarrow> expr_error + expr_token list" where
  "tokenize source marks max_tokens =
     rbind (tokenize_loop source marks max_tokens 0 []) (\<lambda>tokens. Inr (tokens @ [end_token source]))"

end
