(* ===== verification/ExprParser.thy ===== *)
theory ExprParser
  imports ExprLexer
begin

text \<open>
  The recursive-descent parser of \<open>packages/expr/src/parser.ts\<close>. The class's mutable fields
  are the record \<open>parser_state\<close>, threaded through the methods; its constant fields are the
  record \<open>parser_env\<close>. The methods are mutually recursive with no bound on their own: that
  they end is shown here, from the tokens each of them consumes.
\<close>

section \<open>The parser's state\<close>

datatype bracket_context = ParenContext | BarContext

record parser_env =
  pe_source :: js_string
  pe_tokens :: "expr_token list"
  pe_language :: language
  pe_variables :: "js_string list option"
  pe_limits :: budgets

record parser_state =
  ps_index :: nat
  ps_nodes :: nat
  ps_nest :: nat
  ps_depth :: nat
  ps_contexts :: "bracket_context list"
  ps_warnings :: "expr_warning list"

definition initial_state :: parser_state where
  "initial_state = \<lparr>ps_index = 0, ps_nodes = 0, ps_nest = 0, ps_depth = 0, ps_contexts = [],
     ps_warnings = []\<rparr>"

type_synonym 'a parsed = "expr_error + 'a \<times> parser_state"

definition current_token :: "parser_env \<Rightarrow> parser_state \<Rightarrow> expr_token" where
  "current_token G s =
     (if ps_index s < length (pe_tokens G) then pe_tokens G ! ps_index s
      else end_token (pe_source G))"

abbreviation current_kind :: "parser_env \<Rightarrow> parser_state \<Rightarrow> token_kind" where
  "current_kind G s \<equiv> tk_kind (current_token G s)"

definition advance :: "parser_env \<Rightarrow> parser_state \<Rightarrow> parser_state" where
  "advance G s = (if current_kind G s = EndTok then s else s\<lparr>ps_index := ps_index s + 1\<rparr>)"

definition token_text :: "parser_env \<Rightarrow> expr_token \<Rightarrow> js_string" where
  "token_text G tok =
     (if tk_kind tok = EndTok then js ''end of input''
      else slice (tk_start tok) (tk_end tok) (pe_source G))"

definition token_span :: "expr_token \<Rightarrow> span" where
  "token_span tok = \<lparr>sp_start = tk_start tok, sp_end = tk_end tok\<rparr>"

definition parse_error ::
  "parser_env \<Rightarrow> error_code \<Rightarrow> expr_token \<Rightarrow> js_string list \<Rightarrow> expr_error" where
  "parse_error G code tok expected = ParseError code (token_span tok) expected (token_text G tok)"

text \<open>\<open>finish\<close>: counts the node, checks the budgets, records the depth.\<close>

definition finish :: "parser_env \<Rightarrow> expr_node \<Rightarrow> nat \<Rightarrow> parser_state \<Rightarrow> expr_node parsed" where
  "finish G node depth s =
     (let count = ps_nodes s + 1
      in if count > bg_nodes (pe_limits G)
         then Inl (LimitError NodesBudget (bg_nodes (pe_limits G)) count)
         else if depth > bg_depth (pe_limits G)
         then Inl (LimitError DepthBudget (bg_depth (pe_limits G)) depth)
         else Inr (node, s\<lparr>ps_nodes := count, ps_depth := depth\<rparr>))"

definition enter :: "parser_env \<Rightarrow> parser_state \<Rightarrow> expr_error + parser_state" where
  "enter G s =
     (if ps_nest s + 1 \<ge> bg_depth (pe_limits G)
      then Inl (LimitError DepthBudget (bg_depth (pe_limits G)) (ps_nest s + 2))
      else Inr (s\<lparr>ps_nest := ps_nest s + 1\<rparr>))"

definition leave_nest :: "parser_state \<Rightarrow> parser_state" where
  "leave_nest s = s\<lparr>ps_nest := ps_nest s - 1\<rparr>"

text \<open>The stack of contexts has its top at the head.\<close>

definition push_context :: "bracket_context \<Rightarrow> parser_state \<Rightarrow> parser_state" where
  "push_context c s = s\<lparr>ps_contexts := c # ps_contexts s\<rparr>"

definition pop_context :: "parser_state \<Rightarrow> parser_state" where
  "pop_context s = s\<lparr>ps_contexts := tl (ps_contexts s)\<rparr>"

definition join_spans :: "span \<Rightarrow> span \<Rightarrow> span" where
  "join_spans a b = \<lparr>sp_start = sp_start a, sp_end = sp_end b\<rparr>"

definition binary ::
  "parser_env \<Rightarrow> binary_op \<Rightarrow> expr_node \<Rightarrow> expr_node \<Rightarrow> bool \<Rightarrow> nat \<Rightarrow> parser_state
   \<Rightarrow> expr_node parsed" where
  "binary G op left right implicit left_depth s =
     finish G (BinaryNode op left right implicit (join_spans (node_span left) (node_span right)))
       (max left_depth (ps_depth s) + 1) s"

section \<open>Checks that consume nothing\<close>

definition require_function ::
  "parser_env \<Rightarrow> js_string \<Rightarrow> expr_token \<Rightarrow> nat \<Rightarrow> expr_error + unit" where
  "require_function G fn tok arity =
     (case function_spec (pe_language G) fn of
        None \<Rightarrow> Inl (parse_error G NotAFunction tok [fn])
      | Some spec \<Rightarrow>
          if fs_min spec > arity \<or> fs_max spec < arity
          then Inl (parse_error G NotAFunction tok [fn]) else Inr ())"

definition expect_close ::
  "parser_env \<Rightarrow> expr_token \<Rightarrow> js_string list \<Rightarrow> parser_state \<Rightarrow> expr_token parsed" where
  "expect_close G opened expected s =
     (let tok = current_token G s
      in if tk_kind tok = CloseTok then Inr (tok, advance G s)
         else if tk_kind tok = EndTok then Inl (parse_error G UnbalancedParen opened [js '')''])
         else Inl (parse_error G UnexpectedToken tok expected))"

text \<open>\<open>startsImplicitOperand\<close>: juxtaposition.\<close>

definition starts_implicit :: "parser_state \<Rightarrow> token_kind \<Rightarrow> bool" where
  "starts_implicit s kind \<longleftrightarrow>
     kind = NameTok \<or> kind = OpenTok \<or> kind = RadicalTok
     \<or> (kind = BarTok \<and> (case ps_contexts s of c # _ \<Rightarrow> c \<noteq> BarContext | [] \<Rightarrow> True))"

definition known_value :: "parser_env \<Rightarrow> js_string \<Rightarrow> bool" where
  "known_value G name \<longleftrightarrow>
     constant_spec (pe_language G) name \<noteq> None
     \<or> (case pe_variables G of None \<Rightarrow> False | Some vs \<Rightarrow> name \<in> set vs)"

definition is_value :: "parser_env \<Rightarrow> js_string \<Rightarrow> bool" where
  "is_value G name \<longleftrightarrow> known_value G name \<or> split_letters name (known_value G) \<noteq> None"

fun unary_core :: "expr_node \<Rightarrow> expr_node" where
  "unary_core (UnaryNode _ arg _) = unary_core arg"
| "unary_core n = n"

text \<open>The texts of a warning: \<open>\<up>\<close> stands for the mark between the two operands.\<close>

definition implicit_warning ::
  "parser_env \<Rightarrow> expr_node \<Rightarrow> expr_node \<Rightarrow> warning_code \<Rightarrow> string \<Rightarrow> expr_node \<Rightarrow> expr_node
   \<Rightarrow> expr_node \<Rightarrow> expr_warning" where
  "implicit_warning G left right code mark core core_left core_right =
     (let source_of = (\<lambda>n. slice (sp_start (node_span n)) (sp_end (node_span n)) (pe_source G));
          prefix = slice (sp_start (node_span left)) (sp_start (node_span core)) (pe_source G);
          a = source_of core_left; b = source_of core_right; x = source_of right;
          span = join_spans (node_span left) (node_span right);
          reading = slice (sp_start span) (sp_end span) (pe_source G);
          quote = [0x22]
      in \<lparr>w_code = code, w_span = span,
          w_message = quote @ reading @ quote @ js '' reads as '' @ prefix @ js ''('' @ a @ js mark
            @ b @ js '')'' @ [0x00B7] @ x
            @ (if code = ImplicitAfterDivision
               then js '': implicit multiplication binds like * and /, left to right''
               else js '': the exponent ends before the implicit multiplication''),
          w_hint = js ''write '' @ prefix @ js ''('' @ a @ js mark @ b @ js '')'' @ x @ js '' or ''
            @ prefix @ a @ js mark @ js ''('' @ b @ x @ js '')''\<rparr>)"

definition warn_implicit ::
  "parser_env \<Rightarrow> expr_node \<Rightarrow> expr_node \<Rightarrow> parser_state \<Rightarrow> parser_state" where
  "warn_implicit G left right s =
     (case unary_core left of
        BinaryNode op a b implicit sp \<Rightarrow>
          if \<not> implicit \<and> (op = Div \<or> op = Pow)
          then s\<lparr>ps_warnings := ps_warnings s @
                 [implicit_warning G left right
                    (if op = Div then ImplicitAfterDivision else ImplicitAfterPower)
                    (if op = Div then ''/'' else ''^'') (BinaryNode op a b implicit sp) a b]\<rparr>
          else s
      | _ \<Rightarrow> s)"

text \<open>The tokens not yet consumed: what every recursion of the parser decreases.\<close>

definition remaining :: "parser_env \<Rightarrow> parser_state \<Rightarrow> nat" where
  "remaining G s = length (pe_tokens G) - ps_index s"

lemma remaining_frame [simp]:
  "remaining G (leave_nest s) = remaining G s"
  "remaining G (push_context c s) = remaining G s"
  "remaining G (pop_context s) = remaining G s"
  "remaining G (warn_implicit G left right s) = remaining G s"
  by (auto simp: remaining_def leave_nest_def push_context_def pop_context_def warn_implicit_def
      split: expr_node.splits)

lemma remaining_advance: "current_kind G s \<noteq> EndTok \<Longrightarrow> remaining G (advance G s) < remaining G s"
  by (auto simp: remaining_def advance_def current_token_def end_token_def split: if_splits)

lemma remaining_advance_le: "remaining G (advance G s) \<le> remaining G s"
  by (auto simp: remaining_def advance_def)

lemma remaining_finish: "finish G node depth s = Inr (n, s') \<Longrightarrow> remaining G s' = remaining G s"
  by (auto simp: finish_def Let_def remaining_def split: if_splits)

lemma remaining_enter: "enter G s = Inr s' \<Longrightarrow> remaining G s' = remaining G s"
  by (auto simp: enter_def remaining_def split: if_splits)

lemma remaining_binary: "binary G op l r i d s = Inr (n, s') \<Longrightarrow> remaining G s' = remaining G s"
  by (auto simp: binary_def dest: remaining_finish)

lemma remaining_close: "expect_close G opened x s = Inr (tok, s') \<Longrightarrow> remaining G s' < remaining G s"
  by (auto simp: expect_close_def Let_def remaining_advance split: if_splits)

lemmas remaining_rules = remaining_finish remaining_enter remaining_binary remaining_close

function postfix_loop :: "parser_env \<Rightarrow> expr_node \<Rightarrow> parser_state \<Rightarrow> expr_node parsed" where
  "postfix_loop G node s =
     (let tok = current_token G s
      in if tk_kind tok = BangTok
         then let s' = advance G s
              in rbind (finish G (FactorialNode node
                     \<lparr>sp_start = sp_start (node_span node), sp_end = tk_end tok\<rparr>)
                     (ps_depth s' + 1) s')
                   (\<lambda>(node', s''). postfix_loop G node' s'')
         else Inr (node, s))"
  by pat_completeness auto

termination postfix_loop
  by (relation "measure (\<lambda>(G, _, s). remaining G s)") (auto simp: remaining_finish remaining_advance)

declare postfix_loop.simps [simp del]

section \<open>The methods\<close>

definition operand_kinds :: "js_string list" where
  "operand_kinds = [js ''number'', js ''name'', js ''('', js [CHR 0x7C], [0x221A], js ''-'', js ''+'']"

function
  parse_sum :: "parser_env \<Rightarrow> parser_state \<Rightarrow> expr_node parsed" and
  parse_sum_loop :: "parser_env \<Rightarrow> expr_node \<Rightarrow> parser_state \<Rightarrow> expr_node parsed" and
  parse_product :: "parser_env \<Rightarrow> parser_state \<Rightarrow> expr_node parsed" and
  parse_product_loop :: "parser_env \<Rightarrow> expr_node \<Rightarrow> parser_state \<Rightarrow> expr_node parsed" and
  parse_unary :: "parser_env \<Rightarrow> parser_state \<Rightarrow> expr_node parsed" and
  parse_power :: "parser_env \<Rightarrow> parser_state \<Rightarrow> expr_node parsed" and
  parse_postfix :: "parser_env \<Rightarrow> parser_state \<Rightarrow> expr_node parsed" and
  parse_primary :: "parser_env \<Rightarrow> parser_state \<Rightarrow> expr_node parsed" and
  parse_name :: "parser_env \<Rightarrow> parser_state \<Rightarrow> expr_node parsed" and
  parse_call :: "parser_env \<Rightarrow> expr_token \<Rightarrow> nat \<times> nat \<Rightarrow> parser_state \<Rightarrow> expr_node parsed" and
  parse_args :: "parser_env \<Rightarrow> expr_node list \<Rightarrow> nat \<Rightarrow> parser_state \<Rightarrow> (expr_node list \<times> nat) parsed" and
  parse_group :: "parser_env \<Rightarrow> parser_state \<Rightarrow> expr_node parsed" and
  parse_bars :: "parser_env \<Rightarrow> parser_state \<Rightarrow> expr_node parsed"
where
  "parse_sum G s = rbind (parse_product G s) (\<lambda>(left, s'). parse_sum_loop G left s')"
| "parse_sum_loop G left s =
     (let kind = current_kind G s
      in if kind = PlusTok \<or> kind = MinusTok
         then rbind (parse_product G (advance G s)) (\<lambda>(right, s1).
              rbind (binary G (if kind = PlusTok then Add else Sub) left right False (ps_depth s) s1)
                (\<lambda>(left', s2). parse_sum_loop G left' s2))
         else Inr (left, s))"
| "parse_product G s = rbind (parse_unary G s) (\<lambda>(left, s'). parse_product_loop G left s')"
| "parse_product_loop G left s =
     (let tok = current_token G s; kind = tk_kind tok
      in if kind = StarTok \<or> kind = SlashTok
         then rbind (parse_unary G (advance G s)) (\<lambda>(right, s1).
              rbind (binary G (if kind = StarTok then Mul else Div) left right False (ps_depth s) s1)
                (\<lambda>(left', s2). parse_product_loop G left' s2))
         else if starts_implicit s kind
         then rbind (parse_power G s) (\<lambda>(right, s1).
              rbind (binary G Mul left right True (ps_depth s) (warn_implicit G left right s1))
                (\<lambda>(left', s2). parse_product_loop G left' s2))
         else if kind = NumberTok
         then Inl (parse_error G UnexpectedToken tok [js ''operator''])
         else Inr (left, s))"
| "parse_unary G s =
     (let tok = current_token G s
      in if tk_kind tok \<noteq> MinusTok \<and> tk_kind tok \<noteq> PlusTok then parse_power G s
         else rbind (enter G (advance G s)) (\<lambda>s1.
              rbind (parse_unary G s1) (\<lambda>(arg, s2).
              let s3 = leave_nest s2
              in finish G (UnaryNode (if tk_kind tok = MinusTok then UMinus else UPlus) arg
                   \<lparr>sp_start = tk_start tok, sp_end = sp_end (node_span arg)\<rparr>)
                   (ps_depth s3 + 1) s3)))"
| "parse_power G s =
     rbind (parse_postfix G s) (\<lambda>(base, s1).
       if current_kind G s1 \<noteq> CaretTok then Inr (base, s1)
       else rbind (enter G (advance G s1)) (\<lambda>s2.
            rbind (parse_unary G s2) (\<lambda>(exponent, s3).
            binary G Pow base exponent False (ps_depth s1) (leave_nest s3))))"
| "parse_postfix G s = rbind (parse_primary G s) (\<lambda>(node, s'). postfix_loop G node s')"
| "parse_primary G s =
     (let tok = current_token G s
      in case tk_kind tok of
           NumberTok \<Rightarrow> finish G (NumberNode (tk_text tok) (token_span tok)) 1 (advance G s)
         | NameTok \<Rightarrow> parse_name G s
         | OpenTok \<Rightarrow> parse_group G s
         | BarTok \<Rightarrow> parse_bars G s
         | RadicalTok \<Rightarrow>
             rbind (require_function G (js ''sqrt'') tok 1) (\<lambda>_.
             rbind (enter G (advance G s)) (\<lambda>s1.
             rbind (parse_primary G s1) (\<lambda>(arg, s2).
             let s3 = leave_nest s2
             in finish G (CallNode (js ''sqrt'') [arg] RadicalNotation
                  \<lparr>sp_start = tk_start tok, sp_end = sp_end (node_span arg)\<rparr>)
                  (ps_depth s3 + 1) s3)))
         | EndTok \<Rightarrow> Inl (parse_error G UnexpectedEnd tok operand_kinds)
         | _ \<Rightarrow> Inl (parse_error G UnexpectedToken tok operand_kinds))"
| "parse_name G s =
     (let tok = current_token G s; s1 = advance G s; name = tk_text tok; next = current_token G s1
      in case function_spec (pe_language G) name of
           Some spec \<Rightarrow>
             if tk_kind next = OpenTok then parse_call G tok (fs_min spec, fs_max spec) s1
             else if tk_kind next = CaretTok
             then Inl (parse_error G UnexpectedToken next [js ''(''])
             else Inl (parse_error G (if tk_kind next = EndTok then UnexpectedEnd
                                      else UnexpectedToken) next [js ''(''])
         | None \<Rightarrow>
             if tk_kind next = OpenTok \<and> \<not> is_value G name
             then Inl (parse_error G NotAFunction tok (function_names (pe_language G)))
             else finish G (NameNode name (token_span tok)) 1 s1)"
| "parse_call G name_token arity s =
     (let opened = current_token G s
      in rbind (enter G (advance G s)) (\<lambda>s1.
         let s2 = push_context ParenContext s1
         in rbind (if current_kind G s2 \<noteq> CloseTok then parse_args G [] 0 s2
                   else Inr (([], 0), s2)) (\<lambda>((args, deepest), s3).
            rbind (expect_close G opened [js ''sep'', js '')''] s3) (\<lambda>(close, s4).
            let s5 = leave_nest (pop_context s4);
                sp = \<lparr>sp_start = tk_start name_token, sp_end = tk_end close\<rparr>
            in if length args < fst arity \<or> length args > snd arity
               then Inl (ParseError ArityError sp
                      [if fst arity = snd arity then number_text (fst arity)
                       else number_text (fst arity) @ js '' to '' @ number_text (snd arity)]
                      (number_text (length args)))
               else finish G (CallNode (tk_text name_token) args CallNotation sp)
                      (deepest + 1) s5))))"
| "parse_args G args deepest s =
     rbind (parse_sum G s) (\<lambda>(arg, s1).
       if current_kind G s1 \<noteq> SepTok then Inr ((args @ [arg], max deepest (ps_depth s1)), s1)
       else parse_args G (args @ [arg]) (max deepest (ps_depth s1)) (advance G s1))"
| "parse_group G s =
     (let opened = current_token G s
      in rbind (enter G (advance G s)) (\<lambda>s1.
         rbind (parse_sum G (push_context ParenContext s1)) (\<lambda>(inner, s2).
         rbind (expect_close G opened [js '')''] s2) (\<lambda>(close, s3).
         finish G (GroupNode inner \<lparr>sp_start = tk_start opened, sp_end = tk_end close\<rparr>)
           (ps_depth s2 + 1) (leave_nest (pop_context s3))))))"
| "parse_bars G s =
     (let opened = current_token G s; s1 = advance G s
      in rbind (require_function G (js ''abs'') opened 1) (\<lambda>_.
         let next = current_kind G s1
         in if next = EndTok \<or> next = CloseTok \<or> next = SepTok \<or> next = EqualsTok
            then Inl (parse_error G UnbalancedBar opened [])
            else rbind (enter G s1) (\<lambda>s2.
                 rbind (parse_sum G (push_context BarContext s2)) (\<lambda>(inner, s3).
                 if current_kind G s3 \<noteq> BarTok
                 then Inl (parse_error G UnbalancedBar opened [js [CHR 0x7C]])
                 else let close = current_token G s3
                      in finish G (CallNode (js ''abs'') [inner] BarsNotation
                           \<lparr>sp_start = tk_start opened, sp_end = tk_end close\<rparr>)
                           (ps_depth s3 + 1) (leave_nest (pop_context (advance G s3)))))))"
  by pat_completeness auto

text \<open>
  A method shrinks the tokens when each value it returns leaves fewer than it was given, and
  keeps them when it leaves no more. Under the domain predicate of the mutual recursion every
  method shrinks them and the two loops keep them.
\<close>

definition shrinks :: "parser_env \<Rightarrow> parser_state \<Rightarrow> 'a parsed \<Rightarrow> bool" where
  "shrinks G s r \<longleftrightarrow> (\<forall>x s'. r = Inr (x, s') \<longrightarrow> remaining G s' < remaining G s)"

definition keeps :: "parser_env \<Rightarrow> parser_state \<Rightarrow> 'a parsed \<Rightarrow> bool" where
  "keeps G s r \<longleftrightarrow> (\<forall>x s'. r = Inr (x, s') \<longrightarrow> remaining G s' \<le> remaining G s)"

lemma shrinksD: "shrinks G s r \<Longrightarrow> r = Inr (x, s') \<Longrightarrow> remaining G s' < remaining G s"
  by (simp add: shrinks_def)

lemma keepsD: "keeps G s r \<Longrightarrow> r = Inr (x, s') \<Longrightarrow> remaining G s' \<le> remaining G s"
  by (simp add: keeps_def)

lemma postfix_keeps: "keeps G s (postfix_loop G node s)"
proof (induction G node s rule: postfix_loop.induct)
  case (1 G node s)
  have IH: "keeps G s2 (postfix_loop G n2 s2)"
    if "current_kind G s = BangTok"
      "finish G (FactorialNode node \<lparr>sp_start = sp_start (node_span node), sp_end = tk_end (current_token G s)\<rparr>)
         (ps_depth (advance G s) + 1) (advance G s) = Inr (n2, s2)" for n2 s2
    using "1.IH" [OF refl that(1) refl that(2) refl] .
  show ?case
    unfolding keeps_def postfix_loop.simps [of G node s]
    using remaining_advance_le [of G s] keepsD [OF IH]
    by (fastforce simp: Let_def result_simps dest: remaining_finish split: if_splits)
qed

abbreviation parser_dom where
  "parser_dom \<equiv> parse_sum_parse_sum_loop_parse_product_parse_product_loop_parse_unary_parse_power_parse_postfix_parse_primary_parse_name_parse_call_parse_args_parse_group_parse_bars_dom"

lemma parser_progress:
  "parser_dom (Inl (Inl (Inl (G1, s1)))) \<Longrightarrow> shrinks G1 s1 (parse_sum G1 s1)"
  "parser_dom (Inl (Inl (Inr (Inl (G2, l2, s2))))) \<Longrightarrow> keeps G2 s2 (parse_sum_loop G2 l2 s2)"
  "parser_dom (Inl (Inl (Inr (Inr (G3, s3))))) \<Longrightarrow> shrinks G3 s3 (parse_product G3 s3)"
  "parser_dom (Inl (Inr (Inl (G4, l4, s4)))) \<Longrightarrow> keeps G4 s4 (parse_product_loop G4 l4 s4)"
  "parser_dom (Inl (Inr (Inr (Inl (G5, s5))))) \<Longrightarrow> shrinks G5 s5 (parse_unary G5 s5)"
  "parser_dom (Inl (Inr (Inr (Inr (G6, s6))))) \<Longrightarrow> shrinks G6 s6 (parse_power G6 s6)"
  "parser_dom (Inr (Inl (Inl (G7, s7)))) \<Longrightarrow> shrinks G7 s7 (parse_postfix G7 s7)"
  "parser_dom (Inr (Inl (Inr (Inl (G8, s8))))) \<Longrightarrow> shrinks G8 s8 (parse_primary G8 s8)"
  "parser_dom (Inr (Inl (Inr (Inr (G9, s9))))) \<Longrightarrow>
     current_kind G9 s9 = NameTok \<longrightarrow> shrinks G9 s9 (parse_name G9 s9)"
  "parser_dom (Inr (Inr (Inl (Inl (G10, t10, r10, s10))))) \<Longrightarrow> shrinks G10 s10 (parse_call G10 t10 r10 s10)"
  "parser_dom (Inr (Inr (Inl (Inr (G11, as11, d11, s11))))) \<Longrightarrow>
     shrinks G11 s11 (parse_args G11 as11 d11 s11)"
  "parser_dom (Inr (Inr (Inr (Inl (G12, s12))))) \<Longrightarrow> shrinks G12 s12 (parse_group G12 s12)"
  "parser_dom (Inr (Inr (Inr (Inr (G13, s13))))) \<Longrightarrow> shrinks G13 s13 (parse_bars G13 s13)"
proof (induction rule: parse_sum_parse_sum_loop_parse_product_parse_product_loop_parse_unary_parse_power_parse_postfix_parse_primary_parse_name_parse_call_parse_args_parse_group_parse_bars.pinduct)
  case (1 G s)
  show ?case unfolding parse_sum.psimps [OF 1(1)] shrinks_def
    using shrinksD [OF "1.IH"(1)] keepsD [OF "1.IH"(2) [OF _ refl]]
    by (fastforce simp: result_simps)
next
  case (2 G left s)
  show ?case unfolding parse_sum_loop.psimps [OF 2(1)] keeps_def
    using shrinksD [OF "2.IH"(1) [OF refl]] keepsD [OF "2.IH"(2) [OF refl _ _ refl _ refl]]
      remaining_advance_le [of G s]
    by (fastforce simp: result_simps Let_def dest: remaining_binary split: if_splits)
next
  case (3 G s)
  show ?case unfolding parse_product.psimps [OF 3(1)] shrinks_def
    using shrinksD [OF "3.IH"(1)] keepsD [OF "3.IH"(2) [OF _ refl]]
    by (fastforce simp: result_simps)
next
  case (4 G left s)
  show ?case unfolding parse_product_loop.psimps [OF 4(1)] keeps_def
    using shrinksD [OF "4.IH"(1) [OF refl refl]] keepsD [OF "4.IH"(2) [OF refl refl _ _ refl _ refl]]
      shrinksD [OF "4.IH"(3) [OF refl refl]] keepsD [OF "4.IH"(4) [OF refl refl _ _ _ refl _ refl]]
      remaining_advance_le [of G s]
    by (fastforce simp: result_simps Let_def dest: remaining_binary split: if_splits)
next
  case (5 G s)
  show ?case unfolding parse_unary.psimps [OF 5(1)] shrinks_def
    using shrinksD [OF "5.IH"(1) [OF refl]] shrinksD [OF "5.IH"(2) [OF refl]]
      remaining_advance_le [of G s]
    by (fastforce simp: result_simps Let_def dest: remaining_enter remaining_finish split: if_splits)
next
  case (6 G s)
  show ?case unfolding parse_power.psimps [OF 6(1)] shrinks_def
  proof (intro allI impI)
    fix x s' assume r: "rbind (parse_postfix G s) (\<lambda>(base, s1).
       if current_kind G s1 \<noteq> CaretTok then Inr (base, s1)
       else rbind (enter G (advance G s1)) (\<lambda>s2.
            rbind (parse_unary G s2) (\<lambda>(exponent, s3).
            binary G Pow base exponent False (ps_depth s1) (leave_nest s3)))) = Inr (x, s')"
    then obtain base s1 where b: "parse_postfix G s = Inr (base, s1)"
      by (auto simp: result_simps)
    show "remaining G s' < remaining G s"
      using r b shrinksD [OF "6.IH"(1) b] shrinksD [OF "6.IH"(2) [OF b refl]] remaining_advance_le [of G s1]
      by (fastforce simp: result_simps dest: remaining_enter remaining_binary split: if_splits)
  qed
next
  case (7 G s)
  show ?case unfolding parse_postfix.psimps [OF 7(1)] shrinks_def
    using shrinksD [OF "7.IH"(1)] keepsD [OF postfix_keeps]
    by (fastforce simp: result_simps)
next
  case (8 G s)
  show ?case unfolding parse_primary.psimps [OF 8(1)] shrinks_def
    using shrinksD [OF mp [OF "8.IH"(1) [OF refl]]] shrinksD [OF "8.IH"(2) [OF refl]]
      shrinksD [OF "8.IH"(3) [OF refl]] shrinksD [OF "8.IH"(4) [OF refl]]
      remaining_advance [of G s]
    by (fastforce simp: result_simps Let_def dest: remaining_enter remaining_finish
        split: token_kind.splits)
next
  case (9 G s)
  show ?case unfolding parse_name.psimps [OF 9(1)] shrinks_def
    using shrinksD [OF "9.IH"(1) [OF refl refl refl refl]] remaining_advance [of G s]
    by (fastforce simp: Let_def dest: remaining_finish split: option.splits if_splits)
next
  case (10 G t r s)
  have close: "remaining G s3 < remaining G s4"
    if "expect_close G (current_token G s) x s4 = Inr (tok, s3)" for x s4 tok s3
    using that by (rule remaining_close)
  show ?case unfolding parse_call.psimps [OF 10(1)] shrinks_def
    using shrinksD [OF "10.IH"(1) [OF refl _ refl]] remaining_advance_le [of G s]
    by (fastforce simp: result_simps Let_def dest: remaining_enter remaining_finish close split: if_splits)
next
  case (11 G as d s)
  show ?case unfolding parse_args.psimps [OF 11(1)] shrinks_def
  proof (intro allI impI)
    fix x s' assume r: "rbind (parse_sum G s) (\<lambda>(arg, s1).
       if current_kind G s1 \<noteq> SepTok then Inr ((as @ [arg], max d (ps_depth s1)), s1)
       else parse_args G (as @ [arg]) (max d (ps_depth s1)) (advance G s1)) = Inr (x, s')"
    then obtain arg s1 where b: "parse_sum G s = Inr (arg, s1)"
      by (auto simp: result_simps)
    show "remaining G s' < remaining G s"
      using r b shrinksD [OF "11.IH"(1) b] shrinksD [OF "11.IH"(2) [OF b refl]] remaining_advance_le [of G s1]
      by (auto split: if_splits)
  qed
next
  case (12 G s)
  show ?case unfolding parse_group.psimps [OF 12(1)] shrinks_def
    using shrinksD [OF "12.IH"(1) [OF refl]] remaining_advance_le [of G s]
    by (fastforce simp: result_simps Let_def dest: remaining_enter remaining_finish remaining_close)
next
  case (13 G s)
  show ?case unfolding parse_bars.psimps [OF 13(1)] shrinks_def
    using shrinksD [OF "13.IH"(1) [OF refl refl _ refl]] remaining_advance_le [of G s]
    by (fastforce simp: result_simps Let_def intro: le_less_trans [OF remaining_advance_le]
        dest: remaining_enter remaining_finish split: if_splits)
qed

text \<open>
  The order of the methods among themselves: a method may call a lower one on the same tokens.
  A group, bars and a name are only read at their own token, which they consume first.
\<close>

definition rank_at :: "parser_env \<Rightarrow> parser_state \<Rightarrow> token_kind \<Rightarrow> nat" where
  "rank_at G s kind = (if current_kind G s = kind then 0 else 20)"

function (sequential) parser_measure where
  "parser_measure (Inl (Inl (Inl (G, s)))) = (remaining G s, 9::nat)"
| "parser_measure (Inl (Inl (Inr (Inl (G, left, s))))) = (remaining G s, 0)"
| "parser_measure (Inl (Inl (Inr (Inr (G, s))))) = (remaining G s, 8)"
| "parser_measure (Inl (Inr (Inl (G, left, s)))) = (remaining G s, 7)"
| "parser_measure (Inl (Inr (Inr (Inl (G, s))))) = (remaining G s, 6)"
| "parser_measure (Inl (Inr (Inr (Inr (G, s))))) = (remaining G s, 5)"
| "parser_measure (Inr (Inl (Inl (G, s)))) = (remaining G s, 4)"
| "parser_measure (Inr (Inl (Inr (Inl (G, s))))) = (remaining G s, 3)"
| "parser_measure (Inr (Inl (Inr (Inr (G, s))))) = (remaining G s, rank_at G s NameTok)"
| "parser_measure (Inr (Inr (Inl (Inl (G, t, r, s))))) = (remaining G s, 11)"
| "parser_measure (Inr (Inr (Inl (Inr (G, as, d, s))))) = (remaining G s, 10)"
| "parser_measure (Inr (Inr (Inr (Inl (G, s))))) = (remaining G s, rank_at G s OpenTok)"
| "parser_measure (Inr (Inr (Inr (Inr (G, s))))) = (remaining G s, rank_at G s BarTok)"
  by pat_completeness auto

termination parser_measure by lexicographic_order

lemma advance_end: "current_kind G s = EndTok \<Longrightarrow> advance G s = s"
  by (simp add: advance_def)

lemma advance_less_iff: "remaining G (advance G s) < remaining G s \<longleftrightarrow> current_kind G s \<noteq> EndTok"
  using remaining_advance [of G s] advance_end [of G s] by auto

lemma shrinks_advance:
  "shrinks G (advance G s) r \<Longrightarrow> r = Inr (x, s') \<Longrightarrow> remaining G s' < remaining G s"
  using remaining_advance_le [of G s] by (auto dest: shrinksD)

lemmas parser_shrinks = parser_progress(1,3,5,6,7,8,10,11,12,13)
lemmas parser_less = parser_shrinks [THEN shrinksD] parser_shrinks [THEN shrinks_advance]

termination parse_sum
  by (relation "inv_image (less_than <*lex*> less_than) parser_measure")
    (auto simp: advance_less_iff advance_end rank_at_def dest!: parser_less remaining_rules
      intro: le_less_trans [OF remaining_advance_le] split: if_splits)

lemmas parser_simps =
  parse_sum.simps parse_sum_loop.simps parse_product.simps parse_product_loop.simps parse_unary.simps
  parse_power.simps parse_postfix.simps parse_primary.simps parse_name.simps parse_call.simps
  parse_args.simps parse_group.simps parse_bars.simps

declare parser_simps [simp del]

section \<open>Parsing a text\<close>

record parse_options =
  po_language :: language
  po_syntax :: syntax_marks
  po_limits :: "limits option"
  po_variables :: "js_string list option"

text \<open>
  The context a parse runs in. \<open>start\<close>: the budgets, the length check, the syntax and the tokens. A syntax is one of the
  presets, or is checked.
\<close>

definition valid_syntax :: "syntax_marks \<Rightarrow> expr_error + syntax_marks" where
  "valid_syntax given =
     (if given = canonical_syntax \<or> given = decimal_comma then Inr given else define_syntax given)"

definition start_parser :: "js_string \<Rightarrow> parse_options \<Rightarrow> expr_error + parser_env" where
  "start_parser t options =
     rbind (resolve_limits (po_limits options)) (\<lambda>limits.
       if length t > bg_length limits
       then Inl (LimitError LengthBudget (bg_length limits) (length t))
       else rbind (valid_syntax (po_syntax options)) (\<lambda>marks.
            rbind (tokenize t marks (bg_tokens limits)) (\<lambda>tokens.
            Inr \<lparr>pe_source = t, pe_tokens = tokens, pe_language = po_language options,
              pe_variables = po_variables options, pe_limits = limits\<rparr>)))"

definition expect_end :: "parser_env \<Rightarrow> parser_state \<Rightarrow> expr_error + unit" where
  "expect_end G s =
     (let tok = current_token G s
      in case tk_kind tok of
           EndTok \<Rightarrow> Inr ()
         | CloseTok \<Rightarrow> Inl (parse_error G UnbalancedParen tok [])
         | _ \<Rightarrow> Inl (parse_error G UnexpectedToken tok [js ''end of input'']))"

definition parse_text :: "js_string \<Rightarrow> parse_options \<Rightarrow> expr_error + expr" where
  "parse_text t options =
     rbind (start_parser t options) (\<lambda>G.
     rbind (parse_sum G initial_state) (\<lambda>(root, s).
     rbind (expect_end G s) (\<lambda>_.
     Inr \<lparr>ex_source = t, ex_root = root, ex_warnings = ps_warnings s\<rparr>)))"

definition parse_equation_text :: "js_string \<Rightarrow> parse_options \<Rightarrow> expr_error + equation" where
  "parse_equation_text t options =
     rbind (start_parser t options) (\<lambda>G.
     rbind (parse_sum G initial_state) (\<lambda>(left, s).
       let equals = current_token G s
       in rbind (if tk_kind equals = EqualsTok then Inr ()
                 else if tk_kind equals = EndTok
                 then Inl (ParseError UnexpectedEnd (token_span equals) [js ''='']
                        (js ''end of input''))
                 else expect_end G s) (\<lambda>_.
          rbind (parse_sum G (advance G s)) (\<lambda>(right, s').
          rbind (expect_end G s') (\<lambda>_.
          Inr \<lparr>eq_source = t, eq_left = left, eq_right = right, eq_warnings = ps_warnings s'\<rparr>)))))"

text \<open>\<open>attempt(..., parseFailure)\<close>: an argument error is thrown, the others are returned.\<close>

definition returned :: "expr_error + 'a \<Rightarrow> expr_error + expr_failure + 'a" where
  "returned r =
     (case r of
        Inl e \<Rightarrow> (case parse_failure e of Inl thrown \<Rightarrow> Inl thrown | Inr f \<Rightarrow> Inr (Inl f))
      | Inr v \<Rightarrow> Inr (Inr v))"

definition parse :: "js_string \<Rightarrow> parse_options \<Rightarrow> expr_error + expr_failure + expr" where
  "parse t options = returned (parse_text t options)"

definition parse_equation ::
  "js_string \<Rightarrow> parse_options \<Rightarrow> expr_error + expr_failure + equation" where
  "parse_equation t options = returned (parse_equation_text t options)"

end
