(* ===== verification/ExprPrint.thy ===== *)
theory ExprPrint
  imports ExprParser
begin

text \<open>
  The printer of \<open>packages/expr/src/print.ts\<close>, both styles, and the reference it is compared
  with: the tree a printed text stands for (\<open>canon_tree\<close>, the tree with the parentheses its levels
  need) and the plain text of such a tree (\<open>shown\<close>).
\<close>

section \<open>Levels\<close>

fun level :: "expr_node \<Rightarrow> nat" where
  "level (BinaryNode op _ _ _ _) =
     (case op of Add \<Rightarrow> 1 | Sub \<Rightarrow> 1 | Pow \<Rightarrow> 4 | Mul \<Rightarrow> 2 | Div \<Rightarrow> 2)"
| "level (UnaryNode _ _ _) = 3"
| "level (FactorialNode _ _) = 5"
| "level (NumberNode _ _) = 6"
| "level (NameNode _ _) = 6"
| "level (CallNode _ _ _ _) = 6"
| "level (GroupNode _ _) = 6"

text \<open>The primary a power-level node starts with.\<close>

fun leading_primary :: "expr_node \<Rightarrow> expr_node option" where
  "leading_primary (FactorialNode arg _) = leading_primary arg"
| "leading_primary (BinaryNode op left _ _ _) = (if op = Pow then leading_primary left else None)"
| "leading_primary (UnaryNode _ _ _) = None"
| "leading_primary n = Some n"

text \<open>The leaf printed last, when the text ends in a word character.\<close>

fun rightmost_leaf :: "expr_node \<Rightarrow> expr_node" where
  "rightmost_leaf (BinaryNode _ _ right _ _) = rightmost_leaf right"
| "rightmost_leaf (UnaryNode _ arg _) = rightmost_leaf arg"
| "rightmost_leaf (CallNode fn (arg # args) notation s) =
     (if notation = RadicalNotation then rightmost_leaf arg
      else CallNode fn (arg # args) notation s)"
| "rightmost_leaf n = n"

definition is_word_char :: "int \<Rightarrow> bool" where
  "is_word_char code \<longleftrightarrow> letter_code code \<or> is_digit_code code"

section \<open>The printer\<close>

record print_env =
  pr_display :: bool
  pr_decimal_comma :: bool
  pr_separator :: js_string
  pr_max_depth :: nat

record printer_options =
  pp_syntax :: "syntax_marks option"
  pp_display :: bool
  pp_depth :: "nat option"

definition make_printer :: "printer_options \<Rightarrow> expr_error + print_env" where
  "make_printer options =
     rbind (case pp_syntax options of None \<Rightarrow> Inr canonical_syntax | Some s \<Rightarrow> define_syntax s) (\<lambda>marks.
     Inr \<lparr>pr_display = pp_display options, pr_decimal_comma = (sy_decimal marks = js '',''),
       pr_separator = sy_separator marks @ js '' '',
       pr_max_depth = (case pp_depth options of None \<Rightarrow> bg_depth DEFAULT_LIMITS | Some d \<Rightarrow> d)\<rparr>)"

fun join_texts :: "js_string \<Rightarrow> js_string list \<Rightarrow> js_string" where
  "join_texts sep [] = []"
| "join_texts sep [t] = t"
| "join_texts sep (t # ts) = t @ sep @ join_texts sep ts"

lemma rmap_list_cong [fundef_cong]:
  "xs = ys \<Longrightarrow> (\<And>x. x \<in> set ys \<Longrightarrow> f x = g x) \<Longrightarrow> rmap_list f xs = rmap_list g ys"
proof (induction xs arbitrary: ys)
  case (Cons x xs)
  then show ?case by (cases ys) auto
qed simp

definition binary_symbol :: "print_env \<Rightarrow> binary_op \<Rightarrow> js_string" where
  "binary_symbol P op =
     (case op of
        Add \<Rightarrow> js ''+''
      | Sub \<Rightarrow> if pr_display P then [0x2212] else js ''-''
      | Mul \<Rightarrow> if pr_display P then [0x00B7] else js ''*''
      | Div \<Rightarrow> js ''/''
      | Pow \<Rightarrow> js ''^'')"

definition unary_symbol :: "print_env \<Rightarrow> unary_op \<Rightarrow> js_string" where
  "unary_symbol P op =
     (case op of UMinus \<Rightarrow> if pr_display P then [0x2212] else js ''-'' | UPlus \<Rightarrow> js ''+'')"

definition glue ::
  "expr_node \<Rightarrow> js_string \<Rightarrow> js_string \<Rightarrow> bool \<Rightarrow> js_string option" where
  "glue left left_text right_text in_bar =
     (let first = code_at right_text 0; final = code_at left_text (length left_text - 1)
      in if first = 124 \<and> in_bar then None
         else if \<not> is_word_char final \<or> \<not> letter_code first then Some (left_text @ right_text)
         else if (case rightmost_leaf left of NumberNode _ _ \<Rightarrow> True | _ \<Rightarrow> False)
              \<and> first \<noteq> LOWER_E \<and> first \<noteq> UPPER_E
         then Some (left_text @ right_text)
         else Some (left_text @ js '' '' @ right_text))"

function
  print_node :: "print_env \<Rightarrow> expr_node \<Rightarrow> nat \<Rightarrow> bool \<Rightarrow> expr_error + js_string" and
  operand :: "print_env \<Rightarrow> expr_node \<Rightarrow> nat \<Rightarrow> nat \<Rightarrow> bool \<Rightarrow> expr_error + js_string" and
  juxtapose :: "print_env \<Rightarrow> expr_node \<Rightarrow> js_string \<Rightarrow> expr_node \<Rightarrow> nat \<Rightarrow> bool
    \<Rightarrow> expr_error + js_string option"
where
  "print_node P node depth in_bar =
     (if depth > pr_max_depth P then Inl (LimitError DepthBudget (pr_max_depth P) depth)
      else case node of
        NumberNode raw _ \<Rightarrow>
          Inr (if pr_decimal_comma P then replace_first (hd (js ''.'')) (hd (js '','')) raw else raw)
      | NameNode name _ \<Rightarrow> Inr (if pr_display P \<and> name = js ''pi'' then [0x03C0] else name)
      | UnaryNode op arg _ \<Rightarrow>
          rbind (operand P arg 3 (depth + 1) in_bar) (\<lambda>t. Inr (unary_symbol P op @ t))
      | FactorialNode arg _ \<Rightarrow>
          rbind (operand P arg 5 (depth + 1) in_bar) (\<lambda>t. Inr (t @ js ''!''))
      | GroupNode inner _ \<Rightarrow>
          rbind (print_node P inner (depth + 1) False) (\<lambda>t. Inr (js ''('' @ t @ js '')''))
      | CallNode fn args notation _ \<Rightarrow>
          if length args = 1 \<and> notation = BarsNotation \<and> fn = js ''abs''
          then rbind (print_node P (hd args) (depth + 1) True) (\<lambda>t.
               Inr (js [CHR 0x7C] @ t @ js [CHR 0x7C]))
          else if length args = 1 \<and> notation = RadicalNotation \<and> fn = js ''sqrt'' \<and> pr_display P
          then rbind (operand P (hd args) 6 (depth + 1) in_bar) (\<lambda>t. Inr ([0x221A] @ t))
          else rbind (rmap_list (\<lambda>arg. print_node P arg (depth + 1) False) args) (\<lambda>ts.
               Inr (fn @ js ''('' @ join_texts (pr_separator P) ts @ js '')''))
      | BinaryNode op left right implicit _ \<Rightarrow>
          if op = Pow
          then rbind (operand P left 5 (depth + 1) in_bar) (\<lambda>a.
               rbind (operand P right 3 (depth + 1) in_bar) (\<lambda>b. Inr (a @ js ''^'' @ b)))
          else if op = Add \<or> op = Sub
          then rbind (operand P left 1 (depth + 1) in_bar) (\<lambda>a.
               rbind (operand P right 2 (depth + 1) in_bar) (\<lambda>b.
               Inr (a @ js '' '' @ binary_symbol P op @ js '' '' @ b)))
          else rbind (operand P left 2 (depth + 1) in_bar) (\<lambda>a.
               rbind (if op = Mul \<and> implicit \<and> pr_display P
                      then juxtapose P left a right (depth + 1) in_bar else Inr None) (\<lambda>j.
               case j of
                 Some t \<Rightarrow> Inr t
               | None \<Rightarrow> rbind (operand P right 3 (depth + 1) in_bar) (\<lambda>b.
                   Inr (a @ js '' '' @ binary_symbol P op @ js '' '' @ b)))))"
| "operand P node minimum depth in_bar =
     (if level node \<ge> minimum then print_node P node depth in_bar
      else rbind (print_node P node depth False) (\<lambda>t. Inr (js ''('' @ t @ js '')'')))"
| "juxtapose P left left_text right depth in_bar =
     (case leading_primary right of
        None \<Rightarrow> Inr None
      | Some (NumberNode _ _) \<Rightarrow> Inr None
      | Some _ \<Rightarrow> rbind (print_node P right depth in_bar) (\<lambda>right_text.
          Inr (glue left left_text right_text in_bar)))"
  by pat_completeness auto

lemma count_arg: "a \<in> set args \<Longrightarrow> count_nodes a < 1 + sum_list (map count_nodes args)"
  using member_le_sum_list [of "count_nodes a" "map count_nodes args"] by auto

lemma count_only: "length args = Suc 0 \<Longrightarrow> count_nodes (hd args) \<le> sum_list (map count_nodes args)"
  by (cases args) auto

termination print_node
  by (relation "measures
      [\<lambda>x. case x of Inl (P, n, d, b) \<Rightarrow> count_nodes n
                  | Inr (Inl (P, n, m, d, b)) \<Rightarrow> count_nodes n
                  | Inr (Inr (P, l, t, r, d, b)) \<Rightarrow> count_nodes r,
       \<lambda>x. case x of Inl _ \<Rightarrow> 0 | Inr _ \<Rightarrow> 1]")
    (auto simp: count_positive count_arg less_Suc_eq_le count_only dest: count_arg split: list.splits)

declare print_node.simps [simp del] operand.simps [simp del] juxtapose.simps [simp del]

datatype printable = PrintNode expr_node | PrintExpr expr | PrintEquation equation

definition print :: "printable \<Rightarrow> printer_options \<Rightarrow> expr_error + js_string" where
  "print value options =
     rbind (make_printer options) (\<lambda>P.
       case value of
         PrintNode n \<Rightarrow> print_node P n 1 False
       | PrintExpr e \<Rightarrow> print_node P (ex_root e) 1 False
       | PrintEquation e \<Rightarrow>
           rbind (print_node P (eq_left e) 1 False) (\<lambda>a.
           rbind (print_node P (eq_right e) 1 False) (\<lambda>b. Inr (a @ js '' = '' @ b))))"

section \<open>The tree a text stands for\<close>

definition no_span :: span where "no_span = \<lparr>sp_start = 0, sp_end = 0\<rparr>"

definition wrap :: "nat \<Rightarrow> nat \<Rightarrow> expr_node \<Rightarrow> expr_node" where
  "wrap minimum lev n = (if lev \<ge> minimum then n else GroupNode n no_span)"

fun left_level :: "binary_op \<Rightarrow> nat" where
  "left_level Add = 1" | "left_level Sub = 1" | "left_level Mul = 2" | "left_level Div = 2"
| "left_level Pow = 5"

fun right_level :: "binary_op \<Rightarrow> nat" where
  "right_level Add = 2" | "right_level Sub = 2" | "right_level Mul = 3" | "right_level Div = 3"
| "right_level Pow = 3"

text \<open>\<open>canon_tree\<close>: spans dropped, every product explicit, \<open>sqrt\<close> as a call, parentheses where needed.\<close>

fun canon_tree :: "expr_node \<Rightarrow> expr_node" where
  "canon_tree (NumberNode raw _) = NumberNode raw no_span"
| "canon_tree (NameNode name _) = NameNode name no_span"
| "canon_tree (UnaryNode op arg _) = UnaryNode op (wrap 3 (level arg) (canon_tree arg)) no_span"
| "canon_tree (BinaryNode op left right _ _) =
     BinaryNode op (wrap (left_level op) (level left) (canon_tree left))
       (wrap (right_level op) (level right) (canon_tree right)) False no_span"
| "canon_tree (CallNode fn args notation _) =
     CallNode fn (map canon_tree args)
       (if length args = 1 \<and> notation = BarsNotation \<and> fn = js ''abs''
        then BarsNotation else CallNotation) no_span"
| "canon_tree (FactorialNode arg _) = FactorialNode (wrap 5 (level arg) (canon_tree arg)) no_span"
| "canon_tree (GroupNode inner _) = GroupNode (canon_tree inner) no_span"

text \<open>A tree whose levels fit the grammar as they are.\<close>

fun grammatical :: "expr_node \<Rightarrow> bool" where
  "grammatical (NumberNode _ _) = True"
| "grammatical (NameNode _ _) = True"
| "grammatical (UnaryNode _ arg _) = (level arg \<ge> 3 \<and> grammatical arg)"
| "grammatical (BinaryNode op left right _ _) =
     (level left \<ge> left_level op \<and> level right \<ge> right_level op \<and> grammatical left
      \<and> grammatical right)"
| "grammatical (CallNode _ args _ _) = list_all grammatical args"
| "grammatical (FactorialNode arg _) = (level arg \<ge> 5 \<and> grammatical arg)"
| "grammatical (GroupNode inner _) = grammatical inner"

fun node_depth :: "expr_node \<Rightarrow> nat" where
  "node_depth (NumberNode _ _) = 1"
| "node_depth (NameNode _ _) = 1"
| "node_depth (UnaryNode _ arg _) = 1 + node_depth arg"
| "node_depth (BinaryNode _ left right _ _) = 1 + max (node_depth left) (node_depth right)"
| "node_depth (CallNode _ args _ _) = 1 + foldr max (map node_depth args) 0"
| "node_depth (FactorialNode arg _) = 1 + node_depth arg"
| "node_depth (GroupNode inner _) = 1 + node_depth inner"

fun op_text :: "binary_op \<Rightarrow> js_string" where
  "op_text Add = js ''+''" | "op_text Sub = js ''-''" | "op_text Mul = js ''*''"
| "op_text Div = js ''/''" | "op_text Pow = js ''^''"

text \<open>The text of a grammatical tree in canonical style.\<close>

fun shown :: "syntax_marks \<Rightarrow> expr_node \<Rightarrow> js_string" where
  "shown M (NumberNode raw _) =
     (if sy_decimal M = js '','' then replace_first (hd (js ''.'')) (hd (js '','')) raw else raw)"
| "shown M (NameNode name _) = name"
| "shown M (UnaryNode op arg _) = (case op of UMinus \<Rightarrow> js ''-'' | UPlus \<Rightarrow> js ''+'') @ shown M arg"
| "shown M (BinaryNode op left right _ _) =
     (if op = Pow then shown M left @ js ''^'' @ shown M right
      else shown M left @ js '' '' @ op_text op @ js '' '' @ shown M right)"
| "shown M (CallNode fn args notation _) =
     (if notation = BarsNotation then js [CHR 0x7C] @ concat (map (shown M) args) @ js [CHR 0x7C]
      else fn @ js ''('' @ join_texts (sy_separator M @ js '' '') (map (shown M) args) @ js '')'')"
| "shown M (FactorialNode arg _) = shown M arg @ js ''!''"
| "shown M (GroupNode inner _) = js ''('' @ shown M inner @ js '')''"

end
