(* ===== verification/ExprTokens.thy ===== *)
theory ExprTokens
  imports ExprPrint
begin

text \<open>
  What the lexer makes of a printed tree: the tokens of a grammatical tree (\<open>tokens_of\<close>), and
  the proof that lexing the text of the tree gives them, whatever follows it that does not go
  on with its last word.
\<close>

section \<open>The tokens of a tree\<close>

type_synonym lexeme = "token_kind \<times> js_string"

fun op_kind :: "binary_op \<Rightarrow> token_kind" where
  "op_kind Add = PlusTok" | "op_kind Sub = MinusTok" | "op_kind Mul = StarTok"
| "op_kind Div = SlashTok" | "op_kind Pow = CaretTok"

fun join_lexemes :: "lexeme \<Rightarrow> lexeme list list \<Rightarrow> lexeme list" where
  "join_lexemes sep [] = []"
| "join_lexemes sep [ls] = ls"
| "join_lexemes sep (ls # rest) = ls @ [sep] @ join_lexemes sep rest"

fun tokens_of :: "syntax_marks \<Rightarrow> expr_node \<Rightarrow> lexeme list" where
  "tokens_of M (NumberNode raw _) = [(NumberTok, raw)]"
| "tokens_of M (NameNode name _) = [(NameTok, name)]"
| "tokens_of M (UnaryNode op arg _) =
     (case op of UMinus \<Rightarrow> (MinusTok, js ''-'') | UPlus \<Rightarrow> (PlusTok, js ''+'')) # tokens_of M arg"
| "tokens_of M (BinaryNode op left right _ _) =
     tokens_of M left @ [(op_kind op, op_text op)] @ tokens_of M right"
| "tokens_of M (CallNode fn args notation _) =
     (if notation = BarsNotation
      then [(BarTok, js [CHR 0x7C])] @ concat (map (tokens_of M) args) @ [(BarTok, js [CHR 0x7C])]
      else [(NameTok, fn), (OpenTok, js ''('')]
        @ join_lexemes (SepTok, sy_separator M) (map (tokens_of M) args) @ [(CloseTok, js '')'')])"
| "tokens_of M (FactorialNode arg _) = tokens_of M arg @ [(BangTok, js ''!'')]"
| "tokens_of M (GroupNode inner _) = [(OpenTok, js ''('')] @ tokens_of M inner @ [(CloseTok, js '')'')]"

definition lexeme_of :: "expr_token \<Rightarrow> lexeme" where
  "lexeme_of tok = (tk_kind tok, tk_text tok)"

text \<open>
  \<open>lexes M t ls\<close>: from any place where \<open>t\<close> stands and a text that cannot continue it follows,
  the lexer reads \<open>t\<close> as tokens with the kinds and texts \<open>ls\<close> and goes on behind it.
\<close>

text \<open>
  What may follow a word in a printed text: a space, a closing or an operator sign, the
  separator, or the end.
\<close>

definition unit_code :: "code_unit \<Rightarrow> int" where
  "unit_code u = int (unat u)"

definition word_unit :: "code_unit \<Rightarrow> bool" where
  "word_unit u \<longleftrightarrow> letter_code (unit_code u) \<or> is_digit_code (unit_code u)"

definition stops :: "syntax_marks \<Rightarrow> js_string \<Rightarrow> bool" where
  "stops M rest \<longleftrightarrow>
     (case rest of
        [] \<Rightarrow> True
      | u # _ \<Rightarrow> \<not> word_unit u \<and> \<not> is_lead u \<and> \<not> is_trail u \<and> sy_decimal M \<noteq> [u]
          \<and> unit_code u \<noteq> 43 \<and> unit_code u \<noteq> 45)"

text \<open>\<open>lexes_any\<close> is the same for a text that nothing continues: a sign or a space.\<close>

definition lexes_at ::
  "syntax_marks \<Rightarrow> js_string \<Rightarrow> lexeme list \<Rightarrow> js_string \<Rightarrow> bool" where
  "lexes_at M t ls rest \<longleftrightarrow>
     (\<forall>source i limit acc. drop i source = t @ rest \<longrightarrow> i \<le> length source \<longrightarrow>
        length acc + length ls \<le> limit \<longrightarrow>
        (\<exists>toks. map lexeme_of toks = ls \<and>
           tokenize_loop source M limit i acc
             = tokenize_loop source M limit (i + length t) (acc @ toks)))"

definition lexes :: "syntax_marks \<Rightarrow> js_string \<Rightarrow> lexeme list \<Rightarrow> bool" where
  "lexes M t ls \<longleftrightarrow> (\<forall>rest. stops M rest \<longrightarrow> lexes_at M t ls rest)"

definition lexes_any :: "syntax_marks \<Rightarrow> js_string \<Rightarrow> lexeme list \<Rightarrow> bool" where
  "lexes_any M t ls \<longleftrightarrow> (\<forall>rest. lexes_at M t ls rest)"

definition valid_marks :: "syntax_marks \<Rightarrow> bool" where
  "valid_marks M \<longleftrightarrow>
     M = canonical_syntax \<or> M = decimal_comma
     \<or> M = \<lparr>sy_decimal = js ''.'', sy_separator = js '';''\<rparr>"

section \<open>Pieces of text\<close>

lemma lexes_at_append:
  assumes "lexes_at M a la (b @ rest)" "lexes_at M b lb rest"
  shows "lexes_at M (a @ b) (la @ lb) rest"
  unfolding lexes_at_def
proof (intro allI impI)
  fix source i limit and acc :: "expr_token list"
  assume d: "drop i source = (a @ b) @ rest" and i: "i \<le> length source"
    and n: "length acc + length (la @ lb) \<le> limit"
  obtain toks where t: "map lexeme_of toks = la"
    "tokenize_loop source M limit i acc = tokenize_loop source M limit (i + length a) (acc @ toks)"
    using assms(1) [unfolded lexes_at_def, rule_format, of i source acc limit] d i n by auto
  have "drop (i + length a) source = drop (length a) (drop i source)" by (simp add: add.commute)
  then have d2: "drop (i + length a) source = b @ rest" using d by simp
  have i2: "i + length a \<le> length source" using arg_cong [OF d, of length] i by auto
  have l: "length toks = length la" using t(1) by (metis length_map)
  obtain toks2 where t2: "map lexeme_of toks2 = lb"
    "tokenize_loop source M limit (i + length a) (acc @ toks)
       = tokenize_loop source M limit (i + length a + length b) ((acc @ toks) @ toks2)"
    using assms(2) [unfolded lexes_at_def, rule_format, of "i + length a" source "acc @ toks" limit]
      d2 i2 n l by auto
  show "\<exists>toks. map lexeme_of toks = la @ lb \<and> tokenize_loop source M limit i acc
      = tokenize_loop source M limit (i + length (a @ b)) (acc @ toks)"
    using t t2 by (intro exI [of _ "toks @ toks2"]) (simp add: add.assoc)
qed

lemma stops_append: "b \<noteq> [] \<Longrightarrow> stops M (b @ rest) = stops M b"
  by (cases b) (auto simp: stops_def)

lemma lexes_append:
  "lexes M a la \<Longrightarrow> b \<noteq> [] \<Longrightarrow> stops M b \<Longrightarrow> lexes M b lb \<Longrightarrow> lexes M (a @ b) (la @ lb)"
  by (simp add: lexes_def lexes_at_append stops_append)

lemma lexes_any_append: "lexes_any M a la \<Longrightarrow> lexes M b lb \<Longrightarrow> lexes M (a @ b) (la @ lb)"
  by (simp add: lexes_def lexes_any_def lexes_at_append)

lemma lexes_any_lexes: "lexes_any M a la \<Longrightarrow> lexes M a la"
  by (simp add: lexes_def lexes_any_def)

section \<open>Code units and code points\<close>

lemma unit_code_bounds: "0 \<le> unit_code u" "unit_code u < 65536"
  using unat_code_unit [of u] unfolding unit_code_def by linarith+

lemma code_at_drop:
  assumes "drop i t = u # r" "\<not> is_lead u \<or> (case r of [] \<Rightarrow> True | v # _ \<Rightarrow> \<not> is_trail v)"
  shows "code_at t i = unit_code u"
proof -
  have "i < length t" using assms(1) by (metis drop_all list.distinct(1) not_le)
  moreover have "code_point_at (u # r) = unat u" using assms(2) by (cases r) auto
  ultimately show ?thesis using assms(1) by (simp add: code_at_def unit_code_def)
qed

lemma code_at_stop:
  assumes "drop i t = rest" "stops M rest"
  shows "code_at t i = (case rest of [] \<Rightarrow> -1 | u # _ \<Rightarrow> unit_code u)"
proof (cases rest)
  case Nil
  then show ?thesis using assms(1) by (simp add: code_at_def)
next
  case (Cons u r)
  then show ?thesis using assms code_at_drop [of i t u r] by (simp add: stops_def)
qed

lemma drop_next: "drop i t = u # r \<Longrightarrow> drop (Suc i) t = r"
  by (metis drop_Suc list.sel(3) tl_drop)

lemma word_unit_not_lead:
  assumes "word_unit u"
  shows "\<not> is_lead u"
proof -
  define n where "n = unat u"
  have "letter_code (int n) \<or> is_digit_code (int n)"
    using assms by (simp add: word_unit_def unit_code_def n_def)
  then have "n < 55296" unfolding letter_code_def is_digit_code_def by linarith
  then show ?thesis by (simp add: is_lead_def n_def)
qed

lemma code_point_word:
  assumes "letter_code (int (code_point_at (u # r))) \<or> is_digit_code (int (code_point_at (u # r)))"
  shows "code_point_at (u # r) = unat u"
proof (cases r)
  case (Cons v w)
  show ?thesis
  proof (cases "is_lead u \<and> is_trail v")
    case True
    then have "code_point_at (u # r) \<ge> 65536" using Cons by simp
    then show ?thesis using assms by (auto simp: letter_code_def is_digit_code_def)
  qed (use Cons in auto)
qed simp

lemma code_at_word:
  assumes "letter_code (code_at t i) \<or> is_digit_code (code_at t i)"
  shows "i < length t" "code_at t i = unit_code (t ! i)"
proof -
  show i: "i < length t" using assms code_class_inside by blast
  have d: "drop i t = t ! i # drop (Suc i) t" using i by (rule Cons_nth_drop_Suc [symmetric])
  show "code_at t i = unit_code (t ! i)"
    using assms i code_point_word [of "t ! i" "drop (Suc i) t"]
    by (simp add: code_at_def d unit_code_def)
qed

section \<open>Names\<close>

lemma is_name_units:
  assumes "is_name t"
  obtains u us where "t = u # us" "letter_code (unit_code u)" "list_all word_unit us"
proof -
  obtain u us where t: "t = u # us" using assms by (cases t) (auto simp: is_name_def)
  have "letter_code (code_at t 0)" using assms by (simp add: is_name_def)
  then have "letter_code (unit_code u)" using code_at_word [of t 0] t by simp
  moreover have "word_unit (us ! j)" if "j < length us" for j
  proof -
    have "list_all (\<lambda>i. letter_code (code_at t i) \<or> is_digit_code (code_at t i)) [1..<length t]"
      using assms by (simp add: is_name_def)
    moreover have "Suc j \<in> set [1..<length t]" using that t by auto
    ultimately have "letter_code (code_at t (Suc j)) \<or> is_digit_code (code_at t (Suc j))"
      unfolding list_all_iff by blast
    then show ?thesis using code_at_word [of t "Suc j"] t by (simp add: word_unit_def)
  qed
  ultimately show ?thesis using that t by (auto simp: list_all_length)
qed

lemma name_end_word:
  assumes "drop i t = us @ rest" "list_all word_unit us" "stops M rest"
  shows "name_end t i = i + length us"
  using assms(1,2)
proof (induction us arbitrary: i)
  case Nil
  then have d: "drop i t = rest" by simp
  have "\<not> (i < length t \<and> (letter_code (code_at t i) \<or> is_digit_code (code_at t i)))"
    using code_at_stop [OF d assms(3)] d assms(3)
    by (cases rest) (auto simp: stops_def word_unit_def)
  then show ?case by (simp add: name_end.simps)
next
  case (Cons u us)
  have d: "drop i t = u # (us @ rest)" using Cons.prems(1) by simp
  have "code_at t i = unit_code u"
    using code_at_drop [OF d] word_unit_not_lead Cons.prems(2) by simp
  moreover have "i < length t" using d by (metis drop_all list.distinct(1) not_le)
  ultimately show ?case
    using Cons.IH [OF drop_next [OF d]] Cons.prems(2)
    by (simp add: name_end.simps [of t i] word_unit_def)
qed

lemma slice_drop: "drop i t = a @ rest \<Longrightarrow> slice i (i + length a) t = a"
  by (simp add: slice_def)

lemma tokenize_step:
  assumes "drop i source = u # r" "\<not> space_code (code_at source i)"
    "lex_one source M i = Inr tok" "length acc < limit"
  shows "tokenize_loop source M limit i acc = tokenize_loop source M limit (tk_end tok) (acc @ [tok])"
proof -
  have "i < length source" using assms(1) by (metis drop_all list.distinct(1) not_le)
  then show ?thesis
    using assms by (simp add: tokenize_loop.simps [of source M limit i acc] push_token_def)
qed

lemma marks_codes:
  assumes "valid_marks M"
  shows "code_at (sy_decimal M) 0 = 46 \<or> code_at (sy_decimal M) 0 = 44"
    "code_at (sy_separator M) 0 = 44 \<or> code_at (sy_separator M) 0 = 59"
  using assms
  by (auto simp: valid_marks_def canonical_syntax_def decimal_comma_def js_def code_at_def)

lemma small_unit: "unit_code u < 55296 \<Longrightarrow> \<not> is_lead u \<and> \<not> is_trail u"
  unfolding is_lead_def is_trail_def unit_code_def by linarith

lemma lexes_name:
  assumes "valid_marks M" "is_name t"
  shows "lexes M t [(NameTok, t)]"
  unfolding lexes_def lexes_at_def
proof (intro allI impI)
  fix rest source i limit and acc :: "expr_token list"
  assume stop: "stops M rest" and d: "drop i source = t @ rest"
    and n: "length acc + length [(NameTok, t)] \<le> limit"
  obtain u us where t: "t = u # us" "letter_code (unit_code u)" "list_all word_unit us"
    using is_name_units [OF assms(2)] .
  have du: "drop i source = u # (us @ rest)" using d t(1) by simp
  have c: "code_at source i = unit_code u"
    using code_at_drop [OF du] word_unit_not_lead [of u] t(2) by (simp add: word_unit_def)
  have e: "name_end source (i + 1) = i + length t"
    using name_end_word [of "Suc i" source us rest M] drop_next [OF du] t stop by simp
  have dig: "\<not> is_digit_code (unit_code u)" "unit_code u \<noteq> 46" "unit_code u \<noteq> 44"
    "\<not> space_code (unit_code u)"
    using t(2) by (auto simp: letter_code_def is_digit_code_def space_code_def PI_def)
  define tok where "tok = \<lparr>tk_kind = NameTok, tk_start = i, tk_end = i + length t, tk_text = t\<rparr>"
  have "\<not> starts_number source i (code_at (sy_decimal M) 0)"
    using c dig marks_codes(1) [OF assms(1)] by (auto simp: starts_number_def)
  then have "lex_one source M i = Inr tok"
    using c t(2) e slice_drop [OF d] by (simp add: lex_one_def Let_def tok_def)
  then have "tokenize_loop source M limit i acc
      = tokenize_loop source M limit (i + length t) (acc @ [tok])"
    using tokenize_step [OF du, of M tok acc limit] c dig n by (simp add: tok_def)
  then show "\<exists>toks. map lexeme_of toks = [(NameTok, t)] \<and> tokenize_loop source M limit i acc
      = tokenize_loop source M limit (i + length t) (acc @ toks)"
    by (intro exI [of _ "[tok]"]) (simp add: lexeme_of_def tok_def)
qed

section \<open>Signs and spaces\<close>

lemma lexes_space: "lexes_any M (js '' '') []"
  unfolding lexes_any_def lexes_at_def
proof (intro allI impI)
  fix rest source i limit and acc :: "expr_token list"
  assume "drop i source = js '' '' @ rest"
  then have d: "drop i source = 32 # rest" by (simp add: js_def)
  have "code_at source i = 32" using code_at_drop [OF d] by (simp add: is_lead_def unit_code_def)
  moreover have "i < length source" using d by (metis drop_all list.distinct(1) not_le)
  ultimately show "\<exists>toks. map lexeme_of toks = [] \<and> tokenize_loop source M limit i acc
      = tokenize_loop source M limit (i + length (js '' '')) (acc @ toks)"
    by (intro exI [of _ "[]"])
      (simp add: tokenize_loop.simps [of source M limit i acc] space_code_def js_def)
qed

lemma lexes_sign:
  assumes M: "valid_marks M" and kind: "single_kind (unit_code u) = Some k"
    and ascii: "unit_code u < 128"
  shows "lexes_any M [u] [(k, [u])]"
  unfolding lexes_any_def lexes_at_def
proof (intro allI impI)
  fix rest source i limit and acc :: "expr_token list"
  assume "drop i source = [u] @ rest" and n: "length acc + length [(k, [u])] \<le> limit"
  then have d: "drop i source = u # rest" by simp
  have lead: "\<not> is_lead u" using ascii small_unit [of u] by simp
  have c: "code_at source i = unit_code u" using code_at_drop [OF d] lead by simp
  have other: "\<not> is_digit_code (unit_code u)" "\<not> letter_code (unit_code u)" "unit_code u \<noteq> PI"
    "unit_code u \<noteq> 46" "unit_code u \<noteq> 44" "unit_code u \<noteq> 59" "\<not> space_code (unit_code u)"
    using kind
    by (auto simp: single_kind_def is_digit_code_def letter_code_def space_code_def PI_def split: if_splits)
  define tok where "tok = \<lparr>tk_kind = k, tk_start = i, tk_end = i + 1, tk_text = [u]\<rparr>"
  have "\<not> starts_number source i (code_at (sy_decimal M) 0)"
    using c other marks_codes(1) [OF M] by (auto simp: starts_number_def)
  moreover have "char_at source i = [u]" using c d ascii by (simp add: char_at_def)
  ultimately have "lex_one source M i = Inr tok"
    using c other kind marks_codes(2) [OF M] by (auto simp: lex_one_def Let_def tok_def)
  then have "tokenize_loop source M limit i acc
      = tokenize_loop source M limit (i + length [u]) (acc @ [tok])"
    using tokenize_step [OF d, of M tok acc limit] c other n by (simp add: tok_def)
  then show "\<exists>toks. map lexeme_of toks = [(k, [u])] \<and> tokenize_loop source M limit i acc
      = tokenize_loop source M limit (i + length [u]) (acc @ toks)"
    by (intro exI [of _ "[tok]"]) (simp add: lexeme_of_def tok_def)
qed

lemma lexes_separator:
  assumes M: "valid_marks M"
  shows "lexes_any M (sy_separator M) [(SepTok, sy_separator M)]"
  unfolding lexes_any_def lexes_at_def
proof (intro allI impI)
  fix rest source i limit and acc :: "expr_token list"
  assume d0: "drop i source = sy_separator M @ rest"
    and n: "length acc + length [(SepTok, sy_separator M)] \<le> limit"
  obtain u where u: "sy_separator M = [u]" "u = 44 \<or> u = 59" "[u] \<noteq> sy_decimal M"
    using M by (auto simp: valid_marks_def canonical_syntax_def decimal_comma_def js_def)
  have d: "drop i source = u # rest" using d0 u by simp
  have uc: "unit_code u = 44 \<or> unit_code u = 59" using u(2) by (auto simp: unit_code_def)
  have lead: "\<not> is_lead u" using uc small_unit [of u] by auto
  have c: "code_at source i = unit_code u" using code_at_drop [OF d] lead by simp
  have sc: "code_at (sy_separator M) 0 = unit_code u" using code_at_drop [of 0 "[u]" u "[]"] lead u(1) by simp
  have dc: "code_at (sy_decimal M) 0 \<noteq> unit_code u"
    using M u(1,3)
    by (auto simp: valid_marks_def canonical_syntax_def decimal_comma_def js_def code_at_def unit_code_def)
  have other: "\<not> is_digit_code (unit_code u)" "\<not> letter_code (unit_code u)" "unit_code u \<noteq> PI"
    "\<not> space_code (unit_code u)"
    using uc by (auto simp: is_digit_code_def letter_code_def space_code_def PI_def)
  define tok where
    "tok = \<lparr>tk_kind = SepTok, tk_start = i, tk_end = i + 1, tk_text = sy_separator M\<rparr>"
  have "\<not> starts_number source i (code_at (sy_decimal M) 0)"
    using c other dc by (auto simp: starts_number_def)
  then have "lex_one source M i = Inr tok"
    using c other sc by (simp add: lex_one_def Let_def tok_def)
  then have "tokenize_loop source M limit i acc
      = tokenize_loop source M limit (i + length (sy_separator M)) (acc @ [tok])"
    using tokenize_step [OF d, of M tok acc limit] c other n u(1) by (simp add: tok_def)
  then show "\<exists>toks. map lexeme_of toks = [(SepTok, sy_separator M)] \<and>
      tokenize_loop source M limit i acc
      = tokenize_loop source M limit (i + length (sy_separator M)) (acc @ toks)"
    by (intro exI [of _ "[tok]"]) (simp add: lexeme_of_def tok_def)
qed

section \<open>Number literals\<close>

text \<open>Everything \<open>scan_number\<close> asks of a code, with the decimal mark as a parameter.\<close>

definition num_class :: "int \<Rightarrow> int \<Rightarrow> bool \<times> bool \<times> bool \<times> bool" where
  "num_class dot c = (is_digit_code c, c = dot, c = LOWER_E \<or> c = UPPER_E, c = 43 \<or> c = 45)"

text \<open>The text \<open>t\<close> from \<open>i\<close> looks to the scanner like the whole text \<open>raw\<close>, one code beyond included.\<close>

definition scans_like :: "js_string \<Rightarrow> nat \<Rightarrow> int \<Rightarrow> js_string \<Rightarrow> bool" where
  "scans_like t i dot raw \<longleftrightarrow>
     (\<forall>k \<le> length raw. num_class dot (code_at t (i + k)) = num_class DOT (code_at raw k))"

lemma scans_likeD:
  assumes "scans_like t i dot raw" "k \<le> length raw"
  shows "is_digit_code (code_at t (i + k)) = is_digit_code (code_at raw k)"
    "(code_at t (i + k) = dot) = (code_at raw k = DOT)"
    "(code_at t (i + k) = LOWER_E \<or> code_at t (i + k) = UPPER_E)
       = (code_at raw k = LOWER_E \<or> code_at raw k = UPPER_E)"
    "(code_at t (i + k) = 43 \<or> code_at t (i + k) = 45) = (code_at raw k = 43 \<or> code_at raw k = 45)"
  using assms by (simp_all add: scans_like_def num_class_def)

lemma skip_digits_end: "i \<le> length t \<Longrightarrow> skip_digits t i \<le> length t"
proof (induction t i rule: skip_digits.induct)
  case (1 t i)
  then show ?case
    using code_class_inside(1) [of t i] by (auto simp: skip_digits.simps [of t i])
qed

lemma skip_digits_range: "i \<le> j \<Longrightarrow> j < skip_digits t i \<Longrightarrow> is_digit_code (code_at t j)"
proof (induction t i rule: skip_digits.induct)
  case (1 t i)
  then show ?case
    by (cases "i = j") (auto simp: skip_digits.simps [of t i] skip_digits.simps [of t j] split: if_splits)
qed

lemma skip_digits_like:
  "scans_like t i dot raw \<Longrightarrow> k \<le> length raw \<Longrightarrow> skip_digits t (i + k) = i + skip_digits raw k"
proof (induction raw k rule: skip_digits.induct)
  case (1 raw k)
  then show ?case
    using scans_likeD(1) [OF 1(2,3)] code_class_inside(1) [of raw k]
    by (auto simp: skip_digits.simps [of t "i + k"] skip_digits.simps [of raw k])
qed

lemma code_inside: "code_at t i \<noteq> -1 \<Longrightarrow> i < length t"
  by (auto simp: code_at_def split: if_splits)

lemma fraction_like:
  assumes "scans_like t i dot raw" "k \<le> length raw" "0 \<le> scan_fraction raw k DOT"
  shows "scan_fraction t (i + k) dot = int i + scan_fraction raw k DOT"
    "nat (scan_fraction raw k DOT) \<le> length raw"
proof -
  have k: "k < length raw" if "code_at raw k = DOT"
    using that code_inside [of raw k] by (simp add: DOT_def)
  show "scan_fraction t (i + k) dot = int i + scan_fraction raw k DOT"
    using assms k scans_likeD(2) [OF assms(1,2)] scans_likeD(1) [OF assms(1), of "k + 1"]
      skip_digits_like [OF assms(1), of "k + 1"]
    by (auto simp: scan_fraction_def split: if_splits)
  show "nat (scan_fraction raw k DOT) \<le> length raw"
    using assms(2) k skip_digits_end [of "k + 1" raw] by (auto simp: scan_fraction_def split: if_splits)
qed

lemma exponent_like:
  assumes "scans_like t i dot raw" "k \<le> length raw"
  shows "scan_exponent t (i + k) = i + scan_exponent raw k" "scan_exponent raw k \<le> length raw"
proof -
  have k: "k < length raw" if "code_at raw k = LOWER_E \<or> code_at raw k = UPPER_E"
    using that code_inside [of raw k] by (auto simp: LOWER_E_def UPPER_E_def)
  have k1: "k + 1 < length raw" if "code_at raw (k + 1) = 43 \<or> code_at raw (k + 1) = 45"
    using that code_inside [of raw "k + 1"] by auto
  let ?e = "code_at raw k = LOWER_E \<or> code_at raw k = UPPER_E"
  let ?s = "code_at raw (k + 1) = 43 \<or> code_at raw (k + 1) = 45"
  let ?x = "if ?s then k + 2 else k + 1"
  have raw: "scan_exponent raw k
      = (if ?e then if is_digit_code (code_at raw ?x) then skip_digits raw ?x else k else k)"
    by (simp only: scan_exponent_def Let_def)
  have x: "?x \<le> length raw" if "?e" using k [OF that] k1 by auto
  have sign: "(code_at t (i + k + 1) = 43 \<or> code_at t (i + k + 1) = 45) = ?s" if "?e"
    using scans_likeD(4) [OF assms(1), of "k + 1"] k [OF that] by (simp add: add.assoc)
  have tx: "(if code_at t (i + k + 1) = 43 \<or> code_at t (i + k + 1) = 45 then i + k + 2 else i + k + 1)
      = i + ?x" if "?e"
    unfolding sign [OF that] by simp
  have "scan_exponent t (i + k)
      = (if ?e then if is_digit_code (code_at t (i + ?x)) then skip_digits t (i + ?x) else i + k
         else i + k)"
  proof (cases ?e)
    case True
    show ?thesis unfolding scan_exponent_def Let_def scans_likeD(3) [OF assms] tx [OF True]
      by (simp only: True if_True)
  next
    case False
    show ?thesis unfolding scan_exponent_def Let_def scans_likeD(3) [OF assms]
      by (simp only: False if_False)
  qed
  then show "scan_exponent t (i + k) = i + scan_exponent raw k"
    using raw scans_likeD(1) [OF assms(1) x] skip_digits_like [OF assms(1) x] by simp
  show "scan_exponent raw k \<le> length raw"
    using raw assms(2) skip_digits_end [OF x] by simp
qed

lemma number_like:
  assumes "scans_like t i dot raw" "is_number_literal raw"
  shows "scan_number t i dot = int (i + length raw)" "starts_number t i dot"
proof -
  let ?d = "skip_digits raw 0" let ?f = "scan_fraction raw ?d DOT"
  have lit: "scan_number raw 0 DOT = int (length raw)" "starts_number raw 0 DOT"
    using assms(2) by (simp_all add: is_number_literal_def)
  have f: "0 \<le> ?f" using lit(1) by (auto simp: scan_number_def Let_def split: if_splits)
  have e: "scan_exponent raw (nat ?f) = length raw" "code_at raw (length raw) \<noteq> DOT"
    using lit(1) f by (auto simp: scan_number_def Let_def split: if_splits)
  have d: "?d \<le> length raw" by (rule skip_digits_end) simp
  have sd: "skip_digits t i = i + ?d" using skip_digits_like [OF assms(1), of 0] by simp
  have sf: "scan_fraction t (i + ?d) dot = int i + ?f" "nat ?f \<le> length raw"
    using fraction_like [OF assms(1) d f] by auto
  have "scan_exponent t (nat (int i + ?f)) = i + length raw"
    using exponent_like(1) [OF assms(1) sf(2)] f e(1) by (simp add: nat_add_distrib)
  moreover have "code_at t (i + length raw) \<noteq> dot"
    using scans_likeD(2) [OF assms(1), of "length raw"] e(2) by simp
  ultimately show "scan_number t i dot = int (i + length raw)"
    using f by (simp add: scan_number_def Let_def sd sf(1))
  have one: "1 \<le> length raw" using lit(2) code_inside [of raw 0]
    by (auto simp: starts_number_def is_digit_code_def DOT_def Suc_le_eq)
  show "starts_number t i dot"
    using lit(2) one scans_likeD(1) [OF assms(1), of 0] scans_likeD(2) [OF assms(1), of 0]
      scans_likeD(1) [OF assms(1), of 1]
    by (auto simp: starts_number_def)
qed

text \<open>The units of a literal: digits, the marks of an exponent, and at most one point.\<close>

lemma scan_exponent_inside:
  assumes "i \<le> k" "k < scan_exponent t i"
  shows "(code_at t i = LOWER_E \<or> code_at t i = UPPER_E) \<and>
      k < skip_digits t (if code_at t (i + 1) = 43 \<or> code_at t (i + 1) = 45 then i + 2 else i + 1)"
proof -
  let ?e = "code_at t i = LOWER_E \<or> code_at t i = UPPER_E"
  let ?x = "if code_at t (i + 1) = 43 \<or> code_at t (i + 1) = 45 then i + 2 else i + 1"
  have "scan_exponent t i
      = (if ?e then if is_digit_code (code_at t ?x) then skip_digits t ?x else i else i)"
    by (simp only: scan_exponent_def Let_def)
  then have "?e" "k < skip_digits t ?x"
    using assms by (cases ?e; cases "is_digit_code (code_at t ?x)"; simp only: if_True if_False; linarith)+
  then show ?thesis by blast
qed

lemma literal_codes:
  assumes "is_number_literal raw" "k < length raw"
  shows "is_digit_code (code_at raw k) \<or> code_at raw k = LOWER_E \<or> code_at raw k = UPPER_E
      \<or> code_at raw k = 43 \<or> code_at raw k = 45 \<or> (code_at raw k = DOT \<and> k = skip_digits raw 0)"
proof -
  let ?d = "skip_digits raw 0" let ?f = "scan_fraction raw ?d DOT"
  have lit: "scan_number raw 0 DOT = int (length raw)"
    using assms(1) by (simp add: is_number_literal_def)
  have f: "0 \<le> ?f" using lit by (auto simp: scan_number_def Let_def split: if_splits)
  have e: "scan_exponent raw (nat ?f) = length raw"
    using lit f by (auto simp: scan_number_def Let_def split: if_splits)
  consider "k < ?d" | "?d \<le> k" "k < nat ?f" | "nat ?f \<le> k" by linarith
  then show ?thesis
  proof cases
    case 1
    then show ?thesis using skip_digits_range [of 0 k raw] by simp
  next
    case 2
    then show ?thesis
      using f skip_digits_range [of "?d + 1" k raw]
      by (cases "k = ?d") (auto simp: scan_fraction_def split: if_splits)
  next
    case 3
    let ?i = "nat ?f"
    let ?sign = "code_at raw (?i + 1) = 43 \<or> code_at raw (?i + 1) = 45"
    let ?x = "if ?sign then ?i + 2 else ?i + 1"
    have k: "k < scan_exponent raw ?i" using assms(2) e by simp
    then have mark: "code_at raw ?i = LOWER_E \<or> code_at raw ?i = UPPER_E" and range: "k < skip_digits raw ?x"
      using scan_exponent_inside [OF 3 k] by blast+
    have "k = ?i \<or> (k = ?i + 1 \<and> ?sign) \<or> ?x \<le> k"
    proof (cases ?sign)
      case True
      then have "?x = ?i + 2" by (rule if_P)
      then show ?thesis using 3 True by linarith
    next
      case False
      then have "?x = ?i + 1" by (rule if_not_P)
      then show ?thesis using 3 by linarith
    qed
    then consider "k = ?i" | "k = ?i + 1" "?sign" | "?x \<le> k" by blast
    then show ?thesis
    proof cases
      case 3
      then show ?thesis using skip_digits_range [OF 3 range] by blast
    qed (use mark in blast)+
  qed
qed

lemma small_code:
  assumes "k < length t" "code_at t k < 65536"
  shows "code_at t k = unit_code (t ! k)"
proof -
  have d: "drop k t = t ! k # drop (Suc k) t" using assms(1) by (rule Cons_nth_drop_Suc [symmetric])
  have "code_point_at (t ! k # drop (Suc k) t) < 65536" using assms by (simp add: code_at_def d)
  then have "code_point_at (t ! k # drop (Suc k) t) = unat (t ! k)"
    by (cases "drop (Suc k) t") (auto split: if_splits)
  then show ?thesis using assms(1) by (simp add: code_at_def d unit_code_def)
qed

lemma literal_units:
  assumes "is_number_literal raw" "k < length raw"
  shows "code_at raw k = unit_code (raw ! k)" "unit_code (raw ! k) < 128" "unit_code (raw ! k) \<noteq> 44"
    "unit_code (raw ! k) = 46 \<Longrightarrow> k = skip_digits raw 0"
proof -
  note c = literal_codes [OF assms, unfolded LOWER_E_def UPPER_E_def DOT_def is_digit_code_def]
  have "code_at raw k < 128" using c by auto
  then show e: "code_at raw k = unit_code (raw ! k)" using small_code [OF assms(2)] by simp
  show "unit_code (raw ! k) < 128" "unit_code (raw ! k) \<noteq> 44" using c e by auto
  show "unit_code (raw ! k) = 46 \<Longrightarrow> k = skip_digits raw 0" using c e by auto
qed

lemma unit_code_eq: "unit_code u = int n \<Longrightarrow> u = of_nat n"
proof -
  assume "unit_code u = int n"
  then have "unat u = n" unfolding unit_code_def by (simp only: of_nat_eq_iff)
  then show "u = of_nat n" by auto
qed

lemma unit_code_inject: "unit_code u = unit_code v \<longleftrightarrow> u = v"
  unfolding unit_code_def by (simp only: of_nat_eq_iff word_unat_eq_iff)

lemma replace_first_map:
  "length (filter (\<lambda>u. u = a) us) \<le> 1 \<Longrightarrow> replace_first a b us = map (\<lambda>u. if u = a then b else u) us"
proof (induction us)
  case (Cons u us)
  show ?case
  proof (cases "u = a")
    case True
    then have "filter (\<lambda>u. u = a) us = []" using Cons.prems by simp
    then have "\<forall>v \<in> set us. v \<noteq> a" by (simp add: filter_empty_conv)
    then show ?thesis using True by (simp add: map_idI)
  qed (use Cons in simp)
qed simp

lemma replace_first_back: "b \<notin> set us \<Longrightarrow> replace_first b a (replace_first a b us) = us"
  by (induction us) auto

lemma literal_one_point:
  assumes "is_number_literal raw"
  shows "length (filter (\<lambda>u. u = 46) raw) \<le> 1" "44 \<notin> set raw"
proof -
  have "{k. k < length raw \<and> raw ! k = 46} \<subseteq> {skip_digits raw 0}"
    using literal_units(4) [OF assms] by (auto simp: unit_code_def)
  then have "card {k. k < length raw \<and> raw ! k = 46} \<le> card {skip_digits raw 0}"
    by (intro card_mono) auto
  then show "length (filter (\<lambda>u. u = 46) raw) \<le> 1" by (simp add: length_filter_conv_card)
  show "44 \<notin> set raw"
    using literal_units(3) [OF assms] by (fastforce simp: in_set_conv_nth unit_code_def)
qed

lemma scans_like_printed:
  assumes raw: "is_number_literal raw" and M: "sy_decimal M = [d]" "d = 46 \<or> d = 44"
    and here: "drop i t = map (\<lambda>u. if u = 46 then d else u) raw @ rest" and stop: "stops M rest"
  shows "scans_like t i (unit_code d) raw"
  unfolding scans_like_def
proof (intro allI impI)
  fix k assume "k \<le> length raw"
  let ?f = "\<lambda>u. if u = 46 then d else u"
  have dc: "unit_code d = 46 \<or> unit_code d = 44" using M(2) by (auto simp: unit_code_def)
  consider "k < length raw" | "k = length raw" using \<open>k \<le> length raw\<close> by linarith
  then show "num_class (unit_code d) (code_at t (i + k)) = num_class DOT (code_at raw k)"
  proof cases
    case 1
    note u = literal_units [OF raw 1]
    have "drop (i + k) t = drop k (drop i t)" by (simp add: add.commute)
    also have "\<dots> = drop k (map ?f raw) @ rest" using here 1 by simp
    also have "drop k (map ?f raw) = ?f (raw ! k) # drop (Suc k) (map ?f raw)"
      using Cons_nth_drop_Suc [of k "map ?f raw"] 1 by simp
    finally have dk: "drop (i + k) t = ?f (raw ! k) # (drop (Suc k) (map ?f raw) @ rest)" by simp
    have "unit_code (?f (raw ! k)) < 128" using u(2) dc by auto
    then have c: "code_at t (i + k) = unit_code (?f (raw ! k))"
      using code_at_drop [OF dk] small_unit [of "?f (raw ! k)"] by simp
    show ?thesis
    proof (cases "raw ! k = 46")
      case True
      then show ?thesis using c u(1) dc
        by (auto simp: num_class_def DOT_def is_digit_code_def LOWER_E_def UPPER_E_def unit_code_def)
    next
      case False
      have "unit_code (raw ! k) \<noteq> 46" using False unit_code_eq [of "raw ! k" 46] by auto
      then show ?thesis using False c u(1,3) dc by (auto simp: num_class_def DOT_def)
    qed
  next
    case 2
    have "drop (i + k) t = drop k (drop i t)" by (simp add: add.commute)
    also have "\<dots> = rest" using here 2 by simp
    finally have c: "code_at t (i + k) = (case rest of [] \<Rightarrow> -1 | u # _ \<Rightarrow> unit_code u)"
      by (rule code_at_stop [OF _ stop])
    have "num_class (unit_code d) (code_at t (i + k)) = (False, False, False, False)"
    proof (cases rest)
      case Nil
      then show ?thesis
        using c dc by (auto simp: num_class_def is_digit_code_def LOWER_E_def UPPER_E_def)
    next
      case (Cons u r)
      have "\<not> letter_code (unit_code u)" "\<not> is_digit_code (unit_code u)" "u \<noteq> d"
        "unit_code u \<noteq> 43" "unit_code u \<noteq> 45"
        using stop Cons M(1) by (auto simp: stops_def word_unit_def)
      moreover have "letter_code LOWER_E" "letter_code UPPER_E"
        by (simp_all add: letter_code_def LOWER_E_def UPPER_E_def)
      ultimately show ?thesis using c Cons by (auto simp: num_class_def unit_code_inject)
    qed
    then show ?thesis
      using 2 by (simp add: num_class_def code_at_end DOT_def is_digit_code_def LOWER_E_def UPPER_E_def)
  qed
qed

lemma lexes_number:
  assumes M: "valid_marks M" and raw: "is_number_literal raw"
  shows "lexes M (shown M (NumberNode raw sp)) [(NumberTok, raw)]"
  unfolding lexes_def lexes_at_def
proof (intro allI impI)
  fix rest source i limit and acc :: "expr_token list"
  let ?t = "shown M (NumberNode raw sp)"
  assume stop: "stops M rest" and here: "drop i source = ?t @ rest" 
    and n: "length acc + length [(NumberTok, raw)] \<le> limit"
  obtain d where d: "sy_decimal M = [d]" "d = 46 \<or> d = 44"
    using M by (auto simp: valid_marks_def canonical_syntax_def decimal_comma_def js_def)
  have one: "length (filter (\<lambda>u. u = 46) raw) \<le> 1" "44 \<notin> set raw"
    using literal_one_point [OF raw] by auto
  have t: "?t = map (\<lambda>u. if u = 46 then d else u) raw"
    using d replace_first_map [OF one(1), of 44] by (auto simp: js_def map_idI)
  have undone: "(if unit_code d = 46 then ?t else replace_first d 46 ?t) = raw"
    using d replace_first_back [OF one(2), of 46] by (auto simp: js_def unit_code_def)
  have dc: "code_at (sy_decimal M) 0 = unit_code d"
    using code_at_drop [of 0 "[d]" d "[]"] d(1) by simp
  have like: "scans_like source i (unit_code d) raw"
    using scans_like_printed [OF raw d _ stop] here t by simp
  note num = number_like [OF like raw]
  have len: "length ?t = length raw" using t by simp
  define tok where
    "tok = \<lparr>tk_kind = NumberTok, tk_start = i, tk_end = i + length ?t, tk_text = raw\<rparr>"
  have sl: "slice i (i + length ?t) source = ?t" by (rule slice_drop [OF here])
  have "lex_one source M i = Inr tok"
    using num sl undone len d dc
    by (auto simp: lex_one_def Let_def tok_def DOT_def js_def unit_code_def nat_add_distrib)
  moreover have inside: "i < length source"
    using num(2) code_inside [of source i] dc d
    by (auto simp: starts_number_def is_digit_code_def unit_code_def)
  moreover have "\<not> space_code (code_at source i)"
    using num(2) d by (auto simp: starts_number_def is_digit_code_def space_code_def unit_code_def)
  ultimately have "tokenize_loop source M limit i acc
      = tokenize_loop source M limit (i + length ?t) (acc @ [tok])"
    using tokenize_step [of i source "source ! i" "drop (Suc i) source" M tok acc limit] n
    by (simp add: tok_def Cons_nth_drop_Suc)
  then show "\<exists>toks. map lexeme_of toks = [(NumberTok, raw)] \<and> tokenize_loop source M limit i acc
      = tokenize_loop source M limit (i + length ?t) (acc @ toks)"
    by (intro exI [of _ "[tok]"]) (simp add: lexeme_of_def tok_def)
qed

section \<open>Trees\<close>

text \<open>Trees of a language: literals and names are ones, calls name a function with its arity.\<close>

fun tree_of :: "language \<Rightarrow> expr_node \<Rightarrow> bool" where
  "tree_of L (NumberNode raw _) = is_number_literal raw"
| "tree_of L (NameNode name _) = (is_name name \<and> function_spec L name = None)"
| "tree_of L (UnaryNode _ arg _) = tree_of L arg"
| "tree_of L (BinaryNode op left right implicit _) =
     (tree_of L left \<and> tree_of L right \<and> (implicit \<longrightarrow> op = Mul))"
| "tree_of L (CallNode fn args notation _) =
     ((case function_spec L fn of
         None \<Rightarrow> False
       | Some spec \<Rightarrow> fs_min spec \<le> length args \<and> length args \<le> fs_max spec)
      \<and> (notation = BarsNotation \<longrightarrow> fn = js ''abs'' \<and> length args = 1)
      \<and> (notation = RadicalNotation \<longrightarrow> fn = js ''sqrt'' \<and> length args = 1)
      \<and> list_all (tree_of L) args)"
| "tree_of L (FactorialNode arg _) = tree_of L arg"
| "tree_of L (GroupNode inner _) = tree_of L inner"

text \<open>What \<open>defineLanguage\<close> ensures of the names of functions.\<close>

definition names_ok :: "language \<Rightarrow> bool" where
  "names_ok L \<longleftrightarrow> (\<forall>fn. function_spec L fn \<noteq> None \<longrightarrow> is_name fn)"

lemma unit_code_numeral:
  "unit_code 40 = 40" "unit_code 41 = 41" "unit_code 42 = 42" "unit_code 43 = 43" "unit_code 45 = 45"
  "unit_code 47 = 47" "unit_code 94 = 94" "unit_code 33 = 33" "unit_code 124 = 124"
  "unit_code 32 = 32"
  by (simp_all add: unit_code_def)

lemma sign_texts:
  "js ''('' = [40]" "js '')'' = [41]" "js ''*'' = [42]" "js ''+'' = [43]" "js ''-'' = [45]"
  "js ''/'' = [47]" "js ''^'' = [94]" "js ''!'' = [33]" "js [CHR 0x7C] = [124]" "js '' '' = [32]"
  by (simp_all add: js_def)

lemma lexes_signs:
  assumes "valid_marks M"
  shows "lexes_any M (js ''('') [(OpenTok, js ''('')]" "lexes_any M (js '')'') [(CloseTok, js '')'')]"
    "lexes_any M (js ''*'') [(StarTok, js ''*'')]" "lexes_any M (js ''+'') [(PlusTok, js ''+'')]"
    "lexes_any M (js ''-'') [(MinusTok, js ''-'')]" "lexes_any M (js ''/'') [(SlashTok, js ''/'')]"
    "lexes_any M (js ''^'') [(CaretTok, js ''^'')]" "lexes_any M (js ''!'') [(BangTok, js ''!'')]"
    "lexes_any M (js [CHR 0x7C]) [(BarTok, js [CHR 0x7C])]"
  unfolding sign_texts by (rule lexes_sign [OF assms]; simp add: unit_code_numeral single_kind_def)+

lemma stops_signs:
  assumes "valid_marks M"
  shows "stops M (js '')'' @ r)" "stops M (js ''^'' @ r)" "stops M (js ''!'' @ r)"
    "stops M (js [CHR 0x7C] @ r)" "stops M (js '' '' @ r)" "stops M (js ''('' @ r)"
    "stops M (sy_separator M @ r)"
  using assms unfolding sign_texts
  by (auto simp: stops_def word_unit_def unit_code_def letter_code_def is_digit_code_def is_lead_def
      is_trail_def valid_marks_def canonical_syntax_def decimal_comma_def js_def PI_def)

lemma lexes_op: "valid_marks M \<Longrightarrow> lexes_any M (op_text op) [(op_kind op, op_text op)]"
  by (cases op) (simp_all add: lexes_signs)

lemma lexes_empty: "lexes M [] []"
  by (auto simp: lexes_def lexes_at_def)

lemma text_nonempty: "js (c # cs) \<noteq> []"
  by (simp add: js_def)

lemma lexes_join:
  assumes M: "valid_marks M"
  shows "list_all2 (lexes M) ts ls \<Longrightarrow>
    lexes M (join_texts (sy_separator M @ js '' '') ts) (join_lexemes (SepTok, sy_separator M) ls)"
proof (induction "sy_separator M @ js '' ''" ts arbitrary: ls rule: join_texts.induct)
  case 1
  then show ?case by (simp add: lexes_empty)
next
  case (2 t)
  then show ?case by (auto simp: list_all2_Cons1)
next
  case (3 t t' ts)
  then obtain l l' ls' where l: "ls = l # l' # ls'" "lexes M t l" "list_all2 (lexes M) (t' # ts) (l' # ls')"
    by (auto simp: list_all2_Cons1)
  let ?rest = "join_texts (sy_separator M @ js '' '') (t' # ts)"
  have "lexes M (js '' '' @ ?rest) (join_lexemes (SepTok, sy_separator M) (l' # ls'))"
    using lexes_any_append [OF lexes_space 3(1) [OF l(3)]] by simp
  then have "lexes M (sy_separator M @ js '' '' @ ?rest)
      ([(SepTok, sy_separator M)] @ join_lexemes (SepTok, sy_separator M) (l' # ls'))"
    by (rule lexes_any_append [OF lexes_separator [OF M]])
  then have "lexes M (t @ sy_separator M @ js '' '' @ ?rest)
      (l @ [(SepTok, sy_separator M)] @ join_lexemes (SepTok, sy_separator M) (l' # ls'))"
    using lexes_append [OF l(2) _ stops_signs(7) [OF M]] by (simp add: text_nonempty)
  then show ?case using l(1) by simp
qed

lemma lexes_binary:
  assumes M: "valid_marks M" and a: "lexes M a la" and b: "lexes M b lb"
  shows "lexes M (a @ js '' '' @ op_text op @ js '' '' @ b) (la @ [(op_kind op, op_text op)] @ lb)"
    "lexes M (a @ js ''^'' @ b) (la @ [(CaretTok, js ''^'')] @ lb)"
proof -
  have "lexes M (js '' '' @ op_text op @ js '' '' @ b) ([] @ [(op_kind op, op_text op)] @ [] @ lb)"
    by (intro lexes_any_append lexes_space lexes_op M b)
  then show "lexes M (a @ js '' '' @ op_text op @ js '' '' @ b) (la @ [(op_kind op, op_text op)] @ lb)"
    using lexes_append [OF a _ stops_signs(5) [OF M]] by (simp add: text_nonempty)
  have "lexes M (js ''^'' @ b) ([(CaretTok, js ''^'')] @ lb)"
    by (intro lexes_any_append lexes_signs M b)
  then show "lexes M (a @ js ''^'' @ b) (la @ [(CaretTok, js ''^'')] @ lb)"
    using lexes_append [OF a _ stops_signs(2) [OF M]] by (simp add: text_nonempty)
qed

lemma lexes_enclosed:
  assumes M: "valid_marks M" and a: "lexes M a la"
  shows "lexes M (js ''('' @ a @ js '')'') ([(OpenTok, js ''('')] @ la @ [(CloseTok, js '')'')])"
    "lexes M (js [CHR 0x7C] @ a @ js [CHR 0x7C])
      ([(BarTok, js [CHR 0x7C])] @ la @ [(BarTok, js [CHR 0x7C])])"
    "lexes M (a @ js ''!'') (la @ [(BangTok, js ''!'')])"
proof -
  have close: "lexes M (a @ js '')'') (la @ [(CloseTok, js '')'')])"
    "lexes M (a @ js [CHR 0x7C]) (la @ [(BarTok, js [CHR 0x7C])])"
    "lexes M (a @ js ''!'') (la @ [(BangTok, js ''!'')])"
    using lexes_append [OF a _ _ lexes_any_lexes [OF lexes_signs(2) [OF M]]]
      lexes_append [OF a _ _ lexes_any_lexes [OF lexes_signs(9) [OF M]]]
      lexes_append [OF a _ _ lexes_any_lexes [OF lexes_signs(8) [OF M]]]
      stops_signs [OF M, of "[]"]
    by (simp_all add: text_nonempty)
  show "lexes M (js ''('' @ a @ js '')'') ([(OpenTok, js ''('')] @ la @ [(CloseTok, js '')'')])"
    "lexes M (js [CHR 0x7C] @ a @ js [CHR 0x7C])
      ([(BarTok, js [CHR 0x7C])] @ la @ [(BarTok, js [CHR 0x7C])])"
    "lexes M (a @ js ''!'') (la @ [(BangTok, js ''!'')])"
    by (rule lexes_any_append lexes_signs [OF M] close)+
qed

lemma lexes_shown:
  assumes M: "valid_marks M" and L: "names_ok L"
  shows "tree_of L g \<Longrightarrow> lexes M (shown M g) (tokens_of M g)"
proof (induction g)
  case (NumberNode raw sp)
  then show ?case using lexes_number [OF M, of raw sp] by simp
next
  case (NameNode name sp)
  then show ?case using lexes_name [OF M] by simp
next
  case (UnaryNode op arg sp)
  then have "lexes M (shown M arg) (tokens_of M arg)" by simp
  then show ?case
    using lexes_any_append [OF lexes_signs(5) [OF M]] lexes_any_append [OF lexes_signs(4) [OF M]]
    by (cases op) fastforce+
next
  case (BinaryNode op left right implicit sp)
  then have "lexes M (shown M left) (tokens_of M left)" "lexes M (shown M right) (tokens_of M right)"
    by simp_all
  then show ?case using lexes_binary [OF M] by simp
next
  case (CallNode fn args nt sp)
  have args: "list_all2 (lexes M) (map (shown M) args) (map (tokens_of M) args)"
    using CallNode by (auto simp: list_all2_conv_all_nth list_all_length)
  show ?case
  proof (cases "nt = BarsNotation")
    case True
    then obtain a where "args = [a]" using CallNode.prems by (auto simp: length_Suc_conv)
    then show ?thesis using True args lexes_enclosed(2) [OF M] by simp
  next
    case False
    have "is_name fn" using CallNode.prems L by (auto simp: names_ok_def split: option.splits)
    then have "lexes M fn [(NameTok, fn)]" by (rule lexes_name [OF M])
    then show ?thesis
      using False lexes_append [OF _ _ stops_signs(6) [OF M] lexes_enclosed(1) [OF M lexes_join [OF M args]]]
      by (fastforce simp: text_nonempty)
  qed
next
  case (FactorialNode arg sp)
  then show ?case using lexes_enclosed(3) [OF M] by simp
next
  case (GroupNode inner sp)
  then show ?case using lexes_enclosed(1) [OF M] by simp
qed

lemma tokenize_shown:
  assumes "valid_marks M" "names_ok L" "tree_of L g" "length (tokens_of M g) \<le> limit"
  obtains toks where "map lexeme_of toks = tokens_of M g"
    "tokenize (shown M g) M limit = Inr (toks @ [end_token (shown M g)])"
proof -
  have "lexes_at M (shown M g) (tokens_of M g) []"
    using lexes_shown [OF assms(1-3)] by (simp add: lexes_def stops_def)
  from this [unfolded lexes_at_def, rule_format, of 0 "shown M g" "[]" limit] assms(4)
  obtain toks where t: "map lexeme_of toks = tokens_of M g"
    "tokenize_loop (shown M g) M limit 0 []
       = tokenize_loop (shown M g) M limit (length (shown M g)) toks"
    by auto
  then have "tokenize (shown M g) M limit = Inr (toks @ [end_token (shown M g)])"
    by (simp add: tokenize_def tokenize_loop.simps [of _ _ _ "length (shown M g)"])
  then show thesis using that t(1) by blast
qed

end
