(* ===== verification/ExprReading.thy ===== *)
theory ExprReading
  imports ExprTokens
begin

text \<open>
  What the parser makes of the tokens of a tree: from the tokens of a grammatical tree, with a
  token behind them that does not continue it, each method returns the tree with its spans
  and leaves exactly what follows. The nesting count never refuses such a tree: a level of
  nesting is a level of the tree (or of the call that has no arguments).
\<close>

section \<open>Where the parser stands\<close>

definition ahead :: "parser_env \<Rightarrow> parser_state \<Rightarrow> lexeme list" where
  "ahead G s = map lexeme_of (drop (ps_index s) (pe_tokens G))"

lemma ahead_current:
  assumes "ahead G s = (k, t) # r"
  shows "current_kind G s = k" "tk_text (current_token G s) = t"
    "k \<noteq> EndTok \<Longrightarrow> ahead G (advance G s) = r"
proof -
  have i: "ps_index s < length (pe_tokens G)"
    using assms by (simp add: ahead_def) (metis drop_all list.discI list.simps(8) not_le)
  then have d: "drop (ps_index s) (pe_tokens G)
      = pe_tokens G ! ps_index s # drop (Suc (ps_index s)) (pe_tokens G)"
    by (rule Cons_nth_drop_Suc [symmetric])
  have c: "current_token G s = pe_tokens G ! ps_index s" using i by (simp add: current_token_def)
  show k: "current_kind G s = k" "tk_text (current_token G s) = t"
    using assms by (simp_all add: ahead_def d c lexeme_of_def)
  show "ahead G (advance G s) = r" if "k \<noteq> EndTok"
    using assms k(1) that by (simp add: ahead_def d advance_def)
qed

lemma advance_frame [simp]:
  "ps_nodes (advance G s) = ps_nodes s" "ps_nest (advance G s) = ps_nest s"
  "ps_depth (advance G s) = ps_depth s" "ps_contexts (advance G s) = ps_contexts s"
  "ps_warnings (advance G s) = ps_warnings s"
  by (simp_all add: advance_def)

lemma ahead_frame [simp]:
  "ahead G (s\<lparr>ps_nodes := n\<rparr>) = ahead G s" "ahead G (s\<lparr>ps_depth := d\<rparr>) = ahead G s"
  "ahead G (s\<lparr>ps_nest := m\<rparr>) = ahead G s" "ahead G (s\<lparr>ps_contexts := c\<rparr>) = ahead G s"
  "ahead G (leave_nest s) = ahead G s" "ahead G (push_context x s) = ahead G s"
  "ahead G (pop_context s) = ahead G s"
  by (simp_all add: ahead_def leave_nest_def push_context_def pop_context_def)

lemma nest_frame [simp]:
  "ps_nodes (leave_nest s) = ps_nodes s" "ps_nest (leave_nest s) = ps_nest s - 1"
  "ps_depth (leave_nest s) = ps_depth s" "ps_contexts (leave_nest s) = ps_contexts s"
  "ps_warnings (leave_nest s) = ps_warnings s"
  "ps_nodes (push_context c s) = ps_nodes s" "ps_nest (push_context c s) = ps_nest s"
  "ps_depth (push_context c s) = ps_depth s" "ps_contexts (push_context c s) = c # ps_contexts s"
  "ps_warnings (push_context c s) = ps_warnings s"
  "ps_nodes (pop_context s) = ps_nodes s" "ps_nest (pop_context s) = ps_nest s"
  "ps_depth (pop_context s) = ps_depth s" "ps_contexts (pop_context s) = tl (ps_contexts s)"
  "ps_warnings (pop_context s) = ps_warnings s"
  by (simp_all add: leave_nest_def push_context_def pop_context_def)

fun strip :: "expr_node \<Rightarrow> expr_node" where
  "strip (NumberNode raw _) = NumberNode raw no_span"
| "strip (NameNode name _) = NameNode name no_span"
| "strip (UnaryNode op arg _) = UnaryNode op (strip arg) no_span"
| "strip (BinaryNode op left right implicit _) =
     BinaryNode op (strip left) (strip right) implicit no_span"
| "strip (CallNode fn args notation _) = CallNode fn (map strip args) notation no_span"
| "strip (FactorialNode arg _) = FactorialNode (strip arg) no_span"
| "strip (GroupNode inner _) = GroupNode (strip inner) no_span"

text \<open>The depth as the nesting count sees it: a call without arguments is one level deeper.\<close>

fun nest_depth :: "expr_node \<Rightarrow> nat" where
  "nest_depth (NumberNode _ _) = 1"
| "nest_depth (NameNode _ _) = 1"
| "nest_depth (UnaryNode _ arg _) = 1 + nest_depth arg"
| "nest_depth (BinaryNode _ left right _ _) = 1 + max (nest_depth left) (nest_depth right)"
| "nest_depth (CallNode _ args _ _) = 1 + foldr max (map nest_depth args) 1"
| "nest_depth (FactorialNode arg _) = 1 + nest_depth arg"
| "nest_depth (GroupNode inner _) = 1 + nest_depth inner"

lemma nest_depth_pos: "1 \<le> nest_depth g"
  by (cases g) auto

lemma foldr_max_ge: "n \<le> foldr max ns (n::nat)"
  by (induction ns) auto

lemma foldr_max_mem: "m \<in> set ns \<Longrightarrow> m \<le> foldr max ns (n::nat)"
  by (induction ns) auto

lemma foldr_max_mono:
  "list_all (\<lambda>a. f a \<le> g a) xs \<Longrightarrow> m \<le> n \<Longrightarrow> foldr max (map f xs) m \<le> foldr max (map g xs) (n::nat)"
  by (induction xs) auto

lemma node_depth_le: "node_depth g \<le> nest_depth g"
proof (induction g)
  case (CallNode fn args nt sp)
  then have "list_all (\<lambda>a. node_depth a \<le> nest_depth a) args" by (simp add: list_all_iff)
  then show ?case using foldr_max_mono [of node_depth nest_depth args 0 1] by simp
qed auto

text \<open>A tree in the form the parser builds from explicit text, without its spans.\<close>

fun plain :: "expr_node \<Rightarrow> bool" where
  "plain (NumberNode _ sp) = (sp = no_span)"
| "plain (NameNode _ sp) = (sp = no_span)"
| "plain (UnaryNode _ arg sp) = (plain arg \<and> sp = no_span)"
| "plain (BinaryNode _ left right implicit sp) =
     (plain left \<and> plain right \<and> \<not> implicit \<and> sp = no_span)"
| "plain (CallNode _ args notation sp) =
     (list_all plain args \<and> notation \<noteq> RadicalNotation \<and> sp = no_span)"
| "plain (FactorialNode arg sp) = (plain arg \<and> sp = no_span)"
| "plain (GroupNode inner sp) = (plain inner \<and> sp = no_span)"

definition fits :: "parser_env \<Rightarrow> parser_state \<Rightarrow> expr_node \<Rightarrow> bool" where
  "fits G s g \<longleftrightarrow> ps_nodes s + count_nodes g \<le> bg_nodes (pe_limits G)
     \<and> ps_nest s + nest_depth g \<le> bg_depth (pe_limits G)"

definition arrives ::
  "parser_env \<Rightarrow> parser_state \<Rightarrow> expr_node \<Rightarrow> lexeme list \<Rightarrow> expr_node \<Rightarrow> parser_state \<Rightarrow> bool" where
  "arrives G s g rest n s' \<longleftrightarrow>
     strip n = g \<and> ahead G s' = rest \<and> ps_nodes s' = ps_nodes s + count_nodes g
     \<and> ps_depth s' = node_depth g \<and> ps_nest s' = ps_nest s \<and> ps_contexts s' = ps_contexts s
     \<and> ps_warnings s' = ps_warnings s"

section \<open>What may follow\<close>

definition closer :: "parser_state \<Rightarrow> token_kind \<Rightarrow> bool" where
  "closer s k \<longleftrightarrow> k \<in> {EndTok, CloseTok, SepTok, EqualsTok}
     \<or> (k = BarTok \<and> (\<exists>cs. ps_contexts s = BarContext # cs))"

definition after_product :: "parser_state \<Rightarrow> token_kind \<Rightarrow> bool" where
  "after_product s k \<longleftrightarrow> closer s k \<or> k = PlusTok \<or> k = MinusTok"

definition after_unary :: "parser_state \<Rightarrow> token_kind \<Rightarrow> bool" where
  "after_unary s k \<longleftrightarrow> after_product s k \<or> k = StarTok \<or> k = SlashTok"

definition after_primary :: "parser_state \<Rightarrow> token_kind \<Rightarrow> bool" where
  "after_primary s k \<longleftrightarrow> after_unary s k \<or> k = CaretTok \<or> k = BangTok"

lemmas after_defs = closer_def after_product_def after_unary_def after_primary_def

definition followed ::
  "(parser_state \<Rightarrow> token_kind \<Rightarrow> bool) \<Rightarrow> parser_state \<Rightarrow> lexeme list \<Rightarrow> bool" where
  "followed A s rest \<longleftrightarrow> (case rest of [] \<Rightarrow> False | (k, t) # _ \<Rightarrow> A s k)"

lemma followed_Cons [simp]: "followed A s ((k, t) # r) = A s k"
  by (simp add: followed_def)

lemma followed_weaken:
  "followed closer s rest \<Longrightarrow> followed after_product s rest"
  "followed after_product s rest \<Longrightarrow> followed after_unary s rest"
  "followed after_unary s rest \<Longrightarrow> followed after_primary s rest"
  by (auto simp: followed_def after_defs split: list.splits)

lemma followed_kind:
  assumes "followed A s rest" "ahead G s' = rest" "ps_contexts s' = ps_contexts s"
    "A = closer \<or> A = after_product \<or> A = after_unary \<or> A = after_primary"
  shows "A s' (current_kind G s')"
proof -
  obtain k t r where r: "rest = (k, t) # r" "A s k"
    using assms(1) by (auto simp: followed_def split: list.splits)
  then show ?thesis
    using assms(2-4) ahead_current(1) [of G s' k t r] by (auto simp: after_defs)
qed

section \<open>Steps of the parser\<close>

lemma finish_ok:
  "ps_nodes s < bg_nodes (pe_limits G) \<Longrightarrow> d \<le> bg_depth (pe_limits G) \<Longrightarrow>
     finish G n d s = Inr (n, s\<lparr>ps_nodes := ps_nodes s + 1, ps_depth := d\<rparr>)"
  by (simp add: finish_def Let_def)

lemma enter_ok:
  "ps_nest s + 2 \<le> bg_depth (pe_limits G) \<Longrightarrow> enter G s = Inr (s\<lparr>ps_nest := ps_nest s + 1\<rparr>)"
  by (simp add: enter_def)

lemma binary_arrives:
  assumes l: "arrives G s a rest_a na sa" and r: "arrives G (advance G sa) b rest nb sb"
    and f: "fits G s (BinaryNode op a b False no_span)"
  shows "\<exists>n s'. binary G op na nb False (ps_depth sa) sb = Inr (n, s')
     \<and> arrives G s (BinaryNode op a b False no_span) rest n s'"
proof -
  have "max (node_depth a) (node_depth b) + 1 \<le> bg_depth (pe_limits G)"
    using f node_depth_le [of a] node_depth_le [of b] by (auto simp: fits_def)
  then show ?thesis
    using assms by (auto simp: binary_def arrives_def fits_def finish_ok)
qed

lemma postfix_stop:
  "current_kind G s \<noteq> BangTok \<Longrightarrow> postfix_loop G n s = Inr (n, s)"
  by (simp add: postfix_loop.simps Let_def)

lemma product_stop:
  assumes "after_product s (current_kind G s)"
  shows "parse_product_loop G n s = Inr (n, s)"
proof -
  have k: "current_kind G s \<noteq> StarTok" "current_kind G s \<noteq> SlashTok" "current_kind G s \<noteq> NumberTok"
    "\<not> starts_implicit s (current_kind G s)"
    using assms by (auto simp: after_defs starts_implicit_def)
  then show ?thesis by (simp add: parse_product_loop.simps Let_def)
qed

lemma sum_stop:
  "closer s (current_kind G s) \<Longrightarrow> parse_sum_loop G n s = Inr (n, s)"
  by (auto simp: parse_sum_loop.simps Let_def closer_def)

section \<open>Reading a tree at each level of the grammar\<close>

text \<open>
  \<open>reads_by m A\<close>: the method \<open>m\<close> returns the tree when \<open>A\<close> allows what follows;
  \<open>goes_on m k A\<close>: the method gets to its loop \<open>k\<close> with the tree read.
\<close>

definition reads_by ::
  "(parser_env \<Rightarrow> parser_state \<Rightarrow> expr_node parsed) \<Rightarrow> (parser_state \<Rightarrow> token_kind \<Rightarrow> bool)
   \<Rightarrow> parser_env \<Rightarrow> syntax_marks \<Rightarrow> expr_node \<Rightarrow> bool" where
  "reads_by m A G M g \<longleftrightarrow>
     (\<forall>s rest. ahead G s = tokens_of M g @ rest \<longrightarrow> followed A s rest \<longrightarrow> fits G s g \<longrightarrow>
        (\<exists>n s'. m G s = Inr (n, s') \<and> arrives G s g rest n s'))"

definition goes_on ::
  "(parser_env \<Rightarrow> parser_state \<Rightarrow> expr_node parsed)
   \<Rightarrow> (parser_env \<Rightarrow> expr_node \<Rightarrow> parser_state \<Rightarrow> expr_node parsed)
   \<Rightarrow> (parser_state \<Rightarrow> token_kind \<Rightarrow> bool)
   \<Rightarrow> parser_env \<Rightarrow> syntax_marks \<Rightarrow> expr_node \<Rightarrow> bool" where
  "goes_on m k A G M g \<longleftrightarrow>
     (\<forall>s rest. ahead G s = tokens_of M g @ rest \<longrightarrow> followed A s rest \<longrightarrow> fits G s g \<longrightarrow>
        (\<exists>n s'. m G s = k G n s' \<and> arrives G s g rest n s'))"

abbreviation "reads_primary \<equiv> reads_by parse_primary after_primary"
abbreviation "reads_postfix \<equiv> goes_on parse_postfix postfix_loop after_primary"
abbreviation "reads_power \<equiv> reads_by parse_power after_unary"
abbreviation "reads_unary \<equiv> reads_by parse_unary after_unary"
abbreviation "reads_product \<equiv> goes_on parse_product parse_product_loop after_unary"
abbreviation "reads_sum \<equiv> goes_on parse_sum parse_sum_loop after_product"

lemma reads_byD:
  assumes "reads_by m A G M g" "ahead G s = tokens_of M g @ rest" "followed A s rest" "fits G s g"
  obtains n s' where "m G s = Inr (n, s')" "arrives G s g rest n s'"
  using assms unfolding reads_by_def by blast

lemma goes_onD:
  assumes "goes_on m k A G M g" "ahead G s = tokens_of M g @ rest" "followed A s rest" "fits G s g"
  obtains n s' where "m G s = k G n s'" "arrives G s g rest n s'"
  using assms unfolding goes_on_def by blast

lemma arrivesD:
  assumes "arrives G s g rest n s'"
  shows "strip n = g" "ahead G s' = rest" "ps_nodes s' = ps_nodes s + count_nodes g"
    "ps_depth s' = node_depth g" "ps_nest s' = ps_nest s" "ps_contexts s' = ps_contexts s"
    "ps_warnings s' = ps_warnings s"
  using assms by (simp_all add: arrives_def)

lemma arrives_kind:
  assumes "arrives G s g rest n s'" "followed A s rest"
    "A = closer \<or> A = after_product \<or> A = after_unary \<or> A = after_primary"
  shows "A s' (current_kind G s')"
  using followed_kind [OF assms(2) _ _ assms(3)] arrivesD [OF assms(1)] by blast

text \<open>A tree of a level is read by every lower method.\<close>

lemma postfix_of_primary:
  assumes "reads_primary G M g"
  shows "reads_postfix G M g"
  unfolding goes_on_def
proof (intro allI impI)
  fix s rest assume a: "ahead G s = tokens_of M g @ rest" "followed after_primary s rest" "fits G s g"
  obtain n s' where "parse_primary G s = Inr (n, s')" "arrives G s g rest n s'"
    using reads_byD [OF assms a] .
  then show "\<exists>n s'. parse_postfix G s = postfix_loop G n s' \<and> arrives G s g rest n s'"
    by (auto simp: parse_postfix.simps [of G s])
qed

lemma power_of_postfix:
  assumes "reads_postfix G M g"
  shows "reads_power G M g"
  unfolding reads_by_def
proof (intro allI impI)
  fix s rest assume a: "ahead G s = tokens_of M g @ rest" "followed after_unary s rest" "fits G s g"
  obtain n s' where r: "parse_postfix G s = postfix_loop G n s'" "arrives G s g rest n s'"
    using goes_onD [OF assms a(1) followed_weaken(3) [OF a(2)] a(3)] .
  have "after_unary s' (current_kind G s')" using arrives_kind [OF r(2) a(2)] by simp
  then have "current_kind G s' \<noteq> BangTok" "current_kind G s' \<noteq> CaretTok" by (auto simp: after_defs)
  then show "\<exists>n s'. parse_power G s = Inr (n, s') \<and> arrives G s g rest n s'"
    using r by (auto simp: parse_power.simps [of G s] postfix_stop)
qed

lemma first_token:
  assumes "grammatical g" "tree_of L g"
  shows "\<exists>k t r. tokens_of M g = (k, t) # r
    \<and> k \<in> {NumberTok, NameTok, OpenTok, BarTok, MinusTok, PlusTok}
    \<and> (level g \<ge> 4 \<longrightarrow> k \<noteq> MinusTok \<and> k \<noteq> PlusTok)"
  using assms
proof (induction g)
  case (BinaryNode op left right implicit sp)
  then have "level left \<ge> 4" if "level (BinaryNode op left right implicit sp) \<ge> 4"
    using that by (cases op) auto
  then show ?case using BinaryNode by fastforce
qed (auto split: unary_op.splits)

lemma first_token_ahead:
  assumes "grammatical g" "tree_of L g" "ahead G s = tokens_of M g @ rest"
  shows "current_kind G s \<in> {NumberTok, NameTok, OpenTok, BarTok, MinusTok, PlusTok}"
    "level g \<ge> 4 \<Longrightarrow> current_kind G s \<noteq> MinusTok \<and> current_kind G s \<noteq> PlusTok"
proof -
  obtain k t r where "tokens_of M g = (k, t) # r"
    "k \<in> {NumberTok, NameTok, OpenTok, BarTok, MinusTok, PlusTok}"
    "level g \<ge> 4 \<longrightarrow> k \<noteq> MinusTok \<and> k \<noteq> PlusTok"
    using first_token [OF assms(1,2)] by blast
  then show "current_kind G s \<in> {NumberTok, NameTok, OpenTok, BarTok, MinusTok, PlusTok}"
    "level g \<ge> 4 \<Longrightarrow> current_kind G s \<noteq> MinusTok \<and> current_kind G s \<noteq> PlusTok"
    using ahead_current(1) [of G s k t "r @ rest"] assms(3) by auto
qed

lemma unary_of_power:
  assumes "reads_power G M g" "grammatical g" "tree_of L g" "level g \<ge> 4"
  shows "reads_unary G M g"
  unfolding reads_by_def
proof (intro allI impI)
  fix s rest assume a: "ahead G s = tokens_of M g @ rest" "followed after_unary s rest" "fits G s g"
  have "parse_unary G s = parse_power G s"
    using first_token_ahead(2) [OF assms(2,3) a(1) assms(4)] by (simp add: parse_unary.simps Let_def)
  then show "\<exists>n s'. parse_unary G s = Inr (n, s') \<and> arrives G s g rest n s'"
    using reads_byD [OF assms(1) a] by metis
qed

lemma product_of_unary:
  assumes "reads_unary G M g"
  shows "reads_product G M g"
  unfolding goes_on_def
proof (intro allI impI)
  fix s rest assume a: "ahead G s = tokens_of M g @ rest" "followed after_unary s rest" "fits G s g"
  obtain n s' where "parse_unary G s = Inr (n, s')" "arrives G s g rest n s'"
    using reads_byD [OF assms a] .
  then show "\<exists>n s'. parse_product G s = parse_product_loop G n s' \<and> arrives G s g rest n s'"
    by (auto simp: parse_product.simps [of G s])
qed

lemma product_done:
  assumes "reads_product G M g"
  shows "reads_by parse_product after_product G M g"
  unfolding reads_by_def
proof (intro allI impI)
  fix s rest assume a: "ahead G s = tokens_of M g @ rest" "followed after_product s rest" "fits G s g"
  obtain n s' where r: "parse_product G s = parse_product_loop G n s'" "arrives G s g rest n s'"
    using goes_onD [OF assms a(1) followed_weaken(2) [OF a(2)] a(3)] .
  have "after_product s' (current_kind G s')" using arrives_kind [OF r(2) a(2)] by simp
  then show "\<exists>n s'. parse_product G s = Inr (n, s') \<and> arrives G s g rest n s'"
    using r by (auto simp: product_stop)
qed

lemma sum_of_product:
  assumes "reads_product G M g"
  shows "reads_sum G M g"
  unfolding goes_on_def
proof (intro allI impI)
  fix s rest assume a: "ahead G s = tokens_of M g @ rest" "followed after_product s rest" "fits G s g"
  obtain n s' where "parse_product G s = Inr (n, s')" "arrives G s g rest n s'"
    using reads_byD [OF product_done [OF assms] a] .
  then show "\<exists>n s'. parse_sum G s = parse_sum_loop G n s' \<and> arrives G s g rest n s'"
    by (auto simp: parse_sum.simps [of G s])
qed

lemma sum_done:
  assumes "reads_sum G M g"
  shows "reads_by parse_sum closer G M g"
  unfolding reads_by_def
proof (intro allI impI)
  fix s rest assume a: "ahead G s = tokens_of M g @ rest" "followed closer s rest" "fits G s g"
  obtain n s' where r: "parse_sum G s = parse_sum_loop G n s'" "arrives G s g rest n s'"
    using goes_onD [OF assms a(1) followed_weaken(1) [OF a(2)] a(3)] .
  have "closer s' (current_kind G s')" using arrives_kind [OF r(2) a(2)] by simp
  then show "\<exists>n s'. parse_sum G s = Inr (n, s') \<and> arrives G s g rest n s'"
    using r by (auto simp: sum_stop)
qed

text \<open>All the levels a tree has.\<close>

definition readable :: "parser_env \<Rightarrow> syntax_marks \<Rightarrow> expr_node \<Rightarrow> bool" where
  "readable G M g \<longleftrightarrow>
     (level g \<ge> 6 \<longrightarrow> reads_primary G M g) \<and> (level g \<ge> 5 \<longrightarrow> reads_postfix G M g)
     \<and> (level g \<ge> 4 \<longrightarrow> reads_power G M g) \<and> (level g \<ge> 3 \<longrightarrow> reads_unary G M g)
     \<and> (level g \<ge> 2 \<longrightarrow> reads_product G M g) \<and> reads_sum G M g"

lemma readable_levels:
  assumes "grammatical g" "tree_of L g"
  shows "level g = 6 \<Longrightarrow> reads_primary G M g \<Longrightarrow> readable G M g"
    "level g = 5 \<Longrightarrow> reads_postfix G M g \<Longrightarrow> readable G M g"
    "level g = 4 \<Longrightarrow> reads_power G M g \<Longrightarrow> readable G M g"
    "level g = 3 \<Longrightarrow> reads_unary G M g \<Longrightarrow> readable G M g"
    "level g = 2 \<Longrightarrow> reads_product G M g \<Longrightarrow> readable G M g"
    "level g = 1 \<Longrightarrow> reads_sum G M g \<Longrightarrow> readable G M g"
proof -
  have u: "reads_unary G M g \<Longrightarrow> reads_product G M g \<and> reads_sum G M g"
    using product_of_unary sum_of_product by blast
  have p: "4 \<le> level g \<Longrightarrow> reads_power G M g \<Longrightarrow> reads_unary G M g \<and> reads_product G M g \<and> reads_sum G M g"
    using unary_of_power [OF _ assms] u by blast
  have f: "4 \<le> level g \<Longrightarrow> reads_postfix G M g \<Longrightarrow> reads_power G M g \<and> reads_unary G M g
      \<and> reads_product G M g \<and> reads_sum G M g"
    using power_of_postfix p by blast
  show "level g = 6 \<Longrightarrow> reads_primary G M g \<Longrightarrow> readable G M g"
    using postfix_of_primary [of G M g] f by (simp add: readable_def)
  show "level g = 5 \<Longrightarrow> reads_postfix G M g \<Longrightarrow> readable G M g" using f by (simp add: readable_def)
  show "level g = 4 \<Longrightarrow> reads_power G M g \<Longrightarrow> readable G M g" using p by (simp add: readable_def)
  show "level g = 3 \<Longrightarrow> reads_unary G M g \<Longrightarrow> readable G M g" using u by (simp add: readable_def)
  show "level g = 2 \<Longrightarrow> reads_product G M g \<Longrightarrow> readable G M g"
    using sum_of_product by (simp add: readable_def)
  show "level g = 1 \<Longrightarrow> reads_sum G M g \<Longrightarrow> readable G M g" by (simp add: readable_def)
qed

section \<open>Every kind of node\<close>

lemma number_readable:
  assumes "is_number_literal raw"
  shows "readable G M (NumberNode raw no_span)"
proof (rule readable_levels(1))
  show "reads_primary G M (NumberNode raw no_span)"
    unfolding reads_by_def
  proof (intro allI impI)
    fix s rest assume a: "ahead G s = tokens_of M (NumberNode raw no_span) @ rest"
      "fits G s (NumberNode raw no_span)"
    have "ahead G s = (NumberTok, raw) # rest" using a(1) by simp
    note c = ahead_current [OF this]
    show "\<exists>n s'. parse_primary G s = Inr (n, s') \<and> arrives G s (NumberNode raw no_span) rest n s'"
      using a(2) c by (simp add: parse_primary.simps Let_def fits_def finish_ok arrives_def)
  qed
qed (use assms in auto)

lemma name_readable:
  assumes "is_name name" "function_spec (pe_language G) name = None"
  shows "readable G M (NameNode name no_span)"
proof (rule readable_levels(1) [of _ "pe_language G"])
  show "reads_primary G M (NameNode name no_span)"
    unfolding reads_by_def
  proof (intro allI impI)
    fix s rest assume a: "ahead G s = tokens_of M (NameNode name no_span) @ rest"
      "followed after_primary s rest" "fits G s (NameNode name no_span)"
    have "ahead G s = (NameTok, name) # rest" using a(1) by simp
    note c = ahead_current [OF this]
    have "after_primary (advance G s) (current_kind G (advance G s))"
      using followed_kind [OF a(2) c(3)] by simp
    then have "current_kind G (advance G s) \<noteq> OpenTok" by (auto simp: after_defs)
    then show "\<exists>n s'. parse_primary G s = Inr (n, s') \<and> arrives G s (NameNode name no_span) rest n s'"
      using a(3) c assms(2)
      by (simp add: parse_primary.simps parse_name.simps Let_def fits_def finish_ok arrives_def)
  qed
qed (use assms in auto)

lemma factorial_readable:
  assumes g: "grammatical (FactorialNode a no_span)" and t: "tree_of L (FactorialNode a no_span)"
    and r: "readable G M a"
  shows "readable G M (FactorialNode a no_span)"
proof (rule readable_levels(2) [OF g t])
  have ra: "reads_postfix G M a" using r g by (simp add: readable_def)
  show "reads_postfix G M (FactorialNode a no_span)"
    unfolding goes_on_def
  proof (intro allI impI)
    fix s rest assume a: "ahead G s = tokens_of M (FactorialNode a no_span) @ rest"
      "fits G s (FactorialNode a no_span)"
    have h: "ahead G s = tokens_of M a @ ((BangTok, js ''!'') # rest)" using a(1) by simp
    obtain n s1 where p: "parse_postfix G s = postfix_loop G n s1"
      "arrives G s a ((BangTok, js ''!'') # rest) n s1"
      by (rule goes_onD [OF ra h]) (use a(2) in \<open>auto simp: after_defs fits_def\<close>)
    note c = ahead_current [OF arrivesD(2) [OF p(2)]]
    have "node_depth a + 1 \<le> bg_depth (pe_limits G)"
      using a(2) node_depth_le [of a] by (simp add: fits_def)
    then have f: "ps_nodes s1 < bg_nodes (pe_limits G)" "ps_depth s1 + 1 \<le> bg_depth (pe_limits G)"
      using a(2) arrivesD [OF p(2)] by (simp_all add: fits_def)
    let ?n = "FactorialNode n
      \<lparr>sp_start = sp_start (node_span n), sp_end = tk_end (current_token G s1)\<rparr>"
    let ?s = "(advance G s1)\<lparr>ps_nodes := ps_nodes s1 + 1, ps_depth := ps_depth s1 + 1\<rparr>"
    have "parse_postfix G s = postfix_loop G ?n ?s"
      using p(1) c(1) f by (simp add: postfix_loop.simps [of G n s1] Let_def finish_ok)
    moreover have "arrives G s (FactorialNode a no_span) rest ?n ?s"
      using arrivesD [OF p(2)] c by (simp add: arrives_def)
    ultimately show "\<exists>n s'. parse_postfix G s = postfix_loop G n s' \<and> arrives G s (FactorialNode a no_span) rest n s'"
      by blast
  qed
qed simp

lemma unary_readable:
  assumes g: "grammatical (UnaryNode op a no_span)" and t: "tree_of L (UnaryNode op a no_span)"
    and r: "readable G M a"
  shows "readable G M (UnaryNode op a no_span)"
proof (rule readable_levels(4) [OF g t])
  let ?u = "UnaryNode op a no_span"
  have ra: "reads_unary G M a" using r g by (simp add: readable_def)
  show "reads_unary G M ?u"
    unfolding reads_by_def
  proof (intro allI impI)
    fix s rest assume a: "ahead G s = tokens_of M ?u @ rest" "followed after_unary s rest" "fits G s ?u"
    obtain k x where k: "ahead G s = (k, x) # (tokens_of M a @ rest)" "k = MinusTok \<or> k = PlusTok"
      "(k = MinusTok) = (op = UMinus)"
      using a(1) by (cases op) auto
    note c = ahead_current [OF k(1)]
    let ?s1 = "(advance G s)\<lparr>ps_nest := ps_nest s + 1\<rparr>"
    have e: "enter G (advance G s) = Inr ?s1"
      using a(3) nest_depth_pos [of a] by (simp add: fits_def enter_ok)
    have h: "ahead G ?s1 = tokens_of M a @ rest" using c(3) k(2) by auto
    have "followed after_unary ?s1 rest"
      using a(2) by (auto simp: followed_def after_defs split: list.splits)
    moreover have "fits G ?s1 a" using a(3) by (simp add: fits_def)
    ultimately obtain n s2 where p: "parse_unary G ?s1 = Inr (n, s2)" "arrives G ?s1 a rest n s2"
      using reads_byD [OF ra h] by blast
    have "node_depth a + 1 \<le> bg_depth (pe_limits G)"
      using a(3) node_depth_le [of a] by (simp add: fits_def)
    then show "\<exists>n s'. parse_unary G s = Inr (n, s') \<and> arrives G s ?u rest n s'"
      using p a(3) c k(2,3) e
      by (cases op) (auto simp: parse_unary.simps [of G s] Let_def fits_def finish_ok arrives_def)
  qed
qed simp

lemma pow_readable:
  assumes g: "grammatical (BinaryNode Pow a b False no_span)"
    and t: "tree_of L (BinaryNode Pow a b False no_span)"
    and r: "readable G M a" "readable G M b"
  shows "readable G M (BinaryNode Pow a b False no_span)"
proof (rule readable_levels(3) [OF g t])
  let ?p = "BinaryNode Pow a b False no_span"
  have ra: "reads_postfix G M a" and rb: "reads_unary G M b"
    using r g by (simp_all add: readable_def)
  show "reads_power G M ?p"
    unfolding reads_by_def
  proof (intro allI impI)
    fix s rest assume a: "ahead G s = tokens_of M ?p @ rest" "followed after_unary s rest" "fits G s ?p"
    let ?caret = "(CaretTok, js ''^'')"
    have h: "ahead G s = tokens_of M a @ (?caret # (tokens_of M b @ rest))" using a(1) by simp
    obtain n s1 where p: "parse_postfix G s = postfix_loop G n s1"
      "arrives G s a (?caret # (tokens_of M b @ rest)) n s1"
      by (rule goes_onD [OF ra h]) (use a(3) in \<open>auto simp: after_defs fits_def\<close>)
    note c = ahead_current [OF arrivesD(2) [OF p(2)]]
    let ?s2 = "(advance G s1)\<lparr>ps_nest := ps_nest s1 + 1\<rparr>"
    have e: "enter G (advance G s1) = Inr ?s2"
      using a(3) nest_depth_pos [of b] arrivesD(5) [OF p(2)]
      by (intro trans [OF enter_ok]) (auto simp: fits_def max_def split: if_splits)
    have "followed after_unary ?s2 rest"
      using a(2) p(2) by (auto simp: followed_def after_defs arrives_def split: list.splits)
    moreover have "fits G ?s2 b" using a(3) p(2) by (auto simp: fits_def arrives_def)
    moreover have "ahead G ?s2 = tokens_of M b @ rest" using c(3) by simp
    ultimately obtain m s3 where q: "parse_unary G ?s2 = Inr (m, s3)" "arrives G ?s2 b rest m s3"
      using reads_byD [OF rb] by blast
    have "max (node_depth a) (node_depth b) + 1 \<le> bg_depth (pe_limits G)"
      using a(3) node_depth_le [of a] node_depth_le [of b] by (auto simp: fits_def)
    then show "\<exists>n s'. parse_power G s = Inr (n, s') \<and> arrives G s ?p rest n s'"
      using p q a(3) c e
      by (auto simp: parse_power.simps [of G s] postfix_stop binary_def fits_def finish_ok arrives_def)
  qed
qed simp

lemma product_readable:
  assumes op: "op = Mul \<or> op = Div"
    and g: "grammatical (BinaryNode op a b False no_span)"
    and t: "tree_of L (BinaryNode op a b False no_span)"
    and r: "readable G M a" "readable G M b"
  shows "readable G M (BinaryNode op a b False no_span)"
proof (rule readable_levels(5) [OF g t])
  let ?p = "BinaryNode op a b False no_span"
  show "level ?p = 2" using op by auto
  have lv: "left_level op = 2" "right_level op = 3" using op by auto
  have ra: "reads_product G M a" and rb: "reads_unary G M b"
    using r g lv by (simp_all add: readable_def)
  show "reads_product G M ?p"
    unfolding goes_on_def
  proof (intro allI impI)
    fix s rest assume a: "ahead G s = tokens_of M ?p @ rest" "followed after_unary s rest" "fits G s ?p"
    let ?sign = "(op_kind op, op_text op)"
    have h: "ahead G s = tokens_of M a @ (?sign # (tokens_of M b @ rest))" using a(1) by simp
    obtain n s1 where p: "parse_product G s = parse_product_loop G n s1"
      "arrives G s a (?sign # (tokens_of M b @ rest)) n s1"
      by (rule goes_onD [OF ra h]) (use a(3) op in \<open>auto simp: after_defs fits_def\<close>)
    note c = ahead_current [OF arrivesD(2) [OF p(2)]]
    have k: "op_kind op = StarTok \<or> op_kind op = SlashTok" "op_kind op \<noteq> EndTok"
      "(if op_kind op = StarTok then Mul else Div) = op"
      using op by auto
    have "followed after_unary (advance G s1) rest"
      using a(2) p(2) by (auto simp: followed_def after_defs arrives_def split: list.splits)
    moreover have "fits G (advance G s1) b" using a(3) p(2) by (auto simp: fits_def arrives_def)
    ultimately obtain m s2 where q: "parse_unary G (advance G s1) = Inr (m, s2)"
      "arrives G (advance G s1) b rest m s2"
      using reads_byD [OF rb c(3) [OF k(2)]] by blast
    obtain n' s3 where "binary G op n m False (ps_depth s1) s2 = Inr (n', s3)" "arrives G s ?p rest n' s3"
      using binary_arrives [OF p(2) q(2) a(3)] by blast
    then show "\<exists>n s'. parse_product G s = parse_product_loop G n s' \<and> arrives G s ?p rest n s'"
      using p(1) q(1) c(1) k by (auto simp: parse_product_loop.simps [of G n s1] Let_def)
  qed
qed

lemma sum_readable:
  assumes op: "op = Add \<or> op = Sub"
    and g: "grammatical (BinaryNode op a b False no_span)"
    and t: "tree_of L (BinaryNode op a b False no_span)"
    and r: "readable G M a" "readable G M b"
  shows "readable G M (BinaryNode op a b False no_span)"
proof (rule readable_levels(6) [OF g t])
  let ?p = "BinaryNode op a b False no_span"
  show "level ?p = 1" using op by auto
  have lv: "left_level op = 1" "right_level op = 2" using op by auto
  have ra: "reads_sum G M a" and rb: "reads_by parse_product after_product G M b"
    using r g lv by (simp_all add: readable_def product_done)
  show "reads_sum G M ?p"
    unfolding goes_on_def
  proof (intro allI impI)
    fix s rest assume a: "ahead G s = tokens_of M ?p @ rest" "followed after_product s rest" "fits G s ?p"
    let ?sign = "(op_kind op, op_text op)"
    have h: "ahead G s = tokens_of M a @ (?sign # (tokens_of M b @ rest))" using a(1) by simp
    obtain n s1 where p: "parse_sum G s = parse_sum_loop G n s1"
      "arrives G s a (?sign # (tokens_of M b @ rest)) n s1"
      by (rule goes_onD [OF ra h]) (use a(3) op in \<open>auto simp: after_defs fits_def\<close>)
    note c = ahead_current [OF arrivesD(2) [OF p(2)]]
    have k: "op_kind op = PlusTok \<or> op_kind op = MinusTok" "op_kind op \<noteq> EndTok"
      "(if op_kind op = PlusTok then Add else Sub) = op"
      using op by auto
    have "followed after_product (advance G s1) rest"
      using a(2) p(2) by (auto simp: followed_def after_defs arrives_def split: list.splits)
    moreover have "fits G (advance G s1) b" using a(3) p(2) by (auto simp: fits_def arrives_def)
    ultimately obtain m s2 where q: "parse_product G (advance G s1) = Inr (m, s2)"
      "arrives G (advance G s1) b rest m s2"
      using reads_byD [OF rb c(3) [OF k(2)]] by blast
    obtain n' s3 where "binary G op n m False (ps_depth s1) s2 = Inr (n', s3)" "arrives G s ?p rest n' s3"
      using binary_arrives [OF p(2) q(2) a(3)] by blast
    then show "\<exists>n s'. parse_sum G s = parse_sum_loop G n s' \<and> arrives G s ?p rest n s'"
      using p(1) q(1) c(1) k by (auto simp: parse_sum_loop.simps [of G n s1] Let_def)
  qed
qed

text \<open>What stands in parentheses or bars: the parser enters, reads the inner tree, closes.\<close>

lemma inner_read:
  assumes r: "readable G M a" and h: "ahead G s = op # (tokens_of M a @ (k, t) # rest)"
    and op: "fst op \<noteq> EndTok"
    and k: "k = CloseTok \<or> k = SepTok \<or> (k = BarTok \<and> ctx = BarContext)"
    and nodes: "ps_nodes s + count_nodes a \<le> bg_nodes (pe_limits G)"
    and depth: "ps_nest s + 1 + nest_depth a \<le> bg_depth (pe_limits G)"
  obtains s1 n s2 where "enter G (advance G s) = Inr s1"
    "parse_sum G (push_context ctx s1) = Inr (n, s2)" "strip n = a" "ahead G s2 = (k, t) # rest"
    "ps_nodes s2 = ps_nodes s + count_nodes a" "ps_depth s2 = node_depth a"
    "ps_nest s2 = ps_nest s + 1" "ps_contexts s2 = ctx # ps_contexts s" "ps_warnings s2 = ps_warnings s"
proof -
  let ?s1 = "(advance G s)\<lparr>ps_nest := ps_nest s + 1\<rparr>"
  have e: "enter G (advance G s) = Inr ?s1"
    using depth nest_depth_pos [of a] by (intro trans [OF enter_ok]) auto
  have "ahead G (advance G s) = tokens_of M a @ (k, t) # rest"
    using ahead_current(3) [of G s "fst op" "snd op"] h op by simp
  then have h1: "ahead G (push_context ctx ?s1) = tokens_of M a @ (k, t) # rest" by simp
  have rs: "reads_by parse_sum closer G M a" using r by (simp add: readable_def sum_done)
  obtain n s2 where p: "parse_sum G (push_context ctx ?s1) = Inr (n, s2)"
    "arrives G (push_context ctx ?s1) a ((k, t) # rest) n s2"
    by (rule reads_byD [OF rs h1]) (use k nodes depth in \<open>auto simp: closer_def fits_def\<close>)
  show thesis using that [OF e p(1)] arrivesD [OF p(2)] by simp
qed

lemma group_readable:
  assumes g: "grammatical (GroupNode a no_span)" and t: "tree_of L (GroupNode a no_span)"
    and r: "readable G M a"
  shows "readable G M (GroupNode a no_span)"
proof (rule readable_levels(1) [OF g t])
  let ?g = "GroupNode a no_span"
  show "reads_primary G M ?g"
    unfolding reads_by_def
  proof (intro allI impI)
    fix s rest assume a: "ahead G s = tokens_of M ?g @ rest" "fits G s ?g"
    have h: "ahead G s = (OpenTok, js ''('') # (tokens_of M a @ (CloseTok, js '')'') # rest)"
      using a(1) by simp
    obtain s1 n s2 where p: "enter G (advance G s) = Inr s1"
      "parse_sum G (push_context ParenContext s1) = Inr (n, s2)" "strip n = a"
      "ahead G s2 = (CloseTok, js '')'') # rest"
      "ps_nodes s2 = ps_nodes s + count_nodes a" "ps_depth s2 = node_depth a"
      "ps_nest s2 = ps_nest s + 1" "ps_contexts s2 = ParenContext # ps_contexts s"
      "ps_warnings s2 = ps_warnings s"
      by (rule inner_read [OF r h]) (use a(2) in \<open>auto simp: fits_def\<close>)
    note c = ahead_current [OF h] and d = ahead_current [OF p(4)]
    have "node_depth a + 1 \<le> bg_depth (pe_limits G)"
      using a(2) node_depth_le [of a] by (simp add: fits_def)
    then show "\<exists>n s'. parse_primary G s = Inr (n, s') \<and> arrives G s ?g rest n s'"
      using p a(2) c d
      by (auto simp: parse_primary.simps [of G s] parse_group.simps Let_def expect_close_def fits_def
          finish_ok arrives_def)
  qed
qed simp

lemma bars_readable:
  assumes g: "grammatical (CallNode (js ''abs'') [a] BarsNotation no_span)"
    and t: "tree_of (pe_language G) (CallNode (js ''abs'') [a] BarsNotation no_span)"
    and r: "readable G M a"
  shows "readable G M (CallNode (js ''abs'') [a] BarsNotation no_span)"
proof (rule readable_levels(1) [OF g t])
  let ?g = "CallNode (js ''abs'') [a] BarsNotation no_span"
  show "reads_primary G M ?g"
    unfolding reads_by_def
  proof (intro allI impI)
    fix s rest assume a: "ahead G s = tokens_of M ?g @ rest" "fits G s ?g"
    let ?bar = "(BarTok, js [CHR 0x7C])"
    have h: "ahead G s = ?bar # (tokens_of M a @ ?bar # rest)" using a(1) by simp
    obtain s1 n s2 where p: "enter G (advance G s) = Inr s1"
      "parse_sum G (push_context BarContext s1) = Inr (n, s2)" "strip n = a"
      "ahead G s2 = ?bar # rest"
      "ps_nodes s2 = ps_nodes s + count_nodes a" "ps_depth s2 = node_depth a"
      "ps_nest s2 = ps_nest s + 1" "ps_contexts s2 = BarContext # ps_contexts s"
      "ps_warnings s2 = ps_warnings s"
      by (rule inner_read [OF r h, of BarContext]) (use a(2) in \<open>auto simp: fits_def\<close>)
    note c = ahead_current [OF h] and d = ahead_current [OF p(4)]
    have "current_kind G (advance G s) \<in> {NumberTok, NameTok, OpenTok, BarTok, MinusTok, PlusTok}"
      using first_token_ahead(1) [of a "pe_language G" G "advance G s" M] g t c(3) by auto
    then have nx: "current_kind G (advance G s) \<notin> {EndTok, CloseTok, SepTok, EqualsTok}" by auto
    have "require_function G (js ''abs'') (current_token G s) 1 = Inr ()"
      using t by (auto simp: require_function_def split: option.splits)
    moreover have "node_depth a + 1 \<le> bg_depth (pe_limits G)"
      using a(2) node_depth_le [of a] by (auto simp: fits_def max_def split: if_splits)
    ultimately show "\<exists>n s'. parse_primary G s = Inr (n, s') \<and> arrives G s ?g rest n s'"
      using p a(2) c d nx
      by (auto simp: parse_primary.simps [of G s] parse_bars.simps Let_def fits_def
          finish_ok arrives_def)
  qed
qed simp

lemma foldr_max_shift: "foldr max xs (max d a) = max a (foldr max xs (d::nat))"
  by (induction xs) (auto simp: max.left_commute)

lemma args_read:
  assumes "as \<noteq> []" "list_all (readable G M) as"
    "ahead G s = join_lexemes (SepTok, sy_separator M) (map (tokens_of M) as) @ (CloseTok, x) # rest"
    "ps_nodes s + sum_list (map count_nodes as) \<le> bg_nodes (pe_limits G)"
    "list_all (\<lambda>a. ps_nest s + nest_depth a \<le> bg_depth (pe_limits G)) as"
  shows "\<exists>ns s'. parse_args G acc d s = Inr ((acc @ ns, foldr max (map node_depth as) d), s')
    \<and> map strip ns = as \<and> ahead G s' = (CloseTok, x) # rest
    \<and> ps_nodes s' = ps_nodes s + sum_list (map count_nodes as) \<and> ps_nest s' = ps_nest s
    \<and> ps_contexts s' = ps_contexts s \<and> ps_warnings s' = ps_warnings s"
  using assms
proof (induction as arbitrary: s acc d)
  case Nil
  then show ?case by simp
next
  case (Cons a as)
  have rs: "reads_by parse_sum closer G M a" using Cons.prems(2) by (simp add: readable_def sum_done)
  have f: "fits G s a" using Cons.prems(4,5) by (simp add: fits_def)
  show ?case
  proof (cases as)
    case Nil
    then have h: "ahead G s = tokens_of M a @ (CloseTok, x) # rest" using Cons.prems(3) by simp
    obtain n s1 where p: "parse_sum G s = Inr (n, s1)" "arrives G s a ((CloseTok, x) # rest) n s1"
      by (rule reads_byD [OF rs h _ f]) (auto simp: closer_def)
    note c = ahead_current [OF arrivesD(2) [OF p(2)]]
    have "parse_args G acc d s = Inr ((acc @ [n], max d (node_depth a)), s1)"
      using p(1) c(1) arrivesD(4) [OF p(2)] by (simp add: parse_args.simps [of G acc d s])
    then show ?thesis
      using Nil arrivesD [OF p(2)] by (intro exI [of _ "[n]"] exI [of _ s1]) (simp add: max.commute)
  next
    case (Cons b bs)
    let ?rest = "join_lexemes (SepTok, sy_separator M) (map (tokens_of M) as) @ (CloseTok, x) # rest"
    have h: "ahead G s = tokens_of M a @ (SepTok, sy_separator M) # ?rest"
      using Cons.prems(3) Cons by simp
    obtain n s1 where p: "parse_sum G s = Inr (n, s1)"
      "arrives G s a ((SepTok, sy_separator M) # ?rest) n s1"
      by (rule reads_byD [OF rs h _ f]) (auto simp: closer_def)
    note c = ahead_current [OF arrivesD(2) [OF p(2)]] and f1 = arrivesD [OF p(2)]
    have "\<exists>ns s'. parse_args G (acc @ [n]) (max d (ps_depth s1)) (advance G s1)
        = Inr (((acc @ [n]) @ ns, foldr max (map node_depth as) (max d (ps_depth s1))), s')
      \<and> map strip ns = as \<and> ahead G s' = (CloseTok, x) # rest
      \<and> ps_nodes s' = ps_nodes (advance G s1) + sum_list (map count_nodes as)
      \<and> ps_nest s' = ps_nest (advance G s1) \<and> ps_contexts s' = ps_contexts (advance G s1)
      \<and> ps_warnings s' = ps_warnings (advance G s1)"
      by (rule Cons.IH) (use Cons Cons.prems c(3) f1 in \<open>auto simp: list_all_iff\<close>)
    then obtain ns s' where q: "parse_args G (acc @ [n]) (max d (ps_depth s1)) (advance G s1)
        = Inr (((acc @ [n]) @ ns, foldr max (map node_depth as) (max d (ps_depth s1))), s')"
      "map strip ns = as" "ahead G s' = (CloseTok, x) # rest"
      "ps_nodes s' = ps_nodes s1 + sum_list (map count_nodes as)"
      "ps_nest s' = ps_nest s1" "ps_contexts s' = ps_contexts s1" "ps_warnings s' = ps_warnings s1"
      by auto
    have "parse_args G acc d s
        = Inr ((acc @ n # ns, max (node_depth a) (foldr max (map node_depth as) d)), s')"
      using p(1) c(1) q(1) f1(4) by (simp add: parse_args.simps [of G acc d s] foldr_max_shift)
    then show ?thesis
      using q(2-) f1 by (intro exI [of _ "n # ns"] exI [of _ s']) simp
  qed
qed

lemma call_readable:
  assumes g: "grammatical (CallNode fn as CallNotation no_span)"
    and t: "tree_of (pe_language G) (CallNode fn as CallNotation no_span)"
    and r: "list_all (readable G M) as"
  shows "readable G M (CallNode fn as CallNotation no_span)"
proof (rule readable_levels(1) [OF g t])
  let ?g = "CallNode fn as CallNotation no_span"
  obtain spec where spec: "function_spec (pe_language G) fn = Some spec" "fs_min spec \<le> length as"
    "length as \<le> fs_max spec"
    using t by (auto split: option.splits)
  show "reads_primary G M ?g"
    unfolding reads_by_def
  proof (intro allI impI)
    fix s rest assume a: "ahead G s = tokens_of M ?g @ rest" "fits G s ?g"
    let ?args = "join_lexemes (SepTok, sy_separator M) (map (tokens_of M) as)"
    let ?tail = "?args @ (CloseTok, js '')'') # rest"
    have h: "ahead G s = (NameTok, fn) # (OpenTok, js ''('') # ?tail" using a(1) by simp
    note c = ahead_current [OF h]
    have h1: "ahead G (advance G s) = (OpenTok, js ''('') # ?tail" using c(3) by simp
    note d = ahead_current [OF h1]
    let ?s1 = "advance G s"
    let ?s2 = "(advance G ?s1)\<lparr>ps_nest := ps_nest s + 1\<rparr>"
    let ?s3 = "push_context ParenContext ?s2"
    have deep: "ps_nest s + 2 \<le> bg_depth (pe_limits G)"
      using a(2) foldr_max_ge [of 1 "map nest_depth as"] by (simp add: fits_def)
    then have e: "enter G (advance G ?s1) = Inr ?s2" by (simp add: enter_ok)
    have h3: "ahead G ?s3 = ?tail" using d(3) by simp
    have each: "list_all (\<lambda>b. ps_nest ?s3 + nest_depth b \<le> bg_depth (pe_limits G)) as"
      using a(2) foldr_max_mem [of _ "map nest_depth as" 1] by (fastforce simp: fits_def list_all_iff)
    have "\<exists>ns s'. (if current_kind G ?s3 \<noteq> CloseTok then parse_args G [] 0 ?s3 else Inr (([], 0), ?s3))
        = Inr ((ns, foldr max (map node_depth as) 0), s')
      \<and> map strip ns = as \<and> ahead G s' = (CloseTok, js '')'') # rest
      \<and> ps_nodes s' = ps_nodes s + sum_list (map count_nodes as) \<and> ps_nest s' = ps_nest s + 1
      \<and> ps_contexts s' = ParenContext # ps_contexts s \<and> ps_warnings s' = ps_warnings s"
    proof (cases as)
      case Nil
      then show ?thesis using h3 ahead_current(1) [of G ?s3 CloseTok] by simp
    next
      case (Cons b bs)
      have "\<exists>k x r. ?args = (k, x) # r \<and> k \<noteq> CloseTok"
        using first_token [of b "pe_language G" M] g t Cons by (cases bs) auto
      then have "current_kind G ?s3 \<noteq> CloseTok"
        using h3 ahead_current(1) [of G ?s3] by auto
      moreover have "as \<noteq> []" using Cons by simp
      ultimately show ?thesis
        using args_read [OF _ r h3 _ each, of "[]" 0] a(2) by (simp add: fits_def)
    qed
    then obtain ns s4 where q:
      "(if current_kind G ?s3 \<noteq> CloseTok then parse_args G [] 0 ?s3 else Inr (([], 0), ?s3))
        = Inr ((ns, foldr max (map node_depth as) 0), s4)"
      "map strip ns = as" "ahead G s4 = (CloseTok, js '')'') # rest"
      "ps_nodes s4 = ps_nodes s + sum_list (map count_nodes as)" "ps_nest s4 = ps_nest s + 1"
      "ps_contexts s4 = ParenContext # ps_contexts s" "ps_warnings s4 = ps_warnings s"
      by auto
    note z = ahead_current [OF q(3)]
    have len: "length ns = length as" using q(2) by (metis length_map)
    let ?s5 = "leave_nest (pop_context (advance G s4))"
    let ?sp = "\<lparr>sp_start = tk_start (current_token G s), sp_end = tk_end (current_token G s4)\<rparr>"
    let ?n = "CallNode fn ns CallNotation ?sp"
    let ?s6 = "?s5\<lparr>ps_nodes := ps_nodes s4 + 1, ps_depth := foldr max (map node_depth as) 0 + 1\<rparr>"
    have "foldr max (map node_depth as) 0 + 1 \<le> bg_depth (pe_limits G)"
      using a(2) node_depth_le [of ?g] by (simp add: fits_def)
    then have fin: "finish G ?n (foldr max (map node_depth as) 0 + 1) ?s5 = Inr (?n, ?s6)"
      using a(2) q(4) by (simp add: fits_def finish_ok)
    have close: "expect_close G (current_token G ?s1) [js ''sep'', js '')''] s4
        = Inr (current_token G s4, advance G s4)"
      using z(1) by (simp add: expect_close_def Let_def)
    have "parse_primary G s = parse_call G (current_token G s) (fs_min spec, fs_max spec) ?s1"
      using c(1,2) d(1) spec(1) by (simp add: parse_primary.simps parse_name.simps Let_def)
    also have "\<dots> = Inr (?n, ?s6)"
      unfolding parse_call.simps Let_def e rbind.simps q(1) prod.case close
      using len spec(2,3) fin c(2) by simp
    finally have "parse_primary G s = Inr (?n, ?s6)" .
    moreover have "arrives G s ?g rest ?n ?s6"
      using q z by (simp add: arrives_def)
    ultimately show "\<exists>n s'. parse_primary G s = Inr (n, s') \<and> arrives G s ?g rest n s'" by blast
  qed
qed simp

lemma tree_readable:
  "grammatical g \<Longrightarrow> plain g \<Longrightarrow> tree_of (pe_language G) g \<Longrightarrow> readable G M g"
proof (induction g)
  case (NumberNode raw sp)
  then show ?case by (simp add: number_readable)
next
  case (NameNode name sp)
  then show ?case by (simp add: name_readable)
next
  case (UnaryNode op a sp)
  then show ?case using unary_readable [of op a "pe_language G"] by simp
next
  case (BinaryNode op a b implicit sp)
  then show ?case
    using pow_readable [of a b "pe_language G"] product_readable [of op a b "pe_language G"]
      sum_readable [of op a b "pe_language G"]
    by (cases op) simp_all
next
  case (CallNode fn as nt sp)
  have r: "list_all (readable G M) as" using CallNode by (auto simp: list_all_iff)
  show ?case
  proof (cases nt)
    case CallNotation
    then show ?thesis using CallNode.prems r call_readable [of fn as G M] by simp
  next
    case BarsNotation
    then obtain a where "as = [a]" "fn = js ''abs''"
      using CallNode.prems by (auto simp: length_Suc_conv)
    then show ?thesis using CallNode.prems BarsNotation r bars_readable [of a G M] by simp
  qed (use CallNode.prems in simp)
next
  case (FactorialNode a sp)
  then show ?case using factorial_readable [of a "pe_language G"] by simp
next
  case (GroupNode a sp)
  then show ?case using group_readable [of a "pe_language G"] by simp
qed

end
