(* ===== verification/ExprRoundTrip.thy ===== *)
theory ExprRoundTrip
  imports ExprReading
begin

text \<open>
  Printing and reading back: the text the printer makes of a tree in canonical style is the
  text of the tree with the parentheses its levels need, and parsing it gives that tree.
\<close>

section \<open>The tree with its parentheses\<close>

lemma level_canon [simp]: "level (canon_tree n) = level n"
  by (cases n) auto

lemma wrap_level: "minimum \<le> 6 \<Longrightarrow> minimum \<le> level (wrap minimum (level n) (canon_tree n))"
  by (simp add: wrap_def)

lemma wrap_keeps:
  "grammatical (canon_tree n) \<Longrightarrow> grammatical (wrap m l (canon_tree n))"
  "plain (canon_tree n) \<Longrightarrow> plain (wrap m l (canon_tree n))"
  "tree_of L (canon_tree n) \<Longrightarrow> tree_of L (wrap m l (canon_tree n))"
  by (simp_all add: wrap_def)

lemma canon_plain: "plain (canon_tree n)"
  by (induction n) (auto simp: wrap_keeps list_all_iff)

lemma canon_grammatical: "grammatical (canon_tree n)"
proof (induction n)
  case (BinaryNode op a b i sp)
  then show ?case by (cases op) (simp_all add: wrap_keeps wrap_level)
qed (auto simp: wrap_keeps wrap_level list_all_iff)

lemma canon_tree_of: "tree_of L n \<Longrightarrow> tree_of L (canon_tree n)"
  by (induction n) (auto simp: wrap_keeps list_all_iff split: option.splits)

text \<open>A grammatical tree keeps its shape: only spans, implicit products and \<open>sqrt\<close> signs go.\<close>

fun explicit :: "expr_node \<Rightarrow> expr_node" where
  "explicit (NumberNode raw sp) = NumberNode raw sp"
| "explicit (NameNode name sp) = NameNode name sp"
| "explicit (UnaryNode op arg sp) = UnaryNode op (explicit arg) sp"
| "explicit (BinaryNode op left right _ sp) = BinaryNode op (explicit left) (explicit right) False sp"
| "explicit (CallNode fn args notation sp) =
     CallNode fn (map explicit args) (if notation = BarsNotation then BarsNotation else CallNotation) sp"
| "explicit (FactorialNode arg sp) = FactorialNode (explicit arg) sp"
| "explicit (GroupNode inner sp) = GroupNode (explicit inner) sp"

lemma canon_explicit: "grammatical n \<Longrightarrow> tree_of L n \<Longrightarrow> canon_tree n = strip (explicit n)"
proof (induction n)
  case (CallNode fn args nt sp)
  then show ?case by (auto simp: list_all_iff split: option.splits)
qed (auto simp: wrap_def)

section \<open>The printed text\<close>

definition printer_for :: "print_env \<Rightarrow> syntax_marks \<Rightarrow> bool" where
  "printer_for P M \<longleftrightarrow> \<not> pr_display P \<and> pr_decimal_comma P = (sy_decimal M = js '','')
     \<and> pr_separator P = sy_separator M @ js '' ''"

lemma operand_Inr:
  assumes "\<And>d b t. print_node P n d b = Inr t \<Longrightarrow> t = shown M (canon_tree n)"
    "operand P n m d b = Inr t"
  shows "t = shown M (wrap m (level n) (canon_tree n))"
  using assms(2) by (auto simp: operand.simps wrap_def result_simps dest!: assms(1) split: if_splits)

lemma rmap_list_map:
  "rmap_list f xs = Inr ys \<Longrightarrow> (\<And>x y. x \<in> set xs \<Longrightarrow> f x = Inr y \<Longrightarrow> y = g x) \<Longrightarrow> ys = map g xs"
  by (induction xs arbitrary: ys) (auto simp: result_simps)

lemma print_node_Inr:
  assumes P: "printer_for P M"
  shows "print_node P n d b = Inr t \<Longrightarrow> t = shown M (canon_tree n)"
proof (induction n arbitrary: d b t)
  case (NumberNode raw sp)
  then show ?case using P by (auto simp: print_node.simps printer_for_def split: if_splits)
next
  case (NameNode name sp)
  then show ?case using P by (auto simp: print_node.simps printer_for_def split: if_splits)
next
  case (UnaryNode op a sp)
  then show ?case using P operand_Inr [OF UnaryNode.IH]
    by (auto simp: print_node.simps printer_for_def result_simps unary_symbol_def
        split: if_splits unary_op.splits)
next
  case (BinaryNode op l r i sp)
  note IH = operand_Inr [OF BinaryNode.IH(1)] operand_Inr [OF BinaryNode.IH(2)]
  show ?case using BinaryNode.prems P IH
    by (cases op)
      (auto simp: print_node.simps printer_for_def result_simps binary_symbol_def
        split: if_splits option.splits)
next
  case (CallNode fn args nt sp)
  show ?case
  proof (cases "length args = 1 \<and> nt = BarsNotation \<and> fn = js ''abs''")
    case True
    then obtain a where a: "args = [a]" by (auto simp: length_Suc_conv)
    then show ?thesis using CallNode.prems CallNode.IH [of a] True
      by (auto simp: print_node.simps [of P "CallNode (js ''abs'') [a] BarsNotation sp" d b]
          result_simps split: if_splits)
  next
    case False
    then have "\<exists>ts. rmap_list (\<lambda>a. print_node P a (d + 1) False) args = Inr ts
        \<and> t = fn @ js ''('' @ join_texts (pr_separator P) ts @ js '')''"
      using CallNode.prems P
      by (auto simp: print_node.simps result_simps printer_for_def split: if_splits)
    then obtain ts where ts: "rmap_list (\<lambda>a. print_node P a (d + 1) False) args = Inr ts"
      "t = fn @ js ''('' @ join_texts (pr_separator P) ts @ js '')''"
      by blast
    have "ts = map (\<lambda>a. shown M (canon_tree a)) args"
      using rmap_list_map [OF ts(1), of "\<lambda>a. shown M (canon_tree a)"] CallNode.IH by blast
    then show ?thesis using False ts(2) P by (auto simp: printer_for_def comp_def)
  qed
next
  case (FactorialNode a sp)
  then show ?case using operand_Inr [OF FactorialNode.IH]
    by (auto simp: print_node.simps result_simps split: if_splits)
next
  case (GroupNode a sp)
  then show ?case
    by (auto simp: print_node.simps [of P "GroupNode a sp" d b] result_simps split: if_splits)
qed

section \<open>Reading the text back\<close>

lemma valid_marks_syntax:
  assumes "valid_marks M"
  shows "valid_syntax M = Inr M" "define_syntax M = Inr M"
  using assms
  by (auto simp: valid_marks_def valid_syntax_def define_syntax_def parse_syntax_def
      canonical_syntax_def decimal_comma_def js_def)

lemma define_syntax_valid: "define_syntax given = Inr M \<Longrightarrow> valid_marks M"
  by (auto simp: define_syntax_def parse_syntax_def valid_marks_def canonical_syntax_def
      decimal_comma_def split: option.splits if_splits)

lemma shown_parses:
  assumes M: "valid_marks M" and L: "names_ok L" and g: "grammatical g" "plain g" "tree_of L g"
    and G: "start_parser (shown M g) options = Inr G" "po_language options = L" "po_syntax options = M"
    and fit: "length (tokens_of M g) \<le> bg_tokens (pe_limits G)" "count_nodes g \<le> bg_nodes (pe_limits G)" "nest_depth g \<le> bg_depth (pe_limits G)"
  shows "\<exists>root s. parse_sum G initial_state = Inr (root, s) \<and> expect_end G s = Inr ()
    \<and> strip root = g \<and> ps_warnings s = []"
proof -
  obtain limits tokens where lim: "resolve_limits (po_limits options) = Inr limits"
    and tok: "tokenize (shown M g) M (bg_tokens limits) = Inr tokens"
    and env: "G = \<lparr>pe_source = shown M g, pe_tokens = tokens, pe_language = L,
      pe_variables = po_variables options, pe_limits = limits\<rparr>"
    using G valid_marks_syntax(1) [OF M]
    by (auto simp: start_parser_def result_simps split: if_splits)
  have "names_ok (pe_language G)" "tree_of (pe_language G) g" using L g(3) env by simp_all
  moreover have "length (tokens_of M g) \<le> bg_tokens limits" using fit(1) env by simp
  ultimately obtain toks where t: "map lexeme_of toks = tokens_of M g"
    "tokens = toks @ [end_token (shown M g)]"
    using tokenize_shown [OF M] tok by (metis sum.inject(2))
  let ?stop = "(EndTok, [])"
  have h: "ahead G initial_state = tokens_of M g @ [?stop]"
    using t by (simp add: ahead_def env initial_state_def lexeme_of_def end_token_def)
  have r: "reads_by parse_sum closer G M g"
    using tree_readable [OF g(1,2) \<open>tree_of (pe_language G) g\<close>] by (simp add: readable_def sum_done)
  obtain root s where p: "parse_sum G initial_state = Inr (root, s)"
    "arrives G initial_state g [?stop] root s"
    by (rule reads_byD [OF r h]) (use fit in \<open>auto simp: closer_def fits_def initial_state_def\<close>)
  note c = ahead_current [OF arrivesD(2) [OF p(2)]]
  have "expect_end G s = Inr ()" using c(1) by (simp add: expect_end_def Let_def)
  then show ?thesis
    using p(1) arrivesD [OF p(2)] by (auto simp: initial_state_def)
qed

text \<open>The budgets a text of a tree needs.\<close>

definition within_budgets :: "budgets \<Rightarrow> syntax_marks \<Rightarrow> expr_node \<Rightarrow> bool" where
  "within_budgets B M g \<longleftrightarrow>
     length (shown M g) \<le> bg_length B \<and> length (tokens_of M g) \<le> bg_tokens B
     \<and> count_nodes g \<le> bg_nodes B \<and> nest_depth g \<le> bg_depth B"

lemma shown_parse_text:
  assumes M: "valid_marks M" and L: "names_ok L" and g: "grammatical g" "plain g" "tree_of L g"
    and o: "po_language options = L" "po_syntax options = M"
      "resolve_limits (po_limits options) = Inr B" "within_budgets B M g"
  shows "\<exists>root. parse_text (shown M g) options
      = Inr \<lparr>ex_source = shown M g, ex_root = root, ex_warnings = []\<rparr> \<and> strip root = g"
proof -
  obtain tokens where tok: "tokenize (shown M g) M (bg_tokens B) = Inr tokens"
    using tokenize_shown [OF M L g(3)] o(4) by (metis within_budgets_def)
  define G where "G = \<lparr>pe_source = shown M g, pe_tokens = tokens, pe_language = L,
      pe_variables = po_variables options, pe_limits = B\<rparr>"
  have G: "start_parser (shown M g) options = Inr G"
    using o tok valid_marks_syntax(1) [OF M] by (simp add: start_parser_def within_budgets_def G_def)
  have "\<exists>root s. parse_sum G initial_state = Inr (root, s) \<and> expect_end G s = Inr ()
      \<and> strip root = g \<and> ps_warnings s = []"
    by (rule shown_parses [OF M L g G o(1,2)]) (use o(4) in \<open>auto simp: G_def within_budgets_def\<close>)
  then show ?thesis using G by (auto simp: parse_text_def)
qed

lemma make_printer_marks:
  assumes "make_printer \<lparr>pp_syntax = Some M, pp_display = False, pp_depth = d\<rparr> = Inr P"
  shows "valid_marks M" "printer_for P M"
proof -
  obtain M' where m: "define_syntax M = Inr M'" using assms by (auto simp: make_printer_def result_simps)
  have "M' = M"
    using m by (auto simp: define_syntax_def parse_syntax_def split: option.splits if_splits)
  then show "valid_marks M" using define_syntax_valid m by blast
  show "printer_for P M"
    using assms m \<open>M' = M\<close> by (auto simp: make_printer_def result_simps printer_for_def)
qed

text \<open>
  C3: What is printed reads back: the canonical text of any tree of the language, in any
  syntax, parses - within the budgets its text needs - to the same tree with the parentheses
  its levels needed, spans aside, every product explicit and the root sign as a call, and
  without a warning.
\<close>

theorem print_parse_roundtrip:
  assumes "names_ok L" "tree_of L e"
    and "print (PrintNode e) \<lparr>pp_syntax = Some M, pp_display = False, pp_depth = d\<rparr> = Inr t"
    and "po_language options = L" "po_syntax options = M"
    and "resolve_limits (po_limits options) = Inr B" "within_budgets B M (canon_tree e)"
  shows "\<exists>root. parse t options = Inr (Inr \<lparr>ex_source = t, ex_root = root, ex_warnings = []\<rparr>)
    \<and> strip root = canon_tree e"
proof -
  obtain P where P: "make_printer \<lparr>pp_syntax = Some M, pp_display = False, pp_depth = d\<rparr> = Inr P"
    "print_node P e 1 False = Inr t"
    using assms(3) by (auto simp: print_def result_simps)
  note m = make_printer_marks [OF P(1)]
  have "t = shown M (canon_tree e)" using print_node_Inr [OF m(2) P(2)] .
  then show ?thesis
    using shown_parse_text [OF m(1) assms(1) canon_grammatical canon_plain canon_tree_of [OF assms(2)]
        assms(4-7)]
    by (auto simp: parse_def returned_def)
qed

lemmas sample_simps = js_def canonical_syntax_def DEFAULT_LIMITS_def
lemmas literal_simps = js_def is_number_literal_def starts_number_def is_digit_code_def code_at_def
  DOT_def scan_number_def scan_fraction_def scan_exponent_def skip_digits.simps LOWER_E_def
  UPPER_E_def is_name_def letter_code_def function_spec_def PI_def

text \<open>The product (1 + x) 3, its sum not in parentheses in the tree.\<close>

theorem print_parse_roundtrip_witness:
  "\<exists>root. parse (js ''(1 + x) * 3'')
      \<lparr>po_language = \<lparr>la_functions = [], la_constants = []\<rparr>, po_syntax = canonical_syntax,
        po_limits = None, po_variables = None\<rparr>
    = Inr (Inr \<lparr>ex_source = js ''(1 + x) * 3'', ex_root = root, ex_warnings = []\<rparr>)
    \<and> strip root = BinaryNode Mul
        (GroupNode (BinaryNode Add (NumberNode (js ''1'') no_span) (NameNode (js ''x'') no_span) False no_span) no_span)
        (NumberNode (js ''3'') no_span) False no_span"
proof -
  let ?L = "\<lparr>la_functions = [], la_constants = []\<rparr>"
  let ?sum = "BinaryNode Add (NumberNode (js ''1'') no_span) (NameNode (js ''x'') no_span) False no_span"
  let ?e = "BinaryNode Mul ?sum (NumberNode (js ''3'') no_span) True no_span"
  let ?c = "BinaryNode Mul (GroupNode ?sum no_span) (NumberNode (js ''3'') no_span) False no_span"
  have p: "print (PrintNode ?e) \<lparr>pp_syntax = Some canonical_syntax, pp_display = False, pp_depth = None\<rparr>
      = Inr (js ''(1 + x) * 3'')"
    by (simp add: sample_simps print_def make_printer_def define_syntax_def parse_syntax_def
        print_node.simps operand.simps binary_symbol_def)
  have c: "canon_tree ?e = ?c" by (simp add: wrap_def)
  have t: "tree_of ?L ?e" by (simp add: literal_simps)
  have "within_budgets DEFAULT_LIMITS canonical_syntax ?c" by (simp add: within_budgets_def sample_simps)
  then show ?thesis
    using print_parse_roundtrip [OF _ t p, of "\<lparr>po_language = ?L, po_syntax = canonical_syntax,
        po_limits = None, po_variables = None\<rparr>" DEFAULT_LIMITS]
    unfolding c by (simp add: names_ok_def function_spec_def resolve_limits_def)
qed

text \<open>A text of a sign, a factorial and a power, and what parsing it gives.\<close>

lemma sample_parsed:
  "\<exists>root. parse (js ''-x!^2'')
      \<lparr>po_language = \<lparr>la_functions = [], la_constants = []\<rparr>, po_syntax = canonical_syntax,
        po_limits = None, po_variables = None\<rparr>
    = Inr (Inr \<lparr>ex_source = js ''-x!^2'', ex_root = root, ex_warnings = []\<rparr>)
    \<and> strip root = UnaryNode UMinus (BinaryNode Pow (FactorialNode (NameNode (js ''x'') no_span) no_span)
        (NumberNode (js ''2'') no_span) False no_span) no_span"
proof -
  let ?L = "\<lparr>la_functions = [], la_constants = []\<rparr>"
  let ?g = "UnaryNode UMinus (BinaryNode Pow (FactorialNode (NameNode (js ''x'') no_span) no_span)
        (NumberNode (js ''2'') no_span) False no_span) no_span"
  have t: "tree_of ?L ?g" by (simp add: literal_simps)
  have s: "shown canonical_syntax ?g = js ''-x!^2''" by (simp add: sample_simps)
  have "within_budgets DEFAULT_LIMITS canonical_syntax ?g" by (simp add: within_budgets_def sample_simps)
  then show ?thesis
    using shown_parse_text [OF _ _ _ _ t, of canonical_syntax "\<lparr>po_language = ?L,
        po_syntax = canonical_syntax, po_limits = None, po_variables = None\<rparr>" DEFAULT_LIMITS]
    unfolding s by (auto simp: parse_def returned_def names_ok_def function_spec_def resolve_limits_def
        valid_marks_def)
qed

end
