(* ===== verification/ExprParsed.thy ===== *)
theory ExprParsed
  imports ExprRoundTrip
begin

text \<open>
  What a parsed tree is, whatever the text: its literals and names are ones, its calls are
  calls of the language, its levels fit the grammar and its size is within the budgets. With
  the round trip this makes printing and parsing stable.
\<close>

section \<open>What the lexer passes on\<close>

definition token_ok :: "expr_token \<Rightarrow> bool" where
  "token_ok tok \<longleftrightarrow> (tk_kind tok = NumberTok \<longrightarrow> is_number_literal (tk_text tok))
     \<and> (tk_kind tok = NameTok \<longrightarrow> is_name (tk_text tok))"

lemma is_name_from_units:
  assumes "letter_code (unit_code u)" "list_all word_unit us"
  shows "is_name (u # us)"
proof -
  have code: "code_at (u # us) j = unit_code ((u # us) ! j)" if "j < length (u # us)" for j
  proof -
    have "drop j (u # us) = (u # us) ! j # drop (Suc j) (u # us)"
      using that by (rule Cons_nth_drop_Suc [symmetric])
    moreover have "word_unit ((u # us) ! j)"
      using assms that by (cases j) (auto simp: word_unit_def list_all_length)
    ultimately show ?thesis using code_at_drop word_unit_not_lead by blast
  qed
  have word: "word_unit ((u # us) ! j)" if "1 \<le> j" "j < length (u # us)" for j
    using assms that by (cases j) (auto simp: list_all_length)
  have "list_all (\<lambda>i. letter_code (code_at (u # us) i) \<or> is_digit_code (code_at (u # us) i))
      [1..<length (u # us)]"
    unfolding list_all_iff
  proof
    fix j assume "j \<in> set [1..<length (u # us)]"
    then have j: "1 \<le> j" "j < length (u # us)" by auto
    show "letter_code (code_at (u # us) j) \<or> is_digit_code (code_at (u # us) j)"
      using word [OF j] unfolding code [OF j(2)] word_unit_def .
  qed
  then show ?thesis using assms(1) code [of 0] by (simp add: is_name_def)
qed

lemma name_end_units: "i \<le> j \<Longrightarrow> j < name_end t i \<Longrightarrow> j < length t \<and> word_unit (t ! j)"
proof (induction t i rule: name_end.induct)
  case (1 t i)
  show ?case
  proof (cases "i < length t \<and> (letter_code (code_at t i) \<or> is_digit_code (code_at t i))")
    case True
    show ?thesis
    proof (cases "i = j")
      case True': True
      then show ?thesis using True code_at_word [of t i] by (auto simp: word_unit_def)
    next
      case False
      then show ?thesis using 1 True by (simp add: name_end.simps [of t i])
    qed
  next
    case False
    then have "name_end t i = i" unfolding name_end.simps [of t i] by (rule if_not_P)
    then show ?thesis using "1.prems" by simp
  qed
qed

lemma name_end_le: "i \<le> length t \<Longrightarrow> name_end t i \<le> length t"
proof (induction t i rule: name_end.induct)
  case (1 t i)
  then show ?case by (auto simp: name_end.simps [of t i])
qed

lemma slice_nth: "stop \<le> length t \<Longrightarrow> k < stop - i \<Longrightarrow> slice i stop t ! k = t ! (i + k)"
  by (simp add: slice_def)

lemma slice_length: "stop \<le> length t \<Longrightarrow> length (slice i stop t) = stop - i"
  by (simp add: slice_def)

lemma sliced_name:
  assumes "letter_code (code_at t i)"
  shows "is_name (slice i (name_end t (i + 1)) t)"
proof -
  let ?e = "name_end t (i + 1)" and ?w = "slice i (name_end t (i + 1)) t"
  have i: "i < length t" "letter_code (unit_code (t ! i))" using assms code_at_word [of t i] by auto
  have e: "?e \<le> length t" "i < ?e" using name_end_le [of "i + 1" t] name_end_ge [of "i + 1" t] i by auto
  have len: "length ?w = ?e - i" using slice_length e(1) .
  then obtain u us where w: "?w = u # us" using e(2) by (cases ?w) auto
  have "u = t ! i" using slice_nth [OF e(1), of 0 i] e(2) w by simp
  moreover have "word_unit (us ! k)" if "k < length us" for k
  proof -
    have k: "Suc k < ?e - i" using that len w by simp
    then have "us ! k = t ! (i + Suc k)" using slice_nth [OF e(1) k] w by simp
    moreover have "word_unit (t ! (i + Suc k))" using name_end_units [of "i + 1" "i + Suc k" t] k by simp
    ultimately show ?thesis by simp
  qed
  ultimately show ?thesis using w i(2) is_name_from_units by (simp add: list_all_length)
qed

text \<open>A scanned literal, cut out: the scanner reads the cut text to its end.\<close>

definition cut_like :: "js_string \<Rightarrow> nat \<Rightarrow> int \<Rightarrow> js_string \<Rightarrow> bool" where
  "cut_like t i dot raw \<longleftrightarrow>
     (\<forall>k < length raw. num_class dot (code_at t (i + k)) = num_class DOT (code_at raw k))"

lemma cut_likeD:
  assumes "cut_like t i dot raw" "k < length raw"
  shows "is_digit_code (code_at t (i + k)) = is_digit_code (code_at raw k)"
    "(code_at t (i + k) = dot) = (code_at raw k = DOT)"
    "(code_at t (i + k) = LOWER_E \<or> code_at t (i + k) = UPPER_E)
       = (code_at raw k = LOWER_E \<or> code_at raw k = UPPER_E)"
    "(code_at t (i + k) = 43 \<or> code_at t (i + k) = 45) = (code_at raw k = 43 \<or> code_at raw k = 45)"
  using assms by (simp_all add: cut_like_def num_class_def)

lemma skip_digits_cut:
  assumes "cut_like t i dot raw"
  shows "k \<le> length raw \<Longrightarrow> skip_digits t (i + k) \<le> i + length raw \<Longrightarrow>
    i + skip_digits raw k = skip_digits t (i + k)"
proof (induction "length raw - k" arbitrary: k)
  case 0
  then have k: "k = length raw" by simp
  then have "skip_digits raw k = k"
    by (simp add: skip_digits.simps code_at_end is_digit_code_def)
  then show ?case using 0 k skip_digits_ge [of "i + k" t] by simp
next
  case (Suc n)
  then have k: "k < length raw" by simp
  show ?case
    using Suc.hyps(1) [of "k + 1"] Suc.hyps(2) Suc.prems k cut_likeD(1) [OF assms k]
    by (auto simp: skip_digits.simps [of t "i + k"] skip_digits.simps [of raw k])
qed

lemma scan_number_parts:
  assumes "scan_number t i dot = int stop"
  obtains f where "scan_fraction t (skip_digits t i) dot = int f" "skip_digits t i \<le> f"
    "scan_exponent t f = stop" "f \<le> stop" "code_at t stop \<noteq> dot"
proof -
  let ?f = "scan_fraction t (skip_digits t i) dot"
  have f: "0 \<le> ?f" using assms by (auto simp: scan_number_def Let_def split: if_splits)
  moreover have "scan_exponent t (nat ?f) = stop" "code_at t stop \<noteq> dot"
    using assms f by (auto simp: scan_number_def Let_def split: if_splits)
  moreover have "skip_digits t i \<le> nat ?f"
    using f skip_digits_ge [of "skip_digits t i + 1" t] by (auto simp: scan_fraction_def split: if_splits)
  moreover have "nat ?f \<le> scan_exponent t (nat ?f)" by (rule scan_exponent_ge)
  ultimately show thesis using that [of "nat ?f"] by simp
qed

lemma scan_exponent_form:
  obtains (digits) x where "code_at t f = LOWER_E \<or> code_at t f = UPPER_E"
      "x = (if code_at t (f + 1) = 43 \<or> code_at t (f + 1) = 45 then f + 2 else f + 1)"
      "is_digit_code (code_at t x)" "scan_exponent t f = skip_digits t x"
  | (none) "scan_exponent t f = f"
proof -
  let ?e = "code_at t f = LOWER_E \<or> code_at t f = UPPER_E"
  let ?x = "if code_at t (f + 1) = 43 \<or> code_at t (f + 1) = 45 then f + 2 else f + 1"
  have "scan_exponent t f
      = (if ?e then if is_digit_code (code_at t ?x) then skip_digits t ?x else f else f)"
    by (simp only: scan_exponent_def Let_def)
  then show thesis
    using digits [of ?x] none by (cases ?e; cases "is_digit_code (code_at t ?x)") simp_all
qed

lemma fraction_cut:
  assumes "cut_like t i dot raw" "scan_fraction t (i + d) dot = int (i + f)" "d \<le> f" "f \<le> length raw"
  shows "scan_fraction raw d DOT = int f"
proof (cases "code_at t (i + d) = dot")
  case True
  then have dig: "is_digit_code (code_at t (i + d + 1))" and f: "skip_digits t (i + d + 1) = i + f"
    using assms(2) by (auto simp: scan_fraction_def split: if_splits)
  have lt: "d + 1 < length raw" using skip_digits_gt [OF dig] f assms(4) by simp
  have "i + skip_digits raw (d + 1) = skip_digits t (i + (d + 1))"
    by (rule skip_digits_cut [OF assms(1)]) (use lt f assms(4) in simp_all)
  then show ?thesis
    using True dig f lt cut_likeD(2) [OF assms(1), of d] cut_likeD(1) [OF assms(1), of "d + 1"]
    by (simp add: scan_fraction_def add.assoc)
next
  case False
  then have f: "f = d" using assms(2) by (simp add: scan_fraction_def)
  have "code_at raw d \<noteq> DOT"
  proof (cases "d < length raw")
    case True
    then show ?thesis using False cut_likeD(2) [OF assms(1) True] by simp
  next
    case out: False
    then show ?thesis by (simp add: code_at_end DOT_def)
  qed
  then show ?thesis using f by (simp add: scan_fraction_def)
qed

lemma exponent_cut:
  assumes like: "cut_like t i dot raw" and e: "scan_exponent t (i + f) = i + length raw"
  shows "scan_exponent raw f = length raw"
proof (cases rule: scan_exponent_form [of t "i + f"])
  case (digits x)
  let ?x = "if code_at raw (f + 1) = 43 \<or> code_at raw (f + 1) = 45 then f + 2 else f + 1"
  have "x < i + length raw" using skip_digits_gt [OF digits(3)] digits(4) e by simp
  moreover have "i + f + 1 \<le> x" using digits(2) by (simp split: if_splits)
  ultimately have lt: "f + 1 < length raw" by simp
  have sign: "(code_at t (i + f + 1) = 43 \<or> code_at t (i + f + 1) = 45)
      = (code_at raw (f + 1) = 43 \<or> code_at raw (f + 1) = 45)"
    using cut_likeD(4) [OF like lt] by (simp add: add.assoc)
  have x: "x = i + ?x" unfolding digits(2) sign by simp
  have xl: "?x < length raw" using \<open>x < i + length raw\<close> x by simp
  have "is_digit_code (code_at raw ?x)" using digits(3) cut_likeD(1) [OF like xl] x by simp
  moreover have "code_at raw f = LOWER_E \<or> code_at raw f = UPPER_E"
    using digits(1) cut_likeD(3) [OF like, of f] lt by simp
  moreover have "i + skip_digits raw ?x = skip_digits t (i + ?x)"
    by (rule skip_digits_cut [OF like]) (use xl digits(4) e x in simp_all)
  ultimately show ?thesis
    using digits(4) e x unfolding scan_exponent_def Let_def by (simp only: if_True)
next
  case none
  then have "f = length raw" using e by simp
  then show ?thesis by (simp add: scan_exponent_def Let_def code_at_end LOWER_E_def UPPER_E_def)
qed

lemma cut_literal:
  assumes like: "cut_like t i dot raw" and st: "starts_number t i dot"
    and n: "scan_number t i dot = int (i + length raw)"
  shows "is_number_literal raw"
proof -
  obtain f0 where f0: "scan_fraction t (skip_digits t i) dot = int f0" "skip_digits t i \<le> f0"
    "scan_exponent t f0 = i + length raw" "f0 \<le> i + length raw" "code_at t (i + length raw) \<noteq> dot"
    using scan_number_parts [OF n] .
  define d where "d = skip_digits t i - i"
  define f where "f = f0 - i"
  have d: "skip_digits t i = i + d" using skip_digits_ge [of i t] by (simp add: d_def)
  have f: "f0 = i + f" "d \<le> f" "f \<le> length raw" using f0(2,4) d by (simp_all add: f_def)
  have "i + skip_digits raw 0 = skip_digits t (i + 0)"
    by (rule skip_digits_cut [OF like]) (use d f in simp_all)
  then have rd: "skip_digits raw 0 = d" using d by simp
  have rf: "scan_fraction raw d DOT = int f"
    by (rule fraction_cut [OF like _ f(2,3)]) (use f0(1) d f(1) in simp)
  have re: "scan_exponent raw f = length raw"
    by (rule exponent_cut [OF like]) (use f0(3) f(1) in simp)
  have "code_at raw (length raw) \<noteq> DOT" by (simp add: code_at_end DOT_def)
  then have "scan_number raw 0 DOT = int (length raw)"
    by (simp add: scan_number_def Let_def rd rf re)
  moreover have "starts_number raw 0 DOT"
  proof -
    have "i < nat (int (i + length raw))" using scan_number_progress [OF st] unfolding n by simp
    then have l: "0 < length raw" by linarith
    show ?thesis
    proof (cases "is_digit_code (code_at t i)")
      case True
      then show ?thesis using cut_likeD(1) [OF like l] by (simp add: starts_number_def)
    next
      case False
      then have dot: "code_at t i = dot" "is_digit_code (code_at t (i + 1))"
        using st by (auto simp: starts_number_def)
      have "skip_digits t i = i" using False by (simp add: skip_digits.simps)
      then have "f0 = skip_digits t (i + 1)" using f0(1) dot by (simp add: scan_fraction_def)
      then have "1 < length raw" using skip_digits_gt [OF dot(2)] f0(4) by simp
      then show ?thesis
        using dot cut_likeD(2) [OF like l] cut_likeD(1) [OF like, of 1] by (simp add: starts_number_def)
    qed
  qed
  ultimately show ?thesis by (simp add: is_number_literal_def)
qed

lemma scan_end_inside:
  assumes "starts_number t i dot" "scan_number t i dot = int stop" "dot \<noteq> -1"
  shows "stop \<le> length t" "i < stop"
proof -
  show "i < stop" using scan_number_progress [OF assms(1)] assms(2) by simp
  obtain f where f: "scan_fraction t (skip_digits t i) dot = int f" "scan_exponent t f = stop"
    using scan_number_parts [OF assms(2)] by metis
  have i: "i \<le> length t"
    using assms(1,3) code_inside [of t i] by (force simp: starts_number_def is_digit_code_def)
  have d: "skip_digits t i \<le> length t" by (rule skip_digits_end [OF i])
  have fl: "f \<le> length t"
  proof (cases "code_at t (skip_digits t i) = dot")
    case True
    then have "skip_digits t i < length t" using assms(3) code_inside by metis
    then show ?thesis
      using f(1) True skip_digits_end [of "skip_digits t i + 1" t]
      by (auto simp: scan_fraction_def split: if_splits)
  next
    case False
    then show ?thesis using f(1) d by (simp add: scan_fraction_def)
  qed
  show "stop \<le> length t"
  proof (cases rule: scan_exponent_form [of t f])
    case (digits x)
    then show ?thesis using f(2) skip_digits_end [of x t] code_class_inside(1) [of t x] by simp
  next
    case none
    then show ?thesis using f(2) fl by simp
  qed
qed

lemma scanned_codes:
  assumes "starts_number t i dot" "scan_number t i dot = int stop" "i \<le> j" "j < stop"
  shows "is_digit_code (code_at t j) \<or> code_at t j = LOWER_E \<or> code_at t j = UPPER_E
      \<or> code_at t j = 43 \<or> code_at t j = 45 \<or> (code_at t j = dot \<and> j = skip_digits t i)"
proof -
  let ?d = "skip_digits t i"
  obtain f where f: "scan_fraction t ?d dot = int f" "?d \<le> f" "scan_exponent t f = stop"
    using scan_number_parts [OF assms(2)] by metis
  consider "j < ?d" | "?d \<le> j" "j < f" | "f \<le> j" by linarith
  then show ?thesis
  proof cases
    case 1
    then show ?thesis using skip_digits_range [of i j t] assms(3) by simp
  next
    case 2
    then show ?thesis
      using f skip_digits_range [of "?d + 1" j t]
      by (cases "j = ?d") (auto simp: scan_fraction_def split: if_splits)
  next
    case 3
    let ?sign = "code_at t (f + 1) = 43 \<or> code_at t (f + 1) = 45"
    let ?x = "if ?sign then f + 2 else f + 1"
    have "j < scan_exponent t f" using assms(4) f(3) by simp
    note e = scan_exponent_inside [OF 3 this]
    have "j = f \<or> (j = f + 1 \<and> ?sign) \<or> ?x \<le> j" using 3 by (cases ?sign) (simp_all, linarith+)
    then consider "j = f" | "j = f + 1" "?sign" | "?x \<le> j" by blast
    then show ?thesis
    proof cases
      case 3
      then show ?thesis using skip_digits_range [OF 3 conjunct2 [OF e]] by blast
    qed (use e in blast)+
  qed
qed

lemma sliced_literal:
  assumes M: "sy_decimal M = [d]" "d = 46 \<or> d = 44"
    and st: "starts_number t i (unit_code d)" and n: "scan_number t i (unit_code d) = int stop"
  shows "is_number_literal (if unit_code d = DOT then slice i stop t
      else replace_first d (hd (js ''.'')) (slice i stop t))"
proof -
  have dc: "unit_code d = 46 \<or> unit_code d = 44" using M(2) by (auto simp: unit_code_def)
  let ?w = "slice i stop t"
  have e: "stop \<le> length t" "i < stop" using scan_end_inside [OF st n] dc by auto
  have len: "length ?w = stop - i" using slice_length e(1) .
  have code: "code_at t (i + k) = unit_code (?w ! k)" "unit_code (?w ! k) < 128"
    "unit_code (?w ! k) = unit_code d \<Longrightarrow> i + k = skip_digits t i"
    "unit_code (?w ! k) = 46 \<or> unit_code (?w ! k) = 44 \<Longrightarrow> unit_code (?w ! k) = unit_code d"
    if "k < length ?w" for k
  proof -
    have k: "i + k < stop" "k < stop - i" using that len by simp_all
    note c = scanned_codes [OF st n _ k(1), unfolded LOWER_E_def UPPER_E_def is_digit_code_def]
    have "code_at t (i + k) < 65536" using c dc by auto
    then have "code_at t (i + k) = unit_code (t ! (i + k))" using small_code [of "i + k" t] k(1) e by simp
    then show q: "code_at t (i + k) = unit_code (?w ! k)" using slice_nth [OF e(1) k(2)] by simp
    show "unit_code (?w ! k) < 128" using c dc unfolding q by auto
    show "unit_code (?w ! k) = unit_code d \<Longrightarrow> i + k = skip_digits t i" using c dc unfolding q by auto
    show "unit_code (?w ! k) = 46 \<or> unit_code (?w ! k) = 44 \<Longrightarrow> unit_code (?w ! k) = unit_code d"
      using c dc unfolding q by auto
  qed
  have "{k. k < length ?w \<and> ?w ! k = d} \<subseteq> {skip_digits t i - i}"
    using code(3) by fastforce
  then have "card {k. k < length ?w \<and> ?w ! k = d} \<le> card {skip_digits t i - i}"
    by (intro card_mono) auto
  then have one: "length (filter (\<lambda>u. u = d) ?w) \<le> 1" by (simp add: length_filter_conv_card)
  define raw where "raw = map (\<lambda>u. if u = d then 46 else u) ?w"
  have raw: "(if unit_code d = DOT then ?w else replace_first d (hd (js ''.'')) ?w) = raw"
    using M(2) replace_first_map [OF one, of 46]
    by (auto simp: raw_def DOT_def js_def unit_code_def map_idI)
  have rl: "length raw = stop - i" using len by (simp add: raw_def)
  have "cut_like t i (unit_code d) raw"
    unfolding cut_like_def
  proof (intro allI impI)
    fix k assume "k < length raw"
    then have k: "k < length ?w" using len rl by simp
    let ?u = "?w ! k"
    have ru: "raw ! k = (if ?u = d then 46 else ?u)" using k by (simp add: raw_def)
    have small: "unit_code (raw ! k) < 128" using code(2) [OF k] ru by (simp add: unit_code_def)
    have "drop k raw = raw ! k # drop (Suc k) raw" using \<open>k < length raw\<close> by (rule Cons_nth_drop_Suc [symmetric])
    then have cr: "code_at raw k = unit_code (raw ! k)"
      using code_at_drop small_unit [of "raw ! k"] small by simp
    show "num_class (unit_code d) (code_at t (i + k)) = num_class DOT (code_at raw k)"
    proof (cases "?u = d")
      case True
      then show ?thesis using cr ru code(1) [OF k] dc
        by (auto simp: num_class_def DOT_def is_digit_code_def LOWER_E_def UPPER_E_def unit_code_def)
    next
      case False
      then have "unit_code ?u \<noteq> unit_code d" by (simp add: unit_code_inject)
      moreover have "unit_code ?u \<noteq> 46" using code(4) [OF k] calculation by auto
      ultimately show ?thesis using False cr ru code(1) [OF k] by (simp add: num_class_def DOT_def)
    qed
  qed
  then have "is_number_literal raw"
    by (rule cut_literal [OF _ st]) (use n rl e in simp)
  then show ?thesis using raw by simp
qed

lemma lex_one_ok:
  assumes M: "valid_marks M" and t: "lex_one t M i = Inr tok"
  shows "token_ok tok"
proof -
  obtain d where d: "sy_decimal M = [d]" "d = 46 \<or> d = 44"
    using M by (auto simp: valid_marks_def canonical_syntax_def decimal_comma_def js_def)
  have dc: "code_at (sy_decimal M) 0 = unit_code d" 
    using code_at_drop [of 0 "[d]" d "[]"] d(1) by simp
  have pi_name: "is_name (js ''pi'')"
    by (simp add: js_def is_name_from_units letter_code_def word_unit_def unit_code_def)
  have kinds: "k \<noteq> NumberTok \<and> k \<noteq> NameTok" if "single_kind c = Some k" for c k
    using that by (auto simp: single_kind_def split: if_splits)
  show ?thesis
  proof (cases "starts_number t i (unit_code d)")
    case True
    define z where "z = scan_number t i (unit_code d)"
    have z: "0 \<le> z" using t True dc by (auto simp: lex_one_def Let_def z_def split: if_splits)
    have "is_number_literal (if unit_code d = DOT then slice i (nat z) t
        else replace_first d (hd (js ''.'')) (slice i (nat z) t))"
      by (rule sliced_literal [OF d True]) (use z in \<open>simp add: z_def\<close>)
    then show ?thesis
      using t True dc d(1) z by (auto simp: lex_one_def Let_def z_def token_ok_def split: if_splits)
  next
    case False
    then show ?thesis
      using t dc pi_name sliced_name [of t i] kinds
      by (auto simp: lex_one_def Let_def token_ok_def split: if_splits option.splits)
  qed
qed

lemma tokenize_loop_ok:
  "valid_marks M \<Longrightarrow> tokenize_loop source M limit i acc = Inr toks \<Longrightarrow> list_all token_ok acc \<Longrightarrow>
     list_all token_ok toks"
proof (induction source M limit i acc rule: tokenize_loop.induct)
  case (1 source M limit i acc)
  show ?case
    using 1 lex_one_ok [OF "1.prems"(1)]
    unfolding tokenize_loop.simps [of source M limit i acc]
    by (auto simp: result_simps push_token_def split: if_splits)
qed

end
