(* ===== verification/ExprGrown.thy ===== *)
theory ExprGrown
  imports ExprParsed
begin

text \<open>
  Every method of the parser builds proper trees: trees of the language whose levels fit the
  grammar, counted and measured as the parser's counters say, within the budgets. Shown for
  all the mutually recursive methods at once, by the induction their termination gives.
\<close>

definition proper :: "parser_env \<Rightarrow> expr_node \<Rightarrow> bool" where
  "proper G n \<longleftrightarrow> tree_of (pe_language G) n \<and> grammatical n \<and> node_depth n \<le> bg_depth (pe_limits G)"

text \<open>The node \<open>n\<close>, just read in the state \<open>s\<close>; \<open>k\<close> nodes were counted before it.\<close>

definition holds :: "parser_env \<Rightarrow> nat \<Rightarrow> nat \<Rightarrow> expr_node \<Rightarrow> parser_state \<Rightarrow> bool" where
  "holds G m k n s \<longleftrightarrow> proper G n \<and> m \<le> level n \<and> ps_depth s = node_depth n
     \<and> ps_nodes s = k + count_nodes n \<and> ps_nodes s \<le> bg_nodes (pe_limits G)"

definition grown :: "parser_env \<Rightarrow> nat \<Rightarrow> nat \<Rightarrow> expr_node parsed \<Rightarrow> bool" where
  "grown G m k r \<longleftrightarrow> (\<forall>n s'. r = Inr (n, s') \<longrightarrow> holds G m k n s')"

definition args_grown :: "parser_env \<Rightarrow> nat \<Rightarrow> expr_node list \<Rightarrow> (expr_node list \<times> nat) parsed \<Rightarrow> bool" where
  "args_grown G k before r \<longleftrightarrow> (\<forall>args d s'. r = Inr ((args, d), s') \<longrightarrow>
     list_all (proper G) args \<and> d = foldr max (map node_depth args) 0
     \<and> ps_nodes s' + sum_list (map count_nodes before) = k + sum_list (map count_nodes args)
     \<and> length before \<le> length args)"

definition env_ok :: "parser_env \<Rightarrow> bool" where
  "env_ok G \<longleftrightarrow> list_all token_ok (pe_tokens G)"

lemma current_token_ok: "env_ok G \<Longrightarrow> token_ok (current_token G s)"
  by (auto simp: env_ok_def current_token_def end_token_def token_ok_def list_all_length)

lemma grownI: "(\<And>n s'. r = Inr (n, s') \<Longrightarrow> holds G m k n s') \<Longrightarrow> grown G m k r"
  by (simp add: grown_def)

lemma grown_rbind:
  "grown G m' k' r \<Longrightarrow> (\<And>n s'. r = Inr (n, s') \<Longrightarrow> holds G m' k' n s' \<Longrightarrow> grown G m k (f (n, s'))) \<Longrightarrow>
     grown G m k (rbind r f)"
  by (cases r) (auto simp: grown_def)

lemma grown_rbind_any:
  "(\<And>x. r = Inr x \<Longrightarrow> grown G m k (f x)) \<Longrightarrow> grown G m k (rbind r f)"
  by (cases r) (auto simp: grown_def)

lemma grown_Inl [simp]: "grown G m k (Inl e)"
  by (simp add: grown_def)

lemma grown_Inr [simp]: "grown G m k (Inr (n, s)) = holds G m k n s"
  by (simp add: grown_def)

lemma grown_weaken: "grown G m k r \<Longrightarrow> m' \<le> m \<Longrightarrow> grown G m' k r"
  by (auto simp: grown_def holds_def)

lemma holds_weaken: "holds G m k n s \<Longrightarrow> m' \<le> m \<Longrightarrow> holds G m' k n s"
  by (simp add: holds_def)

lemma grown_finish:
  assumes "tree_of (pe_language G) n" "grammatical n" "d = node_depth n" "m \<le> level n"
    "ps_nodes s + 1 = k + count_nodes n"
  shows "grown G m k (finish G n d s)"
  using assms by (auto simp: grown_def finish_def Let_def holds_def proper_def split: if_splits)

lemma enter_frame:
  "enter G s = Inr s' \<Longrightarrow> ps_nodes s' = ps_nodes s \<and> ps_depth s' = ps_depth s"
  by (auto simp: enter_def split: if_splits)

lemma warn_frame [simp]:
  "ps_nodes (warn_implicit G l r s) = ps_nodes s" "ps_depth (warn_implicit G l r s) = ps_depth s"
  by (auto simp: warn_implicit_def split: expr_node.splits)

lemma grown_binary:
  assumes a: "holds G ml k a sa" "left_level op \<le> ml" and b: "holds G mr (ps_nodes sa) b sb" "right_level op \<le> mr"
    and i: "i \<longrightarrow> op = Mul" and s: "ps_nodes s = ps_nodes sb" "ps_depth s = ps_depth sb"
    and m: "m \<le> level (BinaryNode op a b i sp)" and d: "d = ps_depth sa"
  shows "grown G m k (binary G op a b i d s)"
proof -
  have "level (BinaryNode op a b i x) = level (BinaryNode op a b i sp)" for x by simp
  then show ?thesis
    using assms unfolding binary_def
    by (intro grown_finish) (auto simp: holds_def proper_def)
qed

lemma op_level: "level (BinaryNode op a b i sp) = (if op = Pow then 4 else left_level op)"
  by (cases op) auto

lemma postfix_grown:
  "holds G 5 k node s \<Longrightarrow> grown G 5 k (postfix_loop G node s)"
proof (induction G node s arbitrary: k rule: postfix_loop.induct)
  case (1 G node s)
  let ?n = "FactorialNode node
    \<lparr>sp_start = sp_start (node_span node), sp_end = tk_end (current_token G s)\<rparr>"
  have f: "grown G 5 k (finish G ?n (ps_depth (advance G s) + 1) (advance G s))"
    using "1.prems" by (intro grown_finish) (auto simp: holds_def proper_def)
  have l: "grown G 5 k (rbind (finish G ?n (ps_depth (advance G s) + 1) (advance G s))
      (\<lambda>(node', s''). postfix_loop G node' s''))" if "current_kind G s = BangTok"
  proof (rule grown_rbind [OF f])
    fix n s' assume r: "finish G ?n (ps_depth (advance G s) + 1) (advance G s) = Inr (n, s')"
      and h: "holds G 5 k n s'"
    show "grown G 5 k (case (n, s') of (node', s'') \<Rightarrow> postfix_loop G node' s'')"
      using "1.IH" [OF refl that refl r refl h] by simp
  qed
  show ?case
    unfolding postfix_loop.simps [of G node s] Let_def
    using "1.prems" l by (auto simp del: advance_frame)
qed

lemma args_arity: "list_all (proper G) args \<Longrightarrow> list_all (tree_of (pe_language G)) args \<and> list_all grammatical args"
  by (auto simp: list_all_iff proper_def)

lemma foldr_max_snoc: "foldr max (xs @ [a]) (0::nat) = max (foldr max xs 0) a"
  by (induction xs) auto

definition call_spec :: "parser_env \<Rightarrow> expr_token \<Rightarrow> nat \<times> nat \<Rightarrow> bool" where
  "call_spec G tok arity \<longleftrightarrow> (\<exists>spec. function_spec (pe_language G) (tk_text tok) = Some spec
     \<and> arity = (fs_min spec, fs_max spec))"

lemma methods_grown:
  "env_ok G1 \<longrightarrow> grown G1 1 (ps_nodes s1) (parse_sum G1 s1)"
  "env_ok G2 \<longrightarrow> (\<forall>k. holds G2 1 k l2 s2 \<longrightarrow> grown G2 1 k (parse_sum_loop G2 l2 s2))"
  "env_ok G3 \<longrightarrow> grown G3 2 (ps_nodes s3) (parse_product G3 s3)"
  "env_ok G4 \<longrightarrow> (\<forall>k. holds G4 2 k l4 s4 \<longrightarrow> grown G4 2 k (parse_product_loop G4 l4 s4))"
  "env_ok G5 \<longrightarrow> grown G5 3 (ps_nodes s5) (parse_unary G5 s5)"
  "env_ok G6 \<longrightarrow> grown G6 4 (ps_nodes s6) (parse_power G6 s6)"
  "env_ok G7 \<longrightarrow> grown G7 5 (ps_nodes s7) (parse_postfix G7 s7)"
  "env_ok G8 \<longrightarrow> grown G8 6 (ps_nodes s8) (parse_primary G8 s8)"
  "env_ok G9 \<longrightarrow> current_kind G9 s9 = NameTok \<longrightarrow> grown G9 6 (ps_nodes s9) (parse_name G9 s9)"
  "env_ok G10 \<longrightarrow> call_spec G10 t10 r10 \<longrightarrow> grown G10 6 (ps_nodes s10) (parse_call G10 t10 r10 s10)"
  "env_ok G11 \<longrightarrow> list_all (proper G11) as11 \<and> d11 = foldr max (map node_depth as11) 0 \<longrightarrow>
     args_grown G11 (ps_nodes s11) as11 (parse_args G11 as11 d11 s11)"
  "env_ok G12 \<longrightarrow> grown G12 6 (ps_nodes s12) (parse_group G12 s12)"
  "env_ok G13 \<longrightarrow> grown G13 6 (ps_nodes s13) (parse_bars G13 s13)"
proof (induction rule: parse_sum_parse_sum_loop_parse_product_parse_product_loop_parse_unary_parse_power_parse_postfix_parse_primary_parse_name_parse_call_parse_args_parse_group_parse_bars.induct)
  case (1 G s)
  show ?case
  proof
    assume env: "env_ok G"
    show "grown G 1 (ps_nodes s) (parse_sum G s)"
      unfolding parse_sum.simps [of G s]
    proof (rule grown_rbind)
      show "grown G 2 (ps_nodes s) (parse_product G s)" using 1(1) env by blast
      fix n s' assume "parse_product G s = Inr (n, s')" "holds G 2 (ps_nodes s) n s'"
      then show "grown G 1 (ps_nodes s) (case (n, s') of (left, s') \<Rightarrow> parse_sum_loop G left s')"
        using 1(2) [OF _ refl] env holds_weaken [of G 2 "ps_nodes s" n s' 1] by simp
    qed
  qed
next
  case (2 G left s)
  show ?case
  proof (intro impI allI)
    fix k assume env: "env_ok G" and h: "holds G 1 k left s"
    let ?kind = "current_kind G s"
    let ?op = "if ?kind = PlusTok then Add else Sub"
    show "grown G 1 k (parse_sum_loop G left s)"
    proof (cases "?kind = PlusTok \<or> ?kind = MinusTok")
      case True
      have "grown G 1 k (rbind (parse_product G (advance G s)) (\<lambda>(right, s1).
          rbind (binary G ?op left right False (ps_depth s) s1) (\<lambda>(left', s2). parse_sum_loop G left' s2)))"
      proof (rule grown_rbind)
        show "grown G 2 (ps_nodes s) (parse_product G (advance G s))"
          using 2(1) [OF refl True] env by simp
        fix n s1 assume r: "parse_product G (advance G s) = Inr (n, s1)" and hn: "holds G 2 (ps_nodes s) n s1"
        have b: "grown G 1 k (binary G ?op left n False (ps_depth s) s1)"
          by (rule grown_binary [OF h _ hn]) auto
        have "grown G 1 k (rbind (binary G ?op left n False (ps_depth s) s1) (\<lambda>(left', s2). parse_sum_loop G left' s2))"
        proof (rule grown_rbind [OF b])
          fix l' s2 assume q: "binary G ?op left n False (ps_depth s) s1 = Inr (l', s2)" "holds G 1 k l' s2"
          show "grown G 1 k (case (l', s2) of (left', s2) \<Rightarrow> parse_sum_loop G left' s2)"
            using 2(2) [OF refl True r refl q(1) refl] env q(2) by simp
        qed
        then show "grown G 1 k (case (n, s1) of (right, s1) \<Rightarrow>
            rbind (binary G ?op left right False (ps_depth s) s1) (\<lambda>(left', s2). parse_sum_loop G left' s2))"
          by simp
      qed
      then show ?thesis using True by (simp add: parse_sum_loop.simps [of G left s] Let_def)
    next
      case False
      then show ?thesis using h by (simp add: parse_sum_loop.simps [of G left s] Let_def)
    qed
  qed
next
  case (3 G s)
  show ?case
  proof
    assume env: "env_ok G"
    show "grown G 2 (ps_nodes s) (parse_product G s)"
      unfolding parse_product.simps [of G s]
    proof (rule grown_rbind)
      show "grown G 3 (ps_nodes s) (parse_unary G s)" using 3(1) env by blast
      fix n s' assume "parse_unary G s = Inr (n, s')" "holds G 3 (ps_nodes s) n s'"
      then show "grown G 2 (ps_nodes s) (case (n, s') of (left, s') \<Rightarrow> parse_product_loop G left s')"
        using 3(2) [OF _ refl] env holds_weaken [of G 3 "ps_nodes s" n s' 2] by simp
    qed
  qed
next
  case (4 G left s)
  show ?case
  proof (intro impI allI)
    fix k assume env: "env_ok G" and h: "holds G 2 k left s"
    let ?kind = "current_kind G s"
    let ?op = "if ?kind = StarTok then Mul else Div"
    show "grown G 2 k (parse_product_loop G left s)"
    proof (cases "?kind = StarTok \<or> ?kind = SlashTok")
      case True
      have "grown G 2 k (rbind (parse_unary G (advance G s)) (\<lambda>(right, s1).
          rbind (binary G ?op left right False (ps_depth s) s1) (\<lambda>(left', s2). parse_product_loop G left' s2)))"
      proof (rule grown_rbind)
        show "grown G 3 (ps_nodes s) (parse_unary G (advance G s))"
          using 4(1) [OF refl refl True] env by simp
        fix n s1 assume r: "parse_unary G (advance G s) = Inr (n, s1)" and hn: "holds G 3 (ps_nodes s) n s1"
        have b: "grown G 2 k (binary G ?op left n False (ps_depth s) s1)"
          by (rule grown_binary [OF h _ hn]) auto
        have "grown G 2 k (rbind (binary G ?op left n False (ps_depth s) s1) (\<lambda>(left', s2). parse_product_loop G left' s2))"
        proof (rule grown_rbind [OF b])
          fix l' s2 assume q: "binary G ?op left n False (ps_depth s) s1 = Inr (l', s2)" "holds G 2 k l' s2"
          show "grown G 2 k (case (l', s2) of (left', s2) \<Rightarrow> parse_product_loop G left' s2)"
            using 4(2) [OF refl refl True r refl q(1) refl] env q(2) by simp
        qed
        then show "grown G 2 k (case (n, s1) of (right, s1) \<Rightarrow>
            rbind (binary G ?op left right False (ps_depth s) s1) (\<lambda>(left', s2). parse_product_loop G left' s2))"
          by simp
      qed
      then show ?thesis using True by (simp add: parse_product_loop.simps [of G left s] Let_def)
    next
      case False
      show ?thesis
      proof (cases "starts_implicit s ?kind")
        case True
        let ?w = "\<lambda>right s1. warn_implicit G left right s1"
        have "grown G 2 k (rbind (parse_power G s) (\<lambda>(right, s1).
            rbind (binary G Mul left right True (ps_depth s) (?w right s1)) (\<lambda>(left', s2). parse_product_loop G left' s2)))"
        proof (rule grown_rbind)
          show "grown G 4 (ps_nodes s) (parse_power G s)" using 4(3) [OF refl refl False True] env by simp
          fix n s1 assume r: "parse_power G s = Inr (n, s1)" and hn: "holds G 4 (ps_nodes s) n s1"
          have b: "grown G 2 k (binary G Mul left n True (ps_depth s) (?w n s1))"
            by (rule grown_binary [OF h _ hn]) auto
          have "grown G 2 k (rbind (binary G Mul left n True (ps_depth s) (?w n s1)) (\<lambda>(left', s2). parse_product_loop G left' s2))"
          proof (rule grown_rbind [OF b])
            fix l' s2 assume q: "binary G Mul left n True (ps_depth s) (?w n s1) = Inr (l', s2)" "holds G 2 k l' s2"
            show "grown G 2 k (case (l', s2) of (left', s2) \<Rightarrow> parse_product_loop G left' s2)"
              using 4(4) [OF refl refl False True r refl q(1) refl] env q(2) by simp
          qed
          then show "grown G 2 k (case (n, s1) of (right, s1) \<Rightarrow>
              rbind (binary G Mul left right True (ps_depth s) (?w right s1)) (\<lambda>(left', s2). parse_product_loop G left' s2))"
            by simp
        qed
        then show ?thesis using True False by (simp add: parse_product_loop.simps [of G left s] Let_def)
      next
        case no: False
        then show ?thesis using False h by (simp add: parse_product_loop.simps [of G left s] Let_def)
      qed
    qed
  qed
next
  case (5 G s)
  show ?case
  proof
    assume env: "env_ok G"
    let ?tok = "current_token G s"
    show "grown G 3 (ps_nodes s) (parse_unary G s)"
    proof (cases "tk_kind ?tok \<noteq> MinusTok \<and> tk_kind ?tok \<noteq> PlusTok")
      case True
      then show ?thesis using 5(1) [OF refl True] env grown_weaken [of G 4 _ _ 3]
        by (simp add: parse_unary.simps [of G s] Let_def)
    next
      case False
      let ?n = "\<lambda>arg. UnaryNode (if tk_kind ?tok = MinusTok then UMinus else UPlus) arg
          \<lparr>sp_start = tk_start ?tok, sp_end = sp_end (node_span arg)\<rparr>"
      have "grown G 3 (ps_nodes s) (rbind (enter G (advance G s)) (\<lambda>s1.
          rbind (parse_unary G s1) (\<lambda>(arg, s2). finish G (?n arg) (ps_depth (leave_nest s2) + 1) (leave_nest s2))))"
      proof (rule grown_rbind_any, rule grown_rbind)
        fix s1 assume e: "enter G (advance G s) = Inr s1"
        show "grown G 3 (ps_nodes s) (parse_unary G s1)"
          using 5(2) [OF refl False e] env enter_frame [OF e] by simp
        fix n s2 assume "holds G 3 (ps_nodes s) n s2"
        then show "grown G 3 (ps_nodes s)
            (case (n, s2) of (arg, s2) \<Rightarrow> finish G (?n arg) (ps_depth (leave_nest s2) + 1) (leave_nest s2))"
          by (auto simp: holds_def proper_def intro!: grown_finish)
      qed
      then show ?thesis unfolding parse_unary.simps [of G s] Let_def if_not_P [OF False] .
    qed
  qed
next
  case (6 G s)
  show ?case
  proof
    assume env: "env_ok G"
    show "grown G 4 (ps_nodes s) (parse_power G s)"
      unfolding parse_power.simps [of G s]
    proof (rule grown_rbind)
      show "grown G 5 (ps_nodes s) (parse_postfix G s)" using 6(1) env by simp
      fix base s1 assume r: "parse_postfix G s = Inr (base, s1)" and h: "holds G 5 (ps_nodes s) base s1"
      have "grown G 4 (ps_nodes s) (rbind (enter G (advance G s1)) (\<lambda>s2.
          rbind (parse_unary G s2) (\<lambda>(e, s3). binary G Pow base e False (ps_depth s1) (leave_nest s3))))"
        if c: "\<not> current_kind G s1 \<noteq> CaretTok"
      proof (rule grown_rbind_any, rule grown_rbind)
        fix s2 assume e: "enter G (advance G s1) = Inr s2"
        show "grown G 3 (ps_nodes s1) (parse_unary G s2)"
          using 6(2) [OF r refl c e] env enter_frame [OF e] by simp
        fix n s3 assume hn: "holds G 3 (ps_nodes s1) n s3"
        show "grown G 4 (ps_nodes s)
            (case (n, s3) of (e, s3) \<Rightarrow> binary G Pow base e False (ps_depth s1) (leave_nest s3))"
          unfolding prod.case by (rule grown_binary [OF h _ hn]) auto
      qed
      then show "grown G 4 (ps_nodes s) (case (base, s1) of (base, s1) \<Rightarrow>
          if current_kind G s1 \<noteq> CaretTok then Inr (base, s1)
          else rbind (enter G (advance G s1)) (\<lambda>s2. rbind (parse_unary G s2) (\<lambda>(exponent, s3).
            binary G Pow base exponent False (ps_depth s1) (leave_nest s3))))"
        using holds_weaken [OF h, of 4] by simp
    qed
  qed
next
  case (7 G s)
  show ?case
  proof
    assume env: "env_ok G"
    show "grown G 5 (ps_nodes s) (parse_postfix G s)"
      unfolding parse_postfix.simps [of G s]
    proof (rule grown_rbind)
      show "grown G 6 (ps_nodes s) (parse_primary G s)" using 7(1) env by simp
      fix n s' assume "holds G 6 (ps_nodes s) n s'"
      then show "grown G 5 (ps_nodes s) (case (n, s') of (node, s') \<Rightarrow> postfix_loop G node s')"
        using postfix_grown holds_weaken [of G 6 "ps_nodes s" n s' 5] by simp
    qed
  qed
next
  case (8 G s)
  show ?case
  proof
    assume env: "env_ok G"
    let ?tok = "current_token G s"
    show "grown G 6 (ps_nodes s) (parse_primary G s)"
    proof (cases "tk_kind ?tok")
      case NumberTok
      have "is_number_literal (tk_text ?tok)"
        using current_token_ok [OF env, of s] NumberTok by (simp add: token_ok_def)
      then show ?thesis using NumberTok
        by (auto simp: parse_primary.simps [of G s] Let_def intro!: grown_finish)
    next
      case NameTok
      then show ?thesis using 8(1) [OF refl NameTok] env
        by (simp add: parse_primary.simps [of G s] Let_def)
    next
      case OpenTok
      then show ?thesis using 8(2) [OF refl OpenTok] env
        by (simp add: parse_primary.simps [of G s] Let_def)
    next
      case BarTok
      then show ?thesis using 8(3) [OF refl BarTok] env
        by (simp add: parse_primary.simps [of G s] Let_def)
    next
      case RadicalTok
      let ?n = "\<lambda>arg. CallNode (js ''sqrt'') [arg] RadicalNotation
          \<lparr>sp_start = tk_start ?tok, sp_end = sp_end (node_span arg)\<rparr>"
      have "grown G 6 (ps_nodes s) (rbind (require_function G (js ''sqrt'') ?tok 1) (\<lambda>_.
          rbind (enter G (advance G s)) (\<lambda>s1. rbind (parse_primary G s1) (\<lambda>(arg, s2).
          finish G (?n arg) (ps_depth (leave_nest s2) + 1) (leave_nest s2)))))"
      proof (rule grown_rbind_any, rule grown_rbind_any, rule grown_rbind)
        fix x s1 assume q: "require_function G (js ''sqrt'') ?tok 1 = Inr x"
          and e: "enter G (advance G s) = Inr s1"
        show "grown G 6 (ps_nodes s) (parse_primary G s1)"
          using 8(4) [OF refl RadicalTok q e] env enter_frame [OF e] by simp
        fix n s2 assume "holds G 6 (ps_nodes s) n s2"
        then show "grown G 6 (ps_nodes s)
            (case (n, s2) of (arg, s2) \<Rightarrow> finish G (?n arg) (ps_depth (leave_nest s2) + 1) (leave_nest s2))"
          using q unfolding prod.case
          by (intro grown_finish)
            (auto simp: holds_def proper_def require_function_def split: option.splits if_splits)
      qed
      then show ?thesis using RadicalTok by (simp add: parse_primary.simps [of G s] Let_def)
    qed (simp_all add: parse_primary.simps [of G s] Let_def)
  qed
next
  case (9 G s)
  show ?case
  proof (intro impI)
    assume env: "env_ok G" and kind: "current_kind G s = NameTok"
    let ?tok = "current_token G s" let ?s1 = "advance G s"
    have name: "is_name (tk_text ?tok)"
      using current_token_ok [OF env, of s] kind by (simp add: token_ok_def)
    show "grown G 6 (ps_nodes s) (parse_name G s)"
    proof (cases "function_spec (pe_language G) (tk_text ?tok)")
      case None
      have "grown G 6 (ps_nodes s) (finish G (NameNode (tk_text ?tok) (token_span ?tok)) 1 ?s1)"
        by (rule grown_finish) (use None name in auto)
      then show ?thesis using None by (simp add: parse_name.simps [of G s] Let_def)
    next
      case (Some spec)
      have "call_spec G ?tok (fs_min spec, fs_max spec)" using Some by (simp add: call_spec_def)
      then have "grown G 6 (ps_nodes s) (parse_call G ?tok (fs_min spec, fs_max spec) ?s1)"
        if "current_kind G ?s1 = OpenTok"
        using 9(1) [OF refl refl refl refl Some that] env by simp
      then show ?thesis using Some by (simp add: parse_name.simps [of G s] Let_def)
    qed
  qed
next
  case (10 G t r s)
  show ?case
  proof (intro impI)
    assume env: "env_ok G" and spec: "call_spec G t r"
    obtain sp where sp: "function_spec (pe_language G) (tk_text t) = Some sp" "r = (fs_min sp, fs_max sp)"
      using spec by (auto simp: call_spec_def)
    let ?opened = "current_token G s"
    let ?s2 = "\<lambda>s1. push_context ParenContext s1"
    let ?args = "\<lambda>s1. if current_kind G (?s2 s1) \<noteq> CloseTok then parse_args G [] 0 (?s2 s1)
        else Inr (([], 0), ?s2 s1)"
    show "grown G 6 (ps_nodes s) (parse_call G t r s)"
      unfolding parse_call.simps [of G t r s] Let_def
    proof (rule grown_rbind_any)+
      fix s1 x assume e: "enter G (advance G s) = Inr s1" and q: "?args s1 = Inr x"
      obtain args d s3 where x: "x = ((args, d), s3)" by (metis prod.collapse)
      have "args_grown G (ps_nodes s) [] (?args s1)"
      proof (cases "current_kind G (?s2 s1) = CloseTok")
        case True
        then show ?thesis using enter_frame [OF e] by (auto simp: args_grown_def)
      next
        case False
        then show ?thesis using 10(1) [OF refl e refl False] env enter_frame [OF e] by simp
      qed
      then have g: "list_all (proper G) args" "d = foldr max (map node_depth args) 0"
        "ps_nodes s3 = ps_nodes s + sum_list (map count_nodes args)"
        using q x by (auto simp: args_grown_def)
      have "grown G 6 (ps_nodes s) (finish G (CallNode (tk_text t) args CallNotation y) (d + 1)
          (leave_nest (pop_context s4)))"
        if "ps_nodes s4 = ps_nodes s3" "\<not> (length args < fst r \<or> length args > snd r)" for y s4
        by (rule grown_finish) (use that g sp args_arity [OF g(1)] in auto)
      moreover have "ps_nodes s4 = ps_nodes s3"
        if "expect_close G ?opened z s3 = Inr (c, s4)" for z c s4
        using that by (auto simp: expect_close_def Let_def split: if_splits)
      ultimately show "grown G 6 (ps_nodes s) ((\<lambda>((args, deepest), s3).
          rbind (expect_close G ?opened [js ''sep'', js '')''] s3) (\<lambda>(close, s4).
            if length args < fst r \<or> snd r < length args
            then Inl (ParseError ArityError \<lparr>sp_start = tk_start t, sp_end = tk_end close\<rparr>
                   [if fst r = snd r then number_text (fst r)
                    else number_text (fst r) @ js '' to '' @ number_text (snd r)]
                   (number_text (length args)))
            else finish G (CallNode (tk_text t) args CallNotation
                   \<lparr>sp_start = tk_start t, sp_end = tk_end close\<rparr>) (deepest + 1)
                   (leave_nest (pop_context s4)))) x)"
        unfolding x prod.case by (auto intro!: grown_rbind_any)
    qed
  qed
next
  case (11 G as d s)
  show ?case
  proof (intro impI, elim conjE)
    assume env: "env_ok G" and pr: "list_all (proper G) as" and d: "d = foldr max (map node_depth as) 0"
    show "args_grown G (ps_nodes s) as (parse_args G as d s)"
      unfolding args_grown_def
    proof (intro allI impI)
      fix args d' s' assume r: "parse_args G as d s = Inr ((args, d'), s')"
      obtain a s1 where a: "parse_sum G s = Inr (a, s1)"
        using r unfolding parse_args.simps [of G as d s] by (auto simp: result_simps)
      have h: "holds G 1 (ps_nodes s) a s1" using 11(1) env a by (simp add: grown_def)
      have snoc: "list_all (proper G) (as @ [a])"
        "max d (ps_depth s1) = foldr max (map node_depth (as @ [a])) 0"
        using pr d h foldr_max_snoc [of "map node_depth as" "node_depth a"] by (auto simp: holds_def)
      show "list_all (proper G) args \<and> d' = foldr max (map node_depth args) 0
          \<and> ps_nodes s' + sum_list (map count_nodes as) = ps_nodes s + sum_list (map count_nodes args)
          \<and> length as \<le> length args"
      proof (cases "current_kind G s1 \<noteq> SepTok")
        case True
        then have "args = as @ [a]" "d' = max d (ps_depth s1)" "s' = s1"
          using r a by (auto simp: parse_args.simps [of G as d s])
        then show ?thesis using snoc h by (simp add: holds_def)
      next
        case False
        have "args_grown G (ps_nodes s1) (as @ [a]) (parse_args G (as @ [a]) (max d (ps_depth s1)) (advance G s1))"
          using 11(2) [OF a refl False] env snoc by simp
        moreover have "parse_args G (as @ [a]) (max d (ps_depth s1)) (advance G s1) = Inr ((args, d'), s')"
          using r a False by (simp add: parse_args.simps [of G as d s])
        ultimately show ?thesis using h by (auto simp: args_grown_def holds_def)
      qed
    qed
  qed
next
  case (12 G s)
  show ?case
  proof
    assume env: "env_ok G"
    let ?opened = "current_token G s"
    show "grown G 6 (ps_nodes s) (parse_group G s)"
      unfolding parse_group.simps [of G s] Let_def
    proof (rule grown_rbind_any, rule grown_rbind)
      fix s1 assume e: "enter G (advance G s) = Inr s1"
      show "grown G 1 (ps_nodes s) (parse_sum G (push_context ParenContext s1))"
        using 12(1) [OF refl e] env enter_frame [OF e] by simp
      fix n s2 assume h: "holds G 1 (ps_nodes s) n s2"
      have f: "grown G 6 (ps_nodes s) (finish G (GroupNode n y) (ps_depth s2 + 1) (leave_nest (pop_context s3)))"
        if "ps_nodes s3 = ps_nodes s2" for y s3
        by (rule grown_finish) (use that h in \<open>auto simp: holds_def proper_def\<close>)
      have "ps_nodes s3 = ps_nodes s2" if "expect_close G ?opened z s2 = Inr (c, s3)" for z c s3
        using that by (auto simp: expect_close_def Let_def split: if_splits)
      then show "grown G 6 (ps_nodes s) (case (n, s2) of (inner, s2) \<Rightarrow>
          rbind (expect_close G ?opened [js '')''] s2) (\<lambda>(close, s3).
            finish G (GroupNode inner \<lparr>sp_start = tk_start ?opened, sp_end = tk_end close\<rparr>)
              (ps_depth s2 + 1) (leave_nest (pop_context s3))))"
        using f unfolding prod.case by (auto intro!: grown_rbind_any)
    qed
  qed
next
  case (13 G s)
  show ?case
  proof
    assume env: "env_ok G"
    let ?opened = "current_token G s" let ?s1 = "advance G s"
    let ?stop = "current_kind G ?s1 = EndTok \<or> current_kind G ?s1 = CloseTok
        \<or> current_kind G ?s1 = SepTok \<or> current_kind G ?s1 = EqualsTok"
    let ?n = "\<lambda>inner s3. CallNode (js ''abs'') [inner] BarsNotation
        \<lparr>sp_start = tk_start ?opened, sp_end = tk_end (current_token G s3)\<rparr>"
    have inner: "grown G 6 (ps_nodes s) (rbind (enter G ?s1) (\<lambda>s2.
        rbind (parse_sum G (push_context BarContext s2)) (\<lambda>(inner, s3).
        if current_kind G s3 \<noteq> BarTok then Inl (parse_error G UnbalancedBar ?opened [js [CHR 0x7C]])
        else finish G (?n inner s3) (ps_depth s3 + 1) (leave_nest (pop_context (advance G s3))))))"
      if q: "require_function G (js ''abs'') ?opened 1 = Inr x" and st: "\<not> ?stop" for x
    proof (rule grown_rbind_any, rule grown_rbind)
      fix s2 assume e: "enter G ?s1 = Inr s2"
      show "grown G 1 (ps_nodes s) (parse_sum G (push_context BarContext s2))"
        using 13(1) [OF refl refl q refl st e] env enter_frame [OF e] by simp
      fix n s3 assume h: "holds G 1 (ps_nodes s) n s3"
      have "grown G 6 (ps_nodes s) (finish G (?n n s3) (ps_depth s3 + 1) (leave_nest (pop_context (advance G s3))))"
        by (rule grown_finish)
          (use h q in \<open>auto simp: holds_def proper_def require_function_def split: option.splits if_splits\<close>)
      then show "grown G 6 (ps_nodes s) (case (n, s3) of (inner, s3) \<Rightarrow>
          if current_kind G s3 \<noteq> BarTok then Inl (parse_error G UnbalancedBar ?opened [js [CHR 0x7C]])
          else finish G (?n inner s3) (ps_depth s3 + 1) (leave_nest (pop_context (advance G s3))))"
        by simp
    qed
    show "grown G 6 (ps_nodes s) (parse_bars G s)"
      unfolding parse_bars.simps [of G s] Let_def
    proof (rule grown_rbind_any)
      fix x assume q: "require_function G (js ''abs'') ?opened 1 = Inr x"
      show "grown G 6 (ps_nodes s) (if ?stop then Inl (parse_error G UnbalancedBar ?opened [])
          else rbind (enter G ?s1) (\<lambda>s2.
            rbind (parse_sum G (push_context BarContext s2)) (\<lambda>(inner, s3).
            if current_kind G s3 \<noteq> BarTok then Inl (parse_error G UnbalancedBar ?opened [js [CHR 0x7C]])
            else finish G (?n inner s3) (ps_depth s3 + 1) (leave_nest (pop_context (advance G s3))))))"
        using inner [OF q] by (cases ?stop) simp_all
    qed
  qed
qed

section \<open>What \<open>parse\<close> returns\<close>

lemma start_parser_env:
  assumes "start_parser t options = Inr G"
  shows "env_ok G" "pe_language G = po_language options" "pe_source G = t"
    "resolve_limits (po_limits options) = Inr (pe_limits G)"
proof -
  obtain limits M toks where q: "resolve_limits (po_limits options) = Inr limits"
    "valid_syntax (po_syntax options) = Inr M" "tokenize t M (bg_tokens limits) = Inr toks"
    and G: "G = \<lparr>pe_source = t, pe_tokens = toks, pe_language = po_language options,
      pe_variables = po_variables options, pe_limits = limits\<rparr>"
    using assms by (auto simp: start_parser_def result_simps split: if_splits)
  have M: "valid_marks M"
    using q(2) define_syntax_valid by (auto simp: valid_syntax_def valid_marks_def split: if_splits)
  have "list_all token_ok toks"
    using q(3) tokenize_loop_ok [OF M]
    by (auto simp: tokenize_def result_simps token_ok_def end_token_def)
  then show "env_ok G" "pe_language G = po_language options" "pe_source G = t"
    "resolve_limits (po_limits options) = Inr (pe_limits G)"
    using G q(1) by (simp_all add: env_ok_def)
qed

text \<open>
  C23: A parsed tree is well formed and within its budgets: whatever the text, the literals of
  the tree \<open>parse\<close> returns are number literals, its names are names and none a function, each
  call names a function of the language with as many arguments as that takes, only products
  are implicit, the levels of operands fit the grammar, and the tree has no more nodes and no
  more depth than the budgets allow.
\<close>

theorem parsed_tree_well_formed:
  assumes "parse t options = Inr (Inr e)"
  shows "tree_of (po_language options) (ex_root e) \<and> grammatical (ex_root e)
    \<and> (\<exists>B. resolve_limits (po_limits options) = Inr B \<and> count_nodes (ex_root e) \<le> bg_nodes B
         \<and> node_depth (ex_root e) \<le> bg_depth B)"
proof -
  have "parse_text t options = Inr e"
    using assms by (auto simp: parse_def returned_def split: sum.splits)
  then obtain G s where G: "start_parser t options = Inr G"
    and p: "parse_sum G initial_state = Inr (ex_root e, s)"
    by (auto simp: parse_text_def result_simps)
  note env = start_parser_env [OF G]
  have "grown G 1 (ps_nodes initial_state) (parse_sum G initial_state)"
    using methods_grown(1) env(1) by blast
  then have "holds G 1 0 (ex_root e) s" using p by (simp add: grown_def initial_state_def)
  then show ?thesis using env by (auto simp: holds_def proper_def)
qed

theorem parsed_tree_well_formed_witness:
  "\<exists>e. parse (js ''-x!^2'')
      \<lparr>po_language = \<lparr>la_functions = [], la_constants = []\<rparr>, po_syntax = canonical_syntax,
        po_limits = None, po_variables = None\<rparr> = Inr (Inr e)
    \<and> tree_of \<lparr>la_functions = [], la_constants = []\<rparr> (ex_root e) \<and> grammatical (ex_root e)
    \<and> node_depth (ex_root e) \<le> 256"
proof -
  obtain root where p: "parse (js ''-x!^2'')
      \<lparr>po_language = \<lparr>la_functions = [], la_constants = []\<rparr>, po_syntax = canonical_syntax,
        po_limits = None, po_variables = None\<rparr>
    = Inr (Inr \<lparr>ex_source = js ''-x!^2'', ex_root = root, ex_warnings = []\<rparr>)"
    using sample_parsed by blast
  show ?thesis
    using p parsed_tree_well_formed [OF p] by (auto simp: resolve_limits_def DEFAULT_LIMITS_def)
qed

text \<open>
  Printing and parsing are stable: a tree that came from parsing a text, printed in
  canonical style and parsed again, is that tree - its parentheses, literals and names as they
  were typed, no parentheses added - with its products explicit, its root signs as calls, and
  only its spans changed.
\<close>

theorem parse_print_stable:
  assumes "names_ok (po_language options)" "parse t options = Inr (Inr e)"
    and "print (PrintExpr e) \<lparr>pp_syntax = Some (po_syntax options), pp_display = False, pp_depth = d\<rparr>
      = Inr t'"
    and "resolve_limits (po_limits options) = Inr B"
    and "within_budgets B (po_syntax options) (strip (explicit (ex_root e)))"
  shows "\<exists>root. parse t' options = Inr (Inr \<lparr>ex_source = t', ex_root = root, ex_warnings = []\<rparr>)
    \<and> strip root = strip (explicit (ex_root e))"
proof -
  let ?M = "po_syntax options"
  have w: "tree_of (po_language options) (ex_root e)" "grammatical (ex_root e)"
  proof -
    have "parse_text t options = Inr e"
      using assms(2) by (auto simp: parse_def returned_def split: sum.splits)
    then obtain G s where G: "start_parser t options = Inr G"
      and p: "parse_sum G initial_state = Inr (ex_root e, s)"
      by (auto simp: parse_text_def result_simps)
    have "grown G 1 (ps_nodes initial_state) (parse_sum G initial_state)"
      using methods_grown(1) start_parser_env(1) [OF G] by blast
    then have "proper G (ex_root e)" using p by (simp add: grown_def holds_def)
    then show "tree_of (po_language options) (ex_root e)" "grammatical (ex_root e)"
      using start_parser_env(2) [OF G] by (simp_all add: proper_def)
  qed
  have c: "canon_tree (ex_root e) = strip (explicit (ex_root e))" by (rule canon_explicit [OF w(2,1)])
  obtain P where P: "make_printer \<lparr>pp_syntax = Some ?M, pp_display = False, pp_depth = d\<rparr> = Inr P"
    "print_node P (ex_root e) 1 False = Inr t'"
    using assms(3) by (auto simp: print_def result_simps)
  note m = make_printer_marks [OF P(1)]
  have t': "t' = shown ?M (canon_tree (ex_root e))" using print_node_Inr [OF m(2) P(2)] .
  show ?thesis
    using shown_parse_text [OF m(1) assms(1) canon_grammatical canon_plain canon_tree_of [OF w(1)] refl refl
        assms(4)] assms(5)
    unfolding t' c by (auto simp: parse_def returned_def)
qed

lemma strip_explicit: "strip (explicit n) = explicit (strip n)"
  by (induction n) simp_all

lemma strip_shape:
  assumes "strip n = UnaryNode UMinus (BinaryNode Pow (FactorialNode (NameNode x no_span) no_span)
        (NumberNode k no_span) False no_span) no_span"
  obtains s1 s2 s3 s4 s5 where "n = UnaryNode UMinus (BinaryNode Pow (FactorialNode (NameNode x s1) s2)
        (NumberNode k s3) False s4) s5"
proof -
  obtain a s5 where n: "n = UnaryNode UMinus a s5" using assms by (cases n) auto
  then obtain b c s4 where a: "a = BinaryNode Pow b c False s4" using assms by (cases a) auto
  then obtain d s2 s3 where bc: "b = FactorialNode d s2" "c = NumberNode k s3"
    using assms n by (cases b; cases c) auto
  then obtain s1 where "d = NameNode x s1" using assms n a by (cases d) auto
  then show ?thesis using that n a bc by blast
qed

theorem parse_print_stable_witness:
  "\<exists>root. parse (js ''-x!^2'')
      \<lparr>po_language = \<lparr>la_functions = [], la_constants = []\<rparr>, po_syntax = canonical_syntax,
        po_limits = None, po_variables = None\<rparr>
    = Inr (Inr \<lparr>ex_source = js ''-x!^2'', ex_root = root, ex_warnings = []\<rparr>)
    \<and> strip root = UnaryNode UMinus (BinaryNode Pow (FactorialNode (NameNode (js ''x'') no_span) no_span)
        (NumberNode (js ''2'') no_span) False no_span) no_span"
proof -
  let ?o = "\<lparr>po_language = \<lparr>la_functions = [], la_constants = []\<rparr>, po_syntax = canonical_syntax,
        po_limits = None, po_variables = None\<rparr>"
  let ?g = "UnaryNode UMinus (BinaryNode Pow (FactorialNode (NameNode (js ''x'') no_span) no_span)
        (NumberNode (js ''2'') no_span) False no_span) no_span"
  obtain root where p: "parse (js ''-x!^2'') ?o
      = Inr (Inr \<lparr>ex_source = js ''-x!^2'', ex_root = root, ex_warnings = []\<rparr>)"
    and r: "strip root = ?g"
    using sample_parsed by blast
  have e: "strip (explicit root) = ?g" by (simp add: strip_explicit r)
  have q: "print (PrintExpr \<lparr>ex_source = js ''-x!^2'', ex_root = root, ex_warnings = []\<rparr>)
      \<lparr>pp_syntax = Some (po_syntax ?o), pp_display = False, pp_depth = None\<rparr> = Inr (js ''-x!^2'')"
    using r by (elim strip_shape)
      (simp add: sample_simps print_def make_printer_def define_syntax_def parse_syntax_def
        print_node.simps operand.simps unary_symbol_def)
  have "within_budgets DEFAULT_LIMITS canonical_syntax ?g" by (simp add: within_budgets_def sample_simps)
  then show ?thesis
    using parse_print_stable [OF _ p q, of DEFAULT_LIMITS] unfolding expr.select_convs e
    by (simp add: names_ok_def function_spec_def resolve_limits_def)
qed

end
