(* ===== verification/OfflineStore.thy ===== *)
theory OfflineStore
  imports ArkiPrelude
begin

text \<open>
  The stored state of the offline mutation queue, \<open>packages/offline/src/mutations\<close>: the model
  of a queued mutation (\<open>model.ts\<close>), its failures (\<open>failures.ts\<close>), the key-value cells and the
  last-actor store (\<open>storage.ts\<close>) and the dead-letter store (\<open>dead-letter.ts\<close>).

  What the code awaits - the browser's key-value store, the remote call, the signed-in actor,
  the sleep between tries - is not part of it. Its answers are the record \<open>env\<close>, indexed by a
  counter in the state that every awaited answer moves on, so that a theorem over all
  environments covers every order of failures. The payload of a mutation and a time are kept as
  given; the text form the serializer makes is not modelled, only whether it can make one.
\<close>

section \<open>Mutations and failures\<close>

type_synonym mutation_id = string

datatype queue_error_code = RetryError | MaxRetriesError | ActorMismatch

record mutation =
  m_id :: mutation_id
  m_key :: string
  m_path :: "string list"
  m_input :: string
  m_actor :: "string option"
  m_enqueued_at :: int
  m_attempts :: nat
  m_last_error :: "(queue_error_code \<times> string) option"

datatype queue_failure =
    QueueStorageUnavailable
  | QueueStorageCorrupt
  | QueuePersistenceUnconfirmed
  | QueueEncodingFailure
  | UnexpectedDefect
  | QueueEffectUnconfirmed mutation_id string queue_failure
  | QueueAcceptanceUnconfirmed mutation_id string queue_failure
  | IdGenerationFailed

text \<open>An error as the dead-letter store keeps it: its name and message.\<close>

record dead_entry =
  d_mutation :: mutation
  d_message :: string
  d_name :: string
  d_at :: int

datatype queue_event =
    Enqueued mutation
  | Sent mutation
  | DeadLettered mutation string
  | Failed queue_failure
  | Drained
  | AuthRequired
  | Online
  | Offline

section \<open>The environment\<close>

text \<open>What a call to the remote side ends with, and what \<open>set\<close> and \<open>del\<close> of the key-value
  store do: they may reject after the write was committed.\<close>

datatype reason = DefectReason | TransportReason | StatusReason int | OtherReason

datatype rpc_answer = Answered | ReturnedFailure reason | ThrownError reason

datatype set_outcome = SetDone | SetLost | SetKept

datatype sleep_outcome = SleepDone | SleepCancelled | SleepFailed queue_failure

text \<open>
  \<open>en_late\<close>: the mutations other calls of \<open>enqueue\<close> add while one remote call or sleep is
  awaited. \<open>en_actor\<close> is \<open>None\<close> while the session is not known, \<open>Some None\<close> for signed out.
\<close>

record env =
  en_get :: "nat \<Rightarrow> bool"
  en_set :: "nat \<Rightarrow> set_outcome"
  en_encodes :: "mutation \<Rightarrow> bool"
  en_rpc :: "nat \<Rightarrow> mutation \<Rightarrow> rpc_answer"
  en_actor :: "nat \<Rightarrow> string option option"
  en_sleep :: "nat \<Rightarrow> nat \<Rightarrow> sleep_outcome"
  en_late :: "nat \<Rightarrow> mutation list"
  en_delay :: "nat \<Rightarrow> nat option"
  en_new_id :: "nat \<Rightarrow> mutation_id option"
  en_now :: "nat \<Rightarrow> int"
  en_online :: "nat \<Rightarrow> bool"

section \<open>The state\<close>

text \<open>A cell of the key-value store: no value, a value the schema reads, or any other value.\<close>

datatype 'a cell = Absent | Stored "'a list" | Unreadable

datatype actor_cell = NoActor | ActorText string | ActorOther

text \<open>One remote call: the mutation sent, the actor header, when, and whether it was answered.\<close>

record rpc_call =
  c_mutation :: mutation
  c_actor :: "string option"
  c_tick :: nat
  c_accepted :: bool

record world =
  tick :: nat
  queue_cell :: "mutation cell"
  dead_cell :: "dead_entry cell"
  actor_raw :: actor_cell
  actor_known :: "string option option"
  accepted :: "(mutation_id \<times> mutation) list"
  halted :: bool
  draining :: bool
  sending :: bool
  queued_count :: nat
  last_failure :: "queue_failure option"
  events :: "queue_event list"
  calls :: "rpc_call list"

type_synonym 'a answer = "(queue_failure + 'a) \<times> world"

definition next_tick :: "world \<Rightarrow> world" where
  "next_tick w = w\<lparr>tick := tick w + 1\<rparr>"

text \<open>\<open>const r = await ...; if (isFailure(r)) return r;\<close>\<close>

definition andthen :: "'a answer \<Rightarrow> ('a \<Rightarrow> world \<Rightarrow> 'b answer) \<Rightarrow> 'b answer" where
  "andthen r f = (case r of (Inl e, w) \<Rightarrow> (Inl e, w) | (Inr a, w) \<Rightarrow> f a w)"

lemma andthen_simps [simp]:
  "andthen (Inl e, w) f = (Inl e, w)" "andthen (Inr a, w) f = f a w"
  by (simp_all add: andthen_def)

lemma andthen_split:
  "P (andthen r f) \<longleftrightarrow> (\<forall>e w. r = (Inl e, w) \<longrightarrow> P (Inl e, w)) \<and> (\<forall>a w. r = (Inr a, w) \<longrightarrow> P (f a w))"
  by (cases r; cases "fst r") (auto simp: andthen_def)

text \<open>\<open>emit\<close> of the queue: the counts and the failure of \<open>status()\<close>, then the listeners.\<close>

definition emit :: "queue_event \<Rightarrow> world \<Rightarrow> world" where
  "emit event w =
     w\<lparr>last_failure := (case event of Failed f \<Rightarrow> Some f | _ \<Rightarrow> last_failure w),
       queued_count := (case event of
           Enqueued _ \<Rightarrow> queued_count w + 1
         | Sent _ \<Rightarrow> queued_count w - 1
         | DeadLettered _ _ \<Rightarrow> queued_count w - 1
         | _ \<Rightarrow> queued_count w),
       events := events w @ [event]\<rparr>"

section \<open>Reading and writing a cell\<close>

definition read_offline_state :: "env \<Rightarrow> 'a cell \<Rightarrow> world \<Rightarrow> 'a list answer" where
  "read_offline_state E c w =
     (if \<not> en_get E (tick w) then (Inl QueueStorageUnavailable, next_tick w)
      else case c of
             Absent \<Rightarrow> (Inr [], next_tick w)
           | Stored xs \<Rightarrow> (Inr xs, next_tick w)
           | Unreadable \<Rightarrow> (Inl QueueStorageCorrupt, next_tick w))"

definition write_offline_state ::
  "env \<Rightarrow> ('a list \<Rightarrow> bool) \<Rightarrow> ('a cell \<Rightarrow> world \<Rightarrow> world) \<Rightarrow> 'a list \<Rightarrow> world \<Rightarrow> unit answer" where
  "write_offline_state E encodes put xs w =
     (if \<not> encodes xs then (Inl QueueEncodingFailure, w)
      else case en_set E (tick w) of
             SetDone \<Rightarrow> (Inr (), next_tick (put (Stored xs) w))
           | SetLost \<Rightarrow> (Inl QueuePersistenceUnconfirmed, next_tick w)
           | SetKept \<Rightarrow> (Inl QueuePersistenceUnconfirmed, next_tick (put (Stored xs) w)))"

definition put_queue :: "mutation cell \<Rightarrow> world \<Rightarrow> world" where
  "put_queue c w = w\<lparr>queue_cell := c\<rparr>"

definition put_dead :: "dead_entry cell \<Rightarrow> world \<Rightarrow> world" where
  "put_dead c w = w\<lparr>dead_cell := c\<rparr>"

definition storage_read :: "env \<Rightarrow> world \<Rightarrow> mutation list answer" where
  "storage_read E w = read_offline_state E (queue_cell w) w"

definition storage_write :: "env \<Rightarrow> mutation list \<Rightarrow> world \<Rightarrow> unit answer" where
  "storage_write E xs w = write_offline_state E (list_all (en_encodes E)) put_queue xs w"

definition storage_clear :: "env \<Rightarrow> world \<Rightarrow> unit answer" where
  "storage_clear E w =
     (case en_set E (tick w) of
        SetDone \<Rightarrow> (Inr (), next_tick (put_queue Absent w))
      | SetLost \<Rightarrow> (Inl QueuePersistenceUnconfirmed, next_tick w)
      | SetKept \<Rightarrow> (Inl QueuePersistenceUnconfirmed, next_tick (put_queue Absent w)))"

section \<open>The dead-letter store\<close>

definition dead_read :: "env \<Rightarrow> world \<Rightarrow> dead_entry list answer" where
  "dead_read E w = read_offline_state E (dead_cell w) w"

definition dead_write :: "env \<Rightarrow> dead_entry list \<Rightarrow> world \<Rightarrow> unit answer" where
  "dead_write E xs w =
     write_offline_state E (list_all (\<lambda>d. en_encodes E (d_mutation d))) put_dead xs w"

definition dead_list :: "env \<Rightarrow> world \<Rightarrow> mutation list answer" where
  "dead_list E w = andthen (dead_read E w) (\<lambda>entries w1. (Inr (map d_mutation entries), w1))"

definition dead_add :: "env \<Rightarrow> mutation \<Rightarrow> string \<Rightarrow> world \<Rightarrow> unit answer" where
  "dead_add E m message w =
     andthen (dead_read E w) (\<lambda>entries w1.
       dead_write E
         (filter (\<lambda>d. m_id (d_mutation d) \<noteq> m_id m) entries
          @ [\<lparr>d_mutation = m, d_message = message, d_name = ''Error'', d_at = en_now E (tick w1)\<rparr>]) w1)"

definition dead_remove :: "env \<Rightarrow> mutation_id \<Rightarrow> world \<Rightarrow> unit answer" where
  "dead_remove E mid w =
     andthen (dead_read E w) (\<lambda>entries w1.
       dead_write E (filter (\<lambda>d. m_id (d_mutation d) \<noteq> mid) entries) w1)"

section \<open>The last actor of the device\<close>

definition actor_read :: "env \<Rightarrow> world \<Rightarrow> string option answer" where
  "actor_read E w =
     (case actor_known w of
        Some known \<Rightarrow> (Inr known, w)
      | None \<Rightarrow>
          if \<not> en_get E (tick w) then (Inl QueueStorageUnavailable, next_tick w)
          else case actor_raw w of
                 ActorOther \<Rightarrow> (Inl QueueStorageCorrupt, next_tick w)
               | ActorText a \<Rightarrow> (Inr (Some a), (next_tick w)\<lparr>actor_known := Some (Some a)\<rparr>)
               | NoActor \<Rightarrow> (Inr None, (next_tick w)\<lparr>actor_known := Some None\<rparr>))"

definition actor_set :: "env \<Rightarrow> actor_cell \<Rightarrow> world \<Rightarrow> unit answer" where
  "actor_set E c w =
     (case en_set E (tick w) of
        SetDone \<Rightarrow> (Inr (), (next_tick w)\<lparr>actor_raw := c\<rparr>)
      | SetLost \<Rightarrow> (Inl QueuePersistenceUnconfirmed, next_tick w)
      | SetKept \<Rightarrow> (Inl QueuePersistenceUnconfirmed, (next_tick w)\<lparr>actor_raw := c\<rparr>))"

definition actor_remember :: "env \<Rightarrow> string \<Rightarrow> world \<Rightarrow> unit answer" where
  "actor_remember E a w =
     (if actor_known w = Some (Some a) then (Inr (), w)
      else actor_set E (ActorText a) (w\<lparr>actor_known := Some (Some a)\<rparr>))"

definition actor_forget :: "env \<Rightarrow> world \<Rightarrow> unit answer" where
  "actor_forget E w =
     (if actor_known w = Some None then (Inr (), w)
      else actor_set E NoActor (w\<lparr>actor_known := Some None\<rparr>))"

text \<open>
  \<open>signedInActor\<close>: who is signed in, with what it makes the device remember. The remembering
  is not awaited; it is taken to happen here, and its failure is reported as an event.
\<close>

definition report_outcome :: "unit answer \<Rightarrow> world" where
  "report_outcome r = (case r of (Inl f, w) \<Rightarrow> emit (Failed f) w | (Inr _, w) \<Rightarrow> w)"

definition signed_in_actor :: "env \<Rightarrow> world \<Rightarrow> string option option \<times> world" where
  "signed_in_actor E w =
     (let now = en_actor E (tick w); w1 = next_tick w
      in (now, case now of
                 None \<Rightarrow> w1
               | Some None \<Rightarrow> report_outcome (actor_forget E w1)
               | Some (Some a) \<Rightarrow> report_outcome (actor_remember E a w1)))"

end
