(* ===== verification/OfflineReplay.thy ===== *)
theory OfflineReplay
  imports OfflineStore
begin

text \<open>
  The replay loop of \<open>packages/offline/src/mutations/replay.ts\<close>: one pass (\<open>drain\<close>) sends the
  queued mutations in order, each until it is sent, parked or put off. The endless loop of one
  entry is a partial function over one turn of it (\<open>attempt_entry\<close>); that it ends is a theorem
  of its own.
\<close>

section \<open>One remote call\<close>

datatype send_result = SentResult | DeadLetterResult | RetryResult | HaltResult

definition classify_response :: "reason \<Rightarrow> queue_failure + send_result" where
  "classify_response r =
     (case r of
        DefectReason \<Rightarrow> Inl UnexpectedDefect
      | TransportReason \<Rightarrow> Inr RetryResult
      | StatusReason status \<Rightarrow>
          if status = 401 then Inr HaltResult
          else if 400 \<le> status \<and> status < 500 then Inr DeadLetterResult
          else if 500 \<le> status \<and> status \<le> 599 then Inr RetryResult
          else Inl UnexpectedDefect
      | OtherReason \<Rightarrow> Inl UnexpectedDefect)"

text \<open>
  Mutations that other calls of \<open>enqueue\<close> put on the queue, and report, while this one waits.
  A queue that cannot be read refuses them. Each is added as a whole, its read and its write
  together, and only while a pass waits for a remote call or a retry delay. In the code a call
  may also read the queue before a pass writes it and write after: that race is not in a pass of
  this model, it is written as an order of its parts in \<open>OfflineProps\<close>
  (\<open>overlapping_enqueues_lose_one\<close>, \<open>stale_enqueue_restores_sent\<close>).
\<close>

definition arrive :: "mutation list \<Rightarrow> world \<Rightarrow> world" where
  "arrive late w =
     (case queue_cell w of
        Unreadable \<Rightarrow> w
      | Absent \<Rightarrow> if late = [] then w
          else fold (\<lambda>m. emit (Enqueued m)) late (w\<lparr>queue_cell := Stored late\<rparr>)
      | Stored xs \<Rightarrow> fold (\<lambda>m. emit (Enqueued m)) late (w\<lparr>queue_cell := Stored (xs @ late)\<rparr>))"

definition rpc_send :: "env \<Rightarrow> mutation \<Rightarrow> world \<Rightarrow> rpc_answer \<times> world" where
  "rpc_send E entry w =
     (let answer = en_rpc E (tick w) entry
      in (answer,
          arrive (en_late E (tick w))
            (next_tick (w\<lparr>calls := calls w @ [\<lparr>c_mutation = entry, c_actor = m_actor entry,
               c_tick = tick w, c_accepted = (answer = Answered)\<rparr>]\<rparr>))))"

definition try_send :: "env \<Rightarrow> mutation \<Rightarrow> world \<Rightarrow> send_result answer" where
  "try_send E entry w =
     (case rpc_send E entry w of
        (Answered, w1) \<Rightarrow> (Inr SentResult, w1)
      | (ReturnedFailure r, w1) \<Rightarrow> (classify_response r, w1)
      | (ThrownError r, w1) \<Rightarrow> (classify_response r, w1))"

section \<open>Parking and updating an entry\<close>

definition dead_letter :: "env \<Rightarrow> mutation \<Rightarrow> string \<Rightarrow> world \<Rightarrow> unit answer" where
  "dead_letter E entry message w =
     andthen (storage_read E w) (\<lambda>after w1.
     andthen (dead_add E entry message w1) (\<lambda>_ w2.
     andthen (storage_write E (filter (\<lambda>m. m_id m \<noteq> m_id entry) after) w2) (\<lambda>_ w3.
       (Inr (), emit (DeadLettered entry message) w3))))"

definition update_entry :: "env \<Rightarrow> mutation \<Rightarrow> world \<Rightarrow> unit answer" where
  "update_entry E updated w =
     andthen (storage_read E w) (\<lambda>current w1.
       storage_write E (map (\<lambda>m. if m_id m = m_id updated then updated else m) current) w1)"

section \<open>One entry\<close>

definition MISMATCH_MESSAGE :: string where
  "MISMATCH_MESSAGE = ''Queued under another account; not sent under the account signed in now''"

definition REJECTED_MESSAGE :: string where
  "REJECTED_MESSAGE = ''Request failed with 4xx status''"

definition EXHAUSTED_MESSAGE :: string where
  "EXHAUSTED_MESSAGE = ''Max retries exceeded''"

definition RETRY_MESSAGE :: string where
  "RETRY_MESSAGE = ''Transient failure, retrying''"

text \<open>What a turn of the loop ends with: a result of the entry, or the entry to try again.\<close>

datatype turn = Settled bool | Again mutation

definition is_accepted :: "mutation_id \<Rightarrow> world \<Rightarrow> bool" where
  "is_accepted mid w = (map_of (accepted w) mid \<noteq> None)"

definition effect_unconfirmed :: "mutation \<Rightarrow> 'a answer \<Rightarrow> 'a answer" where
  "effect_unconfirmed m r =
     (case r of (Inl f, w) \<Rightarrow> (Inl (QueueEffectUnconfirmed (m_id m) (m_key m) f), w) | _ \<Rightarrow> r)"

definition settle_sent :: "env \<Rightarrow> mutation \<Rightarrow> world \<Rightarrow> turn answer" where
  "settle_sent E current w =
     (let w0 = w\<lparr>accepted := AList.update (m_id current) current (accepted w)\<rparr>
      in andthen (effect_unconfirmed current (storage_read E w0)) (\<lambda>after w1.
         andthen (effect_unconfirmed current
             (storage_write E (filter (\<lambda>m. m_id m \<noteq> m_id current) after) w1)) (\<lambda>_ w2.
           (Inr (Settled True),
            emit (Sent current) (w2\<lparr>accepted := AList.delete (m_id current) (accepted w2)\<rparr>)))))"

definition retry_later :: "env \<Rightarrow> mutation \<Rightarrow> world \<Rightarrow> turn answer" where
  "retry_later E current w =
     (let next_attempts = m_attempts current + 1
      in case en_delay E next_attempts of
           None \<Rightarrow>
             andthen (dead_letter E (current\<lparr>m_attempts := next_attempts,
                 m_last_error := Some (MaxRetriesError, EXHAUSTED_MESSAGE)\<rparr>) EXHAUSTED_MESSAGE w)
               (\<lambda>_ w1. (Inr (Settled True), w1))
         | Some delay \<Rightarrow>
             let updated = current\<lparr>m_attempts := next_attempts,
                 m_last_error := Some (RetryError, RETRY_MESSAGE)\<rparr>
             in andthen (update_entry E updated w) (\<lambda>_ w1.
                let w2 = arrive (en_late E (tick w1)) (next_tick w1)
                in case en_sleep E (tick w1) delay of
                     SleepCancelled \<Rightarrow> (Inr (Settled False), w2)
                   | SleepFailed f \<Rightarrow> (Inl f, w2)
                   | SleepDone \<Rightarrow> (Inr (Again updated), w2)))"

definition attempt_entry :: "env \<Rightarrow> mutation \<Rightarrow> world \<Rightarrow> turn answer" where
  "attempt_entry E current w =
     (let (signed_in, w1) = (if is_accepted (m_id current) w then (Some (m_actor current), w)
                             else signed_in_actor E w)
      in if signed_in \<noteq> Some (m_actor current)
         then case signed_in of
                None \<Rightarrow> (Inr (Settled False), emit AuthRequired w1)
              | Some None \<Rightarrow> (Inr (Settled False), emit AuthRequired w1)
              | Some (Some _) \<Rightarrow>
                  andthen (dead_letter E (current\<lparr>m_last_error := Some (ActorMismatch, MISMATCH_MESSAGE)\<rparr>)
                      MISMATCH_MESSAGE w1)
                    (\<lambda>_ w2. (Inr (Settled True), w2))
         else andthen (if is_accepted (m_id current) w1 then (Inr SentResult, w1)
                       else try_send E current w1) (\<lambda>result w2.
           case result of
             SentResult \<Rightarrow> settle_sent E current w2
           | HaltResult \<Rightarrow> (Inr (Settled False), emit AuthRequired (w2\<lparr>halted := True\<rparr>))
           | DeadLetterResult \<Rightarrow>
               andthen (dead_letter E current REJECTED_MESSAGE w2) (\<lambda>_ w3. (Inr (Settled True), w3))
           | RetryResult \<Rightarrow> retry_later E current w2))"

partial_function (option) process_entry :: "env \<Rightarrow> mutation \<Rightarrow> world \<Rightarrow> bool answer option" where
  "process_entry E current w =
     (case attempt_entry E current w of
        (Inl f, w1) \<Rightarrow> Some (Inl f, w1)
      | (Inr (Settled b), w1) \<Rightarrow> Some (Inr b, w1)
      | (Inr (Again updated), w1) \<Rightarrow> process_entry E updated w1)"

section \<open>A pass over the queue\<close>

definition reconcile_accepted :: "'a answer \<Rightarrow> 'a answer" where
  "reconcile_accepted r =
     (case r of
        (Inl f, w) \<Rightarrow>
          (case accepted w of
             [] \<Rightarrow> (Inl f, w)
           | (_, m) # _ \<Rightarrow> (Inl (QueueEffectUnconfirmed (m_id m) (m_key m) f), w))
      | _ \<Rightarrow> r)"

text \<open>An accepted mutation that is no longer stored is sent: its delete was committed after all.\<close>

fun confirm_accepted :: "(mutation_id \<times> mutation) list \<Rightarrow> mutation list \<Rightarrow> world \<Rightarrow> world" where
  "confirm_accepted [] entries w = w"
| "confirm_accepted ((mid, m) # rest) entries w =
     confirm_accepted rest entries
       (if list_ex (\<lambda>c. m_id c = mid) entries then w
        else emit (Sent m) (w\<lparr>accepted := AList.delete mid (accepted w)\<rparr>))"

fun drain_entries :: "env \<Rightarrow> mutation list \<Rightarrow> world \<Rightarrow> unit answer option" where
  "drain_entries E [] w = Some (Inr (), w)"
| "drain_entries E (snapshot # rest) w =
     (case reconcile_accepted (storage_read E w) of
        (Inl f, w1) \<Rightarrow> Some (Inl f, w1)
      | (Inr current, w1) \<Rightarrow>
          (case find (\<lambda>m. m_id m = m_id snapshot) current of
             None \<Rightarrow> drain_entries E rest w1
           | Some live \<Rightarrow>
               (case process_entry E live w1 of
                  None \<Rightarrow> None
                | Some (Inl f, w2) \<Rightarrow> Some (Inl f, w2)
                | Some (Inr True, w2) \<Rightarrow> drain_entries E rest w2
                | Some (Inr False, w2) \<Rightarrow> Some (Inr (), w2))))"

definition finish_drain :: "'a answer \<Rightarrow> 'a answer" where
  "finish_drain r = (fst r, (snd r)\<lparr>draining := False, sending := False\<rparr>)"

definition drain :: "env \<Rightarrow> world \<Rightarrow> unit answer option" where
  "drain E w =
     (if draining w \<or> halted w then Some (Inr (), w)
      else map_option finish_drain
        (case reconcile_accepted (storage_read E (w\<lparr>draining := True, sending := True\<rparr>)) of
           (Inl f, w1) \<Rightarrow> Some (Inl f, w1)
         | (Inr entries, w1) \<Rightarrow>
             drain_entries E entries (confirm_accepted (accepted w1) entries w1)))"

definition drain_now :: "env \<Rightarrow> world \<Rightarrow> unit answer option" where
  "drain_now E w = drain E (w\<lparr>halted := False\<rparr>)"

definition handle_online :: "env \<Rightarrow> world \<Rightarrow> world option" where
  "handle_online E w =
     map_option report_outcome (drain E (emit Online (w\<lparr>halted := False\<rparr>)))"

definition handle_offline :: "world \<Rightarrow> world" where
  "handle_offline w = emit Offline w"

end
