(* ===== verification/OfflineQueue.thy ===== *)
theory OfflineQueue
  imports OfflineReplay
begin

text \<open>
  The offline mutation queue of \<open>packages/offline/src/mutations/queue.ts\<close>: \<open>enqueue\<close> with its
  receipt, \<open>drain\<close>, the dead-letter operations and \<open>status\<close>. \<open>enqueue\<close> is cut where it waits
  for the store, so that two overlapping calls can be written as an order of their parts. The
  count of dead letters in \<open>status\<close>, which a subscriber reads later, is left out.
\<close>

section \<open>Adding a mutation\<close>

datatype receipt_status = QueuedStatus | SentStatus | DeadLetterStatus

record receipt =
  rc_key :: string
  rc_status :: receipt_status

datatype enqueue_outcome = ThrownTypeError | Returned "queue_failure + receipt"

text \<open>Up to the read of the queue: the identity, the actor the entry is bound to, the entries.\<close>

definition bound_actor :: "env \<Rightarrow> world \<Rightarrow> string option answer" where
  "bound_actor E w =
     (case signed_in_actor E w of
        (None, w1) \<Rightarrow> actor_read E w1
      | (Some now, w1) \<Rightarrow> (Inr now, w1))"

definition begin_enqueue ::
  "env \<Rightarrow> string list \<Rightarrow> string \<Rightarrow> world \<Rightarrow> (mutation \<times> mutation list) answer" where
  "begin_enqueue E path input w =
     (case en_new_id E (tick w) of
        None \<Rightarrow> (Inl IdGenerationFailed, w)
      | Some mid \<Rightarrow>
          andthen (bound_actor E w) (\<lambda>bound w1.
          andthen (storage_read E w1) (\<lambda>current w2.
            (Inr (\<lparr>m_id = mid, m_key = mid, m_path = path, m_input = input, m_actor = bound,
                m_enqueued_at = en_now E (tick w2), m_attempts = 0, m_last_error = None\<rparr>, current), w2))))"

text \<open>The write of the queue with the entry added, and its event.\<close>

definition store_enqueued :: "env \<Rightarrow> mutation \<Rightarrow> mutation list \<Rightarrow> world \<Rightarrow> unit answer" where
  "store_enqueued E entry current w =
     (case storage_write E (current @ [entry]) w of
        (Inl f, w1) \<Rightarrow>
          (Inl (if f = QueuePersistenceUnconfirmed
                then QueueAcceptanceUnconfirmed (m_id entry) (m_key entry) f else f), w1)
      | (Inr _, w1) \<Rightarrow> (Inr (), emit (Enqueued entry) w1))"

text \<open>\<open>observeOutcome\<close>: the status the events of one pass give an entry.\<close>

fun outcome_status :: "mutation_id \<Rightarrow> queue_event list \<Rightarrow> receipt_status \<Rightarrow> receipt_status" where
  "outcome_status mid [] st = st"
| "outcome_status mid (Sent m # es) st = outcome_status mid es (if m_id m = mid then SentStatus else st)"
| "outcome_status mid (DeadLettered m _ # es) st =
     outcome_status mid es (if m_id m = mid then DeadLetterStatus else st)"
| "outcome_status mid (_ # es) st = outcome_status mid es st"

definition finish_enqueue :: "env \<Rightarrow> mutation \<Rightarrow> world \<Rightarrow> receipt answer option" where
  "finish_enqueue E entry w =
     (if \<not> en_online E (tick w)
      then Some (Inr \<lparr>rc_key = m_key entry, rc_status = QueuedStatus\<rparr>, w)
      else map_option (\<lambda>r. case r of
             (Inl f, w1) \<Rightarrow> (Inl (QueueAcceptanceUnconfirmed (m_id entry) (m_key entry) f), w1)
           | (Inr _, w1) \<Rightarrow>
               (Inr \<lparr>rc_key = m_key entry,
                  rc_status = outcome_status (m_id entry) (drop (length (events w)) (events w1)) QueuedStatus\<rparr>,
                w1))
        (drain_now E w))"

definition enqueue_run :: "env \<Rightarrow> string list \<Rightarrow> string \<Rightarrow> world \<Rightarrow> receipt answer option" where
  "enqueue_run E path input w =
     (case begin_enqueue E path input w of
        (Inl f, w1) \<Rightarrow> Some (Inl f, w1)
      | (Inr (entry, current), w1) \<Rightarrow>
          (case store_enqueued E entry current w1 of
             (Inl f, w2) \<Rightarrow> Some (Inl f, w2)
           | (Inr _, w2) \<Rightarrow> finish_enqueue E entry w2))"

definition enqueue ::
  "env \<Rightarrow> bool \<Rightarrow> string list \<Rightarrow> string \<Rightarrow> world \<Rightarrow> (enqueue_outcome \<times> world) option" where
  "enqueue E offline_safe path input w =
     (if \<not> offline_safe then Some (ThrownTypeError, w)
      else map_option (\<lambda>(r, w1). (Returned r, w1)) (enqueue_run E path input w))"

section \<open>The other operations\<close>

definition queue_drain :: "env \<Rightarrow> world \<Rightarrow> unit answer option" where
  "queue_drain E w =
     map_option (\<lambda>r. case r of
         (Inl f, w1) \<Rightarrow> (Inl f, emit (Failed f) w1)
       | (Inr _, w1) \<Rightarrow> (Inr (), emit Drained (w1\<lparr>last_failure := None\<rparr>)))
       (drain_now E w)"

definition dead_letter_retry :: "env \<Rightarrow> mutation_id \<Rightarrow> world \<Rightarrow> unit answer option" where
  "dead_letter_retry E mid w =
     (case dead_list E w of
        (Inl f, w1) \<Rightarrow> Some (Inl f, w1)
      | (Inr items, w1) \<Rightarrow>
          (case find (\<lambda>m. m_id m = mid) items of
             None \<Rightarrow> Some (Inr (), w1)
           | Some m \<Rightarrow>
               let reset = m\<lparr>m_attempts := 0, m_last_error := None\<rparr>
               in case andthen (storage_read E w1) (\<lambda>current w2.
                         andthen (storage_write E (filter (\<lambda>e. m_id e \<noteq> mid) current @ [reset]) w2) (\<lambda>_ w3.
                         dead_remove E mid w3)) of
                    (Inl f, w4) \<Rightarrow> Some (Inl f, w4)
                  | (Inr _, w4) \<Rightarrow>
                      let w5 = emit (Enqueued reset) w4
                      in if en_online E (tick w5) then queue_drain E w5 else Some (Inr (), w5)))"

definition dead_letter_discard :: "env \<Rightarrow> mutation_id \<Rightarrow> world \<Rightarrow> unit answer" where
  "dead_letter_discard E mid w = dead_remove E mid w"

record queue_snapshot =
  qs_queued :: nat
  qs_sending :: bool
  qs_failure :: "queue_failure option"

definition queue_status :: "world \<Rightarrow> queue_snapshot" where
  "queue_status w = \<lparr>qs_queued = queued_count w, qs_sending = sending w, qs_failure = last_failure w\<rparr>"

text \<open>The queue as it is made: \<open>state.queuedCount\<close> follows the entries the store holds.\<close>

definition create_queue :: "env \<Rightarrow> mutation cell \<Rightarrow> dead_entry cell \<Rightarrow> actor_cell \<Rightarrow> world" where
  "create_queue E q d a =
     (let w0 = \<lparr>tick = 0, queue_cell = q, dead_cell = d, actor_raw = a, actor_known = None,
            accepted = [], halted = False, draining = False, sending = False, queued_count = 0,
            last_failure = None, events = [], calls = []\<rparr>
      in case storage_read E w0 of
           (Inl f, w1) \<Rightarrow> emit (Failed f) w1
         | (Inr items, w1) \<Rightarrow> w1\<lparr>queued_count := length items\<rparr>)"

end
