(* ===== verification/OfflineView.thy ===== *)
theory OfflineView
  imports OfflineQueue
begin

text \<open>
  What the store operations do to the entries they keep. A stored list that is read, changed
  and written back is an interface (\<open>saved_list\<close>) that the queue and the dead-letter store both
  provide; the lemmas of the interface say what a change ends with when its write fails.
\<close>

section \<open>The entries a cell keeps\<close>

definition kept :: "'a cell \<Rightarrow> 'a list" where
  "kept c = (case c of Stored xs \<Rightarrow> xs | _ \<Rightarrow> [])"

definition queue_list :: "world \<Rightarrow> mutation list" where
  "queue_list w = kept (queue_cell w)"

definition parked :: "world \<Rightarrow> dead_entry list" where
  "parked w = kept (dead_cell w)"

lemma kept_simps [simp]: "kept Absent = []" "kept (Stored xs) = xs" "kept Unreadable = []"
  by (simp_all add: kept_def)

section \<open>A list saved in a cell\<close>

locale saved_list =
  fixes rd :: "env \<Rightarrow> world \<Rightarrow> 'a list answer"
    and wr :: "env \<Rightarrow> 'a list \<Rightarrow> world \<Rightarrow> unit answer"
    and held :: "world \<Rightarrow> 'a list"
    and frame :: "world \<Rightarrow> 'f"
  assumes rd_value: "rd E w = (Inr xs, w') \<Longrightarrow> xs = held w"
    and rd_held: "rd E w = (r, w') \<Longrightarrow> held w' = held w \<and> frame w' = frame w"
    and wr_done: "wr E xs w = (Inr u, w') \<Longrightarrow> held w' = xs"
    and wr_held: "wr E xs w = (s, w') \<Longrightarrow> (held w' = held w \<or> held w' = xs) \<and> frame w' = frame w"
begin

lemma changed:
  assumes "andthen (rd E w) (\<lambda>xs. wr E (g xs)) = (r, w')"
  shows "(held w' = held w \<or> held w' = g (held w)) \<and> frame w' = frame w"
    "r = Inr u \<Longrightarrow> held w' = g (held w)"
proof -
  obtain q w1 where q: "rd E w = (q, w1)" by fastforce
  note h = rd_held [OF q]
  show "(held w' = held w \<or> held w' = g (held w)) \<and> frame w' = frame w"
  proof (cases q)
    case (Inl e)
    then show ?thesis using assms q h by simp
  next
    case (Inr xs)
    then have "wr E (g (held w)) w1 = (r, w')" using assms q rd_value by simp
    then show ?thesis using wr_held h by metis
  qed
  show "held w' = g (held w)" if "r = Inr u"
  proof (cases q)
    case (Inl e)
    then show ?thesis using assms q that by simp
  next
    case (Inr xs)
    then have "wr E (g (held w)) w1 = (Inr u, w')" using assms q rd_value that by simp
    then show ?thesis by (rule wr_done)
  qed
qed

end

lemma next_tick_sel [simp]:
  "queue_cell (next_tick w) = queue_cell w" "dead_cell (next_tick w) = dead_cell w"
  "accepted (next_tick w) = accepted w" "calls (next_tick w) = calls w"
  "tick (next_tick w) = tick w + 1" "halted (next_tick w) = halted w" "events (next_tick w) = events w"
  by (simp_all add: next_tick_def)

lemma emit_sel [simp]:
  "queue_cell (emit e w) = queue_cell w" "dead_cell (emit e w) = dead_cell w"
  "accepted (emit e w) = accepted w" "calls (emit e w) = calls w" "tick (emit e w) = tick w"
  "halted (emit e w) = halted w" "events (emit e w) = events w @ [e]"
  by (simp_all add: emit_def)

lemma emit_all_sel [simp]:
  "queue_cell (fold (\<lambda>m. emit (Enqueued m)) ms w) = queue_cell w"
  "dead_cell (fold (\<lambda>m. emit (Enqueued m)) ms w) = dead_cell w"
  "accepted (fold (\<lambda>m. emit (Enqueued m)) ms w) = accepted w"
  "calls (fold (\<lambda>m. emit (Enqueued m)) ms w) = calls w"
  "tick (fold (\<lambda>m. emit (Enqueued m)) ms w) = tick w"
  "halted (fold (\<lambda>m. emit (Enqueued m)) ms w) = halted w"
  by (induction ms arbitrary: w) simp_all

text \<open>What neither reading nor writing the queue changes, and the same for the dead letters.\<close>

definition beside_queue :: "world \<Rightarrow> dead_entry cell \<times> (mutation_id \<times> mutation) list \<times> rpc_call list" where
  "beside_queue w = (dead_cell w, accepted w, calls w)"

definition beside_dead :: "world \<Rightarrow> mutation cell \<times> (mutation_id \<times> mutation) list \<times> rpc_call list" where
  "beside_dead w = (queue_cell w, accepted w, calls w)"

interpretation queue_store: saved_list storage_read storage_write queue_list beside_queue
  by unfold_locales
    (auto simp: storage_read_def storage_write_def read_offline_state_def write_offline_state_def
      queue_list_def beside_queue_def put_queue_def split: cell.splits set_outcome.splits if_splits)

interpretation dead_store: saved_list dead_read dead_write parked beside_dead
  by unfold_locales
    (auto simp: dead_read_def dead_write_def read_offline_state_def write_offline_state_def
      parked_def beside_dead_def put_dead_def split: cell.splits set_outcome.splits if_splits)

section \<open>The view of a state\<close>

text \<open>What the properties of a pass speak of: the entries, the parked ones, the answered calls.\<close>

record view =
  v_queue :: "mutation list"
  v_dead :: "mutation list"
  v_accepted :: "(mutation_id \<times> mutation) list"
  v_calls :: "rpc_call list"

definition view_of :: "world \<Rightarrow> view" where
  "view_of w = \<lparr>v_queue = queue_list w, v_dead = map d_mutation (parked w),
     v_accepted = accepted w, v_calls = calls w\<rparr>"

definition request :: "mutation \<Rightarrow> mutation" where
  "request m = m\<lparr>m_attempts := 0, m_last_error := None\<rparr>"

definition ids :: "mutation list \<Rightarrow> mutation_id set" where
  "ids ms = m_id ` set ms"

definition answered :: "rpc_call list \<Rightarrow> mutation_id list" where
  "answered cs = map (\<lambda>c. m_id (c_mutation c)) (filter c_accepted cs)"

lemma request_id [simp]: "m_id (request m) = m_id m"
  by (simp add: request_def)

lemma request_updated [simp]:
  "request (m\<lparr>m_attempts := n\<rparr>) = request m" "request (m\<lparr>m_last_error := l\<rparr>) = request m"
  by (simp_all add: request_def)

lemma ids_simps [simp]:
  "ids [] = {}" "ids (m # ms) = insert (m_id m) (ids ms)" "ids (xs @ ys) = ids xs \<union> ids ys"
  "ids (filter (\<lambda>m. m_id m \<noteq> mid) ms) = ids ms - {mid}"
  by (auto simp: ids_def)

lemma ids_update [simp]: "ids (map (\<lambda>m. if m_id m = m_id u then u else m) ms) = ids ms"
  by (induction ms) auto

lemma answered_snoc [simp]:
  "answered (cs @ [c]) = answered cs @ (if c_accepted c then [m_id (c_mutation c)] else [])"
  by (simp add: answered_def)

text \<open>
  The steps a pass takes on the view: park a queued mutation, drop one that is parked or
  accepted, note an attempt, take in new ones, call, and keep the account of accepted ones.
\<close>

inductive queue_step :: "env \<Rightarrow> view \<Rightarrow> view \<Rightarrow> bool" for E where
  Park: "request m \<in> request ` set (v_queue v) \<Longrightarrow>
    queue_step E v (v\<lparr>v_dead := filter (\<lambda>d. m_id d \<noteq> m_id m) (v_dead v) @ [m]\<rparr>)"
| Drop: "mid \<in> ids (v_dead v) \<union> fst ` set (v_accepted v) \<Longrightarrow>
    queue_step E v (v\<lparr>v_queue := filter (\<lambda>m. m_id m \<noteq> mid) (v_queue v)\<rparr>)"
| Update: "request u \<in> request ` set (v_queue v) \<Longrightarrow>
    queue_step E v (v\<lparr>v_queue := map (\<lambda>m. if m_id m = m_id u then u else m) (v_queue v)\<rparr>)"
| Arrive: "queue_step E v (v\<lparr>v_queue := v_queue v @ en_late E t\<rparr>)"
| Refused: "\<lbrakk>c_mutation c \<in> set (v_queue v); \<not> c_accepted c\<rbrakk> \<Longrightarrow>
    queue_step E v (v\<lparr>v_calls := v_calls v @ [c]\<rparr>)"
| Accepted: "\<lbrakk>c_mutation c \<in> set (v_queue v); c_accepted c; m_id (c_mutation c) \<notin> fst ` set (v_accepted v)\<rbrakk> \<Longrightarrow>
    queue_step E v (v\<lparr>v_calls := v_calls v @ [c],
      v_accepted := AList.update (m_id (c_mutation c)) (c_mutation c) (v_accepted v)\<rparr>)"
| Kept: "mid \<in> fst ` set (v_accepted v) \<Longrightarrow>
    queue_step E v (v\<lparr>v_accepted := AList.update mid m (v_accepted v)\<rparr>)"
| Forgotten: "mid \<notin> ids (v_queue v) \<Longrightarrow>
    queue_step E v (v\<lparr>v_accepted := AList.delete mid (v_accepted v)\<rparr>)"

abbreviation queue_steps :: "env \<Rightarrow> view \<Rightarrow> view \<Rightarrow> bool" where
  "queue_steps E \<equiv> (queue_step E)\<^sup>*\<^sup>*"

end
