(* ===== verification/OfflineSteps.thy ===== *)
theory OfflineSteps
  imports OfflineView
begin

text \<open>
  The replay loop refines the steps of \<open>OfflineView\<close>: whatever the environment answers, one
  entry and a whole pass change the view only by such steps. The lemmas follow the code from
  one store operation to the pass.
\<close>

section \<open>Single operations\<close>

lemma read_view: "storage_read E w = (r, w') \<Longrightarrow> view_of w' = view_of w"
  by (drule queue_store.rd_held) (simp add: beside_queue_def view_of_def parked_def)

lemma read_list: "storage_read E w = (Inr xs, w') \<Longrightarrow> xs = queue_list w"
  by (rule queue_store.rd_value)

lemma write_view:
  assumes "storage_write E xs w = (r, w')"
  shows "view_of w' = view_of w \<or> view_of w' = (view_of w)\<lparr>v_queue := xs\<rparr>"
    "r = Inr u \<Longrightarrow> view_of w' = (view_of w)\<lparr>v_queue := xs\<rparr>"
  using queue_store.wr_held [OF assms] queue_store.wr_done [of E xs w u w'] assms
  by (auto simp: beside_queue_def view_of_def parked_def)

lemma signed_in_view: "signed_in_actor E w = (a, w') \<Longrightarrow> view_of w' = view_of w"
  by (auto simp: signed_in_actor_def Let_def report_outcome_def actor_forget_def actor_remember_def
      actor_set_def view_of_def queue_list_def parked_def
      split: option.splits prod.splits sum.splits set_outcome.splits if_splits)

lemma emit_view [simp]: "view_of (emit e w) = view_of w"
  by (simp add: view_of_def queue_list_def parked_def)

lemma tick_view [simp]: "view_of (next_tick w) = view_of w"
  by (simp add: view_of_def queue_list_def parked_def)

lemma halted_view [simp]: "view_of (w\<lparr>halted := b\<rparr>) = view_of w"
  "view_of (w\<lparr>draining := b, sending := b\<rparr>) = view_of w"
  by (simp_all add: view_of_def queue_list_def parked_def)

lemma accepted_view [simp]: "view_of (w\<lparr>accepted := a\<rparr>) = (view_of w)\<lparr>v_accepted := a\<rparr>"
  by (simp add: view_of_def queue_list_def parked_def)

lemma arrive_view:
  "view_of (arrive late w) = view_of w
   \<or> view_of (arrive late w) = (view_of w)\<lparr>v_queue := v_queue (view_of w) @ late\<rparr>"
  by (auto simp: arrive_def view_of_def queue_list_def parked_def split: cell.splits)

lemma arrive_steps: "queue_steps E (view_of w) (view_of (arrive (en_late E t) w))"
  using arrive_view [of "en_late E t" w] Arrive [of E "view_of w" t] by auto

lemma arrive_keeps: "m \<in> set (queue_list w) \<Longrightarrow> m \<in> set (queue_list (arrive late w))"
  by (auto simp: arrive_def queue_list_def split: cell.splits)

lemma dead_add_view:
  assumes "dead_add E m message w = (r, w')"
  shows "view_of w' = view_of w
      \<or> view_of w' = (view_of w)\<lparr>v_dead := filter (\<lambda>d. m_id d \<noteq> m_id m) (v_dead (view_of w)) @ [m]\<rparr>"
    "r = Inr u \<Longrightarrow>
      view_of w' = (view_of w)\<lparr>v_dead := filter (\<lambda>d. m_id d \<noteq> m_id m) (v_dead (view_of w)) @ [m]\<rparr>"
proof -
  obtain q w1 where q: "dead_read E w = (q, w1)" by fastforce
  let ?g = "\<lambda>entries. filter (\<lambda>d. m_id (d_mutation d) \<noteq> m_id m) entries
    @ [\<lparr>d_mutation = m, d_message = message, d_name = ''Error'', d_at = en_now E (tick w1)\<rparr>]"
  have e: "andthen (dead_read E w) (\<lambda>entries. dead_write E (?g entries)) = (r, w')"
    using assms q by (cases q) (simp_all add: dead_add_def)
  note c = dead_store.changed [OF e]
  have d: "map d_mutation (?g xs) = filter (\<lambda>d. m_id d \<noteq> m_id m) (map d_mutation xs) @ [m]" for xs
    by (simp add: filter_map comp_def)
  show "view_of w' = view_of w
      \<or> view_of w' = (view_of w)\<lparr>v_dead := filter (\<lambda>d. m_id d \<noteq> m_id m) (v_dead (view_of w)) @ [m]\<rparr>"
    using c(1) d [of "parked w"] by (auto simp: view_of_def queue_list_def beside_dead_def)
  show "view_of w' = (view_of w)\<lparr>v_dead := filter (\<lambda>d. m_id d \<noteq> m_id m) (v_dead (view_of w)) @ [m]\<rparr>"
    if "r = Inr u"
    using c(2) [of u] c(1) that d [of "parked w"] by (auto simp: view_of_def queue_list_def beside_dead_def)
qed

section \<open>Parking and updating\<close>

lemma view_queue [simp]: "v_queue (view_of w) = queue_list w"
  by (simp add: view_of_def)

lemma dead_letter_steps:
  assumes "dead_letter E m message w = (r, w')" "request m \<in> request ` set (queue_list w)"
  shows "queue_steps E (view_of w) (view_of w')"
proof -
  let ?v = "view_of w"
  let ?p = "?v\<lparr>v_dead := filter (\<lambda>d. m_id d \<noteq> m_id m) (v_dead ?v) @ [m]\<rparr>"
  have park: "queue_step E ?v ?p" using Park [of m ?v E] assms(2) by simp
  obtain q1 w1 where r1: "storage_read E w = (q1, w1)" by fastforce
  note v1 = read_view [OF r1]
  show ?thesis
  proof (cases q1)
    case (Inl f)
    then show ?thesis using assms(1) r1 v1 by (auto simp: dead_letter_def)
  next
    case (Inr after)
    then have after: "after = queue_list w" using r1 read_list by blast
    obtain q2 w2 where r2: "dead_add E m message w1 = (q2, w2)" by fastforce
    note v2 = dead_add_view [OF r2, unfolded v1]
    show ?thesis
    proof (cases q2)
      case (Inl f)
      then have "w' = w2" using assms(1) r1 Inr r2 by (auto simp: dead_letter_def)
      then show ?thesis using v2(1) park by auto
    next
      case (Inr u)
      let ?rest = "filter (\<lambda>e. m_id e \<noteq> m_id m) after"
      obtain q3 w3 where r3: "storage_write E ?rest w2 = (q3, w3)" by fastforce
      have v2': "view_of w2 = ?p" using v2(2) Inr by simp
      have "queue_step E ?p (?p\<lparr>v_queue := ?rest\<rparr>)"
        using Drop [of "m_id m" ?p E] by (simp add: after)
      moreover have "view_of w' = view_of w3"
        using assms(1) r1 \<open>q1 = Inr after\<close> r2 Inr r3 by (auto simp: dead_letter_def andthen_def split: sum.splits)
      ultimately show ?thesis using write_view(1) [OF r3] v2' park by auto
    qed
  qed
qed

lemma update_entry_steps:
  assumes "update_entry E u w = (r, w')" "request u \<in> request ` set (queue_list w)"
  shows "queue_steps E (view_of w) (view_of w')"
    "r = Inr x \<Longrightarrow> queue_list w' = map (\<lambda>m. if m_id m = m_id u then u else m) (queue_list w)"
proof -
  let ?g = "map (\<lambda>m. if m_id m = m_id u then u else m)"
  have e: "andthen (storage_read E w) (\<lambda>xs. storage_write E (?g xs)) = (r, w')"
    using assms(1) by (simp add: update_entry_def)
  note c = queue_store.changed [OF e]
  have "view_of w' = view_of w \<or> view_of w' = (view_of w)\<lparr>v_queue := ?g (queue_list w)\<rparr>"
    using c(1) by (auto simp: view_of_def parked_def beside_queue_def)
  then show "queue_steps E (view_of w) (view_of w')"
    using Update [of u "view_of w" E] assms(2) by auto
  show "queue_list w' = ?g (queue_list w)" if "r = Inr x" using c(2) [of x] that by blast
qed

section \<open>One turn\<close>

lemma update_dom: "fst ` set (AList.update k x xs) = insert k (fst ` set xs)"
  by (simp add: dom_update)

lemma unconfirmed_Inr [simp]:
  "effect_unconfirmed m (Inr x, w) = (Inr x, w)"
  "effect_unconfirmed m (Inl f, w) = (Inl (QueueEffectUnconfirmed (m_id m) (m_key m) f), w)"
  by (simp_all add: effect_unconfirmed_def)

lemma settle_sent_steps:
  assumes "settle_sent E m w = (r, w')"
  shows "queue_steps E ((view_of w)\<lparr>v_accepted := AList.update (m_id m) m (accepted w)\<rparr>) (view_of w')"
    "r \<noteq> Inr (Again u)"
proof -
  let ?w0 = "w\<lparr>accepted := AList.update (m_id m) m (accepted w)\<rparr>"
  let ?v = "view_of ?w0"
  obtain q1 w1 where r1: "storage_read E ?w0 = (q1, w1)" by fastforce
  note v1 = read_view [OF r1]
  have "queue_steps E ?v (view_of w') \<and> r \<noteq> Inr (Again u)"
  proof (cases q1)
    case (Inl f)
    then have "w' = w1" "r \<noteq> Inr (Again u)" using assms r1 by (auto simp: settle_sent_def Let_def)
    then show ?thesis using v1 by simp
  next
    case (Inr after)
    then have after: "after = queue_list w" using r1 read_list by (force simp: queue_list_def)
    let ?rest = "filter (\<lambda>e. m_id e \<noteq> m_id m) after"
    obtain q2 w2 where r2: "storage_write E ?rest w1 = (q2, w2)" by fastforce
    have drop: "queue_step E ?v (?v\<lparr>v_queue := ?rest\<rparr>)"
      using Drop [of "m_id m" ?v E] by (simp add: after update_dom queue_list_def)
    show ?thesis
    proof (cases q2)
      case (Inl f)
      then have "w' = w2" "r \<noteq> Inr (Again u)" using assms r1 Inr r2 by (auto simp: settle_sent_def Let_def)
      then show ?thesis using write_view(1) [OF r2] v1 drop by auto
    next
      case (Inr x)
      have v2: "view_of w2 = ?v\<lparr>v_queue := ?rest\<rparr>" using write_view(2) [OF r2] Inr v1 by simp
      have w': "w' = emit (Sent m) (w2\<lparr>accepted := AList.delete (m_id m) (accepted w2)\<rparr>)"
        and "r \<noteq> Inr (Again u)"
        using assms r1 \<open>q1 = Inr after\<close> r2 Inr by (auto simp: settle_sent_def Let_def)
      have "accepted w2 = v_accepted (view_of w2)" by (simp add: view_of_def)
      then have "view_of w' = (view_of w2)\<lparr>v_accepted := AList.delete (m_id m) (v_accepted (view_of w2))\<rparr>"
        by (simp add: w')
      moreover have "m_id m \<notin> ids (v_queue (view_of w2))" by (simp add: v2)
      ultimately have "queue_step E (view_of w2) (view_of w')" using Forgotten by metis
      then show ?thesis using drop v2 \<open>r \<noteq> Inr (Again u)\<close> by simp
    qed
  qed
  then show "queue_steps E ((view_of w)\<lparr>v_accepted := AList.update (m_id m) m (accepted w)\<rparr>) (view_of w')"
    "r \<noteq> Inr (Again u)" by simp_all
qed

lemma dead_letter_then:
  assumes "andthen (dead_letter E m message w) (\<lambda>_ w1. (Inr (Settled b), w1)) = (r, w')"
  shows "\<exists>s. dead_letter E m message w = (s, w')" "r \<noteq> Inr (Again u)"
  using assms by (cases "dead_letter E m message w"; cases "fst (dead_letter E m message w)"; auto)+

lemma retry_later_steps:
  assumes "retry_later E m w = (r, w')" "m \<in> set (queue_list w)"
  shows "queue_steps E (view_of w) (view_of w')"
    "r = Inr (Again u) \<Longrightarrow> u \<in> set (queue_list w') \<and> m_id u = m_id m \<and> m_attempts u = m_attempts m + 1
      \<and> request u = request m \<and> en_delay E (m_attempts u) \<noteq> None"
proof -
  have req: "request m \<in> request ` set (queue_list w)" using assms(2) by blast
  have "queue_steps E (view_of w) (view_of w') \<and> (r = Inr (Again u) \<longrightarrow> u \<in> set (queue_list w')
      \<and> m_id u = m_id m \<and> m_attempts u = m_attempts m + 1 \<and> request u = request m
      \<and> en_delay E (m_attempts u) \<noteq> None)"
  proof (cases "en_delay E (m_attempts m + 1)")
    case None
    let ?d = "m\<lparr>m_attempts := m_attempts m + 1, m_last_error := Some (MaxRetriesError, EXHAUSTED_MESSAGE)\<rparr>"
    have e: "andthen (dead_letter E ?d EXHAUSTED_MESSAGE w) (\<lambda>_ w1. (Inr (Settled True), w1)) = (r, w')"
      using assms(1) None by (simp add: retry_later_def)
    show ?thesis
      using dead_letter_then [OF e] dead_letter_steps [of E ?d EXHAUSTED_MESSAGE w _ w'] req by auto
  next
    case (Some delay)
    let ?u = "m\<lparr>m_attempts := m_attempts m + 1, m_last_error := Some (RetryError, RETRY_MESSAGE)\<rparr>"
    obtain q1 w1 where r1: "update_entry E ?u w = (q1, w1)" by fastforce
    have s1: "queue_steps E (view_of w) (view_of w1)"
      using update_entry_steps(1) [OF r1] req by simp
    show ?thesis
    proof (cases q1)
      case (Inl f)
      then show ?thesis using assms(1) Some r1 s1 by (auto simp: retry_later_def Let_def)
    next
      case (Inr x)
      let ?w2 = "arrive (en_late E (tick w1)) (next_tick w1)"
      have w': "w' = ?w2" "r = Inr (Again u) \<Longrightarrow> u = ?u"
        using assms(1) Some r1 Inr by (auto simp: retry_later_def Let_def split: sleep_outcome.splits)
      have "queue_list w1 = map (\<lambda>e. if m_id e = m_id ?u then ?u else e) (queue_list w)"
        using update_entry_steps(2) [OF r1] req Inr by simp
      then have "?u \<in> set (queue_list w1)" using assms(2) by force
      then have "?u \<in> set (queue_list w')"
        using arrive_keeps [of ?u "next_tick w1"] by (simp add: w'(1) queue_list_def)
      moreover have "queue_steps E (view_of w) (view_of w')"
        using s1 arrive_steps [of E "next_tick w1" "tick w1"] by (simp add: w'(1))
      ultimately show ?thesis using w'(2) Some by auto
    qed
  qed
  then show "queue_steps E (view_of w) (view_of w')"
    "r = Inr (Again u) \<Longrightarrow> u \<in> set (queue_list w') \<and> m_id u = m_id m \<and> m_attempts u = m_attempts m + 1
      \<and> request u = request m \<and> en_delay E (m_attempts u) \<noteq> None"
    by blast+
qed

lemma calls_frame [simp]:
  "calls (snd (storage_read E w)) = calls w" "calls (snd (storage_write E xs w)) = calls w"
  "calls (snd (dead_read E w)) = calls w" "calls (snd (dead_write E ds w)) = calls w"
  "calls (arrive late w) = calls w" "accepted (arrive late w) = accepted w"
  by (auto simp: storage_read_def storage_write_def dead_read_def dead_write_def read_offline_state_def
      write_offline_state_def put_queue_def put_dead_def arrive_def split: cell.splits set_outcome.splits)

lemma andthen_calls:
  assumes "\<And>a w1. calls (snd (f a w1)) = calls w1"
  shows "calls (snd (andthen r f)) = calls (snd r)"
  using assms by (cases r; cases "fst r") (auto simp: andthen_def)

lemma unconfirmed_calls [simp]: "calls (snd (effect_unconfirmed m r)) = calls (snd r)"
  by (cases r; cases "fst r") (auto simp: effect_unconfirmed_def)

lemma operation_calls [simp]:
  "calls (snd (dead_add E m message w)) = calls w"
  "calls (snd (dead_letter E m message w)) = calls w"
  "calls (snd (update_entry E m w)) = calls w"
  "calls (snd (settle_sent E m w)) = calls w"
  by (simp_all add: dead_add_def dead_letter_def update_entry_def settle_sent_def Let_def andthen_calls)

lemma retry_later_calls [simp]: "calls (snd (retry_later E m w)) = calls w"
proof (cases "en_delay E (m_attempts m + 1)")
  case (Some d)
  then show ?thesis
    by (auto simp: retry_later_def Let_def andthen_calls split: sleep_outcome.splits)
qed (simp add: retry_later_def andthen_calls)

text \<open>
  The call of one turn, when it makes one: the entry itself, under the actor it was queued for,
  who was signed in just before.
\<close>

definition turn_call :: "env \<Rightarrow> mutation \<Rightarrow> rpc_call \<Rightarrow> bool" where
  "turn_call E m c \<longleftrightarrow> c_mutation c = m \<and> c_actor c = m_actor m
     \<and> (\<exists>t. t < c_tick c \<and> c_tick c \<le> t + 2 \<and> en_actor E t = Some (m_actor m))"

lemma signed_in_frame:
  assumes "signed_in_actor E w = (a, w')"
  shows "a = en_actor E (tick w)" "calls w' = calls w" "accepted w' = accepted w"
    "tick w < tick w'" "tick w' \<le> tick w + 2"
  using assms
  by (auto simp: signed_in_actor_def Let_def report_outcome_def actor_forget_def actor_remember_def
      actor_set_def split: option.splits prod.splits sum.splits set_outcome.splits if_splits)

definition again_ok :: "env \<Rightarrow> mutation \<Rightarrow> turn answer \<Rightarrow> bool" where
  "again_ok E m res \<longleftrightarrow> (\<forall>u. fst res = Inr (Again u) \<longrightarrow> u \<in> set (queue_list (snd res)) \<and> m_id u = m_id m
     \<and> m_attempts u = m_attempts m + 1 \<and> request u = request m \<and> en_delay E (m_attempts u) \<noteq> None)"

definition turn_ok :: "env \<Rightarrow> mutation \<Rightarrow> world \<Rightarrow> turn answer \<Rightarrow> bool" where
  "turn_ok E m w res \<longleftrightarrow> queue_steps E (view_of w) (view_of (snd res)) \<and> again_ok E m res
     \<and> (\<exists>new. calls (snd res) = calls w @ new
          \<and> (new = [] \<or> (\<exists>c. new = [c] \<and> turn_call E m c \<and> \<not> is_accepted (m_id m) w)))"

lemma turn_okI:
  assumes "queue_steps E (view_of w) (view_of w1)" "calls w1 = calls w @ new"
    and "new = [] \<or> (\<exists>c. new = [c] \<and> turn_call E m c \<and> \<not> is_accepted (m_id m) w)"
    and "queue_steps E (view_of w1) (view_of (snd res))" "calls (snd res) = calls w1" "again_ok E m res"
  shows "turn_ok E m w res"
proof -
  have "queue_steps E (view_of w) (view_of (snd res))" using assms(1,4) by (rule rtranclp_trans)
  then show ?thesis unfolding turn_ok_def using assms(2,3,5,6) by (intro conjI exI [of _ new]) simp_all
qed

lemma again_okI: "(\<And>u. fst res \<noteq> Inr (Again u)) \<Longrightarrow> again_ok E m res"
  by (simp add: again_ok_def)

lemma dead_letter_turn:
  assumes "request d = request m" "m \<in> set (queue_list w)"
  shows "queue_steps E (view_of w) (view_of (snd (andthen (dead_letter E d message w) (\<lambda>_ w1. (Inr (Settled b), w1)))))"
    "calls (snd (andthen (dead_letter E d message w) (\<lambda>_ w1. (Inr (Settled b), w1)))) = calls w"
    "fst (andthen (dead_letter E d message w) (\<lambda>_ w1. (Inr (Settled b), w1))) \<noteq> Inr (Again u)"
proof -
  obtain q w1 where q: "dead_letter E d message w = (q, w1)" by fastforce
  have "queue_steps E (view_of w) (view_of w1)"
    using dead_letter_steps [OF q] assms by blast
  moreover have "calls w1 = calls w" using operation_calls(2) [of E d message w] q by simp
  ultimately show
    "queue_steps E (view_of w) (view_of (snd (andthen (dead_letter E d message w) (\<lambda>_ w1. (Inr (Settled b), w1)))))"
    "calls (snd (andthen (dead_letter E d message w) (\<lambda>_ w1. (Inr (Settled b), w1)))) = calls w"
    "fst (andthen (dead_letter E d message w) (\<lambda>_ w1. (Inr (Settled b), w1))) \<noteq> Inr (Again u)"
    unfolding q by (cases q; simp)+
qed

lemma retry_later_again: "m \<in> set (queue_list w) \<Longrightarrow> again_ok E m (retry_later E m w)"
  unfolding again_ok_def by (intro allI impI, rule retry_later_steps(2)) (simp_all add: prod_eq_iff)

text \<open>What follows a call that was not answered, on the state after it.\<close>

definition after_call :: "env \<Rightarrow> mutation \<Rightarrow> queue_failure + send_result \<Rightarrow> world \<Rightarrow> turn answer" where
  "after_call E m result w =
     (case result of
        Inl f \<Rightarrow> (Inl f, w)
      | Inr SentResult \<Rightarrow> settle_sent E m w
      | Inr HaltResult \<Rightarrow> (Inr (Settled False), emit AuthRequired (w\<lparr>halted := True\<rparr>))
      | Inr DeadLetterResult \<Rightarrow>
          andthen (dead_letter E m REJECTED_MESSAGE w) (\<lambda>_ w3. (Inr (Settled True), w3))
      | Inr RetryResult \<Rightarrow> retry_later E m w)"

lemma after_call_refused:
  assumes "m \<in> set (queue_list w)" "result \<noteq> Inr SentResult"
  shows "queue_steps E (view_of w) (view_of (snd (after_call E m result w)))"
    "calls (snd (after_call E m result w)) = calls w" "again_ok E m (after_call E m result w)"
proof -
  note d = dead_letter_turn [OF refl assms(1)]
  note y = retry_later_steps(1) [OF _ assms(1), of E "fst (retry_later E m w)" "snd (retry_later E m w)"]
    retry_later_again [OF assms(1)]
  have "queue_steps E (view_of w) (view_of (snd (after_call E m result w)))
      \<and> calls (snd (after_call E m result w)) = calls w \<and> again_ok E m (after_call E m result w)"
  proof (cases result)
    case (Inl f)
    then show ?thesis by (simp add: after_call_def again_okI)
  next
    case (Inr s)
    then show ?thesis
      using d y assms(2) by (cases s) (simp_all add: after_call_def again_okI)
  qed
  then show "queue_steps E (view_of w) (view_of (snd (after_call E m result w)))"
    "calls (snd (after_call E m result w)) = calls w" "again_ok E m (after_call E m result w)"
    by blast+
qed

text \<open>A turn, case by case.\<close>

lemma attempt_entry_cases:
  "attempt_entry E m w =
     (if is_accepted (m_id m) w then settle_sent E m w
      else let (signed_in, w1) = signed_in_actor E w
           in if signed_in = Some (m_actor m)
              then let (answer, w2) = rpc_send E m w1
                   in after_call E m (case answer of Answered \<Rightarrow> Inr SentResult
                        | ReturnedFailure r \<Rightarrow> classify_response r | ThrownError r \<Rightarrow> classify_response r) w2
              else case signed_in of
                Some (Some _) \<Rightarrow>
                  andthen (dead_letter E (m\<lparr>m_last_error := Some (ActorMismatch, MISMATCH_MESSAGE)\<rparr>)
                    MISMATCH_MESSAGE w1) (\<lambda>_ w2. (Inr (Settled True), w2))
              | _ \<Rightarrow> (Inr (Settled False), emit AuthRequired w1))"
proof (cases "is_accepted (m_id m) w")
  case True
  then show ?thesis by (simp add: attempt_entry_def)
next
  case False
  obtain s w1 where s: "signed_in_actor E w = (s, w1)" by fastforce
  have a: "\<not> is_accepted (m_id m) w1" using False signed_in_frame(3) [OF s] by (simp add: is_accepted_def)
  have "andthen (try_send E m w1) (\<lambda>result w2.
           case result of
             SentResult \<Rightarrow> settle_sent E m w2
           | HaltResult \<Rightarrow> (Inr (Settled False), emit AuthRequired (w2\<lparr>halted := True\<rparr>))
           | DeadLetterResult \<Rightarrow>
               andthen (dead_letter E m REJECTED_MESSAGE w2) (\<lambda>_ w3. (Inr (Settled True), w3))
           | RetryResult \<Rightarrow> retry_later E m w2)
      = (let (answer, w2) = rpc_send E m w1
         in after_call E m (case answer of Answered \<Rightarrow> Inr SentResult
              | ReturnedFailure r \<Rightarrow> classify_response r | ThrownError r \<Rightarrow> classify_response r) w2)"
    by (auto simp: try_send_def after_call_def andthen_def split: prod.splits rpc_answer.splits sum.splits)
  then show ?thesis
    using False a s by (auto simp: attempt_entry_def split: option.splits)
qed

lemma answered_turn:
  assumes m: "m \<in> set (queue_list w)" and a: "\<not> is_accepted (m_id m) w"
    and p: "rpc_send E m w = (Answered, w2)"
  shows "queue_steps E (view_of w) ((view_of w2)\<lparr>v_accepted := AList.update (m_id m) m (accepted w2)\<rparr>)"
proof -
  let ?c = "\<lparr>c_mutation = m, c_actor = m_actor m, c_tick = tick w, c_accepted = True\<rparr>"
  let ?w1 = "next_tick (w\<lparr>calls := calls w @ [?c]\<rparr>)"
  let ?acc = "AList.update (m_id m) m (accepted w)"
  have w2: "w2 = arrive (en_late E (tick w)) ?w1"
    using p by (auto simp: rpc_send_def Let_def)
  have "m_id m \<notin> fst ` set (accepted w)"
    using a by (auto simp: is_accepted_def map_of_eq_None_iff)
  then have "queue_step E (view_of w) ((view_of w)\<lparr>v_calls := calls w @ [?c], v_accepted := ?acc\<rparr>)"
    using Accepted [of ?c "view_of w" E] m by (simp add: view_of_def)
  moreover have "queue_steps E (view_of (?w1\<lparr>accepted := ?acc\<rparr>))
      (view_of (arrive (en_late E (tick w)) (?w1\<lparr>accepted := ?acc\<rparr>)))"
    by (rule arrive_steps)
  moreover have "view_of (?w1\<lparr>accepted := ?acc\<rparr>) = (view_of w)\<lparr>v_calls := calls w @ [?c], v_accepted := ?acc\<rparr>"
    by (simp add: view_of_def queue_list_def parked_def)
  moreover have "view_of (arrive (en_late E (tick w)) (?w1\<lparr>accepted := ?acc\<rparr>))
      = (view_of w2)\<lparr>v_accepted := AList.update (m_id m) m (accepted w2)\<rparr>"
    by (simp add: w2 arrive_def view_of_def queue_list_def parked_def split: cell.split)
  ultimately show ?thesis by (metis converse_rtranclp_into_rtranclp)
qed

lemma refused_turn:
  assumes m: "m \<in> set (queue_list w)" and p: "rpc_send E m w = (answer, w2)" "answer \<noteq> Answered"
  shows "queue_steps E (view_of w) (view_of w2)"
proof -
  let ?c = "\<lparr>c_mutation = m, c_actor = m_actor m, c_tick = tick w, c_accepted = False\<rparr>"
  let ?w1 = "next_tick (w\<lparr>calls := calls w @ [?c]\<rparr>)"
  have w2: "w2 = arrive (en_late E (tick w)) ?w1"
    using p by (auto simp: rpc_send_def Let_def)
  have "queue_step E (view_of w) (view_of ?w1)"
    using Refused [of ?c "view_of w" E] m by (simp add: view_of_def queue_list_def parked_def)
  then show ?thesis using arrive_steps [of E ?w1 "tick w"] by (simp add: w2)
qed

lemma rpc_send_call:
  assumes "rpc_send E m w = (answer, w2)"
  shows "m \<in> set (queue_list w) \<Longrightarrow> m \<in> set (queue_list w2)"
    "calls w2 = calls w @ [\<lparr>c_mutation = m, c_actor = m_actor m, c_tick = tick w,
       c_accepted = (answer = Answered)\<rparr>]"
  using assms arrive_keeps [of m "next_tick (w\<lparr>calls := calls w @ [\<lparr>c_mutation = m,
      c_actor = m_actor m, c_tick = tick w, c_accepted = (answer = Answered)\<rparr>]\<rparr>)" "en_late E (tick w)"]
  by (auto simp: rpc_send_def Let_def queue_list_def)

lemma settle_sent_turn:
  "queue_steps E ((view_of w)\<lparr>v_accepted := AList.update (m_id m) m (accepted w)\<rparr>) (view_of (snd (settle_sent E m w)))"
  "again_ok E m (settle_sent E m w)"
  using settle_sent_steps [of E m w "fst (settle_sent E m w)" "snd (settle_sent E m w)"]
  by (simp_all add: again_ok_def)

lemma attempt_entry_ok:
  assumes m: "m \<in> set (queue_list w)"
  shows "turn_ok E m w (attempt_entry E m w)"
proof (cases "is_accepted (m_id m) w")
  case True
  then have "queue_step E (view_of w) ((view_of w)\<lparr>v_accepted := AList.update (m_id m) m (accepted w)\<rparr>)"
    using Kept [of "m_id m" "view_of w" E m]
    by (auto simp: is_accepted_def view_of_def map_of_eq_None_iff)
  then have "queue_steps E (view_of w) (view_of (snd (settle_sent E m w)))"
    using settle_sent_turn(1) [where E = E and w = w and m = m] by (rule converse_rtranclp_into_rtranclp)
  then show ?thesis
    unfolding attempt_entry_cases using True settle_sent_turn(2) [where E = E and w = w and m = m]
    by (intro turn_okI [of E w w "[]"]) simp_all
next
  case False
  obtain s w1 where s: "signed_in_actor E w = (s, w1)" by fastforce
  note v1 = signed_in_view [OF s] and f1 = signed_in_frame [OF s]
  have m1: "m \<in> set (queue_list w1)" using m v1 by (metis view_queue)
  show ?thesis
  proof (cases "s = Some (m_actor m)")
    case False
    let ?d = "m\<lparr>m_last_error := Some (ActorMismatch, MISMATCH_MESSAGE)\<rparr>"
    note d = dead_letter_turn [OF request_updated(2) m1, where message = MISMATCH_MESSAGE and b = True]
    show ?thesis
      unfolding attempt_entry_cases using \<open>\<not> is_accepted (m_id m) w\<close> False s v1 f1 d
      by (intro turn_okI [of E w w1 "[]"]) (auto simp: again_okI split: option.split)
  next
    case True
    obtain answer w2 where p: "rpc_send E m w1 = (answer, w2)" by fastforce
    let ?c = "\<lparr>c_mutation = m, c_actor = m_actor m, c_tick = tick w1, c_accepted = (answer = Answered)\<rparr>"
    let ?res = "case answer of Answered \<Rightarrow> Inr SentResult
        | ReturnedFailure r \<Rightarrow> classify_response r | ThrownError r \<Rightarrow> classify_response r"
    have e: "attempt_entry E m w = after_call E m ?res w2"
      unfolding attempt_entry_cases using \<open>\<not> is_accepted (m_id m) w\<close> True s p by simp
    have a1: "\<not> is_accepted (m_id m) w1" using \<open>\<not> is_accepted (m_id m) w\<close> f1(3) by (simp add: is_accepted_def)
    have c: "calls w2 = calls w @ [?c]" using rpc_send_call(2) [OF p] f1(2) by simp
    have t: "turn_call E m ?c"
      using f1(1,4,5) True by (auto simp: turn_call_def intro!: exI [of _ "tick w"])
    show ?thesis
    proof (cases "answer = Answered")
      case ans: True
      have "queue_steps E (view_of w) (view_of (snd (settle_sent E m w2)))"
        using answered_turn [OF m1 a1] p ans settle_sent_turn(1) [where E = E and w = w2 and m = m] v1 rtranclp_trans by metis
      then show ?thesis
        unfolding e turn_ok_def using ans c t \<open>\<not> is_accepted (m_id m) w\<close> settle_sent_turn(2) [where E = E and w = w2 and m = m]
        by (simp add: after_call_def)
    next
      case refused: False
      have r: "?res \<noteq> Inr SentResult"
        using refused by (auto simp: classify_response_def split: rpc_answer.splits reason.splits if_splits)
      note ac = after_call_refused [OF rpc_send_call(1) [OF p m1] r, where E = E]
      show ?thesis
        unfolding e using refused_turn [OF m1 p refused] v1 c t ac \<open>\<not> is_accepted (m_id m) w\<close>
        by (intro turn_okI [of E w w2 "[?c]"]) simp_all
    qed
  qed
qed

end
