(* ===== verification/OfflineDrain.thy ===== *)
theory OfflineDrain
  imports OfflineSteps
begin

text \<open>
  One entry and one pass over the queue: the steps they refine, the calls they make, and that
  they end when the retry schedule gives up.
\<close>

section \<open>One entry\<close>

definition call_of :: "env \<Rightarrow> mutation_id \<Rightarrow> rpc_call \<Rightarrow> bool" where
  "call_of E mid c \<longleftrightarrow> m_id (c_mutation c) = mid \<and> turn_call E (c_mutation c) c"

definition entry_ok :: "env \<Rightarrow> mutation \<Rightarrow> world \<Rightarrow> world \<Rightarrow> bool" where
  "entry_ok E m w w' \<longleftrightarrow> queue_steps E (view_of w) (view_of w')
     \<and> (\<exists>new. calls w' = calls w @ new \<and> list_all (call_of E (m_id m)) new)"

lemma turn_entry:
  assumes "turn_ok E m w res"
  shows "entry_ok E m w (snd res)"
  using assms unfolding turn_ok_def entry_ok_def call_of_def by (fastforce simp: turn_call_def)

lemma entry_ok_trans:
  assumes "entry_ok E m w w1" "entry_ok E u w1 w2" "m_id u = m_id m"
  shows "entry_ok E m w w2"
proof -
  obtain n1 n2 where "calls w1 = calls w @ n1" "list_all (call_of E (m_id m)) n1"
    "calls w2 = calls w1 @ n2" "list_all (call_of E (m_id m)) n2"
    using assms by (auto simp: entry_ok_def)
  then have "\<exists>new. calls w2 = calls w @ new \<and> list_all (call_of E (m_id m)) new"
    by (intro exI [of _ "n1 @ n2"]) simp
  then show ?thesis using assms(1,2) by (auto simp: entry_ok_def)
qed

lemma process_entry_ok:
  assumes "process_entry E m w = Some res" "m \<in> set (queue_list w)"
  shows "entry_ok E m w (snd res)"
proof -
  have "m \<in> set (queue_list w) \<longrightarrow> entry_ok E m w (snd res)"
  proof (rule process_entry.raw_induct [rotated, OF assms(1)], rule impI)
    fix process E m w res
    assume IH: "\<And>E m w res. process E m w = Some res \<Longrightarrow> m \<in> set (queue_list w) \<longrightarrow> entry_ok E m w (snd res)"
      and body: "(case attempt_entry E m w of (Inl f, w1) \<Rightarrow> Some (Inl f, w1)
        | (Inr (Settled b), w1) \<Rightarrow> Some (Inr b, w1) | (Inr (Again u), w1) \<Rightarrow> process E u w1) = Some res"
      and m: "m \<in> set (queue_list w)"
    note t = attempt_entry_ok [OF m, of E]
    obtain r w1 where a: "attempt_entry E m w = (r, w1)" by fastforce
    have e: "entry_ok E m w w1" using turn_entry [OF t] a by simp
    show "entry_ok E m w (snd res)"
    proof (cases "\<exists>u. r = Inr (Again u)")
      case True
      then obtain u where r: "r = Inr (Again u)" by blast
      have u: "u \<in> set (queue_list w1)" "m_id u = m_id m"
        using t a r by (auto simp: turn_ok_def again_ok_def)
      have "process E u w1 = Some res" using body a r by simp
      then show ?thesis using entry_ok_trans [OF e _ u(2)] IH u(1) by blast
    next
      case False
      then have "snd res = w1" using body a by (auto split: sum.splits turn.splits)
      then show ?thesis using e by simp
    qed
  qed
  then show ?thesis using assms(2) by blast
qed

text \<open>\<open>gives_up E N\<close>: the schedule allows no retry after the \<open>N\<close>-th, as \<open>upTo(N)\<close> makes it.\<close>

definition gives_up :: "env \<Rightarrow> nat \<Rightarrow> bool" where
  "gives_up E N \<longleftrightarrow> (\<forall>n>N. en_delay E n = None)"

lemma process_entry_ends:
  assumes N: "gives_up E N"
  shows "m \<in> set (queue_list w) \<Longrightarrow>
    \<exists>res. process_entry E m w = Some res \<and> length (calls (snd res)) \<le> length (calls w) + Suc (N - m_attempts m)"
proof (induction "N - m_attempts m" arbitrary: m w rule: less_induct)
  case less
  note t = attempt_entry_ok [OF less.prems, of E]
  obtain r w1 where a: "attempt_entry E m w = (r, w1)" by fastforce
  have n1: "length (calls w1) \<le> Suc (length (calls w))" using t a by (auto simp: turn_ok_def)
  show ?case
  proof (cases r)
    case (Inl f)
    then show ?thesis using a n1 by (simp add: process_entry.simps [of E m])
  next
    case (Inr x)
    show ?thesis
    proof (cases x)
      case (Settled b)
      then show ?thesis using a n1 Inr by (simp add: process_entry.simps [of E m])
    next
      case (Again u)
      have u: "u \<in> set (queue_list w1)" "m_attempts u = m_attempts m + 1" "en_delay E (m_attempts u) \<noteq> None"
        using t a Inr Again by (auto simp: turn_ok_def again_ok_def)
      have "m_attempts u \<le> N" using N u(3) by (auto simp: gives_up_def not_less [symmetric])
      then have "N - m_attempts u < N - m_attempts m" "Suc (Suc (N - m_attempts u)) \<le> Suc (N - m_attempts m)"
        using u(2) by auto
      with less.hyps [of u w1] u(1) obtain res where res: "process_entry E u w1 = Some res"
        "length (calls (snd res)) \<le> length (calls w1) + Suc (N - m_attempts u)" by blast
      have "process_entry E m w = Some res" using a Inr Again res(1) by (simp add: process_entry.simps [of E m])
      then show ?thesis using res(2) n1 \<open>Suc (Suc (N - m_attempts u)) \<le> Suc (N - m_attempts m)\<close> by auto
    qed
  qed
qed

section \<open>The entries of a pass\<close>

lemma reconcile_simps [simp]:
  "snd (reconcile_accepted r) = snd r" "reconcile_accepted (Inr x, w) = (Inr x, w)"
  "\<exists>g. reconcile_accepted (Inl f, w) = (Inl g, w)"
  by (auto simp: reconcile_accepted_def split: prod.splits sum.splits list.splits)

lemma reconciled_read:
  assumes "reconcile_accepted (storage_read E w) = (r, w')"
  shows "view_of w' = view_of w" "r = Inr xs \<Longrightarrow> xs = queue_list w"
proof -
  obtain q w1 where q: "storage_read E w = (q, w1)" by fastforce
  have w': "w' = w1" using assms q by (metis reconcile_simps(1) snd_conv)
  then show "view_of w' = view_of w" using read_view [OF q] by simp
  show "xs = queue_list w" if "r = Inr xs"
  proof (cases q)
    case (Inl f)
    then show ?thesis
      using assms q that by (auto simp: reconcile_accepted_def split: list.splits)
  next
    case (Inr ys)
    then show ?thesis using assms q that read_list by auto
  qed
qed

definition pass_calls :: "env \<Rightarrow> mutation list \<Rightarrow> rpc_call list \<Rightarrow> bool" where
  "pass_calls E ms new \<longleftrightarrow>
     (\<exists>blocks. new = concat blocks \<and> list_all2 (\<lambda>m block. list_all (call_of E (m_id m)) block) ms blocks)"

lemma pass_calls_Nil: "pass_calls E ms []"
  unfolding pass_calls_def
  by (rule exI [of _ "map (\<lambda>_. []) ms"]) (simp add: list_all2_conv_all_nth)

lemma pass_calls_Cons:
  "list_all (call_of E (m_id m)) xs \<Longrightarrow> pass_calls E ms ys \<Longrightarrow> pass_calls E (m # ms) (xs @ ys)"
  unfolding pass_calls_def by (metis concat.simps(2) list_all2_Cons)

lemma drain_entries_ok:
  assumes "drain_entries E ms w = Some res"
  shows "queue_steps E (view_of w) (view_of (snd res))"
    "\<exists>new. calls (snd res) = calls w @ new \<and> pass_calls E ms new"
proof -
  have "queue_steps E (view_of w) (view_of (snd res))
      \<and> (\<exists>new. calls (snd res) = calls w @ new \<and> pass_calls E ms new)"
    using assms
  proof (induction ms arbitrary: w)
    case Nil
    then show ?case by (auto simp: pass_calls_Nil)
  next
    case (Cons m ms)
    obtain r w1 where r: "reconcile_accepted (storage_read E w) = (r, w1)" by fastforce
    note v1 = reconciled_read(1) [OF r]
    have c1: "calls w1 = calls w" using v1 by (metis view.select_convs(4) view_of_def)
    show ?case
    proof (cases r)
      case (Inl f)
      then show ?thesis using Cons.prems r v1 c1 by (auto simp: pass_calls_Nil)
    next
      case (Inr current)
      have current: "current = queue_list w1" using reconciled_read [OF r] Inr v1 by (metis view_queue)
      show ?thesis
      proof (cases "find (\<lambda>e. m_id e = m_id m) current")
        case None
        then have "drain_entries E ms w1 = Some res" using Cons.prems r Inr by simp
        then show ?thesis using Cons.IH [of w1] v1 c1 pass_calls_Cons [of E m "[]" ms] by auto
      next
        case (Some live)
        then have live: "m_id live = m_id m" "live \<in> set (queue_list w1)"
          using current by (auto simp: find_Some_iff)
        obtain res1 where p: "process_entry E live w1 = Some res1"
          using Cons.prems r Inr Some by (cases "process_entry E live w1") auto
        have ok: "entry_ok E live w1 (snd res1)" by (rule process_entry_ok [OF p live(2)])
        then obtain xs where xs: "calls (snd res1) = calls w @ xs" "list_all (call_of E (m_id m)) xs"
          and s1: "queue_steps E (view_of w) (view_of (snd res1))"
          using v1 c1 live(1) by (auto simp: entry_ok_def)
        show ?thesis
        proof (cases "fst res1 = Inr True")
          case True
          then have "drain_entries E ms (snd res1) = Some res"
            using Cons.prems r Inr Some p by (cases res1) auto
          then obtain ys where "queue_steps E (view_of (snd res1)) (view_of (snd res))"
            "calls (snd res) = calls (snd res1) @ ys" "pass_calls E ms ys"
            using Cons.IH by blast
          then show ?thesis using s1 xs pass_calls_Cons [OF xs(2)] by (metis append.assoc rtranclp_trans)
        next
          case False
          then have "snd res = snd res1"
            using Cons.prems r Inr Some p by (cases res1; cases "fst res1") (auto split: bool.splits)
          then show ?thesis using s1 xs pass_calls_Cons [OF xs(2) pass_calls_Nil, of ms] by auto
        qed
      qed
    qed
  qed
  then show "queue_steps E (view_of w) (view_of (snd res))"
    "\<exists>new. calls (snd res) = calls w @ new \<and> pass_calls E ms new" by blast+
qed

end
