(* ===== verification/OfflineProps.thy ===== *)
theory OfflineProps
  imports OfflineDrain
begin

text \<open>
  The properties of the offline queue: what is queued is never lost by a pass, an accepted
  mutation is sent again only after a retry or a reload, the calls of a pass are in order and
  under the right actor, a pass ends - and places where the code does not do what it says. A use
  of the queue (\<open>used\<close>) is a sequence of calls; calls whose storage accesses overlap are written
  as an order of their parts.
\<close>

section \<open>A pass\<close>

lemma view_calls [simp]: "v_calls (view_of w) = calls w" "v_accepted (view_of w) = accepted w"
  by (simp_all add: view_of_def)

lemma confirm_accepted_ok:
  assumes "queue_list w = entries"
  shows "queue_steps E (view_of w) (view_of (confirm_accepted as entries w))
    \<and> calls (confirm_accepted as entries w) = calls w"
  using assms
proof (induction as arbitrary: w)
  case (Cons a as)
  obtain mid m where a: "a = (mid, m)" by fastforce
  show ?case
  proof (cases "list_ex (\<lambda>c. m_id c = mid) entries")
    case True
    then show ?thesis using Cons a by simp
  next
    case False
    let ?w1 = "emit (Sent m) (w\<lparr>accepted := AList.delete mid (accepted w)\<rparr>)"
    have "queue_step E (view_of w) ((view_of w)\<lparr>v_accepted := AList.delete mid (v_accepted (view_of w))\<rparr>)"
      by (rule Forgotten) (use False Cons.prems in \<open>auto simp: ids_def list_ex_iff\<close>)
    then have "queue_step E (view_of w) (view_of ?w1)" by simp
    moreover have "queue_list ?w1 = entries" using Cons.prems by (simp add: queue_list_def)
    ultimately show ?thesis
      using Cons.IH [of ?w1] False a by (simp add: converse_rtranclp_into_rtranclp)
  qed
qed simp

lemma finish_drain_view [simp]: "view_of (snd (finish_drain r)) = view_of (snd r)"
  by (simp add: finish_drain_def)

lemma drain_ok:
  assumes "drain E w = Some res"
  shows "queue_steps E (view_of w) (view_of (snd res))
    \<and> (\<exists>new. calls (snd res) = calls w @ new \<and> pass_calls E (queue_list w) new)"
proof (cases "draining w \<or> halted w")
  case True
  then have "snd res = w" using assms by (auto simp: drain_def)
  then show ?thesis by (simp add: pass_calls_Nil)
next
  case False
  let ?w0 = "w\<lparr>draining := True, sending := True\<rparr>"
  obtain r w1 where r: "reconcile_accepted (storage_read E ?w0) = (r, w1)" by fastforce
  have v1: "view_of w1 = view_of w" using reconciled_read(1) [OF r] by simp
  have c1: "calls w1 = calls w" using v1 by (metis view_calls(1))
  show ?thesis
  proof (cases r)
    case (Inl f)
    then have "view_of (snd res) = view_of w1" using assms False r by (auto simp: drain_def)
    then show ?thesis using v1 c1 by (metis append_Nil2 pass_calls_Nil rtranclp.simps view_calls(1))
  next
    case (Inr entries)
    have e: "queue_list w1 = entries" "queue_list w = entries"
      using reconciled_read(2) [OF r Inr] v1 by (metis view_queue halted_view(2))+
    let ?w2 = "confirm_accepted (accepted w1) entries w1"
    obtain r2 where r2: "drain_entries E entries ?w2 = Some r2" "res = finish_drain r2"
      using assms False r Inr by (auto simp: drain_def)
    note c = confirm_accepted_ok [OF e(1), of E "accepted w1"]
    obtain new where new: "calls (snd r2) = calls ?w2 @ new" "pass_calls E entries new"
      using drain_entries_ok(2) [OF r2(1)] by blast
    have "queue_steps E (view_of w) (view_of (snd r2))"
      using c drain_entries_ok(1) [OF r2(1)] v1 rtranclp_trans by metis
    moreover have "calls (snd res) = calls (snd r2)" using r2(2) finish_drain_view by (metis view_calls(1))
    ultimately show ?thesis using new c c1 e(2) r2(2) by auto
  qed
qed

lemma drain_now_ok:
  "drain_now E w = Some res \<Longrightarrow> queue_steps E (view_of w) (view_of (snd res))
    \<and> (\<exists>new. calls (snd res) = calls w @ new \<and> pass_calls E (queue_list w) new)"
  using drain_ok [of E "w\<lparr>halted := False\<rparr>" res] by (simp add: drain_now_def queue_list_def)

section \<open>What every step keeps\<close>

definition held :: "view \<Rightarrow> mutation_id set" where
  "held v = ids (v_queue v) \<union> ids (v_dead v) \<union> set (answered (v_calls v))"

definition accepted_answered :: "view \<Rightarrow> bool" where
  "accepted_answered v \<longleftrightarrow> fst ` set (v_accepted v) \<subseteq> set (answered (v_calls v))"

definition requests :: "view \<Rightarrow> mutation set" where
  "requests v = request ` (set (v_queue v) \<union> set (v_dead v) \<union> c_mutation ` set (v_calls v))"

definition late_requests :: "env \<Rightarrow> mutation set" where
  "late_requests E = request ` (\<Union>t. set (en_late E t))"

lemma delete_dom: "fst ` set (AList.delete k xs) = fst ` set xs - {k}"
  by (simp add: delete_keys flip: set_map)

lemma step_held:
  assumes "queue_step E v v'" "accepted_answered v"
  shows "accepted_answered v' \<and> held v \<subseteq> held v'"
  using assms
  by (cases rule: queue_step.cases)
    (auto simp: accepted_answered_def held_def update_dom delete_dom)

lemma steps_held:
  "queue_steps E v v' \<Longrightarrow> accepted_answered v \<Longrightarrow> accepted_answered v' \<and> held v \<subseteq> held v'"
  by (induction rule: rtranclp_induct) (use step_held in blast)+

lemma step_requests:
  assumes "queue_step E v v'"
  shows "requests v' \<subseteq> requests v \<union> late_requests E"
  using assms
proof (cases rule: queue_step.cases)
  case (Update u)
  then have "request ` set (v_queue v') \<subseteq> request ` set (v_queue v)" by auto
  then show ?thesis using Update by (auto simp: requests_def)
next
  case (Arrive t)
  moreover have "request ` set (en_late E t) \<subseteq> late_requests E" by (auto simp: late_requests_def)
  ultimately show ?thesis by (auto simp: requests_def)
qed (auto simp: requests_def)

lemma steps_requests: "queue_steps E v v' \<Longrightarrow> requests v' \<subseteq> requests v \<union> late_requests E"
  by (induction rule: rtranclp_induct) (use step_requests in blast)+

text \<open>
  How often an id was accepted: at most once more than the times \<open>R\<close> it was put in line anew (by a
  retry, or by a page that starts with no account of what was accepted), and not more than \<open>R\<close>
  while it is queued without being remembered as accepted.
\<close>

definition times_answered :: "view \<Rightarrow> mutation_id \<Rightarrow> nat" where
  "times_answered v mid = count_list (answered (v_calls v)) mid"

definition once :: "(mutation_id \<Rightarrow> nat) \<Rightarrow> view \<Rightarrow> bool" where
  "once R v \<longleftrightarrow> (\<forall>mid. times_answered v mid \<le> Suc (R mid)
       \<and> (mid \<in> ids (v_queue v) - fst ` set (v_accepted v) \<longrightarrow> times_answered v mid \<le> R mid))
     \<and> accepted_answered v"

lemma times_answered_sel [simp]:
  "times_answered (v\<lparr>v_queue := q\<rparr>) = times_answered v" "times_answered (v\<lparr>v_dead := d\<rparr>) = times_answered v"
  "times_answered (v\<lparr>v_accepted := a\<rparr>) = times_answered v"
  by (simp_all add: fun_eq_iff times_answered_def)

lemma times_answered_0: "mid \<notin> set (answered (v_calls v)) \<Longrightarrow> times_answered v mid = 0"
  by (simp add: times_answered_def count_list_0_iff)

lemma accepted_answered_sel [simp]:
  "accepted_answered (v\<lparr>v_queue := q\<rparr>) = accepted_answered v" "accepted_answered (v\<lparr>v_dead := d\<rparr>) = accepted_answered v"
  by (simp_all add: accepted_answered_def)

lemma once_mono: "once R v \<Longrightarrow> (\<And>mid. R mid \<le> R' mid) \<Longrightarrow> once R' v"
  unfolding once_def by (meson Suc_le_mono order_trans)

definition late_apart :: "env \<Rightarrow> mutation_id set \<Rightarrow> bool" where
  "late_apart E K \<longleftrightarrow> (\<forall>t. ids (en_late E t) \<inter> K = {})"

lemma step_once:
  assumes "queue_step E v v'" "once R v" "late_apart E K" "set (answered (v_calls v)) \<subseteq> K"
  shows "once R v'"
  using assms
proof (cases rule: queue_step.cases)
  case (Accepted c)
  then have "m_id (c_mutation c) \<in> ids (v_queue v)" by (auto simp: ids_def)
  then have "times_answered v (m_id (c_mutation c)) \<le> R (m_id (c_mutation c))"
    using Accepted assms(2) by (auto simp: once_def)
  then show ?thesis
    using Accepted assms(2) by (auto simp: once_def accepted_answered_def update_dom times_answered_def)
next
  case (Arrive t)
  have "times_answered v mid = 0" if "mid \<in> ids (en_late E t)" for mid
    using that assms(3,4) by (intro times_answered_0) (auto simp: late_apart_def)
  then show ?thesis using Arrive(1) assms(2) by (auto simp: once_def)
qed (auto simp: once_def accepted_answered_def update_dom delete_dom times_answered_def)

lemma step_answered: "queue_step E v v' \<Longrightarrow> set (answered (v_calls v)) \<subseteq> set (answered (v_calls v'))"
  by (cases rule: queue_step.cases) auto

lemma steps_once:
  "queue_steps E v v' \<Longrightarrow> once R v \<Longrightarrow> late_apart E K \<Longrightarrow> set (answered (v_calls v')) \<subseteq> K \<Longrightarrow> once R v'"
proof (induction rule: rtranclp_induct)
  case (step x y)
  then have "set (answered (v_calls x)) \<subseteq> K" using step_answered by blast
  then show ?case using step step_once by blast
qed

section \<open>A queue in use\<close>

definition known_ids :: "world \<Rightarrow> mutation_id set" where
  "known_ids w = ids (queue_list w) \<union> set (answered (calls w))"

lemma pass_answered:
  assumes "pass_calls E ms new"
  shows "set (answered new) \<subseteq> ids ms"
proof -
  obtain blocks where b: "new = concat blocks" "list_all2 (\<lambda>m block. list_all (call_of E (m_id m)) block) ms blocks"
    using assms by (auto simp: pass_calls_def)
  have "set (map (\<lambda>c. m_id (c_mutation c)) (concat blocks)) \<subseteq> ids ms"
    using b(2) by (induction rule: list_all2_induct) (auto simp: call_of_def list_all_iff)
  then show ?thesis using b(1) by (auto simp: answered_def)
qed

lemma pass_once:
  assumes "drain_now E w = Some res" "late_apart E (known_ids w)" "once R (view_of w)"
  shows "once R (view_of (snd res))"
proof -
  obtain new where d: "queue_steps E (view_of w) (view_of (snd res))"
    "calls (snd res) = calls w @ new" "pass_calls E (queue_list w) new"
    using drain_now_ok [OF assms(1)] by blast
  have "set (answered (calls (snd res))) \<subseteq> known_ids w"
    using pass_answered [OF d(3)] d(2) by (auto simp: known_ids_def answered_def)
  then show ?thesis using steps_once [OF d(1) assms(3,2)] by simp
qed

lemma begin_enqueue_view:
  assumes "begin_enqueue E path input w = (r, w')"
  shows "view_of w' = view_of w"
    "r = Inr (m, current) \<Longrightarrow> current = queue_list w \<and> en_new_id E (tick w) = Some (m_id m)
      \<and> m_key m = m_id m"
proof -
  have b: "view_of w1 = view_of w" if "bound_actor E w = (q, w1)" for q w1
    using that signed_in_view
    by (auto simp: bound_actor_def actor_read_def view_of_def queue_list_def parked_def
        split: prod.splits option.splits actor_cell.splits if_splits)
  show "view_of w' = view_of w"
    "r = Inr (m, current) \<Longrightarrow> current = queue_list w \<and> en_new_id E (tick w) = Some (m_id m)
      \<and> m_key m = m_id m"
    using assms b read_view read_list
    by (auto simp: begin_enqueue_def andthen_def split: option.splits prod.splits sum.splits)
       (metis view_queue)+
qed

lemma store_enqueued_view:
  assumes "store_enqueued E m current w = (r, w')"
  shows "view_of w' = view_of w \<or> view_of w' = (view_of w)\<lparr>v_queue := current @ [m]\<rparr>"
    "r = Inr u \<Longrightarrow> view_of w' = (view_of w)\<lparr>v_queue := current @ [m]\<rparr>"
  using assms write_view by (auto simp: store_enqueued_def split: prod.splits sum.splits)

text \<open>New identities are new: neither those \<open>create\<close> makes nor those of other calls are known.\<close>

definition fresh_env :: "env \<Rightarrow> world \<Rightarrow> bool" where
  "fresh_env E w \<longleftrightarrow> set_option (en_new_id E (tick w)) \<inter> known_ids w = {}
     \<and> late_apart E (known_ids w \<union> set_option (en_new_id E (tick w)))"

text \<open>
  The page is loaded again: the stored cells are what they were, the state in memory is that of
  a new queue. The record of the calls made so far is of the device, not of the page.
\<close>

definition reload :: "env \<Rightarrow> world \<Rightarrow> world" where
  "reload E w = (create_queue E (queue_cell w) (dead_cell w) (actor_raw w))\<lparr>calls := calls w\<rparr>"

text \<open>
  A use of the queue: calls of its public operations and the browser's events, one after the
  other, with the ids that were retried and the number of reloads. Every call has an environment
  of its own. A call starts when the one before has ended, but for the enqueues that \<open>en_late\<close>
  puts inside a pass, while it waits for a remote call or for its retry delay.
\<close>

inductive used :: "world \<Rightarrow> mutation_id list \<Rightarrow> nat \<Rightarrow> world \<Rightarrow> bool" where
  Unused: "used w [] 0 w"
| Drain_call: "\<lbrakk>used w rs k w1; fresh_env E w1; drain_now E w1 = Some (r, w2)\<rbrakk> \<Longrightarrow> used w rs k w2"
| Public_drain: "\<lbrakk>used w rs k w1; fresh_env E w1; queue_drain E w1 = Some (r, w2)\<rbrakk> \<Longrightarrow> used w rs k w2"
| Enqueue_call: "\<lbrakk>used w rs k w1; fresh_env E w1; enqueue_run E path input w1 = Some (r, w2)\<rbrakk> \<Longrightarrow> used w rs k w2"
| Online_event: "\<lbrakk>used w rs k w1; fresh_env E w1; handle_online E w1 = Some w2\<rbrakk> \<Longrightarrow> used w rs k w2"
| Offline_event: "used w rs k w1 \<Longrightarrow> used w rs k (handle_offline w1)"
| Retry_call: "\<lbrakk>used w rs k w1; late_apart E (known_ids w1 \<union> ids (map d_mutation (parked w1)));
    dead_letter_retry E mid w1 = Some (r, w2)\<rbrakk> \<Longrightarrow> used w (mid # rs) k w2"
| Discard_call: "\<lbrakk>used w rs k w1; dead_letter_discard E mid w1 = (r, w2)\<rbrakk> \<Longrightarrow> used w rs k w2"
| Reload: "used w rs k w1 \<Longrightarrow> used w rs (Suc k) (reload E w1)"

lemma enqueue_run_cases:
  assumes "enqueue_run E path input w = Some (r, w')"
  obtains (stopped) f where "r = Inl f" "view_of w' = view_of w"
  | (unstored) f m where "r = Inl f" "en_new_id E (tick w) = Some (m_id m)"
      "view_of w' = (view_of w)\<lparr>v_queue := queue_list w @ [m]\<rparr>"
  | (stored) m w2 where "en_new_id E (tick w) = Some (m_id m)" "m_key m = m_id m"
      "view_of w2 = (view_of w)\<lparr>v_queue := queue_list w @ [m]\<rparr>" "finish_enqueue E m w2 = Some (r, w')"
proof -
  obtain q w1 where q: "begin_enqueue E path input w = (q, w1)" by fastforce
  note b = begin_enqueue_view [OF q]
  show ?thesis
  proof (cases q)
    case (Inl f)
    then show ?thesis using stopped b(1) assms q by (auto simp: enqueue_run_def)
  next
    case (Inr x)
    obtain m current where x: "x = (m, current)" by fastforce
    have m: "current = queue_list w" "en_new_id E (tick w) = Some (m_id m)" "m_key m = m_id m"
      using b(2) Inr x by blast+
    obtain s w2 where s: "store_enqueued E m current w1 = (s, w2)" by fastforce
    note v = store_enqueued_view [OF s, unfolded b(1)]
    show ?thesis
    proof (cases s)
      case (Inl f)
      then have "r = Inl f" "w' = w2" using assms q \<open>q = Inr x\<close> x s by (auto simp: enqueue_run_def)
      then show ?thesis using v(1) stopped unstored m by auto
    next
      case (Inr u)
      then have "finish_enqueue E m w2 = Some (r, w')"
        using assms q \<open>q = Inr x\<close> x s by (auto simp: enqueue_run_def)
      then show ?thesis using stored v(2) [OF Inr] m by auto
    qed
  qed
qed

lemma finish_enqueue_cases:
  assumes "finish_enqueue E m w = Some (r, w')"
  obtains (waiting) "r = Inr \<lparr>rc_key = m_key m, rc_status = QueuedStatus\<rparr>" "w' = w"
  | (passed) d where "drain_now E w = Some (d, w')" "\<And>rc. r = Inr rc \<Longrightarrow> rc_key rc = m_key m"
proof (cases "en_online E (tick w)")
  case False
  then show ?thesis using waiting assms by (simp add: finish_enqueue_def)
next
  case True
  then obtain d w1 where "drain_now E w = Some (d, w1)" using assms by (auto simp: finish_enqueue_def)
  then show ?thesis using passed [of d] True assms by (auto simp: finish_enqueue_def split: sum.splits)
qed

lemma fresh_envD:
  assumes "fresh_env E w"
  shows "late_apart E (known_ids w)"
    "en_new_id E (tick w) = Some mid \<Longrightarrow> mid \<notin> known_ids w \<and> late_apart E (insert mid (known_ids w))"
  using assms by (auto simp: fresh_env_def late_apart_def)

lemma once_enqueued:
  assumes "once R (view_of w)" "m_id m \<notin> known_ids w"
  shows "once R ((view_of w)\<lparr>v_queue := queue_list w @ [m]\<rparr>)"
proof -
  have "times_answered (view_of w) (m_id m) = 0" using assms(2) by (simp add: times_answered_0 known_ids_def)
  then show ?thesis using assms(1) by (auto simp: once_def)
qed

lemma known_enqueued:
  assumes "view_of w2 = (view_of w)\<lparr>v_queue := queue_list w @ [m]\<rparr>"
  shows "known_ids w2 = insert (m_id m) (known_ids w)"
proof -
  have "queue_list w2 = queue_list w @ [m]" "calls w2 = calls w"
    using arg_cong [OF assms, of v_queue] arg_cong [OF assms, of v_calls] by simp_all
  then show ?thesis by (auto simp: known_ids_def)
qed

lemma enqueue_once:
  assumes "enqueue_run E path input w = Some (r, w')" "fresh_env E w" "once R (view_of w)"
  shows "once R (view_of w')"
  using assms(1)
proof (cases rule: enqueue_run_cases)
  case (stored m w2)
  note f = fresh_envD(2) [OF assms(2) stored(1)]
  have o: "once R (view_of w2)" using once_enqueued [OF assms(3)] f by (simp add: stored(3))
  have k: "late_apart E (known_ids w2)" using f by (simp add: known_enqueued [OF stored(3)])
  show ?thesis
    using stored(4) o pass_once [OF _ k] by (cases rule: finish_enqueue_cases) fastforce+
next
  case (unstored f m)
  then show ?thesis using once_enqueued [OF assms(3)] fresh_envD(2) [OF assms(2)] by simp
qed (use assms(3) in simp)

lemma online_pass:
  assumes "handle_online E w = Some w'"
  obtains r where "drain_now E (emit Online w) = Some r" "view_of w' = view_of (snd r)"
proof -
  have e: "emit Online (w\<lparr>halted := False\<rparr>) = (emit Online w)\<lparr>halted := False\<rparr>"
    by (simp add: emit_def)
  obtain r where r: "drain E (emit Online (w\<lparr>halted := False\<rparr>)) = Some r" "w' = report_outcome r"
    using assms by (auto simp: handle_online_def)
  have "view_of w' = view_of (snd r)"
    by (cases r) (auto simp: r(2) report_outcome_def split: sum.splits)
  then show ?thesis using that [of r] r(1) by (simp add: drain_now_def e)
qed

lemma known_emit [simp]: "known_ids (emit e w) = known_ids w" "late_apart E (known_ids (emit e w)) = late_apart E (known_ids w)"
  by (simp_all add: known_ids_def queue_list_def)

lemma public_pass:
  assumes "queue_drain E w = Some (r, w')"
  obtains p where "drain_now E w = Some p" "view_of w' = view_of (snd p)"
proof -
  obtain s w1 where p: "drain_now E w = Some (s, w1)" using assms by (auto simp: queue_drain_def)
  have "view_of w' = view_of w1"
    using assms p by (cases s) (auto simp: queue_drain_def emit_def view_of_def queue_list_def parked_def)
  then show ?thesis using that [OF p] by simp
qed

lemma andthen_assoc: "andthen (andthen r f) g = andthen r (\<lambda>a w. andthen (f a w) g)"
  by (simp add: andthen_def split: prod.split sum.split)

text \<open>A parked mutation put in line again: what a retry stores before its pass.\<close>

lemma retry_cases:
  assumes "dead_letter_retry E mid w = Some (r, w')"
  obtains (unchanged) "view_of w' = view_of w"
  | (queued) m w1 where "m \<in> set (map d_mutation (parked w))" "m_id m = mid" "calls w1 = calls w"
      "queue_list w1 = filter (\<lambda>e. m_id e \<noteq> mid) (queue_list w) @ [request m]" "accepted w1 = accepted w"
      "view_of w' = view_of w1 \<or> queue_drain E w1 = Some (r, w')"
proof -
  obtain l w1 where l: "dead_read E w = (l, w1)" by fastforce
  note l' = dead_store.rd_held [OF l]
  from l' have v1: "view_of w1 = view_of w" by (simp add: view_of_def beside_dead_def queue_list_def)
  show ?thesis
  proof (cases "\<exists>entries m. l = Inr entries \<and> find (\<lambda>m. m_id m = mid) (map d_mutation entries) = Some m")
    case False
    then have "w' = w1" using assms l by (cases l) (auto simp: dead_letter_retry_def dead_list_def split: option.splits)
    with v1 unchanged show ?thesis by simp
  next
    case True
    then obtain entries m where m: "l = Inr entries" "find (\<lambda>m. m_id m = mid) (map d_mutation entries) = Some m" by blast
    from m(1) l dead_store.rd_value have e: "entries = parked w" by blast
    from m(2) e have mem: "m \<in> set (map d_mutation (parked w))" "m_id m = mid" by (auto simp: find_Some_iff)
    obtain s w2 where s: "andthen (storage_read E w1) (\<lambda>current. storage_write E (filter (\<lambda>e. m_id e \<noteq> mid) current @ [request m])) = (s, w2)"
      by fastforce
    note q = queue_store.changed [OF s]
    from v1 have q1: "queue_list w1 = queue_list w" "calls w1 = calls w" "accepted w1 = accepted w" "parked w1 = parked w"
      using l' by (simp_all add: beside_dead_def queue_list_def)
    from q(1) q1 have b: "calls w2 = calls w" "accepted w2 = accepted w" "parked w2 = parked w"
      by (simp_all add: beside_queue_def parked_def)
    have req: "m\<lparr>m_attempts := 0, m_last_error := None\<rparr> = request m" by (simp add: request_def)
    obtain t w3 where t: "dead_remove E mid w2 = (t, w3)" by fastforce
    have t': "calls w3 = calls w2" "queue_list w3 = queue_list w2" "accepted w3 = accepted w2"
      using dead_store.changed(1) [OF t [unfolded dead_remove_def]] by (simp_all add: beside_dead_def queue_list_def)
    let ?put = "andthen (storage_read E w1) (\<lambda>current w2.
        andthen (storage_write E (filter (\<lambda>e. m_id e \<noteq> mid) current @ [request m]) w2) (\<lambda>_ w3. dead_remove E mid w3))"
    have put: "?put = andthen (s, w2) (\<lambda>_ w3. dead_remove E mid w3)"
      unfolding s [symmetric] by (simp add: andthen_assoc)
    have res: "Some (r, w') = (case ?put of (Inl f, w4) \<Rightarrow> Some (Inl f, w4)
        | (Inr _, w4) \<Rightarrow> let w5 = emit (Enqueued (request m)) w4
            in if en_online E (tick w5) then queue_drain E w5 else Some (Inr (), w5))"
      using assms l m by (simp add: dead_letter_retry_def dead_list_def req Let_def)
    show ?thesis
    proof (cases s)
      case (Inl f)
      then have "w' = w2" using res put by simp
      then consider "view_of w' = view_of w" | "queue_list w2 = filter (\<lambda>e. m_id e \<noteq> mid) (queue_list w) @ [request m]"
        using q(1) q1 b by (auto simp: view_of_def)
      then show ?thesis using unchanged queued [OF mem b(1) _ b(2)] \<open>w' = w2\<close> by metis
    next
      case (Inr u)
      with q(2) q1 have "queue_list w2 = filter (\<lambda>e. m_id e \<noteq> mid) (queue_list w) @ [request m]" by simp
      then have w3: "calls w3 = calls w" "queue_list w3 = filter (\<lambda>e. m_id e \<noteq> mid) (queue_list w) @ [request m]"
        "accepted w3 = accepted w" using t' b by simp_all
      show ?thesis
      proof (cases t)
        case (Inl f)
        then have "w' = w3" using res put Inr t by simp
        then show ?thesis using queued [OF mem w3] by simp
      next
        case v: (Inr v)
        let ?w5 = "emit (Enqueued (request m)) w3"
        have "w' = ?w5 \<or> queue_drain E ?w5 = Some (r, w')"
          using res put Inr t v by (simp add: Let_def split: if_splits)
        moreover have "queue_list ?w5 = queue_list w3" by (simp add: queue_list_def)
        ultimately show ?thesis using queued [OF mem, of ?w5] w3 by auto
      qed
    qed
  qed
qed

lemma retry_once:
  assumes "dead_letter_retry E mid w = Some (r, w')" "once R (view_of w)"
    "late_apart E (known_ids w \<union> ids (map d_mutation (parked w)))"
  shows "once (R(mid := Suc (R mid))) (view_of w')"
  using assms(1)
proof (cases rule: retry_cases)
  case unchanged
  then show ?thesis using once_mono [OF assms(2)] by simp
next
  case (queued m w1)
  let ?R = "R(mid := Suc (R mid))"
  have v: "v_calls (view_of w1) = v_calls (view_of w)" "v_accepted (view_of w1) = v_accepted (view_of w)"
    using queued(3,5) by simp_all
  have t: "times_answered (view_of w1) = times_answered (view_of w)" using v by (simp add: fun_eq_iff times_answered_def)
  have a: "accepted_answered (view_of w1)" using assms(2) v by (simp add: once_def accepted_answered_def)
  have "ids (v_queue (view_of w1)) \<subseteq> insert mid (ids (v_queue (view_of w)))"
    using queued(2,4) by (auto simp: view_queue [symmetric] simp del: view_queue)
  then have o: "once ?R (view_of w1)"
    using assms(2) a unfolding once_def t v by (auto intro: le_SucI)
  have "known_ids w1 \<subseteq> known_ids w \<union> ids (map d_mutation (parked w))"
    using queued(1-4) by (auto simp: known_ids_def ids_def)
  with assms(3) have late: "late_apart E (known_ids w1)" by (auto simp: late_apart_def)
  show ?thesis using queued(6)
  proof
    assume "queue_drain E w1 = Some (r, w')"
    then obtain p where "drain_now E w1 = Some p" "view_of w' = view_of (snd p)" by (rule public_pass)
    then show ?thesis using pass_once [OF _ late o] by simp
  qed (use o in simp)
qed

lemma reload_view: "view_of (reload E w) = (view_of w)\<lparr>v_accepted := []\<rparr>"
  by (auto simp: reload_def create_queue_def Let_def storage_read_def read_offline_state_def view_of_def emit_def
      next_tick_def queue_list_def parked_def split: cell.splits)

lemma used_once: "used w0 rs k w \<Longrightarrow> once (\<lambda>_. 0) (view_of w0) \<Longrightarrow> once (\<lambda>mid. count_list rs mid + k) (view_of w)"
proof (induction rule: used.induct)
  case (Drain_call w rs k w1 E r w2)
  then show ?case using pass_once [of E w1 "(r, w2)"] fresh_envD(1) by auto
next
  case (Public_drain w rs k w1 E r w2)
  obtain p where p: "drain_now E w1 = Some p" "view_of w2 = view_of (snd p)" using public_pass [OF Public_drain.hyps(3)] .
  then show ?case using pass_once [OF p(1)] fresh_envD(1) [OF Public_drain.hyps(2)] Public_drain by simp
next
  case (Enqueue_call w rs k w1 E path input r w2)
  then show ?case using enqueue_once by blast
next
  case (Online_event w rs k w1 E w2)
  obtain r where r: "drain_now E (emit Online w1) = Some r" "view_of w2 = view_of (snd r)"
    using online_pass [OF Online_event.hyps(3)] .
  then show ?case
    using pass_once [OF r(1)] fresh_envD(1) [OF Online_event.hyps(2)] Online_event by simp
next
  case (Retry_call w rs k w1 E mid r w2)
  have "(\<lambda>i. count_list rs i + k)(mid := Suc (count_list rs mid + k)) = (\<lambda>i. count_list (mid # rs) i + k)" by auto
  with retry_once [OF Retry_call.hyps(3) Retry_call.IH [OF Retry_call.prems] Retry_call.hyps(2)] show ?case by simp
next
  case (Discard_call w rs k w1 E mid r w2)
  have "v_queue (view_of w2) = v_queue (view_of w1)" "v_accepted (view_of w2) = v_accepted (view_of w1)"
    "v_calls (view_of w2) = v_calls (view_of w1)"
    using dead_store.changed(1) [of E w1 "filter (\<lambda>d. m_id (d_mutation d) \<noteq> mid)" r w2] Discard_call.hyps(2)
    by (simp_all add: dead_letter_discard_def dead_remove_def beside_dead_def view_of_def queue_list_def)
  then show ?case using Discard_call.IH [OF Discard_call.prems] by (simp add: once_def accepted_answered_def times_answered_def)
next
  case (Reload w rs k w1 E)
  then show ?case by (auto simp: reload_view once_def accepted_answered_def le_Suc_eq)
qed (simp_all add: handle_offline_def)

lemma created_once: "once R (view_of (create_queue E q d a))" "calls (create_queue E q d a) = []"
  by (auto simp: create_queue_def Let_def once_def answered_def accepted_answered_def storage_read_def times_answered_def
      read_offline_state_def view_of_def emit_def next_tick_def split: cell.splits prod.splits sum.splits)

section \<open>A sample\<close>

text \<open>One stored mutation whose first call meets a 503 and whose second is answered.\<close>

definition sample_env :: env where
  "sample_env = \<lparr>en_get = (\<lambda>_. True), en_set = (\<lambda>_. SetDone), en_encodes = (\<lambda>_. True),
     en_rpc = (\<lambda>_ m. if m_attempts m = 0 then ThrownError (StatusReason 503) else Answered),
     en_actor = (\<lambda>_. Some (Some ''ann'')), en_sleep = (\<lambda>_ _. SleepDone), en_late = (\<lambda>_. []),
     en_delay = (\<lambda>n. if n \<le> 5 then Some 1000 else None), en_new_id = (\<lambda>_. Some ''b''),
     en_now = (\<lambda>_. 0), en_online = (\<lambda>_. False)\<rparr>"

definition sample_mutation :: mutation where
  "sample_mutation = \<lparr>m_id = ''a'', m_key = ''a'', m_path = [''posts'', ''create''], m_input = ''{}'',
     m_actor = Some ''ann'', m_enqueued_at = 0, m_attempts = 0, m_last_error = None\<rparr>"

lemmas offline_run_simps = sample_env_def sample_mutation_def create_queue_def drain_now_def drain_def
  storage_read_def storage_write_def read_offline_state_def write_offline_state_def put_queue_def
  process_entry.simps attempt_entry_def signed_in_actor_def actor_remember_def actor_set_def report_outcome_def
  is_accepted_def try_send_def rpc_send_def arrive_def classify_response_def retry_later_def update_entry_def
  settle_sent_def effect_unconfirmed_def finish_drain_def emit_def next_tick_def Let_def

lemma sample_pass:
  "\<exists>w'. drain_now sample_env (create_queue sample_env (Stored [sample_mutation]) Absent NoActor) = Some (Inr (), w')
    \<and> length (calls w') = 2 \<and> answered (calls w') = [''a''] \<and> queue_list w' = []"
  by (simp add: offline_run_simps answered_def queue_list_def)
lemma sample_fresh: "queue_list w = [] \<or> queue_list w = [sample_mutation] \<Longrightarrow> calls w = [] \<Longrightarrow> fresh_env sample_env w"
  by (auto simp: fresh_env_def late_apart_def known_ids_def sample_env_def sample_mutation_def answered_def)

lemma sample_created:
  "queue_list (create_queue sample_env (Stored [sample_mutation]) Absent NoActor) = [sample_mutation]"
  "calls (create_queue sample_env (Stored [sample_mutation]) Absent NoActor) = []"
  "m_id sample_mutation = ''a''"
  by (simp_all add: create_queue_def storage_read_def read_offline_state_def sample_env_def queue_list_def Let_def
      sample_mutation_def)

text \<open>
  A mutation the server refuses and whose removal from the queue is lost stays queued and parked;
  it is accepted from the queue, and once more after a retry.
\<close>

definition reject_env :: env where
  "reject_env = sample_env\<lparr>en_rpc := \<lambda>_ _. ThrownError (StatusReason 422),
     en_set := \<lambda>t. if t = 9 then SetLost else SetDone\<rparr>"

definition accept_env :: env where
  "accept_env = sample_env\<lparr>en_rpc := \<lambda>_ _. Answered, en_online := \<lambda>_. True\<rparr>"

lemmas retry_run_simps = offline_run_simps reject_env_def accept_env_def dead_letter_def dead_add_def dead_read_def
  dead_write_def put_dead_def dead_letter_retry_def dead_list_def dead_remove_def queue_drain_def

lemma sample_retry:
  "\<exists>f w1 w2 w3. drain_now reject_env (create_queue sample_env (Stored [sample_mutation]) Absent NoActor) = Some (Inl f, w1)
    \<and> ''b'' \<notin> known_ids w1 \<and> drain_now accept_env w1 = Some (Inr (), w2)
    \<and> dead_letter_retry accept_env ''a'' w2 = Some (Inr (), w3) \<and> answered (calls w3) = [''a'', ''a'']"
  by (simp add: retry_run_simps answered_def known_ids_def queue_list_def image_iff)

lemma quiet_fresh:
  assumes "en_late E = (\<lambda>_. [])" "en_new_id E = (\<lambda>_. Some mid)" "mid \<notin> known_ids w"
  shows "fresh_env E w"
  using assms by (simp add: fresh_env_def late_apart_def)

section \<open>The properties\<close>

text \<open>
  C8: A mutation the server accepted is sent again only when it is retried by hand or the page
  was reloaded: over a use of a queue - enqueues, passes, retries and discards of dead letters,
  going online and offline, reloads of the page, one after the other, with other enqueues inside
  a pass while it waits for a call or a delay, each call with an environment of its own that may
  lose or keep any write whose answer it fails - a mutation is accepted at most once more than it
  was retried and the page reloaded. One that is still stored after that many acceptances is
  remembered as accepted, so no pass sends it. Without retries and reloads: at most once. New
  mutations have new identities. An enqueue that overlaps a pass's read and write of the queue
  is not covered: \<open>stale_enqueue_restores_sent\<close> shows what it does.
\<close>

theorem accepted_once_per_retry:
  assumes "used (create_queue E q d a) rs k w"
  shows "(\<forall>mid. count_list (answered (calls w)) mid \<le> 1 + (count_list rs mid + k))
    \<and> (\<forall>m \<in> set (queue_list w). is_accepted (m_id m) w
        \<or> count_list (answered (calls w)) (m_id m) \<le> count_list rs (m_id m) + k)"
proof -
  have o: "once (\<lambda>mid. count_list rs mid + k) (view_of w)" using used_once [OF assms created_once(1)] .
  have "count_list (answered (calls w)) (m_id m) \<le> count_list rs (m_id m) + k"
    if "m \<in> set (queue_list w)" "\<not> is_accepted (m_id m) w" for m
  proof -
    have "m_id m \<notin> fst ` set (accepted w)" using that(2) by (simp add: is_accepted_def map_of_eq_None_iff)
    then show ?thesis using o that(1) by (auto simp: once_def ids_def times_answered_def)
  qed
  then show ?thesis using o by (auto simp: once_def times_answered_def)
qed

theorem accepted_once_per_retry_witness:
  "\<exists>w. used (create_queue sample_env (Stored [sample_mutation]) Absent NoActor) [''a''] 0 w
    \<and> answered (calls w) = [''a'', ''a''] \<and> (\<forall>mid. count_list (answered (calls w)) mid \<le> 1 + count_list [''a''] mid)"
proof -
  let ?w = "create_queue sample_env (Stored [sample_mutation]) Absent NoActor"
  obtain f w1 w2 w3 where w: "drain_now reject_env ?w = Some (Inl f, w1)" "''b'' \<notin> known_ids w1"
    "drain_now accept_env w1 = Some (Inr (), w2)" "dead_letter_retry accept_env ''a'' w2 = Some (Inr (), w3)"
    "answered (calls w3) = [''a'', ''a'']"
    using sample_retry by blast
  have q: "en_late reject_env = (\<lambda>_. [])" "en_new_id reject_env = (\<lambda>_. Some ''b'')"
    "en_late accept_env = (\<lambda>_. [])" "en_new_id accept_env = (\<lambda>_. Some ''b'')"
    by (simp_all add: reject_env_def accept_env_def sample_env_def)
  have "''b'' \<notin> known_ids ?w" by (simp add: known_ids_def sample_created answered_def)
  from quiet_fresh [OF q(1,2) this] have "used ?w [] 0 w1" by (rule Drain_call [OF Unused _ w(1)])
  then have "used ?w [] 0 w2" by (rule Drain_call [OF _ quiet_fresh [OF q(3,4) w(2)] w(3)])
  then have u: "used ?w [''a''] 0 w3" by (rule Retry_call [OF _ _ w(4)]) (simp add: late_apart_def q)
  have "count_list (answered (calls w3)) mid \<le> 1 + count_list [''a''] mid" for mid
    using accepted_once_per_retry [OF u] by (metis add.right_neutral)
  then show ?thesis using u w(5) by blast
qed

text \<open>
  The race C8 leaves out. The pass has its answer and reads the queue to take the sent entry
  out; a call of \<open>enqueue\<close> reads the queue; the pass writes; the call writes what it read and its
  own entry. The sent entry is back in the queue, and the pass forgets that it was accepted.
\<close>

lemma stale_enqueue_restores_sent:
  assumes "storage_read E w = (Inr after, w1)" "begin_enqueue E path input w1 = (Inr (m, current), w2)"
    and "storage_write E (filter (\<lambda>e. m_id e \<noteq> mid) after) w2 = (Inr (), w3)"
    and "store_enqueued E m current w3 = (Inr (), w4)"
  shows "queue_list w3 = filter (\<lambda>e. m_id e \<noteq> mid) (queue_list w) \<and> queue_list w4 = queue_list w @ [m]"
proof -
  have "after = queue_list w" "queue_list w1 = queue_list w"
    using queue_store.rd_value [OF assms(1)] queue_store.rd_held [OF assms(1)] by simp_all
  moreover have "current = queue_list w1" using begin_enqueue_view(2) [OF assms(2) refl] by simp
  moreover have "queue_list w3 = filter (\<lambda>e. m_id e \<noteq> mid) after" by (rule queue_store.wr_done [OF assms(3)])
  moreover have "queue_list w4 = current @ [m]"
    using arg_cong [OF store_enqueued_view(2) [OF assms(4) refl], of v_queue] by simp
  ultimately show ?thesis by simp
qed

text \<open>
  C7: A pass loses nothing: after any pass, whatever reads, writes, calls and waits did, every
  mutation that was queued, parked or sent is queued, parked or sent, and what is there then is
  a mutation that was there before or came late, but for its attempts and its last error.
\<close>

theorem pass_loses_nothing:
  assumes "used (create_queue E0 q d a) rs k w" "drain_now E w = Some (r, w')"
  shows "ids (queue_list w) \<union> ids (map d_mutation (parked w)) \<union> set (answered (calls w))
      \<subseteq> ids (queue_list w') \<union> ids (map d_mutation (parked w')) \<union> set (answered (calls w'))
    \<and> request ` (set (queue_list w') \<union> d_mutation ` set (parked w'))
      \<subseteq> requests (view_of w) \<union> late_requests E"
proof -
  have "accepted_answered (view_of w)"
    using used_once [OF assms(1) created_once(1)] by (simp add: once_def)
  moreover have s: "queue_steps E (view_of w) (view_of w')" using drain_now_ok [OF assms(2)] by simp
  ultimately have "held (view_of w) \<subseteq> held (view_of w')" using steps_held by blast
  moreover have d: "v_dead (view_of x) = map d_mutation (parked x)" for x by (simp add: view_of_def)
  moreover have "request ` (set (queue_list w') \<union> d_mutation ` set (parked w')) \<subseteq> requests (view_of w')"
    unfolding requests_def by (intro image_mono) (auto simp: d)
  ultimately show ?thesis using steps_requests [OF s] by (auto simp: held_def)
qed

theorem pass_loses_nothing_witness:
  "\<exists>w'. drain_now sample_env (create_queue sample_env (Stored [sample_mutation]) Absent NoActor) = Some (Inr (), w')
    \<and> ''a'' \<in> ids (queue_list w') \<union> ids (map d_mutation (parked w')) \<union> set (answered (calls w'))"
proof -
  let ?w = "create_queue sample_env (Stored [sample_mutation]) Absent NoActor"
  obtain w' where w': "drain_now sample_env ?w = Some (Inr (), w')" using sample_pass by blast
  have "''a'' \<in> ids (queue_list ?w)" by (simp add: sample_created)
  then show ?thesis using w' pass_loses_nothing [OF Unused w'] by blast
qed

text \<open>
  C31: The calls of a pass are in order and under the right actor: they come in one block for
  each mutation queued when the pass began, in the order of the queue, each call with the
  headers of its mutation, whose actor was the one signed in at the look just before. So a
  mutation that arrives during a pass is not sent in it.
\<close>

theorem pass_sends_in_order:
  assumes "drain_now E w = Some (r, w')"
  shows "\<exists>blocks. calls w' = calls w @ concat blocks
    \<and> list_all2 (\<lambda>m block. \<forall>c \<in> set block. m_id (c_mutation c) = m_id m
        \<and> c_actor c = m_actor (c_mutation c)
        \<and> (\<exists>t. t < c_tick c \<and> c_tick c \<le> t + 2 \<and> en_actor E t = Some (c_actor c)))
      (queue_list w) blocks"
proof -
  obtain blocks where b: "calls w' = calls w @ concat blocks"
    "list_all2 (\<lambda>m block. list_all (call_of E (m_id m)) block) (queue_list w) blocks"
    using drain_now_ok [OF assms] by (auto simp: pass_calls_def)
  have "list_all2 (\<lambda>m block. \<forall>c \<in> set block. m_id (c_mutation c) = m_id m
        \<and> c_actor c = m_actor (c_mutation c)
        \<and> (\<exists>t. t < c_tick c \<and> c_tick c \<le> t + 2 \<and> en_actor E t = Some (c_actor c)))
      (queue_list w) blocks"
    by (rule list_all2_mono [OF b(2)]) (auto simp: list_all_iff call_of_def turn_call_def)
  then show ?thesis using b(1) by blast
qed

theorem pass_sends_in_order_witness:
  "\<exists>w' block. drain_now sample_env (create_queue sample_env (Stored [sample_mutation]) Absent NoActor) = Some (Inr (), w')
    \<and> calls w' = block \<and> length block = 2 \<and> (\<forall>c \<in> set block. m_id (c_mutation c) = ''a'')"
proof -
  obtain w' where w': "drain_now sample_env (create_queue sample_env (Stored [sample_mutation]) Absent NoActor)
      = Some (Inr (), w')" "length (calls w') = 2"
    using sample_pass by blast
  show ?thesis
    using w' pass_sends_in_order [OF w'(1)]
    by (auto simp: sample_created list_all2_Cons1)
qed

lemma drain_entries_ends:
  assumes "gives_up E N"
  shows "\<exists>res. drain_entries E ms w = Some res
    \<and> length (calls (snd res)) \<le> length (calls w) + Suc N * length ms"
proof (induction ms arbitrary: w)
  case (Cons m ms)
  obtain r w1 where r: "reconcile_accepted (storage_read E w) = (r, w1)" by fastforce
  have c1: "calls w1 = calls w" using reconciled_read(1) [OF r] by (metis view_calls(1))
  show ?case
  proof (cases r)
    case (Inl f)
    then show ?thesis using r c1 by simp
  next
    case (Inr current)
    then have current: "current = queue_list w1" using reconciled_read [OF r] by (metis view_queue)
    show ?thesis
    proof (cases "find (\<lambda>e. m_id e = m_id m) current")
      case None
      obtain res where "drain_entries E ms w1 = Some res"
        "length (calls (snd res)) \<le> length (calls w1) + Suc N * length ms" using Cons.IH [of w1] by blast
      then show ?thesis using r Inr None c1 by auto
    next
      case (Some live)
      then have live: "live \<in> set (queue_list w1)" using current by (auto simp: find_Some_iff)
      obtain p w2 where p: "process_entry E live w1 = Some (p, w2)"
        "length (calls w2) \<le> length (calls w1) + Suc (N - m_attempts live)"
        using process_entry_ends [OF assms live] by (metis prod.collapse)
      have n: "length (calls w2) \<le> length (calls w) + Suc N" using p(2) c1 by simp
      obtain res where res: "drain_entries E ms w2 = Some res"
        "length (calls (snd res)) \<le> length (calls w2) + Suc N * length ms" using Cons.IH [of w2] by blast
      consider (failed) f where "p = Inl f" | (done_) "p = Inr True" | (halt) "p = Inr False"
        by (cases p) auto
      then show ?thesis
      proof cases
        case done_
        then have "drain_entries E (m # ms) w = Some res" using r Inr Some p(1) res(1) by simp
        then show ?thesis using res(2) n by (intro exI [of _ res]) simp
      qed (use r Inr Some p(1) n in simp_all)
    qed
  qed
qed simp

text \<open>
  C30: A pass ends: with a retry schedule that stops after N retries, as \<open>upTo(N)\<close> makes it, a
  pass returns, whatever the environment answers, and it calls at most N + 1 times for each
  mutation queued when it began.
\<close>

theorem pass_ends:
  assumes "gives_up E N"
  shows "\<exists>r w'. drain_now E w = Some (r, w')
    \<and> length (calls w') \<le> length (calls w) + (N + 1) * length (queue_list w)"
proof (cases "draining w")
  case True
  then show ?thesis by (simp add: drain_now_def drain_def)
next
  case False
  let ?w0 = "w\<lparr>halted := False, draining := True, sending := True\<rparr>"
  obtain r w1 where r: "reconcile_accepted (storage_read E ?w0) = (r, w1)" by fastforce
  have v: "view_of w1 = view_of w"
    using reconciled_read(1) [OF r] by (simp add: view_of_def queue_list_def parked_def)
  show ?thesis
  proof (cases r)
    case (Inl f)
    then show ?thesis using False r v by (auto simp: drain_now_def drain_def finish_drain_def dest: arg_cong [of _ _ v_calls])
  next
    case (Inr entries)
    have e: "entries = queue_list w" "queue_list w1 = entries"
      using reconciled_read(2) [OF r Inr] v by (metis view_queue halted_view)+
    let ?w2 = "confirm_accepted (accepted w1) entries w1"
    have c: "calls ?w2 = calls w" using confirm_accepted_ok [OF e(2)] v by (metis view_calls(1))
    obtain res where "drain_entries E entries ?w2 = Some res"
      "length (calls (snd res)) \<le> length (calls ?w2) + Suc N * length entries"
      using drain_entries_ends [OF assms] by blast
    then show ?thesis
      using False r Inr c e(1) by (cases res) (auto simp: drain_now_def drain_def finish_drain_def)
  qed
qed

theorem pass_ends_witness:
  "\<exists>r w'. drain_now sample_env (create_queue sample_env (Stored [sample_mutation]) Absent NoActor) = Some (r, w')
    \<and> length (calls w') \<le> 6"
proof -
  have "gives_up sample_env 5" by (simp add: gives_up_def sample_env_def)
  from pass_ends [OF this, of "create_queue sample_env (Stored [sample_mutation]) Absent NoActor"]
  show ?thesis by (simp add: sample_created)
qed

text \<open>
  A receipt means the mutation is kept: when \<open>enqueue\<close> returns one, the mutation it names
  is stored, parked or accepted by the server, and nothing that was there before is lost.
\<close>

theorem receipt_means_kept:
  assumes "used (create_queue E0 q d a) rs k w" "enqueue_run E path input w = Some (Inr rc, w')"
  shows "rc_key rc \<in> ids (queue_list w') \<union> ids (map d_mutation (parked w')) \<union> set (answered (calls w'))
    \<and> ids (queue_list w) \<subseteq> ids (queue_list w') \<union> ids (map d_mutation (parked w')) \<union> set (answered (calls w'))"
proof -
  have o: "accepted_answered (view_of w)"
    using used_once [OF assms(1) created_once(1)] by (simp add: once_def)
  obtain m w2 where m: "m_key m = m_id m" and v: "view_of w2 = (view_of w)\<lparr>v_queue := queue_list w @ [m]\<rparr>"
    and f: "finish_enqueue E m w2 = Some (Inr rc, w')"
    using assms(2) by (cases rule: enqueue_run_cases) auto
  have k: "rc_key rc = m_id m \<and> held (view_of w2) \<subseteq> held (view_of w')"
    using f
  proof (cases rule: finish_enqueue_cases)
    case (passed r)
    have "accepted_answered (view_of w2)" using o by (simp add: v accepted_answered_def)
    then show ?thesis using drain_now_ok [OF passed(1)] steps_held passed(2) m by auto
  qed (use m in simp)
  have "ids (queue_list w) \<union> {m_id m} \<subseteq> held (view_of w2)" by (auto simp: held_def v)
  moreover have "held (view_of w') = ids (queue_list w') \<union> ids (map d_mutation (parked w')) \<union> set (answered (calls w'))"
    by (simp add: held_def view_of_def)
  ultimately show ?thesis using k by blast
qed

theorem receipt_means_kept_witness:
  "\<exists>rc w'. enqueue_run sample_env [''posts''] ''{}'' (create_queue sample_env Absent Absent NoActor) = Some (Inr rc, w')
    \<and> rc_key rc = ''b'' \<and> ''b'' \<in> ids (queue_list w') \<union> ids (map d_mutation (parked w')) \<union> set (answered (calls w'))"
proof -
  obtain rc w' where e: "enqueue_run sample_env [''posts''] ''{}'' (create_queue sample_env Absent Absent NoActor)
      = Some (Inr rc, w')" "rc_key rc = ''b''"
    by (simp add: offline_run_simps enqueue_run_def begin_enqueue_def bound_actor_def store_enqueued_def finish_enqueue_def)
  then show ?thesis using receipt_means_kept [OF Unused e(1)] by metis
qed

text \<open>
  C37: Overlapping enqueues lose one: \<open>enqueue\<close> reads the queue, waits, and writes the queue it
  read with its entry added. When a second call reads before the first writes, both report the
  entry as queued, and the first one is gone: not stored, not parked, not sent.
\<close>

theorem overlapping_enqueues_lose_one:
  assumes "begin_enqueue E path1 input1 w = (Inr (m1, read1), w1)"
    and "begin_enqueue E path2 input2 w1 = (Inr (m2, read2), w2)"
    and "store_enqueued E m1 read1 w2 = (Inr (), w3)" "store_enqueued E m2 read2 w3 = (Inr (), w4)"
  shows "queue_list w4 = queue_list w @ [m2] \<and> calls w4 = calls w
    \<and> map d_mutation (parked w4) = map d_mutation (parked w)
    \<and> Enqueued m1 \<in> set (events w3) \<and> Enqueued m2 \<in> set (events w4)"
proof -
  have v: "view_of w1 = view_of w" "view_of w2 = view_of w"
    using begin_enqueue_view(1) [OF assms(1)] begin_enqueue_view(1) [OF assms(2)] by simp_all
  have "read2 = queue_list w1" using begin_enqueue_view(2) [OF assms(2) refl] by simp
  then have "read2 = queue_list w" using v(1) by (metis view_queue)
  then have v4: "view_of w4 = (view_of w)\<lparr>v_queue := queue_list w @ [m2]\<rparr>"
    using store_enqueued_view(2) [OF assms(3) refl] store_enqueued_view(2) [OF assms(4) refl] by (simp add: v)
  have "Enqueued m1 \<in> set (events w3)" "Enqueued m2 \<in> set (events w4)"
    using assms(3,4) by (auto simp: store_enqueued_def split: prod.splits sum.splits)
  then show ?thesis
    using arg_cong [OF v4, of v_queue] arg_cong [OF v4, of v_calls] arg_cong [OF v4, of v_dead]
    by (simp add: view_of_def)
qed

theorem overlapping_enqueues_lose_one_witness:
  "\<exists>E w m1 m2 w1 w2 w3 w4.
     begin_enqueue E [''posts''] ''1'' w = (Inr (m1, []), w1)
   \<and> begin_enqueue E [''posts''] ''2'' w1 = (Inr (m2, []), w2)
   \<and> store_enqueued E m1 [] w2 = (Inr (), w3) \<and> store_enqueued E m2 [] w3 = (Inr (), w4)
   \<and> m_id m1 \<noteq> m_id m2 \<and> queue_list w4 = [m2]"
proof -
  let ?E = "sample_env\<lparr>en_new_id := \<lambda>t. Some (replicate t CHR ''x'')\<rparr>"
  let ?w = "create_queue sample_env Absent Absent NoActor"
  obtain m1 m2 w1 w2 w3 w4 where s: "begin_enqueue ?E [''posts''] ''1'' ?w = (Inr (m1, []), w1)"
    "begin_enqueue ?E [''posts''] ''2'' w1 = (Inr (m2, []), w2)"
    "store_enqueued ?E m1 [] w2 = (Inr (), w3)" "store_enqueued ?E m2 [] w3 = (Inr (), w4)" "m_id m1 \<noteq> m_id m2"
    by (simp add: offline_run_simps begin_enqueue_def bound_actor_def store_enqueued_def)
  have "queue_list ?w = []" by (simp add: offline_run_simps queue_list_def)
  then have "queue_list w4 = [m2]" using overlapping_enqueues_lose_one [OF s(1-4)] by simp
  then show ?thesis using s by blast
qed

end
