(* ===== verification/JournalData.thy ===== *)
theory JournalData
  imports ArkiPrelude MoneyUnits
begin

text \<open>
  The data of a workflow run of \<open>packages/journal\<close>: JSON values, the run fields and their changes
  (\<open>workflow/run-fields.ts\<close>), states and causes (\<open>workflow/states.ts\<close>), the node manifest
  (\<open>workflow/shape.ts\<close>), ages (\<open>retention.ts\<close>). Names and other texts are lists of characters,
  times are milliseconds, the numbers in a JSON value are whole (\<open>rnd53\<close> rounds their sums as a
  double does).
\<close>

section \<open>JSON values\<close>

datatype json =
    JNull
  | JBool bool
  | JNumber int
  | JText string
  | JArray "json list"
  | JObject "(string \<times> json) list"

type_synonym object_entries = "(string \<times> json) list"
type_synonym time = int

text \<open>
  A plain object is its own entries (in insertion order: the engine lists keys that look like array
  indices first, which nothing below observes); \<open>{ ...a, ...b }\<close> sets the entries of one on the other.
\<close>

type_synonym results = object_entries
type_synonym metadata = object_entries

definition spread_entries :: "object_entries \<Rightarrow> object_entries \<Rightarrow> object_entries" where
  "spread_entries a b = fold (\<lambda>(k, v). AList.update k v) b a"

text \<open>
  A plain object answers a key of its own, or one that every object inherits: then the value is
  a function or the prototype, so neither absent nor a number nor an array.
\<close>

datatype property = Own json | Inherited | Undefined

definition OBJECT_PROTOTYPE :: "string list" where
  "OBJECT_PROTOTYPE = [''constructor'', ''__defineGetter__'', ''__defineSetter__'', ''hasOwnProperty'',
     ''__lookupGetter__'', ''__lookupSetter__'', ''isPrototypeOf'', ''propertyIsEnumerable'',
     ''toString'', ''valueOf'', ''__proto__'', ''toLocaleString'']"

definition property_of :: "object_entries \<Rightarrow> string \<Rightarrow> property" where
  "property_of m k =
     (case map_of m k of Some v \<Rightarrow> Own v | None \<Rightarrow> if k \<in> set OBJECT_PROTOTYPE then Inherited else Undefined)"

section \<open>Changes of the metadata and of the tags\<close>

datatype metadata_change =
    SetPatch object_entries
  | Increment string int
  | AppendTo string json
  | RemoveKey string

datatype refusal = NotANumber string | NotAnArray string

fun metadata_refusal :: "metadata \<Rightarrow> metadata_change \<Rightarrow> refusal option" where
  "metadata_refusal m (Increment k by) =
     (case property_of m k of
        Undefined \<Rightarrow> None
      | Own (JNumber n) \<Rightarrow> None
      | _ \<Rightarrow> Some (NotANumber k))"
| "metadata_refusal m (AppendTo k v) =
     (case property_of m k of
        Undefined \<Rightarrow> None
      | Own (JArray vs) \<Rightarrow> None
      | _ \<Rightarrow> Some (NotAnArray k))"
| "metadata_refusal m change = None"

fun changed_metadata :: "metadata \<Rightarrow> metadata_change \<Rightarrow> metadata" where
  "changed_metadata m (SetPatch patch) = spread_entries m patch"
| "changed_metadata m (Increment k by) =
     (let now = (case property_of m k of Own (JNumber n) \<Rightarrow> n | _ \<Rightarrow> 0)
      in AList.update k (JNumber (rnd53 (now + by))) m)"
| "changed_metadata m (AppendTo k v) =
     (let now = (case property_of m k of Own (JArray vs) \<Rightarrow> vs | _ \<Rightarrow> [])
      in AList.update k (JArray (now @ [v])) m)"
| "changed_metadata m (RemoveKey k) = AList.delete k m"

text \<open>A \<open>Set\<close> of the tags keeps the first of each, in the order given.\<close>

fun first_of_each :: "'a list \<Rightarrow> 'a list" where
  "first_of_each [] = []"
| "first_of_each (x # xs) = x # filter (\<lambda>y. y \<noteq> x) (first_of_each xs)"

definition new_tags :: "string list \<Rightarrow> string list \<Rightarrow> string list" where
  "new_tags tags added = filter (\<lambda>tag. tag \<notin> set tags) (first_of_each added)"

definition RUN_FIELD_LIMITS_tags :: nat where
  "RUN_FIELD_LIMITS_tags = 10"

section \<open>States, phases and causes\<close>

datatype run_state = Queued | Running | AtPark | Compensating | Completed | Failed | Cancelled | Expired

definition ENDED_STATES :: "run_state list" where
  "ENDED_STATES = [Completed, Failed, Cancelled, Expired]"

datatype step_status = Scheduled | StepDone | StepSkipped | StepFailed
datatype step_phase = Do | Undo
datatype skip_cause = When | WhileCompensating | NoUndo | Detached | ByOperator | TtlPassed
datatype busy_reason = Full | Paused

definition is_live :: "run_state \<Rightarrow> bool" where
  "is_live s \<longleftrightarrow> s = Queued \<or> s = Running \<or> s = AtPark"

section \<open>The node manifest\<close>

datatype shape_kind = KStep | KWaitFor | KEventWait | KSleep | KChild | KMap | KCommand | KParallel
datatype on_cancel = CancelChild | DetachChild
datatype join_kind = WaitAll | WaitAny

datatype shape = Shape (shape_nodes: "shape_node list")
  and shape_node = ShapeNode (sn_name: string) (sn_kind: shape_kind) (sn_undo: bool)
    (sn_on_cancel: "on_cancel option") (sn_signal: "string option") (sn_command: "string option")
    (sn_undo_command: "string option") (sn_on: "(string \<times> string \<times> string list) list option")
    (sn_wait: "join_kind option") (sn_branches: "(string \<times> shape) list option")

section \<open>How long an ended run is kept\<close>

datatype run_end = EndCompleted | EndFailed | EndCancelled | EndExpired

text \<open>\<open>false\<close>, or an age in milliseconds (none keeps the row for ever). Runs have no sink and no cap.\<close>

datatype resolved_keep = DropAtOnce | KeepFor "time option"

record run_policy =
  keep_completed :: resolved_keep
  keep_failed :: resolved_keep
  keep_cancelled :: resolved_keep
  keep_expired :: resolved_keep

text \<open>The workflow's own settings: a field left out takes the journal's.\<close>

record run_retention =
  own_completed :: "resolved_keep option"
  own_failed :: "resolved_keep option"
  own_cancelled :: "resolved_keep option"
  own_expired :: "resolved_keep option"

fun run_keep_for :: "run_policy \<Rightarrow> run_retention \<Rightarrow> run_end \<Rightarrow> resolved_keep" where
  "run_keep_for p own EndCompleted = (case own_completed own of Some k \<Rightarrow> k | None \<Rightarrow> keep_completed p)"
| "run_keep_for p own EndFailed = (case own_failed own of Some k \<Rightarrow> k | None \<Rightarrow> keep_failed p)"
| "run_keep_for p own EndCancelled =
     (case own_cancelled own of Some k \<Rightarrow> k
      | None \<Rightarrow> (case own_failed own of Some k \<Rightarrow> k | None \<Rightarrow> keep_cancelled p))"
| "run_keep_for p own EndExpired =
     (case own_expired own of Some k \<Rightarrow> k
      | None \<Rightarrow> (case own_failed own of Some k \<Rightarrow> k | None \<Rightarrow> keep_expired p))"

definition run_keep_until :: "resolved_keep \<Rightarrow> time \<Rightarrow> time option" where
  "run_keep_until keep now =
     (case keep of DropAtOnce \<Rightarrow> Some now
      | KeepFor None \<Rightarrow> None
      | KeepFor (Some age) \<Rightarrow> Some (now + age))"

section \<open>Facts about the fields\<close>

lemma set_first_of_each [simp]: "set (first_of_each xs) = set xs"
  by (induction xs) auto

lemma distinct_first_of_each [simp]: "distinct (first_of_each xs)"
  by (induction xs) auto

text \<open>What the command refuses to store never reaches the fallbacks: an accepted change is the change of the value that is there.\<close>

lemma accepted_increment:
  assumes "metadata_refusal m (Increment k by) = None"
  shows "(map_of m k = None \<and> changed_metadata m (Increment k by) = AList.update k (JNumber (rnd53 by)) m) \<or>
    (\<exists>n. map_of m k = Some (JNumber n) \<and> changed_metadata m (Increment k by) = AList.update k (JNumber (rnd53 (n + by))) m)"
  using assms by (auto simp: property_of_def split: option.splits json.splits if_splits)

lemma accepted_append:
  assumes "metadata_refusal m (AppendTo k v) = None"
  shows "(map_of m k = None \<and> changed_metadata m (AppendTo k v) = AList.update k (JArray [v]) m) \<or>
    (\<exists>vs. map_of m k = Some (JArray vs) \<and> changed_metadata m (AppendTo k v) = AList.update k (JArray (vs @ [v])) m)"
  using assms by (auto simp: property_of_def split: option.splits json.splits if_splits)

lemma new_tags_distinct:
  "distinct tags \<Longrightarrow> distinct (tags @ new_tags tags added) \<and>
     set (tags @ new_tags tags added) = set tags \<union> set added"
  by (auto simp: new_tags_def)

end
