(* ===== verification/JournalFold.thy ===== *)
theory JournalFold
  imports ArkiPrelude
begin

text \<open>
  The fold that write and replay share: \<open>packages/journal/src/fold.ts\<close> with \<open>reduceOne\<close> and
  \<open>withEntityIdentity\<close> of \<open>entity.ts\<close>. An entity is its reducers, given per event: what a create
  sets and how an event changes a row. What a reducer returns is the list of the columns it
  defines with their values. The lemmas, under the laws of a row's identity columns, show that
  folding new events onto a replayed row is replaying them with the rest.
\<close>

section \<open>Entities\<close>

text \<open>
  The reducers of an event type: the columns of \<open>create\<close>, and the columns \<open>on\<close> sets on a row (none:
  the row is deleted). Either may be missing.
\<close>

record ('s, 'c) reducers =
  on_create :: "'c list option"
  on_row :: "('s \<Rightarrow> 'c list option) option"

record ('e, 's, 'c) entity_def =
  ent_reducers :: "'e \<Rightarrow> ('s, 'c) reducers option"
  ent_put :: "'c \<Rightarrow> 's \<Rightarrow> 's"
  ent_column :: "'c \<Rightarrow> string"
  ent_blank :: 's
  ent_identify :: "string \<Rightarrow> nat \<Rightarrow> 's \<Rightarrow> 's"
  ent_version :: "'s \<Rightarrow> nat"

datatype fold_mode = WriteMode | ReplayMode
datatype replay_reason = NoReducer | NoOnReducer | NoCreateReducer
datatype fold_error =
    UnknownEvent nat
  | RowExists nat
  | NoRow nat
  | ReplayFailed nat replay_reason
  | NoCreateFor
  | NoOnFor

type_synonym ('s) folded = "'s option \<times> bool \<times> string set"

section \<open>One event\<close>

definition put_all :: "('e, 's, 'c) entity_def \<Rightarrow> 'c list \<Rightarrow> 's \<Rightarrow> 's" where
  "put_all ent cs s = fold (ent_put ent) cs s"

definition columns_of :: "('e, 's, 'c) entity_def \<Rightarrow> 'c list \<Rightarrow> string set" where
  "columns_of ent cs = ent_column ent ` set cs"

definition reduce_one ::
  "('e, 's, 'c) entity_def \<Rightarrow> 's option \<Rightarrow> string \<Rightarrow> nat \<times> 'e \<Rightarrow> string set \<Rightarrow> fold_error + 's option \<times> string set" where
  "reduce_one ent state eid recorded cols =
     (case recorded of (version, event) \<Rightarrow>
        let r = ent_reducers ent event
        in case state of
             None \<Rightarrow>
               (case Option.bind r on_create of
                  None \<Rightarrow> Inl NoCreateFor
                | Some created \<Rightarrow> Inr (Some (put_all ent created (ent_blank ent)), columns_of ent created))
           | Some s \<Rightarrow>
               (case Option.bind r on_row of
                  None \<Rightarrow> Inl NoOnFor
                | Some on \<Rightarrow>
                    (case on (ent_identify ent eid (version - 1) s) of
                       None \<Rightarrow> Inr (None, {})
                     | Some patch \<Rightarrow> Inr (Some (put_all ent patch s), cols \<union> columns_of ent patch))))"

section \<open>The fold\<close>

definition refused :: "fold_mode \<Rightarrow> (nat \<Rightarrow> fold_error) \<Rightarrow> replay_reason \<Rightarrow> nat \<Rightarrow> fold_error" where
  "refused mode written reason version =
     (case mode of WriteMode \<Rightarrow> written version | ReplayMode \<Rightarrow> ReplayFailed version reason)"

fun fold_events ::
  "('e, 's, 'c) entity_def \<Rightarrow> fold_mode \<Rightarrow> string \<Rightarrow> (nat \<times> 'e) list \<Rightarrow> 's option \<Rightarrow> bool \<Rightarrow> string set \<Rightarrow>
     fold_error + 's folded" where
  "fold_events ent mode eid [] state deleted cols = Inr (state, deleted, cols)"
| "fold_events ent mode eid (event # history) state deleted cols =
     (case ent_reducers ent (snd event) of
        None \<Rightarrow> Inl (refused mode UnknownEvent NoReducer (fst event))
      | Some r \<Rightarrow>
          if state \<noteq> None \<and> on_row r = None then Inl (refused mode RowExists NoOnReducer (fst event))
          else if state = None \<and> on_create r = None then Inl (refused mode NoRow NoCreateReducer (fst event))
          else rbind (reduce_one ent state eid event cols)
                 (\<lambda>(state', cols'). fold_events ent mode eid history state' (deleted \<or> state' = None) cols'))"

definition fold_row ::
  "('e, 's, 'c) entity_def \<Rightarrow> 's option \<Rightarrow> string \<Rightarrow> (nat \<times> 'e) list \<Rightarrow> fold_mode \<Rightarrow> fold_error + 's folded" where
  "fold_row ent start eid history mode =
     rbind (fold_events ent mode eid history start False {})
       (\<lambda>(state, deleted, cols).
          case state of
            None \<Rightarrow> Inr (None, False, cols)
          | Some s \<Rightarrow>
              (let version = (if history = [] then (case start of None \<Rightarrow> 0 | Some r \<Rightarrow> ent_version ent r)
                              else fst (last history))
               in Inr (Some (ent_identify ent eid version s), deleted, cols)))"

text \<open>The events of a write follow the version of the row, one by one.\<close>

fun numbered :: "nat \<Rightarrow> 'e list \<Rightarrow> (nat \<times> 'e) list" where
  "numbered base [] = []"
| "numbered base (e # es) = (base + 1, e) # numbered (base + 1) es"

lemma numbered_append: "numbered base (xs @ ys) = numbered base xs @ numbered (base + length xs) ys"
  by (induction xs arbitrary: base) auto

lemma last_numbered: "es \<noteq> [] \<Longrightarrow> fst (last (numbered base es)) = base + length es"
proof (induction es arbitrary: base)
  case Nil
  then show ?case by simp
next
  case (Cons e es)
  then show ?case by (cases es) auto
qed

lemma numbered_nonempty [simp]: "numbered base es = [] \<longleftrightarrow> es = []"
  by (cases es) auto

section \<open>Write and replay agree\<close>

lemma fold_events_append:
  "fold_events ent mode eid (xs @ ys) state deleted cols =
     rbind (fold_events ent mode eid xs state deleted cols)
       (\<lambda>(state', deleted', cols'). fold_events ent mode eid ys state' deleted' cols')"
  by (induction xs arbitrary: state deleted cols)
    (auto simp: reduce_one_def Let_def split: option.splits prod.splits)

text \<open>What a row's identity columns promise the fold.\<close>

locale identified_rows =
  fixes ent :: "('e, 's, 'c) entity_def"
  assumes put_identify: "ent_put ent c (ent_identify ent i v s) = ent_identify ent i v (ent_put ent c s)"
    and identify_again: "ent_identify ent i v (ent_identify ent i w s) = ent_identify ent i v s"
    and version_of: "ent_version ent (ent_identify ent i v s) = v"
begin

lemma put_all_identify: "put_all ent cs (ent_identify ent i v s) = ent_identify ent i v (put_all ent cs s)"
  by (induction cs arbitrary: s) (simp_all add: put_all_def put_identify)

text \<open>Two states that differ in their identity columns only.\<close>

definition alike :: "string \<Rightarrow> 's option \<Rightarrow> 's option \<Rightarrow> bool" where
  "alike i a b \<longleftrightarrow> (case (a, b) of
     (None, None) \<Rightarrow> True | (Some s, Some t) \<Rightarrow> ent_identify ent i 0 s = ent_identify ent i 0 t | _ \<Rightarrow> False)"

lemma alike_simps [simp]:
  "alike i None b \<longleftrightarrow> b = None" "alike i a None \<longleftrightarrow> a = None"
  "alike i (Some s) (Some t) \<longleftrightarrow> ent_identify ent i 0 s = ent_identify ent i 0 t"
  by (auto simp: alike_def split: option.splits)

lemma alike_identify: "ent_identify ent i 0 s = ent_identify ent i 0 t \<Longrightarrow> ent_identify ent i v s = ent_identify ent i v t"
  by (metis identify_again)

lemma alike_put:
  assumes "ent_identify ent i 0 s = ent_identify ent i 0 t"
  shows "ent_identify ent i 0 (put_all ent cs s) = ent_identify ent i 0 (put_all ent cs t)"
  by (metis assms put_all_identify)

text \<open>From states alike the fold goes the same way, in both modes.\<close>

lemma fold_alike:
  assumes "alike i a b"
  shows "case fold_events ent m i h a d cols of
      Inl e \<Rightarrow> \<exists>e'. fold_events ent m' i h b d' cols' = Inl e'
    | Inr (a', d1, c1) \<Rightarrow> \<exists>b' d2 c2. fold_events ent m' i h b d' cols' = Inr (b', d2, c2) \<and> alike i a' b'"
  using assms
proof (induction h arbitrary: a b d d' cols cols')
  case Nil
  then show ?case by simp
next
  case (Cons e h)
  show ?case
  proof (cases "ent_reducers ent (snd e)")
    case None
    then show ?thesis by simp
  next
    case (Some r)
    note r = Some
    show ?thesis
    proof (cases a)
      case None
      with Cons.prems have b: "b = None" by simp
      show ?thesis
      proof (cases "on_create r")
        case None
        with r b \<open>a = None\<close> show ?thesis by simp
      next
        case (Some created)
        let ?s = "Some (put_all ent created (ent_blank ent))"
        have "alike i ?s ?s" by simp
        from Cons.IH [OF this, where d = d and d' = d' and cols = "columns_of ent created" and cols' = "columns_of ent created"]
        show ?thesis using r b \<open>a = None\<close> Some by (cases e) (auto simp: reduce_one_def split: sum.splits)
      qed
    next
      case (Some s)
      then obtain t where b: "b = Some t" and st: "ent_identify ent i 0 s = ent_identify ent i 0 t"
        using Cons.prems by (cases b) auto
      show ?thesis
      proof (cases "on_row r")
        case None
        with r b Some show ?thesis by simp
      next
        case (Some on)
        note on = Some
        have same: "on (ent_identify ent i (fst e - 1) s) = on (ent_identify ent i (fst e - 1) t)"
          using alike_identify [OF st] by simp
        show ?thesis
        proof (cases "on (ent_identify ent i (fst e - 1) s)")
          case None
          have "alike i None None" by simp
          from Cons.IH [OF this, where d = True and d' = True and cols = "{}" and cols' = "{}"]
          show ?thesis using r b \<open>a = Some s\<close> on None same by (cases e) (auto simp: reduce_one_def split: sum.splits)
        next
          case (Some patch)
          have "alike i (Some (put_all ent patch s)) (Some (put_all ent patch t))"
            using alike_put [OF st] by simp
          note Cons.IH [OF this, where d = d and d' = d' and cols = "cols \<union> columns_of ent patch"
              and cols' = "cols' \<union> columns_of ent patch"]
          moreover have "on (ent_identify ent i (fst e - 1) t) = Some patch" using Some same by simp
          ultimately show ?thesis using r b \<open>a = Some s\<close> on Some by (cases e) (auto simp: reduce_one_def split: sum.splits)
        qed
      qed
    qed
  qed
qed

text \<open>
  A row that replays from its log, written on with the next events, is the row the whole log
  replays to; and a write that is refused would not replay either.
\<close>

lemma write_is_replay:
  assumes old: "fold_row ent None i (numbered 0 log) ReplayMode = Inr (row, d, c)"
    and new: "fold_row ent row i (numbered (length log) es) WriteMode = Inr (row', d', c')"
  shows "\<exists>d'' c''. fold_row ent None i (numbered 0 (log @ es)) ReplayMode = Inr (row', d'', c'')"
proof -
  obtain s d1 c1 where s: "fold_events ent ReplayMode i (numbered 0 log) None False {} = Inr (s, d1, c1)"
    and row: "row = map_option (ent_identify ent i (if log = [] then 0 else length log)) s"
    using old by (auto simp: fold_row_def result_simps last_numbered Let_def split: option.splits if_splits)
  have "alike i row s" using row by (cases s) (auto simp: identify_again)
  obtain t d2 c2 where t: "fold_events ent WriteMode i (numbered (length log) es) row False {} = Inr (t, d2, c2)"
    and row': "row' = map_option (ent_identify ent i
       (if es = [] then (case row of None \<Rightarrow> 0 | Some r \<Rightarrow> ent_version ent r) else length log + length es)) t"
    using new by (auto simp: fold_row_def result_simps last_numbered Let_def split: option.splits if_splits)
  obtain u d3 c3 where u: "fold_events ent ReplayMode i (numbered (length log) es) s d1 c1 = Inr (u, d3, c3)"
    and tu: "alike i t u"
    using fold_alike [OF \<open>alike i row s\<close>, where m = WriteMode and m' = ReplayMode
        and h = "numbered (length log) es" and d = False and d' = d1 and cols = "{}" and cols' = c1] t
    by auto
  have all: "fold_events ent ReplayMode i (numbered 0 (log @ es)) None False {} = Inr (u, d3, c3)"
    using s u by (simp add: numbered_append fold_events_append)
  show ?thesis
  proof (cases u)
    case None
    with tu have "t = None" by simp
    with row' have "row' = None" by simp
    then show ?thesis using all None by (auto simp: fold_row_def)
  next
    case (Some u')
    then obtain t' where t': "t = Some t'" and same: "ent_identify ent i 0 t' = ent_identify ent i 0 u'"
      using tu by (cases t) auto
    have "row' = Some (ent_identify ent i (length log + length es) u')"
    proof (cases "es = []")
      case True
      with t t' have "row = Some t'" by simp
      moreover from this have "ent_version ent t' = length log"
        using row s by (auto simp: version_of split: if_splits option.splits)
      ultimately show ?thesis using row' t' True alike_identify [OF same] by simp
    next
      case False
      then show ?thesis using row' t' alike_identify [OF same] by simp
    qed
    then show ?thesis using all Some
      by (cases "log @ es = []") (auto simp: fold_row_def last_numbered Let_def)
  qed
qed

lemma refused_is_unreplayable:
  assumes old: "fold_row ent None i (numbered 0 log) ReplayMode = Inr (row, d, c)"
    and new: "fold_row ent row i (numbered (length log) es) WriteMode = Inl e"
  shows "\<exists>e'. fold_row ent None i (numbered 0 (log @ es)) ReplayMode = Inl e'"
proof -
  obtain s d1 c1 where s: "fold_events ent ReplayMode i (numbered 0 log) None False {} = Inr (s, d1, c1)"
    and row: "row = map_option (ent_identify ent i (if log = [] then 0 else length log)) s"
    using old by (auto simp: fold_row_def result_simps last_numbered Let_def split: option.splits if_splits)
  have "alike i row s" using row by (cases s) (auto simp: identify_again)
  have t: "fold_events ent WriteMode i (numbered (length log) es) row False {} = Inl e"
    using new by (auto simp: fold_row_def result_simps Let_def split: option.splits if_splits)
  then obtain e' where "fold_events ent ReplayMode i (numbered (length log) es) s d1 c1 = Inl e'"
    using fold_alike [OF \<open>alike i row s\<close>, where m = WriteMode and m' = ReplayMode
        and h = "numbered (length log) es" and d = False and d' = d1 and cols = "{}" and cols' = c1]
    by auto
  then show ?thesis using s by (auto simp: fold_row_def numbered_append fold_events_append)
qed

end

end
