(* ===== verification/JournalRun.thy ===== *)
theory JournalRun
  imports JournalData JournalFold
begin

text \<open>
  The \<open>workflow.run\<close> entity of \<open>packages/journal/src/workflow/machine.ts\<close>: its events with their
  data, the run row (\<open>pg.ts\<close>) and its reducers. A field that is optional or nullable in the data is
  an option. The run is an instance of the rows of \<open>JournalFold\<close>, so what is written replays.
\<close>

section \<open>The events\<close>

record operator_fields =
  by_actor :: "string option"
  by_reason :: "string option"
  by_execution :: "string option"

definition nobody :: operator_fields where
  "nobody = \<lparr>by_actor = None, by_reason = None, by_execution = None\<rparr>"

record run_started =
  st_name :: string
  st_version :: nat
  st_shape :: shape
  st_shape_hash :: string
  st_input :: json
  st_deadline_at :: "time option"
  st_parent_id :: "string option"
  st_parent_path :: "string option"
  st_concurrency_key :: "string option"
  st_scope :: "string option"
  st_tags :: "string list option"
  st_metadata :: "metadata option"
  st_root_id :: "string option"
  st_start_at :: "time option"
  st_ttl_at :: "time option"
  st_ttl_ms :: "nat option"
  st_max_attempts :: "nat option"
  st_step_timeout_ms :: "nat option"
  st_priority :: "int option"
  st_limits :: "string list option"
  st_trigger_seq :: "nat option"
  st_results :: "results option"
  st_batch_id :: "string option"
  st_replay_of :: "string option"
  st_by :: operator_fields
  st_at :: time

record node_scheduled =
  sch_path :: string
  sch_phase :: step_phase
  sch_attempt :: nat
  sch_key :: string
  sch_job_id :: "string option"
  sch_at :: time
  sch_resolution :: "json option"
  sch_priority :: "int option"
  sch_by :: operator_fields

record node_completed =
  cpl_path :: string
  cpl_phase :: step_phase
  cpl_result :: json
  cpl_resolved_by :: "string option"
  cpl_at :: time
  cpl_reason :: "string option"
  cpl_execution :: "string option"

record node_skipped =
  skp_path :: string
  skp_phase :: step_phase
  skp_cause :: skip_cause
  skp_reason :: string
  skp_actor :: "string option"
  skp_at :: time
  skp_execution :: "string option"

record node_failed =
  fld_path :: string
  fld_phase :: step_phase
  fld_attempt :: nat
  fld_error :: string
  fld_at :: time

record park_data =
  prk_node :: string
  prk_waiting_for :: "string option"
  prk_wake_at :: "time option"
  prk_priority :: "int option"
  prk_at :: time

record child_plan =
  plan_id :: string
  plan_input :: json
  plan_def :: "(string \<times> nat) option"

record children_planned =
  pln_path :: string
  pln_base :: string
  pln_def :: "string \<times> nat"
  pln_children :: "child_plan list"
  pln_start :: "nat option"
  pln_at :: time
  pln_by :: operator_fields

datatype run_event =
    RunStarted run_started
  | RunQueued string busy_reason "time option" "int option" time
  | RunDequeued time
  | NodeScheduled node_scheduled
  | NodeCompleted node_completed
  | NodeSkipped node_skipped
  | NodeFailed node_failed
  | Parked park_data
  | ChildrenPlanned children_planned
  | JobRetried string "string option" time operator_fields
  | SignalReceived string string time operator_fields
  | WaitEventTaken string string nat string time
  | TimerFired string time
  | DeadlineReached time
  | CancelRequested string "string option" "string option" time
  | CompensationStarted time
  | MetadataChanged metadata_change time operator_fields
  | RunTagged "string list" time operator_fields
  | RunCompleted json time "time option"
  | RunFailed string time "time option"
  | RunCancelled time "time option"
  | RunExpired time "time option"
  | RunRescheduled time "time option" "time option" time operator_fields

section \<open>The run row\<close>

record run_row =
  r_id :: string
  r_name :: string
  r_workflow_version :: nat
  r_shape :: shape
  r_shape_hash :: string
  r_input :: json
  r_state :: run_state
  r_node :: "string option"
  r_results :: results
  r_output :: "json option"
  r_wake_at :: "time option"
  r_deadline_at :: "time option"
  r_waiting_for :: "string option"
  r_parent_id :: "string option"
  r_parent_path :: "string option"
  r_concurrency_key :: "string option"
  r_scope :: "string option"
  r_tags :: "string list"
  r_metadata :: metadata
  r_root_id :: "string option"
  r_field_changes :: nat
  r_transitions :: nat
  r_start_at :: "time option"
  r_ttl_at :: "time option"
  r_ttl_ms :: "nat option"
  r_batch_id :: "string option"
  r_replay_of :: "string option"
  r_max_attempts :: "nat option"
  r_step_timeout_ms :: "nat option"
  r_priority :: "int option"
  r_limits :: "string list"
  r_cancelled_at :: "time option"
  r_cancel_reason :: "string option"
  r_started_at :: time
  r_finished_at :: "time option"
  r_keep_until :: "time option"
  r_version :: nat

datatype run_column =
    CName string | CWorkflowVersion nat | CShape shape | CShapeHash string | CInput json
  | CState run_state | CNode "string option" | CResults results | COutput json
  | CWakeAt "time option" | CDeadlineAt "time option" | CWaitingFor "string option"
  | CParentId "string option" | CParentPath "string option" | CConcurrencyKey "string option"
  | CScope "string option" | CTags "string list" | CMetadata metadata | CRootId "string option"
  | CFieldChanges nat | CTransitions nat | CStartAt "time option" | CTtlAt "time option"
  | CTtlMs "nat option" | CBatchId "string option" | CReplayOf "string option"
  | CMaxAttempts "nat option" | CStepTimeoutMs "nat option" | CPriority "int option"
  | CLimits "string list" | CCancelledAt "time option" | CCancelReason "string option"
  | CStartedAt time | CFinishedAt "time option" | CKeepUntil "time option"

fun put_column :: "run_column \<Rightarrow> run_row \<Rightarrow> run_row" where
  "put_column (CName x) r = r\<lparr>r_name := x\<rparr>"
| "put_column (CWorkflowVersion x) r = r\<lparr>r_workflow_version := x\<rparr>"
| "put_column (CShape x) r = r\<lparr>r_shape := x\<rparr>"
| "put_column (CShapeHash x) r = r\<lparr>r_shape_hash := x\<rparr>"
| "put_column (CInput x) r = r\<lparr>r_input := x\<rparr>"
| "put_column (CState x) r = r\<lparr>r_state := x\<rparr>"
| "put_column (CNode x) r = r\<lparr>r_node := x\<rparr>"
| "put_column (CResults x) r = r\<lparr>r_results := x\<rparr>"
| "put_column (COutput x) r = r\<lparr>r_output := Some x\<rparr>"
| "put_column (CWakeAt x) r = r\<lparr>r_wake_at := x\<rparr>"
| "put_column (CDeadlineAt x) r = r\<lparr>r_deadline_at := x\<rparr>"
| "put_column (CWaitingFor x) r = r\<lparr>r_waiting_for := x\<rparr>"
| "put_column (CParentId x) r = r\<lparr>r_parent_id := x\<rparr>"
| "put_column (CParentPath x) r = r\<lparr>r_parent_path := x\<rparr>"
| "put_column (CConcurrencyKey x) r = r\<lparr>r_concurrency_key := x\<rparr>"
| "put_column (CScope x) r = r\<lparr>r_scope := x\<rparr>"
| "put_column (CTags x) r = r\<lparr>r_tags := x\<rparr>"
| "put_column (CMetadata x) r = r\<lparr>r_metadata := x\<rparr>"
| "put_column (CRootId x) r = r\<lparr>r_root_id := x\<rparr>"
| "put_column (CFieldChanges x) r = r\<lparr>r_field_changes := x\<rparr>"
| "put_column (CTransitions x) r = r\<lparr>r_transitions := x\<rparr>"
| "put_column (CStartAt x) r = r\<lparr>r_start_at := x\<rparr>"
| "put_column (CTtlAt x) r = r\<lparr>r_ttl_at := x\<rparr>"
| "put_column (CTtlMs x) r = r\<lparr>r_ttl_ms := x\<rparr>"
| "put_column (CBatchId x) r = r\<lparr>r_batch_id := x\<rparr>"
| "put_column (CReplayOf x) r = r\<lparr>r_replay_of := x\<rparr>"
| "put_column (CMaxAttempts x) r = r\<lparr>r_max_attempts := x\<rparr>"
| "put_column (CStepTimeoutMs x) r = r\<lparr>r_step_timeout_ms := x\<rparr>"
| "put_column (CPriority x) r = r\<lparr>r_priority := x\<rparr>"
| "put_column (CLimits x) r = r\<lparr>r_limits := x\<rparr>"
| "put_column (CCancelledAt x) r = r\<lparr>r_cancelled_at := x\<rparr>"
| "put_column (CCancelReason x) r = r\<lparr>r_cancel_reason := x\<rparr>"
| "put_column (CStartedAt x) r = r\<lparr>r_started_at := x\<rparr>"
| "put_column (CFinishedAt x) r = r\<lparr>r_finished_at := x\<rparr>"
| "put_column (CKeepUntil x) r = r\<lparr>r_keep_until := x\<rparr>"

fun column_name :: "run_column \<Rightarrow> string" where
  "column_name (CName x) = ''name''"
| "column_name (CWorkflowVersion x) = ''workflowVersion''"
| "column_name (CShape x) = ''shape''"
| "column_name (CShapeHash x) = ''shapeHash''"
| "column_name (CInput x) = ''input''"
| "column_name (CState x) = ''state''"
| "column_name (CNode x) = ''node''"
| "column_name (CResults x) = ''results''"
| "column_name (COutput x) = ''output''"
| "column_name (CWakeAt x) = ''wakeAt''"
| "column_name (CDeadlineAt x) = ''deadlineAt''"
| "column_name (CWaitingFor x) = ''waitingFor''"
| "column_name (CParentId x) = ''parentId''"
| "column_name (CParentPath x) = ''parentPath''"
| "column_name (CConcurrencyKey x) = ''concurrencyKey''"
| "column_name (CScope x) = ''scope''"
| "column_name (CTags x) = ''tags''"
| "column_name (CMetadata x) = ''metadata''"
| "column_name (CRootId x) = ''rootId''"
| "column_name (CFieldChanges x) = ''fieldChanges''"
| "column_name (CTransitions x) = ''transitions''"
| "column_name (CStartAt x) = ''startAt''"
| "column_name (CTtlAt x) = ''ttlAt''"
| "column_name (CTtlMs x) = ''ttlMs''"
| "column_name (CBatchId x) = ''batchId''"
| "column_name (CReplayOf x) = ''replayOf''"
| "column_name (CMaxAttempts x) = ''maxAttempts''"
| "column_name (CStepTimeoutMs x) = ''stepTimeoutMs''"
| "column_name (CPriority x) = ''priority''"
| "column_name (CLimits x) = ''limits''"
| "column_name (CCancelledAt x) = ''cancelledAt''"
| "column_name (CCancelReason x) = ''cancelReason''"
| "column_name (CStartedAt x) = ''startedAt''"
| "column_name (CFinishedAt x) = ''finishedAt''"
| "column_name (CKeepUntil x) = ''keepUntil''"

text \<open>The row before \<open>create\<close>: the nullable columns hold null, the others are set by every create.\<close>

definition blank_row :: run_row where
  "blank_row =
     \<lparr>r_id = '''', r_name = '''', r_workflow_version = 0, r_shape = Shape [], r_shape_hash = '''',
      r_input = JNull, r_state = Running, r_node = None, r_results = [], r_output = None,
      r_wake_at = None, r_deadline_at = None, r_waiting_for = None, r_parent_id = None,
      r_parent_path = None, r_concurrency_key = None, r_scope = None, r_tags = [],
      r_metadata = [], r_root_id = None, r_field_changes = 0, r_transitions = 0,
      r_start_at = None, r_ttl_at = None, r_ttl_ms = None, r_batch_id = None, r_replay_of = None,
      r_max_attempts = None, r_step_timeout_ms = None, r_priority = None, r_limits = [],
      r_cancelled_at = None, r_cancel_reason = None, r_started_at = 0, r_finished_at = None,
      r_keep_until = None, r_version = 0\<rparr>"

section \<open>The reducers\<close>

definition finished_columns :: "time \<Rightarrow> time option \<Rightarrow> run_column list" where
  "finished_columns at keep =
     [CNode None, CWakeAt None, CWaitingFor None, CFinishedAt (Some at), CKeepUntil keep]"

definition create_run :: "run_started \<Rightarrow> run_column list" where
  "create_run d =
     [CName (st_name d), CWorkflowVersion (st_version d), CShape (st_shape d), CShapeHash (st_shape_hash d),
      CInput (st_input d), CState Running,
      CResults (case st_results d of None \<Rightarrow> [] | Some rs \<Rightarrow> rs),
      CDeadlineAt (st_deadline_at d), CParentId (st_parent_id d), CParentPath (st_parent_path d),
      CConcurrencyKey (st_concurrency_key d), CScope (st_scope d),
      CTags (case st_tags d of None \<Rightarrow> [] | Some ts \<Rightarrow> ts),
      CMetadata (case st_metadata d of None \<Rightarrow> [] | Some m \<Rightarrow> m),
      CRootId (st_root_id d), CFieldChanges 0, CTransitions 0,
      CStartAt (st_start_at d), CTtlAt (st_ttl_at d), CTtlMs (st_ttl_ms d), CBatchId (st_batch_id d),
      CReplayOf (st_replay_of d), CMaxAttempts (st_max_attempts d),
      CStepTimeoutMs (st_step_timeout_ms d), CPriority (st_priority d),
      CLimits (case st_limits d of None \<Rightarrow> [] | Some ls \<Rightarrow> ls), CStartedAt (st_at d)]"

definition on_node_scheduled :: "run_row \<Rightarrow> node_scheduled \<Rightarrow> run_column list" where
  "on_node_scheduled row d =
     [CNode (Some (sch_path d)),
      CState (if r_state row = Compensating then Compensating else Running),
      CWakeAt None, CWaitingFor None,
      CTransitions (if sch_phase d = Do \<and> sch_attempt d = 1 then r_transitions row + 1 else r_transitions row)]"

definition on_node_completed :: "run_row \<Rightarrow> node_completed \<Rightarrow> run_column list" where
  "on_node_completed row d =
     (if cpl_phase d = Do then [CResults (AList.update (cpl_path d) (cpl_result d) (r_results row))] else [])"

definition on_node_skipped :: "run_row \<Rightarrow> node_skipped \<Rightarrow> run_column list" where
  "on_node_skipped row d =
     (if skp_phase d = Do \<and> skp_cause d \<noteq> WhileCompensating \<and> skp_cause d \<noteq> TtlPassed
      then [CResults (AList.update (skp_path d) JNull (r_results row))] else [])"

definition or_else :: "'a option \<Rightarrow> 'a \<Rightarrow> 'a option" where
  "or_else x y = (case x of None \<Rightarrow> Some y | Some z \<Rightarrow> Some z)"

fun on_run_event :: "run_row \<Rightarrow> run_event \<Rightarrow> run_column list" where
  "on_run_event row (RunStarted d) = []"
| "on_run_event row (RunQueued limit reason ttl priority at) = [CState Queued, CNode None]"
| "on_run_event row (RunDequeued at) = [CState Running]"
| "on_run_event row (NodeScheduled d) = on_node_scheduled row d"
| "on_run_event row (NodeCompleted d) = on_node_completed row d"
| "on_run_event row (NodeSkipped d) = on_node_skipped row d"
| "on_run_event row (NodeFailed d) = []"
| "on_run_event row (Parked d) =
     [CState AtPark, CNode (Some (prk_node d)), CWaitingFor (prk_waiting_for d), CWakeAt (prk_wake_at d)]"
| "on_run_event row (ChildrenPlanned d) =
     [CState AtPark, CNode (Some (pln_path d)), CWaitingFor None, CWakeAt None]"
| "on_run_event row (JobRetried job node at by) = []"
| "on_run_event row (SignalReceived name delivery at by) = []"
| "on_run_event row (WaitEventTaken node label seq delivery at) = []"
| "on_run_event row (TimerFired node at) =
     [CState (if r_state row = AtPark then Running else r_state row), CWakeAt None, CWaitingFor None]"
| "on_run_event row (DeadlineReached at) = []"
| "on_run_event row (CancelRequested reason actor execution at) =
     [CCancelledAt (or_else (r_cancelled_at row) at), CCancelReason (or_else (r_cancel_reason row) reason)]"
| "on_run_event row (CompensationStarted at) =
     [CState Compensating, CWakeAt None, CWaitingFor None, CFinishedAt None, CKeepUntil None]"
| "on_run_event row (MetadataChanged change at by) =
     [CMetadata (changed_metadata (r_metadata row) change), CFieldChanges (r_field_changes row + 1)]"
| "on_run_event row (RunTagged tags at by) =
     [CTags (r_tags row @ tags), CFieldChanges (r_field_changes row + 1)]"
| "on_run_event row (RunCompleted output at keep) =
     [CState Completed, COutput output] @ finished_columns at keep"
| "on_run_event row (RunFailed error at keep) = CState Failed # finished_columns at keep"
| "on_run_event row (RunCancelled at keep) = CState Cancelled # finished_columns at keep"
| "on_run_event row (RunExpired at keep) = CState Expired # finished_columns at keep"
| "on_run_event row (RunRescheduled start ttl deadline at by) =
     [CStartAt (Some start), CTtlAt ttl, CDeadlineAt deadline]"

fun run_reducers :: "run_event \<Rightarrow> (run_row, run_column) reducers option" where
  "run_reducers (RunStarted d) = Some \<lparr>on_create = Some (create_run d), on_row = None\<rparr>"
| "run_reducers e = Some \<lparr>on_create = None, on_row = Some (\<lambda>row. Some (on_run_event row e))\<rparr>"

definition run_entity :: "(run_event, run_row, run_column) entity_def" where
  "run_entity =
     \<lparr>ent_reducers = run_reducers, ent_put = put_column, ent_column = column_name,
      ent_blank = blank_row, ent_identify = (\<lambda>i v r. r\<lparr>r_id := i, r_version := v\<rparr>), ent_version = r_version\<rparr>"

interpretation run: identified_rows run_entity
proof unfold_locales
  fix c i v s
  show "ent_put run_entity c (ent_identify run_entity i v s) = ent_identify run_entity i v (ent_put run_entity c s)"
    by (cases c) (simp_all add: run_entity_def)
qed (simp_all add: run_entity_def)

section \<open>What the reducers do to a row\<close>

text \<open>One event on a row, its version moved on with it.\<close>

definition run_after :: "run_row \<Rightarrow> run_event \<Rightarrow> run_row" where
  "run_after row e = fold put_column (on_run_event row e) row"

definition starts_run :: "run_event \<Rightarrow> bool" where
  "starts_run e \<longleftrightarrow> (case e of RunStarted d \<Rightarrow> True | _ \<Rightarrow> False)"

lemma run_reducers_on:
  "\<not> starts_run e \<Longrightarrow> run_reducers e = Some \<lparr>on_create = None, on_row = Some (\<lambda>row. Some (on_run_event row e))\<rparr>"
  by (cases e) (auto simp: starts_run_def)

text \<open>The reducers read neither the id nor the version.\<close>

lemma on_run_event_identified: "on_run_event (r\<lparr>r_id := i, r_version := v\<rparr>) e = on_run_event r e"
  by (cases e) (simp_all add: on_node_scheduled_def on_node_completed_def on_node_skipped_def)

lemma fold_events_run:
  assumes "\<forall>e \<in> set es. \<not> starts_run e"
  shows "\<exists>cols'. fold_events run_entity mode i (numbered base es) (Some row) deleted cols =
    Inr (Some (foldl run_after row es), deleted, cols')"
  using assms
proof (induction es arbitrary: row base cols)
  case Nil
  then show ?case by simp
next
  case (Cons e es)
  then have e: "run_reducers e = Some \<lparr>on_create = None, on_row = Some (\<lambda>row. Some (on_run_event row e))\<rparr>"
    using run_reducers_on by simp
  then show ?case using Cons.IH [where row = "run_after row e" and base = "base + 1"] Cons.prems
    by (simp add: run_entity_def reduce_one_def on_run_event_identified put_all_def columns_of_def
        run_after_def)
qed

end
