(* ===== verification/JournalSteps.thy ===== *)
theory JournalSteps
  imports JournalRun
begin

text \<open>
  The step projection of \<open>packages/journal/src/workflow/machine.ts\<close>: the rows of
  \<open>workflow_steps\<close> of one run, by path and phase, kept equal to what the events say. The lemmas say
  what a row's status tells of its other columns, and that only an event of the step changes it.
\<close>

record step_row =
  s_status :: step_status
  s_attempt :: nat
  s_key :: "string option"
  s_job_id :: "string option"
  s_result :: "json option"
  s_error :: "string option"
  s_reason :: "string option"
  s_started_at :: "time option"
  s_finished_at :: "time option"

type_synonym step_table = "(string \<times> step_phase) \<rightharpoonup> step_row"

text \<open>A row as an insert makes it: the columns it does not name hold their defaults.\<close>

definition new_step :: "step_status \<Rightarrow> step_row" where
  "new_step status =
     \<lparr>s_status = status, s_attempt = 0, s_key = None, s_job_id = None, s_result = None, s_error = None,
      s_reason = None, s_started_at = None, s_finished_at = None\<rparr>"

text \<open>\<open>INSERT \<dots> ON CONFLICT DO UPDATE\<close> on the primary key.\<close>

definition upsert :: "string \<times> step_phase \<Rightarrow> step_row \<Rightarrow> (step_row \<Rightarrow> step_row) \<Rightarrow> step_table \<Rightarrow> step_table" where
  "upsert k fresh changed t = t(k \<mapsto> (case t k of None \<Rightarrow> fresh | Some r \<Rightarrow> changed r))"

definition project_scheduled :: "node_scheduled \<Rightarrow> step_table \<Rightarrow> step_table" where
  "project_scheduled d =
     upsert (sch_path d, sch_phase d)
       ((new_step Scheduled)\<lparr>s_attempt := sch_attempt d, s_key := Some (sch_key d), s_job_id := sch_job_id d,
          s_started_at := Some (sch_at d)\<rparr>)
       (\<lambda>r. r\<lparr>s_status := Scheduled, s_attempt := sch_attempt d, s_key := Some (sch_key d),
          s_job_id := sch_job_id d, s_error := None, s_reason := None, s_finished_at := None\<rparr>)"

definition project_completed :: "node_completed \<Rightarrow> step_table \<Rightarrow> step_table" where
  "project_completed d =
     upsert (cpl_path d, cpl_phase d)
       ((new_step StepDone)\<lparr>s_result := Some (cpl_result d), s_finished_at := Some (cpl_at d)\<rparr>)
       (\<lambda>r. r\<lparr>s_status := StepDone, s_result := Some (cpl_result d), s_error := None,
          s_finished_at := Some (cpl_at d)\<rparr>)"

definition project_skipped :: "node_skipped \<Rightarrow> step_table \<Rightarrow> step_table" where
  "project_skipped d =
     upsert (skp_path d, skp_phase d)
       ((new_step StepSkipped)\<lparr>s_reason := Some (skp_reason d), s_finished_at := Some (skp_at d)\<rparr>)
       (\<lambda>r. r\<lparr>s_status := StepSkipped, s_reason := Some (skp_reason d), s_error := None,
          s_finished_at := Some (skp_at d)\<rparr>)"

definition project_planned :: "children_planned \<Rightarrow> step_table \<Rightarrow> step_table" where
  "project_planned d t =
     (case t (pln_path d, Do) of
        Some r \<Rightarrow>
          if s_status r = StepFailed
          then t((pln_path d, Do) \<mapsto> r\<lparr>s_status := Scheduled, s_error := None, s_finished_at := None\<rparr>)
          else t
      | None \<Rightarrow> t)"

definition project_failed :: "node_failed \<Rightarrow> step_table \<Rightarrow> step_table" where
  "project_failed d =
     upsert (fld_path d, fld_phase d)
       ((new_step StepFailed)\<lparr>s_attempt := fld_attempt d, s_error := Some (fld_error d),
          s_finished_at := Some (fld_at d)\<rparr>)
       (\<lambda>r. r\<lparr>s_status := StepFailed, s_attempt := fld_attempt d, s_error := Some (fld_error d),
          s_finished_at := Some (fld_at d)\<rparr>)"

fun project_step :: "run_event \<Rightarrow> step_table \<Rightarrow> step_table" where
  "project_step (NodeScheduled d) = project_scheduled d"
| "project_step (NodeCompleted d) = project_completed d"
| "project_step (NodeSkipped d) = project_skipped d"
| "project_step (ChildrenPlanned d) = project_planned d"
| "project_step (NodeFailed d) = project_failed d"
| "project_step _ = id"

definition project_steps :: "run_event list \<Rightarrow> step_table \<Rightarrow> step_table" where
  "project_steps es t = fold project_step es t"

section \<open>What a row's status tells\<close>

text \<open>A step is failed exactly when it has an error, and finished exactly when it is not scheduled.\<close>

definition step_ok :: "step_row \<Rightarrow> bool" where
  "step_ok r \<longleftrightarrow>
     (s_status r = StepFailed \<longleftrightarrow> s_error r \<noteq> None) \<and>
     (s_status r = Scheduled \<longleftrightarrow> s_finished_at r = None) \<and>
     (s_status r = StepSkipped \<longrightarrow> s_reason r \<noteq> None) \<and>
     (s_status r = StepDone \<longrightarrow> s_result r \<noteq> None)"

definition steps_ok :: "step_table \<Rightarrow> bool" where
  "steps_ok t \<longleftrightarrow> (\<forall>k r. t k = Some r \<longrightarrow> step_ok r)"

lemmas step_defs = project_scheduled_def project_completed_def project_skipped_def project_planned_def
  project_failed_def upsert_def new_step_def

lemma steps_ok_project: "steps_ok t \<Longrightarrow> steps_ok (project_step e t)"
  by (cases e) (auto simp: steps_ok_def step_ok_def step_defs split: option.splits if_splits)

lemma steps_ok_projected: "steps_ok t \<Longrightarrow> steps_ok (project_steps es t)"
  by (induction es arbitrary: t) (simp_all add: project_steps_def steps_ok_project)

text \<open>The step an event is about, if any.\<close>

fun step_of :: "run_event \<Rightarrow> (string \<times> step_phase) option" where
  "step_of (NodeScheduled d) = Some (sch_path d, sch_phase d)"
| "step_of (NodeCompleted d) = Some (cpl_path d, cpl_phase d)"
| "step_of (NodeSkipped d) = Some (skp_path d, skp_phase d)"
| "step_of (ChildrenPlanned d) = Some (pln_path d, Do)"
| "step_of (NodeFailed d) = Some (fld_path d, fld_phase d)"
| "step_of _ = None"

lemma project_other: "step_of e \<noteq> Some k \<Longrightarrow> project_step e t k = t k"
  by (cases e) (auto simp: step_defs split: option.splits)

lemma project_none: "step_of e = None \<Longrightarrow> project_step e t = t"
  by (cases e) auto

text \<open>The status an event gives its step (a plan changes that of a failed one only).\<close>

fun status_after :: "run_event \<Rightarrow> step_status option \<Rightarrow> step_status option" where
  "status_after (NodeScheduled d) st = Some Scheduled"
| "status_after (NodeCompleted d) st = Some StepDone"
| "status_after (NodeSkipped d) st = Some StepSkipped"
| "status_after (ChildrenPlanned d) st = (if st = Some StepFailed then Some Scheduled else st)"
| "status_after (NodeFailed d) st = Some StepFailed"
| "status_after _ st = st"

definition status_of :: "step_table \<Rightarrow> string \<times> step_phase \<Rightarrow> step_status option" where
  "status_of t k = map_option s_status (t k)"

lemma status_project:
  "status_of (project_step e t) k = (if step_of e = Some k then status_after e (status_of t k) else status_of t k)"
  by (cases e) (auto simp: status_of_def step_defs split: option.splits)

text \<open>Once a step was scheduled, the row keeps the time of its first schedule.\<close>

lemma started_kept:
  "\<lbrakk>t k = Some r; s_started_at r = Some at\<rbrakk> \<Longrightarrow> \<exists>r'. project_step e t k = Some r' \<and> s_started_at r' = Some at"
  by (cases e) (auto simp: step_defs split: option.splits)

end
