(* ===== verification/JournalSaga.thy ===== *)
theory JournalSaga
  imports JournalSteps
begin

text \<open>
  Compensation, the saga of \<open>packages/journal/src/workflow/runner.ts\<close>: which completed steps are
  still to undo, one step of compensation, the drop of the node a run is on, and the start of
  compensation. What the database answers about the run (its events, its steps) is the state;
  what it answers about other runs and jobs, and the clock, are arguments (\<open>run_env\<close>).
\<close>

section \<open>Workflow definitions\<close>

datatype on_timeout = FailOnTimeout | ContinueOnTimeout
datatype on_dead_step = DeadWaits | DeadCompensates

text \<open>Where \<open>next\<close> routes: a name, or what the app's function picks from the run's id, input and results.\<close>

datatype next_rule = NextName string | NextFn "string \<Rightarrow> json \<Rightarrow> results \<Rightarrow> string"

text \<open>
  A node with what the runner reads of it: for a step whether \<open>options.undo\<close> is there and the
  codes of the failures it keeps under \<open>onFailure: 'continue'\<close>, for a command whether it has an
  undo and the codes it accepts, for a \<open>waitFor\<close> its signal, what a timeout does and its schema.
\<close>

datatype wf_node =
    StepNode (wn_name: string) bool "string list"
  | WaitForNode (wn_name: string) string on_timeout "json \<Rightarrow> string + json"
  | EventWaitNode (wn_name: string) on_timeout
  | SleepNode (wn_name: string) "next_rule option"
  | ChildNode (wn_name: string) bool on_cancel
  | MapNode (wn_name: string) join_kind "nat option"
  | ParallelNode (wn_name: string) join_kind
  | CommandNode (wn_name: string) bool "string list"

text \<open>
  \<open>wd_refuses\<close> is the text of the refusal of \<open>storable\<close> under the payload limit, \<open>wd_finish\<close> and
  \<open>wd_output\<close> are the app's \<open>finish\<close> and output schema with their failures as texts.
\<close>

record workflow_def =
  wd_name :: string
  wd_version :: nat
  wd_shape_hash :: string
  wd_on_dead_step :: on_dead_step
  wd_retention :: run_retention
  wd_transitions :: nat
  wd_nodes :: "wf_node list"
  wd_refuses :: "json \<Rightarrow> string option"
  wd_finish :: "(string \<Rightarrow> json \<Rightarrow> results \<Rightarrow> string + json) option"
  wd_output :: "(json \<Rightarrow> string + json) option"

definition node_named :: "workflow_def \<Rightarrow> string \<Rightarrow> wf_node option" where
  "node_named def path = find (\<lambda>n. wn_name n = path) (wd_nodes def)"

text \<open>A child run as \<open>kidsOf\<close> reads it.\<close>

record kid =
  kd_id :: string
  kd_state :: run_state
  kd_parent_path :: "string option"
  kd_finished_at :: "time option"

text \<open>
  What the jobs table says of the job of the current step: a worker tried it before, the cancel
  took it (nobody had it), a worker holds it, or the cancel failed. \<open>en_dead_jobs\<close> are the dead
  jobs of the run with the node each belongs to, \<open>en_job_id\<close> names the job an event makes by the
  event's place in the log, \<open>en_metadata_fits\<close> says which metadata has a JSON form within its limit.
\<close>

datatype job_fate = JobTried | JobTaken | JobHeld | JobCancelFails

record run_env =
  en_now :: time
  en_kids :: "kid list"
  en_job :: job_fate
  en_job_id :: "nat \<Rightarrow> string"
  en_dead_jobs :: "(string \<times> string option) list"
  en_metadata_fits :: "metadata \<Rightarrow> bool"
  en_policy :: run_policy

datatype run_error =
    CommandNotFound
  | CommandConflict
  | CommandInvalid
  | WorkflowNotFound
  | WorkflowFinished
  | WorkflowUnknown
  | WorkflowShapeChanged
  | WorkflowCompensating
  | BadDefinition
  | BadArgument
  | StepNotDead
  | StepNotResolvable
  | WorkflowLimit
  | JobCancelFailed
  | FoldFailed fold_error

definition keep_until_for :: "run_env \<Rightarrow> workflow_def \<Rightarrow> run_end \<Rightarrow> time option" where
  "keep_until_for E def outcome =
     run_keep_until (run_keep_for (en_policy E) (wd_retention def) outcome) (en_now E)"

definition run_failed :: "run_env \<Rightarrow> workflow_def \<Rightarrow> string \<Rightarrow> time \<Rightarrow> run_event" where
  "run_failed E def error at = RunFailed error at (keep_until_for E def EndFailed)"

section \<open>Small parts\<close>

fun kept_failures_of :: "wf_node \<Rightarrow> string list" where
  "kept_failures_of (StepNode name undo failures) = failures"
| "kept_failures_of (CommandNode name undo accepted) = accepted"
| "kept_failures_of _ = []"

text \<open>The strict object with the one key \<open>~refused\<close>, whose value is an object with a non-empty code.\<close>

definition REFUSED :: string where
  "REFUSED = ''~refused''"

definition is_refused :: "json \<Rightarrow> bool" where
  "is_refused v =
     (case v of
        JObject [(k, JObject kvs)] \<Rightarrow>
          k = REFUSED \<and> (case map_of kvs ''code'' of Some (JText c) \<Rightarrow> c \<noteq> '''' | _ \<Rightarrow> False)
      | _ \<Rightarrow> False)"

definition count_text :: "nat \<Rightarrow> string" where
  "count_text n = map (\<lambda>d. char_of (48 + d)) (dec_digits n)"

definition child_base :: "string \<Rightarrow> nat \<Rightarrow> string" where
  "child_base path visit = (if visit = 1 then path else path @ '':'' @ count_text visit)"

definition is_digit_char :: "char \<Rightarrow> bool" where
  "is_digit_char c \<longleftrightarrow> 48 \<le> (of_char c :: nat) \<and> (of_char c :: nat) \<le> 57"

text \<open>The group of the pattern \<open>^(.*):\d+$\<close>: the part before the last colon, when only digits follow it.\<close>

definition looped_base :: "string \<Rightarrow> string option" where
  "looped_base base =
     (let digits = takeWhile is_digit_char (rev base)
      in case dropWhile is_digit_char (rev base) of
           CHR '':'' # stem \<Rightarrow>
             if digits \<noteq> [] \<and> CHR 0x0A \<notin> set stem \<and> CHR 0x0D \<notin> set stem then Some (rev stem) else None
         | _ \<Rightarrow> None)"

definition node_of_base :: "workflow_def \<Rightarrow> string \<Rightarrow> wf_node option" where
  "node_of_base def base =
     (case node_named def base of
        Some n \<Rightarrow> Some n
      | None \<Rightarrow> Option.bind (looped_base base) (node_named def))"

fun is_fan_node :: "wf_node \<Rightarrow> bool" where
  "is_fan_node (ChildNode n undo c) = True"
| "is_fan_node (MapNode n w c) = True"
| "is_fan_node (ParallelNode n w) = True"
| "is_fan_node _ = False"

fun is_detached :: "wf_node option \<Rightarrow> bool" where
  "is_detached (Some (ChildNode n undo c)) = (c = DetachChild)"
| "is_detached _ = False"

definition waited_for :: "workflow_def \<Rightarrow> kid \<Rightarrow> bool" where
  "waited_for def k \<longleftrightarrow>
     kd_finished_at k = None \<and>
     \<not> is_detached (node_of_base def (case kd_parent_path k of None \<Rightarrow> '''' | Some p \<Rightarrow> p))"

section \<open>What is left to undo\<close>

record undo_item =
  ui_path :: string
  ui_visit :: nat
  ui_result :: json

fun undoable_kind :: "wf_node \<Rightarrow> bool" where
  "undoable_kind (StepNode n u f) = True"
| "undoable_kind (ChildNode n u c) = True"
| "undoable_kind (MapNode n w c) = True"
| "undoable_kind (ParallelNode n w) = True"
| "undoable_kind (CommandNode n u a) = True"
| "undoable_kind _ = False"

definition is_undoable :: "workflow_def \<Rightarrow> string \<Rightarrow> bool" where
  "is_undoable def path \<longleftrightarrow> (\<exists>n \<in> set (wd_nodes def). wn_name n = path \<and> undoable_kind n)"

text \<open>The state of the scan: the visits seen of each path, the completed items, the undos settled.\<close>

type_synonym undo_scan = "(string \<Rightarrow> nat) \<times> undo_item list \<times> nat"

definition see :: "workflow_def \<Rightarrow> string \<Rightarrow> bool \<Rightarrow> json \<Rightarrow> undo_scan \<Rightarrow> undo_scan" where
  "see def path completed result scan =
     (case scan of (visits, finished, undone) \<Rightarrow>
        let visit = visits path + 1
        in (visits(path := visit),
            if completed \<and> is_undoable def path
            then finished @ [\<lparr>ui_path = path, ui_visit = visit, ui_result = result\<rparr>] else finished,
            undone))"

fun see_event :: "workflow_def \<Rightarrow> run_event \<Rightarrow> undo_scan \<Rightarrow> undo_scan" where
  "see_event def (NodeCompleted d) scan =
     (if cpl_phase d = Undo then (case scan of (v, f, u) \<Rightarrow> (v, f, u + 1))
      else see def (cpl_path d) True (cpl_result d) scan)"
| "see_event def (NodeSkipped d) scan =
     (if skp_phase d = Undo then (case scan of (v, f, u) \<Rightarrow> (v, f, u + 1))
      else see def (skp_path d) False JNull scan)"
| "see_event def e scan = scan"

fun is_settled_event :: "run_event \<Rightarrow> bool" where
  "is_settled_event (NodeCompleted d) = True"
| "is_settled_event (NodeSkipped d) = True"
| "is_settled_event _ = False"

text \<open>The events \<open>settledOf\<close> selects, oldest first.\<close>

definition settled_of :: "run_event list \<Rightarrow> run_event list" where
  "settled_of log = filter is_settled_event log"

definition remaining_undos ::
  "workflow_def \<Rightarrow> run_event list \<Rightarrow> (string \<times> json) option \<Rightarrow> nat \<Rightarrow> undo_item list" where
  "remaining_undos def settled done_now undone_now =
     (let scan = fold (see_event def) settled (\<lambda>p. 0, [], undone_now);
          scan' = (case done_now of None \<Rightarrow> scan | Some (path, result) \<Rightarrow> see def path True result scan)
      in case scan' of (visits, finished, undone) \<Rightarrow> rev (take (length finished - undone) finished))"

section \<open>One step of compensation\<close>

record compensate_options =
  co_cause :: "string option"
  co_cancelling :: bool
  co_done_now :: "(string \<times> json) option"
  co_undone_now :: nat

definition caused_by :: "string option \<Rightarrow> compensate_options" where
  "caused_by cause = \<lparr>co_cause = cause, co_cancelling = False, co_done_now = None, co_undone_now = 0\<rparr>"

fun is_cause :: "run_event \<Rightarrow> bool" where
  "is_cause (DeadlineReached at) = True"
| "is_cause (NodeFailed d) = (fld_phase d = Do)"
| "is_cause _ = False"

definition cause_of :: "run_event list \<Rightarrow> string" where
  "cause_of log =
     (case find is_cause (rev log) of
        Some (NodeFailed d) \<Rightarrow> fld_error d
      | Some e \<Rightarrow> ''the run deadline passed before it finished''
      | None \<Rightarrow> ''the run failed'')"

definition undo_key :: "string \<Rightarrow> undo_item \<Rightarrow> string" where
  "undo_key run_id item =
     run_id @ '':'' @ ui_path item @ '':undo'' @ (if ui_visit item = 1 then '''' else '':'' @ count_text (ui_visit item))"

text \<open>What compensation does with one item: record that there is nothing to undo, schedule its undo, settle it, or wait.\<close>

datatype undo_move = SkipIt node_skipped | ScheduleIt node_scheduled | SettleIt node_completed | AwaitKids

definition skip_undo_event :: "string \<Rightarrow> skip_cause \<Rightarrow> string \<Rightarrow> time \<Rightarrow> node_skipped" where
  "skip_undo_event path cause reason at =
     \<lparr>skp_path = path, skp_phase = Undo, skp_cause = cause, skp_reason = reason, skp_actor = None,
      skp_at = at, skp_execution = None\<rparr>"

fun has_undo :: "wf_node option \<Rightarrow> bool" where
  "has_undo (Some (StepNode n undo f)) = undo"
| "has_undo (Some (ChildNode n undo c)) = undo"
| "has_undo (Some (CommandNode n undo a)) = undo"
| "has_undo _ = False"

definition undo_item_move :: "workflow_def \<Rightarrow> run_row \<Rightarrow> kid list \<Rightarrow> time \<Rightarrow> undo_item \<Rightarrow> undo_move" where
  "undo_item_move def row kids at item =
     (let n = node_named def (ui_path item)
      in if (case n of None \<Rightarrow> False | Some n' \<Rightarrow> kept_failures_of n' \<noteq> []) \<and> is_refused (ui_result item)
         then SkipIt (skip_undo_event (ui_path item) NoUndo ''the command was refused, so it did nothing to undo'' at)
         else if has_undo n
         then ScheduleIt
           \<lparr>sch_path = ui_path item, sch_phase = Undo, sch_attempt = 1, sch_key = undo_key (r_id row) item,
            sch_job_id = None, sch_at = at, sch_resolution = None, sch_priority = r_priority row, sch_by = nobody\<rparr>
         else if (case n of None \<Rightarrow> False | Some n' \<Rightarrow> is_fan_node n')
         then (if is_detached n
               then SkipIt (skip_undo_event (ui_path item) Detached ''the child was detached, so it is left running'' at)
               else if \<exists>k \<in> set kids. kd_parent_path k = Some (child_base (ui_path item) (ui_visit item)) \<and> kd_state k = Completed
               then AwaitKids
               else SettleIt
                 \<lparr>cpl_path = ui_path item, cpl_phase = Undo, cpl_result = JNull, cpl_resolved_by = None,
                  cpl_at = at, cpl_reason = None, cpl_execution = None\<rparr>)
         else SkipIt (skip_undo_event (ui_path item) NoUndo ''the step declares no undo'' at))"

text \<open>The loop over the items: its events, and whether it got to the end.\<close>

fun undo_loop :: "workflow_def \<Rightarrow> run_row \<Rightarrow> kid list \<Rightarrow> time \<Rightarrow> undo_item list \<Rightarrow> run_event list \<times> bool" where
  "undo_loop def row kids at [] = ([], True)"
| "undo_loop def row kids at (item # items) =
     (case undo_item_move def row kids at item of
        SkipIt d \<Rightarrow> (case undo_loop def row kids at items of (es, over) \<Rightarrow> (NodeSkipped d # es, over))
      | SettleIt d \<Rightarrow> (case undo_loop def row kids at items of (es, over) \<Rightarrow> (NodeCompleted d # es, over))
      | ScheduleIt d \<Rightarrow> ([NodeScheduled d], False)
      | AwaitKids \<Rightarrow> ([], False))"

definition compensate ::
  "run_env \<Rightarrow> workflow_def \<Rightarrow> run_row \<Rightarrow> run_event list \<Rightarrow> time \<Rightarrow> compensate_options \<Rightarrow> run_event list" where
  "compensate E def row log at opts =
     (if \<exists>k \<in> set (en_kids E). waited_for def k then []
      else case undo_loop def row (en_kids E) at
                  (remaining_undos def (settled_of log) (co_done_now opts) (co_undone_now opts)) of
        (out, over) \<Rightarrow>
          if \<not> over then out
          else if r_cancelled_at row \<noteq> None \<or> co_cancelling opts
          then out @ [RunCancelled at (keep_until_for E def EndCancelled)]
          else out @ [run_failed E def (case co_cause opts of Some c \<Rightarrow> c | None \<Rightarrow> cause_of log) at])"

section \<open>The start of compensation\<close>

definition COMPENSATING :: string where
  "COMPENSATING = ''the run began compensating''"

definition dropped_node :: "string \<Rightarrow> time \<Rightarrow> run_event" where
  "dropped_node path at =
     NodeSkipped \<lparr>skp_path = path, skp_phase = Do, skp_cause = WhileCompensating, skp_reason = COMPENSATING,
       skp_actor = None, skp_at = at, skp_execution = None\<rparr>"

text \<open>The events that drop the node the run is on, and whether that node is still in flight.\<close>

definition drop_current_node ::
  "run_env \<Rightarrow> run_row \<Rightarrow> step_table \<Rightarrow> time \<Rightarrow> run_error + (run_event list \<times> bool)" where
  "drop_current_node E row steps at =
     (case r_node row of
        None \<Rightarrow> Inr ([], False)
      | Some path \<Rightarrow>
          (case steps (path, Do) of
             None \<Rightarrow> Inr ([], False)
           | Some step \<Rightarrow>
               if s_status step \<noteq> Scheduled then Inr ([], False)
               else if r_state row = AtPark then Inr ([dropped_node path at], False)
               else if s_job_id step = None then Inr ([], True)
               else if s_attempt step > 1 \<or> en_job E = JobTried then Inr ([], True)
               else (case en_job E of
                       JobCancelFails \<Rightarrow> Inl JobCancelFailed
                     | JobHeld \<Rightarrow> Inr ([], True)
                     | _ \<Rightarrow> Inr ([dropped_node path at], False))))"

record begin_options =
  bo_closed :: bool
  bo_cause :: "string option"
  bo_cancelling :: bool

definition begin_compensation ::
  "run_env \<Rightarrow> workflow_def \<Rightarrow> run_row \<Rightarrow> run_event list \<Rightarrow> step_table \<Rightarrow> time \<Rightarrow> run_event list \<Rightarrow> begin_options \<Rightarrow>
     run_error + run_event list" where
  "begin_compensation E def row log steps at head opts =
     (let first_undo = compensate E def row log at
            \<lparr>co_cause = bo_cause opts, co_cancelling = bo_cancelling opts, co_done_now = None, co_undone_now = 0\<rparr>
      in if r_state row = Queued then Inr (head @ first_undo)
         else rbind (if bo_closed opts then Inr ([], False) else drop_current_node E row steps at)
                (\<lambda>(dropped, in_flight).
                   Inr (head @ [CompensationStarted at] @ dropped @ (if in_flight then [] else first_undo))))"

definition deadline_events ::
  "run_env \<Rightarrow> workflow_def \<Rightarrow> run_row \<Rightarrow> run_event list \<Rightarrow> step_table \<Rightarrow> time \<Rightarrow> run_error + run_event list" where
  "deadline_events E def row log steps at =
     begin_compensation E def row log steps at [DeadlineReached at]
       \<lparr>bo_closed = False, bo_cause = Some ''the run deadline passed before it finished'', bo_cancelling = False\<rparr>"

end
