(* ===== verification/JournalRunner.thy ===== *)
theory JournalRunner
  imports JournalSaga
begin

text \<open>
  How one run moves, \<open>packages/journal/src/workflow/runner.ts\<close>: the checkpoint of a node attempt,
  timers, signals, cancel and the operator's verbs, each one write to the run. A decision reads
  the stored run and gives the events of the write or the error that refuses it; the write folds
  them into the row, projects them to the steps and appends them to the log (\<open>write.ts\<close>).
\<close>

section \<open>The stored run\<close>

text \<open>A stored signal, by arrival: its id, name, delivery, payload and the wait that took it.\<close>

record stored_signal =
  sg_name :: string
  sg_delivery :: string
  sg_payload :: json
  sg_consumed_by :: "string option"

record stored_run =
  sr_id :: string
  sr_log :: "run_event list"
  sr_row :: "run_row option"
  sr_steps :: step_table
  sr_signals :: "stored_signal list"

definition nothing_stored :: "string \<Rightarrow> stored_run" where
  "nothing_stored i = \<lparr>sr_id = i, sr_log = [], sr_row = None, sr_steps = Map.empty, sr_signals = []\<rparr>"

text \<open>The code of a run, and the registry it is looked up in by \<open>name@version\<close>.\<close>

type_synonym registry = "string \<rightharpoonup> workflow_def"

definition code_name :: "string \<Rightarrow> nat \<Rightarrow> string" where
  "code_name name version = name @ ''@'' @ count_text version"

definition code_of :: "registry \<Rightarrow> run_row \<Rightarrow> run_error + workflow_def" where
  "code_of reg row =
     (case reg (code_name (r_name row) (r_workflow_version row)) of
        None \<Rightarrow> Inl WorkflowUnknown
      | Some def \<Rightarrow> if wd_shape_hash def \<noteq> r_shape_hash row then Inl WorkflowShapeChanged else Inr def)"

section \<open>The write\<close>

text \<open>
  A decision: the events of the write and the signals after it. \<open>link_jobs\<close> gives each step
  scheduled by the write the job its event made, named by the event's place in the log.
\<close>

type_synonym decision = "run_error + (run_event list \<times> stored_signal list)"

fun link_jobs :: "(nat \<Rightarrow> string) \<Rightarrow> nat \<Rightarrow> run_event list \<Rightarrow> step_table \<Rightarrow> step_table" where
  "link_jobs job_id seq [] t = t"
| "link_jobs job_id seq (e # es) t =
     (case e of
        NodeScheduled d \<Rightarrow>
          link_jobs job_id (seq + 1) es
            (t((sch_path d, sch_phase d) := map_option (\<lambda>r. r\<lparr>s_job_id := Some (job_id seq)\<rparr>) (t (sch_path d, sch_phase d))))
      | _ \<Rightarrow> link_jobs job_id (seq + 1) es t)"

definition write_run :: "run_env \<Rightarrow> (stored_run \<Rightarrow> decision) \<Rightarrow> stored_run \<Rightarrow> (run_error + run_event list) \<times> stored_run" where
  "write_run E decide s =
     (case decide s of
        Inl err \<Rightarrow> (Inl err, s)
      | Inr (es, signals) \<Rightarrow>
          if es = [] then (Inr [], s\<lparr>sr_signals := signals\<rparr>)
          else (case fold_row run_entity (sr_row s) (sr_id s) (numbered (length (sr_log s)) es) WriteMode of
                  Inl err \<Rightarrow> (Inl (FoldFailed err), s)
                | Inr (row, recreated, cols) \<Rightarrow>
                    (Inr es,
                     s\<lparr>sr_log := sr_log s @ es, sr_row := row,
                       sr_steps := link_jobs (en_job_id E) (length (sr_log s)) es (project_steps es (sr_steps s)),
                       sr_signals := signals\<rparr>)))"

section \<open>Where a run goes\<close>

datatype route = GoNode string | GoFinish json "time option"

definition visit_of :: "run_event list \<Rightarrow> string \<Rightarrow> nat" where
  "visit_of log path =
     length (filter (\<lambda>e. is_settled_event e \<and> step_of e = Some (path, Do)) log) + 1"

definition key_of_next_visit :: "run_event list \<Rightarrow> string \<Rightarrow> string \<Rightarrow> string" where
  "key_of_next_visit log run_id path =
     (let visit = visit_of log path
      in run_id @ '':'' @ path @ '':do'' @ (if visit = 1 then '''' else '':'' @ count_text visit))"

definition first_key_of :: "string \<Rightarrow> string \<Rightarrow> string" where
  "first_key_of run_id path = run_id @ '':'' @ path @ '':do''"

definition schedule :: "string \<Rightarrow> step_phase \<Rightarrow> nat \<Rightarrow> string \<Rightarrow> time \<Rightarrow> run_row \<Rightarrow> node_scheduled" where
  "schedule path ph attempt key at row =
     \<lparr>sch_path = path, sch_phase = ph, sch_attempt = attempt, sch_key = key, sch_job_id = None, sch_at = at,
      sch_resolution = None, sch_priority = r_priority row, sch_by = nobody\<rparr>"

definition events_after :: "run_event list \<Rightarrow> run_row \<Rightarrow> route \<Rightarrow> time \<Rightarrow> run_event list" where
  "events_after log row route at =
     (case route of
        GoNode name \<Rightarrow> [NodeScheduled (schedule name Do 1 (key_of_next_visit log (r_id row) name) at row)]
      | GoFinish output keep \<Rightarrow> [RunCompleted output at keep])"

fun index_of_node :: "wf_node list \<Rightarrow> string \<Rightarrow> nat option" where
  "index_of_node [] path = None"
| "index_of_node (n # ns) path = (if wn_name n = path then Some 0 else map_option Suc (index_of_node ns path))"

definition jump_target :: "workflow_def \<Rightarrow> nat \<Rightarrow> string \<Rightarrow> string + nat" where
  "jump_target def index target =
     (if target = ''next'' then Inr (index + 1)
      else case index_of_node (wd_nodes def) target of
        Some i \<Rightarrow> if i \<ge> index then Inl ''not an earlier node'' else Inr i
      | None \<Rightarrow> Inl ''not an earlier node'')"

definition route_at :: "run_env \<Rightarrow> workflow_def \<Rightarrow> nat \<Rightarrow> run_row \<Rightarrow> string \<Rightarrow> json \<Rightarrow> string + route" where
  "route_at E def target row last_path last_result =
     (if target < length (wd_nodes def) then Inr (GoNode (wn_name (wd_nodes def ! target)))
      else rbind (case wd_finish def of
                    None \<Rightarrow> Inr last_result
                  | Some finish \<Rightarrow> finish (r_id row) (r_input row) (AList.update last_path last_result (r_results row)))
             (\<lambda>produced. rbind (case wd_output def of None \<Rightarrow> Inr produced | Some parse \<Rightarrow> parse produced)
                (\<lambda>parsed. case wd_refuses def parsed of
                    Some why \<Rightarrow> Inl why
                  | None \<Rightarrow> Inr (GoFinish parsed (keep_until_for E def EndCompleted)))))"

definition index_after_wait :: "workflow_def \<Rightarrow> nat \<Rightarrow> run_row \<Rightarrow> json \<Rightarrow> string + nat" where
  "index_after_wait def index row result =
     (if index < length (wd_nodes def)
      then (case wd_nodes def ! index of
              SleepNode name (Some (NextName target)) \<Rightarrow> jump_target def index target
            | SleepNode name (Some (NextFn pick)) \<Rightarrow>
                jump_target def index (pick (r_id row) (r_input row) (AList.update name result (r_results row)))
            | _ \<Rightarrow> Inr (index + 1))
      else Inr (index + 1))"

section \<open>Waits\<close>

definition past_deadline :: "run_env \<Rightarrow> run_row \<Rightarrow> bool" where
  "past_deadline E row \<longleftrightarrow> (case r_deadline_at row of None \<Rightarrow> False | Some d \<Rightarrow> d \<le> en_now E)"

definition attempt_at :: "step_table \<Rightarrow> string \<Rightarrow> nat" where
  "attempt_at steps path = (case steps (path, Do) of None \<Rightarrow> 1 | Some r \<Rightarrow> max (s_attempt r) 1)"

definition failed_node :: "step_table \<Rightarrow> string \<Rightarrow> string \<Rightarrow> time \<Rightarrow> run_event" where
  "failed_node steps path error at =
     NodeFailed \<lparr>fld_path = path, fld_phase = Do, fld_attempt = attempt_at steps path, fld_error = error, fld_at = at\<rparr>"

definition closed_by :: "string \<Rightarrow> begin_options" where
  "closed_by error = \<lparr>bo_closed = True, bo_cause = Some error, bo_cancelling = False\<rparr>"

definition fail_wait ::
  "run_env \<Rightarrow> workflow_def \<Rightarrow> run_row \<Rightarrow> run_event list \<Rightarrow> step_table \<Rightarrow> string \<Rightarrow> string \<Rightarrow> time \<Rightarrow> run_error + run_event list" where
  "fail_wait E def row log steps path error at =
     begin_compensation E def row log steps at [failed_node steps path error at] (closed_by error)"

definition completed_do :: "string \<Rightarrow> json \<Rightarrow> time \<Rightarrow> run_event" where
  "completed_do path result at =
     NodeCompleted \<lparr>cpl_path = path, cpl_phase = Do, cpl_result = result, cpl_resolved_by = None, cpl_at = at,
       cpl_reason = None, cpl_execution = None\<rparr>"

definition complete_wait ::
  "run_env \<Rightarrow> workflow_def \<Rightarrow> nat \<Rightarrow> run_row \<Rightarrow> run_event list \<Rightarrow> step_table \<Rightarrow> json \<Rightarrow> time \<Rightarrow> run_error + run_event list" where
  "complete_wait E def index row log steps result at =
     (let path = (if index < length (wd_nodes def) then wn_name (wd_nodes def ! index) else '''');
          live = row\<lparr>r_results := AList.update path result (r_results row)\<rparr>
      in case rbind (index_after_wait def index live result) (\<lambda>target. route_at E def target live path result) of
           Inl why \<Rightarrow> fail_wait E def row log steps path why at
         | Inr route \<Rightarrow> Inr (completed_do path result at # events_after log row route at))"

text \<open>The oldest signal of a name nobody has taken, marked as taken by a wait.\<close>

fun take_signal :: "string \<Rightarrow> string \<Rightarrow> stored_signal list \<Rightarrow> (stored_signal \<times> stored_signal list) option" where
  "take_signal name path [] = None"
| "take_signal name path (g # gs) =
     (if sg_name g = name \<and> sg_consumed_by g = None
      then Some (g, g\<lparr>sg_consumed_by := Some path\<rparr> # gs)
      else map_option (\<lambda>(h, hs). (h, g # hs)) (take_signal name path gs))"

definition wake_on_signal ::
  "run_env \<Rightarrow> workflow_def \<Rightarrow> nat \<Rightarrow> run_row \<Rightarrow> run_event list \<Rightarrow> step_table \<Rightarrow> json \<Rightarrow> time \<Rightarrow> run_error + run_event list" where
  "wake_on_signal E def index row log steps payload at =
     (if index < length (wd_nodes def)
      then (case wd_nodes def ! index of
              WaitForNode name signal on_out parse \<Rightarrow>
                (case parse payload of
                   Inl why \<Rightarrow> fail_wait E def row log steps name why at
                 | Inr parsed \<Rightarrow>
                     (case wd_refuses def parsed of
                        Some why \<Rightarrow> fail_wait E def row log steps name why at
                      | None \<Rightarrow> complete_wait E def index row log steps parsed at))
            | _ \<Rightarrow> Inl BadDefinition)
      else Inl BadDefinition)"

section \<open>The checkpoint of a node attempt\<close>

text \<open>
  What an attempt reports. A park of an event wait brings what the log of the app's events holds
  for it: none, one that the run takes (its label, place, id and pointer), or a failure: it cannot
  be read, or as a body reads it does not fit the payload limit.
\<close>

datatype taken_event = NoEvent | TakenEvent string nat string json | EventFailure string

datatype outcome =
    Completes json route "operator_fields option"
  | Skips string route
  | Retries string string time
  | Dies string
  | Undone json
  | Parks "string option" "time option" taken_event
  | PlansChildren children_planned
  | Expires
  | Drops
  | PassesTransitionLimit string

definition EXPIRED :: string where
  "EXPIRED = ''the run expired before its first node started''"

definition not_started :: "run_row \<Rightarrow> bool" where
  "not_started row \<longleftrightarrow> r_finished_at row = None \<and> r_state row = Running \<and> r_results row = []"

definition expires_now :: "run_env \<Rightarrow> run_row \<Rightarrow> string \<Rightarrow> step_phase \<Rightarrow> nat \<Rightarrow> bool" where
  "expires_now E row path ph attempt \<longleftrightarrow>
     (case r_ttl_at row of
        None \<Rightarrow> False
      | Some ttl \<Rightarrow>
          not_started row \<and>
          (case shape_nodes (r_shape row) of [] \<Rightarrow> False | n # ns \<Rightarrow> path = sn_name n) \<and>
          ph = Do \<and> attempt = 1 \<and> ttl < en_now E)"

definition take_event ::
  "run_env \<Rightarrow> workflow_def \<Rightarrow> nat \<Rightarrow> run_row \<Rightarrow> run_event list \<Rightarrow> step_table \<Rightarrow>
     string \<Rightarrow> nat \<Rightarrow> string \<Rightarrow> json \<Rightarrow> time \<Rightarrow> run_error + run_event list" where
  "take_event E def index row log steps label seq delivery pointer at =
     (let path = (if index < length (wd_nodes def) then wn_name (wd_nodes def ! index) else '''')
      in rbind (complete_wait E def index row log steps pointer at)
           (\<lambda>completed. Inr (WaitEventTaken path label seq delivery at # completed)))"

fun is_wait_node :: "wf_node \<Rightarrow> bool" where
  "is_wait_node (WaitForNode n s t p) = True"
| "is_wait_node (EventWaitNode n t) = True"
| "is_wait_node (SleepNode n x) = True"
| "is_wait_node _ = False"

definition with_signals :: "stored_signal list \<Rightarrow> run_error + run_event list \<Rightarrow> decision" where
  "with_signals gs r = rbind r (\<lambda>es. Inr (es, gs))"

text \<open>The case \<open>park\<close>.\<close>

definition checkpoint_park ::
  "run_env \<Rightarrow> workflow_def \<Rightarrow> run_row \<Rightarrow> stored_run \<Rightarrow> string \<Rightarrow> string option \<Rightarrow> time option \<Rightarrow> taken_event \<Rightarrow> time \<Rightarrow> decision" where
  "checkpoint_park E def row s path waiting wake found at =
     (let log = sr_log s; steps = sr_steps s; keep = with_signals (sr_signals s);
          parked_event = Parked \<lparr>prk_node = path, prk_waiting_for = waiting, prk_wake_at = wake,
            prk_priority = r_priority row, prk_at = at\<rparr>
      in if r_state row = AtPark then Inr ([], sr_signals s)
         else case index_of_node (wd_nodes def) path of
           None \<Rightarrow> Inl BadDefinition
         | Some index \<Rightarrow>
             if \<not> is_wait_node (wd_nodes def ! index) then Inl BadDefinition
             else if r_state row = Compensating
             then keep (Inr (dropped_node path at # compensate E def row log at (caused_by None)))
             else if past_deadline E row
             then keep (begin_compensation E def row log steps at [DeadlineReached at, dropped_node path at]
                    (closed_by ''the run deadline passed before it finished''))
             else (case wd_nodes def ! index of
                     WaitForNode name signal on_out parse \<Rightarrow>
                       (case take_signal signal name (sr_signals s) of
                          Some (g, gs) \<Rightarrow> with_signals gs (wake_on_signal E def index row log steps (sg_payload g) at)
                        | None \<Rightarrow> keep (Inr [parked_event]))
                   | EventWaitNode name on_out \<Rightarrow>
                       keep (case found of
                               EventFailure why \<Rightarrow> fail_wait E def row log steps name why at
                             | TakenEvent label seq delivery pointer \<Rightarrow>
                                 take_event E def index row log steps label seq delivery pointer at
                             | NoEvent \<Rightarrow> Inr [parked_event])
                   | _ \<Rightarrow> keep (Inr [parked_event])))"

text \<open>The case \<open>children\<close>: the plan is recorded and the run parks; the children are started after the write.\<close>

definition checkpoint_children ::
  "run_env \<Rightarrow> workflow_def \<Rightarrow> run_row \<Rightarrow> stored_run \<Rightarrow> string \<Rightarrow> children_planned \<Rightarrow> time \<Rightarrow> run_error + run_event list" where
  "checkpoint_children E def row s path plan at =
     (if r_state row = AtPark then Inr []
      else if (case node_named def path of None \<Rightarrow> True | Some n \<Rightarrow> \<not> is_fan_node n) then Inl BadDefinition
      else if r_state row = Compensating
      then Inr (dropped_node path at # compensate E def row (sr_log s) at (caused_by None))
      else if past_deadline E row
      then begin_compensation E def row (sr_log s) (sr_steps s) at [DeadlineReached at, dropped_node path at]
             (closed_by ''the run deadline passed before it finished'')
      else Inr [ChildrenPlanned (plan\<lparr>pln_path := path, pln_at := at\<rparr>)])"

definition failed_attempt :: "string \<Rightarrow> step_phase \<Rightarrow> nat \<Rightarrow> string \<Rightarrow> time \<Rightarrow> run_event" where
  "failed_attempt path ph attempt error at =
     NodeFailed \<lparr>fld_path = path, fld_phase = ph, fld_attempt = attempt, fld_error = error, fld_at = at\<rparr>"

definition completed_by :: "string \<Rightarrow> step_phase \<Rightarrow> json \<Rightarrow> operator_fields option \<Rightarrow> time \<Rightarrow> run_event" where
  "completed_by path ph result by at =
     NodeCompleted \<lparr>cpl_path = path, cpl_phase = ph, cpl_result = result,
       cpl_resolved_by = Option.bind by by_actor, cpl_at = at,
       cpl_reason = Option.bind by by_reason, cpl_execution = Option.bind by by_execution\<rparr>"

definition skipped_by :: "string \<Rightarrow> step_phase \<Rightarrow> skip_cause \<Rightarrow> string \<Rightarrow> time \<Rightarrow> run_event" where
  "skipped_by path ph cause reason at =
     NodeSkipped \<lparr>skp_path = path, skp_phase = ph, skp_cause = cause, skp_reason = reason, skp_actor = None,
       skp_at = at, skp_execution = None\<rparr>"

text \<open>The other cases of the checkpoint, for a step that is still waiting for this attempt.\<close>

definition checkpoint_outcome ::
  "run_env \<Rightarrow> workflow_def \<Rightarrow> run_row \<Rightarrow> stored_run \<Rightarrow> string \<Rightarrow> step_phase \<Rightarrow> nat \<Rightarrow> outcome \<Rightarrow> time \<Rightarrow> decision" where
  "checkpoint_outcome E def row s path ph attempt outcome at =
     (let log = sr_log s; steps = sr_steps s; keep = with_signals (sr_signals s);
          compensating = (r_state row = Compensating);
          undos = compensate E def row log at;
          failed_now = (\<lambda>error. failed_attempt path ph attempt error at);
          stop = (\<lambda>error. begin_compensation E def row log steps at [failed_now error] (closed_by error))
      in case outcome of
           Completes result route by \<Rightarrow>
             keep (Inr (completed_by path ph result by at #
               (if compensating then undos (caused_by None\<lparr>co_done_now := Some (path, result)\<rparr>)
                else events_after log row route at)))
         | Skips reason route \<Rightarrow>
             keep (Inr (skipped_by path ph When reason at #
               (if compensating then undos (caused_by None) else events_after log row route at)))
         | Undone result \<Rightarrow>
             keep (Inr (completed_by path ph result None at # undos (caused_by None\<lparr>co_undone_now := 1\<rparr>)))
         | Retries error key due \<Rightarrow>
             keep (Inr (failed_now error #
               (if compensating \<and> ph = Do then undos (caused_by None)
                else [NodeScheduled (schedule path ph (attempt + 1) key due row)])))
         | Dies error \<Rightarrow>
             keep (if compensating \<and> ph = Do then Inr (failed_now error # undos (caused_by None))
                   else if ph = Undo \<or> wd_on_dead_step def = DeadWaits then Inr [failed_now error]
                   else stop error)
         | PassesTransitionLimit error \<Rightarrow>
             keep (if compensating \<and> ph = Do then Inr (failed_now error # undos (caused_by None)) else stop error)
         | PlansChildren plan \<Rightarrow> keep (checkpoint_children E def row s path plan at)
         | Parks waiting wake found \<Rightarrow> checkpoint_park E def row s path waiting wake found at
         | Drops \<Rightarrow> keep (Inr (skipped_by path ph WhileCompensating COMPENSATING at # undos (caused_by None)))
         | Expires \<Rightarrow>
             keep (if expires_now E row path ph attempt
                   then Inr [skipped_by path ph TtlPassed EXPIRED at, RunExpired at (keep_until_for E def EndExpired)]
                   else Inr []))"

text \<open>The step row still waits for this very attempt.\<close>

definition awaits_attempt :: "step_table \<Rightarrow> string \<Rightarrow> step_phase \<Rightarrow> nat \<Rightarrow> bool" where
  "awaits_attempt steps path ph attempt \<longleftrightarrow>
     (case steps (path, ph) of
        None \<Rightarrow> False
      | Some step \<Rightarrow> s_attempt step = attempt \<and> (s_status step = Scheduled \<or> s_status step = StepFailed))"

definition checkpoint ::
  "registry \<Rightarrow> run_env \<Rightarrow> string \<Rightarrow> step_phase \<Rightarrow> nat \<Rightarrow> outcome \<Rightarrow> stored_run \<Rightarrow> decision" where
  "checkpoint reg E path ph attempt outcome s =
     (case sr_row s of
        None \<Rightarrow> Inr ([], sr_signals s)
      | Some row \<Rightarrow>
          if r_finished_at row \<noteq> None \<or> \<not> awaits_attempt (sr_steps s) path ph attempt then Inr ([], sr_signals s)
          else rbind (code_of reg row) (\<lambda>def. checkpoint_outcome E def row s path ph attempt outcome (en_now E)))"

end
