(* ===== verification/JournalCalls.thy ===== *)
theory JournalCalls
  imports JournalRunner
begin

text \<open>
  The other doors to a run, \<open>packages/journal/src/workflow/runner.ts\<close>: its start and its promotion
  from the queue, timers and event wakes, signals, the end of a child run while the parent
  compensates, cancel, the operator's verbs, and the changes of metadata and tags. A call of any
  of them is a \<open>run_call\<close>; a history of a run is a sequence of calls, each with what the rest of
  the system answered it.
\<close>

section \<open>Start\<close>

text \<open>Times and ages are in milliseconds.\<close>

datatype start_delay = NoDelay | DelayFor time | StartAt time

definition start_timing :: "start_delay \<Rightarrow> time option \<Rightarrow> time \<Rightarrow> time option \<times> time \<times> time option" where
  "start_timing delay ttl now =
     (let wanted = (case delay of NoDelay \<Rightarrow> now | StartAt t \<Rightarrow> t | DelayFor age \<Rightarrow> now + age);
          start_at = (if wanted > now then Some wanted else None);
          due = (case start_at of None \<Rightarrow> now | Some t \<Rightarrow> t)
      in (start_at, due, map_option (\<lambda>t. due + t) ttl))"

record start_args =
  sa_input :: json
  sa_scope :: "string option"
  sa_tags :: "string list"
  sa_metadata :: metadata
  sa_delay :: start_delay
  sa_ttl :: "time option"
  sa_max_attempts :: "nat option"
  sa_timeout_ms :: "time option"
  sa_priority :: "int option"
  sa_batch_id :: "string option"
  sa_replay_of :: "string option"
  sa_by :: operator_fields

text \<open>
  What the rest of the system says of a start: its parent (id, path, root and scope), the deadline
  age, the shared limits, the key, the shape, the trigger, a branch's results, and the limit it queues on.
\<close>

record start_context =
  sc_parent :: "(string \<times> string \<times> string \<times> string option) option"
  sc_deadline :: "time option"
  sc_limits :: "string list"
  sc_concurrency_key :: "string option"
  sc_shape :: shape
  sc_trigger :: "nat option"
  sc_results :: "results option"
  sc_queued_on :: "(string \<times> busy_reason) option"

definition start_run :: "workflow_def \<Rightarrow> run_env \<Rightarrow> start_context \<Rightarrow> start_args \<Rightarrow> stored_run \<Rightarrow> decision" where
  "start_run def E ctx args s =
     (case wd_nodes def of
        [] \<Rightarrow> Inl BadDefinition
      | first # _ \<Rightarrow>
          if sr_row s \<noteq> None then Inr ([], sr_signals s)
          else if wd_refuses def (sa_input args) \<noteq> None then Inl CommandConflict
          else if \<not> en_metadata_fits E (sa_metadata args) then Inl CommandInvalid
          else (let child = (sc_parent ctx \<noteq> None); at = en_now E
            in case start_timing (if child then NoDelay else sa_delay args) (if child then None else sa_ttl args) at of
                 (start_at, due, ttl_at) \<Rightarrow>
                   Inr
                    ([RunStarted
                        \<lparr>st_name = wd_name def, st_version = wd_version def, st_shape = sc_shape ctx,
                         st_shape_hash = wd_shape_hash def, st_input = sa_input args,
                         st_deadline_at = map_option (\<lambda>d. due + d) (sc_deadline ctx),
                         st_parent_id = map_option fst (sc_parent ctx),
                         st_parent_path = map_option (\<lambda>p. fst (snd p)) (sc_parent ctx),
                         st_concurrency_key = sc_concurrency_key ctx,
                         st_scope = (case sc_parent ctx of None \<Rightarrow> sa_scope args | Some (i, path, root, scope) \<Rightarrow> scope),
                         st_tags = Some (sa_tags args), st_metadata = Some (sa_metadata args),
                         st_root_id = map_option (\<lambda>p. fst (snd (snd p))) (sc_parent ctx),
                         st_start_at = start_at, st_ttl_at = ttl_at,
                         st_ttl_ms = map_option nat (if child then None else sa_ttl args),
                         st_max_attempts = (if child then None else sa_max_attempts args),
                         st_step_timeout_ms = (if child then None else map_option (\<lambda>t. nat (max 1 t)) (sa_timeout_ms args)),
                         st_priority = (if child then None else sa_priority args),
                         st_limits = (if sc_limits ctx = [] then None else Some (sc_limits ctx)),
                         st_trigger_seq = sc_trigger ctx, st_results = sc_results ctx,
                         st_batch_id = sa_batch_id args, st_replay_of = sa_replay_of args,
                         st_by = sa_by args, st_at = at\<rparr>,
                      (case sc_queued_on ctx of
                         None \<Rightarrow>
                           NodeScheduled \<lparr>sch_path = wn_name first, sch_phase = Do, sch_attempt = 1,
                             sch_key = first_key_of (sr_id s) (wn_name first), sch_job_id = None, sch_at = due,
                             sch_resolution = None, sch_priority = (if child then None else sa_priority args),
                             sch_by = nobody\<rparr>
                       | Some (limit, reason) \<Rightarrow>
                           RunQueued limit reason ttl_at (if child then None else sa_priority args) at)],
                     sr_signals s)))"

text \<open>A freed slot: the gate has found room for this queued run.\<close>

definition promote_queued :: "registry \<Rightarrow> run_env \<Rightarrow> stored_run \<Rightarrow> decision" where
  "promote_queued reg E s =
     (case sr_row s of
        None \<Rightarrow> Inr ([], sr_signals s)
      | Some row \<Rightarrow>
          (case (code_of reg row, shape_nodes (r_shape row)) of
             (Inr def, first # _) \<Rightarrow>
               if r_state row \<noteq> Queued then Inr ([], sr_signals s)
               else (let now = en_now E;
                         due = (case r_start_at row of Some t \<Rightarrow> if t > now then t else now | None \<Rightarrow> now)
                     in Inr ([RunDequeued now,
                              NodeScheduled (schedule (sn_name first) Do 1 (first_key_of (r_id row) (sn_name first)) due row)],
                             sr_signals s))
           | _ \<Rightarrow> Inr ([], sr_signals s)))"

section \<open>Timers and event wakes\<close>

datatype fired = WakeFired string nat taken_event | DeadlineFired | TtlFired

text \<open>The place of the latest park in the log.\<close>

definition latest_park :: "run_event list \<Rightarrow> nat option" where
  "latest_park log =
     (case rev (filter (\<lambda>i. case log ! i of Parked d \<Rightarrow> True | _ \<Rightarrow> False) [0..<length log]) of
        [] \<Rightarrow> None | i # _ \<Rightarrow> Some i)"

text \<open>The run is parked on an event wait: it takes what there is for it, or nothing is written.\<close>

definition wake_on_event ::
  "run_env \<Rightarrow> workflow_def \<Rightarrow> nat \<Rightarrow> run_row \<Rightarrow> stored_run \<Rightarrow> string \<Rightarrow> taken_event \<Rightarrow> time \<Rightarrow> run_error + run_event list" where
  "wake_on_event E def index row s name found at =
     (case found of
        EventFailure why \<Rightarrow> fail_wait E def row (sr_log s) (sr_steps s) name why at
      | NoEvent \<Rightarrow> Inr []
      | TakenEvent label seq delivery pointer \<Rightarrow>
          take_event E def index row (sr_log s) (sr_steps s) label seq delivery pointer at)"

definition timed_out ::
  "run_env \<Rightarrow> workflow_def \<Rightarrow> nat \<Rightarrow> run_row \<Rightarrow> stored_run \<Rightarrow> string \<Rightarrow> time \<Rightarrow> run_error + run_event list" where
  "timed_out E def index row s name at =
     (let log = sr_log s; steps = sr_steps s;
          after = (\<lambda>r. rbind r (\<lambda>es. Inr (TimerFired name at # es)))
      in case wd_nodes def ! index of
           EventWaitNode n FailOnTimeout \<Rightarrow> after (fail_wait E def row log steps n ''got no event in time'' at)
         | WaitForNode n signal FailOnTimeout parse \<Rightarrow>
             after (fail_wait E def row log steps n ''got no signal in time'' at)
         | _ \<Rightarrow> after (complete_wait E def index row log steps JNull at))"

definition on_timer :: "registry \<Rightarrow> run_env \<Rightarrow> fired \<Rightarrow> stored_run \<Rightarrow> decision" where
  "on_timer reg E fired s =
     (case sr_row s of
        None \<Rightarrow> Inr ([], sr_signals s)
      | Some row \<Rightarrow>
          if r_finished_at row \<noteq> None then Inr ([], sr_signals s)
          else with_signals (sr_signals s) (rbind (code_of reg row) (\<lambda>def.
            (let at = en_now E; log = sr_log s; steps = sr_steps s
             in case fired of
                  DeadlineFired \<Rightarrow>
                    if r_state row = Compensating then Inr [] else deadline_events E def row log steps at
                | TtlFired \<Rightarrow>
                    (case (r_state row, r_ttl_at row) of
                       (Queued, Some ttl) \<Rightarrow>
                         if ttl < at then Inr [RunExpired at (keep_until_for E def EndExpired)] else Inr []
                     | _ \<Rightarrow> Inr [])
                | WakeFired name park found \<Rightarrow>
                    if r_state row \<noteq> AtPark \<or> r_node row \<noteq> Some name \<or> latest_park log \<noteq> Some park then Inr []
                    else if past_deadline E row then deadline_events E def row log steps at
                    else (case index_of_node (wd_nodes def) name of
                            None \<Rightarrow> Inl BadDefinition
                          | Some index \<Rightarrow>
                              if \<not> is_wait_node (wd_nodes def ! index) then Inl BadDefinition
                              else (case wd_nodes def ! index of
                                      EventWaitNode n on_out \<Rightarrow>
                                        rbind (wake_on_event E def index row s n found at)
                                          (\<lambda>woke. if woke \<noteq> [] then Inr woke else timed_out E def index row s name at)
                                    | _ \<Rightarrow> timed_out E def index row s name at))))))"

definition wake_wait :: "registry \<Rightarrow> run_env \<Rightarrow> string \<Rightarrow> taken_event \<Rightarrow> stored_run \<Rightarrow> decision" where
  "wake_wait reg E name found s =
     (case sr_row s of
        None \<Rightarrow> Inr ([], sr_signals s)
      | Some row \<Rightarrow>
          if r_state row \<noteq> AtPark \<or> r_node row \<noteq> Some name then Inr ([], sr_signals s)
          else with_signals (sr_signals s) (rbind (code_of reg row) (\<lambda>def.
            (case index_of_node (wd_nodes def) name of
               None \<Rightarrow> Inl BadDefinition
             | Some index \<Rightarrow>
                 (case wd_nodes def ! index of
                    EventWaitNode n on_out \<Rightarrow>
                      if past_deadline E row then deadline_events E def row (sr_log s) (sr_steps s) (en_now E)
                      else wake_on_event E def index row s n found (en_now E)
                  | _ \<Rightarrow> Inl BadDefinition)))))"

section \<open>Signals\<close>

datatype signal_status = SNoRun | SFinished | SDuplicate | SKept | SWoke

text \<open>
  The wait of the run's own nodes for a signal. The waits of a parallel node's branches are not
  modelled: a signal that only a branch waits for is refused here, where the code passes it on to
  the branch run; neither writes anything of this run.
\<close>

definition signal_wait :: "wf_node list \<Rightarrow> string \<Rightarrow> (json \<Rightarrow> string + json) option" where
  "signal_wait nodes name =
     (case find (\<lambda>n. case n of WaitForNode w signal t parse \<Rightarrow> signal = name | _ \<Rightarrow> False) nodes of
        Some (WaitForNode w signal t parse) \<Rightarrow> Some parse
      | _ \<Rightarrow> None)"

text \<open>The index of the \<open>waitFor\<close> node the run is parked on for this signal.\<close>

definition signal_index :: "workflow_def \<Rightarrow> run_row \<Rightarrow> string \<Rightarrow> nat option" where
  "signal_index def row name =
     (if r_state row = AtPark \<and> r_waiting_for row = Some name
      then (case Option.bind (r_node row) (index_of_node (wd_nodes def)) of
              Some i \<Rightarrow>
                (case wd_nodes def ! i of
                   WaitForNode w signal t parse \<Rightarrow> if signal = name then Some i else None
                 | _ \<Rightarrow> None)
            | None \<Rightarrow> None)
      else None)"

definition deliver_signal ::
  "registry \<Rightarrow> run_env \<Rightarrow> string option \<Rightarrow> string \<Rightarrow> string \<Rightarrow> json \<Rightarrow> operator_fields \<Rightarrow> stored_run \<Rightarrow>
     run_error + signal_status \<times> run_event list \<times> stored_signal list" where
  "deliver_signal reg E workflow name delivery payload by s =
     (let answer = (\<lambda>status. Inr (status, [], sr_signals s))
      in case sr_row s of
           None \<Rightarrow> if workflow \<noteq> None then answer SNoRun else Inl CommandNotFound
         | Some row \<Rightarrow>
             if workflow \<noteq> None \<and> workflow \<noteq> Some (r_name row) then answer SNoRun
             else if r_finished_at row \<noteq> None then answer SFinished
             else rbind (code_of reg row) (\<lambda>def.
               (case signal_wait (wd_nodes def) name of
                  None \<Rightarrow> Inl CommandConflict
                | Some parse \<Rightarrow>
                    if wd_refuses def payload \<noteq> None then Inl CommandInvalid
                    else rbind (case parse payload of Inl why \<Rightarrow> Inl CommandInvalid | Inr v \<Rightarrow> Inr v) (\<lambda>parsed.
                      if \<exists>g \<in> set (sr_signals s). sg_name g = name \<and> sg_delivery g = delivery then answer SDuplicate
                      else (let at = en_now E;
                                received = SignalReceived name delivery at by;
                                stored = sr_signals s @ [\<lparr>sg_name = name, sg_delivery = delivery, sg_payload = payload,
                                  sg_consumed_by = None\<rparr>]
                            in if past_deadline E row \<and> r_state row \<noteq> Compensating
                               then rbind (deadline_events E def row (sr_log s) (sr_steps s) at)
                                      (\<lambda>es. Inr (SKept, received # es, stored))
                               else (case signal_index def row name of
                                       None \<Rightarrow> Inr (SKept, [received], stored)
                                     | Some i \<Rightarrow>
                                         rbind (wake_on_signal E def i row (sr_log s) (sr_steps s) payload at)
                                           (\<lambda>woke. Inr (SWoke, received # woke,
                                              (case take_signal name (wn_name (wd_nodes def ! i)) stored of
                                                 Some (g, gs) \<Rightarrow> gs | None \<Rightarrow> stored)))))))))"

section \<open>Cancel, and the end of a child\<close>

definition cancel_options :: begin_options where
  "cancel_options = \<lparr>bo_closed = False, bo_cause = None, bo_cancelling = True\<rparr>"

definition cancel_run ::
  "registry \<Rightarrow> run_env \<Rightarrow> string option \<Rightarrow> string \<Rightarrow> string option \<Rightarrow> string option \<Rightarrow> stored_run \<Rightarrow> decision" where
  "cancel_run reg E workflow reason actor execution s =
     (case sr_row s of
        None \<Rightarrow> Inl CommandNotFound
      | Some row \<Rightarrow>
          if workflow \<noteq> None \<and> workflow \<noteq> Some (r_name row) then Inl CommandConflict
          else if r_finished_at row \<noteq> None \<or> r_state row = Compensating then Inl CommandConflict
          else with_signals (sr_signals s) (rbind (code_of reg row) (\<lambda>def.
            begin_compensation E def row (sr_log s) (sr_steps s) (en_now E)
              [CancelRequested reason actor execution (en_now E)] cancel_options)))"

text \<open>A compensating parent moves a child into compensation: a live one is cancelled, a completed one reopened.\<close>

definition compensate_child :: "registry \<Rightarrow> run_env \<Rightarrow> string \<Rightarrow> bool \<Rightarrow> stored_run \<Rightarrow> decision" where
  "compensate_child reg E reason reopen s =
     (case sr_row s of
        None \<Rightarrow> Inr ([], sr_signals s)
      | Some row \<Rightarrow>
          if \<not> (if reopen then r_state row = Completed else is_live (r_state row)) then Inr ([], sr_signals s)
          else with_signals (sr_signals s) (rbind (code_of reg row) (\<lambda>def.
            begin_compensation E def row (sr_log s) (sr_steps s) (en_now E)
              [CancelRequested reason None None (en_now E)] cancel_options)))"

text \<open>The step rows are those of the steps the log's events are about.\<close>

definition has_scheduled_step :: "run_event list \<Rightarrow> step_table \<Rightarrow> bool" where
  "has_scheduled_step log steps \<longleftrightarrow>
     (\<exists>e \<in> set log. case step_of e of Some k \<Rightarrow> status_of steps k = Some Scheduled | None \<Rightarrow> False)"

definition planned_of :: "run_event list \<Rightarrow> string \<Rightarrow> children_planned option" where
  "planned_of log base =
     (case find (\<lambda>e. case e of ChildrenPlanned d \<Rightarrow> pln_base d = base | _ \<Rightarrow> False) (rev log) of
        Some (ChildrenPlanned d) \<Rightarrow> Some d | _ \<Rightarrow> None)"

text \<open>A child ended while its parent compensates.\<close>

definition child_ended :: "registry \<Rightarrow> run_env \<Rightarrow> string \<Rightarrow> stored_run \<Rightarrow> decision" where
  "child_ended reg E base s =
     (case sr_row s of
        None \<Rightarrow> Inr ([], sr_signals s)
      | Some row \<Rightarrow>
          if r_finished_at row \<noteq> None \<or> r_state row \<noteq> Compensating then Inr ([], sr_signals s)
          else with_signals (sr_signals s) (rbind (code_of reg row) (\<lambda>def.
            (case planned_of (sr_log s) base of
               None \<Rightarrow> Inr []
             | Some plan \<Rightarrow>
                 if is_detached (node_named def (pln_path plan)) \<or> has_scheduled_step (sr_log s) (sr_steps s) then Inr []
                 else Inr (compensate E def row (sr_log s) (en_now E) (caused_by None))))))"

end
