(* ===== verification/JournalVerbs.thy ===== *)
theory JournalVerbs
  imports JournalCalls
begin

text \<open>
  The operator's verbs and the changes of the run fields, \<open>packages/journal/src/workflow/runner.ts\<close>,
  and the histories of a run: sequences of calls through all its doors.
\<close>

section \<open>The operator's verbs\<close>

record operation =
  op_actor :: string
  op_reason :: "string option"
  op_execution :: "string option"

definition is_blank :: "char \<Rightarrow> bool" where
  "is_blank c \<longleftrightarrow> of_char c \<in> {9, 10, 11, 12, 13, 32, 160 :: nat}"

definition trimmed :: "string \<Rightarrow> string" where
  "trimmed t = rev (dropWhile is_blank (rev (dropWhile is_blank t)))"

definition assert_operator :: "operation \<Rightarrow> run_error + unit" where
  "assert_operator op = (if trimmed (op_actor op) = '''' then Inl BadArgument else Inr ())"

definition operator_of :: "operation \<Rightarrow> operator_fields" where
  "operator_of op = \<lparr>by_actor = Some (op_actor op), by_reason = op_reason op, by_execution = op_execution op\<rparr>"

definition open_run :: "stored_run \<Rightarrow> run_error + run_row" where
  "open_run s =
     (case sr_row s of
        None \<Rightarrow> Inl WorkflowNotFound
      | Some row \<Rightarrow> if r_finished_at row \<noteq> None then Inl WorkflowFinished else Inr row)"

definition skip_undo :: "registry \<Rightarrow> run_env \<Rightarrow> operation \<Rightarrow> string \<Rightarrow> stored_run \<Rightarrow> decision" where
  "skip_undo reg E op path s =
     rbind (assert_operator op) (\<lambda>u.
       let reason = (case op_reason op of None \<Rightarrow> '''' | Some r \<Rightarrow> trimmed r)
       in if reason = '''' then Inl BadArgument
          else rbind (open_run s) (\<lambda>row.
            if r_state row \<noteq> Compensating \<or> status_of (sr_steps s) (path, Undo) \<noteq> Some StepFailed then Inl StepNotDead
            else rbind (code_of reg row) (\<lambda>def.
              Inr (NodeSkipped \<lparr>skp_path = path, skp_phase = Undo, skp_cause = ByOperator, skp_reason = reason,
                     skp_actor = Some (op_actor op), skp_at = en_now E, skp_execution = op_execution op\<rparr> #
                   compensate E def row (sr_log s) (en_now E) (caused_by None\<lparr>co_undone_now := 1\<rparr>),
                   sr_signals s))))"

text \<open>
  The parts of \<open>^(.*)~(\d+)$\<close>, and the id a failed child is started again under. The count is kept
  exact; the source reads it as a JavaScript number, so the two agree while it stays below 2 to the
  53, that is unless an id with such a suffix was chosen by hand.
\<close>

definition retried_parts :: "string \<Rightarrow> (string \<times> nat) option" where
  "retried_parts i =
     (let digits = takeWhile is_digit_char (rev i)
      in case dropWhile is_digit_char (rev i) of
           CHR ''~'' # stem \<Rightarrow>
             if digits \<noteq> [] \<and> CHR 0x0A \<notin> set stem \<and> CHR 0x0D \<notin> set stem
             then Some (rev stem, dec_value (map (\<lambda>c. of_char c - 48) (rev digits))) else None
         | _ \<Rightarrow> None)"

definition retried_child_id :: "string \<Rightarrow> run_error + string" where
  "retried_child_id i =
     (let retried = (case retried_parts i of
          None \<Rightarrow> i @ ''~'' @ count_text 2
        | Some (base, n) \<Rightarrow> base @ ''~'' @ count_text (n + 1))
      in if length retried > 256 then Inl WorkflowLimit else Inr retried)"

text \<open>The newest plan of the run.\<close>

definition newest_plan :: "run_event list \<Rightarrow> children_planned option" where
  "newest_plan log =
     (case find (\<lambda>e. case e of ChildrenPlanned d \<Rightarrow> True | _ \<Rightarrow> False) (rev log) of
        Some (ChildrenPlanned d) \<Rightarrow> Some d | _ \<Rightarrow> None)"

definition child_again :: "kid list \<Rightarrow> child_plan \<Rightarrow> run_error + child_plan" where
  "child_again kids c =
     (case find (\<lambda>k. kd_id k = plan_id c) kids of
        Some k \<Rightarrow>
          if kd_finished_at k \<noteq> None \<and> kd_state k \<noteq> Completed
          then rbind (retried_child_id (plan_id c)) (\<lambda>i. Inr (c\<lparr>plan_id := i\<rparr>)) else Inr c
      | None \<Rightarrow> Inr c)"

text \<open>The step goes again with its key, as the next attempt.\<close>

definition schedule_again :: "run_env \<Rightarrow> operation \<Rightarrow> run_row \<Rightarrow> string \<Rightarrow> step_phase \<Rightarrow> step_row \<Rightarrow> json option \<Rightarrow> run_error \<Rightarrow> run_error + run_event list" where
  "schedule_again E op row path ph step resolution missing =
     (case s_key step of
        None \<Rightarrow> Inl missing
      | Some key \<Rightarrow>
          Inr [NodeScheduled (schedule path ph (s_attempt step + 1) key (en_now E) row
                 \<lparr>sch_resolution := resolution, sch_by := operator_of op\<rparr>)])"

definition retry_step :: "registry \<Rightarrow> run_env \<Rightarrow> operation \<Rightarrow> string \<Rightarrow> step_phase \<Rightarrow> stored_run \<Rightarrow> decision" where
  "retry_step reg E op path ph s =
     with_signals (sr_signals s) (rbind (assert_operator op) (\<lambda>u. rbind (open_run s) (\<lambda>row.
       case sr_steps s (path, ph) of
         None \<Rightarrow> Inl StepNotDead
       | Some step \<Rightarrow>
           if s_status step = Scheduled
           then (if en_dead_jobs E = [] then Inl StepNotDead
                 else rbind (code_of reg row) (\<lambda>def.
                   Inr (map (\<lambda>(job, n). JobRetried job n (en_now E) (operator_of op)) (en_dead_jobs E))))
           else if s_status step \<noteq> StepFailed then Inl StepNotDead
           else rbind (code_of reg row) (\<lambda>def.
             if ph = Do \<and> r_state row = Compensating then Inl WorkflowCompensating
             else if ph = Undo \<and> r_state row \<noteq> Compensating then Inl StepNotDead
             else (let fan = (case node_named def path of None \<Rightarrow> False | Some n \<Rightarrow> is_fan_node n)
                   in case (if fan then newest_plan (sr_log s) else None) of
                        Some p \<Rightarrow>
                          if ph = Do \<and> r_state row = AtPark \<and> pln_path p = path
                          then rbind (rmap_list (child_again (en_kids E)) (pln_children p)) (\<lambda>children.
                                 Inr [ChildrenPlanned (p\<lparr>pln_children := children, pln_at := en_now E,
                                   pln_by := operator_of op\<rparr>)])
                          else schedule_again E op row path ph step None StepNotDead
                      | None \<Rightarrow> schedule_again E op row path ph step None StepNotDead)))))"

text \<open>
  \<open>parse\<close> is the output schema the result is checked with: of the step, or of a command node's
  command; none when there is no such schema.
\<close>

fun is_resolvable_node :: "wf_node option \<Rightarrow> bool" where
  "is_resolvable_node (Some (StepNode n undo f)) = True"
| "is_resolvable_node (Some (CommandNode n undo a)) = True"
| "is_resolvable_node _ = False"

definition resolve_step ::
  "registry \<Rightarrow> run_env \<Rightarrow> operation \<Rightarrow> string \<Rightarrow> json \<Rightarrow> (json \<Rightarrow> string + json) option \<Rightarrow> stored_run \<Rightarrow> decision" where
  "resolve_step reg E op path result parse s =
     with_signals (sr_signals s) (rbind (assert_operator op) (\<lambda>u. rbind (open_run s) (\<lambda>row.
       if r_state row = Compensating then Inl WorkflowCompensating
       else case sr_steps s (path, Do) of
         None \<Rightarrow> Inl StepNotDead
       | Some step \<Rightarrow>
           if s_status step \<noteq> StepFailed then Inl StepNotDead
           else rbind (code_of reg row) (\<lambda>def.
             if \<not> is_resolvable_node (node_named def path) then Inl StepNotResolvable
             else case parse of
               None \<Rightarrow> Inl StepNotResolvable
             | Some check \<Rightarrow>
                 if r_state row \<noteq> Running then Inl StepNotResolvable
                 else case check result of
                   Inl why \<Rightarrow> Inl CommandInvalid
                 | Inr parsed \<Rightarrow>
                     if wd_refuses def parsed \<noteq> None then Inl WorkflowLimit
                     else schedule_again E op row path Do step (Some parsed) StepNotResolvable))))"

datatype new_start = StartIn time | StartOnDate time

text \<open>\<open>unclaimed\<close>: the job of the first node is in the queue and no worker claimed or tried it.\<close>

definition reschedule :: "run_env \<Rightarrow> operation \<Rightarrow> new_start \<Rightarrow> bool \<Rightarrow> stored_run \<Rightarrow> decision" where
  "reschedule E op wanted unclaimed s =
     rbind (assert_operator op) (\<lambda>u.
       let now = en_now E;
           asked = (case wanted of StartIn age \<Rightarrow> now + age | StartOnDate t \<Rightarrow> t);
           start_at = (if asked > now then asked else now)
       in case sr_row s of
            None \<Rightarrow> Inl CommandNotFound
          | Some row \<Rightarrow>
              (let queued = (r_state row = Queued);
                   first = (case shape_nodes (r_shape row) of [] \<Rightarrow> None | n # _ \<Rightarrow> Some (sn_name n));
                   waiting = (case Option.bind first (\<lambda>p. sr_steps s (p, Do)) of
                       None \<Rightarrow> False
                     | Some step \<Rightarrow> s_status step = Scheduled \<and> s_attempt step = 1 \<and> s_job_id step \<noteq> None)
               in if (\<not> queued \<and> \<not> not_started row) \<or> first = None then Inl CommandConflict
                  else if \<not> queued \<and> \<not> (waiting \<and> unclaimed) then Inl CommandConflict
                  else (let was = (case r_start_at row of Some t \<Rightarrow> t | None \<Rightarrow> r_started_at row);
                            shift = start_at - was
                        in Inr ([RunRescheduled start_at
                                   (map_option (\<lambda>ms. start_at + int ms) (r_ttl_ms row))
                                   (map_option (\<lambda>d. d + shift) (r_deadline_at row)) now (operator_of op)],
                                sr_signals s))))"

section \<open>Metadata and tags\<close>

definition change_metadata :: "run_env \<Rightarrow> metadata_change \<Rightarrow> operation option \<Rightarrow> stored_run \<Rightarrow> decision" where
  "change_metadata E change op s =
     (case sr_row s of
        None \<Rightarrow> Inl CommandNotFound
      | Some row \<Rightarrow>
          if r_finished_at row \<noteq> None then Inl CommandConflict
          else if metadata_refusal (r_metadata row) change \<noteq> None then Inl CommandInvalid
          else if \<not> en_metadata_fits E (changed_metadata (r_metadata row) change) then Inl CommandInvalid
          else Inr ([MetadataChanged change (en_now E) (case op of None \<Rightarrow> nobody | Some o' \<Rightarrow> operator_of o')], sr_signals s))"

definition add_run_tags :: "run_env \<Rightarrow> string list \<Rightarrow> operation option \<Rightarrow> stored_run \<Rightarrow> decision" where
  "add_run_tags E tags op s =
     (case sr_row s of
        None \<Rightarrow> Inl CommandNotFound
      | Some row \<Rightarrow>
          if r_finished_at row \<noteq> None then Inl CommandConflict
          else (let added = new_tags (r_tags row) tags
                in if added = [] then Inr ([], sr_signals s)
                   else if length (r_tags row) + length added > RUN_FIELD_LIMITS_tags then Inl CommandInvalid
                   else Inr ([RunTagged added (en_now E) (case op of None \<Rightarrow> nobody | Some o' \<Rightarrow> operator_of o')],
                             sr_signals s)))"

section \<open>Histories\<close>

datatype run_call =
    StartCall workflow_def start_context start_args
  | PromoteCall
  | CheckpointCall string step_phase nat outcome
  | TimerCall fired
  | WakeCall string taken_event
  | SignalCall "string option" string string json operator_fields
  | CancelCall "string option" string "string option" "string option"
  | ParentCall string bool
  | ChildEndCall string
  | SkipUndoCall operation string
  | RetryCall operation string step_phase
  | ResolveCall operation string json "(json \<Rightarrow> string + json) option"
  | RescheduleCall operation new_start bool
  | MetadataCall metadata_change "operation option"
  | TagsCall "string list" "operation option"

fun decide :: "registry \<Rightarrow> run_env \<Rightarrow> run_call \<Rightarrow> stored_run \<Rightarrow> decision" where
  "decide reg E (StartCall def ctx args) s = start_run def E ctx args s"
| "decide reg E PromoteCall s = promote_queued reg E s"
| "decide reg E (CheckpointCall path ph attempt outcome) s = checkpoint reg E path ph attempt outcome s"
| "decide reg E (TimerCall fired) s = on_timer reg E fired s"
| "decide reg E (WakeCall name found) s = wake_wait reg E name found s"
| "decide reg E (SignalCall workflow name delivery payload by) s =
     rbind (deliver_signal reg E workflow name delivery payload by s) (\<lambda>(status, es, gs). Inr (es, gs))"
| "decide reg E (CancelCall workflow reason actor execution) s = cancel_run reg E workflow reason actor execution s"
| "decide reg E (ParentCall reason reopen) s = compensate_child reg E reason reopen s"
| "decide reg E (ChildEndCall base) s = child_ended reg E base s"
| "decide reg E (SkipUndoCall op path) s = skip_undo reg E op path s"
| "decide reg E (RetryCall op path ph) s = retry_step reg E op path ph s"
| "decide reg E (ResolveCall op path result parse) s = resolve_step reg E op path result parse s"
| "decide reg E (RescheduleCall op wanted unclaimed) s = reschedule E op wanted unclaimed s"
| "decide reg E (MetadataCall change op) s = change_metadata E change op s"
| "decide reg E (TagsCall tags op) s = add_run_tags E tags op s"

definition call_run :: "registry \<Rightarrow> run_env \<times> run_call \<Rightarrow> stored_run \<Rightarrow> stored_run" where
  "call_run reg c s = snd (write_run (fst c) (decide reg (fst c) (snd c)) s)"

definition run_history :: "registry \<Rightarrow> (run_env \<times> run_call) list \<Rightarrow> stored_run \<Rightarrow> stored_run" where
  "run_history reg cs s = fold (call_run reg) cs s"

end
