(* ===== verification/JournalUndo.thy ===== *)
theory JournalUndo
  imports JournalVerbs
begin

text \<open>
  The account of a saga: which paths a log completed, which undos it settled, and how the events
  of a compensation change that account and the status of the steps. The phases of the account
  (a step is current, a step is in flight, undoing, undone) are what the calls keep.
\<close>

section \<open>The account of a log\<close>

fun done_path :: "workflow_def \<Rightarrow> run_event \<Rightarrow> string list" where
  "done_path def (NodeCompleted d) =
     (if cpl_phase d = Do \<and> is_undoable def (cpl_path d) then [cpl_path d] else [])"
| "done_path def e = []"

fun undo_path :: "run_event \<Rightarrow> string list" where
  "undo_path (NodeCompleted d) = (if cpl_phase d = Undo then [cpl_path d] else [])"
| "undo_path (NodeSkipped d) = (if skp_phase d = Undo then [skp_path d] else [])"
| "undo_path e = []"

text \<open>The undoable visits a log completed, in order, and the undos it settled, in order.\<close>

definition done_paths :: "workflow_def \<Rightarrow> run_event list \<Rightarrow> string list" where
  "done_paths def log = concat (map (done_path def) log)"

definition undo_paths :: "run_event list \<Rightarrow> string list" where
  "undo_paths log = concat (map undo_path log)"

lemma done_paths_simps [simp]:
  "done_paths def [] = []" "done_paths def (e # es) = done_path def e @ done_paths def es"
  "done_paths def (xs @ ys) = done_paths def xs @ done_paths def ys"
  by (simp_all add: done_paths_def)

lemma undo_paths_simps [simp]:
  "undo_paths [] = []" "undo_paths (e # es) = undo_path e @ undo_paths es"
  "undo_paths (xs @ ys) = undo_paths xs @ undo_paths ys"
  by (simp_all add: undo_paths_def)

section \<open>The scan of the runner keeps this account\<close>

lemma phase_other [simp]: "ph \<noteq> Undo \<longleftrightarrow> ph = Do" "ph \<noteq> Do \<longleftrightarrow> ph = Undo"
  by (cases ph; simp)+

lemma scan_event:
  assumes "see_event def e (v, f, u) = (v', f', u')"
  shows "map ui_path f' = map ui_path f @ done_path def e \<and> u' = u + length (undo_path e)"
  using assms by (cases e) (auto simp: see_def Let_def split: if_splits)

lemma scan_log:
  assumes "fold (see_event def) log (v, f, u) = (v', f', u')"
  shows "map ui_path f' = map ui_path f @ done_paths def log \<and> u' = u + length (undo_paths log)"
  using assms
proof (induction log arbitrary: v f u)
  case Nil
  then show ?case by simp
next
  case (Cons e log)
  obtain v1 f1 u1 where e: "see_event def e (v, f, u) = (v1, f1, u1)" by (cases "see_event def e (v, f, u)") auto
  with Cons show ?case using scan_event [OF e] by fastforce
qed

lemma settled_only:
  "\<not> is_settled_event e \<Longrightarrow> see_event def e scan = scan"
  by (cases e) auto

lemma fold_settled: "fold (see_event def) (settled_of log) scan = fold (see_event def) log scan"
  by (induction log arbitrary: scan) (auto simp: settled_of_def settled_only)

text \<open>The account of a log with what the write in progress adds to it.\<close>

definition done_with :: "workflow_def \<Rightarrow> run_event list \<Rightarrow> (string \<times> json) option \<Rightarrow> string list" where
  "done_with def log done_now =
     done_paths def log @ (case done_now of Some (p, r) \<Rightarrow> if is_undoable def p then [p] else [] | None \<Rightarrow> [])"

lemma remaining_paths:
  "map ui_path (remaining_undos def (settled_of log) done_now n) =
     rev (take (length (done_with def log done_now) - (n + length (undo_paths log))) (done_with def log done_now))"
proof -
  obtain v f u where scan: "fold (see_event def) log (\<lambda>p. 0, [], n) = (v, f, u)"
    by (cases "fold (see_event def) log (\<lambda>p. 0, [], n)") auto
  have f: "map ui_path f = done_paths def log" and u: "u = n + length (undo_paths log)"
    using scan_log [OF scan] by auto
  have len: "length f = length (done_paths def log)" using f by (metis length_map)
  show ?thesis
  proof (cases done_now)
    case None
    then show ?thesis using scan f u len
      by (simp add: remaining_undos_def fold_settled done_with_def f flip: rev_map take_map)
  next
    case (Some pr)
    then show ?thesis using scan f u len
      by (cases pr) (simp add: remaining_undos_def fold_settled done_with_def see_def Let_def f flip: rev_map take_map)
  qed
qed

section \<open>The loop over the items\<close>

text \<open>The statuses after a list of events.\<close>

definition statuses :: "run_event list \<Rightarrow> (string \<times> step_phase \<Rightarrow> step_status option) \<Rightarrow> string \<times> step_phase \<Rightarrow> step_status option" where
  "statuses es stat = fold (\<lambda>e st k. if step_of e = Some k then status_after e (st k) else st k) es stat"

lemma statuses_simps [simp]:
  "statuses [] stat = stat"
  "statuses (e # es) stat = statuses es (\<lambda>k. if step_of e = Some k then status_after e (stat k) else stat k)"
  "statuses (xs @ ys) stat = statuses ys (statuses xs stat)"
  by (simp_all add: statuses_def)

lemma status_projected: "status_of (project_steps es t) = statuses es (status_of t)"
proof (induction es arbitrary: t)
  case Nil
  then show ?case by (simp add: project_steps_def)
next
  case (Cons e es)
  have "status_of (project_step e t) = (\<lambda>k. if step_of e = Some k then status_after e (status_of t k) else status_of t k)"
    by (rule ext) (simp add: status_project)
  with Cons.IH [of "project_step e t"] show ?case by (simp add: project_steps_def)
qed

lemma status_linked_at: "status_of (link_jobs job seq es t) k = status_of t k"
proof (induction es arbitrary: seq t)
  case Nil
  then show ?case by simp
next
  case (Cons e es)
  then show ?case by (cases e) (auto simp: status_of_def option.map_comp comp_def)
qed

lemma status_linked [simp]: "status_of (link_jobs job seq es t) = status_of t"
  by (rule ext) (rule status_linked_at)

text \<open>What waits to be undone of an account, newest first.\<close>

definition to_undo :: "string list \<Rightarrow> string list \<Rightarrow> string list" where
  "to_undo done undone = rev (take (length done - length undone) done)"

text \<open>
  While a saga undoes: the settled undos are the newest of the completed visits, newest first, no
  step is in flight, and an undo that is scheduled or failed is that of the next visit.
\<close>

definition undone_so_far :: "string list \<Rightarrow> string list \<Rightarrow> bool" where
  "undone_so_far done undone \<longleftrightarrow> length undone \<le> length done \<and> undone = take (length undone) (rev done)"

definition open_step :: "(string \<times> step_phase \<Rightarrow> step_status option) \<Rightarrow> string \<times> step_phase \<Rightarrow> bool" where
  "open_step stat k \<longleftrightarrow> stat k = Some Scheduled \<or> stat k = Some StepFailed"

definition undoing :: "string list \<Rightarrow> string list \<Rightarrow> (string \<times> step_phase \<Rightarrow> step_status option) \<Rightarrow> bool" where
  "undoing done undone stat \<longleftrightarrow>
     undone_so_far done undone \<and>
     (\<forall>p. stat (p, Do) \<noteq> Some Scheduled) \<and>
     (\<forall>p. open_step stat (p, Undo) \<longrightarrow> length undone < length done \<and> p = rev done ! length undone)"

lemma undone_next:
  assumes "undone_so_far done undone" "length undone < length done"
  shows "undone_so_far done (undone @ [rev done ! length undone])"
  using assms by (auto simp: undone_so_far_def take_Suc_conv_app_nth)

lemma undone_all: "undone_so_far done undone \<Longrightarrow> length undone = length done \<Longrightarrow> undone = rev done"
  by (simp add: undone_so_far_def)

text \<open>What one move of the loop does to the account.\<close>

lemma skip_undo_path [simp]:
  "skp_path (skip_undo_event p c r at) = p" "skp_phase (skip_undo_event p c r at) = Undo"
  by (simp_all add: skip_undo_event_def)

lemma undo_item_move_path:
  "undo_item_move def row kids at item = SkipIt d \<Longrightarrow> skp_path d = ui_path item \<and> skp_phase d = Undo"
  "undo_item_move def row kids at item = SettleIt e \<Longrightarrow> cpl_path e = ui_path item \<and> cpl_phase e = Undo"
  "undo_item_move def row kids at item = ScheduleIt f \<Longrightarrow> sch_path f = ui_path item \<and> sch_phase f = Undo"
  by (auto simp: undo_item_move_def Let_def split: if_splits)

lemma undoing_settled:
  assumes "undoing done undone stat" "length undone < length done"
    "p = rev done ! length undone" "s = StepDone \<or> s = StepSkipped"
  shows "undoing done (undone @ [p]) (\<lambda>k. if (p, Undo) = k then Some s else stat k)"
  using assms undone_next [of "done" undone] by (auto simp: undoing_def open_step_def)

lemma undoing_scheduled:
  assumes "undoing done undone stat" "length undone < length done" "p = rev done ! length undone"
  shows "undoing done undone (\<lambda>k. if (p, Undo) = k then Some Scheduled else stat k)"
  using assms by (auto simp: undoing_def open_step_def)

lemma to_undo_next:
  assumes "to_undo done undone = p # ps"
  shows "length undone < length done \<and> p = rev done ! length undone \<and> ps = to_undo done (undone @ [p])"
proof -
  have "take (length done - length undone) done \<noteq> []" using assms by (auto simp: to_undo_def)
  then have l: "length undone < length done" by auto
  have t: "to_undo done undone = drop (length undone) (rev done)"
    using l by (simp add: to_undo_def rev_take)
  have "drop (length undone) (rev done) = rev done ! length undone # drop (Suc (length undone)) (rev done)"
    using l by (simp add: Cons_nth_drop_Suc)
  moreover have "to_undo done (undone @ [p]) = drop (Suc (length undone)) (rev done)"
    using l by (simp add: to_undo_def rev_take)
  ultimately show ?thesis using assms t l by simp
qed

text \<open>
  The loop settles undos one after the other; it ends with all of them settled, or with the undo of
  the next one scheduled, or waiting for children with nothing else changed.
\<close>

lemma undo_loop_account:
  assumes "undo_loop def row kids at items = (es, over)"
    and "undoing done undone stat" and "map ui_path items = to_undo done undone"
  shows "undoing done (undone @ undo_paths es) (statuses es stat) \<and>
    done_paths def es = [] \<and>
    (over \<longleftrightarrow> length undone + length (undo_paths es) = length done)"
  using assms
proof (induction items arbitrary: es undone stat)
  case Nil
  then have "length done \<le> length undone" by (auto simp: to_undo_def)
  with Nil show ?case by (auto simp: undoing_def undone_so_far_def)
next
  case (Cons item items)
  from to_undo_next [OF Cons.prems(3) [symmetric, simplified]]
  have next': "length undone < length done" "ui_path item = rev done ! length undone"
    and rest: "map ui_path items = to_undo done (undone @ [ui_path item])" by auto
  show ?case
  proof (cases "undo_item_move def row kids at item")
    case (SkipIt d)
    obtain es' where es': "undo_loop def row kids at items = (es', over)" and es: "es = NodeSkipped d # es'"
      using Cons.prems(1) SkipIt by (auto split: prod.splits)
    have d: "skp_path d = ui_path item" "skp_phase d = Undo" using undo_item_move_path(1) [OF SkipIt] by auto
    from Cons.IH [OF es' undoing_settled [OF Cons.prems(2) next', of StepSkipped] rest]
    show ?thesis using d by (simp add: es cong: if_cong)
  next
    case (SettleIt d)
    obtain es' where es': "undo_loop def row kids at items = (es', over)" and es: "es = NodeCompleted d # es'"
      using Cons.prems(1) SettleIt by (auto split: prod.splits)
    have d: "cpl_path d = ui_path item" "cpl_phase d = Undo" using undo_item_move_path(2) [OF SettleIt] by auto
    from Cons.IH [OF es' undoing_settled [OF Cons.prems(2) next', of StepDone] rest]
    show ?thesis using d by (simp add: es cong: if_cong)
  next
    case (ScheduleIt d)
    have d: "sch_path d = ui_path item" "sch_phase d = Undo" using undo_item_move_path(3) [OF ScheduleIt] by auto
    show ?thesis using Cons.prems ScheduleIt d undoing_scheduled [OF Cons.prems(2) next'] next'
      by (auto cong: if_cong)
  next
    case AwaitKids
    then show ?thesis using Cons.prems next' by auto
  qed
qed

end
