(* ===== verification/JournalPlace.thy ===== *)
theory JournalPlace
  imports JournalUndo
begin

text \<open>
  Where a run is - its state, its node, whether it is finished - and how events move it; what the
  account of its saga must be at each place; and that compensation, from its start to its end,
  keeps this.
\<close>

section \<open>The place of a run\<close>

type_synonym place = "run_state \<times> string option \<times> bool"

definition place_of :: "run_row \<Rightarrow> place" where
  "place_of row = (r_state row, r_node row, r_finished_at row \<noteq> None)"

fun place_after :: "run_event \<Rightarrow> place \<Rightarrow> place" where
  "place_after (RunQueued l r t p a) (st, nd, fin) = (Queued, None, fin)"
| "place_after (RunDequeued a) (st, nd, fin) = (Running, nd, fin)"
| "place_after (NodeScheduled d) (st, nd, fin) =
     (if st = Compensating then Compensating else Running, Some (sch_path d), fin)"
| "place_after (Parked d) (st, nd, fin) = (AtPark, Some (prk_node d), fin)"
| "place_after (ChildrenPlanned d) (st, nd, fin) = (AtPark, Some (pln_path d), fin)"
| "place_after (TimerFired n a) (st, nd, fin) = (if st = AtPark then Running else st, nd, fin)"
| "place_after (CompensationStarted a) (st, nd, fin) = (Compensating, nd, False)"
| "place_after (RunCompleted out a k) (st, nd, fin) = (Completed, None, True)"
| "place_after (RunFailed e a k) (st, nd, fin) = (Failed, None, True)"
| "place_after (RunCancelled a k) (st, nd, fin) = (Cancelled, None, True)"
| "place_after (RunExpired a k) (st, nd, fin) = (Expired, None, True)"
| "place_after e pl = pl"

definition places :: "run_event list \<Rightarrow> place \<Rightarrow> place" where
  "places es pl = fold place_after es pl"

lemma places_simps [simp]:
  "places [] pl = pl" "places (e # es) pl = places es (place_after e pl)"
  "places (xs @ ys) pl = places ys (places xs pl)"
  by (simp_all add: places_def)

lemma place_run_after: "place_of (run_after row e) = place_after e (place_of row)"
  by (cases e) (auto simp: run_after_def place_of_def on_node_scheduled_def on_node_completed_def
      on_node_skipped_def finished_columns_def)

lemma place_foldl: "place_of (foldl run_after row es) = places es (place_of row)"
  by (induction es arbitrary: row) (simp_all add: place_run_after)

section \<open>The account at a place\<close>

definition undo_free :: "(string \<times> step_phase \<Rightarrow> step_status option) \<Rightarrow> bool" where
  "undo_free stat \<longleftrightarrow> (\<forall>p. stat (p, Undo) = None)"

text \<open>Before compensation: nothing is undone, and an open step is that of the node the run is on.\<close>

definition at_node :: "string option \<Rightarrow> string list \<Rightarrow> (string \<times> step_phase \<Rightarrow> step_status option) \<Rightarrow> bool" where
  "at_node nd undone stat \<longleftrightarrow>
     undone = [] \<and> undo_free stat \<and> (\<forall>p. open_step stat (p, Do) \<longrightarrow> nd = Some p)"

text \<open>Compensation began while one step was in flight: nothing is undone before it settles.\<close>

definition in_flight :: "string list \<Rightarrow> (string \<times> step_phase \<Rightarrow> step_status option) \<Rightarrow> bool" where
  "in_flight undone stat \<longleftrightarrow>
     undone = [] \<and> undo_free stat \<and>
     (\<exists>p. stat (p, Do) = Some Scheduled \<and> (\<forall>q. stat (q, Do) = Some Scheduled \<longrightarrow> q = p))"

definition saga_ok ::
  "run_state \<Rightarrow> string option \<Rightarrow> string list \<Rightarrow> string list \<Rightarrow> (string \<times> step_phase \<Rightarrow> step_status option) \<Rightarrow> bool" where
  "saga_ok st nd done undone stat =
     (case st of
        Compensating \<Rightarrow> undoing done undone stat \<or> in_flight undone stat
      | Failed \<Rightarrow> undone = rev done
      | Cancelled \<Rightarrow> undone = rev done
      | Queued \<Rightarrow> nd = None \<and> done = [] \<and> at_node nd undone stat
      | Completed \<Rightarrow> nd = None \<and> at_node nd undone stat
      | _ \<Rightarrow> at_node nd undone stat)"

definition good :: "workflow_def \<Rightarrow> run_event list \<Rightarrow> (string \<times> step_phase \<Rightarrow> step_status option) \<Rightarrow> place \<Rightarrow> bool" where
  "good def log stat pl =
     (case pl of (st, nd, fin) \<Rightarrow>
        (fin \<longleftrightarrow> st \<in> set ENDED_STATES) \<and> saga_ok st nd (done_paths def log) (undo_paths log) stat)"

text \<open>A list of events keeps a run good.\<close>

definition keeps_good ::
  "workflow_def \<Rightarrow> run_event list \<Rightarrow> (string \<times> step_phase \<Rightarrow> step_status option) \<Rightarrow> place \<Rightarrow> run_event list \<Rightarrow> bool" where
  "keeps_good def log stat pl es \<longleftrightarrow> good def (log @ es) (statuses es stat) (places es pl)"

lemma keeps_append: "keeps_good def log stat pl (xs @ ys) \<longleftrightarrow> keeps_good def (log @ xs) (statuses xs stat) (places xs pl) ys"
  by (simp add: keeps_good_def)

lemma keeps_Cons:
  "keeps_good def log stat pl (e # es) \<longleftrightarrow>
     keeps_good def (log @ [e]) (statuses [e] stat) (place_after e pl) es"
  using keeps_append [of def log stat pl "[e]" es] by simp

lemma keeps_Nil [simp]: "keeps_good def log stat pl [] \<longleftrightarrow> good def log stat pl"
  by (simp add: keeps_good_def)

text \<open>An event that is about no step, no undo and no place changes nothing of this.\<close>

fun neutral :: "run_event \<Rightarrow> bool" where
  "neutral (RunStarted d) = False"
| "neutral (JobRetried j n a b) = True"
| "neutral (SignalReceived n d a b) = True"
| "neutral (WaitEventTaken n l q d a) = True"
| "neutral (DeadlineReached a) = True"
| "neutral (CancelRequested r a e t) = True"
| "neutral (MetadataChanged c a b) = True"
| "neutral (RunTagged t a b) = True"
| "neutral (RunRescheduled s t d a b) = True"
| "neutral e = False"

lemma neutral_simps:
  assumes "neutral e"
  shows "done_path def e = []" "undo_path e = []" "step_of e = None" "place_after e pl = pl"
  using assms by (cases e; cases pl; simp)+

lemma keeps_neutral: "neutral e \<Longrightarrow> keeps_good def log stat pl (e # es) \<longleftrightarrow> keeps_good def (log @ [e]) stat pl es"
  by (simp add: keeps_Cons neutral_simps)

lemma good_neutral [simp]: "neutral e \<Longrightarrow> good def (log @ [e]) stat pl \<longleftrightarrow> good def log stat pl"
  by (cases pl) (simp add: good_def neutral_simps)

lemma keeps_all_neutral: "\<lbrakk>list_all neutral es; good def log stat pl\<rbrakk> \<Longrightarrow> keeps_good def log stat pl es"
  by (induction es arbitrary: log) (simp_all add: keeps_neutral)

section \<open>One step of compensation\<close>

lemma undo_loop_places:
  assumes "undo_loop def row kids at items = (es, over)"
  shows "\<exists>nd'. places es (Compensating, nd, fin) = (Compensating, nd', fin)"
  using assms
proof (induction items arbitrary: es)
  case Nil
  then show ?case by simp
next
  case (Cons item items)
  obtain es' over' where rest: "undo_loop def row kids at items = (es', over')" by fastforce
  show ?case using Cons.prems Cons.IH rest
    by (cases "undo_item_move def row kids at item") auto
qed

text \<open>
  From an account that undoes, with the write's own events counted, compensation goes on undoing
  or ends the run with everything undone.
\<close>

lemma compensate_keeps:
  assumes good: "undoing (done_paths def (log @ head)) (undo_paths (log @ head)) stat"
    and done_now: "done_with def log (co_done_now opts) = done_paths def (log @ head)"
    and undone_now: "co_undone_now opts + length (undo_paths log) = length (undo_paths (log @ head))"
  shows "keeps_good def (log @ head) stat (Compensating, nd, False) (compensate E def row log at opts)"
proof (cases "\<exists>k \<in> set (en_kids E). waited_for def k")
  case True
  then show ?thesis using good by (simp add: compensate_def good_def saga_ok_def ENDED_STATES_def)
next
  case False
  let ?items = "remaining_undos def (settled_of log) (co_done_now opts) (co_undone_now opts)"
  obtain es over where loop: "undo_loop def row (en_kids E) at ?items = (es, over)" by fastforce
  have items: "map ui_path ?items = to_undo (done_paths def (log @ head)) (undo_paths (log @ head))"
    by (simp add: remaining_paths done_now undone_now to_undo_def)
  note acc = undo_loop_account [OF loop good items]
  obtain nd' where pl: "places es (Compensating, nd, False) = (Compensating, nd', False)"
    using undo_loop_places [OF loop] by blast
  show ?thesis
  proof (cases over)
    case False
    then show ?thesis using loop acc pl \<open>\<not> (\<exists>k \<in> set (en_kids E). waited_for def k)\<close>
      by (simp add: compensate_def keeps_good_def good_def saga_ok_def ENDED_STATES_def)
  next
    case True
    have "undone_so_far (done_paths def (log @ head)) (undo_paths (log @ head) @ undo_paths es)"
      using acc unfolding undoing_def by blast
    moreover have "length (undo_paths (log @ head) @ undo_paths es) = length (done_paths def (log @ head))"
      using acc True by simp
    ultimately have all: "undo_paths (log @ head) @ undo_paths es = rev (done_paths def (log @ head))"
      by (rule undone_all)
    have "\<exists>e. compensate E def row log at opts = es @ [e] \<and>
      (e = RunCancelled at (keep_until_for E def EndCancelled) \<or> (\<exists>c. e = run_failed E def c at))"
      using loop True False by (auto simp: compensate_def)
    then show ?thesis using all acc pl
      by (auto simp: keeps_good_def good_def saga_ok_def run_failed_def ENDED_STATES_def)
  qed
qed

section \<open>The start of compensation\<close>

text \<open>What heads the events of a start: it leaves the place, the account and every undo as they are, and opens no step.\<close>

definition heads :: "workflow_def \<Rightarrow> (string \<times> step_phase \<Rightarrow> step_status option) \<Rightarrow> place \<Rightarrow> run_event list \<Rightarrow> bool" where
  "heads def stat pl hdr \<longleftrightarrow>
     done_paths def hdr = [] \<and> undo_paths hdr = [] \<and> places hdr pl = pl \<and>
     (\<forall>p. statuses hdr stat (p, Undo) = stat (p, Undo)) \<and>
     (\<forall>p. statuses hdr stat (p, Do) = Some Scheduled \<longrightarrow> stat (p, Do) = Some Scheduled) \<and>
     (\<forall>p. open_step (statuses hdr stat) (p, Do) \<longrightarrow> open_step stat (p, Do) \<or> fst (snd pl) = Some p)"

lemma at_node_undoing:
  assumes "at_node nd undone stat" "\<forall>p. stat (p, Do) \<noteq> Some Scheduled"
  shows "undoing done undone stat"
  using assms by (auto simp: at_node_def undoing_def undo_free_def open_step_def undone_so_far_def)

lemma at_node_heads:
  "\<lbrakk>at_node nd undone stat; heads def stat pl hdr; fst (snd pl) = nd\<rbrakk> \<Longrightarrow> at_node nd undone (statuses hdr stat)"
  by (auto simp: at_node_def heads_def undo_free_def)

lemma dropped_node_simps [simp]:
  "done_path def (dropped_node p at) = []" "undo_path (dropped_node p at) = []"
  "step_of (dropped_node p at) = Some (p, Do)" "status_after (dropped_node p at) st = Some StepSkipped"
  "place_after (dropped_node p at) pl = pl"
  by (cases pl; simp add: dropped_node_def)+

text \<open>What becomes of the current node: it stays in flight, there is none to drop, or it is dropped.\<close>

lemma drop_current_cases:
  assumes "drop_current_node E row steps at = Inr (dropped, flight)"
  obtains (flight) p where "flight" "dropped = []" "r_node row = Some p" "status_of steps (p, Do) = Some Scheduled"
  | (idle) "\<not> flight" "dropped = []" "\<forall>p. r_node row = Some p \<longrightarrow> status_of steps (p, Do) \<noteq> Some Scheduled"
  | (drop) p where "\<not> flight" "dropped = [dropped_node p at]" "r_node row = Some p"
  using assms
  by (auto simp: drop_current_node_def status_of_def split: option.splits if_splits job_fate.splits)

lemma begin_compensation_keeps:
  assumes r: "begin_compensation E def row log steps at hdr opts = Inr es"
    and good: "good def log (status_of steps) (place_of row)"
    and live: "r_state row \<in> {Queued, Running, AtPark, Completed}"
    and hdr: "heads def (status_of steps) (place_of row) hdr"
    and closed: "bo_closed opts \<Longrightarrow> \<forall>p. statuses hdr (status_of steps) (p, Do) \<noteq> Some Scheduled"
  shows "keeps_good def log (status_of steps) (place_of row) es"
proof -
  let ?stat = "statuses hdr (status_of steps)"
  let ?first = "compensate E def row log at
    \<lparr>co_cause = bo_cause opts, co_cancelling = bo_cancelling opts, co_done_now = None, co_undone_now = 0\<rparr>"
  have node: "at_node (r_node row) (undo_paths log) (status_of steps)"
    using good live by (auto simp: good_def place_of_def saga_ok_def)
  then have node': "at_node (r_node row) (undo_paths log) ?stat" using hdr
    by (rule at_node_heads) (simp add: place_of_def)
  have acc: "done_paths def hdr = []" "undo_paths hdr = []" and pl: "places hdr (place_of row) = place_of row"
    using hdr by (auto simp: heads_def)
  show ?thesis
  proof (cases "r_state row = Queued")
    case True
    with good have q: "r_node row = None" "done_paths def log = []" "undo_paths log = []" and nf: "r_finished_at row = None"
      by (auto simp: good_def place_of_def saga_ok_def at_node_def ENDED_STATES_def)
    have es: "es = hdr @ ?first" using r True by (simp add: begin_compensation_def)
    have "remaining_undos def (settled_of log) None 0 = []"
      using remaining_paths [of def log None 0] q by (simp add: done_with_def)
    then have "?first = [] \<or> (\<exists>e. ?first = [e] \<and>
        (e = RunCancelled at (keep_until_for E def EndCancelled) \<or> (\<exists>c. e = run_failed E def c at)))"
      by (auto simp: compensate_def)
    then show ?thesis using es pl q nf acc node' True
      by (auto simp: keeps_good_def good_def place_of_def saga_ok_def ENDED_STATES_def run_failed_def)
  next
    case False
    then obtain dropped flight where drop: "(if bo_closed opts then Inr ([], False) else drop_current_node E row steps at) = Inr (dropped, flight)"
      and es: "es = hdr @ [CompensationStarted at] @ dropped @ (if flight then [] else ?first)"
      using r by (auto simp: begin_compensation_def result_simps)
    have pl': "place_after (CompensationStarted at) (place_of row) = (Compensating, r_node row, False)"
      by (simp add: place_of_def)
    have only: "?stat (p, Do) = Some Scheduled \<Longrightarrow> r_node row = Some p \<and> status_of steps (p, Do) = Some Scheduled" for p
      using node' hdr by (auto simp: at_node_def open_step_def heads_def)
    have undo_here: "undoing (done_paths def log) (undo_paths log) stat'"
      if "\<forall>p. stat' (p, Do) \<noteq> Some Scheduled" "\<forall>p. stat' (p, Undo) = ?stat (p, Undo)" for stat'
      using node' that by (auto simp: undoing_def at_node_def undo_free_def open_step_def undone_so_far_def)
    have onward: "keeps_good def log (status_of steps) (place_of row) es"
      if d: "\<not> flight" "done_paths def dropped = []" "undo_paths dropped = []"
        "places dropped (Compensating, r_node row, False) = (Compensating, r_node row, False)"
        "\<forall>p. statuses dropped ?stat (p, Do) \<noteq> Some Scheduled"
        "\<forall>p. statuses dropped ?stat (p, Undo) = ?stat (p, Undo)"
    proof -
      let ?head = "hdr @ [CompensationStarted at] @ dropped"
      have "undoing (done_paths def (log @ ?head)) (undo_paths (log @ ?head)) (statuses ?head (status_of steps))"
        using undo_here [of "statuses dropped ?stat"] d acc by simp
      then have "keeps_good def (log @ ?head) (statuses ?head (status_of steps)) (Compensating, r_node row, False) ?first"
        by (rule compensate_keeps) (simp_all add: done_with_def acc d)
      then show ?thesis using es d pl pl' by (simp add: keeps_good_def)
    qed
    show ?thesis
    proof (cases "bo_closed opts")
      case True
      then show ?thesis using closed drop by (intro onward) simp_all
    next
      case nc: False
      then have "drop_current_node E row steps at = Inr (dropped, flight)" using drop by simp
      then show ?thesis
      proof (cases rule: drop_current_cases)
        case (flight p)
        have "undoing (done_paths def log) (undo_paths log) ?stat \<or> in_flight (undo_paths log) ?stat"
        proof (cases "?stat (p, Do) = Some Scheduled")
          case True
          have "q = p" if "?stat (q, Do) = Some Scheduled" for q using only [OF that] flight(3) by simp
          then have "\<exists>p. ?stat (p, Do) = Some Scheduled \<and> (\<forall>q. ?stat (q, Do) = Some Scheduled \<longrightarrow> q = p)"
            using True by blast
          moreover have "undo_paths log = []" "undo_free ?stat" using node' by (simp_all add: at_node_def)
          ultimately show ?thesis by (simp add: in_flight_def)
        next
          case False
          have "?stat (q, Do) \<noteq> Some Scheduled" for q
          proof
            assume q: "?stat (q, Do) = Some Scheduled"
            then have "q = p" using only [OF q] flight(3) by simp
            then show False using q False by simp
          qed
          then have "undoing (done_paths def log) (undo_paths log) ?stat" by (intro undo_here) simp_all
          then show ?thesis ..
        qed
        then show ?thesis using es flight pl pl' acc
          by (simp add: keeps_good_def good_def saga_ok_def ENDED_STATES_def)
      next
        case idle
        then have "?stat (q, Do) \<noteq> Some Scheduled" for q using only [of q] by fastforce
        then show ?thesis using idle(1) by (intro onward) (simp_all add: idle(2))
      next
        case (drop p)
        have "?stat (q, Do) \<noteq> Some Scheduled" if "q \<noteq> p" for q using only drop(3) that by auto
        then have "\<forall>q. statuses dropped ?stat (q, Do) \<noteq> Some Scheduled" by (simp add: drop(2))
        then show ?thesis using drop(1) by (intro onward) (simp_all add: drop(2))
      qed
    qed
  qed
qed

end
