(* ===== verification/JournalKept.thy ===== *)
theory JournalKept
  imports JournalPlace
begin

text \<open>
  Every door to a run keeps the account of its saga: the events a decision writes move the run to
  a place that fits what is done and undone.
\<close>

section \<open>A run that goes on\<close>

text \<open>The run is before compensation, unfinished, and no step of it is open.\<close>

definition idle :: "workflow_def \<Rightarrow> run_event list \<Rightarrow> (string \<times> step_phase \<Rightarrow> step_status option) \<Rightarrow> place \<Rightarrow> bool" where
  "idle def log stat pl \<longleftrightarrow>
     fst pl \<in> {Running, AtPark} \<and> snd (snd pl) = False \<and>
     undo_paths log = [] \<and> undo_free stat \<and> (\<forall>p. \<not> open_step stat (p, Do))"

lemma idle_scheduled:
  "\<lbrakk>idle def log stat pl; sch_phase d = Do\<rbrakk> \<Longrightarrow> keeps_good def log stat pl [NodeScheduled d]"
  by (cases pl) (auto simp: keeps_good_def good_def saga_ok_def at_node_def idle_def undo_free_def open_step_def ENDED_STATES_def)

lemma idle_ended:
  "idle def log stat pl \<Longrightarrow> keeps_good def log stat pl [RunCompleted out at k]"
  "idle def log stat pl \<Longrightarrow> keeps_good def log stat pl [RunExpired at k]"
  by (cases pl; auto simp: keeps_good_def good_def saga_ok_def at_node_def idle_def ENDED_STATES_def)+

lemma idle_after: "idle def log stat pl \<Longrightarrow> keeps_good def log stat pl (events_after log' row route at)"
  by (auto simp: events_after_def schedule_def intro!: idle_scheduled idle_ended split: route.splits)

text \<open>The current step settles: the run is idle.\<close>

definition settles_do :: "string \<Rightarrow> run_event \<Rightarrow> bool" where
  "settles_do path e \<longleftrightarrow>
     step_of e = Some (path, Do) \<and> undo_path e = [] \<and> (\<forall>pl. place_after e pl = pl) \<and>
     (\<forall>st. status_after e st \<noteq> Some Scheduled \<and> status_after e st \<noteq> Some StepFailed)"

lemma settles_do_simps [simp]:
  "settles_do p (completed_do p r at)" "settles_do p (completed_by p Do r by at)"
  "settles_do p (skipped_by p Do c w at)" "settles_do p (dropped_node p at)"
  by (auto simp: settles_do_def completed_do_def completed_by_def skipped_by_def dropped_node_def)

lemma settle_idle:
  assumes "settles_do p e" and "good def log stat (st, Some p, fin)" and "st \<in> {Running, AtPark}"
  shows "idle def (log @ [e]) (statuses [e] stat) (st, Some p, fin)"
  using assms by (auto simp: settles_do_def good_def saga_ok_def at_node_def idle_def undo_free_def
      open_step_def ENDED_STATES_def)

lemma settle_then:
  assumes "settles_do p e" and "good def log stat (st, Some p, fin)" and "st \<in> {Running, AtPark}"
    and "\<And>log stat pl. idle def log stat pl \<Longrightarrow> keeps_good def log stat pl es"
  shows "keeps_good def log stat (st, Some p, fin) (e # es)"
  using assms settle_idle [OF assms(1-3)] by (simp add: keeps_Cons settles_do_def)

section \<open>Heads of compensation\<close>

lemma heads_neutral: "list_all neutral hdr \<Longrightarrow> heads def stat pl hdr"
  by (induction hdr) (auto simp: heads_def neutral_simps)

lemma heads_failed:
  "place = (st, Some p, fin) \<Longrightarrow> heads def stat place [failed_node steps p err at]"
  "place = (st, Some p, fin) \<Longrightarrow> heads def stat place [failed_attempt p Do n err at]"
  by (auto simp: heads_def failed_node_def failed_attempt_def open_step_def)

lemma heads_dropped:
  "place = (st, Some p, fin) \<Longrightarrow> heads def stat place [DeadlineReached at', dropped_node p at]"
  by (auto simp: heads_def open_step_def)

text \<open>Closed: the head leaves no step scheduled.\<close>

lemma closed_at:
  assumes "good def log stat (st, Some p, fin)" "st \<in> {Queued, Running, AtPark, Completed}"
    and "statuses hdr stat (p, Do) \<noteq> Some Scheduled" "heads def stat (st, Some p, fin) hdr"
  shows "\<forall>q. statuses hdr stat (q, Do) \<noteq> Some Scheduled"
proof
  fix q
  show "statuses hdr stat (q, Do) \<noteq> Some Scheduled"
  proof
    assume *: "statuses hdr stat (q, Do) = Some Scheduled"
    then have "stat (q, Do) = Some Scheduled" using assms(4) by (simp add: heads_def)
    then have "q = p" using assms(1,2)
      by (auto simp: good_def saga_ok_def at_node_def open_step_def)
    then show False using * assms(3) by simp
  qed
qed

section \<open>Waits\<close>

text \<open>The run is at a node before compensation.\<close>

definition run_at :: "workflow_def \<Rightarrow> run_event list \<Rightarrow> step_table \<Rightarrow> run_row \<Rightarrow> string \<Rightarrow> bool" where
  "run_at def log steps row p \<longleftrightarrow>
     good def log (status_of steps) (place_of row) \<and> r_state row \<in> {Running, AtPark} \<and> r_node row = Some p"

lemma run_at_place: "run_at def log steps row p \<Longrightarrow> place_of row = (r_state row, Some p, r_finished_at row \<noteq> None)"
  by (simp add: run_at_def place_of_def)

lemma begin_closed_keeps:
  assumes "begin_compensation E def row log steps at hdr (closed_by why) = Inr es" "run_at def log steps row p"
    and "heads def (status_of steps) (place_of row) hdr" "statuses hdr (status_of steps) (p, Do) \<noteq> Some Scheduled"
  shows "keeps_good def log (status_of steps) (place_of row) es"
proof (rule begin_compensation_keeps [OF assms(1)])
  show "good def log (status_of steps) (place_of row)" "r_state row \<in> {Queued, Running, AtPark, Completed}"
    "heads def (status_of steps) (place_of row) hdr"
    using assms by (auto simp: run_at_def)
  show "\<forall>q. statuses hdr (status_of steps) (q, Do) \<noteq> Some Scheduled"
    using assms closed_at [of def log "status_of steps" "r_state row" p "r_finished_at row \<noteq> None" hdr]
    by (auto simp: run_at_def place_of_def)
qed

lemma begin_open_keeps:
  assumes "begin_compensation E def row log steps at hdr opts = Inr es" "\<not> bo_closed opts"
    and "good def log (status_of steps) (place_of row)" "r_state row \<in> {Queued, Running, AtPark, Completed}"
    and "list_all neutral hdr"
  shows "keeps_good def log (status_of steps) (place_of row) es"
  using assms by (intro begin_compensation_keeps [OF assms(1)]) (auto intro: heads_neutral)

lemma fail_wait_keeps:
  assumes "fail_wait E def row log steps p why at = Inr es" "run_at def log steps row p"
  shows "keeps_good def log (status_of steps) (place_of row) es"
  using assms heads_failed(1) [OF run_at_place [OF assms(2)]]
  by (intro begin_closed_keeps [OF assms(1) [unfolded fail_wait_def] assms(2)]) (simp_all add: failed_node_def)

lemma complete_wait_keeps:
  assumes r: "complete_wait E def index row log steps result at = Inr es" and at: "run_at def log steps row p"
    and i: "index < length (wd_nodes def)" "wn_name (wd_nodes def ! index) = p"
  shows "keeps_good def log (status_of steps) (place_of row) es"
proof -
  let ?live = "row\<lparr>r_results := AList.update p result (r_results row)\<rparr>"
  show ?thesis
  proof (cases "rbind (index_after_wait def index ?live result) (\<lambda>target. route_at E def target ?live p result)")
    case (Inl why)
    then have "fail_wait E def row log steps p why at = Inr es" using r i by (simp add: complete_wait_def Let_def)
    then show ?thesis using at by (rule fail_wait_keeps)
  next
    case (Inr route)
    then have es: "es = completed_do p result at # events_after log row route at"
      using r i by (simp add: complete_wait_def Let_def)
    show ?thesis using at unfolding es run_at_place [OF at]
      by (intro settle_then) (auto simp: run_at_def place_of_def idle_after)
  qed
qed

lemma take_event_keeps:
  assumes "take_event E def index row log steps label seq delivery pointer at = Inr es" "run_at def log steps row p"
    "index < length (wd_nodes def)" "wn_name (wd_nodes def ! index) = p"
  shows "keeps_good def log (status_of steps) (place_of row) es"
proof -
  obtain es' where es': "complete_wait E def index row log steps pointer at = Inr es'"
    and es: "es = WaitEventTaken p label seq delivery at # es'"
    using assms by (auto simp: take_event_def Let_def result_simps)
  have at': "run_at def (log @ [WaitEventTaken p label seq delivery at]) steps row p"
    using assms(2) by (simp add: run_at_def)
  have "keeps_good def log (status_of steps) (place_of row) es'" by (rule complete_wait_keeps [OF es' assms(2-4)])
  then have "keeps_good def (log @ [WaitEventTaken p label seq delivery at]) (status_of steps) (place_of row) es'"
    by (cases "places es' (place_of row)") (simp add: keeps_good_def good_def)
  then show ?thesis by (simp add: es keeps_neutral)
qed

lemma wake_on_signal_keeps:
  assumes "wake_on_signal E def index row log steps payload at = Inr es" "run_at def log steps row p"
    "index < length (wd_nodes def)" "wn_name (wd_nodes def ! index) = p"
  shows "keeps_good def log (status_of steps) (place_of row) es"
  using assms
  by (auto simp: wake_on_signal_def intro: fail_wait_keeps complete_wait_keeps
      split: wf_node.splits sum.splits option.splits if_splits)

text \<open>Events that change neither place, account nor steps may go in front.\<close>

lemma keeps_behind:
  assumes "keeps_good def log stat pl es" "neutral e"
  shows "keeps_good def log stat pl (e # es)"
  using assms by (cases "places es pl") (simp add: keeps_good_def good_def neutral_simps)

lemma index_of_node_name:
  "index_of_node ns path = Some i \<Longrightarrow> i < length ns \<and> wn_name (ns ! i) = path"
  by (induction ns arbitrary: i) (auto split: if_splits)

section \<open>A run that compensates\<close>

text \<open>The step in flight settles, whatever became of it: the undos begin.\<close>

lemma flight_settles:
  assumes "good def log stat (Compensating, nd, False)" "stat (p, Do) = Some Scheduled"
    and "step_of e = Some (p, Do)" "undo_path e = []" "\<forall>st. status_after e st \<noteq> Some Scheduled"
  shows "undo_paths log = [] \<and> undoing done (undo_paths (log @ [e])) (statuses [e] stat)"
  using assms
  by (auto simp: good_def saga_ok_def in_flight_def undoing_def undo_free_def undone_so_far_def open_step_def)

lemma flight_keeps:
  assumes g: "good def log stat (Compensating, nd, False)" "stat (p, Do) = Some Scheduled"
    and e: "step_of e = Some (p, Do)" "undo_path e = []" "\<forall>st. status_after e st \<noteq> Some Scheduled"
      "\<forall>pl. place_after e pl = pl"
    and opts: "done_with def log (co_done_now opts) = done_paths def (log @ [e])" "co_undone_now opts = 0"
  shows "keeps_good def log stat (Compensating, nd, False) (e # compensate E def row log at opts)"
proof -
  note s = flight_settles [OF g e(1-3), of "done_paths def (log @ [e])"]
  have "keeps_good def (log @ [e]) (statuses [e] stat) (Compensating, nd, False) (compensate E def row log at opts)"
    using s opts e(2) by (intro compensate_keeps) auto
  then show ?thesis using e(4) by (simp add: keeps_Cons)
qed

text \<open>An undo settles: the next one goes on.\<close>

lemma undo_keeps:
  assumes g: "good def log stat (Compensating, nd, False)" "open_step stat (p, Undo)"
    and e: "step_of e = Some (p, Undo)" "undo_path e = [p]" "done_path def e = []"
      "\<forall>st. status_after e st = Some s" "s = StepDone \<or> s = StepSkipped" "\<forall>pl. place_after e pl = pl"
    and opts: "co_done_now opts = None" "co_undone_now opts = 1"
  shows "keeps_good def log stat (Compensating, nd, False) (e # compensate E def row log at opts)"
proof -
  have u: "undoing (done_paths def log) (undo_paths log) stat"
    using g by (auto simp: good_def saga_ok_def in_flight_def undo_free_def open_step_def)
  then have p: "length (undo_paths log) < length (done_paths def log)" "p = rev (done_paths def log) ! length (undo_paths log)"
    using g(2) by (auto simp: undoing_def)
  have st: "statuses [e] stat = (\<lambda>k. if (p, Undo) = k then Some s else stat k)"
    using e(1,4) by (auto simp: fun_eq_iff)
  have "undoing (done_paths def (log @ [e])) (undo_paths (log @ [e])) (statuses [e] stat)"
    using undoing_settled [OF u p e(5)] e(2,3) by (simp only: st) simp
  then have "keeps_good def (log @ [e]) (statuses [e] stat) (Compensating, nd, False) (compensate E def row log at opts)"
    by (rule compensate_keeps) (simp_all add: done_with_def opts e)
  then show ?thesis using e(6) by (simp add: keeps_Cons)
qed

text \<open>A failed undo stays, or goes again.\<close>

lemma undo_failed_keeps:
  assumes "good def log stat (Compensating, nd, False)" "open_step stat (p, Undo)"
  shows "keeps_good def log stat (Compensating, nd, False) [failed_attempt p Undo n err at]"
    "sch_path d = p \<Longrightarrow> sch_phase d = Undo \<Longrightarrow> keeps_good def log stat (Compensating, nd, False) [NodeScheduled d]"
    "sch_path d = p \<Longrightarrow> sch_phase d = Undo \<Longrightarrow>
       keeps_good def log stat (Compensating, nd, False) [failed_attempt p Undo n err at, NodeScheduled d]"
  using assms
  by (auto simp: keeps_good_def good_def saga_ok_def undoing_def in_flight_def undo_free_def open_step_def
      failed_attempt_def ENDED_STATES_def)

section \<open>The checkpoint\<close>

text \<open>The outcomes an attempt of each phase can have.\<close>

fun fits_phase :: "outcome \<Rightarrow> step_phase \<Rightarrow> bool" where
  "fits_phase (Undone r) ph = (ph = Undo)"
| "fits_phase (Retries e k t) ph = True"
| "fits_phase (Dies e) ph = True"
| "fits_phase o' ph = (ph = Do)"

lemma done_with_completed:
  "done_with def log (Some (p, r)) = done_paths def (log @ [completed_by p Do r by at])"
  "done_with def log None = done_paths def (log @ [skipped_by p Do c w at])"
  "done_with def log None = done_paths def (log @ [failed_attempt p Do n w at])"
  "done_with def log None = done_paths def (log @ [dropped_node p at])"
  by (simp_all add: done_with_def completed_by_def skipped_by_def failed_attempt_def)

lemma flight_all_keep:
  assumes g: "good def log stat (Compensating, nd, False)" "stat (p, Do) = Some Scheduled"
  shows "keeps_good def log stat (Compensating, nd, False) (completed_by p Do r by at # compensate E def row log at' (caused_by c\<lparr>co_done_now := Some (p, r)\<rparr>))"
    "keeps_good def log stat (Compensating, nd, False) (skipped_by p Do k w at # compensate E def row log at' (caused_by c))"
    "keeps_good def log stat (Compensating, nd, False) (failed_attempt p Do n w at # compensate E def row log at' (caused_by c))"
    "keeps_good def log stat (Compensating, nd, False) (dropped_node p at # compensate E def row log at' (caused_by c))"
  by (rule flight_keeps [OF g];
      simp add: caused_by_def done_with_def completed_by_def skipped_by_def failed_attempt_def)+

text \<open>While a run compensates, an attempt of a step that failed before is not reported again.\<close>

definition timely :: "step_table \<Rightarrow> run_row \<Rightarrow> string \<Rightarrow> step_phase \<Rightarrow> outcome \<Rightarrow> bool" where
  "timely steps row path ph outcome \<longleftrightarrow>
     fits_phase outcome ph \<and>
     (outcome = Drops \<longrightarrow> r_state row = Compensating) \<and>
     (r_state row = Compensating \<and> ph = Do \<longrightarrow> status_of steps (path, Do) = Some Scheduled)"

lemma awaits_open: "awaits_attempt steps path ph n \<Longrightarrow> open_step (status_of steps) (path, ph)"
  by (auto simp: awaits_attempt_def open_step_def status_of_def split: option.splits)

lemma with_signals_Inr: "with_signals gs r = Inr (es, hs) \<longleftrightarrow> r = Inr es \<and> hs = gs"
  by (auto simp: with_signals_def result_simps)

text \<open>Where an awaited attempt finds a run that is not finished.\<close>

lemma awaited_place:
  assumes "good def log (status_of steps) (place_of row)" "r_finished_at row = None"
    and "open_step (status_of steps) (path, ph)" "r_state row \<noteq> Compensating"
  shows "ph = Do \<and> run_at def log steps row path"
proof -
  have live: "r_state row \<in> {Queued, Running, AtPark}"
    using assms(1,2,4) by (cases "r_state row") (auto simp: good_def place_of_def ENDED_STATES_def)
  then have at: "at_node (r_node row) (undo_paths log) (status_of steps)"
    using assms(1) by (auto simp: good_def place_of_def saga_ok_def)
  then have "ph = Do" using assms(3) by (cases ph) (auto simp: at_node_def undo_free_def open_step_def)
  moreover have "r_node row = Some path" using at assms(3) calculation by (auto simp: at_node_def)
  moreover have "r_state row \<noteq> Queued"
    using assms(1) calculation(2) by (auto simp: good_def place_of_def saga_ok_def)
  ultimately show ?thesis using live assms(1) by (auto simp: run_at_def)
qed

lemma park_scheduled_keeps:
  assumes "run_at def log steps row p"
  shows "prk_node d = p \<Longrightarrow> keeps_good def log (status_of steps) (place_of row) [Parked d]"
    "pln_path c = p \<Longrightarrow> keeps_good def log (status_of steps) (place_of row) [ChildrenPlanned c]"
  using assms
  by (auto simp: run_at_def place_of_def keeps_good_def good_def saga_ok_def at_node_def undo_free_def
      open_step_def ENDED_STATES_def)

lemma retry_keeps:
  assumes "run_at def log steps row p" "sch_path d = p" "sch_phase d = Do"
  shows "keeps_good def log (status_of steps) (place_of row) [NodeScheduled d]"
    "keeps_good def log (status_of steps) (place_of row) [failed_attempt p Do n err at, NodeScheduled d]"
    "keeps_good def log (status_of steps) (place_of row) [failed_attempt p Do n err at]"
  using assms
  by (auto simp: run_at_def place_of_def keeps_good_def good_def saga_ok_def at_node_def undo_free_def
      open_step_def failed_attempt_def ENDED_STATES_def)

lemma compensating_flight:
  assumes "good def log (status_of steps) (place_of row)" "r_state row = Compensating"
  shows "place_of row = (Compensating, r_node row, False)"
  using assms by (simp add: good_def place_of_def ENDED_STATES_def)

lemma checkpoint_park_keeps:
  assumes r: "checkpoint_park E def row s path waiting wake found at = Inr (es, gs)"
    and g: "good def (sr_log s) (status_of (sr_steps s)) (place_of row)"
    and live: "r_state row \<noteq> Compensating \<Longrightarrow> run_at def (sr_log s) (sr_steps s) row path"
    and flight: "r_state row = Compensating \<Longrightarrow> status_of (sr_steps s) (path, Do) = Some Scheduled"
  shows "keeps_good def (sr_log s) (status_of (sr_steps s)) (place_of row) es"
proof (cases "r_state row = Compensating")
  case True
  with r obtain i where "es = dropped_node path at # compensate E def row (sr_log s) at (caused_by None) "
    by (auto simp: checkpoint_park_def Let_def with_signals_Inr split: option.splits if_splits)
  then show ?thesis
    using flight_all_keep(4) g flight compensating_flight [OF g] True by auto
next
  case False
  note at = live [OF False]
  show ?thesis
  proof (cases "r_state row = AtPark")
    case True
    then show ?thesis using r g by (auto simp: checkpoint_park_def Let_def)
  next
    case nparked: False
    obtain index where i: "index_of_node (wd_nodes def) path = Some index" and w: "is_wait_node (wd_nodes def ! index)"
      using r nparked by (auto simp: checkpoint_park_def Let_def split: option.splits if_splits)
    note name = index_of_node_name [OF i]
    have parked: "keeps_good def (sr_log s) (status_of (sr_steps s)) (place_of row)
        [Parked \<lparr>prk_node = path, prk_waiting_for = waiting, prk_wake_at = wake, prk_priority = r_priority row, prk_at = at\<rparr>]"
      using park_scheduled_keeps(1) [OF at] by simp
    show ?thesis
    proof (cases "past_deadline E row")
      case True
      then have "begin_compensation E def row (sr_log s) (sr_steps s) at [DeadlineReached at, dropped_node path at]
          (closed_by ''the run deadline passed before it finished'') = Inr es"
        using r nparked False i w by (simp add: checkpoint_park_def Let_def with_signals_Inr)
      then show ?thesis
        using at heads_dropped [OF run_at_place [OF at]] by (rule begin_closed_keeps) simp
    next
      case nd: False
      show ?thesis
        using r nparked False i w nd name parked at
        by (auto simp: checkpoint_park_def Let_def with_signals_Inr
            intro: fail_wait_keeps take_event_keeps wake_on_signal_keeps
            split: wf_node.splits option.splits taken_event.splits)
    qed
  qed
qed

end
