(* ===== verification/JournalDoors.thy ===== *)
theory JournalDoors
  imports JournalKept
begin

text \<open>
  Every call keeps a run good: the cases of the checkpoint, timers, signals, cancel, the verbs.
  With the start of a run this gives the invariant of its histories.
\<close>

section \<open>The checkpoint\<close>

lemma stop_keeps:
  assumes "begin_compensation E def row log steps at [failed_attempt p Do n err at'] (closed_by why) = Inr es"
    and "run_at def log steps row p"
  shows "keeps_good def log (status_of steps) (place_of row) es"
  using assms(1,2) heads_failed(2) [OF run_at_place [OF assms(2)]]
  by (rule begin_closed_keeps) (simp add: failed_attempt_def)

lemma checkpoint_children_keeps:
  assumes r: "checkpoint_children E def row s path plan at = Inr es"
    and g: "good def (sr_log s) (status_of (sr_steps s)) (place_of row)"
    and live: "r_state row \<noteq> Compensating \<Longrightarrow> run_at def (sr_log s) (sr_steps s) row path"
    and flight: "r_state row = Compensating \<Longrightarrow> status_of (sr_steps s) (path, Do) = Some Scheduled"
  shows "keeps_good def (sr_log s) (status_of (sr_steps s)) (place_of row) es"
proof (cases "r_state row = Compensating")
  case True
  then have "es = dropped_node path at # compensate E def row (sr_log s) at (caused_by None)"
    using r by (auto simp: checkpoint_children_def split: if_splits)
  then show ?thesis
    using flight_all_keep(4) g flight compensating_flight [OF g] True by auto
next
  case False
  note at = live [OF False]
  then show ?thesis
    using r g False begin_closed_keeps [OF _ at heads_dropped [OF run_at_place [OF at]]]
      park_scheduled_keeps(2) [OF at]
    by (auto simp: checkpoint_children_def split: if_splits)
qed

lemma skipped_by_simps [simp]:
  "step_of (skipped_by p ph c w at) = Some (p, ph)" "status_after (skipped_by p ph c w at) st = Some StepSkipped"
  by (simp_all add: skipped_by_def)

lemma undone_by:
  "step_of (completed_by p Undo r by at) = Some (p, Undo)" "undo_path (completed_by p Undo r by at) = [p]"
  "done_path def (completed_by p Undo r by at) = []" "status_after (completed_by p Undo r by at) st = Some StepDone"
  "place_after (completed_by p Undo r by at) pl = pl"
  by (cases pl; simp add: completed_by_def)+

lemma live_outcome_keeps:
  assumes r: "checkpoint_outcome E def row s path Do n outcome at = Inr (es, gs)"
    and at: "run_at def (sr_log s) (sr_steps s) row path" and nf: "r_finished_at row = None"
    and nc: "r_state row \<noteq> Compensating" and t: "timely (sr_steps s) row path Do outcome"
  shows "keeps_good def (sr_log s) (status_of (sr_steps s)) (place_of row) es"
proof -
  have g: "good def (sr_log s) (status_of (sr_steps s)) (place_of row)" using at by (simp add: run_at_def)
  have pl: "place_of row = (r_state row, Some path, False)" using run_at_place [OF at] nf by simp
  have st: "r_state row \<in> {Running, AtPark}" using at by (simp add: run_at_def)
  note settled = settle_then [OF _ g [unfolded pl] st]
  show ?thesis
  proof (cases outcome)
    case (Completes result route by')
    then show ?thesis using r nc settled idle_after
      by (auto simp: checkpoint_outcome_def Let_def with_signals_Inr pl)
  next
    case (Skips reason route)
    then show ?thesis using r nc settled idle_after
      by (auto simp: checkpoint_outcome_def Let_def with_signals_Inr pl)
  next
    case (Retries err key due)
    then show ?thesis using r nc retry_keeps(2) [OF at]
      by (auto simp: checkpoint_outcome_def Let_def with_signals_Inr schedule_def)
  next
    case (Dies err)
    then show ?thesis using r nc retry_keeps(3) [OF at, where d = "schedule path Do 1 [] 0 row"] stop_keeps [OF _ at]
      by (auto simp: checkpoint_outcome_def Let_def with_signals_Inr schedule_def split: if_splits)
  next
    case (PassesTransitionLimit err)
    then show ?thesis using r nc stop_keeps [OF _ at]
      by (auto simp: checkpoint_outcome_def Let_def with_signals_Inr)
  next
    case (Parks waiting wake found)
    then show ?thesis using r nc at g
      by (auto simp: checkpoint_outcome_def Let_def intro: checkpoint_park_keeps)
  next
    case (PlansChildren plan)
    then show ?thesis using r nc at g
      by (auto simp: checkpoint_outcome_def Let_def with_signals_Inr intro: checkpoint_children_keeps)
  next
    case Expires
    then show ?thesis using r nc g settled idle_ended(2)
      by (auto simp: checkpoint_outcome_def Let_def with_signals_Inr pl split: if_splits)
  qed (use t nc in \<open>auto simp: timely_def\<close>)
qed

lemma compensating_outcome_keeps:
  assumes r: "checkpoint_outcome E def row s path ph n outcome at = Inr (es, gs)"
    and g: "good def (sr_log s) (status_of (sr_steps s)) (place_of row)"
    and c: "r_state row = Compensating" and t: "timely (sr_steps s) row path ph outcome"
    and o': "open_step (status_of (sr_steps s)) (path, ph)"
  shows "keeps_good def (sr_log s) (status_of (sr_steps s)) (place_of row) es"
proof (cases ph)
  case Do
  have pl: "place_of row = (Compensating, r_node row, False)" by (rule compensating_flight [OF g c])
  have f: "status_of (sr_steps s) (path, Do) = Some Scheduled" using t c Do by (simp add: timely_def)
  note keep = flight_all_keep [OF g [unfolded pl] f]
  show ?thesis
  proof (cases outcome)
    case (Completes result route by')
    then show ?thesis using r c Do keep(1) by (auto simp: checkpoint_outcome_def Let_def with_signals_Inr pl)
  next
    case (Skips reason route)
    then show ?thesis using r c Do keep(2) by (auto simp: checkpoint_outcome_def Let_def with_signals_Inr pl)
  next
    case (Retries err key due)
    then show ?thesis using r c Do keep(3) by (auto simp: checkpoint_outcome_def Let_def with_signals_Inr pl)
  next
    case (Dies err)
    then show ?thesis using r c Do keep(3) by (auto simp: checkpoint_outcome_def Let_def with_signals_Inr pl)
  next
    case (PassesTransitionLimit err)
    then show ?thesis using r c Do keep(3) by (auto simp: checkpoint_outcome_def Let_def with_signals_Inr pl)
  next
    case (Parks waiting wake found)
    then show ?thesis using r c f g by (auto simp: checkpoint_outcome_def Let_def intro: checkpoint_park_keeps)
  next
    case (PlansChildren plan)
    then show ?thesis using r c f g
      by (auto simp: checkpoint_outcome_def Let_def with_signals_Inr intro: checkpoint_children_keeps)
  next
    case Drops
    then show ?thesis using r c Do keep(2) by (auto simp: checkpoint_outcome_def Let_def with_signals_Inr pl)
  next
    case Expires
    then show ?thesis using r c g
      by (auto simp: checkpoint_outcome_def Let_def with_signals_Inr expires_now_def not_started_def split: option.splits)
  next
    case (Undone result)
    then show ?thesis using t Do by (simp add: timely_def)
  qed
next
  case Undo
  have pl: "place_of row = (Compensating, r_node row, False)" by (rule compensating_flight [OF g c])
  have u: "open_step (status_of (sr_steps s)) (path, Undo)" using o' Undo by simp
  show ?thesis
  proof (cases outcome)
    case (Undone result)
    have "keeps_good def (sr_log s) (status_of (sr_steps s)) (Compensating, r_node row, False)
        (completed_by path Undo result None at # compensate E def row (sr_log s) at (caused_by None\<lparr>co_undone_now := 1\<rparr>))"
      by (rule undo_keeps [OF g [unfolded pl] u, where s = StepDone]) (simp_all add: undone_by caused_by_def)
    then show ?thesis using r Undone Undo by (auto simp: checkpoint_outcome_def Let_def with_signals_Inr pl)
  next
    case (Retries err key due)
    then show ?thesis using r Undo undo_failed_keeps(3) [OF g [unfolded pl] u]
      by (auto simp: checkpoint_outcome_def Let_def with_signals_Inr pl schedule_def)
  next
    case (Dies err)
    then show ?thesis using r Undo undo_failed_keeps(1) [OF g [unfolded pl] u]
      by (auto simp: checkpoint_outcome_def Let_def with_signals_Inr pl)
  qed (use t Undo in \<open>auto simp: timely_def\<close>)
qed

text \<open>What a call keeps of a run with a row: its account, for the code it is pinned to.\<close>

definition kept_good :: "registry \<Rightarrow> stored_run \<Rightarrow> run_row \<Rightarrow> run_event list \<Rightarrow> bool" where
  "kept_good reg s row es \<longleftrightarrow>
     (\<forall>def. code_of reg row = Inr def \<and> good def (sr_log s) (status_of (sr_steps s)) (place_of row) \<longrightarrow>
        keeps_good def (sr_log s) (status_of (sr_steps s)) (place_of row) es)"

lemma kept_good_Nil [simp]: "kept_good reg s row []"
  by (simp add: kept_good_def)

lemma kept_good_neutral: "list_all neutral es \<Longrightarrow> kept_good reg s row es"
  by (simp add: kept_good_def keeps_all_neutral)

lemma checkpoint_good:
  assumes r: "checkpoint reg E path ph n outcome s = Inr (es, gs)" and s: "sr_row s = Some row"
    and t: "timely (sr_steps s) row path ph outcome"
  shows "kept_good reg s row es"
proof (cases "r_finished_at row \<noteq> None \<or> \<not> awaits_attempt (sr_steps s) path ph n")
  case True
  then show ?thesis using r s by (auto simp: checkpoint_def)
next
  case False
  then have o': "open_step (status_of (sr_steps s)) (path, ph)" using awaits_open by blast
  obtain def where d: "code_of reg row = Inr def" and out: "checkpoint_outcome E def row s path ph n outcome (en_now E) = Inr (es, gs)"
    using r s False by (auto simp: checkpoint_def result_simps)
  show ?thesis unfolding kept_good_def
  proof (intro allI impI)
    fix def'
    assume *: "code_of reg row = Inr def' \<and> good def' (sr_log s) (status_of (sr_steps s)) (place_of row)"
    then have g: "good def (sr_log s) (status_of (sr_steps s)) (place_of row)" and "def' = def" using d by auto
    have "keeps_good def (sr_log s) (status_of (sr_steps s)) (place_of row) es"
    proof (cases "r_state row = Compensating")
      case True
      then show ?thesis using compensating_outcome_keeps [OF out g True t o'] by simp
    next
      case nc: False
      have "ph = Do" "run_at def (sr_log s) (sr_steps s) row path"
        using awaited_place [OF g _ o' nc] False by auto
      then show ?thesis using live_outcome_keeps [of E def row s path n outcome "en_now E" es gs] out t False nc by auto
    qed
    then show "keeps_good def' (sr_log s) (status_of (sr_steps s)) (place_of row) es" using \<open>def' = def\<close> by simp
  qed
qed

section \<open>Timers, wakes and signals\<close>

lemma kept_goodI:
  assumes "\<And>def. \<lbrakk>code_of reg row = Inr def; good def (sr_log s) (status_of (sr_steps s)) (place_of row)\<rbrakk> \<Longrightarrow>
    keeps_good def (sr_log s) (status_of (sr_steps s)) (place_of row) es"
  shows "kept_good reg s row es"
  using assms by (auto simp: kept_good_def)

lemma parked_at:
  assumes "good def (sr_log s) (status_of (sr_steps s)) (place_of row)" "r_state row = AtPark" "r_node row = Some p"
  shows "run_at def (sr_log s) (sr_steps s) row p"
  using assms by (simp add: run_at_def)

lemma live_states:
  assumes "good def log stat (place_of row)" "r_finished_at row = None" "r_state row \<noteq> Compensating"
  shows "r_state row \<in> {Queued, Running, AtPark, Completed}"
  using assms by (cases "r_state row") (auto simp: good_def place_of_def ENDED_STATES_def)

lemma deadline_keeps:
  assumes "deadline_events E def row log steps at = Inr es"
    and "good def log (status_of steps) (place_of row)" "r_state row \<in> {Queued, Running, AtPark, Completed}"
  shows "keeps_good def log (status_of steps) (place_of row) es"
  using assms by (intro begin_open_keeps [OF assms(1) [unfolded deadline_events_def]]) simp_all

lemma timer_keeps:
  assumes "keeps_good def log stat (AtPark, Some p, fin) es"
    and "places es (Running, Some p, fin) = places es (AtPark, Some p, fin)"
  shows "keeps_good def log stat (AtPark, Some p, fin) (TimerFired n at # es)"
  using assms by (cases "places es (AtPark, Some p, fin)") (simp add: keeps_good_def good_def)

text \<open>What a fired timer writes after its own event moves the run from running as from parked.\<close>

lemma places_moved:
  "places (completed_do p r at # events_after log row route at') (Running, nd, fin) =
   places (completed_do p r at # events_after log row route at') (AtPark, nd, fin)"
  by (cases route) (simp_all add: events_after_def completed_do_def)

lemma fail_wait_moved:
  assumes "fail_wait E def row log steps p why at = Inr es" "r_state row = AtPark"
  shows "places es (Running, nd, fin) = places es (AtPark, nd, fin)"
proof -
  obtain es' where "es = failed_node steps p why at # CompensationStarted at # es'"
    using assms by (auto simp: fail_wait_def begin_compensation_def closed_by_def result_simps)
  then show ?thesis by (simp add: failed_node_def)
qed

lemma complete_wait_moved:
  assumes "complete_wait E def index row log steps r at = Inr es" "r_state row = AtPark"
  shows "places es (Running, nd, fin) = places es (AtPark, nd, fin)"
  using assms places_moved fail_wait_moved
  by (auto simp: complete_wait_def Let_def split: sum.splits)

lemma timed_out_keeps:
  assumes r: "timed_out E def index row s name at = Inr es"
    and at: "run_at def (sr_log s) (sr_steps s) row name" and p: "r_state row = AtPark"
    and i: "index < length (wd_nodes def)" "wn_name (wd_nodes def ! index) = name"
  shows "keeps_good def (sr_log s) (status_of (sr_steps s)) (place_of row) es"
proof -
  have pl: "place_of row = (AtPark, Some name, r_finished_at row \<noteq> None)"
    using run_at_place [OF at] p by simp
  obtain es' where es: "es = TimerFired name at # es'"
    and w: "(\<exists>why. fail_wait E def row (sr_log s) (sr_steps s) name why at = Inr es') \<or>
      complete_wait E def index row (sr_log s) (sr_steps s) JNull at = Inr es'"
    using r i by (auto simp: timed_out_def Let_def result_simps split: wf_node.splits on_timeout.splits)
  then have "keeps_good def (sr_log s) (status_of (sr_steps s)) (place_of row) es'"
    using fail_wait_keeps [OF _ at] complete_wait_keeps [OF _ at i] by blast
  moreover have "places es' (Running, nd, fin) = places es' (AtPark, nd, fin)" for nd fin
    using w fail_wait_moved [OF _ p] complete_wait_moved [OF _ p] by metis
  ultimately show ?thesis unfolding es pl by (rule timer_keeps)
qed

lemma wake_on_event_keeps:
  assumes "wake_on_event E def index row s name found at = Inr es"
    and "run_at def (sr_log s) (sr_steps s) row name"
    and "index < length (wd_nodes def)" "wn_name (wd_nodes def ! index) = name"
  shows "keeps_good def (sr_log s) (status_of (sr_steps s)) (place_of row) es"
  using assms(1) fail_wait_keeps [OF _ assms(2)] take_event_keeps [OF _ assms(2-4)] assms(2)
  by (auto simp: wake_on_event_def run_at_def split: taken_event.splits)

lemma on_timer_good:
  assumes r: "on_timer reg E fired s = Inr (es, gs)" and s: "sr_row s = Some row"
  shows "kept_good reg s row es"
proof (cases "r_finished_at row = None")
  case False
  then show ?thesis using r s by (simp add: on_timer_def)
next
  case nf: True
  show ?thesis
  proof (rule kept_goodI)
    fix def
    assume d: "code_of reg row = Inr def" and g: "good def (sr_log s) (status_of (sr_steps s)) (place_of row)"
    show "keeps_good def (sr_log s) (status_of (sr_steps s)) (place_of row) es"
    proof (cases fired)
      case DeadlineFired
      then show ?thesis
        using r s nf d g deadline_keeps [OF _ g] live_states [OF g nf]
        by (auto simp: on_timer_def Let_def with_signals_Inr split: if_splits)
    next
      case TtlFired
      have "keeps_good def (sr_log s) (status_of (sr_steps s)) (place_of row) [RunExpired at k]"
        if "r_state row = Queued" for at k
        using g that by (auto simp: keeps_good_def good_def place_of_def saga_ok_def at_node_def ENDED_STATES_def)
      then show ?thesis using TtlFired r s nf d g
        by (auto simp: on_timer_def Let_def with_signals_Inr split: run_state.splits option.splits if_splits)
    next
      case (WakeFired name park found)
      show ?thesis
      proof (cases "r_state row \<noteq> AtPark \<or> r_node row \<noteq> Some name \<or> latest_park (sr_log s) \<noteq> Some park")
        case True
        then show ?thesis using WakeFired r s nf d g
          by (auto simp: on_timer_def Let_def with_signals_Inr)
      next
        case False
        then have at: "run_at def (sr_log s) (sr_steps s) row name" and p: "r_state row = AtPark"
          using parked_at [OF g] by auto
        show ?thesis
        proof (cases "past_deadline E row")
          case True
          then show ?thesis using WakeFired r s nf d g False deadline_keeps [OF _ g] p
            by (auto simp: on_timer_def Let_def with_signals_Inr)
        next
          case nd: False
          obtain index where i: "index_of_node (wd_nodes def) name = Some index"
            using WakeFired r s nf d False nd
            by (auto simp: on_timer_def Let_def with_signals_Inr split: option.splits)
          note name = index_of_node_name [OF i]
          have "timed_out E def index row s name (en_now E) = Inr es \<or>
            (\<exists>n t. wd_nodes def ! index = EventWaitNode n t \<and> wake_on_event E def index row s n found (en_now E) = Inr es)"
            using WakeFired r s nf d False nd i
            by (auto simp: on_timer_def Let_def with_signals_Inr result_simps split: wf_node.splits if_splits)
          then show ?thesis
          proof
            assume "timed_out E def index row s name (en_now E) = Inr es"
            then show ?thesis using at p name by (intro timed_out_keeps) auto
          next
            assume "\<exists>n t. wd_nodes def ! index = EventWaitNode n t \<and> wake_on_event E def index row s n found (en_now E) = Inr es"
            then obtain n t where "wd_nodes def ! index = EventWaitNode n t"
              and w: "wake_on_event E def index row s n found (en_now E) = Inr es" by blast
            then have "n = name" using name by simp
            with w at name show ?thesis by (intro wake_on_event_keeps) auto
          qed
        qed
      qed
    qed
  qed
qed

lemma wake_wait_good:
  assumes r: "wake_wait reg E name found s = Inr (es, gs)" and s: "sr_row s = Some row"
  shows "kept_good reg s row es"
proof (cases "r_state row = AtPark \<and> r_node row = Some name")
  case False
  then show ?thesis using r s by (auto simp: wake_wait_def)
next
  case True
  show ?thesis
  proof (rule kept_goodI)
    fix def
    assume d: "code_of reg row = Inr def" and g: "good def (sr_log s) (status_of (sr_steps s)) (place_of row)"
    have at: "run_at def (sr_log s) (sr_steps s) row name" using parked_at [OF g] True by simp
    obtain index n t where i: "index_of_node (wd_nodes def) name = Some index"
      and node: "wd_nodes def ! index = EventWaitNode n t"
      and es: "(if past_deadline E row then deadline_events E def row (sr_log s) (sr_steps s) (en_now E)
                else wake_on_event E def index row s n found (en_now E)) = Inr es"
      using r s True d by (auto simp: wake_wait_def with_signals_Inr split: option.splits wf_node.splits)
    have "n = name" using index_of_node_name [OF i] node by simp
    then show "keeps_good def (sr_log s) (status_of (sr_steps s)) (place_of row) es"
      using es at g True index_of_node_name [OF i] deadline_keeps [OF _ g] wake_on_event_keeps [OF _ at]
      by (auto split: if_splits)
  qed
qed

lemma signal_index_name:
  assumes "signal_index def row name = Some i"
  shows "r_state row = AtPark \<and> i < length (wd_nodes def) \<and> r_node row = Some (wn_name (wd_nodes def ! i))"
proof -
  obtain p where "r_node row = Some p" "index_of_node (wd_nodes def) p = Some i" "r_state row = AtPark"
    using assms by (auto simp: signal_index_def bind_eq_Some_conv split: if_splits option.splits wf_node.splits)
  then show ?thesis using index_of_node_name by fastforce
qed

lemma deliver_signal_good:
  assumes r: "deliver_signal reg E workflow name delivery payload by' s = Inr (status, es, gs)"
    and s: "sr_row s = Some row"
  shows "kept_good reg s row es"
proof (rule kept_goodI)
  fix def
  assume d: "code_of reg row = Inr def" and g: "good def (sr_log s) (status_of (sr_steps s)) (place_of row)"
  let ?received = "SignalReceived name delivery (en_now E) by'"
  show "keeps_good def (sr_log s) (status_of (sr_steps s)) (place_of row) es"
  proof (cases "r_finished_at row = None")
    case False
    then show ?thesis using r s g by (auto simp: deliver_signal_def Let_def split: if_splits)
  next
    case nf: True
    have "es = [] \<or> es = [?received] \<or>
      (\<exists>es'. es = ?received # es' \<and> r_state row \<noteq> Compensating \<and>
         deadline_events E def row (sr_log s) (sr_steps s) (en_now E) = Inr es') \<or>
      (\<exists>es' i. es = ?received # es' \<and> signal_index def row name = Some i \<and>
         wake_on_signal E def i row (sr_log s) (sr_steps s) payload (en_now E) = Inr es')"
      using r s nf d
      by (auto simp: deliver_signal_def Let_def result_simps split: if_splits option.splits)
    then consider "es = []" | "es = [?received]"
      | es' where "es = ?received # es'" "r_state row \<noteq> Compensating"
          "deadline_events E def row (sr_log s) (sr_steps s) (en_now E) = Inr es'"
      | es' i where "es = ?received # es'" "signal_index def row name = Some i"
          "wake_on_signal E def i row (sr_log s) (sr_steps s) payload (en_now E) = Inr es'"
      by blast
    then show ?thesis
    proof cases
      case 1
      then show ?thesis using g by simp
    next
      case 2
      then show ?thesis using g by (simp add: keeps_all_neutral)
    next
      case 3
      then have "keeps_good def (sr_log s) (status_of (sr_steps s)) (place_of row) es'"
        using deadline_keeps [OF _ g] live_states [OF g nf] by auto
      then show ?thesis using 3(1) by (simp add: keeps_behind)
    next
      case 4
      then have "run_at def (sr_log s) (sr_steps s) row (wn_name (wd_nodes def ! i))"
        using signal_index_name [OF 4(2)] parked_at [OF g] by simp
      then have "keeps_good def (sr_log s) (status_of (sr_steps s)) (place_of row) es'"
        using wake_on_signal_keeps [OF 4(3)] signal_index_name [OF 4(2)] by blast
      then show ?thesis using 4(1) by (simp add: keeps_behind)
    qed
  qed
qed

section \<open>Cancel, parents and the verbs\<close>

lemma cancel_good:
  assumes "cancel_run reg E workflow reason actor execution s = Inr (es, gs)" "sr_row s = Some row"
  shows "kept_good reg s row es"
proof (rule kept_goodI)
  fix def
  assume d: "code_of reg row = Inr def" and g: "good def (sr_log s) (status_of (sr_steps s)) (place_of row)"
  have u: "r_finished_at row = None" "r_state row \<noteq> Compensating"
    and b: "begin_compensation E def row (sr_log s) (sr_steps s) (en_now E)
      [CancelRequested reason actor execution (en_now E)] cancel_options = Inr es"
    using assms d by (auto simp: cancel_run_def with_signals_Inr split: if_splits)
  show "keeps_good def (sr_log s) (status_of (sr_steps s)) (place_of row) es"
    using begin_open_keeps [OF b _ g live_states [OF g u]] by (simp add: cancel_options_def)
qed

lemma compensate_child_good:
  assumes "compensate_child reg E reason reopen s = Inr (es, gs)" "sr_row s = Some row"
  shows "kept_good reg s row es"
proof (cases "if reopen then r_state row = Completed else is_live (r_state row)")
  case False
  then show ?thesis using assms by (simp add: compensate_child_def)
next
  case True
  then have live: "r_state row \<in> {Queued, Running, AtPark, Completed}"
    by (auto simp: is_live_def split: if_splits)
  show ?thesis
  proof (rule kept_goodI)
    fix def
    assume d: "code_of reg row = Inr def" and g: "good def (sr_log s) (status_of (sr_steps s)) (place_of row)"
    have b: "begin_compensation E def row (sr_log s) (sr_steps s) (en_now E)
      [CancelRequested reason None None (en_now E)] cancel_options = Inr es"
      using assms True d by (cases reopen) (auto simp: compensate_child_def with_signals_Inr)
    show "keeps_good def (sr_log s) (status_of (sr_steps s)) (place_of row) es"
      using begin_open_keeps [OF b _ g live] by (simp add: cancel_options_def)
  qed
qed

text \<open>Every row of the steps is one of a step of the log.\<close>

definition rows_logged :: "run_event list \<Rightarrow> step_table \<Rightarrow> bool" where
  "rows_logged log steps \<longleftrightarrow> (\<forall>k. steps k \<noteq> None \<longrightarrow> (\<exists>e \<in> set log. step_of e = Some k))"

lemma no_scheduled_step:
  assumes "\<not> has_scheduled_step log steps" "rows_logged log steps"
  shows "status_of steps k \<noteq> Some Scheduled"
proof
  assume *: "status_of steps k = Some Scheduled"
  then obtain e where "e \<in> set log" "step_of e = Some k"
    using assms(2) by (cases k) (auto simp: rows_logged_def status_of_def)
  then have "has_scheduled_step log steps" using * by (auto simp: has_scheduled_step_def intro!: bexI [of _ e])
  then show False using assms(1) by simp
qed

lemma child_ended_good:
  assumes r: "child_ended reg E base s = Inr (es, gs)" and s: "sr_row s = Some row"
    and rows: "rows_logged (sr_log s) (sr_steps s)"
  shows "kept_good reg s row es"
proof (cases "r_finished_at row \<noteq> None \<or> r_state row \<noteq> Compensating")
  case True
  then show ?thesis using r s by (auto simp: child_ended_def)
next
  case False
  show ?thesis
  proof (rule kept_goodI)
    fix def
    assume d: "code_of reg row = Inr def" and g: "good def (sr_log s) (status_of (sr_steps s)) (place_of row)"
    have pl: "place_of row = (Compensating, r_node row, False)" using compensating_flight [OF g] False by simp
    have "es = [] \<or> (es = compensate E def row (sr_log s) (en_now E) (caused_by None) \<and> \<not> has_scheduled_step (sr_log s) (sr_steps s))"
      using r s False d by (auto simp: child_ended_def with_signals_Inr split: option.splits if_splits)
    then show "keeps_good def (sr_log s) (status_of (sr_steps s)) (place_of row) es"
    proof
      assume "es = []"
      then show ?thesis using g by simp
    next
      assume *: "es = compensate E def row (sr_log s) (en_now E) (caused_by None) \<and> \<not> has_scheduled_step (sr_log s) (sr_steps s)"
      then have "undoing (done_paths def (sr_log s @ [])) (undo_paths (sr_log s @ [])) (status_of (sr_steps s))"
        using g pl no_scheduled_step [OF _ rows] by (auto simp: good_def saga_ok_def in_flight_def)
      then have "keeps_good def (sr_log s @ []) (status_of (sr_steps s)) (Compensating, r_node row, False)
          (compensate E def row (sr_log s) (en_now E) (caused_by None))"
        by (rule compensate_keeps) (simp_all add: caused_by_def done_with_def)
      then show ?thesis using * pl by simp
    qed
  qed
qed

lemma skip_undo_good:
  assumes r: "skip_undo reg E op path s = Inr (es, gs)" and s: "sr_row s = Some row"
  shows "kept_good reg s row es"
proof (rule kept_goodI)
  fix def
  assume d: "code_of reg row = Inr def" and g: "good def (sr_log s) (status_of (sr_steps s)) (place_of row)"
  obtain reason where c: "r_state row = Compensating" and f: "status_of (sr_steps s) (path, Undo) = Some StepFailed"
    and es: "es = NodeSkipped \<lparr>skp_path = path, skp_phase = Undo, skp_cause = ByOperator, skp_reason = reason,
        skp_actor = Some (op_actor op), skp_at = en_now E, skp_execution = op_execution op\<rparr> #
      compensate E def row (sr_log s) (en_now E) (caused_by None\<lparr>co_undone_now := 1\<rparr>)"
    using r s d by (auto simp: skip_undo_def open_run_def Let_def result_simps split: if_splits)
  have pl: "place_of row = (Compensating, r_node row, False)" by (rule compensating_flight [OF g c])
  have u: "open_step (status_of (sr_steps s)) (path, Undo)" using f by (simp add: open_step_def)
  show "keeps_good def (sr_log s) (status_of (sr_steps s)) (place_of row) es"
    unfolding es pl
    by (rule undo_keeps [OF g [unfolded pl] u, where s = StepSkipped]) (auto simp: caused_by_def)
qed

lemma schedule_again_Inr:
  assumes "schedule_again E op row path ph step resolution err = Inr es"
  shows "\<exists>d. es = [NodeScheduled d] \<and> sch_path d = path \<and> sch_phase d = ph"
  using assms by (auto simp: schedule_again_def schedule_def split: option.splits)

text \<open>A failed step goes again: a \<open>do\<close> before compensation, an undo during it.\<close>

lemma again_keeps:
  assumes g: "good def (sr_log s) (status_of (sr_steps s)) (place_of row)" and nf: "r_finished_at row = None"
    and f: "status_of (sr_steps s) (path, ph) = Some StepFailed"
    and ph: "ph = Do \<longleftrightarrow> r_state row \<noteq> Compensating" and d: "sch_path d = path" "sch_phase d = ph"
  shows "keeps_good def (sr_log s) (status_of (sr_steps s)) (place_of row) [NodeScheduled d]"
proof (cases "r_state row = Compensating")
  case True
  then have "place_of row = (Compensating, r_node row, False)" by (rule compensating_flight [OF g])
  then show ?thesis using undo_failed_keeps(2) [of def "sr_log s" "status_of (sr_steps s)" "r_node row" path d] g f ph d True
    by (auto simp: open_step_def)
next
  case False
  then have "run_at def (sr_log s) (sr_steps s) row path"
    using awaited_place [OF g nf _ False, of path ph] f by (simp add: open_step_def)
  then show ?thesis using retry_keeps(1) d ph False by simp
qed

lemma again_cases:
  assumes "(case pl of None \<Rightarrow> again
      | Some p \<Rightarrow> if c p then rbind (m p) (\<lambda>ch. Inr [ChildrenPlanned (f p ch)]) else again) = Inr es"
  shows "again = Inr es \<or> (\<exists>p ch. c p \<and> es = [ChildrenPlanned (f p ch)])"
  using assms by (cases pl) (auto simp: result_simps split: if_splits)

lemma retry_step_opens:
  assumes r: "retry_step reg E op path ph s = Inr (es, gs)" and s: "sr_row s = Some row"
  obtains step where "assert_operator op = Inr ()" "open_run s = Inr row" "r_finished_at row = None"
    "sr_steps s (path, ph) = Some step"
proof -
  have "assert_operator op = Inr ()" using r by (cases "assert_operator op") (auto simp: retry_step_def with_signals_Inr)
  moreover then have "open_run s = Inr row" "r_finished_at row = None"
    using r s by (cases "r_finished_at row"; simp add: retry_step_def with_signals_Inr open_run_def)+
  moreover then obtain step where "sr_steps s (path, ph) = Some step"
    using r calculation by (cases "sr_steps s (path, ph)") (auto simp: retry_step_def with_signals_Inr)
  ultimately show ?thesis using that by blast
qed

lemma retry_step_good:
  assumes r: "retry_step reg E op path ph s = Inr (es, gs)" and s: "sr_row s = Some row"
  shows "kept_good reg s row es"
proof (rule kept_goodI)
  fix def
  assume d: "code_of reg row = Inr def" and g: "good def (sr_log s) (status_of (sr_steps s)) (place_of row)"
  obtain step where ok: "assert_operator op = Inr ()" "open_run s = Inr row"
    and step: "sr_steps s (path, ph) = Some step" and nf: "r_finished_at row = None"
    using retry_step_opens [OF r s] by blast
  note opened = r [unfolded retry_step_def with_signals_Inr ok rbind.simps step option.case d Let_def]
  show "keeps_good def (sr_log s) (status_of (sr_steps s)) (place_of row) es"
  proof (cases "s_status step = Scheduled")
    case True
    then have "es = map (\<lambda>(job, n). JobRetried job n (en_now E) (operator_of op)) (en_dead_jobs E)"
      using opened by (simp split: if_splits)
    then show ?thesis using g by (auto intro!: keeps_all_neutral simp: list_all_iff)
  next
    case ns: False
    then have f: "s_status step = StepFailed" using opened by (simp split: if_splits)
    have ph: "ph = Do \<longleftrightarrow> r_state row \<noteq> Compensating"
      using opened f by (cases ph; cases "r_state row = Compensating"; simp)
    have f': "status_of (sr_steps s) (path, ph) = Some StepFailed" using f step by (simp add: status_of_def)
    have no: "\<not> (ph = Do \<and> r_state row = Compensating)" "\<not> (ph = Undo \<and> r_state row \<noteq> Compensating)"
      using ph by auto
    have "schedule_again E op row path ph step None StepNotDead = Inr es \<or>
      (\<exists>p ch. (ph = Do \<and> r_state row = AtPark \<and> pln_path p = path) \<and>
        es = [ChildrenPlanned (p\<lparr>pln_children := ch, pln_at := en_now E, pln_by := operator_of op\<rparr>)])"
      using opened by (intro again_cases) (simp only: f no step_status.distinct simp_thms if_False rbind.simps, erule conjunct1)
    then have "schedule_again E op row path ph step None StepNotDead = Inr es \<or>
      (\<exists>c. es = [ChildrenPlanned c] \<and> pln_path c = path \<and> ph = Do \<and> r_state row = AtPark)"
      by auto
    then show ?thesis
    proof
      assume "schedule_again E op row path ph step None StepNotDead = Inr es"
      then show ?thesis using schedule_again_Inr again_keeps [OF g nf f' ph] by blast
    next
      assume *: "\<exists>c. es = [ChildrenPlanned c] \<and> pln_path c = path \<and> ph = Do \<and> r_state row = AtPark"
      then have "run_at def (sr_log s) (sr_steps s) row path"
        using awaited_place [OF g nf, of path ph] f' by (auto simp: open_step_def)
      then show ?thesis using * park_scheduled_keeps(2) by blast
    qed
  qed
qed

lemma resolve_step_good:
  assumes r: "resolve_step reg E op path result parse s = Inr (es, gs)" and s: "sr_row s = Some row"
  shows "kept_good reg s row es"
proof (rule kept_goodI)
  fix def
  assume d: "code_of reg row = Inr def" and g: "good def (sr_log s) (status_of (sr_steps s)) (place_of row)"
  obtain step where step: "sr_steps s (path, Do) = Some step" and nf: "r_finished_at row = None"
    and nc: "r_state row \<noteq> Compensating"
    using r s by (auto simp: resolve_step_def with_signals_Inr open_run_def result_simps split: option.splits if_splits)
  have f: "s_status step = StepFailed"
    using r s step nf nc by (auto simp: resolve_step_def with_signals_Inr open_run_def result_simps split: if_splits)
  obtain parsed where a: "schedule_again E op row path Do step (Some parsed) StepNotResolvable = Inr es"
    using r s d step nf nc f
    by (auto simp: resolve_step_def with_signals_Inr open_run_def result_simps split: option.splits if_splits sum.splits)
  have f': "status_of (sr_steps s) (path, Do) = Some StepFailed" using f step by (simp add: status_of_def)
  show "keeps_good def (sr_log s) (status_of (sr_steps s)) (place_of row) es"
    using schedule_again_Inr [OF a] again_keeps [OF g nf f'] nc by auto
qed

lemma fields_good:
  "reschedule E op wanted unclaimed s = Inr (es, gs) \<Longrightarrow> list_all neutral es"
  "change_metadata E change by' s = Inr (es, gs) \<Longrightarrow> list_all neutral es"
  "add_run_tags E tags by' s = Inr (es, gs) \<Longrightarrow> list_all neutral es"
  by (auto simp: reschedule_def change_metadata_def add_run_tags_def Let_def result_simps
      split: option.splits if_splits)

lemma promote_good:
  assumes r: "promote_queued reg E s = Inr (es, gs)" and s: "sr_row s = Some row"
  shows "kept_good reg s row es"
proof (rule kept_goodI)
  fix def
  assume g: "good def (sr_log s) (status_of (sr_steps s)) (place_of row)"
  have "es = [] \<or> (r_state row = Queued \<and> (\<exists>at d. es = [RunDequeued at, NodeScheduled d] \<and> sch_phase d = Do))"
    using r s by (auto simp: promote_queued_def Let_def schedule_def split: sum.splits list.splits if_splits)
  then show "keeps_good def (sr_log s) (status_of (sr_steps s)) (place_of row) es"
  proof
    assume "es = []"
    then show ?thesis using g by simp
  next
    assume "r_state row = Queued \<and> (\<exists>at d. es = [RunDequeued at, NodeScheduled d] \<and> sch_phase d = Do)"
    then show ?thesis using g
      by (auto simp: keeps_good_def good_def place_of_def saga_ok_def at_node_def undo_free_def open_step_def ENDED_STATES_def)
  qed
qed

end
