(* ===== verification/JournalHistory.thy ===== *)
theory JournalHistory
  imports JournalDoors
begin

text \<open>
  What holds of a stored run after any history of calls: the row is what its log replays to, the
  step rows are what the log projects to, and - when attempts report in time - the account of the
  saga is that of the state.
\<close>

section \<open>What a call writes\<close>

lemma write_starts_nothing:
  "fold_events run_entity WriteMode i (numbered base es) (Some row) deleted cols = Inr folded \<Longrightarrow>
   \<forall>e \<in> set es. \<not> starts_run e"
proof (induction es arbitrary: row base deleted cols)
  case Nil
  then show ?case by simp
next
  case (Cons e es)
  show ?case
  proof (cases "starts_run e")
    case True
    then show ?thesis using Cons.prems by (cases e) (auto simp: starts_run_def run_entity_def)
  next
    case False
    note e = run_reducers_on [OF False]
    show ?thesis using Cons.prems e False
      by (auto simp: run_entity_def reduce_one_def put_all_def on_run_event_identified
          dest!: Cons.IH [unfolded run_entity_def])
  qed
qed

lemma write_row:
  assumes "fold_row run_entity (Some row) i (numbered base es) WriteMode = Inr (row', d, c)" "es \<noteq> []"
  shows "(\<forall>e \<in> set es. \<not> starts_run e) \<and>
    row' = Some ((foldl run_after row es)\<lparr>r_id := i, r_version := base + length es\<rparr>)"
proof -
  obtain folded where f: "fold_events run_entity WriteMode i (numbered base es) (Some row) False {} = Inr folded"
    using assms by (auto simp: fold_row_def result_simps)
  note no = write_starts_nothing [OF f]
  obtain cols where "fold_events run_entity WriteMode i (numbered base es) (Some row) False {} =
      Inr (Some (foldl run_after row es), False, cols)"
    using fold_events_run [OF no, where mode = WriteMode and i = i and base = base and row = row
        and deleted = False and cols = "{}"] by blast
  then show ?thesis using assms no
    by (simp add: fold_row_def Let_def last_numbered) (simp add: run_entity_def)
qed

lemma call_cases:
  obtains (refused) "call_run reg c s = s"
  | (wrote) es gs where "decide reg (fst c) (snd c) s = Inr (es, gs)"
    "sr_log (call_run reg c s) = sr_log s @ es" "sr_id (call_run reg c s) = sr_id s"
    "sr_steps (call_run reg c s) =
       link_jobs (en_job_id (fst c)) (length (sr_log s)) es (project_steps es (sr_steps s))"
    "es = [] \<Longrightarrow> sr_row (call_run reg c s) = sr_row s"
    "es \<noteq> [] \<Longrightarrow> \<exists>d cols. fold_row run_entity (sr_row s) (sr_id s) (numbered (length (sr_log s)) es) WriteMode =
       Inr (sr_row (call_run reg c s), d, cols)"
proof (cases "decide reg (fst c) (snd c) s")
  case (Inl err)
  then show ?thesis using refused by (simp add: call_run_def write_run_def)
next
  case (Inr x)
  then obtain es gs where d: "decide reg (fst c) (snd c) s = Inr (es, gs)" by (cases x) auto
  show ?thesis
  proof (cases "es = []")
    case True
    then show ?thesis using d by (intro wrote [of es gs]) (simp_all add: call_run_def write_run_def project_steps_def)
  next
    case False
    show ?thesis
    proof (cases "fold_row run_entity (sr_row s) (sr_id s) (numbered (length (sr_log s)) es) WriteMode")
      case (Inl err)
      then show ?thesis using d False refused by (simp add: call_run_def write_run_def)
    next
      case (Inr y)
      then show ?thesis using d False
        by (cases y) (intro wrote [of es gs]; simp add: call_run_def write_run_def)
    qed
  qed
qed

text \<open>Without a row, only a start writes.\<close>

lemma first_write_starts:
  assumes "decide reg E c s = Inr (es, gs)" "sr_row s = None" "es \<noteq> []"
  shows "\<exists>def ctx args. c = StartCall def ctx args"
  using assms
  by (cases c)
    (auto simp: promote_queued_def checkpoint_def on_timer_def wake_wait_def deliver_signal_def Let_def cancel_run_def
      compensate_child_def child_ended_def skip_undo_def retry_step_def resolve_step_def reschedule_def change_metadata_def
      add_run_tags_def open_run_def with_signals_def result_simps split: if_splits)

lemma start_events:
  assumes "start_run def E ctx args s = Inr (es, gs)" "sr_row s = None"
  shows "\<exists>d e. es = [RunStarted d, e] \<and>
    ((\<exists>f. e = NodeScheduled f \<and> sch_phase f = Do) \<or> (\<exists>l r t p a. e = RunQueued l r t p a))"
  using assms
  by (auto simp: start_run_def Let_def split: list.splits if_splits option.splits prod.splits)

lemma started_again: "start_run def E ctx args s = Inr (es, gs) \<Longrightarrow> sr_row s = Some row \<Longrightarrow> es = []"
  by (auto simp: start_run_def split: list.splits)

section \<open>Rows and log\<close>

text \<open>The row is what the log replays to, the steps what it projects to.\<close>

definition replayed :: "stored_run \<Rightarrow> bool" where
  "replayed s \<longleftrightarrow>
     (\<exists>d cols. fold_row run_entity None (sr_id s) (numbered 0 (sr_log s)) ReplayMode = Inr (sr_row s, d, cols))"

definition projected :: "stored_run \<Rightarrow> bool" where
  "projected s \<longleftrightarrow>
     status_of (sr_steps s) = statuses (sr_log s) (\<lambda>k. None) \<and> steps_ok (sr_steps s)"

lemma steps_ok_link: "steps_ok t \<Longrightarrow> steps_ok (link_jobs job seq es t)"
proof (induction es arbitrary: seq t)
  case Nil
  then show ?case by simp
next
  case (Cons e es)
  have linked: "steps_ok (t(k := map_option (\<lambda>r. r\<lparr>s_job_id := Some j\<rparr>) (t k)))" for k j
    using Cons.prems by (auto simp: steps_ok_def step_ok_def)
  show ?case using Cons by (cases e) (simp_all del: fun_upd_apply, intro Cons.IH linked)
qed

lemma call_replayed:
  assumes "replayed s"
  shows "replayed (call_run reg c s)"
proof (cases rule: call_cases [of reg c s])
  case refused
  then show ?thesis using assms by simp
next
  case (wrote es gs)
  show ?thesis
  proof (cases "es = []")
    case True
    then show ?thesis using wrote assms by (simp add: replayed_def)
  next
    case False
    then show ?thesis using wrote(6) [OF False] wrote(2,3) assms run.write_is_replay by (simp add: replayed_def) blast
  qed
qed

lemma call_projected:
  assumes "projected s"
  shows "projected (call_run reg c s)"
  using assms
  by (cases rule: call_cases [of reg c s])
    (simp_all add: projected_def status_projected steps_ok_link steps_ok_projected)

lemma history_keeps:
  assumes "P s" "\<And>c s. P s \<Longrightarrow> P (call_run reg c s)"
  shows "P (run_history reg cs s)"
  using assms(1) unfolding run_history_def by (induction cs arbitrary: s) (simp_all add: assms(2))

lemma nothing_replayed: "replayed (nothing_stored i)" "projected (nothing_stored i)"
  by (auto simp: replayed_def projected_def nothing_stored_def fold_row_def status_of_def steps_ok_def)

section \<open>The account\<close>

text \<open>A call in time: the outcome of a checkpoint fits what the step waits for.\<close>

definition proper_call :: "stored_run \<Rightarrow> run_call \<Rightarrow> bool" where
  "proper_call s c =
     (case (c, sr_row s) of
        (CheckpointCall path ph n outcome, Some row) \<Rightarrow> timely (sr_steps s) row path ph outcome
      | _ \<Rightarrow> True)"

fun proper_history :: "registry \<Rightarrow> (run_env \<times> run_call) list \<Rightarrow> stored_run \<Rightarrow> bool" where
  "proper_history reg [] s = True"
| "proper_history reg (c # cs) s = (proper_call s (snd c) \<and> proper_history reg cs (call_run reg c s))"

definition run_sound :: "registry \<Rightarrow> stored_run \<Rightarrow> bool" where
  "run_sound reg s =
     (case sr_row s of
        None \<Rightarrow> sr_log s = [] \<and> sr_steps s = Map.empty
      | Some row \<Rightarrow>
          rows_logged (sr_log s) (sr_steps s) \<and>
          (\<forall>def. code_of reg row = Inr def \<longrightarrow> good def (sr_log s) (status_of (sr_steps s)) (place_of row)))"

lemma decide_good:
  assumes d: "decide reg E c s = Inr (es, gs)" and s: "sr_row s = Some row"
    and c: "proper_call s c" and rows: "rows_logged (sr_log s) (sr_steps s)"
  shows "kept_good reg s row es"
proof (cases c)
  case (StartCall def ctx args)
  then show ?thesis using started_again [of def E ctx args s es gs row] d s by simp
next
  case PromoteCall
  then show ?thesis using promote_good d s by simp
next
  case (CheckpointCall path ph n outcome)
  then show ?thesis using checkpoint_good d s c by (simp add: proper_call_def)
next
  case (TimerCall fired)
  then show ?thesis using on_timer_good d s by simp
next
  case (WakeCall name found)
  then show ?thesis using wake_wait_good d s by simp
next
  case (SignalCall workflow name delivery payload by')
  then show ?thesis using deliver_signal_good d s by (auto simp: result_simps)
next
  case (CancelCall workflow reason actor execution)
  then show ?thesis using cancel_good d s by simp
next
  case (ParentCall reason reopen)
  then show ?thesis using compensate_child_good d s by simp
next
  case (ChildEndCall base)
  then show ?thesis using child_ended_good d s rows by simp
next
  case (SkipUndoCall op path)
  then show ?thesis using skip_undo_good d s by simp
next
  case (RetryCall op path ph)
  then show ?thesis using retry_step_good d s by simp
next
  case (ResolveCall op path result parse)
  then show ?thesis using resolve_step_good d s by simp
qed (use d fields_good kept_good_neutral in auto)

lemma statuses_new: "statuses es stat k \<noteq> None \<Longrightarrow> stat k \<noteq> None \<or> (\<exists>e \<in> set es. step_of e = Some k)"
proof (induction es arbitrary: stat)
  case Nil
  then show ?case by simp
next
  case (Cons e es)
  then show ?case by (fastforce split: if_splits)
qed

lemma rows_logged_write:
  assumes "rows_logged log steps"
  shows "rows_logged (log @ es) (link_jobs job seq es (project_steps es steps))"
  unfolding rows_logged_def
proof (intro allI impI)
  fix k
  assume "link_jobs job seq es (project_steps es steps) k \<noteq> None"
  then have "status_of (link_jobs job seq es (project_steps es steps)) k \<noteq> None"
    unfolding status_of_def by simp
  then have "statuses es (status_of steps) k \<noteq> None" by (simp only: status_linked status_projected) simp
  then show "\<exists>e \<in> set (log @ es). step_of e = Some k"
    using statuses_new [of es "status_of steps" k] assms
    by (cases k) (auto simp: rows_logged_def status_of_def)
qed

lemma code_of_same:
  "\<lbrakk>r_name a = r_name b; r_workflow_version a = r_workflow_version b; r_shape_hash a = r_shape_hash b\<rbrakk> \<Longrightarrow>
     code_of reg a = code_of reg b"
  by (simp add: code_of_def cong: option.case_cong)

lemma code_run_after: "\<not> starts_run e \<Longrightarrow> code_of reg (run_after row e) = code_of reg row"
  by (rule code_of_same; cases e)
    (simp_all add: starts_run_def run_after_def on_node_scheduled_def on_node_completed_def
      on_node_skipped_def finished_columns_def)

lemma code_foldl: "\<forall>e \<in> set es. \<not> starts_run e \<Longrightarrow> code_of reg (foldl run_after row es) = code_of reg row"
  by (induction es arbitrary: row) (simp_all add: code_run_after)

lemma identified_same [simp]:
  "code_of reg (row\<lparr>r_id := i, r_version := v\<rparr>) = code_of reg row" "place_of (row\<lparr>r_id := i, r_version := v\<rparr>) = place_of row"
  by (rule code_of_same; simp) (simp add: place_of_def)

lemma start_sound:
  assumes w: "fold_row run_entity None i (numbered 0 [RunStarted d, e]) WriteMode = Inr (row, x, cols)"
    and e: "(\<exists>f. e = NodeScheduled f \<and> sch_phase f = Do) \<or> (\<exists>l r t p a. e = RunQueued l r t p a)"
  shows "\<exists>row'. row = Some row' \<and> (\<forall>def. good def [RunStarted d, e] (statuses [RunStarted d, e] (\<lambda>k. None)) (place_of row'))"
  using assms
  by (auto simp: fold_row_def run_entity_def reduce_one_def put_all_def create_run_def blank_row_def on_node_scheduled_def
      good_def place_of_def saga_ok_def at_node_def undo_free_def open_step_def ENDED_STATES_def Let_def)

lemma call_sound:
  assumes ok: "run_sound reg s" and c: "proper_call s (snd c)"
  shows "run_sound reg (call_run reg c s)"
proof (cases rule: call_cases [of reg c s])
  case refused
  then show ?thesis using ok by simp
next
  case (wrote es gs)
  show ?thesis
  proof (cases "es = []")
    case True
    with wrote have "sr_log (call_run reg c s) = sr_log s" "sr_steps (call_run reg c s) = sr_steps s"
      "sr_row (call_run reg c s) = sr_row s" by (simp_all add: project_steps_def)
    then show ?thesis using ok by (simp add: run_sound_def cong: option.case_cong)
  next
    case False
    obtain x cols where w: "fold_row run_entity (sr_row s) (sr_id s) (numbered (length (sr_log s)) es) WriteMode =
        Inr (sr_row (call_run reg c s), x, cols)"
      using wrote(6) [OF False] by blast
    show ?thesis
    proof (cases "sr_row s")
      case None
      then have empty: "sr_log s = []" "sr_steps s = Map.empty" using ok by (simp_all add: run_sound_def)
      obtain def ctx args where "snd c = StartCall def ctx args"
        using first_write_starts [OF wrote(1) None False] by blast
      then obtain d e where es: "es = [RunStarted d, e]"
        and e: "(\<exists>f. e = NodeScheduled f \<and> sch_phase f = Do) \<or> (\<exists>l r t p a. e = RunQueued l r t p a)"
        using start_events [of def "fst c" ctx args s es gs] wrote(1) None by auto
      obtain row' where row': "sr_row (call_run reg c s) = Some row'"
        and g: "\<forall>def. good def [RunStarted d, e] (statuses [RunStarted d, e] (\<lambda>k. None)) (place_of row')"
        using start_sound [OF w [unfolded None empty(1) es list.size] e] by auto
      have "status_of (sr_steps (call_run reg c s)) = statuses [RunStarted d, e] (\<lambda>k. None)"
        unfolding wrote(4) status_linked status_projected empty es status_of_def by simp
      moreover have "rows_logged (sr_log (call_run reg c s)) (sr_steps (call_run reg c s))"
        unfolding wrote(2,4) by (rule rows_logged_write) (simp add: rows_logged_def empty)
      ultimately show ?thesis using g row' wrote(2) empty es by (simp add: run_sound_def del: statuses_simps)
    next
      case (Some row)
      then have rows: "rows_logged (sr_log s) (sr_steps s)" using ok by (simp add: run_sound_def)
      note kept = decide_good [OF wrote(1) Some c rows]
      from write_row [OF w [unfolded Some] False]
      have ns: "\<forall>e \<in> set es. \<not> starts_run e"
        and row': "sr_row (call_run reg c s) =
          Some ((foldl run_after row es)\<lparr>r_id := sr_id s, r_version := length (sr_log s) + length es\<rparr>)" by auto
      have "rows_logged (sr_log (call_run reg c s)) (sr_steps (call_run reg c s))"
        unfolding wrote(2,4) by (rule rows_logged_write [OF rows])
      moreover have "good def (sr_log (call_run reg c s)) (status_of (sr_steps (call_run reg c s)))
          (place_of (foldl run_after row es))" if "code_of reg row = Inr def" for def
        using kept ok that Some unfolding wrote(2,4)
        by (simp add: kept_good_def keeps_good_def run_sound_def status_projected place_foldl)
      ultimately show ?thesis using row' ns by (simp add: run_sound_def code_foldl)
    qed
  qed
qed

lemma history_sound:
  "\<lbrakk>run_sound reg s; proper_history reg cs s\<rbrakk> \<Longrightarrow> run_sound reg (run_history reg cs s)"
  unfolding run_history_def by (induction cs arbitrary: s) (simp_all add: call_sound)

lemma nothing_sound: "run_sound reg (nothing_stored i)"
  by (simp add: run_sound_def nothing_stored_def)

end
