(* ===== verification/JournalProps.thy ===== *)
theory JournalProps
  imports JournalHistory
begin

text \<open>
  What the runs of the workflow runner promise, over whole histories of calls: the saga undoes
  what was done, once, newest first, and compensation ends; a stored run is its log; a finished
  run stays as it is; and a report of an attempt is taken once.
\<close>

section \<open>Sagas\<close>

definition started_from :: "registry \<Rightarrow> (run_env \<times> run_call) list \<Rightarrow> string \<Rightarrow> stored_run" where
  "started_from reg cs i = run_history reg cs (nothing_stored i)"

lemma started_good:
  assumes "proper_history reg cs (nothing_stored i)" "sr_row (started_from reg cs i) = Some row"
    and "code_of reg row = Inr def"
  shows "good def (sr_log (started_from reg cs i)) (status_of (sr_steps (started_from reg cs i))) (place_of row)"
  using history_sound [OF nothing_sound assms(1)] assms(2,3) by (simp add: started_from_def run_sound_def)

lemma good_undone:
  assumes "good def log stat (place_of row)"
  shows "undo_paths log = take (length (undo_paths log)) (rev (done_paths def log))"
    and "r_state row \<in> {Failed, Cancelled} \<Longrightarrow> undo_paths log = rev (done_paths def log)"
    and "r_state row \<notin> {Compensating, Failed, Cancelled} \<Longrightarrow> undo_paths log = []"
  using assms
  by (cases "r_state row"; auto simp: good_def place_of_def saga_ok_def undoing_def undone_so_far_def in_flight_def at_node_def)+

text \<open>
  C2: Over any history of calls with attempts reported in time, the undos a run settled are
  exactly those of its newest completed undoable visits, newest first and each once; a run that
  failed or was cancelled has undone all of them, and no other run but a compensating one has
  undone any.
\<close>
theorem saga_undoes_in_reverse:
  assumes "proper_history reg cs (nothing_stored i)" "sr_row (started_from reg cs i) = Some row"
    and "code_of reg row = Inr def"
  defines "log \<equiv> sr_log (started_from reg cs i)"
  shows "undo_paths log = take (length (undo_paths log)) (rev (done_paths def log)) \<and>
    (r_state row \<in> {Failed, Cancelled} \<longrightarrow> undo_paths log = rev (done_paths def log)) \<and>
    (r_state row \<notin> {Compensating, Failed, Cancelled} \<longrightarrow> undo_paths log = [])"
  using good_undone [OF started_good [OF assms(1-3)]] unfolding log_def by blast

lemma to_undo_hd:
  "length undone < length done \<Longrightarrow> to_undo done undone \<noteq> [] \<and> hd (to_undo done undone) = rev done ! length undone"
  by (simp add: to_undo_def rev_take hd_drop_conv_nth)

lemma good_forward:
  assumes "good def log stat (place_of row)" "r_state row \<in> {Queued, Running, AtPark, Completed, Expired}"
  shows "stat (p, Undo) = None \<and> (open_step stat (p, Do) \<longrightarrow> r_node row = Some p)"
  using assms by (auto simp: good_def place_of_def saga_ok_def at_node_def undo_free_def)

lemma good_backward:
  assumes "good def log stat (place_of row)" "r_state row = Compensating"
  shows "(\<exists>p. stat (p, Do) = Some Scheduled \<and> (\<forall>q. stat (q, Do) = Some Scheduled \<longrightarrow> q = p)) \<and>
      (\<forall>p. stat (p, Undo) = None) \<and> undo_paths log = [] \<or>
    (\<forall>p. stat (p, Do) \<noteq> Some Scheduled) \<and>
    (\<forall>p. open_step stat (p, Undo) \<longrightarrow> to_undo (done_paths def log) (undo_paths log) \<noteq> [] \<and>
       p = hd (to_undo (done_paths def log) (undo_paths log)))"
proof -
  have "undoing (done_paths def log) (undo_paths log) stat \<or> in_flight (undo_paths log) stat"
    using assms by (simp add: good_def place_of_def saga_ok_def)
  then show ?thesis
  proof
    assume "undoing (done_paths def log) (undo_paths log) stat"
    then show ?thesis using to_undo_hd unfolding undoing_def by metis
  next
    assume "in_flight (undo_paths log) stat"
    then show ?thesis unfolding in_flight_def undo_free_def by blast
  qed
qed

text \<open>
  C13: Over any history of calls in which attempts report in time a run works on one thing. In time
  means (\<open>proper_history\<close>): an outcome fits its phase, only a compensating run drops a step, and while
  the run compensates a \<open>do\<close> step reports only as long as it is scheduled; without the last, C38
  shows two undos at once. Before
  compensation no undo exists and a step that is scheduled or failed is that of the node the run is
  on. While the run compensates either exactly one step is still in flight and nothing is undone, or
  no step is in flight and an undo that is scheduled or failed is that of the newest visit not undone.
\<close>
theorem one_thing_in_flight:
  assumes "proper_history reg cs (nothing_stored i)" "sr_row (started_from reg cs i) = Some row"
    and "code_of reg row = Inr def"
  defines "stat \<equiv> status_of (sr_steps (started_from reg cs i))" and "log \<equiv> sr_log (started_from reg cs i)"
  shows "(r_state row \<in> {Queued, Running, AtPark, Completed, Expired} \<longrightarrow>
      (\<forall>p. stat (p, Undo) = None \<and> (open_step stat (p, Do) \<longrightarrow> r_node row = Some p))) \<and>
    (r_state row = Compensating \<longrightarrow>
      (\<exists>p. stat (p, Do) = Some Scheduled \<and> (\<forall>q. stat (q, Do) = Some Scheduled \<longrightarrow> q = p)) \<and>
        (\<forall>p. stat (p, Undo) = None) \<and> undo_paths log = [] \<or>
      (\<forall>p. stat (p, Do) \<noteq> Some Scheduled) \<and>
      (\<forall>p. open_step stat (p, Undo) \<longrightarrow> to_undo (done_paths def log) (undo_paths log) \<noteq> [] \<and>
         p = hd (to_undo (done_paths def log) (undo_paths log))))"
  using good_forward good_backward started_good [OF assms(1-3)] unfolding stat_def log_def by blast

section \<open>Compensation ends\<close>

lemma call_writes:
  assumes d: "decide reg (fst c) (snd c) s = Inr (es, gs)" and s: "sr_row s = Some row"
    and ns: "\<forall>e \<in> set es. \<not> starts_run e"
  shows "sr_log (call_run reg c s) = sr_log s @ es"
    and "sr_steps (call_run reg c s) = link_jobs (en_job_id (fst c)) (length (sr_log s)) es (project_steps es (sr_steps s))"
    and "\<exists>row'. sr_row (call_run reg c s) = Some row' \<and> place_of row' = places es (place_of row) \<and>
      code_of reg row' = code_of reg row"
proof -
  have "sr_log (call_run reg c s) = sr_log s @ es \<and>
    sr_steps (call_run reg c s) = link_jobs (en_job_id (fst c)) (length (sr_log s)) es (project_steps es (sr_steps s)) \<and>
    (\<exists>row'. sr_row (call_run reg c s) = Some row' \<and> place_of row' = places es (place_of row) \<and>
      code_of reg row' = code_of reg row)"
  proof (cases "es = []")
    case True
    then show ?thesis using d s by (simp add: call_run_def write_run_def project_steps_def)
  next
    case False
    obtain cols where f: "fold_events run_entity WriteMode (sr_id s) (numbered (length (sr_log s)) es) (Some row) False {} =
        Inr (Some (foldl run_after row es), False, cols)"
      using fold_events_run [OF ns] by blast
    then have w: "fold_row run_entity (Some row) (sr_id s) (numbered (length (sr_log s)) es) WriteMode =
        Inr (Some ((foldl run_after row es)\<lparr>r_id := sr_id s, r_version := length (sr_log s) + length es\<rparr>), False, cols)"
      using False by (simp add: fold_row_def Let_def last_numbered) (simp add: run_entity_def)
    show ?thesis using d s False w by (simp add: call_run_def write_run_def place_foldl code_foldl [OF ns])
  qed
  then show "sr_log (call_run reg c s) = sr_log s @ es"
    "sr_steps (call_run reg c s) = link_jobs (en_job_id (fst c)) (length (sr_log s)) es (project_steps es (sr_steps s))"
    "\<exists>row'. sr_row (call_run reg c s) = Some row' \<and> place_of row' = places es (place_of row) \<and>
      code_of reg row' = code_of reg row" by auto
qed

text \<open>With no child runs, the loop ends or schedules the next undo.\<close>

lemma undo_loop_goes_on:
  assumes "undo_loop def row [] at items = (es, over)"
  shows "(\<forall>e \<in> set es. \<not> starts_run e) \<and> (over \<or> (\<exists>q. statuses es stat (q, Undo) = Some Scheduled))"
  using assms
proof (induction items arbitrary: es stat)
  case Nil
  then show ?case by simp
next
  case (Cons item items)
  obtain es' where rest: "\<exists>over'. undo_loop def row [] at items = (es', over')" by fastforce
  have no: "undo_item_move def row [] at item \<noteq> AwaitKids" by (auto simp: undo_item_move_def Let_def)
  show ?case
  proof (cases "undo_item_move def row [] at item")
    case (SkipIt d)
    then obtain es1 where "undo_loop def row [] at items = (es1, over)" "es = NodeSkipped d # es1"
      using Cons.prems by (auto split: prod.splits)
    then show ?thesis using Cons.IH by (auto simp: starts_run_def)
  next
    case (SettleIt d)
    then obtain es1 where "undo_loop def row [] at items = (es1, over)" "es = NodeCompleted d # es1"
      using Cons.prems by (auto split: prod.splits)
    then show ?thesis using Cons.IH by (auto simp: starts_run_def)
  next
    case (ScheduleIt d)
    then show ?thesis using Cons.prems undo_item_move_path(3) [OF ScheduleIt] by (auto simp: starts_run_def)
  qed (use no in simp)
qed

lemma compensate_goes_on:
  assumes "en_kids E = []"
  shows "(\<forall>e \<in> set (compensate E def row log at opts). \<not> starts_run e) \<and>
    (fst (places (compensate E def row log at opts) (Compensating, nd0, fin0)) \<in> {Failed, Cancelled} \<or>
     fst (places (compensate E def row log at opts) (Compensating, nd0, fin0)) = Compensating \<and>
     (\<exists>q. statuses (compensate E def row log at opts) stat (q, Undo) = Some Scheduled))"
proof -
  obtain es over where loop: "undo_loop def row [] at
      (remaining_undos def (settled_of log) (co_done_now opts) (co_undone_now opts)) = (es, over)" by fastforce
  obtain nd' where "places es (Compensating, nd0, fin0) = (Compensating, nd', fin0)"
    using undo_loop_places [OF loop] by blast
  then show ?thesis using assms loop undo_loop_goes_on [OF loop, of stat]
    by (auto simp: compensate_def run_failed_def starts_run_def)
qed

text \<open>Compensation completes no visit and changes no step that was done.\<close>

lemma undo_loop_undoes_only:
  "undo_loop def row kids at items = (es, over) \<Longrightarrow>
     done_paths def es = [] \<and> statuses es stat (p, Do) = stat (p, Do)"
proof (induction items arbitrary: es stat)
  case Nil
  then show ?case by simp
next
  case (Cons item items)
  obtain es1 over1 where rest: "undo_loop def row kids at items = (es1, over1)" by fastforce
  show ?case
    using Cons rest undo_item_move_path [of def row kids at item]
    by (cases "undo_item_move def row kids at item") auto
qed

lemma compensate_undoes_only:
  "done_paths def (compensate E def row log at opts) = []"
  "statuses (compensate E def row log at opts) stat (p, Do) = stat (p, Do)"
proof -
  obtain es over where loop: "undo_loop def row (en_kids E) at
      (remaining_undos def (settled_of log) (co_done_now opts) (co_undone_now opts)) = (es, over)" by fastforce
  show "done_paths def (compensate E def row log at opts) = []"
    "statuses (compensate E def row log at opts) stat (p, Do) = stat (p, Do)"
    using undo_loop_undoes_only [OF loop] loop by (simp_all add: compensate_def run_failed_def)
qed

text \<open>The report that an undo is done, as a call.\<close>

definition undone_call :: "run_env \<Rightarrow> string \<Rightarrow> nat \<Rightarrow> json \<Rightarrow> run_env \<times> run_call" where
  "undone_call E path n result = (E, CheckpointCall path Undo n (Undone result))"

lemma undone_settles:
  fixes r :: json
  assumes ok: "run_sound reg s" and s: "sr_row s = Some row" and d: "code_of reg row = Inr def"
    and c: "r_state row = Compensating" and st: "sr_steps s (p, Undo) = Some step" "s_status step = Scheduled"
    and kids: "en_kids E = []"
  defines "s' \<equiv> call_run reg (undone_call E p (s_attempt step) r) s"
  shows "\<exists>row'. sr_row s' = Some row' \<and> code_of reg row' = Inr def \<and> run_sound reg s' \<and>
    done_paths def (sr_log s') = done_paths def (sr_log s) \<and>
    length (undo_paths (sr_log s)) < length (undo_paths (sr_log s')) \<and>
    (r_state row' \<in> {Failed, Cancelled} \<or>
     r_state row' = Compensating \<and> (\<exists>q step'. sr_steps s' (q, Undo) = Some step' \<and> s_status step' = Scheduled))"
proof -
  let ?c = "undone_call E p (s_attempt step) r"
  let ?rest = "compensate E def row (sr_log s) (en_now E) (caused_by None\<lparr>co_undone_now := 1\<rparr>)"
  let ?es = "completed_by p Undo r None (en_now E) # ?rest"
  have g: "good def (sr_log s) (status_of (sr_steps s)) (place_of row)" using ok s d by (simp add: run_sound_def)
  have pl: "place_of row = (Compensating, r_node row, False)" by (rule compensating_flight [OF g c])
  have dec: "decide reg (fst ?c) (snd ?c) s = Inr (?es, sr_signals s)"
    using s d st c pl
    by (simp add: undone_call_def checkpoint_def awaits_attempt_def checkpoint_outcome_def Let_def with_signals_Inr place_of_def)
  have ns: "\<forall>e \<in> set ?es. \<not> starts_run e"
    using compensate_goes_on [OF kids] by (simp add: completed_by_def starts_run_def)
  note w = call_writes [OF dec s ns]
  have sound: "run_sound reg s'" unfolding s'_def using s st c
    by (intro call_sound [OF ok]) (simp add: undone_call_def proper_call_def timely_def)
  obtain row' where row': "sr_row s' = Some row'" "place_of row' = places ?es (place_of row)" "code_of reg row' = Inr def"
    using w(3) d by (auto simp: s'_def)
  have steps: "status_of (sr_steps s') = statuses ?es (status_of (sr_steps s))"
    by (simp only: s'_def w(2) status_linked status_projected)
  have "length (undo_paths (sr_log s)) < length (undo_paths (sr_log s'))"
    by (simp add: s'_def w(1) undone_by)
  moreover have "done_paths def (sr_log s') = done_paths def (sr_log s)"
    by (simp add: s'_def w(1) undone_by compensate_undoes_only)
  moreover have "r_state row' \<in> {Failed, Cancelled} \<or>
      r_state row' = Compensating \<and> (\<exists>q step'. sr_steps s' (q, Undo) = Some step' \<and> s_status step' = Scheduled)"
  proof -
    have "r_state row' = fst (places ?rest (Compensating, r_node row, False))"
      using arg_cong [OF row'(2), of fst] pl by (simp add: place_of_def completed_by_def)
    moreover have "status_of (sr_steps s') (q, Undo) = Some Scheduled \<Longrightarrow>
        \<exists>step'. sr_steps s' (q, Undo) = Some step' \<and> s_status step' = Scheduled" for q
      by (auto simp: status_of_def)
    moreover have "fst (places ?rest (Compensating, r_node row, False)) \<in> {Failed, Cancelled} \<or>
        fst (places ?rest (Compensating, r_node row, False)) = Compensating \<and>
        (\<exists>q. status_of (sr_steps s') (q, Undo) = Some Scheduled)"
      using compensate_goes_on [OF kids] unfolding steps statuses_simps(2) by blast
    ultimately show ?thesis by metis
  qed
  ultimately show ?thesis using row' sound by blast
qed


end
