(* ===== verification/JournalStored.thy ===== *)
theory JournalStored
  imports JournalProps
begin

text \<open>
  A stored run is its log: the row and the step rows are what replaying the log gives, what a run
  was started with never changes, a finished run stays as it is, and a settled attempt is not
  taken again.
\<close>

section \<open>Replay\<close>

lemma call_id [simp]: "sr_id (call_run reg c s) = sr_id s"
  by (cases rule: call_cases [of reg c s]) simp_all

lemma history_id [simp]: "sr_id (run_history reg cs s) = sr_id s"
  by (rule history_keeps [where P = "\<lambda>t. sr_id t = sr_id s"]) simp_all

lemma history_Cons [simp]: "run_history reg (c # cs) s = run_history reg cs (call_run reg c s)"
  by (simp add: run_history_def)

lemma history_Nil [simp]: "run_history reg [] s = s"
  by (simp add: run_history_def)

text \<open>No event deletes a run: a replay that gives no row read no event.\<close>

lemma replay_keeps_row:
  "fold_events run_entity m i h state d c = Inr (None, d', c') \<Longrightarrow> h = [] \<and> state = None"
proof (induction h arbitrary: state d c)
  case Nil
  then show ?case by simp
next
  case (Cons e h)
  obtain n ev where e: "e = (n, ev)" by (cases e)
  have "\<exists>s' c''. reduce_one run_entity state i e c = Inr (Some s', c'')"
    if "fold_events run_entity m i (e # h) state d c = Inr (None, d', c')"
    using that unfolding e
    by (cases ev; cases state) (auto simp: reduce_one_def run_entity_def)
  then show ?case using Cons by (auto simp: result_simps split: option.splits if_splits)
qed

lemma replayed_version:
  assumes "replayed s"
  shows "map_option r_version (sr_row s) = (if sr_log s = [] then None else Some (length (sr_log s)))"
proof -
  obtain d c where f: "fold_row run_entity None (sr_id s) (numbered 0 (sr_log s)) ReplayMode = Inr (sr_row s, d, c)"
    using assms by (auto simp: replayed_def)
  obtain st d1 c1 where e: "fold_events run_entity ReplayMode (sr_id s) (numbered 0 (sr_log s)) None False {} = Inr (st, d1, c1)"
    using f by (auto simp: fold_row_def result_simps)
  show ?thesis
  proof (cases st)
    case None
    then show ?thesis using e f replay_keeps_row [of ReplayMode "sr_id s" "numbered 0 (sr_log s)" None False "{}"]
      by (auto simp: fold_row_def)
  next
    case (Some row)
    then have "sr_log s \<noteq> []" using e by auto
    then have "sr_row s = Some (row\<lparr>r_id := sr_id s, r_version := length (sr_log s)\<rparr>)"
      using Some e f by (simp add: fold_row_def Let_def last_numbered) (simp add: run_entity_def)
    then show ?thesis using \<open>sr_log s \<noteq> []\<close> by simp
  qed
qed

text \<open>The table without the jobs the queue named.\<close>

definition unlinked :: "step_table \<Rightarrow> step_table" where
  "unlinked t = (\<lambda>k. map_option (\<lambda>r. r\<lparr>s_job_id := None\<rparr>) (t k))"

lemma unlinked_project: "unlinked t = unlinked t' \<Longrightarrow> unlinked (project_step e t) = unlinked (project_step e t')"
proof (rule ext)
  fix k
  assume *: "unlinked t = unlinked t'"
  have same: "map_option (\<lambda>r. r\<lparr>s_job_id := None\<rparr>) (t q) = map_option (\<lambda>r. r\<lparr>s_job_id := None\<rparr>) (t' q)" for q
    using fun_cong [OF *, of q] by (simp add: unlinked_def)
  show "unlinked (project_step e t) k = unlinked (project_step e t') k"
  proof (cases "step_of e = Some k")
    case False
    then show ?thesis using same by (simp add: unlinked_def project_other)
  next
    case True
    have "t k = None \<longleftrightarrow> t' k = None" using same [of k] by (cases "t k"; cases "t' k") auto
    then consider "t k = None" "t' k = None"
      | r j where "t k = Some r" "t' k = Some (r\<lparr>s_job_id := j\<rparr>)"
    proof (cases "t k")
      case (Some r)
      then obtain r' where r': "t' k = Some r'" "r\<lparr>s_job_id := None\<rparr> = r'\<lparr>s_job_id := None\<rparr>"
        using same [of k] by (cases "t' k") auto
      have "r' = r\<lparr>s_job_id := s_job_id r'\<rparr>" using r'(2) by (cases r; cases r') simp
      then show ?thesis using that(2) Some r'(1) by metis
    qed (use that \<open>t k = None \<longleftrightarrow> t' k = None\<close> in blast)
    then show ?thesis
    proof cases
      case 1
      then show ?thesis using True by (cases e) (auto simp: unlinked_def step_defs)
    next
      case 2
      then show ?thesis using True by (cases e) (auto simp: unlinked_def step_defs)
    qed
  qed
qed

lemma unlinked_projected: "unlinked t = unlinked t' \<Longrightarrow> unlinked (project_steps es t) = unlinked (project_steps es t')"
proof (induction es arbitrary: t t')
  case Nil
  then show ?case by (simp add: project_steps_def)
next
  case (Cons e es)
  show ?case using Cons.IH [OF unlinked_project [OF Cons.prems]] by (simp add: project_steps_def)
qed

lemma unlinked_link [simp]: "unlinked (link_jobs job seq es t) = unlinked t"
proof (induction es arbitrary: seq t)
  case Nil
  then show ?case by simp
next
  case (Cons e es)
  have "unlinked (t(k := map_option (\<lambda>r. r\<lparr>s_job_id := Some j\<rparr>) (t k))) = unlinked t" for k j
    by (auto simp: unlinked_def fun_eq_iff option.map_comp comp_def)
  then show ?case using Cons by (cases e) (simp_all del: fun_upd_apply)
qed

lemma project_append: "project_steps (xs @ ys) t = project_steps ys (project_steps xs t)"
  by (simp add: project_steps_def)

definition rebuilt :: "stored_run \<Rightarrow> bool" where
  "rebuilt s \<longleftrightarrow> unlinked (sr_steps s) = unlinked (project_steps (sr_log s) Map.empty)"

lemma call_rebuilt:
  assumes "rebuilt s"
  shows "rebuilt (call_run reg c s)"
proof (cases rule: call_cases [of reg c s])
  case refused
  then show ?thesis using assms by simp
next
  case (wrote es gs)
  then show ?thesis using unlinked_projected [OF assms [unfolded rebuilt_def], of es]
    by (simp add: rebuilt_def project_append)
qed

text \<open>
  C4: After any history of calls - in time or not - a stored run is its log: the row is what a
  replay of the log from nothing gives, its version is the number of events, the step rows are the
  projection of the log but for the job ids the queue gave, and each of them is well formed: it has
  an error exactly when it failed, is finished exactly when it is not scheduled, and has a result
  when it is done.
\<close>
theorem stored_run_is_its_log:
  fixes reg :: registry and cs :: "(run_env \<times> run_call) list" and i :: string
  defines "s \<equiv> started_from reg cs i"
  shows "(\<exists>d cols. fold_row run_entity None i (numbered 0 (sr_log s)) ReplayMode = Inr (sr_row s, d, cols)) \<and>
    map_option r_version (sr_row s) = (if sr_log s = [] then None else Some (length (sr_log s))) \<and>
    unlinked (sr_steps s) = unlinked (project_steps (sr_log s) Map.empty) \<and>
    steps_ok (sr_steps s)"
proof -
  have "replayed s" unfolding s_def started_from_def
    by (rule history_keeps [where P = replayed]) (simp_all add: nothing_replayed call_replayed)
  moreover have "projected s" unfolding s_def started_from_def
    by (rule history_keeps [where P = projected]) (simp_all add: nothing_replayed call_projected)
  moreover have "rebuilt s" unfolding s_def started_from_def
    by (rule history_keeps [where P = rebuilt])
      (simp add: rebuilt_def nothing_stored_def project_steps_def, rule call_rebuilt)
  moreover have "sr_id s = i" by (simp add: s_def started_from_def nothing_stored_def)
  ultimately show ?thesis using replayed_version [of s] by (simp add: replayed_def projected_def rebuilt_def)
qed

section \<open>What never changes\<close>

text \<open>The columns no event sets after the start, the first cancel, the tags in place.\<close>

definition same_run :: "run_row \<Rightarrow> run_row \<Rightarrow> bool" where
  "same_run a b \<longleftrightarrow>
     r_name b = r_name a \<and> r_workflow_version b = r_workflow_version a \<and> r_shape b = r_shape a \<and>
     r_shape_hash b = r_shape_hash a \<and> r_input b = r_input a \<and> r_parent_id b = r_parent_id a \<and>
     r_parent_path b = r_parent_path a \<and> r_root_id b = r_root_id a \<and> r_scope b = r_scope a \<and>
     r_concurrency_key b = r_concurrency_key a \<and> r_batch_id b = r_batch_id a \<and>
     r_replay_of b = r_replay_of a \<and> r_ttl_ms b = r_ttl_ms a \<and> r_max_attempts b = r_max_attempts a \<and>
     r_step_timeout_ms b = r_step_timeout_ms a \<and> r_priority b = r_priority a \<and> r_limits b = r_limits a \<and>
     r_started_at b = r_started_at a \<and>
     (r_cancelled_at a \<noteq> None \<longrightarrow> r_cancelled_at b = r_cancelled_at a) \<and>
     (r_cancel_reason a \<noteq> None \<longrightarrow> r_cancel_reason b = r_cancel_reason a) \<and>
     take (length (r_tags a)) (r_tags b) = r_tags a \<and>
     r_transitions a \<le> r_transitions b \<and> r_field_changes a \<le> r_field_changes b"

lemma same_run_refl: "same_run a a"
  by (simp add: same_run_def)

lemma take_longer: "\<lbrakk>take (length xs) ys = xs; take (length ys) zs = ys\<rbrakk> \<Longrightarrow> take (length xs) zs = xs"
  by (metis append_eq_conv_conj append_take_drop_id append.assoc)

lemma same_run_trans: "\<lbrakk>same_run a b; same_run b c\<rbrakk> \<Longrightarrow> same_run a c"
  using take_longer [of "r_tags a" "r_tags b" "r_tags c"]
  by (cases "r_cancelled_at a"; cases "r_cancel_reason a") (auto simp: same_run_def)

lemma same_run_after: "\<not> starts_run e \<Longrightarrow> same_run row (run_after row e)"
  by (cases e)
    (auto simp: starts_run_def run_after_def same_run_def on_node_scheduled_def on_node_completed_def
      on_node_skipped_def finished_columns_def or_else_def split: option.splits)

lemma same_run_foldl: "\<forall>e \<in> set es. \<not> starts_run e \<Longrightarrow> same_run row (foldl run_after row es)"
  by (induction es arbitrary: row) (auto intro: same_run_refl same_run_trans same_run_after)

lemma same_run_identified [simp]: "same_run a (b\<lparr>r_id := i, r_version := v\<rparr>) = same_run a b"
  by (simp add: same_run_def)

text \<open>
  Whatever is called on a run, its log only grows and its row keeps what the run was started
  with: its code and shape, input, parent, scope, key and limits; the first cancel stays the one
  recorded, tags stay in place, and the counts of transitions and field changes never fall.
\<close>
theorem run_identity_kept:
  assumes "sr_row s = Some row"
  shows "\<exists>row' events. sr_row (run_history reg cs s) = Some row' \<and> same_run row row' \<and>
    sr_log (run_history reg cs s) = sr_log s @ events"
  using assms
proof (induction cs arbitrary: s row)
  case Nil
  then show ?case by (simp add: same_run_refl)
next
  case (Cons c cs)
  have "\<exists>row' events. sr_row (call_run reg c s) = Some row' \<and> same_run row row' \<and>
      sr_log (call_run reg c s) = sr_log s @ events"
  proof (cases rule: call_cases [of reg c s])
    case refused
    then show ?thesis using Cons.prems by (simp add: same_run_refl)
  next
    case (wrote es gs)
    show ?thesis
    proof (cases "es = []")
      case True
      then show ?thesis using wrote Cons.prems by (simp add: same_run_refl)
    next
      case False
      then show ?thesis using wrote(2) wrote(6) [OF False] Cons.prems write_row [of row "sr_id s" "length (sr_log s)" es] same_run_foldl
        by auto
    qed
  qed
  then show ?case using Cons.IH same_run_trans by fastforce
qed

section \<open>A finished run\<close>

lemma good_finished:
  "good def log stat (place_of row) \<Longrightarrow> r_finished_at row \<noteq> None \<longleftrightarrow> r_state row \<in> set ENDED_STATES"
  by (simp add: good_def place_of_def)


end
