(* ===== verification/JournalOnce.thy ===== *)
theory JournalOnce
  imports JournalStored
begin

text \<open>
  A report of an attempt is taken once - and where it is taken again: a report names its step by
  path, phase and attempt only.
\<close>

section \<open>A settled attempt\<close>

text \<open>The outcomes that settle the attempt, as the run stands.\<close>

fun settles_attempt :: "run_row \<Rightarrow> string \<Rightarrow> outcome \<Rightarrow> bool" where
  "settles_attempt row path (Completes r route by') = (r_state row = Compensating \<or> route \<noteq> GoNode path)"
| "settles_attempt row path (Skips r route) = (r_state row = Compensating \<or> route \<noteq> GoNode path)"
| "settles_attempt row path (Retries e key due) = (r_state row \<noteq> Compensating)"
| "settles_attempt row path Drops = True"
| "settles_attempt row path _ = False"

lemma checkpoint_writes:
  assumes "checkpoint reg E path ph n outcome s = Inr (es, gs)" "sr_row s = Some row" "es \<noteq> []"
  shows "\<exists>def. code_of reg row = Inr def \<and> r_finished_at row = None \<and> awaits_attempt (sr_steps s) path ph n \<and>
    checkpoint_outcome E def row s path ph n outcome (en_now E) = Inr (es, gs)"
  using assms by (auto simp: checkpoint_def result_simps split: if_splits)

lemma no_start_after:
  "e \<in> set (events_after log row route at) \<Longrightarrow> \<not> starts_run e"
  by (auto simp: events_after_def starts_run_def split: route.splits)

lemma no_start_loop: "undo_loop def row kids at items = (es, over) \<Longrightarrow> \<forall>e \<in> set es. \<not> starts_run e"
  by (induction items arbitrary: es) (auto simp: starts_run_def split: undo_move.splits prod.splits)

lemma no_start_compensate: "e \<in> set (compensate E def row log at opts) \<Longrightarrow> \<not> starts_run e"
proof -
  obtain es over where loop: "undo_loop def row (en_kids E) at
      (remaining_undos def (settled_of log) (co_done_now opts) (co_undone_now opts)) = (es, over)" by fastforce
  show "e \<in> set (compensate E def row log at opts) \<Longrightarrow> \<not> starts_run e"
    using no_start_loop [OF loop] loop
    by (auto simp: compensate_def run_failed_def starts_run_def split: if_splits)
qed

lemma starts_no_run [simp]:
  "\<not> starts_run (completed_by p ph r by' at)" "\<not> starts_run (skipped_by p ph c w at)"
  "\<not> starts_run (failed_attempt p ph n w at)" "\<not> starts_run (NodeScheduled d)"
  by (simp_all add: starts_run_def completed_by_def skipped_by_def failed_attempt_def)

lemma settled_step [simp]:
  "step_of (completed_by p ph r by' at) = Some (p, ph)" "status_after (completed_by p ph r by' at) st = Some StepDone"
  "step_of (failed_attempt p ph n w at) = Some (p, ph)"
  by (simp_all add: completed_by_def failed_attempt_def)

lemma statuses_after:
  "route \<noteq> GoNode p \<Longrightarrow> statuses (events_after log row route at) stat (p, ph) = stat (p, ph)"
  by (auto simp: events_after_def schedule_def split: route.splits)

lemma settled_report:
  assumes c: "checkpoint_outcome E def row s p Do n outcome at = Inr (es, gs)" and o': "settles_attempt row p outcome"
  shows "(\<forall>e \<in> set es. \<not> starts_run e) \<and>
    ((\<exists>st. statuses es stat (p, Do) = Some st \<and> st \<noteq> Scheduled \<and> st \<noteq> StepFailed) \<or>
     (\<exists>d e. es = [e, NodeScheduled d] \<and> step_of e = Some (p, Do) \<and> sch_path d = p \<and> sch_phase d = Do \<and> sch_attempt d = n + 1))"
proof (cases outcome)
  case (Completes r route by')
  then show ?thesis using assms no_start_after no_start_compensate compensate_undoes_only(2) statuses_after
    by (cases "r_state row = Compensating") (auto simp: checkpoint_outcome_def Let_def with_signals_Inr)
next
  case (Skips r route)
  then show ?thesis using assms no_start_after no_start_compensate compensate_undoes_only(2) statuses_after
    by (cases "r_state row = Compensating") (auto simp: checkpoint_outcome_def Let_def with_signals_Inr)
next
  case (Retries e key due)
  then show ?thesis using assms
    by (auto simp: checkpoint_outcome_def Let_def with_signals_Inr schedule_def)
next
  case Drops
  then show ?thesis using assms no_start_compensate compensate_undoes_only(2)
    by (auto simp: checkpoint_outcome_def Let_def with_signals_Inr)
qed (use o' in auto)

lemma attempt_linked:
  "(link_jobs job seq es t k = None \<longleftrightarrow> t k = None) \<and>
   map_option s_attempt (link_jobs job seq es t k) = map_option s_attempt (t k)"
proof (induction es arbitrary: seq t)
  case Nil
  then show ?case by simp
next
  case (Cons e es)
  show ?case
  proof (cases e)
    case (NodeScheduled d)
    let ?t = "t((sch_path d, sch_phase d) := map_option (\<lambda>r. r\<lparr>s_job_id := Some (job seq)\<rparr>) (t (sch_path d, sch_phase d)))"
    have "(?t k = None \<longleftrightarrow> t k = None) \<and> map_option s_attempt (?t k) = map_option s_attempt (t k)"
      by (simp add: option.map_comp comp_def)
    then show ?thesis using Cons.IH [of "Suc seq" ?t] NodeScheduled by (simp del: fun_upd_apply)
  qed (use Cons.IH in simp_all)
qed

text \<open>A \<open>do\<close> attempt no longer awaited is awaited again only by an event that puts it there anew.\<close>

fun reopens :: "string \<Rightarrow> nat \<Rightarrow> run_event \<Rightarrow> bool" where
  "reopens p n (NodeScheduled d) \<longleftrightarrow> sch_path d = p \<and> sch_phase d = Do \<and> sch_attempt d = n"
| "reopens p n (NodeFailed d) \<longleftrightarrow> fld_path d = p \<and> fld_phase d = Do \<and> fld_attempt d = n"
| "reopens p n _ \<longleftrightarrow> False"

lemma awaits_projected:
  "\<lbrakk>\<not> awaits_attempt t p Do n; \<not> reopens p n e\<rbrakk> \<Longrightarrow> \<not> awaits_attempt (project_step e t) p Do n"
  by (cases e) (auto simp: awaits_attempt_def step_defs split: option.splits if_splits)

lemma awaits_all_projected:
  "\<lbrakk>\<not> awaits_attempt t p Do n; list_all (\<lambda>e. \<not> reopens p n e) es\<rbrakk> \<Longrightarrow> \<not> awaits_attempt (project_steps es t) p Do n"
  by (induction es arbitrary: t) (simp_all add: project_steps_def awaits_projected)

lemma awaits_linked: "awaits_attempt (link_jobs job seq es t) p ph n = awaits_attempt t p ph n"
proof -
  have "map_option s_status (link_jobs job seq es t (p, ph)) = map_option s_status (t (p, ph))"
    by (rule status_linked_at [unfolded status_of_def])
  then show ?thesis using attempt_linked [of job seq es t "(p, ph)"]
    by (cases "t (p, ph)"; cases "link_jobs job seq es t (p, ph)") (simp_all add: awaits_attempt_def)
qed

lemma call_keeps_settled:
  assumes "sr_row s \<noteq> None" "\<not> awaits_attempt (sr_steps s) p Do n"
  obtains es where "sr_log (call_run reg c s) = sr_log s @ es" "sr_row (call_run reg c s) \<noteq> None"
    "list_all (\<lambda>e. \<not> reopens p n e) es \<Longrightarrow> \<not> awaits_attempt (sr_steps (call_run reg c s)) p Do n"
proof (cases rule: call_cases [of reg c s])
  case refused
  then show thesis using that [of "[]"] assms by simp
next
  case (wrote es gs)
  have "sr_row (call_run reg c s) \<noteq> None"
    using wrote(5,6) assms(1) write_row by (cases "es = []") fastforce+
  then show thesis using that [of es] wrote(2,4) awaits_all_projected [OF assms(2)] by (simp add: awaits_linked)
qed

lemma history_grows:
  "sr_row s \<noteq> None \<Longrightarrow> \<exists>es. sr_log (run_history reg cs s) = sr_log s @ es \<and> sr_row (run_history reg cs s) \<noteq> None"
proof (induction cs arbitrary: s)
  case Nil
  then show ?case by (simp add: run_history_def)
next
  case (Cons c cs)
  have "\<exists>es. sr_log (call_run reg c s) = sr_log s @ es \<and> sr_row (call_run reg c s) \<noteq> None"
  proof (cases rule: call_cases [of reg c s])
    case refused
    then show ?thesis using Cons.prems by simp
  next
    case (wrote es gs)
    then show ?thesis using Cons.prems write_row by (cases "es = []") fastforce+
  qed
  then show ?case using Cons.IH by (fastforce simp: run_history_def)
qed

lemma history_keeps_settled:
  assumes "sr_row s \<noteq> None" "\<not> awaits_attempt (sr_steps s) p Do n"
  shows "\<exists>es. sr_log (run_history reg cs s) = sr_log s @ es \<and> sr_row (run_history reg cs s) \<noteq> None \<and>
    (list_all (\<lambda>e. \<not> reopens p n e) es \<longrightarrow> \<not> awaits_attempt (sr_steps (run_history reg cs s)) p Do n)"
  using assms
proof (induction cs arbitrary: s)
  case Nil
  then show ?case by (simp add: run_history_def)
next
  case (Cons c cs)
  obtain es where es: "sr_log (call_run reg c s) = sr_log s @ es" "sr_row (call_run reg c s) \<noteq> None"
    "list_all (\<lambda>e. \<not> reopens p n e) es \<Longrightarrow> \<not> awaits_attempt (sr_steps (call_run reg c s)) p Do n"
    by (rule call_keeps_settled [OF Cons.prems, of reg c]) blast
  show ?case
  proof (cases "awaits_attempt (sr_steps (call_run reg c s)) p Do n")
    case False
    with Cons.IH [OF es(2) False] es(1) show ?thesis by (auto simp: run_history_def)
  next
    case True
    then have "\<not> list_all (\<lambda>e. \<not> reopens p n e) es" using es(3) by blast
    moreover obtain fs where "sr_log (run_history reg cs (call_run reg c s)) = sr_log (call_run reg c s) @ fs"
      "sr_row (run_history reg cs (call_run reg c s)) \<noteq> None"
      using history_grows [OF es(2)] by blast
    ultimately show ?thesis using es(1) by (auto simp: run_history_def)
  qed
qed

text \<open>
  C21: A report that settles a \<open>do\<close> attempt - it completed, was skipped, dropped, or goes again - is
  taken once: after any later calls, whatever is reported of the same path and attempt, by a job
  delivered again or by another, changes nothing, unless an event written in between schedules or
  fails that very attempt of the path anew (a loop came back to the node, an operator retried it).
  A report that sends the run back to the very node is not one that settles.
\<close>
theorem attempt_taken_once:
  fixes E :: run_env and reg :: registry and p :: string and n :: nat and outcome :: outcome
    and s :: stored_run and cs :: "(run_env \<times> run_call) list"
  defines "s' \<equiv> call_run reg (E, CheckpointCall p Do n outcome) s"
  defines "s'' \<equiv> run_history reg cs s'"
  assumes "sr_row s = Some row" and "checkpoint reg E p Do n outcome s = Inr (es, gs)" "es \<noteq> []"
    and "settles_attempt row p outcome"
    and "list_all (\<lambda>e. \<not> reopens p n e) (drop (length (sr_log s')) (sr_log s''))"
  shows "s' \<noteq> s \<and> call_run reg (E', CheckpointCall p Do n outcome') s'' = s''"
proof -
  let ?c = "(E, CheckpointCall p Do n outcome)"
  have d: "decide reg (fst ?c) (snd ?c) s = Inr (es, gs)" using assms(4) by simp
  obtain def where "checkpoint_outcome E def row s p Do n outcome (en_now E) = Inr (es, gs)"
    using checkpoint_writes [OF assms(4,3,5)] by blast
  note r = settled_report [OF this assms(6), of "status_of (sr_steps s)"]
  note w = call_writes [OF d assms(3) conjunct1 [OF r]]
  have stat: "status_of (sr_steps s') = statuses es (status_of (sr_steps s))"
    by (simp only: s'_def w(2) status_linked status_projected)
  have settled: "\<not> awaits_attempt (sr_steps s') p Do n"
    using conjunct2 [OF r]
  proof
    assume "\<exists>st. statuses es (status_of (sr_steps s)) (p, Do) = Some st \<and> st \<noteq> Scheduled \<and> st \<noteq> StepFailed"
    then obtain st where "status_of (sr_steps s') (p, Do) = Some st" "st \<noteq> Scheduled" "st \<noteq> StepFailed"
      using stat by auto
    then show ?thesis by (auto simp: awaits_attempt_def status_of_def split: option.splits)
  next
    assume "\<exists>d e. es = [e, NodeScheduled d] \<and> step_of e = Some (p, Do) \<and> sch_path d = p \<and> sch_phase d = Do \<and> sch_attempt d = n + 1"
    then obtain d e where es: "es = [e, NodeScheduled d]" "sch_path d = p" "sch_phase d = Do" "sch_attempt d = n + 1" by blast
    have "map_option s_attempt (project_steps es (sr_steps s) (p, Do)) = Some (n + 1)"
      by (simp add: es project_steps_def step_defs split: option.splits)
    then have "map_option s_attempt (sr_steps s' (p, Do)) = Some (n + 1)"
      by (simp only: s'_def w(2) attempt_linked)
    then show ?thesis by (auto simp: awaits_attempt_def split: option.splits)
  qed
  have "sr_row s' \<noteq> None" using w(3) by (auto simp: s'_def)
  then obtain fs where "sr_log s'' = sr_log s' @ fs" "sr_row s'' \<noteq> None"
    "list_all (\<lambda>e. \<not> reopens p n e) fs \<longrightarrow> \<not> awaits_attempt (sr_steps s'') p Do n"
    using history_keeps_settled [OF _ settled, of reg cs] unfolding s''_def by blast
  then have "\<not> awaits_attempt (sr_steps s'') p Do n" "sr_row s'' \<noteq> None" using assms(7) by simp_all
  then have "checkpoint reg E' p Do n outcome' s'' = Inr ([], sr_signals s'')" by (auto simp: checkpoint_def)
  moreover have "sr_log s' \<noteq> sr_log s" using w(1) assms(5) by (simp add: s'_def)
  ultimately show ?thesis by (auto simp: call_run_def write_run_def)
qed

section \<open>Where a report is taken that should not be\<close>

text \<open>
  C38: A failed \<open>do\<close> step of a compensating run still takes a report that its last attempt completed,
  which a worker that stopped after its checkpoint delivers again. While no undo has settled and
  no child runs, the step then counts as done and its undo is scheduled beside the undo of another
  step that is in flight: two undos run at once. What follows when both report is not part of the
  statement; the application to a concrete run shows one such end.
\<close>
theorem failed_attempt_reported_again:
  fixes E :: run_env and reg :: registry and result :: json and route :: route and by' :: "operator_fields option"
  assumes "sr_row s = Some row" "code_of reg row = Inr def" "r_finished_at row = None" "r_state row = Compensating"
    and "sr_steps s (p, Do) = Some step" "s_status step = StepFailed"
    and "node_named def p = Some (StepNode p True [])" "undo_paths (sr_log s) = []"
    and "status_of (sr_steps s) (q, Undo) = Some Scheduled" "q \<noteq> p" "en_kids E = []"
  defines "s' \<equiv> call_run reg (E, CheckpointCall p Do (s_attempt step) (Completes result route by')) s"
  shows "status_of (sr_steps s') (p, Undo) = Some Scheduled \<and> status_of (sr_steps s') (q, Undo) = Some Scheduled"
proof -
  let ?opts = "caused_by None\<lparr>co_done_now := Some (p, result)\<rparr>"
  let ?items = "remaining_undos def (settled_of (sr_log s)) (Some (p, result)) 0"
  have "StepNode p True [] \<in> set (wd_nodes def)"
    using assms(7) unfolding node_named_def find_Some_iff by (metis nth_mem)
  then have "is_undoable def p" unfolding is_undoable_def by (intro bexI) auto
  then have "map ui_path ?items = p # rev (done_paths def (sr_log s))"
    using assms(8) by (simp add: remaining_paths done_with_def)
  then obtain item items where items: "?items = item # items" "ui_path item = p" by (cases ?items) auto
  have move: "\<exists>d. undo_item_move def row [] (en_now E) item = ScheduleIt d"
    using items(2) assms(7) by (simp add: undo_item_move_def Let_def)
  then obtain d where d: "undo_item_move def row [] (en_now E) item = ScheduleIt d" by blast
  have sch: "sch_path d = p" "sch_phase d = Undo" using undo_item_move_path(3) [OF d] items(2) by simp_all
  let ?es = "[completed_by p Do result by' (en_now E), NodeScheduled d]"
  have "compensate E def row (sr_log s) (en_now E) ?opts = [NodeScheduled d]"
    using assms(11) items(1) d by (simp add: compensate_def caused_by_def)
  then have dec: "checkpoint reg E p Do (s_attempt step) (Completes result route by') s = Inr (?es, sr_signals s)"
    using assms(1-6) by (simp add: checkpoint_def awaits_attempt_def checkpoint_outcome_def Let_def with_signals_Inr)
  have ns: "\<forall>e \<in> set ?es. \<not> starts_run e" by simp
  have "status_of (sr_steps s') = statuses ?es (status_of (sr_steps s))"
    using dec by (simp only: s'_def call_writes(2) [OF _ assms(1) ns] decide.simps prod.sel status_linked status_projected)
  then show ?thesis using sch assms(9,10) by (simp add: completed_by_def)
qed

text \<open>
  C39: A report does not say which visit of a looped node it is of. When the run is back at a node
  that was settled before, the job of the earlier visit, delivered again, settles the new visit
  with its own result, although the step waits under the key of the new visit.
\<close>
theorem earlier_visit_settles_later:
  fixes E :: run_env and reg :: registry and result :: json and route :: route and by' :: "operator_fields option"
  assumes "sr_row s = Some row" "code_of reg row = Inr def" "r_finished_at row = None" "r_state row \<noteq> Compensating"
    and "sr_steps s (p, Do) = Some step" "s_status step = Scheduled" "s_attempt step = 1"
    and "s_key step = Some (key_of_next_visit (sr_log s) (r_id row) p)" "visit_of (sr_log s) p > 1"
  defines "s' \<equiv> call_run reg (E, CheckpointCall p Do 1 (Completes result route by')) s"
  shows "s_key step \<noteq> Some (first_key_of (r_id row) p) \<and>
    (\<exists>events. sr_log s' = sr_log s @ completed_by p Do result by' (en_now E) # events)"
proof -
  let ?es = "completed_by p Do result by' (en_now E) # events_after (sr_log s) row route (en_now E)"
  have dec: "checkpoint reg E p Do 1 (Completes result route by') s = Inr (?es, sr_signals s)"
    using assms(1-7) by (simp add: checkpoint_def awaits_attempt_def checkpoint_outcome_def Let_def with_signals_Inr)
  have "\<forall>e \<in> set ?es. \<not> starts_run e" using no_start_after by auto
  then have "sr_log s' = sr_log s @ ?es"
    unfolding s'_def using dec by (intro call_writes(1) [OF _ assms(1), where gs = "sr_signals s"]) simp_all
  then show ?thesis using assms(8,9) by (auto simp: key_of_next_visit_def first_key_of_def Let_def)
qed

end
