(* ===== verification/JournalFields.thy ===== *)
theory JournalFields
  imports JournalOnce
begin

text \<open>
  What the calls that change a run's fields do to its row: metadata, tags, a later start; and the
  ids a failed child run is started again under.
\<close>

section \<open>One event on the row\<close>

lemma call_one:
  assumes "decide reg E c s = Inr ([e], gs)" "sr_row s = Some row" "\<not> starts_run e"
  shows "sr_row (call_run reg (E, c) s) =
    Some ((run_after row e)\<lparr>r_id := sr_id s, r_version := length (sr_log s) + 1\<rparr>)"
proof -
  let ?s = "call_run reg (E, c) s"
  have ns: "\<forall>x \<in> set [e]. \<not> starts_run x" using assms(3) by simp
  show ?thesis
  proof (cases rule: call_cases [of reg "(E, c)" s])
    case refused
    then show ?thesis using call_writes(1) [of reg "(E, c)" s "[e]" gs row] assms by simp
  next
    case (wrote es gs')
    then have "es = [e]" using assms(1) by simp
    then show ?thesis using wrote(6) assms(2) write_row [of row "sr_id s" "length (sr_log s)" "[e]"] by auto
  qed
qed

section \<open>Metadata and tags\<close>

lemma map_of_update [simp]: "map_of (AList.update k v m) = (map_of m)(k \<mapsto> v)"
  by (simp add: update_conv')

text \<open>What a change asks of the entries: a patch sets its keys, the last of a key winning; nothing falls back to another value.\<close>

fun change_applied :: "metadata_change \<Rightarrow> (string \<rightharpoonup> json) \<Rightarrow> (string \<rightharpoonup> json) \<Rightarrow> bool" where
  "change_applied (SetPatch p) m m' = (m' = m ++ map_of (rev p))"
| "change_applied (Increment k n) m m' =
     ((m k = None \<and> m' = m(k \<mapsto> JNumber (rnd53 (0 + n)))) \<or>
      (\<exists>now. m k = Some (JNumber now) \<and> m' = m(k \<mapsto> JNumber (rnd53 (now + n)))))"
| "change_applied (AppendTo k v) m m' =
     ((m k = None \<and> m' = m(k \<mapsto> JArray [v])) \<or>
      (\<exists>vs. m k = Some (JArray vs) \<and> m' = m(k \<mapsto> JArray (vs @ [v]))))"
| "change_applied (RemoveKey k) m m' = (m' = m(k := None))"

lemma property_of_own: "property_of m k = Own v \<longleftrightarrow> map_of m k = Some v"
  by (auto simp: property_of_def split: option.splits)

lemma property_of_undefined: "property_of m k = Undefined \<Longrightarrow> map_of m k = None"
  by (auto simp: property_of_def split: option.splits)

lemma change_applies:
  assumes "metadata_refusal m change = None"
  shows "change_applied change (map_of m) (map_of (changed_metadata m change))"
proof (cases change)
  case (SetPatch p)
  have "map_of (spread_entries m p) = map_of m ++ map_of (rev p)" for m p
    unfolding spread_entries_def by (induction p arbitrary: m) auto
  then show ?thesis using SetPatch by simp
next
  case (Increment k n)
  then show ?thesis using assms property_of_own [of m k] property_of_undefined [of m k]
    by (cases "property_of m k") (auto simp: Let_def split: json.splits)
next
  case (AppendTo k v)
  then show ?thesis using assms property_of_own [of m k] property_of_undefined [of m k]
    by (cases "property_of m k") (auto simp: Let_def split: json.splits)
next
  case (RemoveKey k)
  then show ?thesis by (simp add: delete_conv')
qed

text \<open>
  A change of metadata or tags that a call accepts is stored exactly: an increment adds to the
  number that was there or starts from none, an append adds to the list that was there, so no
  fallback of the reducer is ever met; tags are added once each, in order, and stay within the limit;
  and the count of field changes moves on by one for each change written.
\<close>
theorem field_changes_exact:
  assumes "sr_row s = Some row"
  shows "(\<forall>change op. change_metadata E change op s = Inr (es, gs) \<longrightarrow>
      (\<exists>row'. sr_row (call_run reg (E, MetadataCall change op) s) = Some row' \<and>
         change_applied change (map_of (r_metadata row)) (map_of (r_metadata row')) \<and>
         r_field_changes row' = r_field_changes row + 1)) \<and>
    (\<forall>tags op. add_run_tags E tags op s = Inr (es, gs) \<longrightarrow>
      (\<exists>row'. sr_row (call_run reg (E, TagsCall tags op) s) = Some row' \<and>
         set (r_tags row') = set (r_tags row) \<union> set tags \<and>
         (distinct (r_tags row) \<longrightarrow> distinct (r_tags row')) \<and>
         (length (r_tags row) \<le> RUN_FIELD_LIMITS_tags \<longrightarrow> length (r_tags row') \<le> RUN_FIELD_LIMITS_tags) \<and>
         r_field_changes row' = r_field_changes row + (if r_tags row' = r_tags row then 0 else 1)))"
proof (intro conjI allI impI)
  fix change op
  assume c: "change_metadata E change op s = Inr (es, gs)"
  then have ok: "metadata_refusal (r_metadata row) change = None"
    and es: "es = [MetadataChanged change (en_now E) (case op of None \<Rightarrow> nobody | Some o' \<Rightarrow> operator_of o')]"
    using assms by (auto simp: change_metadata_def split: if_splits)
  have "sr_row (call_run reg (E, MetadataCall change op) s) = Some ((run_after row (MetadataChanged change (en_now E)
      (case op of None \<Rightarrow> nobody | Some o' \<Rightarrow> operator_of o')))\<lparr>r_id := sr_id s, r_version := length (sr_log s) + 1\<rparr>)"
    using c es by (intro call_one [OF _ assms]) (simp_all add: starts_run_def)
  then show "\<exists>row'. sr_row (call_run reg (E, MetadataCall change op) s) = Some row' \<and>
      change_applied change (map_of (r_metadata row)) (map_of (r_metadata row')) \<and>
      r_field_changes row' = r_field_changes row + 1"
    using change_applies [OF ok] by (simp add: run_after_def)
next
  fix tags op
  assume c: "add_run_tags E tags op s = Inr (es, gs)"
  let ?added = "new_tags (r_tags row) tags"
  let ?e = "RunTagged ?added (en_now E) (case op of None \<Rightarrow> nobody | Some o' \<Rightarrow> operator_of o')"
  have new: "distinct ?added" "set ?added = set tags - set (r_tags row)"
    using new_tags_distinct by (auto simp: new_tags_def)
  show "\<exists>row'. sr_row (call_run reg (E, TagsCall tags op) s) = Some row' \<and>
      set (r_tags row') = set (r_tags row) \<union> set tags \<and>
      (distinct (r_tags row) \<longrightarrow> distinct (r_tags row')) \<and>
      (length (r_tags row) \<le> RUN_FIELD_LIMITS_tags \<longrightarrow> length (r_tags row') \<le> RUN_FIELD_LIMITS_tags) \<and>
      r_field_changes row' = r_field_changes row + (if r_tags row' = r_tags row then 0 else 1)"
  proof (cases "?added = []")
    case True
    then have "sr_row (call_run reg (E, TagsCall tags op) s) = Some row"
      using c assms by (auto simp: add_run_tags_def Let_def call_run_def write_run_def split: if_splits)
    then show ?thesis using True new(2) by auto
  next
    case False
    then have es: "es = [?e]" and l: "length (r_tags row) + length ?added \<le> RUN_FIELD_LIMITS_tags"
      using c assms by (auto simp: add_run_tags_def Let_def split: if_splits)
    have "sr_row (call_run reg (E, TagsCall tags op) s) =
        Some ((run_after row ?e)\<lparr>r_id := sr_id s, r_version := length (sr_log s) + 1\<rparr>)"
      using c es by (intro call_one [OF _ assms]) (simp_all add: starts_run_def)
    then show ?thesis using new l False by (auto simp: run_after_def)
  qed
qed

text \<open>A key named like a member of the prototype of objects is refused though the metadata lacks it.\<close>

lemma inherited_key_refused:
  "metadata_refusal [] (Increment ''constructor'' 1) = Some (NotANumber ''constructor'')"
  "metadata_refusal [] (Increment ''count'' 1) = None"
  by code_simp+

section \<open>A later start\<close>

text \<open>
  A run that has not begun and is given another start starts then, or now when that has
  passed; its deadline stays as far from the start as it was, its ttl is counted again from the
  new start, and where it is does not change.
\<close>
theorem reschedule_keeps_distances:
  assumes "sr_row s = Some row" "reschedule E op wanted unclaimed s = Inr (es, gs)"
  defines "asked \<equiv> (case wanted of StartIn age \<Rightarrow> en_now E + age | StartOnDate t \<Rightarrow> t)"
  defines "was \<equiv> (case r_start_at row of Some t \<Rightarrow> t | None \<Rightarrow> r_started_at row)"
  shows "\<exists>row'. sr_row (call_run reg (E, RescheduleCall op wanted unclaimed) s) = Some row' \<and>
    r_start_at row' = Some (max asked (en_now E)) \<and>
    map_option (\<lambda>d. d - max asked (en_now E)) (r_deadline_at row') = map_option (\<lambda>d. d - was) (r_deadline_at row) \<and>
    map_option (\<lambda>t. t - max asked (en_now E)) (r_ttl_at row') = map_option int (r_ttl_ms row) \<and>
    place_of row' = place_of row \<and> (r_state row = Queued \<or> not_started row)"
proof -
  let ?start = "max asked (en_now E)"
  let ?e = "RunRescheduled ?start (map_option (\<lambda>ms. ?start + int ms) (r_ttl_ms row))
    (map_option (\<lambda>d. d + (?start - was)) (r_deadline_at row)) (en_now E) (operator_of op)"
  have start: "(if asked > en_now E then asked else en_now E) = ?start" by simp
  have es: "es = [?e]" and st: "r_state row = Queued \<or> not_started row"
    using assms(1,2) start unfolding reschedule_def Let_def asked_def [symmetric]
    by (auto simp: result_simps was_def split: if_splits)
  have "sr_row (call_run reg (E, RescheduleCall op wanted unclaimed) s) =
      Some ((run_after row ?e)\<lparr>r_id := sr_id s, r_version := length (sr_log s) + 1\<rparr>)"
    using assms(2) es by (intro call_one [OF _ assms(1)]) (simp_all add: starts_run_def)
  then show ?thesis using st by (auto simp: run_after_def place_of_def option.map_comp comp_def)
qed

section \<open>A child started again\<close>

lemma digit_chars: "d < 10 \<Longrightarrow> is_digit_char (char_of (48 + d)) \<and> of_char (char_of (48 + d)) - 48 = (d :: nat)"
  by (simp add: is_digit_char_def)

lemma count_text_digits: "c \<in> set (count_text n) \<Longrightarrow> is_digit_char c"
  using dec_digits_small digit_chars by (auto simp: count_text_def)

lemma count_text_value: "dec_value (map (\<lambda>c. of_char c - 48) (count_text n)) = n"
proof -
  have "map (\<lambda>c. of_char c - 48) (count_text n) = map (\<lambda>d. d) (dec_digits n)"
    unfolding count_text_def map_map
    by (rule map_cong [OF refl]) (use dec_digits_small digit_chars in \<open>auto simp del: of_char_of\<close>)
  then show ?thesis by (simp add: decimal_simps)
qed

lemma count_text_some: "count_text n \<noteq> []"
  by (simp add: count_text_def decimal_simps)

lemma retried_parts_numbered:
  assumes "CHR 0x0A \<notin> set i" "CHR 0x0D \<notin> set i"
  shows "retried_parts (i @ ''~'' @ count_text n) = Some (i, n)"
proof -
  have tilde: "\<not> is_digit_char (CHR ''~'')" by code_simp
  have all: "\<forall>c \<in> set (rev (count_text n)). is_digit_char c" using count_text_digits by simp
  have "takeWhile is_digit_char (rev (count_text n) @ CHR ''~'' # rev i) = rev (count_text n)"
    using all tilde by (subst takeWhile_append2) auto
  moreover have "dropWhile is_digit_char (rev (count_text n) @ CHR ''~'' # rev i) = CHR ''~'' # rev i"
    using all tilde by (subst dropWhile_append2) auto
  ultimately show ?thesis using assms count_text_some
    by (simp add: retried_parts_def Let_def count_text_value)
qed

text \<open>The id after so many retries.\<close>

fun retried_times :: "nat \<Rightarrow> string \<Rightarrow> run_error + string" where
  "retried_times 0 i = Inr i"
| "retried_times (Suc k) i = rbind (retried_times k i) retried_child_id"

text \<open>
  The retries of a failed child are numbered from its first id: the k-th is that id with
  \<open>~k+1\<close> after it, so no two retries of a child share an id.
\<close>
theorem retried_ids_count:
  assumes "CHR 0x0A \<notin> set i" "CHR 0x0D \<notin> set i" "retried_parts i = None"
    and "\<forall>j \<le> k + 1. length (i @ ''~'' @ count_text j) \<le> 256"
  shows "retried_times k i = Inr (if k = 0 then i else i @ ''~'' @ count_text (k + 1))"
  using assms(4)
proof (induction k)
  case 0
  then show ?case by simp
next
  case (Suc k)
  then have IH: "retried_times k i = Inr (if k = 0 then i else i @ ''~'' @ count_text (k + 1))" by simp
  have "length (i @ ''~'' @ count_text (k + 2)) \<le> 256" using Suc.prems by simp
  then have "retried_child_id (if k = 0 then i else i @ ''~'' @ count_text (k + 1)) = Inr (i @ ''~'' @ count_text (k + 2))"
    using assms(3) retried_parts_numbered [OF assms(1,2), of "k + 1"]
    by (cases k) (simp_all add: retried_child_id_def Let_def numeral_2_eq_2)
  then show ?case using IH by (simp add: numeral_2_eq_2)
qed

end
