(* ===== verification/JournalCases.thy ===== *)
theory JournalCases
  imports JournalFields
begin

text \<open>
  Concrete runs: a workflow of three steps with undos that completes two of them, fails in the
  third and undoes, at which the properties of histories are applied; and the histories in which a
  report delivered again goes wrong.
\<close>

definition keep_policy :: run_policy where
  "keep_policy = \<lparr>keep_completed = KeepFor (Some 7), keep_failed = KeepFor (Some 90),
     keep_cancelled = KeepFor (Some 90), keep_expired = KeepFor None\<rparr>"

definition quiet_env :: "time \<Rightarrow> run_env" where
  "quiet_env now = \<lparr>en_now = now, en_kids = [], en_job = JobTaken, en_job_id = count_text, en_dead_jobs = [],
     en_metadata_fits = (\<lambda>m. True), en_policy = keep_policy\<rparr>"

definition three_steps :: workflow_def where
  "three_steps = \<lparr>wd_name = ''w'', wd_version = 1, wd_shape_hash = ''h'', wd_on_dead_step = DeadCompensates,
     wd_retention = \<lparr>own_completed = None, own_failed = None, own_cancelled = None, own_expired = None\<rparr>,
     wd_transitions = 100, wd_nodes = [StepNode ''a'' True [], StepNode ''b'' True [], StepNode ''c'' True []],
     wd_refuses = (\<lambda>v. None), wd_finish = None, wd_output = None\<rparr>"

definition three_registry :: registry where
  "three_registry = [''w@1'' \<mapsto> three_steps]"

definition plain_start :: run_call where
  "plain_start = StartCall three_steps
     \<lparr>sc_parent = None, sc_deadline = None, sc_limits = [], sc_concurrency_key = None, sc_shape = Shape (map (\<lambda>n. ShapeNode n KStep True None None None None None None None) [''a'', ''b'', ''c'']),
      sc_trigger = None, sc_results = None, sc_queued_on = None\<rparr>
     \<lparr>sa_input = JNull, sa_scope = None, sa_tags = [], sa_metadata = [], sa_delay = NoDelay, sa_ttl = None,
      sa_max_attempts = None, sa_timeout_ms = None, sa_priority = None, sa_batch_id = None, sa_replay_of = None,
      sa_by = nobody\<rparr>"

definition up_to_failure :: "(run_env \<times> run_call) list" where
  "up_to_failure =
     [(quiet_env 1, plain_start),
      (quiet_env 2, CheckpointCall ''a'' Do 1 (Completes (JNumber 1) (GoNode ''b'') None)),
      (quiet_env 3, CheckpointCall ''b'' Do 1 (Completes (JNumber 2) (GoNode ''c'') None)),
      (quiet_env 4, CheckpointCall ''c'' Do 1 (Dies ''x''))]"

definition undone_run :: "(run_env \<times> run_call) list" where
  "undone_run = up_to_failure @
     [(quiet_env 5, CheckpointCall ''b'' Undo 1 (Undone JNull)), (quiet_env 6, CheckpointCall ''a'' Undo 1 (Undone JNull))]"


definition failing_run :: stored_run where
  "failing_run = started_from three_registry up_to_failure ''r''"

definition failed_run :: stored_run where
  "failed_run = started_from three_registry undone_run ''r''"

definition begun_run :: stored_run where
  "begun_run = started_from three_registry (take 1 up_to_failure) ''r''"

section \<open>The runs\<close>

definition seen_of :: "stored_run \<Rightarrow> (string \<times> nat \<times> string \<times> run_state \<times> bool) option" where
  "seen_of s = map_option (\<lambda>r. (r_name r, r_workflow_version r, r_shape_hash r, r_state r, r_finished_at r \<noteq> None)) (sr_row s)"

lemma seen_code:
  assumes "seen_of s = Some (''w'', 1, ''h'', st, fin)"
  obtains row where "sr_row s = Some row" "code_of three_registry row = Inr three_steps" "r_state row = st"
    "r_finished_at row \<noteq> None \<longleftrightarrow> fin"
proof -
  have "code_name ''w'' 1 = ''w@1''" by code_simp
  then show ?thesis using assms that
    by (auto simp: seen_of_def code_of_def three_registry_def three_steps_def)
qed

lemma proper_up_to_failure: "proper_history three_registry up_to_failure (nothing_stored ''r'')"
  by code_simp

lemma proper_undone_run: "proper_history three_registry undone_run (nothing_stored ''r'')"
  by code_simp

lemma seen_failing: "seen_of failing_run = Some (''w'', 1, ''h'', Compensating, False)"
  by code_simp

lemma seen_failed: "seen_of failed_run = Some (''w'', 1, ''h'', Failed, True)"
  by code_simp

lemma seen_begun: "seen_of begun_run = Some (''w'', 1, ''h'', Running, False)"
  by code_simp

lemma failing_paths:
  "done_paths three_steps (sr_log failing_run) = [''a'', ''b'']" "undo_paths (sr_log failing_run) = []"
  by code_simp+

lemma failed_paths:
  "done_paths three_steps (sr_log failed_run) = [''a'', ''b'']" "undo_paths (sr_log failed_run) = [''b'', ''a'']"
  by code_simp+

lemma failing_steps:
  "status_of (sr_steps failing_run) (''b'', Undo) = Some Scheduled"
  "map_option (\<lambda>r. (s_status r, s_attempt r)) (sr_steps failing_run (''c'', Do)) = Some (StepFailed, 1)"
  by code_simp+

section \<open>The properties at these runs\<close>

lemma saga_undoes_in_reverse_witness:
  "\<exists>row. sr_row failed_run = Some row \<and> r_state row = Failed \<and>
     undo_paths (sr_log failed_run) = rev [''a'', ''b'']"
proof -
  obtain row where row: "sr_row failed_run = Some row" "code_of three_registry row = Inr three_steps" "r_state row = Failed"
    using seen_code [OF seen_failed] by metis
  then show ?thesis
    using saga_undoes_in_reverse [OF proper_undone_run, of row three_steps] failed_paths(1) by (simp add: failed_run_def)
qed

lemma one_thing_in_flight_witness:
  "\<exists>row. sr_row failing_run = Some row \<and> r_state row = Compensating \<and>
     (\<forall>p. open_step (status_of (sr_steps failing_run)) (p, Undo) \<longrightarrow> p = ''b'')"
proof -
  obtain row where row: "sr_row failing_run = Some row" "code_of three_registry row = Inr three_steps" "r_state row = Compensating"
    using seen_code [OF seen_failing] by metis
  have "hd (to_undo [''a'', ''b''] []) = ''b''" by code_simp
  then show ?thesis
    using one_thing_in_flight [OF proper_up_to_failure, of row three_steps] row failing_paths failing_steps(1)
    by (auto simp flip: failing_run_def)
qed


lemma run_identity_kept_witness:
  "\<exists>row row' events. sr_row begun_run = Some row \<and> sr_row failing_run = Some row' \<and> same_run row row' \<and>
     sr_log failing_run = sr_log begun_run @ events \<and> events \<noteq> []"
proof -
  obtain row where row: "sr_row begun_run = Some row" using seen_code [OF seen_begun] by metis
  have "failing_run = run_history three_registry (drop 1 up_to_failure) begun_run"
    by (simp add: failing_run_def begun_run_def started_from_def up_to_failure_def)
  moreover have "length (sr_log failing_run) \<noteq> length (sr_log begun_run)" by code_simp
  ultimately show ?thesis
    using run_identity_kept [OF row, of three_registry "drop 1 up_to_failure"] row by auto
qed


lemma attempt_taken_once_witness:
  "(let s = run_history three_registry [(quiet_env 3, CheckpointCall ''b'' Do 1 (Completes (JNumber 2) (GoNode ''c'') None))]
       (call_run three_registry (quiet_env 2, CheckpointCall ''a'' Do 1 (Completes (JNumber 1) (GoNode ''b'') None)) begun_run)
    in call_run three_registry (quiet_env 4, CheckpointCall ''a'' Do 1 Drops) s = s \<and> length (sr_log s) = 6)"
proof -
  obtain row where row: "sr_row begun_run = Some row" "r_state row = Running" using seen_code [OF seen_begun] by metis
  let ?r = "checkpoint three_registry (quiet_env 2) ''a'' Do 1 (Completes (JNumber 1) (GoNode ''b'') None) begun_run"
  have "(case ?r of Inl e \<Rightarrow> 0 | Inr x \<Rightarrow> length (fst x)) = 2" by code_simp
  then obtain es gs where "?r = Inr (es, gs)" "es \<noteq> []" by (cases ?r) fastforce+
  moreover let ?s = "call_run three_registry (quiet_env 2, CheckpointCall ''a'' Do 1 (Completes (JNumber 1) (GoNode ''b'') None)) begun_run"
    and ?cs = "[(quiet_env 3, CheckpointCall ''b'' Do 1 (Completes (JNumber 2) (GoNode ''c'') None))]"
  have "list_all (\<lambda>e. \<not> reopens ''a'' 1 e) (drop (length (sr_log ?s)) (sr_log (run_history three_registry ?cs ?s)))"
    "length (sr_log (run_history three_registry ?cs ?s)) = 6" by code_simp+
  ultimately show ?thesis
    using attempt_taken_once [OF row(1), of three_registry "quiet_env 2" "''a''" 1 _ es gs ?cs "quiet_env 4" Drops] by (simp add: Let_def)
qed

text \<open>The newest visit is never undone and an older one twice, and the run still ends.\<close>

definition reported_again :: "(run_env \<times> run_call) list" where
  "reported_again = up_to_failure @
     [(quiet_env 5, CheckpointCall ''c'' Do 1 (Completes JNull (GoFinish JNull None) None)),
      (quiet_env 6, CheckpointCall ''b'' Undo 1 (Undone JNull)), (quiet_env 7, CheckpointCall ''b'' Undo 1 (Undone JNull)),
      (quiet_env 8, CheckpointCall ''a'' Undo 1 (Undone JNull))]"

lemma failed_attempt_reported_again_witness:
  "(let s = call_run three_registry (quiet_env 5, CheckpointCall ''c'' Do 1 (Completes JNull (GoFinish JNull None) None)) failing_run
    in status_of (sr_steps s) (''c'', Undo) = Some Scheduled \<and> status_of (sr_steps s) (''b'', Undo) = Some Scheduled) \<and>
   done_paths three_steps (sr_log (started_from three_registry reported_again ''r'')) = [''a'', ''b'', ''c''] \<and>
   undo_paths (sr_log (started_from three_registry reported_again ''r'')) = [''b'', ''b'', ''a''] \<and>
   seen_of (started_from three_registry reported_again ''r'') = Some (''w'', 1, ''h'', Failed, True)"
proof -
  obtain row where row: "sr_row failing_run = Some row" "code_of three_registry row = Inr three_steps" "r_state row = Compensating"
    "r_finished_at row = None"
    using seen_code [OF seen_failing] by metis
  obtain step where step: "sr_steps failing_run (''c'', Do) = Some step" "s_status step = StepFailed" "s_attempt step = 1"
    using failing_steps(2) by auto
  have node: "node_named three_steps ''c'' = Some (StepNode ''c'' True [])" by (simp add: node_named_def three_steps_def)
  have kids: "en_kids (quiet_env 5) = []" by (simp add: quiet_env_def)
  have "undo_paths (sr_log (started_from three_registry reported_again ''r'')) = [''b'', ''b'', ''a'']"
    "done_paths three_steps (sr_log (started_from three_registry reported_again ''r'')) = [''a'', ''b'', ''c'']"
    "seen_of (started_from three_registry reported_again ''r'') = Some (''w'', 1, ''h'', Failed, True)"
    by code_simp+
  then show ?thesis
    using failed_attempt_reported_again [OF row(1,2,4,3) step(1,2) node failing_paths(2) failing_steps(1) _ kids,
        of JNull "GoFinish JNull None" None] step(3)
    by (simp add: Let_def)
qed

text \<open>A workflow whose second step goes back to the first.\<close>

definition back_again :: "(run_env \<times> run_call) list" where
  "back_again =
     [(quiet_env 1, plain_start),
      (quiet_env 2, CheckpointCall ''a'' Do 1 (Completes (JNumber 1) (GoNode ''b'') None)),
      (quiet_env 3, CheckpointCall ''b'' Do 1 (Completes (JNumber 2) (GoNode ''a'') None))]"

definition back_run :: stored_run where
  "back_run = started_from three_registry back_again ''r''"

lemma seen_back: "seen_of back_run = Some (''w'', 1, ''h'', Running, False)"
  by code_simp

lemma back_step:
  "map_option (\<lambda>r. (s_status r, s_attempt r, s_key r)) (sr_steps back_run (''a'', Do)) = Some (Scheduled, 1, Some ''r:a:do:2'')"
  "key_of_next_visit (sr_log back_run) ''r'' ''a'' = ''r:a:do:2''" "visit_of (sr_log back_run) ''a'' = 2"
  "map_option r_id (sr_row back_run) = Some ''r''"
  by code_simp+

lemma earlier_visit_settles_later_witness:
  "\<exists>events. sr_log (call_run three_registry (quiet_env 4, CheckpointCall ''a'' Do 1 (Completes (JNumber 1) (GoNode ''b'') None)) back_run) =
     sr_log back_run @ completed_by ''a'' Do (JNumber 1) None 4 # events"
proof -
  obtain row where row: "sr_row back_run = Some row" "code_of three_registry row = Inr three_steps" "r_state row = Running"
    "r_finished_at row = None"
    using seen_code [OF seen_back] by metis
  then have nc: "r_state row \<noteq> Compensating" and i: "r_id row = ''r''" using back_step(4) by auto
  obtain step where step: "sr_steps back_run (''a'', Do) = Some step" "s_status step = Scheduled" "s_attempt step = 1"
    "s_key step = Some (key_of_next_visit (sr_log back_run) (r_id row) ''a'')"
    using back_step(1,2) i by auto
  show ?thesis
    using earlier_visit_settles_later [OF row(1,2,4) nc step, of "quiet_env 4" "JNumber 1" "GoNode ''b''" None] back_step(3)
    by (simp add: quiet_env_def)
qed

section \<open>Fields\<close>

definition plain_operation :: operation where
  "plain_operation = \<lparr>op_actor = ''op'', op_reason = None, op_execution = None\<rparr>"

lemma field_changes_exact_witness:
  "(\<exists>row'. sr_row (call_run three_registry (quiet_env 2, MetadataCall (Increment ''n'' 2) None) begun_run) = Some row' \<and>
      map_of (r_metadata row') ''n'' = Some (JNumber (rnd53 (0 + 2))))"
proof -
  obtain row where row: "sr_row begun_run = Some row" using seen_code [OF seen_begun] by metis
  let ?r = "change_metadata (quiet_env 2) (Increment ''n'' 2) None begun_run"
  have "(case ?r of Inl e \<Rightarrow> False | Inr x \<Rightarrow> True)" "map_option r_metadata (sr_row begun_run) = Some []" by code_simp+
  then obtain es gs where "?r = Inr (es, gs)" "r_metadata row = []" using row by (cases ?r) auto
  then show ?thesis using field_changes_exact [OF row, of "quiet_env 2" es gs three_registry] by fastforce
qed

lemma reschedule_keeps_distances_witness:
  "\<exists>row'. sr_row (call_run three_registry (quiet_env 2, RescheduleCall plain_operation (StartIn 50) True) begun_run) = Some row' \<and>
     r_start_at row' = Some 52 \<and> r_state row' = Running"
proof -
  obtain row where row: "sr_row begun_run = Some row" "r_state row = Running" using seen_code [OF seen_begun] by metis
  let ?r = "reschedule (quiet_env 2) plain_operation (StartIn 50) True begun_run"
  have "(case ?r of Inl e \<Rightarrow> False | Inr x \<Rightarrow> True)" by code_simp
  then obtain es gs where r: "?r = Inr (es, gs)" by (cases ?r) auto
  have "en_now (quiet_env 2) = 2" by (simp add: quiet_env_def)
  then show ?thesis using reschedule_keeps_distances [OF row(1) r, of three_registry] row(2)
    by (auto simp: place_of_def)
qed

lemma retried_ids_count_witness:
  "retried_times 2 ''child'' = Inr ''child~3''"
proof -
  have texts: "count_text 0 = ''0''" "count_text 1 = ''1''" "count_text 2 = ''2''" "count_text 3 = ''3''"
    and none: "retried_parts ''child'' = None" by code_simp+
  have "\<forall>j \<le> 2 + 1. length (''child'' @ ''~'' @ count_text j) \<le> 256"
  proof (intro allI impI)
    fix j :: nat
    assume "j \<le> 2 + 1"
    then have "j = 0 \<or> j = 1 \<or> j = 2 \<or> j = 3" by arith
    then show "length (''child'' @ ''~'' @ count_text j) \<le> 256" using texts by auto
  qed
  from retried_ids_count [OF _ _ none this] show ?thesis using texts(4) by simp
qed

end
