(* ===== verification/StringBase64.thy ===== *)
theory StringBase64
  imports LockKey
begin

text \<open>
  \<open>packages/string/src/base64.ts\<close>: UTF-8 and base64 without the runtime's encoders. A text is its
  list of UTF-16 units (as in \<open>LockKey\<close>), a \<open>Uint8Array\<close> its list of bytes. An array that is allocated
  and then written from its start is the list of what was written, cut or filled up to the allocated
  length (\<open>written\<close>). The buffer of the decoder is a number of JavaScript's bitwise operations: 32 bits,
  shifted right with its sign.
\<close>

datatype string_failure = InvalidUtf8 | InvalidBase64

type_synonym bytes = "8 word list"

section \<open>Options and tables\<close>

datatype b64_alphabet = StandardAlphabet | UrlAlphabet
datatype b64_padding = PaddingRequired | PaddingForbidden

record base64_options =
  bo_alphabet :: "b64_alphabet option"
  bo_padding :: "b64_padding option"

definition STANDARD_ALPHABET :: js_string where
  "STANDARD_ALPHABET = js ''ABCDEFGHIJKLMNOPQRSTUVWXYZabcdefghijklmnopqrstuvwxyz0123456789+/''"

definition URL_ALPHABET :: js_string where
  "URL_ALPHABET = js ''ABCDEFGHIJKLMNOPQRSTUVWXYZabcdefghijklmnopqrstuvwxyz0123456789-_''"

definition lookup_table :: "js_string \<Rightarrow> int list" where
  "lookup_table alphabet =
     fold (\<lambda>index table. table[code_point_at (drop index alphabet) := int index])
       [0..<length alphabet] (replicate 128 (-1))"

definition STANDARD_LOOKUP :: "int list" where
  "STANDARD_LOOKUP = lookup_table STANDARD_ALPHABET"

definition URL_LOOKUP :: "int list" where
  "URL_LOOKUP = lookup_table URL_ALPHABET"

record resolved_options =
  ro_alphabet :: js_string
  ro_lookup :: "int list"
  ro_padded :: bool

definition resolve_options :: "base64_options \<Rightarrow> resolved_options" where
  "resolve_options options =
     (let url = bo_alphabet options = Some UrlAlphabet
      in \<lparr>ro_alphabet = (if url then URL_ALPHABET else STANDARD_ALPHABET),
          ro_lookup = (if url then URL_LOOKUP else STANDARD_LOOKUP),
          ro_padded = (case bo_padding options of None \<Rightarrow> \<not> url | Some p \<Rightarrow> p = PaddingRequired)\<rparr>)"

text \<open>A \<open>Uint8Array\<close> of \<open>n\<close> zeros after the bytes \<open>xs\<close> were written at 0, 1, ...: a write past the end does nothing.\<close>

definition written :: "nat \<Rightarrow> bytes \<Rightarrow> bytes" where
  "written n xs = take n (xs @ replicate n 0)"

section \<open>UTF-8\<close>

text \<open>\<open>for (const char of text)\<close> visits the code points of the text.\<close>

fun byte_length_loop :: "nat list \<Rightarrow> nat \<Rightarrow> string_failure + nat" where
  "byte_length_loop [] n = Inr n"
| "byte_length_loop (cp # cps) n =
     (if 0xD800 \<le> cp \<and> cp \<le> 0xDFFF then Inl InvalidUtf8
      else byte_length_loop cps (n + (if cp < 0x80 then 1 else if cp < 0x800 then 2 else if cp < 0x10000 then 3 else 4)))"

definition byte_length :: "js_string \<Rightarrow> string_failure + nat" where
  "byte_length text = byte_length_loop (code_points text) 0"

definition encode_point :: "nat \<Rightarrow> bytes" where
  "encode_point cp =
     map of_nat
       (if cp < 0x80 then [cp]
        else if cp < 0x800 then [0xC0 OR drop_bit 6 cp, 0x80 OR (cp AND 0x3F)]
        else if cp < 0x10000 then
          [0xE0 OR drop_bit 12 cp, 0x80 OR (drop_bit 6 cp AND 0x3F), 0x80 OR (cp AND 0x3F)]
        else
          [0xF0 OR drop_bit 18 cp, 0x80 OR (drop_bit 12 cp AND 0x3F), 0x80 OR (drop_bit 6 cp AND 0x3F),
           0x80 OR (cp AND 0x3F)])"

definition utf8_encode :: "js_string \<Rightarrow> string_failure + bytes" where
  "utf8_encode text =
     rbind (byte_length text) (\<lambda>n. Inr (written n (concat (map encode_point (code_points text)))))"

definition continuation :: "bytes \<Rightarrow> nat \<Rightarrow> int" where
  "continuation bs index =
     (if length bs \<le> index \<or> bs ! index AND 0xC0 \<noteq> 0x80 then -1 else uint (bs ! index AND 0x3F))"

text \<open>\<open>String.fromCodePoint\<close>.\<close>

definition point_units :: "nat \<Rightarrow> js_string" where
  "point_units cp =
     (if cp \<le> 0xFFFF then [of_nat cp]
      else [of_nat (0xD800 + (cp - 0x10000) div 0x400), of_nat (0xDC00 + (cp - 0x10000) mod 0x400)])"

definition from_code_points :: "nat list \<Rightarrow> js_string" where
  "from_code_points cps = concat (map point_units cps)"

text \<open>One turn of the loop of \<open>utf8Decode\<close> on the bytes from \<open>index\<close>: the code point and how many bytes it took.\<close>

definition decode_point :: "bytes \<Rightarrow> string_failure + nat \<times> nat" where
  "decode_point bs =
     (let b0 = hd bs; b1 = continuation bs 1; b2 = continuation bs 2; b3 = continuation bs 3
      in if b0 < 0x80 then Inr (unat b0, 1)
         else if b0 AND 0xE0 = 0xC0 then
           (if b1 < 0 then Inl InvalidUtf8
            else let cp = push_bit 6 (unat (b0 AND 0x1F)) OR nat b1
                 in if cp < 0x80 then Inl InvalidUtf8 else Inr (cp, 2))
         else if b0 AND 0xF0 = 0xE0 then
           (if b1 < 0 \<or> b2 < 0 then Inl InvalidUtf8
            else let cp = push_bit 12 (unat (b0 AND 0x0F)) OR push_bit 6 (nat b1) OR nat b2
                 in if cp < 0x800 then Inl InvalidUtf8
                    else if 0xD800 \<le> cp \<and> cp \<le> 0xDFFF then Inl InvalidUtf8 else Inr (cp, 3))
         else if b0 AND 0xF8 = 0xF0 then
           (if b1 < 0 \<or> b2 < 0 \<or> b3 < 0 then Inl InvalidUtf8
            else let cp = push_bit 18 (unat (b0 AND 0x07)) OR push_bit 12 (nat b1) OR push_bit 6 (nat b2) OR nat b3
                 in if cp < 0x10000 \<or> cp > 0x10FFFF then Inl InvalidUtf8 else Inr (cp, 4))
         else Inl InvalidUtf8)"

lemma decode_point_takes: "decode_point bs = Inr (cp, n) \<Longrightarrow> 0 < n"
  by (auto simp: decode_point_def Let_def split: if_splits)

function utf8_decode_loop :: "bytes \<Rightarrow> nat list \<Rightarrow> js_string \<Rightarrow> string_failure + js_string" where
  "utf8_decode_loop bs pending output =
     (if bs = [] then Inr (output @ from_code_points pending)
      else case decode_point bs of
             Inl e \<Rightarrow> Inl e
           | Inr (cp, n) \<Rightarrow>
               (let pending' = pending @ [cp]
                in if 4096 \<le> length pending'
                   then utf8_decode_loop (drop n bs) [] (output @ from_code_points pending')
                   else utf8_decode_loop (drop n bs) pending' output))"
  by pat_completeness auto
termination
  by (relation "measure (\<lambda>(bs, cps, out). length bs)") (auto dest: decode_point_takes)

declare utf8_decode_loop.simps [simp del]

definition utf8_decode :: "bytes \<Rightarrow> string_failure + js_string" where
  "utf8_decode bs = utf8_decode_loop bs [] []"

section \<open>Base64\<close>

text \<open>\<open>alphabet.charAt(index)\<close>: nothing out of range.\<close>

definition letter_at :: "js_string \<Rightarrow> nat \<Rightarrow> js_string" where
  "letter_at text index = (if index < length text then [text ! index] else [])"

definition sextet :: "js_string \<Rightarrow> 32 word \<Rightarrow> nat \<Rightarrow> js_string" where
  "sextet alphabet w shift = letter_at alphabet (unat (signed_drop_bit shift w AND 0x3F))"

fun bytes_to_base64_loop :: "js_string \<Rightarrow> bool \<Rightarrow> bytes \<Rightarrow> js_string" where
  "bytes_to_base64_loop alphabet padded (a # b # c # bs) =
     (let triple = push_bit 16 (ucast a) OR push_bit 8 (ucast b) OR ucast c
      in sextet alphabet triple 18 @ sextet alphabet triple 12 @ sextet alphabet triple 6 @ sextet alphabet triple 0
         @ bytes_to_base64_loop alphabet padded bs)"
| "bytes_to_base64_loop alphabet padded [a] =
     (let value = push_bit 16 (ucast a)
      in sextet alphabet value 18 @ sextet alphabet value 12 @ (if padded then js ''=='' else []))"
| "bytes_to_base64_loop alphabet padded [a, b] =
     (let value = push_bit 16 (ucast a) OR push_bit 8 (ucast b)
      in sextet alphabet value 18 @ sextet alphabet value 12 @ sextet alphabet value 6
         @ (if padded then js ''='' else []))"
| "bytes_to_base64_loop alphabet padded [] = []"

definition bytes_to_base64 :: "bytes \<Rightarrow> base64_options \<Rightarrow> js_string" where
  "bytes_to_base64 bs options =
     (let o' = resolve_options options in bytes_to_base64_loop (ro_alphabet o') (ro_padded o') bs)"

definition has_suffix :: "js_string \<Rightarrow> js_string \<Rightarrow> bool" where
  "has_suffix text suffix \<longleftrightarrow> length suffix \<le> length text \<and> drop (length text - length suffix) text = suffix"

text \<open>The part before the padding, when the padding is right.\<close>

definition base64_body :: "bool \<Rightarrow> js_string \<Rightarrow> string_failure + js_string" where
  "base64_body padded encoded =
     (if padded
      then if length encoded mod 4 \<noteq> 0 then Inl InvalidBase64
           else let pad_length = (if has_suffix encoded (js ''=='') then 2 else if has_suffix encoded (js ''='') then 1 else 0);
                    body = take (length encoded - pad_length) encoded
                in if (4 - length body mod 4) mod 4 \<noteq> pad_length then Inl InvalidBase64 else Inr body
      else if length encoded mod 4 = 1 then Inl InvalidBase64 else Inr encoded)"

definition lookup_value :: "int list \<Rightarrow> nat \<Rightarrow> int" where
  "lookup_value lookup code = (if code < 128 then (if code < length lookup then lookup ! code else -1) else -1)"

text \<open>The decoding loop: what it wrote, and the buffer with the number of bits still in it.\<close>

fun base64_loop :: "int list \<Rightarrow> js_string \<Rightarrow> 32 word \<Rightarrow> nat \<Rightarrow> bytes \<Rightarrow> string_failure + bytes \<times> 32 word \<times> nat" where
  "base64_loop lookup [] buffer bits out = Inr (out, buffer, bits)"
| "base64_loop lookup (u # body) buffer bits out =
     (let v = lookup_value lookup (code_point_at (u # body))
      in if v < 0 then Inl InvalidBase64
         else let buffer' = push_bit 6 buffer OR of_int v; bits' = bits + 6
              in if 8 \<le> bits'
                 then base64_loop lookup body buffer' (bits' - 8)
                        (out @ [ucast (signed_drop_bit (bits' - 8) buffer' AND 0xFF)])
                 else base64_loop lookup body buffer' bits' out)"

definition base64_to_bytes :: "js_string \<Rightarrow> base64_options \<Rightarrow> string_failure + bytes" where
  "base64_to_bytes encoded options =
     (let o' = resolve_options options
      in rbind (base64_body (ro_padded o') encoded) (\<lambda>body.
           let remainder = length body mod 4;
               allocated = length body div 4 * 3 + (if remainder = 0 then 0 else remainder - 1)
           in rbind (base64_loop (ro_lookup o') body 0 0 []) (\<lambda>(out, buffer, bits).
                if 0 < bits \<and> buffer AND (push_bit bits 1 - 1) \<noteq> 0 then Inl InvalidBase64
                else Inr (written allocated out))))"

definition to_base64 :: "js_string \<Rightarrow> base64_options \<Rightarrow> string_failure + js_string" where
  "to_base64 text options = rbind (utf8_encode text) (\<lambda>bs. Inr (bytes_to_base64 bs options))"

definition from_base64 :: "js_string \<Rightarrow> base64_options \<Rightarrow> string_failure + js_string" where
  "from_base64 encoded options = rbind (base64_to_bytes encoded options) utf8_decode"

end
