(* ===== verification/StringTables.thy ===== *)
theory StringTables
  imports StringBase64
begin

text \<open>
  The alphabets of base64 and their lookup tables are inverse to each other, and how shifts and masks
  of bytes compute with numbers.
\<close>

definition alphabet_ok :: "js_string \<Rightarrow> bool" where
  "alphabet_ok al \<longleftrightarrow> length al = 64 \<and> distinct al \<and> (\<forall>u \<in> set al. unat u < 128 \<and> unat u \<noteq> 61)"

lemma ascii_point: "unat u < 128 \<Longrightarrow> code_point_at (u # rest) = unat u"
  by (cases rest) (auto simp: is_lead_def)

lemma lookup_table_fold:
  assumes al: "distinct al" "\<forall>u \<in> set al. unat u < 128" and n: "n \<le> length al" and c: "c < 128"
  shows "fold (\<lambda>index table. table[code_point_at (drop index al) := int index]) [0..<n] (replicate 128 (-1)) ! c =
    (if \<exists>i<n. unat (al ! i) = c then int (THE i. i < n \<and> unat (al ! i) = c) else -1) \<and>
    length (fold (\<lambda>index table. table[code_point_at (drop index al) := int index]) [0..<n] (replicate 128 (-1))) = 128"
  using n
proof (induction n)
  case 0
  then show ?case using c by simp
next
  case (Suc n)
  let ?t = "fold (\<lambda>index table. table[code_point_at (drop index al) := int index]) [0..<n] (replicate 128 (-1))"
  have p: "code_point_at (drop n al) = unat (al ! n)"
    using Suc.prems al(2) by (simp add: Cons_nth_drop_Suc [symmetric] ascii_point)
  have same: "(i < Suc n \<and> unat (al ! i) = unat (al ! n)) = (i = n)" for i
    using Suc.prems al(1) by (auto simp: nth_eq_iff_index_eq word_unat_eq_iff [symmetric] less_Suc_eq)
  show ?case
  proof (cases "c = unat (al ! n)")
    case True
    then show ?thesis using Suc c same by (auto simp: p)
  next
    case False
    then have "(i < Suc n \<and> unat (al ! i) = c) = (i < n \<and> unat (al ! i) = c)" for i by (auto simp: less_Suc_eq)
    then show ?thesis using Suc c False by (simp add: p)
  qed
qed

lemma lookup_known:
  assumes "alphabet_ok al" "i < 64"
  shows "lookup_value (lookup_table al) (unat (al ! i)) = int i"
proof -
  have c: "unat (al ! i) < 128" using assms by (simp add: alphabet_ok_def)
  have "(j < 64 \<and> unat (al ! j) = unat (al ! i)) = (j = i)" for j
    using assms by (auto simp: alphabet_ok_def nth_eq_iff_index_eq word_unat_eq_iff [symmetric])
  then show ?thesis
    using lookup_table_fold [of al "length al" "unat (al ! i)"] assms c
    by (auto simp: alphabet_ok_def lookup_value_def lookup_table_def)
qed

lemma lookup_only:
  assumes "alphabet_ok al" "0 \<le> lookup_value (lookup_table al) c"
  shows "\<exists>i<64. lookup_value (lookup_table al) c = int i \<and> unat (al ! i) = c"
proof -
  have c: "c < 128" using assms(2) by (simp add: lookup_value_def split: if_splits)
  have "\<exists>i<64. unat (al ! i) = c"
    using lookup_table_fold [of al "length al" c] assms c
    by (auto simp: alphabet_ok_def lookup_value_def lookup_table_def split: if_splits)
  then show ?thesis using lookup_known [OF assms(1)] by auto
qed

lemma js_units:
  assumes "\<forall>c \<in> set cs. (of_char c :: nat) < 128"
  shows "map unat (js cs) = map of_char cs"
  using assms by (force simp: js_def unat_of_nat)

lemma alphabet_of_chars:
  assumes "length cs = 64" "distinct cs" "\<forall>c \<in> set cs. (of_char c :: nat) < 128 \<and> (of_char c :: nat) \<noteq> 61"
  shows "alphabet_ok (js cs)"
proof -
  have "distinct (map unat (js cs))"
    using assms by (subst js_units) (simp_all add: distinct_map inj_on_def)
  moreover have "\<forall>n \<in> set (map unat (js cs)). n < 128 \<and> n \<noteq> 61"
    using assms(3) by (subst js_units) auto
  ultimately show ?thesis using assms(1) unfolding alphabet_ok_def distinct_map by (simp add: js_def)
qed

lemma alphabets_ok: "alphabet_ok STANDARD_ALPHABET" "alphabet_ok URL_ALPHABET"
  unfolding STANDARD_ALPHABET_def URL_ALPHABET_def
  by (rule alphabet_of_chars; simp)+

section \<open>Words as numbers\<close>

lemma low_bits:
  assumes "n + k \<le> 32"
  shows "unat (signed_drop_bit n (w :: 32 word) AND mask k) = unat w div 2 ^ n mod 2 ^ k"
proof -
  have "signed_drop_bit n w AND mask k = take_bit k (drop_bit n w)"
    using assms by (intro bit_word_eqI) (auto simp: bit_simps)
  then have "unat (signed_drop_bit n w AND mask k) = take_bit k (drop_bit n (unat w))"
    using unsigned_less [of w, where ?'a = nat]
    by (simp add: unsigned_take_bit_eq unsigned_drop_bit_eq take_bit_nat_eq_self)
  then show ?thesis by (simp add: drop_bit_eq_div take_bit_eq_mod)
qed

lemma low_sextet: "n \<le> 26 \<Longrightarrow> unat (signed_drop_bit n (w :: 32 word) AND 0x3F) = unat w div 2 ^ n mod 64"
  using low_bits [of n 6 w] by (simp add: mask_eq_exp_minus_1)

lemma low_byte:
  assumes "n \<le> 24"
  shows "ucast (signed_drop_bit n (w :: 32 word) AND 0xFF) = (of_nat (unat w div 2 ^ n mod 256) :: 8 word)"
proof -
  have "(ucast (signed_drop_bit n w AND 0xFF) :: 8 word) = of_nat (unat (signed_drop_bit n w AND 0xFF))"
    by (rule of_nat_unat [symmetric])
  also have "unat (signed_drop_bit n w AND 0xFF) = unat w div 2 ^ n mod 256"
    using low_bits [of n 8 w] assms by (simp add: mask_eq_exp_minus_1)
  finally show ?thesis .
qed

lemma or_shifted:
  assumes "unat (x :: 32 word) < 2 ^ k" "k < 32"
  shows "unat (push_bit k w OR x) = (unat w * 2 ^ k + unat x) mod 2 ^ 32"
proof -
  have "push_bit k w AND x = 0"
  proof (rule bit_word_eqI)
    fix i
    assume "i < LENGTH(32)"
    have "take_bit k x = x"
      using assms by (simp add: word_unat_eq_iff unsigned_take_bit_eq take_bit_nat_eq_self_iff)
    then have "\<not> bit x i" if "k \<le> i" using that by (metis bit_take_bit_iff not_le)
    then show "bit (push_bit k w AND x) i = bit 0 i" by (auto simp: bit_simps)
  qed
  then have "push_bit k w OR x = push_bit k w + x" by (simp add: disjunctive_add_eq_or)
  moreover have "unat (push_bit k w) = unat w * 2 ^ k mod 2 ^ 32"
    by (subst unsigned_push_bit_eq) (simp add: take_bit_eq_mod push_bit_eq_mult)
  ultimately show ?thesis by (simp add: unat_word_ariths mod_simps)
qed

lemma byte_number: "unat (b :: 8 word) < 256"
  using unsigned_less [of b, where ?'a = nat] by simp

lemma wide_byte: "unat (ucast (b :: 8 word) :: 32 word) = unat b"
  using byte_number [of b] by (simp add: unsigned_ucast_eq take_bit_nat_eq_self)

lemma unat_one_byte: "unat (push_bit 16 (ucast (a :: 8 word)) :: 32 word) = unat a * 65536"
  using or_shifted [of 0 16 "ucast a"] byte_number [of a] by (simp add: wide_byte)

lemma unat_two_bytes:
  "unat (push_bit 16 (ucast (a :: 8 word)) OR push_bit 8 (ucast (b :: 8 word)) :: 32 word) = unat a * 65536 + unat b * 256"
proof -
  have "unat (push_bit 8 (ucast b) :: 32 word) = unat b * 256"
    using or_shifted [of 0 8 "ucast b"] byte_number [of b] by (simp add: wide_byte)
  then show ?thesis
    using or_shifted [of "push_bit 8 (ucast b)" 16 "ucast a"] byte_number [of a] byte_number [of b]
    by (simp add: wide_byte)
qed

lemma unat_three_bytes:
  "unat (push_bit 16 (ucast (a :: 8 word)) OR push_bit 8 (ucast (b :: 8 word)) OR ucast (c :: 8 word) :: 32 word) =
     unat a * 65536 + unat b * 256 + unat c"
proof -
  have "unat (push_bit 8 (ucast b) OR ucast c :: 32 word) = unat b * 256 + unat c"
    using or_shifted [of "ucast c" 8 "ucast b"] byte_number [of b] byte_number [of c] by (simp add: wide_byte)
  then show ?thesis
    using or_shifted [of "push_bit 8 (ucast b) OR ucast c" 16 "ucast a"]
      byte_number [of a] byte_number [of b] byte_number [of c]
    by (simp add: wide_byte)
qed

end
