(* ===== verification/StringExact.thy ===== *)
theory StringExact
  imports StringTables
begin

text \<open>
  Base64 decoding accepts exactly what encoding produces. Both directions go through the list of
  6-bit values of a text: three bytes are four values, and what is left at the end are two or three.
\<close>

section \<open>Bytes and 6-bit values\<close>

fun values_of :: "nat list \<Rightarrow> nat list" where
  "values_of (a # b # c # bs) =
     [a div 4, a mod 4 * 16 + b div 16, b mod 16 * 4 + c div 64, c mod 64] @ values_of bs"
| "values_of [a] = [a div 4, a mod 4 * 16]"
| "values_of [a, b] = [a div 4, a mod 4 * 16 + b div 16, b mod 16 * 4]"
| "values_of [] = []"

fun bytes_of :: "nat list \<Rightarrow> nat list" where
  "bytes_of (p # q # r # s # vs) = [p * 4 + q div 16, q mod 16 * 16 + r div 4, r mod 4 * 64 + s] @ bytes_of vs"
| "bytes_of [p, q, r] = [p * 4 + q div 16, q mod 16 * 16 + r div 4]"
| "bytes_of [p, q] = [p * 4 + q div 16]"
| "bytes_of _ = []"

fun unused_bits :: "nat list \<Rightarrow> nat \<times> nat" where
  "unused_bits (p # q # r # s # vs) = unused_bits vs"
| "unused_bits [p, q, r] = (2, r mod 4)"
| "unused_bits [p, q] = (4, q mod 16)"
| "unused_bits [p] = (6, p)"
| "unused_bits [] = (0, 0)"


lemma joined:
  fixes p x k :: nat
  assumes "x < k"
  shows "(p * k + x) div k = p" "(p * k + x) mod k = x"
  using assms by simp_all

lemma parts_small:
  fixes n :: nat
  shows "n < 256 \<Longrightarrow> n div 16 < 16" "n < 256 \<Longrightarrow> n div 64 < 4" "n < 64 \<Longrightarrow> n div 16 < 4" "n < 64 \<Longrightarrow> n div 4 < 16"
  by (simp_all add: less_mult_imp_div_less)

lemma bytes_of_values: "\<forall>b \<in> set bs. b < 256 \<Longrightarrow> bytes_of (values_of bs) = bs \<and> snd (unused_bits (values_of bs)) = 0"
proof (induction bs rule: values_of.induct)
  case (1 a b c bs)
  then have "b div 16 < 16" "c div 64 < 4" by (simp_all add: parts_small)
  then show ?case using 1 by (simp add: joined)
next
  case (3 a b)
  then have "b div 16 < 16" by (simp add: parts_small)
  then show ?case using 3 by (simp add: joined)
qed (simp_all add: joined)

lemma values_of_bytes:
  "\<lbrakk>\<forall>v \<in> set vs. v < 64; length vs mod 4 \<noteq> 1; snd (unused_bits vs) = 0\<rbrakk> \<Longrightarrow> values_of (bytes_of vs) = vs"
proof (induction vs rule: bytes_of.induct)
  case (1 p q r s vs)
  then have "q div 16 < 4" "r div 4 < 16" "s < 64" "length vs mod 4 \<noteq> 1" by (simp_all add: parts_small)
  then show ?case using 1 by (simp add: joined)
next
  case (2 p q r)
  then have "q div 16 < 4" "r div 4 < 16" "r mod 4 = 0" by (simp_all add: parts_small)
  then show ?case using div_mult_mod_eq [of r 4] by (simp add: joined)
next
  case (3 p q)
  then have "q div 16 < 4" "q mod 16 = 0" by (simp_all add: parts_small)
  then show ?case using div_mult_mod_eq [of q 16] by (simp add: joined)
qed auto

lemma values_small: "\<forall>b \<in> set bs. b < 256 \<Longrightarrow> \<forall>v \<in> set (values_of bs). v < 64"
  by (induction bs rule: values_of.induct) (auto simp: less_mult_imp_div_less)

lemma bytes_small: "\<forall>v \<in> set vs. v < 64 \<Longrightarrow> \<forall>b \<in> set (bytes_of vs). b < 256"
  by (induction vs rule: bytes_of.induct) auto

lemma values_length:
  "length (values_of bs) = length bs div 3 * 4 + (if length bs mod 3 = 0 then 0 else length bs mod 3 + 1)"
  by (induction bs rule: values_of.induct) (simp_all add: div_add_self1)

lemma bytes_length:
  "length vs mod 4 \<noteq> 1 \<Longrightarrow>
     length (bytes_of vs) = length vs div 4 * 3 + (if length vs mod 4 = 0 then 0 else length vs mod 4 - 1)"
  by (induction vs rule: bytes_of.induct) (auto simp: div_add_self1)

section \<open>Encoding\<close>

definition encoded_values :: "js_string \<Rightarrow> nat list \<Rightarrow> js_string" where
  "encoded_values al vs = map (\<lambda>v. al ! v) vs"

definition padding :: "bool \<Rightarrow> nat \<Rightarrow> js_string" where
  "padding padded n = (if padded then replicate n 61 else [])"

lemma padding_text: "padding True 0 = []" "padding True (Suc 0) = js ''=''" "padding True 2 = js ''==''" "padding False n = []"
  by (simp_all add: padding_def js_def numeral_2_eq_2)

lemma sextet_value:
  "\<lbrakk>length al = 64; n \<le> 26\<rbrakk> \<Longrightarrow> sextet al w n = [al ! (unat w div 2 ^ n mod 64)]"
  by (simp add: sextet_def letter_at_def low_sextet)

lemma div_at:
  fixes m p k x :: nat
  assumes "m = p * k + x" "x < k"
  shows "m div k = p" "m mod k = x"
  using assms by simp_all

lemma triple_values:
  fixes a b c :: nat
  assumes "a < 256" "b < 256" "c < 256"
  defines "m \<equiv> a * 65536 + b * 256 + c"
  shows "m div 262144 mod 64 = a div 4" "m div 4096 mod 64 = a mod 4 * 16 + b div 16"
    and "m div 64 mod 64 = b mod 16 * 4 + c div 64" "m mod 64 = c mod 64"
proof -
  obtain p q where a: "a = p * 4 + q" "q < 4" using div_mult_mod_eq [of a 4] by (metis mod_less_divisor zero_less_numeral)
  obtain r s where b: "b = r * 16 + s" "s < 16" using div_mult_mod_eq [of b 16] by (metis mod_less_divisor zero_less_numeral)
  obtain t u where c: "c = t * 64 + u" "u < 64" using div_mult_mod_eq [of c 64] by (metis mod_less_divisor zero_less_numeral)
  have small: "p < 64" "r < 16" "t < 4" using assms(1-3) a b c by simp_all
  have "m div 262144 = p" using a b c small by (intro div_at) (auto simp: m_def)
  then show "m div 262144 mod 64 = a div 4" using a small by simp
  have "m div 4096 = p * 64 + (q * 16 + r)"
    using a b c small by (intro div_at(1) [where x = "s * 256 + c"]) (auto simp: m_def)
  then show "m div 4096 mod 64 = a mod 4 * 16 + b div 16" using a b small by simp
  have "m div 64 = (p * 64 + q * 16 + r) * 64 + (s * 4 + t)"
    using a b c small by (intro div_at(1) [where x = u]) (auto simp: m_def)
  from div_at(2) [OF this] show "m div 64 mod 64 = b mod 16 * 4 + c div 64" using b c small by simp
  have "m = (a * 1024 + b * 4) * 64 + c" by (simp add: m_def)
  then show "m mod 64 = c mod 64" by (simp only: mod_mult_self3)
qed

lemma sextets_three:
  fixes a b c :: "8 word"
  assumes "length al = 64"
  defines "w \<equiv> push_bit 16 (ucast a) OR push_bit 8 (ucast b) OR ucast c"
  shows "sextet al w 18 = [al ! (unat a div 4)]" "sextet al w 12 = [al ! (unat a mod 4 * 16 + unat b div 16)]"
    "sextet al w 6 = [al ! (unat b mod 16 * 4 + unat c div 64)]" "sextet al w 0 = [al ! (unat c mod 64)]"
proof -
  have w: "unat w = unat a * 65536 + unat b * 256 + unat c" unfolding w_def by (rule unat_three_bytes)
  note t = triple_values [OF byte_number byte_number byte_number, of a b c]
  show "sextet al w 18 = [al ! (unat a div 4)]"
    using sextet_value [OF assms(1), of 18 w] t(1) unfolding w by simp
  show "sextet al w 12 = [al ! (unat a mod 4 * 16 + unat b div 16)]"
    using sextet_value [OF assms(1), of 12 w] t(2) unfolding w by simp
  show "sextet al w 6 = [al ! (unat b mod 16 * 4 + unat c div 64)]"
    using sextet_value [OF assms(1), of 6 w] t(3) unfolding w by simp
  show "sextet al w 0 = [al ! (unat c mod 64)]"
    using sextet_value [OF assms(1), of 0 w] t(4) unfolding w by simp
qed

lemma encoding_values:
  assumes "length al = 64"
  shows "bytes_to_base64_loop al padded bs =
    encoded_values al (values_of (map unat bs)) @ padding padded ((4 - length (values_of (map unat bs)) mod 4) mod 4)"
  using assms
proof (induction al padded bs rule: bytes_to_base64_loop.induct)
  case (1 al padded a b c bs)
  then show ?case by (simp add: Let_def sextets_three encoded_values_def)
next
  case (2 al padded a)
  then show ?case using triple_values [OF byte_number [of a], of 0 0]
    by (cases padded) (simp_all add: Let_def sextet_value unat_one_byte encoded_values_def padding_text)
next
  case (3 al padded a b)
  then show ?case using triple_values [OF byte_number [of a] byte_number [of b], of 0]
    by (cases padded) (simp_all add: Let_def sextet_value unat_two_bytes encoded_values_def padding_text)
next
  case (4 al padded)
  then show ?case by (simp add: encoded_values_def padding_def)
qed

section \<open>Decoding\<close>

lemma push_value:
  fixes buffer :: "32 word"
  assumes "v < 64"
  shows "unat (push_bit 6 buffer OR of_int (int v)) = (unat buffer * 64 + v) mod 2 ^ 32"
proof -
  have "unat (of_nat v :: 32 word) = v" using assms by (simp add: unat_of_nat)
  then show ?thesis using or_shifted [of "of_nat v" 6 buffer] assms by simp
qed

lemma low_part:
  fixes m :: nat
  assumes "j \<le> 24"
  shows "m mod 2 ^ 32 div 2 ^ j mod 256 = m div 2 ^ j mod 256" "m mod 2 ^ 32 mod 2 ^ j = m mod 2 ^ j"
proof -
  have "take_bit 8 (drop_bit j (take_bit 32 m)) = take_bit 8 (drop_bit j m)"
    using assms by (intro bit_eqI) (auto simp: bit_simps)
  then show "m mod 2 ^ 32 div 2 ^ j mod 256 = m div 2 ^ j mod 256"
    by (simp add: take_bit_eq_mod drop_bit_eq_div)
  have "take_bit j (take_bit 32 m) = take_bit j m" using assms by (simp add: min_def)
  then show "m mod 2 ^ 32 mod 2 ^ j = m mod 2 ^ j" by (simp add: take_bit_eq_mod)
qed

text \<open>A value of 6 bits pushed behind \<open>bits\<close> unused ones (\<open>r\<close>) writes a byte and leaves \<open>bits - 2\<close>.\<close>

lemma push_byte:
  fixes buffer :: "32 word"
  assumes r: "unat buffer mod 2 ^ bits = r" and v: "v < 64" and bits: "bits \<in> {2, 4, 6}"
  shows "ucast (signed_drop_bit (bits - 2) (push_bit 6 buffer OR of_int (int v)) AND 0xFF) =
      (of_nat (r * 2 ^ (8 - bits) + v div 2 ^ (bits - 2)) :: 8 word)" (is "?byte = _")
    and "unat (push_bit 6 buffer OR of_int (int v)) mod 2 ^ (bits - 2) = v mod 2 ^ (bits - 2)" (is ?rest)
proof -
  let ?m = "unat buffer * 64 + v"
  have b: "bits - 2 \<le> 24" using bits by auto
  have "?m div 2 ^ (bits - 2) mod 256 = (r * 2 ^ (8 - bits) + v div 2 ^ (bits - 2)) mod 256 \<and>
      ?m mod 2 ^ (bits - 2) = v mod 2 ^ (bits - 2)"
  proof -
    obtain h where h: "unat buffer = h * 2 ^ bits + r" using r by (metis div_mult_mod_eq)
    have sizes: "2 ^ bits * 64 = 256 * (2 ^ (bits - 2) :: nat)" "64 = 2 ^ (8 - bits) * (2 ^ (bits - 2) :: nat)"
      using bits by auto
    have "?m = h * (2 ^ bits * 64) + r * 64 + (v div 2 ^ (bits - 2) * 2 ^ (bits - 2) + v mod 2 ^ (bits - 2))"
      by (simp add: h algebra_simps)
    also have "\<dots> = (h * 256 + (r * 2 ^ (8 - bits) + v div 2 ^ (bits - 2))) * 2 ^ (bits - 2) + v mod 2 ^ (bits - 2)"
    proof -
      have "r * 64 = r * 2 ^ (8 - bits) * 2 ^ (bits - 2)" using sizes(2) by (metis mult.assoc)
      then show ?thesis unfolding sizes(1) by (simp add: algebra_simps)
    qed
    finally have "?m = (h * 256 + (r * 2 ^ (8 - bits) + v div 2 ^ (bits - 2))) * 2 ^ (bits - 2) + v mod 2 ^ (bits - 2)" .
    from div_at [OF this] show ?thesis by simp
  qed
  note m = conjunct1 [OF this] conjunct2 [OF this]
  have low: "unat (push_bit 6 buffer OR of_int (int v)) = ?m mod 2 ^ 32" by (rule push_value [OF v])
  have "?byte = of_nat (?m mod 2 ^ 32 div 2 ^ (bits - 2) mod 256)"
    unfolding low [symmetric] by (rule low_byte [OF b])
  also have "\<dots> = of_nat ((r * 2 ^ (8 - bits) + v div 2 ^ (bits - 2)) mod 256)"
    by (simp only: low_part [OF b] m)
  also have "\<dots> = of_nat (r * 2 ^ (8 - bits) + v div 2 ^ (bits - 2))"
    by (subst word_of_nat_eq_iff) (simp add: take_bit_eq_mod)
  finally show "?byte = of_nat (r * 2 ^ (8 - bits) + v div 2 ^ (bits - 2))" .
  show ?rest unfolding low by (simp only: low_part [OF b] m)
qed

lemma value_read:
  assumes "alphabet_ok al" "v < 64"
  shows "lookup_value (lookup_table al) (code_point_at (al ! v # body)) = int v"
proof -
  have "al ! v \<in> set al" using assms by (simp add: alphabet_ok_def)
  then have "unat (al ! v) < 128" using assms(1) by (simp add: alphabet_ok_def)
  then show ?thesis using lookup_known [OF assms] by (simp add: ascii_point)
qed

lemma loop_end: "base64_loop lookup [] buffer bits out = Inr (out, buffer, bits)"
  by simp

lemma decode_three:
  assumes al: "alphabet_ok al" and small: "p < 64" "q < 64" "r < 64"
  obtains b1 b2 b3 where
    "\<And>body. base64_loop (lookup_table al) (al ! p # body) buffer 0 out = base64_loop (lookup_table al) body b1 6 out"
    "\<And>body. base64_loop (lookup_table al) (al ! q # body) b1 6 out =
       base64_loop (lookup_table al) body b2 4 (out @ [of_nat (p * 4 + q div 16)])"
    "\<And>body out. base64_loop (lookup_table al) (al ! r # body) b2 4 out =
       base64_loop (lookup_table al) body b3 2 (out @ [of_nat (q mod 16 * 16 + r div 4)])"
    "unat b2 mod 2 ^ 4 = q mod 16" "unat b3 mod 2 ^ 2 = r mod 4"
proof -
  define b1 where "b1 = push_bit 6 buffer OR of_int (int p)"
  define b2 where "b2 = push_bit 6 b1 OR of_int (int q)"
  define b3 where "b3 = push_bit 6 b2 OR of_int (int r)"
  have r1: "unat b1 mod 2 ^ 6 = p"
    unfolding b1_def push_value [OF small(1)] using low_part(2) [of 6 "unat buffer * 64 + p"] small(1) by simp
  have r2: "unat b2 mod 2 ^ 4 = q mod 16" using push_byte(2) [OF r1 small(2)] by (simp add: b2_def)
  have r3: "unat b3 mod 2 ^ 2 = r mod 4" using push_byte(2) [OF r2 small(3)] by (simp add: b3_def)
  show thesis
  proof
    fix body out
    show "base64_loop (lookup_table al) (al ! p # body) buffer 0 out = base64_loop (lookup_table al) body b1 6 out"
      using value_read [OF al small(1)] by (simp add: b1_def Let_def)
    show "base64_loop (lookup_table al) (al ! q # body) b1 6 out =
       base64_loop (lookup_table al) body b2 4 (out @ [of_nat (p * 4 + q div 16)])"
      using value_read [OF al small(2)] push_byte(1) [OF r1 small(2)] by (simp add: b2_def Let_def)
    show "base64_loop (lookup_table al) (al ! r # body) b2 4 out =
       base64_loop (lookup_table al) body b3 2 (out @ [of_nat (q mod 16 * 16 + r div 4)])"
      using value_read [OF al small(3)] push_byte(1) [OF r2 small(3)] by (simp add: b3_def Let_def)
  qed (fact r2 r3)+
qed

lemma decode_fourth:
  assumes al: "alphabet_ok al" and small: "s < 64" and r: "unat b3 mod 2 ^ 2 = r mod 4"
  obtains b4 where "\<And>body. base64_loop (lookup_table al) (al ! s # body) b3 2 out =
     base64_loop (lookup_table al) body b4 0 (out @ [of_nat (r mod 4 * 64 + s)])"
proof
  fix body
  show "base64_loop (lookup_table al) (al ! s # body) b3 2 out =
     base64_loop (lookup_table al) body (push_bit 6 b3 OR of_int (int s)) 0 (out @ [of_nat (r mod 4 * 64 + s)])"
    using value_read [OF al small] push_byte(1) [OF r small] by (simp add: Let_def)
qed

declare base64_loop.simps [simp del]

lemma loop_values:
  assumes al: "alphabet_ok al"
  shows "\<lbrakk>\<forall>v \<in> set vs. v < 64; length vs mod 4 \<noteq> 1\<rbrakk> \<Longrightarrow>
    \<exists>buffer' bits'. base64_loop (lookup_table al) (encoded_values al vs) buffer 0 out =
      Inr (out @ map of_nat (bytes_of vs), buffer', bits') \<and> (bits', unat buffer' mod 2 ^ bits') = unused_bits vs"
proof (induction vs arbitrary: buffer out rule: bytes_of.induct)
  case (1 p q r s vs)
  have small: "p < 64" "q < 64" "r < 64" "s < 64" "\<forall>v \<in> set vs. v < 64" "length vs mod 4 \<noteq> 1"
    using 1(2,3) by simp_all
  obtain b1 b2 b3 where b: "\<And>body. base64_loop (lookup_table al) (al ! p # body) buffer 0 out = base64_loop (lookup_table al) body b1 6 out"
    "\<And>body. base64_loop (lookup_table al) (al ! q # body) b1 6 out =
       base64_loop (lookup_table al) body b2 4 (out @ [of_nat (p * 4 + q div 16)])"
    "\<And>body out. base64_loop (lookup_table al) (al ! r # body) b2 4 out =
       base64_loop (lookup_table al) body b3 2 (out @ [of_nat (q mod 16 * 16 + r div 4)])"
    "unat b2 mod 2 ^ 4 = q mod 16" "unat b3 mod 2 ^ 2 = r mod 4" by (rule decode_three [OF al small(1-3)]) blast
  let ?out = "out @ [of_nat (p * 4 + q div 16), of_nat (q mod 16 * 16 + r div 4)]"
  obtain b4 where b4: "\<And>body. base64_loop (lookup_table al) (al ! s # body) b3 2 ?out =
     base64_loop (lookup_table al) body b4 0 (?out @ [of_nat (r mod 4 * 64 + s)])"
    by (rule decode_fourth [OF al small(4) b(5)]) blast
  show ?case
    using 1(1) [OF small(5,6), of b4 "?out @ [of_nat (r mod 4 * 64 + s)]"]
    by (simp add: encoded_values_def b b4 del: of_nat_add of_nat_mult of_nat_div of_nat_mod)
next
  case (2 p q r)
  have small: "p < 64" "q < 64" "r < 64" using 2 by simp_all
  show ?case
    by (rule decode_three [OF al small, where buffer = buffer and out = out]) (simp add: encoded_values_def loop_end)
next
  case (3 p q)
  have small: "p < 64" "q < 64" "(0::nat) < 64" using 3 by simp_all
  show ?case
    by (rule decode_three [OF al small, where buffer = buffer and out = out]) (simp add: encoded_values_def loop_end)
qed (auto simp: encoded_values_def loop_end)

lemma loop_only:
  assumes al: "alphabet_ok al"
  shows "base64_loop (lookup_table al) body buffer bits out = Inr x \<Longrightarrow>
    \<exists>vs. body = encoded_values al vs \<and> (\<forall>v \<in> set vs. v < 64)"
proof (induction body arbitrary: buffer bits out)
  case Nil
  then show ?case by (intro exI [of _ "[]"]) (simp add: encoded_values_def)
next
  case (Cons u body)
  have "0 \<le> lookup_value (lookup_table al) (code_point_at (u # body))"
    using Cons.prems by (auto simp: base64_loop.simps(2) Let_def split: if_splits)
  then obtain i where i: "i < 64" "unat (al ! i) = code_point_at (u # body)" using lookup_only [OF al] by blast
  have "al ! i \<in> set al" using al i(1) by (simp add: alphabet_ok_def)
  then have "unat (al ! i) < 128" using al by (simp add: alphabet_ok_def)
  then have "unat (al ! i) = unat u" using i(2) code_point_single [of u body] by simp
  then have u: "u = al ! i" by (simp add: word_unat_eq_iff)
  obtain b' bits' out' where "base64_loop (lookup_table al) body b' bits' out' = Inr x"
    using Cons.prems by (auto simp: base64_loop.simps(2) Let_def split: if_splits)
  then obtain vs where "body = encoded_values al vs" "\<forall>v \<in> set vs. v < 64" using Cons.IH by blast
  then show ?case using u i(1) by (intro exI [of _ "i # vs"]) (simp add: encoded_values_def)
qed

section \<open>Decoding is exact\<close>

lemma unused_check:
  fixes buffer :: "32 word"
  shows "buffer AND (push_bit bits 1 - 1) = 0 \<longleftrightarrow> unat buffer mod 2 ^ bits = 0"
proof -
  have "buffer AND (push_bit bits 1 - 1) = take_bit bits buffer"
    by (simp add: take_bit_eq_mask mask_eq_exp_minus_1 push_bit_eq_mult)
  moreover have "unat (take_bit bits buffer) = unat buffer mod 2 ^ bits"
    unfolding unsigned_take_bit_eq by (rule take_bit_eq_mod)
  ultimately show ?thesis by (metis unat_eq_zero)
qed

lemma written_all: "length xs = n \<Longrightarrow> written n xs = xs"
  by (simp add: written_def)


text \<open>The decoder after the padding is gone.\<close>

definition decoded_body :: "int list \<Rightarrow> js_string \<Rightarrow> string_failure + bytes" where
  "decoded_body lookup body =
     (let remainder = length body mod 4;
          allocated = length body div 4 * 3 + (if remainder = 0 then 0 else remainder - 1)
      in rbind (base64_loop lookup body 0 0 []) (\<lambda>(out, buffer, bits).
           if 0 < bits \<and> buffer AND (push_bit bits 1 - 1) \<noteq> 0 then Inl InvalidBase64
           else Inr (written allocated out)))"

lemma decoded_values:
  assumes "alphabet_ok al" "\<forall>v \<in> set vs. v < 64" "length vs mod 4 \<noteq> 1"
  shows "decoded_body (lookup_table al) (encoded_values al vs) =
    (if snd (unused_bits vs) = 0 then Inr (map of_nat (bytes_of vs)) else Inl InvalidBase64)"
proof -
  obtain b n where l: "base64_loop (lookup_table al) (encoded_values al vs) 0 0 [] = Inr (map of_nat (bytes_of vs), b, n)"
    and u: "unused_bits vs = (n, unat b mod 2 ^ n)" using loop_values [OF assms, of 0 "[]"] by auto
  have "(0 < n \<and> b AND (push_bit n 1 - 1) \<noteq> 0) = (snd (unused_bits vs) \<noteq> 0)"
    using u by (cases "n = 0") (simp_all only: unused_check, simp_all)
  moreover have "length (encoded_values al vs) = length vs" by (simp add: encoded_values_def)
  ultimately show ?thesis
    using bytes_length [OF assms(3)] by (simp add: decoded_body_def l Let_def written_all)
qed

lemma decoded_exact:
  assumes al: "alphabet_ok al" and len: "length body mod 4 \<noteq> 1"
  shows "decoded_body (lookup_table al) body = Inr bs \<longleftrightarrow> body = encoded_values al (values_of (map unat bs))"
proof
  assume d: "decoded_body (lookup_table al) body = Inr bs"
  then obtain x where "base64_loop (lookup_table al) body 0 0 [] = Inr x"
    by (auto simp: decoded_body_def Let_def elim: rbind_Inr_iff [THEN iffD1, elim_format])
  then obtain vs where vs: "body = encoded_values al vs" "\<forall>v \<in> set vs. v < 64" using loop_only [OF al] by blast
  have l: "length vs mod 4 \<noteq> 1" using len vs(1) by (simp add: encoded_values_def)
  have "snd (unused_bits vs) = 0" and bs: "bs = map of_nat (bytes_of vs)"
    using d unfolding vs(1) decoded_values [OF al vs(2) l] by (auto split: if_splits)
  moreover have "map unat bs = bytes_of vs"
    using bytes_small [OF vs(2)] unfolding bs by (auto simp: unat_of_nat intro!: map_idI)
  ultimately show "body = encoded_values al (values_of (map unat bs))"
    using values_of_bytes [OF vs(2) l] vs(1) by simp
next
  assume body: "body = encoded_values al (values_of (map unat bs))"
  have small: "\<forall>b \<in> set (map unat bs). b < 256" by (auto simp: byte_number)
  then have "length (values_of (map unat bs)) mod 4 \<noteq> 1" using len body by (simp add: encoded_values_def)
  moreover have "map of_nat (map unat bs) = bs" by (simp add: map_idI)
  ultimately show "decoded_body (lookup_table al) body = Inr bs"
    using decoded_values [OF al values_small [OF small]] bytes_of_values [OF small] body by simp
qed

end
