(* ===== verification/StringRoundTrip.thy ===== *)
theory StringRoundTrip
  imports StringExact
begin

text \<open>
  The padding, and with it base64 as a whole: decoding accepts exactly what encoding produces.
\<close>

lemma ends_with_iff: "has_suffix text suffix \<longleftrightarrow> (\<exists>p. text = p @ suffix)"
proof
  assume "has_suffix text suffix"
  then have "text = take (length text - length suffix) text @ suffix"
    unfolding has_suffix_def by (metis append_take_drop_id)
  then show "\<exists>p. text = p @ suffix" ..
qed (auto simp: has_suffix_def)

lemma pads: "js ''='' = [61]" "js ''=='' = [61, 61]" "padding True n = replicate n 61" "padding False n = []"
  by (simp_all add: js_def padding_def)

lemma body_padded:
  assumes "base64_body padded e = Inr body"
  shows "e = body @ padding padded ((4 - length body mod 4) mod 4) \<and> length body mod 4 \<noteq> 1"
proof (cases padded)
  case False
  then show ?thesis using assms by (auto simp: base64_body_def pads split: if_splits)
next
  case True
  define n where "n = (if has_suffix e [61, 61] then 2 else if has_suffix e [61] then 1 else 0 :: nat)"
  have b: "body = take (length e - n) e" and n: "(4 - length body mod 4) mod 4 = n"
    using assms True by (auto simp: base64_body_def pads n_def Let_def split: if_splits)
  have "\<exists>p. e = p @ replicate n 61"
    by (auto simp: n_def ends_with_iff numeral_2_eq_2)
  then have "e = body @ replicate n 61" using b by auto
  moreover have "length body mod 4 \<noteq> 1" using n by (auto simp: n_def split: if_splits)
  ultimately show ?thesis using True n by (simp add: pads)
qed

lemma padded_body:
  assumes "61 \<notin> set body" "length body mod 4 \<noteq> 1"
  shows "base64_body padded (body @ padding padded ((4 - length body mod 4) mod 4)) = Inr body"
proof (cases padded)
  case False
  then show ?thesis using assms by (simp add: base64_body_def pads)
next
  case True
  have no: "body \<noteq> p @ 61 # q" for p q using assms(1) by auto
  have "length body mod 4 < 4" by simp
  then consider "length body mod 4 = 0" | "length body mod 4 = 2" | "length body mod 4 = 3" using assms(2) by linarith
  then show ?thesis
  proof cases
    case 1
    then show ?thesis using True no [of _ "[]"] no [of _ "[61]"]
      by (auto simp: base64_body_def pads ends_with_iff Let_def)
  next
    case 2
    have e: "has_suffix (body @ [61, 61]) [61, 61]" by (auto simp: ends_with_iff)
    have "(length body + 2) mod 4 = 0" using 2 by presburger
    then show ?thesis using True 2 e by (simp add: base64_body_def pads numeral_2_eq_2)
  next
    case 3
    have "\<not> has_suffix (body @ [61]) [61, 61]" "has_suffix (body @ [61]) [61]"
      using no [of _ "[]"] by (auto simp: ends_with_iff)
    moreover have "Suc (length body) mod 4 = 0" using 3 by presburger
    ultimately show ?thesis using True 3 by (simp add: base64_body_def pads)
  qed
qed

lemma no_padding_inside:
  assumes "alphabet_ok al" "\<forall>v \<in> set vs. v < 64"
  shows "61 \<notin> set (encoded_values al vs)"
proof
  assume "61 \<in> set (encoded_values al vs)"
  then obtain v where v: "v \<in> set vs" "al ! v = 61" by (auto simp: encoded_values_def)
  have "al ! v \<in> set al" using assms v(1) by (auto simp: alphabet_ok_def intro: nth_mem)
  then have "unat (al ! v) \<noteq> 61" using assms(1) by (simp add: alphabet_ok_def)
  then show False using v(2) by simp
qed

lemma resolved_alphabet:
  "alphabet_ok (ro_alphabet (resolve_options options))"
  "ro_lookup (resolve_options options) = lookup_table (ro_alphabet (resolve_options options))"
  by (simp_all add: resolve_options_def Let_def alphabets_ok STANDARD_LOOKUP_def URL_LOOKUP_def)

lemma to_bytes_body:
  "base64_to_bytes encoded options =
     rbind (base64_body (ro_padded (resolve_options options)) encoded) (decoded_body (ro_lookup (resolve_options options)))"
  unfolding base64_to_bytes_def Let_def decoded_body_def ..

lemma to_bytes_exact:
  "base64_to_bytes encoded options = Inr bs \<longleftrightarrow> encoded = bytes_to_base64 bs options"
proof -
  let ?o = "resolve_options options"
  let ?al = "ro_alphabet ?o" and ?vs = "values_of (map unat bs)" and ?padded = "ro_padded ?o"
  note al = resolved_alphabet(1) [of options]
  let ?body = "encoded_values ?al ?vs"
  have small: "\<forall>b \<in> set (map unat bs). b < 256" by (auto simp: byte_number)
  have len: "length ?body mod 4 \<noteq> 1" by (simp add: encoded_values_def values_length mod_simps)
  have "bytes_to_base64 bs options = ?body @ padding ?padded ((4 - length ?body mod 4) mod 4)"
    using encoding_values [of ?al ?padded bs] al
    by (simp add: bytes_to_base64_def Let_def alphabet_ok_def encoded_values_def)
  moreover have "base64_body ?padded (?body @ padding ?padded ((4 - length ?body mod 4) mod 4)) = Inr ?body"
    by (rule padded_body [OF no_padding_inside [OF al values_small [OF small]] len])
  ultimately show ?thesis
    using decoded_exact [OF al len, of bs] decoded_exact [OF al, of _ bs] body_padded
    unfolding to_bytes_body resolved_alphabet(2) rbind_Inr_iff by metis
qed


text \<open>
  C14: \<open>base64ToBytes\<close> accepts exactly the canonical encodings, whatever the options: it returns bytes
  for a text if and only if the text is what \<open>bytesToBase64\<close> makes of those bytes. So decoding
  undoes encoding, and no two texts decode to the same bytes.
\<close>
theorem base64_decodes_exactly_encodings:
  "base64_to_bytes encoded options = Inr bs \<longleftrightarrow> encoded = bytes_to_base64 bs options"
  by (rule to_bytes_exact)

end
