(* ===== verification/StringUtf8.thy ===== *)
theory StringUtf8
  imports StringRoundTrip
begin

text \<open>
  The UTF-8 routines: encoding writes the standard's bytes of each code point into an array of
  exactly their number, and decoding accepts exactly such bytes.
\<close>

section \<open>Masks of a byte\<close>

lemma high_bits:
  fixes b c :: "8 word"
  assumes "k + n = 8" "unat c < 2 ^ n"
  shows "b AND push_bit k (mask n) = push_bit k c \<longleftrightarrow> unat b div 2 ^ k = unat c"
proof -
  have b: "b AND push_bit k (mask n) = push_bit k (drop_bit k b)"
    using assms(1) by (intro bit_word_eqI) (auto simp: bit_simps)
  have up: "unat (push_bit k x) = unat x * 2 ^ k" if "unat x < 2 ^ n" for x :: "8 word"
  proof -
    have "unat x * 2 ^ k < 2 ^ n * 2 ^ k" using that by simp
    also have "2 ^ n * 2 ^ k = (2 :: nat) ^ LENGTH(8)" using assms(1) by (simp add: add.commute flip: power_add)
    finally have "take_bit LENGTH(8) (unat x * 2 ^ k) = unat x * 2 ^ k" by (rule take_bit_nat_eq_self)
    then show ?thesis using unsigned_push_bit_eq [of k x, where ?'a = nat] by (metis push_bit_eq_mult)
  qed
  have d: "unat (drop_bit k b) = unat b div 2 ^ k" 
    using byte_number [of b] by (subst unsigned_drop_bit_eq) (simp add: drop_bit_eq_div take_bit_nat_eq_self)
  have "unat b div 2 ^ k < 2 ^ n"
    using byte_number [of b] assms(1) by (simp add: less_mult_imp_div_less add.commute flip: power_add)
  then show ?thesis
    unfolding b word_unat_eq_iff using up [of "drop_bit k b"] up [OF assms(2)] d by simp
qed

lemma byte_masks:
  fixes b :: "8 word"
  shows "b AND 0xC0 = 0x80 \<longleftrightarrow> unat b div 64 = 2" "b AND 0xE0 = 0xC0 \<longleftrightarrow> unat b div 32 = 6"
    and "b AND 0xF0 = 0xE0 \<longleftrightarrow> unat b div 16 = 14" "b AND 0xF8 = 0xF0 \<longleftrightarrow> unat b div 8 = 30"
  using high_bits [of 6 2 2 b] high_bits [of 5 3 6 b] high_bits [of 4 4 14 b] high_bits [of 3 5 30 b]
  by (simp_all add: mask_eq_exp_minus_1 push_bit_eq_mult)

lemma low_mask: "unat ((b :: 8 word) AND mask n) = unat b mod 2 ^ n"
  unfolding take_bit_eq_mask [symmetric] unsigned_take_bit_eq by (rule take_bit_eq_mod)

lemma low_masks:
  fixes b :: "8 word"
  shows "unat (b AND 0x3F) = unat b mod 64" "unat (b AND 0x1F) = unat b mod 32"
    and "unat (b AND 0x0F) = unat b mod 16" "unat (b AND 0x07) = unat b mod 8"
  using low_mask [of b 6] low_mask [of b 5] low_mask [of b 4] low_mask [of b 3]
  by (simp_all add: mask_eq_exp_minus_1)

section \<open>One code point\<close>

definition scalar :: "nat \<Rightarrow> bool" where
  "scalar p \<longleftrightarrow> p < 0x110000 \<and> \<not> is_surrogate p"

lemma encode_point_bytes:
  assumes "p < 0x110000"
  shows "encode_point p = map of_nat (utf8_bytes p)"
proof -
  have "p < 0x800 \<Longrightarrow> 0xC0 OR p div 64 = 0xC0 + p div 64"
    and "p < 0x10000 \<Longrightarrow> 0xE0 OR p div 4096 = 0xE0 + p div 4096"
    and "0xF0 OR p div 262144 = 0xF0 + p div 262144"
    using assms by (simp_all add: or_lead2 or_lead3 or_lead4 less_mult_imp_div_less)
  then show ?thesis
    by (auto simp: encode_point_def utf8_bytes_def drop_bit_eq_div and_3F or_continuation)
qed

lemma continued:
  "continuation bs i = (if i < length bs \<and> unat (bs ! i) div 64 = 2 then int (unat (bs ! i) mod 64) else -1)"
proof -
  have "uint (b AND 0x3F) = int (unat b mod 64)" for b :: "8 word"
    using low_masks(1) [of b] by (metis of_nat_unat uint_nat)
  then show ?thesis by (simp add: continuation_def byte_masks)
qed

definition two :: "nat \<Rightarrow> nat \<Rightarrow> nat" where "two x y = x mod 32 * 64 + y mod 64"
definition three :: "nat \<Rightarrow> nat \<Rightarrow> nat \<Rightarrow> nat" where "three x y z = x mod 16 * 4096 + y mod 64 * 64 + z mod 64"
definition four :: "nat \<Rightarrow> nat \<Rightarrow> nat \<Rightarrow> nat \<Rightarrow> nat" where
  "four x y z w = x mod 8 * 262144 + y mod 64 * 4096 + z mod 64 * 64 + w mod 64"

lemma or_parts:
  fixes x y z w :: nat
  shows "y < 64 \<Longrightarrow> push_bit 6 x OR y = x * 64 + y"
    and "y < 64 \<Longrightarrow> z < 64 \<Longrightarrow> push_bit 12 x OR push_bit 6 y OR z = x * 4096 + y * 64 + z"
    and "y < 64 \<Longrightarrow> z < 64 \<Longrightarrow> w < 64 \<Longrightarrow>
      push_bit 18 x OR push_bit 12 y OR push_bit 6 z OR w = x * 262144 + y * 4096 + z * 64 + w"
  using or_high [of y 6 x] or_high [of z 6 y] or_high [of "y * 64 + z" 12 x]
    or_high [of w 6 z] or_high [of "z * 64 + w" 12 y] or_high [of "y * 4096 + (z * 64 + w)" 18 x]
  by (simp_all add: push_bit_eq_mult)

text \<open>A turn of the loop, by the kind of its first byte. \<open>more bs i\<close>: the byte at \<open>i\<close> continues a character.\<close>

definition more :: "bytes \<Rightarrow> nat \<Rightarrow> bool" where
  "more bs i \<longleftrightarrow> i < length bs \<and> unat (bs ! i) div 64 = 2"

abbreviation at_byte :: "bytes \<Rightarrow> nat \<Rightarrow> nat" where
  "at_byte bs i \<equiv> unat (bs ! i)"

lemma hd_byte: "bs \<noteq> [] \<Longrightarrow> hd bs = bs ! 0"
  by (simp add: hd_conv_nth)

lemma small_byte: "(b :: 8 word) < 0x80 \<longleftrightarrow> unat b < 0x80"
  by (simp add: word_less_nat_alt)

lemma turn_one: "\<lbrakk>bs \<noteq> []; at_byte bs 0 < 0x80\<rbrakk> \<Longrightarrow> decode_point bs = Inr (at_byte bs 0, 1)"
  by (simp add: decode_point_def Let_def hd_byte small_byte)

lemma turn_two:
  assumes "bs \<noteq> []" "at_byte bs 0 div 32 = 6"
  shows "decode_point bs =
    (if more bs 1 \<and> 0x80 \<le> two (at_byte bs 0) (at_byte bs 1) then Inr (two (at_byte bs 0) (at_byte bs 1), 2)
     else Inl InvalidUtf8)"
proof -
  have "\<not> at_byte bs 0 < 0x80" using assms(2) by presburger
  then show ?thesis
    using assms by (simp add: decode_point_def Let_def hd_byte small_byte byte_masks low_masks continued more_def
      or_parts two_def not_le)
qed

lemma lead_bytes:
  fixes x :: nat
  shows "x div 16 = 14 \<Longrightarrow> \<not> x < 0x80 \<and> x div 32 \<noteq> 6"
    and "x div 8 = 30 \<Longrightarrow> \<not> x < 0x80 \<and> x div 32 \<noteq> 6 \<and> x div 16 \<noteq> 14"
  using div_mult2_eq [of x 16 2] div_mult2_eq [of x 8 4] div_mult2_eq [of x 8 2] div_le_mono [of x 127 16] div_le_mono [of x 127 8]
  by auto

lemma continued_more:
  "continuation bs i < 0 \<longleftrightarrow> \<not> more bs i" "more bs i \<Longrightarrow> nat (continuation bs i) = at_byte bs i mod 64"
  by (simp_all add: continued more_def)

lemma turn_three:
  assumes "bs \<noteq> []" "at_byte bs 0 div 16 = 14"
  defines "cp \<equiv> three (at_byte bs 0) (at_byte bs 1) (at_byte bs 2)"
  shows "decode_point bs =
    (if more bs 1 \<and> more bs 2 \<and> 0x800 \<le> cp \<and> \<not> is_surrogate cp then Inr (cp, 3) else Inl InvalidUtf8)"
proof -
  have first: "\<not> at_byte bs 0 < 0x80" "at_byte bs 0 div 32 \<noteq> 6" using lead_bytes(1) [OF assms(2)] by simp_all
  have cp: "push_bit 12 (at_byte bs 0 mod 16) OR push_bit 6 (at_byte bs 1 mod 64) OR at_byte bs 2 mod 64 = cp"
    unfolding cp_def three_def by (rule or_parts(2)) (rule mod_less_divisor, rule zero_less_numeral)+
  then have "push_bit 12 (at_byte bs 0 mod 16) OR push_bit 6 (nat (continuation bs 1)) OR nat (continuation bs 2) = cp"
    if "more bs 1 \<and> more bs 2" using that by (simp only: continued_more(2))
  then show ?thesis
    unfolding decode_point_def Let_def hd_byte [OF assms(1)] small_byte byte_masks low_masks continued_more(1)
    using first assms(2) by (cases "more bs 1 \<and> more bs 2") (simp_all only: if_False if_True not_le is_surrogate_def, auto)
qed

lemma turn_four:
  assumes "bs \<noteq> []" "at_byte bs 0 div 8 = 30"
  defines "cp \<equiv> four (at_byte bs 0) (at_byte bs 1) (at_byte bs 2) (at_byte bs 3)"
  shows "decode_point bs =
    (if more bs 1 \<and> more bs 2 \<and> more bs 3 \<and> 0x10000 \<le> cp \<and> cp \<le> 0x10FFFF then Inr (cp, 4) else Inl InvalidUtf8)"
proof -
  have first: "\<not> at_byte bs 0 < 0x80" "at_byte bs 0 div 32 \<noteq> 6" "at_byte bs 0 div 16 \<noteq> 14"
    using lead_bytes(2) [OF assms(2)] by simp_all
  have cp: "push_bit 18 (at_byte bs 0 mod 8) OR push_bit 12 (at_byte bs 1 mod 64) OR push_bit 6 (at_byte bs 2 mod 64)
      OR at_byte bs 3 mod 64 = cp"
    unfolding cp_def four_def by (rule or_parts(3)) (rule mod_less_divisor, rule zero_less_numeral)+
  then have "push_bit 18 (at_byte bs 0 mod 8) OR push_bit 12 (nat (continuation bs 1)) OR push_bit 6 (nat (continuation bs 2))
      OR nat (continuation bs 3) = cp"
    if "more bs 1 \<and> more bs 2 \<and> more bs 3" using that by (simp only: continued_more(2))
  then show ?thesis
    unfolding decode_point_def Let_def hd_byte [OF assms(1)] small_byte byte_masks low_masks continued_more(1)
    using first assms(2)
    by (cases "more bs 1 \<and> more bs 2 \<and> more bs 3") (simp_all only: if_False if_True not_le, auto)
qed

lemma turn_none:
  "\<lbrakk>bs \<noteq> []; \<not> at_byte bs 0 < 0x80; at_byte bs 0 div 32 \<noteq> 6; at_byte bs 0 div 16 \<noteq> 14; at_byte bs 0 div 8 \<noteq> 30\<rbrakk> \<Longrightarrow>
     decode_point bs = Inl InvalidUtf8"
  by (simp add: decode_point_def Let_def hd_byte small_byte byte_masks)

text \<open>The bytes of a code point, from the bytes to the code point and back.\<close>

lemma above:
  fixes x k q :: nat
  shows "x div k = q \<Longrightarrow> k * q + x mod k = x"
  by auto

lemma two_bytes:
  assumes "x div 32 = 6" "y div 64 = 2" "0x80 \<le> two x y"
  shows "utf8_bytes (two x y) = [x, y]" "two x y < 0x800"
proof -
  have b: "x mod 32 < 32" "y mod 64 < 64" by simp_all
  then show "two x y < 0x800" by (simp add: two_def)
  moreover have "two x y div 64 = x mod 32" "two x y mod 64 = y mod 64"
    unfolding two_def by (rule joined [OF b(2)])+
  ultimately show "utf8_bytes (two x y) = [x, y]"
    using assms(3) above [OF assms(1)] above [OF assms(2)] by (simp add: utf8_bytes_def)
qed

lemma three_bytes:
  assumes "x div 16 = 14" "y div 64 = 2" "z div 64 = 2" "0x800 \<le> three x y z"
  shows "utf8_bytes (three x y z) = [x, y, z]" "three x y z < 0x10000"
proof -
  have b: "x mod 16 < 16" "y mod 64 < 64" "z mod 64 < 64" by simp_all
  then show "three x y z < 0x10000" by (simp add: three_def)
  have e: "three x y z = (x mod 16 * 64 + y mod 64) * 64 + z mod 64" by (simp add: three_def)
  have "three x y z div 64 = x mod 16 * 64 + y mod 64" "three x y z mod 64 = z mod 64"
    unfolding e by (rule joined [OF b(3)])+
  moreover have "three x y z div 4096 = three x y z div 64 div 64" by (simp flip: div_mult2_eq)
  ultimately have "three x y z div 4096 = x mod 16" "three x y z div 64 mod 64 = y mod 64" "three x y z mod 64 = z mod 64"
    using joined [OF b(2), of "x mod 16"] by simp_all
  with \<open>three x y z < 0x10000\<close> show "utf8_bytes (three x y z) = [x, y, z]"
    using assms(4) above [OF assms(1)] above [OF assms(2)] above [OF assms(3)] by (simp add: utf8_bytes_def)
qed

lemma four_bytes:
  assumes "x div 8 = 30" "y div 64 = 2" "z div 64 = 2" "w div 64 = 2" "0x10000 \<le> four x y z w"
  shows "utf8_bytes (four x y z w) = [x, y, z, w]"
proof -
  have b: "y mod 64 < 64" "z mod 64 < 64" "w mod 64 < 64" by simp_all
  let ?m = "four x y z w"
  have e: "?m = ((x mod 8 * 64 + y mod 64) * 64 + z mod 64) * 64 + w mod 64" by (simp add: four_def)
  have 1: "?m div 64 = (x mod 8 * 64 + y mod 64) * 64 + z mod 64" "?m mod 64 = w mod 64"
    unfolding e by (rule joined [OF b(3)])+
  have d: "?m div 4096 = ?m div 64 div 64" "?m div 262144 = ?m div 64 div 64 div 64" by (simp_all flip: div_mult2_eq)
  have "?m div 262144 = x mod 8" "?m div 4096 mod 64 = y mod 64" "?m div 64 mod 64 = z mod 64" "?m mod 64 = w mod 64"
    unfolding d 1 using joined [OF b(2), of "x mod 8 * 64 + y mod 64"] joined [OF b(1), of "x mod 8"] by simp_all
  then show ?thesis
    using assms(5) above [OF assms(1)] above [OF assms(2)] above [OF assms(3)] above [OF assms(4)] by (simp add: utf8_bytes_def)
qed

lemma first_bytes:
  "1 < length bs \<Longrightarrow> bs = [bs ! 0, bs ! 1] @ drop 2 bs"
  "2 < length bs \<Longrightarrow> bs = [bs ! 0, bs ! 1, bs ! 2] @ drop 3 bs"
  "3 < length bs \<Longrightarrow> bs = [bs ! 0, bs ! 1, bs ! 2, bs ! 3] @ drop 4 bs"
  by (cases bs; cases "tl bs"; cases "tl (tl bs)"; cases "tl (tl (tl bs))"; simp)+

lemma point_taken:
  assumes "decode_point bs = Inr (cp, n)" "bs \<noteq> []"
  shows "scalar cp \<and> bs = encode_point cp @ drop n bs"
proof (cases "at_byte bs 0 < 0x80")
  case True
  then have "cp = at_byte bs 0" "n = 1" using assms turn_one by auto
  then show ?thesis
    using True assms(2) by (cases bs) (simp_all add: scalar_def is_surrogate_def encode_point_bytes utf8_bytes_def)
next
  case False
  consider "at_byte bs 0 div 32 = 6" | "at_byte bs 0 div 16 = 14" | "at_byte bs 0 div 8 = 30"
    using turn_none [OF assms(2) False] assms(1) by fastforce
  then show ?thesis
  proof cases
    case 1
    then have t: "more bs 1" "0x80 \<le> two (at_byte bs 0) (at_byte bs 1)" "cp = two (at_byte bs 0) (at_byte bs 1)" "n = 2"
      using assms turn_two by (auto split: if_splits)
    note u = two_bytes [OF 1 _ t(2), folded t(3)] t(1) [unfolded more_def]
    then have "scalar cp" "encode_point cp = [bs ! 0, bs ! 1]"
      by (simp_all add: encode_point_bytes scalar_def is_surrogate_def)
    then show ?thesis using u t(4) first_bytes(1) [of bs] by simp
  next
    case 2
    then have t: "more bs 1" "more bs 2" "0x800 \<le> three (at_byte bs 0) (at_byte bs 1) (at_byte bs 2)"
      "cp = three (at_byte bs 0) (at_byte bs 1) (at_byte bs 2)" "n = 3" "\<not> is_surrogate cp"
      using assms turn_three by (auto split: if_splits)
    note u = three_bytes [OF 2 _ _ t(3), folded t(4)] t(1,2) [unfolded more_def]
    then have "scalar cp" "encode_point cp = [bs ! 0, bs ! 1, bs ! 2]"
      using t(6) by (simp_all add: encode_point_bytes scalar_def)
    then show ?thesis using u t(5) first_bytes(2) [of bs] by simp
  next
    case 3
    then have t: "more bs 1" "more bs 2" "more bs 3" "0x10000 \<le> four (at_byte bs 0) (at_byte bs 1) (at_byte bs 2) (at_byte bs 3)"
      "cp = four (at_byte bs 0) (at_byte bs 1) (at_byte bs 2) (at_byte bs 3)" "n = 4" "cp \<le> 0x10FFFF"
      using assms turn_four by (auto split: if_splits)
    note u = four_bytes [OF 3 _ _ _ t(4), folded t(5)] t(1,2,3) [unfolded more_def] t(4) [folded t(5)]
    then have "scalar cp" "encode_point cp = [bs ! 0, bs ! 1, bs ! 2, bs ! 3]"
      using t(7) by (simp_all add: encode_point_bytes scalar_def is_surrogate_def)
    then show ?thesis using u t(6) first_bytes(3) [of bs] by simp
  qed
qed

lemma byte_of: "n < 256 \<Longrightarrow> unat (of_nat n :: 8 word) = n"
  by (simp add: unat_of_nat)

lemma continuing:
  fixes v :: nat
  assumes "v < 64"
  shows "(0x80 + v) div 64 = 2" "(0x80 + v) mod 64 = v" "0x80 + v < 256"
  using assms joined [of v 64 2] by simp_all

lemma given_two:
  assumes "x div 32 = 6" "y div 64 = 2" "x < 256" "y < 256" "0x80 \<le> two x y"
  shows "decode_point (of_nat x # of_nat y # rest) = Inr (two x y, 2)"
proof -
  let ?bs = "of_nat x # of_nat y # rest :: bytes"
  have b: "at_byte ?bs 0 = x" "at_byte ?bs 1 = y" using assms byte_of by simp_all
  then have "more ?bs 1" using assms by (simp add: more_def)
  then show ?thesis using turn_two [of ?bs, unfolded b] assms by simp
qed

lemma given_three:
  assumes "x div 16 = 14" "y div 64 = 2" "z div 64 = 2" "x < 256" "y < 256" "z < 256"
    and "0x800 \<le> three x y z" "\<not> is_surrogate (three x y z)"
  shows "decode_point (of_nat x # of_nat y # of_nat z # rest) = Inr (three x y z, 3)"
proof -
  let ?bs = "of_nat x # of_nat y # of_nat z # rest :: bytes"
  have b: "at_byte ?bs 0 = x" "at_byte ?bs 1 = y" "at_byte ?bs 2 = z" using assms byte_of by simp_all
  then have "more ?bs 1" "more ?bs 2" using assms by (simp_all add: more_def)
  then show ?thesis using turn_three [of ?bs, unfolded b] assms by simp
qed

lemma given_four:
  assumes "x div 8 = 30" "y div 64 = 2" "z div 64 = 2" "w div 64 = 2" "x < 256" "y < 256" "z < 256" "w < 256"
    and "0x10000 \<le> four x y z w" "four x y z w \<le> 0x10FFFF"
  shows "decode_point (of_nat x # of_nat y # of_nat z # of_nat w # rest) = Inr (four x y z w, 4)"
proof -
  let ?bs = "of_nat x # of_nat y # of_nat z # of_nat w # rest :: bytes"
  have b: "at_byte ?bs 0 = x" "at_byte ?bs 1 = y" "at_byte ?bs 2 = z" "at_byte ?bs 3 = w" using assms byte_of by simp_all
  then have "more ?bs 1" "more ?bs 2" "more ?bs 3" using assms by (simp_all add: more_def)
  then show ?thesis using turn_four [of ?bs, unfolded b] assms by simp
qed

lemma point_given:
  assumes "scalar cp"
  shows "decode_point (encode_point cp @ rest) = Inr (cp, length (encode_point cp))"
proof -
  have p: "cp < 0x110000" "\<not> is_surrogate cp" using assms by (simp_all add: scalar_def)
  have div: "cp div 4096 = cp div 64 div 64" "cp div 262144 = cp div 64 div 64 div 64" by (simp_all flip: div_mult2_eq)
  define u v w where "u = 0x80 + cp mod 64" and "v = 0x80 + cp div 64 mod 64" and "w = 0x80 + cp div 64 div 64 mod 64"
  have m: "cp mod 64 < 64" "cp div 64 mod 64 < 64" "cp div 64 div 64 mod 64 < 64" by simp_all
  note c = continuing [OF m(1), folded u_def] continuing [OF m(2), folded v_def] continuing [OF m(3), folded w_def]
  note parts = div_mult_mod_eq [of cp 64] div_mult_mod_eq [of "cp div 64" 64] div_mult_mod_eq [of "cp div 64 div 64" 64]
  consider "cp < 0x80" | "0x80 \<le> cp" "cp < 0x800" | "0x800 \<le> cp" "cp < 0x10000" | "0x10000 \<le> cp" by linarith
  then show ?thesis
  proof cases
    case 1
    then show ?thesis using turn_one [of "of_nat cp # rest"]
      by (simp add: encode_point_bytes utf8_bytes_def byte_of)
  next
    case 2
    define x where "x = 0xC0 + cp div 64"
    have "cp div 64 < 32" using 2 by (simp add: less_mult_imp_div_less)
    then have x: "x div 32 = 6" "x mod 32 = cp div 64" "x < 256" using joined [of "cp div 64" 32 6] by (simp_all add: x_def)
    have t: "two x u = cp" unfolding two_def x c by simp
    have "encode_point cp = [of_nat x, of_nat u]"
      using 2 p by (simp add: encode_point_bytes utf8_bytes_def x_def u_def)
    then show ?thesis using given_two [OF x(1) c(1) x(3) c(3), unfolded t, OF 2(1)] by simp
  next
    case 3
    define x where "x = 0xE0 + cp div 64 div 64"
    have "cp div 64 div 64 < 16" using 3 by (simp add: less_mult_imp_div_less)
    then have x: "x div 16 = 14" "x mod 16 = cp div 64 div 64" "x < 256"
      using joined [of "cp div 64 div 64" 16 14] by (simp_all add: x_def)
    have t: "three x v u = cp" unfolding three_def x c using parts by linarith
    have "encode_point cp = [of_nat x, of_nat v, of_nat u]"
      using 3 p by (simp add: encode_point_bytes utf8_bytes_def x_def u_def v_def div)
    then show ?thesis using given_three [OF x(1) c(4) c(1) x(3) c(6) c(3), unfolded t, OF 3(1) p(2)] by simp
  next
    case 4
    define x where "x = 0xF0 + cp div 64 div 64 div 64"
    have "cp div 64 div 64 div 64 < 8" using p(1) by (simp add: less_mult_imp_div_less)
    then have x: "x div 8 = 30" "x mod 8 = cp div 64 div 64 div 64" "x < 256"
      using joined [of "cp div 64 div 64 div 64" 8 30] by (simp_all add: x_def)
    have t: "four x w v u = cp" unfolding four_def x c using parts by linarith
    have "encode_point cp = [of_nat x, of_nat w, of_nat v, of_nat u]"
      using 4 p by (simp add: encode_point_bytes utf8_bytes_def x_def u_def v_def w_def div)
    then show ?thesis using given_four [OF x(1) c(7) c(4) c(1) x(3) c(9) c(6) c(3), unfolded t, OF 4] p(1) by simp
  qed
qed

section \<open>Texts\<close>

lemma code_points_scalar:
  "\<lbrakk>scalar p\<rbrakk> \<Longrightarrow> code_points (point_units p @ rest) = p # code_points rest"
proof -
  assume p: "scalar p"
  show "code_points (point_units p @ rest) = p # code_points rest"
  proof (cases "p \<le> 0xFFFF")
    case True
    then have u: "unat (of_nat p :: code_unit) = p" by (simp add: unat_of_nat)
    have "code_point_at (of_nat p # rest) = p"
      using p u by (cases rest) (auto simp: is_lead_def scalar_def is_surrogate_def)
    then show ?thesis using True by (simp add: point_units_def code_points_Cons del: code_points.simps)
  next
    case False
    define h l where "h = (p - 0x10000) div 0x400" and "l = (p - 0x10000) mod 0x400"
    have h: "h < 0x400" unfolding h_def
      by (rule less_mult_imp_div_less) (use p False in \<open>auto simp: scalar_def\<close>)
    have l: "l < 0x400" by (simp add: l_def)
    have u: "unat (of_nat (0xD800 + h) :: code_unit) = 0xD800 + h" "unat (of_nat (0xDC00 + l) :: code_unit) = 0xDC00 + l"
      using h l by (simp_all add: unat_of_nat del: of_nat_add)
    have e: "h * 0x400 + l + 0x10000 = p" using False by (simp add: h_def l_def)
    have "code_point_at (of_nat (0xD800 + h) # of_nat (0xDC00 + l) # rest) = p"
      using h l e by (simp add: u is_lead_def is_trail_def del: of_nat_add)
    then show ?thesis using False
      by (simp add: point_units_def code_points_Cons h_def [symmetric] l_def [symmetric] del: code_points.simps of_nat_add)
  qed
qed

lemma code_points_of: "\<forall>p \<in> set ps. scalar p \<Longrightarrow> code_points (from_code_points ps) = ps"
  by (induction ps) (simp_all add: from_code_points_def code_points_scalar)

lemma point_units_of:
  "point_units (code_point_at (u # rest)) = (if code_point_at (u # rest) > 0xFFFF then u # take 1 rest else [u])"
proof (cases "code_point_at (u # rest) > 0xFFFF")
  case False
  then show ?thesis using code_point_single [of u rest] by (simp add: point_units_def)
next
  case True
  then obtain v t where r: "rest = v # t" "is_lead u" "is_trail v" by (rule code_point_pair)
  have b: "0xD800 \<le> unat u" "0xDC00 \<le> unat v" "unat v - 0xDC00 < 0x400"
    using r unfolding is_lead_def is_trail_def by linarith+
  have p: "code_point_at (u # rest) - 0x10000 = (unat u - 0xD800) * 0x400 + (unat v - 0xDC00)" using r by simp
  have "(code_point_at (u # rest) - 0x10000) div 0x400 = unat u - 0xD800"
    "(code_point_at (u # rest) - 0x10000) mod 0x400 = unat v - 0xDC00"
    unfolding p by (rule joined [OF b(3)])+
  then have "point_units (code_point_at (u # rest)) = [of_nat (unat u), of_nat (unat v)]"
    using True b by (simp add: point_units_def del: of_nat_unat)
  then show ?thesis using True r(1) by simp
qed

lemma from_code_points_of: "from_code_points (code_points t) = t"
proof (induction t rule: code_points.induct)
  case (2 u rest)
  have "from_code_points (code_points (u # rest)) = point_units (code_point_at (u # rest)) @
      from_code_points (code_points (if code_point_at (u # rest) > 0xFFFF then tl rest else rest))"
    unfolding code_points_Cons by (simp add: from_code_points_def)
  also have "\<dots> = u # rest"
    using 2 [OF refl] code_point_pair [of u rest] unfolding point_units_of by (cases rest) (auto split: if_splits)
  finally show ?case .
qed (simp add: from_code_points_def)

section \<open>The loops\<close>

lemma encode_point_length:
  "p < 0x110000 \<Longrightarrow> length (encode_point p) = (if p < 0x80 then 1 else if p < 0x800 then 2 else if p < 0x10000 then 3 else 4)"
  by (simp add: encode_point_def)

lemma byte_length_points:
  "\<forall>p \<in> set ps. p < 0x110000 \<Longrightarrow> byte_length_loop ps n =
     (if \<forall>p \<in> set ps. scalar p then Inr (n + length (concat (map encode_point ps))) else Inl InvalidUtf8)"
proof (induction ps arbitrary: n)
  case (Cons p ps)
  then show ?case by (auto simp: encode_point_length scalar_def is_surrogate_def)
qed simp

lemma code_points_bound: "p \<in> set (code_points t) \<Longrightarrow> p < 0x110000"
  by (induction t rule: code_points.induct) (auto simp: code_points_Cons code_point_bound simp del: code_points.simps(2))

lemma utf8_encode_points:
  "utf8_encode t =
     (if \<forall>p \<in> set (code_points t). scalar p then Inr (concat (map encode_point (code_points t))) else Inl InvalidUtf8)"
  using byte_length_points [of "code_points t" 0] code_points_bound
  by (auto simp: utf8_encode_def byte_length_def written_all)

lemma decode_points:
  "\<forall>p \<in> set ps. scalar p \<Longrightarrow>
     utf8_decode_loop (concat (map encode_point ps)) pending out = Inr (out @ from_code_points (pending @ ps))"
proof (induction ps arbitrary: pending out)
  case Nil
  then show ?case by (simp add: utf8_decode_loop.simps)
next
  case (Cons p ps)
  have "encode_point p \<noteq> []" by (simp add: encode_point_def)
  then show ?case
    using Cons point_given [of p "concat (map encode_point ps)"]
    by (subst utf8_decode_loop.simps) (simp add: Let_def from_code_points_def)
qed

lemma decoded_points:
  "utf8_decode_loop bs pending out = Inr t \<Longrightarrow>
     \<exists>ps. (\<forall>p \<in> set ps. scalar p) \<and> bs = concat (map encode_point ps) \<and> t = out @ from_code_points (pending @ ps)"
proof (induction bs pending out rule: utf8_decode_loop.induct)
  case (1 bs pending out)
  show ?case
  proof (cases "bs = []")
    case True
    then show ?thesis using 1(3) by (intro exI [of _ "[]"]) (simp add: utf8_decode_loop.simps)
  next
    case False
    obtain cp n where d: "decode_point bs = Inr (cp, n)"
      using 1(3) False by (subst (asm) utf8_decode_loop.simps) (auto split: sum.splits)
    note taken = point_taken [OF d False]
    have "\<exists>ps. (\<forall>p \<in> set ps. scalar p) \<and> drop n bs = concat (map encode_point ps) \<and> t = out @ from_code_points ((pending @ [cp]) @ ps)"
    proof (cases "4096 \<le> length (pending @ [cp])")
      case True
      then show ?thesis using 1(3) 1(1) [OF False d refl refl True] False d
        by (subst (asm) utf8_decode_loop.simps) (auto simp: from_code_points_def)
    next
      case long: False
      then show ?thesis using 1(3) 1(2) [OF False d refl refl long] False d
        by (subst (asm) utf8_decode_loop.simps) auto
    qed
    then obtain ps where "\<forall>p \<in> set ps. scalar p" "drop n bs = concat (map encode_point ps)" "t = out @ from_code_points (pending @ cp # ps)"
      by auto
    then show ?thesis using taken by (intro exI [of _ "cp # ps"]) auto
  qed
qed

lemma utf8_exact: "utf8_decode bs = Inr t \<longleftrightarrow> utf8_encode t = Inr bs"
proof
  assume "utf8_decode bs = Inr t"
  then obtain ps where "\<forall>p \<in> set ps. scalar p" "bs = concat (map encode_point ps)" "t = from_code_points ps"
    using decoded_points [of bs "[]" "[]" t] by (auto simp: utf8_decode_def)
  then show "utf8_encode t = Inr bs" by (simp add: utf8_encode_points code_points_of)
next
  assume "utf8_encode t = Inr bs"
  then show "utf8_decode bs = Inr t"
    using decode_points [of "code_points t" "[]" "[]"]
    by (simp add: utf8_encode_points utf8_decode_def from_code_points_of split: if_splits)
qed

text \<open>
  C35: Base64 of text reads back exactly: \<open>fromBase64\<close> returns a text for a string, under any
  options, if and only if \<open>toBase64\<close> encodes that text to that very string. So every well-formed text
  survives the round trip, and no malformed base64, unpaired surrogate, overlong or truncated byte
  sequence is ever accepted.
\<close>
theorem base64_text_roundtrip:
  "from_base64 encoded options = Inr text \<longleftrightarrow> to_base64 text options = Inr encoded"
  unfolding from_base64_def to_base64_def rbind_Inr_iff to_bytes_exact utf8_exact by auto

end
