(* ===== verification/MathBigint.thy ===== *)
theory MathBigint
  imports MoneyDecimal Complex_Main
begin

text \<open>
  The integer routines under the exact numbers of \<open>packages/math\<close>: \<open>internal/bigint.ts\<close>, the limits
  of \<open>internal/limits.ts\<close>, the rounding modes of \<open>rounding.ts\<close> and fractions as decimals,
  \<open>internal/fraction.ts\<close>. A bigint is an \<open>int\<close> (its division truncates: \<open>sdiv\<close>, \<open>smod\<close>), a thrown
  error is an \<open>Inl\<close>, its message is left out.
\<close>

datatype math_error =
    DivisionByZero | BadMathArgument | NumberFormat | NumericRange | ResourceLimit | InexactResult | MixedKinds

datatype rounding =
    RoundUp | RoundDown | RoundCeiling | RoundFloor | RoundHalfUp | RoundHalfDown | RoundHalfEven | RoundUnnecessary

section \<open>Limits\<close>

definition MAX_DIGITS :: nat where
  "MAX_DIGITS = 10000"

definition MAX_FRACTION :: nat where
  "MAX_FRACTION = 10000"

definition MAX_INTEGER_DIGITS :: nat where
  "MAX_INTEGER_DIGITS = 18000"

definition assert_intermediate_digits :: "nat \<Rightarrow> math_error + unit" where
  "assert_intermediate_digits digits = (if digits > MAX_INTEGER_DIGITS then Inl ResourceLimit else Inr ())"

definition exceeds_digit_limit :: "nat \<Rightarrow> bool" where
  "exceeds_digit_limit digits \<longleftrightarrow> digits > MAX_DIGITS"

text \<open>A scale is a whole number here; one past the safe integers is past the limit too.\<close>

definition exceeds_scale_limit :: "int \<Rightarrow> bool" where
  "exceeds_scale_limit scale \<longleftrightarrow> \<bar>scale\<bar> > int MAX_FRACTION"

definition assert_digit_limit :: "nat \<Rightarrow> math_error + unit" where
  "assert_digit_limit digits = (if exceeds_digit_limit digits then Inl ResourceLimit else Inr ())"

definition assert_scale_limit :: "int \<Rightarrow> math_error + unit" where
  "assert_scale_limit scale = (if exceeds_scale_limit scale then Inl ResourceLimit else Inr ())"

section \<open>Bigints\<close>

definition big_abs :: "int \<Rightarrow> int" where
  "big_abs n = (if n < 0 then - n else n)"

definition big_sign :: "int \<Rightarrow> int" where
  "big_sign n = (if n < 0 then -1 else if n > 0 then 1 else 0)"

text \<open>The memo of the powers up to \<open>POW10_CACHE_LIMIT\<close> keeps their values.\<close>

definition power_of_ten :: "nat \<Rightarrow> int" where
  "power_of_ten e = 10 ^ e"

definition digit_count :: "int \<Rightarrow> nat" where
  "digit_count n = length (dec_digits (nat (big_abs n)))"

definition SMALL_LIMIT :: int where
  "SMALL_LIMIT = push_bit 14000 1"

definition is_small :: "int \<Rightarrow> bool" where
  "is_small n \<longleftrightarrow> n < SMALL_LIMIT \<and> n > - SMALL_LIMIT"

definition multiply_checked :: "int \<Rightarrow> int \<Rightarrow> math_error + int" where
  "multiply_checked a b =
     rbind (if \<not> is_small a \<or> \<not> is_small b then assert_intermediate_digits (digit_count a + digit_count b) else Inr ())
       (\<lambda>u. Inr (a * b))"

definition times_pow10 :: "int \<Rightarrow> nat \<Rightarrow> math_error + int" where
  "times_pow10 v e =
     rbind (if e > 8000 \<or> \<not> is_small v then assert_intermediate_digits (digit_count v + e) else Inr ())
       (\<lambda>u. Inr (v * power_of_ten e))"

function gcd_steps :: "int \<Rightarrow> int \<Rightarrow> int" where
  "gcd_steps a b = (if b = 0 then a else gcd_steps b (a smod b))"
  by pat_completeness auto
termination
proof (relation "measure (\<lambda>(a, b). nat \<bar>b\<bar>)")
  fix a b :: int
  assume "b \<noteq> 0"
  then show "((b, a smod b), (a, b)) \<in> measure (\<lambda>(a, b). nat \<bar>b\<bar>)"
    using smod_int_range [of b a] by auto
qed simp

declare gcd_steps.simps [simp del]

definition big_gcd :: "int \<Rightarrow> int \<Rightarrow> int" where
  "big_gcd a b = gcd_steps (big_abs a) (big_abs b)"

definition floor_div :: "int \<Rightarrow> int \<Rightarrow> int" where
  "floor_div a b =
     (let q = a sdiv b in if a smod b \<noteq> 0 \<and> ((a < 0) \<noteq> (b < 0)) then q - 1 else q)"

text \<open>
  \<open>stripFactor\<close> is called with the factors 2 and 5; with a factor of magnitude below 2 the loop of
  the code would not end (or throw), which the guard on the factor leaves out.
\<close>

function strip_steps :: "int \<Rightarrow> int \<Rightarrow> nat \<Rightarrow> int \<times> nat" where
  "strip_steps n factor count =
     (if n \<noteq> 0 \<and> 1 < \<bar>factor\<bar> \<and> n smod factor = 0 then strip_steps (n sdiv factor) factor (count + 1)
      else (n, count))"
  by pat_completeness auto
termination
proof (relation "measure (\<lambda>(n, factor, count). nat \<bar>n\<bar>)")
  fix n factor :: int and count :: nat
  assume a: "n \<noteq> 0 \<and> 1 < \<bar>factor\<bar> \<and> n smod factor = 0"
  then have "n = n sdiv factor * factor" using sdiv_mult_smod_eq [of n factor] by simp
  then have e: "\<bar>n\<bar> = \<bar>n sdiv factor\<bar> * \<bar>factor\<bar>" by (metis abs_mult)
  have "0 < \<bar>n sdiv factor\<bar>" using e a by (cases "n sdiv factor = 0") auto
  then have "\<bar>n sdiv factor\<bar> * 1 < \<bar>n sdiv factor\<bar> * \<bar>factor\<bar>" using a by (intro mult_strict_left_mono) auto
  then show "((n sdiv factor, factor, count + 1), (n, factor, count)) \<in> measure (\<lambda>(n, factor, count). nat \<bar>n\<bar>)"
    using e by simp
qed simp

declare strip_steps.simps [simp del]

definition strip_factor :: "int \<Rightarrow> int \<Rightarrow> int \<times> nat" where
  "strip_factor n factor = strip_steps n factor 0"

definition divide_rounded :: "int \<Rightarrow> int \<Rightarrow> rounding \<Rightarrow> math_error + int" where
  "divide_rounded numerator denominator mode =
     (if denominator = 0 then Inl DivisionByZero
      else let result_sign = big_sign numerator * big_sign denominator;
               n = big_abs numerator; d = big_abs denominator;
               quotient = n sdiv d; remainder = n smod d
           in if remainder = 0 then Inr (if result_sign < 0 then - quotient else quotient)
              else let half = big_sign (remainder * 2 - d)
                   in rbind
                        (case mode of
                           RoundUnnecessary \<Rightarrow> Inl InexactResult
                         | RoundDown \<Rightarrow> Inr False
                         | RoundUp \<Rightarrow> Inr True
                         | RoundCeiling \<Rightarrow> Inr (result_sign > 0)
                         | RoundFloor \<Rightarrow> Inr (result_sign < 0)
                         | RoundHalfUp \<Rightarrow> Inr (half \<ge> 0)
                         | RoundHalfDown \<Rightarrow> Inr (half > 0)
                         | RoundHalfEven \<Rightarrow> Inr (half > 0 \<or> half = 0 \<and> quotient smod 2 = 1))
                        (\<lambda>round_up. let magnitude = (if round_up then quotient + 1 else quotient)
                                    in Inr (if result_sign < 0 then - magnitude else magnitude)))"

section \<open>Fractions as decimals\<close>

text \<open>A finite decimal: coefficient and scale.\<close>

type_synonym decimal_parts = "int \<times> nat"

text \<open>\<open>ScaleOptions\<close>: a scale, and a rounding mode if one is given.\<close>

type_synonym scale_options = "int \<times> rounding option"

definition assert_scale :: "int \<Rightarrow> math_error + unit" where
  "assert_scale scale = (if scale < 0 then Inl BadMathArgument else assert_scale_limit scale)"

definition fraction_to_decimal_parts :: "int \<Rightarrow> int \<Rightarrow> scale_options option \<Rightarrow> math_error + decimal_parts" where
  "fraction_to_decimal_parts numerator denominator options =
     (if denominator = 0 then Inl DivisionByZero
      else case options of
        Some (scale, mode) \<Rightarrow>
          rbind (assert_scale scale) (\<lambda>u.
          rbind (times_pow10 numerator (nat scale)) (\<lambda>scaled.
          rbind (divide_rounded scaled denominator (case mode of None \<Rightarrow> RoundUnnecessary | Some m \<Rightarrow> m)) (\<lambda>c.
            Inr (c, nat scale))))
      | None \<Rightarrow>
          (let divisor = big_gcd numerator denominator;
               p0 = numerator sdiv divisor; q0 = denominator sdiv divisor;
               p = (if q0 < 0 then - p0 else p0); q = (if q0 < 0 then - q0 else q0)
           in case strip_factor q 2 of (after_twos, twos) \<Rightarrow>
              case strip_factor after_twos 5 of (rest, fives) \<Rightarrow>
                if rest \<noteq> 1 then Inl InexactResult
                else let scale = max twos fives
                     in rbind (times_pow10 p scale) (\<lambda>scaled. Inr (scaled sdiv q, scale))))"

section \<open>What the routines compute\<close>

lemma big_abs_abs [simp]: "big_abs n = \<bar>n\<bar>"
  by (simp add: big_abs_def)

lemma big_sign_sgn [simp]: "big_sign n = sgn n"
  by (simp add: big_sign_def sgn_if)

lemma gcd_steps_gcd: "\<lbrakk>0 \<le> a; 0 \<le> b\<rbrakk> \<Longrightarrow> gcd_steps a b = gcd a b"
proof (induction a b rule: gcd_steps.induct)
  case (1 a b)
  show ?case
  proof (cases "b = 0")
    case False
    then have "a smod b = a mod b" using 1 by (simp add: sdiv_smod_pos)
    then show ?thesis
      using 1 False by (subst gcd_steps.simps) (simp add: gcd_red_int [symmetric] gcd.commute)
  qed (use 1 in \<open>simp add: gcd_steps.simps\<close>)
qed

lemma big_gcd_gcd [simp]: "big_gcd a b = gcd a b"
  by (simp add: big_gcd_def gcd_steps_gcd)

lemma sdiv_exact: "b dvd a \<Longrightarrow> a sdiv b = a div b" for a b :: int
  by (simp add: signed_divide_int_eq_divide_int)

lemma floor_div_div [simp]:
  assumes "b \<noteq> 0"
  shows "floor_div a b = a div b"
proof -
  have "a mod b \<noteq> b" using assms by (metis mod_mod_trivial mod_self)
  then show ?thesis
    using assms by (auto simp: floor_div_def signed_divide_int_eq_divide_int signed_modulo_int_eq_modulo_int Let_def
      dvd_eq_mod_eq_0 sgn_if split: if_splits)
qed

end
