(* ===== verification/MathExact.thy ===== *)
theory MathExact
  imports MathBigint
begin

text \<open>
  The exact numbers of \<open>packages/math/src/internal/exact.ts\<close>: \<open>Decimal\<close>, a coefficient with the scale
  it was written with, and \<open>Rational\<close>, a reduced fraction; with the decimal syntax of
  \<open>internal/parse.ts\<close> they are built from. Texts are lists of characters. The estimate by which a
  power is refused before it is built is a floating-point logarithm: it is an argument here.
\<close>

record decimal =
  dc_coefficient :: int
  dc_scale :: nat

record rational =
  rt_num :: int
  rt_den :: int

text \<open>
  A \<open>number\<close> as an input: a safe whole number, a whole number past the safe ones, the text
  \<open>String(value)\<close> of a number with a fraction, or none of the finite numbers.
\<close>

datatype number_input = WholeNumber int | UnsafeWhole | FractionNumber string | NotFinite

datatype decimal_input = FromDecimal decimal | FromText string | FromNumber number_input | FromBigint int

datatype integer_input = IntegerText string | IntegerNumber int | UnsafeNumber | IntegerBigint int

datatype rational_input = FromRational rational | FromDecimalInput decimal_input

section \<open>Decimal syntax\<close>

definition all_digits :: "string \<Rightarrow> bool" where
  "all_digits s \<longleftrightarrow> s \<noteq> [] \<and> list_all is_dec s"

text \<open>\<open>Number(exponentText)\<close> for a text of the pattern \<open>^[+-]?\d+$\<close>.\<close>

definition exponent_value :: "string \<Rightarrow> int option" where
  "exponent_value s =
     (case take_sign s of (neg, ds) \<Rightarrow>
        if all_digits ds then Some (if neg then - int (digits_value ds) else int (digits_value ds)) else None)"

datatype number_failure = InvalidNumber | NumberOutOfRange

text \<open>
  The scan: sign, digits, an optional point with digits, an optional exponent. A coefficient of at
  most 15 digits is built as a number, a longer one as a bigint: the same whole number.
\<close>

definition parse_decimal_string :: "string \<Rightarrow> number_failure + decimal_parts" where
  "parse_decimal_string input =
     (case take_sign input of (negative, s) \<Rightarrow>
        let integer_digits = takeWhile is_dec s;
            after = dropWhile is_dec s;
            point = (after \<noteq> [] \<and> hd after = CHR ''.'');
            fraction_digits = (if point then takeWhile is_dec (tl after) else []);
            rest = (if point then dropWhile is_dec (tl after) else after);
            none = (length integer_digits + length fraction_digits = 0)
        in rbind
             (if rest \<noteq> []
              then if hd rest \<notin> {CHR ''e'', CHR ''E''} then Inl InvalidNumber
                   else (case exponent_value (tl rest) of
                           None \<Rightarrow> Inl InvalidNumber
                         | Some e \<Rightarrow> if none then Inl InvalidNumber
                                     else if exceeds_scale_limit e then Inl NumberOutOfRange else Inr e)
              else if none then Inl InvalidNumber else Inr 0)
             (\<lambda>exponent.
               let whole = dropWhile (\<lambda>c. c = CHR ''0'') integer_digits;
                   fraction = (if whole = [] then dropWhile (\<lambda>c. c = CHR ''0'') fraction_digits else fraction_digits);
                   significant = length whole + length fraction;
                   padded = (if significant = 0 then 0 else nat (max 0 (exponent - int (length fraction_digits))))
               in if exceeds_digit_limit (significant + padded) then Inl NumberOutOfRange
                  else let scale = int (length fraction_digits) - exponent
                       in if exceeds_scale_limit scale then Inl NumberOutOfRange
                          else let magnitude = int (digits_value (whole @ fraction));
                                   coefficient = (if negative then - magnitude else magnitude)
                               in Inr (if scale < 0 then (coefficient * power_of_ten (nat (- scale)), 0)
                                       else (coefficient, nat scale))))"

definition decimal_parts :: "string \<Rightarrow> math_error + decimal_parts" where
  "decimal_parts input =
     (case parse_decimal_string input of
        Inl InvalidNumber \<Rightarrow> Inl NumberFormat
      | Inl NumberOutOfRange \<Rightarrow> Inl ResourceLimit
      | Inr parts \<Rightarrow> Inr parts)"

definition number_digits :: "int \<Rightarrow> string" where
  "number_digits n = (if n < 0 then ''-'' else []) @ map char_of_digit (dec_digits (nat \<bar>n\<bar>))"

definition parts_from_number :: "number_input \<Rightarrow> math_error + decimal_parts" where
  "parts_from_number v =
     (case v of
        NotFinite \<Rightarrow> Inl NumericRange
      | UnsafeWhole \<Rightarrow> Inl NumericRange
      | WholeNumber n \<Rightarrow> decimal_parts (if n = 0 then ''0'' else number_digits n)
      | FractionNumber text \<Rightarrow> decimal_parts text)"

definition parts_from_bigint :: "int \<Rightarrow> math_error + decimal_parts" where
  "parts_from_bigint v = rbind (assert_digit_limit (digit_count v)) (\<lambda>u. Inr (v, 0))"

section \<open>Limits of results\<close>

definition DIGIT_LIMIT :: int where
  "DIGIT_LIMIT = 10 ^ MAX_DIGITS"

definition assert_result_digits :: "int \<Rightarrow> math_error + int" where
  "assert_result_digits v = (if v \<ge> DIGIT_LIMIT \<or> v \<le> - DIGIT_LIMIT then Inl ResourceLimit else Inr v)"

text \<open>\<open>surely_long magnitude exponent\<close>: the logarithm says the power has too many digits.\<close>

type_synonym power_estimate = "int \<Rightarrow> nat \<Rightarrow> bool"

definition power_within_limit :: "power_estimate \<Rightarrow> int \<Rightarrow> nat \<Rightarrow> math_error + int" where
  "power_within_limit surely_long base exponent =
     (let magnitude = big_abs base
      in if magnitude \<le> 1 then Inr (if base < 0 \<and> exponent mod 2 = 0 then 1 else base)
         else if surely_long magnitude exponent then Inl ResourceLimit
         else assert_result_digits (base ^ exponent))"

definition assert_safe_exponent :: "int \<Rightarrow> math_error + unit" where
  "assert_safe_exponent e = (if is_safe e then Inr () else Inl BadMathArgument)"

definition to_bigint_input :: "integer_input \<Rightarrow> math_error + int" where
  "to_bigint_input v =
     (case v of
        IntegerBigint n \<Rightarrow> rbind (assert_digit_limit (digit_count n)) (\<lambda>u. Inr n)
      | IntegerNumber n \<Rightarrow> if is_safe n then Inr n else Inl NumericRange
      | UnsafeNumber \<Rightarrow> Inl NumericRange
      | IntegerText text \<Rightarrow>
          (case exponent_value text of
             None \<Rightarrow> Inl NumberFormat
           | Some n \<Rightarrow> if length text > MAX_DIGITS then Inl ResourceLimit else Inr n))"

section \<open>Decimal\<close>

definition decimal_of_parts :: "decimal_parts \<Rightarrow> decimal" where
  "decimal_of_parts parts = \<lparr>dc_coefficient = fst parts, dc_scale = snd parts\<rparr>"

definition to_decimal_parts :: "decimal_input \<Rightarrow> math_error + decimal_parts" where
  "to_decimal_parts v =
     (case v of
        FromDecimal d \<Rightarrow> Inr (dc_coefficient d, dc_scale d)
      | FromText text \<Rightarrow> decimal_parts text
      | FromNumber n \<Rightarrow> parts_from_number n
      | FromBigint n \<Rightarrow> parts_from_bigint n)"

definition decimal_from :: "decimal_input \<Rightarrow> math_error + decimal" where
  "decimal_from v =
     (case v of FromDecimal d \<Rightarrow> Inr d | _ \<Rightarrow> rbind (to_decimal_parts v) (\<lambda>parts. Inr (decimal_of_parts parts)))"

definition align :: "decimal \<Rightarrow> decimal \<Rightarrow> math_error + int \<times> int \<times> nat" where
  "align a b =
     (if dc_scale a = dc_scale b then Inr (dc_coefficient a, dc_coefficient b, dc_scale a)
      else if dc_scale a > dc_scale b
      then rbind (times_pow10 (dc_coefficient b) (dc_scale a - dc_scale b)) (\<lambda>y. Inr (dc_coefficient a, y, dc_scale a))
      else rbind (times_pow10 (dc_coefficient a) (dc_scale b - dc_scale a)) (\<lambda>x. Inr (x, dc_coefficient b, dc_scale b)))"

definition new_decimal :: "int \<Rightarrow> nat \<Rightarrow> math_error + decimal" where
  "new_decimal coefficient scale =
     rbind (assert_result_digits coefficient) (\<lambda>c. Inr \<lparr>dc_coefficient = c, dc_scale = scale\<rparr>)"

fun decimal_sum_loop :: "decimal_input list \<Rightarrow> int \<Rightarrow> nat \<Rightarrow> math_error + int \<times> nat" where
  "decimal_sum_loop [] coefficient scale = Inr (coefficient, scale)"
| "decimal_sum_loop (v # vs) coefficient scale =
     rbind (decimal_from v) (\<lambda>d.
     rbind (if dc_scale d > scale then times_pow10 coefficient (dc_scale d - scale) else Inr coefficient) (\<lambda>c.
       let s = max scale (dc_scale d)
       in rbind (if dc_scale d = s then Inr (dc_coefficient d) else times_pow10 (dc_coefficient d) (s - dc_scale d))
            (\<lambda>x. decimal_sum_loop vs (c + x) s)))"

definition decimal_sum :: "decimal_input list \<Rightarrow> math_error + decimal" where
  "decimal_sum vs = rbind (decimal_sum_loop vs 0 0) (\<lambda>(c, s). new_decimal c s)"

definition decimal_plus :: "decimal \<Rightarrow> decimal_input \<Rightarrow> math_error + decimal" where
  "decimal_plus this other =
     rbind (decimal_from other) (\<lambda>that. rbind (align this that) (\<lambda>(a, b, scale). new_decimal (a + b) scale))"

definition decimal_minus :: "decimal \<Rightarrow> decimal_input \<Rightarrow> math_error + decimal" where
  "decimal_minus this other =
     rbind (decimal_from other) (\<lambda>that. rbind (align this that) (\<lambda>(a, b, scale). new_decimal (a - b) scale))"

definition decimal_times :: "decimal \<Rightarrow> decimal_input \<Rightarrow> math_error + decimal" where
  "decimal_times this other =
     rbind (decimal_from other) (\<lambda>that.
       let scale = dc_scale this + dc_scale that
       in if scale > MAX_FRACTION then Inl ResourceLimit
          else rbind (multiply_checked (dc_coefficient this) (dc_coefficient that)) (\<lambda>c. new_decimal c scale))"

definition decimal_divided_by :: "decimal \<Rightarrow> decimal_input \<Rightarrow> scale_options option \<Rightarrow> math_error + decimal" where
  "decimal_divided_by this other options =
     rbind (decimal_from other) (\<lambda>that.
     rbind (times_pow10 (dc_coefficient this) (dc_scale that)) (\<lambda>p.
     rbind (times_pow10 (dc_coefficient that) (dc_scale this)) (\<lambda>q.
     rbind (fraction_to_decimal_parts p q options) (\<lambda>parts.
     rbind (assert_result_digits (fst parts)) (\<lambda>c. Inr (decimal_of_parts parts))))))"

definition decimal_mod :: "decimal \<Rightarrow> decimal_input \<Rightarrow> math_error + decimal" where
  "decimal_mod this other =
     rbind (decimal_from other) (\<lambda>that.
       if dc_coefficient that = 0 then Inl DivisionByZero
       else rbind (align this that) (\<lambda>(a, b, scale). Inr \<lparr>dc_coefficient = a smod b, dc_scale = scale\<rparr>))"

definition decimal_one :: decimal where
  "decimal_one = \<lparr>dc_coefficient = 1, dc_scale = 0\<rparr>"

text \<open>\<open>pow\<close> for an exponent above 0; a negative one goes through the reciprocal.\<close>

definition decimal_pow_positive :: "power_estimate \<Rightarrow> decimal \<Rightarrow> nat \<Rightarrow> math_error + decimal" where
  "decimal_pow_positive surely_long this exponent =
     (let scale = dc_scale this * exponent
      in if scale > MAX_FRACTION then Inl ResourceLimit
         else rbind (power_within_limit surely_long (dc_coefficient this) exponent) (\<lambda>c.
                Inr \<lparr>dc_coefficient = c, dc_scale = scale\<rparr>))"

definition decimal_pow :: "power_estimate \<Rightarrow> decimal \<Rightarrow> int \<Rightarrow> math_error + decimal" where
  "decimal_pow surely_long this exponent =
     rbind (assert_safe_exponent exponent) (\<lambda>u.
       if exponent = 0 then Inr decimal_one
       else if exponent < 0
       then if dc_coefficient this = 0 then Inl DivisionByZero
            else rbind (decimal_divided_by decimal_one (FromDecimal this) None) (\<lambda>d.
                   decimal_pow_positive surely_long d (nat (- exponent)))
       else decimal_pow_positive surely_long this (nat exponent))"

definition decimal_negated :: "decimal \<Rightarrow> decimal" where
  "decimal_negated this = \<lparr>dc_coefficient = - dc_coefficient this, dc_scale = dc_scale this\<rparr>"

definition decimal_abs :: "decimal \<Rightarrow> decimal" where
  "decimal_abs this = (if dc_coefficient this < 0 then decimal_negated this else this)"

definition decimal_to_scale :: "decimal \<Rightarrow> int \<Rightarrow> rounding \<Rightarrow> math_error + decimal" where
  "decimal_to_scale this scale mode =
     rbind (assert_scale scale) (\<lambda>u.
       let diff = scale - int (dc_scale this)
       in if diff = 0 then Inr this
          else if diff > 0
          then rbind (times_pow10 (dc_coefficient this) (nat diff)) (\<lambda>c. new_decimal c (nat scale))
          else rbind (divide_rounded (dc_coefficient this) (power_of_ten (nat (- diff))) mode) (\<lambda>c.
                 Inr \<lparr>dc_coefficient = c, dc_scale = nat scale\<rparr>))"

definition round_to_significant :: "decimal \<Rightarrow> int \<Rightarrow> rounding \<Rightarrow> math_error + decimal" where
  "round_to_significant this digits mode =
     (if \<not> is_safe digits \<or> digits < 1 then Inl BadMathArgument
      else let drop' = int (digit_count (big_abs (dc_coefficient this))) - digits
           in if dc_coefficient this = 0 \<or> drop' \<le> 0 then Inr this
              else rbind (divide_rounded (dc_coefficient this) (power_of_ten (nat drop')) mode) (\<lambda>rounded.
                     if int (dc_scale this) \<ge> drop'
                     then Inr \<lparr>dc_coefficient = rounded, dc_scale = dc_scale this - nat drop'\<rparr>
                     else rbind (times_pow10 rounded (nat (drop' - int (dc_scale this)))) (\<lambda>c. new_decimal c 0)))"

definition round_to :: "decimal \<Rightarrow> decimal_input \<Rightarrow> rounding \<Rightarrow> math_error + decimal" where
  "round_to this step mode =
     rbind (decimal_from step) (\<lambda>unit.
       if \<not> dc_coefficient unit > 0 then Inl BadMathArgument
       else rbind (decimal_divided_by this (FromDecimal unit) (Some (0, Some mode))) (\<lambda>n.
              decimal_times n (FromDecimal unit)))"

fun trim_loop :: "int \<Rightarrow> nat \<Rightarrow> int \<times> nat" where
  "trim_loop coefficient 0 = (coefficient, 0)"
| "trim_loop coefficient (Suc scale) =
     (if coefficient smod 10 = 0 then trim_loop (coefficient sdiv 10) scale else (coefficient, Suc scale))"

definition decimal_trim :: "decimal \<Rightarrow> decimal" where
  "decimal_trim this =
     (case trim_loop (dc_coefficient this) (dc_scale this) of (c, s) \<Rightarrow>
        if s = dc_scale this then this else \<lparr>dc_coefficient = c, dc_scale = s\<rparr>)"

definition decimal_compare_to :: "decimal \<Rightarrow> decimal_input \<Rightarrow> math_error + int" where
  "decimal_compare_to this other =
     rbind (decimal_from other) (\<lambda>that.
     rbind (align this that) (\<lambda>(a, b, s). Inr (if a < b then -1 else if a > b then 1 else 0)))"

definition decimal_is_integer :: "decimal \<Rightarrow> bool" where
  "decimal_is_integer this \<longleftrightarrow> dc_scale this = 0 \<or> dc_coefficient this smod power_of_ten (dc_scale this) = 0"

definition decimal_to_string :: "decimal \<Rightarrow> string" where
  "decimal_to_string this =
     (let negative = dc_coefficient this < 0;
          digits = map char_of_digit (dec_digits (nat (if negative then - dc_coefficient this else dc_coefficient this)));
          sign = (if negative then ''-'' else []);
          point = int (length digits) - int (dc_scale this)
      in if dc_scale this = 0 then sign @ digits
         else if point > 0 then sign @ take (nat point) digits @ ''.'' @ drop (nat point) digits
         else sign @ ''0.'' @ replicate (nat (- point)) (CHR ''0'') @ digits)"

definition decimal_to_bigint :: "decimal \<Rightarrow> math_error + int" where
  "decimal_to_bigint this =
     (if \<not> decimal_is_integer this then Inl InexactResult
      else Inr (dc_coefficient this sdiv power_of_ten (dc_scale this)))"

end
