(* ===== verification/MathRational.thy ===== *)
theory MathRational
  imports MathExact
begin

text \<open>
  \<open>Rational\<close> of \<open>packages/math/src/internal/exact.ts\<close>: construction, arithmetic, the closest fraction
  with a bounded denominator, conversion, and the texts it is read from.
\<close>

section \<open>Construction\<close>

definition rational_of_parts :: "int \<Rightarrow> int \<Rightarrow> math_error + rational" where
  "rational_of_parts numerator denominator =
     (if denominator = 0 then Inl DivisionByZero
      else let n = (if denominator < 0 then - numerator else numerator);
               d = (if denominator < 0 then - denominator else denominator);
               divisor = big_gcd n d
           in Inr \<lparr>rt_num = n sdiv divisor, rt_den = d sdiv divisor\<rparr>)"

definition decimal_to_rational :: "decimal \<Rightarrow> math_error + rational" where
  "decimal_to_rational this = rational_of_parts (dc_coefficient this) (power_of_ten (dc_scale this))"

text \<open>White space of the pattern \<open>\s\<close> among these characters.\<close>

definition is_white_space :: "char \<Rightarrow> bool" where
  "is_white_space c \<longleftrightarrow> of_char c \<in> {9, 10, 11, 12, 13, 32, 160 :: nat}"

text \<open>The groups of \<open>^([+-]?)(\d+)\s+(\d+)\s*\/\s*(\d+)$\<close>.\<close>

definition mixed_syntax :: "string \<Rightarrow> (bool \<times> string \<times> string \<times> string) option" where
  "mixed_syntax input =
     (case take_sign input of (negative, s) \<Rightarrow>
        let whole = takeWhile is_dec s; s1 = dropWhile is_dec s;
            s2 = dropWhile is_white_space s1;
            upper = takeWhile is_dec s2;
            s3 = dropWhile is_white_space (dropWhile is_dec s2)
        in if whole = [] \<or> s1 = s2 \<or> upper = [] \<or> s3 = [] \<or> hd s3 \<noteq> CHR ''/'' then None
           else let lower = dropWhile is_white_space (tl s3)
                in if all_digits lower then Some (negative, whole, upper, lower) else None)"

text \<open>The groups of \<open>^([+-]?\d+)\s*\/\s*([+-]?\d+)$\<close>.\<close>

definition ratio_syntax :: "string \<Rightarrow> (string \<times> string) option" where
  "ratio_syntax input =
     (case take_sign input of (negative, s) \<Rightarrow>
        let sign = take (length input - length s) input;
            upper = takeWhile is_dec s;
            s1 = dropWhile is_white_space (dropWhile is_dec s)
        in if upper = [] \<or> s1 = [] \<or> hd s1 \<noteq> CHR ''/'' then None
           else let lower = dropWhile is_white_space (tl s1)
                in if exponent_value lower = None then None else Some (sign @ upper, lower))"

text \<open>The groups of \<open>^([+-]?)(\d*)\.(\d*)\((\d+)\)$\<close>.\<close>

definition repeating_syntax :: "string \<Rightarrow> (bool \<times> string \<times> string \<times> string) option" where
  "repeating_syntax input =
     (case take_sign input of (negative, s) \<Rightarrow>
        let whole = takeWhile is_dec s; s1 = dropWhile is_dec s
        in if s1 = [] \<or> hd s1 \<noteq> CHR ''.'' then None
           else let fraction = takeWhile is_dec (tl s1); s2 = dropWhile is_dec (tl s1)
                in if s2 = [] \<or> hd s2 \<noteq> CHR ''('' then None
                   else let period = takeWhile is_dec (tl s2); s3 = dropWhile is_dec (tl s2)
                        in if period \<noteq> [] \<and> s3 = '')'' then Some (negative, whole, fraction, period) else None)"

definition parse_rational :: "string \<Rightarrow> math_error + rational" where
  "parse_rational input =
     (case mixed_syntax input of
        Some (negative, whole, upper, lower) \<Rightarrow>
          rbind (to_bigint_input (IntegerText lower)) (\<lambda>denominator.
          rbind (to_bigint_input (IntegerText whole)) (\<lambda>w.
          rbind (multiply_checked w denominator) (\<lambda>product.
          rbind (to_bigint_input (IntegerText upper)) (\<lambda>u.
            let numerator = product + u
            in rational_of_parts (if negative then - numerator else numerator) denominator))))
      | None \<Rightarrow>
          (case ratio_syntax input of
             Some (upper, lower) \<Rightarrow>
               rbind (to_bigint_input (IntegerText upper)) (\<lambda>n.
               rbind (to_bigint_input (IntegerText lower)) (\<lambda>d. rational_of_parts n d))
           | None \<Rightarrow>
               (case repeating_syntax input of
                  Some (negative, whole, fraction, repeat) \<Rightarrow>
                    (let fixed_length = max (length whole) 1 + length fraction
                     in rbind (assert_intermediate_digits (max fixed_length (length fraction) + length repeat + 1)) (\<lambda>u.
                          let fixed = int (digits_value ((if whole = [] then ''0'' else whole) @ fraction));
                              period = power_of_ten (length repeat) - 1;
                              numerator = fixed * period + int (digits_value repeat);
                              denominator = period * power_of_ten (length fraction)
                          in rational_of_parts (if negative then - numerator else numerator) denominator))
                | None \<Rightarrow> rbind (decimal_parts input) (\<lambda>parts. rational_of_parts (fst parts) (power_of_ten (snd parts))))))"

definition rational_from :: "rational_input \<Rightarrow> math_error + rational" where
  "rational_from v =
     (case v of
        FromRational r \<Rightarrow> Inr r
      | FromDecimalInput (FromDecimal d) \<Rightarrow> decimal_to_rational d
      | FromDecimalInput (FromText text) \<Rightarrow> parse_rational text
      | FromDecimalInput v' \<Rightarrow>
          rbind (to_decimal_parts v') (\<lambda>parts. rational_of_parts (fst parts) (power_of_ten (snd parts))))"

definition ratio_of :: "integer_input \<Rightarrow> integer_input \<Rightarrow> math_error + rational" where
  "ratio_of first second =
     rbind (to_bigint_input first) (\<lambda>n. rbind (to_bigint_input second) (\<lambda>d. rational_of_parts n d))"

section \<open>Arithmetic\<close>

definition rational_zero :: rational where
  "rational_zero = \<lparr>rt_num = 0, rt_den = 1\<rparr>"

definition rational_negated :: "rational \<Rightarrow> rational" where
  "rational_negated this = \<lparr>rt_num = - rt_num this, rt_den = rt_den this\<rparr>"

definition new_rational :: "math_error + int \<Rightarrow> math_error + int \<Rightarrow> math_error + rational" where
  "new_rational n d =
     rbind (rbind n assert_result_digits) (\<lambda>n'. rbind (rbind d assert_result_digits) (\<lambda>d'.
       Inr \<lparr>rt_num = n', rt_den = d'\<rparr>))"

definition rational_plus :: "rational \<Rightarrow> rational_input \<Rightarrow> math_error + rational" where
  "rational_plus this other =
     rbind (rational_from other) (\<lambda>that.
       let g = big_gcd (rt_den this) (rt_den that)
       in if g = 1
          then new_rational
                 (rbind (multiply_checked (rt_num this) (rt_den that)) (\<lambda>x.
                  rbind (multiply_checked (rt_num that) (rt_den this)) (\<lambda>y. Inr (x + y))))
                 (multiply_checked (rt_den this) (rt_den that))
          else rbind (multiply_checked (rt_num this) (rt_den that sdiv g)) (\<lambda>x.
               rbind (multiply_checked (rt_num that) (rt_den this sdiv g)) (\<lambda>y.
                 let numerator = x + y
                 in if numerator = 0 then Inr rational_zero
                    else let g2 = big_gcd numerator g
                         in new_rational (Inr (numerator sdiv g2))
                              (multiply_checked (rt_den this sdiv g) (rt_den that sdiv g2)))))"

definition rational_minus :: "rational \<Rightarrow> rational_input \<Rightarrow> math_error + rational" where
  "rational_minus this other =
     rbind (rational_from other) (\<lambda>that. rational_plus this (FromRational (rational_negated that)))"

definition rational_times :: "rational \<Rightarrow> rational_input \<Rightarrow> math_error + rational" where
  "rational_times this other =
     rbind (rational_from other) (\<lambda>that.
       if rt_num this = 0 \<or> rt_num that = 0 then Inr rational_zero
       else let g1 = big_gcd (rt_num this) (rt_den that); g2 = big_gcd (rt_num that) (rt_den this)
            in new_rational (multiply_checked (rt_num this sdiv g1) (rt_num that sdiv g2))
                 (multiply_checked (rt_den this sdiv g2) (rt_den that sdiv g1)))"

definition rational_divided_by :: "rational \<Rightarrow> rational_input \<Rightarrow> math_error + rational" where
  "rational_divided_by this other =
     rbind (rational_from other) (\<lambda>that.
       if rt_num that = 0 then Inl DivisionByZero
       else if rt_num this = 0 then Inr rational_zero
       else let g1 = big_gcd (rt_num this) (rt_num that); g2 = big_gcd (rt_den this) (rt_den that)
            in rbind (multiply_checked (rt_num this sdiv g1) (rt_den that sdiv g2)) (\<lambda>numerator.
               rbind (multiply_checked (rt_den this sdiv g2) (rt_num that sdiv g1)) (\<lambda>denominator.
                 let flip = (if denominator < 0 then -1 else 1)
                 in new_rational (Inr (flip * numerator)) (Inr (flip * denominator)))))"

definition rational_inverse :: "rational \<Rightarrow> math_error + rational" where
  "rational_inverse this = (if rt_num this = 0 then Inl DivisionByZero else rational_of_parts (rt_den this) (rt_num this))"

definition rational_pow_positive :: "power_estimate \<Rightarrow> rational \<Rightarrow> nat \<Rightarrow> math_error + rational" where
  "rational_pow_positive surely_long this exponent =
     rbind (power_within_limit surely_long (rt_num this) exponent) (\<lambda>n.
     rbind (power_within_limit surely_long (rt_den this) exponent) (\<lambda>d. Inr \<lparr>rt_num = n, rt_den = d\<rparr>))"

definition rational_pow :: "power_estimate \<Rightarrow> rational \<Rightarrow> int \<Rightarrow> math_error + rational" where
  "rational_pow surely_long this exponent =
     rbind (assert_safe_exponent exponent) (\<lambda>u.
       if exponent = 0 then rational_of_parts 1 1
       else if exponent < 0
       then rbind (rational_inverse this) (\<lambda>r. rational_pow_positive surely_long r (nat (- exponent)))
       else rational_pow_positive surely_long this (nat exponent))"

definition rational_abs :: "rational \<Rightarrow> rational" where
  "rational_abs this = (if rt_num this < 0 then rational_negated this else this)"

definition rational_compare_to :: "rational \<Rightarrow> rational_input \<Rightarrow> math_error + int" where
  "rational_compare_to this other =
     rbind (rational_from other) (\<lambda>that.
     rbind (multiply_checked (rt_num this) (rt_den that)) (\<lambda>left.
     rbind (multiply_checked (rt_num that) (rt_den this)) (\<lambda>right.
       Inr (if left < right then -1 else if left > right then 1 else 0))))"

section \<open>The closest fraction\<close>

text \<open>
  The loop of \<open>approximate\<close>: the last two convergents \<open>p0/q0\<close> and \<open>p1/q1\<close> when the next would pass
  the limit. A division by zero throws (\<open>floorDiv\<close> of bigints), which is \<open>None\<close> here; the guard on the
  remainder only makes the recursion one that ends for any argument.
\<close>

function convergents :: "int \<Rightarrow> int \<times> int \<times> int \<times> int \<Rightarrow> int \<Rightarrow> int \<Rightarrow> (int \<times> int \<times> int \<times> int) option" where
  "convergents limit (p0, q0, p1, q1) n d =
     (if d \<le> 0 then None
      else let a = floor_div n d; q2 = q0 + a * q1
           in if q2 > limit then Some (p0, q0, p1, q1)
              else convergents limit (p1, q1, p0 + a * p1, q2) d (n - a * d))"
  by pat_completeness auto
termination
proof (relation "measure (\<lambda>(limit, s, n, d). nat d)")
  fix limit p0 q0 p1 q1 n d a q2 :: int
  assume d: "\<not> d \<le> 0" and a: "a = floor_div n d"
  have "n - a * d = n mod d" using d by (simp add: a minus_div_mult_eq_mod)
  then show "((limit, (p1, q1, p0 + a * p1, q2), d, n - a * d), (limit, (p0, q0, p1, q1), n, d))
      \<in> measure (\<lambda>(limit, s, n, d). nat d)"
    using d pos_mod_bound [of d n] by simp
qed simp

declare convergents.simps [simp del]

definition approximate :: "rational \<Rightarrow> integer_input \<Rightarrow> math_error + rational" where
  "approximate this max_denominator =
     rbind (to_bigint_input max_denominator) (\<lambda>limit.
       if limit < 1 then Inl BadMathArgument
       else if rt_den this \<le> limit then Inr this
       else (case convergents limit (0, 1, 1, 0) (rt_num this) (rt_den this) of
               None \<Rightarrow> Inl DivisionByZero
             | Some (p0, q0, p1, q1) \<Rightarrow>
                 if q1 = 0 then Inl DivisionByZero
                 else let k = (limit - q0) sdiv q1
                      in rbind (rational_of_parts (p0 + k * p1) (q0 + k * q1)) (\<lambda>first.
                         rbind (rational_of_parts p1 q1) (\<lambda>second.
                         rbind (rational_minus second (FromRational this)) (\<lambda>e2.
                         rbind (rational_minus first (FromRational this)) (\<lambda>e1.
                         rbind (rational_compare_to (rational_abs e2) (FromRational (rational_abs e1))) (\<lambda>c.
                           Inr (if c \<le> 0 then second else first))))))))"

section \<open>Conversion\<close>

definition rational_to_decimal :: "rational \<Rightarrow> scale_options option \<Rightarrow> math_error + decimal" where
  "rational_to_decimal this options =
     rbind (fraction_to_decimal_parts (rt_num this) (rt_den this) options) (\<lambda>parts.
     rbind (assert_result_digits (fst parts)) (\<lambda>c. Inr (decimal_of_parts parts)))"

definition to_mixed :: "rational \<Rightarrow> math_error + int \<times> rational" where
  "to_mixed this =
     rbind (rational_of_parts (rt_num this smod rt_den this) (rt_den this)) (\<lambda>fraction.
       Inr (rt_num this sdiv rt_den this, fraction))"

definition rational_to_bigint :: "rational \<Rightarrow> math_error + int" where
  "rational_to_bigint this = (if rt_den this \<noteq> 1 then Inl InexactResult else Inr (rt_num this))"

definition rational_to_string :: "rational \<Rightarrow> string" where
  "rational_to_string this =
     (if rt_den this = 1 then number_digits (rt_num this)
      else number_digits (rt_num this) @ ''/'' @ number_digits (rt_den this))"

end
