(* ===== verification/MathRounding.thy ===== *)
theory MathRounding
  imports MathRational
begin

text \<open>
  Rounding meets its contract: a quotient rounded under a mode is the whole number the mode names,
  stated over the rational numbers. And a fraction has an exact decimal, its shortest one, if and
  only if a finite decimal equals it.
\<close>

section \<open>The rounding contract\<close>

definition rounds_to :: "rounding \<Rightarrow> rat \<Rightarrow> int \<Rightarrow> bool" where
  "rounds_to mode q r \<longleftrightarrow>
     (case mode of
        RoundUnnecessary \<Rightarrow> of_int r = q
      | RoundFloor \<Rightarrow> r = \<lfloor>q\<rfloor>
      | RoundCeiling \<Rightarrow> r = \<lceil>q\<rceil>
      | RoundDown \<Rightarrow> r = (if 0 \<le> q then \<lfloor>q\<rfloor> else \<lceil>q\<rceil>)
      | RoundUp \<Rightarrow> r = (if 0 \<le> q then \<lceil>q\<rceil> else \<lfloor>q\<rfloor>)
      | RoundHalfUp \<Rightarrow> \<bar>of_int r - q\<bar> \<le> 1 / 2 \<and> (\<bar>of_int r - q\<bar> = 1 / 2 \<longrightarrow> \<bar>q\<bar> < \<bar>of_int r\<bar>)
      | RoundHalfDown \<Rightarrow> \<bar>of_int r - q\<bar> \<le> 1 / 2 \<and> (\<bar>of_int r - q\<bar> = 1 / 2 \<longrightarrow> \<bar>of_int r\<bar> < \<bar>q\<bar>)
      | RoundHalfEven \<Rightarrow> \<bar>of_int r - q\<bar> \<le> 1 / 2 \<and> (\<bar>of_int r - q\<bar> = 1 / 2 \<longrightarrow> even r))"

text \<open>A contract rounds a quotient to at most one number.\<close>

lemma close_integers:
  fixes r s :: int and q :: rat
  assumes "\<bar>of_int r - q\<bar> \<le> 1 / 2" "\<bar>of_int s - q\<bar> \<le> 1 / 2" "r < s"
  shows "s = r + 1 \<and> q = of_int r + 1 / 2"
proof -
  have "of_int s - of_int r \<le> (1 :: rat)" using assms(1,2) unfolding abs_le_iff by linarith
  then have "s = r + 1" using assms(3) by (simp flip: of_int_diff)
  then show ?thesis using assms(1,2) unfolding abs_le_iff by (simp; linarith)
qed

lemma rounds_to_one:
  assumes "rounds_to mode q r" "rounds_to mode q s"
  shows "r = s"
proof -
  have False if o: "r < s" "rounds_to mode q r" "rounds_to mode q s" for r s
  proof (cases "mode \<in> {RoundHalfUp, RoundHalfDown, RoundHalfEven}")
    case True
    then have "\<bar>of_int r - q\<bar> \<le> 1 / 2" "\<bar>of_int s - q\<bar> \<le> 1 / 2" using o(2,3) by (auto simp: rounds_to_def)
    from close_integers [OF this o(1)] have s: "s = r + 1" "q = of_int r + 1 / 2" by simp_all
    have "\<bar>of_int r - q\<bar> = 1 / 2" "\<bar>of_int s - q\<bar> = 1 / 2" by (simp_all add: s)
    then show False using True o(2,3) s by (auto simp: rounds_to_def abs_if split: if_splits)
  next
    case False
    then show False using o by (cases mode) (auto simp: rounds_to_def)
  qed
  then show ?thesis using assms by (metis linorder_neqE)
qed

text \<open>The decision on the magnitudes: \<open>a = q + f\<close> with \<open>0 < f < 1\<close>.\<close>

lemma parts_of_quotient:
  fixes n d :: int
  assumes "d \<noteq> 0"
  defines "a \<equiv> of_int \<bar>n\<bar> / of_int \<bar>d\<bar> :: rat" and "q \<equiv> \<bar>n\<bar> div \<bar>d\<bar>" and "r \<equiv> \<bar>n\<bar> mod \<bar>d\<bar>"
  shows "(of_int n / of_int d :: rat) = (if sgn n * sgn d < 0 then - a else a)"
    and "a = of_int q + of_int r / of_int \<bar>d\<bar>" "0 \<le> (of_int r / of_int \<bar>d\<bar> :: rat)" "(of_int r / of_int \<bar>d\<bar> :: rat) < 1"
    and "0 \<le> q" "0 \<le> r" "r < \<bar>d\<bar>"
proof -
  show "(of_int n / of_int d :: rat) = (if sgn n * sgn d < 0 then - a else a)"
    using assms(1) by (auto simp: a_def abs_if sgn_if)
  have "\<bar>n\<bar> = q * \<bar>d\<bar> + r" by (simp add: q_def r_def)
  then have "(of_int \<bar>n\<bar> :: rat) = of_int q * of_int \<bar>d\<bar> + of_int r" by (metis of_int_add of_int_mult)
  then show "a = of_int q + of_int r / of_int \<bar>d\<bar>" using assms(1) by (simp add: a_def field_simps)
  show r: "0 \<le> q" "0 \<le> r" "r < \<bar>d\<bar>" using assms(1) by (simp_all add: q_def r_def pos_imp_zdiv_nonneg_iff)
  then show "0 \<le> (of_int r / of_int \<bar>d\<bar> :: rat)" "(of_int r / of_int \<bar>d\<bar> :: rat) < 1"
    using assms(1) by (simp_all add: divide_less_eq flip: of_int_abs)
qed

lemma rounds_whole: "rounds_to mode (of_int m) m"
  by (cases mode) (simp_all add: rounds_to_def)

definition goes_up :: "rounding \<Rightarrow> bool \<Rightarrow> int \<Rightarrow> rat \<Rightarrow> bool" where
  "goes_up mode negative q f \<longleftrightarrow>
     (case mode of
        RoundUnnecessary \<Rightarrow> False | RoundDown \<Rightarrow> False | RoundUp \<Rightarrow> True
      | RoundCeiling \<Rightarrow> \<not> negative | RoundFloor \<Rightarrow> negative
      | RoundHalfUp \<Rightarrow> 1 / 2 \<le> f | RoundHalfDown \<Rightarrow> 1 / 2 < f
      | RoundHalfEven \<Rightarrow> 1 / 2 < f \<or> f = 1 / 2 \<and> odd q)"

lemma rounds_parts:
  fixes q :: int and f :: rat and negative :: bool
  assumes f: "0 < f" "f < 1" and q: "0 \<le> q" and mode: "mode \<noteq> RoundUnnecessary"
  defines "m \<equiv> (if goes_up mode negative q f then q + 1 else q)"
  shows "rounds_to mode (if negative then - (of_int q + f) else of_int q + f) (if negative then - m else m)"
proof -
  have fl: "\<lfloor>of_int q + f\<rfloor> = q" "\<lceil>of_int q + f\<rceil> = q + 1" using f by linarith+
  have fn: "\<lfloor>- (of_int q + f)\<rfloor> = - (q + 1)" "\<lceil>- (of_int q + f)\<rceil> = - q" using f by linarith+
  have pos: "0 < of_int q + f" using f q by (simp add: add_nonneg_pos)
  show ?thesis
  proof (cases "mode \<in> {RoundHalfUp, RoundHalfDown, RoundHalfEven}")
    case False
    then show ?thesis using mode fl fn pos
      by (cases mode; cases negative) (simp_all add: rounds_to_def m_def goes_up_def)
  next
    case True
    have near: "\<bar>of_int (if negative then - m else m) - (if negative then - (of_int q + f) else of_int q + f)\<bar> =
        (if goes_up mode negative q f then 1 - f else f)"
      using f by (auto simp: m_def)
    have big: "\<bar>of_int (if negative then - m else m)\<bar> = (of_int m :: rat)"
      "\<bar>if negative then - (of_int q + f) else of_int q + f\<bar> = of_int q + f"
      using q pos by (auto simp: m_def)
    have par: "even (if negative then - m else m) = even m" by simp
    show ?thesis using True f unfolding rounds_to_def near big par
      by (cases mode) (auto simp: m_def goes_up_def split: if_splits)
  qed
qed

lemma divide_rounded_contract:
  assumes "d \<noteq> 0"
  shows "case divide_rounded n d mode of Inr r \<Rightarrow> rounds_to mode (of_int n / of_int d) r
    | Inl e \<Rightarrow> e = InexactResult \<and> mode = RoundUnnecessary \<and> (\<forall>r. \<not> rounds_to mode (of_int n / of_int d) r)"
proof -
  define a f where "a = (of_int \<bar>n\<bar> / of_int \<bar>d\<bar> :: rat)" and "f = (of_int (\<bar>n\<bar> mod \<bar>d\<bar>) / of_int \<bar>d\<bar> :: rat)"
  define q r where "q = \<bar>n\<bar> div \<bar>d\<bar>" and "r = \<bar>n\<bar> mod \<bar>d\<bar>"
  define negative where "negative = (sgn n * sgn d < 0)"
  note p = parts_of_quotient [OF assms, of n, folded a_def f_def q_def r_def negative_def]
  have sd: "\<bar>n\<bar> sdiv \<bar>d\<bar> = q" "\<bar>n\<bar> smod \<bar>d\<bar> = r" using assms by (simp_all add: sdiv_smod_pos q_def r_def)
  have fr: "f = of_int r / of_int \<bar>d\<bar>" by (simp add: f_def r_def)
  have quotient: "of_int n / of_int d = (if negative then - (of_int q + f) else of_int q + f)" using p(1,2) fr by simp
  show ?thesis
  proof (cases "r = 0")
    case True
    then have "of_int n / of_int d = (of_int (if negative then - q else q) :: rat)" using quotient fr by simp
    moreover have "divide_rounded n d mode = Inr (if negative then - q else q)"
      using True assms by (simp add: divide_rounded_def Let_def sd negative_def)
    ultimately show ?thesis using rounds_whole by (metis sum.case(2))
  next
    case False
    then have r: "0 < r" "r < \<bar>d\<bar>" using p(6,7) by simp_all
    then have f: "0 < f" "f < 1" using fr p(4) by (simp_all flip: of_int_abs)
    have half: "sgn (r * 2 - \<bar>d\<bar>) = (if f < 1 / 2 then -1 else if f = 1 / 2 then 0 else 1)"
    proof -
      have D: "0 < (of_int \<bar>d\<bar> :: rat)" using assms by simp
      have "f < 1 / 2 \<longleftrightarrow> (of_int (r * 2) :: rat) < of_int \<bar>d\<bar>" "f = 1 / 2 \<longleftrightarrow> (of_int (r * 2) :: rat) = of_int \<bar>d\<bar>"
        unfolding fr using D by (simp_all add: pos_divide_less_eq divide_eq_eq)
      then have "f < 1 / 2 \<longleftrightarrow> r * 2 < \<bar>d\<bar>" "f = 1 / 2 \<longleftrightarrow> r * 2 = \<bar>d\<bar>" by (simp_all only: of_int_less_iff of_int_eq_iff)
      then show ?thesis by (simp add: sgn_if)
    qed
    have sign: "0 < sgn n * sgn d \<longleftrightarrow> \<not> negative"
    proof -
      have "n \<noteq> 0" using r(1) by (auto simp: r_def)
      then show ?thesis using assms by (auto simp: negative_def sgn_if)
    qed
    have odd: "q smod 2 = 1 \<longleftrightarrow> odd q" using p(5) by (simp add: sdiv_smod_pos odd_iff_mod_2_eq_one)
    show ?thesis
    proof (cases "mode = RoundUnnecessary")
      case True
      have "of_int i \<noteq> of_int q + f" "of_int i \<noteq> - (of_int q + f)" for i :: int
      proof -
        have no: "of_int k \<noteq> f" for k :: int
        proof
          assume "of_int k = f"
          then have "(of_int 0 :: rat) < of_int k" "(of_int k :: rat) < of_int 1" using f by simp_all
          then show False unfolding of_int_less_iff by simp
        qed
        show "of_int i \<noteq> of_int q + f" using no [of "i - q"] by auto
        show "of_int i \<noteq> - (of_int q + f)" using no [of "- i - q"] by auto
      qed
      then show ?thesis using True False assms
        by (simp add: divide_rounded_def Let_def sd rounds_to_def quotient)
    next
      case False
      have "divide_rounded n d mode = Inr (if negative then - (if goes_up mode negative q f then q + 1 else q)
          else if goes_up mode negative q f then q + 1 else q)"
        using False r(1) assms sign odd
        by (cases mode) (simp_all add: divide_rounded_def Let_def sd negative_def [symmetric] goes_up_def half)
      then show ?thesis using rounds_parts [OF f p(5) False, of negative] by (simp add: quotient)
    qed
  qed
qed

lemma divide_rounded_exact:
  "divide_rounded n d mode = Inr r \<longleftrightarrow> d \<noteq> 0 \<and> rounds_to mode (of_int n / of_int d) r"
proof (cases "d = 0")
  case True
  then show ?thesis by (simp add: divide_rounded_def)
next
  case False
  then show ?thesis
    using divide_rounded_contract [OF False, of mode n] rounds_to_one by (auto split: sum.splits)
qed

section \<open>Exact decimals of a fraction\<close>

lemma strip_steps_strips:
  "\<lbrakk>0 < n; 1 < f\<rbrakk> \<Longrightarrow> \<exists>rest k. strip_steps n f count = (rest, count + k) \<and> n = rest * f ^ k \<and> 0 < rest \<and> \<not> f dvd rest"
proof (induction n f count rule: strip_steps.induct)
  case (1 n f count)
  show ?case
  proof (cases "f dvd n")
    case True
    then have q: "n sdiv f = n div f" "n smod f = 0" using 1(2,3) by (simp_all add: sdiv_smod_pos)
    have n: "n = n div f * f" using True by simp
    have pos: "0 < n div f" using 1(2,3) True by (simp add: pos_imp_zdiv_pos_iff zdvd_imp_le)
    obtain rest k where r: "strip_steps (n sdiv f) f (count + 1) = (rest, count + 1 + k)" "n div f = rest * f ^ k"
      "0 < rest" "\<not> f dvd rest"
      using 1(1) 1(2,3) q pos by force
    have "n = rest * f ^ Suc k" using n r(2) by simp
    then show ?thesis using r q 1(2,3) by (subst strip_steps.simps) auto
  next
    case False
    then have "n smod f \<noteq> 0" using 1(2,3) by (simp add: sdiv_smod_pos dvd_eq_mod_eq_0)
    then show ?thesis using 1(2) False by (subst strip_steps.simps) (auto intro: exI [of _ n])
  qed
qed

lemma strip_factor_strips:
  assumes "0 < n" "1 < f"
  obtains rest k where "strip_factor n f = (rest, k)" "n = rest * f ^ k" "0 < rest" "\<not> f dvd rest"
  using strip_steps_strips [OF assms, of 0] unfolding strip_factor_def by auto

text \<open>A prime factor that is gone leaves a coprime rest; the two used here are 2 and 5.\<close>

lemma coprime_two: "\<not> (2 :: int) dvd n \<Longrightarrow> coprime n 2"
  by simp

lemma coprime_five: "\<not> (5 :: int) dvd n \<Longrightarrow> coprime n 5"
proof -
  assume "\<not> 5 dvd n"
  then have "n mod 5 \<in> {1, 2, 3, 4}" by auto presburger
  then have "coprime (n mod 5) 5" by (auto simp: coprime_iff_gcd_eq_1 gcd_non_0_int)
  then show "coprime n 5" by simp
qed

lemma ten_split: "(10 :: int) ^ s = 2 ^ s * 5 ^ s"
  by (simp flip: power_mult_distrib)

lemma divides_ten:
  fixes rest :: int
  assumes q: "q = rest * 2 ^ t * 5 ^ f" and rest: "0 < rest" "\<not> 2 dvd rest" "\<not> 5 dvd rest"
  shows "q dvd 10 ^ s \<longleftrightarrow> rest = 1 \<and> max t f \<le> s"
proof
  assume d: "q dvd 10 ^ s"
  have "coprime rest (2 ^ s * 5 ^ s)" using coprime_two [OF rest(2)] coprime_five [OF rest(3)] by simp
  moreover have "rest dvd 2 ^ s * 5 ^ s" using d q by (metis dvd_mult_left ten_split)
  ultimately have "is_unit rest" by (metis coprime_common_divisor dvd_refl)
  then have r: "rest = 1" using rest(1) by simp
  have "2 ^ t dvd (2 ^ s * 5 ^ s :: int)" "5 ^ f dvd (2 ^ s * 5 ^ s :: int)"
    using d q by (metis dvd_mult_left dvd_mult_right ten_split)+
  moreover have "coprime (2 ^ t :: int) (5 ^ s)" "coprime (5 ^ f :: int) (2 ^ s)"
    using coprime_five [of 2] by (simp_all add: coprime_commute)
  ultimately have "2 ^ t dvd (2 ^ s :: int)" "5 ^ f dvd (5 ^ s :: int)"
    by (simp_all add: coprime_dvd_mult_left_iff coprime_dvd_mult_right_iff)
  then have "(2 :: int) ^ t \<le> 2 ^ s" "(5 :: int) ^ f \<le> 5 ^ s" using zdvd_imp_le by (metis zero_less_power zero_less_numeral)+
  then have "t \<le> s" "f \<le> s" using power_increasing_iff [of "2 :: int" t s] power_increasing_iff [of "5 :: int" f s] by simp_all
  then show "rest = 1 \<and> max t f \<le> s" using r by simp
next
  assume "rest = 1 \<and> max t f \<le> s"
  then show "q dvd 10 ^ s" unfolding ten_split q by (auto intro: mult_dvd_mono le_imp_power_dvd)
qed

lemma finite_decimal:
  fixes p q c :: int
  assumes "coprime p q" "0 < q"
  shows "(of_int p / of_int q :: rat) = of_int c / 10 ^ s \<longleftrightarrow> q dvd 10 ^ s \<and> c = p * 10 ^ s div q"
proof -
  have "(of_int p / of_int q :: rat) = of_int c / 10 ^ s \<longleftrightarrow> of_int p * 10 ^ s = (of_int c * of_int q :: rat)"
    using assms(2) by (simp add: frac_eq_eq)
  also have "\<dots> \<longleftrightarrow> p * 10 ^ s = c * q"
  proof -
    have "of_int p * 10 ^ s = (of_int (p * 10 ^ s) :: rat)" "of_int c * of_int q = (of_int (c * q) :: rat)" by simp_all
    then show ?thesis by (simp only: of_int_eq_iff)
  qed
  also have "\<dots> \<longleftrightarrow> q dvd 10 ^ s \<and> c = p * 10 ^ s div q"
  proof
    assume e: "p * 10 ^ s = c * q"
    then have "q dvd p * 10 ^ s" by simp
    then have "q dvd 10 ^ s" using assms(1) by (simp add: coprime_commute coprime_dvd_mult_right_iff)
    then show "q dvd 10 ^ s \<and> c = p * 10 ^ s div q" using e assms(2) by simp
  next
    assume "q dvd 10 ^ s \<and> c = p * 10 ^ s div q"
    then show "p * 10 ^ s = c * q" by simp
  qed
  finally show ?thesis .
qed

lemma times_pow10_Inr: "times_pow10 v e = Inr w \<Longrightarrow> w = v * 10 ^ e"
  by (auto simp: times_pow10_def power_of_ten_def rbind_Inr_iff split: if_splits)

lemma times_pow10_Inl: "times_pow10 v e = Inl x \<Longrightarrow> x = ResourceLimit"
  by (auto simp: times_pow10_def rbind_Inl_iff assert_intermediate_digits_def split: if_splits)

lemma reduced_parts:
  fixes n d :: int
  assumes "d \<noteq> 0"
  defines "p \<equiv> (if d div gcd n d < 0 then - (n div gcd n d) else n div gcd n d)"
    and "q \<equiv> (if d div gcd n d < 0 then - (d div gcd n d) else d div gcd n d)"
  shows "0 < q" "coprime p q" "(of_int n / of_int d :: rat) = of_int p / of_int q"
proof -
  have g: "0 < gcd n d" using assms(1) by simp
  have "d div gcd n d \<noteq> 0" using assms(1) by (simp add: dvd_div_eq_0_iff)
  then show "0 < q" by (auto simp: q_def)
  have "coprime (n div gcd n d) (d div gcd n d)" using assms(1) by (intro div_gcd_coprime) simp
  then show "coprime p q" by (simp add: p_def q_def)
  have "n = n div gcd n d * gcd n d" "d = d div gcd n d * gcd n d" by simp_all
  then have "(of_int n / of_int d :: rat) =
      (of_int (n div gcd n d) * of_int (gcd n d)) / (of_int (d div gcd n d) * of_int (gcd n d))"
    by (metis of_int_mult)
  also have "\<dots> = of_int (n div gcd n d) / of_int (d div gcd n d)" using g by simp
  also have "\<dots> = of_int p / of_int q" by (simp add: p_def q_def)
  finally show "(of_int n / of_int d :: rat) = of_int p / of_int q" .
qed

definition shortest_decimal :: "rat \<Rightarrow> int \<Rightarrow> nat \<Rightarrow> bool" where
  "shortest_decimal x c s \<longleftrightarrow>
     x = of_int c / 10 ^ s \<and> (\<forall>c' s'. x = of_int c' / 10 ^ s' \<longrightarrow> s \<le> s')"

text \<open>How \<open>toDecimalParts\<close> without options works: reduce, strip twos and fives, scale.\<close>

lemma fraction_code:
  assumes "d \<noteq> 0"
  obtains p q rest t f where "0 < q" "coprime p q" "(of_int n / of_int d :: rat) = of_int p / of_int q"
    "q = rest * 2 ^ t * 5 ^ f" "0 < rest" "\<not> 2 dvd rest" "\<not> 5 dvd rest" "\<bar>p\<bar> \<le> \<bar>n\<bar>" "q \<le> \<bar>d\<bar>"
    "fraction_to_decimal_parts n d None =
      (if rest \<noteq> 1 then Inl InexactResult
       else rbind (times_pow10 p (max t f)) (\<lambda>scaled. Inr (scaled sdiv q, max t f)))"
proof -
  define p q where "p = (if d div gcd n d < 0 then - (n div gcd n d) else n div gcd n d)"
    and "q = (if d div gcd n d < 0 then - (d div gcd n d) else d div gcd n d)"
  note r = reduced_parts [OF assms, of n, folded p_def q_def]
  obtain r1 t where 1: "strip_factor q 2 = (r1, t)" "q = r1 * 2 ^ t" "0 < r1" "\<not> 2 dvd r1"
    using strip_factor_strips [OF r(1), of 2] by auto
  obtain rest f where 2: "strip_factor r1 5 = (rest, f)" "r1 = rest * 5 ^ f" "0 < rest" "\<not> 5 dvd rest"
    using strip_factor_strips [OF 1(3), of 5] by auto
  have q: "q = rest * 2 ^ t * 5 ^ f" "\<not> 2 dvd rest" using 1(2,4) 2(2) by (auto simp: algebra_simps)
  have exact: "n sdiv gcd n d = n div gcd n d" "d sdiv gcd n d = d div gcd n d" by (simp_all add: sdiv_exact)
  have code: "fraction_to_decimal_parts n d None =
      (if rest \<noteq> 1 then Inl InexactResult
       else rbind (times_pow10 p (max t f)) (\<lambda>scaled. Inr (scaled sdiv q, max t f)))"
    unfolding fraction_to_decimal_parts_def Let_def big_gcd_gcd exact p_def [symmetric] q_def [symmetric] 1(1)
    using assms 2(1) by simp
  have le: "\<bar>x div gcd n d\<bar> \<le> \<bar>x\<bar>" if "gcd n d dvd x" for x
  proof -
    have "\<bar>x div gcd n d\<bar> * 1 \<le> \<bar>x div gcd n d\<bar> * gcd n d" using assms by (intro mult_left_mono) (simp_all add: int_one_le_iff_zero_less)
    also have "\<dots> = \<bar>x div gcd n d * gcd n d\<bar>" by (simp add: abs_mult)
    finally show ?thesis using that by simp
  qed
  have "\<bar>p\<bar> \<le> \<bar>n\<bar>" "q \<le> \<bar>d\<bar>" using le [of n] le [of d] by (auto simp: p_def q_def)
  then show thesis using that r q 2(3,4) code by blast
qed

lemma fraction_exact:
  assumes "d \<noteq> 0"
  shows "case fraction_to_decimal_parts n d None of
      Inr (c, s) \<Rightarrow> shortest_decimal (of_int n / of_int d) c s
    | Inl e \<Rightarrow> e = ResourceLimit \<or> e = InexactResult \<and> (\<forall>c s. (of_int n / of_int d :: rat) \<noteq> of_int c / 10 ^ s)"
proof -
  obtain p q rest t f where r: "0 < q" "coprime p q" "(of_int n / of_int d :: rat) = of_int p / of_int q"
    and q: "q = rest * 2 ^ t * 5 ^ f" "0 < rest" "\<not> 2 dvd rest" "\<not> 5 dvd rest"
    and code: "fraction_to_decimal_parts n d None =
      (if rest \<noteq> 1 then Inl InexactResult
       else rbind (times_pow10 p (max t f)) (\<lambda>scaled. Inr (scaled sdiv q, max t f)))"
    by (rule fraction_code [OF assms])
  note ten = divides_ten [OF q]
  note fin = finite_decimal [OF r(2,1)]
  show ?thesis
  proof (cases "rest = 1")
    case True
    have "q dvd p * 10 ^ max t f" using ten [of "max t f"] True by simp
    then have "p * 10 ^ max t f sdiv q = p * 10 ^ max t f div q" by (rule sdiv_exact)
    then have "shortest_decimal (of_int n / of_int d) (p * 10 ^ max t f sdiv q) (max t f)"
      using True ten unfolding shortest_decimal_def r(3) fin by simp
    then show ?thesis using True times_pow10_Inr [of p "max t f"] times_pow10_Inl [of p "max t f"]
      by (auto simp: code split: sum.split elim!: rbind.elims)
  next
    case False
    then show ?thesis using ten by (simp add: code r(3) fin)
  qed
qed

end
