(* ===== verification/MathArith.thy ===== *)
theory MathArith
  imports MathRounding
begin

text \<open>
  Arithmetic of \<open>Rational\<close> is exact: the result of every operation is the reduced fraction whose value
  is that of the operation on rational numbers, or a refusal by a limit.
\<close>

definition rt_value :: "rational \<Rightarrow> rat" where
  "rt_value r = of_int (rt_num r) / of_int (rt_den r)"

definition reduced :: "rational \<Rightarrow> bool" where
  "reduced r \<longleftrightarrow> 0 < rt_den r \<and> coprime (rt_num r) (rt_den r)"

text \<open>
  Operands of at most half the digits of a result: an operation on two of them is never refused.
\<close>

definition half_digits :: nat where
  "half_digits = 4999"

definition half_sized :: "rational \<Rightarrow> bool" where
  "half_sized r \<longleftrightarrow> \<bar>rt_num r\<bar> < 10 ^ half_digits \<and> \<bar>rt_den r\<bar> < 10 ^ half_digits"

text \<open>An outcome is the exact value, or a refusal that operands of half the digits do not meet.\<close>

definition exactly :: "bool \<Rightarrow> math_error + rational \<Rightarrow> rat \<Rightarrow> bool" where
  "exactly fits outcome x \<longleftrightarrow>
     (case outcome of Inr r \<Rightarrow> reduced r \<and> rt_value r = x | Inl e \<Rightarrow> e = ResourceLimit \<and> \<not> fits)"

lemma reduced_unique: "\<lbrakk>reduced r; reduced s; rt_value r = rt_value s\<rbrakk> \<Longrightarrow> r = s"
proof -
  assume r: "reduced r" and s: "reduced s" and v: "rt_value r = rt_value s"
  then have "of_int (rt_num r) * of_int (rt_den s) = (of_int (rt_num s) * of_int (rt_den r) :: rat)"
    by (simp add: rt_value_def reduced_def frac_eq_eq)
  then have e: "rt_num r * rt_den s = rt_num s * rt_den r" by (simp flip: of_int_mult)
  have "rt_den r dvd rt_num r * rt_den s" "rt_den s dvd rt_num s * rt_den r" using e by (metis dvd_triv_right)+
  then have "rt_den r dvd rt_den s" "rt_den s dvd rt_den r"
    using r s by (simp_all add: reduced_def coprime_commute coprime_dvd_mult_right_iff)
  then have d: "rt_den r = rt_den s" using r s by (simp add: reduced_def zdvd_antisym_nonneg)
  then have "rt_num r = rt_num s" using e r by (simp add: reduced_def)
  then show "r = s" using d by simp
qed

lemma rational_of_parts_exact:
  "d \<noteq> 0 \<Longrightarrow> \<exists>r. rational_of_parts n d = Inr r \<and> reduced r \<and> rt_value r = of_int n / of_int d"
proof -
  assume d: "d \<noteq> 0"
  define n' d' where "n' = (if d < 0 then - n else n)" and "d' = (if d < 0 then - d else d)"
  have d': "0 < d'" "(of_int n / of_int d :: rat) = of_int n' / of_int d'" using d by (auto simp: n'_def d'_def)
  have g: "0 < d' div gcd n' d'" using d'(1) by (simp add: pos_imp_zdiv_pos_iff zdvd_imp_le)
  note p = reduced_parts [of d' n']
  have "rational_of_parts n d = Inr \<lparr>rt_num = n' div gcd n' d', rt_den = d' div gcd n' d'\<rparr>"
    using d by (simp add: rational_of_parts_def Let_def sdiv_exact flip: n'_def d'_def)
  then show ?thesis using p d' g by (simp add: reduced_def rt_value_def)
qed

lemma result_digits_Inr: "assert_result_digits v = Inr w \<longleftrightarrow> w = v \<and> \<bar>v\<bar> < DIGIT_LIMIT"
  by (auto simp: assert_result_digits_def)

lemma result_digits_Inl: "assert_result_digits v = Inl e \<Longrightarrow> e = ResourceLimit"
  by (simp add: assert_result_digits_def split: if_splits)

lemma length_dec_digits: "n < 10 ^ k \<Longrightarrow> 0 < k \<Longrightarrow> length (dec_digits n) \<le> k"
proof (induction n arbitrary: k rule: dec_digits.induct)
  case (1 n)
  show ?case
  proof (cases "n < 10")
    case True
    then show ?thesis using 1(3) by (subst dec_digits.simps) simp
  next
    case False
    then obtain j where k: "k = Suc j" "0 < j" using 1(2,3) by (cases k; cases "k - 1") auto
    then have "n div 10 < 10 ^ j" using 1(2) by (simp add: div_less_iff_less_mult mult.commute)
    then show ?thesis using 1(1) [OF False _ k(2)] k False by (subst dec_digits.simps) simp
  qed
qed

lemma digit_count_less: "\<bar>v\<bar> < 10 ^ k \<Longrightarrow> 0 < k \<Longrightarrow> digit_count v \<le> k"
proof -
  assume "\<bar>v\<bar> < 10 ^ k" "0 < k"
  then have "nat \<bar>v\<bar> < 10 ^ k" by (simp add: nat_less_iff)
  then show ?thesis using \<open>0 < k\<close> by (simp add: digit_count_def length_dec_digits)
qed

definition checked :: "bool \<Rightarrow> math_error + int \<Rightarrow> int \<Rightarrow> bool" where
  "checked fits outcome n \<longleftrightarrow> outcome = Inr n \<or> outcome = Inl ResourceLimit \<and> \<not> fits"

lemma checked_Inr [simp]: "checked fits (Inr n) m \<longleftrightarrow> n = m"
  by (simp add: checked_def)

lemma checked_bind: "checked fits x n \<Longrightarrow> checked fits (f n) m \<Longrightarrow> checked fits (rbind x f) m"
  by (auto simp: checked_def)

lemma exactly_bind: "checked fits x n \<Longrightarrow> exactly fits (f n) v \<Longrightarrow> exactly fits (rbind x f) v"
  by (auto simp: checked_def exactly_def)

lemma multiply_checked_checked:
  assumes "fits \<Longrightarrow> \<bar>a\<bar> < 10 ^ half_digits" "fits \<Longrightarrow> \<bar>b\<bar> < 10 ^ half_digits"
  shows "checked fits (multiply_checked a b) (a * b)"
proof (cases fits)
  case True
  have "0 < half_digits" by (simp add: half_digits_def)
  then have "digit_count a \<le> half_digits" "digit_count b \<le> half_digits"
    using digit_count_less [OF assms(1)] digit_count_less [OF assms(2)] True by simp_all
  then show ?thesis
    by (simp add: checked_def multiply_checked_def assert_intermediate_digits_def MAX_INTEGER_DIGITS_def half_digits_def)
next
  case False
  then show ?thesis by (simp add: checked_def multiply_checked_def assert_intermediate_digits_def)
qed

lemma half_product: "\<lbrakk>\<bar>a\<bar> < 10 ^ half_digits; \<bar>b\<bar> < 10 ^ half_digits\<rbrakk> \<Longrightarrow> 10 * \<bar>a * b\<bar> < DIGIT_LIMIT"
proof -
  assume a: "\<bar>a\<bar> < 10 ^ half_digits" and b: "\<bar>b\<bar> < 10 ^ half_digits"
  have "\<bar>a * b\<bar> < 10 ^ half_digits * 10 ^ half_digits" unfolding abs_mult using a b by (intro mult_strict_mono') auto
  then have "10 * \<bar>a * b\<bar> < 10 ^ Suc (half_digits + half_digits)" by (simp add: power_add)
  also have "(10 :: int) ^ Suc (half_digits + half_digits) \<le> DIGIT_LIMIT"
    unfolding DIGIT_LIMIT_def by (intro power_increasing) (simp_all add: half_digits_def MAX_DIGITS_def)
  finally show ?thesis .
qed

lemma new_rational_exactly:
  assumes "checked fits x n" "checked fits y d" "fits \<Longrightarrow> \<bar>n\<bar> < DIGIT_LIMIT" "fits \<Longrightarrow> \<bar>d\<bar> < DIGIT_LIMIT"
    and "0 < d" "coprime n d" "of_int n / of_int d = v"
  shows "exactly fits (new_rational x y) v"
  using assms by (auto simp: checked_def exactly_def new_rational_def assert_result_digits_def reduced_def rt_value_def)

lemma zero_exactly: "exactly fits (Inr rational_zero) 0"
  by (simp add: exactly_def rational_zero_def reduced_def rt_value_def)

lemma rational_from_rational [simp]: "rational_from (FromRational r) = Inr r"
  by (simp add: rational_from_def)

lemma abs_div_le: "\<bar>x div (y :: int)\<bar> \<le> \<bar>x\<bar>" if "y dvd x"
  using that by (cases "y = 0") (auto simp: abs_mult mult_le_cancel_right1 elim!: dvdE)

section \<open>Sums\<close>

lemma coprime_sum_left:
  fixes x y b :: int
  assumes "coprime x b"
  shows "coprime (x + y * b) b"
proof -
  have "gcd b (y * b + x) = gcd b x" by (rule gcd_add_mult)
  then show ?thesis using assms by (simp add: coprime_iff_gcd_eq_1 gcd.commute add.commute)
qed

lemma coprime_sum:
  fixes a b c d :: int
  assumes "coprime a b" "coprime c d" "coprime b d"
  shows "coprime (a * d + c * b) (b * d)"
proof -
  have "coprime (a * d) b" "coprime (c * b) d" using assms by (simp_all add: coprime_commute)
  then have "coprime (a * d + c * b) b" "coprime (c * b + a * d) d" by (simp_all only: coprime_sum_left)
  then show ?thesis by (simp add: add.commute)
qed

text \<open>A sum over a common divisor of the denominators needs only that divisor's share of the numerator.\<close>

lemma common_divisor_sum:
  fixes a b c d :: int
  assumes b: "0 < b" "coprime a b" and d: "0 < d" "coprime c d" and t: "a * (d div gcd b d) + c * (b div gcd b d) \<noteq> 0"
  defines "g \<equiv> gcd b d"
  defines "t \<equiv> a * (d div g) + c * (b div g)"
  defines "h \<equiv> gcd t g"
  shows "0 < b div g * (d div h)" "coprime (t div h) (b div g * (d div h))" "h dvd t" "h dvd d"
    "(of_int (t div h) / of_int (b div g * (d div h)) :: rat) = of_int a / of_int b + of_int c / of_int d"
proof -
  have g: "0 < g" using b(1) by (simp add: g_def)
  have h: "0 < h" using g by (simp add: h_def)
  obtain b' where b': "b = b' * g" by (metis g_def gcd_dvd1 dvdE mult.commute)
  obtain d' where d': "d = d' * g" by (metis g_def gcd_dvd2 dvdE mult.commute)
  obtain g' where g': "g = g' * h" by (metis h_def gcd_dvd2 dvdE mult.commute)
  obtain t' where t': "t = t' * h" by (metis h_def gcd_dvd1 dvdE mult.commute)
  have "coprime (b div g) (d div g)" using b(1) by (simp add: g_def div_gcd_coprime)
  then have bd: "coprime b' d'" using g by (simp add: b' d')
  have "coprime (t div h) (g div h)" using g by (simp add: h_def div_gcd_coprime)
  then have tg: "coprime t' g'" using h by (simp add: t' g')
  have dh: "d div h = d' * g'" using d' g' h by simp
  have te: "t = a * d' + c * b'" using g by (simp add: t_def b' d')
  have "coprime a b'" "coprime c d'" using b(2) d(2) by (simp_all add: b' d')
  then have "coprime t (b' * d')" using coprime_sum bd te by simp
  then have "coprime t' b'" "coprime t' d'" by (simp_all add: t')
  then show "coprime (t div h) (b div g * (d div h))" using tg g h by (simp add: dh b' t')
  have pos: "0 < b'" "0 < d'" using b(1) d(1) g unfolding b' d' by (simp_all add: zero_less_mult_iff)
  moreover have "0 < g'" using g h unfolding g' by (simp add: zero_less_mult_iff)
  ultimately show "0 < b div g * (d div h)" using g by (simp add: dh b')
  show "h dvd t" "h dvd d" by (simp_all add: t' d' g')
  have "(of_int a / of_int b + of_int c / of_int d :: rat) = of_int t / of_int (b' * d' * g)"
    using pos g by (simp add: b' d' te field_simps)
  also have "\<dots> = of_int t' / of_int (b' * (d' * g'))" using h by (simp add: t' g')
  finally show "(of_int (t div h) / of_int (b div g * (d div h)) :: rat) = of_int a / of_int b + of_int c / of_int d"
    using g h by (simp add: dh b' t')
qed

lemma rational_plus_exact:
  assumes left: "reduced this" and right: "reduced that"
  shows "exactly (half_sized this \<and> half_sized that) (rational_plus this (FromRational that)) (rt_value this + rt_value that)"
proof -
  obtain a b where le: "this = \<lparr>rt_num = a, rt_den = b\<rparr>" by (cases this)
  obtain c d where re: "that = \<lparr>rt_num = c, rt_den = d\<rparr>" by (cases that)
  have b: "0 < b" "coprime a b" and d: "0 < d" "coprime c d" using left right by (simp_all add: reduced_def le re)
  define fits where "fits = (half_sized this \<and> half_sized that)"
  have fit: "\<bar>a\<bar> < 10 ^ half_digits" "\<bar>b\<bar> < 10 ^ half_digits" "\<bar>c\<bar> < 10 ^ half_digits" "\<bar>d\<bar> < 10 ^ half_digits" if fits
    using that by (simp_all add: fits_def half_sized_def le re)
  define g where "g = gcd b d"
  show ?thesis
  proof (cases "g = 1")
    case True
    have cop: "coprime b d" using True by (simp add: g_def coprime_iff_gcd_eq_1)
    have v: "(of_int (a * d + c * b) / of_int (b * d) :: rat) = of_int a / of_int b + of_int c / of_int d"
      using b d by (simp add: field_simps)
    have "\<bar>a * d + c * b\<bar> < DIGIT_LIMIT" "\<bar>b * d\<bar> < DIGIT_LIMIT" if fits
      using half_product [OF fit(1,4)] half_product [OF fit(3,2)] half_product [OF fit(2,4)] that by linarith+
    then have "exactly fits (new_rational
        (rbind (multiply_checked a d) (\<lambda>x. rbind (multiply_checked c b) (\<lambda>y. Inr (x + y)))) (multiply_checked b d))
        (of_int a / of_int b + of_int c / of_int d)"
      using b(1) d(1) v coprime_sum [OF b(2) d(2) cop]
      by (intro new_rational_exactly [of _ _ "a * d + c * b" _ "b * d"] checked_bind [OF multiply_checked_checked]
          multiply_checked_checked fit) simp_all
    then show ?thesis using True by (simp add: rational_plus_def le re g_def fits_def rt_value_def)
  next
    case False
    define t h where "t = a * (d div g) + c * (b div g)" and "h = gcd t g"
    have dvd: "g dvd b" "g dvd d" by (simp_all add: g_def)
    then have "(of_int t :: rat) * of_int g = of_int (a * d + c * b)"
      unfolding t_def by (simp add: of_int_mult [symmetric] of_int_add [symmetric] algebra_simps del: of_int_mult of_int_add)
    then have worth: "(of_int a / of_int b + of_int c / of_int d :: rat) = of_int t * of_int g / of_int (b * d)"
      using b d by (simp add: field_simps)
    have small: "\<bar>b div g\<bar> < 10 ^ half_digits" "\<bar>d div g\<bar> < 10 ^ half_digits" if fits
      using abs_div_le [OF dvd(1)] abs_div_le [OF dvd(2)] fit(2,4) that by linarith+
    have code: "rational_plus this (FromRational that) =
        rbind (multiply_checked a (d div g)) (\<lambda>x. rbind (multiply_checked c (b div g)) (\<lambda>y.
          if x + y = 0 then Inr rational_zero
          else new_rational (Inr ((x + y) sdiv gcd (x + y) g)) (multiply_checked (b div g) (d sdiv gcd (x + y) g))))"
      using False dvd unfolding rational_plus_def le re rational_from_rational rbind.simps Let_def big_gcd_gcd rational.simps
        g_def [symmetric] sdiv_exact [OF dvd(1)] sdiv_exact [OF dvd(2)] by simp
    show ?thesis unfolding code fits_def [symmetric]
    proof (intro exactly_bind [OF multiply_checked_checked] fit small)
      show "exactly fits (if a * (d div g) + c * (b div g) = 0 then Inr rational_zero
          else new_rational (Inr ((a * (d div g) + c * (b div g)) sdiv gcd (a * (d div g) + c * (b div g)) g))
            (multiply_checked (b div g) (d sdiv gcd (a * (d div g) + c * (b div g)) g))) (rt_value this + rt_value that)"
      proof (cases "t = 0")
        case True
        then show ?thesis using worth zero_exactly by (simp add: t_def [symmetric] le re rt_value_def)
      next
        case t: False
        note s = common_divisor_sum [OF b d t [unfolded t_def g_def], folded g_def, folded t_def, folded h_def]
        have "\<bar>t div h\<bar> < DIGIT_LIMIT" "\<bar>b div g * (d div h)\<bar> < DIGIT_LIMIT" "\<bar>d div h\<bar> < 10 ^ half_digits" if fits
        proof -
          show dh: "\<bar>d div h\<bar> < 10 ^ half_digits" using abs_div_le [OF s(4)] fit(4) that by linarith
          show "\<bar>b div g * (d div h)\<bar> < DIGIT_LIMIT" using half_product [OF small(1) dh] that by linarith
          have "\<bar>t\<bar> < DIGIT_LIMIT" unfolding t_def
            using half_product [OF fit(1) small(2)] half_product [OF fit(3) small(1)] that by linarith
          then show "\<bar>t div h\<bar> < DIGIT_LIMIT" using abs_div_le [OF s(3)] by linarith
        qed
        then have "exactly fits (new_rational (Inr (t div h)) (multiply_checked (b div g) (d div h))) (rt_value this + rt_value that)"
          using s by (intro new_rational_exactly [OF _ multiply_checked_checked] small) (simp_all add: le re rt_value_def)
        then show ?thesis using t s(3,4) by (simp add: t_def [symmetric] h_def [symmetric] sdiv_exact)
      qed
    qed
  qed
qed

section \<open>Differences, products, quotients\<close>

lemma negated_reduced: "reduced (rational_negated r) = reduced r"
  by (simp add: reduced_def rational_negated_def)

lemma negated_value: "rt_value (rational_negated r) = - rt_value r"
  by (simp add: rt_value_def rational_negated_def)

lemma rational_minus_exact:
  assumes "reduced this" "reduced that"
  shows "exactly (half_sized this \<and> half_sized that) (rational_minus this (FromRational that)) (rt_value this - rt_value that)"
proof -
  have "half_sized (rational_negated that) = half_sized that" by (simp add: half_sized_def rational_negated_def)
  then show ?thesis
    using rational_plus_exact [of this "rational_negated that"] assms
    by (simp add: negated_reduced negated_value rational_minus_def)
qed

text \<open>Crosswise cancelling leaves the product of two reduced fractions reduced.\<close>

lemma cross_product:
  fixes a b c d :: int
  assumes "coprime a b" "coprime c d" "b \<noteq> 0" "d \<noteq> 0"
  shows "coprime (a div gcd a d * (c div gcd c b)) (b div gcd c b * (d div gcd a d))"
    and "(of_int (a div gcd a d * (c div gcd c b)) / of_int (b div gcd c b * (d div gcd a d)) :: rat) =
      of_int a / of_int b * (of_int c / of_int d)"
proof -
  define g h where "g = gcd a d" and "h = gcd c b"
  have pos: "g \<noteq> 0" "h \<noteq> 0" using assms(3,4) by (simp_all add: g_def h_def)
  obtain a' d' where g: "a = a' * g" "d = d' * g" by (metis g_def gcd_dvd1 gcd_dvd2 dvdE mult.commute)
  obtain c' b' where h: "c = c' * h" "b = b' * h" by (metis h_def gcd_dvd1 gcd_dvd2 dvdE mult.commute)
  have "coprime (a div g) (d div g)" "coprime (c div h) (b div h)"
    using assms(3,4) by (simp_all add: g_def h_def div_gcd_coprime)
  then have cop: "coprime a' d'" "coprime c' b'" using g h pos by simp_all
  have more: "coprime a' b'" "coprime c' d'" using assms(1,2) by (simp_all add: g h)
  have divs: "a div g = a'" "d div g = d'" "c div h = c'" "b div h = b'" using pos by (simp_all add: g h)
  show "coprime (a div gcd a d * (c div gcd c b)) (b div gcd c b * (d div gcd a d))"
    unfolding g_def [symmetric] h_def [symmetric] divs using cop more by simp
  have "b' \<noteq> 0" "d' \<noteq> 0" using assms(3,4) g h by auto
  then show "(of_int (a div gcd a d * (c div gcd c b)) / of_int (b div gcd c b * (d div gcd a d)) :: rat) =
      of_int a / of_int b * (of_int c / of_int d)"
    unfolding g_def [symmetric] h_def [symmetric] divs unfolding g h using pos by (simp add: field_simps)
qed

lemma rational_times_exact:
  assumes left: "reduced this" and right: "reduced that"
  shows "exactly (half_sized this \<and> half_sized that) (rational_times this (FromRational that)) (rt_value this * rt_value that)"
proof -
  obtain a b where le: "this = \<lparr>rt_num = a, rt_den = b\<rparr>" by (cases this)
  obtain c d where re: "that = \<lparr>rt_num = c, rt_den = d\<rparr>" by (cases that)
  have b: "0 < b" "coprime a b" and d: "0 < d" "coprime c d" using left right by (simp_all add: reduced_def le re)
  define fits where "fits = (half_sized this \<and> half_sized that)"
  have fit: "\<bar>a\<bar> < 10 ^ half_digits" "\<bar>b\<bar> < 10 ^ half_digits" "\<bar>c\<bar> < 10 ^ half_digits" "\<bar>d\<bar> < 10 ^ half_digits" if fits
    using that by (simp_all add: fits_def half_sized_def le re)
  show ?thesis
  proof (cases "a = 0 \<or> c = 0")
    case True
    then show ?thesis using zero_exactly by (auto simp: rational_times_def le re rt_value_def)
  next
    case False
    define a' b' c' d' where "a' = a div gcd a d" and "b' = b div gcd c b" and "c' = c div gcd c b" and "d' = d div gcd a d"
    note defs = a'_def [symmetric] b'_def [symmetric] c'_def [symmetric] d'_def [symmetric]
    have small: "\<bar>a'\<bar> < 10 ^ half_digits" "\<bar>b'\<bar> < 10 ^ half_digits" "\<bar>c'\<bar> < 10 ^ half_digits" "\<bar>d'\<bar> < 10 ^ half_digits" if fits
      using fit [OF that] abs_div_le [of "gcd a d" a] abs_div_le [of "gcd c b" b] abs_div_le [of "gcd c b" c]
        abs_div_le [of "gcd a d" d] unfolding defs by simp_all
    have "\<bar>a' * c'\<bar> < DIGIT_LIMIT" "\<bar>b' * d'\<bar> < DIGIT_LIMIT" if fits
      using half_product [OF small(1,3)] half_product [OF small(2,4)] that by linarith+
    moreover have "0 < b' * d'" using b d by (simp add: b'_def d'_def pos_imp_zdiv_pos_iff zdvd_imp_le)
    ultimately have "exactly fits (new_rational (multiply_checked a' c') (multiply_checked b' d')) (rt_value this * rt_value that)"
      using cross_product [OF b(2) d(2), unfolded defs] b(1) d(1) small
      by (intro new_rational_exactly [OF multiply_checked_checked multiply_checked_checked]) (simp_all add: le re rt_value_def)
    then show ?thesis using False unfolding fits_def [symmetric]
      by (simp add: rational_times_def le re Let_def sdiv_exact defs)
  qed
qed

lemma rational_divided_exact:
  assumes left: "reduced this" and right: "reduced that" and nonzero: "rt_num that \<noteq> 0"
  shows "exactly (half_sized this \<and> half_sized that) (rational_divided_by this (FromRational that)) (rt_value this / rt_value that)"
proof -
  obtain a b where le: "this = \<lparr>rt_num = a, rt_den = b\<rparr>" by (cases this)
  obtain c d where re: "that = \<lparr>rt_num = c, rt_den = d\<rparr>" by (cases that)
  have b: "0 < b" "coprime a b" and d: "0 < d" "coprime d c" and c: "c \<noteq> 0"
    using left right nonzero by (simp_all add: reduced_def le re coprime_commute)
  define fits where "fits = (half_sized this \<and> half_sized that)"
  have fit: "\<bar>a\<bar> < 10 ^ half_digits" "\<bar>b\<bar> < 10 ^ half_digits" "\<bar>c\<bar> < 10 ^ half_digits" "\<bar>d\<bar> < 10 ^ half_digits" if fits
    using that by (simp_all add: fits_def half_sized_def le re)
  show ?thesis
  proof (cases "a = 0")
    case True
    then show ?thesis using zero_exactly c by (simp add: rational_divided_by_def le re rt_value_def)
  next
    case False
    define a' b' c' d' where "a' = a div gcd a c" and "b' = b div gcd d b" and "c' = c div gcd a c" and "d' = d div gcd d b"
    note defs = a'_def [symmetric] b'_def [symmetric] c'_def [symmetric] d'_def [symmetric]
    define flip where "flip = (if b' * c' < 0 then -1 else 1 :: int)"
    have small: "\<bar>a'\<bar> < 10 ^ half_digits" "\<bar>b'\<bar> < 10 ^ half_digits" "\<bar>c'\<bar> < 10 ^ half_digits" "\<bar>d'\<bar> < 10 ^ half_digits" if fits
      using fit [OF that] abs_div_le [of "gcd a c" a] abs_div_le [of "gcd d b" b] abs_div_le [of "gcd a c" c]
        abs_div_le [of "gcd d b" d] unfolding defs by simp_all
    have "\<bar>a' * d'\<bar> < DIGIT_LIMIT" "\<bar>b' * c'\<bar> < DIGIT_LIMIT" if fits
      using half_product [OF small(1,4)] half_product [OF small(2,3)] that by linarith+
    moreover have "b' * c' \<noteq> 0" using b c by (simp add: b'_def c'_def dvd_div_eq_0_iff)
    then have "b' * c' < 0 \<or> 0 < b' * c'" by linarith
    moreover note cross_product [OF b(2) d(2) _ c, unfolded defs]
    ultimately have "exactly fits (new_rational (Inr (flip * (a' * d'))) (Inr (flip * (b' * c')))) (rt_value this / rt_value that)"
      using b(1) by (intro new_rational_exactly [of fits _ "flip * (a' * d')" _ "flip * (b' * c')"])
        (auto simp: le re rt_value_def flip_def)
    then have "exactly fits (rbind (multiply_checked a' d') (\<lambda>numerator. rbind (multiply_checked b' c') (\<lambda>denominator.
        let flip = (if denominator < 0 then -1 else 1) in new_rational (Inr (flip * numerator)) (Inr (flip * denominator)))))
        (rt_value this / rt_value that)"
      by (intro exactly_bind [OF multiply_checked_checked] small) (simp_all only: flip_def Let_def)
    then show ?thesis using False c unfolding fits_def [symmetric]
      by (simp add: rational_divided_by_def le re sdiv_exact defs gcd.commute [of b d])
  qed
qed

section \<open>Order, inverses and powers\<close>

lemma rational_compare_exact:
  assumes "reduced this" "reduced that"
  shows "checked (half_sized this \<and> half_sized that) (rational_compare_to this (FromRational that))
    (if rt_value this < rt_value that then -1 else if rt_value that < rt_value this then 1 else 0)"
proof -
  have cross: "rt_value r < rt_value s \<longleftrightarrow> rt_num r * rt_den s < rt_num s * rt_den r" if "reduced r" "reduced s" for r s
  proof -
    have "rt_value r < rt_value s \<longleftrightarrow> of_int (rt_num r) * of_int (rt_den s) < (of_int (rt_num s) * of_int (rt_den r) :: rat)"
      using that by (simp add: rt_value_def reduced_def divide_less_eq less_divide_eq field_simps)
    then show ?thesis by (simp only: of_int_mult [symmetric] of_int_less_iff)
  qed
  show ?thesis unfolding rational_compare_to_def rational_from_rational rbind.simps
    by (intro checked_bind [OF multiply_checked_checked]) (simp_all add: half_sized_def cross assms)
qed

lemma rational_inverse_exact:
  assumes "reduced this"
  shows "case rational_inverse this of
      Inr r \<Rightarrow> reduced r \<and> rt_value r = 1 / rt_value this | Inl e \<Rightarrow> e = DivisionByZero \<and> rt_value this = 0"
  using assms rational_of_parts_exact [of "rt_num this" "rt_den this"]
  by (auto simp: rational_inverse_def rt_value_def)

lemma power_within_limit_power:
  assumes "0 < e"
  shows "power_within_limit estimate v e = Inr w \<Longrightarrow> w = v ^ e"
    and "power_within_limit estimate v e = Inl x \<Longrightarrow> x = ResourceLimit \<and> 1 < \<bar>v\<bar> \<and> (estimate \<bar>v\<bar> e \<or> DIGIT_LIMIT \<le> \<bar>v ^ e\<bar>)"
proof -
  have "v = -1 \<or> v = 0 \<or> v = 1" if "\<bar>v\<bar> \<le> 1" using that by auto
  then show "power_within_limit estimate v e = Inr w \<Longrightarrow> w = v ^ e"
    using assms by (auto simp: power_within_limit_def Let_def assert_result_digits_def odd_iff_mod_2_eq_one
      simp flip: even_iff_mod_2_eq_zero split: if_splits)
  show "power_within_limit estimate v e = Inl x \<Longrightarrow> x = ResourceLimit \<and> 1 < \<bar>v\<bar> \<and> (estimate \<bar>v\<bar> e \<or> DIGIT_LIMIT \<le> \<bar>v ^ e\<bar>)"
    by (auto simp: power_within_limit_def Let_def assert_result_digits_def split: if_splits)
qed

text \<open>A power keeps the fraction reduced; it is refused by the limits, for an unsafe exponent or for the inverse of zero.\<close>

lemma rational_pow_positive_exact:
  assumes "reduced this" "0 < e"
  shows "exactly False (rational_pow_positive estimate this e) (rt_value this ^ e)"
proof (cases "rational_pow_positive estimate this e")
  case (Inl x)
  then show ?thesis
    using power_within_limit_power(2) [OF assms(2)] by (auto simp: rational_pow_positive_def rbind_Inl_iff exactly_def)
next
  case (Inr r)
  then have "r = \<lparr>rt_num = rt_num this ^ e, rt_den = rt_den this ^ e\<rparr>"
    using power_within_limit_power(1) [OF assms(2)] by (auto simp: rational_pow_positive_def rbind_Inr_iff)
  then show ?thesis using Inr assms(1) by (simp add: exactly_def reduced_def rt_value_def power_divide)
qed

lemma rational_pow_exact:
  assumes "reduced this"
  shows "case rational_pow estimate this e of
      Inr r \<Rightarrow> is_safe e \<and> reduced r \<and> rt_value r = rt_value this powi e
    | Inl x \<Rightarrow> x = (if \<not> is_safe e then BadMathArgument
                 else if e < 0 \<and> rt_value this = 0 then DivisionByZero else ResourceLimit)"
proof (cases "is_safe e")
  case False
  then show ?thesis by (simp add: rational_pow_def assert_safe_exponent_def)
next
  case safe: True
  note pos = rational_pow_positive_exact [unfolded exactly_def]
  show ?thesis
  proof (cases e "0 :: int" rule: linorder_cases)
    case equal
    then show ?thesis using safe rational_of_parts_exact [of 1 1] by (auto simp: rational_pow_def assert_safe_exponent_def)
  next
    case greater
    then show ?thesis using safe pos [OF assms, of "nat e" estimate]
      by (auto simp: rational_pow_def assert_safe_exponent_def power_int_def split: sum.splits)
  next
    case less
    show ?thesis
    proof (cases "rational_inverse this")
      case (Inl x)
      then show ?thesis using rational_inverse_exact [OF assms] safe less
        by (simp add: rational_pow_def assert_safe_exponent_def)
    next
      case (Inr r)
      then have r: "reduced r" "rt_value r = 1 / rt_value this" using rational_inverse_exact [OF assms] by simp_all
      have "rt_value this \<noteq> 0" using Inr assms by (auto simp: rational_inverse_def rt_value_def reduced_def split: if_splits)
      then show ?thesis using r safe less Inr pos [OF r(1), of "nat (- e)" estimate]
        by (auto simp: rational_pow_def assert_safe_exponent_def power_int_def power_divide inverse_eq_divide split: sum.splits)
    qed
  qed
qed

end
