(* ===== verification/MathClosest.thy ===== *)
theory MathClosest
  imports MathArith
begin

text \<open>
  The fraction of \<open>approximate\<close> is the closest one with a denominator up to the limit: the loop over
  the continued fraction ends at two neighbours, fractions of determinant one on both sides of the
  number, between which every fraction has a larger denominator.
\<close>

section \<open>The loop\<close>

text \<open>
  The number \<open>N / D\<close> is the mediant \<open>(p1 n + p0 d) / (q1 n + q0 d)\<close> of the last two convergents,
  weighed by what the expansion has left.
\<close>

definition expansion :: "int \<Rightarrow> int \<Rightarrow> int \<Rightarrow> int \<times> int \<times> int \<times> int \<Rightarrow> int \<Rightarrow> int \<Rightarrow> bool" where
  "expansion limit N D = (\<lambda>(p0, q0, p1, q1) n d.
     N = p1 * n + p0 * d \<and> D = q1 * n + q0 * d \<and> \<bar>p1 * q0 - p0 * q1\<bar> = 1 \<and>
     0 \<le> q0 \<and> q0 \<le> limit \<and> 1 \<le> q1 \<and> q1 \<le> limit \<and> 0 \<le> d \<and> d < n)"

lemma expansion_open:
  assumes "expansion limit N D (p0, q0, p1, q1) n d" "coprime N D" "limit < D"
  shows "0 < d"
proof (rule ccontr)
  assume "\<not> 0 < d"
  then have d: "d = 0" and e: "N = p1 * n" "D = q1 * n" "0 < n" "q1 \<le> limit" using assms(1) by (auto simp: expansion_def)
  then have "is_unit n" using assms(2) by (metis coprime_common_divisor dvd_triv_right)
  then show False using e assms(3) by simp
qed

lemma expansion_step:
  assumes "expansion limit N D (p0, q0, p1, q1) n d" "0 < d" "q0 + n div d * q1 \<le> limit"
  shows "expansion limit N D (p1, q1, p0 + n div d * p1, q0 + n div d * q1) d (n mod d)"
proof -
  define a r where "a = n div d" and "r = n mod d"
  have n: "n = a * d + r" by (simp add: a_def r_def)
  have r: "0 \<le> r" "r < d" using assms(2) by (simp_all add: r_def)
  have "0 \<le> a" using assms(1,2) by (simp add: a_def expansion_def pos_imp_zdiv_nonneg_iff)
  moreover have "1 \<le> a" using assms(1,2) by (simp add: a_def expansion_def int_one_le_iff_zero_less pos_imp_zdiv_pos_iff)
  then have "1 * 1 \<le> a * q1" using assms(1) by (intro mult_mono) (simp_all add: expansion_def)
  moreover have "(p0 + a * p1) * q1 - p1 * (q0 + a * q1) = - (p1 * q0 - p0 * q1)" by algebra
  then have "\<bar>(p0 + a * p1) * q1 - p1 * (q0 + a * q1)\<bar> = 1" using assms(1) by (simp add: expansion_def abs_minus_commute)
  ultimately show ?thesis using assms r unfolding a_def [symmetric] r_def [symmetric]
    by (simp add: expansion_def n algebra_simps)
qed

lemma convergents_end:
  "\<lbrakk>expansion limit N D s n d; coprime N D; limit < D\<rbrakk> \<Longrightarrow>
    \<exists>p0 q0 p1 q1 n' d'. convergents limit s n d = Some (p0, q0, p1, q1) \<and>
      expansion limit N D (p0, q0, p1, q1) n' d' \<and> 0 < d' \<and> limit < q0 + n' div d' * q1"
proof (induction limit s n d rule: convergents.induct)
  case (1 limit p0 q0 p1 q1 n d)
  have d: "0 < d" using expansion_open 1(2-4) by blast
  show ?case
  proof (cases "limit < q0 + n div d * q1")
    case True
    then show ?thesis using 1(2) d by (subst convergents.simps) auto
  next
    case False
    have step: "expansion limit N D (p1, q1, p0 + n div d * p1, q0 + n div d * q1) d (n - n div d * d)"
      using expansion_step [OF 1(2) d] False by (simp add: minus_div_mult_eq_mod)
    have "convergents limit (p0, q0, p1, q1) n d =
        convergents limit (p1, q1, p0 + n div d * p1, q0 + n div d * q1) d (n - n div d * d)"
      using d False by (subst convergents.simps) (simp add: Let_def)
    then show ?thesis using 1(1) [OF _ refl refl] 1(3,4) step d False by simp
  qed
qed

section \<open>Neighbours\<close>

text \<open>
  \<open>pf / qf\<close> and \<open>ps / qs\<close> are neighbours around \<open>N / D\<close>: \<open>A\<close> and \<open>B\<close> are its distances to them, up to
  the denominators.
\<close>

definition neighbours :: "int \<Rightarrow> int \<Rightarrow> int \<Rightarrow> int \<Rightarrow> int \<Rightarrow> int \<Rightarrow> int \<Rightarrow> int \<Rightarrow> int \<Rightarrow> int \<Rightarrow> bool" where
  "neighbours limit N D pf qf ps qs e A B \<longleftrightarrow>
     (e = 1 \<or> e = -1) \<and> ps * qf - pf * qs = e \<and> 0 < qf \<and> qf \<le> limit \<and> 0 < qs \<and> qs \<le> limit \<and> limit < qf + qs \<and> 0 < D \<and>
     N * qf - D * pf = e * A \<and> 0 < A \<and> N * qs - D * ps = - (e * B) \<and> 0 < B"

lemma neighboursD:
  assumes "neighbours limit N D pf qf ps qs e A B"
  shows "e = 1 \<or> e = -1" "ps * qf - pf * qs = e" "0 < qf" "qf \<le> limit" "0 < qs" "qs \<le> limit" "limit < qf + qs" "0 < D"
    "N * qf - D * pf = e * A" "0 < A" "N * qs - D * ps = - (e * B)" "0 < B"
  using assms by (simp_all add: neighbours_def)

lemma distance_first:
  assumes near: "neighbours limit N D pf qf ps qs e A B"
  shows "\<bar>of_int pf / of_int qf - of_int N / of_int D\<bar> = (of_int A / of_int (D * qf) :: rat)"
proof -
  note e = neighboursD(1) [OF near] and det = neighboursD(2) [OF near] and qf = neighboursD(3,4) [OF near]
    and qs = neighboursD(5,6) [OF near] and past = neighboursD(7) [OF near] and D = neighboursD(8) [OF near]
    and A = neighboursD(9,10) [OF near] and B = neighboursD(11,12) [OF near]
  have "(of_int pf / of_int qf - of_int N / of_int D :: rat) = - of_int (N * qf - D * pf) / of_int (D * qf)"
    using D qf by (simp add: field_simps)
  then show ?thesis using e A D qf by (auto simp: abs_mult abs_divide simp del: of_int_mult of_int_diff)
qed

lemma distance_second:
  assumes near: "neighbours limit N D pf qf ps qs e A B"
  shows "\<bar>of_int ps / of_int qs - of_int N / of_int D\<bar> = (of_int B / of_int (D * qs) :: rat)"
proof -
  note e = neighboursD(1) [OF near] and det = neighboursD(2) [OF near] and qf = neighboursD(3,4) [OF near]
    and qs = neighboursD(5,6) [OF near] and past = neighboursD(7) [OF near] and D = neighboursD(8) [OF near]
    and A = neighboursD(9,10) [OF near] and B = neighboursD(11,12) [OF near]
  have "(of_int ps / of_int qs - of_int N / of_int D :: rat) = - of_int (N * qs - D * ps) / of_int (D * qs)"
    using D qs by (simp add: field_simps)
  then show ?thesis using e B D qs by (auto simp: abs_mult abs_divide simp del: of_int_mult of_int_diff)
qed

text \<open>Every fraction is a whole combination of the neighbours.\<close>

lemma combination:
  fixes p q :: int
  assumes near: "neighbours limit N D pf qf ps qs e A B"
  obtains s t where "p = s * pf + t * ps" "q = s * qf + t * qs"
proof
  note e = neighboursD(1) [OF near] and det = neighboursD(2) [OF near] and qf = neighboursD(3,4) [OF near]
    and qs = neighboursD(5,6) [OF near] and past = neighboursD(7) [OF near] and D = neighboursD(8) [OF near]
    and A = neighboursD(9,10) [OF near] and B = neighboursD(11,12) [OF near]
  define s t where "s = e * (ps * q - p * qs)" and "t = e * (p * qf - pf * q)"
  have ee: "e * e = 1" using e by auto
  have "s * pf + t * ps = e * (p * (ps * qf - pf * qs))" "s * qf + t * qs = e * (q * (ps * qf - pf * qs))"
    unfolding s_def t_def by algebra+
  then show "p = s * pf + t * ps" "q = s * qf + t * qs" unfolding det using ee
    by (simp_all add: mult.left_commute mult.assoc [symmetric])
qed

lemma distance_any:
  assumes near: "neighbours limit N D pf qf ps qs e A B" and q: "0 < q" "q \<le> limit"
  shows "of_int A / of_int (D * qf) \<le> \<bar>of_int p / of_int q - of_int N / of_int D :: rat\<bar> \<or>
    of_int B / of_int (D * qs) \<le> \<bar>of_int p / of_int q - of_int N / of_int D :: rat\<bar>"
proof -
  note e = neighboursD(1) [OF near] and det = neighboursD(2) [OF near] and qf = neighboursD(3,4) [OF near]
    and qs = neighboursD(5,6) [OF near] and past = neighboursD(7) [OF near] and D = neighboursD(8) [OF near]
    and A = neighboursD(9,10) [OF near] and B = neighboursD(11,12) [OF near]
  obtain s t where pq: "p = s * pf + t * ps" "q = s * qf + t * qs" by (rule combination [OF near])
  define w where "w = s * A - t * B"
  have "N * q - D * p = s * (N * qf - D * pf) + t * (N * qs - D * ps)" unfolding pq by algebra
  then have "N * q - D * p = e * w" unfolding A(1) B(1) w_def by (simp add: algebra_simps)
  moreover have "(of_int p / of_int q - of_int N / of_int D :: rat) = - of_int (N * q - D * p) / of_int (D * q)"
    using D q by (simp add: field_simps)
  ultimately have far: "\<bar>of_int p / of_int q - of_int N / of_int D\<bar> = (of_int \<bar>w\<bar> / of_int (D * q) :: rat)"
    using e D q by (auto simp: abs_mult abs_divide simp del: of_int_mult of_int_diff)
  have le: "of_int x / of_int (D * y) \<le> (of_int \<bar>w\<bar> / of_int (D * q) :: rat)" if "x * q \<le> \<bar>w\<bar> * y" "0 < y" for x y
  proof -
    have "(of_int (x * q) :: rat) \<le> of_int (\<bar>w\<bar> * y)" using that(1) by (simp only: of_int_le_iff)
    then show ?thesis using that(2) D q by (simp add: divide_le_eq le_divide_eq field_simps)
  qed
  consider (first) "1 \<le> s" "t \<le> 0" | (second) "1 \<le> t" "s \<le> 0"
  proof -
    have "\<not> (1 \<le> s \<and> 1 \<le> t)"
    proof
      assume "1 \<le> s \<and> 1 \<le> t"
      then have "1 * qf \<le> s * qf" "1 * qs \<le> t * qs" using qf qs by (intro mult_right_mono; simp)+
      then show False using pq(2) q(2) past by simp
    qed
    moreover have "\<not> (s \<le> 0 \<and> t \<le> 0)"
    proof
      assume "s \<le> 0 \<and> t \<le> 0"
      then have "s * qf \<le> 0" "t * qs \<le> 0" using qf qs by (simp_all add: mult_nonpos_nonneg)
      then show False using pq(2) q(1) by simp
    qed
    ultimately show thesis using that by linarith
  qed
  then show ?thesis
  proof cases
    case first
    have "t * (A * qs) \<le> 0" "t * (B * qf) \<le> 0" using first A B qf qs by (simp_all add: mult_nonpos_nonneg)
    moreover have "0 \<le> s * A" "t * B \<le> 0" using first A B by (simp_all add: mult_nonpos_nonneg)
    then have "\<bar>w\<bar> = w" by (simp add: w_def)
    ultimately have "A * q \<le> \<bar>w\<bar> * qf" by (simp add: w_def pq(2) algebra_simps)
    then show ?thesis using le qf far by simp
  next
    case second
    have "s * (B * qf) \<le> 0" "s * (A * qs) \<le> 0" using second A B qf qs by (simp_all add: mult_nonpos_nonneg)
    moreover have "s * A \<le> 0" "0 \<le> t * B" using second A B by (simp_all add: mult_nonpos_nonneg)
    then have "\<bar>w\<bar> = - w" by (simp add: w_def)
    ultimately have "B * q \<le> \<bar>w\<bar> * qs" by (simp add: w_def pq(2) algebra_simps)
    then show ?thesis using le qs far by simp
  qed
qed

lemma neighbours_coprime:
  assumes near: "neighbours limit N D pf qf ps qs e A B"
  shows "coprime pf qf" "coprime ps qs"
proof -
  note e = neighboursD(1) [OF near] and det = neighboursD(2) [OF near] and qf = neighboursD(3,4) [OF near]
    and qs = neighboursD(5,6) [OF near] and past = neighboursD(7) [OF near] and D = neighboursD(8) [OF near]
    and A = neighboursD(9,10) [OF near] and B = neighboursD(11,12) [OF near]
  have u: "is_unit e" using e by auto
  show "coprime pf qf" by (rule coprimeI) (metis det dvd_diff dvd_mult dvd_mult2 dvd_trans u)
  show "coprime ps qs" by (rule coprimeI) (metis det dvd_diff dvd_mult dvd_mult2 dvd_trans u)
qed

text \<open>The loop ends at neighbours.\<close>

lemma expansion_neighbours:
  assumes x: "expansion limit N D (p0, q0, p1, q1) n d" and d: "0 < d" and stop: "limit < q0 + n div d * q1"
    and D: "0 < D"
  defines "k \<equiv> (limit - q0) div q1"
  shows "neighbours limit N D (p0 + k * p1) (q0 + k * q1) p1 q1 (p1 * q0 - p0 * q1) (n - k * d) d" "n - k * d \<le> D" "d \<le> D"
proof -
  have i: "N = p1 * n + p0 * d" "D = q1 * n + q0 * d" "\<bar>p1 * q0 - p0 * q1\<bar> = 1" "0 \<le> q0" "q0 \<le> limit" "1 \<le> q1" "q1 \<le> limit"
    "d < n" using x by (simp_all add: expansion_def)
  have split: "limit - q0 = k * q1 + (limit - q0) mod q1" by (simp add: k_def)
  have rest: "0 \<le> (limit - q0) mod q1" "(limit - q0) mod q1 < q1" using i by simp_all
  have k: "0 \<le> k" using i by (simp add: k_def pos_imp_zdiv_nonneg_iff)
  have "k * q1 < n div d * q1" using split rest stop by linarith
  then have "k + 1 \<le> n div d" using i by (simp add: mult_less_cancel_right)
  then have "(k + 1) * d \<le> n div d * d" using d by (intro mult_right_mono) simp_all
  also have "\<dots> \<le> n" using d by (simp add: minus_mod_eq_div_mult [symmetric])
  finally have far: "d \<le> n - k * d" by (simp add: algebra_simps)
  have det: "p1 * (q0 + k * q1) - (p0 + k * p1) * q1 = p1 * q0 - p0 * q1" by algebra
  have A: "N * (q0 + k * q1) - D * (p0 + k * p1) = (p1 * q0 - p0 * q1) * (n - k * d)"
    and B: "N * q1 - D * p1 = - ((p1 * q0 - p0 * q1) * d)" unfolding i(1,2) by algebra+
  have "0 < q0 + k * q1" using split rest i by linarith
  moreover have "q0 + k * q1 \<le> limit" "limit < q0 + k * q1 + q1" using split rest by linarith+
  moreover have "p1 * q0 - p0 * q1 = 1 \<or> p1 * q0 - p0 * q1 = -1" using i(3) by linarith
  ultimately show "neighbours limit N D (p0 + k * p1) (q0 + k * q1) p1 q1 (p1 * q0 - p0 * q1) (n - k * d) d"
    using det A B i far d D unfolding neighbours_def by simp
  have "1 * n \<le> q1 * n" using i d by (intro mult_right_mono) simp_all
  moreover have "0 \<le> q0 * d" "0 \<le> k * d" using i d k by simp_all
  ultimately show "n - k * d \<le> D" "d \<le> D" using i(2,8) by linarith+
qed

lemma expansion_start:
  assumes "0 < D" "1 \<le> limit"
  shows "expansion limit N D (1, 0, N div D, 1) D (N mod D)"
    and "convergents limit (0, 1, 1, 0) N D = convergents limit (1, 0, N div D, 1) D (N mod D)"
proof -
  show "expansion limit N D (1, 0, N div D, 1) D (N mod D)" using assms by (simp add: expansion_def)
  show "convergents limit (0, 1, 1, 0) N D = convergents limit (1, 0, N div D, 1) D (N mod D)"
    using assms by (subst convergents.simps) (simp add: Let_def minus_div_mult_eq_mod)
qed

section \<open>The choice between the neighbours\<close>

lemma reduced_bounds:
  assumes "reduced r" "rt_value r = of_int x / of_int y" "0 < y"
  shows "\<bar>rt_num r\<bar> \<le> \<bar>x\<bar>" "rt_den r \<le> y"
proof -
  have "of_int (rt_num r) * of_int y = (of_int x * of_int (rt_den r) :: rat)"
    using assms by (simp add: rt_value_def reduced_def frac_eq_eq)
  then have e: "rt_num r * y = x * rt_den r" by (simp only: of_int_mult [symmetric] of_int_eq_iff)
  then have "rt_den r dvd rt_num r * y" by simp
  then have "rt_den r dvd y" using assms(1) by (simp add: reduced_def coprime_commute coprime_dvd_mult_right_iff)
  then obtain k where k: "y = rt_den r * k" by blast
  have "0 < rt_den r" using assms(1) by (simp add: reduced_def)
  then have "x = rt_num r * k" "0 < k" using e k assms(3) by (simp_all add: zero_less_mult_iff)
  then show "\<bar>rt_num r\<bar> \<le> \<bar>x\<bar>" "rt_den r \<le> y" using k \<open>0 < rt_den r\<close> by (simp_all add: abs_mult mult_le_cancel_left1)
qed

lemma reduced_parts_exact:
  assumes "0 < d" "coprime n d"
  shows "rational_of_parts n d = Inr \<lparr>rt_num = n, rt_den = d\<rparr>"
  using assms by (simp add: rational_of_parts_def Let_def coprime_iff_gcd_eq_1)

lemma rational_abs_exact:
  assumes "reduced r"
  shows "reduced (rational_abs r)" "rt_value (rational_abs r) = \<bar>rt_value r\<bar>" "half_sized (rational_abs r) = half_sized r"
  using assms by (auto simp: rational_abs_def reduced_def rational_negated_def rt_value_def half_sized_def abs_if divide_less_0_iff)

text \<open>The tail of \<open>approximate\<close>: of two fractions the one closer to \<open>this\<close>, the second one when they are as close.\<close>

definition closer :: "rational \<Rightarrow> rational \<Rightarrow> rational \<Rightarrow> math_error + rational" where
  "closer first second this =
     rbind (rational_minus second (FromRational this)) (\<lambda>e2.
     rbind (rational_minus first (FromRational this)) (\<lambda>e1.
     rbind (rational_compare_to (rational_abs e2) (FromRational (rational_abs e1))) (\<lambda>c.
       Inr (if c \<le> 0 then second else first))))"

text \<open>What the two comparisons need so that no digit limit is met.\<close>

definition within_half :: "rational \<Rightarrow> rational \<Rightarrow> rational \<Rightarrow> bool" where
  "within_half first second this \<longleftrightarrow> half_sized first \<and> half_sized second \<and> half_sized this \<and>
     (\<forall>r. reduced r \<and> (rt_value r = rt_value first - rt_value this \<or> rt_value r = rt_value second - rt_value this) \<longrightarrow> half_sized r)"

lemma closer_choice:
  fixes first second this :: rational
  assumes red: "reduced first" "reduced second" "reduced this"
  shows "case closer first second this of
      Inr r \<Rightarrow> r = (if \<bar>rt_value second - rt_value this\<bar> \<le> \<bar>rt_value first - rt_value this\<bar> then second else first)
    | Inl x \<Rightarrow> x = ResourceLimit \<and> \<not> within_half first second this"
proof (cases "rational_minus second (FromRational this)")
  case (Inl x)
  then show ?thesis using rational_minus_exact [OF red(2,3)] by (auto simp: exactly_def within_half_def closer_def)
next
  case e2: (Inr e2)
  then have 2: "reduced e2" "rt_value e2 = rt_value second - rt_value this"
    using rational_minus_exact [OF red(2,3)] by (simp_all add: exactly_def)
  show ?thesis
  proof (cases "rational_minus first (FromRational this)")
    case (Inl x)
    then show ?thesis using e2 rational_minus_exact [OF red(1,3)] by (auto simp: exactly_def within_half_def closer_def)
  next
    case e1: (Inr e1)
    then have 1: "reduced e1" "rt_value e1 = rt_value first - rt_value this"
      using rational_minus_exact [OF red(1,3)] by (simp_all add: exactly_def)
    note c = rational_compare_exact [OF rational_abs_exact(1) [OF 2(1)] rational_abs_exact(1) [OF 1(1)],
        unfolded rational_abs_exact(2,3) [OF 2(1)] rational_abs_exact(2,3) [OF 1(1)] 1(2) 2(2)]
    show ?thesis
    proof (cases "rational_compare_to (rational_abs e2) (FromRational (rational_abs e1))")
      case (Inl x)
      then show ?thesis using e1 e2 c 1 2 by (auto simp: checked_def within_half_def closer_def)
    next
      case (Inr c)
      then show ?thesis using e1 e2 c by (auto simp: checked_def closer_def)
    qed
  qed
qed

section \<open>The closest fraction\<close>

text \<open>A number of a fifth of the digits of a result is never refused.\<close>

definition fifth_digits :: nat where
  "fifth_digits = 2000"

definition fifth_sized :: "rational \<Rightarrow> bool" where
  "fifth_sized r \<longleftrightarrow> \<bar>rt_num r\<bar> < 10 ^ fifth_digits \<and> \<bar>rt_den r\<bar> < 10 ^ fifth_digits"

lemma fifth_half: "(10 :: int) ^ fifth_digits < 10 ^ half_digits" "(10 :: int) ^ fifth_digits * 10 ^ fifth_digits < 10 ^ half_digits"
proof -
  show "(10 :: int) ^ fifth_digits < 10 ^ half_digits"
    by (intro power_strict_increasing) (simp_all add: fifth_digits_def half_digits_def)
  have "(10 :: int) ^ (fifth_digits + fifth_digits) < 10 ^ half_digits"
    by (intro power_strict_increasing) (simp_all add: fifth_digits_def half_digits_def)
  then show "(10 :: int) ^ fifth_digits * 10 ^ fifth_digits < 10 ^ half_digits" by (simp add: power_add)
qed

lemma neighbour_small:
  fixes N D p q z :: int
  assumes D: "0 < D" "D < 10 ^ fifth_digits" and N: "\<bar>N\<bar> < 10 ^ fifth_digits" and q: "0 < q" "q < D"
    and z: "\<bar>N * q - D * p\<bar> \<le> D"
  shows "half_sized \<lparr>rt_num = p, rt_den = q\<rparr>"
    and "\<lbrakk>reduced r; rt_value r = of_int p / of_int q - of_int N / of_int D\<rbrakk> \<Longrightarrow> half_sized r"
proof -
  have "\<bar>D * p\<bar> \<le> \<bar>N * q\<bar> + D" using z by linarith
  also have "\<bar>N * q\<bar> \<le> \<bar>N\<bar> * D" using q by (simp add: abs_mult mult_left_mono)
  finally have "D * \<bar>p\<bar> \<le> D * (\<bar>N\<bar> + 1)" using D(1) by (simp add: abs_mult algebra_simps)
  then have "\<bar>p\<bar> \<le> \<bar>N\<bar> + 1" using D(1) by simp
  then show "half_sized \<lparr>rt_num = p, rt_den = q\<rparr>" using N D q fifth_half(1)
    unfolding half_sized_def rational.simps by linarith
  assume r: "reduced r" "rt_value r = of_int p / of_int q - of_int N / of_int D"
  have "rt_value r = of_int (- (N * q - D * p)) / of_int (D * q)" using r(2) D q by (simp add: field_simps)
  from reduced_bounds [OF r(1) this] D(1) q(1) have "\<bar>rt_num r\<bar> \<le> D" "rt_den r \<le> D * q" using z by simp_all
  moreover have "D * q < 10 ^ fifth_digits * 10 ^ fifth_digits" using D q by (intro mult_strict_mono) auto
  moreover have "0 < rt_den r" using r(1) by (simp add: reduced_def)
  ultimately show "half_sized r" using D fifth_half unfolding half_sized_def by linarith
qed

text \<open>What the loop leaves is a choice between two neighbours.\<close>

lemma approximate_neighbours:
  assumes number: "reduced this" and limit: "to_bigint_input max_denominator = Inr limit" "1 \<le> limit" "limit < rt_den this"
  obtains pf qf ps qs e A B where
    "neighbours limit (rt_num this) (rt_den this) pf qf ps qs e A B" "A \<le> rt_den this" "B \<le> rt_den this"
    "approximate this max_denominator = closer \<lparr>rt_num = pf, rt_den = qf\<rparr> \<lparr>rt_num = ps, rt_den = qs\<rparr> this"
proof -
  obtain N D where eq: "this = \<lparr>rt_num = N, rt_den = D\<rparr>" by (cases this)
  have D: "0 < D" "coprime N D" "limit < D" using number limit(3) by (simp_all add: eq reduced_def)
  note start = expansion_start [OF D(1) limit(2), of N]
  obtain p0 q0 p1 q1 n d where c: "convergents limit (0, 1, 1, 0) N D = Some (p0, q0, p1, q1)"
    "expansion limit N D (p0, q0, p1, q1) n d" "0 < d" "limit < q0 + n div d * q1"
    using convergents_end [OF start(1) D(2,3)] start(2) by auto
  define k where "k = (limit - q0) div q1"
  note near = expansion_neighbours [OF c(2-4) D(1), folded k_def]
  note z = neighboursD [OF near(1)] and cop = neighbours_coprime [OF near(1)]
  have "(limit - q0) sdiv q1 = k" using c(2) by (simp add: k_def expansion_def sdiv_smod_pos)
  then have "approximate this max_denominator = closer \<lparr>rt_num = p0 + k * p1, rt_den = q0 + k * q1\<rparr> \<lparr>rt_num = p1, rt_den = q1\<rparr> this"
    using limit D z cop c(1) by (simp add: approximate_def closer_def eq Let_def reduced_parts_exact cong: if_cong)
  then show thesis using that near by (simp add: eq)
qed

lemma neighbours_fit:
  assumes near: "neighbours limit (rt_num this) (rt_den this) pf qf ps qs e A B" "A \<le> rt_den this" "B \<le> rt_den this"
    and small: "limit < rt_den this" "fifth_sized this"
  shows "within_half \<lparr>rt_num = pf, rt_den = qf\<rparr> \<lparr>rt_num = ps, rt_den = qs\<rparr> this"
proof -
  obtain N D where eq: "this = \<lparr>rt_num = N, rt_den = D\<rparr>" by (cases this)
  note z = neighboursD [OF near(1), unfolded eq rational.simps]
  have N: "D < 10 ^ fifth_digits" "\<bar>N\<bar> < 10 ^ fifth_digits" using small(2) z(8) by (simp_all add: fifth_sized_def eq)
  have far: "\<bar>N * qf - D * pf\<bar> \<le> D" "\<bar>N * qs - D * ps\<bar> \<le> D" using z near(2,3) by (auto simp: abs_mult eq)
  have q: "qf < D" "qs < D" using z small(1) by (simp_all add: eq)
  note small = neighbour_small [OF z(8) N z(3) q(1) far(1)] neighbour_small [OF z(8) N z(5) q(2) far(2)]
  have "half_sized this" using N z(8) fifth_half(1) unfolding half_sized_def eq rational.simps by linarith
  then show ?thesis using small unfolding within_half_def by (auto simp: rt_value_def eq)
qed

text \<open>
  C10: \<open>approximate\<close> returns the closest fraction: it is reduced, its denominator is within the limit,
  and no fraction with a denominator within the limit lies closer to the number. The only error of a
  call with a valid limit is the limit on digits, which numbers of up to 2000 digits never meet; the
  loop over the continued fraction never divides by zero.
\<close>

theorem approximate_closest:
  assumes number: "reduced this" and limit: "to_bigint_input max_denominator = Inr limit" "1 \<le> limit"
  shows "case approximate this max_denominator of
      Inr r \<Rightarrow> reduced r \<and> rt_den r \<le> limit \<and>
        (\<forall>p q. 0 < q \<and> q \<le> limit \<longrightarrow> \<bar>rt_value r - rt_value this\<bar> \<le> \<bar>of_int p / of_int q - rt_value this\<bar>)
    | Inl e \<Rightarrow> e = ResourceLimit \<and> \<not> fifth_sized this"
proof (cases "rt_den this \<le> limit")
  case True
  then show ?thesis using assms by (simp add: approximate_def)
next
  case False
  then have past: "limit < rt_den this" by simp
  obtain pf qf ps qs e A B where near: "neighbours limit (rt_num this) (rt_den this) pf qf ps qs e A B" "A \<le> rt_den this" "B \<le> rt_den this"
    and code: "approximate this max_denominator = closer \<lparr>rt_num = pf, rt_den = qf\<rparr> \<lparr>rt_num = ps, rt_den = qs\<rparr> this"
    by (rule approximate_neighbours [OF number limit past])
  define first second where "first = \<lparr>rt_num = pf, rt_den = qf\<rparr>" and "second = \<lparr>rt_num = ps, rt_den = qs\<rparr>"
  have red: "reduced first" "reduced second" "rt_den first \<le> limit" "rt_den second \<le> limit"
    using neighbours_coprime [OF near(1)] neighboursD [OF near(1)] by (simp_all add: first_def second_def reduced_def)
  have worth: "rt_value first = of_int pf / of_int qf" "rt_value second = of_int ps / of_int qs"
    "rt_value this = of_int (rt_num this) / of_int (rt_den this)" by (simp_all add: first_def second_def rt_value_def)
  note choice = closer_choice [OF red(1,2) number, unfolded first_def second_def, folded code]
  show ?thesis
  proof (cases "approximate this max_denominator")
    case (Inl x)
    then show ?thesis using choice neighbours_fit [OF near past] by auto
  next
    case (Inr r)
    then have r: "r = (if \<bar>rt_value second - rt_value this\<bar> \<le> \<bar>rt_value first - rt_value this\<bar> then second else first)"
      using choice by (simp add: first_def second_def)
    have "\<bar>rt_value r - rt_value this\<bar> \<le> \<bar>of_int p / of_int q - rt_value this\<bar>" if "0 < q" "q \<le> limit" for p q
      using distance_any [OF near(1) that, of p] unfolding distance_first [OF near(1), symmetric] distance_second [OF near(1), symmetric]
        worth [symmetric] by (auto simp: r)
    then show ?thesis using Inr r red by auto
  qed
qed

end
