(* ===== verification/MathDecimal.thy ===== *)
theory MathDecimal
  imports MathClosest
begin

text \<open>
  Arithmetic of \<open>Decimal\<close> is exact, its division and rounding meet the rounding contract, and the
  text of a decimal reads back as the decimal.
\<close>

definition dc_value :: "decimal \<Rightarrow> rat" where
  "dc_value d = of_int (dc_coefficient d) / 10 ^ dc_scale d"

definition half_sized_decimal :: "decimal \<Rightarrow> bool" where
  "half_sized_decimal d \<longleftrightarrow> \<bar>dc_coefficient d\<bar> < 10 ^ half_digits \<and> dc_scale d \<le> half_digits"

section \<open>Sums, differences and products\<close>

text \<open>An outcome is the exact value at a scale, or a refusal that operands of half the digits do not meet.\<close>

definition exact_decimal :: "bool \<Rightarrow> math_error + decimal \<Rightarrow> rat \<Rightarrow> nat \<Rightarrow> bool" where
  "exact_decimal fits outcome x s \<longleftrightarrow>
     (case outcome of Inr d \<Rightarrow> dc_value d = x \<and> dc_scale d = s | Inl e \<Rightarrow> e = ResourceLimit \<and> \<not> fits)"

lemma times_pow10_checked:
  assumes "fits \<Longrightarrow> \<bar>v\<bar> < 10 ^ half_digits" "fits \<Longrightarrow> e \<le> half_digits"
  shows "checked fits (times_pow10 v e) (v * 10 ^ e)"
proof (cases fits)
  case True
  have "0 < half_digits" by (simp add: half_digits_def)
  then have "digit_count v \<le> half_digits" "e \<le> half_digits" using digit_count_less [OF assms(1)] assms(2) True by simp_all
  then show ?thesis
    by (simp add: checked_def times_pow10_def power_of_ten_def assert_intermediate_digits_def MAX_INTEGER_DIGITS_def half_digits_def)
next
  case False
  then show ?thesis by (simp add: checked_def times_pow10_def power_of_ten_def assert_intermediate_digits_def)
qed

lemma exact_decimal_bind: "checked fits x n \<Longrightarrow> exact_decimal fits (f n) v s \<Longrightarrow> exact_decimal fits (rbind x f) v s"
  by (auto simp: checked_def exact_decimal_def)

lemma new_decimal_exact:
  assumes "fits \<Longrightarrow> \<bar>c\<bar> < DIGIT_LIMIT" "of_int c / 10 ^ s = v"
  shows "exact_decimal fits (new_decimal c s) v s"
  using assms by (auto simp: exact_decimal_def new_decimal_def assert_result_digits_def dc_value_def)

lemma half_scaled:
  assumes "\<bar>v\<bar> < 10 ^ half_digits" "e \<le> half_digits"
  shows "10 * \<bar>v * 10 ^ e\<bar> < DIGIT_LIMIT"
proof -
  have "\<bar>v * 10 ^ e\<bar> = \<bar>v\<bar> * 10 ^ e" by (simp add: abs_mult)
  also have "\<dots> < 10 ^ half_digits * 10 ^ e" using assms(1) by simp
  also have "\<dots> = 10 ^ (half_digits + e)" by (simp add: power_add)
  finally have "10 * \<bar>v * 10 ^ e\<bar> < 10 ^ Suc (half_digits + e)" by simp
  also have "(10 :: int) ^ Suc (half_digits + e) \<le> DIGIT_LIMIT"
    using assms(2) unfolding DIGIT_LIMIT_def by (intro power_increasing) (simp_all add: half_digits_def MAX_DIGITS_def)
  finally show ?thesis .
qed

text \<open>\<open>align\<close> writes both values at the larger scale.\<close>

lemma align_checked:
  fixes a b :: decimal
  defines "s \<equiv> max (dc_scale a) (dc_scale b)" and "fits \<equiv> half_sized_decimal a \<and> half_sized_decimal b"
  shows "\<exists>x y. (align a b = Inr (x, y, s) \<or> align a b = Inl ResourceLimit \<and> \<not> fits) \<and>
    dc_value a = of_int x / 10 ^ s \<and> dc_value b = of_int y / 10 ^ s \<and> (fits \<longrightarrow> 10 * \<bar>x\<bar> < DIGIT_LIMIT \<and> 10 * \<bar>y\<bar> < DIGIT_LIMIT)"
proof -
  define x y where "x = dc_coefficient a * 10 ^ (s - dc_scale a)" and "y = dc_coefficient b * 10 ^ (s - dc_scale b)"
  have le: "s - dc_scale a \<le> half_digits" "s - dc_scale b \<le> half_digits" if fits
    using that by (auto simp: fits_def half_sized_decimal_def s_def)
  have small: "\<bar>dc_coefficient a\<bar> < 10 ^ half_digits" "\<bar>dc_coefficient b\<bar> < 10 ^ half_digits" if fits
    using that by (simp_all add: fits_def half_sized_decimal_def)
  have value_at: "of_int c / 10 ^ k = (of_int (c * 10 ^ (s - k)) / 10 ^ s :: rat)" if "k \<le> s" for c k
  proof -
    have "(10 :: rat) ^ s = 10 ^ k * 10 ^ (s - k)" using that by (simp flip: power_add)
    then show ?thesis by simp
  qed
  have "align a b = Inr (x, y, s) \<or> align a b = Inl ResourceLimit \<and> \<not> fits"
    using times_pow10_checked [of fits, OF small(1) le(1)] times_pow10_checked [of fits, OF small(2) le(2)]
    by (auto simp: align_def s_def x_def y_def checked_def max_def)
  moreover have "dc_value a = of_int x / 10 ^ s" "dc_value b = of_int y / 10 ^ s"
    using value_at [of "dc_scale a"] value_at [of "dc_scale b"] by (simp_all add: dc_value_def x_def y_def s_def)
  moreover have "fits \<Longrightarrow> 10 * \<bar>x\<bar> < DIGIT_LIMIT" "fits \<Longrightarrow> 10 * \<bar>y\<bar> < DIGIT_LIMIT"
    using half_scaled [OF small(1) le(1)] half_scaled [OF small(2) le(2)] by (simp_all add: x_def y_def)
  ultimately show ?thesis by blast
qed

lemma decimal_from_decimal [simp]: "decimal_from (FromDecimal d) = Inr d"
  by (simp add: decimal_from_def)

lemma decimal_plus_minus_exact:
  fixes a b :: decimal
  defines "s \<equiv> max (dc_scale a) (dc_scale b)" and "fits \<equiv> half_sized_decimal a \<and> half_sized_decimal b"
  shows "exact_decimal fits (decimal_plus a (FromDecimal b)) (dc_value a + dc_value b) s"
    and "exact_decimal fits (decimal_minus a (FromDecimal b)) (dc_value a - dc_value b) s"
proof -
  obtain x y where al: "align a b = Inr (x, y, s) \<or> align a b = Inl ResourceLimit \<and> \<not> fits"
    "dc_value a = of_int x / 10 ^ s" "dc_value b = of_int y / 10 ^ s"
    "fits \<longrightarrow> 10 * \<bar>x\<bar> < DIGIT_LIMIT \<and> 10 * \<bar>y\<bar> < DIGIT_LIMIT"
    using align_checked [of a b] unfolding s_def fits_def by blast
  have "\<bar>x + y\<bar> < DIGIT_LIMIT" "\<bar>x - y\<bar> < DIGIT_LIMIT" if fits using al(4) that by linarith+
  then have new: "exact_decimal fits (new_decimal (x + y) s) (dc_value a + dc_value b) s"
    "exact_decimal fits (new_decimal (x - y) s) (dc_value a - dc_value b) s"
    by (intro new_decimal_exact; simp add: al(2,3) add_divide_distrib diff_divide_distrib)+
  show "exact_decimal fits (decimal_plus a (FromDecimal b)) (dc_value a + dc_value b) s"
    "exact_decimal fits (decimal_minus a (FromDecimal b)) (dc_value a - dc_value b) s"
    using al(1) new by (auto simp: decimal_plus_def decimal_minus_def exact_decimal_def)
qed

lemma decimal_times_exact:
  "exact_decimal (half_sized_decimal a \<and> half_sized_decimal b) (decimal_times a (FromDecimal b))
     (dc_value a * dc_value b) (dc_scale a + dc_scale b)"
proof (cases "dc_scale a + dc_scale b > MAX_FRACTION")
  case True
  have "half_digits + half_digits \<le> MAX_FRACTION" by (simp add: half_digits_def MAX_FRACTION_def)
  then show ?thesis using True by (auto simp: decimal_times_def exact_decimal_def half_sized_decimal_def)
next
  case False
  define fits where "fits = (half_sized_decimal a \<and> half_sized_decimal b)"
  have small: "\<bar>dc_coefficient a\<bar> < 10 ^ half_digits" "\<bar>dc_coefficient b\<bar> < 10 ^ half_digits" if fits
    using that by (simp_all add: fits_def half_sized_decimal_def)
  have "\<bar>dc_coefficient a * dc_coefficient b\<bar> < DIGIT_LIMIT" if fits using half_product [OF small] that by linarith
  then have "exact_decimal fits (rbind (multiply_checked (dc_coefficient a) (dc_coefficient b))
      (\<lambda>c. new_decimal c (dc_scale a + dc_scale b))) (dc_value a * dc_value b) (dc_scale a + dc_scale b)"
    by (intro exact_decimal_bind [OF multiply_checked_checked] new_decimal_exact small) (simp_all add: dc_value_def power_add)
  then show ?thesis using False by (simp add: decimal_times_def Let_def fits_def)
qed

lemma decimal_compare_exact:
  "checked (half_sized_decimal a \<and> half_sized_decimal b) (decimal_compare_to a (FromDecimal b))
    (if dc_value a < dc_value b then -1 else if dc_value b < dc_value a then 1 else 0)"
proof -
  define s fits where "s = max (dc_scale a) (dc_scale b)" and "fits = (half_sized_decimal a \<and> half_sized_decimal b)"
  obtain x y where al: "align a b = Inr (x, y, s) \<or> align a b = Inl ResourceLimit \<and> \<not> fits"
    "dc_value a = of_int x / 10 ^ s" "dc_value b = of_int y / 10 ^ s"
    using align_checked [of a b] unfolding s_def fits_def by blast
  have "dc_value a < dc_value b \<longleftrightarrow> x < y" "dc_value b < dc_value a \<longleftrightarrow> y < x"
    by (simp_all add: al(2,3) divide_less_cancel)
  then show ?thesis using al(1) unfolding fits_def by (auto simp: decimal_compare_to_def checked_def)
qed

section \<open>Quotients and rounding\<close>

text \<open>What a decimal operation with a scale and a rounding mode promises of the value \<open>x\<close> it rounds.\<close>

definition rounded_at :: "rat \<Rightarrow> int \<Rightarrow> rounding \<Rightarrow> decimal \<Rightarrow> bool" where
  "rounded_at x scale mode d \<longleftrightarrow>
     0 \<le> scale \<and> dc_scale d = nat scale \<and> rounds_to mode (x * 10 ^ nat scale) (dc_coefficient d)"

lemma scaled_fraction:
  assumes "times_pow10 n k = Inr m" "d \<noteq> 0"
  shows "(of_int m / of_int d :: rat) = of_int n / of_int d * 10 ^ k"
  using times_pow10_Inr [OF assms(1)] by simp

lemma fraction_at_scale:
  assumes "d \<noteq> 0"
  shows "case fraction_to_decimal_parts n d (Some (scale, mode)) of
      Inr (c, s) \<Rightarrow> 0 \<le> scale \<and> s = nat scale \<and>
        rounds_to (case mode of None \<Rightarrow> RoundUnnecessary | Some m \<Rightarrow> m) (of_int n / of_int d * 10 ^ nat scale) c
    | Inl e \<Rightarrow> e = ResourceLimit \<or> e = BadMathArgument \<and> scale < 0 \<or>
        e = InexactResult \<and> mode \<in> {None, Some RoundUnnecessary} \<and> (\<forall>c. of_int n / of_int d * 10 ^ nat scale \<noteq> (of_int c :: rat))"
proof -
  have unnecessary: "(case mode of None \<Rightarrow> RoundUnnecessary | Some m \<Rightarrow> m) = RoundUnnecessary \<longleftrightarrow> mode \<in> {None, Some RoundUnnecessary}"
    by (cases mode) auto
  consider (scale) e where "assert_scale scale = Inl e" | (large) e where "assert_scale scale = Inr ()" "times_pow10 n (nat scale) = Inl e"
    | (ok) m where "assert_scale scale = Inr ()" "times_pow10 n (nat scale) = Inr m"
    by (cases "assert_scale scale"; cases "times_pow10 n (nat scale)") auto
  then show ?thesis
  proof cases
    case scale
    then show ?thesis using assms
      by (auto simp: fraction_to_decimal_parts_def assert_scale_def assert_scale_limit_def split: if_splits)
  next
    case large
    then show ?thesis using assms times_pow10_Inl [OF large(2)] by (simp add: fraction_to_decimal_parts_def)
  next
    case ok
    define r where "r = (case mode of None \<Rightarrow> RoundUnnecessary | Some m \<Rightarrow> m)"
    have scale: "0 \<le> scale" using ok(1) by (simp add: assert_scale_def split: if_splits)
    have code: "fraction_to_decimal_parts n d (Some (scale, mode)) = rbind (divide_rounded m d r) (\<lambda>c. Inr (c, nat scale))"
      using ok assms by (simp add: fraction_to_decimal_parts_def r_def)
    show ?thesis
    proof (cases "divide_rounded m d r")
      case (Inl e)
      then have "e = InexactResult" "r = RoundUnnecessary" "\<forall>c. \<not> rounds_to r (of_int n / of_int d * 10 ^ nat scale) c"
        using divide_rounded_contract [OF assms, of r m] unfolding scaled_fraction [OF ok(2) assms] Inl sum.case by blast+
      then show ?thesis unfolding code using Inl unnecessary by (auto simp: rounds_to_def r_def [symmetric] simp del: times_divide_eq_left)
    next
      case (Inr c)
      then show ?thesis
        using divide_rounded_contract [OF assms, of r m] scale unfolding code scaled_fraction [OF ok(2) assms] r_def by simp
    qed
  qed
qed

text \<open>The two numbers \<open>dividedBy\<close> divides.\<close>

lemma quotient_parts:
  assumes "times_pow10 (dc_coefficient a) (dc_scale b) = Inr p" "times_pow10 (dc_coefficient b) (dc_scale a) = Inr q"
  shows "(of_int p / of_int q :: rat) = dc_value a / dc_value b" "q = 0 \<longleftrightarrow> dc_value b = 0"
  using times_pow10_Inr [OF assms(1)] times_pow10_Inr [OF assms(2)] by (auto simp: dc_value_def)

text \<open>
  Without options a quotient is exact at its shortest scale; with a scale it is rounded there by the
  mode. Every error has its cause; the limit on digits is none when the operands fit.
\<close>

definition quotient_outcome :: "bool \<Rightarrow> rat \<Rightarrow> rat \<Rightarrow> scale_options option \<Rightarrow> math_error + decimal \<Rightarrow> bool" where
  "quotient_outcome fits x y options outcome \<longleftrightarrow>
     (case outcome of
        Inr d \<Rightarrow> y \<noteq> 0 \<and>
          (case options of
             None \<Rightarrow> shortest_decimal (x / y) (dc_coefficient d) (dc_scale d)
           | Some (scale, mode) \<Rightarrow> rounded_at (x / y) scale (case mode of None \<Rightarrow> RoundUnnecessary | Some m \<Rightarrow> m) d)
      | Inl DivisionByZero \<Rightarrow> y = 0
      | Inl InexactResult \<Rightarrow> y \<noteq> 0 \<and>
          (case options of
             None \<Rightarrow> \<forall>c s. x / y \<noteq> of_int c / 10 ^ s
           | Some (scale, mode) \<Rightarrow> mode \<in> {None, Some RoundUnnecessary} \<and> (\<forall>c. x / y * 10 ^ nat scale \<noteq> of_int c))
      | Inl BadMathArgument \<Rightarrow> y \<noteq> 0 \<and> (case options of None \<Rightarrow> False | Some (scale, mode) \<Rightarrow> scale < 0)
      | Inl e \<Rightarrow> e = ResourceLimit \<and> \<not> fits)"

lemma decimal_divided_outcome:
  "quotient_outcome False (dc_value a) (dc_value b) options (decimal_divided_by a (FromDecimal b) options)"
proof -
  consider (p) e where "times_pow10 (dc_coefficient a) (dc_scale b) = Inl e"
    | (q) p e where "times_pow10 (dc_coefficient a) (dc_scale b) = Inr p" "times_pow10 (dc_coefficient b) (dc_scale a) = Inl e"
    | (ok) p q where "times_pow10 (dc_coefficient a) (dc_scale b) = Inr p" "times_pow10 (dc_coefficient b) (dc_scale a) = Inr q"
    by (cases "times_pow10 (dc_coefficient a) (dc_scale b)"; cases "times_pow10 (dc_coefficient b) (dc_scale a)") auto
  then show ?thesis
  proof cases
    case p
    then show ?thesis using times_pow10_Inl [OF p] by (simp add: decimal_divided_by_def quotient_outcome_def)
  next
    case q
    then show ?thesis using times_pow10_Inl [OF q(2)] by (simp add: decimal_divided_by_def quotient_outcome_def)
  next
    case ok
    note parts = quotient_parts [OF ok]
    have code: "decimal_divided_by a (FromDecimal b) options = rbind (fraction_to_decimal_parts p q options)
        (\<lambda>parts. rbind (assert_result_digits (fst parts)) (\<lambda>c. Inr (decimal_of_parts parts)))"
      by (simp add: decimal_divided_by_def ok)
    show ?thesis
    proof (cases "q = 0")
      case True
      then show ?thesis using parts(2) by (simp add: code quotient_outcome_def fraction_to_decimal_parts_def)
    next
      case False
      then have y: "dc_value b \<noteq> 0" using parts(2) by simp
      show ?thesis
      proof (cases options)
        case None
        then show ?thesis unfolding code using fraction_exact [OF False, of p] y parts(1)
          by (auto simp: quotient_outcome_def assert_result_digits_def decimal_of_parts_def split: sum.splits prod.splits)
      next
        case (Some o')
        then show ?thesis unfolding code using fraction_at_scale [OF False, of "fst o'" "snd o'" p] y parts(1)
          by (auto simp: quotient_outcome_def rounded_at_def assert_result_digits_def decimal_of_parts_def
              split: sum.splits prod.splits)
      qed
    qed
  qed
qed

end
