(* ===== verification/MathText.thy ===== *)
theory MathText
  imports MathDecimal
begin

text \<open>
  Rounding and trimming of \<open>Decimal\<close>, and its text: what \<open>toString\<close> writes, \<open>Decimal.from\<close> reads back
  as the same decimal, its scale included.
\<close>

section \<open>Scales\<close>

lemma decimal_to_scale_outcome:
  "case decimal_to_scale d scale mode of
     Inr r \<Rightarrow> rounded_at (dc_value d) scale mode r
   | Inl e \<Rightarrow> e = ResourceLimit \<or> e = BadMathArgument \<and> scale < 0 \<or>
       e = InexactResult \<and> mode = RoundUnnecessary \<and> (\<forall>c. dc_value d * 10 ^ nat scale \<noteq> of_int c)"
proof (cases "assert_scale scale")
  case (Inl e)
  then show ?thesis by (auto simp: decimal_to_scale_def assert_scale_def assert_scale_limit_def split: if_splits)
next
  case ok: (Inr u)
  then have scale: "0 \<le> scale" by (simp add: assert_scale_def split: if_splits)
  consider (same) "scale = int (dc_scale d)" | (finer) "int (dc_scale d) < scale" | (coarser) "scale < int (dc_scale d)" by linarith
  then show ?thesis
  proof cases
    case same
    then have "dc_value d * 10 ^ nat scale = of_int (dc_coefficient d)" by (simp add: dc_value_def)
    then show ?thesis using same ok rounds_whole by (simp add: decimal_to_scale_def rounded_at_def Let_def)
  next
    case finer
    define k where "k = nat (scale - int (dc_scale d))"
    have k: "nat scale = dc_scale d + k" using finer by (simp add: k_def)
    have v: "dc_value d * 10 ^ nat scale = of_int (dc_coefficient d * 10 ^ k)" by (simp add: dc_value_def k power_add)
    show ?thesis
    proof (cases "times_pow10 (dc_coefficient d) k")
      case (Inl e)
      then show ?thesis using times_pow10_Inl [OF Inl] finer ok by (simp add: decimal_to_scale_def Let_def k_def [symmetric])
    next
      case (Inr c)
      then have "c = dc_coefficient d * 10 ^ k" by (rule times_pow10_Inr)
      then show ?thesis using Inr finer ok scale rounds_whole [of mode c] unfolding rounded_at_def v
        by (simp add: decimal_to_scale_def Let_def k_def [symmetric] new_decimal_def assert_result_digits_def)
    qed
  next
    case coarser
    define k where "k = nat (int (dc_scale d) - scale)"
    have k: "dc_scale d = nat scale + k" using coarser scale by (simp add: k_def)
    have v: "dc_value d * 10 ^ nat scale = of_int (dc_coefficient d) / of_int (10 ^ k)" by (simp add: dc_value_def k power_add)
    have code: "decimal_to_scale d scale mode =
        rbind (divide_rounded (dc_coefficient d) (10 ^ k) mode) (\<lambda>c. Inr \<lparr>dc_coefficient = c, dc_scale = nat scale\<rparr>)"
      using coarser ok by (simp add: decimal_to_scale_def Let_def power_of_ten_def k_def)
    show ?thesis
    proof (cases "divide_rounded (dc_coefficient d) (10 ^ k) mode")
      case (Inl e)
      then show ?thesis unfolding code v using divide_rounded_contract [of "10 ^ k" mode "dc_coefficient d"]
        by (auto simp: rounds_to_def)
    next
      case (Inr c)
      then show ?thesis unfolding code rounded_at_def v using divide_rounded_contract [of "10 ^ k" mode "dc_coefficient d"] scale
        by simp
    qed
  qed
qed

lemma trim_loop_shortest:
  "case trim_loop c s of (c', s') \<Rightarrow> of_int c' / 10 ^ s' = (of_int c / 10 ^ s :: rat) \<and> s' \<le> s \<and> (s' = 0 \<or> \<not> 10 dvd c') \<and>
     (s' = s \<longrightarrow> c' = c)"
proof (induction c s rule: trim_loop.induct)
  case (2 c s)
  show ?case
  proof (cases "10 dvd c")
    case True
    then have q: "c smod 10 = 0" "c sdiv 10 = c div 10" "of_int (c div 10) * 10 = (of_int c :: rat)"
      by (auto simp: signed_modulo_int_eq_modulo_int sdiv_exact)
    have "(of_int (c div 10) / 10 ^ s :: rat) = of_int c / 10 ^ Suc s" unfolding q(3) [symmetric] by simp
    then show ?thesis using 2 q by auto
  next
    case False
    have "c smod 10 \<noteq> 0" using False sdiv_mult_smod_eq [of c 10] by (metis add.right_neutral dvd_triv_right)
    then show ?thesis using False by simp
  qed
qed simp

lemma trimmed_shortest:
  assumes "s = 0 \<or> \<not> 10 dvd c"
  shows "shortest_decimal (of_int c / 10 ^ s) c s"
proof -
  have "s \<le> s'" if e: "(of_int c / 10 ^ s :: rat) = of_int c' / 10 ^ s'" for c' s'
  proof (rule ccontr)
    assume "\<not> s \<le> s'"
    then obtain k where k: "s = s' + Suc k" by (metis add_Suc_right less_imp_Suc_add not_le)
    have "(of_int c :: rat) = of_int (c' * 10 ^ Suc k)" using e unfolding k by (simp add: power_add field_simps)
    then have "c = c' * 10 ^ Suc k" by (simp only: of_int_eq_iff)
    then show False using assms k by simp
  qed
  then show ?thesis by (simp add: shortest_decimal_def)
qed

lemma decimal_trim_shortest: "shortest_decimal (dc_value d) (dc_coefficient (decimal_trim d)) (dc_scale (decimal_trim d))"
proof -
  obtain c s where t: "trim_loop (dc_coefficient d) (dc_scale d) = (c, s)" by fastforce
  then have "of_int c / 10 ^ s = dc_value d" "s = 0 \<or> \<not> 10 dvd c" "s = dc_scale d \<longrightarrow> c = dc_coefficient d"
    using trim_loop_shortest [of "dc_coefficient d" "dc_scale d"] by (simp_all add: dc_value_def)
  then show ?thesis using trimmed_shortest [of s c] t by (auto simp: decimal_trim_def)
qed

section \<open>Texts\<close>

lemma to_string_plain: "decimal_to_string d = decimal_string (canon (dc_coefficient d)) (dc_scale d)"
proof -
  have n: "nat (int a - int b) = a - b" for a b by simp
  show ?thesis by (simp add: decimal_to_string_def decimal_string_def units_text_def Let_def n)
qed

text \<open>Leading zeros count neither as digits nor for the value.\<close>

lemma digits_value_strip: "digits_value (dropWhile (\<lambda>c. c = CHR ''0'') s) = digits_value s"
proof -
  have "takeWhile (\<lambda>c. c = CHR ''0'') s = replicate (length (takeWhile (\<lambda>c. c = CHR ''0'') s)) (CHR ''0'')"
    by (rule replicate_eqI) (auto dest: set_takeWhileD)
  then have "s = replicate (length (takeWhile (\<lambda>c. c = CHR ''0'') s)) (CHR ''0'') @ dropWhile (\<lambda>c. c = CHR ''0'') s"
    by (metis takeWhile_dropWhile_id)
  then show ?thesis by (metis digits_value_zeros)
qed

lemma digit_of_zero: "\<lbrakk>is_dec c; digit_of c = 0\<rbrakk> \<Longrightarrow> c = CHR ''0''"
proof -
  assume "is_dec c" "digit_of c = 0"
  then have "of_char c = (48 :: nat)" by (simp add: is_dec_def digit_of_def)
  then have "c = char_of (48 :: nat)" by (metis char_of_char)
  then show ?thesis by (simp add: char_of_def bit_0)
qed

lemma significant_digits:
  assumes s: "list_all is_dec s" and small: "int (digits_value s) < 10 ^ k" "0 < k"
  defines "t \<equiv> dropWhile (\<lambda>c. c = CHR ''0'') s"
  shows "length t \<le> k"
proof (cases "t = []")
  case False
  have dec: "list_all is_dec t" using s unfolding t_def list_all_iff by (meson set_dropWhileD)
  have "hd t \<noteq> CHR ''0''" using hd_dropWhile [of "\<lambda>c. c = CHR ''0''" s] False by (simp add: t_def)
  then have "digit_of (hd t) \<noteq> 0" using digit_of_zero dec False by (cases t) auto
  then have "dec_digits (digits_value t) = map digit_of t" unfolding digits_value_def
    using dec False by (intro conjunct2 [OF dec_digits_value]) (auto simp: list_all_iff is_dec_def digit_of_def hd_map)
  then have "length t = length (dec_digits (digits_value s))" using digits_value_strip [of s] by (simp add: t_def [symmetric])
  moreover have "digits_value s < 10 ^ k" using small(1) by (metis of_nat_less_iff of_nat_numeral of_nat_power)
  ultimately show ?thesis using length_dec_digits [of "digits_value s" k] small(2) by simp
qed simp

lemma stripped_parts:
  fixes w f :: string
  defines "whole \<equiv> dropWhile (\<lambda>c. c = CHR ''0'') w"
  shows "whole @ (if whole = [] then dropWhile (\<lambda>c. c = CHR ''0'') f else f) = dropWhile (\<lambda>c. c = CHR ''0'') (w @ f)"
  unfolding whole_def by (induction w) auto

text \<open>A plain text, a sign, whole digits and digits behind a point, is read as it stands.\<close>

lemma parse_decimal_plain:
  assumes w: "w \<noteq> []" "list_all is_dec w" and f: "list_all is_dec f" "length f \<le> MAX_FRACTION"
    and small: "int (digits_value (w @ f)) < DIGIT_LIMIT"
  shows "parse_decimal_string ((if negative then ''-'' else []) @ w @ (if f = [] then [] else ''.'' @ f)) =
    Inr (if negative then - int (digits_value (w @ f)) else int (digits_value (w @ f)), length f)"
proof -
  define rest where "rest = (if f = [] then [] else ''.'' @ f)"
  have sgn: "take_sign ((if negative then ''-'' else []) @ w @ rest) = (negative, w @ rest)"
    using w take_sign_digits [OF w, of rest] by (cases negative) simp_all
  have scan: "takeWhile is_dec (w @ rest) = w" "dropWhile is_dec (w @ rest) = rest"
    using takeWhile_all [OF w(2), of rest] by (auto simp: rest_def is_dec_def split: if_splits)
  have all: "takeWhile is_dec f = f" "dropWhile is_dec f = []" using takeWhile_all [OF f(1), of "[]"] by simp_all
  define whole where "whole = dropWhile (\<lambda>c. c = CHR ''0'') w"
  define fraction where "fraction = (if whole = [] then dropWhile (\<lambda>c. c = CHR ''0'') f else f)"
  have joined: "whole @ fraction = dropWhile (\<lambda>c. c = CHR ''0'') (w @ f)"
    unfolding fraction_def whole_def by (rule stripped_parts)
  have "length (whole @ fraction) \<le> MAX_DIGITS"
    unfolding joined using w(2) f(1) small unfolding DIGIT_LIMIT_def
    by (intro significant_digits) (simp_all only: list_all_append MAX_DIGITS_def)
  then have digits: "\<not> exceeds_digit_limit (length whole + length fraction)" by (simp add: exceeds_digit_limit_def)
  have worth: "digits_value (whole @ fraction) = digits_value (w @ f)" unfolding joined by (rule digits_value_strip)
  have scale: "\<not> exceeds_scale_limit (int (length f))" using f(2) by (simp add: exceeds_scale_limit_def)
  have frac: "(if rest \<noteq> [] \<and> hd rest = CHR ''.'' then takeWhile is_dec (tl rest) else []) = f"
    "(if rest \<noteq> [] \<and> hd rest = CHR ''.'' then dropWhile is_dec (tl rest) else rest) = []"
    using all by (auto simp: rest_def)
  show ?thesis unfolding rest_def [symmetric] parse_decimal_string_def sgn prod.case Let_def scan frac
    unfolding whole_def [symmetric] unfolding fraction_def [symmetric]
    using w(1) digits worth scale by (auto simp: exceeds_digit_limit_def)
qed

lemma decimal_text_read:
  assumes "\<bar>dc_coefficient d\<bar> < DIGIT_LIMIT" "dc_scale d \<le> MAX_FRACTION"
  shows "decimal_from (FromText (decimal_to_string d)) = Inr d"
proof -
  obtain w f where wf: "w \<noteq> []" "list_all is_dec w" "list_all is_dec f" "length f = dc_scale d"
    "decimal_to_string d = (if dc_coefficient d < 0 then ''-'' else []) @ w @ (if f = [] then [] else ''.'' @ f)"
    "int (digits_value (w @ f)) = \<bar>dc_coefficient d\<bar>"
    unfolding to_string_plain by (rule decimal_string_parts [of "dc_scale d" "canon (dc_coefficient d)"]) simp
  have "parse_decimal_string (decimal_to_string d) = Inr (dc_coefficient d, dc_scale d)"
    unfolding wf(5) using parse_decimal_plain [OF wf(1-3), of "dc_coefficient d < 0"] assms wf(4,6) by (auto split: if_splits)
  then show ?thesis by (simp add: decimal_from_def to_decimal_parts_def decimal_parts_def decimal_of_parts_def)
qed

end
