(* ===== verification/MathBeyond.thy ===== *)
theory MathBeyond
  imports MathText
begin

text \<open>
  A decimal that does not read back: an exact quotient takes the scale it needs, which nothing compares
  with the largest scale the parser reads.
\<close>

lemma parse_decimal_beyond:
  assumes w: "w \<noteq> []" "list_all is_dec w" and f: "list_all is_dec f" "MAX_FRACTION < length f"
  shows "parse_decimal_string ((if negative then ''-'' else []) @ w @ (if f = [] then [] else ''.'' @ f)) = Inl NumberOutOfRange"
proof -
  define rest where "rest = (if f = [] then [] else ''.'' @ f)"
  have sgn: "take_sign ((if negative then ''-'' else []) @ w @ rest) = (negative, w @ rest)"
    using w take_sign_digits [OF w, of rest] by (cases negative) simp_all
  have scan: "takeWhile is_dec (w @ rest) = w" "dropWhile is_dec (w @ rest) = rest"
    using takeWhile_all [OF w(2), of rest] by (auto simp: rest_def is_dec_def split: if_splits)
  have all: "takeWhile is_dec f = f" "dropWhile is_dec f = []" using takeWhile_all [OF f(1), of "[]"] by simp_all
  have scale: "exceeds_scale_limit (int (length f))" using f(2) by (simp add: exceeds_scale_limit_def)
  have frac: "(if rest \<noteq> [] \<and> hd rest = CHR ''.'' then takeWhile is_dec (tl rest) else []) = f"
    "(if rest \<noteq> [] \<and> hd rest = CHR ''.'' then dropWhile is_dec (tl rest) else rest) = []"
    using all by (auto simp: rest_def)
  show ?thesis unfolding rest_def [symmetric] parse_decimal_string_def sgn prod.case Let_def scan frac
    using w(1) scale by simp
qed

lemma text_beyond_refused:
  assumes "MAX_FRACTION < dc_scale d"
  shows "decimal_from (FromText (decimal_to_string d)) = Inl ResourceLimit"
proof -
  obtain w f where wf: "w \<noteq> []" "list_all is_dec w" "list_all is_dec f" "length f = dc_scale d"
    "decimal_to_string d = (if dc_coefficient d < 0 then ''-'' else []) @ w @ (if f = [] then [] else ''.'' @ f)"
    unfolding to_string_plain by (rule decimal_string_parts [of "dc_scale d" "canon (dc_coefficient d)"]) simp
  have "parse_decimal_string (decimal_to_string d) = Inl NumberOutOfRange"
    unfolding wf(5) using assms wf(4) by (intro parse_decimal_beyond wf(1-3)) simp
  then show ?thesis by (simp add: decimal_from_def to_decimal_parts_def decimal_parts_def)
qed

lemma times_pow10_small: "\<lbrakk>\<bar>v\<bar> < 10 ^ m; 0 < m; m + e \<le> MAX_INTEGER_DIGITS\<rbrakk> \<Longrightarrow> times_pow10 v e = Inr (v * 10 ^ e)"
  using digit_count_less [of v m] by (simp add: times_pow10_def power_of_ten_def assert_intermediate_digits_def)

lemma strip_power_two: "strip_factor (2 ^ k) 2 = (1, k)"
proof -
  obtain rest t where s: "strip_factor (2 ^ k) 2 = (rest, t)" "(2 :: int) ^ k = rest * 2 ^ t" "0 < rest" "\<not> 2 dvd rest"
    by (rule strip_factor_strips [of "2 ^ k" 2]) simp_all
  have "rest dvd 2 ^ k" using s(2) by simp
  moreover have "coprime rest (2 ^ k)" using coprime_two [OF s(4)] by simp
  ultimately have "is_unit rest" by (metis coprime_common_divisor dvd_refl)
  then have "rest = 1" using s(3) by simp
  then have "(2 :: int) ^ k = 2 ^ t" using s(2) by simp
  then have "k = t" using power_inject_exp [of "2 :: int" k t] by simp
  then show ?thesis using s(1) \<open>rest = 1\<close> by simp
qed

lemma quotient_by_power:
  assumes "0 < k" "Suc k \<le> MAX_INTEGER_DIGITS" "(5 :: int) ^ k < DIGIT_LIMIT"
  shows "decimal_divided_by decimal_one (FromDecimal \<lparr>dc_coefficient = 2 ^ k, dc_scale = 0\<rparr>) None =
    Inr \<lparr>dc_coefficient = 5 ^ k, dc_scale = k\<rparr>"
proof -
  have "(2 :: int) ^ k < 10 ^ k" using assms(1) by (intro power_strict_mono) simp_all
  then have big: "times_pow10 (2 ^ k) 0 = Inr (2 ^ k)" using times_pow10_small [of "2 ^ k" k 0] assms(1,2) by simp
  have one: "times_pow10 1 0 = Inr 1" "times_pow10 1 k = Inr (10 ^ k)"
    using times_pow10_small [of 1 1 0] times_pow10_small [of 1 1 k] assms(1,2) by simp_all
  have "strip_factor 1 5 = (1, 0)" unfolding strip_factor_def by (subst strip_steps.simps) (simp add: sdiv_smod_pos)
  moreover have "(10 :: int) ^ k sdiv 2 ^ k = 5 ^ k"
    unfolding ten_split sdiv_exact [OF dvd_triv_left] by (rule nonzero_mult_div_cancel_left) simp
  ultimately have "fraction_to_decimal_parts 1 (2 ^ k) None = Inr (5 ^ k, k)"
    using one by (simp add: fraction_to_decimal_parts_def Let_def strip_power_two)
  moreover have "0 < DIGIT_LIMIT" "0 < (5 :: int) ^ k" by (simp_all add: DIGIT_LIMIT_def)
  then have "\<not> 5 ^ k \<le> - DIGIT_LIMIT" by linarith
  ultimately show ?thesis
    using big one assms(3)
    by (simp add: decimal_divided_by_def decimal_one_def decimal_of_parts_def assert_result_digits_def)
qed

text \<open>
  C40: a decimal without a text that reads back. Every \<open>Decimal\<close> is meant to be read back from its
  \<open>toString\<close>, but the scale of an exact quotient is not limited: one divided by the 10001st power of
  two, both within the limits, is a decimal of 10001 fraction digits, and its own text is refused.
\<close>

theorem quotient_text_refused:
  "decimal_divided_by decimal_one (FromDecimal \<lparr>dc_coefficient = 2 ^ 10001, dc_scale = 0\<rparr>) None =
     Inr \<lparr>dc_coefficient = 5 ^ 10001, dc_scale = 10001\<rparr> \<and>
   decimal_from (FromText (decimal_to_string \<lparr>dc_coefficient = 5 ^ 10001, dc_scale = 10001\<rparr>)) = Inl ResourceLimit"
proof -
  have exp: "Suc MAX_FRACTION = 10001" "0 < Suc MAX_FRACTION" "Suc (Suc MAX_FRACTION) \<le> MAX_INTEGER_DIGITS"
    "Suc MAX_FRACTION = MAX_FRACTION + 1" "MAX_FRACTION = MAX_DIGITS" "3 \<le> MAX_FRACTION"
    by (simp_all add: MAX_FRACTION_def MAX_INTEGER_DIGITS_def MAX_DIGITS_def)
  have "(2 :: int) ^ 3 \<le> 2 ^ MAX_FRACTION" using exp(6) by (intro power_increasing) simp_all
  then have "(5 :: int) * 5 ^ MAX_FRACTION < 2 ^ MAX_FRACTION * 5 ^ MAX_FRACTION" by (intro mult_strict_right_mono) simp_all
  then have "(5 :: int) ^ Suc MAX_FRACTION < DIGIT_LIMIT" by (simp add: DIGIT_LIMIT_def ten_split exp(5))
  from quotient_by_power [OF exp(2,3) this] text_beyond_refused [of "\<lparr>dc_coefficient = 5 ^ Suc MAX_FRACTION, dc_scale = Suc MAX_FRACTION\<rparr>"]
  show ?thesis unfolding exp(1) [symmetric] by (intro conjI) (assumption | simp)+
qed

end
