(* ===== verification/MathQuotient.thy ===== *)
theory MathQuotient
  imports MathDecimal
begin

text \<open>
  A quotient of decimals of ordinary size is never refused for its digits: with coefficients of up
  to 1000 digits, scales of up to 1000 and an asked scale of up to 5000, every other error has a
  cause in the numbers themselves. The bound is not the largest possible; the exact quotient of the
  largest such operands has up to 10000 digits, the limit of a result.
\<close>

definition ordinary_digits :: nat where
  "ordinary_digits = 1000"

definition ordinary :: "decimal \<Rightarrow> bool" where
  "ordinary d \<longleftrightarrow> \<bar>dc_coefficient d\<bar> < 10 ^ ordinary_digits \<and> dc_scale d \<le> ordinary_digits"

definition quotient_fits :: "decimal \<Rightarrow> decimal \<Rightarrow> scale_options option \<Rightarrow> bool" where
  "quotient_fits a b options \<longleftrightarrow>
     ordinary a \<and> ordinary b \<and> (case options of None \<Rightarrow> True | Some (scale, mode) \<Rightarrow> scale \<le> 5000)"

lemma times_pow10_fits:
  assumes "\<bar>v\<bar> < 10 ^ n" "0 < n" "n + e \<le> MAX_INTEGER_DIGITS"
  shows "times_pow10 v e = Inr (v * 10 ^ e)"
  using digit_count_less [OF assms(1,2)] assms(3)
  by (simp add: times_pow10_def power_of_ten_def assert_intermediate_digits_def)

lemma scaled_bound:
  fixes v :: int
  assumes "\<bar>v\<bar> < 10 ^ n" "e \<le> k"
  shows "\<bar>v * 10 ^ e\<bar> < 10 ^ (n + k)"
proof -
  have "\<bar>v * 10 ^ e\<bar> = \<bar>v\<bar> * 10 ^ e" by (simp add: abs_mult)
  also have "\<dots> < 10 ^ n * 10 ^ e" using assms(1) by simp
  also have "\<dots> \<le> 10 ^ n * 10 ^ k" using assms(2) by (intro mult_left_mono power_increasing) simp_all
  finally show ?thesis by (simp only: power_add)
qed

text \<open>The number of twos and fives in a number of \<open>n\<close> digits.\<close>

lemma exponent_bound:
  fixes q :: int
  assumes "x ^ k \<le> q" "q < 10 ^ n" "10 \<le> x ^ j" "1 < x"
  shows "k \<le> j * n"
proof (rule ccontr)
  assume "\<not> ?thesis"
  then have "x ^ (j * n) \<le> x ^ k" using assms(4) by (intro power_increasing) simp_all
  moreover have "(10 :: int) ^ n \<le> x ^ (j * n)" unfolding power_mult using assms(3) by (intro power_mono) simp_all
  ultimately show False using assms(1,2) by linarith
qed

lemma sdiv_le: "\<bar>a sdiv b\<bar> \<le> \<bar>a\<bar>" for a b :: int
proof -
  have "\<bar>a sdiv b\<bar> \<le> \<bar>\<bar>a\<bar> div \<bar>b\<bar>\<bar>" by (simp add: signed_divide_int_def abs_mult abs_sgn_eq)
  also have "\<dots> = \<bar>a\<bar> div \<bar>b\<bar>" by (simp add: div_int_pos_iff)
  also have "\<dots> \<le> \<bar>a\<bar>" using zdiv_mono2 [of "\<bar>a\<bar>" 1 "\<bar>b\<bar>"] by (cases "b = 0") simp_all
  finally show ?thesis .
qed

lemma fraction_fits:
  assumes "d \<noteq> 0" "\<bar>n\<bar> < 10 ^ m" "\<bar>d\<bar> < 10 ^ m" "0 < m" "5 * m \<le> MAX_DIGITS"
  shows "case fraction_to_decimal_parts n d None of Inr (c, s) \<Rightarrow> \<bar>c\<bar> < DIGIT_LIMIT | Inl e \<Rightarrow> e = InexactResult"
proof -
  obtain p q rest t f where q: "0 < q" "q = rest * 2 ^ t * 5 ^ f" "0 < rest" and le: "\<bar>p\<bar> \<le> \<bar>n\<bar>" "q \<le> \<bar>d\<bar>"
    and code: "fraction_to_decimal_parts n d None =
      (if rest \<noteq> 1 then Inl InexactResult
       else rbind (times_pow10 p (max t f)) (\<lambda>scaled. Inr (scaled sdiv q, max t f)))"
    by (rule fraction_code [OF assms(1), of n])
  have p: "\<bar>p\<bar> < 10 ^ m" "q < 10 ^ m" using le assms(2,3) by linarith+
  have "2 ^ t dvd q" "5 ^ f dvd q" unfolding q(2) by simp_all
  then have two: "(2 :: int) ^ t \<le> q" "(5 :: int) ^ f \<le> q" using q(1) zdvd_imp_le by blast+
  have "t \<le> 4 * m" by (rule exponent_bound [OF two(1) p(2)]) simp_all
  moreover have "f \<le> 2 * m" by (rule exponent_bound [OF two(2) p(2)]) simp_all
  ultimately have s: "max t f \<le> 4 * m" by simp
  have times: "times_pow10 p (max t f) = Inr (p * 10 ^ max t f)"
  proof (rule times_pow10_fits [OF p(1) assms(4)])
    have "m + max t f \<le> m + 4 * m" using s by (rule add_left_mono)
    also have "\<dots> \<le> MAX_INTEGER_DIGITS" using assms(5) by (simp add: MAX_DIGITS_def MAX_INTEGER_DIGITS_def)
    finally show "m + max t f \<le> MAX_INTEGER_DIGITS" .
  qed
  have "\<bar>p * 10 ^ max t f sdiv q\<bar> \<le> \<bar>p * 10 ^ max t f\<bar>" by (rule sdiv_le)
  also have "\<dots> < 10 ^ (m + 4 * m)" by (rule scaled_bound [OF p(1) s])
  also have "(10 :: int) ^ (m + 4 * m) \<le> DIGIT_LIMIT" unfolding DIGIT_LIMIT_def using assms(5) by (intro power_increasing) simp_all
  finally show ?thesis by (simp add: code times)
qed

text \<open>A rounded number lies within one of the number it rounds.\<close>

lemma rounds_near: "rounds_to mode x c \<Longrightarrow> \<bar>of_int c\<bar> \<le> \<bar>x\<bar> + 1"
proof -
  assume c: "rounds_to mode x c"
  have "\<bar>of_int \<lfloor>x\<rfloor> - x\<bar> \<le> 1" "\<bar>of_int \<lceil>x\<rceil> - x\<bar> \<le> 1" by linarith+
  with c have "\<bar>of_int c - x\<bar> \<le> 1" by (cases mode) (simp_all add: rounds_to_def split: if_splits)
  then show ?thesis by linarith
qed

lemma rounded_fits:
  assumes "d \<noteq> 0" "\<bar>m\<bar> < 10 ^ k" "k < MAX_DIGITS"
  shows "case divide_rounded m d mode of Inr c \<Rightarrow> \<bar>c\<bar> < DIGIT_LIMIT | Inl e \<Rightarrow> e = InexactResult"
proof (cases "divide_rounded m d mode")
  case (Inl e)
  then show ?thesis using divide_rounded_contract [OF assms(1), of mode m] by simp
next
  case (Inr c)
  then have "\<bar>of_int c\<bar> \<le> \<bar>of_int m / of_int d :: rat\<bar> + 1"
    using divide_rounded_contract [OF assms(1), of mode m] by (intro rounds_near) simp
  also have "\<bar>of_int m / of_int d :: rat\<bar> \<le> \<bar>of_int m\<bar>"
  proof -
    have "1 \<le> \<bar>of_int d :: rat\<bar>" using assms(1) by (simp flip: of_int_abs)
    then show ?thesis using assms(1) by (simp add: divide_le_eq mult_le_cancel_left1)
  qed
  finally have "\<bar>c\<bar> \<le> \<bar>m\<bar> + 1" by (simp flip: of_int_abs of_int_add)
  also have "\<dots> \<le> 10 ^ k" using assms(2) by simp
  also have "(10 :: int) ^ k < DIGIT_LIMIT" unfolding DIGIT_LIMIT_def using assms(3) by (intro power_strict_increasing) simp_all
  finally show ?thesis using Inr by simp
qed

lemma decimal_divided_fits:
  assumes "quotient_fits a b options"
  shows "decimal_divided_by a (FromDecimal b) options \<noteq> Inl ResourceLimit"
proof -
  let ?N = "ordinary_digits"
  define p q where "p = dc_coefficient a * 10 ^ dc_scale b" and "q = dc_coefficient b * 10 ^ dc_scale a"
  have ab: "\<bar>dc_coefficient a\<bar> < 10 ^ ?N" "\<bar>dc_coefficient b\<bar> < 10 ^ ?N" "dc_scale a \<le> ?N" "dc_scale b \<le> ?N"
    using assms by (simp_all add: quotient_fits_def ordinary_def)
  have N: "0 < ?N" "?N + dc_scale a \<le> MAX_INTEGER_DIGITS" "?N + dc_scale b \<le> MAX_INTEGER_DIGITS"
    using ab(3,4) by (simp_all add: ordinary_digits_def MAX_INTEGER_DIGITS_def)
  note bound = scaled_bound [OF ab(1,4), folded p_def] scaled_bound [OF ab(2,3), folded q_def]
  have code: "decimal_divided_by a (FromDecimal b) options = rbind (fraction_to_decimal_parts p q options)
      (\<lambda>parts. rbind (assert_result_digits (fst parts)) (\<lambda>c. Inr (decimal_of_parts parts)))"
    by (simp add: decimal_divided_by_def p_def q_def times_pow10_fits [OF ab(1) N(1,3)] times_pow10_fits [OF ab(2) N(1,2)])
  have M: "0 < ?N + ?N" "5 * (?N + ?N) \<le> MAX_DIGITS" by (simp_all add: ordinary_digits_def MAX_DIGITS_def)
  show ?thesis
  proof (cases "q = 0")
    case True
    then show ?thesis by (simp add: code fraction_to_decimal_parts_def)
  next
    case False
    have "case fraction_to_decimal_parts p q options of
        Inr (c, s) \<Rightarrow> \<bar>c\<bar> < DIGIT_LIMIT | Inl e \<Rightarrow> e \<noteq> ResourceLimit"
    proof (cases options)
      case None
      then show ?thesis using fraction_fits [OF False bound M] by (auto split: sum.splits)
    next
      case (Some o')
      obtain scale mode where o': "o' = (scale, mode)" by fastforce
      have scale: "scale \<le> 5000" using assms Some o' by (simp add: quotient_fits_def)
      show ?thesis
      proof (cases "scale < 0")
        case True
        then show ?thesis using False by (simp add: Some o' fraction_to_decimal_parts_def assert_scale_def)
      next
        case f: False
        have s: "assert_scale scale = Inr ()" using f scale
          by (simp add: assert_scale_def assert_scale_limit_def exceeds_scale_limit_def MAX_FRACTION_def)
        have "nat scale \<le> 5000" using scale by simp
        note m = scaled_bound [OF bound(1) this]
        have t: "times_pow10 p (nat scale) = Inr (p * 10 ^ nat scale)"
          by (rule times_pow10_fits [OF bound(1) M(1)])
            (use scale in \<open>simp add: ordinary_digits_def MAX_INTEGER_DIGITS_def\<close>)
        have k: "?N + ?N + 5000 < MAX_DIGITS" by (simp add: ordinary_digits_def MAX_DIGITS_def)
        let ?mode = "case mode of None \<Rightarrow> RoundUnnecessary | Some m \<Rightarrow> m"
        show ?thesis using rounded_fits [OF False m k, of ?mode] False
          by (cases "divide_rounded (p * 10 ^ nat scale) q ?mode")
            (simp_all add: Some o' fraction_to_decimal_parts_def s t)
      qed
    qed
    then show ?thesis unfolding code
      by (cases "fraction_to_decimal_parts p q options") (auto simp: assert_result_digits_def)
  qed
qed

lemma quotient_right:
  "quotient_outcome (quotient_fits a b options) (dc_value a) (dc_value b) options
     (decimal_divided_by a (FromDecimal b) options)"
proof (cases "decimal_divided_by a (FromDecimal b) options = Inl ResourceLimit")
  case True
  then show ?thesis using decimal_divided_fits [of a b options] by (auto simp: quotient_outcome_def)
next
  case False
  then show ?thesis using decimal_divided_outcome [of a b options]
    unfolding quotient_outcome_def by (auto split: sum.splits math_error.splits)
qed

end
