(* ===== verification/MathProps.thy ===== *)
theory MathProps
  imports MathText MathQuotient
begin

text \<open>
  The properties of the exact numbers, each with an application of it to a concrete input.
\<close>

text \<open>
  C15: arithmetic of \<open>Rational\<close> is exact. The sum, difference, product and quotient of two reduced
  fractions are the reduced fractions of the exact values, although the code reduces only by the
  common divisors that can occur; the comparison is that of the values. The only refusal is the limit
  on digits, which operands of up to 4999 digits never meet, and a quotient by zero is the error.
\<close>

theorem rational_arithmetic_exact:
  assumes "reduced x" "reduced y"
  shows "exactly (half_sized x \<and> half_sized y) (rational_plus x (FromRational y)) (rt_value x + rt_value y) \<and>
    exactly (half_sized x \<and> half_sized y) (rational_minus x (FromRational y)) (rt_value x - rt_value y) \<and>
    exactly (half_sized x \<and> half_sized y) (rational_times x (FromRational y)) (rt_value x * rt_value y) \<and>
    (if rt_value y = 0 then rational_divided_by x (FromRational y) = Inl DivisionByZero
     else exactly (half_sized x \<and> half_sized y) (rational_divided_by x (FromRational y)) (rt_value x / rt_value y)) \<and>
    checked (half_sized x \<and> half_sized y) (rational_compare_to x (FromRational y))
      (if rt_value x < rt_value y then -1 else if rt_value y < rt_value x then 1 else 0)"
proof -
  have "rt_value y = 0 \<longleftrightarrow> rt_num y = 0" using assms(2) by (auto simp: rt_value_def reduced_def)
  then show ?thesis
    using rational_plus_exact rational_minus_exact rational_times_exact rational_divided_exact rational_compare_exact assms
    by (auto simp: rational_divided_by_def)
qed

lemma small_half_sized: "\<bar>n\<bar> < 1000 \<Longrightarrow> \<bar>d\<bar> < 1000 \<Longrightarrow> half_sized \<lparr>rt_num = n, rt_den = d\<rparr>"
proof -
  assume a: "\<bar>n\<bar> < 1000" "\<bar>d\<bar> < 1000"
  have "(10 :: int) ^ 3 \<le> 10 ^ half_digits" by (intro power_increasing) (simp_all add: half_digits_def)
  then have "(1000 :: int) \<le> 10 ^ half_digits" by simp
  then show ?thesis using a unfolding half_sized_def rational.simps by linarith
qed

lemma rational_arithmetic_exact_witness:
  "\<exists>r. rational_plus \<lparr>rt_num = 1, rt_den = 6\<rparr> (FromRational \<lparr>rt_num = 1, rt_den = 10\<rparr>) = Inr r \<and> rt_value r = 4 / 15 \<and> reduced r"
proof -
  have "reduced \<lparr>rt_num = 1, rt_den = 6\<rparr>" "reduced \<lparr>rt_num = 1, rt_den = 10\<rparr>" by (simp_all add: reduced_def)
  from rational_arithmetic_exact [OF this] show ?thesis
    by (simp add: small_half_sized exactly_def rt_value_def split: sum.splits)
qed

text \<open>The closest fraction to 355/113 with a denominator up to 20 is found.\<close>

lemma approximate_closest_witness:
  "\<exists>r. approximate \<lparr>rt_num = 355, rt_den = 113\<rparr> (IntegerNumber 20) = Inr r \<and> rt_den r \<le> 20 \<and>
    \<bar>rt_value r - 355 / 113\<bar> \<le> \<bar>22 / 7 - 355 / 113\<bar>"
proof -
  have "coprime (355 :: int) 113" by (simp add: coprime_iff_gcd_eq_1 gcd_non_0_int)
  then have r: "reduced \<lparr>rt_num = 355, rt_den = 113\<rparr>" by (simp add: reduced_def)
  have "to_bigint_input (IntegerNumber 20) = Inr 20" by (simp add: to_bigint_input_def is_safe_def MAX_SAFE_def)
  note c = approximate_closest [OF r this]
  have "(10 :: int) ^ 3 \<le> 10 ^ fifth_digits" by (intro power_increasing) (simp_all add: fifth_digits_def)
  then have "(1000 :: int) \<le> 10 ^ fifth_digits" by simp
  then have fits: "fifth_sized \<lparr>rt_num = 355, rt_den = 113\<rparr>" unfolding fifth_sized_def rational.simps by linarith
  show ?thesis
  proof (cases "approximate \<lparr>rt_num = 355, rt_den = 113\<rparr> (IntegerNumber 20)")
    case (Inl e)
    then show ?thesis using c fits by simp
  next
    case (Inr r)
    then have "rt_den r \<le> 20" and near: "0 < q \<and> q \<le> 20 \<Longrightarrow>
        \<bar>rt_value r - rt_value \<lparr>rt_num = 355, rt_den = 113\<rparr>\<bar> \<le> \<bar>of_int p / of_int q - rt_value \<lparr>rt_num = 355, rt_den = 113\<rparr>\<bar>"
      for p q using c by simp_all
    moreover from near [of 7 22] have "\<bar>rt_value r - 355 / 113\<bar> \<le> \<bar>22 / 7 - 355 / 113\<bar>"
      by (simp add: rt_value_def [of "\<lparr>rt_num = 355, rt_den = 113\<rparr>"])
    ultimately show ?thesis using Inr by simp
  qed
qed

text \<open>
  C34: rounded division is total and exact: it fails for a zero divisor, or because an inexact quotient
  must not be rounded; otherwise its result is the one whole number the mode names for the quotient.
\<close>

theorem rounding_meets_contract:
  "(divide_rounded n d mode = Inr r \<longleftrightarrow> d \<noteq> 0 \<and> rounds_to mode (of_int n / of_int d) r) \<and>
   (divide_rounded n d mode = Inl e \<longleftrightarrow>
      d = 0 \<and> e = DivisionByZero \<or>
      d \<noteq> 0 \<and> e = InexactResult \<and> mode = RoundUnnecessary \<and> (of_int n / of_int d :: rat) \<notin> \<int>)"
proof (cases "d = 0")
  case True
  then show ?thesis by (auto simp: divide_rounded_def)
next
  case False
  have whole: "x \<in> \<int> \<longleftrightarrow> (\<exists>r. of_int r = x)" for x :: rat by (auto simp: Ints_def)
  show ?thesis unfolding divide_rounded_exact whole
    using False divide_rounded_contract [OF False, of mode n]
    by (cases "divide_rounded n d mode") (auto simp: rounds_to_def)
qed

text \<open>
  C29: arithmetic of \<open>Decimal\<close> is exact at the scale of its operands: sums and differences at the larger
  scale, products at the sum of the scales; the comparison is that of the values. Only the limits on
  digits and scale refuse, which operands of up to 4999 digits never meet.
\<close>

theorem decimal_arithmetic_exact:
  "exact_decimal (half_sized_decimal a \<and> half_sized_decimal b) (decimal_plus a (FromDecimal b))
     (dc_value a + dc_value b) (max (dc_scale a) (dc_scale b)) \<and>
   exact_decimal (half_sized_decimal a \<and> half_sized_decimal b) (decimal_minus a (FromDecimal b))
     (dc_value a - dc_value b) (max (dc_scale a) (dc_scale b)) \<and>
   exact_decimal (half_sized_decimal a \<and> half_sized_decimal b) (decimal_times a (FromDecimal b))
     (dc_value a * dc_value b) (dc_scale a + dc_scale b) \<and>
   checked (half_sized_decimal a \<and> half_sized_decimal b) (decimal_compare_to a (FromDecimal b))
     (if dc_value a < dc_value b then -1 else if dc_value b < dc_value a then 1 else 0) \<and>
   shortest_decimal (dc_value a) (dc_coefficient (decimal_trim a)) (dc_scale (decimal_trim a))"
  using decimal_plus_minus_exact decimal_times_exact decimal_compare_exact decimal_trim_shortest by blast

text \<open>
  C16: a quotient of decimals is right with any options. Without a scale it is the shortest decimal equal
  to the quotient, and it is refused as inexact only if no finite decimal is; with a scale it is the
  quotient rounded there by the mode. Every error has the cause its name says: a division by zero is
  one exactly, a bad argument is a negative scale, an inexact result has no exact one, and the limit on
  digits is met only by operands of more than 1000 digits or a scale past 1000, or an asked scale past
  5000 (\<open>quotient_fits\<close>).
\<close>

theorem decimal_quotient_right:
  "quotient_outcome (quotient_fits a b options) (dc_value a) (dc_value b) options
     (decimal_divided_by a (FromDecimal b) options)"
  by (rule quotient_right)

lemma decimal_quotient_right_witness:
  "(\<exists>d. decimal_divided_by \<lparr>dc_coefficient = 1, dc_scale = 0\<rparr> (FromDecimal \<lparr>dc_coefficient = 8, dc_scale = 0\<rparr>) None = Inr d \<and>
      shortest_decimal (1 / 8) (dc_coefficient d) (dc_scale d)) \<and>
   decimal_divided_by \<lparr>dc_coefficient = 1, dc_scale = 0\<rparr> (FromDecimal \<lparr>dc_coefficient = 0, dc_scale = 0\<rparr>) None = Inl DivisionByZero"
proof -
  let ?a = "\<lparr>dc_coefficient = 1, dc_scale = 0\<rparr>" and ?b = "\<lparr>dc_coefficient = 8, dc_scale = 0\<rparr>"
    and ?z = "\<lparr>dc_coefficient = 0, dc_scale = 0\<rparr>"
  have "(10 :: int) ^ 1 \<le> 10 ^ ordinary_digits" by (intro power_increasing) (simp_all add: ordinary_digits_def)
  then have fits: "quotient_fits ?a ?b None" "quotient_fits ?a ?z None" by (simp_all add: quotient_fits_def ordinary_def)
  have eighth: "\<exists>c s. (10 :: rat) ^ s = of_int c * 8" by (intro exI [of _ 125] exI [of _ 3]) simp
  have "\<exists>d. decimal_divided_by ?a (FromDecimal ?b) None = Inr d \<and> shortest_decimal (1 / 8) (dc_coefficient d) (dc_scale d)"
    using decimal_quotient_right [of ?a ?b None] fits(1) eighth
    by (auto simp: quotient_outcome_def dc_value_def split: sum.splits math_error.splits)
  moreover have "decimal_divided_by ?a (FromDecimal ?z) None = Inl DivisionByZero"
    using decimal_quotient_right [of ?a ?z None] fits(2)
    by (auto simp: quotient_outcome_def dc_value_def split: sum.splits math_error.splits)
  ultimately show ?thesis by blast
qed

text \<open>
  C28: the text of a decimal reads back as the same decimal: \<open>Decimal.from (d.toString ())\<close> is \<open>d\<close>, with
  its trailing zeros, for every decimal within the limits.
\<close>

theorem decimal_text_roundtrip:
  assumes "\<bar>dc_coefficient d\<bar> < DIGIT_LIMIT" "dc_scale d \<le> MAX_FRACTION"
  shows "decimal_from (FromText (decimal_to_string d)) = Inr d"
  using assms by (rule decimal_text_read)

lemma decimal_text_roundtrip_witness:
  "decimal_from (FromText (decimal_to_string \<lparr>dc_coefficient = -120, dc_scale = 3\<rparr>)) = Inr \<lparr>dc_coefficient = -120, dc_scale = 3\<rparr>"
proof -
  have "(10 :: int) ^ 3 \<le> DIGIT_LIMIT" unfolding DIGIT_LIMIT_def by (intro power_increasing) (simp_all add: MAX_DIGITS_def)
  then have "\<bar>- 120\<bar> < DIGIT_LIMIT" by simp
  then show ?thesis by (intro decimal_text_roundtrip) (simp_all add: MAX_FRACTION_def)
qed

end
