(* ===== verification/MathNumbers.thy ===== *)
theory MathNumbers
  imports MathText MathQuotient "HOL-Library.Multiset"
begin

text \<open>
  What \<open>Rational\<close> and \<open>Decimal\<close> have in common: arithmetic that is exact or refused, and a comparison
  that is that of the values. The laws that follow are shown once. With them the aggregates of
  \<open>packages/math/src/internal/exact.ts\<close>: \<open>Decimal.sum\<close>, \<open>Decimal.max\<close> and \<open>Decimal.min\<close>.
\<close>

section \<open>Exact numbers\<close>

locale compared_numbers =
  fixes worth :: "'a \<Rightarrow> rat" and valid fits :: "'a \<Rightarrow> bool" and cmp :: "'a \<Rightarrow> 'a \<Rightarrow> math_error + int"
  assumes cmp_exact: "\<lbrakk>valid a; valid b; cmp a b = Inr n\<rbrakk> \<Longrightarrow> n = (if worth a < worth b then -1 else if worth b < worth a then 1 else 0)"
    and cmp_limit: "\<lbrakk>valid a; valid b; cmp a b = Inl e\<rbrakk> \<Longrightarrow> e = ResourceLimit \<and> \<not> (fits a \<and> fits b)"
begin

lemma cmp_sign:
  assumes "valid a" "valid b" "cmp a b = Inr n"
  shows "0 < n \<longleftrightarrow> worth b < worth a" "n < 0 \<longleftrightarrow> worth a < worth b" "n = 0 \<longleftrightarrow> worth a = worth b"
  using cmp_exact [OF assms] by auto

lemma cmp_swapped: "\<lbrakk>valid a; valid b; cmp a b = Inr n; cmp b a = Inr m\<rbrakk> \<Longrightarrow> m = - n"
  using cmp_exact [of a b n] cmp_exact [of b a m] by auto

lemma cmp_transitive: "\<lbrakk>valid a; valid b; valid c; cmp a b = Inr i; i \<le> 0; cmp b c = Inr j; j \<le> 0; cmp a c = Inr k\<rbrakk> \<Longrightarrow> k \<le> 0"
  using cmp_exact [of a b i] cmp_exact [of b c j] cmp_exact [of a c k] by (auto split: if_splits)

end

locale exact_numbers = compared_numbers worth valid fits cmp
  for worth :: "'a \<Rightarrow> rat" and valid fits :: "'a \<Rightarrow> bool" and cmp :: "'a \<Rightarrow> 'a \<Rightarrow> math_error + int" +
  fixes plus times :: "'a \<Rightarrow> 'a \<Rightarrow> math_error + 'a"
  assumes plus_exact: "\<lbrakk>valid a; valid b; plus a b = Inr c\<rbrakk> \<Longrightarrow> valid c \<and> worth c = worth a + worth b"
    and times_exact: "\<lbrakk>valid a; valid b; times a b = Inr c\<rbrakk> \<Longrightarrow> valid c \<and> worth c = worth a * worth b"
begin

text \<open>Adding the same number to both sides of a comparison changes nothing.\<close>

lemma cmp_shifted:
  assumes v: "valid a" "valid b" "valid c" and sums: "plus a c = Inr x" "plus b c = Inr y"
    and cmps: "cmp a b = Inr n" "cmp x y = Inr m"
  shows "m = n"
  using plus_exact [OF v(1,3) sums(1)] plus_exact [OF v(2,3) sums(2)] cmp_exact [OF v(1,2) cmps(1)] cmp_exact [of x y m] cmps(2) by auto

lemma plus_associates:
  assumes v: "valid a" "valid b" "valid c"
    and runs: "plus a b = Inr ab" "plus ab c = Inr x" "plus b c = Inr bc" "plus a bc = Inr y"
  shows "valid x" "valid y" "worth x = worth y"
proof -
  have ab: "valid ab" "worth ab = worth a + worth b" using plus_exact [OF v(1,2) runs(1)] by simp_all
  have bc: "valid bc" "worth bc = worth b + worth c" using plus_exact [OF v(2,3) runs(3)] by simp_all
  show "valid x" "valid y" "worth x = worth y"
    using plus_exact [OF ab(1) v(3) runs(2)] plus_exact [OF v(1) bc(1) runs(4)] ab(2) bc(2) by simp_all
qed

lemma times_distributes:
  assumes v: "valid a" "valid b" "valid c"
    and runs: "plus b c = Inr s" "times a s = Inr x" "times a b = Inr ab" "times a c = Inr ac" "plus ab ac = Inr y"
  shows "valid x" "valid y" "worth x = worth y"
proof -
  have s: "valid s" "worth s = worth b + worth c" using plus_exact [OF v(2,3) runs(1)] by simp_all
  have p: "valid ab" "worth ab = worth a * worth b" "valid ac" "worth ac = worth a * worth c"
    using times_exact [OF v(1,2) runs(3)] times_exact [OF v(1,3) runs(4)] by simp_all
  show "valid x" "valid y" "worth x = worth y"
    using times_exact [OF v(1) s(1) runs(2)] plus_exact [OF p(1,3) runs(5)] s(2) p(2,4) by (simp_all add: distrib_left)
qed

end

text \<open>A loop that keeps the better of two numbers ends with the first of the best.\<close>

locale best_of = compared_numbers worth valid fits cmp
  for worth :: "'a \<Rightarrow> rat" and valid fits :: "'a \<Rightarrow> bool" and cmp :: "'a \<Rightarrow> 'a \<Rightarrow> math_error + int" +
  fixes pick :: "'a list \<Rightarrow> 'a \<Rightarrow> math_error + 'a"
  assumes pick_Nil: "pick [] best = Inr best"
    and pick_Cons: "pick (x # xs) best = rbind (cmp x best) (\<lambda>c. if 0 < c then pick xs x else pick xs best)"
begin

lemma pick_first_best:
  "\<lbrakk>pick xs best = Inr m; valid best; \<forall>x\<in>set xs. valid x\<rbrakk> \<Longrightarrow>
   \<exists>before after. best # xs = before @ m # after \<and>
     (\<forall>x\<in>set before. worth x < worth m) \<and> (\<forall>x\<in>set after. worth x \<le> worth m)"
proof (induction xs arbitrary: best)
  case Nil
  then show ?case by (intro exI [of _ "[]"]) (simp add: pick_Nil)
next
  case (Cons x xs)
  obtain n where n: "cmp x best = Inr n" "pick xs (if 0 < n then x else best) = Inr m"
    using Cons(2) by (auto simp: pick_Cons rbind_Inr_iff split: if_splits)
  have sign: "0 < n \<longleftrightarrow> worth best < worth x" using cmp_sign(1) [OF _ Cons(3) n(1)] Cons(4) by simp
  have valid: "valid (if 0 < n then x else best)" using Cons(3,4) by simp
  obtain before after where split: "(if 0 < n then x else best) # xs = before @ m # after"
    and less: "\<forall>y\<in>set before. worth y < worth m" "\<forall>y\<in>set after. worth y \<le> worth m"
    using Cons(1) [OF n(2) valid] Cons(4) by auto
  show ?case
  proof (cases "0 < n")
    case True
    then have "x \<in> set before \<or> x = m" using split by (cases before) auto
    then have "worth best < worth m" using sign True less by force
    then show ?thesis using split less True by (intro exI [of _ "best # before"] exI [of _ after]) simp
  next
    case False
    then have le: "worth x \<le> worth best" using sign by simp
    show ?thesis
    proof (cases before)
      case Nil
      then show ?thesis using split less le False by (intro exI [of _ "[]"] exI [of _ "x # after"]) auto
    next
      case (Cons b rest)
      then show ?thesis using split less le False by (intro exI [of _ "best # x # rest"] exI [of _ after]) auto
    qed
  qed
qed

lemma pick_limit:
  "\<lbrakk>pick xs best = Inl e; valid best; \<forall>x\<in>set xs. valid x\<rbrakk> \<Longrightarrow> e = ResourceLimit \<and> \<not> (\<forall>x\<in>set (best # xs). fits x)"
proof (induction xs arbitrary: best)
  case (Cons x xs)
  then show ?case using cmp_limit [of x best] by (auto simp: pick_Cons rbind_Inl_iff split: if_splits)
qed (simp add: pick_Nil)

end

section \<open>Rationals and decimals\<close>

interpretation rationals: exact_numbers rt_value reduced half_sized "\<lambda>a b. rational_compare_to a (FromRational b)"
  "\<lambda>a b. rational_plus a (FromRational b)" "\<lambda>a b. rational_times a (FromRational b)"
proof unfold_locales
  fix a b n e c
  assume v: "reduced a" "reduced b"
  show "n = (if rt_value a < rt_value b then -1 else if rt_value b < rt_value a then 1 else 0)"
    if "rational_compare_to a (FromRational b) = Inr n" using rational_compare_exact [OF v] that by simp
  show "e = ResourceLimit \<and> \<not> (half_sized a \<and> half_sized b)" if "rational_compare_to a (FromRational b) = Inl e"
    using rational_compare_exact [OF v] that by (simp add: checked_def)
  show "reduced c \<and> rt_value c = rt_value a + rt_value b" if "rational_plus a (FromRational b) = Inr c"
    using rational_plus_exact [OF v] that by (simp add: exactly_def)
  show "reduced c \<and> rt_value c = rt_value a * rt_value b" if "rational_times a (FromRational b) = Inr c"
    using rational_times_exact [OF v] that by (simp add: exactly_def)
qed

interpretation decimals: exact_numbers dc_value "\<lambda>d. True" half_sized_decimal "\<lambda>a b. decimal_compare_to a (FromDecimal b)"
  "\<lambda>a b. decimal_plus a (FromDecimal b)" "\<lambda>a b. decimal_times a (FromDecimal b)"
proof unfold_locales
  fix a b n e c
  show "n = (if dc_value a < dc_value b then -1 else if dc_value b < dc_value a then 1 else 0)"
    if "decimal_compare_to a (FromDecimal b) = Inr n" using decimal_compare_exact [of a b] that by simp
  show "e = ResourceLimit \<and> \<not> (half_sized_decimal a \<and> half_sized_decimal b)" if "decimal_compare_to a (FromDecimal b) = Inl e"
    using decimal_compare_exact [of a b] that by (simp add: checked_def)
  show "True \<and> dc_value c = dc_value a + dc_value b" if "decimal_plus a (FromDecimal b) = Inr c"
    using decimal_plus_minus_exact(1) [of a b] that by (simp add: exact_decimal_def)
  show "True \<and> dc_value c = dc_value a * dc_value b" if "decimal_times a (FromDecimal b) = Inr c"
    using decimal_times_exact [of a b] that by (simp add: exact_decimal_def)
qed

text \<open>Reduced fractions of one value are one fraction: the laws of rational numbers hold of the results themselves.\<close>

lemma rational_results_associate:
  assumes "reduced a" "reduced b" "reduced c"
    and "rational_plus a (FromRational b) = Inr ab" "rational_plus ab (FromRational c) = Inr x"
    and "rational_plus b (FromRational c) = Inr bc" "rational_plus a (FromRational bc) = Inr y"
  shows "x = y"
  using rationals.plus_associates [OF assms] by (rule reduced_unique)

lemma rational_results_distribute:
  assumes "reduced a" "reduced b" "reduced c"
    and "rational_plus b (FromRational c) = Inr s" "rational_times a (FromRational s) = Inr x"
    and "rational_times a (FromRational b) = Inr ab" "rational_times a (FromRational c) = Inr ac"
    and "rational_plus ab (FromRational ac) = Inr y"
  shows "x = y"
  using rationals.times_distributes [OF assms] by (rule reduced_unique)

section \<open>Aggregates\<close>

definition decimal_compare :: "decimal_input \<Rightarrow> decimal_input \<Rightarrow> math_error + int" where
  "decimal_compare a b = rbind (decimal_from a) (\<lambda>d. decimal_compare_to d b)"

fun decimal_max_loop :: "decimal_input list \<Rightarrow> decimal \<Rightarrow> math_error + decimal" where
  "decimal_max_loop [] best = Inr best"
| "decimal_max_loop (v # vs) best =
     rbind (decimal_from v) (\<lambda>d. rbind (decimal_compare_to d (FromDecimal best)) (\<lambda>c.
       if c > 0 then decimal_max_loop vs d else decimal_max_loop vs best))"

definition decimal_max :: "decimal_input \<Rightarrow> decimal_input list \<Rightarrow> math_error + decimal" where
  "decimal_max first rest = rbind (decimal_from first) (decimal_max_loop rest)"

fun decimal_min_loop :: "decimal_input list \<Rightarrow> decimal \<Rightarrow> math_error + decimal" where
  "decimal_min_loop [] best = Inr best"
| "decimal_min_loop (v # vs) best =
     rbind (decimal_from v) (\<lambda>d. rbind (decimal_compare_to d (FromDecimal best)) (\<lambda>c.
       if c < 0 then decimal_min_loop vs d else decimal_min_loop vs best))"

definition decimal_min :: "decimal_input \<Rightarrow> decimal_input list \<Rightarrow> math_error + decimal" where
  "decimal_min first rest = rbind (decimal_from first) (decimal_min_loop rest)"

interpretation largest: best_of dc_value "\<lambda>d. True" half_sized_decimal "\<lambda>a b. decimal_compare_to a (FromDecimal b)"
  "\<lambda>ds. decimal_max_loop (map FromDecimal ds)"
  by unfold_locales simp_all

interpretation smallest: best_of "\<lambda>d. - dc_value d" "\<lambda>d. True" half_sized_decimal "\<lambda>a b. map_sum id uminus (decimal_compare_to a (FromDecimal b))"
  "\<lambda>ds. decimal_min_loop (map FromDecimal ds)"
proof unfold_locales
  fix a b best :: decimal and n e ds
  show "n = (if - dc_value a < - dc_value b then -1 else if - dc_value b < - dc_value a then 1 else 0)"
    if "map_sum id uminus (decimal_compare_to a (FromDecimal b)) = Inr n"
    using decimal_compare_exact [of a b] that by (cases "decimal_compare_to a (FromDecimal b)") auto
  show "e = ResourceLimit \<and> \<not> (half_sized_decimal a \<and> half_sized_decimal b)" if "map_sum id uminus (decimal_compare_to a (FromDecimal b)) = Inl e"
    using decimal_compare_exact [of a b] that by (cases "decimal_compare_to a (FromDecimal b)") (auto simp: checked_def)
  show "decimal_min_loop (map FromDecimal (a # ds)) best =
      rbind (map_sum id uminus (decimal_compare_to a (FromDecimal best)))
        (\<lambda>c. if 0 < c then decimal_min_loop (map FromDecimal ds) a else decimal_min_loop (map FromDecimal ds) best)"
    by (cases "decimal_compare_to a (FromDecimal best)") simp_all
qed simp

text \<open>The running coefficient of a sum is the value so far at the largest scale so far.\<close>

lemma scaled_up: "j \<le> k \<Longrightarrow> of_int (c * 10 ^ (k - j)) / 10 ^ k = (of_int c / 10 ^ j :: rat)"
proof -
  assume "j \<le> k"
  then have "(10 :: rat) ^ k = 10 ^ (k - j) * 10 ^ j" by (simp flip: power_add)
  then show ?thesis by simp
qed

lemma decimal_sum_loop_exact:
  "case decimal_sum_loop (map FromDecimal ds) c s of
     Inr (c', s') \<Rightarrow> s' = fold max (map dc_scale ds) s \<and> of_int c' / 10 ^ s' = of_int c / 10 ^ s + sum_list (map dc_value ds)
   | Inl e \<Rightarrow> e = ResourceLimit"
proof (induction ds arbitrary: c s)
  case (Cons d ds)
  define up where "up = (if dc_scale d > s then times_pow10 c (dc_scale d - s) else Inr c)"
  define t where "t = max s (dc_scale d)"
  define x where "x = (if dc_scale d = t then Inr (dc_coefficient d) else times_pow10 (dc_coefficient d) (t - dc_scale d))"
  have step: "decimal_sum_loop (map FromDecimal (d # ds)) c s = rbind up (\<lambda>c. rbind x (\<lambda>x. decimal_sum_loop (map FromDecimal ds) (c + x) t))"
    by (simp add: up_def x_def t_def Let_def cong: if_cong)
  show ?case
  proof (cases up)
    case (Inl e)
    then show ?thesis using times_pow10_Inl unfolding step by (auto simp: up_def split: if_splits)
  next
    case up: (Inr c1)
    then have c1: "of_int c1 / 10 ^ t = (of_int c / 10 ^ s :: rat)"
      using times_pow10_Inr [of c "dc_scale d - s"] scaled_up [of s "dc_scale d" c] by (auto simp: up_def t_def max_def split: if_splits)
    show ?thesis
    proof (cases x)
      case (Inl e)
      then show ?thesis using times_pow10_Inl up unfolding step by (auto simp: x_def split: if_splits)
    next
      case (Inr c2)
      then have "of_int c2 / 10 ^ t = dc_value d"
        using times_pow10_Inr [of "dc_coefficient d" "t - dc_scale d"] scaled_up [of "dc_scale d" t "dc_coefficient d"]
        by (auto simp: x_def t_def dc_value_def split: if_splits)
      then have "of_int (c1 + c2) / 10 ^ t = of_int c / 10 ^ s + dc_value d" using c1 by (simp add: add_divide_distrib)
      then show ?thesis using Cons [of t "c1 + c2"] up Inr unfolding step
        by (auto simp: t_def max.commute split: sum.splits)
    qed
  qed
qed simp

text \<open>
  Summands of up to 4990 digits, in coefficient and in scale, fewer than \<open>10 ^ 20\<close> of them (an array
  is shorter), are never refused: the running coefficient stays within the digits of a result.
\<close>

definition summand_digits :: nat where
  "summand_digits = 4990"

definition count_digits :: nat where
  "count_digits = 20"

definition summand :: "decimal \<Rightarrow> bool" where
  "summand d \<longleftrightarrow> \<bar>dc_coefficient d\<bar> < 10 ^ summand_digits \<and> dc_scale d \<le> summand_digits"

definition sum_fits :: "decimal list \<Rightarrow> bool" where
  "sum_fits ds \<longleftrightarrow> list_all summand ds \<and> length ds < 10 ^ count_digits"

lemma running_bound:
  fixes c :: int
  assumes "\<bar>c\<bar> \<le> int k * 10 ^ (D + s)" "k < 10 ^ n"
  shows "\<bar>c\<bar> < 10 ^ (n + D + s)"
proof -
  have "int k < 10 ^ n" using assms(2) by (metis of_nat_less_iff of_nat_numeral of_nat_power)
  then have "int k * 10 ^ (D + s) < 10 ^ n * 10 ^ (D + s)" by (intro mult_strict_right_mono) simp_all
  then have "\<bar>c\<bar> < 10 ^ n * 10 ^ (D + s)" using assms(1) by linarith
  then show ?thesis by (simp only: power_add add.assoc)
qed

lemma rescaled_bound:
  fixes c :: int
  assumes "\<bar>c\<bar> \<le> int k * 10 ^ (D + s)" "s \<le> t"
  shows "\<bar>c * 10 ^ (t - s)\<bar> \<le> int k * 10 ^ (D + t)"
proof -
  have "\<bar>c * 10 ^ (t - s)\<bar> = \<bar>c\<bar> * 10 ^ (t - s)" by (simp add: abs_mult)
  also have "\<dots> \<le> int k * 10 ^ (D + s) * 10 ^ (t - s)" using assms(1) by (intro mult_right_mono) simp_all
  also have "\<dots> = int k * 10 ^ (D + t)" using assms(2) by (simp add: mult.assoc flip: power_add)
  finally show ?thesis .
qed

lemma rescaled_fits:
  assumes "\<bar>c\<bar> \<le> int k * 10 ^ (summand_digits + s)" "k < 10 ^ count_digits" "s \<le> t" "t \<le> summand_digits"
  shows "times_pow10 c (t - s) = Inr (c * 10 ^ (t - s))"
proof (rule times_pow10_fits [OF running_bound [OF assms(1,2)]])
  show "0 < count_digits + summand_digits + s" by (simp add: count_digits_def)
  show "count_digits + summand_digits + s + (t - s) \<le> MAX_INTEGER_DIGITS"
    using assms(3,4) by (simp add: count_digits_def summand_digits_def MAX_INTEGER_DIGITS_def)
qed

lemma decimal_sum_loop_fits:
  "\<lbrakk>list_all summand ds; k + length ds < 10 ^ count_digits; s \<le> summand_digits; \<bar>c\<bar> \<le> int k * 10 ^ (summand_digits + s)\<rbrakk> \<Longrightarrow>
   \<exists>c' s'. decimal_sum_loop (map FromDecimal ds) c s = Inr (c', s') \<and> s' \<le> summand_digits \<and>
     \<bar>c'\<bar> \<le> int (k + length ds) * 10 ^ (summand_digits + s')"
proof (induction ds arbitrary: c s k)
  case (Cons d ds)
  define t where "t = max s (dc_scale d)"
  have d: "\<bar>dc_coefficient d\<bar> \<le> int 1 * 10 ^ (summand_digits + dc_scale d)" "dc_scale d \<le> summand_digits"
  proof -
    have "\<bar>dc_coefficient d\<bar> < 10 ^ summand_digits" using Cons.prems(1) by (simp add: summand_def)
    also have "(10 :: int) ^ summand_digits \<le> 10 ^ (summand_digits + dc_scale d)" by (intro power_increasing) simp_all
    finally show "\<bar>dc_coefficient d\<bar> \<le> int 1 * 10 ^ (summand_digits + dc_scale d)" by simp
    show "dc_scale d \<le> summand_digits" using Cons.prems(1) by (simp add: summand_def)
  qed
  have t: "s \<le> t" "dc_scale d \<le> t" "t \<le> summand_digits" using Cons.prems(3) d(2) by (simp_all add: t_def)
  have k: "k < 10 ^ count_digits" "(1 :: nat) < 10 ^ count_digits" using Cons.prems(2) by (simp_all add: count_digits_def)
  define c1 x where "c1 = c * 10 ^ (t - s)" and "x = dc_coefficient d * 10 ^ (t - dc_scale d)"
  have up: "(if dc_scale d > s then times_pow10 c (dc_scale d - s) else Inr c) = Inr c1"
    using rescaled_fits [OF Cons.prems(4) k(1) t(1,3)] by (auto simp: c1_def t_def max_def)
  have down: "(if dc_scale d = t then Inr (dc_coefficient d) else times_pow10 (dc_coefficient d) (t - dc_scale d)) = Inr x"
    using rescaled_fits [OF d(1) k(2) t(2,3)] by (auto simp: x_def)
  have "decimal_sum_loop (map FromDecimal (d # ds)) c s =
      rbind (if dc_scale d > s then times_pow10 c (dc_scale d - s) else Inr c) (\<lambda>c.
      rbind (if dc_scale d = t then Inr (dc_coefficient d) else times_pow10 (dc_coefficient d) (t - dc_scale d)) (\<lambda>x.
        decimal_sum_loop (map FromDecimal ds) (c + x) t))" by (simp add: t_def Let_def cong: if_cong)
  then have step: "decimal_sum_loop (map FromDecimal (d # ds)) c s = decimal_sum_loop (map FromDecimal ds) (c1 + x) t"
    unfolding up down by simp
  have "\<bar>c1 + x\<bar> \<le> int k * 10 ^ (summand_digits + t) + int 1 * 10 ^ (summand_digits + t)"
    using rescaled_bound [OF Cons.prems(4) t(1)] rescaled_bound [OF d(1) t(2)] unfolding c1_def x_def by linarith
  then have b: "\<bar>c1 + x\<bar> \<le> int (Suc k) * 10 ^ (summand_digits + t)" by (simp add: distrib_right)
  show ?case using Cons.IH [OF _ _ t(3) b] Cons.prems(1,2) unfolding step by simp
qed simp

lemma decimal_sum_fits:
  assumes "sum_fits ds"
  shows "decimal_sum (map FromDecimal ds) \<noteq> Inl e"
proof -
  have f: "list_all summand ds" "length ds < 10 ^ count_digits" using assms by (simp_all add: sum_fits_def)
  obtain c s where c: "decimal_sum_loop (map FromDecimal ds) 0 0 = Inr (c, s)" "s \<le> summand_digits"
    "\<bar>c\<bar> \<le> int (length ds) * 10 ^ (summand_digits + s)"
    using decimal_sum_loop_fits [OF f(1), of 0 0 0] f(2) by auto
  have "\<bar>c\<bar> < 10 ^ (count_digits + summand_digits + s)" by (rule running_bound [OF c(3) f(2)])
  also have "(10 :: int) ^ (count_digits + summand_digits + s) \<le> DIGIT_LIMIT"
    unfolding DIGIT_LIMIT_def using c(2)
    by (intro power_increasing) (simp_all add: count_digits_def summand_digits_def MAX_DIGITS_def)
  finally have "c < DIGIT_LIMIT" "- DIGIT_LIMIT < c" by simp_all
  then show ?thesis by (simp add: decimal_sum_def c(1) new_decimal_def assert_result_digits_def)
qed

lemma decimal_sum_exact:
  "case decimal_sum (map FromDecimal ds) of
     Inr r \<Rightarrow> dc_value r = sum_list (map dc_value ds) \<and> dc_scale r = fold max (map dc_scale ds) 0
   | Inl e \<Rightarrow> e = ResourceLimit"
  using decimal_sum_loop_exact [of ds 0 0]
  by (auto simp: decimal_sum_def new_decimal_def assert_result_digits_def dc_value_def split: sum.splits prod.splits elim!: rbind.elims)

text \<open>Values and the largest scale do not depend on the order; a value at a scale is one decimal.\<close>

lemma decimal_value_unique: "\<lbrakk>dc_value a = dc_value b; dc_scale a = dc_scale b\<rbrakk> \<Longrightarrow> a = b"
  by (cases a; cases b) (simp add: dc_value_def)

lemma decimal_sum_order:
  assumes "mset es = mset ds" "decimal_sum (map FromDecimal ds) = Inr r" "decimal_sum (map FromDecimal es) = Inr r'"
  shows "r' = r"
proof (rule decimal_value_unique)
  have "sum_list (map dc_value es) = sum_list (map dc_value ds)"
    using assms(1) by (metis mset_map sum_mset_sum_list)
  then show "dc_value r' = dc_value r" using decimal_sum_exact [of ds] decimal_sum_exact [of es] assms(2,3) by simp
  have scale: "fold max (map dc_scale xs) 0 = Max (insert 0 (set (map dc_scale xs)))" for xs
    using Max.set_eq_fold [of 0 "map dc_scale xs"] by simp
  have "set (map dc_scale es) = set (map dc_scale ds)" using assms(1) by (metis mset_eq_setD set_map)
  then have "fold max (map dc_scale es) 0 = fold max (map dc_scale ds) 0" by (simp only: scale)
  then show "dc_scale r' = dc_scale r" using decimal_sum_exact [of ds] decimal_sum_exact [of es] assms(2,3) by simp
qed

text \<open>
  C27: The aggregates of decimals are right. A sum is the exact sum of the values at the largest
  scale. The largest and the smallest of some decimals are one of them, the first of those that no
  other one exceeds (or undercuts). The only error is the limit on digits: a sum of fewer than
  \<open>10 ^ 20\<close> decimals of up to 4990 digits and scale 4990 never meets it and is the same in every
  order; larger ones may be refused in one order and not in another. A maximum or a minimum of
  decimals of up to 4999 digits and scale 4999 never meets it.
\<close>

theorem decimal_aggregates_right:
  assumes "mset es = mset ds"
  shows "(case decimal_sum (map FromDecimal ds) of
      Inr r \<Rightarrow> dc_value r = sum_list (map dc_value ds) \<and> dc_scale r = fold max (map dc_scale ds) 0
    | Inl e \<Rightarrow> e = ResourceLimit \<and> \<not> sum_fits ds) \<and>
   (if sum_fits ds then decimal_sum (map FromDecimal es) = decimal_sum (map FromDecimal ds) else True) \<and>
   (case decimal_max (FromDecimal d) (map FromDecimal ds) of
      Inr m \<Rightarrow> \<exists>before after. d # ds = before @ m # after \<and>
        list_all (\<lambda>x. dc_value x < dc_value m) before \<and> list_all (\<lambda>x. dc_value x \<le> dc_value m) after
    | Inl e \<Rightarrow> e = ResourceLimit \<and> \<not> list_all half_sized_decimal (d # ds)) \<and>
   (case decimal_min (FromDecimal d) (map FromDecimal ds) of
      Inr m \<Rightarrow> \<exists>before after. d # ds = before @ m # after \<and>
        list_all (\<lambda>x. dc_value m < dc_value x) before \<and> list_all (\<lambda>x. dc_value m \<le> dc_value x) after
    | Inl e \<Rightarrow> e = ResourceLimit \<and> \<not> list_all half_sized_decimal (d # ds))"
proof (intro conjI)
  show "case decimal_sum (map FromDecimal ds) of
      Inr r \<Rightarrow> dc_value r = sum_list (map dc_value ds) \<and> dc_scale r = fold max (map dc_scale ds) 0
    | Inl e \<Rightarrow> e = ResourceLimit \<and> \<not> sum_fits ds"
    using decimal_sum_exact [of ds] decimal_sum_fits [of ds] by (auto split: sum.splits)
  have "list_all summand es = list_all summand ds" "length es = length ds"
    unfolding list_all_iff mset_eq_setD [OF assms] by (rule refl, rule mset_eq_length [OF assms])
  then have same: "sum_fits es = sum_fits ds" by (simp add: sum_fits_def)
  show "if sum_fits ds then decimal_sum (map FromDecimal es) = decimal_sum (map FromDecimal ds) else True"
    using decimal_sum_order [OF assms] decimal_sum_fits [of ds] decimal_sum_fits [of es] same
    by (cases "decimal_sum (map FromDecimal ds)"; cases "decimal_sum (map FromDecimal es)") auto
qed (use largest.pick_first_best [of ds d] largest.pick_limit [of ds d] smallest.pick_first_best [of ds d] smallest.pick_limit [of ds d]
  in \<open>auto simp: decimal_max_def decimal_min_def list_all_iff split: sum.split\<close>)

theorem decimal_aggregates_right_witness:
  "\<exists>r. decimal_sum (map FromDecimal [\<lparr>dc_coefficient = 25, dc_scale = 2\<rparr>, \<lparr>dc_coefficient = 15, dc_scale = 1\<rparr>]) = Inr r \<and>
     decimal_sum (map FromDecimal [\<lparr>dc_coefficient = 15, dc_scale = 1\<rparr>, \<lparr>dc_coefficient = 25, dc_scale = 2\<rparr>]) = Inr r \<and>
     dc_value r = 7 / 4 \<and> dc_scale r = 2"
proof -
  let ?ds = "[\<lparr>dc_coefficient = 15, dc_scale = 1\<rparr>, \<lparr>dc_coefficient = 25, dc_scale = 2\<rparr>]"
    and ?es = "[\<lparr>dc_coefficient = 25, dc_scale = 2\<rparr>, \<lparr>dc_coefficient = 15, dc_scale = 1\<rparr>]"
  have "(10 :: int) ^ 2 \<le> 10 ^ summand_digits" by (intro power_increasing) (simp_all add: summand_digits_def)
  then have "(15 :: int) < 10 ^ summand_digits" "(25 :: int) < 10 ^ summand_digits" by simp_all
  moreover have "1 \<le> summand_digits" "2 \<le> summand_digits" by (simp_all add: summand_digits_def)
  moreover have "(2 :: nat) < 10 ^ count_digits" by (simp add: count_digits_def)
  ultimately have fits: "sum_fits ?ds" by (simp add: sum_fits_def summand_def)
  have order: "mset ?es = mset ?ds" by simp
  note right = decimal_aggregates_right [OF order]
  obtain r where r: "decimal_sum (map FromDecimal ?ds) = Inr r"
    using conjunct1 [OF right] fits by (cases "decimal_sum (map FromDecimal ?ds)") (simp_all del: list.map)
  have "decimal_sum (map FromDecimal ?es) = Inr r" using right fits r by metis
  moreover have "dc_value r = sum_list (map dc_value ?ds)" "dc_scale r = fold max (map dc_scale ?ds) 0"
    using conjunct1 [OF right] unfolding r sum.case by blast+
  then have "dc_value r = 7 / 4" "dc_scale r = 2" unfolding dc_value_def [of "\<lparr>dc_coefficient = _, dc_scale = _\<rparr>"] list.map
    by simp_all
  ultimately show ?thesis using r by blast
qed

end
