(* ===== verification/MathInteger.thy ===== *)
theory MathInteger
  imports MathRational
begin

text \<open>
  Integers and number theory, \<open>packages/math/src/integer.ts\<close>. Every function of a \<open>number\<close> or a bigint
  takes an \<open>int_value\<close>. Arithmetic of numbers rounds to 53 bits (\<open>rnd53\<close>); their remainders and the
  quotients of multiples are exact. The logarithms by which a long product is refused before it is
  built are floating-point estimates: arguments here.
\<close>

text \<open>A whole \<open>number\<close>, any other \<open>number\<close>, or a bigint.\<close>

datatype int_value = NumberValue int | OtherNumber | BigValue int

fun is_big :: "int_value \<Rightarrow> bool" where
  "is_big (BigValue n) = True"
| "is_big v = False"

fun safe_number :: "int_value \<Rightarrow> math_error + int" where
  "safe_number (NumberValue n) = (if is_safe n then Inr n else Inl BadMathArgument)"
| "safe_number v = Inl BadMathArgument"

text \<open>
  The two forms of a function of two values: on bigints, on safe numbers, or the \<open>TypeError\<close> of values
  that are not of one kind.
\<close>

definition by_kind :: "(int \<Rightarrow> int \<Rightarrow> math_error + 'a) \<Rightarrow> (int \<Rightarrow> int \<Rightarrow> math_error + 'a) \<Rightarrow> int_value \<Rightarrow> int_value \<Rightarrow> math_error + 'a" where
  "by_kind big number a b =
     (if is_big a \<noteq> is_big b then Inl MixedKinds
      else case (a, b) of
        (BigValue x, BigValue y) \<Rightarrow> big x y
      | _ \<Rightarrow> rbind (safe_number a) (\<lambda>x. rbind (safe_number b) (\<lambda>y. number x y)))"

definition big_result :: "math_error + int \<Rightarrow> math_error + int_value" where
  "big_result r = rbind r (\<lambda>n. Inr (BigValue n))"

definition number_result :: "math_error + int \<Rightarrow> math_error + int_value" where
  "number_result r = rbind r (\<lambda>n. Inr (NumberValue n))"

section \<open>Divisors and division\<close>

definition integer_gcd :: "int_value \<Rightarrow> int_value \<Rightarrow> math_error + int_value" where
  "integer_gcd = by_kind (\<lambda>x y. Inr (BigValue (big_gcd x y))) (\<lambda>x y. Inr (NumberValue (gcd_steps \<bar>x\<bar> \<bar>y\<bar>)))"

definition assert_integer_digits :: "nat \<Rightarrow> math_error + unit" where
  "assert_integer_digits digits = (if digits > MAX_INTEGER_DIGITS then Inl ResourceLimit else Inr ())"

definition big_lcm :: "int \<Rightarrow> int \<Rightarrow> math_error + int" where
  "big_lcm a b =
     (if a = 0 \<or> b = 0 then Inr 0
      else let reduced = a sdiv big_gcd a b
           in rbind (assert_integer_digits (digit_count reduced + digit_count b - 1)) (\<lambda>u.
              let product = reduced * b
              in rbind (assert_integer_digits (digit_count product)) (\<lambda>u. Inr (if product < 0 then - product else product))))"

definition number_lcm :: "int \<Rightarrow> int \<Rightarrow> math_error + int" where
  "number_lcm a b =
     (if a = 0 \<or> b = 0 then Inr 0
      else let result = \<bar>rnd53 (a sdiv gcd_steps \<bar>a\<bar> \<bar>b\<bar> * b)\<bar>
           in if \<not> is_safe result then Inl NumericRange else Inr result)"

definition integer_lcm :: "int_value \<Rightarrow> int_value \<Rightarrow> math_error + int_value" where
  "integer_lcm = by_kind (\<lambda>x y. big_result (big_lcm x y)) (\<lambda>x y. number_result (number_lcm x y))"

definition big_divmod :: "int \<Rightarrow> int \<Rightarrow> math_error + int \<times> int" where
  "big_divmod a b =
     (if b = 0 then Inl DivisionByZero
      else let quotient = floor_div a b in Inr (quotient, a - quotient * b))"

definition number_divmod :: "int \<Rightarrow> int \<Rightarrow> math_error + int \<times> int" where
  "number_divmod a b =
     (if b = 0 then Inl DivisionByZero
      else let r = a smod b;
               remainder = (if r \<noteq> 0 \<and> (r < 0) \<noteq> (b < 0) then r + b else r);
               rest = rnd53 (a - remainder);
               quotient = (if is_safe rest then rest sdiv b else rnd53 (floor_div a b))
           in Inr (quotient, remainder))"

definition integer_divmod :: "int_value \<Rightarrow> int_value \<Rightarrow> math_error + int_value \<times> int_value" where
  "integer_divmod =
     by_kind (\<lambda>x y. rbind (big_divmod x y) (\<lambda>(q, r). Inr (BigValue q, BigValue r)))
       (\<lambda>x y. rbind (number_divmod x y) (\<lambda>(q, r). Inr (NumberValue q, NumberValue r)))"

section \<open>Counting\<close>

definition MAX_BIGINT_FACTORIAL :: int where
  "MAX_BIGINT_FACTORIAL = 5450"

definition MAX_BIGINT_TERMS :: int where
  "MAX_BIGINT_TERMS = 100000"

text \<open>\<open>range_loop result i hi\<close>: the product times the whole numbers from \<open>i\<close> to \<open>hi\<close>.\<close>

function range_loop :: "int \<Rightarrow> int \<Rightarrow> int \<Rightarrow> int" where
  "range_loop result i hi = (if i \<le> hi then range_loop (result * i) (i + 1) hi else result)"
  by pat_completeness auto
termination by (relation "measure (\<lambda>(result, i, hi). nat (hi - i + 1))") auto

declare range_loop.simps [simp del]

function range_product :: "int \<Rightarrow> int \<Rightarrow> int" where
  "range_product lo hi =
     (if lo > hi then 1
      else if hi - lo < 8 then range_loop lo (lo + 1) hi
      else let mid = (lo + hi) sdiv 2 in range_product lo mid * range_product (mid + 1) hi)"
  by pat_completeness auto
termination
proof (relation "measure (\<lambda>(lo, hi). nat (hi - lo))")
  fix lo hi mid :: int
  assume a: "\<not> lo > hi" "\<not> hi - lo < 8" "mid = (lo + hi) sdiv 2"
  have "2 * mid + (lo + hi) smod 2 = lo + hi" using sdiv_mult_smod_eq [of "lo + hi" 2] a(3) by simp
  moreover have "\<bar>(lo + hi) smod 2\<bar> < 2" using smod_int_range [of 2 "lo + hi"] by auto
  ultimately have "lo < mid" "mid < hi" using a(1,2) by linarith+
  then show "((lo, mid), (lo, hi)) \<in> measure (\<lambda>(lo, hi). nat (hi - lo))"
    "((mid + 1, hi), (lo, hi)) \<in> measure (\<lambda>(lo, hi). nat (hi - lo))" by auto
qed simp

declare range_product.simps [simp del]

definition big_factorial :: "int \<Rightarrow> math_error + int" where
  "big_factorial n =
     (if n < 0 then Inl BadMathArgument
      else if n > MAX_BIGINT_FACTORIAL then Inl ResourceLimit
      else Inr (range_product 2 n))"

text \<open>The loop of the number form multiplies the numbers up to \<open>n \<le> 18\<close>.\<close>

function factorial_loop :: "int \<Rightarrow> int \<Rightarrow> int \<Rightarrow> int" where
  "factorial_loop result i n = (if i \<le> n then factorial_loop (rnd53 (result * i)) (i + 1) n else result)"
  by pat_completeness auto
termination by (relation "measure (\<lambda>(result, i, n). nat (n - i + 1))") auto

declare factorial_loop.simps [simp del]

definition number_factorial :: "int \<Rightarrow> math_error + int" where
  "number_factorial n =
     (if n < 0 then Inl BadMathArgument
      else if n > 18 then Inl NumericRange
      else Inr (factorial_loop 1 2 n))"

definition integer_factorial :: "int_value \<Rightarrow> math_error + int_value" where
  "integer_factorial v =
     (case v of BigValue n \<Rightarrow> big_result (big_factorial n)
      | _ \<Rightarrow> rbind (safe_number v) (\<lambda>n. number_result (number_factorial n)))"

text \<open>\<open>surely_long lo hi steps\<close>: the logarithms of the ranges say that the result has too many digits.\<close>

type_synonym product_estimate = "int \<Rightarrow> int \<Rightarrow> int \<Rightarrow> bool"

fun choose_loop :: "int \<Rightarrow> int \<Rightarrow> int \<Rightarrow> nat \<Rightarrow> int" where
  "choose_loop base result i 0 = result"
| "choose_loop base result i (Suc k) = choose_loop base (result * (base + i) sdiv i) (i + 1) k"

definition big_combinations :: "product_estimate \<Rightarrow> int \<Rightarrow> int \<Rightarrow> math_error + int" where
  "big_combinations surely_long n k =
     (if n < 0 then Inl BadMathArgument
      else if k < 0 \<or> k > n then Inr 0
      else let steps = (if n - k < k then n - k else k)
           in if steps > MAX_BIGINT_TERMS then Inl ResourceLimit
              else let base = n - steps
                   in if steps > 0 \<and> surely_long (base + 1) n steps then Inl ResourceLimit
                      else let result = choose_loop base 1 1 (nat steps)
                           in rbind (assert_integer_digits (digit_count result)) (\<lambda>u. Inr result))"

text \<open>Of numbers, the common factor is divided out first; the two quotients are of multiples.\<close>

fun number_choose_loop :: "int \<Rightarrow> int \<Rightarrow> int \<Rightarrow> nat \<Rightarrow> math_error + int" where
  "number_choose_loop base result i 0 = Inr result"
| "number_choose_loop base result i (Suc k) =
     (let g = gcd_steps \<bar>result\<bar> \<bar>i\<bar>;
          step = rnd53 (result sdiv g * ((base + i) sdiv (i sdiv g)))
      in if \<not> is_safe step then Inl NumericRange else number_choose_loop base step (i + 1) k)"

definition number_combinations :: "int \<Rightarrow> int \<Rightarrow> math_error + int" where
  "number_combinations n k =
     (if n < 0 then Inl BadMathArgument
      else if k < 0 \<or> k > n then Inr 0
      else let steps = min k (n - k) in number_choose_loop (n - steps) 1 1 (nat steps))"

definition integer_combinations :: "product_estimate \<Rightarrow> int_value \<Rightarrow> int_value \<Rightarrow> math_error + int_value" where
  "integer_combinations surely_long =
     by_kind (\<lambda>n k. big_result (big_combinations surely_long n k)) (\<lambda>n k. number_result (number_combinations n k))"

definition big_permutations :: "product_estimate \<Rightarrow> int \<Rightarrow> int \<Rightarrow> math_error + int" where
  "big_permutations surely_long n k =
     (if n < 0 then Inl BadMathArgument
      else if k < 0 \<or> k > n then Inr 0
      else if k > MAX_BIGINT_TERMS then Inl ResourceLimit
      else if k > 0 \<and> surely_long (n - k + 1) n 0 then Inl ResourceLimit
      else let result = range_product (n - k + 1) n
           in rbind (assert_integer_digits (digit_count result)) (\<lambda>u. Inr result))"

fun number_permutations_loop :: "int \<Rightarrow> int \<Rightarrow> int \<Rightarrow> nat \<Rightarrow> math_error + int" where
  "number_permutations_loop n result i 0 = Inr result"
| "number_permutations_loop n result i (Suc k) =
     (let product = rnd53 (result * (n - i))
      in if \<not> is_safe product then Inl NumericRange else number_permutations_loop n product (i + 1) k)"

definition number_permutations :: "int \<Rightarrow> int \<Rightarrow> math_error + int" where
  "number_permutations n k =
     (if n < 0 then Inl BadMathArgument
      else if k < 0 \<or> k > n then Inr 0
      else number_permutations_loop n 1 0 (nat k))"

definition integer_permutations :: "product_estimate \<Rightarrow> int_value \<Rightarrow> int_value \<Rightarrow> math_error + int_value" where
  "integer_permutations surely_long =
     by_kind (\<lambda>n k. big_result (big_permutations surely_long n k)) (\<lambda>n k. number_result (number_permutations n k))"

section \<open>Modular arithmetic\<close>

function mod_pow_loop :: "int \<Rightarrow> int \<Rightarrow> int \<Rightarrow> int \<Rightarrow> int" where
  "mod_pow_loop result b e modulus =
     (if e > 0
      then mod_pow_loop (if e mod 2 = 1 then result * b smod modulus else result) (b * b smod modulus) (e div 2) modulus
      else result)"
  by pat_completeness auto
termination by (relation "measure (\<lambda>(result, b, e, modulus). nat e)") auto

declare mod_pow_loop.simps [simp del]

text \<open>\<open>((a % m) + m) % m\<close>\<close>

definition residue :: "int \<Rightarrow> int \<Rightarrow> int" where
  "residue a modulus = (a smod modulus + modulus) smod modulus"

definition mod_pow :: "int \<Rightarrow> int \<Rightarrow> int \<Rightarrow> math_error + int" where
  "mod_pow base exponent modulus =
     (if modulus \<le> 0 then Inl BadMathArgument
      else if exponent < 0 then Inl BadMathArgument
      else if modulus = 1 then Inr 0
      else rbind (assert_integer_digits (2 * digit_count modulus)) (\<lambda>u.
             Inr (mod_pow_loop 1 (residue base modulus) exponent modulus)))"

function inverse_loop :: "int \<Rightarrow> int \<Rightarrow> int \<Rightarrow> int \<Rightarrow> int \<times> int" where
  "inverse_loop r0 r1 t0 t1 =
     (if r1 \<noteq> 0 then let q = r0 sdiv r1 in inverse_loop r1 (r0 - q * r1) t1 (t0 - q * t1) else (r0, t0))"
  by pat_completeness auto
termination
proof (relation "measure (\<lambda>(r0, r1, t0, t1). nat \<bar>r1\<bar>)")
  fix r0 r1 t0 t1 q :: int
  assume r1: "r1 \<noteq> 0" and q: "q = r0 sdiv r1"
  have "r0 - q * r1 = r0 smod r1" using sdiv_mult_smod_eq [of r0 r1] q by simp
  then show "((r1, r0 - q * r1, t1, t0 - q * t1), (r0, r1, t0, t1)) \<in> measure (\<lambda>(r0, r1, t0, t1). nat \<bar>r1\<bar>)"
    using smod_int_range [of r1 r0] r1 by auto
qed simp

declare inverse_loop.simps [simp del]

definition mod_inverse :: "int \<Rightarrow> int \<Rightarrow> math_error + int" where
  "mod_inverse a modulus =
     (if modulus \<le> 0 then Inl BadMathArgument
      else case inverse_loop modulus (residue a modulus) 0 1 of (r0, t0) \<Rightarrow>
        if r0 \<noteq> 1 then Inl BadMathArgument else Inr (residue t0 modulus))"

section \<open>Primes\<close>

definition TWO_POW_64 :: int where
  "TWO_POW_64 = 2 ^ 64"

definition TRIAL_LIMIT :: int where
  "TRIAL_LIMIT = 1000000"

definition MILLER_RABIN_BASES :: "int list" where
  "MILLER_RABIN_BASES = [2, 325, 9375, 28178, 450775, 9780504, 1795265022]"

definition SMALL_PRIMES :: "int list" where
  "SMALL_PRIMES = [2, 3, 5, 7, 11, 13, 17, 19, 23, 29, 31, 37]"

definition assert_deterministic_range :: "int \<Rightarrow> math_error + unit" where
  "assert_deterministic_range n = (if n \<ge> TWO_POW_64 then Inl NumericRange else Inr ())"

text \<open>The first loop of \<open>isPrimeBigInt\<close>: an answer, or none.\<close>

fun trial_answer :: "int \<Rightarrow> int list \<Rightarrow> bool option" where
  "trial_answer n [] = None"
| "trial_answer n (p # ps) = (if n = p then Some True else if n smod p = 0 then Some False else trial_answer n ps)"

text \<open>The twos are taken out of a positive \<open>d\<close>; the guard only ends the recursion at zero.\<close>

function split_twos :: "int \<Rightarrow> nat \<Rightarrow> int \<times> nat" where
  "split_twos d s = (if 0 < d \<and> d mod 2 = 0 then split_twos (d div 2) (s + 1) else (d, s))"
  by pat_completeness auto
termination by (relation "measure (\<lambda>(d, s). nat d)") auto

declare split_twos.simps [simp del]

text \<open>The squares of a base, \<open>s - 1\<close> of them: whether one is \<open>n - 1\<close>.\<close>

fun meets_minus_one :: "int \<Rightarrow> int \<Rightarrow> nat \<Rightarrow> bool" where
  "meets_minus_one n x 0 = False"
| "meets_minus_one n x (Suc k) = (let x' = x * x smod n in x' = n - 1 \<or> meets_minus_one n x' k)"

fun passes_bases :: "int \<Rightarrow> int \<Rightarrow> nat \<Rightarrow> int list \<Rightarrow> math_error + bool" where
  "passes_bases n d s [] = Inr True"
| "passes_bases n d s (base # bases) =
     (let a = base smod n
      in if a = 0 then passes_bases n d s bases
         else rbind (mod_pow a d n) (\<lambda>x.
                if x = 1 \<or> x = n - 1 \<or> meets_minus_one n x (s - 1) then passes_bases n d s bases else Inr False))"

definition is_prime_big :: "int \<Rightarrow> math_error + bool" where
  "is_prime_big n =
     (if n < 2 then Inr False
      else rbind (assert_deterministic_range n) (\<lambda>u.
        case trial_answer n SMALL_PRIMES of
          Some answer \<Rightarrow> Inr answer
        | None \<Rightarrow> (case split_twos (n - 1) 0 of (d, s) \<Rightarrow> passes_bases n d s MILLER_RABIN_BASES)))"

definition is_prime :: "int_value \<Rightarrow> math_error + bool" where
  "is_prime v = (case v of BigValue n \<Rightarrow> is_prime_big n | _ \<Rightarrow> rbind (safe_number v) is_prime_big)"

section \<open>Factors\<close>

definition rho_step :: "int \<Rightarrow> int \<Rightarrow> int \<Rightarrow> int" where
  "rho_step n c y = (y * y + c) smod n"

text \<open>\<open>limit\<close> steps of a batch: the sequence, and the product of its distances to \<open>x\<close>.\<close>

fun rho_batch :: "int \<Rightarrow> int \<Rightarrow> int \<Rightarrow> nat \<Rightarrow> int \<times> int \<Rightarrow> int \<times> int" where
  "rho_batch n c x 0 (y, q) = (y, q)"
| "rho_batch n c x (Suc k) (y, q) = (let y' = rho_step n c y in rho_batch n c x k (y', q * big_abs (x - y') smod n))"

text \<open>The batches of one round of length \<open>r\<close>: where the last batch began, the product and the divisor.\<close>

function rho_round :: "int \<Rightarrow> int \<Rightarrow> int \<Rightarrow> nat \<Rightarrow> nat \<Rightarrow> int \<times> int \<times> int \<times> int \<Rightarrow> int \<times> int \<times> int \<times> int" where
  "rho_round n c x r k (y, ys, q, g) =
     (if k < r \<and> g = 1
      then case rho_batch n c x (min 128 (r - k)) (y, q) of (y', q') \<Rightarrow> rho_round n c x r (k + 128) (y', y, q', big_gcd q' n)
      else (y, ys, q, g))"
  by pat_completeness auto
termination by (relation "measure (\<lambda>(n, c, x, r, k, s). r - k)") auto

declare rho_round.simps [simp del]

partial_function (option) rho_rounds :: "int \<Rightarrow> int \<Rightarrow> nat \<Rightarrow> int \<Rightarrow> int \<times> int \<times> int \<times> int \<Rightarrow> (int \<times> int \<times> int) option" where
  "rho_rounds n c r x s =
     (case s of (y, ys, q, g) \<Rightarrow>
        if g = 1
        then rho_rounds n c (2 * r) y (rho_round n c y r 0 ((rho_step n c ^^ r) y, ys, q, g))
        else Some (x, ys, g))"

text \<open>The batch overshot: it is walked again one step at a time. \<open>x\<close> is where the last round began.\<close>

partial_function (option) rho_rewalk :: "int \<Rightarrow> int \<Rightarrow> int \<Rightarrow> int \<Rightarrow> int option" where
  "rho_rewalk n c x ys =
     (let ys' = rho_step n c ys; g = big_gcd (big_abs (x - ys')) n
      in if g = 1 then rho_rewalk n c x ys' else Some g)"

partial_function (option) pollard_from :: "int \<Rightarrow> int \<Rightarrow> int option" where
  "pollard_from n c =
     Option.bind (rho_rounds n c 1 2 (2, 2, 1, 1)) (\<lambda>(x, ys, g).
     Option.bind (if g = n then rho_rewalk n c x ys else Some g) (\<lambda>g.
       if g \<noteq> n then Some g else pollard_from n (c + 1)))"

definition pollard_brent :: "int \<Rightarrow> int option" where
  "pollard_brent n = pollard_from n 1"

text \<open>\<open>factorLarge\<close>: the factors it pushes; \<open>None\<close> when it does not return.\<close>

partial_function (option) factor_large :: "int \<Rightarrow> (math_error + int list) option" where
  "factor_large n =
     (if n = 1 then Some (Inr [])
      else if is_prime_big n = Inr True then Some (Inr [n])
      else if isl (is_prime_big n) then Some (Inl (projl (is_prime_big n)))
      else Option.bind (pollard_brent n) (\<lambda>d.
           Option.bind (factor_large d) (\<lambda>first.
             if isl first then Some first
             else Option.bind (factor_large (n sdiv d)) (\<lambda>second. Some (rbind first (\<lambda>ps. rbind second (\<lambda>qs. Inr (ps @ qs))))))))"

text \<open>
  A factor is divided out as often as it goes: what is left, and what was found. The guards on the
  arguments only end the recursion where the code has numbers above 0 and factors above 1.
\<close>

function divide_out :: "int \<Rightarrow> int \<times> int list \<Rightarrow> int \<times> int list" where
  "divide_out f (n, out) =
     (if 1 < f \<and> 0 < n \<and> n smod f = 0 then divide_out f (n sdiv f, out @ [f]) else (n, out))"
  by pat_completeness auto
termination
proof (relation "measure (\<lambda>(f, n, out). nat n)")
  fix f n :: int and out :: "int list"
  assume a: "1 < f \<and> 0 < n \<and> n smod f = 0"
  then have "n sdiv f < n" by (simp add: sdiv_smod_pos int_div_less_self)
  then show "((f, n sdiv f, out @ [f]), (f, n, out)) \<in> measure (\<lambda>(f, n, out). nat n)" using a by simp
qed simp

declare divide_out.simps [simp del]

function wheel :: "int \<Rightarrow> int \<times> int list \<Rightarrow> int \<times> int list" where
  "wheel p (n, out) =
     (if p \<le> TRIAL_LIMIT \<and> p * p \<le> n then wheel (p + 6) (divide_out (p + 2) (divide_out p (n, out))) else (n, out))"
  by pat_completeness auto
termination by (relation "measure (\<lambda>(p, s). nat (TRIAL_LIMIT - p + 1))") auto

declare wheel.simps [simp del]

definition prime_factors_big :: "int \<Rightarrow> (math_error + int list) option" where
  "prime_factors_big input =
     (if input < 0 then Some (Inl BadMathArgument)
      else if input < 2 then Some (Inr [])
      else case assert_deterministic_range input of
        Inl e \<Rightarrow> Some (Inl e)
      | Inr u \<Rightarrow>
          (case wheel 5 (divide_out 3 (divide_out 2 (input, []))) of (n, out) \<Rightarrow>
             if n > 1
             then if n \<le> TRIAL_LIMIT * TRIAL_LIMIT then Some (Inr (out @ [n]))
                  else Option.bind (factor_large n) (\<lambda>found. case found of
                         Inl e \<Rightarrow> Some (Inl e)
                       | Inr rest \<Rightarrow> Some (Inr (out @ sort rest)))
             else Some (Inr out)))"

definition prime_factors :: "int_value \<Rightarrow> (math_error + int_value list) option" where
  "prime_factors v =
     (case v of
        BigValue n \<Rightarrow> map_option (\<lambda>found. rbind found (\<lambda>ps. Inr (map BigValue ps))) (prime_factors_big n)
      | _ \<Rightarrow> (case safe_number v of
                Inl e \<Rightarrow> Some (Inl e)
              | Inr n \<Rightarrow> if n < 0 then Some (Inl BadMathArgument)
                         else map_option (\<lambda>found. rbind found (\<lambda>ps. Inr (map NumberValue ps))) (prime_factors_big n)))"

section \<open>Divisors, digits and bases\<close>

text \<open>One prime of \<open>divisorsBigInt\<close>: the divisors so far times each of its powers.\<close>

definition with_powers :: "int list \<Rightarrow> int \<Rightarrow> nat \<Rightarrow> int list" where
  "with_powers result p count = result @ concat (map (\<lambda>e. map (\<lambda>d. d * p ^ Suc e) result) [0..<count])"

function divisors_loop :: "int list \<Rightarrow> int list \<Rightarrow> int list" where
  "divisors_loop result [] = result"
| "divisors_loop result (p # ps) =
     divisors_loop (with_powers result p (Suc (length (takeWhile (\<lambda>x. x = p) ps)))) (dropWhile (\<lambda>x. x = p) ps)"
  by pat_completeness auto
termination by (relation "measure (\<lambda>(result, ps). length ps)") (auto simp: less_Suc_eq_le length_dropWhile_le)

definition divisors_big :: "int \<Rightarrow> (math_error + int list) option" where
  "divisors_big n =
     (if n < 1 then Some (Inl BadMathArgument)
      else map_option (\<lambda>found. rbind found (\<lambda>ps. Inr (sort (divisors_loop [1] ps)))) (prime_factors_big n))"

definition divisors :: "int_value \<Rightarrow> (math_error + int_value list) option" where
  "divisors v =
     (case v of
        BigValue n \<Rightarrow> map_option (\<lambda>found. rbind found (\<lambda>ds. Inr (map BigValue ds))) (divisors_big n)
      | _ \<Rightarrow> (case safe_number v of
                Inl e \<Rightarrow> Some (Inl e)
              | Inr n \<Rightarrow> if n < 1 then Some (Inl BadMathArgument)
                         else map_option (\<lambda>found. rbind found (\<lambda>ds. Inr (map NumberValue ds))) (divisors_big n)))"

definition is_even :: "int_value \<Rightarrow> math_error + bool" where
  "is_even v = (case v of BigValue n \<Rightarrow> Inr (n smod 2 = 0) | _ \<Rightarrow> rbind (safe_number v) (\<lambda>n. Inr (n smod 2 = 0)))"

definition is_odd :: "int_value \<Rightarrow> math_error + bool" where
  "is_odd v = rbind (is_even v) (\<lambda>e. Inr (\<not> e))"

definition digit_sum :: "int_value \<Rightarrow> math_error + nat" where
  "digit_sum v =
     (case v of BigValue n \<Rightarrow> Inr (sum_list (dec_digits (nat (big_abs n))))
      | _ \<Rightarrow> rbind (safe_number v) (\<lambda>n. Inr (sum_list (dec_digits (nat \<bar>n\<bar>)))))"

definition assert_base :: "int \<Rightarrow> math_error + unit" where
  "assert_base base = (if base < 2 \<or> base > 36 then Inl BadMathArgument else Inr ())"

text \<open>\<open>toString\<close> of the language for a base: digits 0 to 9 and a to z.\<close>

function base_digits :: "nat \<Rightarrow> nat \<Rightarrow> nat list" where
  "base_digits b n = (if n < b \<or> b < 2 then [n] else base_digits b (n div b) @ [n mod b])"
  by pat_completeness auto
termination by (relation "measure (\<lambda>(b, n). n)") auto

declare base_digits.simps [simp del]

definition base_char :: "nat \<Rightarrow> char" where
  "base_char d = (if d < 10 then char_of (48 + d) else char_of (87 + d))"

definition base_text :: "int \<Rightarrow> nat \<Rightarrow> string" where
  "base_text n b = (if n < 0 then ''-'' else []) @ map base_char (base_digits b (nat \<bar>n\<bar>))"

definition to_base :: "int_value \<Rightarrow> int \<Rightarrow> math_error + string" where
  "to_base v base =
     rbind (assert_base base) (\<lambda>u.
       case v of BigValue n \<Rightarrow> Inr (base_text n (nat base))
       | _ \<Rightarrow> rbind (safe_number v) (\<lambda>n. Inr (base_text n (nat base))))"

definition base_digit :: "char \<Rightarrow> int" where
  "base_digit c =
     (let code = of_char c :: int
      in if code \<ge> 48 \<and> code \<le> 57 then code - 48
         else if code \<ge> 97 \<and> code \<le> 122 then code - 87
         else if code \<ge> 65 \<and> code \<le> 90 then code - 55
         else 99)"

fun from_base_loop :: "int \<Rightarrow> int \<Rightarrow> string \<Rightarrow> number_failure + int" where
  "from_base_loop base result [] = Inr result"
| "from_base_loop base result (c # cs) =
     (if base_digit c \<ge> base then Inl InvalidNumber else from_base_loop base (result * base + base_digit c) cs)"

definition from_base :: "string \<Rightarrow> int \<Rightarrow> math_error + (number_failure + int)" where
  "from_base s base =
     rbind (assert_base base) (\<lambda>u.
       case take_sign s of (negative, digits) \<Rightarrow>
         if digits = [] then Inr (Inl InvalidNumber)
         else if exceeds_digit_limit (length digits) then Inr (Inl NumberOutOfRange)
         else Inr (rbind (from_base_loop base 0 digits) (\<lambda>n. Inr (if negative then - n else n))))"

section \<open>Fibonacci numbers\<close>

definition MAX_FIBONACCI :: int where
  "MAX_FIBONACCI = 47851"

definition MAX_FIBONACCI_DIGITS :: nat where
  "MAX_FIBONACCI_DIGITS = 10000"

fun fibonacci_pair :: "nat \<Rightarrow> int \<times> int" where
  "fibonacci_pair n =
     (if n = 0 then (0, 1)
      else case fibonacci_pair (n div 2) of (a, b) \<Rightarrow>
        let c = a * (2 * b - a); d = a * a + b * b
        in if n mod 2 = 0 then (c, d) else (d, c + d))"

declare fibonacci_pair.simps [simp del]

definition fibonacci :: "int_value \<Rightarrow> math_error + int" where
  "fibonacci v =
     rbind (safe_number v) (\<lambda>n.
       if n < 0 then Inl BadMathArgument
       else if n > MAX_FIBONACCI then Inl ResourceLimit
       else let result = fst (fibonacci_pair (nat n))
            in if digit_count result > MAX_FIBONACCI_DIGITS then Inl ResourceLimit else Inr result)"

end
