(* ===== verification/MathCounting.thy ===== *)
theory MathCounting
  imports MathInteger
begin

text \<open>
  Division and counting are exact: \<open>divmod\<close> is floor division, \<open>lcm\<close> the least common multiple, and
  the counting functions give factorials, binomial coefficients and falling factorials, or refuse
  exactly the results that are not safe numbers.
\<close>

section \<open>Rounding leaves safe numbers alone\<close>

lemma safe_rounded: "is_safe (rnd53 n) \<longleftrightarrow> is_safe n"
  using rnd53_safe(1) [of n] by (auto simp: is_safe_def abs_le_iff)

lemma rounded_safe: "is_safe n \<Longrightarrow> rnd53 n = n"
  by (intro rnd53_small) (auto simp: is_safe_def abs_le_iff)

lemma gcd_steps_abs [simp]: "gcd_steps \<bar>x\<bar> \<bar>y\<bar> = gcd x y"
  by (simp add: gcd_steps_gcd)

lemma number_lcm_exact:
  "number_lcm a b = (if is_safe (lcm a b) then Inr (lcm a b) else Inl NumericRange)"
proof (cases "a = 0 \<or> b = 0")
  case True
  then show ?thesis by (auto simp: number_lcm_def is_safe_def MAX_SAFE_def)
next
  case False
  have l: "\<bar>a sdiv gcd a b * b\<bar> = lcm a b"
    by (simp add: sdiv_exact lcm_gcd abs_mult div_mult_swap dvd_div_mult mult.commute)
  have safe: "is_safe \<bar>n\<bar> = is_safe n" for n by (auto simp: is_safe_def abs_le_iff MAX_SAFE_def)
  show ?thesis
  proof (cases "is_safe (lcm a b)")
    case True
    then show ?thesis using False l rounded_safe [of "a sdiv gcd a b * b"] safe [of "a sdiv gcd a b * b"]
      by (simp add: number_lcm_def Let_def)
  next
    case nsafe: False
    then show ?thesis using False l safe [of "rnd53 (a sdiv gcd a b * b)"] safe [of "a sdiv gcd a b * b"]
      by (simp add: number_lcm_def Let_def safe_rounded)
  qed
qed

lemma big_lcm_exact:
  "case big_lcm a b of Inr l \<Rightarrow> l = lcm a b
   | Inl e \<Rightarrow> e = ResourceLimit \<and> (MAX_INTEGER_DIGITS < digit_count (lcm a b) \<or> MAX_INTEGER_DIGITS < digit_count (a div gcd a b) + digit_count b)"
proof (cases "a = 0 \<or> b = 0")
  case False
  have l: "\<bar>a sdiv gcd a b * b\<bar> = lcm a b"
    by (simp add: sdiv_exact lcm_gcd abs_mult div_mult_swap dvd_div_mult mult.commute)
  then have d: "digit_count (a sdiv gcd a b * b) = digit_count (lcm a b)" by (simp add: digit_count_def)
  show ?thesis using False d l by (auto simp: big_lcm_def Let_def assert_integer_digits_def sdiv_exact abs_if)
qed (auto simp: big_lcm_def)

text \<open>The remainder of the language has the sign of the dividend; one correction gives that of the divisor.\<close>

lemma smod_sign: "a smod b \<noteq> 0 \<Longrightarrow> a smod b < 0 \<longleftrightarrow> a < 0" for a b :: int
proof (cases "b = 0")
  case False
  then have "0 \<le> a mod \<bar>b\<bar>" "0 \<le> - a mod \<bar>b\<bar>" by simp_all
  then show "a smod b \<noteq> 0 \<Longrightarrow> a smod b < 0 \<longleftrightarrow> a < 0" by (auto simp: signed_modulo_int_def sgn_if split: if_splits)
qed (auto simp: signed_modulo_int_def sgn_if)

lemma corrected_remainder:
  fixes a b :: int
  assumes "b \<noteq> 0"
  shows "(if a smod b \<noteq> 0 \<and> (a smod b < 0) \<noteq> (b < 0) then a smod b + b else a smod b) = a mod b"
proof -
  have q: "(if a smod b \<noteq> 0 \<and> (a < 0) \<noteq> (b < 0) then a sdiv b - 1 else a sdiv b) = a div b"
    using floor_div_div [OF assms, of a] by (simp add: floor_div_def Let_def)
  have r: "a smod b = a - a sdiv b * b" "a mod b = a - a div b * b"
    using sdiv_mult_smod_eq [of a b] by (simp_all add: minus_div_mult_eq_mod)
  show ?thesis
  proof (cases "a smod b \<noteq> 0 \<and> (a < 0) \<noteq> (b < 0)")
    case True
    then have "a div b = a sdiv b - 1" "a smod b \<noteq> 0 \<and> (a smod b < 0) \<noteq> (b < 0)" using q smod_sign [of a b] by simp_all
    then show ?thesis using r by (simp add: left_diff_distrib)
  next
    case False
    then have "a div b = a sdiv b" using q by (simp split: if_splits)
    then show ?thesis using False smod_sign [of a b] r by auto
  qed
qed

lemma abs_quotient_le: "\<bar>a div b\<bar> \<le> \<bar>a\<bar>" for a b :: int
proof (cases "b = 0 \<or> a = 0")
  case False
  have m: "\<bar>a mod b\<bar> < \<bar>b\<bar>" using False abs_mod_less by blast
  have "\<bar>a div b * b\<bar> = \<bar>a - a mod b\<bar>" by (simp add: minus_mod_eq_div_mult)
  then have "\<bar>a div b\<bar> * \<bar>b\<bar> < \<bar>a\<bar> + \<bar>b\<bar>" using m by (simp add: abs_mult)
  moreover have "\<bar>a\<bar> * 1 \<le> \<bar>a\<bar> * \<bar>b\<bar>" using False by (intro mult_left_mono) auto
  ultimately have "\<bar>a div b\<bar> * \<bar>b\<bar> < (\<bar>a\<bar> + 1) * \<bar>b\<bar>" by (simp add: algebra_simps)
  then have "\<bar>a div b\<bar> < \<bar>a\<bar> + 1" using False by simp
  then show ?thesis by simp
qed auto

lemma divmod_exact:
  assumes "b \<noteq> 0"
  shows "big_divmod a b = Inr (a div b, a mod b)"
    and "is_safe a \<Longrightarrow> number_divmod a b = Inr (a div b, a mod b)"
proof -
  show "big_divmod a b = Inr (a div b, a mod b)"
    using assms by (simp add: big_divmod_def Let_def minus_div_mult_eq_mod)
  assume "is_safe a"
  then have q: "is_safe (a div b)" using abs_quotient_le [of a b] by (auto simp: is_safe_def abs_le_iff)
  have rest: "a - a mod b = a div b * b" by (simp add: minus_mod_eq_div_mult)
  show "number_divmod a b = Inr (a div b, a mod b)"
    unfolding number_divmod_def Let_def corrected_remainder [OF assms]
    using assms rounded_safe [OF q] rounded_safe [of "a - a mod b"]
    by (simp add: safe_rounded rest sdiv_exact)
qed

section \<open>Ranges\<close>

lemma range_loop_product: "range_loop result i hi = result * \<Prod>{i..hi}"
proof (induction result i hi rule: range_loop.induct)
  case (1 result i hi)
  show ?case
  proof (cases "i \<le> hi")
    case True
    then have "{i..hi} = insert i {i + 1..hi}" by auto
    then show ?thesis using 1 True by (subst range_loop.simps) simp
  next
    case False
    then show ?thesis by (subst range_loop.simps) simp
  qed
qed

lemma range_product_product: "range_product lo hi = \<Prod>{lo..hi}"
proof (induction lo hi rule: range_product.induct)
  case (1 lo hi)
  consider "lo > hi" | (few) "lo \<le> hi" "hi - lo < 8" | (many) "lo \<le> hi" "\<not> hi - lo < 8" by linarith
  then show ?case
  proof cases
    case few
    then have "{lo..hi} = insert lo {lo + 1..hi}" by auto
    then show ?thesis using few by (subst range_product.simps) (simp add: range_loop_product)
  next
    case many
    define mid where "mid = (lo + hi) sdiv 2"
    have "2 * mid + (lo + hi) smod 2 = lo + hi" using sdiv_mult_smod_eq [of "lo + hi" 2] by (simp add: mid_def)
    moreover have "\<bar>(lo + hi) smod 2\<bar> < 2" using smod_int_range [of 2 "lo + hi"] by auto
    ultimately have "lo \<le> mid" "mid \<le> hi" using many by linarith+
    then have "{lo..hi} = {lo..mid} \<union> {mid + 1..hi}" by auto
    then have "\<Prod>{lo..hi} = \<Prod>{lo..mid} * \<Prod>{mid + 1..hi}" by (simp add: prod.union_disjoint)
    moreover have "range_product lo mid = \<Prod>{lo..mid}" "range_product (mid + 1) hi = \<Prod>{mid + 1..hi}"
      using 1 many by (simp_all add: mid_def)
    ultimately show ?thesis using many by (subst range_product.simps) (simp add: Let_def mid_def [symmetric])
  qed (simp add: range_product.simps)
qed

section \<open>Binomial coefficients\<close>

lemma choose_step:
  fixes b j :: nat
  shows "int ((b + j) choose j) * (int b + int (Suc j)) = int ((b + Suc j) choose Suc j) * int (Suc j)"
proof -
  have "Suc (b + j) * ((b + j) choose j) = (Suc (b + j) choose Suc j) * Suc j" by (rule Suc_times_binomial_eq)
  then have "int (Suc (b + j) * ((b + j) choose j)) = int ((Suc (b + j) choose Suc j) * Suc j)" by (rule arg_cong)
  then show ?thesis by (simp add: algebra_simps)
qed

lemma choose_grows: "(b + j) choose j \<le> (b + j + k) choose (j + k)"
proof (induction k)
  case (Suc k)
  have "(b + j + k) choose (j + k) \<le> Suc (b + j + k) choose Suc (j + k)" by simp
  then show ?case using Suc by simp
qed simp

lemma choose_loop_exact:
  "choose_loop (int b) (int ((b + j) choose j)) (int (Suc j)) k = int ((b + (j + k)) choose (j + k))"
proof (induction k arbitrary: j)
  case (Suc k)
  have step: "int ((b + j) choose j) * (int b + int (Suc j)) sdiv int (Suc j) = int ((b + Suc j) choose Suc j)"
    unfolding choose_step by (simp add: sdiv_exact del: of_nat_Suc binomial_Suc_Suc)
  have index: "int (Suc j) + 1 = int (Suc (Suc j))" "j + Suc k = Suc j + k" by simp_all
  show ?case unfolding choose_loop.simps step index by (rule Suc)
qed simp

text \<open>Both quotients of the number form are exact.\<close>

lemma number_choose_step:
  fixes result i m c :: int
  assumes "0 < result" "0 < i" "result * m = c * i"
  shows "result sdiv gcd result i * (m sdiv (i sdiv gcd result i)) = c" "i sdiv gcd result i dvd m"
proof -
  define g where "g = gcd result i"
  have g: "0 < g" "g dvd result" "g dvd i" using assms by (simp_all add: g_def)
  obtain r' i' where r: "result = g * r'" and i: "i = g * i'" using g(2,3) by (auto elim!: dvdE)
  have "coprime (result div g) (i div g)" using assms(1) by (simp add: g_def div_gcd_coprime)
  then have cop: "coprime r' i'" using g(1) by (simp add: r i)
  have e: "r' * m = c * i'" using assms(3) g(1) unfolding r i by (simp add: mult.assoc mult.left_commute)
  then have "i' dvd r' * m" by simp
  then have d: "i' dvd m" using cop by (simp add: coprime_commute coprime_dvd_mult_right_iff)
  have q: "result sdiv g = r'" "i sdiv g = i'" using g by (simp_all add: r i sdiv_exact)
  have i': "i' \<noteq> 0" using assms(2) i by auto
  have "(r' * (m div i')) * i' = c * i'" using e d by (simp add: mult.assoc)
  then have "r' * (m div i') = c" using i' by (simp only: mult_cancel_right) blast
  then show "result sdiv gcd result i * (m sdiv (i sdiv gcd result i)) = c" "i sdiv gcd result i dvd m"
    unfolding g_def [symmetric] q using d by (simp_all add: sdiv_exact)
qed

lemma safe_below: "\<lbrakk>is_safe n; 0 \<le> m; m \<le> n\<rbrakk> \<Longrightarrow> is_safe m"
  by (auto simp: is_safe_def MAX_SAFE_def)

lemma number_choose_loop_exact:
  "is_safe (int ((b + j) choose j)) \<Longrightarrow>
   number_choose_loop (int b) (int ((b + j) choose j)) (int (Suc j)) k =
     (if is_safe (int ((b + (j + k)) choose (j + k))) then Inr (int ((b + (j + k)) choose (j + k))) else Inl NumericRange)"
proof (induction k arbitrary: j)
  case (Suc k)
  define c where "c = int ((b + Suc j) choose Suc j)"
  have pos: "0 < int ((b + j) choose j)" by simp
  have step: "int ((b + j) choose j) sdiv gcd (int ((b + j) choose j)) (int (Suc j)) *
      ((int b + int (Suc j)) sdiv (int (Suc j) sdiv gcd (int ((b + j) choose j)) (int (Suc j)))) = c"
    unfolding c_def by (rule number_choose_step(1) [OF pos _ choose_step]) simp
  have code: "number_choose_loop (int b) (int ((b + j) choose j)) (int (Suc j)) (Suc k) =
      (if \<not> is_safe (rnd53 c) then Inl NumericRange else number_choose_loop (int b) (rnd53 c) (int (Suc (Suc j))) k)"
    unfolding number_choose_loop.simps Let_def gcd_steps_abs step by (simp add: add.commute)
  have index: "j + Suc k = Suc j + k" by simp
  show ?case
  proof (cases "is_safe c")
    case True
    then show ?thesis using Suc.IH [of "Suc j"] unfolding code index rounded_safe [OF True] by (simp add: c_def del: of_nat_Suc binomial_Suc_Suc)
  next
    case False
    have "(b + Suc j) choose Suc j \<le> (b + Suc j + k) choose (Suc j + k)" by (rule choose_grows)
    then have "\<not> is_safe (int ((b + (Suc j + k)) choose (Suc j + k)))"
      using False safe_below [of "int ((b + (Suc j + k)) choose (Suc j + k))" c] by (auto simp: c_def add.assoc)
    then show ?thesis using False unfolding code index safe_rounded by simp
  qed
qed simp

lemma steps_choose:
  fixes n k :: int
  assumes "0 \<le> k" "k \<le> n"
  defines "s \<equiv> min k (n - k)"
  shows "n - s = int (nat (n - s))" "nat (n - s) + nat s = nat n" "nat n choose nat s = nat n choose nat k" "0 \<le> s"
proof -
  show "n - s = int (nat (n - s))" "nat (n - s) + nat s = nat n" "0 \<le> s" using assms by (auto simp: s_def)
  show "nat n choose nat s = nat n choose nat k"
  proof (cases "k \<le> n - k")
    case False
    have "nat n choose nat k = nat n choose (nat n - nat k)" using assms by (intro binomial_symmetric) simp
    moreover have "nat s = nat n - nat k" using assms(1,2) False by (simp add: s_def nat_diff_distrib)
    ultimately show ?thesis by simp
  qed (simp add: s_def)
qed

lemma number_combinations_exact:
  "number_combinations n k =
     (if n < 0 then Inl BadMathArgument
      else if k < 0 \<or> k > n then Inr 0
      else if is_safe (int (nat n choose nat k)) then Inr (int (nat n choose nat k)) else Inl NumericRange)"
proof (cases "0 \<le> k \<and> k \<le> n")
  case True
  define s where "s = min k (n - k)"
  note st = steps_choose [of k n, folded s_def]
  have "number_combinations n k = number_choose_loop (int (nat (n - s))) (int ((nat (n - s) + 0) choose 0)) (int (Suc 0)) (nat s)"
    using True st(1) by (simp add: number_combinations_def Let_def s_def [symmetric])
  also have "\<dots> = (if is_safe (int (nat n choose nat k)) then Inr (int (nat n choose nat k)) else Inl NumericRange)"
    using True st by (subst number_choose_loop_exact) (simp_all add: is_safe_def MAX_SAFE_def)
  finally show ?thesis using True by simp
next
  case False
  then show ?thesis by (auto simp: number_combinations_def)
qed

lemma big_combinations_exact:
  "big_combinations est n k =
     (if n < 0 then Inl BadMathArgument
      else if k < 0 \<or> k > n then Inr 0
      else if min k (n - k) > MAX_BIGINT_TERMS \<or> 0 < min k (n - k) \<and> est (n - min k (n - k) + 1) n (min k (n - k)) \<or>
          digit_count (int (nat n choose nat k)) > MAX_INTEGER_DIGITS then Inl ResourceLimit
      else Inr (int (nat n choose nat k)))"
proof (cases "0 \<le> k \<and> k \<le> n")
  case True
  define s where "s = min k (n - k)"
  note st = steps_choose [of k n, folded s_def]
  have s: "(if n - k < k then n - k else k) = s" by (auto simp: s_def)
  have "choose_loop (int (nat (n - s))) (int ((nat (n - s) + 0) choose 0)) (int (Suc 0)) (nat s) = int (nat n choose nat k)"
    using True st by (subst choose_loop_exact) simp
  then have loop: "choose_loop (n - s) 1 1 (nat s) = int (nat n choose nat k)" using True st(1) by simp
  show ?thesis unfolding big_combinations_def s Let_def s_def [symmetric] loop
    using True by (auto simp: assert_integer_digits_def)
next
  case False
  then show ?thesis by (auto simp: big_combinations_def)
qed

section \<open>Permutations and factorials\<close>

text \<open>\<open>n (n - 1) \<cdots> (n - k + 1)\<close>\<close>

definition falling :: "int \<Rightarrow> nat \<Rightarrow> int" where
  "falling n k = (\<Prod>t<k. n - int t)"

lemma falling_Suc: "falling n (Suc k) = falling n k * (n - int k)"
  by (simp add: falling_def)

lemma falling_positive: "int k \<le> n \<Longrightarrow> 0 < falling n k"
  unfolding falling_def by (intro prod_pos) auto

lemma falling_grows: "int (j + k) \<le> n \<Longrightarrow> falling n j \<le> falling n (j + k)"
proof (induction k)
  case (Suc k)
  then have "falling n j \<le> falling n (j + k)" by simp
  also have "falling n (j + k) * 1 \<le> falling n (j + k) * (n - int (j + k))"
    using Suc(2) falling_positive [of "j + k" n] by (intro mult_left_mono) simp_all
  finally show ?case by (simp add: falling_Suc)
qed simp

lemma falling_range: "int k \<le> n \<Longrightarrow> falling n k = \<Prod>{n - int k + 1..n}"
proof (induction k)
  case (Suc k)
  have "{n - int (Suc k) + 1..n} = insert (n - int k) {n - int k + 1..n}" using Suc(2) by auto
  then show ?case using Suc by (simp add: falling_Suc mult.commute)
qed (simp add: falling_def)

lemma falling_fact: "k \<le> n \<Longrightarrow> falling (int n) k * fact (n - k) = fact n"
proof (induction k)
  case (Suc k)
  then have "n - k = Suc (n - Suc k)" "int n - int k = int (n - k)" by (simp_all add: of_nat_diff)
  then have "falling (int n) (Suc k) * fact (n - Suc k) = falling (int n) k * fact (n - k)" by (simp add: falling_Suc)
  then show ?case using Suc by simp
qed (simp add: falling_def)

lemma number_permutations_loop_exact:
  "\<lbrakk>is_safe (falling n j); int (j + k) \<le> n\<rbrakk> \<Longrightarrow>
   number_permutations_loop n (falling n j) (int j) k =
     (if is_safe (falling n (j + k)) then Inr (falling n (j + k)) else Inl NumericRange)"
proof (induction k arbitrary: j)
  case (Suc k)
  have code: "number_permutations_loop n (falling n j) (int j) (Suc k) =
      (if \<not> is_safe (rnd53 (falling n (Suc j))) then Inl NumericRange
       else number_permutations_loop n (rnd53 (falling n (Suc j))) (int (Suc j)) k)"
    by (simp add: falling_Suc Let_def add.commute)
  have index: "j + Suc k = Suc j + k" by simp
  show ?case
  proof (cases "is_safe (falling n (Suc j))")
    case True
    have "int (Suc j + k) \<le> n" using Suc(3) by simp
    from Suc(1) [OF True this] show ?thesis unfolding code index rounded_safe [OF True] using True by simp
  next
    case False
    have "falling n (Suc j) \<le> falling n (Suc j + k)" "0 < falling n (Suc j)"
      using Suc(3) falling_grows [of "Suc j" k n] falling_positive [of "Suc j" n] by simp_all
    then have "\<not> is_safe (falling n (Suc j + k))" using False safe_below [of "falling n (Suc j + k)" "falling n (Suc j)"] by auto
    then show ?thesis using False unfolding code index safe_rounded by simp
  qed
qed simp

lemma number_permutations_exact:
  "number_permutations n k =
     (if n < 0 then Inl BadMathArgument
      else if k < 0 \<or> k > n then Inr 0
      else if is_safe (falling n (nat k)) then Inr (falling n (nat k)) else Inl NumericRange)"
  using number_permutations_loop_exact [of n 0 "nat k"]
  by (auto simp: number_permutations_def falling_def is_safe_def MAX_SAFE_def)

lemma big_permutations_exact:
  "big_permutations est n k =
     (if n < 0 then Inl BadMathArgument
      else if k < 0 \<or> k > n then Inr 0
      else if k > MAX_BIGINT_TERMS \<or> 0 < k \<and> est (n - k + 1) n 0 \<or> digit_count (falling n (nat k)) > MAX_INTEGER_DIGITS
      then Inl ResourceLimit
      else Inr (falling n (nat k)))"
  using falling_range [of "nat k" n]
  by (auto simp: big_permutations_def range_product_product assert_integer_digits_def Let_def)

lemma fact_range: "\<Prod>{2..int n} = fact n"
proof (induction n)
  case (Suc n)
  show ?case
  proof (cases "n = 0")
    case False
    then have "{2..int (Suc n)} = insert (int (Suc n)) {2..int n}" by auto
    then show ?thesis using Suc by simp
  qed simp
qed simp

lemma fact_safe: "n \<le> 18 \<Longrightarrow> is_safe (fact n)"
proof -
  assume "n \<le> 18"
  then have "(fact n :: int) \<le> fact 18" by (rule fact_mono)
  also have "(fact 18 :: int) = 6402373705728000" by (simp add: fact_numeral)
  finally have "(fact n :: int) \<le> 6402373705728000" .
  moreover have "0 < (fact n :: int)" by simp
  ultimately show ?thesis unfolding is_safe_def MAX_SAFE_def by linarith
qed

lemma factorial_loop_exact:
  "n \<le> 18 \<Longrightarrow> k \<le> n \<Longrightarrow> factorial_loop (fact k) (int k + 1) (int n) = fact n"
proof (induction "n - k" arbitrary: k)
  case 0
  then show ?case by (subst factorial_loop.simps) simp
next
  case (Suc m)
  then have k: "Suc k \<le> n" "m = n - Suc k" by simp_all
  have "fact k * (int k + 1) = fact (Suc k)" by (simp add: add.commute mult.commute)
  moreover have "rnd53 (fact (Suc k)) = fact (Suc k)" using k Suc(3) by (intro rounded_safe fact_safe) simp
  ultimately have "rnd53 (fact k * (int k + 1)) = fact (Suc k)" by (simp only:)
  then have "factorial_loop (fact k) (int k + 1) (int n) = factorial_loop (fact (Suc k)) (int (Suc k) + 1) (int n)"
    using k by (subst factorial_loop.simps) (simp add: add.commute del: fact_Suc)
  then show ?case using Suc(1) [OF k(2) Suc(3) k(1)] by simp
qed

lemma factorial_exact:
  "number_factorial n = (if n < 0 then Inl BadMathArgument else if is_safe (fact (nat n)) then Inr (fact (nat n)) else Inl NumericRange)"
  "big_factorial n = (if n < 0 then Inl BadMathArgument else if n > 5450 then Inl ResourceLimit else Inr (fact (nat n)))"
proof -
  have nineteen: "\<not> is_safe (fact m)" if "18 < m" for m
  proof -
    have "(fact 19 :: int) \<le> fact m" using that by (intro fact_mono) simp
    moreover have "(fact 19 :: int) = 121645100408832000" by (simp add: fact_numeral)
    ultimately show ?thesis by (simp add: is_safe_def MAX_SAFE_def)
  qed
  show "number_factorial n = (if n < 0 then Inl BadMathArgument else if is_safe (fact (nat n)) then Inr (fact (nat n)) else Inl NumericRange)"
  proof (cases "0 \<le> n \<and> n \<le> 18")
    case True
    have "factorial_loop 1 2 n = fact (nat n)"
    proof (cases "n = 0")
      case False
      then have "0 < n" using True by linarith
      then have "nat n \<le> 18" "1 \<le> nat n" using True by (simp_all add: nat_le_iff Suc_le_eq)
      from factorial_loop_exact [OF this] show ?thesis using True by simp
    qed (simp add: factorial_loop.simps)
    then show ?thesis using True fact_safe [of "nat n"] by (simp add: number_factorial_def nat_le_iff)
  next
    case False
    then show ?thesis using nineteen [of "nat n"] by (auto simp: number_factorial_def)
  qed
  show "big_factorial n = (if n < 0 then Inl BadMathArgument else if n > 5450 then Inl ResourceLimit else Inr (fact (nat n)))"
    using fact_range [of "nat n"] by (cases "n < 0") (simp_all add: big_factorial_def MAX_BIGINT_FACTORIAL_def range_product_product)
qed

text \<open>
  C26: counting is exact. Of numbers, \<open>factorial\<close>, \<open>combinations\<close> and \<open>permutations\<close> give the factorial,
  the binomial coefficient and the falling factorial, and refuse exactly those that are not safe
  integers, although they multiply in doubles; of bigints they give the same values and refuse only
  for their limits. Arguments below zero are refused, and a choice outside its set counts zero.
\<close>

theorem counting_exact:
  "number_factorial n = (if n < 0 then Inl BadMathArgument else if is_safe (fact (nat n)) then Inr (fact (nat n)) else Inl NumericRange) \<and>
   number_combinations n k =
     (if n < 0 then Inl BadMathArgument
      else if k < 0 \<or> k > n then Inr 0
      else if is_safe (int (nat n choose nat k)) then Inr (int (nat n choose nat k)) else Inl NumericRange) \<and>
   number_permutations n k =
     (if n < 0 then Inl BadMathArgument
      else if k < 0 \<or> k > n then Inr 0
      else if is_safe (fact (nat n) div fact (nat (n - k))) then Inr (fact (nat n) div fact (nat (n - k))) else Inl NumericRange) \<and>
   big_factorial n = (if n < 0 then Inl BadMathArgument else if n > 5450 then Inl ResourceLimit else Inr (fact (nat n))) \<and>
   big_combinations est n k =
     (if n < 0 then Inl BadMathArgument
      else if k < 0 \<or> k > n then Inr 0
      else if min k (n - k) > MAX_BIGINT_TERMS \<or> 0 < min k (n - k) \<and> est (n - min k (n - k) + 1) n (min k (n - k)) \<or>
          digit_count (int (nat n choose nat k)) > MAX_INTEGER_DIGITS then Inl ResourceLimit
      else Inr (int (nat n choose nat k))) \<and>
   big_permutations est n k =
     (if n < 0 then Inl BadMathArgument
      else if k < 0 \<or> k > n then Inr 0
      else if k > MAX_BIGINT_TERMS \<or> 0 < k \<and> est (n - k + 1) n 0 \<or>
          digit_count (fact (nat n) div fact (nat (n - k))) > MAX_INTEGER_DIGITS
      then Inl ResourceLimit
      else Inr (fact (nat n) div fact (nat (n - k))))"
proof -
  have "falling n (nat k) = fact (nat n) div fact (nat (n - k))" if "0 \<le> k" "k \<le> n"
  proof -
    have "falling (int (nat n)) (nat k) * fact (nat n - nat k) = fact (nat n)" using that by (intro falling_fact) simp
    moreover have "nat n - nat k = nat (n - k)" using that by simp
    ultimately have "fact (nat n) = falling n (nat k) * fact (nat (n - k))" using that by simp
    then show ?thesis by simp
  qed
  then show ?thesis
    using factorial_exact number_combinations_exact big_combinations_exact number_permutations_exact big_permutations_exact
    by (intro conjI) (simp_all split: if_splits)
qed

end
