(* ===== verification/MathModular.thy ===== *)
theory MathModular
  imports MathCounting
begin

text \<open>
  Modular powers and inverses, Fibonacci numbers by doubling, and texts in a base: each equals the
  definition it is a fast way to compute.
\<close>

section \<open>Modular arithmetic\<close>

lemma residue_mod [simp]:
  assumes "0 < m"
  shows "residue a m = a mod m"
proof -
  have "0 \<le> a smod m + m" using smod_int_range [of m a] assms by auto
  then have "residue a m = (a smod m + m) mod m" using assms by (simp add: residue_def sdiv_smod_pos)
  also have "\<dots> = (a smod m + a sdiv m * m) mod m" by simp
  also have "a smod m + a sdiv m * m = a" using sdiv_mult_smod_eq [of a m] by simp
  finally show ?thesis .
qed

lemma mod_pow_loop_power:
  "\<lbrakk>0 \<le> result; result < m; 0 \<le> b; b < m; 0 \<le> e\<rbrakk> \<Longrightarrow> mod_pow_loop result b e m = result * b ^ nat e mod m"
proof (induction result b e m rule: mod_pow_loop.induct)
  case (1 result b e m)
  show ?case
  proof (cases "e > 0")
    case True
    have m: "0 < m" using 1(2,3) by simp
    have sq: "b * b smod m = b * b mod m" "result * b smod m = result * b mod m"
      using 1(2,4) m by (simp_all add: sdiv_smod_pos)
    define r' where "r' = (if e mod 2 = 1 then result * b mod m else result)"
    have r: "0 \<le> r'" "r' < m" using 1(2,3) m by (simp_all add: r'_def)
    have ih: "mod_pow_loop r' (b * b mod m) (e div 2) m = r' * (b * b mod m) ^ nat (e div 2) mod m"
      using 1(1) [OF True, unfolded sq, folded r'_def] r m True by simp
    define k where "k = nat (e div 2)"
    have e: "nat e = (if e mod 2 = 1 then Suc (2 * k) else 2 * k)"
    proof -
      have "k = nat e div 2" using True by (simp add: k_def nat_div_distrib)
      moreover have "e mod 2 = 1 \<longleftrightarrow> odd (nat e)" using True by (simp add: odd_iff_mod_2_eq_one [symmetric] even_nat_iff)
      ultimately show ?thesis by (cases "odd (nat e)") simp_all
    qed
    have "r' * (b * b mod m) ^ k mod m = r' * (b * b) ^ k mod m" by (metis mod_mult_right_eq power_mod)
    also have "\<dots> = result * b ^ nat e mod m"
      by (simp add: r'_def e power_mult power2_eq_square [symmetric] mod_mult_left_eq mult.assoc)
    finally have "r' * (b * b mod m) ^ k mod m = result * b ^ nat e mod m" .
    moreover have "mod_pow_loop result b e m = mod_pow_loop r' (b * b mod m) (e div 2) m"
      using True by (subst mod_pow_loop.simps) (simp add: r'_def sq)
    ultimately show ?thesis using ih by (simp add: k_def)
  next
    case False
    then show ?thesis using 1 by (subst mod_pow_loop.simps) simp
  qed
qed

lemma mod_pow_exact:
  "mod_pow base e m =
     (if m \<le> 0 \<or> e < 0 then Inl BadMathArgument
      else if m \<noteq> 1 \<and> MAX_INTEGER_DIGITS < 2 * digit_count m then Inl ResourceLimit
      else Inr (base ^ nat e mod m))"
proof (cases "1 < m \<and> 0 \<le> e")
  case True
  then have "mod_pow_loop 1 (residue base m) e m = 1 * (base mod m) ^ nat e mod m"
    by (subst mod_pow_loop_power) simp_all
  then show ?thesis using True by (simp add: mod_pow_def assert_integer_digits_def power_mod)
next
  case False
  then have "m \<le> 0 \<or> e < 0 \<or> m = 1" by auto
  then show ?thesis by (auto simp: mod_pow_def)
qed

lemma inverse_loop_gcd:
  "\<lbrakk>0 \<le> r0; 0 \<le> r1; m dvd a * t0 - r0; m dvd a * t1 - r1; inverse_loop r0 r1 t0 t1 = (r, t)\<rbrakk> \<Longrightarrow>
   r = gcd r0 r1 \<and> m dvd a * t - r"
proof (induction r0 r1 t0 t1 rule: inverse_loop.induct)
  case (1 r0 r1 t0 t1)
  show ?case
  proof (cases "r1 = 0")
    case True
    then show ?thesis using 1(2,4,6) by (simp add: inverse_loop.simps)
  next
    case False
    define q where "q = r0 sdiv r1"
    have q: "r0 - q * r1 = r0 mod r1"
      using 1(2,3) False by (simp add: q_def sdiv_smod_pos minus_div_mult_eq_mod)
    have "a * (t0 - q * t1) - (r0 - q * r1) = (a * t0 - r0) - q * (a * t1 - r1)" by algebra
    moreover have "m dvd (a * t0 - r0) - q * (a * t1 - r1)" by (rule dvd_diff [OF 1(4) dvd_mult [OF 1(5)]])
    ultimately have inv: "m dvd a * (t0 - q * t1) - (r0 - q * r1)" by (simp only:)
    have code: "inverse_loop r0 r1 t0 t1 = inverse_loop r1 (r0 - q * r1) t1 (t0 - q * t1)"
      using False by (subst inverse_loop.simps) (simp add: q_def Let_def)
    have "0 \<le> r0 - q * r1" unfolding q using 1(3) False by simp
    then have "r = gcd r1 (r0 - q * r1) \<and> m dvd a * t - r"
      by (rule 1(1) [OF False q_def 1(3) _ 1(5) inv 1(6) [unfolded code]])
    moreover have "gcd r1 (r0 - q * r1) = gcd r0 r1" unfolding q by (metis gcd.commute gcd_red_int)
    ultimately show ?thesis by metis
  qed
qed

lemma mod_inverse_exact:
  "mod_inverse a m = Inr x \<longleftrightarrow> 0 < m \<and> 0 \<le> x \<and> x < m \<and> a * x mod m = 1 mod m"
  "mod_inverse a m = Inl e \<longleftrightarrow> e = BadMathArgument \<and> (m \<le> 0 \<or> gcd a m \<noteq> 1)"
proof -
  obtain r t where rt: "inverse_loop m (residue a m) 0 1 = (r, t)" by fastforce
  have loop: "r = gcd a m" "m dvd a * t - r" if m: "0 < m"
  proof -
    have "m dvd a * 0 - m" "m dvd a * 1 - a mod m" by (simp_all add: dvd_minus_mod)
    then have r: "r = gcd m (a mod m) \<and> m dvd a * t - r"
      using m rt [unfolded residue_mod [OF m]] by (intro inverse_loop_gcd) simp_all
    have "gcd m (a mod m) = gcd a m" by (metis gcd.commute gcd_red_int)
    then show "r = gcd a m" "m dvd a * t - r" using r by metis+
  qed
  show "mod_inverse a m = Inl e \<longleftrightarrow> e = BadMathArgument \<and> (m \<le> 0 \<or> gcd a m \<noteq> 1)"
    using loop(1) rt by (auto simp: mod_inverse_def split: if_splits)
  show "mod_inverse a m = Inr x \<longleftrightarrow> 0 < m \<and> 0 \<le> x \<and> x < m \<and> a * x mod m = 1 mod m"
  proof (cases "0 < m \<and> gcd a m = 1")
    case True
    then have "mod_inverse a m = Inr (t mod m)" using loop(1) rt by (simp add: mod_inverse_def)
    moreover have "a * (t mod m) mod m = 1 mod m"
      using True loop by (metis mod_eq_dvd_iff mod_mult_right_eq)
    moreover have "x = t mod m" if x: "0 \<le> x" "x < m" "a * x mod m = 1 mod m"
    proof -
      have "m dvd a * x - a * t" using x(3) loop True by (metis mod_eq_dvd_iff)
      then have "m dvd a * (x - t)" by (simp add: right_diff_distrib)
      then have "m dvd x - t" using True by (simp add: coprime_iff_gcd_eq_1 coprime_dvd_mult_right_iff gcd.commute)
      then show ?thesis using x by (metis mod_eq_dvd_iff mod_pos_pos_trivial)
    qed
    ultimately show ?thesis using True by auto
  next
    case False
    have "gcd a m = 1" if "0 < m" "a * x mod m = 1 mod m"
    proof -
      have "m dvd a * x - 1" using that by (simp add: mod_eq_dvd_iff)
      then have "gcd a m dvd a * x - 1" by (meson dvd_trans gcd_dvd2)
      moreover have "gcd a m dvd a * x" by simp
      ultimately have "gcd a m dvd 1" by (metis dvd_diff add_diff_cancel_left' diff_add_cancel)
      then show ?thesis by simp
    qed
    then show ?thesis using False rt loop(1) by (auto simp: mod_inverse_def split: if_splits)
  qed
qed

text \<open>
  C25: modular powers and inverses are right: \<open>modPow\<close> is the power modulo \<open>m\<close>, \<open>modInverse\<close> returns
  a residue exactly if it is the inverse, and it fails exactly when there is none.
\<close>

theorem modular_arithmetic_exact:
  "(mod_pow base e m =
     (if m \<le> 0 \<or> e < 0 then Inl BadMathArgument
      else if m \<noteq> 1 \<and> MAX_INTEGER_DIGITS < 2 * digit_count m then Inl ResourceLimit
      else Inr (base ^ nat e mod m))) \<and>
   (mod_inverse a m = Inr x \<longleftrightarrow> 0 < m \<and> 0 \<le> x \<and> x < m \<and> a * x mod m = 1 mod m) \<and>
   (mod_inverse a m = Inl r \<longleftrightarrow> r = BadMathArgument \<and> (m \<le> 0 \<or> 1 < gcd a m))"
proof (intro conjI mod_pow_exact mod_inverse_exact(1))
  have "gcd a m \<noteq> 1 \<longleftrightarrow> 1 < gcd a m" if "0 < m" using gcd_pos_int [of a m] that by linarith
  then show "mod_inverse a m = Inl r \<longleftrightarrow> r = BadMathArgument \<and> (m \<le> 0 \<or> 1 < gcd a m)"
    unfolding mod_inverse_exact(2) by linarith
qed

section \<open>Fibonacci numbers\<close>

fun fib :: "nat \<Rightarrow> int" where
  "fib 0 = 0"
| "fib (Suc 0) = 1"
| "fib (Suc (Suc n)) = fib n + fib (Suc n)"

lemma fib_sum: "fib (Suc (n + k)) = fib (Suc k) * fib (Suc n) + fib k * fib n"
  by (induction n rule: fib.induct) (simp_all add: algebra_simps)

lemma fib_double:
  "fib (2 * k) = fib k * (2 * fib (Suc k) - fib k)" "fib (Suc (2 * k)) = fib k * fib k + fib (Suc k) * fib (Suc k)"
proof -
  show odd: "fib (Suc (2 * k)) = fib k * fib k + fib (Suc k) * fib (Suc k)"
    using fib_sum [of k k] by (simp add: mult_2 add.commute)
  have "fib (Suc (Suc k + k)) = fib (Suc k) * fib (Suc (Suc k)) + fib k * fib (Suc k)" by (rule fib_sum)
  then have "fib (Suc (Suc (2 * k))) = fib (Suc k) * (fib k + fib (Suc k)) + fib k * fib (Suc k)" by (simp add: mult_2)
  then show "fib (2 * k) = fib k * (2 * fib (Suc k) - fib k)" using odd by (simp add: algebra_simps)
qed

lemma fibonacci_pair_fib: "fibonacci_pair n = (fib n, fib (Suc n))"
proof (induction n rule: fibonacci_pair.induct)
  case (1 n)
  show ?case
  proof (cases "n = 0")
    case False
    define k where "k = n div 2"
    have ih: "fibonacci_pair (n div 2) = (fib k, fib (Suc k))" using 1 False by (simp add: k_def)
    show ?thesis
    proof (cases "n mod 2 = 0")
      case True
      then have n: "n = 2 * k" unfolding k_def by presburger
      show ?thesis using False True ih by (subst fibonacci_pair.simps) (simp add: Let_def fib_double [symmetric] n)
    next
      case odd: False
      then have n: "n = Suc (2 * k)" unfolding k_def by presburger
      have "fibonacci_pair n = (fib (Suc (2 * k)), fib (2 * k) + fib (Suc (2 * k)))"
        using False odd ih by (subst fibonacci_pair.simps) (simp add: Let_def fib_double)
      then show ?thesis by (simp add: n)
    qed
  qed (simp add: fibonacci_pair.simps)
qed

text \<open>
  \<open>fibonacci\<close> is the Fibonacci number: the doubling of the code computes the recursion, and the
  only refusals are arguments that are no safe number, below zero or past 47851, and a number of more
  than 10000 digits.
\<close>

theorem fibonacci_exact:
  "fibonacci v =
     (case v of
        NumberValue n \<Rightarrow>
          if \<not> is_safe n \<or> n < 0 then Inl BadMathArgument
          else if n > 47851 \<or> digit_count (fib (nat n)) > 10000 then Inl ResourceLimit
          else Inr (fib (nat n))
      | _ \<Rightarrow> Inl BadMathArgument)"
  by (cases v) (simp_all add: fibonacci_def fibonacci_pair_fib MAX_FIBONACCI_def MAX_FIBONACCI_DIGITS_def Let_def)

section \<open>Texts in a base\<close>

definition base_value :: "nat \<Rightarrow> nat list \<Rightarrow> nat" where
  "base_value b ds = foldl (\<lambda>a d. b * a + d) 0 ds"

lemma base_value_snoc: "base_value b (ds @ [d]) = b * base_value b ds + d"
  by (simp add: base_value_def)

lemma base_value_digits: "2 \<le> b \<Longrightarrow> base_value b (base_digits b n) = n"
proof (induction b n rule: base_digits.induct)
  case (1 b n)
  then show ?case by (subst base_digits.simps) (simp add: base_value_def [of b "[n]"] base_value_snoc)
qed

lemma base_digits_small: "2 \<le> b \<Longrightarrow> d \<in> set (base_digits b n) \<Longrightarrow> d < b"
proof (induction b n rule: base_digits.induct)
  case (1 b n)
  then show ?case by (subst (asm) base_digits.simps) (auto split: if_splits)
qed

lemma base_digit_char: "d < 36 \<Longrightarrow> base_digit (base_char d) = int d"
proof -
  have code: "(of_char (char_of m :: char) :: int) = int m" if "m < 256" for m :: nat
  proof -
    have "int (of_char (char_of m :: char)) = of_char (char_of m :: char)" by (rule of_nat_of_char)
    then show ?thesis using that by simp
  qed
  show "d < 36 \<Longrightarrow> base_digit (base_char d) = int d" by (auto simp: base_digit_def base_char_def Let_def code)
qed

lemma base_char_plain: "d < 36 \<Longrightarrow> base_char d \<noteq> CHR ''-'' \<and> base_char d \<noteq> CHR ''+''"
proof -
  assume d: "d < 36"
  have "base_digit (CHR ''-'') = 99" "base_digit (CHR ''+'') = 99" by (simp_all add: base_digit_def)
  then show ?thesis using base_digit_char [OF d] d by auto
qed

lemma from_base_loop_digits:
  "\<lbrakk>b \<le> 36; \<forall>d\<in>set ds. d < b\<rbrakk> \<Longrightarrow>
   from_base_loop (int b) (int r) (map base_char ds) = Inr (int (foldl (\<lambda>a d. b * a + d) r ds))"
proof (induction ds arbitrary: r)
  case (Cons d ds)
  then have "base_digit (base_char d) = int d" by (simp add: base_digit_char)
  then show ?case using Cons(1) [of "b * r + d"] Cons(2,3) by (simp add: mult.commute)
qed simp

lemma from_base_text:
  assumes b: "2 \<le> b" "b \<le> 36" and len: "length (base_digits b (nat \<bar>n\<bar>)) \<le> MAX_DIGITS"
  shows "from_base (base_text n b) (int b) = Inr (Inr n)"
proof -
  define ds where "ds = base_digits b (nat \<bar>n\<bar>)"
  have small: "\<forall>d\<in>set ds. d < b" using base_digits_small [OF b(1)] by (auto simp: ds_def)
  have ne: "ds \<noteq> []" unfolding ds_def by (subst base_digits.simps) simp
  then obtain d rest where ds: "ds = d # rest" by (cases ds) auto
  have sign: "take_sign (base_text n b) = (n < 0, map base_char ds)"
    using base_char_plain [of d] small b(2) ds by (simp add: base_text_def ds_def [symmetric])
  have "from_base_loop (int b) 0 (map base_char ds) = Inr \<bar>n\<bar>"
    using from_base_loop_digits [OF b(2) small, of 0] base_value_digits [OF b(1), of "nat \<bar>n\<bar>"]
    by (simp add: base_value_def ds_def)
  then show ?thesis using b len ne
    by (simp add: from_base_def assert_base_def sign exceeds_digit_limit_def ds_def [symmetric])
qed

text \<open>
  A text in a base reads back: \<open>fromBase\<close> of what \<open>toBase\<close> writes is the integer, for every base
  from 2 to 36 and every integer of up to 10000 digits in it, number or bigint, negative or not.
\<close>

theorem base_text_roundtrip:
  assumes "to_base v base = Inr s" "length s \<le> MAX_DIGITS"
  shows "from_base s base = Inr (Inr (case v of BigValue n \<Rightarrow> n | NumberValue n \<Rightarrow> n | OtherNumber \<Rightarrow> 0))"
proof -
  have base: "2 \<le> base" "base \<le> 36" using assms(1) by (auto simp: to_base_def assert_base_def split: if_splits)
  define n where "n = (case v of BigValue n \<Rightarrow> n | NumberValue n \<Rightarrow> n | OtherNumber \<Rightarrow> 0)"
  have s: "s = base_text n (nat base)"
    using assms(1) base by (cases v) (auto simp: to_base_def assert_base_def n_def split: if_splits)
  have "length (base_digits (nat base) (nat \<bar>n\<bar>)) \<le> MAX_DIGITS" using assms(2) by (simp add: s base_text_def split: if_splits)
  then have "from_base (base_text n (nat base)) (int (nat base)) = Inr (Inr n)" using base by (intro from_base_text) simp_all
  then show ?thesis using base by (simp add: s n_def)
qed

lemma base_text_roundtrip_witness: "from_base ''-ff'' 16 = Inr (Inr (-255))"
proof -
  have "base_text (-255) 16 = ''-ff''" by (simp add: base_text_def base_digits.simps base_char_def char_of_def bit_0)
  then have "to_base (BigValue (-255)) 16 = Inr ''-ff''" by (simp add: to_base_def assert_base_def)
  from base_text_roundtrip [OF this] show ?thesis by (simp add: MAX_DIGITS_def)
qed

end
