(* ===== verification/MathFactors.thy ===== *)
theory MathFactors
  imports MathPrimes "HOL-Library.Multiset"
begin

text \<open>
  The factors of a number: the wheel of trial divisions leaves a number without small divisors, and
  what Pollard's rho splits it into are divisors.
\<close>

section \<open>Trial division\<close>

lemma divide_out_divides:
  "\<lbrakk>1 < f; 0 < n\<rbrakk> \<Longrightarrow> \<exists>n' k. divide_out f (n, out) = (n', out @ replicate k f) \<and> n = f ^ k * n' \<and> 0 < n' \<and> \<not> f dvd n'"
proof (induction f "(n, out)" arbitrary: n out rule: divide_out.induct)
  case (1 f n out)
  show ?case
  proof (cases "f dvd n")
    case True
    then obtain m where m: "n = f * m" ..
    have pos: "0 < m" using 1(2,3) m by (simp add: zero_less_mult_iff)
    have "n smod f = 0" using True 1(2,3) by (simp add: sdiv_smod_pos dvd_eq_mod_eq_0)
    moreover have "n sdiv f = m" using 1(2) m by (simp add: sdiv_exact)
    ultimately have q: "n smod f = 0" "n sdiv f = m" by simp_all
    obtain n' k where r: "divide_out f (m, out @ [f]) = (n', (out @ [f]) @ replicate k f)" "m = f ^ k * n'" "0 < n'" "\<not> f dvd n'"
      using 1(1) [of] 1(2,3) q pos by (metis)
    have "divide_out f (n, out) = (n', out @ replicate (Suc k) f)"
      using 1(2,3) q r(1) by (subst divide_out.simps) simp
    moreover have "n = f ^ Suc k * n'" using m r(2) by simp
    ultimately show ?thesis using r(3,4) by blast
  next
    case False
    then have "n smod f \<noteq> 0" using 1(2,3) by (simp add: sdiv_smod_pos dvd_eq_mod_eq_0)
    then have "divide_out f (n, out) = (n, out @ replicate 0 f)" by (subst divide_out.simps) simp
    then show ?thesis using 1(3) False by (metis power_0 mult_1)
  qed
qed

text \<open>
  The state before a trial divisor \<open>p\<close>: what was found and what is left multiply to the input, the
  factors found are primes below \<open>p\<close> in order, and what is left has no divisor below \<open>p\<close>.
\<close>

definition trial_state :: "int \<Rightarrow> int \<Rightarrow> int \<times> int list \<Rightarrow> bool" where
  "trial_state input p = (\<lambda>(n, out).
     0 < n \<and> prod_list out * n = input \<and> sorted out \<and> (\<forall>q\<in>set out. prime_int q \<and> q < p) \<and>
     (\<forall>d. 1 < d \<and> d < p \<longrightarrow> \<not> d dvd n))"

lemma trial_divide:
  assumes state: "trial_state input f s" and f: "1 < f"
  shows "trial_state input (f + 1) (divide_out f s)"
proof -
  obtain n out where s: "s = (n, out)" by (cases s)
  have st: "0 < n" "prod_list out * n = input" "sorted out" "\<forall>q\<in>set out. prime_int q \<and> q < f" "\<forall>d. 1 < d \<and> d < f \<longrightarrow> \<not> d dvd n"
    using state by (simp_all add: trial_state_def s)
  obtain n' k where d: "divide_out f (n, out) = (n', out @ replicate k f)" "n = f ^ k * n'" "0 < n'" "\<not> f dvd n'"
    using divide_out_divides [OF f st(1)] by blast
  have prime: "prime_int f" if "k \<noteq> 0"
  proof (rule ccontr)
    assume "\<not> prime_int f"
    then obtain c where c: "1 < c" "c dvd f" "c * c \<le> f" using composite_divisor f by blast
    have "c * 1 < c * c" using c(1) by simp
    then have "c < f" using c(3) by simp
    moreover have "f dvd n" using d(2) that by (cases k) simp_all
    ultimately show False using st(5) c by (meson dvd_trans)
  qed
  have "prod_list (out @ replicate k f) * n' = input" using st(2) d(2) by (simp add: prod_list_replicate mult.assoc)
  moreover have "sorted (out @ replicate k f)" using st(3,4) by (auto simp: sorted_append)
  moreover have "\<forall>q\<in>set (out @ replicate k f). prime_int q \<and> q < f + 1" using st(4) prime by (auto split: if_splits)
  moreover have "\<not> c dvd n'" if "1 < c" "c < f + 1" for c
  proof (cases "c = f")
    case False
    then have "\<not> c dvd n" using st(5) that by simp
    then show ?thesis using d(2) by (metis dvd_mult)
  qed (use d(4) in simp)
  ultimately show ?thesis using d by (simp add: trial_state_def s)
qed

lemma trial_skip:
  assumes "trial_state input f s" "1 < q" "q < f" "q dvd f"
  shows "trial_state input (f + 1) s"
proof -
  have "\<not> f dvd fst s" using assms by (auto simp: trial_state_def split: prod.splits dest: dvd_trans)
  then show ?thesis using assms(1) by (auto simp: trial_state_def split: prod.splits) (metis zle_add1_eq_le less_le)+
qed

lemma wheel_state:
  "\<lbrakk>trial_state input p s; p mod 6 = 5; 5 \<le> p\<rbrakk> \<Longrightarrow>
   \<exists>p'. trial_state input p' (wheel p s) \<and> 5 \<le> p' \<and> \<not> (p' \<le> TRIAL_LIMIT \<and> p' * p' \<le> fst (wheel p s))"
proof (induction p s rule: wheel.induct)
  case (1 p n out)
  show ?case
  proof (cases "p \<le> TRIAL_LIMIT \<and> p * p \<le> n")
    case True
    have two: "2 dvd p + 1" "2 dvd p + 3" "2 dvd p + 5" "3 dvd p + 4" using 1(3) by presburger+
    let ?a = "divide_out p (n, out)" and ?b = "divide_out (p + 2) (divide_out p (n, out))"
    have "trial_state input (p + 1) ?a" using trial_divide [OF 1(2)] 1(4) by simp
    then have "trial_state input (p + 1 + 1) ?a" by (rule trial_skip [of _ _ _ 2]) (use two 1(4) in simp_all)
    then have "trial_state input (p + 2 + 1) ?b" using 1(4) by (intro trial_divide) (simp_all add: add.assoc)
    then have "trial_state input (p + 3 + 1) ?b" by (intro trial_skip [of _ _ _ 2]) (use two 1(4) in \<open>simp_all add: add.assoc\<close>)
    then have "trial_state input (p + 4 + 1) ?b" by (intro trial_skip [of _ _ _ 3]) (use two 1(4) in \<open>simp_all add: add.assoc\<close>)
    then have "trial_state input (p + 5 + 1) ?b" by (intro trial_skip [of _ _ _ 2]) (use two 1(4) in \<open>simp_all add: add.assoc\<close>)
    then have "trial_state input (p + 6) ?b" by (simp add: add.assoc)
    moreover have "(p + 6) mod 6 = 5" "5 \<le> p + 6" using 1(3,4) by simp_all
    moreover have "wheel p (n, out) = wheel (p + 6) ?b" using True by (subst wheel.simps) simp
    ultimately show ?thesis using 1(1) [OF True] by simp
  next
    case False
    then have "wheel p (n, out) = (n, out)" by (subst wheel.simps) (simp only: if_False)
    then show ?thesis using 1(2,4) False by (intro exI [of _ p]) simp
  qed
qed

section \<open>Pollard's rho\<close>

text \<open>Whatever the sequence, what is returned is a divisor: only greatest common divisors with \<open>n\<close> are.\<close>

lemma rho_round_divides: "\<lbrakk>g dvd n; 0 \<le> g; rho_round n c x r k (y, ys, q, g) = (y', ys', q', g')\<rbrakk> \<Longrightarrow> g' dvd n \<and> 0 \<le> g'"
proof (induction n c x r k "(y, ys, q, g)" arbitrary: y ys q g rule: rho_round.induct)
  case (1 n c x r k y ys q g)
  show ?case
  proof (cases "k < r \<and> g = 1")
    case True
    obtain y1 q1 where b: "rho_batch n c x (min 128 (r - k)) (y, q) = (y1, q1)" by fastforce
    then have "rho_round n c x r (k + 128) (y1, y, q1, big_gcd q1 n) = (y', ys', q', g')"
      using 1(4) True by (subst (asm) rho_round.simps) simp
    then show ?thesis using 1(1) [OF True b [symmetric]] by simp
  next
    case False
    then show ?thesis using 1(2-4) by (subst (asm) rho_round.simps) (simp split: if_splits)
  qed
qed

definition divides_state :: "int \<Rightarrow> int \<times> int \<times> int \<times> int \<Rightarrow> bool" where
  "divides_state n = (\<lambda>(y, ys, q, g). g dvd n \<and> 0 \<le> g)"

lemma rho_rounds_divides:
  assumes "rho_rounds n c r x s = Some res" "divides_state n s"
  shows "snd (snd res) dvd n \<and> 0 \<le> snd (snd res) \<and> snd (snd res) \<noteq> 1"
proof -
  have "divides_state n s \<longrightarrow> snd (snd res) dvd n \<and> 0 \<le> snd (snd res) \<and> snd (snd res) \<noteq> 1"
  proof (rule rho_rounds.raw_induct [where xa = "((((n, c), r), x), s)" and y = res
      and P = "\<lambda>n c r x s res. divides_state n s \<longrightarrow> snd (snd res) dvd n \<and> 0 \<le> snd (snd res) \<and> snd (snd res) \<noteq> 1", unfolded prod.case])
    fix rec :: "int \<Rightarrow> int \<Rightarrow> nat \<Rightarrow> int \<Rightarrow> int \<times> int \<times> int \<times> int \<Rightarrow> (int \<times> int \<times> int) option"
    fix n c :: int and r :: nat and x :: int and s res
    assume ih: "\<And>n c r x s res. rec n c r x s = Some res \<Longrightarrow>
        divides_state n s \<longrightarrow> snd (snd res) dvd n \<and> 0 \<le> snd (snd res) \<and> snd (snd res) \<noteq> 1"
      and run: "(case s of (y, ys, q, g) \<Rightarrow>
        if g = 1 then rec n c (2 * r) y (rho_round n c y r 0 ((rho_step n c ^^ r) y, ys, q, g)) else Some (x, ys, g)) = Some res"
    obtain y ys q g where s: "s = (y, ys, q, g)" by (cases s)
    show "divides_state n s \<longrightarrow> snd (snd res) dvd n \<and> 0 \<le> snd (snd res) \<and> snd (snd res) \<noteq> 1"
    proof (cases "g = 1")
      case True
      obtain y' ys' q' g' where r: "rho_round n c y r 0 ((rho_step n c ^^ r) y, ys, q, g) = (y', ys', q', g')"
        by (cases "rho_round n c y r 0 ((rho_step n c ^^ r) y, ys, q, g)")
      then have "divides_state n (y', ys', q', g')" using rho_round_divides [OF _ _ r] True by (simp add: divides_state_def)
      then show ?thesis using ih run True r by (simp add: s)
    next
      case False
      then show ?thesis using run by (auto simp: s divides_state_def)
    qed
  qed (use assms in simp)
  then show ?thesis using assms by blast
qed

lemma rho_rewalk_divides:
  assumes "rho_rewalk n c x ys = Some g"
  shows "g dvd n \<and> 0 \<le> g \<and> g \<noteq> 1"
proof (rule rho_rewalk.raw_induct [where xa = "(((n, c), x), ys)" and y = g
    and P = "\<lambda>n c x ys g. g dvd n \<and> 0 \<le> g \<and> g \<noteq> 1", unfolded prod.case])
  fix rec :: "int \<Rightarrow> int \<Rightarrow> int \<Rightarrow> int \<Rightarrow> int option" and n c x ys g :: int
  assume ih: "\<And>n c x ys g. rec n c x ys = Some g \<Longrightarrow> g dvd n \<and> 0 \<le> g \<and> g \<noteq> 1"
    and run: "(let ys' = rho_step n c ys; g = big_gcd (big_abs (x - ys')) n in if g = 1 then rec n c x ys' else Some g) = Some g"
  define h where "h = big_gcd (big_abs (x - rho_step n c ys)) n"
  have h: "h dvd n" "0 \<le> h" by (simp_all add: h_def)
  have "(if h = 1 then rec n c x (rho_step n c ys) else Some h) = Some g" using run unfolding Let_def h_def .
  then show "g dvd n \<and> 0 \<le> g \<and> g \<noteq> 1" using ih h by (cases "h = 1") auto
qed (use assms in simp)

lemma pollard_from_divides:
  assumes "pollard_from n c = Some d"
  shows "d dvd n \<and> 0 \<le> d \<and> d \<noteq> 1 \<and> d \<noteq> n"
proof (rule pollard_from.raw_induct [where P = "\<lambda>n c d. d dvd n \<and> 0 \<le> d \<and> d \<noteq> 1 \<and> d \<noteq> n", OF _ assms])
  fix rec :: "int \<Rightarrow> int \<Rightarrow> int option" and n c d :: int
  assume ih: "\<And>n c d. rec n c = Some d \<Longrightarrow> d dvd n \<and> 0 \<le> d \<and> d \<noteq> 1 \<and> d \<noteq> n"
    and run: "Option.bind (rho_rounds n c 1 2 (2, 2, 1, 1)) (\<lambda>(x, ys, g).
        Option.bind (if g = n then rho_rewalk n c x ys else Some g) (\<lambda>g. if g \<noteq> n then Some g else rec n (c + 1))) = Some d"
  obtain x ys g h where rounds: "rho_rounds n c 1 2 (2, 2, 1, 1) = Some (x, ys, g)"
    and h: "(if g = n then rho_rewalk n c x ys else Some g) = Some h" "(if h \<noteq> n then Some h else rec n (c + 1)) = Some d"
    using run by (auto simp: bind_eq_Some_conv)
  have "g dvd n" "0 \<le> g" "g \<noteq> 1" using rho_rounds_divides [OF rounds] by (simp_all add: divides_state_def)
  then have "h dvd n \<and> 0 \<le> h \<and> h \<noteq> 1" using h(1) rho_rewalk_divides by (cases "g = n") auto
  then show "d dvd n \<and> 0 \<le> d \<and> d \<noteq> 1 \<and> d \<noteq> n" using h(2) ih by (cases "h = n") auto
qed

lemma pollard_brent_divides:
  assumes "pollard_brent n = Some d" "1 < n"
  shows "d dvd n \<and> 1 < d \<and> d < n"
proof -
  have d: "d dvd n" "0 \<le> d" "d \<noteq> 1" "d \<noteq> n" using pollard_from_divides assms(1) unfolding pollard_brent_def by blast+
  moreover have "d \<noteq> 0" using d(1) assms(2) by auto
  moreover have "d \<le> n" using d(1) assms(2) by (simp add: zdvd_imp_le)
  ultimately show ?thesis by simp
qed

section \<open>Factors\<close>

lemma is_prime_big_total: "n < TWO_POW_64 \<Longrightarrow> \<not> isl (is_prime_big n)"
proof -
  assume n: "n < TWO_POW_64"
  have passes: "\<not> isl (passes_bases n d s bases)" if pos: "1 < n" "0 \<le> d" for d s bases
  proof (induction bases)
    case (Cons b bases)
    obtain x where "mod_pow (b smod n) d n = Inr x"
      using pos digit_count_64 [of n] n by (simp add: mod_pow_exact)
    then have "passes_bases n d s (b # bases) = (if b smod n = 0 \<or> x = 1 \<or> x = n - 1 \<or> meets_minus_one n x (s - 1)
        then passes_bases n d s bases else Inr False)" by (simp add: Let_def)
    then show ?case using Cons by simp
  qed simp
  show ?thesis
  proof (cases "n < 2")
    case False
    obtain d s where ds: "split_twos (n - 1) 0 = (d, s)" by fastforce
    then have "0 < d" using split_twos_product [OF ds] False by simp
    then have "\<not> isl (passes_bases n d s MILLER_RABIN_BASES)" using passes False by simp
    then show ?thesis using n False ds by (simp add: is_prime_big_def assert_deterministic_range_def split: option.split)
  qed (simp add: is_prime_big_def)
qed

definition splits_into :: "int \<Rightarrow> math_error + int list \<Rightarrow> bool" where
  "splits_into n y \<longleftrightarrow> (\<exists>ps. y = Inr ps \<and> prod_list ps = n \<and> (\<forall>p\<in>set ps. 1 < p \<and> is_prime_big p = Inr True))"

lemma factor_large_factors:
  assumes "factor_large n = Some y"
  shows "0 < n \<and> n < TWO_POW_64 \<longrightarrow> splits_into n y"
proof (rule factor_large.raw_induct [where P = "\<lambda>n y. 0 < n \<and> n < TWO_POW_64 \<longrightarrow> splits_into n y", OF _ assms])
  fix rec :: "int \<Rightarrow> (math_error + int list) option" and n y
  assume ih: "\<And>n y. rec n = Some y \<Longrightarrow> 0 < n \<and> n < TWO_POW_64 \<longrightarrow> splits_into n y"
    and run: "(if n = 1 then Some (Inr [])
      else if is_prime_big n = Inr True then Some (Inr [n])
      else if isl (is_prime_big n) then Some (Inl (projl (is_prime_big n)))
      else Option.bind (pollard_brent n) (\<lambda>d.
           Option.bind (rec d) (\<lambda>first.
             if isl first then Some first
             else Option.bind (rec (n sdiv d)) (\<lambda>second. Some (rbind first (\<lambda>ps. rbind second (\<lambda>qs. Inr (ps @ qs)))))))) = Some y"
  show "0 < n \<and> n < TWO_POW_64 \<longrightarrow> splits_into n y"
  proof
    assume n: "0 < n \<and> n < TWO_POW_64"
    show "splits_into n y"
    proof (cases "n = 1 \<or> is_prime_big n = Inr True")
      case True
      show ?thesis
      proof (cases "n = 1")
        case False
        then have "y = Inr [n]" using run True by simp
        then show ?thesis using True False n by (simp add: splits_into_def)
      qed (use run in \<open>auto simp: splits_into_def\<close>)
    next
      case False
      then have "\<not> isl (is_prime_big n)" using is_prime_big_total n by blast
      then obtain d first where d: "pollard_brent n = Some d" "rec d = Some first"
        using run False by (auto simp: bind_eq_Some_conv)
      then have dn: "d dvd n" "1 < d" "d < n" using pollard_brent_divides [of n d] n False by auto
      then obtain ps where ps: "first = Inr ps" "prod_list ps = d" "\<forall>p\<in>set ps. 1 < p \<and> is_prime_big p = Inr True"
        using ih [OF d(2)] n by (auto simp: splits_into_def)
      then obtain second where second: "rec (n sdiv d) = Some second" "y = rbind second (\<lambda>qs. Inr (ps @ qs))"
        using run False d \<open>\<not> isl (is_prime_big n)\<close> by (auto simp: bind_eq_Some_conv)
      have m: "n sdiv d = n div d" "0 < n div d" "n div d < n" "d * (n div d) = n"
        using dn n by (simp_all add: sdiv_exact pos_imp_zdiv_pos_iff int_div_less_self)
      then obtain qs where "second = Inr qs" "prod_list qs = n div d" "\<forall>p\<in>set qs. 1 < p \<and> is_prime_big p = Inr True"
        using ih [OF second(1)] n by (auto simp: splits_into_def)
      then show ?thesis using ps second(2) m(4) by (auto simp: splits_into_def)
    qed
  qed
qed

lemma trial_start:
  assumes "0 < n"
  shows "trial_state n 5 (divide_out 3 (divide_out 2 (n, [])))"
proof -
  have "trial_state n 2 (n, [])" using assms by (auto simp: trial_state_def)
  then have "trial_state n 3 (divide_out 2 (n, []))" using trial_divide [of n 2] by simp
  then have "trial_state n 4 (divide_out 3 (divide_out 2 (n, [])))" using trial_divide [of n 3] by simp
  then show ?thesis using trial_skip [of n 4 _ 2] by simp
qed

text \<open>What is left after the wheel has no divisor between 1 and \<open>p\<close>.\<close>

lemma composite_above:
  assumes left: "\<forall>d. 1 < d \<and> d < p \<longrightarrow> \<not> d dvd n" and q: "1 < q" "q dvd n" "\<not> prime_int q" and p: "0 \<le> p"
  shows "p * p \<le> q"
proof -
  obtain d where d: "1 < d" "d dvd q" "d * d \<le> q" by (rule composite_divisor [OF q(1,3)])
  then have "p \<le> d" using left q(2) by (meson dvd_trans not_less)
  then have "p * p \<le> d * d" using p by (intro mult_mono) simp_all
  then show ?thesis using d(3) by simp
qed

lemma prod_list_sort: "prod_list (sort xs) = prod_list xs" for xs :: "int list"
  by (metis prod_mset_prod_list mset_sort)

lemma prod_list_member: "x \<in> set xs \<Longrightarrow> x dvd prod_list xs" for xs :: "int list"
  by (induction xs) auto

text \<open>What \<open>primeFactors\<close> promises of a factor of \<open>n\<close>, and of the list it returns.\<close>

definition factor_found :: "int \<Rightarrow> bool" where
  "factor_found p \<longleftrightarrow> prime_int p \<or> TRIAL_LIMIT * TRIAL_LIMIT < p \<and> is_prime_big p = Inr True"

lemma leftover_factors:
  assumes state: "trial_state input p (n, out)" and p: "5 \<le> p" and stop: "\<not> (p \<le> TRIAL_LIMIT \<and> p * p \<le> n)" and n: "1 < n"
  shows "n \<le> TRIAL_LIMIT * TRIAL_LIMIT \<Longrightarrow> prime_int n"
    and "\<lbrakk>TRIAL_LIMIT * TRIAL_LIMIT < n; q dvd n; 1 < q; is_prime_big q = Inr True\<rbrakk> \<Longrightarrow> factor_found q"
    and "\<lbrakk>q dvd n; 1 < q\<rbrakk> \<Longrightarrow> p \<le> q"
proof -
  have left: "\<forall>d. 1 < d \<and> d < p \<longrightarrow> \<not> d dvd n" using state by (simp add: trial_state_def)
  have beyond: "TRIAL_LIMIT * TRIAL_LIMIT < p * p" if "TRIAL_LIMIT < p"
    using that by (intro mult_strict_mono) (simp_all add: TRIAL_LIMIT_def)
  show "prime_int n" if "n \<le> TRIAL_LIMIT * TRIAL_LIMIT"
  proof (rule ccontr)
    assume "\<not> prime_int n"
    then have "p * p \<le> n" using composite_above [OF left n] p by simp
    then show False using stop that beyond by linarith
  qed
  show "factor_found q" if q: "TRIAL_LIMIT * TRIAL_LIMIT < n" "q dvd n" "1 < q" "is_prime_big q = Inr True"
  proof (cases "prime_int q")
    case False
    have "TRIAL_LIMIT < p"
    proof (rule ccontr)
      assume "\<not> TRIAL_LIMIT < p"
      then have "p * p \<le> TRIAL_LIMIT * TRIAL_LIMIT" using p by (intro mult_mono) simp_all
      then show False using stop q(1) \<open>\<not> TRIAL_LIMIT < p\<close> by linarith
    qed
    moreover have "p * p \<le> q" using composite_above [OF left q(3,2) False] p by simp
    ultimately show ?thesis using beyond q(4) by (simp add: factor_found_def)
  qed (simp add: factor_found_def)
  show "p \<le> q" if "q dvd n" "1 < q" using left that by (meson not_less)
qed

lemma leftover_sorted:
  assumes state: "trial_state input p (n, out)" and rest: "prod_list rest = n" "\<forall>q\<in>set rest. p \<le> q \<and> factor_found q"
  shows "sorted (out @ sort rest)" "prod_list (out @ sort rest) = input" "list_all factor_found (out @ sort rest)"
  using assms by (force simp: trial_state_def sorted_append, simp add: trial_state_def prod_list_sort,
    auto simp: trial_state_def list_all_iff factor_found_def)

definition searched :: "int list \<Rightarrow> int \<Rightarrow> (math_error + int list) option" where
  "searched out m = Option.bind (factor_large m) (\<lambda>found. case found of Inl e \<Rightarrow> Some (Inl e) | Inr rest \<Rightarrow> Some (Inr (out @ sort rest)))"

lemma searched_Some:
  "Some (Inr ps) = searched out m \<longleftrightarrow> (\<exists>rest. factor_large m = Some (Inr rest) \<and> ps = out @ sort rest)"
  "Some (Inl e) = searched out m \<longleftrightarrow> factor_large m = Some (Inl e)"
  "searched out m = Some (Inr ps) \<longleftrightarrow> (\<exists>rest. factor_large m = Some (Inr rest) \<and> ps = out @ sort rest)"
  "searched out m = Some (Inl e) \<longleftrightarrow> factor_large m = Some (Inl e)"
  by (cases "factor_large m"; auto simp: searched_def split: sum.split)+

lemma prime_factors_run:
  assumes "2 \<le> n" "n < TWO_POW_64"
  obtains m out p where "trial_state n p (m, out)" "5 \<le> p" "\<not> (p \<le> TRIAL_LIMIT \<and> p * p \<le> m)" "0 < m" "m \<le> n"
    "prime_factors_big n = (if m > 1 then if m \<le> TRIAL_LIMIT * TRIAL_LIMIT then Some (Inr (out @ [m])) else searched out m else Some (Inr out))"
proof -
  obtain m out where w: "wheel 5 (divide_out 3 (divide_out 2 (n, []))) = (m, out)" by (cases "wheel 5 (divide_out 3 (divide_out 2 (n, [])))")
  obtain p where p: "trial_state n p (m, out)" "5 \<le> p" "\<not> (p \<le> TRIAL_LIMIT \<and> p * p \<le> m)"
    using wheel_state [OF trial_start, of n] assms w by auto
  then have "0 < m" "m dvd n" by (auto simp: trial_state_def)
  moreover from this have "m \<le> n" using assms by (simp add: zdvd_imp_le)
  ultimately show thesis using that [OF p] assms w by (simp add: prime_factors_big_def assert_deterministic_range_def searched_def)
qed

text \<open>Every list that is returned is right, and up to the square of the trial limit one is.\<close>

lemma found_factors:
  assumes "prime_factors_big n = Some (Inr ps)"
  shows "0 \<le> n \<and> n < TWO_POW_64 \<and> (if n < 2 then ps = [] else prod_list ps = n) \<and> sorted ps \<and> list_all factor_found ps"
proof (cases "2 \<le> n \<and> n < TWO_POW_64")
  case True
  then obtain m out p where p: "trial_state n p (m, out)" "5 \<le> p" "\<not> (p \<le> TRIAL_LIMIT \<and> p * p \<le> m)" "0 < m" "m \<le> n"
    and run: "prime_factors_big n = (if m > 1 then if m \<le> TRIAL_LIMIT * TRIAL_LIMIT then Some (Inr (out @ [m])) else searched out m else Some (Inr out))" by (metis prime_factors_run)
  obtain rest where rest: "ps = out @ sort rest" "prod_list rest = m" "\<forall>q\<in>set rest. p \<le> q \<and> factor_found q"
  proof (cases "m = 1")
    case True
    then show thesis using that [of "[]"] run assms by simp
  next
    case False
    then have m: "1 < m" using p(4) by simp
    note left = leftover_factors [OF p(1-3) m]
    show thesis
    proof (cases "m \<le> TRIAL_LIMIT * TRIAL_LIMIT")
      case True
      then show thesis using that [of "[m]"] left run assms m by (simp add: factor_found_def)
    next
      case False
      then obtain rest where "factor_large m = Some (Inr rest)" "ps = out @ sort rest"
        using run assms m by (auto simp: searched_Some)
      moreover from this have "prod_list rest = m" "\<forall>q\<in>set rest. 1 < q \<and> is_prime_big q = Inr True"
        using factor_large_factors [of m "Inr rest"] True p(4,5) by (auto simp: splits_into_def)
      ultimately show thesis using that left(2,3) False prod_list_member by (metis not_le)
    qed
  qed
  then show ?thesis using leftover_sorted [OF p(1) rest(2,3)] True by simp
qed (use assms in \<open>auto simp: prime_factors_big_def assert_deterministic_range_def TWO_POW_64_def split: if_splits\<close>)

lemma small_factors:
  assumes "1 \<le> n" "n \<le> TRIAL_LIMIT * TRIAL_LIMIT"
  shows "\<exists>ps. prime_factors_big n = Some (Inr ps) \<and> list_all prime_int ps"
proof -
  have "\<exists>ps. prime_factors_big n = Some (Inr ps)"
  proof (cases "n < 2")
    case False
    then have "2 \<le> n" "n < TWO_POW_64" using assms(2) by (simp_all add: TRIAL_LIMIT_def TWO_POW_64_def)
    then show ?thesis using assms(2) by (elim prime_factors_run) auto
  qed (use assms(1) in \<open>simp add: prime_factors_big_def\<close>)
  then obtain ps where ps: "prime_factors_big n = Some (Inr ps)" ..
  have "prime_int p" if "p \<in> set ps" for p
  proof -
    have "p dvd n" "factor_found p" using found_factors [OF ps] that prod_list_member [OF that] by (auto simp: list_all_iff split: if_splits)
    moreover have "p \<le> n" using \<open>p dvd n\<close> assms(1) by (simp add: zdvd_imp_le)
    ultimately show ?thesis using assms(2) by (simp add: factor_found_def)
  qed
  then show ?thesis using ps by (simp add: list_all_iff)
qed

lemma factors_refused:
  "prime_factors_big n = Some (Inl e) \<Longrightarrow> if n < 0 then e = BadMathArgument else e = NumericRange \<and> TWO_POW_64 \<le> n"
proof (cases "2 \<le> n \<and> n < TWO_POW_64")
  case True
  assume refused: "prime_factors_big n = Some (Inl e)"
  from True obtain m out p where "0 < m" "m \<le> n" "prime_factors_big n = (if m > 1 then if m \<le> TRIAL_LIMIT * TRIAL_LIMIT then Some (Inr (out @ [m])) else searched out m else Some (Inr out))" by (metis prime_factors_run)
  then have "factor_large m = Some (Inl e)" using refused by (auto simp: searched_Some split: if_splits)
  then show ?thesis using factor_large_factors [of m "Inl e"] True \<open>0 < m\<close> \<open>m \<le> n\<close> by (simp add: splits_into_def)
qed (auto simp: prime_factors_big_def assert_deterministic_range_def split: if_splits)

text \<open>
  C11: The factors of a number are right: what \<open>primeFactors\<close> returns for a number from 2 below 2 to
  the 64 is sorted and multiplies to the number, and every factor is a prime, except that one above
  \<open>TRIAL_LIMIT\<close> squared may only be a number that passes \<open>isPrime\<close>. Below 2 there are none. A
  negative number and one from 2 to the 64 on are refused. Only above \<open>TRIAL_LIMIT\<close> squared, where
  Pollard's rho searches, may it not return.
\<close>

theorem prime_factors_right:
  "case prime_factors_big n of
     None \<Rightarrow> TRIAL_LIMIT * TRIAL_LIMIT < n \<and> n < 2 ^ 64
   | Some (Inl e) \<Rightarrow> if n < 0 then e = BadMathArgument else e = NumericRange \<and> 2 ^ 64 \<le> n
   | Some (Inr ps) \<Rightarrow> 0 \<le> n \<and> n < 2 ^ 64 \<and> (if n < 2 then ps = [] else prod_list ps = n) \<and> sorted ps \<and>
       list_all (\<lambda>p. prime_int p \<or> TRIAL_LIMIT * TRIAL_LIMIT < p \<and> is_prime_big p = Inr True) ps"
proof (cases "prime_factors_big n")
  case None
  then have "1 \<le> n" "n < TWO_POW_64" by (auto simp: prime_factors_big_def assert_deterministic_range_def split: if_splits)
  then show ?thesis using small_factors [of n] None by (force simp: TWO_POW_64_def)
next
  case (Some y)
  then show ?thesis using factors_refused [of n] found_factors [of n]
    by (cases y) (auto simp: TWO_POW_64_def factor_found_def [abs_def])
qed

end
