(* ===== verification/MathDivisors.thy ===== *)
theory MathDivisors
  imports MathFactors
begin

text \<open>
  The divisors of a number: the products of the powers of its prime factors are its divisors, each of
  them once.
\<close>

definition divisors_of :: "int \<Rightarrow> int set" where
  "divisors_of n = {d. 0 < d \<and> d dvd n}"

section \<open>One more prime\<close>

lemma divides_times_power:
  assumes p: "prime_int p" and d: "0 < d" "d dvd a * p ^ k"
  shows "\<exists>c i. i \<le> k \<and> d = c * p ^ i \<and> 0 < c \<and> c dvd a"
  using d
proof (induction k arbitrary: d)
  case 0
  then show ?case by (intro exI [of _ d] exI [of _ 0]) simp
next
  case (Suc k)
  show ?case
  proof (cases "p dvd d")
    case True
    then obtain e where e: "d = p * e" ..
    have p0: "0 < p" using p by (simp add: prime_int_def)
    then have "0 < e" using Suc(2) e by (simp add: zero_less_mult_iff)
    moreover have "p * e dvd p * (a * p ^ k)" using Suc(3) e by (simp add: mult.left_commute)
    then have "e dvd a * p ^ k" using p0 by simp
    ultimately obtain c i where c: "i \<le> k" "e = c * p ^ i" "0 < c" "c dvd a" using Suc(1) by blast
    then have "Suc i \<le> Suc k" "d = c * p ^ Suc i" using e by (simp_all add: mult.left_commute)
    then show ?thesis using c by blast
  next
    case False
    then have "coprime d (p ^ Suc k)" using prime_coprime [OF p] coprime_power_right_iff by blast
    then have "d dvd a" using Suc(3) coprime_dvd_mult_left_iff by blast
    then show ?thesis using Suc(2) by (intro exI [of _ d] exI [of _ 0]) simp
  qed
qed

lemma divisors_times_power:
  assumes p: "prime_int p"
  shows "divisors_of (a * p ^ k) = {c * p ^ i | c i. c \<in> divisors_of a \<and> i \<le> k}"
proof (intro equalityI subsetI)
  fix d
  assume "d \<in> divisors_of (a * p ^ k)"
  then obtain c i where "i \<le> k" "d = c * p ^ i" "0 < c" "c dvd a" using divides_times_power [OF p, of d a k] by (auto simp: divisors_of_def)
  then show "d \<in> {c * p ^ i | c i. c \<in> divisors_of a \<and> i \<le> k}" by (auto simp: divisors_of_def)
next
  fix d
  assume "d \<in> {c * p ^ i | c i. c \<in> divisors_of a \<and> i \<le> k}"
  then obtain c i where d: "d = c * p ^ i" "0 < c" "c dvd a" "i \<le> k" by (auto simp: divisors_of_def)
  moreover have "0 < p" using p by (simp add: prime_int_def)
  ultimately show "d \<in> divisors_of (a * p ^ k)" by (simp add: divisors_of_def mult_dvd_mono le_imp_power_dvd)
qed

lemma with_powers_Suc: "with_powers result p (Suc k) = with_powers result p k @ map (\<lambda>d. d * p ^ Suc k) result"
  by (simp add: with_powers_def)

lemma set_with_powers: "set (with_powers result p k) = {c * p ^ i | c i. c \<in> set result \<and> i \<le> k}"
proof (induction k)
  case (Suc k)
  have "{c * p ^ i | c i. c \<in> set result \<and> i \<le> Suc k} =
      {c * p ^ i | c i. c \<in> set result \<and> i \<le> k} \<union> (\<lambda>d. d * p ^ Suc k) ` set result"
    by (auto simp: le_Suc_eq simp del: power_Suc)
  then show ?case using Suc by (simp only: with_powers_Suc set_append set_map)
qed (simp add: with_powers_def)

lemma distinct_with_powers:
  assumes "distinct result" "1 < p" "\<forall>c\<in>set result. 0 < c \<and> \<not> p dvd c"
  shows "distinct (with_powers result p k)"
proof (induction k)
  case 0
  then show ?case using assms(1) by (simp add: with_powers_def)
next
  case (Suc k)
  have "c * p ^ i \<noteq> d * p ^ Suc k" if "c \<in> set result" "i \<le> k" for c d i
  proof
    assume "c * p ^ i = d * p ^ Suc k"
    also have "Suc k = Suc (k - i) + i" using that by simp
    finally have "c * p ^ i = d * p ^ Suc (k - i) * p ^ i" by (simp only: power_add mult.assoc)
    then have "c = d * p ^ Suc (k - i)" using assms(2) by simp
    then show False using assms(3) that by auto
  qed
  then have "set (with_powers result p k) \<inter> (\<lambda>d. d * p ^ Suc k) ` set result = {}" unfolding set_with_powers by blast
  moreover have "distinct (map (\<lambda>d. d * p ^ Suc k) result)" using assms by (simp add: distinct_map inj_on_def)
  ultimately show ?case using Suc by (simp only: with_powers_Suc distinct_append set_map)
qed

section \<open>All primes\<close>

lemma prime_dvd_power: "\<lbrakk>prime_int p; p dvd a ^ k\<rbrakk> \<Longrightarrow> p dvd a"
  using prime_dvd_product by (induction k) (auto simp: prime_int_def)

lemma takeWhile_replicate: "takeWhile (\<lambda>x. x = p) ps = replicate (length (takeWhile (\<lambda>x. x = p) ps)) p"
  by (induction ps) auto

lemma same_prime_run:
  fixes p :: int
  assumes "sorted (p # ps)"
  shows "prod_list (p # ps) = p ^ Suc (length (takeWhile (\<lambda>x. x = p) ps)) * prod_list (dropWhile (\<lambda>x. x = p) ps)"
    and "q \<in> set (dropWhile (\<lambda>x. x = p) ps) \<Longrightarrow> p < q"
proof -
  have "prod_list ps = prod_list (takeWhile (\<lambda>x. x = p) ps @ dropWhile (\<lambda>x. x = p) ps)" by simp
  also have "\<dots> = p ^ length (takeWhile (\<lambda>x. x = p) ps) * prod_list (dropWhile (\<lambda>x. x = p) ps)"
    by (subst takeWhile_replicate) (simp only: prod_list.append prod_list_replicate)
  finally show "prod_list (p # ps) = p ^ Suc (length (takeWhile (\<lambda>x. x = p) ps)) * prod_list (dropWhile (\<lambda>x. x = p) ps)"
    by (simp add: mult.assoc)
  show "p < q" if "q \<in> set (dropWhile (\<lambda>x. x = p) ps)" using assms that by (induction ps) (auto split: if_splits)
qed

lemma divisors_loop_divisors:
  "\<lbrakk>distinct result; set result = divisors_of a; 0 < a; sorted ps; \<forall>p\<in>set ps. prime_int p \<and> \<not> p dvd a\<rbrakk> \<Longrightarrow>
   distinct (divisors_loop result ps) \<and> set (divisors_loop result ps) = divisors_of (a * prod_list ps)"
proof (induction result ps arbitrary: a rule: divisors_loop.induct)
  case (2 result p ps)
  let ?k = "length (takeWhile (\<lambda>x. x = p) ps)" and ?rest = "dropWhile (\<lambda>x. x = p) ps"
  note run = same_prime_run [OF 2(5)]
  have p: "prime_int p" "1 < p" "\<not> p dvd a" using 2(6) by (simp_all add: prime_int_def)
  have "\<forall>c\<in>set result. 0 < c \<and> \<not> p dvd c" using 2(3) p(3) by (auto simp: divisors_of_def dest: dvd_trans)
  then have "distinct (with_powers result p (Suc ?k))" by (intro distinct_with_powers 2(2) p(2))
  moreover have "set (with_powers result p (Suc ?k)) = divisors_of (a * p ^ Suc ?k)"
    unfolding set_with_powers divisors_times_power [OF p(1)] 2(3) ..
  moreover have "0 < a * p ^ Suc ?k" "sorted ?rest" using 2(4,5) p(2) by (simp_all add: sorted_dropWhile)
  moreover have "\<not> q dvd a * p ^ Suc ?k" "prime_int q" if "q \<in> set ?rest" for q
  proof -
    have q: "prime_int q" "\<not> q dvd a" "p < q" using 2(6) that run(2) by (auto dest: set_dropWhileD)
    then have "\<not> q dvd p" using p(2) by (auto dest: zdvd_imp_le)
    then show "\<not> q dvd a * p ^ Suc ?k" "prime_int q" using q prime_dvd_product prime_dvd_power by blast+
  qed
  ultimately have "distinct (divisors_loop (with_powers result p (Suc ?k)) ?rest) \<and>
      set (divisors_loop (with_powers result p (Suc ?k)) ?rest) = divisors_of (a * p ^ Suc ?k * prod_list ?rest)"
    by (intro 2(1)) auto
  then show ?case unfolding run(1) by (simp only: divisors_loop.simps mult.assoc)
qed simp

lemma sort_divisors:
  assumes "sorted ps" "list_all prime_int ps"
  shows "sort (divisors_loop [1] ps) = sorted_list_of_set {d. 0 < d \<and> d dvd prod_list ps}"
proof -
  have "divisors_of 1 = {1}" by (auto simp: divisors_of_def)
  moreover have "\<not> p dvd 1" if "p \<in> set ps" for p using assms(2) that by (auto simp: prime_int_def list_all_iff)
  ultimately have "distinct (divisors_loop [1] ps)" "set (divisors_loop [1] ps) = divisors_of (prod_list ps)"
    using divisors_loop_divisors [of "[1]" 1 ps] assms by (auto simp: list_all_iff)
  then show ?thesis unfolding divisors_of_def [symmetric]
    by (metis sorted_list_of_set_sort_remdups distinct_remdups_id)
qed

text \<open>
  C12: \<open>divisors\<close> returns the divisors of a number, all of them, each once and in ascending order: for
  every number from 1 to the square of \<open>TRIAL_LIMIT\<close>, and for every number above whose factors
  \<open>primeFactors\<close> finds and are primes.
\<close>

theorem divisors_exact:
  assumes "1 \<le> n"
    and "n \<le> TRIAL_LIMIT * TRIAL_LIMIT \<or> prime_factors_big n = Some (Inr ps) \<and> list_all prime_int ps"
  shows "divisors_big n = Some (Inr (sorted_list_of_set {d. 0 < d \<and> d dvd n}))"
proof -
  obtain qs where qs: "prime_factors_big n = Some (Inr qs)" "list_all prime_int qs"
    using assms(2) small_factors [OF assms(1)] by blast
  then have "sorted qs" "prod_list qs = n" using found_factors [OF qs(1)] assms(1) by (auto split: if_splits)
  then show ?thesis using sort_divisors [OF _ qs(2)] qs(1) assms(1) by (simp add: divisors_big_def)
qed

lemma divisors_exact_witness: "divisors_big 28 = Some (Inr [1, 2, 4, 7, 14, 28])"
proof -
  have "{d. 0 < d \<and> d dvd (28 :: int)} = set [1, 2, 4, 7, 14, 28]"
  proof -
    have "{d. 0 < d \<and> d dvd (28 :: int)} = set (filter (\<lambda>d. d dvd 28) [1..28])" by (auto dest: zdvd_imp_le)
    also have "filter (\<lambda>d. d dvd 28) [1..28] = [1, 2, 4, 7, 14, 28 :: int]" by code_simp
    finally show ?thesis .
  qed
  then have "sorted_list_of_set {d. 0 < d \<and> d dvd (28 :: int)} = [1, 2, 4, 7, 14, 28]"
    by (simp only: sorted_list_of_set_sort_remdups) simp
  then show ?thesis using divisors_exact [of 28] by (simp add: TRIAL_LIMIT_def)
qed

end
