(* ===== verification/Spec2Isabelle.thy ===== *)
theory Spec2Isabelle
  imports ArkiPrelude LockProps LockLine MoneyAllocate MoneyParse MoneyExchange ExprGrown OfflineProps JournalCases StringUtf8 MathBeyond MathProps MathNumbers MathDivisors
begin

text \<open>
  A verification development for the Arki libraries: the parts of \<open>src/packages\<close> whose correctness
  rests on their own logic - locks, amounts of money, expressions, the offline queue of mutations, the
  workflow journal, base64 and UTF-8, exact numbers and number theory. This theory holds no
  definitions; it brings the others together and says how they fit. Each theory names the source file
  it models in its first paragraph, and its definitions carry the names of the source in underscore
  spelling (\<open>createKey\<close> is \<open>create_key\<close>).

  Conventions. A thrown error is an \<open>Inl\<close> of an error datatype (its message is left out), a result an
  \<open>Inr\<close>; \<open>rbind\<close> sequences them. Mutable variables of a class or a closure are a record that every
  operation takes and returns. A JavaScript \<open>Map\<close> that is iterated is an association list in insertion
  order. A bigint is an \<open>int\<close> with truncating division (\<open>sdiv\<close>, \<open>smod\<close>); a \<open>number\<close> that holds a whole
  number is an \<open>int\<close> whose sums and products go through \<open>rnd53\<close>, rounding to 53 bits with ties to even;
  where the code uses bitwise operators the values are words of 32 or 8 bits. Texts are lists of UTF-16
  code units where the code looks at units or code points (keys, expressions, base64, typed amounts),
  lists of characters where it only reads ASCII syntax. What the environment answers - the clock, a
  key-value store, a remote call, other runs, \<open>Intl\<close>, a floating-point logarithm that refuses a result
  early - is an argument of the definitions, and the theorems hold for all answers unless they say
  otherwise.
\<close>

section \<open>Locks\<close>

text \<open>
  \<open>packages/lock/src\<close>. \<open>LockKey\<close> models \<open>key.ts\<close> and the decoder of \<open>identity-schemas.ts\<close>: a canonical key
  is a tag and two length-prefixed members. A text decodes to a namespace and a name exactly if it was
  built from them, so two locks never share a key; the inline digest is FNV-1a over UTF-8.

  \<open>LockMemory\<close> models \<open>memoryStore()\<close> of \<open>memory.ts\<close>: mutexes, semaphores and read/write locks with
  waiters, hand-over reservations, watchers and fences, on one record \<open>store\<close>. Each method is one
  definition, the whole of what runs between two awaits. \<open>LockLine\<close> justifies the one abstraction
  made there: the pointer updates on the doubly linked line do to the heap what append and removal do
  to the list of sessions. \<open>LockMemoryInv\<close> states the invariant per key, \<open>LockMutex\<close>, \<open>LockPermits\<close> and
  \<open>LockShared\<close> show each operation keeps it, \<open>LockRun\<close> makes the calls an inductive step relation with
  its reachable states. \<open>LockSpec\<close> is the abstract promise - an account of granted, unreleased holds per
  key - which the store implements call by call; \<open>LockWatch\<close> adds what watchers are owed; \<open>LockProps\<close>
  states the results: holds never conflict, no waiter is forgotten unless it asked for more permits
  than its pool's limit (\<open>too_heavy\<close>; \<open>heavy_waiter_forgotten\<close> is a run that forgets such a waiter, which
  the store does not refuse), a closed waiter leaves no trace, a waiting writer goes first. The locale \<open>lock_ops\<close> is the contract the manager in \<open>locks.ts\<close> uses, and
  all three primitives are interpretations of it.

  Bounds and limits: counters are unbounded (the code's pass no realistic count); the calls respect
  what \<open>locks.ts\<close> respects (see \<open>LockRun\<close>). Not modelled: the manager (timers, abort signals, renewal)
  and the stores whose logic is SQL or Lua text.
\<close>

section \<open>Money\<close>

text \<open>
  \<open>packages/money/src\<close>. \<open>MoneyUnits\<close> and \<open>MoneyDecimal\<close> model \<open>internal/units.ts\<close>: amounts are numbers
  while they are safe integers and bigints beyond; both paths are shown to give the exact canonical
  result. The locale \<open>exact_units\<close> is what \<open>Money\<close> (\<open>money.ts\<close>) needs of it. \<open>MoneyCurrency\<close> is
  \<open>currency.ts\<close> with the packed ISO table. \<open>MoneyAllocate\<close> is \<open>allocate\<close> and \<open>split\<close>: no unit is lost, the
  shares are fair. \<open>MoneyText\<close> is the text and JSON form, which reads back; \<open>MoneyParse\<close> is \<open>parse.ts\<close>, the
  strict reader of typed amounts; \<open>MoneyExchange\<close> is \<open>exchange.ts\<close>, rates as reduced fractions and the
  converter with its memory. Not modelled: formatting through \<open>Intl\<close>.
\<close>

section \<open>Expressions\<close>

text \<open>
  \<open>packages/expr/src\<close>. \<open>ExprSyntax\<close> holds trees, budgets and language tables (\<open>ast.ts\<close>, \<open>limits.ts\<close>,
  \<open>syntax.ts\<close>, \<open>language.ts\<close>), \<open>ExprLexer\<close> is \<open>lexer.ts\<close>, \<open>ExprParser\<close> is \<open>parser.ts\<close> with one function per
  method - they are mutually recursive, and a measure over the tokens left and the method's level shows
  that they end for every text, so no fuel is used - and \<open>ExprPrint\<close> is \<open>print.ts\<close>. \<open>ExprTokens\<close>,
  \<open>ExprReading\<close> and \<open>ExprRoundTrip\<close> show that a tree printed in canonical style reads back to the same
  tree; \<open>ExprParsed\<close> and \<open>ExprGrown\<close> show that whatever the text, a tree the parser returns is well formed
  and within the budgets. Not modelled: the compilers to numeric domains, JSON and LaTeX forms.
\<close>

section \<open>The offline queue\<close>

text \<open>
  \<open>packages/offline/src/mutations\<close>. \<open>OfflineStore\<close> holds the stored cells and the dead-letter store,
  \<open>OfflineReplay\<close> the replay pass of \<open>replay.ts\<close>, \<open>OfflineQueue\<close> the public operations of \<open>queue.ts\<close>. Every
  awaited answer - the store may fail before or after a write, the call may be accepted, refused or
  unreachable, the actor may change - is taken from a record indexed by a counter, so a theorem covers
  every order of failures. \<open>OfflineView\<close> abstracts a stored list that is read, changed and written back
  to the locale \<open>saved_list\<close>, interpreted by the queue and the dead letters; \<open>OfflineSteps\<close> shows that the
  loop refines the abstract steps, \<open>OfflineDrain\<close> what a pass does, \<open>OfflineProps\<close> the results: a pass loses
  no mutation, none is accepted more often than once and once again for each retry by hand and each
  reload of the page, order and actor are kept. A use of the queue (\<open>used\<close>) is a sequence of calls one
  after the other, with enqueues inside a pass while it waits for a call or a delay; calls that
  overlap a read and a write of the stored list are written as their parts, and two lemmas show what
  they break (\<open>overlapping_enqueues_lose_one\<close>, \<open>stale_enqueue_restores_sent\<close>). The endless loop of one entry is a partial
  function; it returns when the retry schedule gives up after some count (\<open>gives_up\<close>), with a bound on
  the calls. Not modelled: listeners, telemetry, the serialized text, query persistence.
\<close>

section \<open>The workflow journal\<close>

text \<open>
  \<open>packages/journal/src\<close>. \<open>JournalFold\<close> is the fold that write and replay share (\<open>fold.ts\<close>, \<open>entity.ts\<close>); its
  locale \<open>identified_rows\<close> is interpreted by the run. \<open>JournalData\<close>, \<open>JournalRun\<close> and \<open>JournalSteps\<close> are
  the events, reducers and step projection of \<open>workflow/machine.ts\<close>. \<open>JournalSaga\<close>, \<open>JournalRunner\<close>,
  \<open>JournalCalls\<close> and \<open>JournalVerbs\<close> are the decisions of \<open>workflow/runner.ts\<close>: the checkpoint of an attempt,
  timers, waits, signals, cancel, compensation and the operator's verbs, each as the events it writes;
  a history is a sequence of such calls with the answers of the rest of the system. \<open>JournalUndo\<close>,
  \<open>JournalPlace\<close>, \<open>JournalKept\<close> and \<open>JournalDoors\<close> build the invariant - the account of what was done and
  undone fits the place the run is at - and \<open>JournalHistory\<close> lifts it to histories. The results, in
  \<open>JournalProps\<close>, \<open>JournalStored\<close>, \<open>JournalOnce\<close> and \<open>JournalFields\<close>: a saga undoes what was done, once,
  newest first, and ends; a stored run is its log; a finished run stays as it is; an attempt is taken
  once until it is scheduled or failed anew. \<open>JournalCases\<close> runs a concrete workflow through them.

  The results about sagas assume reports in time (\<open>proper_history\<close>: an outcome fits its phase, and a
  failed attempt is not reported again while its run compensates); \<open>JournalOnce\<close> shows with concrete
  histories what happens otherwise. Not modelled: the start, join and settlement of other runs, the
  tables of jobs and timers, the search of the log by event waits, bodies of steps, limits and worker.
\<close>

section \<open>Base64 and UTF-8\<close>

text \<open>
  \<open>packages/string/src/base64.ts\<close>, in \<open>StringBase64\<close>. \<open>StringTables\<close>, \<open>StringExact\<close> and \<open>StringRoundTrip\<close>
  show that decoding accepts exactly what encoding produces, padding and unused bits included, under
  every choice of alphabet and padding; \<open>StringUtf8\<close> the same for UTF-8 texts.
\<close>

section \<open>Exact numbers\<close>

text \<open>
  \<open>packages/math/src/internal\<close>. \<open>MathBigint\<close> has the limits, division with a rounding mode and fractions as
  decimals, \<open>MathExact\<close> the class \<open>Decimal\<close> with its syntax, \<open>MathRational\<close> the class \<open>Rational\<close>.
  \<open>MathRounding\<close> states rounding as a contract over the rational numbers and shows that division meets
  it; \<open>MathQuotient\<close> shows that a quotient of ordinary decimals meets no limit; \<open>MathArith\<close>, \<open>MathDecimal\<close>, \<open>MathText\<close> and \<open>MathProps\<close> show that arithmetic is exact and texts read
  back; \<open>MathClosest\<close> that \<open>approximate\<close> finds the closest fraction with a denominator up to a limit;
  \<open>MathNumbers\<close> has what both classes have in common as the locales \<open>compared_numbers\<close>, \<open>exact_numbers\<close> and
  \<open>best_of\<close>, with the aggregates of decimals; \<open>MathBeyond\<close> an exact quotient whose text is refused.

  Results are refused past 10000 digits. The theorems name sizes of operands that never meet a limit:
  4999 digits for one operation (\<open>half_digits\<close>), 2000 for \<open>approximate\<close> (\<open>fifth_digits\<close>), 1000 digits and
  decimals for a quotient of decimals, with an asked scale up to 5000 (\<open>quotient_fits\<close>), and for a sum
  fewer than 10 to the 20 decimals of 4990 digits and decimals (\<open>sum_fits\<close>). The guards on
  recursive functions (\<open>strip_factor\<close>, \<open>convergents\<close>) only exclude arguments the code never passes. Not
  modelled: conversion to doubles and everything built on floating point.
\<close>

section \<open>Number theory\<close>

text \<open>
  \<open>packages/math/src/integer.ts\<close>, in \<open>MathInteger\<close>. \<open>MathCounting\<close> shows division, factorials, combinations
  and permutations exact - for numbers although the intermediate products round - \<open>MathModular\<close> modular
  powers and inverses, Fibonacci numbers and texts in a base. \<open>MathPrimes\<close> proves Fermat's little theorem
  and that a prime always passes the test of Miller and Rabin; that no composite below 2 to the 64
  passes under the seven bases rests on a published computation and is not claimed, except below 1681.
  \<open>MathFactors\<close> shows that \<open>primeFactors\<close> multiplies back, sorted, with primes up to the square of the
  trial limit, and \<open>MathDivisors\<close> that \<open>divisors\<close> returns all divisors. The search of Pollard's rho may
  not end as far as is proved: it is a partial function, and a result of \<open>None\<close> is excluded below the
  square of the trial limit only.
\<close>

end
